(* ===== verification/Xv6_Prelude.thy ===== *)
theory Xv6_Prelude
  imports Main "HOL-Library.Word"
begin

unbundle bit_operations_syntax

text \<open>
  Shared vocabulary of the development: the C integer types of \<^verbatim>\<open>kernel/types.h\<close>, the
  outcome type of a kernel routine, byte-addressed memory with little-endian loads and
  stores, and the lemma collections the components use.

  A kernel routine is a function from a state to an \<open>out\<close> value.  \<open>Ok r s\<close> is a normal
  return, \<open>Panic msg\<close> a call of \<^verbatim>\<open>panic(msg)\<close> (which never returns), \<open>Spin\<close> a busy-wait on
  a condition that only another processor can change (or a loop that exceeds its bound), and
  \<open>Swtch s k\<close> the point at which the routine calls \<^verbatim>\<open>swtch()\<close> with the kernel in state \<open>s\<close>: the
  processor goes to another kernel thread, and when that one switches back in a state \<open>t\<close> the
  routine goes on as \<open>k t\<close>.
\<close>

named_theorems kdefs \<open>definitions unfolded by symbolic execution of a routine\<close>
named_theorems layout \<open>numeric facts about the memory and disk layout\<close>

section \<open>Integer types\<close>

type_synonym u8 = "8 word"
type_synonym u16 = "16 word"
type_synonym u32 = "32 word"
type_synonym u64 = "64 word"
type_synonym i32 = "32 word" \<comment> \<open>C \<open>int\<close>; read as signed with \<open>sint\<close>\<close>
type_synonym byte = u8
type_synonym memory = "u64 \<Rightarrow> u8"

section \<open>Open modes, shared by kernel and user programs\<close>

definition O_RDONLY :: i32 where "O_RDONLY = 0x000"
definition O_WRONLY :: i32 where "O_WRONLY = 0x001"
definition O_RDWR :: i32 where "O_RDWR = 0x002"
definition O_CREATE :: i32 where "O_CREATE = 0x200"
definition O_TRUNC :: i32 where "O_TRUNC = 0x400"

section \<open>Outcomes\<close>

datatype ('a, 's) out = Ok 'a 's | Panic string | Spin | Swtch 's "'s \<Rightarrow> ('a, 's) out"

primrec and_then :: "('a, 's) out \<Rightarrow> ('a \<Rightarrow> 's \<Rightarrow> ('b, 's) out) \<Rightarrow> ('b, 's) out" where
  "and_then (Ok a s) f = f a s"
| "and_then (Panic m) f = Panic m"
| "and_then Spin f = Spin"
| "and_then (Swtch s k) f = Swtch s (\<lambda>t. and_then (k t) f)"

lemma and_then_Ok_iff:
  "and_then m f = Ok b t \<longleftrightarrow> (\<exists>a s. m = Ok a s \<and> f a s = Ok b t)"
  by (cases m) auto

lemma and_then_assoc: "and_then (and_then m f) g = and_then m (\<lambda>a s. and_then (f a s) g)"
  by (induction m) auto

fun is_ok :: "('a, 's) out \<Rightarrow> bool" where
  "is_ok (Ok a s) = True"
| "is_ok _ = False"

text \<open>
  Running a routine against an environment \<open>e\<close>: whenever the routine switches away in state \<open>s\<close>
  it is resumed in state \<open>e s\<close>, the state the rest of the system has reached by then.
\<close>

primrec drive :: "('s \<Rightarrow> 's) \<Rightarrow> ('a, 's) out \<Rightarrow> ('a, 's) out" where
  "drive e (Ok a s) = Ok a s"
| "drive e (Panic m) = Panic m"
| "drive e Spin = Spin"
| "drive e (Swtch s k) = drive e (k (e s))"

lemma drive_and_then: "drive e (and_then m f) = and_then (drive e m) (\<lambda>a s. drive e (f a s))"
  by (induction m) auto

text \<open>A counted loop whose body may fail, and its invariant rule.\<close>

fun for_each :: "('x \<Rightarrow> 's \<Rightarrow> (unit, 's) out) \<Rightarrow> 'x list \<Rightarrow> 's \<Rightarrow> (unit, 's) out" where
  "for_each f [] s = Ok () s"
| "for_each f (x # xs) s = and_then (f x s) (\<lambda>_ s. for_each f xs s)"

text \<open>A sequence of statements.\<close>

abbreviation run_code :: "('s \<Rightarrow> (unit, 's) out) list \<Rightarrow> 's \<Rightarrow> (unit, 's) out" where
  "run_code \<equiv> for_each (\<lambda>f. f)"

lemma and_then_Ok [simp]: "and_then m Ok = m"
  by (induction m) auto

lemma run_code_single [simp]:
  fixes f :: "'s \<Rightarrow> (unit, 's) out"
  shows "run_code [f] = f"
proof -
  have "run_code [] = (Ok () :: 's \<Rightarrow> _)" by (rule ext) simp
  then show ?thesis by (intro ext) simp
qed

lemma for_each_append: "for_each f (xs @ ys) = (\<lambda>s. and_then (for_each f xs s) (\<lambda>_. for_each f ys))"
proof (induction xs)
  case (Cons x xs)
  show ?case by (rule ext) (simp add: Cons.IH and_then_assoc)
qed simp

lemma for_each_map: "for_each f (map g xs) = for_each (\<lambda>x. f (g x)) xs"
proof (induction xs)
  case Nil
  show ?case by (rule ext) simp
next
  case (Cons x xs)
  show ?case by (rule ext) (simp add: Cons.IH)
qed

lemma for_each_inv:
  assumes "I 0 s"
    and "\<And>i s. i < length xs \<Longrightarrow> I i s \<Longrightarrow> \<exists>s'. f (xs ! i) s = Ok () s' \<and> I (Suc i) s'"
  shows "\<exists>s'. for_each f xs s = Ok () s' \<and> I (length xs) s'"
  using assms
proof (induction xs arbitrary: I s)
  case (Cons x xs)
  from Cons.prems(2) [of 0 s] Cons.prems(1) obtain s1 where s1: "f x s = Ok () s1" "I 1 s1"
    by auto
  have "\<exists>s'. for_each f xs s1 = Ok () s' \<and> I (Suc (length xs)) s'"
  proof (rule Cons.IH [of "\<lambda>i. I (Suc i)"])
    show "I (Suc 0) s1" using s1 by simp
    show "\<exists>s'. f (xs ! i) s = Ok () s' \<and> I (Suc (Suc i)) s'" if "i < length xs" "I (Suc i) s" for i s
      using Cons.prems(2) [of "Suc i" s] that by simp
  qed
  with s1 show ?case by simp
qed simp

section \<open>Lists\<close>

lemma nth_eq_take_Suc: "i < length xs \<Longrightarrow> take (Suc i) xs = take i xs @ [xs ! i]"
  by (rule take_Suc_conv_app_nth)

lemma distinct_take_nth:
  "distinct xs \<Longrightarrow> i < length xs \<Longrightarrow> xs ! i \<notin> set (take i xs)"
  by (metis distinct_take id_take_nth_drop not_distinct_conv_prefix
      length_take min.absorb4 nth_eq_take_Suc distinct_append disjoint_iff list.set_intros(1))

section \<open>Words\<close>

lemma unat_add_nowrap:
  fixes a b :: "'a::len word"
  assumes "unat a + unat b < 2 ^ LENGTH('a)"
  shows "unat (a + b) = unat a + unat b"
  using assms by (simp add: unat_word_ariths)

lemma unat_add_of_nat:
  fixes a :: u64
  assumes "unat a + n < 2 ^ 64"
  shows "unat (a + of_nat n) = unat a + n"
  using assms by (simp add: unat_word_ariths unat_of_nat)

lemma unat_diff_le:
  fixes a b :: "'a::len word"
  assumes "b \<le> a"
  shows "unat (a - b) = unat a - unat b"
  using assms by (simp add: unat_sub_if_size word_le_nat_alt)

lemma unat_minus_base:
  fixes a :: u64
  assumes "n < 2 ^ 64"
  shows "unat ((a + of_nat n) - a) = n"
  using assms by (simp add: unat_of_nat)

lemma of_nat_unat_diff: "a + of_nat (unat (x - a)) = (x::u64)"
  by simp

lemma unat_diff_Suc:
  fixes x d :: u64
  assumes "x \<noteq> d"
  shows "unat (x - d) = Suc (unat (x - (d + 1)))"
proof -
  have ne: "x - d \<noteq> 0" using assms by simp
  have "x - (d + 1) = x - d - 1" by (simp add: algebra_simps)
  then have "unat (x - (d + 1)) = unat (x - d) - 1" using unat_minus_one [OF ne] by metis
  moreover have "0 < unat (x - d)" using ne by (simp add: unat_gt_0)
  ultimately show ?thesis by linarith
qed

lemma unat_diff_eqD:
  assumes "unat (x - d) = n"
  shows "x = d + (of_nat n :: u64)"
  using of_nat_unat_diff [of d x] unfolding assms by simp

lemma word_of_nat_inj64: "m < 2 ^ 64 \<Longrightarrow> n < 2 ^ 64 \<Longrightarrow> (of_nat m :: u64) = of_nat n \<longleftrightarrow> m = n"
  by (simp add: word_of_nat_eq_iff take_bit_nat_eq_self)

lemma unat_minus_1_64: "unat (- 1 :: u64) = 2 ^ 64 - 1"
  by (simp add: unsigned_minus_1_eq_mask mask_eq_exp_minus_1)

section \<open>Bytes and words, little endian\<close>

primrec word_of_bytes :: "byte list \<Rightarrow> 'a::len word" where
  "word_of_bytes [] = 0"
| "word_of_bytes (b # bs) = (ucast b OR push_bit 8 (word_of_bytes bs))"

definition bytes_of_word :: "nat \<Rightarrow> 'a::len word \<Rightarrow> byte list" where
  "bytes_of_word n v = map (\<lambda>i. ucast (drop_bit (8 * i) v)) [0..<n]"

lemma length_bytes_of_word [simp]: "length (bytes_of_word n v) = n"
  by (simp add: bytes_of_word_def)

lemma bit_word_of_bytes:
  "bit (word_of_bytes bs :: 'a::len word) k \<longleftrightarrow>
     k < LENGTH('a) \<and> k div 8 < length bs \<and> bit (bs ! (k div 8)) (k mod 8)"
proof (induction bs arbitrary: k)
  case Nil
  then show ?case by simp
next
  case (Cons b bs)
  show ?case
  proof (cases "k < 8")
    case True
    then show ?thesis
      by (auto simp: bit_or_iff bit_push_bit_iff bit_simps)
  next
    case False
    then have k: "k div 8 = Suc ((k - 8) div 8)" "(k - 8) mod 8 = k mod 8"
      by (auto simp: le_div_geq le_mod_geq not_less)
    from False have "\<not> bit b k"
      using bit_imp_le_length [of b k] by auto
    with False k Cons.IH [of "k - 8"] show ?thesis
      by (auto simp: bit_or_iff bit_push_bit_iff bit_simps)
  qed
qed

lemma word_of_bytes_of_word:
  fixes v :: "'a::len word"
  assumes "LENGTH('a) \<le> 8 * n"
  shows "word_of_bytes (bytes_of_word n v) = v"
proof (rule bit_word_eqI)
  fix k
  assume k: "k < LENGTH('a)"
  then have "k div 8 < n" using assms by auto
  moreover have "8 * (k div 8) + k mod 8 = k" by simp
  ultimately show "bit (word_of_bytes (bytes_of_word n v) :: 'a word) k = bit v k"
    using k by (simp add: bit_word_of_bytes bytes_of_word_def bit_simps)
qed

lemma word_of_bytes_zero: "word_of_bytes (replicate n 0) = 0"
  by (induction n) auto

lemma bytes_of_word_of_bytes:
  assumes "8 * length bs \<le> LENGTH('a::len)"
  shows "bytes_of_word (length bs) (word_of_bytes bs :: 'a word) = bs"
proof (rule nth_equalityI)
  show "length (bytes_of_word (length bs) (word_of_bytes bs :: 'a word)) = length bs"
    by simp
next
  fix i
  assume "i < length (bytes_of_word (length bs) (word_of_bytes bs :: 'a word))"
  then have i: "i < length bs" by simp
  have "bit (ucast (drop_bit (8 * i) (word_of_bytes bs :: 'a word)) :: byte) k = bit (bs ! i) k"
    if "k < 8" for k
    using that i assms by (simp add: bit_simps bit_word_of_bytes)
  then show "bytes_of_word (length bs) (word_of_bytes bs :: 'a word) ! i = bs ! i"
    using i by (intro bit_word_eqI) (simp add: bytes_of_word_def)
qed

section \<open>Memory: reading and writing runs of bytes\<close>

definition rd :: "memory \<Rightarrow> u64 \<Rightarrow> nat \<Rightarrow> byte list" where
  "rd m a n = map (\<lambda>i. m (a + of_nat i)) [0..<n]"

definition wr :: "memory \<Rightarrow> u64 \<Rightarrow> byte list \<Rightarrow> memory" where
  "wr m a bs = (\<lambda>x. if unat (x - a) < length bs then bs ! unat (x - a) else m x)"

definition ld64 :: "memory \<Rightarrow> u64 \<Rightarrow> u64" where
  "ld64 m a = word_of_bytes (rd m a 8)"

definition st64 :: "memory \<Rightarrow> u64 \<Rightarrow> u64 \<Rightarrow> memory" where
  "st64 m a v = wr m a (bytes_of_word 8 v)"

text \<open>The bytes of the run of length \<open>n\<close> that starts at \<open>a\<close>.\<close>

definition span :: "u64 \<Rightarrow> nat \<Rightarrow> u64 set" where
  "span a n = {x. unat (x - a) < n}"

lemma length_rd [simp]: "length (rd m a n) = n"
  by (simp add: rd_def)

lemma in_span_iff: "x \<in> span a n \<longleftrightarrow> unat (x - a) < n"
  by (simp add: span_def)

lemma span_add [intro]: "i < n \<Longrightarrow> n \<le> 2 ^ 64 \<Longrightarrow> a + of_nat i \<in> span a n"
  by (simp add: span_def unat_of_nat)

lemma in_spanE:
  assumes "x \<in> span a n"
  obtains i where "i < n" and "x = a + of_nat i"
  using assms of_nat_unat_diff [of a x] by (metis in_span_iff)

lemma wr_outside: "x \<notin> span a (length bs) \<Longrightarrow> wr m a bs x = m x"
  by (simp add: wr_def span_def)

lemma rd_wr_same: "length bs \<le> 2 ^ 64 \<Longrightarrow> rd (wr m a bs) a (length bs) = bs"
  by (rule nth_equalityI) (auto simp: rd_def wr_def unat_of_nat)

lemma rd_cong:
  assumes "\<And>x. x \<in> span a n \<Longrightarrow> m x = m' x" and "n \<le> 2 ^ 64"
  shows "rd m a n = rd m' a n"
proof -
  have "m (a + of_nat i) = m' (a + of_nat i)" if "i < n" for i
    using that assms by (intro assms(1) span_add)
  then show ?thesis by (simp add: rd_def)
qed

lemma ld64_cong: "(\<And>x. x \<in> span a 8 \<Longrightarrow> m x = m' x) \<Longrightarrow> ld64 m a = ld64 m' a"
  unfolding ld64_def by (subst rd_cong [of a 8 m m']) auto

lemma ld64_st64_same [simp]: "ld64 (st64 m a v) a = v"
  using rd_wr_same [of "bytes_of_word 8 v" m a]
  by (simp add: ld64_def st64_def word_of_bytes_of_word)

lemma st64_outside: "x \<notin> span a 8 \<Longrightarrow> st64 m a v x = m x"
  by (simp add: st64_def wr_outside)

lemma ld64_st64_disjoint:
  assumes "span a 8 \<inter> span b 8 = {}"
  shows "ld64 (st64 m a v) b = ld64 m b"
  by (rule ld64_cong, rule st64_outside) (use assms in blast)

lemma ld64_zero:
  assumes "\<And>x. x \<in> span a 8 \<Longrightarrow> m x = 0"
  shows "ld64 m a = 0"
proof -
  have "rd m a 8 = replicate 8 0"
    by (rule nth_equalityI) (auto simp: rd_def intro!: assms)
  then show ?thesis by (simp add: ld64_def word_of_bytes_zero)
qed

lemma wr_Nil [simp]: "wr m a [] = m"
  by (simp add: wr_def)

end
