(* ===== verification/Machine.thy ===== *)
theory Machine
  imports Xv6_Prelude
begin

text \<open>
  Processors and spin locks: \<^verbatim>\<open>kernel/spinlock.c\<close>, the per-CPU part of
  \<^verbatim>\<open>kernel/proc.c\<close> (\<^verbatim>\<open>cpuid\<close>, \<^verbatim>\<open>mycpu\<close>, \<^verbatim>\<open>myproc\<close>) and the interrupt-enable bit of
  \<^verbatim>\<open>kernel/riscv.h\<close>.

  The record \<open>machine\<close> is the root of an extension chain: every later component adds its
  own fields, and a routine of this theory runs unchanged on every extension.  A routine
  is run by the hart \<open>hart s\<close>.  \<open>acquire\<close> on a lock that another hart holds is \<open>Spin\<close>:
  the interleaving of several harts is the subject of the theories \<open>Spinlock_MP\<close> and \<open>Sleep_MP\<close>.

  The main result is that a balanced \<open>acquire\<close>/\<open>release\<close> pair is the function \<open>settle\<close>,
  which changes nothing but the saved-interrupt field \<^verbatim>\<open>intena\<close> that the kernel leaves
  stale when no lock is held.
\<close>

section \<open>State\<close>

datatype slid = SlBuf nat | SlInode nat

datatype lockid =
    LkKmem | LkPid | LkWait | LkProc nat | LkTicks | LkBcache | LkSleep slid | LkLog
  | LkItable | LkFtable | LkPipe u64 | LkCons | LkUart | LkPr | LkVdisk

record spinlock =
  locked :: bool
  lname :: string
  lcpu :: "nat option"

record cpu =
  cproc :: "nat option"
  noff :: int
  intena :: bool
  sie :: bool

record machine =
  hart :: nat
  cpus :: "nat \<Rightarrow> cpu"
  locks :: "lockid \<Rightarrow> spinlock"

section \<open>Operations on one processor\<close>

definition intr_on_cpu :: "cpu \<Rightarrow> cpu" where
  "intr_on_cpu c = c\<lparr>sie := True\<rparr>"

definition intr_off_cpu :: "cpu \<Rightarrow> cpu" where
  "intr_off_cpu c = c\<lparr>sie := False\<rparr>"

definition intr_get_cpu :: "cpu \<Rightarrow> bool" where
  "intr_get_cpu c = sie c"

definition push_off_cpu :: "cpu \<Rightarrow> cpu" where
  "push_off_cpu c =
     (let old = intr_get_cpu c;
          c = intr_off_cpu c;
          c = (if noff c = 0 then c\<lparr>intena := old\<rparr> else c)
      in c\<lparr>noff := noff c + 1\<rparr>)"

definition pop_off_cpu :: "cpu \<Rightarrow> string + cpu" where
  "pop_off_cpu c =
     (if intr_get_cpu c then Inl ''pop_off - interruptible''
      else if noff c < 1 then Inl ''pop_off''
      else let c = c\<lparr>noff := noff c - 1\<rparr>
           in Inr (if noff c = 0 \<and> intena c then intr_on_cpu c else c))"

section \<open>Operations on the machine\<close>

definition cpuid :: "'a machine_scheme \<Rightarrow> nat" where
  "cpuid s = hart s"

definition mycpu :: "'a machine_scheme \<Rightarrow> cpu" where
  "mycpu s = cpus s (cpuid s)"

definition set_mycpu :: "cpu \<Rightarrow> 'a machine_scheme \<Rightarrow> 'a machine_scheme" where
  "set_mycpu c s = s\<lparr>cpus := (cpus s)(cpuid s := c)\<rparr>"

definition intr_on :: "'a machine_scheme \<Rightarrow> 'a machine_scheme" where
  "intr_on s = set_mycpu (intr_on_cpu (mycpu s)) s"

definition intr_off :: "'a machine_scheme \<Rightarrow> 'a machine_scheme" where
  "intr_off s = set_mycpu (intr_off_cpu (mycpu s)) s"

definition intr_get :: "'a machine_scheme \<Rightarrow> bool" where
  "intr_get s = intr_get_cpu (mycpu s)"

definition push_off :: "'a machine_scheme \<Rightarrow> 'a machine_scheme" where
  "push_off s = set_mycpu (push_off_cpu (mycpu s)) s"

definition pop_off :: "'a machine_scheme \<Rightarrow> (unit, 'a machine_scheme) out" where
  "pop_off s =
     (case pop_off_cpu (mycpu s) of Inl m \<Rightarrow> Panic m | Inr c \<Rightarrow> Ok () (set_mycpu c s))"

definition initlock :: "lockid \<Rightarrow> string \<Rightarrow> 'a machine_scheme \<Rightarrow> 'a machine_scheme" where
  "initlock lk nm s =
     s\<lparr>locks := (locks s)(lk := \<lparr>locked = False, lname = nm, lcpu = None\<rparr>)\<rparr>"

definition holding :: "lockid \<Rightarrow> 'a machine_scheme \<Rightarrow> bool" where
  "holding lk s \<longleftrightarrow> locked (locks s lk) \<and> lcpu (locks s lk) = Some (cpuid s)"

text \<open>The steps of \<^verbatim>\<open>acquire\<close> and \<^verbatim>\<open>release\<close> that touch the lock word, one per store.\<close>

definition test_and_set :: "spinlock \<Rightarrow> bool \<times> spinlock" where
  "test_and_set l = (locked l, l\<lparr>locked := True\<rparr>)"

definition record_owner :: "nat \<Rightarrow> spinlock \<Rightarrow> spinlock" where
  "record_owner h l = l\<lparr>lcpu := Some h\<rparr>"

definition clear_owner :: "spinlock \<Rightarrow> spinlock" where
  "clear_owner l = l\<lparr>lcpu := None\<rparr>"

definition lock_release :: "spinlock \<Rightarrow> spinlock" where
  "lock_release l = l\<lparr>locked := False\<rparr>"

definition acquire :: "lockid \<Rightarrow> 'a machine_scheme \<Rightarrow> (unit, 'a machine_scheme) out" where
  "acquire lk s =
     (let s = push_off s
      in if holding lk s then Panic ''acquire''
         else case test_and_set (locks s lk) of (old, l) \<Rightarrow>
           if old then Spin
           else Ok () (s\<lparr>locks := (locks s)(lk := record_owner (cpuid s) l)\<rparr>))"

definition release :: "lockid \<Rightarrow> 'a machine_scheme \<Rightarrow> (unit, 'a machine_scheme) out" where
  "release lk s =
     (if \<not> holding lk s then Panic ''release''
      else pop_off (s\<lparr>locks := (locks s)(lk := lock_release (clear_owner (locks s lk)))\<rparr>))"

definition myproc :: "'a machine_scheme \<Rightarrow> (nat option, 'a machine_scheme) out" where
  "myproc s =
     (let s = push_off s; p = cproc (mycpu s)
      in and_then (pop_off s) (\<lambda>_ s. Ok p s))"

section \<open>Well-formed processors and balanced sections\<close>

text \<open>
  \<^verbatim>\<open>push_off\<close> disables interrupts and only the outermost \<^verbatim>\<open>pop_off\<close> enables them again,
  so a positive nesting depth means interrupts are off.
\<close>

definition cpu_ok :: "cpu \<Rightarrow> bool" where
  "cpu_ok c \<longleftrightarrow> 0 \<le> noff c \<and> (0 < noff c \<longrightarrow> \<not> sie c)"

definition mach_ok :: "'a machine_scheme \<Rightarrow> bool" where
  "mach_ok s \<longleftrightarrow> cpu_ok (mycpu s)"

definition lock_free :: "lockid \<Rightarrow> 'a machine_scheme \<Rightarrow> bool" where
  "lock_free lk s \<longleftrightarrow> \<not> locked (locks s lk) \<and> lcpu (locks s lk) = None"

definition settle_cpu :: "cpu \<Rightarrow> cpu" where
  "settle_cpu c = (if noff c = 0 then c\<lparr>intena := sie c\<rparr> else c)"

definition settle :: "'a machine_scheme \<Rightarrow> 'a machine_scheme" where
  "settle s = set_mycpu (settle_cpu (mycpu s)) s"

text \<open>The state inside a critical section: one more level of nesting and the lock taken.\<close>

definition enter_cs :: "lockid \<Rightarrow> 'a machine_scheme \<Rightarrow> 'a machine_scheme" where
  "enter_cs lk s =
     (push_off s)\<lparr>locks := (locks s)(lk := (locks s lk)\<lparr>locked := True, lcpu := Some (cpuid s)\<rparr>)\<rparr>"

lemmas mach_defs = cpuid_def mycpu_def set_mycpu_def intr_on_def intr_off_def intr_get_def
  push_off_def pop_off_def holding_def intr_on_cpu_def intr_off_cpu_def intr_get_cpu_def
  push_off_cpu_def pop_off_cpu_def

lemma cpu_ok_push_off: "cpu_ok c \<Longrightarrow> cpu_ok (push_off_cpu c)"
  by (auto simp: cpu_ok_def mach_defs Let_def)

lemma cpu_ok_pop_off: "cpu_ok c \<Longrightarrow> pop_off_cpu c = Inr c' \<Longrightarrow> cpu_ok c'"
  by (auto simp: cpu_ok_def mach_defs Let_def split: if_splits)

lemma pop_push_off_cpu: "cpu_ok c \<Longrightarrow> pop_off_cpu (push_off_cpu c) = Inr (settle_cpu c)"
  by (cases c) (auto simp: cpu_ok_def mach_defs settle_cpu_def Let_def)

lemma push_off_cproc [simp]: "cproc (push_off_cpu c) = cproc c"
  by (simp add: mach_defs Let_def)

lemma settle_cpu_simps [simp]:
  "cproc (settle_cpu c) = cproc c" "noff (settle_cpu c) = noff c" "sie (settle_cpu c) = sie c"
  "settle_cpu (settle_cpu c) = settle_cpu c" "cpu_ok (settle_cpu c) = cpu_ok c"
  by (simp_all add: settle_cpu_def cpu_ok_def)

lemma settle_simps [simp]:
  "hart (settle s) = hart s" "locks (settle s) = locks s"
  "machine.more (settle s) = machine.more s" "settle (settle s) = settle s"
  "mach_ok (settle s) = mach_ok s" "lock_free lk (settle s) = lock_free lk s"
  "cproc (mycpu (settle s)) = cproc (mycpu s)" "cpuid (settle s) = cpuid s"
  "noff (mycpu (settle s)) = noff (mycpu s)" "sie (mycpu (settle s)) = sie (mycpu s)"
  by (simp_all add: settle_def mach_defs mach_ok_def lock_free_def)

lemma enter_cs_simps [simp]:
  "hart (enter_cs lk s) = hart s" "cpuid (enter_cs lk s) = cpuid s"
  "machine.more (enter_cs lk s) = machine.more s"
  "lock_free lk' (enter_cs lk s) \<longleftrightarrow> lk' \<noteq> lk \<and> lock_free lk' s"
  "cproc (mycpu (enter_cs lk s)) = cproc (mycpu s)"
  "mach_ok s \<Longrightarrow> mach_ok (enter_cs lk s)"
  by (auto simp: enter_cs_def push_off_def set_mycpu_def mycpu_def cpuid_def lock_free_def
      mach_ok_def cpu_ok_push_off)

lemma acquire_free:
  assumes "lock_free lk s"
  shows "acquire lk s = Ok () (enter_cs lk s)"
  using assms
  by (simp add: acquire_def enter_cs_def lock_free_def test_and_set_def record_owner_def
      push_off_def set_mycpu_def holding_def cpuid_def mycpu_def Let_def)

lemma acquire_own_panics:
  "locked (locks s lk) \<Longrightarrow> lcpu (locks s lk) = Some (hart s) \<Longrightarrow> acquire lk s = Panic ''acquire''"
  by (simp add: acquire_def push_off_def set_mycpu_def holding_def cpuid_def Let_def)

lemma acquire_other_spins:
  "locked (locks s lk) \<Longrightarrow> lcpu (locks s lk) \<noteq> Some (hart s) \<Longrightarrow> acquire lk s = Spin"
  by (simp add: acquire_def push_off_def set_mycpu_def holding_def cpuid_def Let_def
      test_and_set_def)

text \<open>
  Leaving a critical section: whatever the body did to the other fields, the lock word and
  the processor are put back, up to \<open>settle_cpu\<close>.  The body is any state \<open>t\<close> that agrees
  with the entry state on the lock table and the processors.
\<close>

lemma release_cs:
  assumes ok: "mach_ok s" and free: "lock_free lk s"
    and same: "hart t = hart s" "cpus t = cpus (enter_cs lk s)" "locks t = locks (enter_cs lk s)"
  shows "release lk t = Ok () (t\<lparr>cpus := cpus (settle s), locks := locks s\<rparr>)"
proof -
  have c: "mycpu t = push_off_cpu (mycpu s)"
    using same by (simp add: mycpu_def cpuid_def enter_cs_def push_off_def set_mycpu_def)
  have h: "holding lk t"
    using same by (simp add: holding_def cpuid_def enter_cs_def)
  have l: "(locks t)(lk := lock_release (clear_owner (locks t lk))) = locks s"
    using free same
    by (auto simp: lock_release_def clear_owner_def enter_cs_def lock_free_def fun_eq_iff)
  show ?thesis
    unfolding release_def pop_off_def
    using h c l ok same pop_push_off_cpu [of "mycpu s"]
    by (simp add: mycpu_def cpuid_def set_mycpu_def mach_ok_def settle_def
        enter_cs_def push_off_def)
qed

lemma release_enter_cs:
  assumes "mach_ok s" and "lock_free lk s"
  shows "release lk (enter_cs lk s) = Ok () (settle s)"
  using release_cs [OF assms, of "enter_cs lk s"]
  by (simp add: enter_cs_def push_off_def set_mycpu_def settle_def)

lemma settle_enter_cs: "mach_ok s \<Longrightarrow> settle (enter_cs lk s) = enter_cs lk s"
  by (auto simp: settle_def enter_cs_def settle_cpu_def push_off_def set_mycpu_def mycpu_def
      cpuid_def mach_ok_def cpu_ok_def push_off_cpu_def intr_off_cpu_def Let_def)

lemma enter_cs_settle [simp]: "enter_cs lk (settle s) = enter_cs lk s"
  by (auto simp: settle_def enter_cs_def settle_cpu_def push_off_def set_mycpu_def mycpu_def
      cpuid_def push_off_cpu_def intr_off_cpu_def intr_get_cpu_def Let_def)

lemmas balanced [simp] = acquire_free release_enter_cs settle_enter_cs

lemma myproc_eq [simp]: "mach_ok s \<Longrightarrow> myproc s = Ok (cproc (mycpu s)) (settle s)"
  by (simp add: myproc_def push_off_def pop_off_def set_mycpu_def mycpu_def cpuid_def
      mach_ok_def pop_push_off_cpu settle_def Let_def)

end
