(* ===== verification/Spinlock_MP.thy ===== *)
theory Spinlock_MP
  imports Machine
begin

text \<open>
  Spin locks on several processors.  Any number of harts run
  \<^verbatim>\<open>acquire(lk); x = shared; shared = f(x); release(lk)\<close>, interleaved at the granularity of
  single accesses to the lock word, to \<^verbatim>\<open>lk->cpu\<close> and to the shared datum, with the very
  steps that \<open>acquire\<close> and \<open>release\<close> of the theory \<open>Machine\<close> are made of.  The results:
  mutual exclusion, that no hart ever reaches one of the panics of \<^verbatim>\<open>spinlock.c\<close>, that
  interrupts are off on a hart between \<open>acquire\<close> and \<open>release\<close>, and that the protected
  operations are serialised: their results are those of running them one after another.
\<close>

section \<open>The interleaving semantics\<close>

datatype pc =
    Outside \<comment> \<open>not in \<open>acquire\<close>/\<open>release\<close>\<close>
  | Spinning \<comment> \<open>after \<open>push_off\<close> and the \<open>holding\<close> check, in the test-and-set loop\<close>
  | Won \<comment> \<open>the swap returned 0; \<open>lk->cpu\<close> not yet written\<close>
  | InCS \<comment> \<open>\<open>acquire\<close> has returned\<close>
  | Loaded \<comment> \<open>the shared datum has been read\<close>
  | Stored \<comment> \<open>the shared datum has been written back\<close>
  | Cleared \<comment> \<open>\<open>release\<close>: \<open>lk->cpu = 0\<close> done\<close>
  | Unlocked \<comment> \<open>\<open>release\<close>: the lock word is 0, \<open>pop_off\<close> still to run\<close>
  | Dead \<comment> \<open>in \<open>panic()\<close>\<close>

record ('s, 'r) mp =
  lk :: spinlock
  mcpu :: "nat \<Rightarrow> cpu"
  pcs :: "nat \<Rightarrow> pc"
  shared :: 's
  local :: "nat \<Rightarrow> 's"
  results :: "(nat \<times> 'r) list"

definition mp_holding :: "nat \<Rightarrow> ('s, 'r) mp \<Rightarrow> bool" where
  "mp_holding h s \<longleftrightarrow> locked (lk s) \<and> lcpu (lk s) = Some h"

inductive mp_step :: "('s \<Rightarrow> 'r \<times> 's) \<Rightarrow> ('s, 'r) mp \<Rightarrow> ('s, 'r) mp \<Rightarrow> bool" for op where
  intr: "pcs s h = Outside \<Longrightarrow> noff (mcpu s h) = 0 \<Longrightarrow>
    mp_step op s (s\<lparr>mcpu := (mcpu s)(h := (mcpu s h)\<lparr>sie := b\<rparr>)\<rparr>)"
| call: "pcs s h = Outside \<Longrightarrow> \<not> mp_holding h s \<Longrightarrow>
    mp_step op s (s\<lparr>mcpu := (mcpu s)(h := push_off_cpu (mcpu s h)), pcs := (pcs s)(h := Spinning)\<rparr>)"
| call_panic: "pcs s h = Outside \<Longrightarrow> mp_holding h s \<Longrightarrow>
    mp_step op s (s\<lparr>mcpu := (mcpu s)(h := push_off_cpu (mcpu s h)), pcs := (pcs s)(h := Dead)\<rparr>)"
| spin: "pcs s h = Spinning \<Longrightarrow> test_and_set (lk s) = (True, l) \<Longrightarrow>
    mp_step op s (s\<lparr>lk := l\<rparr>)"
| win: "pcs s h = Spinning \<Longrightarrow> test_and_set (lk s) = (False, l) \<Longrightarrow>
    mp_step op s (s\<lparr>lk := l, pcs := (pcs s)(h := Won)\<rparr>)"
| own: "pcs s h = Won \<Longrightarrow>
    mp_step op s (s\<lparr>lk := record_owner h (lk s), pcs := (pcs s)(h := InCS)\<rparr>)"
| load: "pcs s h = InCS \<Longrightarrow>
    mp_step op s (s\<lparr>local := (local s)(h := shared s), pcs := (pcs s)(h := Loaded)\<rparr>)"
| store: "pcs s h = Loaded \<Longrightarrow> op (local s h) = (r, x) \<Longrightarrow>
    mp_step op s (s\<lparr>shared := x, results := results s @ [(h, r)], pcs := (pcs s)(h := Stored)\<rparr>)"
| rel: "pcs s h = Stored \<Longrightarrow> mp_holding h s \<Longrightarrow>
    mp_step op s (s\<lparr>lk := clear_owner (lk s), pcs := (pcs s)(h := Cleared)\<rparr>)"
| rel_panic: "pcs s h = Stored \<Longrightarrow> \<not> mp_holding h s \<Longrightarrow>
    mp_step op s (s\<lparr>pcs := (pcs s)(h := Dead)\<rparr>)"
| unlock: "pcs s h = Cleared \<Longrightarrow>
    mp_step op s (s\<lparr>lk := lock_release (lk s), pcs := (pcs s)(h := Unlocked)\<rparr>)"
| pop: "pcs s h = Unlocked \<Longrightarrow> pop_off_cpu (mcpu s h) = Inr c \<Longrightarrow>
    mp_step op s (s\<lparr>mcpu := (mcpu s)(h := c), pcs := (pcs s)(h := Outside)\<rparr>)"
| pop_panic: "pcs s h = Unlocked \<Longrightarrow> pop_off_cpu (mcpu s h) = Inl m \<Longrightarrow>
    mp_step op s (s\<lparr>pcs := (pcs s)(h := Dead)\<rparr>)"

definition mp_init :: "'s \<Rightarrow> ('s, 'r) mp \<Rightarrow> bool" where
  "mp_init x s \<longleftrightarrow> \<not> locked (lk s) \<and> lcpu (lk s) = None \<and> (\<forall>h. pcs s h = Outside) \<and>
     (\<forall>h. noff (mcpu s h) = 0) \<and> shared s = x \<and> results s = []"

inductive mp_reach :: "('s \<Rightarrow> 'r \<times> 's) \<Rightarrow> 's \<Rightarrow> ('s, 'r) mp \<Rightarrow> bool" for op x where
  start: "mp_init x s \<Longrightarrow> mp_reach op x s"
| step: "mp_reach op x s \<Longrightarrow> mp_step op s t \<Longrightarrow> mp_reach op x t"

text \<open>Running the protected operation \<open>n\<close> times in sequence.\<close>

fun seq_run :: "('s \<Rightarrow> 'r \<times> 's) \<Rightarrow> nat \<Rightarrow> 's \<Rightarrow> 'r list \<times> 's" where
  "seq_run op 0 x = ([], x)"
| "seq_run op (Suc n) x =
     (case seq_run op n x of (rs, y) \<Rightarrow> case op y of (r, z) \<Rightarrow> (rs @ [r], z))"

text \<open>The critical section of \<^verbatim>\<open>allocpid\<close>: read \<^verbatim>\<open>nextpid\<close>, store its successor.\<close>

definition allocpid_cs :: "i32 \<Rightarrow> i32 \<times> i32" where
  "allocpid_cs nextpid = (let pid = nextpid in (pid, nextpid + 1))"

section \<open>The invariant\<close>

definition has_lock :: "pc \<Rightarrow> bool" where
  "has_lock p \<longleftrightarrow> p \<in> {Won, InCS, Loaded, Stored, Cleared}"

definition is_owner :: "pc \<Rightarrow> bool" where
  "is_owner p \<longleftrightarrow> p \<in> {InCS, Loaded, Stored}"

definition lock_inv :: "('s, 'r) mp \<Rightarrow> bool" where
  "lock_inv s \<longleftrightarrow>
     (\<forall>h h'. has_lock (pcs s h) \<longrightarrow> has_lock (pcs s h') \<longrightarrow> h = h') \<and>
     (locked (lk s) \<longleftrightarrow> (\<exists>h. has_lock (pcs s h))) \<and>
     (\<forall>h. lcpu (lk s) = Some h \<longleftrightarrow> is_owner (pcs s h))"

definition intr_inv :: "('s, 'r) mp \<Rightarrow> bool" where
  "intr_inv s \<longleftrightarrow>
     (\<forall>h. pcs s h \<noteq> Dead \<and>
        (if pcs s h = Outside then noff (mcpu s h) = 0
         else noff (mcpu s h) = 1 \<and> \<not> sie (mcpu s h)))"

definition data_inv :: "('s \<Rightarrow> 'r \<times> 's) \<Rightarrow> 's \<Rightarrow> ('s, 'r) mp \<Rightarrow> bool" where
  "data_inv op x s \<longleftrightarrow>
     (\<forall>h. pcs s h = Loaded \<longrightarrow> local s h = shared s) \<and>
     seq_run op (length (results s)) x = (map snd (results s), shared s)"

lemmas lock_steps = test_and_set_def record_owner_def clear_owner_def lock_release_def

lemma has_lock_simps [simp]:
  "has_lock Won" "has_lock InCS" "has_lock Loaded" "has_lock Stored" "has_lock Cleared"
  "\<not> has_lock Outside" "\<not> has_lock Spinning" "\<not> has_lock Unlocked" "\<not> has_lock Dead"
  by (simp_all add: has_lock_def)

lemma is_owner_simps [simp]:
  "is_owner InCS" "is_owner Loaded" "is_owner Stored"
  "\<not> is_owner Outside" "\<not> is_owner Spinning" "\<not> is_owner Won" "\<not> is_owner Cleared"
  "\<not> is_owner Unlocked" "\<not> is_owner Dead"
  by (simp_all add: is_owner_def)

lemma is_owner_has_lock: "is_owner p \<Longrightarrow> has_lock p"
  by (auto simp: is_owner_def has_lock_def)

lemma lock_inv_frame:
  assumes "lock_inv s" and "lk t = lk s"
    and "\<And>k. has_lock (pcs t k) = has_lock (pcs s k)"
    and "\<And>k. is_owner (pcs t k) = is_owner (pcs s k)"
  shows "lock_inv t"
  using assms by (simp add: lock_inv_def)

lemma holding_iff_owner: "lock_inv s \<Longrightarrow> mp_holding h s \<longleftrightarrow> is_owner (pcs s h)"
  by (auto simp: lock_inv_def mp_holding_def dest: is_owner_has_lock)

lemma lock_inv_step:
  assumes "mp_step op s t" and inv: "lock_inv s"
  shows "lock_inv t"
  using assms(1)
proof cases
  case (win h l)
  with inv show ?thesis
    by (auto simp: lock_inv_def lock_steps dest: is_owner_has_lock)
next
  case (own h)
  with inv have "\<not> is_owner (pcs s h')" if "h' \<noteq> h" for h'
    using that by (metis lock_inv_def is_owner_has_lock has_lock_simps(1))
  moreover have "locked (lk s)" using own inv by (metis lock_inv_def has_lock_simps(1))
  ultimately show ?thesis using own inv
    by (auto simp: lock_inv_def lock_steps)
next
  case (rel h)
  with inv have "\<not> is_owner (pcs s h')" if "h' \<noteq> h" for h'
    using that by (metis lock_inv_def is_owner_has_lock has_lock_simps(4))
  moreover have "locked (lk s)" using rel inv by (metis lock_inv_def has_lock_simps(4))
  ultimately show ?thesis using rel inv
    by (auto simp: lock_inv_def lock_steps)
next
  case (unlock h)
  with inv show ?thesis
    by (auto simp: lock_inv_def lock_steps)
next
  case (call_panic h)
  with holding_iff_owner [OF inv, of h] show ?thesis by simp
next
  case (rel_panic h)
  with holding_iff_owner [OF inv, of h] show ?thesis by simp
qed (auto intro!: lock_inv_frame [OF inv] simp: lock_steps split: if_splits)

lemma push_off_noff0: "noff c = 0 \<Longrightarrow> noff (push_off_cpu c) = 1 \<and> \<not> sie (push_off_cpu c)"
  by (simp add: push_off_cpu_def intr_off_cpu_def Let_def)

lemma pop_off_noff1:
  "noff c = 1 \<Longrightarrow> \<not> sie c \<Longrightarrow> \<exists>c'. pop_off_cpu c = Inr c' \<and> noff c' = 0"
  by (simp add: pop_off_cpu_def intr_get_cpu_def intr_on_cpu_def Let_def)

lemma intr_inv_step:
  assumes "mp_step op s t" and inv: "intr_inv s" and lock: "lock_inv s"
  shows "intr_inv t"
  using assms(1)
proof cases
  case (call h)
  with inv show ?thesis by (auto simp: intr_inv_def push_off_noff0)
next
  case (call_panic h)
  with holding_iff_owner [OF lock] show ?thesis by simp
next
  case (rel_panic h)
  with holding_iff_owner [OF lock] show ?thesis by simp
next
  case (pop h c)
  with inv have "noff (mcpu s h) = 1" "\<not> sie (mcpu s h)"
    by (auto simp: intr_inv_def split: if_splits)
  with pop pop_off_noff1 [of "mcpu s h"] inv show ?thesis by (auto simp: intr_inv_def)
next
  case (pop_panic h m)
  with inv have "noff (mcpu s h) = 1" "\<not> sie (mcpu s h)"
    by (auto simp: intr_inv_def split: if_splits)
  with pop_panic pop_off_noff1 [of "mcpu s h"] show ?thesis by auto
qed (use inv in \<open>auto simp: intr_inv_def split: if_splits\<close>)

lemma data_inv_step:
  assumes "mp_step op s t" and inv: "data_inv op x s" and lock: "lock_inv s"
  shows "data_inv op x t"
  using assms(1)
proof cases
  case (store h r y)
  with lock have "pcs s h' \<noteq> Loaded" if "h' \<noteq> h" for h'
    using that by (metis lock_inv_def has_lock_simps(3))
  with store inv show ?thesis
    by (auto simp: data_inv_def split: prod.splits)
qed (use inv in \<open>auto simp: data_inv_def\<close>)

definition mp_inv :: "('s \<Rightarrow> 'r \<times> 's) \<Rightarrow> 's \<Rightarrow> ('s, 'r) mp \<Rightarrow> bool" where
  "mp_inv op x s \<longleftrightarrow> lock_inv s \<and> intr_inv s \<and> data_inv op x s"

lemma mp_reach_inv: "mp_reach op x s \<Longrightarrow> mp_inv op x s"
proof (induction rule: mp_reach.induct)
  case (start s)
  then show ?case
    by (auto simp: mp_inv_def mp_init_def lock_inv_def intr_inv_def data_inv_def)
next
  case (step s t)
  then show ?case
    by (auto simp: mp_inv_def intro: lock_inv_step intr_inv_step data_inv_step)
qed

lemma seq_run_allocpid:
  "seq_run allocpid_cs n x = (map (\<lambda>i. x + of_nat i) [0..<n], x + of_nat n)"
  by (induction n) (auto simp: allocpid_cs_def)

section \<open>Main results\<close>

text \<open>A reachable state with hart 0 about to release: used by the witnesses.\<close>

definition demo_start :: "(i32, i32) mp" where
  "demo_start = \<lparr>lk = \<lparr>locked = False, lname = ''nextpid'', lcpu = None\<rparr>,
     mcpu = (\<lambda>_. \<lparr>cproc = None, noff = 0, intena = False, sie = True\<rparr>), pcs = (\<lambda>_. Outside),
     shared = 1, local = (\<lambda>_. 0), results = []\<rparr>"

definition demo_stored :: "(i32, i32) mp" where
  "demo_stored = demo_start
     \<lparr>lk := \<lparr>locked = True, lname = ''nextpid'', lcpu = Some 0\<rparr>,
      mcpu := (mcpu demo_start)(0 := \<lparr>cproc = None, noff = 1, intena = True, sie = False\<rparr>),
      pcs := (pcs demo_start)(0 := Stored), shared := 2, local := (local demo_start)(0 := 1),
      results := [(0, 1)]\<rparr>"

lemma demo_reach: "mp_reach allocpid_cs 1 demo_stored"
proof -
  let ?s = demo_start
  have 0: "mp_reach allocpid_cs 1 ?s"
    by (rule mp_reach.start) (simp add: mp_init_def demo_start_def)
  let ?s1 = "?s\<lparr>mcpu := (mcpu ?s)(0 := push_off_cpu (mcpu ?s 0)), pcs := (pcs ?s)(0 := Spinning)\<rparr>"
  let ?s2 = "?s1\<lparr>lk := (lk ?s)\<lparr>locked := True\<rparr>, pcs := (pcs ?s1)(0 := Won)\<rparr>"
  let ?s3 = "?s2\<lparr>lk := record_owner 0 (lk ?s2), pcs := (pcs ?s2)(0 := InCS)\<rparr>"
  let ?s4 = "?s3\<lparr>local := (local ?s3)(0 := shared ?s3), pcs := (pcs ?s3)(0 := Loaded)\<rparr>"
  let ?s5 = "?s4\<lparr>shared := 2, results := results ?s4 @ [(0, 1)], pcs := (pcs ?s4)(0 := Stored)\<rparr>"
  have 1: "mp_reach allocpid_cs 1 ?s1"
    by (rule mp_reach.step [OF 0 mp_step.call]) (simp_all add: demo_start_def mp_holding_def)
  have 2: "mp_reach allocpid_cs 1 ?s2"
    by (rule mp_reach.step [OF 1 mp_step.win]) (simp_all add: demo_start_def test_and_set_def)
  have 3: "mp_reach allocpid_cs 1 ?s3"
    by (rule mp_reach.step [OF 2 mp_step.own]) simp
  have 4: "mp_reach allocpid_cs 1 ?s4"
    by (rule mp_reach.step [OF 3 mp_step.load]) simp
  have 5: "mp_reach allocpid_cs 1 ?s5"
    by (rule mp_reach.step [OF 4 mp_step.store]) (simp_all add: demo_start_def allocpid_cs_def)
  have "?s5 = demo_stored"
    by (simp add: demo_stored_def demo_start_def record_owner_def push_off_cpu_def
        intr_get_cpu_def intr_off_cpu_def Let_def)
  with 5 show ?thesis by simp
qed

text \<open>
  Claim C1. Mutual exclusion: in every interleaving of any number of harts, two harts that
  are both inside the critical section of a spin lock are the same hart; that hart has
  interrupts disabled, and \<open>holding\<close> answers true for it and for no other hart.
\<close>

theorem spinlock_mutual_exclusion:
  assumes "mp_reach op x s"
    and "pcs s h \<in> {InCS, Loaded, Stored}" and "pcs s h' \<in> {InCS, Loaded, Stored}"
  shows "h = h' \<and> \<not> sie (mcpu s h) \<and> (\<forall>k. mp_holding k s \<longleftrightarrow> k = h)"
proof -
  from mp_reach_inv [OF assms(1)] have l: "lock_inv s" and i: "intr_inv s"
    by (auto simp: mp_inv_def)
  have h: "is_owner (pcs s h)" using assms(2) by (simp add: is_owner_def)
  have u: "k = h" if "is_owner (pcs s k)" for k
    using l is_owner_has_lock [OF that] is_owner_has_lock [OF h] unfolding lock_inv_def by blast
  have "h' = h" using assms(3) by (intro u) (simp add: is_owner_def)
  moreover have "\<not> sie (mcpu s h)"
  proof -
    have "pcs s h \<noteq> Outside" using assms(2) by auto
    with i show ?thesis by (simp add: intr_inv_def)
  qed
  moreover have "mp_holding k s \<longleftrightarrow> k = h" for k
    using holding_iff_owner [OF l] u h by blast
  ultimately show ?thesis by blast
qed

theorem spinlock_mutual_exclusion_witness:
  "mp_reach allocpid_cs 1 demo_stored \<and> pcs demo_stored 0 = Stored \<and>
   \<not> sie (mcpu demo_stored 0) \<and> mp_holding 0 demo_stored \<and> \<not> mp_holding 1 demo_stored"
  using spinlock_mutual_exclusion [OF demo_reach, of 0 0] demo_reach
  by (simp add: demo_stored_def)

text \<open>
  Claim C2. Serialisation and absence of lock panics: however the harts interleave, the
  results of the protected read-modify-write sections and the shared datum are those of
  running the sections one after another, and no hart ever reaches a panic of
  \<^verbatim>\<open>acquire\<close>, \<^verbatim>\<open>release\<close> or \<^verbatim>\<open>pop_off\<close>.
\<close>

theorem locked_sections_serialised:
  assumes "mp_reach op x s"
  shows "seq_run op (length (results s)) x = (map snd (results s), shared s) \<and>
     (\<forall>h. pcs s h \<noteq> Dead)"
  using mp_reach_inv [OF assms] by (auto simp: mp_inv_def data_inv_def intr_inv_def)

theorem locked_sections_serialised_witness:
  "mp_reach allocpid_cs 1 demo_stored \<and>
   seq_run allocpid_cs (length (results demo_stored)) 1 = ([1], 2)"
  using locked_sections_serialised [OF demo_reach] demo_reach
  by (simp add: demo_stored_def)

text \<open>
  Claim C3. \<^verbatim>\<open>allocpid\<close> never hands the same process id to two callers, on any
  interleaving of any number of harts, until the 32-bit counter wraps around.
\<close>

theorem allocpid_unique:
  assumes "mp_reach allocpid_cs x s" and "length (results s) \<le> 2 ^ 32"
  shows "distinct (map snd (results s))"
proof -
  from mp_reach_inv [OF assms(1)]
  have "map snd (results s) = map (\<lambda>i. x + of_nat i) [0..<length (results s)]"
    by (simp add: mp_inv_def data_inv_def seq_run_allocpid)
  moreover have "inj_on (\<lambda>i. x + (of_nat i :: i32)) {0..<length (results s)}"
    using assms(2) by (auto simp: inj_on_def word_of_nat_eq_iff take_bit_nat_eq_self)
  ultimately show ?thesis by (simp add: distinct_map)
qed

theorem allocpid_unique_witness:
  "mp_reach allocpid_cs 1 demo_stored \<and> distinct (map snd (results demo_stored))"
  using allocpid_unique [OF demo_reach] demo_reach by (simp add: demo_stored_def)

end
