(* ===== verification/Kstring.thy ===== *)
theory Kstring
  imports Xv6_Prelude
begin

text \<open>
  \<^verbatim>\<open>kernel/string.c\<close>.  \<^verbatim>\<open>memset\<close>, \<^verbatim>\<open>memmove\<close> and \<^verbatim>\<open>memcpy\<close> act on byte-addressed memory,
  one store per iteration of the source's loop.  The string routines read and write
  character arrays as views \<open>nat \<Rightarrow> byte\<close> (the bytes from a pointer on), so that they serve
  both memory (\<open>\<lambda>i. m (p + of_nat i)\<close>) and the kernel's local arrays.
\<close>

type_synonym cstr = "nat \<Rightarrow> byte"

section \<open>Definitions\<close>

function memset_loop :: "memory \<Rightarrow> u64 \<Rightarrow> byte \<Rightarrow> nat \<Rightarrow> nat \<Rightarrow> memory" where
  "memset_loop m dst c i n =
     (if i < n then memset_loop (m(dst + of_nat i := c)) dst c (Suc i) n else m)"
  by pat_completeness auto
termination by (relation "measure (\<lambda>(m, dst, c, i, n). n - i)") auto

declare memset_loop.simps [simp del]

definition memset :: "memory \<Rightarrow> u64 \<Rightarrow> i32 \<Rightarrow> nat \<Rightarrow> memory" where
  "memset m dst c n = memset_loop m dst (ucast c) 0 n"

fun memcmp :: "cstr \<Rightarrow> cstr \<Rightarrow> nat \<Rightarrow> int" where
  "memcmp s1 s2 0 = 0"
| "memcmp s1 s2 (Suc n) =
     (if s1 0 \<noteq> s2 0 then uint (s1 0) - uint (s2 0)
      else memcmp (\<lambda>i. s1 (Suc i)) (\<lambda>i. s2 (Suc i)) n)"

fun copy_up :: "memory \<Rightarrow> u64 \<Rightarrow> u64 \<Rightarrow> nat \<Rightarrow> memory" where
  "copy_up m d s 0 = m"
| "copy_up m d s (Suc n) = copy_up (m(d := m s)) (d + 1) (s + 1) n"

fun copy_down :: "memory \<Rightarrow> u64 \<Rightarrow> u64 \<Rightarrow> nat \<Rightarrow> memory" where
  "copy_down m d s 0 = m"
| "copy_down m d s (Suc n) = copy_down (m(d - 1 := m (s - 1))) (d - 1) (s - 1) n"

definition memmove :: "memory \<Rightarrow> u64 \<Rightarrow> u64 \<Rightarrow> nat \<Rightarrow> memory" where
  "memmove m dst src n =
     (if n = 0 then m
      else if src < dst \<and> src + of_nat n > dst
      then copy_down m (dst + of_nat n) (src + of_nat n) n
      else copy_up m dst src n)"

definition memcpy :: "memory \<Rightarrow> u64 \<Rightarrow> u64 \<Rightarrow> nat \<Rightarrow> memory" where
  "memcpy m dst src n = memmove m dst src n"

fun strncmp :: "cstr \<Rightarrow> cstr \<Rightarrow> nat \<Rightarrow> int" where
  "strncmp p q 0 = 0"
| "strncmp p q (Suc n) =
     (if p 0 \<noteq> 0 \<and> p 0 = q 0 then strncmp (\<lambda>i. p (Suc i)) (\<lambda>i. q (Suc i)) n
      else uint (p 0) - uint (q 0))"

fun strncpy_fill :: "cstr \<Rightarrow> nat \<Rightarrow> nat \<Rightarrow> cstr" where
  "strncpy_fill s k 0 = s"
| "strncpy_fill s k (Suc n) = strncpy_fill (s(k := 0)) (Suc k) n"

fun strncpy_copy :: "cstr \<Rightarrow> cstr \<Rightarrow> nat \<Rightarrow> nat \<Rightarrow> cstr" where
  "strncpy_copy s t k 0 = s"
| "strncpy_copy s t k (Suc n) =
     (if t k \<noteq> 0 then strncpy_copy (s(k := t k)) t (Suc k) n
      else strncpy_fill (s(k := t k)) (Suc k) n)"

definition strncpy :: "cstr \<Rightarrow> cstr \<Rightarrow> int \<Rightarrow> cstr" where
  "strncpy s t n = strncpy_copy s t 0 (nat n)"

text \<open>The loop of \<^verbatim>\<open>safestrcpy\<close>; the last argument is the \<^verbatim>\<open>n\<close> still to be pre-decremented.\<close>

fun safestrcpy_loop :: "cstr \<Rightarrow> cstr \<Rightarrow> nat \<Rightarrow> nat \<Rightarrow> cstr \<times> nat" where
  "safestrcpy_loop s t k 0 = (s, k)"
| "safestrcpy_loop s t k (Suc n) =
     (if n > 0 then
        (if t k \<noteq> 0 then safestrcpy_loop (s(k := t k)) t (Suc k) n else (s(k := t k), Suc k))
      else (s, k))"

definition safestrcpy :: "cstr \<Rightarrow> cstr \<Rightarrow> int \<Rightarrow> cstr" where
  "safestrcpy s t n =
     (if n \<le> 0 then s
      else case safestrcpy_loop s t 0 (nat n) of (s, k) \<Rightarrow> s(k := 0))"

partial_function (option) strlen_from :: "cstr \<Rightarrow> nat \<Rightarrow> nat option" where
  "strlen_from s n = (if s n \<noteq> 0 then strlen_from s (Suc n) else Some n)"

definition strlen :: "cstr \<Rightarrow> nat option" where
  "strlen s = strlen_from s 0"

section \<open>Memory blocks\<close>

lemma memset_loop_eq:
  assumes "n \<le> 2 ^ 64"
  shows "memset_loop m dst c i n =
     (\<lambda>a. if i \<le> unat (a - dst) \<and> unat (a - dst) < n then c else m a)"
  using assms
proof (induction m dst c i n rule: memset_loop.induct)
  case (1 m dst c i n)
  show ?case
  proof (cases "i < n")
    case True
    have e: "a = dst + of_nat i \<longleftrightarrow> unat (a - dst) = i" for a :: u64
    proof
      assume "a = dst + of_nat i"
      then show "unat (a - dst) = i" using True "1.prems" by (simp add: unat_of_nat)
    next
      assume "unat (a - dst) = i"
      then show "a = dst + of_nat i" by (rule unat_diff_eqD)
    qed
    have IH: "memset_loop (m(dst + of_nat i := c)) dst c (Suc i) n =
        (\<lambda>a. if Suc i \<le> unat (a - dst) \<and> unat (a - dst) < n then c else (m(dst + of_nat i := c)) a)"
      using 1 True by blast
    show ?thesis
      by (rule ext, subst memset_loop.simps) (use True in \<open>auto simp: IH e\<close>)
  next
    case False
    then show ?thesis by (subst memset_loop.simps) (auto intro!: ext)
  qed
qed

lemma memset_eq:
  "n \<le> 2 ^ 64 \<Longrightarrow> memset m dst c n = (\<lambda>a. if a \<in> span dst n then ucast c else m a)"
  by (simp add: memset_def memset_loop_eq span_def)

lemma copy_up_eq:
  assumes "n \<le> 2 ^ 64"
    and "\<And>i j. i < j \<Longrightarrow> j < n \<Longrightarrow> d + of_nat i \<noteq> s + of_nat j"
  shows "copy_up m d s n = wr m d (rd m s n)"
  using assms
proof (induction n arbitrary: m d s)
  case 0
  then show ?case by (simp add: rd_def)
next
  case (Suc n)
  let ?m = "m(d := m s)"
  have ne: "d \<noteq> s + of_nat j" if "0 < j" "j < Suc n" for j
    using Suc.prems(2) [of 0 j] that by simp
  have step: "d + 1 + of_nat i \<noteq> s + 1 + of_nat j" if "i < j" "j < n" for i j
    using Suc.prems(2) [of "Suc i" "Suc j"] that by (simp add: add.assoc)
  have IH: "copy_up ?m (d + 1) (s + 1) n = wr ?m (d + 1) (rd ?m (s + 1) n)"
    using Suc.prems(1) step by (intro Suc.IH) auto
  have r: "rd ?m (s + 1) n = tl (rd m s (Suc n))"
  proof (rule nth_equalityI)
    fix i assume "i < length (rd ?m (s + 1) n)"
    then have i: "i < n" by simp
    have e: "s + 1 + of_nat i = s + of_nat (Suc i)" by (simp add: ac_simps)
    have "rd ?m (s + 1) n ! i = ?m (s + of_nat (Suc i))"
      unfolding e [symmetric] using i by (simp add: rd_def del: upt_Suc of_nat_Suc)
    also have "\<dots> = m (s + of_nat (Suc i))"
      using i ne [of "Suc i"] by (metis Suc_less_eq fun_upd_other zero_less_Suc)
    finally show "rd ?m (s + 1) n ! i = tl (rd m s (Suc n)) ! i"
      using i by (simp add: rd_def nth_tl del: upt_Suc of_nat_Suc)
  qed simp
  have "wr ?m (d + 1) (tl (rd m s (Suc n))) x = wr m d (rd m s (Suc n)) x" for x
  proof (cases "x = d")
    case True
    then have "x - (d + 1) = - 1" by simp
    then have "unat (x - (d + 1)) = 2 ^ 64 - 1" by (simp only: unat_minus_1_64)
    with True Suc.prems(1) show ?thesis
      by (simp add: wr_def rd_def del: upt_Suc)
  next
    case False
    then have "unat (x - d) = Suc (unat (x - (d + 1)))" by (rule unat_diff_Suc)
    with False show ?thesis
      by (auto simp: wr_def nth_tl)
  qed
  with IH r show ?case by (simp add: fun_eq_iff)
qed

lemma copy_down_eq:
  assumes "n \<le> 2 ^ 64"
    and "\<And>i j. i < j \<Longrightarrow> j < n \<Longrightarrow> d + of_nat j \<noteq> s + of_nat i"
  shows "copy_down m (d + of_nat n) (s + of_nat n) n = wr m d (rd m s n)"
  using assms
proof (induction n arbitrary: m)
  case 0
  then show ?case by (simp add: rd_def)
next
  case (Suc n)
  let ?m = "m(d + of_nat n := m (s + of_nat n))"
  have e: "d + of_nat (Suc n) - 1 = d + of_nat n" "s + of_nat (Suc n) - 1 = s + of_nat n"
    by simp_all
  have "copy_down ?m (d + of_nat n) (s + of_nat n) n = wr ?m d (rd ?m s n)"
    using Suc.prems by (intro Suc.IH) auto
  moreover have "rd ?m s n = take n (rd m s (Suc n))"
  proof (rule nth_equalityI)
    fix i assume "i < length (rd ?m s n)"
    then show "rd ?m s n ! i = take n (rd m s (Suc n)) ! i"
      using Suc.prems(2) [of i n, symmetric] by (simp add: rd_def del: upt_Suc)
  qed simp
  moreover have "wr ?m d (take n (rd m s (Suc n))) x = wr m d (rd m s (Suc n)) x" for x
  proof (cases "x = d + of_nat n")
    case True
    with Suc.prems(1) show ?thesis
      by (simp add: wr_def rd_def unat_of_nat del: upt_Suc)
  next
    case False
    then have "unat (x - d) \<noteq> n" using unat_diff_eqD [of x d n] by blast
    with False show ?thesis by (auto simp: wr_def)
  qed
  ultimately show ?case by (simp add: e fun_eq_iff del: of_nat_Suc)
qed

text \<open>No wrap-around: the run of \<open>n\<close> bytes at \<open>a\<close> ends inside the address space.\<close>

lemma memmove_eq:
  assumes s: "unat src + n \<le> 2 ^ 64" and d: "unat dst + n \<le> 2 ^ 64" and n: "n < 2 ^ 64"
  shows "memmove m dst src n = wr m dst (rd m src n)"
proof -
  have ud: "unat (dst + of_nat i) = unat dst + i" and us: "unat (src + of_nat i) = unat src + i"
    if "i < n" for i
    using that s d by (auto intro!: unat_add_of_nat)
  show ?thesis
  proof (cases "src < dst \<and> src + of_nat n > dst")
    case True
    have "dst + of_nat j \<noteq> src + of_nat i" if "i < j" "j < n" for i j
      using True ud [of j] us [of i] that by (auto simp: word_less_nat_alt)
    with n True show ?thesis
      unfolding memmove_def using copy_down_eq [of n dst src m] by (auto simp: rd_def)
  next
    case False
    have "dst + of_nat i \<noteq> src + of_nat j" if "i < j" "j < n" for i j
    proof
      assume "dst + of_nat i = src + of_nat j"
      then have e: "unat dst + i = unat src + j" using ud us that by (metis less_trans)
      show False
      proof (cases "unat src + n < 2 ^ 64")
        case True
        then have "unat (src + of_nat n) = unat src + n" by (rule unat_add_of_nat)
        with False e that show False by (auto simp: word_less_nat_alt)
      next
        case f: False
        with s have "unat src + n = 2 ^ 64" by simp
        with e that d show False by linarith
      qed
    qed
    with n False show ?thesis
      unfolding memmove_def using copy_up_eq [of n dst src m] by (auto simp: rd_def)
  qed
qed

section \<open>Strings\<close>

lemma strncpy_fill_eq: "strncpy_fill s k n i = (if k \<le> i \<and> i < k + n then 0 else s i)"
  by (induction n arbitrary: s k) auto

lemma strncpy_copy_eq:
  "strncpy_copy s t k n i =
     (if k \<le> i \<and> i < k + n then (if \<exists>j. k \<le> j \<and> j \<le> i \<and> t j = 0 then 0 else t i) else s i)"
proof (induction n arbitrary: s k)
  case 0
  then show ?case by auto
next
  case (Suc n)
  show ?case
  proof (cases "t k = 0")
    case True
    then show ?thesis by (auto simp: strncpy_fill_eq)
  next
    case False
    then have e: "(\<exists>j. k \<le> j \<and> j \<le> i \<and> t j = 0) \<longleftrightarrow> (\<exists>j. Suc k \<le> j \<and> j \<le> i \<and> t j = 0)"
      using Suc_le_eq order_le_less by metis
    from False have "strncpy_copy s t k (Suc n) i = strncpy_copy (s(k := t k)) t (Suc k) n i"
      by simp
    also have "\<dots> = (if Suc k \<le> i \<and> i < Suc k + n
        then (if \<exists>j. Suc k \<le> j \<and> j \<le> i \<and> t j = 0 then 0 else t i) else (s(k := t k)) i)"
      by (rule Suc.IH)
    finally show ?thesis unfolding e using False by auto
  qed
qed

lemma safestrcpy_loop_spec:
  assumes "safestrcpy_loop s t k (Suc n) = (s', k')"
  shows "k' \<le> k + n \<and> (\<forall>i. i < k \<or> k + n \<le> i \<longrightarrow> s' i = s i) \<and>
    (\<forall>i. k \<le> i \<and> i < k' \<longrightarrow> s' i = t i) \<and>
    ((\<exists>j. k \<le> j \<and> j < k' \<and> t j = 0) \<or> k' = k + n)"
  using assms
proof (induction n arbitrary: s k)
  case 0
  then show ?case by auto
next
  case (Suc n)
  show ?case
  proof (cases "t k = 0")
    case True
    with Suc.prems have "s' = s(k := t k)" "k' = Suc k" by auto
    with True show ?thesis by (auto simp: less_Suc_eq)
  next
    case False
    with Suc.prems have "safestrcpy_loop (s(k := t k)) t (Suc k) (Suc n) = (s', k')"
      by simp
    note IH = Suc.IH [OF this]
    then have k: "s' k = t k" by simp
    have "s' i = s i" if "i < k \<or> k + Suc n \<le> i" for i
      using IH that by (cases "i = k") auto
    moreover have "s' i = t i" if "k \<le> i" "i < k'" for i
      using IH k that by (cases "i = k") auto
    moreover have "(\<exists>j. k \<le> j \<and> j < k' \<and> t j = 0) \<or> k' = k + Suc n"
      using IH by (metis Suc_leD add_Suc_right add_Suc)
    ultimately show ?thesis using IH by simp
  qed
qed

lemma strncmp_eq_0_iff:
  "strncmp p q n = 0 \<longleftrightarrow>
     (\<forall>i<n. (\<forall>j<i. p j \<noteq> 0) \<longrightarrow> p i = q i)"
proof (induction p q n rule: strncmp.induct)
  case (1 p q)
  then show ?case by simp
next
  case (2 p q n)
  have all: "(\<forall>i<Suc n. (\<forall>j<i. p j \<noteq> 0) \<longrightarrow> p i = q i) \<longleftrightarrow>
      p 0 = q 0 \<and> (p 0 \<noteq> 0 \<longrightarrow> (\<forall>i<n. (\<forall>j<i. p (Suc j) \<noteq> 0) \<longrightarrow> p (Suc i) = q (Suc i)))"
    (is "?L \<longleftrightarrow> ?R")
    by (auto simp: All_less_Suc2)
  show ?case
  proof (cases "p 0 \<noteq> 0 \<and> p 0 = q 0")
    case True
    with 2 all show ?thesis by simp
  next
    case False
    then have "strncmp p q (Suc n) = 0 \<longleftrightarrow> p 0 = q 0" by (auto simp: word_uint_eq_iff)
    with False all show ?thesis by auto
  qed
qed

lemma strlen_from_Some: "(\<forall>i. k \<le> i \<and> i < n \<longrightarrow> s i \<noteq> 0) \<Longrightarrow> k \<le> n \<Longrightarrow> s n = 0 \<Longrightarrow> strlen_from s k = Some n"
proof (induction "n - k" arbitrary: k)
  case 0
  then show ?case by (simp add: strlen_from.simps)
next
  case (Suc d)
  then have "k < n" by simp
  with Suc show ?case
    by (subst strlen_from.simps) (simp add: Suc_le_eq)
qed

lemma strlen_Some: "\<forall>i<n. s i \<noteq> 0 \<Longrightarrow> s n = 0 \<Longrightarrow> strlen s = Some n"
  by (simp add: strlen_def strlen_from_Some)

section \<open>Main results\<close>

text \<open>
  Claim C12. \<^verbatim>\<open>memmove\<close> copies correctly even when source and destination overlap: the
  destination holds exactly the bytes the source held before the call, and every byte
  outside the destination is unchanged.
\<close>

theorem memmove_correct:
  assumes "unat src + n \<le> 2 ^ 64" and "unat dst + n \<le> 2 ^ 64" and "n < 2 ^ 32"
  shows "rd (memmove m dst src n) dst n = rd m src n \<and>
     (\<forall>a. a \<notin> span dst n \<longrightarrow> memmove m dst src n a = m a)"
proof -
  have e: "memmove m dst src n = wr m dst (rd m src n)"
    using assms by (intro memmove_eq) auto
  show ?thesis
    using rd_wr_same [of "rd m src n" m dst] wr_outside [of _ dst "rd m src n" m] assms(3)
    by (simp add: e)
qed

theorem memmove_correct_witness:
  "rd (memmove (\<lambda>a. ucast a) 3 1 5) 3 5 = [1, 2, 3, 4, 5]"
  using memmove_correct [of 1 5 3 "\<lambda>a. ucast a"] by (simp add: rd_def upt_rec)

text \<open>
  Claim C13. \<^verbatim>\<open>safestrcpy(s, t, n)\<close> with \<^verbatim>\<open>n > 0\<close> writes no byte outside \<^verbatim>\<open>s[0..n)\<close>,
  always leaves \<^verbatim>\<open>s\<close> NUL-terminated within its \<^verbatim>\<open>n\<close> bytes, and copies \<^verbatim>\<open>t\<close> up to its
  terminator or the first \<^verbatim>\<open>n - 1\<close> bytes.
\<close>

theorem safestrcpy_terminates_string:
  assumes "0 < n"
  shows "(\<forall>i. int i \<ge> n \<longrightarrow> safestrcpy s t n i = s i) \<and>
     (\<exists>k. int k < n \<and> safestrcpy s t n k = 0 \<and> (\<forall>i<k. safestrcpy s t n i = t i) \<and>
        ((\<exists>j<k. t j = 0) \<or> int k = n - 1))"
proof -
  obtain N where N: "nat n = Suc N" using assms by (cases "nat n") auto
  obtain s' k where l: "safestrcpy_loop s t 0 (Suc N) = (s', k)" by fastforce
  have e: "safestrcpy s t n = s'(k := 0)" using assms N l by (simp add: safestrcpy_def)
  from safestrcpy_loop_spec [OF l]
  have k: "k \<le> N" and out: "\<And>i. N \<le> i \<Longrightarrow> s' i = s i" and cp: "\<And>i. i < k \<Longrightarrow> s' i = t i"
    and fin: "(\<exists>j<k. t j = 0) \<or> k = N" by auto
  from N assms have n: "n = int (Suc N)" by simp
  have "safestrcpy s t n i = s i" if "int i \<ge> n" for i
    unfolding e using that n k out [of i] by auto
  moreover have "int k < n \<and> safestrcpy s t n k = 0 \<and> (\<forall>i<k. safestrcpy s t n i = t i) \<and>
      ((\<exists>j<k. t j = 0) \<or> int k = n - 1)"
    unfolding e using k n fin cp by auto
  ultimately show ?thesis by blast
qed

theorem safestrcpy_terminates_string_witness:
  "safestrcpy (\<lambda>_. 7) (\<lambda>_. 9) 4 3 = 0 \<and> safestrcpy (\<lambda>_. 7) (\<lambda>_. 9) 4 2 = 9"
  using safestrcpy_terminates_string [of 4 "\<lambda>_. 7" "\<lambda>_. 9"] by auto

end
