(* ===== verification/Riscv.thy ===== *)
theory Riscv
  imports Xv6_Prelude
begin

text \<open>
  The paging constants and macros of \<^verbatim>\<open>kernel/riscv.h\<close> and the address-space layout of
  \<^verbatim>\<open>kernel/memlayout.h\<close>, on 64-bit words.  The lemmas read them as arithmetic on \<open>nat\<close>.
\<close>

section \<open>Definitions\<close>

definition PGSIZE :: u64 where "PGSIZE = 4096"
definition PGSHIFT :: nat where "PGSHIFT = 12"

definition PGROUNDUP :: "u64 \<Rightarrow> u64" where
  "PGROUNDUP sz = (sz + PGSIZE - 1) AND NOT (PGSIZE - 1)"

definition PGROUNDDOWN :: "u64 \<Rightarrow> u64" where
  "PGROUNDDOWN a = a AND NOT (PGSIZE - 1)"

definition PTE_V :: u64 where "PTE_V = push_bit 0 1"
definition PTE_R :: u64 where "PTE_R = push_bit 1 1"
definition PTE_W :: u64 where "PTE_W = push_bit 2 1"
definition PTE_X :: u64 where "PTE_X = push_bit 3 1"
definition PTE_U :: u64 where "PTE_U = push_bit 4 1"

definition PA2PTE :: "u64 \<Rightarrow> u64" where
  "PA2PTE pa = push_bit 10 (drop_bit 12 pa)"

definition PTE2PA :: "u64 \<Rightarrow> u64" where
  "PTE2PA pte = push_bit 12 (drop_bit 10 pte)"

definition PTE_FLAGS :: "u64 \<Rightarrow> u64" where
  "PTE_FLAGS pte = pte AND 0x3FF"

definition PXSHIFT :: "nat \<Rightarrow> nat" where
  "PXSHIFT level = PGSHIFT + 9 * level"

definition PX :: "nat \<Rightarrow> u64 \<Rightarrow> u64" where
  "PX level va = drop_bit (PXSHIFT level) va AND 0x1FF"

definition MAXVA :: u64 where "MAXVA = push_bit (9 + 9 + 9 + 12 - 1) 1"

definition UART0 :: u64 where "UART0 = 0x10000000"
definition VIRTIO0 :: u64 where "VIRTIO0 = 0x10001000"
definition PLIC :: u64 where "PLIC = 0x0c000000"
definition KERNBASE :: u64 where "KERNBASE = 0x80000000"
definition PHYSTOP :: u64 where "PHYSTOP = KERNBASE + 128 * 1024 * 1024"
definition TRAMPOLINE :: u64 where "TRAMPOLINE = MAXVA - PGSIZE"
definition KSTACK :: "u64 \<Rightarrow> u64" where "KSTACK p = TRAMPOLINE - (p + 1) * 2 * PGSIZE"
definition TRAPFRAME :: u64 where "TRAPFRAME = TRAMPOLINE - PGSIZE"

section \<open>Page alignment\<close>

definition aligned :: "u64 \<Rightarrow> bool" where
  "aligned a \<longleftrightarrow> unat a mod 4096 = 0"

text \<open>The addresses of the page at \<open>p\<close>.\<close>

definition page :: "u64 \<Rightarrow> u64 set" where
  "page p = span p 4096"

lemma PGSIZE_simps [simp]: "unat PGSIZE = 4096" "PGSIZE \<noteq> 0" "PGSHIFT = 12"
  by (simp_all add: PGSIZE_def PGSHIFT_def)

lemma and_not_mask12: "a AND NOT (PGSIZE - 1) = push_bit 12 (drop_bit 12 a)"
proof -
  have m: "PGSIZE - 1 = mask 12" by (simp add: PGSIZE_def mask_eq_exp_minus_1)
  show ?thesis
    unfolding m by (rule bit_word_eqI) (auto simp: bit_simps)
qed

lemma unat_PGROUNDDOWN: "unat (PGROUNDDOWN a) = unat a div 4096 * 4096"
proof -
  have "unat (drop_bit 12 a) = drop_bit 12 (unat a)"
    by (rule unat_drop_bit_eq)
  then have "unat (drop_bit 12 a) = unat a div 4096"
    by (simp only: drop_bit_eq_div) simp
  moreover have "unat a div 4096 < 2 ^ 52"
    using unsigned_less [of a, where ?'a = nat] by (simp add: less_mult_imp_div_less)
  ultimately show ?thesis
    by (simp add: PGROUNDDOWN_def and_not_mask12 push_bit_eq_mult unat_word_ariths)
qed

lemma unat_PGROUNDUP:
  assumes "unat a + 4095 < 2 ^ 64"
  shows "unat (PGROUNDUP a) = (unat a + 4095) div 4096 * 4096"
proof -
  have "a + PGSIZE - 1 = a + 4095" by (simp add: PGSIZE_def)
  moreover have "unat (a + 4095) = unat a + 4095"
    using assms by (simp add: unat_word_ariths)
  ultimately show ?thesis
    using unat_PGROUNDDOWN [of "a + 4095"]
    by (simp only: PGROUNDUP_def PGROUNDDOWN_def)
qed

lemma aligned_PGROUNDDOWN [simp]: "aligned (PGROUNDDOWN a)"
  by (simp add: aligned_def unat_PGROUNDDOWN)

lemma aligned_PGROUNDUP [simp]: "aligned (PGROUNDUP a)"
  using aligned_PGROUNDDOWN [of "a + PGSIZE - 1"] by (simp add: PGROUNDUP_def PGROUNDDOWN_def)

lemma aligned_0 [simp]: "aligned 0"
  by (simp add: aligned_def)

lemma PGROUNDDOWN_aligned: "aligned a \<Longrightarrow> PGROUNDDOWN a = a"
  by (auto simp: word_unat_eq_iff unat_PGROUNDDOWN aligned_def)

lemma aligned_le: "aligned p \<Longrightarrow> unat p + 4096 \<le> 2 ^ 64"
proof -
  assume "aligned p"
  then obtain k where k: "unat p = 4096 * k" by (auto simp: aligned_def)
  have "unat p < 2 ^ 64" using unsigned_less [of p, where ?'a = nat] by simp
  with k show ?thesis by simp
qed

lemma unat_page_offset: "aligned p \<Longrightarrow> i < 4096 \<Longrightarrow> unat (p + of_nat i) = unat p + i"
  using aligned_le [of p] by (intro unat_add_of_nat) auto

lemma in_page_iff: "aligned p \<Longrightarrow> x \<in> page p \<longleftrightarrow> unat x div 4096 = unat p div 4096"
proof
  assume a: "aligned p" and "x \<in> page p"
  from this(2) obtain i where i: "i < 4096" "x = p + of_nat i"
    unfolding page_def by (rule in_spanE)
  with a show "unat x div 4096 = unat p div 4096"
    by (auto simp: unat_page_offset aligned_def)
next
  assume a: "aligned p" and e: "unat x div 4096 = unat p div 4096"
  from a have p: "unat p = unat p div 4096 * 4096" by (auto simp: aligned_def)
  then have "unat p \<le> unat x"
    using e by (metis div_times_less_eq_dividend)
  then have "p \<le> x" by (simp add: word_le_nat_alt)
  then have "unat (x - p) = unat x - unat p" by (rule unat_diff_le)
  moreover have "unat x = unat p + unat x mod 4096"
    using p e by (metis div_mult_mod_eq)
  ultimately show "x \<in> page p"
    by (simp add: page_def in_span_iff)
qed

lemma page_disjoint:
  assumes "aligned p" "aligned q" "p \<noteq> q"
  shows "page p \<inter> page q = {}"
proof -
  have "unat p div 4096 \<noteq> unat q div 4096"
  proof
    assume "unat p div 4096 = unat q div 4096"
    with assms(1,2) have "unat p = unat q" by (auto simp: aligned_def)
    with assms(3) show False by (simp add: word_unat_eq_iff)
  qed
  with assms show ?thesis by (auto simp: in_page_iff)
qed

lemma page_self [simp]: "p \<in> page p"
  by (simp add: page_def in_span_iff)

lemma span_in_page: "i + n \<le> 4096 \<Longrightarrow> span (p + of_nat i) n \<subseteq> page p"
proof
  fix x assume i: "i + n \<le> 4096" and "x \<in> span (p + of_nat i) n"
  then obtain j where "j < n" "x = p + of_nat i + of_nat j" by (erule_tac in_spanE)
  then have "x = p + of_nat (i + j)" "i + j < 4096" using i by auto
  then show "x \<in> page p" unfolding page_def using span_add [of "i + j" 4096 p] by auto
qed

section \<open>Page-table entries\<close>

lemma PTE2PA_bits: "bit (PTE2PA e) n \<longleftrightarrow> 12 \<le> n \<and> n < 64 \<and> bit e (n - 2)"
  by (auto simp: PTE2PA_def bit_simps)

lemma PA2PTE_bits: "bit (PA2PTE pa) n \<longleftrightarrow> 10 \<le> n \<and> n < 64 \<and> bit pa (n + 2)"
  by (auto simp: PA2PTE_def bit_simps)

lemma aligned_bits: "aligned pa \<longleftrightarrow> (\<forall>n<12. \<not> bit pa n)"
proof -
  have "unat pa mod 4096 = unat (take_bit 12 pa)"
    by (simp only: unsigned_take_bit_eq) (simp add: take_bit_eq_mod)
  then have "aligned pa \<longleftrightarrow> take_bit 12 pa = 0"
    by (simp add: aligned_def unat_eq_0)
  also have "\<dots> \<longleftrightarrow> (\<forall>n<12. \<not> bit pa n)"
    by (auto simp: bit_eq_iff bit_simps)
  finally show ?thesis .
qed

lemma unat_push_bit_1: "k < 64 \<Longrightarrow> unat (push_bit k 1 :: u64) = 2 ^ k"
  by (subst unsigned_push_bit_eq) (simp_all add: take_bit_nat_eq_self)

lemma less_bits:
  assumes "k < 64"
  shows "(w::u64) < push_bit k 1 \<longleftrightarrow> (\<forall>n\<ge>k. \<not> bit w n)"
proof -
  have "unat (drop_bit k w) = unat w div 2 ^ k"
    by (simp only: unat_drop_bit_eq) (simp only: drop_bit_eq_div)
  then have "drop_bit k w = 0 \<longleftrightarrow> unat w < 2 ^ k"
    by (simp add: unat_eq_zero [symmetric] div_eq_0_iff del: unat_eq_zero)
  also have "\<dots> \<longleftrightarrow> w < push_bit k 1"
    using unat_push_bit_1 [OF assms] by (simp only: word_less_nat_alt)
  finally have "w < push_bit k 1 \<longleftrightarrow> take_bit k w = w"
    by (simp add: take_bit_eq_self_iff_drop_bit_eq_0)
  also have "\<dots> \<longleftrightarrow> (\<forall>n\<ge>k. \<not> bit w n)"
    using bit_imp_le_length [of w] by (simp add: bit_eq_iff bit_simps) (meson not_le)
  finally show ?thesis .
qed

text \<open>A page address survives the trip through an entry, whatever the flags.\<close>

lemma PTE2PA_PA2PTE:
  assumes "aligned pa" "\<forall>n\<ge>10. \<not> bit f n"
  shows "PTE2PA (PA2PTE pa OR f) = pa"
proof (rule bit_word_eqI)
  fix n assume n: "n < LENGTH(64)"
  have lo: "\<not> bit pa n" if "n < 12" using assms(1) that by (simp add: aligned_bits)
  show "bit (PTE2PA (PA2PTE pa OR f)) n = bit pa n"
  proof (cases "12 \<le> n")
    case True
    then obtain k where k: "n = k + 2" "10 \<le> k" 
      by (intro that [of "n - 2"]) simp_all
    with n assms(2) show ?thesis by (simp add: PTE2PA_bits PA2PTE_bits bit_or_iff)
  next
    case False
    with lo show ?thesis by (simp add: PTE2PA_bits)
  qed
qed

lemma PTE_FLAGS_PA2PTE:
  assumes "\<forall>n\<ge>10. \<not> bit f n"
  shows "PTE_FLAGS (PA2PTE pa OR f) = f"
proof -
  have m: "0x3FF = (mask 10 :: u64)" by (simp add: mask_eq_exp_minus_1)
  show ?thesis
    using assms unfolding PTE_FLAGS_def m
    by (auto simp: bit_eq_iff PA2PTE_bits bit_simps) (meson not_le)
qed

lemma aligned_PTE2PA [simp]: "aligned (PTE2PA e)"
  by (auto simp: aligned_bits PTE2PA_bits)

section \<open>Virtual addresses\<close>

lemma MAXVA_simps: "unat MAXVA = 2 ^ 38"
  by (simp add: MAXVA_def unat_push_bit_1)

lemma unat_PX: "unat (PX l va) = unat va div 2 ^ (12 + 9 * l) mod 512"
proof -
  have m: "0x1FF = (mask 9 :: u64)" by (simp add: mask_eq_exp_minus_1)
  have "unat (PX l va) = take_bit 9 (drop_bit (12 + 9 * l) (unat va))"
    unfolding PX_def m PXSHIFT_def
    by (simp add: take_bit_eq_mask [symmetric] unsigned_take_bit_eq unat_drop_bit_eq)
  then show ?thesis by (simp only: take_bit_eq_mod drop_bit_eq_div) simp
qed

lemma unat_PX_lt [simp]: "unat (PX l va) < 512"
  by (simp add: unat_PX)

text \<open>The three indices of an address below \<^const>\<open>MAXVA\<close> are its page number in base 512.\<close>

lemma page_number:
  assumes "va < MAXVA"
  shows "unat va div 4096 = (unat (PX 2 va) * 512 + unat (PX 1 va)) * 512 + unat (PX 0 va)"
proof -
  define k where "k = unat va div 4096"
  have lt: "unat va < 2 ^ 38" using assms by (simp add: word_less_nat_alt MAXVA_simps)
  have "k < 2 ^ 26" using lt by (simp add: k_def less_mult_imp_div_less)
  moreover have "unat (PX 0 va) = k mod 512" "unat (PX 1 va) = k div 512 mod 512"
    "unat (PX 2 va) = k div 512 div 512 mod 512"
    by (simp_all add: unat_PX k_def div_mult2_eq [symmetric])
  moreover have "k div 512 div 512 < 512" using calculation(1) by (simp add: less_mult_imp_div_less)
  ultimately show ?thesis
    unfolding k_def [symmetric] by (simp add: mult.commute [of _ 512])
qed

lemma same_indices_same_page:
  assumes "va < MAXVA" "va' < MAXVA" "aligned va" "aligned va'"
    and "PX 2 va = PX 2 va'" "PX 1 va = PX 1 va'" "PX 0 va = PX 0 va'"
  shows "va = va'"
proof -
  have "unat va div 4096 = unat va' div 4096"
    using page_number [OF assms(1)] page_number [OF assms(2)] assms(5-7) by simp
  with assms(3,4) show ?thesis by (auto simp: aligned_def word_unat_eq_iff)
qed

end
