(* ===== verification/Kalloc.thy ===== *)
theory Kalloc
  imports Machine Kstring Riscv
begin

text \<open>
  The physical page allocator, \<^verbatim>\<open>kernel/kalloc.c\<close>.  Free pages are chained through their own
  first eight bytes, so the free list is a linked list inside byte memory.  The invariant
  \<open>kmem_ok s ps\<close> says that the list starting at \<open>freelist\<close> visits exactly the pages \<open>ps\<close>.
\<close>

section \<open>State and operations\<close>

record kmem = machine +
  mem :: memory
  freelist :: u64
  kend :: u64 \<comment> \<open>the linker symbol \<^verbatim>\<open>end\<close>: first address after the kernel\<close>

definition kfree :: "u64 \<Rightarrow> 'a kmem_scheme \<Rightarrow> (unit, 'a kmem_scheme) out" where
  "kfree pa s =
     (if pa mod PGSIZE \<noteq> 0 \<or> pa < kend s \<or> PHYSTOP \<le> pa then Panic ''kfree''
      else let s = s\<lparr>mem := memset (mem s) pa 1 (unat PGSIZE)\<rparr>
           in and_then (acquire LkKmem s) (\<lambda>_ s.
              let s = s\<lparr>mem := st64 (mem s) pa (freelist s)\<rparr>;
                  s = s\<lparr>freelist := pa\<rparr>
              in release LkKmem s))"

definition kalloc :: "'a kmem_scheme \<Rightarrow> (u64, 'a kmem_scheme) out" where
  "kalloc s =
     and_then (acquire LkKmem s) (\<lambda>_ s.
       let r = freelist s;
           s = (if r \<noteq> 0 then s\<lparr>freelist := ld64 (mem s) r\<rparr> else s)
       in and_then (release LkKmem s) (\<lambda>_ s.
          Ok r (if r \<noteq> 0 then s\<lparr>mem := memset (mem s) r 5 (unat PGSIZE)\<rparr> else s)))"

text \<open>
  The loop of \<^verbatim>\<open>freerange\<close> with a bound on its iterations; a loop that exceeds the bound
  would have wrapped around the address space.
\<close>

fun freerange_loop :: "nat \<Rightarrow> u64 \<Rightarrow> u64 \<Rightarrow> 'a kmem_scheme \<Rightarrow> (unit, 'a kmem_scheme) out" where
  "freerange_loop 0 p pa_end s = Spin"
| "freerange_loop (Suc n) p pa_end s =
     (if p + PGSIZE \<le> pa_end
      then and_then (kfree p s) (\<lambda>_ s. freerange_loop n (p + PGSIZE) pa_end s)
      else Ok () s)"

definition freerange :: "u64 \<Rightarrow> u64 \<Rightarrow> 'a kmem_scheme \<Rightarrow> (unit, 'a kmem_scheme) out" where
  "freerange pa_start pa_end s =
     freerange_loop (Suc (unat pa_end div unat PGSIZE)) (PGROUNDUP pa_start) pa_end s"

definition kinit :: "'a kmem_scheme \<Rightarrow> (unit, 'a kmem_scheme) out" where
  "kinit s =
     (let s = initlock LkKmem ''kmem'' s in freerange (kend s) PHYSTOP s)"

section \<open>Fields and critical sections\<close>

lemma kmem_settle [simp]:
  "mem (settle s) = mem s" "freelist (settle s) = freelist s" "kend (settle s) = kend s"
  "(settle s)\<lparr>mem := m\<rparr> = settle (s\<lparr>mem := m\<rparr>)"
  "(settle s)\<lparr>freelist := f\<rparr> = settle (s\<lparr>freelist := f\<rparr>)"
  by (simp_all add: settle_def set_mycpu_def mycpu_def cpuid_def)

lemma kmem_enter_cs [simp]:
  "mem (enter_cs lk s) = mem s" "freelist (enter_cs lk s) = freelist s"
  "kend (enter_cs lk s) = kend s"
  "(enter_cs lk s)\<lparr>mem := m\<rparr> = enter_cs lk (s\<lparr>mem := m\<rparr>)"
  "(enter_cs lk s)\<lparr>freelist := f\<rparr> = enter_cs lk (s\<lparr>freelist := f\<rparr>)"
  by (simp_all add: enter_cs_def push_off_def set_mycpu_def mycpu_def cpuid_def)

lemma kmem_frame [simp]:
  "mach_ok (s\<lparr>mem := m\<rparr>) = mach_ok s" "mach_ok (s\<lparr>freelist := f\<rparr>) = mach_ok s"
  "lock_free lk (s\<lparr>mem := m\<rparr>) = lock_free lk s"
  "lock_free lk (s\<lparr>freelist := f\<rparr>) = lock_free lk s"
  "mycpu (s\<lparr>mem := m\<rparr>) = mycpu s" "mycpu (s\<lparr>freelist := f\<rparr>) = mycpu s"
  by (simp_all add: mach_ok_def lock_free_def mycpu_def cpuid_def)

section \<open>The free list\<close>

fun flist :: "memory \<Rightarrow> u64 \<Rightarrow> u64 list \<Rightarrow> bool" where
  "flist m a [] \<longleftrightarrow> a = 0"
| "flist m a (p # ps) \<longleftrightarrow> a = p \<and> p \<noteq> 0 \<and> flist m (ld64 m p) ps"

text \<open>Addresses that \<^verbatim>\<open>kfree\<close> accepts.\<close>

definition kpage :: "u64 \<Rightarrow> u64 \<Rightarrow> bool" where
  "kpage e p \<longleftrightarrow> aligned p \<and> e \<le> p \<and> p < PHYSTOP"

definition kmem_ok :: "'a kmem_scheme \<Rightarrow> u64 list \<Rightarrow> bool" where
  "kmem_ok s ps \<longleftrightarrow>
     flist (mem s) (freelist s) ps \<and> distinct ps \<and> (\<forall>p\<in>set ps. kpage (kend s) p) \<and>
     0 < kend s \<and> mach_ok s \<and> lock_free LkKmem s"

lemma flist_unique: "flist m a ps \<Longrightarrow> flist m a qs \<Longrightarrow> ps = qs"
  by (induction ps arbitrary: a qs) (case_tac qs; auto)+

lemma flist_cong:
  assumes "flist m a ps" and "\<And>p x. p \<in> set ps \<Longrightarrow> x \<in> span p 8 \<Longrightarrow> m' x = m x"
  shows "flist m' a ps"
  using assms
proof (induction ps arbitrary: a)
  case (Cons p ps)
  then have "ld64 m' p = ld64 m p" by (intro ld64_cong) auto
  with Cons show ?case by auto
qed simp

lemma span8_page: "span p 8 \<subseteq> page p"
  by (auto simp: page_def in_span_iff)

lemma flist_off_page:
  assumes "flist m a ps" "aligned p" "p \<notin> set ps" "\<And>q. q \<in> set ps \<Longrightarrow> aligned q"
    and "\<And>x. x \<notin> page p \<Longrightarrow> m' x = m x"
  shows "flist m' a ps"
proof (rule flist_cong [OF assms(1)])
  fix q x assume "q \<in> set ps" "x \<in> span q 8"
  then have "x \<in> page q" "aligned q" "q \<noteq> p" using assms(3,4) span8_page by auto
  then have "x \<notin> page p" using assms(2) page_disjoint [of q p] by auto
  then show "m' x = m x" by (rule assms(5))
qed

lemma aligned_mod: "aligned p \<longleftrightarrow> p mod PGSIZE = 0"
  by (simp add: aligned_def word_unat_eq_iff unat_mod)

lemma memset_page_outside: "x \<notin> page p \<Longrightarrow> memset m p c 4096 x = m x"
  by (simp add: memset_eq page_def in_span_iff)

lemma memset_page_inside: "x \<in> page p \<Longrightarrow> memset m p c 4096 x = ucast c"
  by (simp add: memset_eq page_def in_span_iff)

text \<open>Copying a whole page.\<close>

lemma kpage_range: "kpage e p \<Longrightarrow> aligned p \<and> unat p + 4096 \<le> 2 ^ 64"
  by (auto simp: kpage_def PHYSTOP_def KERNBASE_def word_less_nat_alt)

lemma memmove_page:
  assumes "kpage e dst" "kpage e src"
  shows "memmove m dst src 4096 = wr m dst (rd m src 4096)"
  using kpage_range [OF assms(1)] kpage_range [OF assms(2)] by (intro memmove_eq) auto

lemma wr_page_inside: "x \<in> page p \<Longrightarrow> wr m p (rd m' q 4096) x = m' (q + (x - p))"
  by (simp add: wr_def rd_def page_def in_span_iff)

lemma wr_page_outside: "x \<notin> page p \<Longrightarrow> wr m p (rd m' q 4096) x = m x"
  by (simp add: wr_def page_def in_span_iff)

section \<open>What the operations do\<close>

lemma kfree_eq:
  assumes "kpage (kend s) p" "mach_ok s" "lock_free LkKmem s"
  shows "kfree p s = Ok () (settle (s\<lparr>mem := st64 (memset (mem s) p 1 4096) p (freelist s),
                                      freelist := p\<rparr>))"
  using assms by (simp add: kfree_def kpage_def aligned_mod Let_def not_less not_le)

lemma kfree_panics: "\<not> kpage (kend s) p \<Longrightarrow> kfree p s = Panic ''kfree''"
  by (auto simp: kfree_def kpage_def aligned_mod not_less not_le)

lemma kalloc_empty:
  assumes "freelist s = 0" "mach_ok s" "lock_free LkKmem s"
  shows "kalloc s = Ok 0 (settle s)"
  using assms by (simp add: kalloc_def)

lemma kalloc_some:
  assumes "freelist s = p" "p \<noteq> 0" "mach_ok s" "lock_free LkKmem s"
  shows "kalloc s = Ok p (settle (s\<lparr>freelist := ld64 (mem s) p, mem := memset (mem s) p 5 4096\<rparr>))"
  using assms by (simp add: kalloc_def)

lemma kmem_okD:
  assumes "kmem_ok s ps"
  shows "flist (mem s) (freelist s) ps" "distinct ps" "\<And>p. p \<in> set ps \<Longrightarrow> kpage (kend s) p"
    "mach_ok s" "lock_free LkKmem s" "0 < kend s" "\<And>p. p \<in> set ps \<Longrightarrow> aligned p"
  using assms by (auto simp: kmem_ok_def kpage_def)

lemma kmem_ok_settle [simp]: "kmem_ok (settle s) ps = kmem_ok s ps"
  by (simp add: kmem_ok_def)

lemma freed_page_outside:
  "x \<notin> page p \<Longrightarrow> st64 (memset m p 1 4096) p v x = m x"
  using span8_page [of p] by (subst st64_outside) (auto simp: memset_page_outside)

text \<open>Freeing an allocated page puts it at the head of the list and touches no other page.\<close>

lemma kfree_ok:
  assumes ok: "kmem_ok s ps" and pg: "kpage (kend s) p" and new: "p \<notin> set ps"
  obtains s' where "kfree p s = Ok () s'" "kmem_ok s' (p # ps)" "kend s' = kend s"
    "\<And>x. x \<notin> page p \<Longrightarrow> mem s' x = mem s x"
    "s' = settle (s\<lparr>mem := mem s', freelist := p\<rparr>)"
proof -
  note D = kmem_okD [OF ok]
  let ?m = "st64 (memset (mem s) p 1 4096) p (freelist s)"
  have "flist ?m (freelist s) ps"
    using pg new
    by (intro flist_off_page [OF D(1) _ _ D(7), of p]) (simp_all add: kpage_def freed_page_outside)
  then have "kmem_ok (settle (s\<lparr>mem := ?m, freelist := p\<rparr>)) (p # ps)"
    using D pg new by (auto simp: kmem_ok_def kpage_def)
  then show thesis
    by (rule that [OF kfree_eq [OF pg D(4,5)]]) (simp_all add: freed_page_outside)
qed

lemma kalloc_ok_Nil: "kmem_ok s [] \<Longrightarrow> kalloc s = Ok 0 (settle s)"
  by (intro kalloc_empty) (auto simp: kmem_ok_def)

lemma kalloc_ok_Cons:
  assumes ok: "kmem_ok s (p # ps)"
  obtains s' where "kalloc s = Ok p s'" "kmem_ok s' ps" "kend s' = kend s"
    "\<And>x. x \<notin> page p \<Longrightarrow> mem s' x = mem s x" "\<And>x. x \<in> page p \<Longrightarrow> mem s' x = 5"
    "s' = settle (s\<lparr>freelist := freelist s', mem := mem s'\<rparr>)"
proof -
  note D = kmem_okD [OF ok]
  let ?m = "memset (mem s) p 5 4096"
  have "flist ?m (ld64 (mem s) p) ps"
    using D(1,2) by (intro flist_off_page [OF _ D(7) _ D(7) memset_page_outside]) auto
  then have "kmem_ok (settle (s\<lparr>freelist := ld64 (mem s) p, mem := ?m\<rparr>)) ps"
    using D by (auto simp: kmem_ok_def)
  moreover have "p \<noteq> 0" "freelist s = p" using D(1) by auto
  ultimately show thesis
    by (intro that [OF kalloc_some [OF _ _ D(4,5)]])
      (simp_all add: memset_page_outside memset_page_inside)
qed

section \<open>The allocator as an interface\<close>

text \<open>
  What the clients of the allocator rely on: \<open>ok s F\<close> says that the allocator is in a
  consistent state with the pages \<open>F\<close> free.  The lemma of the locale follows a client that
  allocates pages and frees only pages it owns.
\<close>

datatype palloc_op = PAlloc | PFree nat \<comment> \<open>free the \<open>i\<close>-th owned page, if there is one\<close>

fun page_client ::
  "('s \<Rightarrow> (u64, 's) out) \<Rightarrow> (u64 \<Rightarrow> 's \<Rightarrow> (unit, 's) out) \<Rightarrow> palloc_op list \<Rightarrow> u64 list \<Rightarrow> 's \<Rightarrow>
     (u64 list, 's) out" where
  "page_client alloc free [] own s = Ok own s"
| "page_client alloc free (PAlloc # xs) own s =
     and_then (alloc s) (\<lambda>p s. page_client alloc free xs (if p = 0 then own else p # own) s)"
| "page_client alloc free (PFree i # xs) own s =
     (if i < length own
      then and_then (free (own ! i) s) (\<lambda>_ s.
             page_client alloc free xs (take i own @ drop (Suc i) own) s)
      else page_client alloc free xs own s)"

locale page_allocator =
  fixes alloc :: "'s \<Rightarrow> (u64, 's) out" and free :: "u64 \<Rightarrow> 's \<Rightarrow> (unit, 's) out"
    and ok :: "'s \<Rightarrow> u64 set \<Rightarrow> bool" and valid :: "'s \<Rightarrow> u64 \<Rightarrow> bool"
  assumes alloc_none: "ok s {} \<Longrightarrow> \<exists>s'. alloc s = Ok 0 s' \<and> ok s' {} \<and> valid s' = valid s"
    and alloc_some: "ok s F \<Longrightarrow> F \<noteq> {} \<Longrightarrow>
      \<exists>p s'. alloc s = Ok p s' \<and> p \<noteq> 0 \<and> p \<in> F \<and> ok s' (F - {p}) \<and> valid s' = valid s"
    and free_page: "ok s F \<Longrightarrow> valid s p \<Longrightarrow> p \<notin> F \<Longrightarrow>
      \<exists>s'. free p s = Ok () s' \<and> ok s' (insert p F) \<and> valid s' = valid s"
    and free_valid: "ok s F \<Longrightarrow> p \<in> F \<Longrightarrow> valid s p"
begin

lemma set_remove_nth:
  assumes "distinct xs" "i < length xs"
  shows "set (take i xs @ drop (Suc i) xs) = set xs - {xs ! i}"
    and "distinct (take i xs @ drop (Suc i) xs)"
proof -
  have "xs = take i xs @ xs ! i # drop (Suc i) xs" using assms(2) by (rule id_take_nth_drop)
  then have d: "distinct (take i xs @ xs ! i # drop (Suc i) xs)"
    and s: "set xs = insert (xs ! i) (set (take i xs) \<union> set (drop (Suc i) xs))"
    using assms(1) by (metis, metis Un_insert_right list.simps(15) set_append)
  then show "set (take i xs @ drop (Suc i) xs) = set xs - {xs ! i}"
    and "distinct (take i xs @ drop (Suc i) xs)" by auto
qed

text \<open>
  Such a client never hits a panic, never owns a page twice and never sees a page that is
  free; no page is lost either.
\<close>

lemma client_ok:
  assumes "ok s F" "distinct own" "set own \<inter> F = {}" "\<And>p. p \<in> set own \<Longrightarrow> valid s p"
  shows "\<exists>own' s' F'. page_client alloc free xs own s = Ok own' s' \<and> ok s' F' \<and> distinct own' \<and>
           set own' \<inter> F' = {} \<and> set own' \<union> F' = set own \<union> F"
  using assms
proof (induction xs arbitrary: own s F)
  case (Cons x xs)
  show ?case
  proof (cases x)
    case PAlloc
    show ?thesis
    proof (cases "F = {}")
      case True
      with Cons.prems(1) obtain s' where s': "alloc s = Ok 0 s'" "ok s' {}" "valid s' = valid s"
        using alloc_none by blast
      with Cons.IH [of s' "{}" own] Cons.prems(2-4) True PAlloc show ?thesis by simp
    next
      case False
      with Cons.prems(1) obtain p s' where s': "alloc s = Ok p s'" "p \<noteq> 0" "p \<in> F"
        "ok s' (F - {p})" "valid s' = valid s" using alloc_some by blast
      have v: "\<And>q. q \<in> set (p # own) \<Longrightarrow> valid s' q"
        using s' Cons.prems(1,4) free_valid by auto
      have e: "set (p # own) \<union> (F - {p}) = set own \<union> F" using s'(3) by auto
      have "distinct (p # own)" "set (p # own) \<inter> (F - {p}) = {}"
        using Cons.prems(2,3) s'(3) by auto
      from Cons.IH [OF s'(4) this v] show ?thesis
        unfolding e using s'(1,2) PAlloc by simp
    qed
  next
    case (PFree i)
    show ?thesis
    proof (cases "i < length own")
      case True
      note R = set_remove_nth [OF Cons.prems(2) True]
      have m: "own ! i \<in> set own" using True by simp
      then obtain s' where s': "free (own ! i) s = Ok () s'" "ok s' (insert (own ! i) F)"
        "valid s' = valid s" using Cons.prems(1,3,4) free_page by blast
      have v: "\<And>q. q \<in> set (take i own @ drop (Suc i) own) \<Longrightarrow> valid s' q"
        using R(1) s'(3) Cons.prems(4) by (metis DiffD1)
      have "set own - {own ! i} \<union> insert (own ! i) F = set own \<union> F"
        "(set own - {own ! i}) \<inter> insert (own ! i) F = {}" using m Cons.prems(3) by auto
      with Cons.IH [OF s'(2) R(2) _ v] s'(1) True PFree R(1) show ?thesis
        by (simp del: set_append)
    qed (use Cons PFree in simp)
  qed
qed auto

end


definition kmem_pages :: "'a kmem_scheme \<Rightarrow> u64 set \<Rightarrow> bool" where
  "kmem_pages s F \<longleftrightarrow> (\<exists>ps. kmem_ok s ps \<and> set ps = F)"

definition kmem_valid :: "'a kmem_scheme \<Rightarrow> u64 \<Rightarrow> bool" where
  "kmem_valid s p \<longleftrightarrow> kpage (kend s) p"

interpretation kmem: page_allocator kalloc kfree kmem_pages kmem_valid
proof unfold_locales
  fix s :: "'a kmem_scheme"
  assume "kmem_pages s {}"
  then have "kmem_ok s []" by (auto simp: kmem_pages_def)
  then show "\<exists>s'. kalloc s = Ok 0 s' \<and> kmem_pages s' {} \<and> kmem_valid s' = kmem_valid s"
    using kalloc_ok_Nil [of s]
    by (auto simp: kmem_pages_def kmem_valid_def fun_eq_iff intro!: exI [of _ "settle s"])
next
  fix s :: "'a kmem_scheme" and F
  assume "kmem_pages s F" "F \<noteq> {}"
  then obtain p ps where ps: "kmem_ok s (p # ps)" "F = insert p (set ps)"
    unfolding kmem_pages_def by (metis list.set(1) list.set(2) neq_Nil_conv)
  then have np: "p \<noteq> 0" "p \<notin> set ps" by (auto simp: kmem_ok_def)
  from ps(1) obtain s' where "kalloc s = Ok p s'" "kmem_ok s' ps" "kend s' = kend s"
    by (rule kalloc_ok_Cons)
  moreover have "F - {p} = set ps" using ps np by auto
  ultimately show "\<exists>p s'. kalloc s = Ok p s' \<and> p \<noteq> 0 \<and> p \<in> F \<and> kmem_pages s' (F - {p}) \<and>
      kmem_valid s' = kmem_valid s"
    using np ps by (auto simp: kmem_pages_def kmem_valid_def fun_eq_iff)
next
  fix s :: "'a kmem_scheme" and F p
  assume "kmem_pages s F" "kmem_valid s p" "p \<notin> F"
  then obtain ps where ps: "kmem_ok s ps" "F = set ps" "p \<notin> set ps" "kpage (kend s) p"
    by (auto simp: kmem_pages_def kmem_valid_def)
  then obtain s' where "kfree p s = Ok () s'" "kmem_ok s' (p # ps)" "kend s' = kend s"
    by (metis kfree_ok)
  then show "\<exists>s'. kfree p s = Ok () s' \<and> kmem_pages s' (insert p F) \<and> kmem_valid s' = kmem_valid s"
    using ps by (auto simp: kmem_pages_def kmem_valid_def fun_eq_iff intro!: exI [of _ "p # ps"])
next
  show "kmem_pages s F \<Longrightarrow> p \<in> F \<Longrightarrow> kmem_valid s p" for s :: "'a kmem_scheme" and F p
    by (auto simp: kmem_pages_def kmem_valid_def dest: kmem_okD)
qed

section \<open>Initialisation\<close>

lemma PHYSTOP_simps [simp]: "unat PHYSTOP = 0x88000000" "unat KERNBASE = 0x80000000"
  by (simp_all add: PHYSTOP_def KERNBASE_def)

lemma freerange_loop_ok:
  assumes "kmem_ok s ps" "aligned p" "kend s \<le> p" "k < n"
    and "unat p + 4096 * k \<le> unat e" "unat e < unat p + 4096 * Suc k" "e \<le> PHYSTOP"
    and "\<And>q. q \<in> set ps \<Longrightarrow> q < p"
  shows "\<exists>s'. freerange_loop n p e s = Ok () s' \<and> kend s' = kend s \<and>
           kmem_ok s' (rev (map (\<lambda>i. p + of_nat (4096 * i)) [0..<k]) @ ps)"
  using assms
proof (induction k arbitrary: s ps p n)
  case 0
  then obtain n' where n: "n = Suc n'" by (cases n) auto
  have "unat (p + PGSIZE) = unat p + 4096"
    using 0 by (subst unat_add_nowrap) (auto simp: word_le_nat_alt)
  with 0 n show ?case by (simp add: word_le_nat_alt)
next
  case (Suc k)
  then obtain n' where n: "n = Suc n'" by (cases n) auto
  have up: "unat (p + PGSIZE) = unat p + 4096"
    using Suc.prems by (subst unat_add_nowrap) (auto simp: word_le_nat_alt)
  then have lt: "p + PGSIZE \<le> e" using Suc.prems by (simp add: word_le_nat_alt)
  have pg: "kpage (kend s) p" "p \<notin> set ps"
    using Suc.prems by (auto simp: kpage_def word_le_nat_alt word_less_nat_alt)
  obtain s' where s': "kfree p s = Ok () s'" "kmem_ok s' (p # ps)" "kend s' = kend s"
    using kfree_ok [OF Suc.prems(1) pg] by metis
  have lt_p: "q < p + PGSIZE" if "q \<in> set (p # ps)" for q
    using that Suc.prems(8) [of q] up by (auto simp: word_less_nat_alt)
  have "\<exists>t. freerange_loop n' (p + PGSIZE) e s' = Ok () t \<and> kend t = kend s' \<and>
      kmem_ok t (rev (map (\<lambda>i. p + PGSIZE + of_nat (4096 * i)) [0..<k]) @ (p # ps))"
    using Suc.prems s' up n lt_p
    by (intro Suc.IH) (auto simp: aligned_def word_le_nat_alt)
  moreover have "map (\<lambda>i. p + of_nat (4096 * i)) [0..<Suc k] =
      p # map (\<lambda>i. p + PGSIZE + of_nat (4096 * i)) [0..<k]"
    by (subst upt_conv_Cons) (simp_all add: map_Suc_upt [symmetric] PGSIZE_def comp_def
        del: upt_Suc)
  ultimately show ?case using n lt s' by auto
qed

text \<open>The pages between the end of the kernel and the end of RAM, lowest first.\<close>

definition ram_pages :: "u64 \<Rightarrow> u64 list" where
  "ram_pages e = map (\<lambda>i. PGROUNDUP e + of_nat (4096 * i))
     [0..<(unat PHYSTOP - unat (PGROUNDUP e)) div 4096]"

lemma kinit_ok:
  assumes "KERNBASE \<le> kend s" "kend s \<le> PHYSTOP" "freelist s = 0" "mach_ok s"
  shows "\<exists>s'. kinit s = Ok () s' \<and> kend s' = kend s \<and> kmem_ok s' (rev (ram_pages (kend s)))"
proof -
  let ?s = "initlock LkKmem ''kmem'' s" and ?p = "PGROUNDUP (kend s)"
  let ?k = "(unat PHYSTOP - unat ?p) div 4096"
  have s: "kend ?s = kend s" "freelist ?s = 0" "mach_ok ?s" "lock_free LkKmem ?s"
    using assms by (auto simp: initlock_def mach_ok_def mycpu_def cpuid_def lock_free_def)
  have u: "unat ?p = (unat (kend s) + 4095) div 4096 * 4096"
    using assms by (intro unat_PGROUNDUP) (simp add: word_le_nat_alt)
  have le: "unat (kend s) \<le> unat ?p" "unat ?p \<le> 0x88000000"
    using assms u by (auto simp: word_le_nat_alt)
  have "kmem_ok ?s []"
    using s assms by (auto simp: kmem_ok_def word_le_nat_alt word_less_nat_alt)
  then have "\<exists>s'. freerange_loop (Suc (unat PHYSTOP div unat PGSIZE)) ?p PHYSTOP ?s = Ok () s' \<and>
      kend s' = kend ?s \<and> kmem_ok s' (rev (map (\<lambda>i. ?p + of_nat (4096 * i)) [0..<?k]) @ [])"
    using s le by (intro freerange_loop_ok) (auto simp: word_le_nat_alt)
  then show ?thesis
    by (simp add: kinit_def freerange_def ram_pages_def s Let_def del: freerange_loop.simps)
qed

section \<open>Freeing a page twice\<close>

lemma ld64_fives:
  assumes "\<And>x. x \<in> page p \<Longrightarrow> m x = 5"
  shows "ld64 m p = 0x0505050505050505"
proof -
  have "rd m p 8 = replicate 8 5"
  proof (rule nth_equalityI)
    fix i assume "i < length (rd m p 8)"
    then have "i < 8" by simp
    then have "p + of_nat i \<in> page p" using span8_page span_add [of i 8 p] by auto
    then show "rd m p 8 ! i = replicate 8 5 ! i" using assms \<open>i < 8\<close> by (simp add: rd_def)
  qed simp
  also have "replicate 8 (5::byte) = [5, 5, 5, 5, 5, 5, 5, 5]" by (simp add: numeral_eq_Suc)
  finally show ?thesis by (simp add: ld64_def)
qed

text \<open>
  Neither routine notices a page that is freed while it is on the list: the list becomes a
  cycle, the page is handed out twice, and the third allocation returns an address made of
  the fill pattern.
\<close>

lemma double_free_cycle:
  assumes pg: "kpage (kend s) p" "p \<noteq> 0" and ok: "mach_ok s" "lock_free LkKmem s"
    and fl: "freelist s = p"
  shows "\<exists>s1 s2 s3 s4. kfree p s = Ok () s1 \<and> kalloc s1 = Ok p s2 \<and> kalloc s2 = Ok p s3 \<and>
           kalloc s3 = Ok 0x0505050505050505 s4"
proof -
  let ?m1 = "st64 (memset (mem s) p 1 4096) p p"
  let ?s1 = "settle (s\<lparr>mem := ?m1, freelist := p\<rparr>)"
  let ?m2 = "memset ?m1 p 5 4096"
  let ?s2 = "settle (s\<lparr>mem := ?m1, freelist := p, freelist := p, mem := ?m2\<rparr>)"
  have 1: "kfree p s = Ok () ?s1" using kfree_eq [OF pg(1) ok] fl by simp
  have 2: "kalloc ?s1 = Ok p ?s2" using kalloc_some [of ?s1 p] pg ok by simp
  have "ld64 ?m2 p = 0x0505050505050505" by (rule ld64_fives) (simp add: memset_page_inside)
  then obtain s3 where 3: "kalloc ?s2 = Ok p s3" "freelist s3 = 0x0505050505050505"
    "mach_ok s3" "lock_free LkKmem s3"
    using kalloc_some [of ?s2 p] pg ok by simp
  then obtain s4 where "kalloc s3 = Ok 0x0505050505050505 s4"
    using kalloc_some [of s3 "0x0505050505050505"] by auto
  with 1 2 3 show ?thesis by blast
qed

section \<open>Properties\<close>

text \<open>
  Claim C14. Ownership of physical pages: after \<^verbatim>\<open>kinit\<close> any sequence of \<^verbatim>\<open>kalloc\<close> calls and
  \<^verbatim>\<open>kfree\<close> calls on pages obtained this way runs without a panic; the pages owned by the
  caller and the pages on the free list are pairwise different, and together they are
  exactly the pages of RAM above the kernel, so no page is handed out twice and none is lost.
\<close>

theorem kalloc_ownership:
  assumes "KERNBASE \<le> kend s" "kend s \<le> PHYSTOP" "freelist s = 0" "mach_ok s"
  shows "\<exists>s0 own s' ps. kinit s = Ok () s0 \<and> page_client kalloc kfree xs [] s0 = Ok own s' \<and>
           kmem_ok s' ps \<and> distinct (own @ ps) \<and> set (own @ ps) = set (ram_pages (kend s))"
proof -
  obtain s0 where s0: "kinit s = Ok () s0" "kmem_ok s0 (rev (ram_pages (kend s)))"
    using kinit_ok [OF assms] by blast
  then have "kmem_pages s0 (set (ram_pages (kend s)))" by (auto simp: kmem_pages_def)
  from kmem.client_ok [OF this, of "[]" xs]
  obtain own s' F where r: "page_client kalloc kfree xs [] s0 = Ok own s'" "kmem_pages s' F"
    "distinct own" "set own \<inter> F = {}" "set own \<union> F = set (ram_pages (kend s))" by auto
  then obtain ps where "kmem_ok s' ps" "set ps = F" "distinct ps"
    by (auto simp: kmem_pages_def dest: kmem_okD)
  with s0 r show ?thesis by (intro exI [of _ s0] exI [of _ own] exI [of _ s'] exI [of _ ps]) auto
qed

definition boot_kmem :: "u64 \<Rightarrow> kmem" where
  "boot_kmem e = \<lparr>hart = 0, cpus = (\<lambda>_. \<lparr>cproc = None, noff = 0, intena = False, sie = False\<rparr>),
     locks = (\<lambda>_. \<lparr>locked = False, lname = [], lcpu = None\<rparr>), mem = (\<lambda>_. 0), freelist = 0, kend = e\<rparr>"

lemma boot_kmem_simps [simp]:
  "kend (boot_kmem e) = e" "freelist (boot_kmem e) = 0" "mach_ok (boot_kmem e)"
  "lock_free lk (boot_kmem e)" "mem (boot_kmem e) = (\<lambda>_. 0)"
  by (simp_all add: boot_kmem_def mach_ok_def cpu_ok_def mycpu_def cpuid_def lock_free_def)

theorem kalloc_ownership_witness:
  "\<exists>s0 own s' ps. kinit (boot_kmem 0x80026000) = Ok () s0 \<and>
     page_client kalloc kfree [PAlloc, PAlloc, PFree 1, PAlloc] [] s0 = Ok own s' \<and>
     kmem_ok s' ps \<and> distinct (own @ ps) \<and> set (own @ ps) = set (ram_pages 0x80026000)"
  using kalloc_ownership [of "boot_kmem 0x80026000" "[PAlloc, PAlloc, PFree 1, PAlloc]"]
  by (simp add: PHYSTOP_def KERNBASE_def)

text \<open>
  Isolation: \<^verbatim>\<open>kalloc\<close> returns the first free page and fills it with the byte 5,
  \<^verbatim>\<open>kfree\<close> of that page puts it back, neither writes a byte outside that page, and the
  interrupt state and all locks are as before.
\<close>

lemma kalloc_kfree_isolated:
  assumes "kmem_ok s (p # ps)"
  shows "\<exists>s' s''. kalloc s = Ok p s' \<and> kmem_ok s' ps \<and> kfree p s' = Ok () s'' \<and>
           kmem_ok s'' (p # ps) \<and> (\<forall>x. x \<in> page p \<longrightarrow> mem s' x = 5) \<and>
           (\<forall>x. x \<notin> page p \<longrightarrow> mem s' x = mem s x \<and> mem s'' x = mem s x) \<and>
           locks s'' = locks s \<and> sie (mycpu s'') = sie (mycpu s)"
proof -
  have p: "kpage (kend s) p" "p \<notin> set ps" using assms by (auto simp: kmem_ok_def)
  obtain s' where s': "kalloc s = Ok p s'" "kmem_ok s' ps" "kend s' = kend s"
    "\<And>x. x \<notin> page p \<Longrightarrow> mem s' x = mem s x" "\<And>x. x \<in> page p \<Longrightarrow> mem s' x = 5"
    "s' = settle (s\<lparr>freelist := freelist s', mem := mem s'\<rparr>)"
    by (rule kalloc_ok_Cons [OF assms]) (rule that)
  obtain s'' where s'': "kfree p s' = Ok () s''" "kmem_ok s'' (p # ps)"
    "\<And>x. x \<notin> page p \<Longrightarrow> mem s'' x = mem s' x"
    "s'' = settle (s'\<lparr>mem := mem s'', freelist := p\<rparr>)"
    using kfree_ok [OF s'(2) _ p(2)] p(1) s'(3) by metis
  have "locks s'' = locks s" "sie (mycpu s'') = sie (mycpu s)"
    by (subst s''(4), simp, subst s'(6), simp)+
  with s' s'' show ?thesis by auto
qed

end
