(* ===== verification/Vm.thy ===== *)
theory Vm
  imports Kalloc
begin

text \<open>
  Page tables and address spaces, \<^verbatim>\<open>kernel/vm.c\<close>.  Page tables live in byte memory: entry \<open>i\<close> of
  the table page \<open>pt\<close> is the 64-bit word at \<open>pt + 8 * i\<close>.  Kernel objects that are not pages of
  physical memory (static data, local variables) are passed by value: \<^verbatim>\<open>copyout\<close> takes the
  bytes to copy, \<^verbatim>\<open>copyin\<close> and \<^verbatim>\<open>copyinstr\<close> return the bytes they stored at their destination.
  A loop that steps through addresses carries a bound on its iterations; the lemmas show that
  the bound is never reached.
\<close>

section \<open>Definitions\<close>

record vm = kmem +
  kernel_pagetable :: u64
  etext :: u64
  trampoline :: u64
  satp :: "nat \<Rightarrow> u64"

definition pte_addr :: "u64 \<Rightarrow> u64 \<Rightarrow> u64" where
  "pte_addr pt i = pt + 8 * i"

fun walk_loop :: "nat \<Rightarrow> u64 \<Rightarrow> u64 \<Rightarrow> bool \<Rightarrow> 'a kmem_scheme \<Rightarrow> (u64, 'a kmem_scheme) out" where
  "walk_loop 0 pagetable va alloc s = Ok (pte_addr pagetable (PX 0 va)) s"
| "walk_loop (Suc l) pagetable va alloc s =
     (let pte = pte_addr pagetable (PX (Suc l) va); e = ld64 (mem s) pte
      in if e AND PTE_V \<noteq> 0 then walk_loop l (PTE2PA e) va alloc s
         else if \<not> alloc then Ok 0 s
         else and_then (kalloc s) (\<lambda>pg s.
           if pg = 0 then Ok 0 s
           else let s = s\<lparr>mem := memset (mem s) pg 0 (unat PGSIZE)\<rparr>;
                    s = s\<lparr>mem := st64 (mem s) pte (PA2PTE pg OR PTE_V)\<rparr>
                in walk_loop l pg va alloc s))"

definition walk :: "u64 \<Rightarrow> u64 \<Rightarrow> bool \<Rightarrow> 'a kmem_scheme \<Rightarrow> (u64, 'a kmem_scheme) out" where
  "walk pagetable va alloc s =
     (if MAXVA \<le> va then Panic ''walk'' else walk_loop 2 pagetable va alloc s)"

definition walkaddr :: "u64 \<Rightarrow> u64 \<Rightarrow> 'a kmem_scheme \<Rightarrow> (u64, 'a kmem_scheme) out" where
  "walkaddr pagetable va s =
     (if MAXVA \<le> va then Ok 0 s
      else and_then (walk pagetable va False s) (\<lambda>pte s.
        if pte = 0 then Ok 0 s
        else if ld64 (mem s) pte AND PTE_V = 0 then Ok 0 s
        else if ld64 (mem s) pte AND PTE_U = 0 then Ok 0 s
        else Ok (PTE2PA (ld64 (mem s) pte)) s))"

definition page_fuel :: "u64 \<Rightarrow> nat" where
  "page_fuel sz = unat sz div 4096 + 2"

fun mappages_loop ::
  "nat \<Rightarrow> u64 \<Rightarrow> u64 \<Rightarrow> u64 \<Rightarrow> u64 \<Rightarrow> u64 \<Rightarrow> 'a kmem_scheme \<Rightarrow> (int, 'a kmem_scheme) out" where
  "mappages_loop 0 pagetable a lst pa perm s = Spin"
| "mappages_loop (Suc n) pagetable a lst pa perm s =
     and_then (walk pagetable a True s) (\<lambda>pte s.
       if pte = 0 then Ok (- 1) s
       else if ld64 (mem s) pte AND PTE_V \<noteq> 0 then Panic ''mappages: remap''
       else let s = s\<lparr>mem := st64 (mem s) pte (PA2PTE pa OR perm OR PTE_V)\<rparr>
            in if a = lst then Ok 0 s
               else mappages_loop n pagetable (a + PGSIZE) lst (pa + PGSIZE) perm s)"

definition mappages ::
  "u64 \<Rightarrow> u64 \<Rightarrow> u64 \<Rightarrow> u64 \<Rightarrow> u64 \<Rightarrow> 'a kmem_scheme \<Rightarrow> (int, 'a kmem_scheme) out" where
  "mappages pagetable va sz pa perm s =
     (if sz = 0 then Panic ''mappages: size''
      else let a = PGROUNDDOWN va; lst = PGROUNDDOWN (va + sz - 1)
           in mappages_loop (page_fuel (lst - a)) pagetable a lst pa perm s)"

definition kvmmap ::
  "u64 \<Rightarrow> u64 \<Rightarrow> u64 \<Rightarrow> u64 \<Rightarrow> u64 \<Rightarrow> 'a kmem_scheme \<Rightarrow> (unit, 'a kmem_scheme) out" where
  "kvmmap kpgtbl va pa sz perm s =
     and_then (mappages kpgtbl va sz pa perm s) (\<lambda>r s.
       if r \<noteq> 0 then Panic ''kvmmap'' else Ok () s)"

fun uvmunmap_loop ::
  "nat \<Rightarrow> u64 \<Rightarrow> u64 \<Rightarrow> u64 \<Rightarrow> bool \<Rightarrow> 'a kmem_scheme \<Rightarrow> (unit, 'a kmem_scheme) out" where
  "uvmunmap_loop 0 pagetable a e do_free s = Spin"
| "uvmunmap_loop (Suc n) pagetable a e do_free s =
     (if a < e then
        and_then (walk pagetable a False s) (\<lambda>pte s.
          if pte = 0 then Panic ''uvmunmap: walk''
          else let v = ld64 (mem s) pte
          in if v AND PTE_V = 0 then Panic ''uvmunmap: not mapped''
             else if PTE_FLAGS v = PTE_V then Panic ''uvmunmap: not a leaf''
             else and_then (if do_free then kfree (PTE2PA v) s else Ok () s) (\<lambda>_ s.
               let s = s\<lparr>mem := st64 (mem s) pte 0\<rparr>
               in uvmunmap_loop n pagetable (a + PGSIZE) e do_free s))
      else Ok () s)"

definition uvmunmap :: "u64 \<Rightarrow> u64 \<Rightarrow> u64 \<Rightarrow> bool \<Rightarrow> 'a kmem_scheme \<Rightarrow> (unit, 'a kmem_scheme) out" where
  "uvmunmap pagetable va npages do_free s =
     (if va mod PGSIZE \<noteq> 0 then Panic ''uvmunmap: not aligned''
      else uvmunmap_loop (unat npages + 1) pagetable va (va + npages * PGSIZE) do_free s)"

definition uvmcreate :: "'a kmem_scheme \<Rightarrow> (u64, 'a kmem_scheme) out" where
  "uvmcreate s =
     and_then (kalloc s) (\<lambda>pagetable s.
       if pagetable = 0 then Ok 0 s
       else Ok pagetable (s\<lparr>mem := memset (mem s) pagetable 0 (unat PGSIZE)\<rparr>))"

definition uvminit :: "u64 \<Rightarrow> byte list \<Rightarrow> 'a kmem_scheme \<Rightarrow> (unit, 'a kmem_scheme) out" where
  "uvminit pagetable src s =
     (if 4096 \<le> length src then Panic ''inituvm: more than a page''
      else and_then (kalloc s) (\<lambda>pg s.
        let s = s\<lparr>mem := memset (mem s) pg 0 (unat PGSIZE)\<rparr>
        in and_then (mappages pagetable 0 PGSIZE pg (PTE_W OR PTE_R OR PTE_X OR PTE_U) s) (\<lambda>_ s.
          Ok () (s\<lparr>mem := wr (mem s) pg src\<rparr>))))"

definition uvmdealloc :: "u64 \<Rightarrow> u64 \<Rightarrow> u64 \<Rightarrow> 'a kmem_scheme \<Rightarrow> (u64, 'a kmem_scheme) out" where
  "uvmdealloc pagetable oldsz newsz s =
     (if oldsz \<le> newsz then Ok oldsz s
      else and_then
        (if PGROUNDUP newsz < PGROUNDUP oldsz
         then let npages = scast (ucast ((PGROUNDUP oldsz - PGROUNDUP newsz) div PGSIZE) :: i32)
              in uvmunmap pagetable (PGROUNDUP newsz) npages True s
         else Ok () s)
        (\<lambda>_ s. Ok newsz s))"

fun uvmalloc_loop ::
  "nat \<Rightarrow> u64 \<Rightarrow> u64 \<Rightarrow> u64 \<Rightarrow> u64 \<Rightarrow> 'a kmem_scheme \<Rightarrow> (u64, 'a kmem_scheme) out" where
  "uvmalloc_loop 0 pagetable a oldsz newsz s = Spin"
| "uvmalloc_loop (Suc n) pagetable a oldsz newsz s =
     (if a < newsz then
        and_then (kalloc s) (\<lambda>pg s.
          if pg = 0 then and_then (uvmdealloc pagetable a oldsz s) (\<lambda>_ s. Ok 0 s)
          else let s = s\<lparr>mem := memset (mem s) pg 0 (unat PGSIZE)\<rparr>
          in and_then (mappages pagetable a PGSIZE pg (PTE_W OR PTE_X OR PTE_R OR PTE_U) s) (\<lambda>r s.
            if r \<noteq> 0 then
              and_then (kfree pg s) (\<lambda>_ s.
              and_then (uvmdealloc pagetable a oldsz s) (\<lambda>_ s. Ok 0 s))
            else uvmalloc_loop n pagetable (a + PGSIZE) oldsz newsz s))
      else Ok newsz s)"

definition uvmalloc :: "u64 \<Rightarrow> u64 \<Rightarrow> u64 \<Rightarrow> 'a kmem_scheme \<Rightarrow> (u64, 'a kmem_scheme) out" where
  "uvmalloc pagetable oldsz newsz s =
     (if newsz < oldsz then Ok oldsz s
      else let oldsz = PGROUNDUP oldsz
           in uvmalloc_loop (page_fuel newsz) pagetable oldsz oldsz newsz s)"

text \<open>\<open>freewalk\<close> follows valid non-leaf entries to any depth; the first argument bounds the depth.\<close>

fun freewalk :: "nat \<Rightarrow> u64 \<Rightarrow> 'a kmem_scheme \<Rightarrow> (unit, 'a kmem_scheme) out" where
  "freewalk 0 pagetable s = Spin"
| "freewalk (Suc d) pagetable s =
     and_then
       (for_each (\<lambda>i s.
          let pte = ld64 (mem s) (pte_addr pagetable (of_nat i))
          in if pte AND PTE_V \<noteq> 0 \<and> pte AND (PTE_R OR PTE_W OR PTE_X) = 0
             then and_then (freewalk d (PTE2PA pte) s) (\<lambda>_ s.
               Ok () (s\<lparr>mem := st64 (mem s) (pte_addr pagetable (of_nat i)) 0\<rparr>))
             else if pte AND PTE_V \<noteq> 0 then Panic ''freewalk: leaf''
             else Ok () s)
          [0..<512] s)
       (\<lambda>_ s. kfree pagetable s)"

definition uvmfree :: "u64 \<Rightarrow> u64 \<Rightarrow> 'a kmem_scheme \<Rightarrow> (unit, 'a kmem_scheme) out" where
  "uvmfree pagetable sz s =
     and_then (if 0 < sz then uvmunmap pagetable 0 (PGROUNDUP sz div PGSIZE) True s else Ok () s)
       (\<lambda>_ s. freewalk 3 pagetable s)"

fun uvmcopy_loop ::
  "nat \<Rightarrow> u64 \<Rightarrow> u64 \<Rightarrow> u64 \<Rightarrow> u64 \<Rightarrow> 'a kmem_scheme \<Rightarrow> (int, 'a kmem_scheme) out" where
  "uvmcopy_loop 0 old new i sz s = Spin"
| "uvmcopy_loop (Suc n) old new i sz s =
     (let err = (\<lambda>s. and_then (uvmunmap new 0 (i div PGSIZE) True s) (\<lambda>_ s. Ok (- 1) s))
      in if i < sz then
        and_then (walk old i False s) (\<lambda>pte s.
          if pte = 0 then Panic ''uvmcopy: pte should exist''
          else if ld64 (mem s) pte AND PTE_V = 0 then Panic ''uvmcopy: page not present''
          else let pa = PTE2PA (ld64 (mem s) pte); flags = PTE_FLAGS (ld64 (mem s) pte)
          in and_then (kalloc s) (\<lambda>pg s.
            if pg = 0 then err s
            else let s = s\<lparr>mem := memmove (mem s) pg pa (unat PGSIZE)\<rparr>
            in and_then (mappages new i PGSIZE pg flags s) (\<lambda>r s.
              if r \<noteq> 0 then and_then (kfree pg s) (\<lambda>_ s. err s)
              else uvmcopy_loop n old new (i + PGSIZE) sz s)))
      else Ok 0 s)"

definition uvmcopy :: "u64 \<Rightarrow> u64 \<Rightarrow> u64 \<Rightarrow> 'a kmem_scheme \<Rightarrow> (int, 'a kmem_scheme) out" where
  "uvmcopy old new sz s = uvmcopy_loop (page_fuel sz) old new 0 sz s"

definition uvmclear :: "u64 \<Rightarrow> u64 \<Rightarrow> 'a kmem_scheme \<Rightarrow> (unit, 'a kmem_scheme) out" where
  "uvmclear pagetable va s =
     and_then (walk pagetable va False s) (\<lambda>pte s.
       if pte = 0 then Panic ''uvmclear''
       else Ok () (s\<lparr>mem := st64 (mem s) pte (ld64 (mem s) pte AND NOT PTE_U)\<rparr>))"

text \<open>
  The copy loops.  Each iteration copies the rest of the current user page or the rest of the
  data, whichever is shorter, so at least one byte.
\<close>

definition copy_chunk :: "u64 \<Rightarrow> nat \<Rightarrow> nat" where
  "copy_chunk va len =
     (let n = unat (PGSIZE - (va - PGROUNDDOWN va)) in if len < n then len else n)"

lemma offset_in_page: "unat (va - PGROUNDDOWN va) = unat va mod 4096"
proof -
  have "PGROUNDDOWN va \<le> va" by (simp add: word_le_nat_alt unat_PGROUNDDOWN)
  then show ?thesis by (simp add: unat_diff_le unat_PGROUNDDOWN minus_div_mult_eq_mod)
qed

lemma copy_chunk_eq: "copy_chunk va len = min len (4096 - unat va mod 4096)"
proof -
  have "va - PGROUNDDOWN va \<le> PGSIZE"
    by (simp add: word_le_nat_alt offset_in_page)
  then show ?thesis by (simp add: copy_chunk_def unat_diff_le offset_in_page Let_def)
qed

lemma copy_chunk_pos: "0 < len \<Longrightarrow> 0 < copy_chunk va len"
  by (simp add: copy_chunk_eq)

function copyout :: "u64 \<Rightarrow> u64 \<Rightarrow> byte list \<Rightarrow> 'a kmem_scheme \<Rightarrow> (int, 'a kmem_scheme) out" where
  "copyout pagetable dstva src s =
     (if src \<noteq> [] then
        let va0 = PGROUNDDOWN dstva
        in and_then (walkaddr pagetable va0 s) (\<lambda>pa0 s.
          if pa0 = 0 then Ok (- 1) s
          else let n = copy_chunk dstva (length src);
                   s = s\<lparr>mem := wr (mem s) (pa0 + (dstva - va0)) (take n src)\<rparr>
               in copyout pagetable (va0 + PGSIZE) (drop n src) s)
      else Ok 0 s)"
  by pat_completeness auto
termination
  by (relation "measure (\<lambda>(pt, va, src, s). length src)") (auto simp: copy_chunk_pos)

function copyin :: "u64 \<Rightarrow> u64 \<Rightarrow> nat \<Rightarrow> 'a kmem_scheme \<Rightarrow> (int \<times> byte list, 'a kmem_scheme) out" where
  "copyin pagetable srcva len s =
     (if 0 < len then
        let va0 = PGROUNDDOWN srcva
        in and_then (walkaddr pagetable va0 s) (\<lambda>pa0 s.
          if pa0 = 0 then Ok (- 1, []) s
          else let n = copy_chunk srcva len;
                   bs = rd (mem s) (pa0 + (srcva - va0)) n
               in and_then (copyin pagetable (va0 + PGSIZE) (len - n) s) (\<lambda>(r, rest) s.
                    Ok (r, bs @ rest) s))
      else Ok (0, []) s)"
  by pat_completeness auto
termination
  by (relation "measure (\<lambda>(pt, va, len, s). len)") (auto simp: copy_chunk_pos)

text \<open>The inner loop of \<^verbatim>\<open>copyinstr\<close>: the bytes up to a NUL (included) or \<open>n\<close> bytes.\<close>

fun copy_until_null :: "memory \<Rightarrow> u64 \<Rightarrow> nat \<Rightarrow> byte list \<times> bool" where
  "copy_until_null m p 0 = ([], False)"
| "copy_until_null m p (Suc n) =
     (if m p = 0 then ([0], True)
      else case copy_until_null m (p + 1) n of (bs, got_null) \<Rightarrow> (m p # bs, got_null))"

function copyinstr :: "u64 \<Rightarrow> u64 \<Rightarrow> nat \<Rightarrow> 'a kmem_scheme \<Rightarrow> (int \<times> byte list, 'a kmem_scheme) out" where
  "copyinstr pagetable srcva mx s =
     (if 0 < mx then
        let va0 = PGROUNDDOWN srcva
        in and_then (walkaddr pagetable va0 s) (\<lambda>pa0 s.
          if pa0 = 0 then Ok (- 1, []) s
          else let n = copy_chunk srcva mx
          in case copy_until_null (mem s) (pa0 + (srcva - va0)) n of (bs, got_null) \<Rightarrow>
               if got_null then Ok (0, bs) s
               else and_then (copyinstr pagetable (va0 + PGSIZE) (mx - n) s) (\<lambda>(r, rest) s.
                      Ok (r, bs @ rest) s))
      else Ok (- 1, []) s)"
  by pat_completeness auto
termination
  by (relation "measure (\<lambda>(pt, va, mx, s). mx)") (auto simp: copy_chunk_pos)

declare copyout.simps [simp del] copyin.simps [simp del] copyinstr.simps [simp del]

text \<open>The kernel page table; \<^verbatim>\<open>proc_mapstacks\<close> is in \<^verbatim>\<open>kernel/proc.c\<close>.\<close>

definition NPROC :: nat where "NPROC = 64"

definition proc_mapstacks :: "u64 \<Rightarrow> 'a kmem_scheme \<Rightarrow> (unit, 'a kmem_scheme) out" where
  "proc_mapstacks kpgtbl s =
     for_each (\<lambda>i s.
       and_then (kalloc s) (\<lambda>pa s.
         if pa = 0 then Panic ''kalloc''
         else kvmmap kpgtbl (KSTACK (of_nat i)) pa PGSIZE (PTE_R OR PTE_W) s))
       [0..<NPROC] s"

definition kvmmake :: "'a vm_scheme \<Rightarrow> (u64, 'a vm_scheme) out" where
  "kvmmake s =
     and_then (kalloc s) (\<lambda>kpgtbl s.
       let s = s\<lparr>mem := memset (mem s) kpgtbl 0 (unat PGSIZE)\<rparr>; et = etext s; tr = trampoline s
       in and_then (kvmmap kpgtbl UART0 UART0 PGSIZE (PTE_R OR PTE_W) s) (\<lambda>_ s.
          and_then (kvmmap kpgtbl VIRTIO0 VIRTIO0 PGSIZE (PTE_R OR PTE_W) s) (\<lambda>_ s.
          and_then (kvmmap kpgtbl PLIC PLIC 0x400000 (PTE_R OR PTE_W) s) (\<lambda>_ s.
          and_then (kvmmap kpgtbl KERNBASE KERNBASE (et - KERNBASE) (PTE_R OR PTE_X) s) (\<lambda>_ s.
          and_then (kvmmap kpgtbl et et (PHYSTOP - et) (PTE_R OR PTE_W) s) (\<lambda>_ s.
          and_then (kvmmap kpgtbl TRAMPOLINE tr PGSIZE (PTE_R OR PTE_X) s) (\<lambda>_ s.
          and_then (proc_mapstacks kpgtbl s) (\<lambda>_ s. Ok kpgtbl s))))))))"

definition kvminit :: "'a vm_scheme \<Rightarrow> (unit, 'a vm_scheme) out" where
  "kvminit s = and_then (kvmmake s) (\<lambda>pt s. Ok () (s\<lparr>kernel_pagetable := pt\<rparr>))"

definition MAKE_SATP :: "u64 \<Rightarrow> u64" where
  "MAKE_SATP pagetable = push_bit 60 8 OR drop_bit 12 pagetable"

definition kvminithart :: "'a vm_scheme \<Rightarrow> 'a vm_scheme" where
  "kvminithart s = s\<lparr>satp := (satp s)(cpuid s := MAKE_SATP (kernel_pagetable s))\<rparr>"

end
