(* ===== verification/Pagetable.thy ===== *)
theory Pagetable
  imports Vm
begin

text \<open>
  The three-level tree behind a page table.  \<open>node m pt \<pi>\<close> is the table page reached from the
  root \<open>pt\<close> along the indices \<open>\<pi>\<close>, and \<open>leaf m pt va\<close> the entry that translates \<open>va\<close> (0 when
  there is none): the abstract address space.  \<open>pt_ok\<close> is the well-formedness of the tree,
  no table page reached along two paths and no permission bits on the inner entries.  The lemmas say what a store to an entry and the
  insertion of a table page do to the tree.
\<close>

section \<open>Entries of one table page\<close>

definition pte_valid :: "u64 \<Rightarrow> bool" where
  "pte_valid e \<longleftrightarrow> e AND PTE_V \<noteq> 0"

definition ent :: "memory \<Rightarrow> u64 \<Rightarrow> nat \<Rightarrow> u64" where
  "ent m pt i = ld64 m (pte_addr pt (of_nat i))"

lemma pte_addr_of_nat: "pte_addr pt (of_nat i) = pt + of_nat (8 * i)"
  by (simp add: pte_addr_def)

lemma slot_in_page: "i < 512 \<Longrightarrow> span (pte_addr pt (of_nat i)) 8 \<subseteq> page pt"
  unfolding pte_addr_of_nat by (rule span_in_page) simp

lemma slot_iff:
  assumes "i < 512"
  shows "x \<in> span (pte_addr pt (of_nat i)) 8 \<longleftrightarrow> unat (x - pt) div 8 = i"
proof
  assume "x \<in> span (pte_addr pt (of_nat i)) 8"
  then obtain j where j: "j < 8" "x = pt + of_nat (8 * i) + of_nat j"
    unfolding pte_addr_of_nat by (rule in_spanE)
  then have "x - pt = of_nat (8 * i + j)" by simp
  then have "unat (x - pt) = 8 * i + j" using j(1) assms by (simp add: unat_of_nat take_bit_nat_eq_self del: of_nat_add)
  with j(1) show "unat (x - pt) div 8 = i" by simp
next
  assume d: "unat (x - pt) div 8 = i"
  define j where "j = unat (x - pt) mod 8"
  have "unat (x - pt) = 8 * i + j" unfolding j_def d [symmetric] by simp
  then have x: "x = pt + of_nat (8 * i + j)" by (rule unat_diff_eqD)
  have "x = pte_addr pt (of_nat i) + of_nat j" unfolding x pte_addr_of_nat by simp
  moreover have "j < 8" by (simp add: j_def)
  ultimately show "x \<in> span (pte_addr pt (of_nat i)) 8" by auto
qed

lemma slots_disjoint:
  "i < 512 \<Longrightarrow> j < 512 \<Longrightarrow> i \<noteq> j \<Longrightarrow>
     span (pte_addr pt (of_nat i)) 8 \<inter> span (pte_addr pt (of_nat j)) 8 = {}"
  by (auto simp: slot_iff)

lemma ent_off_page:
  assumes "aligned p" "aligned q" "q \<noteq> p" "j < 512" "\<And>x. x \<notin> page p \<Longrightarrow> m' x = m x"
  shows "ent m' q j = ent m q j"
  unfolding ent_def
proof (rule ld64_cong, rule assms(5))
  fix x assume "x \<in> span (pte_addr q (of_nat j)) 8"
  then have "x \<in> page q" using slot_in_page [OF assms(4)] by auto
  then show "x \<notin> page p" using page_disjoint [of q p] assms(1-3) by auto
qed

lemma ent_same_page:
  assumes "j < 512" "\<And>x. x \<in> page q \<Longrightarrow> m' x = m x"
  shows "ent m' q j = ent m q j"
  unfolding ent_def using slot_in_page [OF assms(1)] assms(2) by (intro ld64_cong) auto

lemma ent_zero_page:
  assumes "j < 512" "\<And>x. x \<in> page q \<Longrightarrow> m x = 0"
  shows "ent m q j = 0"
  unfolding ent_def using slot_in_page [OF assms(1)] assms(2) by (intro ld64_zero) auto

lemma st64_ent_off_page:
  "i < 512 \<Longrightarrow> x \<notin> page p \<Longrightarrow> st64 m (pte_addr p (of_nat i)) v x = m x"
  using slot_in_page by (intro st64_outside) blast

lemma ent_st64:
  assumes "aligned p" "aligned q" "i < 512" "j < 512"
  shows "ent (st64 m (pte_addr p (of_nat i)) v) q j = (if q = p \<and> j = i then v else ent m q j)"
proof (cases "q = p")
  case True
  then show ?thesis
    using assms slots_disjoint [of i j p] by (auto simp: ent_def ld64_st64_disjoint)
next
  case False
  then show ?thesis
    using ent_off_page [OF assms(1,2) False assms(4) st64_ent_off_page [OF assms(3)]] by simp
qed

lemma pte_valid_0 [simp]: "\<not> pte_valid 0"
  by (simp add: pte_valid_def)

lemma flag_bit: "pte_valid e \<longleftrightarrow> bit e 0"
proof -
  have "e AND 1 \<noteq> 0 \<longleftrightarrow> bit e 0"
    by (simp add: and_one_eq bit_0 even_iff_mod_2_eq_zero)
  then show ?thesis by (simp add: pte_valid_def PTE_V_def)
qed

lemma pte_valid_or [simp]: "pte_valid (e OR PTE_V)"
  by (simp add: flag_bit bit_or_iff PTE_V_def)

lemma PTE_V_hi: "10 \<le> n \<Longrightarrow> \<not> bit PTE_V n"
  by (simp add: PTE_V_def bit_1_iff)

lemma PTE2PA_table [simp]: "aligned p \<Longrightarrow> PTE2PA (PA2PTE p OR PTE_V) = p"
  by (rule PTE2PA_PA2PTE) (auto simp: PTE_V_hi)

section \<open>The tree\<close>

fun node :: "memory \<Rightarrow> u64 \<Rightarrow> nat list \<Rightarrow> u64 option" where
  "node m pt [] = Some pt"
| "node m pt (i # \<pi>) =
     (if pte_valid (ent m pt i) then node m (PTE2PA (ent m pt i)) \<pi> else None)"

definition paths :: "nat list set" where
  "paths = {\<pi>. length \<pi> \<le> 2 \<and> set \<pi> \<subseteq> {..<512}}"

definition tpages :: "memory \<Rightarrow> u64 \<Rightarrow> u64 set" where
  "tpages m pt = {a. \<exists>\<pi>\<in>paths. node m pt \<pi> = Some a}"

definition RWX :: u64 where
  "RWX = PTE_R OR PTE_W OR PTE_X"

definition pt_ok :: "memory \<Rightarrow> u64 \<Rightarrow> bool" where
  "pt_ok m pt \<longleftrightarrow> aligned pt \<and>
     (\<forall>\<pi>\<in>paths. \<forall>\<sigma>\<in>paths. \<forall>a. node m pt \<pi> = Some a \<longrightarrow> node m pt \<sigma> = Some a \<longrightarrow> \<pi> = \<sigma>) \<and>
     (\<forall>\<pi>\<in>paths. \<forall>a. \<forall>i<512. length \<pi> \<le> 1 \<longrightarrow> node m pt \<pi> = Some a \<longrightarrow> pte_valid (ent m a i) \<longrightarrow>
        ent m a i AND RWX = 0) \<and>
     (\<forall>i<512. 256 \<le> i \<longrightarrow> \<not> pte_valid (ent m pt i))"

definition px :: "nat \<Rightarrow> u64 \<Rightarrow> nat" where
  "px l va = unat (PX l va)"

definition leaf :: "memory \<Rightarrow> u64 \<Rightarrow> u64 \<Rightarrow> u64" where
  "leaf m pt va = (case node m pt [px 2 va, px 1 va] of None \<Rightarrow> 0 | Some a \<Rightarrow> ent m a (px 0 va))"

lemma px_lt [simp]: "px l va < 512"
  by (simp add: px_def)

lemma pte_addr_px: "pte_addr pt (PX l va) = pte_addr pt (of_nat (px l va))"
  by (simp add: px_def)

lemma paths_Nil [simp]: "[] \<in> paths"
  by (simp add: paths_def)

lemma paths_snoc: "\<pi> @ [i] \<in> paths \<longleftrightarrow> length \<pi> \<le> 1 \<and> \<pi> \<in> paths \<and> i < 512"
  by (auto simp: paths_def)

lemma path2 [simp]: "[px k va, px l va] \<in> paths"
  by (simp add: paths_def)

lemma node_snoc:
  "node m pt (\<pi> @ [i]) =
     (case node m pt \<pi> of None \<Rightarrow> None
      | Some a \<Rightarrow> if pte_valid (ent m a i) then Some (PTE2PA (ent m a i)) else None)"
  by (induction \<pi> arbitrary: pt) auto

lemma node_aligned: "aligned pt \<Longrightarrow> node m pt \<pi> = Some a \<Longrightarrow> aligned a"
proof (induction \<pi> arbitrary: pt)
  case (Cons i \<pi>)
  from Cons.prems have "node m (PTE2PA (ent m pt i)) \<pi> = Some a" by (simp split: if_splits)
  then show ?case by (rule Cons.IH [OF aligned_PTE2PA])
qed simp

declare node.simps(2) [simp del]

lemma node_cong:
  assumes "\<And>\<sigma> a i. \<sigma> \<in> paths \<Longrightarrow> length \<sigma> \<le> 1 \<Longrightarrow> node m pt \<sigma> = Some a \<Longrightarrow> i < 512 \<Longrightarrow>
             ent m' a i = ent m a i"
    and "\<pi> \<in> paths"
  shows "node m' pt \<pi> = node m pt \<pi>"
  using assms(2)
proof (induction \<pi> rule: rev_induct)
  case (snoc i \<pi>)
  then have p: "length \<pi> \<le> 1" "\<pi> \<in> paths" "i < 512" by (auto simp: paths_snoc)
  then show ?case
    using snoc.IH assms(1) by (auto simp: node_snoc split: option.splits)
qed simp

lemma pt_ok_inj:
  "pt_ok m pt \<Longrightarrow> \<pi> \<in> paths \<Longrightarrow> \<sigma> \<in> paths \<Longrightarrow> node m pt \<pi> = Some a \<Longrightarrow> node m pt \<sigma> = Some a \<Longrightarrow> \<pi> = \<sigma>"
  unfolding pt_ok_def by blast

lemma pt_ok_inner:
  "pt_ok m pt \<Longrightarrow> \<pi> \<in> paths \<Longrightarrow> i < 512 \<Longrightarrow> length \<pi> \<le> 1 \<Longrightarrow> node m pt \<pi> = Some a \<Longrightarrow>
     pte_valid (ent m a i) \<Longrightarrow> ent m a i AND RWX = 0"
  unfolding pt_ok_def by blast

lemma pt_ok_high: "pt_ok m pt \<Longrightarrow> i < 512 \<Longrightarrow> 256 \<le> i \<Longrightarrow> \<not> pte_valid (ent m pt i)"
  unfolding pt_ok_def by blast

lemma bit_RWX: "bit RWX n \<longleftrightarrow> n = 1 \<or> n = 2 \<or> n = 3"
proof -
  have e: "RWX = push_bit 1 (mask 3)"
    by (simp add: RWX_def PTE_R_def PTE_W_def PTE_X_def mask_eq_exp_minus_1)
  show ?thesis unfolding e bit_push_bit_iff bit_mask_iff by auto
qed

lemma table_entry_RWX: "(PA2PTE p OR PTE_V) AND RWX = 0"
  by (rule bit_word_eqI) (auto simp: bit_or_iff bit_and_iff PA2PTE_bits bit_RWX PTE_V_def bit_1_iff)

lemma tpagesI [intro]: "node m pt \<pi> = Some a \<Longrightarrow> \<pi> \<in> paths \<Longrightarrow> a \<in> tpages m pt"
  unfolding tpages_def by blast

lemma tpages_root [simp]: "pt \<in> tpages m pt"
  by (rule tpagesI [of _ _ "[]"]) auto

lemma tpages_aligned: "pt_ok m pt \<Longrightarrow> a \<in> tpages m pt \<Longrightarrow> aligned a"
  by (auto simp: tpages_def pt_ok_def dest: node_aligned)

text \<open>Trees that agree on all nodes and inner entries agree on everything but the leaves.\<close>

lemma same_nodes:
  assumes "\<And>\<pi>. \<pi> \<in> paths \<Longrightarrow> node m' pt \<pi> = node m pt \<pi>"
    and "\<And>\<pi> a i. \<pi> \<in> paths \<Longrightarrow> length \<pi> \<le> 1 \<Longrightarrow> node m pt \<pi> = Some a \<Longrightarrow> i < 512 \<Longrightarrow>
           ent m' a i = ent m a i"
  shows "tpages m' pt = tpages m pt" "pt_ok m' pt = pt_ok m pt"
proof -
  show "tpages m' pt = tpages m pt" using assms(1) by (auto simp: tpages_def)
  have "(\<forall>\<pi>\<in>paths. \<forall>\<sigma>\<in>paths. \<forall>a. node m' pt \<pi> = Some a \<longrightarrow> node m' pt \<sigma> = Some a \<longrightarrow> \<pi> = \<sigma>) \<longleftrightarrow>
      (\<forall>\<pi>\<in>paths. \<forall>\<sigma>\<in>paths. \<forall>a. node m pt \<pi> = Some a \<longrightarrow> node m pt \<sigma> = Some a \<longrightarrow> \<pi> = \<sigma>)"
    by (intro ball_cong refl) (simp add: assms(1))
  moreover have "(\<forall>\<pi>\<in>paths. \<forall>a. \<forall>i<512. length \<pi> \<le> 1 \<longrightarrow> node m' pt \<pi> = Some a \<longrightarrow>
        pte_valid (ent m' a i) \<longrightarrow> ent m' a i AND RWX = 0) \<longleftrightarrow>
      (\<forall>\<pi>\<in>paths. \<forall>a. \<forall>i<512. length \<pi> \<le> 1 \<longrightarrow> node m pt \<pi> = Some a \<longrightarrow>
        pte_valid (ent m a i) \<longrightarrow> ent m a i AND RWX = 0)"
    by (intro ball_cong refl) (auto simp: assms)
  moreover have "(\<forall>i<512. 256 \<le> i \<longrightarrow> \<not> pte_valid (ent m' pt i)) \<longleftrightarrow>
      (\<forall>i<512. 256 \<le> i \<longrightarrow> \<not> pte_valid (ent m pt i))"
    using assms(2) [of "[]" pt] by simp
  ultimately show "pt_ok m' pt = pt_ok m pt" by (simp only: pt_ok_def)
qed

text \<open>A write outside the table pages leaves the tree alone.\<close>

lemma table_frame:
  assumes "\<And>x a. a \<in> tpages m pt \<Longrightarrow> x \<in> page a \<Longrightarrow> m' x = m x"
  shows "\<pi> \<in> paths \<Longrightarrow> node m' pt \<pi> = node m pt \<pi>" "leaf m' pt va = leaf m pt va"
    "tpages m' pt = tpages m pt" "pt_ok m' pt = pt_ok m pt"
proof -
  have e: "ent m' a i = ent m a i" if "\<sigma> \<in> paths" "node m pt \<sigma> = Some a" "i < 512" for \<sigma> a i
    using that(3) assms [OF tpagesI [OF that(2,1)]] by (rule ent_same_page)
  have n: "node m' pt \<pi> = node m pt \<pi>" if "\<pi> \<in> paths" for \<pi>
    by (rule node_cong [OF e that])
  show "\<pi> \<in> paths \<Longrightarrow> node m' pt \<pi> = node m pt \<pi>" by (rule n)
  show "tpages m' pt = tpages m pt" "pt_ok m' pt = pt_ok m pt" by (rule same_nodes [OF n e], assumption+)+
  show "leaf m' pt va = leaf m pt va"
    using n [OF path2] e [OF path2] by (auto simp: leaf_def split: option.splits)
qed

text \<open>Storing into a leaf slot changes that translation and nothing else.\<close>

lemma store_leaf:
  assumes ok: "pt_ok m pt" and a: "node m pt [px 2 va, px 1 va] = Some a"
    and m': "m' = st64 m (pte_addr a (PX 0 va)) v"
  shows "\<pi> \<in> paths \<Longrightarrow> node m' pt \<pi> = node m pt \<pi>"
    "tpages m' pt = tpages m pt" "pt_ok m' pt"
    "leaf m' pt vb = (if px 2 vb = px 2 va \<and> px 1 vb = px 1 va \<and> px 0 vb = px 0 va then v
                      else leaf m pt vb)"
proof -
  have al: "aligned pt" using ok by (simp add: pt_ok_def)
  have e: "ent m' b i = (if b = a \<and> i = px 0 va then v else ent m b i)"
    if "node m pt \<sigma> = Some b" "i < 512" for \<sigma> b i
    unfolding m' pte_addr_px
    by (rule ent_st64 [OF node_aligned [OF al a] node_aligned [OF al that(1)] px_lt that(2)])
  have i: "ent m' b i = ent m b i"
    if s: "\<sigma> \<in> paths" "length \<sigma> \<le> 1" "node m pt \<sigma> = Some b" "i < 512" for \<sigma> b i
  proof -
    from s have "b \<noteq> a" using pt_ok_inj [OF ok s(1) path2 s(3)] a by auto
    with e [OF s(3,4)] show ?thesis by simp
  qed
  have n: "node m' pt \<pi> = node m pt \<pi>" if "\<pi> \<in> paths" for \<pi>
    by (rule node_cong [OF i that])
  then show "\<pi> \<in> paths \<Longrightarrow> node m' pt \<pi> = node m pt \<pi>" .
  show "tpages m' pt = tpages m pt" by (rule same_nodes [OF n i])
  have "pt_ok m' pt = pt_ok m pt" by (rule same_nodes [OF n i])
  then show "pt_ok m' pt" using ok by blast
  show "leaf m' pt vb = (if px 2 vb = px 2 va \<and> px 1 vb = px 1 va \<and> px 0 vb = px 0 va then v
                      else leaf m pt vb)"
  proof (cases "node m pt [px 2 vb, px 1 vb]")
    case (Some b)
    then have "b = a \<longleftrightarrow> px 2 vb = px 2 va \<and> px 1 vb = px 1 va"
      using pt_ok_inj [OF ok path2 path2 _ a, of 2 vb 1] a by (cases "b = a") auto
    then show ?thesis using e [OF Some px_lt, of 0 vb] Some n [OF path2, of 2 vb 1] by (simp add: leaf_def)
  next
    case None
    then have "\<not> (px 2 vb = px 2 va \<and> px 1 vb = px 1 va)" using a by (cases "px 2 vb = px 2 va") auto
    then show ?thesis using None n [OF path2, of 2 vb 1] by (auto simp: leaf_def)
  qed
qed

text \<open>Hanging a zeroed fresh page below an invalid entry adds one node and no translation.\<close>

definition hangs :: "memory \<Rightarrow> u64 \<Rightarrow> nat list \<Rightarrow> nat \<Rightarrow> u64 \<Rightarrow> u64 \<Rightarrow> memory \<Rightarrow> bool" where
  "hangs m pt \<pi> i a pg m' \<longleftrightarrow>
     pt_ok m pt \<and> \<pi> @ [i] \<in> paths \<and> node m pt \<pi> = Some a \<and> \<not> pte_valid (ent m a i) \<and>
     aligned pg \<and> pg \<notin> tpages m pt \<and> (\<pi> = [] \<longrightarrow> i < 256) \<and>
     m' = st64 (memset m pg 0 4096) (pte_addr a (of_nat i)) (PA2PTE pg OR PTE_V)"

lemma hangs_facts:
  assumes h: "hangs m pt \<pi> i a pg m'"
  shows "\<pi> \<in> paths" "i < 512" "length \<pi> \<le> 1" "node m pt \<pi> = Some a" "node m pt (\<pi> @ [i]) = None"
    "pt_ok m pt" "aligned pg" "pg \<notin> tpages m pt" "\<pi> @ [i] \<in> paths" "a \<in> tpages m pt"
  using assms by (auto simp: hangs_def paths_snoc node_snoc)

lemma hangs_ent:
  assumes h: "hangs m pt \<pi> i a pg m'" and j: "j < 512"
  shows "b \<in> tpages m pt \<Longrightarrow>
      ent m' b j = (if b = a \<and> j = i then PA2PTE pg OR PTE_V else ent m b j)" (is "_ \<Longrightarrow> ?old")
    and "ent m' pg j = 0"
proof -
  note F = hangs_facts [OF h]
  have m': "m' = st64 (memset m pg 0 4096) (pte_addr a (of_nat i)) (PA2PTE pg OR PTE_V)"
    using h by (simp add: hangs_def)
  have al: "aligned a" "a \<noteq> pg" using F(10,8) tpages_aligned [OF F(6)] by auto
  show ?old if "b \<in> tpages m pt"
  proof -
    have b: "aligned b" "b \<noteq> pg" using that tpages_aligned [OF F(6)] F(8) by auto
    show ?thesis
      using ent_st64 [OF al(1) b(1) F(2) j] ent_off_page [OF F(7) b j memset_page_outside]
      by (simp add: m')
  qed
  have "ent (memset m pg 0 4096) pg j = 0"
    by (rule ent_zero_page [OF j]) (simp add: memset_page_inside)
  then show "ent m' pg j = 0"
    using ent_st64 [OF al(1) F(7) F(2) j] al(2) by (simp add: m')
qed

lemma hangs_node:
  assumes h: "hangs m pt \<pi> i a pg m'" and "\<sigma> \<in> paths"
  shows "node m' pt \<sigma> = (if \<sigma> = \<pi> @ [i] then Some pg else node m pt \<sigma>)"
  using assms(2)
proof (induction \<sigma> rule: rev_induct)
  case (snoc k \<sigma>)
  note F = hangs_facts [OF h]
  from snoc have s: "\<sigma> \<in> paths" "k < 512" by (auto simp: paths_snoc)
  consider "\<sigma> = \<pi> @ [i]" | "\<sigma> \<noteq> \<pi> @ [i]" "node m pt \<sigma> = None"
    | b where "\<sigma> \<noteq> \<pi> @ [i]" "node m pt \<sigma> = Some b" by (cases "node m pt \<sigma>") auto
  then show ?case
  proof cases
    case 1
    with snoc.IH [OF s(1)] hangs_ent(2) [OF h s(2)] F(5)
    have "node m' pt (\<sigma> @ [k]) = None" "node m pt (\<sigma> @ [k]) = None"
      by (simp_all only: node_snoc) simp_all
    with 1 show ?thesis by simp
  next
    case 2
    with snoc.IH [OF s(1)] F(4) show ?thesis by (auto simp: node_snoc [of _ _ \<sigma>])
  next
    case (3 b)
    have ba: "b = a \<longleftrightarrow> \<sigma> = \<pi>" using pt_ok_inj [OF F(6) s(1) F(1) 3(2)] F(4) 3(2) by auto
    have "b \<in> tpages m pt" using 3(2) s(1) by (rule tpagesI)
    from hangs_ent(1) [OF h s(2) this] snoc.IH [OF s(1)] 3 ba show ?thesis
      by (cases "\<sigma> = \<pi> \<and> k = i") (auto simp: node_snoc F(7))
  qed
qed simp

lemma hangs_ok:
  assumes h: "hangs m pt \<pi> i a pg m'"
  shows "tpages m' pt = insert pg (tpages m pt)" and "pt_ok m' pt"
proof -
  note F = hangs_facts [OF h] and n = hangs_node [OF h]
  have new: "node m pt \<sigma> \<noteq> Some pg" if "\<sigma> \<in> paths" for \<sigma> using that F(8) by blast
  show "tpages m' pt = insert pg (tpages m pt)"
  proof (rule set_eqI, rule iffI)
    fix b assume "b \<in> tpages m' pt"
    then show "b \<in> insert pg (tpages m pt)" using n by (auto simp: tpages_def split: if_splits)
  next
    fix b assume "b \<in> insert pg (tpages m pt)"
    then consider "b = pg" | \<sigma> where "\<sigma> \<in> paths" "node m pt \<sigma> = Some b" by (auto simp: tpages_def)
    then show "b \<in> tpages m' pt"
    proof cases
      case 1
      with n [OF F(9)] F(9) show ?thesis by auto
    next
      case 2
      then have "\<sigma> \<noteq> \<pi> @ [i]" using F(5) by auto
      with n [OF 2(1)] 2 show ?thesis by auto
    qed
  qed
  show "pt_ok m' pt"
    unfolding pt_ok_def
  proof (intro conjI ballI allI impI)
    show "aligned pt" using F(6) by (simp add: pt_ok_def)
    fix \<sigma> \<tau> b
    assume s: "\<sigma> \<in> paths" "\<tau> \<in> paths" "node m' pt \<sigma> = Some b" "node m' pt \<tau> = Some b"
    then show "\<sigma> = \<tau>"
      using n [OF s(1)] n [OF s(2)] new [OF s(1)] new [OF s(2)] pt_ok_inj [OF F(6) s(1,2)]
      by (simp split: if_splits)
  next
    fix \<sigma> b j
    assume s: "\<sigma> \<in> paths" "j < (512::nat)" "length \<sigma> \<le> 1" "node m' pt \<sigma> = Some b"
      "pte_valid (ent m' b j)"
    show "ent m' b j AND RWX = 0"
    proof (cases "\<sigma> = \<pi> @ [i]")
      case True
      then show ?thesis using n [OF s(1)] s(4,5) hangs_ent(2) [OF h s(2)] by simp
    next
      case False
      then have b: "node m pt \<sigma> = Some b" using n [OF s(1)] s(4) by simp
      then have "b \<in> tpages m pt" using s(1) by (rule tpagesI)
      from hangs_ent(1) [OF h s(2) this] pt_ok_inner [OF F(6) s(1,2,3) b] s(5) table_entry_RWX
      show ?thesis by (simp split: if_splits)
    qed
  next
    fix j :: nat
    assume j: "j < 512" "256 \<le> j"
    have "\<not> (pt = a \<and> j = i)"
      using pt_ok_inj [OF F(6) F(1) paths_Nil F(4)] h j(2) by (auto simp: hangs_def)
    then show "\<not> pte_valid (ent m' pt j)"
      using hangs_ent(1) [OF h j(1) tpages_root] pt_ok_high [OF F(6) j] by simp
  qed
qed

lemma hangs_leaf:
  assumes h: "hangs m pt \<pi> i a pg m'"
  shows "leaf m' pt va = leaf m pt va"
proof (cases "[px 2 va, px 1 va] = \<pi> @ [i]")
  case True
  then have "node m' pt [px 2 va, px 1 va] = Some pg" "node m pt [px 2 va, px 1 va] = None"
    using hangs_node [OF h path2, of 2 va 1] hangs_facts(5) [OF h] by metis+
  then show ?thesis using hangs_ent(2) [OF h px_lt] by (simp add: leaf_def)
next
  case False
  note F = hangs_facts [OF h] and n = hangs_node [OF h path2, of 2 va 1]
  show ?thesis
  proof (cases "node m pt [px 2 va, px 1 va]")
    case (Some b)
    have "b \<in> tpages m pt" using Some path2 by (rule tpagesI)
    moreover have "b \<noteq> a"
    proof
      assume "b = a"
      then have "[px 2 va, px 1 va] = \<pi>" using pt_ok_inj [OF F(6) path2 F(1) Some] F(4) by simp
      with F(3) show False by auto
    qed
    ultimately show ?thesis
      using hangs_ent(1) [OF h px_lt] Some n False by (auto simp: leaf_def)
  qed (use n False in \<open>auto simp: leaf_def\<close>)
qed

end
