(* ===== verification/Vm_Walk.thy ===== *)
theory Vm_Walk
  imports Pagetable
begin

text \<open>
  \<^verbatim>\<open>walk\<close>, \<^verbatim>\<open>walkaddr\<close> and \<^verbatim>\<open>mappages\<close> against the tree view of a page table.  \<open>vm_ok s pt ps\<close>
  is the invariant: the allocator is consistent with free pages \<open>ps\<close>, and the table at \<open>pt\<close>
  is a well-formed tree of allocated pages.
\<close>

section \<open>Invariant and frames\<close>

text \<open>Only memory, the free list and the interrupt bookkeeping differ.\<close>

definition kframe :: "'a kmem_scheme \<Rightarrow> 'a kmem_scheme \<Rightarrow> bool" where
  "kframe s s' \<longleftrightarrow> settle s' = settle (s\<lparr>mem := mem s', freelist := freelist s'\<rparr>)"

definition vm_ok :: "'a kmem_scheme \<Rightarrow> u64 \<Rightarrow> u64 list \<Rightarrow> bool" where
  "vm_ok s pt ps \<longleftrightarrow>
     kmem_ok s ps \<and> pt_ok (mem s) pt \<and>
     (\<forall>a\<in>tpages (mem s) pt. kpage (kend s) a \<and> a \<notin> set ps)"

definition covered :: "u64 set \<Rightarrow> u64 set" where
  "covered P = (\<Union>p\<in>P. page p)"

text \<open>
  \<open>vm_ext\<close>: table pages were added, taken from the front of the free list, and only table
  pages were written.  \<open>vm_grow\<close>: moreover no translation changed.
\<close>

definition vm_ext ::
  "u64 \<Rightarrow> 'a kmem_scheme \<Rightarrow> u64 list \<Rightarrow> 'a kmem_scheme \<Rightarrow> u64 list \<Rightarrow> bool" where
  "vm_ext pt s ps s' ps' \<longleftrightarrow>
     vm_ok s' pt ps' \<and> kframe s s' \<and>
     (\<exists>us. ps = us @ ps' \<and> tpages (mem s') pt = tpages (mem s) pt \<union> set us) \<and>
     (\<forall>x. x \<notin> covered (tpages (mem s') pt) \<longrightarrow> mem s' x = mem s x)"

definition vm_grow ::
  "u64 \<Rightarrow> 'a kmem_scheme \<Rightarrow> u64 list \<Rightarrow> 'a kmem_scheme \<Rightarrow> u64 list \<Rightarrow> bool" where
  "vm_grow pt s ps s' ps' \<longleftrightarrow>
     vm_ext pt s ps s' ps' \<and> (\<forall>va. leaf (mem s') pt va = leaf (mem s) pt va)"

lemma kframe_refl [simp]: "kframe s s"
  by (simp add: kframe_def)

lemma kframe_trans [trans]:
  assumes "kframe s s'" "kframe s' s''"
  shows "kframe s s''"
proof -
  have "settle s'' = (settle s')\<lparr>mem := mem s'', freelist := freelist s''\<rparr>"
    using assms(2) by (simp add: kframe_def)
  also have "\<dots> = settle (s\<lparr>mem := mem s'', freelist := freelist s''\<rparr>)"
    using assms(1) by (simp add: kframe_def)
  finally show ?thesis by (simp add: kframe_def)
qed

lemma kframe_mem [simp]: "kframe s (s\<lparr>mem := m\<rparr>)" "kframe s (settle s)"
  by (simp_all add: kframe_def)

lemma kframe_upd: "kframe s s' \<Longrightarrow> kframe s (s'\<lparr>mem := m\<rparr>)"
  by (rule kframe_trans [OF _ kframe_mem(1)])

lemma kframe_kend: "kframe s s' \<Longrightarrow> kend s' = kend s"
proof -
  assume "kframe s s'"
  then have "kend (settle s') = kend (settle (s\<lparr>mem := mem s', freelist := freelist s'\<rparr>))"
    by (simp only: kframe_def)
  then show ?thesis by simp
qed

lemma kmem_upd_order: "s\<lparr>freelist := f, mem := m\<rparr> = s\<lparr>mem := m, freelist := f\<rparr>"
  by simp

lemma kframe_kalloc: "s' = settle (s\<lparr>freelist := freelist s', mem := mem s'\<rparr>) \<Longrightarrow> kframe s s'"
  unfolding kframe_def kmem_upd_order by (drule arg_cong [of _ _ settle]) simp

lemma kframe_kfree:
  assumes "s' = settle (s\<lparr>mem := mem s', freelist := p\<rparr>)"
  shows "kframe s s'"
proof -
  have "freelist s' = p" by (subst assms) simp
  with arg_cong [OF assms, of settle] show ?thesis by (simp add: kframe_def)
qed

lemma kmem_ok_mem:
  assumes "kmem_ok s ps" "\<And>q x. q \<in> set ps \<Longrightarrow> x \<in> page q \<Longrightarrow> m' x = mem s x"
  shows "kmem_ok (s\<lparr>mem := m'\<rparr>) ps"
proof -
  have "flist m' (freelist s) ps"
  proof (rule flist_cong)
    show "flist (mem s) (freelist s) ps" using assms(1) by (simp add: kmem_ok_def)
    show "m' x = mem s x" if "p \<in> set ps" "x \<in> span p 8" for p x
      using assms(2) [OF that(1)] that(2) span8_page by blast
  qed
  with assms(1) show ?thesis by (simp add: kmem_ok_def)
qed

lemma in_covered: "x \<in> page p \<Longrightarrow> p \<in> P \<Longrightarrow> x \<in> covered P"
  by (auto simp: covered_def)

lemma covered_mono: "P \<subseteq> Q \<Longrightarrow> covered P \<subseteq> covered Q"
  by (auto simp: covered_def)

lemma page_not_covered:
  "aligned p \<Longrightarrow> (\<And>q. q \<in> P \<Longrightarrow> aligned q) \<Longrightarrow> p \<notin> P \<Longrightarrow> x \<in> page p \<Longrightarrow> x \<notin> covered P"
  unfolding covered_def using page_disjoint by blast

lemma vm_okD:
  assumes "vm_ok s pt ps"
  shows "kmem_ok s ps" "pt_ok (mem s) pt" "\<And>a. a \<in> tpages (mem s) pt \<Longrightarrow> kpage (kend s) a"
    "\<And>a. a \<in> tpages (mem s) pt \<Longrightarrow> a \<notin> set ps" "\<And>a. a \<in> tpages (mem s) pt \<Longrightarrow> aligned a"
    "\<And>a. a \<in> tpages (mem s) pt \<Longrightarrow> a \<noteq> 0"
  using assms by (auto simp: vm_ok_def kpage_def kmem_ok_def)

lemma vm_ext_refl: "vm_ok s pt ps \<Longrightarrow> vm_ext pt s ps s ps"
  by (simp add: vm_ext_def)

lemma vm_grow_refl: "vm_ok s pt ps \<Longrightarrow> vm_grow pt s ps s ps"
  by (simp add: vm_grow_def vm_ext_refl)

lemma vm_extD:
  assumes "vm_ext pt s ps s' ps'"
  shows "vm_ok s' pt ps'" "kframe s s'"
    "x \<notin> covered (tpages (mem s') pt) \<Longrightarrow> mem s' x = mem s x"
    "tpages (mem s) pt \<subseteq> tpages (mem s') pt" "set ps' \<subseteq> set ps" "kend s' = kend s"
    "tpages (mem s') pt \<union> set ps' = tpages (mem s) pt \<union> set ps"
  using assms kframe_kend by (auto simp: vm_ext_def)

lemma vm_ext_trans:
  assumes 1: "vm_ext pt s ps s' ps'" and 2: "vm_ext pt s' ps' s'' ps''"
  shows "vm_ext pt s ps s'' ps''"
proof -
  note D = vm_extD [OF 1] and E = vm_extD [OF 2]
  obtain us vs where us: "ps = us @ ps'" "tpages (mem s') pt = tpages (mem s) pt \<union> set us"
    and vs: "ps' = vs @ ps''" "tpages (mem s'') pt = tpages (mem s') pt \<union> set vs"
    using 1 2 by (auto simp: vm_ext_def)
  have "mem s'' x = mem s x" if "x \<notin> covered (tpages (mem s'') pt)" for x
    using that D(3) E(3) covered_mono [OF E(4)] by auto
  then show ?thesis
    unfolding vm_ext_def using D(1,2) E(1,2) us vs kframe_trans
    by (auto intro!: exI [of _ "us @ vs"])
qed

lemma vm_grow_trans: "vm_grow pt s ps s' ps' \<Longrightarrow> vm_grow pt s' ps' s'' ps'' \<Longrightarrow> vm_grow pt s ps s'' ps''"
  unfolding vm_grow_def using vm_ext_trans by fastforce

section \<open>walk\<close>

lemma pte_addr_nonzero:
  assumes "aligned a" "a \<noteq> 0"
  shows "pte_addr a (PX 0 va) \<noteq> 0"
proof -
  have "unat (pte_addr a (PX 0 va)) = unat a + 8 * px 0 va"
    unfolding pte_addr_px pte_addr_of_nat
    using px_lt [of 0 va] assms(1) by (intro unat_page_offset) simp_all
  moreover have "unat a \<noteq> 0" using assms(2) by (simp add: unat_eq_0)
  ultimately show ?thesis by (auto simp: unat_eq_0)
qed

lemma walk_lookup:
  assumes "va < MAXVA"
  shows "walk pt va False s =
     Ok (case node (mem s) pt [px 2 va, px 1 va] of None \<Rightarrow> 0 | Some a \<Rightarrow> pte_addr a (PX 0 va)) s"
  using assms
  by (simp add: walk_def numeral_2_eq_2 node.simps(2) ent_def pte_valid_def pte_addr_px Let_def not_le)

lemma walkaddr_lookup:
  assumes "vm_ok s pt ps"
  shows "walkaddr pt va s =
     Ok (if va < MAXVA \<and> pte_valid (leaf (mem s) pt va) \<and> leaf (mem s) pt va AND PTE_U \<noteq> 0
         then PTE2PA (leaf (mem s) pt va) else 0) s"
proof (cases "va < MAXVA")
  case True
  show ?thesis
  proof (cases "node (mem s) pt [px 2 va, px 1 va]")
    case (Some a)
    then have "a \<in> tpages (mem s) pt" by auto
    then have "pte_addr a (PX 0 va) \<noteq> 0" using vm_okD [OF assms] pte_addr_nonzero by blast
    moreover have "\<not> MAXVA \<le> va" using True by simp
    ultimately show ?thesis using Some True
      by (auto simp: walkaddr_def walk_lookup leaf_def ent_def pte_valid_def pte_addr_px)
  qed (use True in \<open>simp add: walkaddr_def walk_lookup leaf_def\<close>)
qed (auto simp: walkaddr_def not_less)

text \<open>One level of \<^verbatim>\<open>walk\<close> with allocation: the new table page.\<close>

lemma walk_new_page:
  assumes ok: "vm_ok s pt (p # ps)" and a: "node (mem s) pt \<pi> = Some a" "\<pi> @ [i] \<in> paths"
    and inv: "\<not> pte_valid (ent (mem s) a i)" and low: "\<pi> = [] \<longrightarrow> i < 256"
  shows "\<exists>s1. kalloc s = Ok p s1 \<and> p \<noteq> 0 \<and>
     (let s2 = s1\<lparr>mem := st64 (memset (mem s1) p 0 4096) (pte_addr a (of_nat i)) (PA2PTE p OR PTE_V)\<rparr>
      in vm_grow pt s (p # ps) s2 ps \<and> node (mem s2) pt (\<pi> @ [i]) = Some p)"
proof -
  note D = vm_okD [OF ok]
  obtain s1 where s1: "kalloc s = Ok p s1" "kmem_ok s1 ps" "kend s1 = kend s"
    "\<And>x. x \<notin> page p \<Longrightarrow> mem s1 x = mem s x" "kframe s s1"
    using kalloc_ok_Cons [OF D(1)] kframe_kalloc by metis
  have p: "kpage (kend s) p" "aligned p" "p \<noteq> 0" "p \<notin> set ps" "p \<notin> tpages (mem s) pt"
    using D(1) D(4) by (auto simp: kmem_ok_def kpage_def)
  have i: "i < 512" and at: "a \<in> tpages (mem s) pt" using a by (auto simp: paths_snoc)
  define m' where "m' = st64 (memset (mem s1) p 0 4096) (pte_addr a (of_nat i)) (PA2PTE p OR PTE_V)"
  have same: "memset (mem s1) p 0 4096 = memset (mem s) p 0 4096"
  proof
    show "memset (mem s1) p 0 4096 x = memset (mem s) p 0 4096 x" for x
      by (cases "x \<in> page p") (simp_all add: memset_page_inside memset_page_outside s1(4))
  qed
  have h: "hangs (mem s) pt \<pi> i a p m'"
    using D(2) a inv p low by (simp add: hangs_def m'_def same)
  have out: "m' x = mem s x" if "x \<notin> page p" "x \<notin> page a" for x
    using that i by (simp add: m'_def same st64_ent_off_page memset_page_outside)
  have off: "x \<notin> page p \<and> x \<notin> page a" if "q \<in> set ps" "x \<in> page q" for q x
  proof -
    have "aligned q" "q \<noteq> p" "q \<noteq> a" using that D(4) at p kmem_okD(7) [OF D(1), of q] by auto
    then show ?thesis using page_disjoint [of q p] page_disjoint [of q a] that p(2) D(5) [OF at] by auto
  qed
  then have "kmem_ok (s1\<lparr>mem := m'\<rparr>) ps"
    using s1(4) out by (intro kmem_ok_mem [OF s1(2)]) auto
  then have "vm_ok (s1\<lparr>mem := m'\<rparr>) pt ps"
    using hangs_ok [OF h] D(3,4) p s1(3) by (auto simp: vm_ok_def)
  moreover have "m' x = mem s x" if "x \<notin> covered (insert p (tpages (mem s) pt))" for x
    using that at by (intro out) (auto simp: covered_def)
  ultimately have "vm_grow pt s (p # ps) (s1\<lparr>mem := m'\<rparr>) ps"
    using hangs_ok [OF h] hangs_leaf [OF h] s1(5) by (auto simp: vm_grow_def vm_ext_def kframe_upd)
  with s1(1) p(3) hangs_node [OF h a(2)] show ?thesis by (auto simp: m'_def Let_def)
qed

lemma paths_prefix:
  assumes "\<pi> @ \<sigma> = \<tau>" "\<tau> \<in> paths"
  shows "\<pi> \<in> paths"
  using assms(2) unfolding assms(1) [symmetric] by (simp add: paths_def)

lemma px2_low: "va < MAXVA \<Longrightarrow> px 2 va < 256"
  by (simp add: px_def unat_PX MAXVA_def word_less_nat_alt less_mult_imp_div_less)

lemma walk_loop_alloc:
  assumes "vm_ok s pt ps" "node (mem s) pt \<pi> = Some a" and va: "va < MAXVA"
    and "\<pi> @ map (\<lambda>k. px k va) (rev [1..<Suc l]) = [px 2 va, px 1 va]"
  shows "\<exists>r s' ps'. walk_loop l a va True s = Ok r s' \<and> vm_grow pt s ps s' ps' \<and>
     (r = 0 \<and> ps' = [] \<or>
      (\<exists>b. node (mem s') pt [px 2 va, px 1 va] = Some b \<and> r = pte_addr b (PX 0 va) \<and> r \<noteq> 0))"
  using assms(1,2,4)
proof (induction l arbitrary: \<pi> a s ps)
  case 0
  then have a: "node (mem s) pt [px 2 va, px 1 va] = Some a" by simp
  then have "a \<in> tpages (mem s) pt" by (rule tpagesI) simp
  then have "pte_addr a (PX 0 va) \<noteq> 0" using vm_okD [OF 0(1)] pte_addr_nonzero by blast
  with a show ?case using vm_grow_refl [OF 0(1)] by auto
next
  case (Suc l)
  let ?i = "px (Suc l) va" and ?e = "ent (mem s) a (px (Suc l) va)"
  have path: "(\<pi> @ [?i]) @ map (\<lambda>k. px k va) (rev [1..<Suc l]) = [px 2 va, px 1 va]"
    using Suc.prems(3) by simp
  then have p: "\<pi> @ [?i] \<in> paths"
    by (rule paths_prefix) simp
  have low: "\<pi> = [] \<longrightarrow> ?i < 256" using path px2_low [OF va] by auto
  have e: "ld64 (mem s) (pte_addr a (PX (Suc l) va)) = ?e" by (simp add: ent_def pte_addr_px)
  show ?case
  proof (cases "pte_valid ?e")
    case True
    then have "node (mem s) pt (\<pi> @ [?i]) = Some (PTE2PA ?e)" using Suc.prems(2) by (simp add: node_snoc)
    from Suc.IH [OF Suc.prems(1) this path] True show ?thesis
      by (simp add: e pte_valid_def [symmetric] Let_def)
  next
    case False
    show ?thesis
    proof (cases ps)
      case Nil
      then have "kalloc s = Ok 0 (settle s)" using Suc.prems(1) by (simp add: vm_ok_def kalloc_ok_Nil)
      moreover have "vm_grow pt s [] (settle s) []"
        using Suc.prems(1) Nil by (simp add: vm_grow_def vm_ext_def vm_ok_def)
      ultimately show ?thesis using False Nil by (auto simp: e pte_valid_def Let_def)
    next
      case (Cons p ps1)
      from walk_new_page [OF Suc.prems(1) [unfolded Cons] Suc.prems(2) p False low]
      obtain s1 s2 where s: "kalloc s = Ok p s1" "p \<noteq> 0" "vm_grow pt s (p # ps1) s2 ps1"
        "s2 = s1\<lparr>mem := st64 (memset (mem s1) p 0 4096) (pte_addr a (of_nat ?i)) (PA2PTE p OR PTE_V)\<rparr>"
        "node (mem s2) pt (\<pi> @ [?i]) = Some p" by (auto simp: Let_def)
      then have "vm_ok s2 pt ps1" by (simp add: vm_grow_def vm_ext_def)
      from Suc.IH [OF this s(5) path] obtain r s' ps' where r: "walk_loop l p va True s2 = Ok r s'"
        "vm_grow pt s2 ps1 s' ps'" "r = 0 \<and> ps' = [] \<or>
          (\<exists>b. node (mem s') pt [px 2 va, px 1 va] = Some b \<and> r = pte_addr b (PX 0 va) \<and> r \<noteq> 0)"
        by blast
      have "walk_loop (Suc l) a va True s = Ok r s'"
        using s(1,2) r(1) False by (simp add: ent_def pte_valid_def s(4) pte_addr_px Let_def)
      with r vm_grow_trans [OF s(3) r(2)] Cons show ?thesis by blast
    qed
  qed
qed

lemma walk_alloc:
  assumes "vm_ok s pt ps" "va < MAXVA"
  shows "\<exists>r s' ps'. walk pt va True s = Ok r s' \<and> vm_grow pt s ps s' ps' \<and>
     (r = 0 \<and> ps' = [] \<or>
      (\<exists>b. node (mem s') pt [px 2 va, px 1 va] = Some b \<and> r = pte_addr b (PX 0 va) \<and> r \<noteq> 0))"
  using walk_loop_alloc [OF assms(1), of "[]" pt va 2, OF _ assms(2)] assms(2)
  by (simp add: walk_def numeral_2_eq_2)

section \<open>Changing one translation\<close>

definition pn :: "u64 \<Rightarrow> nat" where
  "pn va = unat va div 4096"

lemma px_pn: "px l va = pn va div 512 ^ l mod 512"
  by (simp add: px_def unat_PX pn_def power_add div_mult2_eq [symmetric] power_mult)

lemma px_eq_iff:
  assumes "va < MAXVA" "vb < MAXVA"
  shows "px 2 vb = px 2 va \<and> px 1 vb = px 1 va \<and> px 0 vb = px 0 va \<longleftrightarrow> pn vb = pn va"
  using page_number [OF assms(1)] page_number [OF assms(2)]
  by (auto simp: px_pn) (auto simp: pn_def px_def [symmetric] px_pn)

lemma vm_store:
  assumes ok: "vm_ok s pt ps" and b: "node (mem s) pt [px 2 va, px 1 va] = Some b" and va: "va < MAXVA"
    and s': "s' = s\<lparr>mem := st64 (mem s) (pte_addr b (PX 0 va)) v\<rparr>"
  shows "vm_ext pt s ps s' ps"
    "vb < MAXVA \<Longrightarrow> leaf (mem s') pt vb = (if pn vb = pn va then v else leaf (mem s) pt vb)"
proof -
  note D = vm_okD [OF ok]
  have m: "mem s' = st64 (mem s) (pte_addr b (PX 0 va)) v" by (simp add: s')
  note L = store_leaf [OF D(2) b m]
  have bt: "b \<in> tpages (mem s) pt" using b by (rule tpagesI) simp
  have out: "mem s' x = mem s x" if "x \<notin> page b" for x
    using that unfolding m pte_addr_px by (rule st64_ent_off_page [OF px_lt])
  have off: "x \<notin> page b" if "q \<in> set ps" "x \<in> page q" for q x
    using that page_disjoint [of q b] D(4) [OF bt] D(5) [OF bt] kmem_okD(7) [OF D(1), of q] by auto
  have "kmem_ok s' ps"
    unfolding s' by (rule kmem_ok_mem [OF D(1)]) (use out off in \<open>simp add: s'\<close>)
  moreover have "mem s' x = mem s x" if "x \<notin> covered (tpages (mem s') pt)" for x
    using that bt L(2) by (intro out) (auto simp: covered_def)
  ultimately show "vm_ext pt s ps s' ps"
    using L(2,3) D(3,4) by (auto simp: vm_ext_def vm_ok_def s')
  show "vb < MAXVA \<Longrightarrow> leaf (mem s') pt vb = (if pn vb = pn va then v else leaf (mem s) pt vb)"
    using L(4) [of vb] px_eq_iff [OF va] by simp
qed

lemma leaf_slot:
  assumes "vm_ok s pt ps" "pte_valid (leaf (mem s) pt va)"
  obtains b where "node (mem s) pt [px 2 va, px 1 va] = Some b" "pte_addr b (PX 0 va) \<noteq> 0"
    "ld64 (mem s) (pte_addr b (PX 0 va)) = leaf (mem s) pt va"
proof -
  from assms(2) obtain b where b: "node (mem s) pt [px 2 va, px 1 va] = Some b"
    by (cases "node (mem s) pt [px 2 va, px 1 va]") (auto simp: leaf_def)
  then have "b \<in> tpages (mem s) pt" by (rule tpagesI) simp
  then have "pte_addr b (PX 0 va) \<noteq> 0" using vm_okD [OF assms(1)] pte_addr_nonzero by blast
  with b show thesis by (intro that) (simp_all add: leaf_def ent_def pte_addr_px)
qed

section \<open>mappages\<close>

text \<open>The entry that \<^verbatim>\<open>mappages(pt, va, _, pa, perm)\<close> installs for \<open>vb\<close>.\<close>

definition mapped :: "u64 \<Rightarrow> u64 \<Rightarrow> u64 \<Rightarrow> u64 \<Rightarrow> u64" where
  "mapped a pa perm vb = PA2PTE (pa + of_nat (4096 * (pn vb - pn a))) OR perm OR PTE_V"

lemma pn_next: "unat a + 4096 < 2 ^ 64 \<Longrightarrow> pn (a + PGSIZE) = Suc (pn a)"
  by (simp add: pn_def unat_add_nowrap)

lemma map_one:
  assumes ok: "vm_ok s pt ps" and va: "a < MAXVA" and inv: "\<not> pte_valid (leaf (mem s) pt a)"
  obtains (full) s' where "walk pt a True s = Ok 0 s'" "vm_grow pt s ps s' []"
  | (slot) pte s1 ps' where "walk pt a True s = Ok pte s1" "pte \<noteq> 0" "\<not> pte_valid (ld64 (mem s1) pte)"
      "\<And>v. vm_ext pt s ps (s1\<lparr>mem := st64 (mem s1) pte v\<rparr>) ps'"
      "\<And>v vb. vb < MAXVA \<Longrightarrow> leaf (st64 (mem s1) pte v) pt vb =
         (if pn vb = pn a then v else leaf (mem s) pt vb)"
proof -
  obtain r s1 ps1 where w: "walk pt a True s = Ok r s1" "vm_grow pt s ps s1 ps1"
    "r = 0 \<and> ps1 = [] \<or>
     (\<exists>b. node (mem s1) pt [px 2 a, px 1 a] = Some b \<and> r = pte_addr b (PX 0 a) \<and> r \<noteq> 0)"
    using walk_alloc [OF ok va] by blast
  then have e: "vm_ext pt s ps s1 ps1" "\<And>vb. leaf (mem s1) pt vb = leaf (mem s) pt vb" "vm_ok s1 pt ps1"
    by (simp_all add: vm_grow_def vm_ext_def)
  show thesis
  proof (cases "r = 0")
    case True
    with w show thesis by (intro full) auto
  next
    case False
    with w(3) obtain b where b: "node (mem s1) pt [px 2 a, px 1 a] = Some b" "r = pte_addr b (PX 0 a)"
      by auto
    then have "ld64 (mem s1) r = leaf (mem s1) pt a" by (simp add: leaf_def ent_def pte_addr_px)
    with inv e(2) have "\<not> pte_valid (ld64 (mem s1) r)" by simp
    with w(1) False show thesis
    proof (rule slot)
      fix v
      note S = vm_store [OF e(3) b(1) va refl, where v = v]
      show "vm_ext pt s ps (s1\<lparr>mem := st64 (mem s1) r v\<rparr>) ps1"
        using vm_ext_trans [OF e(1) S(1)] by (simp add: b(2))
      show "leaf (st64 (mem s1) r v) pt vb = (if pn vb = pn a then v else leaf (mem s) pt vb)"
        if "vb < MAXVA" for vb using S(2) [OF that] e(2) by (simp add: b(2))
    qed
  qed
qed

lemma mappages_loop_ok:
  assumes "vm_ok s pt ps" "k < n" "unat a + 4096 * k < 2 ^ 38" "lst = a + of_nat (4096 * k)"
    and "\<And>vb. vb < MAXVA \<Longrightarrow> pn a \<le> pn vb \<Longrightarrow> pn vb \<le> pn a + k \<Longrightarrow> \<not> pte_valid (leaf (mem s) pt vb)"
  shows "\<exists>r s' ps' j. mappages_loop n pt a lst pa perm s = Ok r s' \<and> vm_ext pt s ps s' ps' \<and>
     (r = 0 \<and> j = Suc k \<or> r = - 1 \<and> j \<le> k \<and> ps' = []) \<and>
     (\<forall>vb<MAXVA. leaf (mem s') pt vb =
        (if pn a \<le> pn vb \<and> pn vb < pn a + j then mapped a pa perm vb else leaf (mem s) pt vb))"
  using assms
proof (induction k arbitrary: s ps n a pa)
  case (0 s ps n a pa)
  obtain n' where n: "n = Suc n'" using 0 by (cases n) auto
  have va: "a < MAXVA" using 0 by (simp add: word_less_nat_alt MAXVA_simps)
  have inv: "\<not> pte_valid (leaf (mem s) pt a)" using 0(5) [OF va] by simp
  show ?case
  proof (cases rule: map_one [OF 0(1) va inv])
    case (1 s')
    then show ?thesis using n by (auto simp: vm_grow_def intro!: exI [of _ "0::nat"])
  next
    case (2 pte s1 ps')
    have "mappages_loop n pt a lst pa perm s =
        Ok 0 (s1\<lparr>mem := st64 (mem s1) pte (PA2PTE pa OR perm OR PTE_V)\<rparr>)"
      using 2(1-3) n 0(4) by (simp add: pte_valid_def Let_def)
    then show ?thesis using 2(4,5) by (force simp: mapped_def)
  qed
next
  case (Suc k s ps n a pa)
  obtain n' where n: "n = Suc n'" "k < n'" using Suc.prems by (cases n) auto
  have va: "a < MAXVA" using Suc.prems by (simp add: word_less_nat_alt MAXVA_simps)
  have inv: "\<not> pte_valid (leaf (mem s) pt a)" using Suc.prems(5) [OF va] by simp
  have nx: "unat (a + PGSIZE) = unat a + 4096" "pn (a + PGSIZE) = Suc (pn a)"
    using Suc.prems(3) by (simp_all add: unat_add_nowrap pn_next)
  have ne: "a \<noteq> lst"
  proof -
    have "unat lst = unat a + 4096 * Suc k"
      unfolding Suc.prems(4) using Suc.prems(3) by (intro unat_add_of_nat) simp
    then show ?thesis by auto
  qed
  show ?case
  proof (cases rule: map_one [OF Suc.prems(1) va inv])
    case (1 s')
    then show ?thesis using n by (auto simp: vm_grow_def intro!: exI [of _ "0::nat"])
  next
    case (2 pte s1 ps1)
    define v where "v = PA2PTE pa OR perm OR PTE_V"
    define s2 where "s2 = s1\<lparr>mem := st64 (mem s1) pte v\<rparr>"
    have st: "mappages_loop n pt a lst pa perm s =
        mappages_loop n' pt (a + PGSIZE) lst (pa + PGSIZE) perm s2"
      using 2(1-3) n ne by (simp add: pte_valid_def Let_def s2_def v_def)
    have e: "vm_ext pt s ps s2 ps1" using 2(4) by (simp add: s2_def)
    have l2: "leaf (mem s2) pt vb = (if pn vb = pn a then v else leaf (mem s) pt vb)" if "vb < MAXVA" for vb
      using 2(5) [OF that] by (simp add: s2_def)
    obtain r s' ps' j where IH: "mappages_loop n' pt (a + PGSIZE) lst (pa + PGSIZE) perm s2 = Ok r s'"
      "vm_ext pt s2 ps1 s' ps'" "r = 0 \<and> j = Suc k \<or> r = - 1 \<and> j \<le> k \<and> ps' = []"
      "\<forall>vb<MAXVA. leaf (mem s') pt vb = (if pn (a + PGSIZE) \<le> pn vb \<and> pn vb < pn (a + PGSIZE) + j
          then mapped (a + PGSIZE) (pa + PGSIZE) perm vb else leaf (mem s2) pt vb)"
    proof -
      have "\<not> pte_valid (leaf (mem s2) pt vb)"
        if "vb < MAXVA" "pn (a + PGSIZE) \<le> pn vb" "pn vb \<le> pn (a + PGSIZE) + k" for vb
        using l2 Suc.prems(5) that nx by simp
      moreover have "lst = a + PGSIZE + of_nat (4096 * k)" by (simp add: Suc.prems(4) PGSIZE_def)
      ultimately show thesis
        using Suc.IH [of s2 ps1 n' "a + PGSIZE" "pa + PGSIZE"] vm_extD(1) [OF e] n(2) Suc.prems(3) nx that
        by auto
    qed
    have "mapped (a + PGSIZE) (pa + PGSIZE) perm vb = mapped a pa perm vb" if "Suc (pn a) \<le> pn vb" for vb
    proof -
      from that obtain i where i: "pn vb = Suc (pn a) + i" by (metis le_Suc_ex)
      then have "pn vb - pn (a + PGSIZE) = i" "pn vb - pn a = Suc i" by (simp_all add: nx)
      then show ?thesis by (simp only: mapped_def) (simp add: PGSIZE_def add.assoc)
    qed
    moreover have "mapped a pa perm vb = v" if "pn vb = pn a" for vb
      using that by (simp add: mapped_def v_def)
    ultimately have "\<forall>vb<MAXVA. leaf (mem s') pt vb =
        (if pn a \<le> pn vb \<and> pn vb < pn a + Suc j then mapped a pa perm vb else leaf (mem s) pt vb)"
      using IH(4) l2 nx(2) by auto
    moreover have "vm_ext pt s ps s' ps'" using e IH(2) by (rule vm_ext_trans)
    ultimately show ?thesis using st IH(1,3) by (intro exI [of _ r] exI [of _ s'] exI [of _ ps'] exI [of _ "Suc j"]) auto
  qed
qed

text \<open>\<^verbatim>\<open>mappages\<close> on a range of unmapped addresses below \<^verbatim>\<open>MAXVA\<close>.\<close>

lemma mappages_ok:
  assumes ok: "vm_ok s pt ps" and al: "aligned va" and k: "unat sz = 4096 * Suc k"
    and top: "unat va + unat sz \<le> 2 ^ 38"
    and inv: "\<And>vb. vb < MAXVA \<Longrightarrow> pn va \<le> pn vb \<Longrightarrow> pn vb \<le> pn va + k \<Longrightarrow> \<not> pte_valid (leaf (mem s) pt vb)"
  shows "\<exists>r s' ps' j. mappages pt va sz pa perm s = Ok r s' \<and> vm_ext pt s ps s' ps' \<and>
     (r = 0 \<and> j = Suc k \<or> r = - 1 \<and> j \<le> k \<and> ps' = []) \<and>
     (\<forall>vb<MAXVA. leaf (mem s') pt vb =
        (if pn va \<le> pn vb \<and> pn vb < pn va + j then mapped va pa perm vb else leaf (mem s) pt vb))"
proof -
  have a: "PGROUNDDOWN va = va" using al by (rule PGROUNDDOWN_aligned)
  have "sz = of_nat (unat sz)" by simp
  then have e: "va + sz - 1 = va + of_nat (4096 * k + 4095)" unfolding k by simp
  have "unat (va + sz - 1) = unat va + 4096 * k + 4095"
    unfolding e by (subst unat_add_of_nat) (use top k in simp_all)
  moreover obtain q where q: "unat va = 4096 * q" using al by (auto simp: aligned_def)
  ultimately have "unat (va + sz - 1) = 4096 * (q + k) + 4095" by simp
  then have "unat (va + sz - 1) div 4096 = q + k" by simp
  then have "unat (PGROUNDDOWN (va + sz - 1)) = unat va + 4096 * k"
    by (simp add: unat_PGROUNDDOWN q)
  moreover have "unat (va + of_nat (4096 * k)) = unat va + 4096 * k"
    by (rule unat_add_of_nat) (use top k in simp)
  ultimately have l: "PGROUNDDOWN (va + sz - 1) = va + of_nat (4096 * k)"
    by (simp add: word_unat_eq_iff)
  have f: "page_fuel (va + of_nat (4096 * k) - va) = k + 2"
    unfolding page_fuel_def by (subst unat_minus_base) (use top k in simp_all)
  have "sz \<noteq> 0" using k by auto
  then have "mappages pt va sz pa perm s = mappages_loop (k + 2) pt va (va + of_nat (4096 * k)) pa perm s"
    by (simp only: mappages_def a l f Let_def if_False)
  then show ?thesis
    using mappages_loop_ok [OF ok _ _ refl inv, where n = "k + 2" and pa = pa and perm = perm] top k by simp
qed

end
