(* ===== verification/Vm_Copy.thy ===== *)
theory Vm_Copy
  imports Vm_Walk
begin

text \<open>
  User memory through a page table: \<^verbatim>\<open>copyin\<close>, \<^verbatim>\<open>copyout\<close> and \<^verbatim>\<open>copyinstr\<close>.  \<open>upa m pt va\<close> is the
  physical address a user access to \<open>va\<close> goes to, \<open>None\<close> when the access would fault.
\<close>

section \<open>The user's view of memory\<close>

definition user_leaf :: "u64 \<Rightarrow> bool" where
  "user_leaf e \<longleftrightarrow> pte_valid e \<and> e AND PTE_U \<noteq> 0"

definition upa :: "memory \<Rightarrow> u64 \<Rightarrow> u64 \<Rightarrow> u64 option" where
  "upa m pt va =
     (let e = leaf m pt va
      in if va < MAXVA \<and> user_leaf e \<and> PTE2PA e \<noteq> 0
         then Some (PTE2PA e + of_nat (unat va mod 4096)) else None)"

definition user_byte :: "memory \<Rightarrow> u64 \<Rightarrow> u64 \<Rightarrow> byte option" where
  "user_byte m pt va = map_option m (upa m pt va)"

lemma leaf_pn: "pn va = pn vb \<Longrightarrow> leaf m pt va = leaf m pt vb"
proof -
  assume "pn va = pn vb"
  then have "px l va = px l vb" for l by (simp add: px_pn)
  then show ?thesis by (simp only: leaf_def)
qed

lemma div_mod_offset:
  assumes "i < 4096 - u mod (4096::nat)"
  shows "(u + i) div 4096 = u div 4096" "(u + i) mod 4096 = u mod 4096 + i"
proof -
  define q r where "q = u div 4096" and "r = u mod 4096"
  have u: "u = r + q * 4096" by (simp add: q_def r_def)
  have r: "r + i < 4096" using assms unfolding r_def by linarith
  have "u + i = r + i + q * 4096" using u by simp
  moreover have "(r + i + q * 4096) div 4096 = q" "(r + i + q * 4096) mod 4096 = r + i"
    using r by simp_all
  ultimately show "(u + i) div 4096 = u div 4096" "(u + i) mod 4096 = u mod 4096 + i"
    unfolding q_def [symmetric] r_def [symmetric] by (simp_all only:)
qed

lemma pn_offset:
  assumes "i < 4096 - unat va mod 4096"
  shows "unat (va + of_nat i) = unat va + i" "pn (va + of_nat i) = pn va"
proof -
  have "unat va div 4096 * 4096 + 4096 \<le> 2 ^ 64"
    using aligned_le [OF aligned_PGROUNDDOWN [of va]] by (simp add: unat_PGROUNDDOWN)
  moreover have "unat va = unat va div 4096 * 4096 + unat va mod 4096" by simp
  ultimately have "unat va + i < 2 ^ 64" using assms by linarith
  then show u: "unat (va + of_nat i) = unat va + i" by (rule unat_add_of_nat)
  with div_mod_offset(1) [OF assms] show "pn (va + of_nat i) = pn va" by (simp only: pn_def)
qed

lemma less_MAXVA_pn: "va < MAXVA \<longleftrightarrow> pn va < 2 ^ 26"
  by (simp add: word_less_nat_alt MAXVA_simps pn_def div_less_iff_less_mult)

lemma upa_offset:
  assumes "i < 4096 - unat va mod 4096"
  shows "upa m pt (va + of_nat i) = map_option (\<lambda>a. a + of_nat i) (upa m pt va)"
proof -
  note P = pn_offset [OF assms]
  with div_mod_offset(2) [OF assms] leaf_pn [OF P(2), of m pt] show ?thesis
    by (simp add: upa_def less_MAXVA_pn Let_def)
qed

lemma walkaddr_upa:
  assumes "vm_ok s pt ps"
  shows "walkaddr pt (PGROUNDDOWN va) s =
     Ok (case upa (mem s) pt va of None \<Rightarrow> 0 | Some a \<Rightarrow> a - of_nat (unat va mod 4096)) s"
proof -
  have p: "pn (PGROUNDDOWN va) = pn va" by (simp add: pn_def unat_PGROUNDDOWN)
  with leaf_pn [OF p, of "mem s" pt] show ?thesis
    by (simp add: walkaddr_lookup [OF assms] upa_def less_MAXVA_pn user_leaf_def Let_def)
qed

lemma upa_page_nonzero: "upa m pt va = Some a \<Longrightarrow> a - of_nat (unat va mod 4096) \<noteq> 0"
  by (auto simp: upa_def Let_def split: if_splits)

lemma next_page:
  shows "PGROUNDDOWN va + PGSIZE = va + of_nat (4096 - unat va mod 4096)"
proof -
  have "va - PGROUNDDOWN va = of_nat (unat (va - PGROUNDDOWN va))" by simp
  then have "va - PGROUNDDOWN va = of_nat (unat va mod 4096)" unfolding offset_in_page .
  then show ?thesis by (simp add: PGSIZE_def algebra_simps of_nat_diff)
qed

section \<open>copyin\<close>

text \<open>
  The first \<open>length bs\<close> user bytes from \<open>va\<close> on are \<open>bs\<close>; the copy either got all \<open>len\<close> bytes or
  stopped at the first byte that is not accessible.
\<close>

definition copied :: "memory \<Rightarrow> u64 \<Rightarrow> u64 \<Rightarrow> nat \<Rightarrow> int \<Rightarrow> byte list \<Rightarrow> bool" where
  "copied m pt va len r bs \<longleftrightarrow>
     (\<forall>i<length bs. user_byte m pt (va + of_nat i) = Some (bs ! i)) \<and>
     (r = 0 \<and> length bs = len \<or>
      r = - 1 \<and> length bs < len \<and> user_byte m pt (va + of_nat (length bs)) = None)"

lemma walkaddr_cases:
  assumes "vm_ok s pt ps"
  obtains (fault) "user_byte (mem s) pt va = None" "walkaddr pt (PGROUNDDOWN va) s = Ok 0 s"
  | (hit) a pa0 where "upa (mem s) pt va = Some a" "walkaddr pt (PGROUNDDOWN va) s = Ok pa0 s" "pa0 \<noteq> 0"
      "pa0 + (va - PGROUNDDOWN va) = a"
      "\<And>i. i < 4096 - unat va mod 4096 \<Longrightarrow> upa (mem s) pt (va + of_nat i) = Some (a + of_nat i)"
proof (cases "upa (mem s) pt va")
  case None
  then show thesis using walkaddr_upa [OF assms, of va] by (intro fault) (simp_all add: user_byte_def)
next
  case (Some a)
  have "va - PGROUNDDOWN va = of_nat (unat (va - PGROUNDDOWN va))" by simp
  then have "va - PGROUNDDOWN va = of_nat (unat va mod 4096)" unfolding offset_in_page .
  with Some walkaddr_upa [OF assms, of va] upa_page_nonzero [OF Some] show thesis
    by (intro hit [of a "a - of_nat (unat va mod 4096)"]) (simp_all add: upa_offset)
qed

lemma copied_append:
  assumes "\<And>i. i < n \<Longrightarrow> user_byte m pt (va + of_nat i) = Some (bs ! i)" "length bs = n" "n \<le> len"
    and "copied m pt (va + of_nat n) (len - n) r rest"
  shows "copied m pt va len r (bs @ rest)"
proof -
  have "user_byte m pt (va + of_nat i) = Some ((bs @ rest) ! i)" if "i < length (bs @ rest)" for i
  proof (cases "i < n")
    case False
    then obtain j where "i = n + j" by (metis le_Suc_ex not_le)
    with assms(2,4) that show ?thesis by (simp add: copied_def nth_append add.assoc)
  qed (use assms(1,2) in \<open>simp add: nth_append\<close>)
  with assms(2-4) show ?thesis by (auto simp: copied_def add.assoc)
qed

lemma copyin_copied:
  assumes ok: "vm_ok s pt ps"
  shows "\<exists>r bs. copyin pt va len s = Ok (r, bs) s \<and> copied (mem s) pt va len r bs"
proof (induction len arbitrary: va rule: less_induct)
  case (less len)
  show ?case
  proof (cases "len = 0")
    case True
    then show ?thesis by (simp add: copyin.simps copied_def)
  next
    case False
    show ?thesis
    proof (cases va rule: walkaddr_cases [OF ok])
      case 1
      then show ?thesis using False by (simp add: copyin.simps [of pt va len] copied_def)
    next
      case (2 a pa0)
      let ?n = "copy_chunk va len"
      have n: "?n \<le> len" "0 < ?n" "?n \<le> 4096 - unat va mod 4096"
        using False copy_chunk_pos by (auto simp: copy_chunk_eq)
      obtain r rest where IH: "copyin pt (PGROUNDDOWN va + PGSIZE) (len - ?n) s = Ok (r, rest) s"
        "copied (mem s) pt (PGROUNDDOWN va + PGSIZE) (len - ?n) r rest"
        using less.IH [of "len - ?n" "PGROUNDDOWN va + PGSIZE"] n False by auto
      have "copied (mem s) pt (va + of_nat ?n) (len - ?n) r rest"
      proof (cases "?n = len")
        case True
        with IH(2) show ?thesis by (auto simp: copied_def)
      next
        case False
        then have "?n = 4096 - unat va mod 4096" by (auto simp: copy_chunk_eq)
        with IH(2) show ?thesis by (simp only: next_page)
      qed
      moreover have "user_byte (mem s) pt (va + of_nat i) = Some (rd (mem s) a ?n ! i)" if "i < ?n" for i
        using that n(3) 2(5) by (simp add: user_byte_def rd_def)
      ultimately have "copied (mem s) pt va len r (rd (mem s) a ?n @ rest)"
        using n by (intro copied_append [of ?n]) auto
      moreover have "copyin pt va len s = Ok (r, rd (mem s) a ?n @ rest) s"
        using 2(2-4) IH(1) False by (simp add: copyin.simps [of pt va len] Let_def)
      ultimately show ?thesis by blast
    qed
  qed
qed

section \<open>copyinstr\<close>

definition copied_str :: "memory \<Rightarrow> u64 \<Rightarrow> u64 \<Rightarrow> nat \<Rightarrow> int \<Rightarrow> byte list \<Rightarrow> bool" where
  "copied_str m pt va mx r bs \<longleftrightarrow>
     (\<forall>i<length bs. user_byte m pt (va + of_nat i) = Some (bs ! i)) \<and> length bs \<le> mx \<and>
     (r = 0 \<and> bs \<noteq> [] \<and> last bs = 0 \<and> 0 \<notin> set (butlast bs) \<or>
      r = - 1 \<and> 0 \<notin> set bs \<and>
        (length bs = mx \<or> user_byte m pt (va + of_nat (length bs)) = None))"

lemma copy_until_null_spec:
  assumes "copy_until_null m p n = (bs, g)"
  shows "(\<forall>i<length bs. bs ! i = m (p + of_nat i)) \<and> length bs \<le> n \<and>
     (g \<longrightarrow> bs \<noteq> [] \<and> last bs = 0 \<and> 0 \<notin> set (butlast bs)) \<and> (\<not> g \<longrightarrow> length bs = n \<and> 0 \<notin> set bs)"
  using assms
proof (induction n arbitrary: p bs)
  case (Suc n)
  show ?case
  proof (cases "m p = 0")
    case False
    then obtain bs' where b: "copy_until_null m (p + 1) n = (bs', g)" "bs = m p # bs'"
      using Suc.prems by (auto split: prod.splits)
    have "(m p # bs') ! i = m (p + of_nat i)" if "i < Suc (length bs')" for i
      using Suc.IH [OF b(1)] that by (cases i) (auto simp: add.assoc)
    with Suc.IH [OF b(1)] b(2) False show ?thesis by auto
  qed (use Suc.prems in auto)
qed simp

lemma copied_str_append:
  assumes "\<And>i. i < n \<Longrightarrow> user_byte m pt (va + of_nat i) = Some (bs ! i)" "length bs = n" "n \<le> mx"
    and "0 \<notin> set bs" and "copied_str m pt (va + of_nat n) (mx - n) r rest"
  shows "copied_str m pt va mx r (bs @ rest)"
proof -
  have "user_byte m pt (va + of_nat i) = Some ((bs @ rest) ! i)" if "i < length (bs @ rest)" for i
  proof (cases "i < n")
    case False
    then obtain j where "i = n + j" by (metis le_Suc_ex not_le)
    with assms(2,5) that show ?thesis by (simp add: copied_str_def nth_append add.assoc)
  qed (use assms(1,2) in \<open>simp add: nth_append\<close>)
  with assms(2-5) show ?thesis by (auto simp: copied_str_def add.assoc butlast_append)
qed

lemma copyinstr_copied:
  assumes ok: "vm_ok s pt ps"
  shows "\<exists>r bs. copyinstr pt va mx s = Ok (r, bs) s \<and> copied_str (mem s) pt va mx r bs"
proof (induction mx arbitrary: va rule: less_induct)
  case (less mx)
  show ?case
  proof (cases "mx = 0")
    case True
    then show ?thesis by (simp add: copyinstr.simps copied_str_def)
  next
    case False
    show ?thesis
    proof (cases va rule: walkaddr_cases [OF ok])
      case 1
      then show ?thesis using False by (simp add: copyinstr.simps [of pt va mx] copied_str_def)
    next
      case (2 a pa0)
      let ?n = "copy_chunk va mx"
      have n: "?n \<le> mx" "0 < ?n" "?n \<le> 4096 - unat va mod 4096"
        using False copy_chunk_pos by (auto simp: copy_chunk_eq)
      obtain bs g where g: "copy_until_null (mem s) a ?n = (bs, g)" by fastforce
      note G = copy_until_null_spec [OF g]
      have b: "user_byte (mem s) pt (va + of_nat i) = Some (bs ! i)" if "i < length bs" for i
        using that n(3) 2(5) [of i] G by (simp add: user_byte_def)
      show ?thesis
      proof (cases g)
        case True
        then show ?thesis
          using g G b n 2(2-4) False
          by (auto simp: copyinstr.simps [of pt va mx] Let_def copied_str_def)
      next
        case ng: False
        obtain r rest where IH: "copyinstr pt (PGROUNDDOWN va + PGSIZE) (mx - ?n) s = Ok (r, rest) s"
          "copied_str (mem s) pt (PGROUNDDOWN va + PGSIZE) (mx - ?n) r rest"
          using less.IH [of "mx - ?n" "PGROUNDDOWN va + PGSIZE"] n False by auto
        have "copied_str (mem s) pt (va + of_nat ?n) (mx - ?n) r rest"
        proof (cases "?n = mx")
          case True
          with IH(2) show ?thesis by (auto simp: copied_str_def)
        next
          case False
          then have "?n = 4096 - unat va mod 4096" by (auto simp: copy_chunk_eq)
          with IH(2) show ?thesis by (simp only: next_page)
        qed
        then have "copied_str (mem s) pt va mx r (bs @ rest)"
          using n b G ng by (intro copied_str_append [of ?n]) auto
        moreover have "copyinstr pt va mx s = Ok (r, bs @ rest) s"
          using 2(2-4) IH(1) False g ng by (simp add: copyinstr.simps [of pt va mx] Let_def)
        ultimately show ?thesis by blast
      qed
    qed
  qed
qed

section \<open>Owned address spaces and copyout\<close>

text \<open>
  \<open>leafn\<close> and \<open>upage\<close> index the entries by page number.  In \<open>space_ok s pt ps K\<close> the set \<open>K\<close> holds
  the numbers of the pages the address space owns: each is mapped to an allocated page of
  its own, no owned page is a table page or free, and user code reaches no other page.
\<close>

definition leafn :: "memory \<Rightarrow> u64 \<Rightarrow> nat \<Rightarrow> u64" where
  "leafn m pt k = leaf m pt (of_nat (4096 * k))"

definition upage :: "memory \<Rightarrow> u64 \<Rightarrow> nat \<Rightarrow> u64" where
  "upage m pt k = PTE2PA (leafn m pt k)"

definition space_ok :: "'a kmem_scheme \<Rightarrow> u64 \<Rightarrow> u64 list \<Rightarrow> nat set \<Rightarrow> bool" where
  "space_ok s pt ps K \<longleftrightarrow>
     vm_ok s pt ps \<and> K \<subseteq> {..<2 ^ 26} \<and>
     (\<forall>k\<in>K. pte_valid (leafn (mem s) pt k) \<and> PTE_FLAGS (leafn (mem s) pt k) \<noteq> PTE_V \<and>
        kpage (kend s) (upage (mem s) pt k)) \<and>
     inj_on (upage (mem s) pt) K \<and>
     upage (mem s) pt ` K \<inter> (tpages (mem s) pt \<union> set ps) = {} \<and>
     (\<forall>k<2 ^ 26. k \<notin> K \<longrightarrow> \<not> user_leaf (leafn (mem s) pt k))"

lemma leaf_leafn: "va < MAXVA \<Longrightarrow> leaf m pt va = leafn m pt (pn va)"
  unfolding leafn_def
proof (rule leaf_pn)
  assume "va < MAXVA"
  then have "pn va < 2 ^ 26" by (simp add: less_MAXVA_pn)
  then have "unat (of_nat (4096 * pn va) :: u64) = 4096 * pn va"
    by (simp add: unat_of_nat take_bit_nat_eq_self del: of_nat_mult)
  then show "pn va = pn (of_nat (4096 * pn va))" by (simp add: pn_def del: of_nat_mult)
qed

lemma space_okD:
  assumes "space_ok s pt ps K"
  shows "vm_ok s pt ps" "k \<in> K \<Longrightarrow> k < 2 ^ 26" "k \<in> K \<Longrightarrow> pte_valid (leafn (mem s) pt k)"
    "k \<in> K \<Longrightarrow> PTE_FLAGS (leafn (mem s) pt k) \<noteq> PTE_V" "k \<in> K \<Longrightarrow> kpage (kend s) (upage (mem s) pt k)"
    "inj_on (upage (mem s) pt) K" "k \<in> K \<Longrightarrow> upage (mem s) pt k \<notin> tpages (mem s) pt"
    "k \<in> K \<Longrightarrow> upage (mem s) pt k \<notin> set ps" "k < 2 ^ 26 \<Longrightarrow> user_leaf (leafn (mem s) pt k) \<Longrightarrow> k \<in> K"
    "aligned (upage (mem s) pt k)"
  using assms by (auto simp: space_ok_def upage_def)

lemma upa_owned:
  assumes "space_ok s pt ps K" "upa (mem s) pt va = Some a"
  shows "va < MAXVA" "pn va \<in> K" "a = upage (mem s) pt (pn va) + of_nat (unat va mod 4096)"
    "a \<in> page (upage (mem s) pt (pn va))"
proof -
  show va: "va < MAXVA" using assms(2) by (auto simp: upa_def Let_def split: if_splits)
  show a: "a = upage (mem s) pt (pn va) + of_nat (unat va mod 4096)"
    using assms(2) leaf_leafn [OF va] by (auto simp: upa_def upage_def Let_def split: if_splits)
  show "pn va \<in> K"
    using assms(2) leaf_leafn [OF va] va
    by (intro space_okD(9) [OF assms(1)]) (auto simp: upa_def Let_def less_MAXVA_pn split: if_splits)
  show "a \<in> page (upage (mem s) pt (pn va))"
    unfolding a page_def by (rule span_add) simp_all
qed

lemma upa_inj:
  assumes "space_ok s pt ps K" "upa (mem s) pt va = Some a" "upa (mem s) pt vb = Some a"
  shows "va = vb"
proof -
  note A = upa_owned [OF assms(1,2)] and B = upa_owned [OF assms(1,3)]
  let ?p = "upage (mem s) pt"
  have al: "aligned (?p k)" for k using space_okD(10) [OF assms(1)] .
  have "?p (pn va) = ?p (pn vb)"
    using page_disjoint [OF al al] A(4) B(4) by blast
  then have pn: "pn va = pn vb" using space_okD(6) [OF assms(1)] A(2) B(2) by (auto dest: inj_onD)
  have "unat a = unat (?p (pn va)) + unat va mod 4096"
    unfolding A(3) by (rule unat_page_offset [OF al]) simp
  moreover have "unat a = unat (?p (pn vb)) + unat vb mod 4096"
    unfolding B(3) by (rule unat_page_offset [OF al]) simp
  ultimately have "unat va mod 4096 = unat vb mod 4096" using pn by simp
  with pn have "unat va = unat vb" unfolding pn_def by (metis div_mult_mod_eq)
  then show ?thesis by (simp add: word_unat_eq_iff)
qed

text \<open>A write to an owned page leaves the address space as it is.\<close>

lemma space_ok_write:
  assumes ok: "space_ok s pt ps K" and k: "k \<in> K"
    and m': "\<And>x. x \<notin> page (upage (mem s) pt k) \<Longrightarrow> m' x = mem s x"
  shows "space_ok (s\<lparr>mem := m'\<rparr>) pt ps K" "leaf m' pt va = leaf (mem s) pt va"
    "tpages m' pt = tpages (mem s) pt"
proof -
  note D = space_okD [OF ok] and V = vm_okD [OF space_okD(1) [OF ok]]
  have off: "x \<notin> page (upage (mem s) pt k)" if "a \<in> tpages (mem s) pt \<or> a \<in> set ps" "x \<in> page a" for a x
  proof -
    have "aligned a" "a \<noteq> upage (mem s) pt k"
      using that(1) V(5) kmem_okD(7) [OF V(1)] D(7) [OF k] D(8) [OF k] by auto
    then show ?thesis using page_disjoint [OF _ D(10)] that(2) by blast
  qed
  have same: "m' x = mem s x" if "a \<in> tpages (mem s) pt" "x \<in> page a" for a x
    using m' off that by blast
  note T = table_frame [of "mem s" pt m', OF same]
  have km: "kmem_ok (s\<lparr>mem := m'\<rparr>) ps"
    by (rule kmem_ok_mem [OF V(1)]) (use m' off in blast)
  show "leaf m' pt va = leaf (mem s) pt va" "tpages m' pt = tpages (mem s) pt" by (rule T; assumption)+
  moreover have "pt_ok m' pt = pt_ok (mem s) pt" by (rule T)
  moreover have "leafn m' pt = leafn (mem s) pt" using T(2) by (simp add: leafn_def fun_eq_iff)
  ultimately show "space_ok (s\<lparr>mem := m'\<rparr>) pt ps K"
    using ok km by (simp add: space_ok_def vm_ok_def upage_def [abs_def])
qed

text \<open>The user's memory after \<open>bs\<close> was stored from \<open>va\<close> on.\<close>

definition stored :: "memory \<Rightarrow> memory \<Rightarrow> u64 \<Rightarrow> u64 \<Rightarrow> byte list \<Rightarrow> bool" where
  "stored m m' pt va bs \<longleftrightarrow>
     (\<forall>vb. user_byte m' pt vb =
        (if unat (vb - va) < length bs then Some (bs ! unat (vb - va)) else user_byte m pt vb))"

lemma upa_leaf: "leaf m' pt = leaf m pt \<Longrightarrow> upa m' pt = upa m pt"
  by (simp add: upa_def fun_eq_iff)

lemma stored_chunk:
  assumes ok: "space_ok s pt ps K" and a: "upa (mem s) pt va = Some a"
    and pg: "\<And>i. i < length bs \<Longrightarrow> upa (mem s) pt (va + of_nat i) = Some (a + of_nat i)"
    and n: "length bs \<le> 4096 - unat va mod 4096"
  shows "space_ok (s\<lparr>mem := wr (mem s) a bs\<rparr>) pt ps K"
    "leaf (wr (mem s) a bs) pt = leaf (mem s) pt"
    "tpages (wr (mem s) a bs) pt = tpages (mem s) pt"
    "stored (mem s) (wr (mem s) a bs) pt va bs"
    "x \<notin> covered (upage (mem s) pt ` K) \<Longrightarrow> wr (mem s) a bs x = mem s x"
proof -
  note O = upa_owned [OF ok a]
  let ?m' = "wr (mem s) a bs"
  have sp: "span a (length bs) \<subseteq> page (upage (mem s) pt (pn va))"
    unfolding O(3) using n by (intro span_in_page) (simp add: le_diff_conv2)
  then have out: "?m' x = mem s x" if "x \<notin> page (upage (mem s) pt (pn va))" for x
    using that by (intro wr_outside) blast
  note W = space_ok_write [OF ok O(2) out]
  show "space_ok (s\<lparr>mem := ?m'\<rparr>) pt ps K" "tpages ?m' pt = tpages (mem s) pt" by (rule W; assumption)+
  show l: "leaf ?m' pt = leaf (mem s) pt" using W(2) by (simp add: fun_eq_iff)
  have u: "upa ?m' pt = upa (mem s) pt" by (rule upa_leaf [OF l])
  show "?m' x = mem s x" if "x \<notin> covered (upage (mem s) pt ` K)"
    using that O(2) by (intro out) (auto simp: covered_def)
  show "stored (mem s) ?m' pt va bs"
    unfolding stored_def
  proof (intro allI)
    fix vb
    let ?i = "unat (vb - va)"
    show "user_byte ?m' pt vb = (if ?i < length bs then Some (bs ! ?i) else user_byte (mem s) pt vb)"
    proof (cases "?i < length bs")
      case True
      have "vb = va + of_nat ?i" by simp
      then have b: "upa (mem s) pt vb = Some (a + of_nat ?i)" using pg [OF True] by metis
      have "unat (a + of_nat ?i - a) = ?i" by (rule unat_minus_base) (use unsigned_less [of "vb - va", where ?'a = nat] in simp)
      then have "?m' (a + of_nat ?i) = bs ! ?i" using True by (simp add: wr_def)
      with True b u show ?thesis by (simp add: user_byte_def)
    next
      case False
      have "?m' b = mem s b" if b: "upa (mem s) pt vb = Some b" for b
      proof (rule wr_outside, rule notI)
        assume "b \<in> span a (length bs)"
        then obtain i where i: "i < length bs" "b = a + of_nat i" by (rule in_spanE)
        then have "vb = va + of_nat i" using upa_inj [OF ok b] pg [OF i(1)] by simp
        moreover have "i < 2 ^ 64" using i(1) n by simp
        ultimately show False using False i(1) unat_minus_base [of i va] by simp
      qed
      with False u show ?thesis by (cases "upa (mem s) pt vb") (simp_all add: user_byte_def)
    qed
  qed
qed

lemma stored_append:
  assumes "stored m m1 pt va bs" "stored m1 m2 pt (va + of_nat (length bs)) cs"
    and "length bs + length cs < 2 ^ 64"
  shows "stored m m2 pt va (bs @ cs)"
  unfolding stored_def
proof (intro allI)
  fix vb
  let ?i = "unat (vb - va)" and ?j = "unat (vb - (va + of_nat (length bs)))" and ?n = "length bs"
  have A: "user_byte m2 pt vb = (if ?j < length cs then Some (cs ! ?j) else
      if ?i < ?n then Some (bs ! ?i) else user_byte m pt vb)"
    using assms(1,2) by (simp add: stored_def)
  have w: "vb - (va + of_nat ?n) = (vb - va) - of_nat ?n" by simp
  have un: "unat (of_nat ?n :: u64) = ?n" using assms(3) by (simp add: unat_of_nat take_bit_nat_eq_self)
  show "user_byte m2 pt vb =
      (if ?i < length (bs @ cs) then Some ((bs @ cs) ! ?i) else user_byte m pt vb)"
  proof (cases "?i < ?n")
    case True
    then have "\<not> of_nat ?n \<le> vb - va" using un by (simp add: word_le_nat_alt)
    then have "?j \<ge> 2 ^ 64 - ?n" unfolding w using un True by (simp add: unat_sub_if')
    then have "\<not> ?j < length cs" using assms(3) by linarith
    with A True show ?thesis by (simp add: nth_append)
  next
    case False
    then have "of_nat ?n \<le> vb - va" using un by (simp add: word_le_nat_alt)
    then have "?j = ?i - ?n" unfolding w using un by (simp add: unat_diff_le)
    with A False show ?thesis by (auto simp: nth_append)
  qed
qed

text \<open>What \<^verbatim>\<open>copyout\<close> guarantees when it has copied \<open>j\<close> bytes.\<close>

definition copyout_post ::
  "'a kmem_scheme \<Rightarrow> u64 \<Rightarrow> u64 list \<Rightarrow> nat set \<Rightarrow> u64 \<Rightarrow> byte list \<Rightarrow> int \<Rightarrow> nat \<Rightarrow> memory \<Rightarrow> bool" where
  "copyout_post s pt ps K va src r j m' \<longleftrightarrow>
     space_ok (s\<lparr>mem := m'\<rparr>) pt ps K \<and>
     (r = 0 \<and> j = length src \<or>
      r = - 1 \<and> j < length src \<and> user_byte (mem s) pt (va + of_nat j) = None) \<and>
     stored (mem s) m' pt va (take j src) \<and> leaf m' pt = leaf (mem s) pt \<and>
     tpages m' pt = tpages (mem s) pt \<and>
     (\<forall>x. x \<notin> covered (upage (mem s) pt ` K) \<longrightarrow> m' x = mem s x)"

lemma copyout_post_none:
  assumes "space_ok s pt ps K" "src = [] \<and> r = 0 \<or> src \<noteq> [] \<and> r = - 1 \<and> user_byte (mem s) pt va = None"
  shows "copyout_post s pt ps K va src r 0 (mem s)"
  using assms by (auto simp: copyout_post_def stored_def)

lemma copyout_post_step:
  assumes ok: "space_ok s pt ps K" and a: "upa (mem s) pt va = Some a"
    and pg: "\<And>i. i < 4096 - unat va mod 4096 \<Longrightarrow> upa (mem s) pt (va + of_nat i) = Some (a + of_nat i)"
    and len: "length src < 2 ^ 64" and n: "n = copy_chunk va (length src)"
    and m1: "m1 = wr (mem s) a (take n src)"
    and IH: "copyout_post (s\<lparr>mem := m1\<rparr>) pt ps K (PGROUNDDOWN va + PGSIZE) (drop n src) r j m'"
  shows "copyout_post s pt ps K va src r (n + j) m'"
proof -
  have nl: "n \<le> length src" "n \<le> 4096 - unat va mod 4096" by (auto simp: n copy_chunk_eq)
  have C: "space_ok (s\<lparr>mem := m1\<rparr>) pt ps K" "leaf m1 pt = leaf (mem s) pt"
    "tpages m1 pt = tpages (mem s) pt" "stored (mem s) m1 pt va (take n src)"
    "\<And>x. x \<notin> covered (upage (mem s) pt ` K) \<Longrightarrow> m1 x = mem s x"
    unfolding m1 by (rule stored_chunk [OF ok a]; use pg nl in auto)+
  have up: "upage m1 pt = upage (mem s) pt" by (simp add: upage_def leafn_def C(2) fun_eq_iff)
  have post: "stored m1 m' pt (PGROUNDDOWN va + PGSIZE) (take j (drop n src))"
    "r = 0 \<and> j = length src - n \<or> r = - 1 \<and> j < length src - n \<and>
       user_byte m1 pt (PGROUNDDOWN va + PGSIZE + of_nat j) = None"
    using IH by (auto simp: copyout_post_def)
  have ub: "user_byte m1 pt vb = None \<longleftrightarrow> user_byte (mem s) pt vb = None" for vb
    using upa_leaf [OF C(2)] by (simp add: user_byte_def)
  have nx: "PGROUNDDOWN va + PGSIZE = va + of_nat n" if "n < length src"
    using that by (simp add: next_page n copy_chunk_eq)
  have nx2: "PGROUNDDOWN va + PGSIZE + of_nat j = va + of_nat (n + j)" if "n < length src"
    using nx [OF that] by (simp add: add.assoc)
  have none: "user_byte (mem s) pt (va + of_nat (n + j)) = None"
    if "n < length src" "user_byte m1 pt (PGROUNDDOWN va + PGSIZE + of_nat j) = None"
    using that(2) by (simp only: nx2 [OF that(1)] ub)
  have "stored (mem s) m' pt va (take n src @ take j (drop n src))"
  proof (cases "n < length src")
    case True
    have "stored m1 m' pt (va + of_nat (length (take n src))) (take j (drop n src))"
      using post(1) nx [OF True] nl by simp
    from stored_append [OF C(4) this] len show ?thesis using nl by simp
  next
    case False
    then have "stored m1 m' pt (PGROUNDDOWN va + PGSIZE) []" using post(1) by auto
    then have "user_byte m' pt vb = user_byte m1 pt vb" for vb by (simp add: stored_def)
    with C(4) False show ?thesis by (simp add: stored_def)
  qed
  moreover have "take n src @ take j (drop n src) = take (n + j) src" by (simp add: take_add)
  moreover have "r = 0 \<and> n + j = length src \<or>
      r = - 1 \<and> n + j < length src \<and> user_byte (mem s) pt (va + of_nat (n + j)) = None"
    using post(2) nl none by auto
  ultimately show ?thesis
    using IH C(2,3,5) up by (auto simp: copyout_post_def)
qed

lemma copyout_stored:
  assumes "space_ok s pt ps K" "length src < 2 ^ 64"
  shows "\<exists>r j m'. copyout pt va src s = Ok r (s\<lparr>mem := m'\<rparr>) \<and> copyout_post s pt ps K va src r j m'"
  using assms
proof (induction "length src" arbitrary: va src s rule: less_induct)
  case (less src va s)
  show ?case
  proof (cases "src = []")
    case True
    then have "copyout pt va src s = Ok 0 (s\<lparr>mem := mem s\<rparr>)" 
      using copyout.simps [of pt va "[]" s] by simp
    with copyout_post_none [OF less.prems(1), of src 0 va] True show ?thesis by blast
  next
    case False
    show ?thesis
    proof (cases va rule: walkaddr_cases [OF space_okD(1) [OF less.prems(1)]])
      case 1
      then have "copyout pt va src s = Ok (- 1) (s\<lparr>mem := mem s\<rparr>)"
        using False by (simp add: copyout.simps [of pt va src])
      with copyout_post_none [OF less.prems(1), of src "- 1" va] 1(1) False show ?thesis by blast
    next
      case (2 a pa0)
      define n where "n = copy_chunk va (length src)"
      define m1 where "m1 = wr (mem s) a (take n src)"
      let ?va = "PGROUNDDOWN va + PGSIZE" and ?s = "s\<lparr>mem := m1\<rparr>"
      have n: "0 < n" "n \<le> 4096 - unat va mod 4096"
        using False copy_chunk_pos [of "length src" va] by (auto simp: copy_chunk_eq n_def)
      have step: "copyout pt va src s = copyout pt ?va (drop n src) ?s"
        using 2(2-4) False
        by (simp add: copyout.simps [of pt va src] Let_def n_def [symmetric] m1_def)
      have "space_ok ?s pt ps K"
        unfolding m1_def by (rule stored_chunk(1) [OF less.prems(1) 2(1)]) (use 2(5) n in auto)
      moreover have "length (drop n src) < length src" "length (drop n src) < 2 ^ 64"
        using n False less.prems(2) by auto
      ultimately obtain r j m' where IH: "copyout pt ?va (drop n src) ?s = Ok r (?s\<lparr>mem := m'\<rparr>)"
        "copyout_post ?s pt ps K ?va (drop n src) r j m'"
        using less.hyps by blast
      from copyout_post_step [OF less.prems(1) 2(1) 2(5) less.prems(2) n_def m1_def IH(2)] IH(1) step
      show ?thesis by auto
    qed
  qed
qed

end
