(* ===== verification/Vm_Space.thy ===== *)
theory Vm_Space
  imports Vm_Copy
begin

text \<open>
  Growing, shrinking, copying and destroying address spaces: \<^verbatim>\<open>uvmunmap\<close>, \<^verbatim>\<open>uvmalloc\<close>,
  \<^verbatim>\<open>uvmdealloc\<close>, \<^verbatim>\<open>uvmcopy\<close>, \<^verbatim>\<open>uvmfree\<close>.  The lemmas follow the ownership of physical pages:
  \<open>pool s pt ps K\<close> is the set of pages that are table pages of \<open>pt\<close>, owned by its address space,
  or free, and the operations only move pages inside the pool.
\<close>

section \<open>Frames and steps\<close>

definition pool :: "'a kmem_scheme \<Rightarrow> u64 \<Rightarrow> u64 list \<Rightarrow> nat set \<Rightarrow> u64 set" where
  "pool s pt ps K = tpages (mem s) pt \<union> set ps \<union> upage (mem s) pt ` K"

definition unch :: "u64 set \<Rightarrow> 'a kmem_scheme \<Rightarrow> 'a kmem_scheme \<Rightarrow> bool" where
  "unch P s s' \<longleftrightarrow> kframe s s' \<and> (\<forall>x. x \<notin> covered P \<longrightarrow> mem s' x = mem s x)"

definition page_va :: "nat \<Rightarrow> u64" where
  "page_va k = of_nat (4096 * k)"

lemma unch_refl [simp]: "unch P s s"
  by (simp add: unch_def)

lemma unch_trans: "unch P s s' \<Longrightarrow> unch Q s' s'' \<Longrightarrow> P \<subseteq> R \<Longrightarrow> Q \<subseteq> R \<Longrightarrow> unch R s s''"
  unfolding unch_def using kframe_trans covered_mono by (metis subsetD)

lemma unch_mono: "unch P s s' \<Longrightarrow> P \<subseteq> R \<Longrightarrow> unch R s s'"
  using unch_trans [of P s s' "{}" s'] by simp

lemma unchD: "unch P s s' \<Longrightarrow> kframe s s'" "unch P s s' \<Longrightarrow> kend s' = kend s"
  "unch P s s' \<Longrightarrow> x \<notin> covered P \<Longrightarrow> mem s' x = mem s x"
  using kframe_kend by (auto simp: unch_def)

lemma unch_vm_ext: "vm_ext pt s ps s' ps' \<Longrightarrow> unch (tpages (mem s') pt) s s'"
  by (simp add: unch_def vm_ext_def)

lemma page_va_simps:
  assumes "k \<le> 2 ^ 26"
  shows "unat (page_va k) = 4096 * k" "pn (page_va k) = k" "aligned (page_va k)"
    "k < 2 ^ 26 \<Longrightarrow> page_va k < MAXVA"
proof -
  show u: "unat (page_va k) = 4096 * k"
    using assms unfolding page_va_def by (simp add: unat_of_nat take_bit_nat_eq_self del: of_nat_mult)
  then show "pn (page_va k) = k" "aligned (page_va k)" by (simp_all add: pn_def aligned_def)
  then show "k < 2 ^ 26 \<Longrightarrow> page_va k < MAXVA" by (simp add: less_MAXVA_pn)
qed

lemma page_va_Suc: "page_va k + PGSIZE = page_va (Suc k)"
  by (simp add: page_va_def PGSIZE_def)

lemma page_va_less: "j \<le> 2 ^ 26 \<Longrightarrow> k \<le> 2 ^ 26 \<Longrightarrow> page_va j < page_va k \<longleftrightarrow> j < k"
  by (simp add: word_less_nat_alt page_va_simps)

lemma leafn_page_va: "leaf m pt (page_va k) = leafn m pt k"
  by (simp add: leafn_def page_va_def)

text \<open>A page that is neither free nor part of the table does not matter to the table.\<close>

lemma vm_ok_frame:
  assumes "vm_ok s pt ps" "kmem_ok s' ps'" "kend s' = kend s"
    and "\<And>a x. a \<in> tpages (mem s) pt \<Longrightarrow> x \<in> page a \<Longrightarrow> mem s' x = mem s x"
    and "\<And>a. a \<in> tpages (mem s) pt \<Longrightarrow> a \<notin> set ps'"
  shows "vm_ok s' pt ps'" "leaf (mem s') pt = leaf (mem s) pt" "tpages (mem s') pt = tpages (mem s) pt"
    "\<pi> \<in> paths \<Longrightarrow> node (mem s') pt \<pi> = node (mem s) pt \<pi>"
proof -
  note T = table_frame [of "mem s" pt "mem s'", OF assms(4)]
  show n: "\<pi> \<in> paths \<Longrightarrow> node (mem s') pt \<pi> = node (mem s) pt \<pi>" by (rule T(1))
  show "leaf (mem s') pt = leaf (mem s) pt" by (rule ext, rule T(2))
  show tp: "tpages (mem s') pt = tpages (mem s) pt" by (rule T(3))
  have "pt_ok (mem s') pt = pt_ok (mem s) pt" by (rule T(4))
  with assms tp show "vm_ok s' pt ps'" by (simp add: vm_ok_def)
qed

lemma upage_leaf: "leaf m' pt = leaf m pt \<Longrightarrow> leafn m' pt = leafn m pt" "leaf m' pt = leaf m pt \<Longrightarrow> upage m' pt = upage m pt"
  by (simp_all add: upage_def leafn_def fun_eq_iff)

lemma space_ok_frame:
  assumes ok: "space_ok s pt ps K" and km: "kmem_ok s' ps'" "kend s' = kend s"
    and m: "\<And>a x. a \<in> tpages (mem s) pt \<Longrightarrow> x \<in> page a \<Longrightarrow> mem s' x = mem s x"
    and d: "set ps' \<inter> (tpages (mem s) pt \<union> upage (mem s) pt ` K) = {}"
  shows "space_ok s' pt ps' K" "leaf (mem s') pt = leaf (mem s) pt" "tpages (mem s') pt = tpages (mem s) pt"
proof -
  have V: "vm_ok s' pt ps'" "leaf (mem s') pt = leaf (mem s) pt" "tpages (mem s') pt = tpages (mem s) pt"
    by (rule vm_ok_frame [OF space_okD(1) [OF ok] km m]; use d in blast)+
  then show "leaf (mem s') pt = leaf (mem s) pt" "tpages (mem s') pt = tpages (mem s) pt" by auto
  show "space_ok s' pt ps' K"
    using ok V d km(2) upage_leaf [OF V(2)] unfolding space_ok_def by auto
qed

lemma kfree_vm:
  assumes ok: "vm_ok s pt ps" and p: "kpage (kend s) p" "p \<notin> tpages (mem s) pt" "p \<notin> set ps"
  obtains s1 where "kfree p s = Ok () s1" "vm_ok s1 pt (p # ps)" "unch {p} s s1"
    "leaf (mem s1) pt = leaf (mem s) pt" "tpages (mem s1) pt = tpages (mem s) pt"
    "\<And>\<pi>. \<pi> \<in> paths \<Longrightarrow> node (mem s1) pt \<pi> = node (mem s) pt \<pi>"
proof -
  note V = vm_okD [OF ok]
  obtain s1 where s1: "kfree p s = Ok () s1" "kmem_ok s1 (p # ps)" "kend s1 = kend s"
    "\<And>x. x \<notin> page p \<Longrightarrow> mem s1 x = mem s x" "kframe s s1"
    using kfree_ok [OF V(1) p(1,3)] kframe_kfree by metis
  have same: "mem s1 x = mem s x" if "a \<in> tpages (mem s) pt" "x \<in> page a" for a x
    using that p V(5) page_disjoint [of a p] by (intro s1(4)) (auto simp: kpage_def)
  have F: "vm_ok s1 pt (p # ps)" "leaf (mem s1) pt = leaf (mem s) pt" "tpages (mem s1) pt = tpages (mem s) pt"
    "\<And>\<pi>. \<pi> \<in> paths \<Longrightarrow> node (mem s1) pt \<pi> = node (mem s) pt \<pi>"
    by (rule vm_ok_frame [OF ok s1(2,3) same]; use V(4) p(2) in auto)+
  have "unch {p} s s1" using s1(4,5) by (simp add: unch_def covered_def)
  with s1(1) F show thesis by (intro that)
qed

lemma kalloc_vm:
  assumes ok: "vm_ok s pt (p # ps)"
  obtains s1 where "kalloc s = Ok p s1" "vm_ok s1 pt ps" "unch {p} s s1" "p \<noteq> 0"
    "leaf (mem s1) pt = leaf (mem s) pt" "tpages (mem s1) pt = tpages (mem s) pt"
    "kpage (kend s1) p" "p \<notin> tpages (mem s) pt" "p \<notin> set ps"
proof -
  note V = vm_okD [OF ok]
  obtain s1 where s1: "kalloc s = Ok p s1" "kmem_ok s1 ps" "kend s1 = kend s"
    "\<And>x. x \<notin> page p \<Longrightarrow> mem s1 x = mem s x" "kframe s s1"
    using kalloc_ok_Cons [OF V(1)] kframe_kalloc by metis
  have p: "kpage (kend s1) p" "p \<noteq> 0" "p \<notin> tpages (mem s) pt" "p \<notin> set ps" "aligned p"
    using V(1,4) s1(3) by (auto simp: kmem_ok_def kpage_def)
  have same: "mem s1 x = mem s x" if "a \<in> tpages (mem s) pt" "x \<in> page a" for a x
    using that p V(5) page_disjoint [of a p] by (intro s1(4)) auto
  have F: "vm_ok s1 pt ps" "leaf (mem s1) pt = leaf (mem s) pt" "tpages (mem s1) pt = tpages (mem s) pt"
    by (rule vm_ok_frame [OF ok s1(2,3) same]; use V(4) in auto)+
  have "unch {p} s s1" using s1(4,5) by (simp add: unch_def covered_def)
  with s1(1) F p show thesis by (intro that)
qed

section \<open>uvmunmap\<close>

lemma leafn_store:
  assumes "vm_ok s pt ps" "node (mem s) pt [px 2 (page_va k), px 1 (page_va k)] = Some b" "k < 2 ^ 26"
    and "s' = s\<lparr>mem := st64 (mem s) (pte_addr b (PX 0 (page_va k))) v\<rparr>"
  shows "vm_ext pt s ps s' ps" "tpages (mem s') pt = tpages (mem s) pt"
    "j < 2 ^ 26 \<Longrightarrow> leafn (mem s') pt j = (if j = k then v else leafn (mem s) pt j)"
proof -
  have va: "page_va k < MAXVA" using page_va_simps(4) [of k] assms(3) by simp
  note S = vm_store [OF assms(1,2) va assms(4)]
  show "vm_ext pt s ps s' ps" by (rule S)
  show "tpages (mem s') pt = tpages (mem s) pt"
    using store_leaf(2) [OF vm_okD(2) [OF assms(1)] assms(2) refl] assms(4) by simp
  show "leafn (mem s') pt j = (if j = k then v else leafn (mem s) pt j)" if "j < 2 ^ 26"
    using S(2) [of "page_va j"] that assms(3) page_va_simps [of j] page_va_simps [of k]
    by (simp add: leafn_page_va)
qed

lemma walk_owned:
  assumes "vm_ok s pt ps" "k < 2 ^ 26" "pte_valid (leafn (mem s) pt k)"
  obtains b where "node (mem s) pt [px 2 (page_va k), px 1 (page_va k)] = Some b"
    "walk pt (page_va k) False s = Ok (pte_addr b (PX 0 (page_va k))) s"
    "pte_addr b (PX 0 (page_va k)) \<noteq> 0"
    "ld64 (mem s) (pte_addr b (PX 0 (page_va k))) = leafn (mem s) pt k"
proof -
  have va: "page_va k < MAXVA" using page_va_simps(4) [of k] assms(2) by simp
  obtain b where b: "node (mem s) pt [px 2 (page_va k), px 1 (page_va k)] = Some b"
    "pte_addr b (PX 0 (page_va k)) \<noteq> 0"
    "ld64 (mem s) (pte_addr b (PX 0 (page_va k))) = leaf (mem s) pt (page_va k)"
    using leaf_slot [OF assms(1), of "page_va k"] assms(3) leafn_page_va by metis
  moreover have "walk pt (page_va k) False s = Ok (pte_addr b (PX 0 (page_va k))) s"
    unfolding walk_lookup [OF va] using b(1) by simp
  ultimately show thesis by (intro that) (simp_all add: leafn_page_va)
qed

text \<open>Dropping page \<open>k\<close> from the owned set.\<close>

lemma space_ok_drop:
  assumes ok: "space_ok s pt ps K" and k: "k \<in> K" and vm: "vm_ok s' pt (upage (mem s) pt k # ps)"
    and t: "tpages (mem s') pt = tpages (mem s) pt" "kend s' = kend s"
    and l: "\<And>j. j < 2 ^ 26 \<Longrightarrow> leafn (mem s') pt j = (if j = k then 0 else leafn (mem s) pt j)"
  shows "space_ok s' pt (upage (mem s) pt k # ps) (K - {k})"
    "pool s' pt (upage (mem s) pt k # ps) (K - {k}) = pool s pt ps K"
    "\<And>j. j \<in> K - {k} \<Longrightarrow> upage (mem s') pt j = upage (mem s) pt j"
proof -
  note D = space_okD [OF ok]
  have lk: "leafn (mem s') pt j = leafn (mem s) pt j" "upage (mem s') pt j = upage (mem s) pt j"
    if "j \<in> K - {k}" for j using that l [of j] D(2) [of j] by (auto simp: upage_def)
  then show "\<And>j. j \<in> K - {k} \<Longrightarrow> upage (mem s') pt j = upage (mem s) pt j" by simp
  have im: "upage (mem s') pt ` (K - {k}) = upage (mem s) pt ` (K - {k})" using lk(2) by simp
  have "inj_on (upage (mem s') pt) (K - {k})"
    using D(6) lk(2) by (auto simp: inj_on_def)
  moreover have "upage (mem s) pt k \<notin> upage (mem s) pt ` (K - {k})"
    using D(6) k by (auto simp: inj_on_def)
  moreover have "\<not> user_leaf (leafn (mem s') pt j)" if "j < 2 ^ 26" "j \<notin> K - {k}" for j
    using that l [of j] D(9) [of j] by (auto simp: user_leaf_def)
  ultimately show "space_ok s' pt (upage (mem s) pt k # ps) (K - {k})"
    using vm D lk im t unfolding space_ok_def by (auto simp: space_ok_def)
  show "pool s' pt (upage (mem s) pt k # ps) (K - {k}) = pool s pt ps K"
    using k im t(1) by (auto simp: pool_def)
qed

lemma unmap_step:
  assumes ok: "space_ok s pt ps K" and k: "k \<in> K"
  defines "p \<equiv> upage (mem s) pt k"
  obtains pte s1 s2 where "walk pt (page_va k) False s = Ok pte s" "pte \<noteq> 0"
    "ld64 (mem s) pte = leafn (mem s) pt k" "kfree p s = Ok () s1"
    "s2 = s1\<lparr>mem := st64 (mem s1) pte 0\<rparr>" "space_ok s2 pt (p # ps) (K - {k})"
    "tpages (mem s2) pt = tpages (mem s) pt" "unch (insert p (tpages (mem s) pt)) s s2"
    "\<And>j. j < 2 ^ 26 \<Longrightarrow> leafn (mem s2) pt j = (if j = k then 0 else leafn (mem s) pt j)"
    "pool s2 pt (p # ps) (K - {k}) = pool s pt ps K"
    "\<And>j. j \<in> K - {k} \<Longrightarrow> upage (mem s2) pt j = upage (mem s) pt j"
proof -
  note D = space_okD [OF ok]
  obtain b where b: "node (mem s) pt [px 2 (page_va k), px 1 (page_va k)] = Some b"
    "walk pt (page_va k) False s = Ok (pte_addr b (PX 0 (page_va k))) s"
    "pte_addr b (PX 0 (page_va k)) \<noteq> 0"
    "ld64 (mem s) (pte_addr b (PX 0 (page_va k))) = leafn (mem s) pt k"
    using walk_owned [OF D(1) D(2) [OF k] D(3) [OF k]] by blast
  obtain s1 where s1: "kfree p s = Ok () s1" "vm_ok s1 pt (p # ps)" "unch {p} s s1"
    "leaf (mem s1) pt = leaf (mem s) pt" "tpages (mem s1) pt = tpages (mem s) pt"
    "\<And>\<pi>. \<pi> \<in> paths \<Longrightarrow> node (mem s1) pt \<pi> = node (mem s) pt \<pi>"
    by (rule kfree_vm [OF D(1) D(5) [OF k] D(7) [OF k] D(8) [OF k], folded p_def]) (rule that)
  have b1: "node (mem s1) pt [px 2 (page_va k), px 1 (page_va k)] = Some b" using s1(6) b(1) by simp
  define s2 where "s2 = s1\<lparr>mem := st64 (mem s1) (pte_addr b (PX 0 (page_va k))) 0\<rparr>"
  note S = leafn_store [OF s1(2) b1 D(2) [OF k] s2_def]
  have t2: "tpages (mem s2) pt = tpages (mem s) pt" using S(2) s1(5) by simp
  have l2: "leafn (mem s2) pt j = (if j = k then 0 else leafn (mem s) pt j)" if "j < 2 ^ 26" for j
    using S(3) [OF that] upage_leaf(1) [OF s1(4)] by simp
  have u2: "unch (insert p (tpages (mem s) pt)) s s2"
    using unch_trans [OF s1(3) unch_vm_ext [OF S(1)]] t2 by auto
  have "vm_ok s2 pt (p # ps)" using S(1) by (simp add: vm_ext_def)
  note R = space_ok_drop [OF ok k this [unfolded p_def] t2 unchD(2) [OF u2] l2]
  show thesis
    by (rule that [OF b(2-4) s1(1) s2_def R(1) [folded p_def] t2 u2 l2 R(2) [folded p_def] R(3)])
qed

lemma uvmunmap_loop_ok:
  assumes "space_ok s pt ps K" "{k..<k + n} \<subseteq> K" "n < fuel" "k + n \<le> 2 ^ 26"
  shows "\<exists>s' qs. uvmunmap_loop fuel pt (page_va k) (page_va (k + n)) True s = Ok () s' \<and>
     space_ok s' pt (qs @ ps) (K - {k..<k + n}) \<and> set qs = upage (mem s) pt ` {k..<k + n} \<and>
     tpages (mem s') pt = tpages (mem s) pt \<and>
     unch (tpages (mem s) pt \<union> upage (mem s) pt ` {k..<k + n}) s s' \<and>
     (\<forall>j<2 ^ 26. leafn (mem s') pt j = (if j \<in> {k..<k + n} then 0 else leafn (mem s) pt j)) \<and>
     pool s' pt (qs @ ps) (K - {k..<k + n}) = pool s pt ps K"
  using assms
proof (induction n arbitrary: k s ps K fuel)
  case 0
  then show ?case by (cases fuel) (auto intro!: exI [of _ "[]"])
next
  case (Suc n)
  obtain f where f: "fuel = Suc f" "n < f" using Suc.prems(3) by (cases fuel) auto
  have k: "k \<in> K" using Suc.prems(2) by auto
  let ?p = "upage (mem s) pt k"
  obtain pte s1 s2 where W: "walk pt (page_va k) False s = Ok pte s" "pte \<noteq> 0"
    "ld64 (mem s) pte = leafn (mem s) pt k" "kfree ?p s = Ok () s1"
    "s2 = s1\<lparr>mem := st64 (mem s1) pte 0\<rparr>" "space_ok s2 pt (?p # ps) (K - {k})"
    "tpages (mem s2) pt = tpages (mem s) pt" "unch (insert ?p (tpages (mem s) pt)) s s2"
    "\<And>j. j < 2 ^ 26 \<Longrightarrow> leafn (mem s2) pt j = (if j = k then 0 else leafn (mem s) pt j)"
    "pool s2 pt (?p # ps) (K - {k}) = pool s pt ps K"
    "\<And>j. j \<in> K - {k} \<Longrightarrow> upage (mem s2) pt j = upage (mem s) pt j"
    by (rule unmap_step [OF Suc.prems(1) k]) (rule that)
  have lt: "page_va k < page_va (k + Suc n)" using Suc.prems(4) by (subst page_va_less) auto
  have st: "uvmunmap_loop fuel pt (page_va k) (page_va (k + Suc n)) True s =
      uvmunmap_loop f pt (page_va (Suc k)) (page_va (Suc k + n)) True s2"
    using f lt W(1-5) space_okD(3,4) [OF Suc.prems(1) k]
    by (simp add: pte_valid_def upage_def page_va_Suc Let_def)
  have "{Suc k..<Suc k + n} \<subseteq> K - {k}" using Suc.prems(2) by auto
  from Suc.IH [OF W(6) this f(2)] Suc.prems(4) obtain s' qs where IH:
    "uvmunmap_loop f pt (page_va (Suc k)) (page_va (Suc k + n)) True s2 = Ok () s'"
    "space_ok s' pt (qs @ ?p # ps) (K - {k} - {Suc k..<Suc k + n})"
    "set qs = upage (mem s2) pt ` {Suc k..<Suc k + n}" "tpages (mem s') pt = tpages (mem s2) pt"
    "unch (tpages (mem s2) pt \<union> upage (mem s2) pt ` {Suc k..<Suc k + n}) s2 s'"
    "\<forall>j<2 ^ 26. leafn (mem s') pt j = (if j \<in> {Suc k..<Suc k + n} then 0 else leafn (mem s2) pt j)"
    "pool s' pt (qs @ ?p # ps) (K - {k} - {Suc k..<Suc k + n}) = pool s2 pt (?p # ps) (K - {k})"
    by auto
  have im: "upage (mem s2) pt ` {Suc k..<Suc k + n} = upage (mem s) pt ` {Suc k..<Suc k + n}"
  proof (rule image_cong [OF refl])
    fix j assume "j \<in> {Suc k..<Suc k + n}"
    then have "j \<in> K - {k}" using Suc.prems(2) by auto
    then show "upage (mem s2) pt j = upage (mem s) pt j" by (rule W(11))
  qed
  have iv: "{k..<k + Suc n} = insert k {Suc k..<Suc k + n}" by auto
  have "K - {k} - {Suc k..<Suc k + n} = K - {k..<k + Suc n}" by auto
  moreover have "unch (tpages (mem s) pt \<union> upage (mem s) pt ` {k..<k + Suc n}) s s'"
    unfolding iv by (rule unch_trans [OF W(8) IH(5) [unfolded im W(7)]]) auto
  moreover have "\<forall>j<2 ^ 26. leafn (mem s') pt j = (if j \<in> {k..<k + Suc n} then 0 else leafn (mem s) pt j)"
    using IH(6) W(9) by auto
  ultimately show ?case
    using st IH(1-4,7) W(7,10) im iv by (intro exI [of _ s'] exI [of _ "qs @ [?p]"]) auto
qed

text \<open>What releasing the owned pages \<open>R\<close> does to the space and the free list.\<close>

definition unmap_post ::
  "'a kmem_scheme \<Rightarrow> u64 \<Rightarrow> u64 list \<Rightarrow> nat set \<Rightarrow> nat set \<Rightarrow> 'a kmem_scheme \<Rightarrow> u64 list \<Rightarrow> bool" where
  "unmap_post s pt ps K R s' ps' \<longleftrightarrow>
     space_ok s' pt ps' (K - R) \<and> set ps' = set ps \<union> upage (mem s) pt ` R \<and>
     tpages (mem s') pt = tpages (mem s) pt \<and>
     unch (tpages (mem s) pt \<union> upage (mem s) pt ` R) s s' \<and>
     (\<forall>j<2 ^ 26. leafn (mem s') pt j = (if j \<in> R then 0 else leafn (mem s) pt j)) \<and>
     pool s' pt ps' (K - R) = pool s pt ps K"

lemma unmap_post_none: "space_ok s pt ps K \<Longrightarrow> unmap_post s pt ps K {} s ps"
  by (simp add: unmap_post_def)

lemma uvmunmap_ok:
  assumes "space_ok s pt ps K" "{k..<k + n} \<subseteq> K" "k + n \<le> 2 ^ 26"
  shows "\<exists>s' ps'. uvmunmap pt (page_va k) (of_nat n) True s = Ok () s' \<and>
     unmap_post s pt ps K {k..<k + n} s' ps'"
proof -
  have k: "page_va k mod PGSIZE = 0"
    using page_va_simps(3) [of k] assms(3) by (simp add: aligned_mod)
  have n: "unat (of_nat n :: u64) = n"
    using assms(3) by (simp add: unat_of_nat take_bit_nat_eq_self)
  have e: "page_va k + of_nat n * PGSIZE = page_va (k + n)"
    by (simp add: page_va_def PGSIZE_def algebra_simps)
  obtain s' qs where U: "uvmunmap_loop (n + 1) pt (page_va k) (page_va (k + n)) True s = Ok () s'"
     "space_ok s' pt (qs @ ps) (K - {k..<k + n})" "set qs = upage (mem s) pt ` {k..<k + n}"
     "tpages (mem s') pt = tpages (mem s) pt"
     "unch (tpages (mem s) pt \<union> upage (mem s) pt ` {k..<k + n}) s s'"
     "\<forall>j<2 ^ 26. leafn (mem s') pt j = (if j \<in> {k..<k + n} then 0 else leafn (mem s) pt j)"
     "pool s' pt (qs @ ps) (K - {k..<k + n}) = pool s pt ps K"
    using uvmunmap_loop_ok [OF assms(1,2) _ assms(3), of "n + 1"] by auto
  then have "unmap_post s pt ps K {k..<k + n} s' (qs @ ps)"
    by (auto simp: unmap_post_def)
  moreover have "uvmunmap pt (page_va k) (of_nat n) True s = Ok () s'"
    using U(1) by (simp only: uvmunmap_def k n e) simp
  ultimately show ?thesis by blast
qed

section \<open>uvmdealloc\<close>

text \<open>The number of pages that hold \<open>sz\<close> bytes.\<close>

definition npages :: "u64 \<Rightarrow> nat" where
  "npages sz = (unat sz + 4095) div 4096"

lemma npages_bound: "unat sz \<le> 2 ^ 38 \<Longrightarrow> npages sz \<le> 2 ^ 26"
  by (simp add: npages_def)

lemma npages_mono: "a \<le> b \<Longrightarrow> npages a \<le> npages b"
  by (simp add: npages_def word_le_nat_alt div_le_mono)

lemma PGROUNDUP_page_va:
  assumes "unat sz \<le> 2 ^ 38"
  shows "PGROUNDUP sz = page_va (npages sz)"
proof -
  have "unat (PGROUNDUP sz) = npages sz * 4096"
    using assms by (simp add: unat_PGROUNDUP npages_def)
  also have "\<dots> = unat (page_va (npages sz))"
    using page_va_simps(1) [OF npages_bound [OF assms]] by simp
  finally show ?thesis by (simp add: word_unat_eq_iff)
qed

lemma int_of_nat_u64:
  assumes "n < 2 ^ 31"
  shows "(scast (ucast (of_nat n :: u64) :: i32) :: u64) = of_nat n"
proof -
  have "(ucast (of_nat n :: u64) :: i32) = of_nat n"
    using assms by (simp add: word_unat_eq_iff unsigned_ucast_eq unat_of_nat take_bit_nat_eq_self)
  moreover have "sint (of_nat n :: i32) = int n"
    using assms by (simp add: signed_of_nat signed_take_bit_int_eq_self)
  ultimately show ?thesis by (simp add: scast_eq)
qed

lemma page_va_diff:
  assumes "j \<le> k" "k \<le> 2 ^ 26"
  shows "(page_va k - page_va j) div PGSIZE = of_nat (k - j)"
proof -
  have "page_va j \<le> page_va k"
    using assms page_va_simps(1) [of j] page_va_simps(1) [of k] by (simp add: word_le_nat_alt)
  then have "unat (page_va k - page_va j) = 4096 * (k - j)"
    using assms page_va_simps(1) [of j] page_va_simps(1) [of k]
    by (simp add: unat_diff_le diff_mult_distrib2)
  then have "unat ((page_va k - page_va j) div PGSIZE) = k - j" by (simp add: unat_div)
  moreover have "unat (of_nat (k - j) :: u64) = k - j"
    using assms by (simp add: unat_of_nat take_bit_nat_eq_self del: of_nat_diff)
  ultimately show ?thesis by (simp add: word_unat_eq_iff)
qed

lemma uvmdealloc_ok:
  assumes ok: "space_ok s pt ps K" and sub: "{npages newsz..<npages oldsz} \<subseteq> K"
    and top: "unat oldsz \<le> 2 ^ 38"
  shows "\<exists>s' ps'. uvmdealloc pt oldsz newsz s = Ok (if oldsz \<le> newsz then oldsz else newsz) s' \<and>
     unmap_post s pt ps K {npages newsz..<npages oldsz} s' ps'"
proof (cases "oldsz \<le> newsz")
  case True
  then show ?thesis
    using unmap_post_none [OF ok] npages_mono [OF True] by (auto simp: uvmdealloc_def)
next
  case False
  then have le: "npages newsz \<le> npages oldsz" using npages_mono [of newsz oldsz] by simp
  have n: "unat newsz \<le> 2 ^ 38" using False top by (simp add: word_le_nat_alt)
  note b = npages_bound [OF top] and R = PGROUNDUP_page_va [OF n] PGROUNDUP_page_va [OF top]
  show ?thesis
  proof (cases "npages newsz = npages oldsz")
    case True
    then show ?thesis
      using unmap_post_none [OF ok] False by (auto simp: uvmdealloc_def R)
  next
    case ne: False
    let ?d = "npages oldsz - npages newsz"
    have lt: "page_va (npages newsz) < page_va (npages oldsz)"
      using le ne b by (subst page_va_less) auto
    have np: "scast (ucast ((page_va (npages oldsz) - page_va (npages newsz)) div PGSIZE) :: i32)
        = (of_nat ?d :: u64)"
      unfolding page_va_diff [OF le b] by (rule int_of_nat_u64) (use b in simp)
    have "{npages newsz..<npages newsz + ?d} \<subseteq> K" "npages newsz + ?d \<le> 2 ^ 26"
      using sub le b by auto
    from uvmunmap_ok [OF ok this] obtain s' ps' where
      u: "uvmunmap pt (page_va (npages newsz)) (of_nat ?d) True s = Ok () s'"
      "unmap_post s pt ps K {npages newsz..<npages newsz + ?d} s' ps'" by blast
    have "uvmdealloc pt oldsz newsz s = Ok newsz s'"
      unfolding uvmdealloc_def R Let_def np using False lt u(1) by simp
    then show ?thesis using u(2) le False by auto
  qed
qed

section \<open>Mapping a fresh page\<close>

lemma space_ok_ext:
  assumes ok: "space_ok s pt ps K" and e: "vm_ext pt s ps s' ps'"
    and l: "\<And>j. j < 2 ^ 26 \<Longrightarrow> leafn (mem s') pt j = leafn (mem s) pt j"
  shows "space_ok s' pt ps' K" "\<And>j. j < 2 ^ 26 \<Longrightarrow> upage (mem s') pt j = upage (mem s) pt j"
proof -
  note D = space_okD [OF ok] and E = vm_extD [OF e]
  show u: "upage (mem s') pt j = upage (mem s) pt j" if "j < 2 ^ 26" for j
    using l [OF that] by (simp add: upage_def)
  have im: "upage (mem s') pt ` K = upage (mem s) pt ` K" using u D(2) by (intro image_cong) auto
  have "inj_on (upage (mem s') pt) K" using D(2,6) u by (auto simp: inj_on_def)
  moreover have "upage (mem s) pt ` K \<inter> (tpages (mem s') pt \<union> set ps') = {}"
    unfolding E(7) using D(7,8) by auto
  moreover have "\<not> user_leaf (leafn (mem s') pt j)" if "j < 2 ^ 26" "j \<notin> K" for j
    using that l D(9) by auto
  moreover have "\<forall>j\<in>K. pte_valid (leafn (mem s') pt j) \<and> PTE_FLAGS (leafn (mem s') pt j) \<noteq> PTE_V \<and>
      kpage (kend s') (upage (mem s') pt j)"
    using D(2-5) l u E(6) by auto
  ultimately show "space_ok s' pt ps' K"
    using E(1) D(2) im by (auto simp: space_ok_def)
qed

lemma space_ok_add:
  assumes ok: "space_ok s pt ps K" and e: "vm_ext pt s ps s' ps'" and k: "k < 2 ^ 26" "k \<notin> K"
    and l: "\<And>j. j < 2 ^ 26 \<Longrightarrow> leafn (mem s') pt j = (if j = k then v else leafn (mem s) pt j)"
    and v: "pte_valid v" "PTE_FLAGS v \<noteq> PTE_V" "kpage (kend s) (PTE2PA v)"
    and p: "PTE2PA v \<notin> tpages (mem s) pt" "PTE2PA v \<notin> set ps" "PTE2PA v \<notin> upage (mem s) pt ` K"
  shows "space_ok s' pt ps' (insert k K)" "upage (mem s') pt k = PTE2PA v"
    "\<And>j. j \<in> K \<Longrightarrow> upage (mem s') pt j = upage (mem s) pt j"
proof -
  note D = space_okD [OF ok] and E = vm_extD [OF e]
  show uk: "upage (mem s') pt k = PTE2PA v" using l [OF k(1)] by (simp add: upage_def)
  show u: "upage (mem s') pt j = upage (mem s) pt j" if "j \<in> K" for j
    using l [OF D(2) [OF that]] that k(2) by (auto simp: upage_def)
  have im: "upage (mem s') pt ` insert k K = insert (PTE2PA v) (upage (mem s) pt ` K)"
    using u uk by (auto simp: image_iff)
  have "inj_on (upage (mem s') pt) K" using D(6) u by (simp add: inj_on_def)
  then have "inj_on (upage (mem s') pt) (insert k K)"
    using u uk p(3) k(2) by (auto simp: image_iff)
  moreover have "insert (PTE2PA v) (upage (mem s) pt ` K) \<inter> (tpages (mem s') pt \<union> set ps') = {}"
    unfolding E(7) using D(7,8) p by auto
  moreover have "\<not> user_leaf (leafn (mem s') pt j)" if "j < 2 ^ 26" "j \<notin> insert k K" for j
    using that l [OF that(1)] D(9) [of j] by auto
  moreover have "\<forall>j\<in>insert k K. pte_valid (leafn (mem s') pt j) \<and> PTE_FLAGS (leafn (mem s') pt j) \<noteq> PTE_V \<and>
      kpage (kend s') (upage (mem s') pt j)"
  proof
    fix j assume "j \<in> insert k K"
    then consider "j = k" | "j \<in> K" "j \<noteq> k" using k(2) by auto
    then show "pte_valid (leafn (mem s') pt j) \<and> PTE_FLAGS (leafn (mem s') pt j) \<noteq> PTE_V \<and>
        kpage (kend s') (upage (mem s') pt j)"
    proof cases
      case 1
      then show ?thesis using l [OF k(1)] uk v E(6) by simp
    next
      case 2
      then show ?thesis using l [OF D(2)] u D(3-5) E(6) by simp
    qed
  qed
  moreover have "insert k K \<subseteq> {..<2 ^ 26}" using D(2) k(1) by auto
  ultimately show "space_ok s' pt ps' (insert k K)"
    unfolding space_ok_def im using E(1) by blast
qed

lemma leaf_value:
  assumes "aligned p" "\<forall>n\<ge>10. \<not> bit perm n"
  shows "PTE2PA (PA2PTE p OR perm OR PTE_V) = p" "PTE_FLAGS (PA2PTE p OR perm OR PTE_V) = perm OR PTE_V"
    "pte_valid (PA2PTE p OR perm OR PTE_V)"
proof -
  have "\<forall>n\<ge>10. \<not> bit (perm OR PTE_V) n" using assms(2) by (auto simp: bit_or_iff PTE_V_hi)
  then show "PTE2PA (PA2PTE p OR perm OR PTE_V) = p" "PTE_FLAGS (PA2PTE p OR perm OR PTE_V) = perm OR PTE_V"
    using PTE2PA_PA2PTE [OF assms(1), of "perm OR PTE_V"] PTE_FLAGS_PA2PTE [of "perm OR PTE_V" p]
    by (simp_all add: or.assoc)
  show "pte_valid (PA2PTE p OR perm OR PTE_V)" by (simp add: flag_bit bit_or_iff PTE_V_def)
qed

lemma map_page:
  assumes ok: "vm_ok s pt ps" and k: "k < 2 ^ 26" and inv: "\<not> pte_valid (leafn (mem s) pt k)"
  obtains (entered) s' ps' where "mappages pt (page_va k) PGSIZE p perm s = Ok 0 s'" "vm_ext pt s ps s' ps'"
      "\<And>j. j < 2 ^ 26 \<Longrightarrow> leafn (mem s') pt j =
         (if j = k then PA2PTE p OR perm OR PTE_V else leafn (mem s) pt j)"
  | (full) s' where "mappages pt (page_va k) PGSIZE p perm s = Ok (- 1) s'" "vm_ext pt s ps s' []"
      "\<And>j. j < 2 ^ 26 \<Longrightarrow> leafn (mem s') pt j = leafn (mem s) pt j"
proof -
  note P = page_va_simps [of k]
  have i: "\<not> pte_valid (leaf (mem s) pt vb)" if "vb < MAXVA" "pn (page_va k) \<le> pn vb" "pn vb \<le> pn (page_va k) + 0" for vb
    using that inv leaf_leafn [OF that(1), of "mem s" pt] P k by (simp add: le_antisym)
  have va: "page_va j < MAXVA" "pn (page_va j) = j" if "j < 2 ^ 26" for j
    using page_va_simps [of j] that by auto
  have al: "aligned (page_va k)" and sz: "unat PGSIZE = 4096 * Suc 0"
    and top: "unat (page_va k) + unat PGSIZE \<le> 2 ^ 38"
    using P(1,3) k by simp_all
  obtain r s' ps' j where M: "mappages pt (page_va k) PGSIZE p perm s = Ok r s'" "vm_ext pt s ps s' ps'"
    "r = 0 \<and> j = Suc 0 \<or> r = - 1 \<and> j \<le> 0 \<and> ps' = []"
    "\<And>vb. vb < MAXVA \<Longrightarrow> leaf (mem s') pt vb = (if pn (page_va k) \<le> pn vb \<and> pn vb < pn (page_va k) + j
       then mapped (page_va k) p perm vb else leaf (mem s) pt vb)"
    using mappages_ok [OF ok al sz top i, of p perm] by blast
  have l: "leafn (mem s') pt i = (if i = k \<and> j = 1 then PA2PTE p OR perm OR PTE_V else leafn (mem s) pt i)"
    if "i < 2 ^ 26" for i
    using M(4) [OF va(1) [OF that]] M(3) va(2) [OF that] P(2) k
    by (auto simp: leafn_page_va mapped_def)
  show thesis
  proof (cases "r = 0")
    case True
    with M l show thesis by (intro entered [of s' ps']) auto
  next
    case False
    with M l show thesis by (intro full [of s']) auto
  qed
qed

text \<open>A page that was allocated but is not mapped yet.\<close>

definition limbo :: "'a kmem_scheme \<Rightarrow> u64 \<Rightarrow> u64 list \<Rightarrow> nat set \<Rightarrow> u64 \<Rightarrow> bool" where
  "limbo s pt ps K p \<longleftrightarrow> kpage (kend s) p \<and> p \<notin> pool s pt ps K"

lemma limboD:
  assumes "limbo s pt ps K p"
  shows "kpage (kend s) p" "aligned p" "p \<notin> tpages (mem s) pt" "p \<notin> set ps" "p \<notin> upage (mem s) pt ` K"
  using assms by (auto simp: limbo_def pool_def kpage_def)

lemma kalloc_space:
  assumes ok: "space_ok s pt (p # ps) K"
  obtains s1 where "kalloc s = Ok p s1" "p \<noteq> 0" "space_ok s1 pt ps K" "limbo s1 pt ps K p" "unch {p} s s1"
    "leaf (mem s1) pt = leaf (mem s) pt" "tpages (mem s1) pt = tpages (mem s) pt"
proof -
  note D = space_okD [OF ok]
  obtain s1 where s1: "kalloc s = Ok p s1" "vm_ok s1 pt ps" "unch {p} s s1" "p \<noteq> 0"
    "leaf (mem s1) pt = leaf (mem s) pt" "tpages (mem s1) pt = tpages (mem s) pt"
    "kpage (kend s1) p" "p \<notin> tpages (mem s) pt" "p \<notin> set ps"
    by (rule kalloc_vm [OF D(1)]) (rule that)
  note U = upage_leaf [OF s1(5)]
  have "space_ok s1 pt ps K"
    using ok s1(2,6) U unchD(2) [OF s1(3)] unfolding space_ok_def by auto
  moreover have "p \<notin> upage (mem s) pt ` K"
  proof
    assume "p \<in> upage (mem s) pt ` K"
    then obtain j where "j \<in> K" "p = upage (mem s) pt j" by blast
    with D(8) show False by fastforce
  qed
  then have "limbo s1 pt ps K p"
    using s1(6-9) U by (simp add: limbo_def pool_def)
  ultimately show thesis using s1 by (intro that)
qed

lemma fill_limbo:
  assumes ok: "space_ok s pt ps K" and p: "limbo s pt ps K p"
    and m: "\<And>x. x \<notin> page p \<Longrightarrow> m' x = mem s x"
  shows "space_ok (s\<lparr>mem := m'\<rparr>) pt ps K" "limbo (s\<lparr>mem := m'\<rparr>) pt ps K p" "unch {p} s (s\<lparr>mem := m'\<rparr>)"
    "leaf m' pt = leaf (mem s) pt" "tpages m' pt = tpages (mem s) pt"
proof -
  note D = space_okD [OF ok] and L = limboD [OF p] and V = vm_okD [OF space_okD(1) [OF ok]]
  have off: "m' x = mem s x" if "aligned a" "a \<noteq> p" "x \<in> page a" for a x
    using that page_disjoint [of a p] L(2) by (intro m) auto
  have km: "kmem_ok (s\<lparr>mem := m'\<rparr>) ps"
    by (rule kmem_ok_mem [OF V(1)]) (metis off L(4) kmem_okD(7) [OF V(1)])
  have same: "mem (s\<lparr>mem := m'\<rparr>) x = mem s x" if "a \<in> tpages (mem s) pt" "x \<in> page a" for a x
    using off [OF V(5) [OF that(1)] _ that(2)] that(1) L(3) by auto
  have d: "set ps \<inter> (tpages (mem s) pt \<union> upage (mem s) pt ` K) = {}" using D(7,8) V(4) by auto
  have k: "kend (s\<lparr>mem := m'\<rparr>) = kend s" by simp
  note F = space_ok_frame [OF ok km k same d]
  show "space_ok (s\<lparr>mem := m'\<rparr>) pt ps K" by (rule F)
  show t: "leaf m' pt = leaf (mem s) pt" "tpages m' pt = tpages (mem s) pt" using F(2,3) by auto
  show "limbo (s\<lparr>mem := m'\<rparr>) pt ps K p"
    using p t upage_leaf [OF t(1)] by (simp add: limbo_def pool_def)
  show "unch {p} s (s\<lparr>mem := m'\<rparr>)" using m by (simp add: unch_def covered_def)
qed

lemma zero_limbo:
  assumes "space_ok s pt ps K" "limbo s pt ps K p"
  defines "m' \<equiv> memset (mem s) p 0 4096"
  shows "space_ok (s\<lparr>mem := m'\<rparr>) pt ps K" "limbo (s\<lparr>mem := m'\<rparr>) pt ps K p" "unch {p} s (s\<lparr>mem := m'\<rparr>)"
    "leaf m' pt = leaf (mem s) pt" "tpages m' pt = tpages (mem s) pt"
  unfolding m'_def by (rule fill_limbo [OF assms(1,2)]; erule memset_page_outside)+

text \<open>Mapping the page, or giving it back when no table page can be had.\<close>

lemma map_limbo:
  assumes ok: "space_ok s pt ps K" and p: "limbo s pt ps K p" and k: "k < 2 ^ 26" "k \<notin> K"
    and inv: "\<not> pte_valid (leafn (mem s) pt k)"
    and perm: "\<forall>n\<ge>10. \<not> bit perm n" "perm OR PTE_V \<noteq> PTE_V"
  obtains (entered) s' ps' where "mappages pt (page_va k) PGSIZE p perm s = Ok 0 s'"
      "space_ok s' pt ps' (insert k K)" "upage (mem s') pt k = p"
      "\<And>x. x \<in> page p \<Longrightarrow> mem s' x = mem s x" "unch (tpages (mem s) pt \<union> set ps) s s'"
      "\<And>j. j < 2 ^ 26 \<Longrightarrow> leafn (mem s') pt j =
         (if j = k then PA2PTE p OR perm OR PTE_V else leafn (mem s) pt j)"
      "tpages (mem s') pt \<union> set ps' = tpages (mem s) pt \<union> set ps"
  | (full) s' s'' where "mappages pt (page_va k) PGSIZE p perm s = Ok (- 1) s'" "kfree p s' = Ok () s''"
      "space_ok s'' pt [p] K" "unch (insert p (tpages (mem s) pt \<union> set ps)) s s''"
      "\<And>j. j < 2 ^ 26 \<Longrightarrow> leafn (mem s'') pt j = leafn (mem s) pt j"
      "tpages (mem s'') pt = tpages (mem s) pt \<union> set ps"
proof (rule map_page [OF space_okD(1) [OF ok] k(1) inv, where p = p and perm = perm])
  note L = limboD [OF p] and V = leaf_value [OF limboD(2) [OF p] perm(1)]
  fix s' ps'
  assume M: "mappages pt (page_va k) PGSIZE p perm s = Ok 0 s'" and e: "vm_ext pt s ps s' ps'"
    and l: "\<And>j. j < 2 ^ 26 \<Longrightarrow> leafn (mem s') pt j =
         (if j = k then PA2PTE p OR perm OR PTE_V else leafn (mem s) pt j)"
  note E = vm_extD [OF e]
  have A: "space_ok s' pt ps' (insert k K)" "upage (mem s') pt k = p"
    using space_ok_add [OF ok e k l] V perm(2) L by simp_all
  have "aligned a \<and> a \<noteq> p" if "a \<in> tpages (mem s') pt" for a
    using that E(7) L(3,4) vm_okD(5) [OF E(1)] by auto
  then have "x \<notin> covered (tpages (mem s') pt)" if "x \<in> page p" for x
    using that L(2) by (intro page_not_covered) auto
  then have c: "mem s' x = mem s x" if "x \<in> page p" for x using that E(3) by blast
  have u: "unch (tpages (mem s) pt \<union> set ps) s s'"
    by (rule unch_mono [OF unch_vm_ext [OF e]]) (use E(7) in auto)
  show thesis by (rule entered [OF M A c u l E(7)])
next
  note L = limboD [OF p]
  fix s'
  assume M: "mappages pt (page_va k) PGSIZE p perm s = Ok (- 1) s'" and e: "vm_ext pt s ps s' []"
    and l: "\<And>j. j < 2 ^ 26 \<Longrightarrow> leafn (mem s') pt j = leafn (mem s) pt j"
  note E = vm_extD [OF e] and X = space_ok_ext [OF ok e l]
  have p': "p \<notin> tpages (mem s') pt" using E(7) L(3,4) by auto
  have km: "kpage (kend s') p" using L(1) E(6) by simp
  obtain s'' where F: "kfree p s' = Ok () s''" "vm_ok s'' pt [p]" "unch {p} s' s''"
    "leaf (mem s'') pt = leaf (mem s') pt" "tpages (mem s'') pt = tpages (mem s') pt"
    by (rule kfree_vm [OF E(1) km p']) auto
  have im: "upage (mem s') pt ` K = upage (mem s) pt ` K"
    using X(2) space_okD(2) [OF ok] by (intro image_cong) auto
  have "space_ok s'' pt [p] K"
    using X(1) F(2,5) upage_leaf [OF F(4)] L(5) im unchD(2) [OF F(3)]
    unfolding space_ok_def by auto
  moreover have "unch (insert p (tpages (mem s) pt \<union> set ps)) s s''"
    by (rule unch_trans [OF unch_vm_ext [OF e] F(3)]) (use E(7) in auto)
  moreover have "tpages (mem s'') pt = tpages (mem s) pt \<union> set ps" using F(5) E(7) by simp
  ultimately show thesis
    using M F(1) l upage_leaf(1) [OF F(4)] by (intro full [of s' s'']) auto
qed

section \<open>uvmalloc\<close>

definition UPERM :: u64 where
  "UPERM = PTE_W OR PTE_X OR PTE_R OR PTE_U"

lemma UPERM_eq: "UPERM = 30" "PTE_V = 1" "PTE_U = 16"
  by (simp_all add: UPERM_def PTE_W_def PTE_X_def PTE_R_def PTE_U_def PTE_V_def)

lemma UPERM_perm: "\<forall>n\<ge>10. \<not> bit UPERM n" "UPERM OR PTE_V \<noteq> PTE_V"
proof -
  have "UPERM < push_bit 10 1" by (simp add: UPERM_eq)
  then show "\<forall>n\<ge>10. \<not> bit UPERM n" by (simp only: less_bits)
  show "UPERM OR PTE_V \<noteq> PTE_V" by (simp add: UPERM_eq)
qed

text \<open>
  Outcomes of growing a space: the pages \<open>R\<close> were added, zero-filled and with all user
  permissions; or memory ran out and the pages \<open>R\<close> added so far were given back.
\<close>

definition grown ::
  "'a kmem_scheme \<Rightarrow> u64 \<Rightarrow> u64 list \<Rightarrow> nat set \<Rightarrow> nat set \<Rightarrow> 'a kmem_scheme \<Rightarrow> u64 list \<Rightarrow> bool" where
  "grown s pt ps K R s' ps' \<longleftrightarrow>
     space_ok s' pt ps' (K \<union> R) \<and>
     tpages (mem s') pt \<union> set ps' \<union> upage (mem s') pt ` R = tpages (mem s) pt \<union> set ps \<and>
     unch (tpages (mem s) pt \<union> set ps) s s' \<and>
     (\<forall>j\<in>R. \<forall>x\<in>page (upage (mem s') pt j). mem s' x = 0) \<and>
     (\<forall>j<2 ^ 26. leafn (mem s') pt j =
        (if j \<in> R then PA2PTE (upage (mem s') pt j) OR UPERM OR PTE_V else leafn (mem s) pt j))"

definition shrunk_back ::
  "'a kmem_scheme \<Rightarrow> u64 \<Rightarrow> u64 list \<Rightarrow> nat set \<Rightarrow> nat set \<Rightarrow> 'a kmem_scheme \<Rightarrow> u64 list \<Rightarrow> bool" where
  "shrunk_back s pt ps K R s' ps' \<longleftrightarrow>
     space_ok s' pt ps' (K - R) \<and>
     tpages (mem s') pt \<union> set ps' = tpages (mem s) pt \<union> set ps \<union> upage (mem s) pt ` R \<and>
     unch (tpages (mem s) pt \<union> set ps \<union> upage (mem s) pt ` R) s s' \<and>
     (\<forall>j<2 ^ 26. leafn (mem s') pt j = (if j \<in> R then 0 else leafn (mem s) pt j))"

lemma grownD:
  assumes "grown s pt ps K R s' ps'"
  shows "space_ok s' pt ps' (K \<union> R)"
    "tpages (mem s') pt \<union> set ps' \<union> upage (mem s') pt ` R = tpages (mem s) pt \<union> set ps"
    "unch (tpages (mem s) pt \<union> set ps) s s'"
    "j \<in> R \<Longrightarrow> x \<in> page (upage (mem s') pt j) \<Longrightarrow> mem s' x = 0"
    "j < 2 ^ 26 \<Longrightarrow> j \<in> R \<Longrightarrow> leafn (mem s') pt j = PA2PTE (upage (mem s') pt j) OR UPERM OR PTE_V"
    "j < 2 ^ 26 \<Longrightarrow> j \<notin> R \<Longrightarrow> leafn (mem s') pt j = leafn (mem s) pt j"
    "j < 2 ^ 26 \<Longrightarrow> j \<notin> R \<Longrightarrow> upage (mem s') pt j = upage (mem s) pt j"
proof -
  note A = assms [unfolded grown_def]
  show "space_ok s' pt ps' (K \<union> R)" "unch (tpages (mem s) pt \<union> set ps) s s'"
    "tpages (mem s') pt \<union> set ps' \<union> upage (mem s') pt ` R = tpages (mem s) pt \<union> set ps"
    "j \<in> R \<Longrightarrow> x \<in> page (upage (mem s') pt j) \<Longrightarrow> mem s' x = 0" using A by blast+
  have l: "j < 2 ^ 26 \<Longrightarrow> leafn (mem s') pt j =
      (if j \<in> R then PA2PTE (upage (mem s') pt j) OR UPERM OR PTE_V else leafn (mem s) pt j)"
    using A by blast
  then show "j < 2 ^ 26 \<Longrightarrow> j \<in> R \<Longrightarrow> leafn (mem s') pt j = PA2PTE (upage (mem s') pt j) OR UPERM OR PTE_V"
    "j < 2 ^ 26 \<Longrightarrow> j \<notin> R \<Longrightarrow> leafn (mem s') pt j = leafn (mem s) pt j" by simp_all
  then show "j < 2 ^ 26 \<Longrightarrow> j \<notin> R \<Longrightarrow> upage (mem s') pt j = upage (mem s) pt j"
    by (simp add: upage_def)
qed

lemma shrunk_backD:
  assumes "shrunk_back s pt ps K R s' ps'"
  shows "space_ok s' pt ps' (K - R)"
    "tpages (mem s') pt \<union> set ps' = tpages (mem s) pt \<union> set ps \<union> upage (mem s) pt ` R"
    "unch (tpages (mem s) pt \<union> set ps \<union> upage (mem s) pt ` R) s s'"
    "j < 2 ^ 26 \<Longrightarrow> leafn (mem s') pt j = (if j \<in> R then 0 else leafn (mem s) pt j)"
  using assms unfolding shrunk_back_def by blast+

lemma grown_trans:
  assumes 1: "grown s pt ps K A s1 ps1" and 2: "grown s1 pt ps1 (K \<union> A) B s2 ps2"
    and AB: "A \<inter> B = {}" "A \<subseteq> {..<2 ^ 26}"
  shows "grown s pt ps K (A \<union> B) s2 ps2"
proof -
  note G = grownD [OF 1] and H = grownD [OF 2]
  have uA: "upage (mem s2) pt j = upage (mem s1) pt j" if "j \<in> A" for j
    by (rule H(7)) (use that AB in auto)
  then have imA: "upage (mem s2) pt ` A = upage (mem s1) pt ` A" by (intro image_cong) auto
  have z: "mem s2 x = 0" if j: "j \<in> A" and x: "x \<in> page (upage (mem s2) pt j)" for j x
  proof -
    have al: "aligned a" if "a \<in> tpages (mem s1) pt \<union> set ps1" for a
      using that vm_okD(5,1) [OF space_okD(1) [OF G(1)]] kmem_okD(7) by blast
    have "x \<notin> covered (tpages (mem s1) pt \<union> set ps1)"
      by (rule page_not_covered [OF space_okD(10) [OF G(1)] al])
        (use j x uA [OF j] space_okD(7,8) [OF G(1), of j] in auto)
    then have "mem s2 x = mem s1 x" by (rule unchD(3) [OF H(3)])
    with G(4) [OF j] x uA [OF j] show ?thesis by simp
  qed
  have p: "tpages (mem s2) pt \<union> set ps2 \<union> upage (mem s2) pt ` (A \<union> B) = tpages (mem s) pt \<union> set ps"
    unfolding image_Un imA using G(2) H(2) by blast
  have u: "unch (tpages (mem s) pt \<union> set ps) s s2"
    by (rule unch_trans [OF G(3) H(3)]) (use G(2) in blast)+
  have "leafn (mem s2) pt j = (if j \<in> A \<union> B then PA2PTE (upage (mem s2) pt j) OR UPERM OR PTE_V
      else leafn (mem s) pt j)" if j: "j < 2 ^ 26" for j
  proof (cases "j \<in> A")
    case True
    then show ?thesis using H(6) [OF j] G(5) [OF j True] uA AB(1) by auto
  next
    case False
    then show ?thesis using H(5,6) [OF j] G(6) [OF j False] by auto
  qed
  moreover have "space_ok s2 pt ps2 (K \<union> (A \<union> B))" using H(1) by (simp add: Un_assoc)
  moreover have "mem s2 x = 0" if "j \<in> A \<union> B" "x \<in> page (upage (mem s2) pt j)" for j x
    using that z H(4) by blast
  ultimately show ?thesis using p u by (simp add: grown_def)
qed

lemma grown_shrunk_back:
  assumes 1: "grown s pt ps K A s1 ps1" and 2: "shrunk_back s1 pt ps1 (K \<union> A) (R \<union> A) s2 ps2"
    and R: "R \<subseteq> K" "A \<inter> K = {}" and z: "\<And>j. j \<in> A \<Longrightarrow> leafn (mem s) pt j = 0" and K: "K \<subseteq> {..<2 ^ 26}"
  shows "shrunk_back s pt ps K R s2 ps2"
proof -
  note G = grownD [OF 1] and H = shrunk_backD [OF 2]
  have e: "K \<union> A - (R \<union> A) = K - R" using R by auto
  have uR: "upage (mem s1) pt ` R = upage (mem s) pt ` R"
    using R K by (intro image_cong G(7)) auto
  have p: "tpages (mem s1) pt \<union> set ps1 \<union> upage (mem s1) pt ` (R \<union> A) =
      tpages (mem s) pt \<union> set ps \<union> upage (mem s) pt ` R"
    unfolding image_Un uR using G(2) by blast
  have "unch (tpages (mem s) pt \<union> set ps \<union> upage (mem s) pt ` R) s s2"
    by (rule unch_trans [OF G(3) H(3) [unfolded p]]) auto
  moreover have "leafn (mem s2) pt j = (if j \<in> R then 0 else leafn (mem s) pt j)" if j: "j < 2 ^ 26" for j
    using H(4) [OF j] G(6) [OF j] z [of j] by (cases "j \<in> A") auto
  ultimately show ?thesis using H(1,2) p unfolding shrunk_back_def e by simp
qed

lemma shrunk_back_unmap:
  assumes "unmap_post s pt ps K R s' ps'"
  shows "shrunk_back s pt ps K R s' ps'"
proof -
  note U = assms [unfolded unmap_post_def]
  have "unch (tpages (mem s) pt \<union> set ps \<union> upage (mem s) pt ` R) s s'"
    by (rule unch_mono [of "tpages (mem s) pt \<union> upage (mem s) pt ` R"]) (use U in blast)+
  moreover have "tpages (mem s') pt \<union> set ps' = tpages (mem s) pt \<union> set ps \<union> upage (mem s) pt ` R"
    using U by blast
  ultimately show ?thesis using U unfolding shrunk_back_def by blast
qed

lemma npages_page_va: "k \<le> 2 ^ 26 \<Longrightarrow> npages (page_va k) = k"
  by (simp add: npages_def page_va_simps)

lemma page_va_less_size: "k \<le> 2 ^ 26 \<Longrightarrow> page_va k < sz \<longleftrightarrow> k < npages sz"
  by (simp add: word_less_nat_alt page_va_simps npages_def) linarith

lemma dealloc_back:
  assumes "space_ok s pt ps K" "{k0..<k} \<subseteq> K" "k0 \<le> k" "k \<le> 2 ^ 26"
  obtains r s' ps' where "uvmdealloc pt (page_va k) (page_va k0) s = Ok r s'"
    "shrunk_back s pt ps K {k0..<k} s' ps'"
proof -
  have "{npages (page_va k0)..<npages (page_va k)} = {k0..<k}" "unat (page_va k) \<le> 2 ^ 38"
    using assms(3,4) npages_page_va [of k0] npages_page_va [of k] page_va_simps(1) [of k] by simp_all
  with uvmdealloc_ok [OF assms(1), of "page_va k0" "page_va k"] assms(2) show thesis
    by (auto intro: that dest: shrunk_back_unmap)
qed

text \<open>One page is added, or allocation fails and the free list is as good as before.\<close>

lemma grow_one:
  assumes ok: "space_ok s pt ps K" and k: "k < 2 ^ 26" "k \<notin> K" "leafn (mem s) pt k = 0"
  obtains (empty) s' where "kalloc s = Ok 0 s'" "shrunk_back s pt ps K {} s' []"
  | (added) p s1 s' ps' where "kalloc s = Ok p s1" "p \<noteq> 0"
      "mappages pt (page_va k) PGSIZE p UPERM (s1\<lparr>mem := memset (mem s1) p 0 4096\<rparr>) = Ok 0 s'"
      "grown s pt ps K {k} s' ps'"
  | (refused) p s1 s2 s' where "kalloc s = Ok p s1" "p \<noteq> 0"
      "mappages pt (page_va k) PGSIZE p UPERM (s1\<lparr>mem := memset (mem s1) p 0 4096\<rparr>) = Ok (- 1) s2"
      "kfree p s2 = Ok () s'" "shrunk_back s pt ps K {} s' [p]"
proof (cases ps)
  case Nil
  have "kmem_ok s []" using ok Nil by (simp add: space_ok_def vm_ok_def)
  then have "kalloc s = Ok 0 (settle s)" by (rule kalloc_ok_Nil)
  moreover have "shrunk_back s pt ps K {} (settle s) []"
    using ok Nil by (simp add: shrunk_back_def space_ok_def vm_ok_def unch_def)
  ultimately show thesis by (rule empty)
next
  case (Cons p ps1)
  obtain s1 where s1: "kalloc s = Ok p s1" "p \<noteq> 0" "space_ok s1 pt ps1 K" "limbo s1 pt ps1 K p" "unch {p} s s1"
    "leaf (mem s1) pt = leaf (mem s) pt" "tpages (mem s1) pt = tpages (mem s) pt"
    by (rule kalloc_space [OF ok [unfolded Cons]]) (rule that)
  let ?m = "memset (mem s1) p 0 4096" and ?s = "s1\<lparr>mem := memset (mem s1) p 0 4096\<rparr>"
  note F = zero_limbo [OF s1(3,4)]
  have lf: "leafn ?m pt = leafn (mem s) pt" using upage_leaf(1) [OF F(4)] upage_leaf(1) [OF s1(6)] by simp
  have tp: "tpages ?m pt = tpages (mem s) pt" using F(5) s1(7) by simp
  have us: "unch {p} s ?s" by (rule unch_trans [OF s1(5) F(3)]) auto
  have inv: "\<not> pte_valid (leafn (mem ?s) pt k)" using lf k(3) by simp
  show thesis
  proof (cases rule: map_limbo [OF F(1,2) k(1,2) inv UPERM_perm])
    case (1 s' ps')
    have "grown s pt ps K {k} s' ps'"
      unfolding grown_def
    proof (intro conjI ballI allI impI)
      show "space_ok s' pt ps' (K \<union> {k})" using 1(2) by simp
      show "tpages (mem s') pt \<union> set ps' \<union> upage (mem s') pt ` {k} = tpages (mem s) pt \<union> set ps"
        using 1(3,7) tp Cons by auto
      show "unch (tpages (mem s) pt \<union> set ps) s s'"
        by (rule unch_trans [OF us 1(5)]) (use tp Cons in auto)
      show "mem s' x = 0" if "j \<in> {k}" "x \<in> page (upage (mem s') pt j)" for j x
        using that 1(3,4) by (simp add: memset_page_inside)
      show "leafn (mem s') pt j = (if j \<in> {k} then PA2PTE (upage (mem s') pt j) OR UPERM OR PTE_V
          else leafn (mem s) pt j)" if "j < 2 ^ 26" for j
        using 1(6) [OF that] 1(3) lf by simp
    qed
    with s1(1,2) 1(1) show thesis by (intro added)
  next
    case (2 s2 s')
    have "shrunk_back s pt ps K {} s' [p]"
      unfolding shrunk_back_def
    proof (intro conjI allI impI)
      show "space_ok s' pt [p] (K - {})" using 2(3) by simp
      show "tpages (mem s') pt \<union> set [p] = tpages (mem s) pt \<union> set ps \<union> upage (mem s) pt ` {}"
        using 2(6) tp Cons by auto
      show "unch (tpages (mem s) pt \<union> set ps \<union> upage (mem s) pt ` {}) s s'"
        by (rule unch_trans [OF us 2(4)]) (use tp Cons in auto)
      show "leafn (mem s') pt j = (if j \<in> {} then 0 else leafn (mem s) pt j)" if "j < 2 ^ 26" for j
        using 2(5) [OF that] lf by simp
    qed
    with s1(1,2) 2(1,2) show thesis by (intro refused)
  qed
qed

lemma shrunk_back_trans:
  assumes 1: "shrunk_back s pt ps K {} s1 ps1" and 2: "shrunk_back s1 pt ps1 K R s2 ps2"
    and R: "R \<subseteq> {..<2 ^ 26}"
  shows "shrunk_back s pt ps K R s2 ps2"
proof -
  note G = shrunk_backD [OF 1] and H = shrunk_backD [OF 2]
  have u: "upage (mem s1) pt ` R = upage (mem s) pt ` R"
    using R G(4) by (intro image_cong) (auto simp: upage_def)
  have p: "tpages (mem s1) pt \<union> set ps1 = tpages (mem s) pt \<union> set ps" using G(2) by simp
  have "unch (tpages (mem s) pt \<union> set ps \<union> upage (mem s) pt ` R) s s2"
    by (rule unch_trans [OF G(3) H(3) [unfolded p u]]) auto
  with H(1,2,4) G(4) p u show ?thesis by (simp add: shrunk_back_def)
qed

lemma uvmalloc_loop_ok:
  assumes "space_ok s pt ps K" "{k0..<k} \<subseteq> K" "k0 \<le> k" "n = npages newsz" "n \<le> 2 ^ 26"
    and "n - k < fuel" "k \<le> 2 ^ 26" "{k..<n} \<inter> K = {}" "\<And>j. j \<in> {k..<n} \<Longrightarrow> leafn (mem s) pt j = 0"
  shows "\<exists>r s' ps'. uvmalloc_loop fuel pt (page_va k) (page_va k0) newsz s = Ok r s' \<and>
     (r = newsz \<and> grown s pt ps K {k..<n} s' ps' \<or> r = 0 \<and> shrunk_back s pt ps K {k0..<k} s' ps')"
  using assms
proof (induction "n - k" arbitrary: k s ps K fuel)
  case 0
  then obtain f where "fuel = Suc f" by (cases fuel) auto
  moreover have "\<not> page_va k < newsz" using 0 page_va_less_size [of k newsz] by simp
  moreover have "grown s pt ps K {} s ps" using 0 by (simp add: grown_def)
  ultimately show ?case using 0 by auto
next
  case (Suc d)
  have kn: "k < n" "d = n - Suc k" using Suc.hyps(2) by auto
  obtain f where f: "fuel = Suc f" "n - Suc k < f" using Suc.prems(6) kn by (cases fuel) auto
  have lt: "page_va k < newsz" using kn Suc.prems(4,7) page_va_less_size [of k newsz] by simp
  have k: "k < 2 ^ 26" "k \<notin> K" "leafn (mem s) pt k = 0" using kn Suc.prems(5,8,9) by auto
  have Kb: "K \<subseteq> {..<2 ^ 26}" using space_okD(2) [OF Suc.prems(1)] by auto
  have Rb: "{k0..<k} \<subseteq> {..<2 ^ 26}" using k(1) by auto
  show ?case
  proof (rule grow_one [OF Suc.prems(1) k])
    fix s1
    assume a: "kalloc s = Ok 0 s1" "shrunk_back s pt ps K {} s1 []"
    then have "space_ok s1 pt [] K" using shrunk_backD(1) by fastforce
    then obtain r s' ps' where d: "uvmdealloc pt (page_va k) (page_va k0) s1 = Ok r s'"
      "shrunk_back s1 pt [] K {k0..<k} s' ps'" by (rule dealloc_back [OF _ Suc.prems(2,3,7)])
    from shrunk_back_trans [OF a(2) d(2) Rb] a(1) d(1) lt f show ?case by auto
  next
    fix p s1 s2 s3
    assume a: "kalloc s = Ok p s1" "p \<noteq> 0"
      "mappages pt (page_va k) PGSIZE p UPERM (s1\<lparr>mem := memset (mem s1) p 0 4096\<rparr>) = Ok (- 1) s2"
      "kfree p s2 = Ok () s3" "shrunk_back s pt ps K {} s3 [p]"
    then have "space_ok s3 pt [p] K" using shrunk_backD(1) by fastforce
    then obtain r s' ps' where d: "uvmdealloc pt (page_va k) (page_va k0) s3 = Ok r s'"
      "shrunk_back s3 pt [p] K {k0..<k} s' ps'" by (rule dealloc_back [OF _ Suc.prems(2,3,7)])
    from shrunk_back_trans [OF a(5) d(2) Rb] a(1-4) d(1) lt f show ?case
      by (auto simp: Let_def UPERM_def)
  next
    fix p s1 s2 ps2
    assume a: "kalloc s = Ok p s1" "p \<noteq> 0"
      "mappages pt (page_va k) PGSIZE p UPERM (s1\<lparr>mem := memset (mem s1) p 0 4096\<rparr>) = Ok 0 s2"
      "grown s pt ps K {k} s2 ps2"
    note G = grownD [OF a(4)]
    have z: "leafn (mem s2) pt j = 0" if "j \<in> {Suc k..<n}" for j
      using that G(6) [of j] Suc.prems(5,9) by auto
    obtain r s' ps' where IH: "uvmalloc_loop f pt (page_va (Suc k)) (page_va k0) newsz s2 = Ok r s'"
      "r = newsz \<and> grown s2 pt ps2 (K \<union> {k}) {Suc k..<n} s' ps' \<or>
       r = 0 \<and> shrunk_back s2 pt ps2 (K \<union> {k}) {k0..<Suc k} s' ps'"
    proof -
      have "{Suc k..<n} \<subseteq> {k..<n} - {k}" "{k0..<Suc k} \<subseteq> insert k {k0..<k}" by auto
      then have i: "{k0..<Suc k} \<subseteq> K \<union> {k}" "{Suc k..<n} \<inter> (K \<union> {k}) = {}"
        using Suc.prems(2,8) by blast+
      have l: "k0 \<le> Suc k" "Suc k \<le> 2 ^ 26" using Suc.prems(3) k(1) by simp_all
      from Suc.hyps(1) [OF kn(2) G(1) i(1) l(1) Suc.prems(4,5) f(2) l(2) i(2) z] that show thesis by blast
    qed
    have st: "uvmalloc_loop fuel pt (page_va k) (page_va k0) newsz s = Ok r s'"
      using a(1-3) IH(1) lt f(1) by (simp add: Let_def UPERM_def page_va_Suc)
    have iv: "{k..<n} = {k} \<union> {Suc k..<n}" "{k0..<Suc k} = {k0..<k} \<union> {k}" using kn Suc.prems(3) by auto
    have "grown s pt ps K {k..<n} s' ps'" if "grown s2 pt ps2 (K \<union> {k}) {Suc k..<n} s' ps'"
      unfolding iv(1) using k(1) by (intro grown_trans [OF a(4) that]) auto
    moreover have "shrunk_back s pt ps K {k0..<k} s' ps'"
      if "shrunk_back s2 pt ps2 (K \<union> {k}) {k0..<Suc k} s' ps'"
      using k Suc.prems(2) by (intro grown_shrunk_back [OF a(4) that [unfolded iv(2)] _ _ _ Kb]) auto
    ultimately show ?case using st IH(2) by blast
  qed
qed

text \<open>
  \<^verbatim>\<open>uvmalloc\<close> either grows the space by zeroed pages up to \<open>newsz\<close> or fails with the space and
  the set of free and table pages as they were.
\<close>

lemma uvmalloc_ok:
  assumes ok: "space_ok s pt ps K" and top: "unat newsz \<le> 2 ^ 38" and le: "oldsz \<le> newsz"
    and new: "{npages oldsz..<npages newsz} \<inter> K = {}"
      "\<And>j. j \<in> {npages oldsz..<npages newsz} \<Longrightarrow> leafn (mem s) pt j = 0"
  shows "\<exists>r s' ps'. uvmalloc pt oldsz newsz s = Ok r s' \<and>
     (r = newsz \<and> grown s pt ps K {npages oldsz..<npages newsz} s' ps' \<or>
      r = 0 \<and> shrunk_back s pt ps K {} s' ps')"
proof -
  have o: "unat oldsz \<le> 2 ^ 38" using le top by (simp add: word_le_nat_alt)
  note b = npages_bound [OF o] npages_bound [OF top]
  have "npages newsz \<le> unat newsz div 4096 + 1" by (simp add: npages_def)
  then have f: "npages newsz - npages oldsz < page_fuel newsz" by (simp add: page_fuel_def)
  have "uvmalloc pt oldsz newsz s =
      uvmalloc_loop (page_fuel newsz) pt (page_va (npages oldsz)) (page_va (npages oldsz)) newsz s"
    using le by (auto simp: uvmalloc_def PGROUNDUP_page_va [OF o] Let_def)
  then show ?thesis
    using uvmalloc_loop_ok [OF ok _ order_refl refl b(2) f b(1) new] by auto
qed

section \<open>A new page table\<close>

lemma empty_table:
  assumes km: "kmem_ok s ps" and p: "kpage (kend s) p" "p \<notin> set ps"
    and z: "\<And>x. x \<in> page p \<Longrightarrow> mem s x = 0"
  shows "space_ok s p ps {}" "tpages (mem s) p = {p}" "leafn (mem s) p j = 0"
proof -
  have e: "ent (mem s) p i = 0" if "i < 512" for i using ent_zero_page [OF that z] by simp
  have n: "node (mem s) p \<pi> = (if \<pi> = [] then Some p else None)" if "\<pi> \<in> paths" for \<pi>
    using that e by (cases \<pi>) (auto simp: node.simps(2) paths_def)
  show tp: "tpages (mem s) p = {p}" using n by (auto simp: tpages_def)
  have l: "leafn (mem s) p j = 0" for j unfolding leafn_def leaf_def using n [OF path2] by simp
  then show "leafn (mem s) p j = 0" .
  have "pt_ok (mem s) p"
    unfolding pt_ok_def using p(1) n e by (auto simp: kpage_def split: if_splits)
  then have "vm_ok s p ps" using km tp p by (simp add: vm_ok_def)
  then show "space_ok s p ps {}" using l by (simp add: space_ok_def user_leaf_def)
qed

lemma uvmcreate_ok:
  assumes "kmem_ok s (p # ps)"
  obtains s' where "uvmcreate s = Ok p s'" "space_ok s' p ps {}" "unch {p} s s'" "p \<noteq> 0"
    "tpages (mem s') p = {p}" "\<And>j. leafn (mem s') p j = 0"
proof -
  have p: "kpage (kend s) p" "p \<noteq> 0" "p \<notin> set ps" "aligned p"
    using assms by (auto simp: kmem_ok_def kpage_def)
  obtain s1 where s1: "kalloc s = Ok p s1" "kmem_ok s1 ps" "kend s1 = kend s"
    "\<And>x. x \<notin> page p \<Longrightarrow> mem s1 x = mem s x" "kframe s s1"
    using kalloc_ok_Cons [OF assms] kframe_kalloc by metis
  let ?s = "s1\<lparr>mem := memset (mem s1) p 0 4096\<rparr>"
  have "memset (mem s1) p 0 4096 x = mem s1 x" if "q \<in> set ps" "x \<in> page q" for q x
    using that p page_disjoint [of q p] kmem_okD(7) [OF s1(2), of q] by (intro memset_page_outside) auto
  then have km: "kmem_ok ?s ps" by (rule kmem_ok_mem [OF s1(2)])
  have z: "mem ?s x = 0" if "x \<in> page p" for x using that by (simp add: memset_page_inside)
  have k: "kpage (kend ?s) p" using p(1) s1(3) by simp
  note E = empty_table [OF km k p(3) z]
  have "uvmcreate s = Ok p ?s" using s1(1) p(2) by (simp add: uvmcreate_def)
  moreover have "unch {p} s ?s"
    using s1(4,5) by (simp add: unch_def covered_def kframe_upd memset_page_outside)
  ultimately show thesis using E p(2) by (intro that) auto
qed

section \<open>A small address space\<close>

text \<open>
  One user page at address 0, built by hand: root table, one table page per level and the
  user page, with an empty free list.
\<close>

definition demo_mem :: memory where
  "demo_mem =
     (let m1 = st64 (memset (\<lambda>_. 0) 0x80002000 0 4096) 0x80001000 (PA2PTE 0x80002000 OR PTE_V);
          m2 = st64 (memset m1 0x80003000 0 4096) 0x80002000 (PA2PTE 0x80003000 OR PTE_V)
      in st64 m2 0x80003000 (PA2PTE 0x80004000 OR UPERM OR PTE_V))"

definition demo_state :: kmem where
  "demo_state = (boot_kmem 0x80000000)\<lparr>mem := demo_mem\<rparr>"

lemma demo_px [simp]: "px l (page_va 0) = 0" "PX l (page_va 0) = 0"
proof -
  show x: "px l (page_va 0) = 0" by (simp add: px_pn page_va_simps)
  then show "PX l (page_va 0) = 0" by (simp add: px_def unat_eq_0)
qed

lemma demo_space: "space_ok demo_state 0x80001000 [] {0}" "upage demo_mem 0x80001000 0 = 0x80004000"
  "leafn demo_mem 0x80001000 0 = PA2PTE 0x80004000 OR UPERM OR PTE_V"
  "\<And>j. 0 < j \<Longrightarrow> j < 2 ^ 26 \<Longrightarrow> leafn demo_mem 0x80001000 j = 0"
  "tpages demo_mem 0x80001000 = {0x80001000, 0x80002000, 0x80003000}"
proof -
  let ?s = "boot_kmem 0x80000000" and ?A = "0x80001000 :: u64"
  let ?m1 = "st64 (memset (\<lambda>_. 0) 0x80002000 0 4096) ?A (PA2PTE 0x80002000 OR PTE_V)"
  let ?m2 = "st64 (memset ?m1 0x80003000 0 4096) 0x80002000 (PA2PTE 0x80003000 OR PTE_V)"
  have kp: "kpage 0x80000000 p" if "p \<in> {0x80001000, 0x80002000, 0x80003000, 0x80004000}" for p
    using that by (auto simp: kpage_def aligned_def PHYSTOP_def KERNBASE_def)
  have km: "kmem_ok ?s []" by (simp add: kmem_ok_def)
  have 0: "space_ok ?s ?A [] {}" "tpages (mem ?s) ?A = {?A}" "\<And>j. leafn (mem ?s) ?A j = 0"
    by (rule empty_table [OF km]; use kp in simp)+
  have h1: "hangs (mem ?s) ?A [] 0 ?A 0x80002000 ?m1"
    using vm_okD(2) [OF space_okD(1) [OF 0(1)]] 0(2) kp [of "0x80002000"]
    by (simp add: hangs_def paths_def ent_def ld64_zero pte_addr_def kpage_def)
  note T1 = hangs_ok [OF h1] and L1 = hangs_leaf [OF h1] and N1 = hangs_node [OF h1, of "[0]"]
  have n1: "node ?m1 ?A [0] = Some 0x80002000" using N1 by (simp add: paths_def)
  have e1: "ent ?m1 0x80002000 0 = 0" by (rule hangs_ent(2) [OF h1]) simp
  have h2: "hangs ?m1 ?A [0] 0 0x80002000 0x80003000 ?m2"
    using T1 0(2) n1 e1 kp [of "0x80003000"]
    by (simp add: hangs_def paths_def pte_addr_def kpage_def)
  note T2 = hangs_ok [OF h2] and L2 = hangs_leaf [OF h2] and N2 = hangs_node [OF h2, of "[0, 0]"]
  have n2: "node ?m2 ?A [0, 0] = Some 0x80003000" using N2 by (simp add: paths_def)
  have l2: "leafn ?m2 ?A j = 0" for j using 0(3) L1 L2 by (simp add: leafn_def)
  have tp: "tpages ?m2 ?A = {0x80001000, 0x80002000, 0x80003000}" using T1 T2 0(2) by auto
  let ?s2 = "?s\<lparr>mem := ?m2\<rparr>" and ?v = "PA2PTE 0x80004000 OR UPERM OR PTE_V"
  have ok2: "space_ok ?s2 ?A [] {}"
    using kmem_ok_mem [OF km, of ?m2] T2(2) tp kp l2
    by (auto simp: space_ok_def vm_ok_def user_leaf_def)
  let ?s3 = "?s2\<lparr>mem := st64 (mem ?s2) (pte_addr 0x80003000 (PX 0 (page_va 0))) ?v\<rparr>"
  note S = leafn_store [OF space_okD(1) [OF ok2], of 0 "0x80003000" ?s3 ?v]
  have tp3: "tpages (mem ?s3) ?A = tpages (mem ?s2) ?A" using S(2) n2 by simp
  have e: "vm_ext ?A ?s2 [] ?s3 []" and l: "\<And>j. j < 2 ^ 26 \<Longrightarrow> leafn (mem ?s3) ?A j = (if j = 0 then ?v else leafn (mem ?s2) ?A j)"
    using S n2 by simp_all
  have V: "PTE2PA ?v = 0x80004000" "PTE_FLAGS ?v = UPERM OR PTE_V" "pte_valid ?v"
    using leaf_value [OF _ UPERM_perm(1), of "0x80004000"] kp [of "0x80004000"] by (simp_all add: kpage_def)
  have d: "demo_state = ?s3" "mem ?s3 = demo_mem"
    by (simp_all add: demo_state_def demo_mem_def pte_addr_def)
  have f: "space_ok ?s3 ?A [] (insert 0 {})" "upage (mem ?s3) ?A 0 = PTE2PA ?v"
    using space_ok_add [OF ok2 e _ _ l] V UPERM_perm(2) kp tp by simp_all
  show "space_ok demo_state ?A [] {0}" unfolding d(1) by (rule f(1))
  show "upage demo_mem ?A 0 = 0x80004000" using f(2) unfolding d(2) V(1) .
  show "leafn demo_mem ?A 0 = ?v" using l [of 0] unfolding d by simp
  show "tpages demo_mem ?A = {0x80001000, 0x80002000, 0x80003000}" using tp3 tp unfolding d(2) by simp
  show "leafn demo_mem ?A j = 0" if "0 < j" "j < 2 ^ 26" for j
    using l [OF that(2)] that(1) l2 [of j] unfolding d by simp
qed

text \<open>A second, empty address space in the same memory.\<close>

lemma demo_zero_page:
  assumes "x \<in> page 0x80006000"
  shows "demo_mem x = 0"
proof -
  have p: "x \<notin> page q" if "q \<in> {0x80001000, 0x80002000, 0x80003000}" for q
  proof -
    have "aligned q" "q \<noteq> 0x80006000" "aligned 0x80006000" using that by (auto simp: aligned_def)
    then show ?thesis using page_disjoint [of q "0x80006000"] assms by auto
  qed
  then have "x \<notin> span q 8" if "q \<in> {0x80001000, 0x80002000, 0x80003000}" for q
    using that span8_page by blast
  then show ?thesis using p by (simp add: demo_mem_def st64_outside memset_page_outside)
qed

lemma demo_other:
  "space_ok demo_state 0x80006000 [] {}" "tpages (mem demo_state) 0x80006000 = {0x80006000}"
  "leafn (mem demo_state) 0x80006000 j = 0"
proof -
  have km: "kmem_ok demo_state []"
    using space_okD(1) [OF demo_space(1)] by (simp add: vm_ok_def)
  have k: "kpage (kend demo_state) 0x80006000"
    by (simp add: demo_state_def kpage_def aligned_def PHYSTOP_def KERNBASE_def)
  have z: "mem demo_state x = 0" if "x \<in> page 0x80006000" for x
    using demo_zero_page [OF that] by (simp add: demo_state_def)
  show "space_ok demo_state 0x80006000 [] {}" "tpages (mem demo_state) 0x80006000 = {0x80006000}"
    "leafn (mem demo_state) 0x80006000 j = 0"
    by (rule empty_table [OF km k]; use z in simp)+
qed

end
