(* ===== verification/Vm_Properties.thy ===== *)
theory Vm_Properties
  imports Vm_Space
begin

text \<open>
  The main statements about \<^verbatim>\<open>kernel/vm.c\<close>: what \<^verbatim>\<open>mappages\<close> does to the translation, that data
  copied to and from user space arrives unchanged, that address spaces with disjoint pages do
  not interfere, and that growing and shrinking a process neither loses nor duplicates pages.
\<close>

text \<open>
  Claim C15. \<^verbatim>\<open>mappages\<close> on page-aligned, unmapped addresses below \<^verbatim>\<open>MAXVA\<close> does not panic.  On
  success it installs exactly the requested translations with the requested permissions and
  changes no other translation; it fails only when the allocator is exhausted, and then too
  every address outside the range translates as before.
\<close>

theorem mappages_translation:
  assumes "vm_ok s pt ps" and "aligned va" and "unat sz = 4096 * Suc k"
    and "unat va + unat sz \<le> 2 ^ 38"
    and "\<And>vb. vb < MAXVA \<Longrightarrow> pn va \<le> pn vb \<Longrightarrow> pn vb \<le> pn va + k \<Longrightarrow> \<not> pte_valid (leaf (mem s) pt vb)"
  shows "\<exists>r s' ps'. mappages pt va sz pa perm s = Ok r s' \<and> vm_ok s' pt ps' \<and>
     (r = 0 \<or> r = - 1 \<and> ps' = []) \<and>
     (r = 0 \<longrightarrow> (\<forall>vb<MAXVA. pn va \<le> pn vb \<longrightarrow> pn vb \<le> pn va + k \<longrightarrow>
        leaf (mem s') pt vb = PA2PTE (pa + of_nat (4096 * (pn vb - pn va))) OR perm OR PTE_V)) \<and>
     (\<forall>vb<MAXVA. \<not> (pn va \<le> pn vb \<and> pn vb \<le> pn va + k) \<longrightarrow> leaf (mem s') pt vb = leaf (mem s) pt vb)"
proof -
  obtain r s' ps' j where M: "mappages pt va sz pa perm s = Ok r s'" "vm_ext pt s ps s' ps'"
    "r = 0 \<and> j = Suc k \<or> r = - 1 \<and> j \<le> k \<and> ps' = []"
    "\<forall>vb<MAXVA. leaf (mem s') pt vb =
       (if pn va \<le> pn vb \<and> pn vb < pn va + j then mapped va pa perm vb else leaf (mem s) pt vb)"
    using mappages_ok [OF assms, of pa perm] by blast
  then show ?thesis
    using vm_extD(1) [OF M(2)]
    by (intro exI [of _ r] exI [of _ s'] exI [of _ ps']) (auto simp: mapped_def)
qed

lemma demo_vm: "vm_ok demo_state 0x80001000 []"
  using space_okD(1) [OF demo_space(1)] .

theorem mappages_translation_witness:
  "\<exists>r s' ps'. mappages 0x80001000 0x40000000 PGSIZE 0x80005000 UPERM demo_state = Ok r s' \<and>
     vm_ok s' 0x80001000 ps' \<and> (r = 0 \<or> r = - 1 \<and> ps' = []) \<and>
     leaf (mem s') 0x80001000 0 = PA2PTE 0x80004000 OR UPERM OR PTE_V"
proof -
  let ?va = "0x40000000 :: u64"
  have pnv: "pn ?va = 262144" "pn 0 = 0" by (simp_all add: pn_def)
  have inv: "\<not> pte_valid (leaf (mem demo_state) 0x80001000 vb)"
    if "vb < MAXVA" "pn ?va \<le> pn vb" "pn vb \<le> pn ?va + 0" for vb
  proof -
    have "pn vb = 262144" using that(2,3) pnv by simp
    then have "leaf (mem demo_state) 0x80001000 vb = leafn (mem demo_state) 0x80001000 262144"
      using leaf_leafn [OF that(1)] by simp
    moreover have "leafn demo_mem 0x80001000 262144 = 0" by (rule demo_space(4)) simp_all
    ultimately show ?thesis by (simp add: demo_state_def)
  qed
  have a: "aligned ?va" "unat PGSIZE = 4096 * Suc 0" "unat ?va + unat PGSIZE \<le> 2 ^ 38"
    by (simp_all add: aligned_def)
  have l0: "leaf demo_mem 0x80001000 0 = PA2PTE 0x80004000 OR UPERM OR PTE_V"
    using demo_space(3) leafn_page_va [of demo_mem "0x80001000" 0] by (simp add: page_va_def)
  have "(0::u64) < MAXVA" by (simp add: MAXVA_def)
  with mappages_translation [OF demo_vm a inv, of "0x80005000" UPERM] l0 pnv show ?thesis
    by (auto simp: demo_state_def)
qed

text \<open>
  Claim C16. Round trip through user memory: \<^verbatim>\<open>copyout\<close> succeeds exactly when every destination
  byte is mapped and user-accessible, and then \<^verbatim>\<open>copyin\<close> from the same address returns the bytes
  that were copied out; whether or not it succeeds, \<^verbatim>\<open>copyout\<close> changes no user byte outside the
  destination range, no translation, and nothing outside the pages of this address space.
\<close>

theorem copyout_copyin_roundtrip:
  assumes "space_ok s pt ps K" and "length src < 2 ^ 64"
  shows "\<exists>r m'. copyout pt va src s = Ok r (s\<lparr>mem := m'\<rparr>) \<and> space_ok (s\<lparr>mem := m'\<rparr>) pt ps K \<and>
     (r = 0 \<longleftrightarrow> (\<forall>i<length src. user_byte (mem s) pt (va + of_nat i) \<noteq> None)) \<and>
     (r = 0 \<longrightarrow> copyin pt va (length src) (s\<lparr>mem := m'\<rparr>) = Ok (0, src) (s\<lparr>mem := m'\<rparr>)) \<and>
     (\<forall>vb. length src \<le> unat (vb - va) \<longrightarrow> user_byte m' pt vb = user_byte (mem s) pt vb) \<and>
     leaf m' pt = leaf (mem s) pt \<and> (\<forall>x. x \<notin> covered (upage (mem s) pt ` K) \<longrightarrow> m' x = mem s x)"
proof -
  obtain r j m' where C: "copyout pt va src s = Ok r (s\<lparr>mem := m'\<rparr>)" "copyout_post s pt ps K va src r j m'"
    using copyout_stored [OF assms] by blast
  then have P: "space_ok (s\<lparr>mem := m'\<rparr>) pt ps K" "stored (mem s) m' pt va (take j src)"
    "leaf m' pt = leaf (mem s) pt" "\<And>x. x \<notin> covered (upage (mem s) pt ` K) \<Longrightarrow> m' x = mem s x"
    and r: "r = 0 \<and> j = length src \<or>
      r = - 1 \<and> j < length src \<and> user_byte (mem s) pt (va + of_nat j) = None"
    by (auto simp: copyout_post_def)
  have in_range: "user_byte m' pt (va + of_nat i) = Some (src ! i)" if "r = 0" "i < length src" for i
  proof -
    have "unat (va + of_nat i - va) = i" by (rule unat_minus_base) (use that assms(2) in simp)
    with P(2) r that show ?thesis by (simp add: stored_def)
  qed
  have mapped: "user_byte (mem s) pt vb = None \<longleftrightarrow> user_byte m' pt vb = None" for vb
    using upa_leaf [OF P(3)] by (simp add: user_byte_def)
  obtain r' bs where I: "copyin pt va (length src) (s\<lparr>mem := m'\<rparr>) = Ok (r', bs) (s\<lparr>mem := m'\<rparr>)"
    "copied m' pt va (length src) r' bs"
    using copyin_copied [OF space_okD(1) [OF P(1)], of va "length src"] by auto
  have "r' = 0 \<and> bs = src" if "r = 0"
  proof -
    have "r' = 0 \<and> length bs = length src" using I(2) in_range [OF that] by (auto simp: copied_def)
    then show ?thesis
      using I(2) in_range [OF that] by (auto simp: copied_def intro!: nth_equalityI)
  qed
  moreover have "user_byte m' pt vb = user_byte (mem s) pt vb" if "length src \<le> unat (vb - va)" for vb
    using P(2) that by (auto simp: stored_def)
  moreover have "r = 0 \<longleftrightarrow> (\<forall>i<length src. user_byte (mem s) pt (va + of_nat i) \<noteq> None)"
    using r in_range mapped by auto
  ultimately show ?thesis using C(1) P I(1) by blast
qed

lemma demo_user_byte: "user_byte demo_mem 0x80001000 (of_nat i) \<noteq> None" if "i < 4096" for i
proof -
  have u: "unat (of_nat i :: u64) = i" using that by (simp add: unat_of_nat take_bit_nat_eq_self)
  then have p: "pn (of_nat i) = 0" using that by (simp add: pn_def)
  then have va: "of_nat i < MAXVA" by (simp add: less_MAXVA_pn)
  let ?v = "PA2PTE 0x80004000 OR UPERM OR PTE_V"
  have l: "leaf demo_mem 0x80001000 (of_nat i) = ?v"
    using leaf_leafn [OF va] p demo_space(3) by simp
  have "PTE2PA ?v = 0x80004000" "pte_valid ?v"
    using leaf_value [OF _ UPERM_perm(1), of "0x80004000"] by (simp_all add: aligned_def)
  moreover have "?v AND PTE_U \<noteq> 0" by (simp add: PA2PTE_def UPERM_eq)
  ultimately show ?thesis using va l by (simp add: user_byte_def upa_def user_leaf_def Let_def)
qed

theorem copyout_copyin_roundtrip_witness:
  "\<exists>m'. copyout 0x80001000 100 [7, 8, 9] demo_state = Ok 0 (demo_state\<lparr>mem := m'\<rparr>) \<and>
     copyin 0x80001000 100 3 (demo_state\<lparr>mem := m'\<rparr>) = Ok (0, [7, 8, 9]) (demo_state\<lparr>mem := m'\<rparr>)"
proof -
  have "user_byte (mem demo_state) 0x80001000 (100 + of_nat i) \<noteq> None" if "i < 3" for i
  proof -
    have "user_byte demo_mem 0x80001000 (of_nat (100 + i)) \<noteq> None"
      by (rule demo_user_byte) (use that in simp)
    then show ?thesis by (simp add: demo_state_def)
  qed
  then have all: "\<forall>i<length [7, 8, 9::byte]. user_byte (mem demo_state) 0x80001000 (100 + of_nat i) \<noteq> None"
    by simp
  have len: "length [7, 8, 9::byte] < 2 ^ 64" "length [7, 8, 9::byte] = 3" by simp_all
  obtain r m' where r: "copyout 0x80001000 100 [7, 8, 9] demo_state = Ok r (demo_state\<lparr>mem := m'\<rparr>)"
    "r = 0 \<longleftrightarrow> (\<forall>i<length [7, 8, 9::byte]. user_byte (mem demo_state) 0x80001000 (100 + of_nat i) \<noteq> None)"
    "r = 0 \<longrightarrow> copyin 0x80001000 100 (length [7, 8, 9::byte]) (demo_state\<lparr>mem := m'\<rparr>) =
       Ok (0, [7, 8, 9]) (demo_state\<lparr>mem := m'\<rparr>)"
    using copyout_copyin_roundtrip [OF demo_space(1) len(1), of 100] by (elim exE conjE) (rule that)
  from r(2) all have "r = 0" by blast
  with r(1,3) show ?thesis unfolding len(2) by blast
qed

text \<open>
  Claim C17. Isolation of processes: a \<^verbatim>\<open>copyout\<close> into one address space cannot change a byte
  or a translation of another address space whose table and user pages are not among the
  first one's user pages.
\<close>

theorem copyout_isolated:
  assumes ok: "space_ok s pt ps K" and len: "length src < 2 ^ 64" and ok2: "space_ok s pt2 ps K2"
    and dis: "upage (mem s) pt ` K \<inter> (tpages (mem s) pt2 \<union> upage (mem s) pt2 ` K2) = {}"
  shows "\<exists>r m'. copyout pt va src s = Ok r (s\<lparr>mem := m'\<rparr>) \<and> space_ok (s\<lparr>mem := m'\<rparr>) pt2 ps K2 \<and>
     leaf m' pt2 = leaf (mem s) pt2 \<and> user_byte m' pt2 = user_byte (mem s) pt2"
proof -
  obtain r j m' where C: "copyout pt va src s = Ok r (s\<lparr>mem := m'\<rparr>)" "copyout_post s pt ps K va src r j m'"
    using copyout_stored [OF ok len] by blast
  then have P: "space_ok (s\<lparr>mem := m'\<rparr>) pt ps K" "\<And>x. x \<notin> covered (upage (mem s) pt ` K) \<Longrightarrow> m' x = mem s x"
    by (auto simp: copyout_post_def)
  have off: "m' x = mem s x" if "aligned a" "a \<notin> upage (mem s) pt ` K" "x \<in> page a" for a x
    by (rule P(2), rule page_not_covered [OF that(1) _ that(2,3)]) (use space_okD(10) [OF ok] in auto)
  have t: "mem (s\<lparr>mem := m'\<rparr>) x = mem s x" if "a \<in> tpages (mem s) pt2" "x \<in> page a" for a x
    using off [of a x] that dis vm_okD(5) [OF space_okD(1) [OF ok2]] by auto
  have d: "set ps \<inter> (tpages (mem s) pt2 \<union> upage (mem s) pt2 ` K2) = {}"
    using space_okD(8) [OF ok2] vm_okD(4) [OF space_okD(1) [OF ok2]] by auto
  have km: "kmem_ok (s\<lparr>mem := m'\<rparr>) ps" using P(1) by (simp add: space_ok_def vm_ok_def)
  have ke: "kend (s\<lparr>mem := m'\<rparr>) = kend s" by simp
  note F = space_ok_frame [OF ok2 km ke t d]
  have l: "leaf m' pt2 = leaf (mem s) pt2" using F(2) by simp
  have "user_byte m' pt2 vb = user_byte (mem s) pt2 vb" for vb
  proof (cases "upa (mem s) pt2 vb")
    case (Some b)
    note O = upa_owned [OF ok2 Some]
    have "m' b = mem s b"
      by (rule off [OF space_okD(10) [OF ok2] _ O(4)]) (use dis O(2) in blast)
    then show ?thesis using Some upa_leaf [OF l] by (simp add: user_byte_def)
  qed (use upa_leaf [OF l] in \<open>simp add: user_byte_def\<close>)
  then show ?thesis using C(1) F(1) l by (auto simp: fun_eq_iff)
qed

theorem copyout_isolated_witness:
  "\<exists>r m'. copyout 0x80001000 100 [7, 8, 9] demo_state = Ok r (demo_state\<lparr>mem := m'\<rparr>) \<and>
     user_byte m' 0x80006000 = user_byte demo_mem 0x80006000"
proof -
  note E = demo_other
  have "upage (mem demo_state) 0x80001000 ` {0} \<inter>
      (tpages (mem demo_state) 0x80006000 \<union> upage (mem demo_state) 0x80006000 ` {}) = {}"
    using E(2) demo_space(2) by (simp add: demo_state_def)
  from copyout_isolated [OF demo_space(1) _ E(1) this, of "[7, 8, 9]" 100] show ?thesis
    by (auto simp: demo_state_def)
qed

text \<open>
  Claim C18. \<^verbatim>\<open>copyinstr\<close> always returns and leaves the kernel state unchanged.  It returns 0 exactly
  with the bytes of the user string up to and including its terminator, when the string
  ends within \<^verbatim>\<open>max\<close> accessible bytes; otherwise it returns -1, after \<^verbatim>\<open>max\<close> bytes without a
  terminator or at the first inaccessible byte.
\<close>

theorem copyinstr_string:
  assumes "vm_ok s pt ps"
  shows "\<exists>r bs. copyinstr pt va mx s = Ok (r, bs) s \<and>
     (\<forall>i<length bs. user_byte (mem s) pt (va + of_nat i) = Some (bs ! i)) \<and> length bs \<le> mx \<and>
     (r = 0 \<and> bs \<noteq> [] \<and> last bs = 0 \<and> 0 \<notin> set (butlast bs) \<or>
      r = - 1 \<and> 0 \<notin> set bs \<and>
        (length bs = mx \<or> user_byte (mem s) pt (va + of_nat (length bs)) = None))"
  using copyinstr_copied [OF assms, of va mx] unfolding copied_str_def by blast

theorem copyinstr_string_witness:
  "\<exists>r bs. copyinstr 0x80001000 0 16 demo_state = Ok (r, bs) demo_state \<and> length bs \<le> 16 \<and> (r = 0 \<or> r = - 1)"
  using copyinstr_string [OF demo_vm, of 0 16] by blast

end
