(* ===== verification/Proc.thy ===== *)
theory Proc
  imports Vm
begin

text \<open>
  Processes and scheduling: \<^verbatim>\<open>kernel/proc.c\<close> and \<^verbatim>\<open>kernel/proc.h\<close>, but for the routines that call
  the file system (\<^verbatim>\<open>userinit\<close>, \<^verbatim>\<open>fork\<close>, \<^verbatim>\<open>exit\<close>, \<^verbatim>\<open>forkret\<close>), which follow it.

  A process is named by its index in the table \<^verbatim>\<open>proc\<close>.  A trapframe is a page of byte memory,
  accessed at the offsets of \<^verbatim>\<open>struct trapframe\<close>.  A context switch is the outcome \<open>Swtch\<close>: the
  saved \<^verbatim>\<open>struct context\<close> of a thread that has run is its continuation, and only the context a
  new process starts from is data.  Following a null process pointer faults in the kernel, which
  ends in the panic of \<^verbatim>\<open>kerneltrap\<close>.
\<close>

section \<open>Process table\<close>

datatype procstate = UNUSED | USED | SLEEPING | RUNNABLE | RUNNING | ZOMBIE

text \<open>The addresses that processes sleep on.\<close>

datatype chan =
    ChProc nat | ChTicks | ChSleep slid | ChBuf nat | ChLog | ChDiskFree
  | ChPipeRead u64 | ChPipeWrite u64 | ChCons | ChUart

record kcontext =
  ctx_ra :: u64
  ctx_sp :: u64
  ctx_s :: "u64 list" \<comment> \<open>\<open>s0\<close> to \<open>s11\<close>\<close>

record proc =
  state :: procstate
  chan :: "chan option"
  killed :: i32
  xstate :: i32
  pid :: i32
  parent :: "nat option"
  kstack :: u64
  sz :: u64
  pagetable :: u64
  trapframe :: u64
  pcontext :: kcontext
  ofile :: "nat option list" \<comment> \<open>indices into the file table\<close>
  cwd :: "nat option" \<comment> \<open>index into the inode table\<close>
  pname :: "byte list"
  alarm_interval :: i32
  alarm_handler :: u64
  ticks_since_alarm :: i32
  alarm_tf :: u64
  in_alarm_handler :: i32

record procs = vm +
  ptab :: "nat \<Rightarrow> proc"
  initproc :: "nat option"
  nextpid :: i32
  ticks :: u32
  forkret_pc :: u64 \<comment> \<open>address of \<^verbatim>\<open>forkret\<close>\<close>

definition NOFILE :: nat where "NOFILE = 16"

text \<open>
  A routine that sleeps in a loop until a condition holds is modelled up to this many wake-ups
  that find the condition still false.
\<close>

definition WAKEUPS :: nat where "WAKEUPS = 1000"

text \<open>Offsets in \<^verbatim>\<open>struct trapframe\<close>.\<close>

definition tf_kernel_satp :: u64 where "tf_kernel_satp = 0"
definition tf_kernel_sp :: u64 where "tf_kernel_sp = 8"
definition tf_kernel_trap :: u64 where "tf_kernel_trap = 16"
definition tf_epc :: u64 where "tf_epc = 24"
definition tf_kernel_hartid :: u64 where "tf_kernel_hartid = 32"
definition tf_sp :: u64 where "tf_sp = 48"
definition tf_a0 :: u64 where "tf_a0 = 112"
definition tf_a1 :: u64 where "tf_a1 = 120"
definition tf_a2 :: u64 where "tf_a2 = 128"
definition tf_a3 :: u64 where "tf_a3 = 136"
definition tf_a4 :: u64 where "tf_a4 = 144"
definition tf_a5 :: u64 where "tf_a5 = 152"
definition tf_a7 :: u64 where "tf_a7 = 168"

definition tf_get :: "u64 \<Rightarrow> nat \<Rightarrow> 'a procs_scheme \<Rightarrow> u64" where
  "tf_get off p s = ld64 (mem s) (trapframe (ptab s p) + off)"

definition tf_set :: "u64 \<Rightarrow> nat \<Rightarrow> u64 \<Rightarrow> 'a procs_scheme \<Rightarrow> 'a procs_scheme" where
  "tf_set off p v s = s\<lparr>mem := st64 (mem s) (trapframe (ptab s p) + off) v\<rparr>"

definition upd_proc :: "nat \<Rightarrow> (proc \<Rightarrow> proc) \<Rightarrow> 'a procs_scheme \<Rightarrow> 'a procs_scheme" where
  "upd_proc p f s = s\<lparr>ptab := (ptab s)(p := f (ptab s p))\<rparr>"

text \<open>The calls \<^verbatim>\<open>p = myproc()\<close> whose result is followed.\<close>

definition with_proc ::
  "(nat \<Rightarrow> 'a procs_scheme \<Rightarrow> ('b, 'a procs_scheme) out) \<Rightarrow> 'a procs_scheme \<Rightarrow> ('b, 'a procs_scheme) out" where
  "with_proc f s =
     and_then (myproc s) (\<lambda>p s. case p of None \<Rightarrow> Panic ''kerneltrap'' | Some p \<Rightarrow> f p s)"

section \<open>Creating and freeing processes\<close>

definition procinit :: "'a procs_scheme \<Rightarrow> (unit, 'a procs_scheme) out" where
  "procinit s =
     (let s = initlock LkPid ''nextpid'' s; s = initlock LkWait ''wait_lock'' s
      in for_each (\<lambda>p s.
           let s = initlock (LkProc p) ''proc'' s
           in Ok () (upd_proc p (kstack_update (\<lambda>_. KSTACK (of_nat p))) s))
         [0..<NPROC] s)"

definition allocpid :: "'a procs_scheme \<Rightarrow> (i32, 'a procs_scheme) out" where
  "allocpid s =
     and_then (acquire LkPid s) (\<lambda>_ s.
       let pid = nextpid s; s = s\<lparr>nextpid := nextpid s + 1\<rparr>
       in and_then (release LkPid s) (\<lambda>_ s. Ok pid s))"

definition proc_pagetable :: "nat \<Rightarrow> 'a procs_scheme \<Rightarrow> (u64, 'a procs_scheme) out" where
  "proc_pagetable p s =
     and_then (uvmcreate s) (\<lambda>pagetable s.
       if pagetable = 0 then Ok 0 s
       else and_then (mappages pagetable TRAMPOLINE PGSIZE (trampoline s) (PTE_R OR PTE_X) s) (\<lambda>r s.
         if r < 0 then and_then (uvmfree pagetable 0 s) (\<lambda>_ s. Ok 0 s)
         else and_then (mappages pagetable TRAPFRAME PGSIZE (trapframe (ptab s p)) (PTE_R OR PTE_W) s) (\<lambda>r s.
           if r < 0 then
             and_then (uvmunmap pagetable TRAMPOLINE 1 False s) (\<lambda>_ s.
             and_then (uvmfree pagetable 0 s) (\<lambda>_ s. Ok 0 s))
           else Ok pagetable s)))"

definition proc_freepagetable :: "u64 \<Rightarrow> u64 \<Rightarrow> 'a procs_scheme \<Rightarrow> (unit, 'a procs_scheme) out" where
  "proc_freepagetable pt usz s =
     and_then (uvmunmap pt TRAMPOLINE 1 False s) (\<lambda>_ s.
     and_then (uvmunmap pt TRAPFRAME 1 False s) (\<lambda>_ s.
     uvmfree pt usz s))"

text \<open>The assignments of \<^verbatim>\<open>freeproc\<close> after the page table is freed; \<^verbatim>\<open>alarm_tf\<close> is not among them.\<close>

definition clear_proc :: "proc \<Rightarrow> proc" where
  "clear_proc q =
     q\<lparr>pagetable := 0, sz := 0, pid := 0, parent := None, pname := (pname q)[0 := 0], chan := None,
       killed := 0, xstate := 0, state := UNUSED, alarm_interval := 0, alarm_handler := 0,
       ticks_since_alarm := 0, in_alarm_handler := 0\<rparr>"

definition freeproc :: "nat \<Rightarrow> 'a procs_scheme \<Rightarrow> (unit, 'a procs_scheme) out" where
  "freeproc p s =
     and_then (if trapframe (ptab s p) \<noteq> 0 then kfree (trapframe (ptab s p)) s else Ok () s) (\<lambda>_ s.
     and_then (if alarm_tf (ptab s p) \<noteq> 0 then kfree (alarm_tf (ptab s p)) s else Ok () s) (\<lambda>_ s.
     let s = upd_proc p (trapframe_update (\<lambda>_. 0)) s
     in and_then (if pagetable (ptab s p) \<noteq> 0
                  then proc_freepagetable (pagetable (ptab s p)) (sz (ptab s p)) s else Ok () s) (\<lambda>_ s.
     Ok () (upd_proc p clear_proc s))))"

text \<open>The search for an unused slot; it returns with that slot's lock held.\<close>

fun find_unused :: "nat list \<Rightarrow> 'a procs_scheme \<Rightarrow> (nat option, 'a procs_scheme) out" where
  "find_unused [] s = Ok None s"
| "find_unused (p # ps) s =
     and_then (acquire (LkProc p) s) (\<lambda>_ s.
       if state (ptab s p) = UNUSED then Ok (Some p) s
       else and_then (release (LkProc p) s) (\<lambda>_ s. find_unused ps s))"

definition allocproc :: "'a procs_scheme \<Rightarrow> (nat option, 'a procs_scheme) out" where
  "allocproc s =
     and_then (find_unused [0..<NPROC] s) (\<lambda>found s. case found of None \<Rightarrow> Ok None s | Some p \<Rightarrow>
       let bad = (\<lambda>s. and_then (freeproc p s) (\<lambda>_ s. and_then (release (LkProc p) s) (\<lambda>_ s. Ok None s)))
       in and_then (allocpid s) (\<lambda>n s.
          let s = upd_proc p (pid_update (\<lambda>_. n)) s; s = upd_proc p (state_update (\<lambda>_. USED)) s
          in and_then (kalloc s) (\<lambda>tf s.
          let s = upd_proc p (trapframe_update (\<lambda>_. tf)) s
          in if tf = 0 then bad s
          else and_then (kalloc s) (\<lambda>atf s.
          let s = upd_proc p (alarm_tf_update (\<lambda>_. atf)) s
          in if atf = 0 then bad s
          else and_then (proc_pagetable p s) (\<lambda>pt s.
          let s = upd_proc p (pagetable_update (\<lambda>_. pt)) s
          in if pt = 0 then bad s
          else let s = upd_proc p (\<lambda>q. q\<lparr>pcontext := \<lparr>ctx_ra = forkret_pc s,
                  ctx_sp = kstack q + PGSIZE, ctx_s = replicate 12 0\<rparr>\<rparr>) s;
                s = upd_proc p (\<lambda>q. q\<lparr>alarm_interval := 0, alarm_handler := 0,
                  ticks_since_alarm := 0, in_alarm_handler := 0\<rparr>) s
          in Ok (Some p) s)))))"

text \<open>\<^verbatim>\<open>growproc\<close> computes the sizes in the 32-bit type \<^verbatim>\<open>uint\<close>.\<close>

definition growproc :: "i32 \<Rightarrow> 'a procs_scheme \<Rightarrow> (int, 'a procs_scheme) out" where
  "growproc n s =
     with_proc (\<lambda>p s.
       let sz0 = ucast (sz (ptab s p)) :: u32; pt = pagetable (ptab s p);
           fin = (\<lambda>sz1 s. Ok 0 (upd_proc p (sz_update (\<lambda>_. ucast (sz1 :: u32))) s))
       in if 0 < sint n then
            and_then (uvmalloc pt (ucast sz0) (ucast (sz0 + n)) s) (\<lambda>r s.
              if (ucast r :: u32) = 0 then Ok (- 1) s else fin (ucast r) s)
          else if sint n < 0 then
            and_then (uvmdealloc pt (ucast sz0) (ucast (sz0 + n)) s) (\<lambda>r s. fin (ucast r) s)
          else fin sz0 s) s"

section \<open>Switching, sleeping and waking\<close>

definition sched :: "'a procs_scheme \<Rightarrow> (unit, 'a procs_scheme) out" where
  "sched s =
     with_proc (\<lambda>p s.
       if \<not> holding (LkProc p) s then Panic ''sched p->lock''
       else if noff (mycpu s) \<noteq> 1 then Panic ''sched locks''
       else if state (ptab s p) = RUNNING then Panic ''sched running''
       else if intr_get s then Panic ''sched interruptible''
       else let ie = intena (mycpu s)
            in Swtch s (\<lambda>s. Ok () (set_mycpu ((mycpu s)\<lparr>intena := ie\<rparr>) s))) s"

definition yield :: "'a procs_scheme \<Rightarrow> (unit, 'a procs_scheme) out" where
  "yield s =
     with_proc (\<lambda>p s.
       and_then (acquire (LkProc p) s) (\<lambda>_ s.
       let s = upd_proc p (state_update (\<lambda>_. RUNNABLE)) s
       in and_then (sched s) (\<lambda>_ s. release (LkProc p) s))) s"

text \<open>
  The statements of \<^verbatim>\<open>sleep\<close> in order.  On one hart they are run one after the other; the theory
  \<open>Sleep_MP\<close> runs them interleaved with the statements of other harts.
\<close>

definition sleep_code :: "nat \<Rightarrow> chan \<Rightarrow> lockid \<Rightarrow> ('a procs_scheme \<Rightarrow> (unit, 'a procs_scheme) out) list" where
  "sleep_code p ch lk =
     [acquire (LkProc p),
      release lk,
      \<lambda>s. Ok () (upd_proc p (chan_update (\<lambda>_. Some ch)) s),
      \<lambda>s. Ok () (upd_proc p (state_update (\<lambda>_. SLEEPING)) s),
      sched,
      \<lambda>s. Ok () (upd_proc p (chan_update (\<lambda>_. None)) s),
      release (LkProc p),
      acquire lk]"

definition sleep :: "chan \<Rightarrow> lockid \<Rightarrow> 'a procs_scheme \<Rightarrow> (unit, 'a procs_scheme) out" where
  "sleep ch lk s = with_proc (\<lambda>p s. run_code (sleep_code p ch lk) s) s"

text \<open>The body of the loop of \<^verbatim>\<open>wakeup\<close>; the channel is \<open>None\<close> for a null pointer.\<close>

definition wake_slot :: "chan option \<Rightarrow> nat \<Rightarrow> 'a procs_scheme \<Rightarrow> (unit, 'a procs_scheme) out" where
  "wake_slot ch p s =
     and_then (myproc s) (\<lambda>me s.
       if me = Some p then Ok () s
       else and_then (acquire (LkProc p) s) (\<lambda>_ s.
         let s = (if state (ptab s p) = SLEEPING \<and> chan (ptab s p) = ch
                  then upd_proc p (state_update (\<lambda>_. RUNNABLE)) s else s)
         in release (LkProc p) s))"

definition wakeup :: "chan option \<Rightarrow> 'a procs_scheme \<Rightarrow> (unit, 'a procs_scheme) out" where
  "wakeup ch s = for_each (wake_slot ch) [0..<NPROC] s"

definition reparent :: "nat \<Rightarrow> 'a procs_scheme \<Rightarrow> (unit, 'a procs_scheme) out" where
  "reparent p s =
     for_each (\<lambda>pp s.
       if parent (ptab s pp) = Some p then
         let s = upd_proc pp (parent_update (\<lambda>_. initproc s)) s
         in wakeup (map_option ChProc (initproc s)) s
       else Ok () s)
       [0..<NPROC] s"

fun kill_scan :: "i32 \<Rightarrow> nat list \<Rightarrow> 'a procs_scheme \<Rightarrow> (int, 'a procs_scheme) out" where
  "kill_scan n [] s = Ok (- 1) s"
| "kill_scan n (p # ps) s =
     and_then (acquire (LkProc p) s) (\<lambda>_ s.
       if pid (ptab s p) = n then
         let s = upd_proc p (killed_update (\<lambda>_. 1)) s;
             s = (if state (ptab s p) = SLEEPING then upd_proc p (state_update (\<lambda>_. RUNNABLE)) s else s)
         in and_then (release (LkProc p) s) (\<lambda>_ s. Ok 0 s)
       else and_then (release (LkProc p) s) (\<lambda>_ s. kill_scan n ps s))"

definition kill :: "i32 \<Rightarrow> 'a procs_scheme \<Rightarrow> (int, 'a procs_scheme) out" where
  "kill n s = kill_scan n [0..<NPROC] s"

text \<open>
  One scan of \<^verbatim>\<open>wait\<close> through the table: \<open>Inr r\<close> when the call returns \<open>r\<close>, \<open>Inl havekids\<close> when the
  scan ends without finding an exited child.
\<close>

fun wait_scan ::
  "nat \<Rightarrow> u64 \<Rightarrow> bool \<Rightarrow> nat list \<Rightarrow> 'a procs_scheme \<Rightarrow> (bool + int, 'a procs_scheme) out" where
  "wait_scan p addr havekids [] s = Ok (Inl havekids) s"
| "wait_scan p addr havekids (np # nps) s =
     (if parent (ptab s np) = Some p then
        and_then (acquire (LkProc np) s) (\<lambda>_ s.
          if state (ptab s np) = ZOMBIE then
            let n = sint (pid (ptab s np));
                unlock = (\<lambda>r s. and_then (release (LkProc np) s) (\<lambda>_ s.
                  and_then (release LkWait s) (\<lambda>_ s. Ok (Inr r) s)))
            in and_then (if addr \<noteq> 0
                 then copyout (pagetable (ptab s p)) addr (bytes_of_word 4 (xstate (ptab s np))) s
                 else Ok 0 s) (\<lambda>c s.
               if c < 0 then unlock (- 1) s
               else and_then (freeproc np s) (\<lambda>_ s. unlock n s))
          else and_then (release (LkProc np) s) (\<lambda>_ s. wait_scan p addr True nps s))
      else wait_scan p addr havekids nps s)"

text \<open>The first argument bounds the number of times the caller is woken up.\<close>

fun wait_loop :: "nat \<Rightarrow> nat \<Rightarrow> u64 \<Rightarrow> 'a procs_scheme \<Rightarrow> (int, 'a procs_scheme) out" where
  "wait_loop 0 p addr s = Spin"
| "wait_loop (Suc n) p addr s =
     and_then (wait_scan p addr False [0..<NPROC] s) (\<lambda>r s. case r of
       Inr v \<Rightarrow> Ok v s
     | Inl havekids \<Rightarrow>
         if \<not> havekids \<or> killed (ptab s p) \<noteq> 0
         then and_then (release LkWait s) (\<lambda>_ s. Ok (- 1) s)
         else and_then (sleep (ChProc p) LkWait s) (\<lambda>_ s. wait_loop n p addr s))"

definition wait :: "u64 \<Rightarrow> 'a procs_scheme \<Rightarrow> (int, 'a procs_scheme) out" where
  "wait addr s =
     with_proc (\<lambda>p s. and_then (acquire LkWait s) (\<lambda>_ s. wait_loop WAKEUPS p addr s)) s"

section \<open>The scheduler\<close>

definition set_cproc :: "nat option \<Rightarrow> 'a machine_scheme \<Rightarrow> 'a machine_scheme" where
  "set_cproc p s = set_mycpu ((mycpu s)\<lparr>cproc := p\<rparr>) s"

text \<open>One table entry of the scheduler's loop, and the loop for a number of rounds.\<close>

definition sched_slot :: "nat \<Rightarrow> 'a procs_scheme \<Rightarrow> (unit, 'a procs_scheme) out" where
  "sched_slot p s =
     and_then (acquire (LkProc p) s) (\<lambda>_ s.
     and_then
       (if state (ptab s p) = RUNNABLE then
          let s = upd_proc p (state_update (\<lambda>_. RUNNING)) s; s = set_cproc (Some p) s
          in Swtch s (\<lambda>s. Ok () (set_cproc None s))
        else Ok () s)
       (\<lambda>_ s. release (LkProc p) s))"

fun scheduler_rounds :: "nat \<Rightarrow> 'a procs_scheme \<Rightarrow> (unit, 'a procs_scheme) out" where
  "scheduler_rounds 0 s = Spin"
| "scheduler_rounds (Suc n) s =
     (let s = intr_on s
      in and_then (for_each sched_slot [0..<NPROC] s) (\<lambda>_ s. scheduler_rounds n s))"

definition scheduler :: "nat \<Rightarrow> 'a procs_scheme \<Rightarrow> (unit, 'a procs_scheme) out" where
  "scheduler rounds s = (let s = set_cproc None s in scheduler_rounds rounds s)"

section \<open>Copying to and from user or kernel addresses\<close>

text \<open>
  The pair \<^verbatim>\<open>(user_dst, dst)\<close>: a user address, a kernel address in page-allocated memory, or a
  kernel object outside it (a local variable or static data), whose bytes are passed by value.
\<close>

datatype kaddr = UserAddr u64 | KernAddr u64 | KernObj "byte list"

fun kaddr_add :: "kaddr \<Rightarrow> nat \<Rightarrow> kaddr" where
  "kaddr_add (UserAddr a) n = UserAddr (a + of_nat n)"
| "kaddr_add (KernAddr a) n = KernAddr (a + of_nat n)"
| "kaddr_add (KernObj bs) n = KernObj (drop n bs)"

text \<open>The second component of the result is what a kernel object receives.\<close>

fun either_copyout ::
  "kaddr \<Rightarrow> byte list \<Rightarrow> 'a procs_scheme \<Rightarrow> (int \<times> byte list, 'a procs_scheme) out" where
  "either_copyout (UserAddr dst) src s =
     with_proc (\<lambda>p s. and_then (copyout (pagetable (ptab s p)) dst src s) (\<lambda>r s. Ok (r, []) s)) s"
| "either_copyout (KernAddr dst) src s =
     and_then (myproc s) (\<lambda>_ s. Ok (0, []) (s\<lparr>mem := wr (mem s) dst src\<rparr>))"
| "either_copyout (KernObj _) src s = and_then (myproc s) (\<lambda>_ s. Ok (0, src) s)"

fun either_copyin :: "kaddr \<Rightarrow> nat \<Rightarrow> 'a procs_scheme \<Rightarrow> (int \<times> byte list, 'a procs_scheme) out" where
  "either_copyin (UserAddr src) len s =
     with_proc (\<lambda>p s. copyin (pagetable (ptab s p)) src len s) s"
| "either_copyin (KernAddr src) len s = and_then (myproc s) (\<lambda>_ s. Ok (0, rd (mem s) src len) s)"
| "either_copyin (KernObj bs) len s = and_then (myproc s) (\<lambda>_ s. Ok (0, take len bs) s)"

end
