(* ===== verification/Console.thy ===== *)
theory Console
  imports Proc
begin

text \<open>
  The serial line and the console: \<^verbatim>\<open>kernel/uart.c\<close>, \<^verbatim>\<open>kernel/printf.c\<close>, \<^verbatim>\<open>kernel/console.c\<close> and
  \<^verbatim>\<open>procdump\<close> of \<^verbatim>\<open>kernel/proc.c\<close>.

  Devices are not part of the kernel: the field \<open>device\<close> answers a read of a device register
  from the history of all register accesses, and nothing is assumed about it unless a theorem
  says so.  The field \<open>mmio\<close> is that history, the latest access first.
\<close>

section \<open>Device registers\<close>

datatype mmio_event = MRead u64 u64 | MWrite u64 u64

datatype devsw_entry = ConsoleDev

record io = procs +
  device :: "mmio_event list \<Rightarrow> u64 \<Rightarrow> u64"
  mmio :: "mmio_event list"
  panicked :: bool
  pr_locking :: bool
  r_fp :: u64 \<comment> \<open>the frame pointer register\<close>
  uart_tx_buf :: "nat \<Rightarrow> byte"
  uart_tx_w :: u64
  uart_tx_r :: u64
  cons_buf :: "nat \<Rightarrow> byte"
  cons_r :: u32
  cons_w :: u32
  cons_e :: u32
  devsw :: "nat \<Rightarrow> devsw_entry option"

definition mmio_read :: "u64 \<Rightarrow> 'a io_scheme \<Rightarrow> u64 \<times> 'a io_scheme" where
  "mmio_read a s = (let v = device s (mmio s) a in (v, s\<lparr>mmio := MRead a v # mmio s\<rparr>))"

definition mmio_write :: "u64 \<Rightarrow> u64 \<Rightarrow> 'a io_scheme \<Rightarrow> 'a io_scheme" where
  "mmio_write a v s = s\<lparr>mmio := MWrite a v # mmio s\<rparr>"

section \<open>UART\<close>

definition RHR :: u64 where "RHR = 0"
definition THR :: u64 where "THR = 0"
definition IER :: u64 where "IER = 1"
definition FCR :: u64 where "FCR = 2"
definition LCR :: u64 where "LCR = 3"
definition LSR :: u64 where "LSR = 5"
definition LSR_TX_IDLE :: byte where "LSR_TX_IDLE = 32"
definition UART_TX_BUF_SIZE :: nat where "UART_TX_BUF_SIZE = 32"

definition ReadReg :: "u64 \<Rightarrow> 'a io_scheme \<Rightarrow> byte \<times> 'a io_scheme" where
  "ReadReg reg s = (case mmio_read (UART0 + reg) s of (v, s) \<Rightarrow> (ucast v, s))"

definition WriteReg :: "u64 \<Rightarrow> byte \<Rightarrow> 'a io_scheme \<Rightarrow> 'a io_scheme" where
  "WriteReg reg v s = mmio_write (UART0 + reg) (ucast v) s"

definition uartinit :: "'a io_scheme \<Rightarrow> 'a io_scheme" where
  "uartinit s =
     (let s = WriteReg IER 0 s;
          s = WriteReg LCR (push_bit 7 1) s;
          s = WriteReg 0 3 s;
          s = WriteReg 1 0 s;
          s = WriteReg LCR 3 s;
          s = WriteReg FCR (1 OR push_bit 1 3) s;
          s = WriteReg IER (push_bit 1 1 OR 1) s
      in initlock LkUart ''uart'' s)"

text \<open>
  \<^verbatim>\<open>uartstart\<close> sends at most the bytes in the ring, each iteration removing one; the first
  argument counts the iterations, and the ring holds at most \<^const>\<open>UART_TX_BUF_SIZE\<close> bytes.
\<close>

fun uartstart_loop :: "nat \<Rightarrow> 'a io_scheme \<Rightarrow> (unit, 'a io_scheme) out" where
  "uartstart_loop 0 s = Spin"
| "uartstart_loop (Suc n) s =
     (if uart_tx_w s = uart_tx_r s then Ok () s
      else case ReadReg LSR s of (lsr, s) \<Rightarrow>
        if lsr AND LSR_TX_IDLE = 0 then Ok () s
        else let c = uart_tx_buf s (unat (uart_tx_r s) mod UART_TX_BUF_SIZE);
                 s = s\<lparr>uart_tx_r := uart_tx_r s + 1\<rparr>
             in and_then (wakeup (Some ChUart) s) (\<lambda>_ s. uartstart_loop n (WriteReg THR c s)))"

definition uartstart :: "'a io_scheme \<Rightarrow> (unit, 'a io_scheme) out" where
  "uartstart s = uartstart_loop (Suc UART_TX_BUF_SIZE) s"

fun uartputc_loop :: "nat \<Rightarrow> byte \<Rightarrow> 'a io_scheme \<Rightarrow> (unit, 'a io_scheme) out" where
  "uartputc_loop 0 c s = Spin"
| "uartputc_loop (Suc n) c s =
     (if uart_tx_w s = uart_tx_r s + of_nat UART_TX_BUF_SIZE
      then and_then (sleep ChUart LkUart s) (\<lambda>_ s. uartputc_loop n c s)
      else let s = s\<lparr>uart_tx_buf := (uart_tx_buf s)(unat (uart_tx_w s) mod UART_TX_BUF_SIZE := c)\<rparr>;
               s = s\<lparr>uart_tx_w := uart_tx_w s + 1\<rparr>
           in and_then (uartstart s) (\<lambda>_ s. release LkUart s))"

definition uartputc :: "byte \<Rightarrow> 'a io_scheme \<Rightarrow> (unit, 'a io_scheme) out" where
  "uartputc c s =
     and_then (acquire LkUart s) (\<lambda>_ s. if panicked s then Spin else uartputc_loop WAKEUPS c s)"

text \<open>Polling the line status register, up to a number of polls.\<close>

definition POLLS :: nat where "POLLS = 1000"

fun uart_poll :: "nat \<Rightarrow> 'a io_scheme \<Rightarrow> (unit, 'a io_scheme) out" where
  "uart_poll 0 s = Spin"
| "uart_poll (Suc n) s =
     (case ReadReg LSR s of (lsr, s) \<Rightarrow> if lsr AND LSR_TX_IDLE = 0 then uart_poll n s else Ok () s)"

definition uartputc_sync :: "byte \<Rightarrow> 'a io_scheme \<Rightarrow> (unit, 'a io_scheme) out" where
  "uartputc_sync c s =
     (let s = push_off s
      in if panicked s then Spin
         else and_then (uart_poll POLLS s) (\<lambda>_ s. pop_off (WriteReg THR c s)))"

definition uartgetc :: "'a io_scheme \<Rightarrow> byte option \<times> 'a io_scheme" where
  "uartgetc s =
     (case ReadReg LSR s of (lsr, s) \<Rightarrow>
        if lsr AND 1 \<noteq> 0 then (case ReadReg RHR s of (c, s) \<Rightarrow> (Some c, s)) else (None, s))"

section \<open>Formatted output\<close>

text \<open>A character code passed to \<^verbatim>\<open>consputc\<close>, or the special code \<^verbatim>\<open>BACKSPACE\<close>.\<close>

datatype conschar = Byte byte | BACKSPACE

fun consputc :: "conschar \<Rightarrow> 'a io_scheme \<Rightarrow> (unit, 'a io_scheme) out" where
  "consputc BACKSPACE s =
     and_then (uartputc_sync 8 s) (\<lambda>_ s.
     and_then (uartputc_sync 32 s) (\<lambda>_ s. uartputc_sync 8 s))"
| "consputc (Byte c) s = uartputc_sync c s"

definition bytes :: "string \<Rightarrow> byte list" where
  "bytes cs = map of_char cs"

definition digits :: "byte list" where
  "digits = bytes ''0123456789abcdef''"

text \<open>The digits of \<open>x\<close>, least significant first, as the first loop of \<^verbatim>\<open>printint\<close> stores them.\<close>

function digit_list :: "nat \<Rightarrow> nat \<Rightarrow> byte list" where
  "digit_list base x =
     digits ! (x mod base) # (if x div base = 0 \<or> base < 2 then [] else digit_list base (x div base))"
  by pat_completeness auto
termination
  by (relation "measure snd") (auto intro!: div_less_dividend gr0I)

declare digit_list.simps [simp del]

definition printint_buf :: "i32 \<Rightarrow> nat \<Rightarrow> bool \<Rightarrow> byte list" where
  "printint_buf xx base sign =
     (let neg = sign \<and> sint xx < 0; x = (if neg then - xx else xx)
      in rev (digit_list base (unat x) @ (if neg then [45] else [])))"

definition put_bytes :: "byte list \<Rightarrow> 'a io_scheme \<Rightarrow> (unit, 'a io_scheme) out" where
  "put_bytes bs s = for_each (\<lambda>c s. consputc (Byte c) s) bs s"

definition printint :: "i32 \<Rightarrow> nat \<Rightarrow> bool \<Rightarrow> 'a io_scheme \<Rightarrow> (unit, 'a io_scheme) out" where
  "printint xx base sign s = put_bytes (printint_buf xx base sign) s"

definition ptr_digits :: "u64 \<Rightarrow> byte list" where
  "ptr_digits x = map (\<lambda>i. digits ! unat (drop_bit 60 (push_bit (4 * i) x))) [0..<16]"

definition printptr :: "u64 \<Rightarrow> 'a io_scheme \<Rightarrow> (unit, 'a io_scheme) out" where
  "printptr x s = put_bytes (bytes ''0x'' @ ptr_digits x) s"

datatype printf_arg = PInt i32 | PPtr u64 | PStr "byte list option"

text \<open>
  The bytes \<^verbatim>\<open>printf\<close> sends for a format and its arguments, \<open>None\<close> when a conversion has no
  argument of its type (which C leaves undefined).
\<close>

fun format :: "byte list \<Rightarrow> printf_arg list \<Rightarrow> byte list option" where
  "format [] args = Some []"
| "format (c # cs) args =
     (if c = 0 then Some []
      else if c \<noteq> 37 then map_option ((#) c) (format cs args)
      else case cs of [] \<Rightarrow> Some [] | k # cs \<Rightarrow>
        if k = 0 then Some []
        else if k = 100 then (case args of PInt x # args \<Rightarrow>
               map_option (append (printint_buf x 10 True)) (format cs args) | _ \<Rightarrow> None)
        else if k = 120 then (case args of PInt x # args \<Rightarrow>
               map_option (append (printint_buf x 16 True)) (format cs args) | _ \<Rightarrow> None)
        else if k = 112 then (case args of PPtr x # args \<Rightarrow>
               map_option (append (bytes ''0x'' @ ptr_digits x)) (format cs args) | _ \<Rightarrow> None)
        else if k = 115 then (case args of PStr x # args \<Rightarrow>
               map_option (append (takeWhile (\<lambda>b. b \<noteq> 0) (case x of None \<Rightarrow> bytes ''(null)'' | Some b \<Rightarrow> b)))
                 (format cs args) | _ \<Rightarrow> None)
        else if k = 37 then map_option ((#) 37) (format cs args)
        else map_option (append [37, k]) (format cs args))"

definition printf :: "string \<Rightarrow> printf_arg list \<Rightarrow> 'a io_scheme \<Rightarrow> (unit, 'a io_scheme) out" where
  "printf fmt args s =
     (let locking = pr_locking s
      in and_then (if locking then acquire LkPr s else Ok () s) (\<lambda>_ s.
         and_then (case format (bytes fmt) args of None \<Rightarrow> Spin | Some bs \<Rightarrow> put_bytes bs s) (\<lambda>_ s.
         if locking then release LkPr s else Ok () s)))"

text \<open>What \<^verbatim>\<open>panic\<close> does before it loops for ever.\<close>

definition panic_output :: "string \<Rightarrow> 'a io_scheme \<Rightarrow> (unit, 'a io_scheme) out" where
  "panic_output m s =
     (let s = s\<lparr>pr_locking := False\<rparr>
      in and_then (printf ''panic: '' [] s) (\<lambda>_ s.
         and_then (printf m [] s) (\<lambda>_ s.
         and_then (printf [CHR 0x0A] [] s) (\<lambda>_ s. Ok () (s\<lparr>panicked := True\<rparr>)))))"

definition printfinit :: "'a io_scheme \<Rightarrow> 'a io_scheme" where
  "printfinit s = (let s = initlock LkPr ''pr'' s in s\<lparr>pr_locking := True\<rparr>)"

text \<open>A load from a kernel virtual address, through the kernel page table.\<close>

definition kvload :: "u64 \<Rightarrow> 'a io_scheme \<Rightarrow> (u64, 'a io_scheme) out" where
  "kvload va s =
     and_then (walk (kernel_pagetable s) va False s) (\<lambda>pte s.
       if pte = 0 \<or> ld64 (mem s) pte AND PTE_V = 0 then Panic ''kerneltrap''
       else Ok (ld64 (mem s) (PTE2PA (ld64 (mem s) pte) + va mod PGSIZE)) s)"

text \<open>The frames of a stack page are at least 16 bytes apart, so 256 iterations reach its top.\<close>

fun backtrace_loop :: "nat \<Rightarrow> u64 \<Rightarrow> u64 \<Rightarrow> 'a io_scheme \<Rightarrow> (unit, 'a io_scheme) out" where
  "backtrace_loop 0 fp stop s = Spin"
| "backtrace_loop (Suc n) fp stop s =
     (if fp \<noteq> stop then
        and_then (kvload (fp - 8) s) (\<lambda>return_address s.
        and_then (kvload (fp - 16) s) (\<lambda>fp s.
        and_then (printf ''%p\<newline>'' [PPtr return_address] s) (\<lambda>_ s. backtrace_loop n fp stop s)))
      else Ok () s)"

definition backtrace :: "'a io_scheme \<Rightarrow> (unit, 'a io_scheme) out" where
  "backtrace s =
     and_then (printf ''backtrace:\<newline>'' [] s) (\<lambda>_ s.
       let fp = r_fp s in backtrace_loop 257 fp (PGROUNDUP fp) s)"

definition state_name :: "procstate \<Rightarrow> string" where
  "state_name st =
     (case st of UNUSED \<Rightarrow> ''unused'' | SLEEPING \<Rightarrow> ''sleep '' | RUNNABLE \<Rightarrow> ''runble''
      | RUNNING \<Rightarrow> ''run   '' | ZOMBIE \<Rightarrow> ''zombie'' | USED \<Rightarrow> ''???'')"

definition procdump :: "'a io_scheme \<Rightarrow> (unit, 'a io_scheme) out" where
  "procdump s =
     and_then (printf ''\<newline>'' [] s) (\<lambda>_ s.
       for_each (\<lambda>p s.
         if state (ptab s p) = UNUSED then Ok () s
         else and_then (printf ''%d %s %s'' [PInt (pid (ptab s p)),
                  PStr (Some (bytes (state_name (state (ptab s p))))), PStr (Some (pname (ptab s p)))] s)
                (\<lambda>_ s. printf ''\<newline>'' [] s))
         [0..<NPROC] s)"

section \<open>Console\<close>

definition INPUT_BUF :: nat where "INPUT_BUF = 128"

fun consolewrite_loop :: "kaddr \<Rightarrow> nat \<Rightarrow> nat \<Rightarrow> 'a io_scheme \<Rightarrow> (nat, 'a io_scheme) out" where
  "consolewrite_loop src i 0 s = Ok i s"
| "consolewrite_loop src i (Suc n) s =
     and_then (either_copyin (kaddr_add src i) 1 s) (\<lambda>(r, bs) s.
       if r = - 1 then Ok i s
       else and_then (uartputc (hd bs) s) (\<lambda>_ s. consolewrite_loop src (Suc i) n s))"

definition consolewrite :: "kaddr \<Rightarrow> i32 \<Rightarrow> 'a io_scheme \<Rightarrow> (int, 'a io_scheme) out" where
  "consolewrite src n s =
     and_then (consolewrite_loop src 0 (nat (sint n)) s) (\<lambda>i s. Ok (int i) s)"

text \<open>
  Waiting for input: \<open>True\<close> when there is some, \<open>False\<close> when the caller has been killed (the lock
  is then released).
\<close>

fun cons_wait :: "nat \<Rightarrow> 'a io_scheme \<Rightarrow> (bool, 'a io_scheme) out" where
  "cons_wait 0 s = Spin"
| "cons_wait (Suc k) s =
     (if cons_r s = cons_w s then
        with_proc (\<lambda>p s.
          if killed (ptab s p) \<noteq> 0 then and_then (release LkCons s) (\<lambda>_ s. Ok False s)
          else and_then (sleep ChCons LkCons s) (\<lambda>_ s. cons_wait k s)) s
      else Ok True s)"

text \<open>The loop of \<^verbatim>\<open>consoleread\<close>: \<open>n\<close> bytes are still wanted; \<open>None\<close> when the caller was killed.\<close>

fun consoleread_loop :: "nat \<Rightarrow> kaddr \<Rightarrow> nat \<Rightarrow> 'a io_scheme \<Rightarrow> (nat option, 'a io_scheme) out" where
  "consoleread_loop target dst 0 s = Ok (Some 0) s"
| "consoleread_loop target dst (Suc n) s =
     and_then (cons_wait WAKEUPS s) (\<lambda>ready s.
       if \<not> ready then Ok None s
       else let c = cons_buf s (unat (cons_r s) mod INPUT_BUF); s = s\<lparr>cons_r := cons_r s + 1\<rparr>
       in if c = 4 then
            Ok (Some (Suc n)) (if Suc n < target then s\<lparr>cons_r := cons_r s - 1\<rparr> else s)
          else and_then (either_copyout dst [c] s) (\<lambda>(r, _) s.
            if r = - 1 then Ok (Some (Suc n)) s
            else if c = 10 then Ok (Some n) s
            else consoleread_loop target (kaddr_add dst 1) n s))"

definition consoleread :: "kaddr \<Rightarrow> i32 \<Rightarrow> 'a io_scheme \<Rightarrow> (int, 'a io_scheme) out" where
  "consoleread dst n s =
     (let target = nat (sint n)
      in and_then (acquire LkCons s) (\<lambda>_ s.
         and_then (consoleread_loop target dst target s) (\<lambda>r s. case r of
           None \<Rightarrow> Ok (- 1) s
         | Some k \<Rightarrow> and_then (release LkCons s) (\<lambda>_ s. Ok (int (target - k)) s))))"

text \<open>Erasing the current line; the ring holds at most \<^const>\<open>INPUT_BUF\<close> characters.\<close>

fun kill_line :: "nat \<Rightarrow> 'a io_scheme \<Rightarrow> (unit, 'a io_scheme) out" where
  "kill_line 0 s = Spin"
| "kill_line (Suc n) s =
     (if cons_e s \<noteq> cons_w s \<and> cons_buf s (unat (cons_e s - 1) mod INPUT_BUF) \<noteq> 10 then
        let s = s\<lparr>cons_e := cons_e s - 1\<rparr>
        in and_then (consputc BACKSPACE s) (\<lambda>_ s. kill_line n s)
      else Ok () s)"

definition cons_accept :: "byte \<Rightarrow> 'a io_scheme \<Rightarrow> (unit, 'a io_scheme) out" where
  "cons_accept c s =
     (if c \<noteq> 0 \<and> unat (cons_e s - cons_r s) < INPUT_BUF then
        let c = (if c = 13 then 10 else c)
        in and_then (consputc (Byte c) s) (\<lambda>_ s.
           let s = s\<lparr>cons_buf := (cons_buf s)(unat (cons_e s) mod INPUT_BUF := c)\<rparr>;
               s = s\<lparr>cons_e := cons_e s + 1\<rparr>
           in if c = 10 \<or> c = 4 \<or> cons_e s = cons_r s + of_nat INPUT_BUF
              then wakeup (Some ChCons) (s\<lparr>cons_w := cons_e s\<rparr>)
              else Ok () s)
      else Ok () s)"

definition consoleintr :: "byte \<Rightarrow> 'a io_scheme \<Rightarrow> (unit, 'a io_scheme) out" where
  "consoleintr c s =
     and_then (acquire LkCons s) (\<lambda>_ s.
     and_then
       (if c = 16 then procdump s
        else if c = 21 then kill_line (Suc INPUT_BUF) s
        else if c = 8 \<or> c = 127 then
          (if cons_e s \<noteq> cons_w s then consputc BACKSPACE (s\<lparr>cons_e := cons_e s - 1\<rparr>) else Ok () s)
        else cons_accept c s)
       (\<lambda>_ s. release LkCons s))"

definition consoleinit :: "'a io_scheme \<Rightarrow> 'a io_scheme" where
  "consoleinit s =
     (let s = initlock LkCons ''cons'' s; s = uartinit s
      in s\<lparr>devsw := (devsw s)(1 := Some ConsoleDev)\<rparr>)"

text \<open>The input loop of the UART interrupt, up to a number of waiting characters.\<close>

fun uartintr_loop :: "nat \<Rightarrow> 'a io_scheme \<Rightarrow> (unit, 'a io_scheme) out" where
  "uartintr_loop 0 s = Spin"
| "uartintr_loop (Suc n) s =
     (case uartgetc s of (c, s) \<Rightarrow> case c of
        None \<Rightarrow> Ok () s
      | Some c \<Rightarrow> and_then (consoleintr c s) (\<lambda>_ s. uartintr_loop n s))"

definition uartintr :: "'a io_scheme \<Rightarrow> (unit, 'a io_scheme) out" where
  "uartintr s =
     and_then (uartintr_loop POLLS s) (\<lambda>_ s.
     and_then (acquire LkUart s) (\<lambda>_ s.
     and_then (uartstart s) (\<lambda>_ s. release LkUart s)))"

end
