(* ===== verification/Sleeplock.thy ===== *)
theory Sleeplock
  imports Console
begin

text \<open>
  Sleeping locks, \<^verbatim>\<open>kernel/sleeplock.c\<close>.  A sleep-lock is named by the object it protects; its
  inner spin-lock is \<open>LkSleep\<close> of that name.
\<close>

record sleeplock =
  slocked :: bool
  slname :: string
  slpid :: i32

record slocks = io +
  sleeplocks :: "slid \<Rightarrow> sleeplock"

definition upd_sleeplock :: "slid \<Rightarrow> (sleeplock \<Rightarrow> sleeplock) \<Rightarrow> 'a slocks_scheme \<Rightarrow> 'a slocks_scheme" where
  "upd_sleeplock lk f s = s\<lparr>sleeplocks := (sleeplocks s)(lk := f (sleeplocks s lk))\<rparr>"

definition initsleeplock :: "slid \<Rightarrow> string \<Rightarrow> 'a slocks_scheme \<Rightarrow> 'a slocks_scheme" where
  "initsleeplock lk nm s =
     (let s = initlock (LkSleep lk) ''sleep lock'' s
      in upd_sleeplock lk (\<lambda>_. \<lparr>slocked = False, slname = nm, slpid = 0\<rparr>) s)"

fun acquiresleep_wait :: "nat \<Rightarrow> slid \<Rightarrow> 'a slocks_scheme \<Rightarrow> (unit, 'a slocks_scheme) out" where
  "acquiresleep_wait 0 lk s = Spin"
| "acquiresleep_wait (Suc n) lk s =
     (if slocked (sleeplocks s lk)
      then and_then (sleep (ChSleep lk) (LkSleep lk) s) (\<lambda>_ s. acquiresleep_wait n lk s)
      else Ok () s)"

definition acquiresleep :: "slid \<Rightarrow> 'a slocks_scheme \<Rightarrow> (unit, 'a slocks_scheme) out" where
  "acquiresleep lk s =
     and_then (acquire (LkSleep lk) s) (\<lambda>_ s.
     and_then (acquiresleep_wait WAKEUPS lk s) (\<lambda>_ s.
     let s = upd_sleeplock lk (slocked_update (\<lambda>_. True)) s
     in with_proc (\<lambda>p s.
          release (LkSleep lk) (upd_sleeplock lk (slpid_update (\<lambda>_. pid (ptab s p))) s)) s))"

definition releasesleep :: "slid \<Rightarrow> 'a slocks_scheme \<Rightarrow> (unit, 'a slocks_scheme) out" where
  "releasesleep lk s =
     and_then (acquire (LkSleep lk) s) (\<lambda>_ s.
     let s = upd_sleeplock lk (\<lambda>l. l\<lparr>slocked := False, slpid := 0\<rparr>) s
     in and_then (wakeup (Some (ChSleep lk)) s) (\<lambda>_ s. release (LkSleep lk) s))"

definition holdingsleep :: "slid \<Rightarrow> 'a slocks_scheme \<Rightarrow> (bool, 'a slocks_scheme) out" where
  "holdingsleep lk s =
     and_then (acquire (LkSleep lk) s) (\<lambda>_ s.
     and_then
       (if slocked (sleeplocks s lk)
        then with_proc (\<lambda>p s. Ok (slpid (sleeplocks s lk) = pid (ptab s p)) s) s
        else Ok False s)
       (\<lambda>r s. and_then (release (LkSleep lk) s) (\<lambda>_ s. Ok r s)))"

end
