(* ===== verification/Virtio.thy ===== *)
theory Virtio
  imports Sleeplock
begin

text \<open>
  Disk buffers (\<^verbatim>\<open>kernel/buf.h\<close>) and the disk driver, \<^verbatim>\<open>kernel/virtio_disk.c\<close>.

  The descriptor table and the two rings are shared with the device.  An address in a descriptor
  names the kernel object it points to.  The field \<open>disk\<close> is the content of the device itself:
  the driver never touches it, only a device may, which is an environment of the driver.
\<close>

definition BSIZE :: nat where "BSIZE = 1024"

record buf =
  bvalid :: bool
  bdisk :: bool \<comment> \<open>the field \<^verbatim>\<open>disk\<close>: the device owns the buffer\<close>
  bdev :: u32
  blockno :: u32
  refcnt :: u32
  bprev :: nat
  bnext :: nat
  bdata :: "byte list"

datatype vaddr = VNull | VOps nat | VData nat | VStatus nat

record virtq_desc =
  daddr :: vaddr
  dlen :: u32
  dflags :: u16
  dnext :: u16

record virtio_blk_req =
  rtype :: u32
  rreserved :: u32
  rsector :: u64

record virtio = slocks +
  bufs :: "nat \<Rightarrow> buf"
  disk :: "nat \<Rightarrow> byte list" \<comment> \<open>block number to content, outside the kernel\<close>
  disk_pages :: u64 \<comment> \<open>address of \<^verbatim>\<open>disk.pages\<close>\<close>
  vdesc :: "nat \<Rightarrow> virtq_desc"
  avail_idx :: u16
  avail_ring :: "nat \<Rightarrow> u16"
  used_ring_idx :: u16
  used_ring :: "nat \<Rightarrow> u32"
  vfree :: "nat \<Rightarrow> bool"
  used_idx :: u16
  info_b :: "nat \<Rightarrow> nat option"
  info_status :: "nat \<Rightarrow> byte"
  ops :: "nat \<Rightarrow> virtio_blk_req"

definition NUM :: nat where "NUM = 8"
definition VRING_DESC_F_NEXT :: u16 where "VRING_DESC_F_NEXT = 1"
definition VRING_DESC_F_WRITE :: u16 where "VRING_DESC_F_WRITE = 2"
definition VIRTIO_BLK_T_IN :: u32 where "VIRTIO_BLK_T_IN = 0"
definition VIRTIO_BLK_T_OUT :: u32 where "VIRTIO_BLK_T_OUT = 1"

definition upd_buf :: "nat \<Rightarrow> (buf \<Rightarrow> buf) \<Rightarrow> 'a virtio_scheme \<Rightarrow> 'a virtio_scheme" where
  "upd_buf b f s = s\<lparr>bufs := (bufs s)(b := f (bufs s b))\<rparr>"

definition upd_desc :: "nat \<Rightarrow> (virtq_desc \<Rightarrow> virtq_desc) \<Rightarrow> 'a virtio_scheme \<Rightarrow> 'a virtio_scheme" where
  "upd_desc i f s = s\<lparr>vdesc := (vdesc s)(i := f (vdesc s i))\<rparr>"

section \<open>Initialisation\<close>

definition R_read :: "u64 \<Rightarrow> 'a virtio_scheme \<Rightarrow> u32 \<times> 'a virtio_scheme" where
  "R_read r s = (case mmio_read (VIRTIO0 + r) s of (v, s) \<Rightarrow> (ucast v, s))"

definition R_write :: "u64 \<Rightarrow> u32 \<Rightarrow> 'a virtio_scheme \<Rightarrow> 'a virtio_scheme" where
  "R_write r v s = mmio_write (VIRTIO0 + r) (ucast v) s"

text \<open>The comparisons of the identification registers, with the short-circuit of \<^verbatim>\<open>||\<close>.\<close>

fun R_all :: "(u64 \<times> u32) list \<Rightarrow> 'a virtio_scheme \<Rightarrow> bool \<times> 'a virtio_scheme" where
  "R_all [] s = (True, s)"
| "R_all ((r, v) # rs) s = (case R_read r s of (x, s) \<Rightarrow> if x \<noteq> v then (False, s) else R_all rs s)"

definition negotiate :: "u32 \<Rightarrow> u32" where
  "negotiate features =
     fold (\<lambda>b f. f AND NOT (push_bit b 1)) [5, 7, 11, 12, 27, 29, 28] features"

definition virtio_disk_init :: "'a virtio_scheme \<Rightarrow> (unit, 'a virtio_scheme) out" where
  "virtio_disk_init s =
     (let s = initlock LkVdisk ''virtio_disk'' s
      in case R_all [(0x000, 0x74726976), (0x004, 1), (0x008, 2), (0x00c, 0x554d4551)] s of (found, s) \<Rightarrow>
         if \<not> found then Panic ''could not find virtio disk''
         else let s = R_write 0x070 1 s; s = R_write 0x070 (1 OR 2) s
         in case R_read 0x010 s of (features, s) \<Rightarrow>
         let s = R_write 0x020 (negotiate features) s;
             s = R_write 0x070 (1 OR 2 OR 8) s;
             s = R_write 0x070 (1 OR 2 OR 8 OR 4) s;
             s = R_write 0x028 4096 s;
             s = R_write 0x030 0 s
         in case R_read 0x034 s of (mx, s) \<Rightarrow>
         if mx = 0 then Panic ''virtio disk has no queue 0''
         else if mx < of_nat NUM then Panic ''virtio disk max queue too short''
         else let s = R_write 0x038 (of_nat NUM) s;
                  s = s\<lparr>vdesc := (\<lambda>_. \<lparr>daddr = VNull, dlen = 0, dflags = 0, dnext = 0\<rparr>), avail_idx := 0,
                        avail_ring := (\<lambda>_. 0), used_ring_idx := 0, used_ring := (\<lambda>_. 0)\<rparr>;
                  s = R_write 0x040 (ucast (drop_bit 12 (disk_pages s))) s
              in Ok () (s\<lparr>vfree := (\<lambda>i. if i < NUM then True else vfree s i)\<rparr>))"

section \<open>Descriptors\<close>

fun alloc_desc_scan :: "nat list \<Rightarrow> 'a virtio_scheme \<Rightarrow> nat option \<times> 'a virtio_scheme" where
  "alloc_desc_scan [] s = (None, s)"
| "alloc_desc_scan (i # is) s =
     (if vfree s i then (Some i, s\<lparr>vfree := (vfree s)(i := False)\<rparr>) else alloc_desc_scan is s)"

definition alloc_desc :: "'a virtio_scheme \<Rightarrow> nat option \<times> 'a virtio_scheme" where
  "alloc_desc s = alloc_desc_scan [0..<NUM] s"

definition free_desc :: "nat \<Rightarrow> 'a virtio_scheme \<Rightarrow> (unit, 'a virtio_scheme) out" where
  "free_desc i s =
     (if NUM \<le> i then Panic ''free_desc 1''
      else if vfree s i then Panic ''free_desc 2''
      else let s = upd_desc i (\<lambda>d. d\<lparr>daddr := VNull, dlen := 0, dflags := 0, dnext := 0\<rparr>) s;
               s = s\<lparr>vfree := (vfree s)(i := True)\<rparr>
           in wakeup (Some ChDiskFree) s)"

text \<open>Each iteration frees a descriptor, so a chain ends after \<^const>\<open>NUM\<close> iterations or panics.\<close>

fun free_chain_loop :: "nat \<Rightarrow> nat \<Rightarrow> 'a virtio_scheme \<Rightarrow> (unit, 'a virtio_scheme) out" where
  "free_chain_loop 0 i s = Spin"
| "free_chain_loop (Suc n) i s =
     (let flag = dflags (vdesc s i); nxt = dnext (vdesc s i)
      in and_then (free_desc i s) (\<lambda>_ s.
           if flag AND VRING_DESC_F_NEXT \<noteq> 0 then free_chain_loop n (unat nxt) s else Ok () s))"

definition free_chain :: "nat \<Rightarrow> 'a virtio_scheme \<Rightarrow> (unit, 'a virtio_scheme) out" where
  "free_chain i s = free_chain_loop (Suc NUM) i s"

text \<open>\<open>k\<close> more descriptors are wanted, \<open>got\<close> are allocated; on failure those are freed.\<close>

fun alloc3_loop :: "nat \<Rightarrow> nat list \<Rightarrow> 'a virtio_scheme \<Rightarrow> (nat list option, 'a virtio_scheme) out" where
  "alloc3_loop 0 got s = Ok (Some got) s"
| "alloc3_loop (Suc k) got s =
     (case alloc_desc s of (d, s) \<Rightarrow> case d of
        Some i \<Rightarrow> alloc3_loop k (got @ [i]) s
      | None \<Rightarrow> and_then (for_each free_desc got s) (\<lambda>_ s. Ok None s))"

definition alloc3_desc :: "'a virtio_scheme \<Rightarrow> (nat list option, 'a virtio_scheme) out" where
  "alloc3_desc s = alloc3_loop 3 [] s"

section \<open>Requests and completions\<close>

fun alloc3_wait :: "nat \<Rightarrow> 'a virtio_scheme \<Rightarrow> (nat list, 'a virtio_scheme) out" where
  "alloc3_wait 0 s = Spin"
| "alloc3_wait (Suc n) s =
     and_then (alloc3_desc s) (\<lambda>r s. case r of
       Some idx \<Rightarrow> Ok idx s
     | None \<Rightarrow> and_then (sleep ChDiskFree LkVdisk s) (\<lambda>_ s. alloc3_wait n s))"

definition format_request :: "nat \<Rightarrow> bool \<Rightarrow> u64 \<Rightarrow> nat \<Rightarrow> nat \<Rightarrow> nat \<Rightarrow> 'a virtio_scheme \<Rightarrow> 'a virtio_scheme" where
  "format_request b write sector i0 i1 i2 s =
     (let s = s\<lparr>ops := (ops s)(i0 := \<lparr>rtype = (if write then VIRTIO_BLK_T_OUT else VIRTIO_BLK_T_IN),
                rreserved = 0, rsector = sector\<rparr>)\<rparr>;
          s = upd_desc i0 (\<lambda>_. \<lparr>daddr = VOps i0, dlen = 16, dflags = VRING_DESC_F_NEXT, dnext = of_nat i1\<rparr>) s;
          s = upd_desc i1 (\<lambda>_. \<lparr>daddr = VData b, dlen = of_nat BSIZE,
                dflags = (if write then 0 else VRING_DESC_F_WRITE) OR VRING_DESC_F_NEXT, dnext = of_nat i2\<rparr>) s;
          s = s\<lparr>info_status := (info_status s)(i0 := 0xff)\<rparr>
      in upd_desc i2 (\<lambda>_. \<lparr>daddr = VStatus i0, dlen = 1, dflags = VRING_DESC_F_WRITE, dnext = 0\<rparr>) s)"

definition submit_request :: "nat \<Rightarrow> nat \<Rightarrow> 'a virtio_scheme \<Rightarrow> 'a virtio_scheme" where
  "submit_request b i0 s =
     (let s = upd_buf b (bdisk_update (\<lambda>_. True)) s;
          s = s\<lparr>info_b := (info_b s)(i0 := Some b)\<rparr>;
          s = s\<lparr>avail_ring := (avail_ring s)(unat (avail_idx s) mod NUM := of_nat i0)\<rparr>;
          s = s\<lparr>avail_idx := avail_idx s + 1\<rparr>
      in R_write 0x050 0 s)"

fun disk_wait :: "nat \<Rightarrow> nat \<Rightarrow> 'a virtio_scheme \<Rightarrow> (unit, 'a virtio_scheme) out" where
  "disk_wait 0 b s = Spin"
| "disk_wait (Suc n) b s =
     (if bdisk (bufs s b) then and_then (sleep (ChBuf b) LkVdisk s) (\<lambda>_ s. disk_wait n b s)
      else Ok () s)"

definition virtio_disk_rw :: "nat \<Rightarrow> bool \<Rightarrow> 'a virtio_scheme \<Rightarrow> (unit, 'a virtio_scheme) out" where
  "virtio_disk_rw b write s =
     (let sector = ucast (blockno (bufs s b) * of_nat (BSIZE div 512))
      in and_then (acquire LkVdisk s) (\<lambda>_ s.
         and_then (alloc3_wait WAKEUPS s) (\<lambda>idx s.
         let s = format_request b write sector (idx ! 0) (idx ! 1) (idx ! 2) s;
             s = submit_request b (idx ! 0) s
         in and_then (disk_wait WAKEUPS b s) (\<lambda>_ s.
         let s = s\<lparr>info_b := (info_b s)(idx ! 0 := None)\<rparr>
         in and_then (free_chain (idx ! 0) s) (\<lambda>_ s. release LkVdisk s)))))"

text \<open>The 16-bit index wraps after 65536 completions, which bounds the loop.\<close>

fun intr_loop :: "nat \<Rightarrow> 'a virtio_scheme \<Rightarrow> (unit, 'a virtio_scheme) out" where
  "intr_loop 0 s = Spin"
| "intr_loop (Suc n) s =
     (if used_idx s \<noteq> used_ring_idx s then
        let i = unat (used_ring s (unat (used_idx s) mod NUM))
        in if info_status s i \<noteq> 0 then Panic ''virtio_disk_intr status''
           else case info_b s i of
             None \<Rightarrow> Panic ''kerneltrap''
           | Some b \<Rightarrow>
               let s = upd_buf b (bdisk_update (\<lambda>_. False)) s
               in and_then (wakeup (Some (ChBuf b)) s) (\<lambda>_ s.
                    intr_loop n (s\<lparr>used_idx := used_idx s + 1\<rparr>))
      else Ok () s)"

definition virtio_disk_intr :: "'a virtio_scheme \<Rightarrow> (unit, 'a virtio_scheme) out" where
  "virtio_disk_intr s =
     and_then (acquire LkVdisk s) (\<lambda>_ s.
       case R_read 0x060 s of (st, s) \<Rightarrow>
       let s = R_write 0x064 (st AND 3) s
       in and_then (intr_loop 65536 s) (\<lambda>_ s. release LkVdisk s))"

end
