(* ===== verification/Bio.thy ===== *)
theory Bio
  imports Virtio
begin

text \<open>
  The buffer cache, \<^verbatim>\<open>kernel/bio.c\<close>.  The buffers are numbered; number \<open>NBUF\<close> is the list head
  \<^verbatim>\<open>bcache.head\<close>.  The list is doubly linked through \<open>bprev\<close> and \<open>bnext\<close>, most recently used first.
\<close>

definition NBUF :: nat where "NBUF = 30"

definition bhead :: nat where "bhead = NBUF"

section \<open>Fields inside a block\<close>

definition get16 :: "nat \<Rightarrow> byte list \<Rightarrow> u16" where
  "get16 off bs = word_of_bytes (take 2 (drop off bs))"

definition get32 :: "nat \<Rightarrow> byte list \<Rightarrow> u32" where
  "get32 off bs = word_of_bytes (take 4 (drop off bs))"

definition get64 :: "nat \<Rightarrow> byte list \<Rightarrow> u64" where
  "get64 off bs = word_of_bytes (take 8 (drop off bs))"

definition put_at :: "nat \<Rightarrow> byte list \<Rightarrow> byte list \<Rightarrow> byte list" where
  "put_at off new bs = take off bs @ new @ drop (off + length new) bs"

definition put16 :: "nat \<Rightarrow> u16 \<Rightarrow> byte list \<Rightarrow> byte list" where
  "put16 off v bs = put_at off (bytes_of_word 2 v) bs"

definition put32 :: "nat \<Rightarrow> u32 \<Rightarrow> byte list \<Rightarrow> byte list" where
  "put32 off v bs = put_at off (bytes_of_word 4 v) bs"

section \<open>Operations\<close>

text \<open>Inserting a buffer right after the head, the list update shared by \<^verbatim>\<open>binit\<close> and \<^verbatim>\<open>brelse\<close>.\<close>

definition link_front :: "nat \<Rightarrow> 'a virtio_scheme \<Rightarrow> 'a virtio_scheme" where
  "link_front b s =
     (let s = upd_buf b (bnext_update (\<lambda>_. bnext (bufs s bhead))) s;
          s = upd_buf b (bprev_update (\<lambda>_. bhead)) s;
          s = upd_buf (bnext (bufs s bhead)) (bprev_update (\<lambda>_. b)) s
      in upd_buf bhead (bnext_update (\<lambda>_. b)) s)"

definition unlink_buf :: "nat \<Rightarrow> 'a virtio_scheme \<Rightarrow> 'a virtio_scheme" where
  "unlink_buf b s =
     (let s = upd_buf (bnext (bufs s b)) (bprev_update (\<lambda>_. bprev (bufs s b))) s
      in upd_buf (bprev (bufs s b)) (bnext_update (\<lambda>_. bnext (bufs s b))) s)"

definition binit :: "'a virtio_scheme \<Rightarrow> (unit, 'a virtio_scheme) out" where
  "binit s =
     (let s = initlock LkBcache ''bcache'' s;
          s = upd_buf bhead (\<lambda>h. h\<lparr>bprev := bhead, bnext := bhead\<rparr>) s
      in for_each (\<lambda>b s. Ok () (link_front b (initsleeplock (SlBuf b) ''buffer'' s))) [0..<NBUF] s)"

text \<open>The two searches of \<^verbatim>\<open>bget\<close>, along \<open>bnext\<close> and along \<open>bprev\<close>; the list has at most \<open>NBUF\<close> entries.\<close>

fun find_cached :: "nat \<Rightarrow> u32 \<Rightarrow> u32 \<Rightarrow> nat \<Rightarrow> (nat \<Rightarrow> buf) \<Rightarrow> nat option" where
  "find_cached 0 dev bno b B = None"
| "find_cached (Suc n) dev bno b B =
     (if b = bhead then None
      else if bdev (B b) = dev \<and> blockno (B b) = bno then Some b
      else find_cached n dev bno (bnext (B b)) B)"

fun find_unused_buf :: "nat \<Rightarrow> nat \<Rightarrow> (nat \<Rightarrow> buf) \<Rightarrow> nat option" where
  "find_unused_buf 0 b B = None"
| "find_unused_buf (Suc n) b B =
     (if b = bhead then None
      else if refcnt (B b) = 0 then Some b
      else find_unused_buf n (bprev (B b)) B)"

definition bget :: "u32 \<Rightarrow> u32 \<Rightarrow> 'a virtio_scheme \<Rightarrow> (nat, 'a virtio_scheme) out" where
  "bget dev bno s =
     and_then (acquire LkBcache s) (\<lambda>_ s.
       let locked_buf = (\<lambda>b s. and_then (release LkBcache s) (\<lambda>_ s.
             and_then (acquiresleep (SlBuf b) s) (\<lambda>_ s. Ok b s)))
       in case find_cached (Suc NBUF) dev bno (bnext (bufs s bhead)) (bufs s) of
            Some b \<Rightarrow> locked_buf b (upd_buf b (\<lambda>q. q\<lparr>refcnt := refcnt q + 1\<rparr>) s)
          | None \<Rightarrow> case find_unused_buf (Suc NBUF) (bprev (bufs s bhead)) (bufs s) of
              Some b \<Rightarrow> locked_buf b
                (upd_buf b (\<lambda>q. q\<lparr>bdev := dev, blockno := bno, bvalid := False, refcnt := 1\<rparr>) s)
            | None \<Rightarrow> Panic ''bget: no buffers'')"

definition bread :: "u32 \<Rightarrow> u32 \<Rightarrow> 'a virtio_scheme \<Rightarrow> (nat, 'a virtio_scheme) out" where
  "bread dev bno s =
     and_then (bget dev bno s) (\<lambda>b s.
       if \<not> bvalid (bufs s b)
       then and_then (virtio_disk_rw b False s) (\<lambda>_ s. Ok b (upd_buf b (bvalid_update (\<lambda>_. True)) s))
       else Ok b s)"

definition bwrite :: "nat \<Rightarrow> 'a virtio_scheme \<Rightarrow> (unit, 'a virtio_scheme) out" where
  "bwrite b s =
     and_then (holdingsleep (SlBuf b) s) (\<lambda>h s.
       if \<not> h then Panic ''bwrite'' else virtio_disk_rw b True s)"

definition brelse :: "nat \<Rightarrow> 'a virtio_scheme \<Rightarrow> (unit, 'a virtio_scheme) out" where
  "brelse b s =
     and_then (holdingsleep (SlBuf b) s) (\<lambda>h s.
       if \<not> h then Panic ''brelse''
       else and_then (releasesleep (SlBuf b) s) (\<lambda>_ s.
         and_then (acquire LkBcache s) (\<lambda>_ s.
         let s = upd_buf b (\<lambda>q. q\<lparr>refcnt := refcnt q - 1\<rparr>) s;
             s = (if refcnt (bufs s b) = 0 then link_front b (unlink_buf b s) else s)
         in release LkBcache s)))"

definition bpin :: "nat \<Rightarrow> 'a virtio_scheme \<Rightarrow> (unit, 'a virtio_scheme) out" where
  "bpin b s =
     and_then (acquire LkBcache s) (\<lambda>_ s.
       release LkBcache (upd_buf b (\<lambda>q. q\<lparr>refcnt := refcnt q + 1\<rparr>) s))"

definition bunpin :: "nat \<Rightarrow> 'a virtio_scheme \<Rightarrow> (unit, 'a virtio_scheme) out" where
  "bunpin b s =
     and_then (acquire LkBcache s) (\<lambda>_ s.
       release LkBcache (upd_buf b (\<lambda>q. q\<lparr>refcnt := refcnt q - 1\<rparr>) s))"

end
