(* ===== verification/Log.thy ===== *)
theory Log
  imports Bio
begin

text \<open>
  The redo log, \<^verbatim>\<open>kernel/log.c\<close>.  The C \<^verbatim>\<open>int\<close> counters of \<^verbatim>\<open>struct log\<close> are integers here: their
  values come from the disk header or stay within the checks of the code.
\<close>

definition MAXOPBLOCKS :: nat where "MAXOPBLOCKS = 10"
definition LOGSIZE :: nat where "LOGSIZE = MAXOPBLOCKS * 3"

record superblock =
  magic :: u32
  fssize :: u32
  nblocks :: u32
  ninodes :: u32
  nlog :: u32
  logstart :: u32
  inodestart :: u32
  bmapstart :: u32

record log = virtio +
  log_start :: int
  log_size :: int
  log_outstanding :: int
  log_committing :: bool
  log_dev :: u32
  lh_n :: int
  lh_block :: "nat \<Rightarrow> u32"

section \<open>Header block\<close>

definition lh_get_n :: "byte list \<Rightarrow> int" where
  "lh_get_n bs = sint (get32 0 bs)"

definition lh_get_block :: "nat \<Rightarrow> byte list \<Rightarrow> u32" where
  "lh_get_block i bs = get32 (4 + 4 * i) bs"

text \<open>The stores of \<^verbatim>\<open>write_head\<close> into the buffer.\<close>

definition lh_put :: "int \<Rightarrow> (nat \<Rightarrow> u32) \<Rightarrow> byte list \<Rightarrow> byte list" where
  "lh_put n blk bs =
     fold (\<lambda>i bs. put32 (4 + 4 * i) (blk i) bs) [0..<nat n] (put32 0 (word_of_int n) bs)"

section \<open>Installing and recovering\<close>

definition log_blockno :: "nat \<Rightarrow> 'a log_scheme \<Rightarrow> u32" where
  "log_blockno tail s = word_of_int (log_start s + int tail + 1)"

definition install_trans :: "bool \<Rightarrow> 'a log_scheme \<Rightarrow> (unit, 'a log_scheme) out" where
  "install_trans recovering s =
     for_each (\<lambda>tail s.
       and_then (bread (log_dev s) (log_blockno tail s) s) (\<lambda>lbuf s.
       and_then (bread (log_dev s) (lh_block s tail) s) (\<lambda>dbuf s.
       let s = upd_buf dbuf (bdata_update (\<lambda>_. bdata (bufs s lbuf))) s
       in and_then (bwrite dbuf s) (\<lambda>_ s.
          and_then (if recovering then Ok () s else bunpin dbuf s) (\<lambda>_ s.
          and_then (brelse lbuf s) (\<lambda>_ s. brelse dbuf s))))))
       [0..<nat (lh_n s)] s"

definition read_head :: "'a log_scheme \<Rightarrow> (unit, 'a log_scheme) out" where
  "read_head s =
     and_then (bread (log_dev s) (word_of_int (log_start s)) s) (\<lambda>b s.
       let bs = bdata (bufs s b); n = lh_get_n bs; s = s\<lparr>lh_n := n\<rparr>;
           s = s\<lparr>lh_block := (\<lambda>i. if i < nat n then lh_get_block i bs else lh_block s i)\<rparr>
       in brelse b s)"

definition write_head :: "'a log_scheme \<Rightarrow> (unit, 'a log_scheme) out" where
  "write_head s =
     and_then (bread (log_dev s) (word_of_int (log_start s)) s) (\<lambda>b s.
       let s = upd_buf b (bdata_update (lh_put (lh_n s) (lh_block s))) s
       in and_then (bwrite b s) (\<lambda>_ s. brelse b s))"

definition recover_from_log :: "'a log_scheme \<Rightarrow> (unit, 'a log_scheme) out" where
  "recover_from_log s =
     and_then (read_head s) (\<lambda>_ s.
     and_then (install_trans True s) (\<lambda>_ s.
     write_head (s\<lparr>lh_n := 0\<rparr>)))"

definition initlog :: "u32 \<Rightarrow> superblock \<Rightarrow> 'a log_scheme \<Rightarrow> (unit, 'a log_scheme) out" where
  "initlog dev sb s =
     (if BSIZE \<le> 4 + 4 * LOGSIZE then Panic ''initlog: too big logheader''
      else let s = initlock LkLog ''log'' s;
               s = s\<lparr>log_start := sint (logstart sb), log_size := sint (nlog sb), log_dev := dev\<rparr>
           in recover_from_log s)"

section \<open>Transactions\<close>

fun begin_op_loop :: "nat \<Rightarrow> 'a log_scheme \<Rightarrow> (unit, 'a log_scheme) out" where
  "begin_op_loop 0 s = Spin"
| "begin_op_loop (Suc n) s =
     (if log_committing s then and_then (sleep ChLog LkLog s) (\<lambda>_ s. begin_op_loop n s)
      else if int LOGSIZE < lh_n s + (log_outstanding s + 1) * int MAXOPBLOCKS
      then and_then (sleep ChLog LkLog s) (\<lambda>_ s. begin_op_loop n s)
      else release LkLog (s\<lparr>log_outstanding := log_outstanding s + 1\<rparr>))"

definition begin_op :: "'a log_scheme \<Rightarrow> (unit, 'a log_scheme) out" where
  "begin_op s = and_then (acquire LkLog s) (\<lambda>_ s. begin_op_loop WAKEUPS s)"

definition write_log :: "'a log_scheme \<Rightarrow> (unit, 'a log_scheme) out" where
  "write_log s =
     for_each (\<lambda>tail s.
       and_then (bread (log_dev s) (log_blockno tail s) s) (\<lambda>to s.
       and_then (bread (log_dev s) (lh_block s tail) s) (\<lambda>from s.
       let s = upd_buf to (bdata_update (\<lambda>_. bdata (bufs s from))) s
       in and_then (bwrite to s) (\<lambda>_ s.
          and_then (brelse from s) (\<lambda>_ s. brelse to s)))))
       [0..<nat (lh_n s)] s"

definition commit :: "'a log_scheme \<Rightarrow> (unit, 'a log_scheme) out" where
  "commit s =
     (if 0 < lh_n s then
        and_then (write_log s) (\<lambda>_ s.
        and_then (write_head s) (\<lambda>_ s.
        and_then (install_trans False s) (\<lambda>_ s.
        write_head (s\<lparr>lh_n := 0\<rparr>))))
      else Ok () s)"

definition end_op :: "'a log_scheme \<Rightarrow> (unit, 'a log_scheme) out" where
  "end_op s =
     and_then (acquire LkLog s) (\<lambda>_ s.
     let s = s\<lparr>log_outstanding := log_outstanding s - 1\<rparr>
     in if log_committing s then Panic ''log.committing''
        else let do_commit = (log_outstanding s = 0)
        in and_then (if do_commit then Ok () (s\<lparr>log_committing := True\<rparr>) else wakeup (Some ChLog) s) (\<lambda>_ s.
           and_then (release LkLog s) (\<lambda>_ s.
           if do_commit then
             and_then (commit s) (\<lambda>_ s.
             and_then (acquire LkLog s) (\<lambda>_ s.
             and_then (wakeup (Some ChLog) (s\<lparr>log_committing := False\<rparr>)) (\<lambda>_ s.
             release LkLog s)))
           else Ok () s)))"

text \<open>The index \<open>i\<close> at which the loop of \<^verbatim>\<open>log_write\<close> stops.\<close>

fun log_slot :: "nat \<Rightarrow> nat \<Rightarrow> (nat \<Rightarrow> u32) \<Rightarrow> u32 \<Rightarrow> nat" where
  "log_slot 0 i blk bno = i"
| "log_slot (Suc n) i blk bno = (if blk i = bno then i else log_slot n (Suc i) blk bno)"

definition log_write :: "nat \<Rightarrow> 'a log_scheme \<Rightarrow> (unit, 'a log_scheme) out" where
  "log_write b s =
     and_then (acquire LkLog s) (\<lambda>_ s.
       if int LOGSIZE \<le> lh_n s \<or> log_size s - 1 \<le> lh_n s then Panic ''too big a transaction''
       else if log_outstanding s < 1 then Panic ''log_write outside of trans''
       else let i = log_slot (nat (lh_n s)) 0 (lh_block s) (blockno (bufs s b));
                s = s\<lparr>lh_block := (lh_block s)(i := blockno (bufs s b))\<rparr>
            in and_then
                 (if int i = lh_n s
                  then and_then (bpin b s) (\<lambda>_ s. Ok () (s\<lparr>lh_n := lh_n s + 1\<rparr>))
                  else Ok () s)
                 (\<lambda>_ s. release LkLog s))"

end
