(* ===== verification/Fs.thy ===== *)
theory Fs
  imports Log
begin

text \<open>
  The file system proper, \<^verbatim>\<open>kernel/fs.c\<close>: blocks, inodes, directories and path names.  An in-memory
  inode is named by its index in \<^verbatim>\<open>itable\<close>; \<open>None\<close> is the null pointer.  C strings are the bytes
  before the terminator.
\<close>

definition ROOTINO :: u32 where "ROOTINO = 1"
definition ROOTDEV :: u32 where "ROOTDEV = 1"
definition FSMAGIC :: u32 where "FSMAGIC = 0x10203040"
definition NDIRECT :: nat where "NDIRECT = 12"
definition NINDIRECT :: nat where "NINDIRECT = BSIZE div 4"
definition MAXFILE :: nat where "MAXFILE = NDIRECT + NINDIRECT"
definition DINODE_SIZE :: nat where "DINODE_SIZE = 2 + 2 + 2 + 2 + 4 + 4 * (NDIRECT + 1)"
definition IPB :: nat where "IPB = BSIZE div DINODE_SIZE"
definition BPB :: nat where "BPB = BSIZE * 8"
definition DIRSIZ :: nat where "DIRSIZ = 14"
definition DIRENT_SIZE :: nat where "DIRENT_SIZE = 2 + DIRSIZ"
definition NINODE :: nat where "NINODE = 50"
definition T_DIR :: u16 where "T_DIR = 1"
definition T_FILE :: u16 where "T_FILE = 2"
definition T_DEVICE :: u16 where "T_DEVICE = 3"

record inode =
  idev :: u32
  inum :: u32
  iref :: int
  ivalid :: bool
  itype :: u16
  imajor :: u16
  iminor :: u16
  nlink :: u16
  isize :: u32
  addrs :: "u32 list"

record fs = log +
  sb :: superblock
  inodes :: "nat \<Rightarrow> inode"
  stat_pad :: "byte list" \<comment> \<open>bytes of the kernel stack under the padding of \<^verbatim>\<open>struct stat\<close>\<close>

definition IBLOCK :: "u32 \<Rightarrow> superblock \<Rightarrow> u32" where
  "IBLOCK i q = i div of_nat IPB + inodestart q"

definition BBLOCK :: "u32 \<Rightarrow> superblock \<Rightarrow> u32" where
  "BBLOCK b q = b div of_nat BPB + bmapstart q"

definition upd_inode :: "nat \<Rightarrow> (inode \<Rightarrow> inode) \<Rightarrow> 'a fs_scheme \<Rightarrow> 'a fs_scheme" where
  "upd_inode ip f s = s\<lparr>inodes := (inodes s)(ip := f (inodes s ip))\<rparr>"

definition set_data :: "nat \<Rightarrow> (byte list \<Rightarrow> byte list) \<Rightarrow> 'a virtio_scheme \<Rightarrow> 'a virtio_scheme" where
  "set_data b f s = upd_buf b (bdata_update f) s"

section \<open>Super block\<close>

definition superblock_of :: "byte list \<Rightarrow> superblock" where
  "superblock_of bs =
     \<lparr>magic = get32 0 bs, fssize = get32 4 bs, nblocks = get32 8 bs, ninodes = get32 12 bs,
      nlog = get32 16 bs, logstart = get32 20 bs, inodestart = get32 24 bs, bmapstart = get32 28 bs\<rparr>"

definition readsb :: "u32 \<Rightarrow> 'a fs_scheme \<Rightarrow> (unit, 'a fs_scheme) out" where
  "readsb dev s =
     and_then (bread dev 1 s) (\<lambda>bp s.
       let s = s\<lparr>sb := superblock_of (bdata (bufs s bp))\<rparr> in brelse bp s)"

definition fsinit :: "u32 \<Rightarrow> 'a fs_scheme \<Rightarrow> (unit, 'a fs_scheme) out" where
  "fsinit dev s =
     and_then (readsb dev s) (\<lambda>_ s.
       if magic (sb s) \<noteq> FSMAGIC then Panic ''invalid file system'' else initlog dev (sb s) s)"

section \<open>Blocks\<close>

definition bzero :: "u32 \<Rightarrow> u32 \<Rightarrow> 'a fs_scheme \<Rightarrow> (unit, 'a fs_scheme) out" where
  "bzero dev bno s =
     and_then (bread dev bno s) (\<lambda>bp s.
     and_then (log_write bp (set_data bp (\<lambda>_. replicate BSIZE 0) s)) (\<lambda>_ s. brelse bp s))"

definition bit_mask :: "nat \<Rightarrow> byte" where
  "bit_mask bi = push_bit (bi mod 8) 1"

text \<open>The inner loop of \<^verbatim>\<open>balloc\<close>: the first clear bit among the given ones.\<close>

definition first_free :: "byte list \<Rightarrow> nat \<Rightarrow> nat option" where
  "first_free bs n = find (\<lambda>bi. (bs ! (bi div 8)) AND bit_mask bi = 0) [0..<n]"

function balloc_loop :: "nat \<Rightarrow> u32 \<Rightarrow> 'a fs_scheme \<Rightarrow> (u32, 'a fs_scheme) out" where
  "balloc_loop b dev s =
     (if b < 2 ^ 32 \<and> b < unat (fssize (sb s)) then
        and_then (bread dev (BBLOCK (of_nat b) (sb s)) s) (\<lambda>bp s.
          case first_free (bdata (bufs s bp)) (min BPB (unat (fssize (sb s)) - b)) of
            Some bi \<Rightarrow>
              let s = set_data bp (\<lambda>d. d[bi div 8 := (d ! (bi div 8)) OR bit_mask bi]) s
              in and_then (log_write bp s) (\<lambda>_ s.
                 and_then (brelse bp s) (\<lambda>_ s.
                 and_then (bzero dev (of_nat (b + bi)) s) (\<lambda>_ s. Ok (of_nat (b + bi)) s)))
          | None \<Rightarrow> and_then (brelse bp s) (\<lambda>_ s. balloc_loop (b + BPB) dev s))
      else Panic ''balloc: out of blocks'')"
  by pat_completeness auto
termination
  by (relation "measure (\<lambda>(b, dev, s). 2 ^ 32 - b)") (auto simp: BPB_def BSIZE_def)

declare balloc_loop.simps [simp del]

definition balloc :: "u32 \<Rightarrow> 'a fs_scheme \<Rightarrow> (u32, 'a fs_scheme) out" where
  "balloc dev s = balloc_loop 0 dev s"

definition bfree :: "u32 \<Rightarrow> u32 \<Rightarrow> 'a fs_scheme \<Rightarrow> (unit, 'a fs_scheme) out" where
  "bfree dev b s =
     and_then (bread dev (BBLOCK b (sb s)) s) (\<lambda>bp s.
       let bi = unat b mod BPB; m = bit_mask bi
       in if (bdata (bufs s bp) ! (bi div 8)) AND m = 0 then Panic ''freeing free block''
          else let s = set_data bp (\<lambda>d. d[bi div 8 := (d ! (bi div 8)) AND NOT m]) s
               in and_then (log_write bp s) (\<lambda>_ s. brelse bp s))"

section \<open>Inodes\<close>

definition iinit :: "'a fs_scheme \<Rightarrow> (unit, 'a fs_scheme) out" where
  "iinit s =
     (let s = initlock LkItable ''itable'' s
      in for_each (\<lambda>i s. Ok () (initsleeplock (SlInode i) ''inode'' s)) [0..<NINODE] s)"

text \<open>The fields of an on-disk inode at byte offset \<open>off\<close> of its block.\<close>

definition dinode_off :: "u32 \<Rightarrow> nat" where
  "dinode_off i = DINODE_SIZE * (unat i mod IPB)"

definition dinode_type :: "nat \<Rightarrow> byte list \<Rightarrow> u16" where
  "dinode_type off bs = get16 off bs"

definition dinode_addrs :: "nat \<Rightarrow> byte list \<Rightarrow> u32 list" where
  "dinode_addrs off bs = map (\<lambda>k. get32 (off + 12 + 4 * k) bs) [0..<NDIRECT + 1]"

definition load_dinode :: "nat \<Rightarrow> byte list \<Rightarrow> inode \<Rightarrow> inode" where
  "load_dinode off bs q =
     q\<lparr>itype := get16 off bs, imajor := get16 (off + 2) bs, iminor := get16 (off + 4) bs,
       nlink := get16 (off + 6) bs, isize := get32 (off + 8) bs, addrs := dinode_addrs off bs\<rparr>"

definition store_dinode :: "nat \<Rightarrow> inode \<Rightarrow> byte list \<Rightarrow> byte list" where
  "store_dinode off q bs =
     (let bs = put16 off (itype q) bs;
          bs = put16 (off + 2) (imajor q) bs;
          bs = put16 (off + 4) (iminor q) bs;
          bs = put16 (off + 6) (nlink q) bs;
          bs = put32 (off + 8) (isize q) bs
      in put_at (off + 12) (concat (map (bytes_of_word 4) (addrs q))) bs)"

definition iupdate :: "nat \<Rightarrow> 'a fs_scheme \<Rightarrow> (unit, 'a fs_scheme) out" where
  "iupdate ip s =
     and_then (bread (idev (inodes s ip)) (IBLOCK (inum (inodes s ip)) (sb s)) s) (\<lambda>bp s.
       let s = set_data bp (store_dinode (dinode_off (inum (inodes s ip))) (inodes s ip)) s
       in and_then (log_write bp s) (\<lambda>_ s. brelse bp s))"

text \<open>One pass of \<^verbatim>\<open>iget\<close> over the table: the entry of the inode, or the first empty slot seen.\<close>

fun iget_scan :: "u32 \<Rightarrow> u32 \<Rightarrow> nat option \<Rightarrow> nat list \<Rightarrow> (nat \<Rightarrow> inode) \<Rightarrow> nat option \<times> nat option" where
  "iget_scan dev ino emp [] I = (None, emp)"
| "iget_scan dev ino emp (ip # ips) I =
     (if 0 < iref (I ip) \<and> idev (I ip) = dev \<and> inum (I ip) = ino then (Some ip, emp)
      else iget_scan dev ino (if emp = None \<and> iref (I ip) = 0 then Some ip else emp) ips I)"

definition iget :: "u32 \<Rightarrow> u32 \<Rightarrow> 'a fs_scheme \<Rightarrow> (nat, 'a fs_scheme) out" where
  "iget dev ino s =
     and_then (acquire LkItable s) (\<lambda>_ s.
       case iget_scan dev ino None [0..<NINODE] (inodes s) of
         (Some ip, _) \<Rightarrow>
           and_then (release LkItable (upd_inode ip (\<lambda>q. q\<lparr>iref := iref q + 1\<rparr>) s)) (\<lambda>_ s. Ok ip s)
       | (None, None) \<Rightarrow> Panic ''iget: no inodes''
       | (None, Some ip) \<Rightarrow>
           and_then (release LkItable
             (upd_inode ip (\<lambda>q. q\<lparr>idev := dev, inum := ino, iref := 1, ivalid := False\<rparr>) s)) (\<lambda>_ s. Ok ip s))"

fun ialloc_loop :: "nat \<Rightarrow> nat \<Rightarrow> u32 \<Rightarrow> u16 \<Rightarrow> 'a fs_scheme \<Rightarrow> (nat, 'a fs_scheme) out" where
  "ialloc_loop 0 i dev ty s = Panic ''ialloc: no inodes''"
| "ialloc_loop (Suc n) i dev ty s =
     and_then (bread dev (IBLOCK (of_nat i) (sb s)) s) (\<lambda>bp s.
       let off = dinode_off (of_nat i)
       in if dinode_type off (bdata (bufs s bp)) = 0 then
            let s = set_data bp (\<lambda>d. put16 off ty (put_at off (replicate DINODE_SIZE 0) d)) s
            in and_then (log_write bp s) (\<lambda>_ s.
               and_then (brelse bp s) (\<lambda>_ s. iget dev (of_nat i) s))
          else and_then (brelse bp s) (\<lambda>_ s. ialloc_loop n (Suc i) dev ty s))"

definition ialloc :: "u32 \<Rightarrow> u16 \<Rightarrow> 'a fs_scheme \<Rightarrow> (nat, 'a fs_scheme) out" where
  "ialloc dev ty s = ialloc_loop (unat (ninodes (sb s)) - 1) 1 dev ty s"

definition idup :: "nat \<Rightarrow> 'a fs_scheme \<Rightarrow> (nat, 'a fs_scheme) out" where
  "idup ip s =
     and_then (acquire LkItable s) (\<lambda>_ s.
     and_then (release LkItable (upd_inode ip (\<lambda>q. q\<lparr>iref := iref q + 1\<rparr>) s)) (\<lambda>_ s. Ok ip s))"

definition ilock :: "nat \<Rightarrow> 'a fs_scheme \<Rightarrow> (unit, 'a fs_scheme) out" where
  "ilock ip s =
     (if iref (inodes s ip) < 1 then Panic ''ilock''
      else and_then (acquiresleep (SlInode ip) s) (\<lambda>_ s.
        if \<not> ivalid (inodes s ip) then
          and_then (bread (idev (inodes s ip)) (IBLOCK (inum (inodes s ip)) (sb s)) s) (\<lambda>bp s.
            let s = upd_inode ip (load_dinode (dinode_off (inum (inodes s ip))) (bdata (bufs s bp))) s
            in and_then (brelse bp s) (\<lambda>_ s.
               let s = upd_inode ip (ivalid_update (\<lambda>_. True)) s
               in if itype (inodes s ip) = 0 then Panic ''ilock: no type'' else Ok () s))
        else Ok () s))"

definition iunlock :: "nat \<Rightarrow> 'a fs_scheme \<Rightarrow> (unit, 'a fs_scheme) out" where
  "iunlock ip s =
     and_then (holdingsleep (SlInode ip) s) (\<lambda>h s.
       if \<not> h \<or> iref (inodes s ip) < 1 then Panic ''iunlock'' else releasesleep (SlInode ip) s)"

section \<open>Inode content\<close>

definition bmap :: "nat \<Rightarrow> nat \<Rightarrow> 'a fs_scheme \<Rightarrow> (u32, 'a fs_scheme) out" where
  "bmap ip bn s =
     (if bn < NDIRECT then
        (let addr = addrs (inodes s ip) ! bn
         in if addr = 0 then
              and_then (balloc (idev (inodes s ip)) s) (\<lambda>addr s.
                Ok addr (upd_inode ip (\<lambda>q. q\<lparr>addrs := (addrs q)[bn := addr]\<rparr>) s))
            else Ok addr s)
      else let bn = bn - NDIRECT
      in if bn < NINDIRECT then
           and_then
             (let addr = addrs (inodes s ip) ! NDIRECT
              in if addr = 0 then
                   and_then (balloc (idev (inodes s ip)) s) (\<lambda>addr s.
                     Ok addr (upd_inode ip (\<lambda>q. q\<lparr>addrs := (addrs q)[NDIRECT := addr]\<rparr>) s))
                 else Ok addr s)
             (\<lambda>addr s.
                and_then (bread (idev (inodes s ip)) addr s) (\<lambda>bp s.
                and_then
                  (let addr = get32 (4 * bn) (bdata (bufs s bp))
                   in if addr = 0 then
                        and_then (balloc (idev (inodes s ip)) s) (\<lambda>addr s.
                        and_then (log_write bp (set_data bp (put32 (4 * bn) addr) s)) (\<lambda>_ s. Ok addr s))
                      else Ok addr s)
                  (\<lambda>addr s. and_then (brelse bp s) (\<lambda>_ s. Ok addr s))))
         else Panic ''bmap: out of range'')"

definition itrunc :: "nat \<Rightarrow> 'a fs_scheme \<Rightarrow> (unit, 'a fs_scheme) out" where
  "itrunc ip s =
     and_then
       (for_each (\<lambda>i s.
          if addrs (inodes s ip) ! i \<noteq> 0 then
            and_then (bfree (idev (inodes s ip)) (addrs (inodes s ip) ! i) s) (\<lambda>_ s.
              Ok () (upd_inode ip (\<lambda>q. q\<lparr>addrs := (addrs q)[i := 0]\<rparr>) s))
          else Ok () s)
          [0..<NDIRECT] s)
       (\<lambda>_ s.
     and_then
       (if addrs (inodes s ip) ! NDIRECT \<noteq> 0 then
          and_then (bread (idev (inodes s ip)) (addrs (inodes s ip) ! NDIRECT) s) (\<lambda>bp s.
          and_then
            (for_each (\<lambda>j s.
               let a = get32 (4 * j) (bdata (bufs s bp))
               in if a \<noteq> 0 then bfree (idev (inodes s ip)) a s else Ok () s)
               [0..<NINDIRECT] s)
            (\<lambda>_ s.
          and_then (brelse bp s) (\<lambda>_ s.
          and_then (bfree (idev (inodes s ip)) (addrs (inodes s ip) ! NDIRECT) s) (\<lambda>_ s.
            Ok () (upd_inode ip (\<lambda>q. q\<lparr>addrs := (addrs q)[NDIRECT := 0]\<rparr>) s)))))
        else Ok () s)
       (\<lambda>_ s. iupdate ip (upd_inode ip (isize_update (\<lambda>_. 0)) s)))"

definition iput :: "nat \<Rightarrow> 'a fs_scheme \<Rightarrow> (unit, 'a fs_scheme) out" where
  "iput ip s =
     and_then (acquire LkItable s) (\<lambda>_ s.
     and_then
       (if iref (inodes s ip) = 1 \<and> ivalid (inodes s ip) \<and> nlink (inodes s ip) = 0 then
          and_then (acquiresleep (SlInode ip) s) (\<lambda>_ s.
          and_then (release LkItable s) (\<lambda>_ s.
          and_then (itrunc ip s) (\<lambda>_ s.
          and_then (iupdate ip (upd_inode ip (itype_update (\<lambda>_. 0)) s)) (\<lambda>_ s.
          and_then (releasesleep (SlInode ip) (upd_inode ip (ivalid_update (\<lambda>_. False)) s)) (\<lambda>_ s.
          acquire LkItable s)))))
        else Ok () s)
       (\<lambda>_ s. release LkItable (upd_inode ip (\<lambda>q. q\<lparr>iref := iref q - 1\<rparr>) s)))"

definition iunlockput :: "nat \<Rightarrow> 'a fs_scheme \<Rightarrow> (unit, 'a fs_scheme) out" where
  "iunlockput ip s = and_then (iunlock ip s) (\<lambda>_ s. iput ip s)"

text \<open>
  \<^verbatim>\<open>struct stat\<close> as bytes.  The four bytes of padding before \<^verbatim>\<open>size\<close> are not assigned: they are
  whatever the kernel stack holds there.
\<close>

definition stati :: "nat \<Rightarrow> 'a fs_scheme \<Rightarrow> byte list" where
  "stati ip s =
     (let q = inodes s ip
      in bytes_of_word 4 (idev q) @ bytes_of_word 4 (inum q) @ bytes_of_word 2 (itype q) @
         bytes_of_word 2 (nlink q) @ stat_pad s @ bytes_of_word 8 (ucast (isize q) :: u64))"

text \<open>
  The copy loops of \<^verbatim>\<open>readi\<close> and \<^verbatim>\<open>writei\<close>: \<open>len\<close> bytes are left at file offset \<open>off\<close>, and each
  iteration moves \<open>chunk off len\<close> of them.  They return the number of bytes moved, or \<open>None\<close> when a
  copy fails; \<open>readi\<close> also returns what a kernel object receives.
\<close>

definition chunk :: "nat \<Rightarrow> nat \<Rightarrow> nat" where
  "chunk off len = min len (BSIZE - off mod BSIZE)"

lemma chunk_pos: "0 < len \<Longrightarrow> 0 < chunk off len"
  by (simp add: chunk_def BSIZE_def)

function readi_loop ::
  "nat \<Rightarrow> kaddr \<Rightarrow> nat \<Rightarrow> nat \<Rightarrow> 'a fs_scheme \<Rightarrow> (bool \<times> byte list, 'a fs_scheme) out" where
  "readi_loop ip dst off len s =
     (if 0 < len then
        and_then (bmap ip (off div BSIZE) s) (\<lambda>addr s.
        and_then (bread (idev (inodes s ip)) addr s) (\<lambda>bp s.
        let m = chunk off len; bs = take m (drop (off mod BSIZE) (bdata (bufs s bp)))
        in and_then (either_copyout dst bs s) (\<lambda>(r, obj) s.
           if r = - 1 then and_then (brelse bp s) (\<lambda>_ s. Ok (False, obj) s)
           else and_then (brelse bp s) (\<lambda>_ s.
                and_then (readi_loop ip (kaddr_add dst m) (off + m) (len - m) s) (\<lambda>(ok, rest) s.
                  Ok (ok, obj @ rest) s)))))
      else Ok (True, []) s)"
  by pat_completeness auto
termination
  by (relation "measure (\<lambda>(ip, dst, off, len, s). len)") (auto simp: chunk_pos)

function writei_loop ::
  "nat \<Rightarrow> kaddr \<Rightarrow> nat \<Rightarrow> nat \<Rightarrow> 'a fs_scheme \<Rightarrow> (nat, 'a fs_scheme) out" where
  "writei_loop ip src off len s =
     (if 0 < len then
        and_then (bmap ip (off div BSIZE) s) (\<lambda>addr s.
        and_then (bread (idev (inodes s ip)) addr s) (\<lambda>bp s.
        let m = chunk off len
        in and_then (either_copyin src m s) (\<lambda>(r, bs) s.
           let s = set_data bp (put_at (off mod BSIZE) bs) s
           in if r = - 1 then and_then (brelse bp s) (\<lambda>_ s. Ok 0 s)
              else and_then (log_write bp s) (\<lambda>_ s.
                   and_then (brelse bp s) (\<lambda>_ s.
                   and_then (writei_loop ip (kaddr_add src m) (off + m) (len - m) s) (\<lambda>k s.
                     Ok (m + k) s))))))
      else Ok 0 s)"
  by pat_completeness auto
termination
  by (relation "measure (\<lambda>(ip, src, off, len, s). len)") (auto simp: chunk_pos)

declare readi_loop.simps [simp del] writei_loop.simps [simp del]

definition readi :: "nat \<Rightarrow> kaddr \<Rightarrow> u32 \<Rightarrow> u32 \<Rightarrow> 'a fs_scheme \<Rightarrow> (int \<times> byte list, 'a fs_scheme) out" where
  "readi ip dst off n s =
     (if isize (inodes s ip) < off \<or> off + n < off then Ok (0, []) s
      else let n = (if isize (inodes s ip) < off + n then isize (inodes s ip) - off else n)
           in and_then (readi_loop ip dst (unat off) (unat n) s) (\<lambda>(ok, obj) s.
                Ok (if ok then sint n else - 1, obj) s))"

definition writei :: "nat \<Rightarrow> kaddr \<Rightarrow> u32 \<Rightarrow> u32 \<Rightarrow> 'a fs_scheme \<Rightarrow> (int, 'a fs_scheme) out" where
  "writei ip src off n s =
     (if isize (inodes s ip) < off \<or> off + n < off then Ok (- 1) s
      else if MAXFILE * BSIZE < unat (off + n) then Ok (- 1) s
      else and_then (writei_loop ip src (unat off) (unat n) s) (\<lambda>tot s.
        let off = off + of_nat tot;
            s = (if isize (inodes s ip) < off then upd_inode ip (isize_update (\<lambda>_. off)) s else s)
        in and_then (iupdate ip s) (\<lambda>_ s. Ok (int tot) s)))"

section \<open>Directories\<close>

text \<open>A C string given by the bytes before its terminator (and whatever follows).\<close>

definition cstr_of :: "byte list \<Rightarrow> cstr" where
  "cstr_of bs = (\<lambda>i. if i < length bs then bs ! i else 0)"

definition namecmp :: "byte list \<Rightarrow> byte list \<Rightarrow> int" where
  "namecmp p q = strncmp (cstr_of p) (cstr_of q) DIRSIZ"

definition de_inum :: "byte list \<Rightarrow> u16" where
  "de_inum de = get16 0 de"

definition de_name :: "byte list \<Rightarrow> byte list" where
  "de_name de = take DIRSIZ (drop 2 de)"

text \<open>
  The scans of a directory; the first argument bounds the number of entries, and a directory of
  size \<open>isize\<close> has at most \<open>isize div 16 + 1\<close> of them.
\<close>

fun dirlookup_loop ::
  "nat \<Rightarrow> nat \<Rightarrow> byte list \<Rightarrow> u32 \<Rightarrow> 'a fs_scheme \<Rightarrow> ((nat \<times> u32) option, 'a fs_scheme) out" where
  "dirlookup_loop 0 dp name off s = Spin"
| "dirlookup_loop (Suc k) dp name off s =
     (if off < isize (inodes s dp) then
        and_then (readi dp (KernObj []) off (of_nat DIRENT_SIZE) s) (\<lambda>(r, de) s.
          if r \<noteq> int DIRENT_SIZE then Panic ''dirlookup read''
          else if de_inum de = 0 then dirlookup_loop k dp name (off + of_nat DIRENT_SIZE) s
          else if namecmp name (de_name de) = 0 then
            and_then (iget (idev (inodes s dp)) (ucast (de_inum de)) s) (\<lambda>ip s. Ok (Some (ip, off)) s)
          else dirlookup_loop k dp name (off + of_nat DIRENT_SIZE) s)
      else Ok None s)"

definition dir_fuel :: "u32 \<Rightarrow> nat" where
  "dir_fuel n = unat n div DIRENT_SIZE + 2"

definition dirlookup ::
  "nat \<Rightarrow> byte list \<Rightarrow> 'a fs_scheme \<Rightarrow> ((nat \<times> u32) option, 'a fs_scheme) out" where
  "dirlookup dp name s =
     (if itype (inodes s dp) \<noteq> T_DIR then Panic ''dirlookup not DIR''
      else dirlookup_loop (dir_fuel (isize (inodes s dp))) dp name 0 s)"

fun dirlink_slot :: "nat \<Rightarrow> nat \<Rightarrow> u32 \<Rightarrow> 'a fs_scheme \<Rightarrow> (u32, 'a fs_scheme) out" where
  "dirlink_slot 0 dp off s = Spin"
| "dirlink_slot (Suc k) dp off s =
     (if off < isize (inodes s dp) then
        and_then (readi dp (KernObj []) off (of_nat DIRENT_SIZE) s) (\<lambda>(r, de) s.
          if r \<noteq> int DIRENT_SIZE then Panic ''dirlink read''
          else if de_inum de = 0 then Ok off s
          else dirlink_slot k dp (off + of_nat DIRENT_SIZE) s)
      else Ok off s)"

text \<open>The entry written by \<^verbatim>\<open>dirlink\<close>: the inode number, then the name padded by \<^verbatim>\<open>strncpy\<close>.\<close>

definition dirent :: "byte list \<Rightarrow> u16 \<Rightarrow> byte list" where
  "dirent name ino =
     bytes_of_word 2 ino @ map (strncpy (\<lambda>_. 0) (cstr_of name) (int DIRSIZ)) [0..<DIRSIZ]"

definition dirlink :: "nat \<Rightarrow> byte list \<Rightarrow> u32 \<Rightarrow> 'a fs_scheme \<Rightarrow> (int, 'a fs_scheme) out" where
  "dirlink dp name ino s =
     and_then (dirlookup dp name s) (\<lambda>found s. case found of
       Some (ip, _) \<Rightarrow> and_then (iput ip s) (\<lambda>_ s. Ok (- 1) s)
     | None \<Rightarrow>
         and_then (dirlink_slot (dir_fuel (isize (inodes s dp))) dp 0 s) (\<lambda>off s.
         and_then (writei dp (KernObj (dirent name (ucast ino))) off (of_nat DIRENT_SIZE) s) (\<lambda>r s.
           if r \<noteq> int DIRENT_SIZE then Panic ''dirlink'' else Ok 0 s)))"

section \<open>Paths\<close>

text \<open>The next element of a path, with the buffer \<^verbatim>\<open>name\<close> it is copied into.\<close>

definition skipelem :: "byte list \<Rightarrow> byte list \<Rightarrow> (byte list \<times> byte list) option" where
  "skipelem path name =
     (let path = dropWhile (\<lambda>c. c = 47) path
      in if path = [] then None
         else let elem = takeWhile (\<lambda>c. c \<noteq> 47) path; path = dropWhile (\<lambda>c. c \<noteq> 47) path;
                  name = (if DIRSIZ \<le> length elem then take DIRSIZ elem @ drop DIRSIZ name
                          else elem @ 0 # drop (length elem + 1) name)
              in Some (dropWhile (\<lambda>c. c = 47) path, name))"

lemma skipelem_shorter: "skipelem path name = Some (path', name') \<Longrightarrow> length path' < length path"
proof -
  assume a: "skipelem path name = Some (path', name')"
  define q where "q = dropWhile (\<lambda>c. c = 47) path"
  have q: "q \<noteq> []" "hd q \<noteq> 47"
    using a hd_dropWhile [of "\<lambda>c. c = 47" path] by (auto simp: skipelem_def q_def Let_def split: if_splits)
  have p: "path' = dropWhile (\<lambda>c. c = 47) (dropWhile (\<lambda>c. c \<noteq> 47) q)"
    using a by (auto simp: skipelem_def q_def Let_def split: if_splits)
  have "length path' \<le> length (dropWhile (\<lambda>c. c \<noteq> 47) q)"
    unfolding p by (rule length_dropWhile_le)
  also have "\<dots> < length q"
    using q length_dropWhile_le [of "\<lambda>c. c \<noteq> 47" "tl q"] by (cases q) auto
  also have "\<dots> \<le> length path" unfolding q_def by (rule length_dropWhile_le)
  finally show ?thesis .
qed

function namex_loop ::
  "byte list \<Rightarrow> bool \<Rightarrow> byte list \<Rightarrow> nat \<Rightarrow> 'a fs_scheme \<Rightarrow> (nat option \<times> byte list, 'a fs_scheme) out" where
  "namex_loop path nameiparent name ip s =
     (case skipelem path name of
        None \<Rightarrow>
          if nameiparent then and_then (iput ip s) (\<lambda>_ s. Ok (None, name) s) else Ok (Some ip, name) s
      | Some (path, name) \<Rightarrow>
          and_then (ilock ip s) (\<lambda>_ s.
            if itype (inodes s ip) \<noteq> T_DIR then and_then (iunlockput ip s) (\<lambda>_ s. Ok (None, name) s)
            else if nameiparent \<and> path = [] then and_then (iunlock ip s) (\<lambda>_ s. Ok (Some ip, name) s)
            else and_then (dirlookup ip name s) (\<lambda>next s. case next of
              None \<Rightarrow> and_then (iunlockput ip s) (\<lambda>_ s. Ok (None, name) s)
            | Some (ip', _) \<Rightarrow>
                and_then (iunlockput ip s) (\<lambda>_ s. namex_loop path nameiparent name ip' s))))"
  by pat_completeness auto
termination
  by (relation "measure (\<lambda>(path, np, name, ip, s). length path)") (auto simp: skipelem_shorter)

declare namex_loop.simps [simp del]

definition namex ::
  "byte list \<Rightarrow> bool \<Rightarrow> byte list \<Rightarrow> 'a fs_scheme \<Rightarrow> (nat option \<times> byte list, 'a fs_scheme) out" where
  "namex path nameiparent name s =
     and_then
       (if path \<noteq> [] \<and> hd path = 47 then iget ROOTDEV ROOTINO s
        else with_proc (\<lambda>p s. case cwd (ptab s p) of None \<Rightarrow> Panic ''kerneltrap'' | Some d \<Rightarrow> idup d s) s)
       (\<lambda>ip s. namex_loop path nameiparent name ip s)"

definition namei :: "byte list \<Rightarrow> 'a fs_scheme \<Rightarrow> (nat option, 'a fs_scheme) out" where
  "namei path s = and_then (namex path False (replicate DIRSIZ 0) s) (\<lambda>(ip, _) s. Ok ip s)"

definition nameiparent ::
  "byte list \<Rightarrow> byte list \<Rightarrow> 'a fs_scheme \<Rightarrow> (nat option \<times> byte list, 'a fs_scheme) out" where
  "nameiparent path name s = namex path True name s"

end
