(* ===== verification/File.thy ===== *)
theory File
  imports Fs
begin

text \<open>
  Open files and pipes: \<^verbatim>\<open>kernel/file.c\<close> and \<^verbatim>\<open>kernel/pipe.c\<close>.  An open file is named by its index in
  \<^verbatim>\<open>ftable\<close>.  A pipe is the page \<^verbatim>\<open>kalloc\<close> returned, accessed at the offsets of \<^verbatim>\<open>struct pipe\<close>; its
  lock is \<open>LkPipe\<close> of that address.
\<close>

datatype filetype = FD_NONE | FD_PIPE | FD_INODE | FD_DEVICE

record kfile =
  ftype :: filetype
  fref :: int
  readable :: bool
  writable :: bool
  fpipe :: u64
  fip :: "nat option"
  foff :: u32
  fmajor :: u16

record files = fs +
  ftable :: "nat \<Rightarrow> kfile"

definition NFILE :: nat where "NFILE = 100"
definition NDEV :: nat where "NDEV = 10"

definition upd_file :: "nat \<Rightarrow> (kfile \<Rightarrow> kfile) \<Rightarrow> 'a files_scheme \<Rightarrow> 'a files_scheme" where
  "upd_file f g s = s\<lparr>ftable := (ftable s)(f := g (ftable s f))\<rparr>"

section \<open>Pipes\<close>

definition PIPESIZE :: nat where "PIPESIZE = 512"
definition pipe_data :: u64 where "pipe_data = 24"
definition pipe_nread :: u64 where "pipe_nread = 536"
definition pipe_nwrite :: u64 where "pipe_nwrite = 540"
definition pipe_readopen :: u64 where "pipe_readopen = 544"
definition pipe_writeopen :: u64 where "pipe_writeopen = 548"

definition ld32 :: "memory \<Rightarrow> u64 \<Rightarrow> u32" where
  "ld32 m a = word_of_bytes (rd m a 4)"

definition st32 :: "memory \<Rightarrow> u64 \<Rightarrow> u32 \<Rightarrow> memory" where
  "st32 m a v = wr m a (bytes_of_word 4 v)"

definition pipe_get :: "u64 \<Rightarrow> u64 \<Rightarrow> 'a kmem_scheme \<Rightarrow> u32" where
  "pipe_get pi off s = ld32 (mem s) (pi + off)"

definition pipe_set :: "u64 \<Rightarrow> u64 \<Rightarrow> u32 \<Rightarrow> 'a kmem_scheme \<Rightarrow> 'a kmem_scheme" where
  "pipe_set pi off v s = s\<lparr>mem := st32 (mem s) (pi + off) v\<rparr>"

definition pipe_slot :: "u64 \<Rightarrow> u32 \<Rightarrow> u64" where
  "pipe_slot pi i = pi + pipe_data + of_nat (unat i mod PIPESIZE)"

definition pipeclose :: "u64 \<Rightarrow> bool \<Rightarrow> 'a procs_scheme \<Rightarrow> (unit, 'a procs_scheme) out" where
  "pipeclose pi w s =
     and_then (acquire (LkPipe pi) s) (\<lambda>_ s.
     and_then
       (if w then wakeup (Some (ChPipeRead pi)) (pipe_set pi pipe_writeopen 0 s)
        else wakeup (Some (ChPipeWrite pi)) (pipe_set pi pipe_readopen 0 s))
       (\<lambda>_ s.
        if pipe_get pi pipe_readopen s = 0 \<and> pipe_get pi pipe_writeopen s = 0
        then and_then (release (LkPipe pi) s) (\<lambda>_ s. kfree pi s)
        else release (LkPipe pi) s))"

text \<open>
  The loop of \<^verbatim>\<open>pipewrite\<close>: \<open>Some i\<close> when it ends with \<open>i\<close> bytes written, \<open>None\<close> when the reader is
  gone or the caller has been killed (the lock is then released).  The first argument bounds the
  number of iterations: one per byte and one per wake-up.
\<close>

fun pipewrite_loop ::
  "nat \<Rightarrow> nat \<Rightarrow> u64 \<Rightarrow> u64 \<Rightarrow> nat \<Rightarrow> nat \<Rightarrow> 'a procs_scheme \<Rightarrow> (nat option, 'a procs_scheme) out" where
  "pipewrite_loop 0 pr pi addr i n s = Spin"
| "pipewrite_loop (Suc k) pr pi addr i n s =
     (if i < n then
        if pipe_get pi pipe_readopen s = 0 \<or> killed (ptab s pr) \<noteq> 0
        then and_then (release (LkPipe pi) s) (\<lambda>_ s. Ok None s)
        else if pipe_get pi pipe_nwrite s = pipe_get pi pipe_nread s + of_nat PIPESIZE
        then and_then (wakeup (Some (ChPipeRead pi)) s) (\<lambda>_ s.
             and_then (sleep (ChPipeWrite pi) (LkPipe pi) s) (\<lambda>_ s.
             pipewrite_loop k pr pi addr i n s))
        else and_then (copyin (pagetable (ptab s pr)) (addr + of_nat i) 1 s) (\<lambda>(r, bs) s.
          if r = - 1 then Ok (Some i) s
          else let w = pipe_get pi pipe_nwrite s;
                   s = pipe_set pi pipe_nwrite (w + 1) s;
                   s = s\<lparr>mem := (mem s)(pipe_slot pi w := hd bs)\<rparr>
               in pipewrite_loop k pr pi addr (Suc i) n s)
      else Ok (Some i) s)"

definition pipewrite :: "u64 \<Rightarrow> u64 \<Rightarrow> i32 \<Rightarrow> 'a procs_scheme \<Rightarrow> (int, 'a procs_scheme) out" where
  "pipewrite pi addr n s =
     with_proc (\<lambda>pr s.
       and_then (acquire (LkPipe pi) s) (\<lambda>_ s.
       and_then (pipewrite_loop (Suc (nat (sint n) + WAKEUPS)) pr pi addr 0 (nat (sint n)) s) (\<lambda>r s. case r of
         None \<Rightarrow> Ok (- 1) s
       | Some i \<Rightarrow> and_then (wakeup (Some (ChPipeRead pi)) s) (\<lambda>_ s.
           and_then (release (LkPipe pi) s) (\<lambda>_ s. Ok (int i) s))))) s"

text \<open>Waiting for data: \<open>True\<close> to go on, \<open>False\<close> when the caller has been killed (lock released).\<close>

fun piperead_wait :: "nat \<Rightarrow> nat \<Rightarrow> u64 \<Rightarrow> 'a procs_scheme \<Rightarrow> (bool, 'a procs_scheme) out" where
  "piperead_wait 0 pr pi s = Spin"
| "piperead_wait (Suc k) pr pi s =
     (if pipe_get pi pipe_nread s = pipe_get pi pipe_nwrite s \<and> pipe_get pi pipe_writeopen s \<noteq> 0 then
        if killed (ptab s pr) \<noteq> 0 then and_then (release (LkPipe pi) s) (\<lambda>_ s. Ok False s)
        else and_then (sleep (ChPipeRead pi) (LkPipe pi) s) (\<lambda>_ s. piperead_wait k pr pi s)
      else Ok True s)"

fun piperead_loop :: "nat \<Rightarrow> u64 \<Rightarrow> u64 \<Rightarrow> nat \<Rightarrow> nat \<Rightarrow> 'a procs_scheme \<Rightarrow> (nat, 'a procs_scheme) out" where
  "piperead_loop pr pi addr i 0 s = Ok i s"
| "piperead_loop pr pi addr i (Suc n) s =
     (if pipe_get pi pipe_nread s = pipe_get pi pipe_nwrite s then Ok i s
      else let r = pipe_get pi pipe_nread s;
               s = pipe_set pi pipe_nread (r + 1) s;
               ch = mem s (pipe_slot pi r)
           in and_then (copyout (pagetable (ptab s pr)) (addr + of_nat i) [ch] s) (\<lambda>c s.
                if c = - 1 then Ok i s else piperead_loop pr pi addr (Suc i) n s))"

definition piperead :: "u64 \<Rightarrow> u64 \<Rightarrow> i32 \<Rightarrow> 'a procs_scheme \<Rightarrow> (int, 'a procs_scheme) out" where
  "piperead pi addr n s =
     with_proc (\<lambda>pr s.
       and_then (acquire (LkPipe pi) s) (\<lambda>_ s.
       and_then (piperead_wait WAKEUPS pr pi s) (\<lambda>go s.
         if \<not> go then Ok (- 1) s
         else and_then (piperead_loop pr pi addr 0 (nat (sint n)) s) (\<lambda>i s.
              and_then (wakeup (Some (ChPipeWrite pi)) s) (\<lambda>_ s.
              and_then (release (LkPipe pi) s) (\<lambda>_ s. Ok (int i) s)))))) s"

section \<open>The file table\<close>

definition fileinit :: "'a files_scheme \<Rightarrow> 'a files_scheme" where
  "fileinit s = initlock LkFtable ''ftable'' s"

definition filealloc :: "'a files_scheme \<Rightarrow> (nat option, 'a files_scheme) out" where
  "filealloc s =
     and_then (acquire LkFtable s) (\<lambda>_ s.
       case find (\<lambda>f. fref (ftable s f) = 0) [0..<NFILE] of
         Some f \<Rightarrow>
           let s = upd_file f (fref_update (\<lambda>_. 1)) s
           in and_then (release LkFtable s) (\<lambda>_ s. Ok (Some f) s)
       | None \<Rightarrow> and_then (release LkFtable s) (\<lambda>_ s. Ok None s))"

definition filedup :: "nat \<Rightarrow> 'a files_scheme \<Rightarrow> (nat, 'a files_scheme) out" where
  "filedup f s =
     and_then (acquire LkFtable s) (\<lambda>_ s.
       if fref (ftable s f) < 1 then Panic ''filedup''
       else let s = upd_file f (\<lambda>q. q\<lparr>fref := fref q + 1\<rparr>) s
            in and_then (release LkFtable s) (\<lambda>_ s. Ok f s))"

definition fileclose :: "nat \<Rightarrow> 'a files_scheme \<Rightarrow> (unit, 'a files_scheme) out" where
  "fileclose f s =
     and_then (acquire LkFtable s) (\<lambda>_ s.
       if fref (ftable s f) < 1 then Panic ''fileclose''
       else let s = upd_file f (\<lambda>q. q\<lparr>fref := fref q - 1\<rparr>) s
       in if 0 < fref (ftable s f) then release LkFtable s
          else let ff = ftable s f;
                   s = upd_file f (\<lambda>q. q\<lparr>fref := 0, ftype := FD_NONE\<rparr>) s
               in and_then (release LkFtable s) (\<lambda>_ s. case ftype ff of
                    FD_PIPE \<Rightarrow> pipeclose (fpipe ff) (writable ff) s
                  | FD_NONE \<Rightarrow> Ok () s
                  | _ \<Rightarrow> and_then (begin_op s) (\<lambda>_ s.
                      and_then (case fip ff of None \<Rightarrow> Panic ''kerneltrap'' | Some ip \<Rightarrow> iput ip s) (\<lambda>_ s.
                      end_op s))))"

definition pipealloc :: "'a files_scheme \<Rightarrow> ((nat \<times> nat) option, 'a files_scheme) out" where
  "pipealloc s =
     (let bad = (\<lambda>f0 f1 s.
            and_then (case f0 of None \<Rightarrow> Ok () s | Some f \<Rightarrow> fileclose f s) (\<lambda>_ s.
            and_then (case f1 of None \<Rightarrow> Ok () s | Some f \<Rightarrow> fileclose f s) (\<lambda>_ s. Ok None s)))
      in and_then (filealloc s) (\<lambda>f0 s. case f0 of
           None \<Rightarrow> bad None None s
         | Some r \<Rightarrow> and_then (filealloc s) (\<lambda>f1 s. case f1 of
           None \<Rightarrow> bad (Some r) None s
         | Some w \<Rightarrow> and_then (kalloc s) (\<lambda>pi s.
           if pi = 0 then bad (Some r) (Some w) s
           else let s = pipe_set pi pipe_readopen 1 s;
                    s = pipe_set pi pipe_writeopen 1 s;
                    s = pipe_set pi pipe_nwrite 0 s;
                    s = pipe_set pi pipe_nread 0 s;
                    s = initlock (LkPipe pi) ''pipe'' s;
                    s = upd_file r (\<lambda>q. q\<lparr>ftype := FD_PIPE, readable := True, writable := False, fpipe := pi\<rparr>) s;
                    s = upd_file w (\<lambda>q. q\<lparr>ftype := FD_PIPE, readable := False, writable := True, fpipe := pi\<rparr>) s
                in Ok (Some (r, w)) s))))"

text \<open>Following the inode pointer of an open file.\<close>

definition with_ip :: "nat \<Rightarrow> (nat \<Rightarrow> 'a files_scheme \<Rightarrow> ('b, 'a files_scheme) out) \<Rightarrow>
    'a files_scheme \<Rightarrow> ('b, 'a files_scheme) out" where
  "with_ip f g s = (case fip (ftable s f) of None \<Rightarrow> Panic ''ilock'' | Some ip \<Rightarrow> g ip s)"

definition filestat :: "nat \<Rightarrow> u64 \<Rightarrow> 'a files_scheme \<Rightarrow> (int, 'a files_scheme) out" where
  "filestat f addr s =
     with_proc (\<lambda>p s.
       if ftype (ftable s f) = FD_INODE \<or> ftype (ftable s f) = FD_DEVICE then
         with_ip f (\<lambda>ip s.
           and_then (ilock ip s) (\<lambda>_ s.
           let st = stati ip s
           in and_then (iunlock ip s) (\<lambda>_ s.
              and_then (copyout (pagetable (ptab s p)) addr st s) (\<lambda>r s.
                Ok (if r < 0 then - 1 else 0) s)))) s
       else Ok (- 1) s) s"

definition dev_ok :: "u16 \<Rightarrow> 'a io_scheme \<Rightarrow> bool" where
  "dev_ok maj s \<longleftrightarrow> 0 \<le> sint maj \<and> sint maj < int NDEV \<and> devsw s (unat maj) \<noteq> None"

definition fileread :: "nat \<Rightarrow> u64 \<Rightarrow> i32 \<Rightarrow> 'a files_scheme \<Rightarrow> (int, 'a files_scheme) out" where
  "fileread f addr n s =
     (if \<not> readable (ftable s f) then Ok (- 1) s
      else case ftype (ftable s f) of
        FD_PIPE \<Rightarrow> piperead (fpipe (ftable s f)) addr n s
      | FD_DEVICE \<Rightarrow>
          if \<not> dev_ok (fmajor (ftable s f)) s then Ok (- 1) s else consoleread (UserAddr addr) n s
      | FD_INODE \<Rightarrow>
          with_ip f (\<lambda>ip s.
            and_then (ilock ip s) (\<lambda>_ s.
            and_then (readi ip (UserAddr addr) (foff (ftable s f)) n s) (\<lambda>(r, _) s.
            let s = (if 0 < r then upd_file f (\<lambda>q. q\<lparr>foff := foff q + word_of_int r\<rparr>) s else s)
            in and_then (iunlock ip s) (\<lambda>_ s. Ok r s)))) s
      | FD_NONE \<Rightarrow> Panic ''fileread'')"

definition FILEWRITE_MAX :: nat where
  "FILEWRITE_MAX = (MAXOPBLOCKS - 1 - 1 - 2) div 2 * BSIZE"

text \<open>The loop of \<^verbatim>\<open>filewrite\<close> with \<open>len\<close> bytes left: \<open>True\<close> when all of them are written.\<close>

function filewrite_loop :: "nat \<Rightarrow> nat \<Rightarrow> u64 \<Rightarrow> nat \<Rightarrow> 'a files_scheme \<Rightarrow> (bool, 'a files_scheme) out" where
  "filewrite_loop f ip addr len s =
     (if 0 < len then
        let n1 = min len FILEWRITE_MAX
        in and_then (begin_op s) (\<lambda>_ s.
           and_then (ilock ip s) (\<lambda>_ s.
           and_then (writei ip (UserAddr addr) (foff (ftable s f)) (of_nat n1) s) (\<lambda>r s.
           let s = (if 0 < r then upd_file f (\<lambda>q. q\<lparr>foff := foff q + word_of_int r\<rparr>) s else s)
           in and_then (iunlock ip s) (\<lambda>_ s.
              and_then (end_op s) (\<lambda>_ s.
              if r \<noteq> int n1 then Ok False s
              else filewrite_loop f ip (addr + of_nat n1) (len - n1) s)))))
      else Ok True s)"
  by pat_completeness auto
termination
  by (relation "measure (\<lambda>(f, ip, addr, len, s). len)") (auto simp: FILEWRITE_MAX_def MAXOPBLOCKS_def BSIZE_def)

declare filewrite_loop.simps [simp del]

definition filewrite :: "nat \<Rightarrow> u64 \<Rightarrow> i32 \<Rightarrow> 'a files_scheme \<Rightarrow> (int, 'a files_scheme) out" where
  "filewrite f addr n s =
     (if \<not> writable (ftable s f) then Ok (- 1) s
      else case ftype (ftable s f) of
        FD_PIPE \<Rightarrow> pipewrite (fpipe (ftable s f)) addr n s
      | FD_DEVICE \<Rightarrow>
          if \<not> dev_ok (fmajor (ftable s f)) s then Ok (- 1) s else consolewrite (UserAddr addr) n s
      | FD_INODE \<Rightarrow>
          (if sint n < 0 then Ok (- 1) s
           else if n = 0 then Ok 0 s
           else with_ip f (\<lambda>ip s.
             and_then (filewrite_loop f ip addr (nat (sint n)) s) (\<lambda>done_all s.
               Ok (if done_all then sint n else - 1) s)) s)
      | FD_NONE \<Rightarrow> Panic ''filewrite'')"

end
