(* ===== verification/Exec.thy ===== *)
theory Exec
  imports File
begin

text \<open>
  The routines of \<^verbatim>\<open>kernel/proc.c\<close> that use the file system (\<^verbatim>\<open>userinit\<close>, \<^verbatim>\<open>fork\<close>, \<^verbatim>\<open>exit\<close>) and
  \<^verbatim>\<open>kernel/exec.c\<close>.
\<close>

section \<open>Creating, copying and ending processes\<close>

definition initcode :: "byte list" where
  "initcode =
     [0x17, 0x05, 0x00, 0x00, 0x13, 0x05, 0x45, 0x02,
      0x97, 0x05, 0x00, 0x00, 0x93, 0x85, 0x35, 0x02,
      0x93, 0x08, 0x70, 0x00, 0x73, 0x00, 0x00, 0x00,
      0x93, 0x08, 0x20, 0x00, 0x73, 0x00, 0x00, 0x00,
      0xef, 0xf0, 0x9f, 0xff, 0x2f, 0x69, 0x6e, 0x69,
      0x74, 0x00, 0x00, 0x24, 0x00, 0x00, 0x00, 0x00,
      0x00, 0x00, 0x00, 0x00]"

definition set_pname :: "byte list \<Rightarrow> proc \<Rightarrow> proc" where
  "set_pname nm q =
     q\<lparr>pname := map (safestrcpy (cstr_of (pname q)) (cstr_of nm) 16) [0..<16]\<rparr>"

definition userinit :: "'a files_scheme \<Rightarrow> (unit, 'a files_scheme) out" where
  "userinit s =
     and_then (allocproc s) (\<lambda>p s.
       let s = s\<lparr>initproc := p\<rparr>
       in case p of None \<Rightarrow> Panic ''kerneltrap'' | Some p \<Rightarrow>
          and_then (uvminit (pagetable (ptab s p)) initcode s) (\<lambda>_ s.
          let s = upd_proc p (sz_update (\<lambda>_. PGSIZE)) s;
              s = tf_set tf_epc p 0 s;
              s = tf_set tf_sp p PGSIZE s;
              s = upd_proc p (set_pname (bytes ''initcode'')) s
          in and_then (namei (bytes ''/'') s) (\<lambda>ip s.
             let s = upd_proc p (cwd_update (\<lambda>_. ip)) s;
                 s = upd_proc p (state_update (\<lambda>_. RUNNABLE)) s
             in release (LkProc p) s)))"

definition TRAPFRAME_SIZE :: nat where "TRAPFRAME_SIZE = 288"

text \<open>Duplicating the open files of \<open>p\<close> into \<open>np\<close>, one descriptor at a time.\<close>

definition fork_files :: "nat \<Rightarrow> nat \<Rightarrow> 'a files_scheme \<Rightarrow> (unit, 'a files_scheme) out" where
  "fork_files p np s =
     for_each (\<lambda>i s. case ofile (ptab s p) ! i of
         None \<Rightarrow> Ok () s
       | Some f \<Rightarrow> and_then (filedup f s) (\<lambda>f s.
           Ok () (upd_proc np (\<lambda>q. q\<lparr>ofile := (ofile q)[i := Some f]\<rparr>) s)))
       [0..<NOFILE] s"

definition fork :: "'a files_scheme \<Rightarrow> (int, 'a files_scheme) out" where
  "fork s =
     with_proc (\<lambda>p s.
       and_then (allocproc s) (\<lambda>np s. case np of None \<Rightarrow> Ok (- 1) s | Some np \<Rightarrow>
       and_then (uvmcopy (pagetable (ptab s p)) (pagetable (ptab s np)) (sz (ptab s p)) s) (\<lambda>r s.
       if r < 0 then
         and_then (freeproc np s) (\<lambda>_ s. and_then (release (LkProc np) s) (\<lambda>_ s. Ok (- 1) s))
       else
         let s = upd_proc np (sz_update (\<lambda>_. sz (ptab s p))) s;
             s = s\<lparr>mem := wr (mem s) (trapframe (ptab s np)) (rd (mem s) (trapframe (ptab s p)) TRAPFRAME_SIZE)\<rparr>;
             s = tf_set tf_a0 np 0 s
         in and_then (fork_files p np s) (\<lambda>_ s.
            and_then (case cwd (ptab s p) of None \<Rightarrow> Panic ''kerneltrap'' | Some d \<Rightarrow> idup d s) (\<lambda>d s.
            let s = upd_proc np (cwd_update (\<lambda>_. Some d)) s;
                s = upd_proc np (set_pname (pname (ptab s p))) s;
                n = sint (pid (ptab s np))
            in and_then (release (LkProc np) s) (\<lambda>_ s.
               and_then (acquire LkWait s) (\<lambda>_ s.
               let s = upd_proc np (parent_update (\<lambda>_. Some p)) s
               in and_then (release LkWait s) (\<lambda>_ s.
                  and_then (acquire (LkProc np) s) (\<lambda>_ s.
                  let s = upd_proc np (state_update (\<lambda>_. RUNNABLE)) s
                  in and_then (release (LkProc np) s) (\<lambda>_ s. Ok n s)))))))))) s"

definition exit_files :: "nat \<Rightarrow> 'a files_scheme \<Rightarrow> (unit, 'a files_scheme) out" where
  "exit_files p s =
     for_each (\<lambda>fd s. case ofile (ptab s p) ! fd of
         None \<Rightarrow> Ok () s
       | Some f \<Rightarrow> and_then (fileclose f s) (\<lambda>_ s.
           Ok () (upd_proc p (\<lambda>q. q\<lparr>ofile := (ofile q)[fd := None]\<rparr>) s)))
       [0..<NOFILE] s"

definition exit :: "i32 \<Rightarrow> 'a files_scheme \<Rightarrow> ('b, 'a files_scheme) out" where
  "exit status s =
     with_proc (\<lambda>p s.
       if Some p = initproc s then Panic ''init exiting''
       else and_then (exit_files p s) (\<lambda>_ s.
         and_then (begin_op s) (\<lambda>_ s.
         and_then (case cwd (ptab s p) of None \<Rightarrow> Panic ''kerneltrap'' | Some d \<Rightarrow> iput d s) (\<lambda>_ s.
         and_then (end_op s) (\<lambda>_ s.
         let s = upd_proc p (cwd_update (\<lambda>_. None)) s
         in and_then (acquire LkWait s) (\<lambda>_ s.
            and_then (reparent p s) (\<lambda>_ s.
            and_then (wakeup (map_option ChProc (parent (ptab s p))) s) (\<lambda>_ s.
            and_then (acquire (LkProc p) s) (\<lambda>_ s.
            let s = upd_proc p (\<lambda>q. q\<lparr>xstate := status, state := ZOMBIE\<rparr>) s
            in and_then (release LkWait s) (\<lambda>_ s.
               and_then (sched s) (\<lambda>_ s. Panic ''zombie exit''))))))))))) s"

section \<open>ELF files\<close>

definition ELF_MAGIC :: u32 where "ELF_MAGIC = 0x464C457F"
definition ELF_PROG_LOAD :: u32 where "ELF_PROG_LOAD = 1"
definition ELFHDR_SIZE :: nat where "ELFHDR_SIZE = 64"
definition PROGHDR_SIZE :: nat where "PROGHDR_SIZE = 56"
definition MAXARG :: nat where "MAXARG = 32"

record elfhdr =
  elf_magic :: u32
  elf_entry :: u64
  elf_phoff :: u64
  elf_phnum :: u16

definition elfhdr_of :: "byte list \<Rightarrow> elfhdr" where
  "elfhdr_of bs =
     \<lparr>elf_magic = get32 0 bs, elf_entry = get64 24 bs, elf_phoff = get64 32 bs, elf_phnum = get16 56 bs\<rparr>"

record proghdr =
  ph_type :: u32
  ph_off :: u64
  ph_vaddr :: u64
  ph_filesz :: u64
  ph_memsz :: u64

definition proghdr_of :: "byte list \<Rightarrow> proghdr" where
  "proghdr_of bs =
     \<lparr>ph_type = get32 0 bs, ph_off = get64 8 bs, ph_vaddr = get64 16 bs,
      ph_filesz = get64 32 bs, ph_memsz = get64 40 bs\<rparr>"

text \<open>Offsets and sizes are of the 32-bit type \<^verbatim>\<open>uint\<close>; the first argument counts pages.\<close>

fun loadseg_loop :: "nat \<Rightarrow> u64 \<Rightarrow> u64 \<Rightarrow> nat \<Rightarrow> u32 \<Rightarrow> u32 \<Rightarrow> u32 \<Rightarrow> 'a fs_scheme \<Rightarrow> (int, 'a fs_scheme) out" where
  "loadseg_loop 0 pt va ip offset len i s = Spin"
| "loadseg_loop (Suc k) pt va ip offset len i s =
     (if i < len then
        and_then (walkaddr pt (va + ucast i) s) (\<lambda>pa s.
          if pa = 0 then Panic ''loadseg: address should exist''
          else let n = (if len - i < 4096 then len - i else 4096)
          in and_then (readi ip (KernAddr pa) (offset + i) n s) (\<lambda>(r, _) s.
               if r \<noteq> uint n then Ok (- 1) s
               else loadseg_loop k pt va ip offset len (i + 4096) s))
      else Ok 0 s)"

definition loadseg :: "u64 \<Rightarrow> u64 \<Rightarrow> nat \<Rightarrow> u32 \<Rightarrow> u32 \<Rightarrow> 'a fs_scheme \<Rightarrow> (int, 'a fs_scheme) out" where
  "loadseg pt va ip offset len s = loadseg_loop (unat len div 4096 + 2) pt va ip offset len 0 s"

text \<open>
  The loop over the program headers.  It returns whether it ended normally and the size reached,
  which \<^verbatim>\<open>exec\<close> needs on the error path too.
\<close>

fun exec_load :: "nat \<Rightarrow> u32 \<Rightarrow> nat \<Rightarrow> u64 \<Rightarrow> u64 \<Rightarrow> 'a fs_scheme \<Rightarrow> (bool \<times> u64, 'a fs_scheme) out" where
  "exec_load 0 off ip pt usz s = Ok (True, usz) s"
| "exec_load (Suc n) off ip pt usz s =
     and_then (readi ip (KernObj []) off (of_nat PROGHDR_SIZE) s) (\<lambda>(r, bs) s.
       if r \<noteq> int PROGHDR_SIZE then Ok (False, usz) s
       else let ph = proghdr_of bs
       in if ph_type ph \<noteq> ELF_PROG_LOAD then exec_load n (off + of_nat PROGHDR_SIZE) ip pt usz s
          else if ph_memsz ph < ph_filesz ph then Ok (False, usz) s
          else if ph_vaddr ph + ph_memsz ph < ph_vaddr ph then Ok (False, usz) s
          else and_then (uvmalloc pt usz (ph_vaddr ph + ph_memsz ph) s) (\<lambda>sz1 s.
            if sz1 = 0 then Ok (False, usz) s
            else if ph_vaddr ph mod PGSIZE \<noteq> 0 then Ok (False, sz1) s
            else and_then (loadseg pt (ph_vaddr ph) ip (ucast (ph_off ph)) (ucast (ph_filesz ph)) s) (\<lambda>r s.
              if r < 0 then Ok (False, sz1) s
              else exec_load n (off + of_nat PROGHDR_SIZE) ip pt sz1 s)))"

text \<open>A C string in memory, without its terminator; \<open>None\<close> when there is none.\<close>

definition mem_str :: "memory \<Rightarrow> u64 \<Rightarrow> byte list option" where
  "mem_str m a = map_option (rd m a) (strlen (\<lambda>i. m (a + of_nat i)))"

text \<open>Pushing the argument strings; the pages in \<open>argv\<close> hold them.\<close>

fun push_args ::
  "u64 list \<Rightarrow> u64 \<Rightarrow> u64 \<Rightarrow> u64 \<Rightarrow> u64 list \<Rightarrow> 'a fs_scheme \<Rightarrow> ((u64 \<times> u64 list) option, 'a fs_scheme) out" where
  "push_args [] pt stackbase sp ustack s = Ok (Some (sp, ustack)) s"
| "push_args (a # as) pt stackbase sp ustack s =
     (if MAXARG \<le> length ustack then Ok None s
      else case mem_str (mem s) a of
        None \<Rightarrow> Spin
      | Some str \<Rightarrow>
          let sp = sp - of_nat (length str + 1); sp = sp - sp mod 16
          in if sp < stackbase then Ok None s
             else and_then (copyout pt sp (str @ [0]) s) (\<lambda>r s.
               if r < 0 then Ok None s
               else push_args as pt stackbase sp (ustack @ [sp]) s))"

definition last_elem :: "byte list \<Rightarrow> byte list" where
  "last_elem path = rev (takeWhile (\<lambda>c. c \<noteq> 47) (rev path))"

text \<open>The label \<^verbatim>\<open>bad\<close>: free the new page table, and unlock the inode if it is still held.\<close>

definition exec_bad :: "u64 \<Rightarrow> u64 \<Rightarrow> nat option \<Rightarrow> 'a fs_scheme \<Rightarrow> (int, 'a fs_scheme) out" where
  "exec_bad pt usz ip s =
     and_then (if pt \<noteq> 0 then proc_freepagetable pt usz s else Ok () s) (\<lambda>_ s.
     and_then (case ip of None \<Rightarrow> Ok () s
       | Some ip \<Rightarrow> and_then (iunlockput ip s) (\<lambda>_ s. end_op s)) (\<lambda>_ s. Ok (- 1) s))"

text \<open>The part of \<^verbatim>\<open>exec\<close> after the program is loaded: the stack, the arguments and the commit.\<close>

definition exec_commit ::
  "nat \<Rightarrow> byte list \<Rightarrow> u64 list \<Rightarrow> elfhdr \<Rightarrow> u64 \<Rightarrow> u64 \<Rightarrow> 'a fs_scheme \<Rightarrow> (int, 'a fs_scheme) out" where
  "exec_commit p path argv elf pt usz s =
     (let oldsz = sz (ptab s p); usz = PGROUNDUP usz
      in and_then (uvmalloc pt usz (usz + 2 * PGSIZE) s) (\<lambda>sz1 s.
         if sz1 = 0 then exec_bad pt usz None s
         else and_then (uvmclear pt (sz1 - 2 * PGSIZE) s) (\<lambda>_ s.
         let stackbase = sz1 - PGSIZE
         in and_then (push_args argv pt stackbase sz1 [] s) (\<lambda>r s. case r of
              None \<Rightarrow> exec_bad pt sz1 None s
            | Some (sp, ustack) \<Rightarrow>
                let argc = length ustack; ustack = ustack @ [0];
                    sp = sp - of_nat ((argc + 1) * 8); sp = sp - sp mod 16
                in if sp < stackbase then exec_bad pt sz1 None s
                   else and_then (copyout pt sp (concat (map (bytes_of_word 8) ustack)) s) (\<lambda>r s.
                   if r < 0 then exec_bad pt sz1 None s
                   else let s = tf_set tf_a1 p sp s;
                            s = upd_proc p (set_pname (last_elem path)) s;
                            oldpt = pagetable (ptab s p);
                            s = upd_proc p (\<lambda>q. q\<lparr>pagetable := pt, sz := sz1\<rparr>) s;
                            s = tf_set tf_epc p (elf_entry elf) s;
                            s = tf_set tf_sp p sp s
                        in and_then (proc_freepagetable oldpt oldsz s) (\<lambda>_ s. Ok (int argc) s))))))"

definition exec :: "byte list \<Rightarrow> u64 list \<Rightarrow> 'a fs_scheme \<Rightarrow> (int, 'a fs_scheme) out" where
  "exec path argv s =
     with_proc (\<lambda>p s.
       and_then (begin_op s) (\<lambda>_ s.
       and_then (namei path s) (\<lambda>ip s. case ip of
         None \<Rightarrow> and_then (end_op s) (\<lambda>_ s. Ok (- 1) s)
       | Some ip \<Rightarrow>
         and_then (ilock ip s) (\<lambda>_ s.
         and_then (readi ip (KernObj []) 0 (of_nat ELFHDR_SIZE) s) (\<lambda>(r, bs) s.
         if r \<noteq> int ELFHDR_SIZE then exec_bad 0 0 (Some ip) s
         else let elf = elfhdr_of bs
         in if elf_magic elf \<noteq> ELF_MAGIC then exec_bad 0 0 (Some ip) s
         else and_then (proc_pagetable p s) (\<lambda>pt s.
         if pt = 0 then exec_bad 0 0 (Some ip) s
         else and_then (exec_load (unat (elf_phnum elf)) (ucast (elf_phoff elf)) ip pt 0 s) (\<lambda>(ok, usz) s.
         if \<not> ok then exec_bad pt usz (Some ip) s
         else and_then (iunlockput ip s) (\<lambda>_ s.
              and_then (end_op s) (\<lambda>_ s. exec_commit p path argv elf pt usz s))))))))) s"

end
