(* ===== verification/Syscall.thy ===== *)
theory Syscall
  imports Exec
begin

text \<open>
  System calls: \<^verbatim>\<open>kernel/syscall.c\<close>, \<^verbatim>\<open>kernel/sysproc.c\<close> and \<^verbatim>\<open>kernel/sysfile.c\<close>.  A handler returns
  the \<^verbatim>\<open>uint64\<close> that \<^verbatim>\<open>syscall\<close> stores in the caller's \<^verbatim>\<open>a0\<close>.
\<close>

section \<open>Arguments\<close>

definition err :: u64 where "err = - 1"

definition ret :: "int \<Rightarrow> u64" where "ret r = word_of_int r"

definition fetchaddr :: "u64 \<Rightarrow> 'a procs_scheme \<Rightarrow> (int \<times> u64, 'a procs_scheme) out" where
  "fetchaddr addr s =
     with_proc (\<lambda>p s.
       if sz (ptab s p) \<le> addr \<or> sz (ptab s p) < addr + 8 then Ok (- 1, 0) s
       else and_then (copyin (pagetable (ptab s p)) addr 8 s) (\<lambda>(r, bs) s.
         Ok (if r \<noteq> 0 then (- 1, 0) else (0, word_of_bytes bs)) s)) s"

text \<open>\<^verbatim>\<open>fetchstr\<close> returns the bytes stored in the buffer as well.\<close>

definition fetchstr :: "u64 \<Rightarrow> nat \<Rightarrow> 'a procs_scheme \<Rightarrow> (int \<times> byte list, 'a procs_scheme) out" where
  "fetchstr addr mx s =
     with_proc (\<lambda>p s.
       and_then (copyinstr (pagetable (ptab s p)) addr mx s) (\<lambda>(r, bs) s.
         Ok (if r < 0 then r else int (length (takeWhile (\<lambda>c. c \<noteq> 0) bs)), bs) s)) s"

definition argraw :: "nat \<Rightarrow> 'a procs_scheme \<Rightarrow> (u64, 'a procs_scheme) out" where
  "argraw n s =
     with_proc (\<lambda>p s.
       if n = 0 then Ok (tf_get tf_a0 p s) s
       else if n = 1 then Ok (tf_get tf_a1 p s) s
       else if n = 2 then Ok (tf_get tf_a2 p s) s
       else if n = 3 then Ok (tf_get tf_a3 p s) s
       else if n = 4 then Ok (tf_get tf_a4 p s) s
       else if n = 5 then Ok (tf_get tf_a5 p s) s
       else Panic ''argraw'') s"

definition argint :: "nat \<Rightarrow> 'a procs_scheme \<Rightarrow> (i32, 'a procs_scheme) out" where
  "argint n s = and_then (argraw n s) (\<lambda>v s. Ok (ucast v) s)"

definition argaddr :: "nat \<Rightarrow> 'a procs_scheme \<Rightarrow> (u64, 'a procs_scheme) out" where
  "argaddr n s = argraw n s"

definition argstr :: "nat \<Rightarrow> nat \<Rightarrow> 'a procs_scheme \<Rightarrow> (int \<times> byte list, 'a procs_scheme) out" where
  "argstr n mx s = and_then (argaddr n s) (\<lambda>addr s. fetchstr addr mx s)"

text \<open>The C string in a buffer that \<open>fetchstr\<close> filled.\<close>

definition str :: "byte list \<Rightarrow> byte list" where
  "str bs = takeWhile (\<lambda>c. c \<noteq> 0) bs"

section \<open>Processes\<close>

definition sys_exit :: "'a files_scheme \<Rightarrow> (u64, 'a files_scheme) out" where
  "sys_exit s = and_then (argint 0 s) (\<lambda>n s. exit n s)"

definition sys_getpid :: "'a procs_scheme \<Rightarrow> (u64, 'a procs_scheme) out" where
  "sys_getpid s = with_proc (\<lambda>p s. Ok (scast (pid (ptab s p))) s) s"

definition sys_fork :: "'a files_scheme \<Rightarrow> (u64, 'a files_scheme) out" where
  "sys_fork s = and_then (fork s) (\<lambda>r s. Ok (ret r) s)"

definition sys_wait :: "'a procs_scheme \<Rightarrow> (u64, 'a procs_scheme) out" where
  "sys_wait s = and_then (argaddr 0 s) (\<lambda>p s. and_then (wait p s) (\<lambda>r s. Ok (ret r) s))"

definition sys_sbrk :: "'a procs_scheme \<Rightarrow> (u64, 'a procs_scheme) out" where
  "sys_sbrk s =
     and_then (argint 0 s) (\<lambda>n s.
     with_proc (\<lambda>p s.
       let addr = ucast (sz (ptab s p)) :: i32
       in and_then (growproc n s) (\<lambda>r s. Ok (if r < 0 then err else scast addr) s)) s)"

text \<open>The loop of \<^verbatim>\<open>sys_sleep\<close>; the comparison is unsigned.\<close>

fun sys_sleep_loop :: "nat \<Rightarrow> u32 \<Rightarrow> i32 \<Rightarrow> 'a io_scheme \<Rightarrow> (u64, 'a io_scheme) out" where
  "sys_sleep_loop 0 ticks0 n s = Spin"
| "sys_sleep_loop (Suc k) ticks0 n s =
     (if ticks s - ticks0 < n then
        with_proc (\<lambda>p s.
          if killed (ptab s p) \<noteq> 0 then and_then (release LkTicks s) (\<lambda>_ s. Ok err s)
          else and_then (sleep ChTicks LkTicks s) (\<lambda>_ s. sys_sleep_loop k ticks0 n s)) s
      else and_then (backtrace s) (\<lambda>_ s. and_then (release LkTicks s) (\<lambda>_ s. Ok 0 s)))"

definition sys_sleep :: "'a io_scheme \<Rightarrow> (u64, 'a io_scheme) out" where
  "sys_sleep s =
     and_then (argint 0 s) (\<lambda>n s.
     and_then (acquire LkTicks s) (\<lambda>_ s. sys_sleep_loop (Suc (unat n + WAKEUPS)) (ticks s) n s))"

definition sys_kill :: "'a procs_scheme \<Rightarrow> (u64, 'a procs_scheme) out" where
  "sys_kill s = and_then (argint 0 s) (\<lambda>n s. and_then (kill n s) (\<lambda>r s. Ok (ret r) s))"

definition sys_uptime :: "'a procs_scheme \<Rightarrow> (u64, 'a procs_scheme) out" where
  "sys_uptime s =
     and_then (acquire LkTicks s) (\<lambda>_ s.
       let xticks = ticks s in and_then (release LkTicks s) (\<lambda>_ s. Ok (ucast xticks) s))"

definition sys_sigalarm :: "'a io_scheme \<Rightarrow> (u64, 'a io_scheme) out" where
  "sys_sigalarm s =
     and_then (printf ''sys_sigalarm\<newline>'' [] s) (\<lambda>_ s.
     and_then (argint 0 s) (\<lambda>interval s.
     and_then (argaddr 1 s) (\<lambda>handler s.
     with_proc (\<lambda>p s.
       Ok 0 (upd_proc p (\<lambda>q. q\<lparr>alarm_interval := interval, alarm_handler := handler,
                ticks_since_alarm := 0, in_alarm_handler := 0\<rparr>) s)) s)))"

definition sys_sigreturn :: "'a procs_scheme \<Rightarrow> (u64, 'a procs_scheme) out" where
  "sys_sigreturn s =
     with_proc (\<lambda>p s.
       let s = s\<lparr>mem := memmove (mem s) (trapframe (ptab s p)) (alarm_tf (ptab s p)) (unat PGSIZE)\<rparr>;
           s = upd_proc p (in_alarm_handler_update (\<lambda>_. 0)) s
       in Ok 0 s) s"

section \<open>Files\<close>

definition MAXPATH :: nat where "MAXPATH = 128"

definition argfd :: "nat \<Rightarrow> 'a procs_scheme \<Rightarrow> ((nat \<times> nat) option, 'a procs_scheme) out" where
  "argfd n s =
     and_then (argint n s) (\<lambda>fd s.
       if sint fd < 0 \<or> int NOFILE \<le> sint fd then Ok None s
       else with_proc (\<lambda>p s. Ok (map_option (Pair (unat fd)) (ofile (ptab s p) ! unat fd)) s) s)"

definition fdalloc :: "nat \<Rightarrow> 'a procs_scheme \<Rightarrow> (nat option, 'a procs_scheme) out" where
  "fdalloc f s =
     with_proc (\<lambda>p s. case find (\<lambda>fd. ofile (ptab s p) ! fd = None) [0..<NOFILE] of
         None \<Rightarrow> Ok None s
       | Some fd \<Rightarrow> Ok (Some fd) (upd_proc p (\<lambda>q. q\<lparr>ofile := (ofile q)[fd := Some f]\<rparr>) s)) s"

definition sys_dup :: "'a files_scheme \<Rightarrow> (u64, 'a files_scheme) out" where
  "sys_dup s =
     and_then (argfd 0 s) (\<lambda>r s. case r of None \<Rightarrow> Ok err s | Some (_, f) \<Rightarrow>
     and_then (fdalloc f s) (\<lambda>fd s. case fd of None \<Rightarrow> Ok err s | Some fd \<Rightarrow>
     and_then (filedup f s) (\<lambda>_ s. Ok (of_nat fd) s)))"

definition sys_read :: "'a files_scheme \<Rightarrow> (u64, 'a files_scheme) out" where
  "sys_read s =
     and_then (argfd 0 s) (\<lambda>r s. case r of None \<Rightarrow> Ok err s | Some (_, f) \<Rightarrow>
     and_then (argint 2 s) (\<lambda>n s.
     and_then (argaddr 1 s) (\<lambda>p s.
     and_then (fileread f p n s) (\<lambda>r s. Ok (ret r) s))))"

definition sys_write :: "'a files_scheme \<Rightarrow> (u64, 'a files_scheme) out" where
  "sys_write s =
     and_then (argfd 0 s) (\<lambda>r s. case r of None \<Rightarrow> Ok err s | Some (_, f) \<Rightarrow>
     and_then (argint 2 s) (\<lambda>n s.
     and_then (argaddr 1 s) (\<lambda>p s.
     and_then (filewrite f p n s) (\<lambda>r s. Ok (ret r) s))))"

definition sys_close :: "'a files_scheme \<Rightarrow> (u64, 'a files_scheme) out" where
  "sys_close s =
     and_then (argfd 0 s) (\<lambda>r s. case r of None \<Rightarrow> Ok err s | Some (fd, f) \<Rightarrow>
     with_proc (\<lambda>p s.
       let s = upd_proc p (\<lambda>q. q\<lparr>ofile := (ofile q)[fd := None]\<rparr>) s
       in and_then (fileclose f s) (\<lambda>_ s. Ok 0 s)) s)"

definition sys_fstat :: "'a files_scheme \<Rightarrow> (u64, 'a files_scheme) out" where
  "sys_fstat s =
     and_then (argfd 0 s) (\<lambda>r s. case r of None \<Rightarrow> Ok err s | Some (_, f) \<Rightarrow>
     and_then (argaddr 1 s) (\<lambda>st s.
     and_then (filestat f st s) (\<lambda>r s. Ok (ret r) s)))"

definition name0 :: "byte list" where "name0 = replicate DIRSIZ 0"

definition sys_link :: "'a files_scheme \<Rightarrow> (u64, 'a files_scheme) out" where
  "sys_link s =
     and_then (argstr 0 MAXPATH s) (\<lambda>(r, old) s. if r < 0 then Ok err s else
     and_then (argstr 1 MAXPATH s) (\<lambda>(r, new) s. if r < 0 then Ok err s else
     and_then (begin_op s) (\<lambda>_ s.
     and_then (namei (str old) s) (\<lambda>ip s. case ip of
       None \<Rightarrow> and_then (end_op s) (\<lambda>_ s. Ok err s)
     | Some ip \<Rightarrow>
       let bad = (\<lambda>s. and_then (ilock ip s) (\<lambda>_ s.
             and_then (iupdate ip (upd_inode ip (\<lambda>q. q\<lparr>nlink := nlink q - 1\<rparr>) s)) (\<lambda>_ s.
             and_then (iunlockput ip s) (\<lambda>_ s. and_then (end_op s) (\<lambda>_ s. Ok err s)))))
       in and_then (ilock ip s) (\<lambda>_ s.
          if itype (inodes s ip) = T_DIR then
            and_then (iunlockput ip s) (\<lambda>_ s. and_then (end_op s) (\<lambda>_ s. Ok err s))
          else and_then (iupdate ip (upd_inode ip (\<lambda>q. q\<lparr>nlink := nlink q + 1\<rparr>) s)) (\<lambda>_ s.
          and_then (iunlock ip s) (\<lambda>_ s.
          and_then (nameiparent (str new) name0 s) (\<lambda>(dp, name) s. case dp of
            None \<Rightarrow> bad s
          | Some dp \<Rightarrow>
            and_then (ilock dp s) (\<lambda>_ s.
            and_then (if idev (inodes s dp) \<noteq> idev (inodes s ip) then Ok (- 1) s
                      else dirlink dp name (inum (inodes s ip)) s) (\<lambda>r s.
            if r < 0 then and_then (iunlockput dp s) (\<lambda>_ s. bad s)
            else and_then (iunlockput dp s) (\<lambda>_ s.
                 and_then (iput ip s) (\<lambda>_ s.
                 and_then (end_op s) (\<lambda>_ s. Ok 0 s)))))))))))))"

fun isdirempty_loop :: "nat \<Rightarrow> nat \<Rightarrow> u32 \<Rightarrow> 'a fs_scheme \<Rightarrow> (bool, 'a fs_scheme) out" where
  "isdirempty_loop 0 dp off s = Spin"
| "isdirempty_loop (Suc k) dp off s =
     (if off < isize (inodes s dp) then
        and_then (readi dp (KernObj []) off (of_nat DIRENT_SIZE) s) (\<lambda>(r, de) s.
          if r \<noteq> int DIRENT_SIZE then Panic ''isdirempty: readi''
          else if de_inum de \<noteq> 0 then Ok False s
          else isdirempty_loop k dp (off + of_nat DIRENT_SIZE) s)
      else Ok True s)"

definition isdirempty :: "nat \<Rightarrow> 'a fs_scheme \<Rightarrow> (bool, 'a fs_scheme) out" where
  "isdirempty dp s =
     isdirempty_loop (dir_fuel (isize (inodes s dp))) dp (2 * of_nat DIRENT_SIZE) s"

definition sys_unlink :: "'a files_scheme \<Rightarrow> (u64, 'a files_scheme) out" where
  "sys_unlink s =
     and_then (argstr 0 MAXPATH s) (\<lambda>(r, path) s. if r < 0 then Ok err s else
     and_then (begin_op s) (\<lambda>_ s.
     and_then (nameiparent (str path) name0 s) (\<lambda>(dp, name) s. case dp of
       None \<Rightarrow> and_then (end_op s) (\<lambda>_ s. Ok err s)
     | Some dp \<Rightarrow>
       let bad = (\<lambda>s. and_then (iunlockput dp s) (\<lambda>_ s. and_then (end_op s) (\<lambda>_ s. Ok err s)))
       in and_then (ilock dp s) (\<lambda>_ s.
          if namecmp name (bytes ''.'') = 0 \<or> namecmp name (bytes ''..'') = 0 then bad s
          else and_then (dirlookup dp name s) (\<lambda>found s. case found of
            None \<Rightarrow> bad s
          | Some (ip, off) \<Rightarrow>
            and_then (ilock ip s) (\<lambda>_ s.
            if sint (nlink (inodes s ip)) < 1 then Panic ''unlink: nlink < 1''
            else and_then (if itype (inodes s ip) = T_DIR then isdirempty ip s else Ok True s) (\<lambda>e s.
            if \<not> e then and_then (iunlockput ip s) (\<lambda>_ s. bad s)
            else and_then (writei dp (KernObj (replicate DIRENT_SIZE 0)) off (of_nat DIRENT_SIZE) s) (\<lambda>r s.
            if r \<noteq> int DIRENT_SIZE then Panic ''unlink: writei''
            else and_then (if itype (inodes s ip) = T_DIR
                           then iupdate dp (upd_inode dp (\<lambda>q. q\<lparr>nlink := nlink q - 1\<rparr>) s)
                           else Ok () s) (\<lambda>_ s.
            and_then (iunlockput dp s) (\<lambda>_ s.
            and_then (iupdate ip (upd_inode ip (\<lambda>q. q\<lparr>nlink := nlink q - 1\<rparr>) s)) (\<lambda>_ s.
            and_then (iunlockput ip s) (\<lambda>_ s.
            and_then (end_op s) (\<lambda>_ s. Ok 0 s)))))))))))))"

text \<open>\<open>create\<close> returns a locked inode.\<close>

definition create ::
  "byte list \<Rightarrow> u16 \<Rightarrow> u16 \<Rightarrow> u16 \<Rightarrow> 'a fs_scheme \<Rightarrow> (nat option, 'a fs_scheme) out" where
  "create path ty maj mino s =
     and_then (nameiparent path name0 s) (\<lambda>(dp, name) s. case dp of None \<Rightarrow> Ok None s | Some dp \<Rightarrow>
     and_then (ilock dp s) (\<lambda>_ s.
     and_then (dirlookup dp name s) (\<lambda>found s. case found of
       Some (ip, _) \<Rightarrow>
         and_then (iunlockput dp s) (\<lambda>_ s.
         and_then (ilock ip s) (\<lambda>_ s.
         if ty = T_FILE \<and> (itype (inodes s ip) = T_FILE \<or> itype (inodes s ip) = T_DEVICE)
         then Ok (Some ip) s
         else and_then (iunlockput ip s) (\<lambda>_ s. Ok None s)))
     | None \<Rightarrow>
         and_then (ialloc (idev (inodes s dp)) ty s) (\<lambda>ip s.
         and_then (ilock ip s) (\<lambda>_ s.
         and_then (iupdate ip (upd_inode ip (\<lambda>q. q\<lparr>imajor := maj, iminor := mino, nlink := 1\<rparr>) s)) (\<lambda>_ s.
         and_then
           (if ty = T_DIR then
              and_then (iupdate dp (upd_inode dp (\<lambda>q. q\<lparr>nlink := nlink q + 1\<rparr>) s)) (\<lambda>_ s.
              and_then (dirlink ip (bytes ''.'') (inum (inodes s ip)) s) (\<lambda>r s.
              if r < 0 then Panic ''create dots''
              else and_then (dirlink ip (bytes ''..'') (inum (inodes s dp)) s) (\<lambda>r s.
              if r < 0 then Panic ''create dots'' else Ok () s)))
            else Ok () s) (\<lambda>_ s.
         and_then (dirlink dp name (inum (inodes s ip)) s) (\<lambda>r s.
         if r < 0 then Panic ''create: dirlink''
         else and_then (iunlockput dp s) (\<lambda>_ s. Ok (Some ip) s)))))))))"

text \<open>The part of \<^verbatim>\<open>sys_open\<close> that finds or creates the inode: \<open>Some ip\<close> locked, or failure.\<close>

definition open_inode :: "byte list \<Rightarrow> i32 \<Rightarrow> 'a fs_scheme \<Rightarrow> (nat option, 'a fs_scheme) out" where
  "open_inode path omode s =
     (if omode AND O_CREATE \<noteq> 0 then
        and_then (create path T_FILE 0 0 s) (\<lambda>ip s. case ip of
          None \<Rightarrow> and_then (end_op s) (\<lambda>_ s. Ok None s) | Some ip \<Rightarrow> Ok (Some ip) s)
      else and_then (namei path s) (\<lambda>ip s. case ip of
          None \<Rightarrow> and_then (end_op s) (\<lambda>_ s. Ok None s)
        | Some ip \<Rightarrow>
            and_then (ilock ip s) (\<lambda>_ s.
              if itype (inodes s ip) = T_DIR \<and> omode \<noteq> O_RDONLY then
                and_then (iunlockput ip s) (\<lambda>_ s. and_then (end_op s) (\<lambda>_ s. Ok None s))
              else Ok (Some ip) s)))"

definition open_file :: "nat \<Rightarrow> nat \<Rightarrow> i32 \<Rightarrow> 'a files_scheme \<Rightarrow> 'a files_scheme" where
  "open_file f ip omode s =
     (let s = (if itype (inodes s ip) = T_DEVICE
               then upd_file f (\<lambda>q. q\<lparr>ftype := FD_DEVICE, fmajor := imajor (inodes s ip)\<rparr>) s
               else upd_file f (\<lambda>q. q\<lparr>ftype := FD_INODE, foff := 0\<rparr>) s)
      in upd_file f (\<lambda>q. q\<lparr>fip := Some ip, readable := (omode AND O_WRONLY = 0),
           writable := (omode AND O_WRONLY \<noteq> 0 \<or> omode AND O_RDWR \<noteq> 0)\<rparr>) s)"

definition sys_open :: "'a files_scheme \<Rightarrow> (u64, 'a files_scheme) out" where
  "sys_open s =
     and_then (argstr 0 MAXPATH s) (\<lambda>(r, path) s. if r < 0 then Ok err s else
     and_then (argint 1 s) (\<lambda>omode s.
     and_then (begin_op s) (\<lambda>_ s.
     and_then (open_inode (str path) omode s) (\<lambda>ip s. case ip of None \<Rightarrow> Ok err s | Some ip \<Rightarrow>
     let bad = (\<lambda>s. and_then (iunlockput ip s) (\<lambda>_ s. and_then (end_op s) (\<lambda>_ s. Ok err s)))
     in if itype (inodes s ip) = T_DEVICE \<and>
           (sint (imajor (inodes s ip)) < 0 \<or> int NDEV \<le> sint (imajor (inodes s ip))) then bad s
        else and_then (filealloc s) (\<lambda>f s. case f of None \<Rightarrow> bad s | Some f \<Rightarrow>
        and_then (fdalloc f s) (\<lambda>fd s. case fd of
          None \<Rightarrow> and_then (fileclose f s) (\<lambda>_ s. bad s)
        | Some fd \<Rightarrow>
          let s = open_file f ip omode s
          in and_then (if omode AND O_TRUNC \<noteq> 0 \<and> itype (inodes s ip) = T_FILE then itrunc ip s else Ok () s) (\<lambda>_ s.
             and_then (iunlock ip s) (\<lambda>_ s.
             and_then (end_op s) (\<lambda>_ s. Ok (of_nat fd) s)))))))))"

text \<open>The calls of \<^verbatim>\<open>create\<close> by \<^verbatim>\<open>sys_mkdir\<close> and \<^verbatim>\<open>sys_mknod\<close> and what follows them.\<close>

definition create_and_put ::
  "byte list \<Rightarrow> u16 \<Rightarrow> u16 \<Rightarrow> u16 \<Rightarrow> 'a fs_scheme \<Rightarrow> (u64, 'a fs_scheme) out" where
  "create_and_put path ty maj mino s =
     and_then (create path ty maj mino s) (\<lambda>ip s. case ip of
       None \<Rightarrow> and_then (end_op s) (\<lambda>_ s. Ok err s)
     | Some ip \<Rightarrow> and_then (iunlockput ip s) (\<lambda>_ s. and_then (end_op s) (\<lambda>_ s. Ok 0 s)))"

definition sys_mkdir :: "'a fs_scheme \<Rightarrow> (u64, 'a fs_scheme) out" where
  "sys_mkdir s =
     and_then (begin_op s) (\<lambda>_ s.
     and_then (argstr 0 MAXPATH s) (\<lambda>(r, path) s.
       if r < 0 then and_then (end_op s) (\<lambda>_ s. Ok err s)
       else create_and_put (str path) T_DIR 0 0 s))"

definition sys_mknod :: "'a fs_scheme \<Rightarrow> (u64, 'a fs_scheme) out" where
  "sys_mknod s =
     and_then (begin_op s) (\<lambda>_ s.
     and_then (argstr 0 MAXPATH s) (\<lambda>(r, path) s.
       if r < 0 then and_then (end_op s) (\<lambda>_ s. Ok err s)
       else and_then (argint 1 s) (\<lambda>maj s.
            and_then (argint 2 s) (\<lambda>mino s.
            create_and_put (str path) T_DEVICE (ucast maj) (ucast mino) s))))"

definition sys_chdir :: "'a fs_scheme \<Rightarrow> (u64, 'a fs_scheme) out" where
  "sys_chdir s =
     with_proc (\<lambda>p s.
       and_then (begin_op s) (\<lambda>_ s.
       let bad = (\<lambda>s. and_then (end_op s) (\<lambda>_ s. Ok err s))
       in and_then (argstr 0 MAXPATH s) (\<lambda>(r, path) s. if r < 0 then bad s else
          and_then (namei (str path) s) (\<lambda>ip s. case ip of None \<Rightarrow> bad s | Some ip \<Rightarrow>
          and_then (ilock ip s) (\<lambda>_ s.
          if itype (inodes s ip) \<noteq> T_DIR then and_then (iunlockput ip s) (\<lambda>_ s. bad s)
          else and_then (iunlock ip s) (\<lambda>_ s.
               and_then (case cwd (ptab s p) of None \<Rightarrow> Panic ''kerneltrap'' | Some d \<Rightarrow> iput d s) (\<lambda>_ s.
               and_then (end_op s) (\<lambda>_ s.
               Ok 0 (upd_proc p (cwd_update (\<lambda>_. Some ip)) s))))))))) s"

text \<open>Collecting the arguments of \<^verbatim>\<open>sys_exec\<close> into pages; the flag tells success from \<^verbatim>\<open>goto bad\<close>.\<close>

fun exec_argv :: "nat \<Rightarrow> u64 \<Rightarrow> u64 list \<Rightarrow> 'a procs_scheme \<Rightarrow> (bool \<times> u64 list, 'a procs_scheme) out" where
  "exec_argv 0 uargv argv s = Ok (False, argv) s"
| "exec_argv (Suc n) uargv argv s =
     and_then (fetchaddr uargv s) (\<lambda>(r, uarg) s.
       if r < 0 then Ok (False, argv) s
       else if uarg = 0 then Ok (True, argv) s
       else and_then (kalloc s) (\<lambda>pg s.
         if pg = 0 then Ok (False, argv) s
         else and_then (fetchstr uarg 4096 s) (\<lambda>(r, bs) s.
           let s = s\<lparr>mem := wr (mem s) pg bs\<rparr>
           in if r < 0 then Ok (False, argv @ [pg]) s
              else exec_argv n (uargv + 8) (argv @ [pg]) s)))"

definition sys_exec :: "'a fs_scheme \<Rightarrow> (u64, 'a fs_scheme) out" where
  "sys_exec s =
     and_then (argstr 0 MAXPATH s) (\<lambda>(r, path) s. if r < 0 then Ok err s else
     and_then (argaddr 1 s) (\<lambda>uargv s.
     and_then (exec_argv MAXARG uargv [] s) (\<lambda>(ok, argv) s.
     and_then (if ok then exec (str path) argv s else Ok (- 1) s) (\<lambda>r s.
     and_then (for_each kfree argv s) (\<lambda>_ s. Ok (ret r) s)))))"

definition clear_fd :: "nat \<Rightarrow> nat \<Rightarrow> 'a procs_scheme \<Rightarrow> 'a procs_scheme" where
  "clear_fd p fd s = upd_proc p (\<lambda>q. q\<lparr>ofile := (ofile q)[fd := None]\<rparr>) s"

definition sys_pipe :: "'a files_scheme \<Rightarrow> (u64, 'a files_scheme) out" where
  "sys_pipe s =
     with_proc (\<lambda>p s.
       and_then (argaddr 0 s) (\<lambda>fdarray s.
       and_then (pipealloc s) (\<lambda>r s. case r of None \<Rightarrow> Ok err s | Some (r0, w0) \<Rightarrow>
       let bad = (\<lambda>s. and_then (fileclose r0 s) (\<lambda>_ s. and_then (fileclose w0 s) (\<lambda>_ s. Ok err s)))
       in and_then (fdalloc r0 s) (\<lambda>fd0 s. case fd0 of None \<Rightarrow> bad s | Some fd0 \<Rightarrow>
          and_then (fdalloc w0 s) (\<lambda>fd1 s. case fd1 of None \<Rightarrow> bad (clear_fd p fd0 s) | Some fd1 \<Rightarrow>
          and_then (copyout (pagetable (ptab s p)) fdarray (bytes_of_word 4 (of_nat fd0 :: i32)) s) (\<lambda>r s.
          and_then (if r < 0 then Ok r s
                    else copyout (pagetable (ptab s p)) (fdarray + 4) (bytes_of_word 4 (of_nat fd1 :: i32)) s) (\<lambda>r s.
          if r < 0 then bad (clear_fd p fd1 (clear_fd p fd0 s)) else Ok 0 s))))))) s"

section \<open>Dispatch\<close>

definition syscalls :: "int \<Rightarrow> ('a files_scheme \<Rightarrow> (u64, 'a files_scheme) out) option" where
  "syscalls n =
     (if n = 1 then Some sys_fork else if n = 2 then Some sys_exit else if n = 3 then Some sys_wait
      else if n = 4 then Some sys_pipe else if n = 5 then Some sys_read else if n = 6 then Some sys_kill
      else if n = 7 then Some sys_exec else if n = 8 then Some sys_fstat else if n = 9 then Some sys_chdir
      else if n = 10 then Some sys_dup else if n = 11 then Some sys_getpid else if n = 12 then Some sys_sbrk
      else if n = 13 then Some sys_sleep else if n = 14 then Some sys_uptime else if n = 15 then Some sys_open
      else if n = 16 then Some sys_write else if n = 17 then Some sys_mknod else if n = 18 then Some sys_unlink
      else if n = 19 then Some sys_link else if n = 20 then Some sys_mkdir else if n = 21 then Some sys_close
      else if n = 22 then Some sys_sigalarm else if n = 23 then Some sys_sigreturn else None)"

definition syscall :: "'a files_scheme \<Rightarrow> (unit, 'a files_scheme) out" where
  "syscall s =
     with_proc (\<lambda>p s.
       let num = ucast (tf_get tf_a7 p s) :: i32
       in case syscalls (sint num) of
            Some f \<Rightarrow> and_then (f s) (\<lambda>r s. Ok () (tf_set tf_a0 p r s))
          | None \<Rightarrow>
              and_then (printf ''%d %s: unknown sys call %d\<newline>''
                [PInt (pid (ptab s p)), PStr (Some (pname (ptab s p))), PInt num] s) (\<lambda>_ s.
              Ok () (tf_set tf_a0 p (- 1) s))) s"

end
