(* ===== verification/Trap.thy ===== *)
theory Trap
  imports Syscall
begin

text \<open>
  Traps and interrupts: \<^verbatim>\<open>kernel/trap.c\<close>, \<^verbatim>\<open>kernel/plic.c\<close>, and \<^verbatim>\<open>forkret\<close> of \<^verbatim>\<open>kernel/proc.c\<close>.  Each hart has
  its own supervisor registers; the interrupt-enable bit of \<^verbatim>\<open>sstatus\<close> is the field \<open>sie\<close> of the
  processor.  A return to user space is the pair of arguments given to \<^verbatim>\<open>userret\<close>, with the
  address it is called at.
\<close>

section \<open>Supervisor registers\<close>

record csrs =
  csr_sstatus :: u64 \<comment> \<open>without the bit \<^verbatim>\<open>SIE\<close>\<close>
  csr_sepc :: u64
  csr_scause :: u64
  csr_stval :: u64
  csr_stvec :: u64
  csr_sip :: u64

record kernel = files +
  csr :: "nat \<Rightarrow> csrs"
  kernelvec_pc :: u64
  usertrap_pc :: u64
  uservec_pc :: u64
  userret_pc :: u64
  forkret_first :: bool
  started :: bool

definition SSTATUS_SPP :: u64 where "SSTATUS_SPP = push_bit 8 1"
definition SSTATUS_SPIE :: u64 where "SSTATUS_SPIE = push_bit 5 1"
definition SSTATUS_SIE :: u64 where "SSTATUS_SIE = push_bit 1 1"

definition mycsr :: "'a kernel_scheme \<Rightarrow> csrs" where
  "mycsr s = csr s (hart s)"

definition upd_csr :: "(csrs \<Rightarrow> csrs) \<Rightarrow> 'a kernel_scheme \<Rightarrow> 'a kernel_scheme" where
  "upd_csr f s = s\<lparr>csr := (csr s)(hart s := f (csr s (hart s)))\<rparr>"

definition r_sstatus :: "'a kernel_scheme \<Rightarrow> u64" where
  "r_sstatus s = (csr_sstatus (mycsr s) AND NOT SSTATUS_SIE) OR (if sie (mycpu s) then SSTATUS_SIE else 0)"

definition w_sstatus :: "u64 \<Rightarrow> 'a kernel_scheme \<Rightarrow> 'a kernel_scheme" where
  "w_sstatus x s =
     (let s = upd_csr (csr_sstatus_update (\<lambda>_. x)) s
      in set_mycpu ((mycpu s)\<lparr>sie := (x AND SSTATUS_SIE \<noteq> 0)\<rparr>) s)"

definition trapinit :: "'a kernel_scheme \<Rightarrow> 'a kernel_scheme" where
  "trapinit s = initlock LkTicks ''time'' s"

definition trapinithart :: "'a kernel_scheme \<Rightarrow> 'a kernel_scheme" where
  "trapinithart s = upd_csr (csr_stvec_update (\<lambda>_. kernelvec_pc s)) s"

section \<open>Interrupt controller\<close>

definition UART0_IRQ :: u32 where "UART0_IRQ = 10"
definition VIRTIO0_IRQ :: u32 where "VIRTIO0_IRQ = 1"

definition PLIC_SENABLE :: "u64 \<Rightarrow> u64" where "PLIC_SENABLE h = PLIC + 0x2080 + h * 0x100"
definition PLIC_SPRIORITY :: "u64 \<Rightarrow> u64" where "PLIC_SPRIORITY h = PLIC + 0x201000 + h * 0x2000"
definition PLIC_SCLAIM :: "u64 \<Rightarrow> u64" where "PLIC_SCLAIM h = PLIC + 0x201004 + h * 0x2000"

definition plicinit :: "'a io_scheme \<Rightarrow> 'a io_scheme" where
  "plicinit s =
     (let s = mmio_write (PLIC + ucast UART0_IRQ * 4) 1 s
      in mmio_write (PLIC + ucast VIRTIO0_IRQ * 4) 1 s)"

definition plicinithart :: "'a io_scheme \<Rightarrow> 'a io_scheme" where
  "plicinithart s =
     (let h = of_nat (cpuid s);
          s = mmio_write (PLIC_SENABLE h) (push_bit (unat UART0_IRQ) 1 OR push_bit (unat VIRTIO0_IRQ) 1) s
      in mmio_write (PLIC_SPRIORITY h) 0 s)"

definition plic_claim :: "'a io_scheme \<Rightarrow> u32 \<times> 'a io_scheme" where
  "plic_claim s = (case mmio_read (PLIC_SCLAIM (of_nat (cpuid s))) s of (v, s) \<Rightarrow> (ucast v, s))"

definition plic_complete :: "u32 \<Rightarrow> 'a io_scheme \<Rightarrow> 'a io_scheme" where
  "plic_complete irq s = mmio_write (PLIC_SCLAIM (of_nat (cpuid s))) (ucast irq) s"

section \<open>Device interrupts\<close>

definition clockintr :: "'a procs_scheme \<Rightarrow> (unit, 'a procs_scheme) out" where
  "clockintr s =
     and_then (acquire LkTicks s) (\<lambda>_ s.
     and_then (wakeup (Some ChTicks) (s\<lparr>ticks := ticks s + 1\<rparr>)) (\<lambda>_ s. release LkTicks s))"

definition devintr :: "'a kernel_scheme \<Rightarrow> (nat, 'a kernel_scheme) out" where
  "devintr s =
     (let scause = csr_scause (mycsr s)
      in if scause AND 0x8000000000000000 \<noteq> 0 \<and> scause AND 0xff = 9 then
           (case plic_claim s of (irq, s) \<Rightarrow>
            and_then
              (if irq = UART0_IRQ then uartintr s
               else if irq = VIRTIO0_IRQ then virtio_disk_intr s
               else if irq \<noteq> 0 then printf ''unexpected interrupt irq=%d\<newline>'' [PInt irq] s
               else Ok () s)
              (\<lambda>_ s. Ok 1 (if irq \<noteq> 0 then plic_complete irq s else s)))
         else if scause = 0x8000000000000001 then
           and_then (if cpuid s = 0 then clockintr s else Ok () s) (\<lambda>_ s.
             Ok 2 (upd_csr (csr_sip_update (\<lambda>x. x AND NOT 2)) s))
         else Ok 0 s)"

definition kerneltrap :: "'a kernel_scheme \<Rightarrow> (unit, 'a kernel_scheme) out" where
  "kerneltrap s =
     (let sepc = csr_sepc (mycsr s); sstatus = r_sstatus s; scause = csr_scause (mycsr s)
      in if sstatus AND SSTATUS_SPP = 0 then Panic ''kerneltrap: not from supervisor mode''
         else if intr_get s then Panic ''kerneltrap: interrupts enabled''
         else and_then (devintr s) (\<lambda>which s.
           if which = 0 then
             and_then (printf ''scause %p\<newline>'' [PPtr scause] s) (\<lambda>_ s.
             and_then (printf ''sepc=%p stval=%p\<newline>''
               [PPtr (csr_sepc (mycsr s)), PPtr (csr_stval (mycsr s))] s) (\<lambda>_ s. Panic ''kerneltrap''))
           else and_then
             (if which = 2 then
                and_then (myproc s) (\<lambda>p s. case p of
                  None \<Rightarrow> Ok () s
                | Some _ \<Rightarrow> with_proc (\<lambda>p s. if state (ptab s p) = RUNNING then yield s else Ok () s) s)
              else Ok () s)
             (\<lambda>_ s. Ok () (w_sstatus sstatus (upd_csr (csr_sepc_update (\<lambda>_. sepc)) s)))))"

section \<open>Traps from user space\<close>

record uentry =
  ue_fn :: u64
  ue_trapframe :: u64
  ue_satp :: u64

definition usertrapret :: "'a kernel_scheme \<Rightarrow> (uentry, 'a kernel_scheme) out" where
  "usertrapret s =
     with_proc (\<lambda>p s.
       let s = intr_off s;
           s = upd_csr (csr_stvec_update (\<lambda>_. TRAMPOLINE + (uservec_pc s - trampoline s))) s;
           s = tf_set tf_kernel_satp p (satp s (cpuid s)) s;
           s = tf_set tf_kernel_sp p (kstack (ptab s p) + PGSIZE) s;
           s = tf_set tf_kernel_trap p (usertrap_pc s) s;
           s = tf_set tf_kernel_hartid p (of_nat (cpuid s)) s;
           x = r_sstatus s; x = x AND NOT SSTATUS_SPP; x = x OR SSTATUS_SPIE;
           s = w_sstatus x s;
           s = upd_csr (csr_sepc_update (\<lambda>_. tf_get tf_epc p s)) s
       in Ok \<lparr>ue_fn = TRAMPOLINE + (userret_pc s - trampoline s), ue_trapframe = TRAPFRAME,
              ue_satp = MAKE_SATP (pagetable (ptab s p))\<rparr> s) s"

definition forkret :: "'a kernel_scheme \<Rightarrow> (uentry, 'a kernel_scheme) out" where
  "forkret s =
     with_proc (\<lambda>p s.
       and_then (release (LkProc p) s) (\<lambda>_ s.
       and_then (if forkret_first s then fsinit ROOTDEV (s\<lparr>forkret_first := False\<rparr>) else Ok () s) (\<lambda>_ s.
       usertrapret s))) s"

text \<open>What a timer interrupt does to the alarm of the interrupted process.\<close>

definition alarm_tick :: "nat \<Rightarrow> 'a procs_scheme \<Rightarrow> 'a procs_scheme" where
  "alarm_tick p s =
     (if 0 < sint (alarm_interval (ptab s p)) \<and> in_alarm_handler (ptab s p) = 0 then
        let s = upd_proc p (\<lambda>q. q\<lparr>ticks_since_alarm := ticks_since_alarm q + 1\<rparr>) s
        in if sint (alarm_interval (ptab s p)) \<le> sint (ticks_since_alarm (ptab s p)) then
             let s = upd_proc p (ticks_since_alarm_update (\<lambda>_. 0)) s;
                 s = s\<lparr>mem := memmove (mem s) (alarm_tf (ptab s p)) (trapframe (ptab s p)) (unat PGSIZE)\<rparr>;
                 s = tf_set tf_epc p (alarm_handler (ptab s p)) s
             in upd_proc p (in_alarm_handler_update (\<lambda>_. 1)) s
           else s
      else s)"

definition usertrap :: "'a kernel_scheme \<Rightarrow> (uentry, 'a kernel_scheme) out" where
  "usertrap s =
     (if r_sstatus s AND SSTATUS_SPP \<noteq> 0 then Panic ''usertrap: not from user mode''
      else let s = upd_csr (csr_stvec_update (\<lambda>_. kernelvec_pc s)) s
      in with_proc (\<lambda>p s.
           let s = tf_set tf_epc p (csr_sepc (mycsr s)) s
           in and_then
                (if csr_scause (mycsr s) = 8 then
                   and_then (if killed (ptab s p) \<noteq> 0 then exit (- 1) s else Ok () s) (\<lambda>_ s.
                   let s = tf_set tf_epc p (tf_get tf_epc p s + 4) s; s = intr_on s in syscall s)
                 else and_then (devintr s) (\<lambda>which s.
                   if which \<noteq> 0 then (if which = 2 then yield (alarm_tick p s) else Ok () s)
                   else and_then (printf ''usertrap(): unexpected scause %p pid=%d\<newline>''
                          [PPtr (csr_scause (mycsr s)), PInt (pid (ptab s p))] s) (\<lambda>_ s.
                        and_then (printf ''            sepc=%p stval=%p\<newline>''
                          [PPtr (csr_sepc (mycsr s)), PPtr (csr_stval (mycsr s))] s) (\<lambda>_ s.
                        Ok () (upd_proc p (killed_update (\<lambda>_. 1)) s)))))
                (\<lambda>_ s.
              and_then (if killed (ptab s p) \<noteq> 0 then exit (- 1) s else Ok () s) (\<lambda>_ s.
              usertrapret s))) s)"

end
