(* ===== verification/Boot.thy ===== *)
theory Boot
  imports Trap
begin

text \<open>
  Booting: \<^verbatim>\<open>kernel/start.c\<close> and \<^verbatim>\<open>kernel/main.c\<close>.  The machine-mode registers matter only here, so they
  are an argument of \<open>start\<close> and \<open>timerinit\<close>.
\<close>

section \<open>Machine mode\<close>

record mregs =
  m_hartid :: nat
  m_status :: u64
  m_epc :: u64
  m_edeleg :: u64
  m_ideleg :: u64
  m_ie :: u64
  m_tvec :: u64
  m_scratch :: u64
  m_satp :: u64
  m_sie :: u64
  m_pmpaddr0 :: u64
  m_pmpcfg0 :: u64
  m_tp :: u64
  m_mtimecmp :: "nat \<Rightarrow> u64"
  m_mtime :: u64
  timer_scratch :: "nat \<Rightarrow> nat \<Rightarrow> u64"

definition MSTATUS_MPP_MASK :: u64 where "MSTATUS_MPP_MASK = push_bit 11 3"
definition MSTATUS_MPP_S :: u64 where "MSTATUS_MPP_S = push_bit 11 1"
definition MSTATUS_MIE :: u64 where "MSTATUS_MIE = push_bit 3 1"
definition MIE_MTIE :: u64 where "MIE_MTIE = push_bit 7 1"
definition CLINT_MTIMECMP :: "u64 \<Rightarrow> u64" where "CLINT_MTIMECMP h = 0x2000000 + 0x4000 + 8 * h"

text \<open>\<open>scratch_addr\<close> is the address of the first entry of \<^verbatim>\<open>timer_scratch\<close>, \<open>timervec\<close> that of the handler.\<close>

definition timerinit :: "u64 \<Rightarrow> u64 \<Rightarrow> mregs \<Rightarrow> mregs" where
  "timerinit scratch_addr timervec r =
     (let h = m_hartid r;
          interval = 1000000;
          r = r\<lparr>m_mtimecmp := (m_mtimecmp r)(h := m_mtime r + interval)\<rparr>;
          r = r\<lparr>timer_scratch := (timer_scratch r)(h := (timer_scratch r h)(3 := CLINT_MTIMECMP (of_nat h), 4 := interval))\<rparr>;
          r = r\<lparr>m_scratch := scratch_addr + of_nat (h * 40)\<rparr>;
          r = r\<lparr>m_tvec := timervec\<rparr>;
          r = r\<lparr>m_status := m_status r OR MSTATUS_MIE\<rparr>
      in r\<lparr>m_ie := m_ie r OR MIE_MTIE\<rparr>)"

definition start :: "u64 \<Rightarrow> u64 \<Rightarrow> u64 \<Rightarrow> mregs \<Rightarrow> mregs" where
  "start main_pc scratch_addr timervec r =
     (let r = r\<lparr>m_status := (m_status r AND NOT MSTATUS_MPP_MASK) OR MSTATUS_MPP_S\<rparr>;
          r = r\<lparr>m_epc := main_pc\<rparr>;
          r = r\<lparr>m_satp := 0\<rparr>;
          r = r\<lparr>m_edeleg := 0xffff, m_ideleg := 0xffff\<rparr>;
          r = r\<lparr>m_sie := m_sie r OR push_bit 9 1 OR push_bit 5 1 OR push_bit 1 1\<rparr>;
          r = r\<lparr>m_pmpaddr0 := 0x3fffffffffffff, m_pmpcfg0 := 0xf\<rparr>;
          r = timerinit scratch_addr timervec r
      in r\<lparr>m_tp := of_nat (m_hartid r)\<rparr>)"

section \<open>Supervisor mode\<close>

definition boot_hart0 :: "'a kernel_scheme \<Rightarrow> (unit, 'a kernel_scheme) out" where
  "boot_hart0 s =
     (let s = consoleinit s; s = printfinit s
      in and_then (printf ''\<newline>'' [] s) (\<lambda>_ s.
         and_then (printf ''xv6 kernel is booting\<newline>'' [] s) (\<lambda>_ s.
         and_then (printf ''\<newline>'' [] s) (\<lambda>_ s.
         and_then (kinit s) (\<lambda>_ s.
         and_then (kvminit s) (\<lambda>_ s.
         let s = kvminithart s
         in and_then (procinit s) (\<lambda>_ s.
            let s = trapinit s; s = trapinithart s; s = plicinit s; s = plicinithart s
            in and_then (binit s) (\<lambda>_ s.
               and_then (iinit s) (\<lambda>_ s.
               let s = fileinit s
               in and_then (virtio_disk_init s) (\<lambda>_ s.
                  and_then (userinit s) (\<lambda>_ s. Ok () (s\<lparr>started := True\<rparr>))))))))))))"

definition boot_other :: "'a kernel_scheme \<Rightarrow> (unit, 'a kernel_scheme) out" where
  "boot_other s =
     (if \<not> started s then Spin
      else and_then (printf ''hart %d starting\<newline>'' [PInt (of_nat (cpuid s))] s) (\<lambda>_ s.
        let s = kvminithart s; s = trapinithart s in Ok () (plicinithart s)))"

definition main :: "nat \<Rightarrow> 'a kernel_scheme \<Rightarrow> (unit, 'a kernel_scheme) out" where
  "main rounds s =
     and_then (if cpuid s = 0 then boot_hart0 s else boot_other s) (\<lambda>_ s. scheduler rounds s)"

end
