(* ===== verification/Proc_Facts.thy ===== *)
theory Proc_Facts
  imports Proc
begin

text \<open>
  What the scheduling routines of \<^verbatim>\<open>kernel/proc.c\<close> do: \<^verbatim>\<open>wakeup\<close>, \<^verbatim>\<open>kill\<close> and the search of \<^verbatim>\<open>allocproc\<close> as
  functions of the process table, and the locking protocol around \<^verbatim>\<open>swtch\<close>.
\<close>

section \<open>Fields and critical sections\<close>

lemma vm_settle [simp]:
  "kernel_pagetable (settle s) = kernel_pagetable s" "etext (settle s) = etext s"
  "trampoline (settle s) = trampoline s" "satp (settle s) = satp s"
  "(settle s)\<lparr>kernel_pagetable := x0\<rparr> = settle (s\<lparr>kernel_pagetable := x0\<rparr>)"
  "(settle s)\<lparr>etext := x1\<rparr> = settle (s\<lparr>etext := x1\<rparr>)"
  "(settle s)\<lparr>trampoline := x2\<rparr> = settle (s\<lparr>trampoline := x2\<rparr>)"
  "(settle s)\<lparr>satp := x3\<rparr> = settle (s\<lparr>satp := x3\<rparr>)"
  by (simp_all add: settle_def set_mycpu_def mycpu_def cpuid_def)

lemma vm_enter_cs [simp]:
  "kernel_pagetable (enter_cs lk s) = kernel_pagetable s" "etext (enter_cs lk s) = etext s"
  "trampoline (enter_cs lk s) = trampoline s" "satp (enter_cs lk s) = satp s"
  "(enter_cs lk s)\<lparr>kernel_pagetable := x0\<rparr> = enter_cs lk (s\<lparr>kernel_pagetable := x0\<rparr>)"
  "(enter_cs lk s)\<lparr>etext := x1\<rparr> = enter_cs lk (s\<lparr>etext := x1\<rparr>)"
  "(enter_cs lk s)\<lparr>trampoline := x2\<rparr> = enter_cs lk (s\<lparr>trampoline := x2\<rparr>)"
  "(enter_cs lk s)\<lparr>satp := x3\<rparr> = enter_cs lk (s\<lparr>satp := x3\<rparr>)"
  by (simp_all add: enter_cs_def push_off_def set_mycpu_def mycpu_def cpuid_def)

lemma vm_frame [simp]:
  "mach_ok (s\<lparr>kernel_pagetable := x0\<rparr>) = mach_ok s"
  "mach_ok (s\<lparr>etext := x1\<rparr>) = mach_ok s"
  "mach_ok (s\<lparr>trampoline := x2\<rparr>) = mach_ok s"
  "mach_ok (s\<lparr>satp := x3\<rparr>) = mach_ok s"
  "lock_free lk (s\<lparr>kernel_pagetable := x0\<rparr>) = lock_free lk s"
  "lock_free lk (s\<lparr>etext := x1\<rparr>) = lock_free lk s"
  "lock_free lk (s\<lparr>trampoline := x2\<rparr>) = lock_free lk s"
  "lock_free lk (s\<lparr>satp := x3\<rparr>) = lock_free lk s"
  "mycpu (s\<lparr>kernel_pagetable := x0\<rparr>) = mycpu s"
  "mycpu (s\<lparr>etext := x1\<rparr>) = mycpu s"
  "mycpu (s\<lparr>trampoline := x2\<rparr>) = mycpu s"
  "mycpu (s\<lparr>satp := x3\<rparr>) = mycpu s"
  by (simp_all add: mach_ok_def lock_free_def mycpu_def cpuid_def)

lemma procs_settle [simp]:
  "ptab (settle s) = ptab s" "initproc (settle s) = initproc s" "nextpid (settle s) = nextpid s"
  "ticks (settle s) = ticks s"
  "(settle s)\<lparr>ptab := x0\<rparr> = settle (s\<lparr>ptab := x0\<rparr>)"
  "(settle s)\<lparr>initproc := x1\<rparr> = settle (s\<lparr>initproc := x1\<rparr>)"
  "(settle s)\<lparr>nextpid := x2\<rparr> = settle (s\<lparr>nextpid := x2\<rparr>)"
  "(settle s)\<lparr>ticks := x3\<rparr> = settle (s\<lparr>ticks := x3\<rparr>)"
  by (simp_all add: settle_def set_mycpu_def mycpu_def cpuid_def)

lemma procs_enter_cs [simp]:
  "ptab (enter_cs lk s) = ptab s" "initproc (enter_cs lk s) = initproc s"
  "nextpid (enter_cs lk s) = nextpid s" "ticks (enter_cs lk s) = ticks s"
  "(enter_cs lk s)\<lparr>ptab := x0\<rparr> = enter_cs lk (s\<lparr>ptab := x0\<rparr>)"
  "(enter_cs lk s)\<lparr>initproc := x1\<rparr> = enter_cs lk (s\<lparr>initproc := x1\<rparr>)"
  "(enter_cs lk s)\<lparr>nextpid := x2\<rparr> = enter_cs lk (s\<lparr>nextpid := x2\<rparr>)"
  "(enter_cs lk s)\<lparr>ticks := x3\<rparr> = enter_cs lk (s\<lparr>ticks := x3\<rparr>)"
  by (simp_all add: enter_cs_def push_off_def set_mycpu_def mycpu_def cpuid_def)

lemma procs_frame [simp]:
  "mach_ok (s\<lparr>ptab := x0\<rparr>) = mach_ok s"
  "mach_ok (s\<lparr>initproc := x1\<rparr>) = mach_ok s"
  "mach_ok (s\<lparr>nextpid := x2\<rparr>) = mach_ok s"
  "mach_ok (s\<lparr>ticks := x3\<rparr>) = mach_ok s"
  "lock_free lk (s\<lparr>ptab := x0\<rparr>) = lock_free lk s"
  "lock_free lk (s\<lparr>initproc := x1\<rparr>) = lock_free lk s"
  "lock_free lk (s\<lparr>nextpid := x2\<rparr>) = lock_free lk s"
  "lock_free lk (s\<lparr>ticks := x3\<rparr>) = lock_free lk s"
  "mycpu (s\<lparr>ptab := x0\<rparr>) = mycpu s"
  "mycpu (s\<lparr>initproc := x1\<rparr>) = mycpu s"
  "mycpu (s\<lparr>nextpid := x2\<rparr>) = mycpu s"
  "mycpu (s\<lparr>ticks := x3\<rparr>) = mycpu s"
  by (simp_all add: mach_ok_def lock_free_def mycpu_def cpuid_def)

lemma upd_proc_settle [simp]: "upd_proc p f (settle s) = settle (upd_proc p f s)"
  by (simp add: upd_proc_def)

lemma upd_proc_enter_cs [simp]: "upd_proc p f (enter_cs lk s) = enter_cs lk (upd_proc p f s)"
  by (simp add: upd_proc_def)

lemma upd_proc_frame [simp]:
  "mach_ok (upd_proc p f s) = mach_ok s" "lock_free lk (upd_proc p f s) = lock_free lk s"
  "mycpu (upd_proc p f s) = mycpu s" "mem (upd_proc p f s) = mem s"
  "ptab (upd_proc p f s) = (ptab s)(p := f (ptab s p))" "hart (upd_proc p f s) = hart s"
  "freelist (upd_proc p f s) = freelist s" "kend (upd_proc p f s) = kend s"
  "nextpid (upd_proc p f s) = nextpid s" "initproc (upd_proc p f s) = initproc s"
  by (simp_all add: upd_proc_def)

definition procs_free :: "'a procs_scheme \<Rightarrow> bool" where
  "procs_free s \<longleftrightarrow> (\<forall>p<NPROC. lock_free (LkProc p) s)"

lemma procs_freeD: "procs_free s \<Longrightarrow> p < NPROC \<Longrightarrow> lock_free (LkProc p) s"
  by (simp add: procs_free_def)

lemma procs_free_frame [simp]:
  "procs_free (settle s) = procs_free s" "procs_free (upd_proc p f s) = procs_free s"
  "procs_free (s\<lparr>ptab := T\<rparr>) = procs_free s" "procs_free (s\<lparr>mem := m\<rparr>) = procs_free s"
  "procs_free (s\<lparr>ticks := t\<rparr>) = procs_free s"
  by (simp_all add: procs_free_def)

lemma procs_free_enter_cs [simp]:
  "(\<And>p. lk \<noteq> LkProc p) \<Longrightarrow> procs_free (enter_cs lk s) = procs_free s"
  by (auto simp: procs_free_def)

lemma with_proc_eq [simp]:
  "mach_ok s \<Longrightarrow> cproc (mycpu s) = Some p \<Longrightarrow> with_proc f s = f p (settle s)"
  by (simp add: with_proc_def)

lemma with_proc_none: "mach_ok s \<Longrightarrow> cproc (mycpu s) = None \<Longrightarrow> with_proc f s = Panic ''kerneltrap''"
  by (simp add: with_proc_def)

section \<open>Waking up\<close>

text \<open>The effect of \<^verbatim>\<open>wakeup(ch)\<close> called by process \<open>me\<close> on the process table.\<close>

definition woken :: "chan option \<Rightarrow> nat option \<Rightarrow> nat set \<Rightarrow> (nat \<Rightarrow> proc) \<Rightarrow> nat \<Rightarrow> proc" where
  "woken ch me P T p =
     (if p \<in> P \<and> me \<noteq> Some p \<and> state (T p) = SLEEPING \<and> chan (T p) = ch
      then (T p)\<lparr>state := RUNNABLE\<rparr> else T p)"

lemma wakeup_loop_eq:
  assumes "mach_ok s" "procs_free s" "n \<le> NPROC" "0 < n"
  shows "for_each (wake_slot ch) [0..<n] s = Ok () (settle (s\<lparr>ptab := woken ch (cproc (mycpu s)) {..<n} (ptab s)\<rparr>))"
    (is "for_each ?f _ _ = _")
proof -
  let ?T = "\<lambda>i. woken ch (cproc (mycpu s)) {..<i} (ptab s)"
  define I where "I i t \<longleftrightarrow> (if i = 0 then t = s else t = settle (s\<lparr>ptab := ?T i\<rparr>))" for i t
  have step: "\<exists>t'. ?f ([0..<n] ! i) t = Ok () t' \<and> I (Suc i) t'" if "i < length [0..<n]" "I i t" for i t
  proof -
    have i: "i < NPROC" "[0..<n] ! i = i" using that(1) assms(3) by auto
    have T0: "?T 0 = ptab s" by (rule ext) (simp add: woken_def)
    have t: "settle t = settle (s\<lparr>ptab := ?T i\<rparr>)" and m: "mach_ok t" and c: "cproc (mycpu t) = cproc (mycpu s)"
      and l: "lock_free (LkProc i) t"
      using that(2) assms(1) procs_freeD [OF assms(2) i(1)] T0 by (auto simp: I_def split: if_splits)
    have Ti: "?T i i = ptab s i" by (simp add: woken_def)
    have TS: "?T (Suc i) = (if cproc (mycpu s) \<noteq> Some i \<and> state (ptab s i) = SLEEPING \<and> chan (ptab s i) = ch
        then (?T i)(i := (?T i i)\<lparr>state := RUNNABLE\<rparr>) else ?T i)"
      by (rule ext) (auto simp: woken_def less_Suc_eq)
    have l': "lock_free (LkProc i) (settle (s\<lparr>ptab := ?T i\<rparr>))"
      using procs_freeD [OF assms(2) i(1)] by simp
    show ?thesis
    proof (cases "cproc (mycpu s) = Some i")
      case True
      then show ?thesis using i m c TS t by (auto simp: I_def wake_slot_def)
    next
      case False
      then show ?thesis
        using i m c TS t l' Ti assms(1) procs_freeD [OF assms(2) i(1)] by (auto simp: I_def wake_slot_def upd_proc_def)
    qed
  qed
  have I0: "I 0 s" by (simp add: I_def)
  from for_each_inv [of I s "[0..<n]" ?f, OF I0 step]
  show ?thesis using assms(4) by (simp add: I_def)
qed

lemma wakeup_eq:
  assumes "mach_ok s" "procs_free s"
  shows "wakeup ch s = Ok () (settle (s\<lparr>ptab := woken ch (cproc (mycpu s)) {..<NPROC} (ptab s)\<rparr>))"
  using wakeup_loop_eq [OF assms, of NPROC ch] by (simp add: wakeup_def NPROC_def)

section \<open>Killing\<close>

definition kill_mark :: "proc \<Rightarrow> proc" where
  "kill_mark q = q\<lparr>killed := 1, state := (if state q = SLEEPING then RUNNABLE else state q)\<rparr>"

lemma kill_scan_eq:
  assumes "mach_ok s" "\<And>p. p \<in> set ps \<Longrightarrow> lock_free (LkProc p) s" "ps \<noteq> []"
  shows "kill_scan n ps s = (case find (\<lambda>p. pid (ptab s p) = n) ps of
     None \<Rightarrow> Ok (- 1) (settle s) | Some p \<Rightarrow> Ok 0 (settle (upd_proc p kill_mark s)))"
  using assms
proof (induction ps arbitrary: s)
  case (Cons p ps)
  have l: "lock_free (LkProc p) s" using Cons.prems(2) by simp
  show ?case
  proof (cases "pid (ptab s p) = n")
    case True
    then show ?thesis
      using Cons.prems(1) l by (simp add: upd_proc_def kill_mark_def Let_def)
  next
    case False
    show ?thesis
    proof (cases "ps = []")
      case True
      then show ?thesis using False Cons.prems(1) l by simp
    next
      case ne: False
      have "kill_scan n ps (settle s) = (case find (\<lambda>p. pid (ptab (settle s) p) = n) ps of
         None \<Rightarrow> Ok (- 1) (settle (settle s)) | Some p \<Rightarrow> Ok 0 (settle (upd_proc p kill_mark (settle s))))"
        by (rule Cons.IH) (use Cons.prems ne in auto)
      then show ?thesis using False Cons.prems(1) l by (simp split: option.split)
    qed
  qed
qed simp

lemma kill_eq:
  assumes "mach_ok s" "procs_free s"
  shows "kill n s = (case find (\<lambda>p. pid (ptab s p) = n) [0..<NPROC] of
     None \<Rightarrow> Ok (- 1) (settle s) | Some p \<Rightarrow> Ok 0 (settle (upd_proc p kill_mark s)))"
  unfolding kill_def using assms
  by (intro kill_scan_eq) (auto simp: procs_free_def NPROC_def)

section \<open>The switching protocol\<close>

lemma enter_cs_cpu: "mycpu (enter_cs lk s) = push_off_cpu (mycpu s)"
  by (simp add: enter_cs_def push_off_def set_mycpu_def mycpu_def cpuid_def)

lemma enter_cs_holding [simp]: "holding lk (enter_cs lk s)"
  by (simp add: holding_def enter_cs_def cpuid_def push_off_def set_mycpu_def)

lemma enter_cs_locks: "locks (enter_cs lk s) = (locks s)(lk := (locks s lk)\<lparr>locked := True, lcpu := Some (hart s)\<rparr>)"
  by (simp add: enter_cs_def cpuid_def)

text \<open>
  The state in which the processor is handed over, in either direction: this hart runs \<open>p\<close> and
  holds exactly one lock, that of \<open>p\<close>, with interrupts off.
\<close>

definition handoff :: "nat \<Rightarrow> 'a procs_scheme \<Rightarrow> bool" where
  "handoff p s \<longleftrightarrow> cproc (mycpu s) = Some p \<and> noff (mycpu s) = 1 \<and> \<not> sie (mycpu s) \<and>
     locked (locks s (LkProc p)) \<and> lcpu (locks s (LkProc p)) = Some (hart s)"

lemma handoff_mach_ok: "handoff p s \<Longrightarrow> mach_ok s"
  by (simp add: handoff_def mach_ok_def cpu_ok_def)

text \<open>Releasing the last lock gives back the interrupt state saved in \<open>intena\<close>.\<close>

definition leave_last :: "lockid \<Rightarrow> 'a machine_scheme \<Rightarrow> 'a machine_scheme" where
  "leave_last lk s = set_mycpu ((mycpu s)\<lparr>noff := 0, sie := intena (mycpu s)\<rparr>)
     (s\<lparr>locks := (locks s)(lk := (locks s lk)\<lparr>lcpu := None, locked := False\<rparr>)\<rparr>)"

lemma release_last:
  assumes "noff (mycpu s) = 1" "\<not> sie (mycpu s)" "locked (locks s lk)" "lcpu (locks s lk) = Some (hart s)"
  shows "release lk s = Ok () (leave_last lk s)"
proof -
  have h: "holding lk s" using assms(3,4) by (simp add: holding_def cpuid_def)
  have m: "mycpu (s\<lparr>locks := L\<rparr>) = mycpu s" for L by (simp add: mycpu_def cpuid_def)
  show ?thesis
    using h assms(1,2)
    by (cases "mycpu s")
      (simp add: release_def pop_off_def pop_off_cpu_def intr_get_cpu_def intr_on_cpu_def m leave_last_def
        lock_release_def clear_owner_def Let_def)
qed

lemma leave_last_simps [simp]:
  "hart (leave_last lk s) = hart s" "lock_free lk (leave_last lk s)"
  "lk' \<noteq> lk \<Longrightarrow> locks (leave_last lk s) lk' = locks s lk'"
  "cproc (mycpu (leave_last lk s)) = cproc (mycpu s)" "noff (mycpu (leave_last lk s)) = 0"
  "sie (mycpu (leave_last lk s)) = intena (mycpu s)"
  "mach_ok (leave_last lk s)"
  by (simp_all add: leave_last_def lock_free_def set_mycpu_def mycpu_def cpuid_def mach_ok_def cpu_ok_def)

lemma leave_last_procs [simp]:
  "ptab (leave_last lk s) = ptab s" "mem (leave_last lk s) = mem s"
  by (simp_all add: leave_last_def set_mycpu_def)

lemma set_mycpu_simps [simp]:
  "mycpu (set_mycpu c s) = c" "hart (set_mycpu c s) = hart s" "locks (set_mycpu c s) = locks s"
  by (simp_all add: set_mycpu_def mycpu_def cpuid_def)

lemma set_mycpu_procs [simp]:
  "ptab (set_mycpu c s) = ptab s" "mem (set_mycpu c s) = mem s"
  by (simp_all add: set_mycpu_def)

text \<open>What \<^verbatim>\<open>sched\<close> does when its conditions hold.\<close>

lemma sched_eq:
  assumes "handoff p s" "state (ptab s p) \<noteq> RUNNING"
  shows "sched s = Swtch s (\<lambda>u. Ok () (set_mycpu ((mycpu u)\<lparr>intena := intena (mycpu s)\<rparr>) u))"
proof -
  have st: "settle s = s"
    using assms(1) by (auto simp: handoff_def settle_def settle_cpu_def set_mycpu_def mycpu_def cpuid_def)
  have h: "holding (LkProc p) s" using assms(1) by (simp add: handoff_def holding_def cpuid_def)
  have c: "cproc (mycpu s) = Some p" "noff (mycpu s) = 1" "\<not> sie (mycpu s)"
    using assms(1) by (simp_all add: handoff_def)
  show ?thesis
    using handoff_mach_ok [OF assms(1)] assms(2) h c
    by (simp add: sched_def st intr_get_def intr_get_cpu_def Let_def)
qed

text \<open>A thread that holds no lock and runs process \<open>p\<close>.\<close>

definition runs :: "nat \<Rightarrow> 'a procs_scheme \<Rightarrow> bool" where
  "runs p s \<longleftrightarrow> mach_ok s \<and> noff (mycpu s) = 0 \<and> cproc (mycpu s) = Some p \<and> lock_free (LkProc p) s"

lemma runsD:
  assumes "runs p s"
  shows "mach_ok s" "noff (mycpu s) = 0" "cproc (mycpu s) = Some p" "lock_free (LkProc p) s"
  using assms by (simp_all add: runs_def)

lemma runs_upd [simp]: "runs p (upd_proc q f s) = runs p s" "runs p (settle s) = runs p s"
  by (simp_all add: runs_def)

lemma push_off_cpu_simps:
  "noff (push_off_cpu c) = noff c + 1" "\<not> sie (push_off_cpu c)"
  "noff c = 0 \<Longrightarrow> intena (push_off_cpu c) = sie c"
  by (simp_all add: push_off_cpu_def intr_get_cpu_def intr_off_cpu_def Let_def)

lemma handoff_enter_cs: "runs p s \<Longrightarrow> handoff p (enter_cs (LkProc p) s)"
  using push_off_cpu_simps [of "mycpu s"]
  by (simp add: handoff_def runs_def enter_cs_cpu enter_cs_locks)

lemma handoff_upd [simp]: "handoff p (upd_proc q f s) = handoff p s"
  by (simp add: handoff_def upd_proc_def)

lemma yield_eq:
  assumes "runs p s"
  shows "yield s = Swtch (enter_cs (LkProc p) (upd_proc p (state_update (\<lambda>_. RUNNABLE)) s))
     (\<lambda>u. release (LkProc p) (set_mycpu ((mycpu u)\<lparr>intena := sie (mycpu s)\<rparr>) u))"
proof -
  note r = runsD [OF assms]
  let ?t = "enter_cs (LkProc p) (upd_proc p (state_update (\<lambda>_. RUNNABLE)) s)"
  have h: "handoff p ?t" by (rule handoff_enter_cs) (simp add: assms)
  have i: "intena (mycpu ?t) = sie (mycpu s)"
    using push_off_cpu_simps(3) [OF r(2)] by (simp add: enter_cs_cpu)
  have "settle ?t = ?t" using r(1) by simp
  then show ?thesis
    using r sched_eq [OF h] i by (simp add: yield_def Let_def)
qed

lemma release_handoff:
  assumes "handoff p u"
  shows "release (LkProc p) (set_mycpu ((mycpu u)\<lparr>intena := b\<rparr>) u) =
    Ok () (leave_last (LkProc p) (set_mycpu ((mycpu u)\<lparr>intena := b\<rparr>) u))"
  by (rule release_last) (use assms in \<open>simp_all add: handoff_def\<close>)

lemma runs_leave_last:
  "handoff p u \<Longrightarrow> runs p (leave_last (LkProc p) (set_mycpu ((mycpu u)\<lparr>intena := b\<rparr>) u))"
  by (simp add: runs_def handoff_def)

text \<open>\<^verbatim>\<open>sleep\<close> releases the caller's lock after taking the process lock, not in nested order.\<close>

lemma release_outer:
  assumes "mach_ok s" "lock_free lk s" "lk \<noteq> lk2"
  shows "release lk (enter_cs lk2 (enter_cs lk s)) = Ok () (enter_cs lk2 s)"
proof -
  let ?t = "enter_cs lk2 (enter_cs lk s)"
  let ?L = "(locks ?t)(lk := lock_release (clear_owner (locks ?t lk)))"
  have h: "holding lk ?t"
    using assms(3) by (simp add: holding_def enter_cs_locks cpuid_def)
  have m: "mycpu (?t\<lparr>locks := L\<rparr>) = push_off_cpu (push_off_cpu (mycpu s))" for L
    by (simp add: mycpu_def cpuid_def enter_cs_def push_off_def set_mycpu_def)
  have c: "0 \<le> noff (mycpu s)" using assms(1) by (simp add: mach_ok_def cpu_ok_def)
  have p: "pop_off_cpu (push_off_cpu (push_off_cpu (mycpu s))) = Inr (push_off_cpu (mycpu s))"
    using c by (cases "mycpu s")
      (auto simp: pop_off_cpu_def push_off_cpu_def intr_get_cpu_def intr_off_cpu_def Let_def)
  have l: "?L = locks (enter_cs lk2 s)"
    using assms(2,3) by (auto simp: enter_cs_locks lock_release_def clear_owner_def lock_free_def fun_eq_iff)
  have "release lk ?t = Ok () (set_mycpu (push_off_cpu (mycpu s)) (?t\<lparr>locks := ?L\<rparr>))"
    using h p by (simp add: release_def pop_off_def m)
  also have "set_mycpu (push_off_cpu (mycpu s)) (?t\<lparr>locks := ?L\<rparr>) = enter_cs lk2 s"
    unfolding l by (simp add: enter_cs_def push_off_def set_mycpu_def mycpu_def cpuid_def)
  finally show ?thesis .
qed

lemma sleep_eq:
  assumes "runs p s" "lock_free lk s" "lk \<noteq> LkProc p"
  shows "sleep ch lk (enter_cs lk s) =
    Swtch (enter_cs (LkProc p) (upd_proc p (\<lambda>q. q\<lparr>chan := Some ch, state := SLEEPING\<rparr>) s))
     (\<lambda>u. and_then (release (LkProc p) (upd_proc p (chan_update (\<lambda>_. None))
         (set_mycpu ((mycpu u)\<lparr>intena := sie (mycpu s)\<rparr>) u))) (\<lambda>_ s. acquire lk s))"
proof -
  note r = runsD [OF assms(1)]
  let ?s = "upd_proc p (\<lambda>q. q\<lparr>chan := Some ch, state := SLEEPING\<rparr>) s"
  let ?t = "enter_cs (LkProc p) ?s"
  have h: "handoff p ?t" by (rule handoff_enter_cs) (simp add: assms(1))
  have i: "intena (mycpu ?t) = sie (mycpu s)"
    using push_off_cpu_simps(3) [OF r(2)] by (simp add: enter_cs_cpu)
  have u: "upd_proc p (state_update (\<lambda>_. SLEEPING)) (upd_proc p (chan_update (\<lambda>_. Some ch)) s) = ?s"
    by (simp add: upd_proc_def)
  have "release lk (enter_cs (LkProc p) (enter_cs lk s)) = Ok () (enter_cs (LkProc p) s)"
    by (rule release_outer) (use r assms in auto)
  then show ?thesis
    using r assms(3) sched_eq [OF h] i u by (simp add: sleep_def sleep_code_def)
qed

lemma handoff_set_cproc: "noff (mycpu s) = 0 \<Longrightarrow> handoff p (set_cproc (Some p) (enter_cs (LkProc p) s))"
  using push_off_cpu_simps [of "mycpu s"]
  by (simp add: handoff_def set_cproc_def enter_cs_cpu enter_cs_locks)

text \<open>The scheduler's side of the protocol.\<close>

definition idle :: "'a procs_scheme \<Rightarrow> bool" where
  "idle s \<longleftrightarrow> mach_ok s \<and> noff (mycpu s) = 0 \<and> cproc (mycpu s) = None"

lemma sched_slot_run:
  assumes "idle s" "lock_free (LkProc p) s" "state (ptab s p) = RUNNABLE"
  shows "sched_slot p s =
    Swtch (set_cproc (Some p) (enter_cs (LkProc p) (upd_proc p (state_update (\<lambda>_. RUNNING)) s)))
      (\<lambda>u. release (LkProc p) (set_cproc None u))"
  using assms by (simp add: sched_slot_def idle_def Let_def)

lemma sched_slot_skip:
  "idle s \<Longrightarrow> lock_free (LkProc p) s \<Longrightarrow> state (ptab s p) \<noteq> RUNNABLE \<Longrightarrow> sched_slot p s = Ok () (settle s)"
  by (simp add: sched_slot_def idle_def)

lemma release_set_cproc:
  assumes "handoff p u"
  shows "release (LkProc p) (set_cproc None u) = Ok () (leave_last (LkProc p) (set_cproc None u))"
  by (rule release_last) (use assms in \<open>simp_all add: handoff_def set_cproc_def\<close>)

section \<open>Freeing a process\<close>

lemma kmem_ok_enter_cs [simp]: "lk \<noteq> LkKmem \<Longrightarrow> kmem_ok s ps \<Longrightarrow> kmem_ok (enter_cs lk s) ps"
  by (simp add: kmem_ok_def)

lemma kmem_ok_procs [simp]:
  "kmem_ok (upd_proc p f s) ps = kmem_ok s ps" "kmem_ok (s\<lparr>nextpid := n\<rparr>) ps = kmem_ok s ps"
  "kmem_ok (s\<lparr>ptab := T\<rparr>) ps = kmem_ok s ps"
  by (simp_all add: kmem_ok_def)

lemma allocpid_eq:
  "mach_ok s \<Longrightarrow> lock_free LkPid s \<Longrightarrow> allocpid s = Ok (nextpid s) (settle (s\<lparr>nextpid := nextpid s + 1\<rparr>))"
  by (simp add: allocpid_def Let_def)

lemma kpage_nonzero: "kmem_ok s ps \<Longrightarrow> kpage (kend s) q \<Longrightarrow> q \<noteq> 0"
  using order.strict_trans2 [of 0 "kend s" q] by (auto simp: kmem_ok_def kpage_def)

lemma settled_frame:
  assumes "s' = settle (s\<lparr>mem := m, freelist := f\<rparr>)"
  shows "ptab s' = ptab s" "locks s' = locks s" "nextpid s' = nextpid s" "settle s' = s'"
    "mycpu s' = mycpu (settle s)"
  unfolding assms by (simp_all add: settle_def set_mycpu_def mycpu_def cpuid_def)

text \<open>A process whose page table was never made, as on the error paths of \<^verbatim>\<open>allocproc\<close>.\<close>

lemma freeproc_frames:
  assumes "kmem_ok s ps" and "trapframe (ptab s p) = t" "alarm_tf (ptab s p) = a" "pagetable (ptab s p) = 0"
    and "kpage (kend s) t" "kpage (kend s) a" "t \<noteq> a" "t \<notin> set ps" "a \<notin> set ps"
  obtains s' where "freeproc p s = Ok () s'" "kmem_ok s' (a # t # ps)" "kend s' = kend s"
    "ptab s' = (ptab s)(p := clear_proc ((ptab s p)\<lparr>trapframe := 0\<rparr>))"
    "mycpu s' = mycpu (settle s)" "locks s' = locks s" "nextpid s' = nextpid s"
proof -
  have ne: "t \<noteq> 0" "a \<noteq> 0" using kpage_nonzero [OF assms(1)] assms(5,6) by auto
  obtain s1 where 1: "kfree t s = Ok () s1" "kmem_ok s1 (t # ps)" "kend s1 = kend s"
    "s1 = settle (s\<lparr>mem := mem s1, freelist := t\<rparr>)"
    using kfree_ok [OF assms(1,5,8)] by metis
  have k: "kpage (kend s1) a" "a \<notin> set (t # ps)" using assms(6,7,9) 1(3) by auto
  obtain s2 where 2: "kfree a s1 = Ok () s2" "kmem_ok s2 (a # t # ps)" "kend s2 = kend s1"
    "s2 = settle (s1\<lparr>mem := mem s2, freelist := a\<rparr>)"
    using kfree_ok [OF 1(2) k] by metis
  note p1 = settled_frame [OF 1(4)] and p2 = settled_frame [OF 2(4)]
  let ?s' = "upd_proc p clear_proc (upd_proc p (trapframe_update (\<lambda>_. 0)) s2)"
  have "freeproc p s = Ok () ?s'"
    using ne assms(2,3,4) 1(1) 2(1) p1 p2 by (simp add: freeproc_def Let_def)
  moreover have "kmem_ok ?s' (a # t # ps)" "kend ?s' = kend s" using 1(3) 2(2,3) by simp_all
  moreover have "ptab ?s' = (ptab s)(p := clear_proc ((ptab s p)\<lparr>trapframe := 0\<rparr>))"
    using p1 p2 by simp
  moreover have "mycpu ?s' = mycpu (settle s)" "locks ?s' = locks s" "nextpid ?s' = nextpid s"
    unfolding upd_proc_frame p1 p2 by (simp_all add: p1 p2 upd_proc_def)
  ultimately show thesis by (rule that)
qed

text \<open>\<^verbatim>\<open>allocproc\<close> on slot 0 with no memory left, when the slot has a stale \<^verbatim>\<open>alarm_tf\<close>.\<close>

lemma allocproc_stale:
  assumes "kmem_ok s []" "lock_free (LkProc 0) s" "lock_free LkPid s"
    and "state (ptab s 0) = UNUSED" "pagetable (ptab s 0) = 0" "alarm_tf (ptab s 0) = a" "kpage (kend s) a"
  shows "\<exists>s'. allocproc s = Ok None s' \<and> kmem_ok s' [a]"
proof -
  note D = kmem_okD [OF assms(1)]
  have ne: "a \<noteq> 0" by (rule kpage_nonzero [OF assms(1,7)])
  have fl: "freelist s = 0" using D(1) by simp
  have u: "[0..<NPROC] = 0 # [1..<NPROC]" by (simp add: NPROC_def upt_conv_Cons)
  let ?s1 = "upd_proc 0 (trapframe_update (\<lambda>_. 0)) (upd_proc 0 (state_update (\<lambda>_. USED))
    (upd_proc 0 (pid_update (\<lambda>_. nextpid s)) (s\<lparr>nextpid := nextpid s + 1\<rparr>)))"
  have k: "kmem_ok ?s1 []" using assms(1) by simp
  have kp: "kpage (kend ?s1) a" "a \<notin> set []" using assms(7) by simp_all
  obtain s' where "kfree a ?s1 = Ok () s'" "kmem_ok s' [a]" using kfree_ok [OF k kp] by metis
  then have "kmem_ok (settle (?s1\<lparr>mem := st64 (memset (mem ?s1) a 1 4096) a (freelist ?s1), freelist := a\<rparr>)) [a]"
    using kfree_eq [OF kp(1) kmem_okD(4,5) [OF k]] by simp
  then have km: "kmem_ok (upd_proc 0 clear_proc (upd_proc 0 (trapframe_update (\<lambda>_. 0))
      (?s1\<lparr>mem := st64 (memset (mem ?s1) a 1 4096) a (freelist ?s1), freelist := a\<rparr>))) [a]"
    by simp
  have "kfree a (enter_cs (LkProc 0) ?s1) = Ok () (enter_cs (LkProc 0)
      (?s1\<lparr>mem := st64 (memset (mem ?s1) a 1 4096) a (freelist ?s1), freelist := a\<rparr>))"
    using kfree_eq [of "enter_cs (LkProc 0) ?s1" a] kp(1) D(4,5) by simp
  then have fp: "freeproc 0 (enter_cs (LkProc 0) ?s1) = Ok () (enter_cs (LkProc 0)
      (upd_proc 0 clear_proc (upd_proc 0 (trapframe_update (\<lambda>_. 0))
      (?s1\<lparr>mem := st64 (memset (mem ?s1) a 1 4096) a (freelist ?s1), freelist := a\<rparr>))))"
    using ne assms(5,6) by (simp add: freeproc_def Let_def upd_proc_def)
  let ?s0 = "upd_proc 0 (state_update (\<lambda>_. USED)) (upd_proc 0 (pid_update (\<lambda>_. nextpid s))
    (s\<lparr>nextpid := nextpid s + 1\<rparr>))"
  have ka: "kalloc (enter_cs (LkProc 0) ?s0) = Ok 0 (enter_cs (LkProc 0) ?s0)"
    using kalloc_empty [of "enter_cs (LkProc 0) ?s0"] D(4,5) fl by simp
  have fu: "find_unused [0..<NPROC] s = Ok (Some 0) (enter_cs (LkProc 0) s)"
    using D(4) assms(2,4) by (simp add: u)
  have ap: "allocpid (enter_cs (LkProc 0) s) = Ok (nextpid s) (enter_cs (LkProc 0) (s\<lparr>nextpid := nextpid s + 1\<rparr>))"
    using allocpid_eq [of "enter_cs (LkProc 0) s"] D(4) assms(3) by simp
  let ?s2 = "upd_proc 0 clear_proc (upd_proc 0 (trapframe_update (\<lambda>_. 0))
      (?s1\<lparr>mem := st64 (memset (mem ?s1) a 1 4096) a (freelist ?s1), freelist := a\<rparr>))"
  have "allocproc s = Ok None (settle ?s2)"
    unfolding allocproc_def fu using D(4) assms(2) by (simp add: ap ka fp Let_def)
  then show ?thesis using km by simp
qed

end
