(* ===== verification/Proc_Properties.thy ===== *)
theory Proc_Properties
  imports Proc_Facts
begin

text \<open>
  The main statements about \<^verbatim>\<open>kernel/proc.c\<close>: who is woken, the locking protocol of a context switch
  seen from the process and from the scheduler, and what \<^verbatim>\<open>freeproc\<close> leaves behind.
\<close>

section \<open>A concrete state\<close>

definition demo_proc :: proc where
  "demo_proc = \<lparr>state = UNUSED, chan = None, killed = 0, xstate = 0, pid = 0, parent = None, kstack = 0,
     sz = 0, pagetable = 0, trapframe = 0, pcontext = \<lparr>ctx_ra = 0, ctx_sp = 0, ctx_s = []\<rparr>,
     ofile = replicate 16 None, cwd = None, pname = replicate 16 0, alarm_interval = 0,
     alarm_handler = 0, ticks_since_alarm = 0, alarm_tf = 0, in_alarm_handler = 0\<rparr>"

text \<open>Hart 0 with interrupts on, running \<open>cp\<close>, with process table \<open>T\<close> and no free memory.\<close>

definition demo_procs :: "nat option \<Rightarrow> (nat \<Rightarrow> proc) \<Rightarrow> procs" where
  "demo_procs cp T =
     \<lparr>hart = 0, cpus = (\<lambda>_. \<lparr>cproc = cp, noff = 0, intena = False, sie = True\<rparr>),
      locks = (\<lambda>_. \<lparr>locked = False, lname = [], lcpu = None\<rparr>), mem = (\<lambda>_. 0), freelist = 0,
      kend = 0x80001000, kernel_pagetable = 0, etext = 0, trampoline = 0, satp = (\<lambda>_. 0),
      ptab = T, initproc = None, nextpid = 1, ticks = 0, forkret_pc = 0\<rparr>"

lemma demo_procs_simps [simp]:
  "mach_ok (demo_procs cp T)" "lock_free lk (demo_procs cp T)" "ptab (demo_procs cp T) = T"
  "mycpu (demo_procs cp T) = \<lparr>cproc = cp, noff = 0, intena = False, sie = True\<rparr>"
  "freelist (demo_procs cp T) = 0" "kend (demo_procs cp T) = 0x80001000" "procs_free (demo_procs cp T)"
  by (simp_all add: demo_procs_def mach_ok_def cpu_ok_def mycpu_def cpuid_def lock_free_def procs_free_def)

lemma demo_kmem: "kmem_ok (demo_procs cp T) []"
  by (simp add: kmem_ok_def)

section \<open>Waking and killing\<close>

text \<open>
  Claim C21. \<^verbatim>\<open>wakeup(ch)\<close>, called with no process lock held, makes exactly those processes runnable
  that sleep on \<open>ch\<close>, other than the caller; every other field of every process, the memory, the
  locks and the interrupt state stay as they were.
\<close>

theorem wakeup_exact:
  assumes "mach_ok s" and "procs_free s"
  shows "\<exists>s'. wakeup ch s = Ok () s' \<and> s' = settle (s\<lparr>ptab := ptab s'\<rparr>) \<and>
     (\<forall>p. ptab s' p =
        (if p < NPROC \<and> cproc (mycpu s) \<noteq> Some p \<and> state (ptab s p) = SLEEPING \<and> chan (ptab s p) = ch
         then (ptab s p)\<lparr>state := RUNNABLE\<rparr> else ptab s p))"
  using wakeup_eq [OF assms, of ch] by (simp add: woken_def)

theorem wakeup_exact_witness:
  "\<exists>s'. wakeup (Some ChTicks) (demo_procs (Some 1)
      (\<lambda>p. demo_proc\<lparr>state := SLEEPING, chan := Some (if p = 3 then ChLog else ChTicks)\<rparr>)) = Ok () s' \<and>
     state (ptab s' 0) = RUNNABLE \<and> state (ptab s' 1) = SLEEPING \<and> state (ptab s' 3) = SLEEPING"
  using wakeup_exact [of "demo_procs (Some 1)
      (\<lambda>p. demo_proc\<lparr>state := SLEEPING, chan := Some (if p = 3 then ChLog else ChTicks)\<rparr>)" "Some ChTicks"]
  by (auto simp: NPROC_def)

text \<open>
  \<^verbatim>\<open>kill(n)\<close> returns 0 exactly when some table entry has pid \<open>n\<close>.  It then marks the first such
  process killed and, if it was sleeping, makes it runnable so that it can notice; all other
  processes are unchanged.  Otherwise it returns -1 and changes nothing.
\<close>

lemma kill_marks_first:
  assumes "mach_ok s" and "procs_free s"
  shows "(\<exists>p s'. p < NPROC \<and> pid (ptab s p) = n \<and> (\<forall>q<p. pid (ptab s q) \<noteq> n) \<and>
        kill n s = Ok 0 s' \<and> killed (ptab s' p) = 1 \<and> state (ptab s' p) \<noteq> SLEEPING \<and>
        (state (ptab s p) \<noteq> SLEEPING \<longrightarrow> state (ptab s' p) = state (ptab s p)) \<and>
        (\<forall>q. q \<noteq> p \<longrightarrow> ptab s' q = ptab s q)) \<or>
     (\<forall>p<NPROC. pid (ptab s p) \<noteq> n) \<and> kill n s = Ok (- 1) (settle s)"
proof (cases "find (\<lambda>p. pid (ptab s p) = n) [0..<NPROC]")
  case None
  then have "kill n s = Ok (- 1) (settle s)" using kill_eq [OF assms, of n] by simp
  moreover have "\<forall>p<NPROC. pid (ptab s p) \<noteq> n" using None by (simp add: find_None_iff)
  ultimately show ?thesis by blast
next
  case (Some p)
  then have "p < NPROC" "pid (ptab s p) = n" "\<forall>q<p. pid (ptab s q) \<noteq> n"
    by (auto simp: find_Some_iff)
  moreover have "kill n s = Ok 0 (settle (upd_proc p kill_mark s))"
    using kill_eq [OF assms, of n] Some by simp
  ultimately show ?thesis by (auto simp: kill_mark_def)
qed

section \<open>Context switches\<close>

text \<open>
  A process that calls \<^verbatim>\<open>yield\<close> while it holds no lock passes every check of \<^verbatim>\<open>sched\<close> and
  switches to the scheduler holding exactly its own lock, with interrupts off and its state
  \<^verbatim>\<open>RUNNABLE\<close>.  Whenever and on whatever hart the scheduler switches back to it in such a hand-over
  state, \<^verbatim>\<open>yield\<close> returns with no lock held and with interrupts enabled exactly if they were enabled
  when it was called, although the per-CPU record of that was overwritten in between.
\<close>

lemma yield_protocol:
  assumes "runs p s"
  shows "\<exists>t k. yield s = Swtch t k \<and> handoff p t \<and>
     ptab t = (ptab s)(p := (ptab s p)\<lparr>state := RUNNABLE\<rparr>) \<and>
     (\<forall>u. handoff p u \<longrightarrow> (\<exists>s'. k u = Ok () s' \<and> runs p s' \<and>
        sie (mycpu s') = sie (mycpu s) \<and> ptab s' = ptab u \<and> mem s' = mem u))"
proof -
  have "handoff p (enter_cs (LkProc p) (upd_proc p (state_update (\<lambda>_. RUNNABLE)) s))"
    by (rule handoff_enter_cs) (simp add: assms)
  then show ?thesis
    unfolding yield_eq [OF assms] by (auto simp: release_handoff runs_leave_last)
qed

text \<open>
  \<^verbatim>\<open>sleep(ch, lk)\<close> on one hart, called with only \<open>lk\<close> held: when it switches away \<open>lk\<close> is free, the process is \<^verbatim>\<open>SLEEPING\<close> on
  \<open>ch\<close>, and the process lock is still held.  Resumed in a hand-over state with \<open>lk\<close> free, it returns holding exactly \<open>lk\<close> again, with no
  channel and with the caller's interrupt state restored below the lock.  The theory \<open>Sleep_MP\<close> adds the other harts.
\<close>

lemma sleep_protocol:
  assumes "runs p s" and "lock_free lk s" and "lk \<noteq> LkProc p"
  shows "\<exists>t k. sleep ch lk (enter_cs lk s) = Swtch t k \<and> handoff p t \<and> lock_free lk t \<and>
     ptab t = (ptab s)(p := (ptab s p)\<lparr>chan := Some ch, state := SLEEPING\<rparr>) \<and>
     (\<forall>u. handoff p u \<longrightarrow> lock_free lk u \<longrightarrow>
        (\<exists>s'. k u = Ok () (enter_cs lk s') \<and> runs p s' \<and> lock_free lk s' \<and>
           sie (mycpu s') = sie (mycpu s) \<and> mem s' = mem u \<and>
           ptab s' = (ptab u)(p := (ptab u p)\<lparr>chan := None\<rparr>)))"
proof -
  let ?s = "upd_proc p (\<lambda>q. q\<lparr>chan := Some ch, state := SLEEPING\<rparr>) s"
  have 1: "handoff p (enter_cs (LkProc p) ?s)" by (rule handoff_enter_cs) (simp add: assms)
  have 2: "\<exists>s'. and_then (release (LkProc p) (upd_proc p (chan_update (\<lambda>_. None))
         (set_mycpu ((mycpu u)\<lparr>intena := sie (mycpu s)\<rparr>) u))) (\<lambda>_ s. acquire lk s) = Ok () (enter_cs lk s') \<and>
       runs p s' \<and> lock_free lk s' \<and> sie (mycpu s') = sie (mycpu s) \<and> mem s' = mem u \<and>
       ptab s' = (ptab u)(p := (ptab u p)\<lparr>chan := None\<rparr>)"
    if u: "handoff p u" "lock_free lk u" for u
  proof -
    let ?u = "upd_proc p (chan_update (\<lambda>_. None)) (set_mycpu ((mycpu u)\<lparr>intena := sie (mycpu s)\<rparr>) u)"
    let ?s' = "leave_last (LkProc p) ?u"
    have r: "release (LkProc p) ?u = Ok () ?s'"
      by (rule release_last) (use u(1) in \<open>simp_all add: handoff_def upd_proc_def\<close>)
    have f: "lock_free lk ?s'"
      using u(2) assms(3) by (simp add: lock_free_def upd_proc_def)
    have "runs p ?s'" using u(1) by (simp add: runs_def handoff_def)
    then show ?thesis using r f by (intro exI [of _ ?s']) simp
  qed
  show ?thesis
    unfolding sleep_eq [OF assms] using 1 2 assms(2,3) by simp blast
qed

text \<open>
  Claim C20. The scheduler's half: on a table entry that is not runnable the scheduler changes nothing.
  On a runnable one it marks the process running and switches to it in a hand-over state; when
  the process switches back, on any hart and in any hand-over state, the scheduler continues with
  the lock released and no current process.  A process that yields and a scheduler that picks it
  up again therefore complete a round on one hart, and the process resumes as \<^verbatim>\<open>RUNNING\<close>.
\<close>

theorem scheduler_round:
  assumes "idle s" and "lock_free (LkProc p) s"
  shows "(state (ptab s p) \<noteq> RUNNABLE \<longrightarrow> sched_slot p s = Ok () (settle s)) \<and>
    (state (ptab s p) = RUNNABLE \<longrightarrow> (\<exists>t k. sched_slot p s = Swtch t k \<and> handoff p t \<and>
       ptab t = (ptab s)(p := (ptab s p)\<lparr>state := RUNNING\<rparr>) \<and> mem t = mem s \<and>
       (\<forall>u. handoff p u \<longrightarrow> (\<exists>s'. k u = Ok () s' \<and> idle s' \<and> lock_free (LkProc p) s' \<and>
          ptab s' = ptab u \<and> mem s' = mem u)) \<and>
       (\<forall>r. runs p r \<longrightarrow> (\<exists>ty ky s1 t2 k2 s2. yield r = Swtch ty ky \<and> k ty = Ok () s1 \<and>
          sched_slot p s1 = Swtch t2 k2 \<and> ky t2 = Ok () s2 \<and> runs p s2 \<and>
          state (ptab s2 p) = RUNNING \<and> sie (mycpu s2) = sie (mycpu r)))))"
proof (intro conjI impI)
  show "sched_slot p s = Ok () (settle s)" if "state (ptab s p) \<noteq> RUNNABLE"
    by (rule sched_slot_skip [OF assms that])
next
  assume run: "state (ptab s p) = RUNNABLE"
  let ?k = "\<lambda>u. release (LkProc p) (set_cproc None u)"
  let ?t = "set_cproc (Some p) (enter_cs (LkProc p) (upd_proc p (state_update (\<lambda>_. RUNNING)) s))"
  have h: "handoff p ?t" by (rule handoff_set_cproc) (use assms(1) in \<open>simp add: idle_def\<close>)
  have k: "\<exists>s'. ?k u = Ok () s' \<and> idle s' \<and> lock_free (LkProc p) s' \<and> ptab s' = ptab u \<and> mem s' = mem u"
    if "handoff p u" for u
    using release_set_cproc [OF that]
    by (intro exI [of _ "leave_last (LkProc p) (set_cproc None u)"]) (simp add: idle_def set_cproc_def)
  have y: "\<exists>ty ky s1 t2 k2 s2. yield r = Swtch ty ky \<and> ?k ty = Ok () s1 \<and>
      sched_slot p s1 = Swtch t2 k2 \<and> ky t2 = Ok () s2 \<and> runs p s2 \<and>
      state (ptab s2 p) = RUNNING \<and> sie (mycpu s2) = sie (mycpu r)" if r: "runs p r" for r
  proof -
    let ?ty = "enter_cs (LkProc p) (upd_proc p (state_update (\<lambda>_. RUNNABLE)) r)"
    have hy: "handoff p ?ty" by (rule handoff_enter_cs) (simp add: r)
    obtain s1 where s1: "?k ?ty = Ok () s1" "idle s1" "lock_free (LkProc p) s1" "ptab s1 = ptab ?ty"
      using k [OF hy] by blast
    have st: "state (ptab s1 p) = RUNNABLE" using s1(4) by simp
    let ?t2 = "set_cproc (Some p) (enter_cs (LkProc p) (upd_proc p (state_update (\<lambda>_. RUNNING)) s1))"
    have h2: "handoff p ?t2" by (rule handoff_set_cproc) (use s1(2) in \<open>simp add: idle_def\<close>)
    let ?u = "set_mycpu ((mycpu ?t2)\<lparr>intena := sie (mycpu r)\<rparr>) ?t2"
    have e: "release (LkProc p) ?u = Ok () (leave_last (LkProc p) ?u)" by (rule release_handoff [OF h2])
    have "runs p (leave_last (LkProc p) ?u)" by (rule runs_leave_last [OF h2])
    moreover have "state (ptab (leave_last (LkProc p) ?u) p) = RUNNING" by (simp add: set_cproc_def)
    moreover have "sie (mycpu (leave_last (LkProc p) ?u)) = sie (mycpu r)" by simp
    ultimately show ?thesis
      using yield_eq [OF r] s1(1) sched_slot_run [OF s1(2,3) st] e by blast
  qed
  show "\<exists>t k. sched_slot p s = Swtch t k \<and> handoff p t \<and>
       ptab t = (ptab s)(p := (ptab s p)\<lparr>state := RUNNING\<rparr>) \<and> mem t = mem s \<and>
       (\<forall>u. handoff p u \<longrightarrow> (\<exists>s'. k u = Ok () s' \<and> idle s' \<and> lock_free (LkProc p) s' \<and>
          ptab s' = ptab u \<and> mem s' = mem u)) \<and>
       (\<forall>r. runs p r \<longrightarrow> (\<exists>ty ky s1 t2 k2 s2. yield r = Swtch ty ky \<and> k ty = Ok () s1 \<and>
          sched_slot p s1 = Swtch t2 k2 \<and> ky t2 = Ok () s2 \<and> runs p s2 \<and>
          state (ptab s2 p) = RUNNING \<and> sie (mycpu s2) = sie (mycpu r)))"
    unfolding sched_slot_run [OF assms run]
    using h k y by (simp add: set_cproc_def) blast
qed

theorem scheduler_round_witness:
  "\<exists>t k. sched_slot 5 (demo_procs None (\<lambda>_. demo_proc\<lparr>state := RUNNABLE\<rparr>)) = Swtch t k \<and> handoff 5 t \<and>
     state (ptab t 5) = RUNNING"
proof -
  have "idle (demo_procs None (\<lambda>_. demo_proc\<lparr>state := RUNNABLE\<rparr>))" by (simp add: idle_def)
  from scheduler_round [OF this, of 5] show ?thesis by fastforce
qed

section \<open>A stale alarm frame\<close>

text \<open>
  Claim C25. \<^verbatim>\<open>freeproc\<close> frees the page \<^verbatim>\<open>p->alarm_tf\<close> but, unlike \<^verbatim>\<open>p->trapframe\<close>, keeps the pointer.  When
  both freed pages have been handed out again and memory runs out, the next \<^verbatim>\<open>allocproc\<close> on that
  slot takes its error path, which frees the old \<^verbatim>\<open>alarm_tf\<close> once more: the page ends up on the free
  list while its new owner still uses it.
\<close>

theorem alarm_frame_freed_twice:
  assumes "kmem_ok s []" and "lock_free (LkProc 0) s" and "lock_free LkPid s"
    and "trapframe (ptab s 0) = t" and "alarm_tf (ptab s 0) = a" and "pagetable (ptab s 0) = 0"
    and "kpage (kend s) t" and "kpage (kend s) a" and "t \<noteq> a"
  shows "\<exists>s1 s2 s3 s4. freeproc 0 s = Ok () s1 \<and> kalloc s1 = Ok a s2 \<and> kalloc s2 = Ok t s3 \<and>
     alarm_tf (ptab s3 0) = a \<and> allocproc s3 = Ok None s4 \<and> kmem_ok s4 [a]"
proof -
  obtain s1 where 1: "freeproc 0 s = Ok () s1" "kmem_ok s1 [a, t]" "kend s1 = kend s"
    "ptab s1 = (ptab s)(0 := clear_proc ((ptab s 0)\<lparr>trapframe := 0\<rparr>))" "locks s1 = locks s"
    using freeproc_frames [OF assms(1,4,5,6,7,8,9)] by auto
  obtain s2 where 2: "kalloc s1 = Ok a s2" "kmem_ok s2 [t]" "kend s2 = kend s1"
    "s2 = settle (s1\<lparr>freelist := freelist s2, mem := mem s2\<rparr>)"
    using kalloc_ok_Cons [OF 1(2)] by metis
  obtain s3 where 3: "kalloc s2 = Ok t s3" "kmem_ok s3 []" "kend s3 = kend s2"
    "s3 = settle (s2\<lparr>freelist := freelist s3, mem := mem s3\<rparr>)"
    using kalloc_ok_Cons [OF 2(2)] by metis
  have f: "ptab s3 = ptab s1" "locks s3 = locks s"
    using arg_cong [OF 2(4), of ptab] arg_cong [OF 3(4), of ptab]
      arg_cong [OF 2(4), of locks] arg_cong [OF 3(4), of locks] 1(5) by simp_all
  have p: "state (ptab s3 0) = UNUSED" "pagetable (ptab s3 0) = 0" "alarm_tf (ptab s3 0) = a"
    using f(1) 1(4) assms(5) by (simp_all add: clear_proc_def)
  have l: "lock_free (LkProc 0) s3" "lock_free LkPid s3" using f(2) assms(2,3) by (simp_all add: lock_free_def)
  have k: "kpage (kend s3) a" using assms(8) 1(3) 2(3) 3(3) by simp
  from allocproc_stale [OF 3(2) l p k] 1(1) 2(1) 3(1) p(3) show ?thesis by blast
qed

theorem alarm_frame_freed_twice_witness:
  "\<exists>s1 s2 s3 s4. freeproc 0 (demo_procs None (\<lambda>_. demo_proc\<lparr>trapframe := 0x80002000, alarm_tf := 0x80003000\<rparr>)) = Ok () s1 \<and>
     kalloc s1 = Ok 0x80003000 s2 \<and> kalloc s2 = Ok 0x80002000 s3 \<and>
     allocproc s3 = Ok None s4 \<and> kmem_ok s4 [0x80003000]"
proof -
  let ?s = "demo_procs None (\<lambda>_. demo_proc\<lparr>trapframe := 0x80002000, alarm_tf := 0x80003000\<rparr>)"
  have "kpage (kend ?s) 0x80002000" "kpage (kend ?s) 0x80003000"
    by (simp_all add: kpage_def aligned_def PHYSTOP_def KERNBASE_def)
  moreover have "pagetable (ptab ?s 0) = 0" by (simp add: demo_proc_def)
  ultimately show ?thesis
    using alarm_frame_freed_twice [of ?s "0x80002000" "0x80003000"] demo_kmem by auto
qed

end
