(* ===== verification/Kernel_Frames.thy ===== *)
theory Kernel_Frames
  imports Trap Proc_Facts
begin

text \<open>
  The fields of the state above the process table do not take part in locking: entering and leaving
  a critical section commutes with reading and writing them.
\<close>

lemma io_settle [simp]:
  "device (settle s) = device s" "mmio (settle s) = mmio s" "panicked (settle s) = panicked s"
  "pr_locking (settle s) = pr_locking s" "r_fp (settle s) = r_fp s"
  "uart_tx_buf (settle s) = uart_tx_buf s" "uart_tx_w (settle s) = uart_tx_w s"
  "uart_tx_r (settle s) = uart_tx_r s" "cons_buf (settle s) = cons_buf s"
  "cons_r (settle s) = cons_r s" "cons_w (settle s) = cons_w s" "cons_e (settle s) = cons_e s"
  "devsw (settle s) = devsw s"
  "(settle s)\<lparr>device := x0\<rparr> = settle (s\<lparr>device := x0\<rparr>)"
  "(settle s)\<lparr>mmio := x1\<rparr> = settle (s\<lparr>mmio := x1\<rparr>)"
  "(settle s)\<lparr>panicked := x2\<rparr> = settle (s\<lparr>panicked := x2\<rparr>)"
  "(settle s)\<lparr>pr_locking := x3\<rparr> = settle (s\<lparr>pr_locking := x3\<rparr>)"
  "(settle s)\<lparr>r_fp := x4\<rparr> = settle (s\<lparr>r_fp := x4\<rparr>)"
  "(settle s)\<lparr>uart_tx_buf := x5\<rparr> = settle (s\<lparr>uart_tx_buf := x5\<rparr>)"
  "(settle s)\<lparr>uart_tx_w := x6\<rparr> = settle (s\<lparr>uart_tx_w := x6\<rparr>)"
  "(settle s)\<lparr>uart_tx_r := x7\<rparr> = settle (s\<lparr>uart_tx_r := x7\<rparr>)"
  "(settle s)\<lparr>cons_buf := x8\<rparr> = settle (s\<lparr>cons_buf := x8\<rparr>)"
  "(settle s)\<lparr>cons_r := x9\<rparr> = settle (s\<lparr>cons_r := x9\<rparr>)"
  "(settle s)\<lparr>cons_w := x10\<rparr> = settle (s\<lparr>cons_w := x10\<rparr>)"
  "(settle s)\<lparr>cons_e := x11\<rparr> = settle (s\<lparr>cons_e := x11\<rparr>)"
  "(settle s)\<lparr>devsw := x12\<rparr> = settle (s\<lparr>devsw := x12\<rparr>)"
  by (simp_all add: settle_def set_mycpu_def mycpu_def cpuid_def)

lemma io_enter_cs [simp]:
  "device (enter_cs lk s) = device s" "mmio (enter_cs lk s) = mmio s"
  "panicked (enter_cs lk s) = panicked s" "pr_locking (enter_cs lk s) = pr_locking s"
  "r_fp (enter_cs lk s) = r_fp s" "uart_tx_buf (enter_cs lk s) = uart_tx_buf s"
  "uart_tx_w (enter_cs lk s) = uart_tx_w s" "uart_tx_r (enter_cs lk s) = uart_tx_r s"
  "cons_buf (enter_cs lk s) = cons_buf s" "cons_r (enter_cs lk s) = cons_r s"
  "cons_w (enter_cs lk s) = cons_w s" "cons_e (enter_cs lk s) = cons_e s"
  "devsw (enter_cs lk s) = devsw s"
  "(enter_cs lk s)\<lparr>device := x0\<rparr> = enter_cs lk (s\<lparr>device := x0\<rparr>)"
  "(enter_cs lk s)\<lparr>mmio := x1\<rparr> = enter_cs lk (s\<lparr>mmio := x1\<rparr>)"
  "(enter_cs lk s)\<lparr>panicked := x2\<rparr> = enter_cs lk (s\<lparr>panicked := x2\<rparr>)"
  "(enter_cs lk s)\<lparr>pr_locking := x3\<rparr> = enter_cs lk (s\<lparr>pr_locking := x3\<rparr>)"
  "(enter_cs lk s)\<lparr>r_fp := x4\<rparr> = enter_cs lk (s\<lparr>r_fp := x4\<rparr>)"
  "(enter_cs lk s)\<lparr>uart_tx_buf := x5\<rparr> = enter_cs lk (s\<lparr>uart_tx_buf := x5\<rparr>)"
  "(enter_cs lk s)\<lparr>uart_tx_w := x6\<rparr> = enter_cs lk (s\<lparr>uart_tx_w := x6\<rparr>)"
  "(enter_cs lk s)\<lparr>uart_tx_r := x7\<rparr> = enter_cs lk (s\<lparr>uart_tx_r := x7\<rparr>)"
  "(enter_cs lk s)\<lparr>cons_buf := x8\<rparr> = enter_cs lk (s\<lparr>cons_buf := x8\<rparr>)"
  "(enter_cs lk s)\<lparr>cons_r := x9\<rparr> = enter_cs lk (s\<lparr>cons_r := x9\<rparr>)"
  "(enter_cs lk s)\<lparr>cons_w := x10\<rparr> = enter_cs lk (s\<lparr>cons_w := x10\<rparr>)"
  "(enter_cs lk s)\<lparr>cons_e := x11\<rparr> = enter_cs lk (s\<lparr>cons_e := x11\<rparr>)"
  "(enter_cs lk s)\<lparr>devsw := x12\<rparr> = enter_cs lk (s\<lparr>devsw := x12\<rparr>)"
  by (simp_all add: enter_cs_def push_off_def set_mycpu_def mycpu_def cpuid_def)

lemma io_frame [simp]:
  "mach_ok (s\<lparr>device := x0\<rparr>) = mach_ok s"
  "mach_ok (s\<lparr>mmio := x1\<rparr>) = mach_ok s"
  "mach_ok (s\<lparr>panicked := x2\<rparr>) = mach_ok s"
  "mach_ok (s\<lparr>pr_locking := x3\<rparr>) = mach_ok s"
  "mach_ok (s\<lparr>r_fp := x4\<rparr>) = mach_ok s"
  "mach_ok (s\<lparr>uart_tx_buf := x5\<rparr>) = mach_ok s"
  "mach_ok (s\<lparr>uart_tx_w := x6\<rparr>) = mach_ok s"
  "mach_ok (s\<lparr>uart_tx_r := x7\<rparr>) = mach_ok s"
  "mach_ok (s\<lparr>cons_buf := x8\<rparr>) = mach_ok s"
  "mach_ok (s\<lparr>cons_r := x9\<rparr>) = mach_ok s"
  "mach_ok (s\<lparr>cons_w := x10\<rparr>) = mach_ok s"
  "mach_ok (s\<lparr>cons_e := x11\<rparr>) = mach_ok s"
  "mach_ok (s\<lparr>devsw := x12\<rparr>) = mach_ok s"
  "lock_free lk (s\<lparr>device := x0\<rparr>) = lock_free lk s"
  "lock_free lk (s\<lparr>mmio := x1\<rparr>) = lock_free lk s"
  "lock_free lk (s\<lparr>panicked := x2\<rparr>) = lock_free lk s"
  "lock_free lk (s\<lparr>pr_locking := x3\<rparr>) = lock_free lk s"
  "lock_free lk (s\<lparr>r_fp := x4\<rparr>) = lock_free lk s"
  "lock_free lk (s\<lparr>uart_tx_buf := x5\<rparr>) = lock_free lk s"
  "lock_free lk (s\<lparr>uart_tx_w := x6\<rparr>) = lock_free lk s"
  "lock_free lk (s\<lparr>uart_tx_r := x7\<rparr>) = lock_free lk s"
  "lock_free lk (s\<lparr>cons_buf := x8\<rparr>) = lock_free lk s"
  "lock_free lk (s\<lparr>cons_r := x9\<rparr>) = lock_free lk s"
  "lock_free lk (s\<lparr>cons_w := x10\<rparr>) = lock_free lk s"
  "lock_free lk (s\<lparr>cons_e := x11\<rparr>) = lock_free lk s"
  "lock_free lk (s\<lparr>devsw := x12\<rparr>) = lock_free lk s"
  "mycpu (s\<lparr>device := x0\<rparr>) = mycpu s" "mycpu (s\<lparr>mmio := x1\<rparr>) = mycpu s"
  "mycpu (s\<lparr>panicked := x2\<rparr>) = mycpu s"
  "mycpu (s\<lparr>pr_locking := x3\<rparr>) = mycpu s"
  "mycpu (s\<lparr>r_fp := x4\<rparr>) = mycpu s"
  "mycpu (s\<lparr>uart_tx_buf := x5\<rparr>) = mycpu s"
  "mycpu (s\<lparr>uart_tx_w := x6\<rparr>) = mycpu s"
  "mycpu (s\<lparr>uart_tx_r := x7\<rparr>) = mycpu s"
  "mycpu (s\<lparr>cons_buf := x8\<rparr>) = mycpu s"
  "mycpu (s\<lparr>cons_r := x9\<rparr>) = mycpu s"
  "mycpu (s\<lparr>cons_w := x10\<rparr>) = mycpu s"
  "mycpu (s\<lparr>cons_e := x11\<rparr>) = mycpu s"
  "mycpu (s\<lparr>devsw := x12\<rparr>) = mycpu s"
  by (simp_all add: mach_ok_def lock_free_def mycpu_def cpuid_def)

lemma io_cpuid [simp]:
  "cpuid (s\<lparr>device := v1\<rparr>) = cpuid s" "cpuid (s\<lparr>mmio := v2\<rparr>) = cpuid s"
  "cpuid (s\<lparr>panicked := v3\<rparr>) = cpuid s"
  "cpuid (s\<lparr>pr_locking := v4\<rparr>) = cpuid s"
  "cpuid (s\<lparr>r_fp := v5\<rparr>) = cpuid s"
  "cpuid (s\<lparr>uart_tx_buf := v6\<rparr>) = cpuid s"
  "cpuid (s\<lparr>uart_tx_w := v7\<rparr>) = cpuid s"
  "cpuid (s\<lparr>uart_tx_r := v8\<rparr>) = cpuid s"
  "cpuid (s\<lparr>cons_buf := v9\<rparr>) = cpuid s"
  "cpuid (s\<lparr>cons_r := v10\<rparr>) = cpuid s" "cpuid (s\<lparr>cons_w := v11\<rparr>) = cpuid s"
  "cpuid (s\<lparr>cons_e := v12\<rparr>) = cpuid s" "cpuid (s\<lparr>devsw := v13\<rparr>) = cpuid s"
  by (simp_all add: cpuid_def)

lemma slocks_settle [simp]:
  "sleeplocks (settle s) = sleeplocks s"
  "(settle s)\<lparr>sleeplocks := x0\<rparr> = settle (s\<lparr>sleeplocks := x0\<rparr>)"
  by (simp_all add: settle_def set_mycpu_def mycpu_def cpuid_def)

lemma slocks_enter_cs [simp]:
  "sleeplocks (enter_cs lk s) = sleeplocks s"
  "(enter_cs lk s)\<lparr>sleeplocks := x0\<rparr> = enter_cs lk (s\<lparr>sleeplocks := x0\<rparr>)"
  by (simp_all add: enter_cs_def push_off_def set_mycpu_def mycpu_def cpuid_def)

lemma slocks_frame [simp]:
  "mach_ok (s\<lparr>sleeplocks := x0\<rparr>) = mach_ok s"
  "lock_free lk (s\<lparr>sleeplocks := x0\<rparr>) = lock_free lk s"
  "mycpu (s\<lparr>sleeplocks := x0\<rparr>) = mycpu s"
  by (simp_all add: mach_ok_def lock_free_def mycpu_def cpuid_def)

lemma slocks_cpuid [simp]:
  "cpuid (s\<lparr>sleeplocks := v14\<rparr>) = cpuid s"
  by (simp_all add: cpuid_def)

lemma virtio_settle [simp]:
  "bufs (settle s) = bufs s" "disk (settle s) = disk s" "disk_pages (settle s) = disk_pages s"
  "vdesc (settle s) = vdesc s" "avail_idx (settle s) = avail_idx s"
  "avail_ring (settle s) = avail_ring s" "used_ring_idx (settle s) = used_ring_idx s"
  "used_ring (settle s) = used_ring s" "vfree (settle s) = vfree s"
  "used_idx (settle s) = used_idx s" "info_b (settle s) = info_b s"
  "info_status (settle s) = info_status s" "ops (settle s) = ops s"
  "(settle s)\<lparr>bufs := x0\<rparr> = settle (s\<lparr>bufs := x0\<rparr>)"
  "(settle s)\<lparr>disk := x1\<rparr> = settle (s\<lparr>disk := x1\<rparr>)"
  "(settle s)\<lparr>disk_pages := x2\<rparr> = settle (s\<lparr>disk_pages := x2\<rparr>)"
  "(settle s)\<lparr>vdesc := x3\<rparr> = settle (s\<lparr>vdesc := x3\<rparr>)"
  "(settle s)\<lparr>avail_idx := x4\<rparr> = settle (s\<lparr>avail_idx := x4\<rparr>)"
  "(settle s)\<lparr>avail_ring := x5\<rparr> = settle (s\<lparr>avail_ring := x5\<rparr>)"
  "(settle s)\<lparr>used_ring_idx := x6\<rparr> = settle (s\<lparr>used_ring_idx := x6\<rparr>)"
  "(settle s)\<lparr>used_ring := x7\<rparr> = settle (s\<lparr>used_ring := x7\<rparr>)"
  "(settle s)\<lparr>vfree := x8\<rparr> = settle (s\<lparr>vfree := x8\<rparr>)"
  "(settle s)\<lparr>used_idx := x9\<rparr> = settle (s\<lparr>used_idx := x9\<rparr>)"
  "(settle s)\<lparr>info_b := x10\<rparr> = settle (s\<lparr>info_b := x10\<rparr>)"
  "(settle s)\<lparr>info_status := x11\<rparr> = settle (s\<lparr>info_status := x11\<rparr>)"
  "(settle s)\<lparr>ops := x12\<rparr> = settle (s\<lparr>ops := x12\<rparr>)"
  by (simp_all add: settle_def set_mycpu_def mycpu_def cpuid_def)

lemma virtio_enter_cs [simp]:
  "bufs (enter_cs lk s) = bufs s" "disk (enter_cs lk s) = disk s"
  "disk_pages (enter_cs lk s) = disk_pages s" "vdesc (enter_cs lk s) = vdesc s"
  "avail_idx (enter_cs lk s) = avail_idx s" "avail_ring (enter_cs lk s) = avail_ring s"
  "used_ring_idx (enter_cs lk s) = used_ring_idx s" "used_ring (enter_cs lk s) = used_ring s"
  "vfree (enter_cs lk s) = vfree s" "used_idx (enter_cs lk s) = used_idx s"
  "info_b (enter_cs lk s) = info_b s" "info_status (enter_cs lk s) = info_status s"
  "ops (enter_cs lk s) = ops s"
  "(enter_cs lk s)\<lparr>bufs := x0\<rparr> = enter_cs lk (s\<lparr>bufs := x0\<rparr>)"
  "(enter_cs lk s)\<lparr>disk := x1\<rparr> = enter_cs lk (s\<lparr>disk := x1\<rparr>)"
  "(enter_cs lk s)\<lparr>disk_pages := x2\<rparr> = enter_cs lk (s\<lparr>disk_pages := x2\<rparr>)"
  "(enter_cs lk s)\<lparr>vdesc := x3\<rparr> = enter_cs lk (s\<lparr>vdesc := x3\<rparr>)"
  "(enter_cs lk s)\<lparr>avail_idx := x4\<rparr> = enter_cs lk (s\<lparr>avail_idx := x4\<rparr>)"
  "(enter_cs lk s)\<lparr>avail_ring := x5\<rparr> = enter_cs lk (s\<lparr>avail_ring := x5\<rparr>)"
  "(enter_cs lk s)\<lparr>used_ring_idx := x6\<rparr> = enter_cs lk (s\<lparr>used_ring_idx := x6\<rparr>)"
  "(enter_cs lk s)\<lparr>used_ring := x7\<rparr> = enter_cs lk (s\<lparr>used_ring := x7\<rparr>)"
  "(enter_cs lk s)\<lparr>vfree := x8\<rparr> = enter_cs lk (s\<lparr>vfree := x8\<rparr>)"
  "(enter_cs lk s)\<lparr>used_idx := x9\<rparr> = enter_cs lk (s\<lparr>used_idx := x9\<rparr>)"
  "(enter_cs lk s)\<lparr>info_b := x10\<rparr> = enter_cs lk (s\<lparr>info_b := x10\<rparr>)"
  "(enter_cs lk s)\<lparr>info_status := x11\<rparr> = enter_cs lk (s\<lparr>info_status := x11\<rparr>)"
  "(enter_cs lk s)\<lparr>ops := x12\<rparr> = enter_cs lk (s\<lparr>ops := x12\<rparr>)"
  by (simp_all add: enter_cs_def push_off_def set_mycpu_def mycpu_def cpuid_def)

lemma virtio_frame [simp]:
  "mach_ok (s\<lparr>bufs := x0\<rparr>) = mach_ok s"
  "mach_ok (s\<lparr>disk := x1\<rparr>) = mach_ok s"
  "mach_ok (s\<lparr>disk_pages := x2\<rparr>) = mach_ok s"
  "mach_ok (s\<lparr>vdesc := x3\<rparr>) = mach_ok s"
  "mach_ok (s\<lparr>avail_idx := x4\<rparr>) = mach_ok s"
  "mach_ok (s\<lparr>avail_ring := x5\<rparr>) = mach_ok s"
  "mach_ok (s\<lparr>used_ring_idx := x6\<rparr>) = mach_ok s"
  "mach_ok (s\<lparr>used_ring := x7\<rparr>) = mach_ok s"
  "mach_ok (s\<lparr>vfree := x8\<rparr>) = mach_ok s"
  "mach_ok (s\<lparr>used_idx := x9\<rparr>) = mach_ok s"
  "mach_ok (s\<lparr>info_b := x10\<rparr>) = mach_ok s"
  "mach_ok (s\<lparr>info_status := x11\<rparr>) = mach_ok s"
  "mach_ok (s\<lparr>ops := x12\<rparr>) = mach_ok s"
  "lock_free lk (s\<lparr>bufs := x0\<rparr>) = lock_free lk s"
  "lock_free lk (s\<lparr>disk := x1\<rparr>) = lock_free lk s"
  "lock_free lk (s\<lparr>disk_pages := x2\<rparr>) = lock_free lk s"
  "lock_free lk (s\<lparr>vdesc := x3\<rparr>) = lock_free lk s"
  "lock_free lk (s\<lparr>avail_idx := x4\<rparr>) = lock_free lk s"
  "lock_free lk (s\<lparr>avail_ring := x5\<rparr>) = lock_free lk s"
  "lock_free lk (s\<lparr>used_ring_idx := x6\<rparr>) = lock_free lk s"
  "lock_free lk (s\<lparr>used_ring := x7\<rparr>) = lock_free lk s"
  "lock_free lk (s\<lparr>vfree := x8\<rparr>) = lock_free lk s"
  "lock_free lk (s\<lparr>used_idx := x9\<rparr>) = lock_free lk s"
  "lock_free lk (s\<lparr>info_b := x10\<rparr>) = lock_free lk s"
  "lock_free lk (s\<lparr>info_status := x11\<rparr>) = lock_free lk s"
  "lock_free lk (s\<lparr>ops := x12\<rparr>) = lock_free lk s"
  "mycpu (s\<lparr>bufs := x0\<rparr>) = mycpu s" "mycpu (s\<lparr>disk := x1\<rparr>) = mycpu s"
  "mycpu (s\<lparr>disk_pages := x2\<rparr>) = mycpu s"
  "mycpu (s\<lparr>vdesc := x3\<rparr>) = mycpu s"
  "mycpu (s\<lparr>avail_idx := x4\<rparr>) = mycpu s"
  "mycpu (s\<lparr>avail_ring := x5\<rparr>) = mycpu s"
  "mycpu (s\<lparr>used_ring_idx := x6\<rparr>) = mycpu s"
  "mycpu (s\<lparr>used_ring := x7\<rparr>) = mycpu s"
  "mycpu (s\<lparr>vfree := x8\<rparr>) = mycpu s"
  "mycpu (s\<lparr>used_idx := x9\<rparr>) = mycpu s"
  "mycpu (s\<lparr>info_b := x10\<rparr>) = mycpu s"
  "mycpu (s\<lparr>info_status := x11\<rparr>) = mycpu s"
  "mycpu (s\<lparr>ops := x12\<rparr>) = mycpu s"
  by (simp_all add: mach_ok_def lock_free_def mycpu_def cpuid_def)

lemma virtio_cpuid [simp]:
  "cpuid (s\<lparr>bufs := v15\<rparr>) = cpuid s" "cpuid (s\<lparr>disk := v16\<rparr>) = cpuid s"
  "cpuid (s\<lparr>disk_pages := v17\<rparr>) = cpuid s"
  "cpuid (s\<lparr>vdesc := v18\<rparr>) = cpuid s"
  "cpuid (s\<lparr>avail_idx := v19\<rparr>) = cpuid s"
  "cpuid (s\<lparr>avail_ring := v20\<rparr>) = cpuid s"
  "cpuid (s\<lparr>used_ring_idx := v21\<rparr>) = cpuid s"
  "cpuid (s\<lparr>used_ring := v22\<rparr>) = cpuid s"
  "cpuid (s\<lparr>vfree := v23\<rparr>) = cpuid s"
  "cpuid (s\<lparr>used_idx := v24\<rparr>) = cpuid s"
  "cpuid (s\<lparr>info_b := v25\<rparr>) = cpuid s"
  "cpuid (s\<lparr>info_status := v26\<rparr>) = cpuid s"
  "cpuid (s\<lparr>ops := v27\<rparr>) = cpuid s"
  by (simp_all add: cpuid_def)

lemma log_settle [simp]:
  "log_start (settle s) = log_start s" "log_size (settle s) = log_size s"
  "log_outstanding (settle s) = log_outstanding s" "log_committing (settle s) = log_committing s"
  "log_dev (settle s) = log_dev s" "lh_n (settle s) = lh_n s" "lh_block (settle s) = lh_block s"
  "(settle s)\<lparr>log_start := x0\<rparr> = settle (s\<lparr>log_start := x0\<rparr>)"
  "(settle s)\<lparr>log_size := x1\<rparr> = settle (s\<lparr>log_size := x1\<rparr>)"
  "(settle s)\<lparr>log_outstanding := x2\<rparr> = settle (s\<lparr>log_outstanding := x2\<rparr>)"
  "(settle s)\<lparr>log_committing := x3\<rparr> = settle (s\<lparr>log_committing := x3\<rparr>)"
  "(settle s)\<lparr>log_dev := x4\<rparr> = settle (s\<lparr>log_dev := x4\<rparr>)"
  "(settle s)\<lparr>lh_n := x5\<rparr> = settle (s\<lparr>lh_n := x5\<rparr>)"
  "(settle s)\<lparr>lh_block := x6\<rparr> = settle (s\<lparr>lh_block := x6\<rparr>)"
  by (simp_all add: settle_def set_mycpu_def mycpu_def cpuid_def)

lemma log_enter_cs [simp]:
  "log_start (enter_cs lk s) = log_start s" "log_size (enter_cs lk s) = log_size s"
  "log_outstanding (enter_cs lk s) = log_outstanding s"
  "log_committing (enter_cs lk s) = log_committing s" "log_dev (enter_cs lk s) = log_dev s"
  "lh_n (enter_cs lk s) = lh_n s" "lh_block (enter_cs lk s) = lh_block s"
  "(enter_cs lk s)\<lparr>log_start := x0\<rparr> = enter_cs lk (s\<lparr>log_start := x0\<rparr>)"
  "(enter_cs lk s)\<lparr>log_size := x1\<rparr> = enter_cs lk (s\<lparr>log_size := x1\<rparr>)"
  "(enter_cs lk s)\<lparr>log_outstanding := x2\<rparr> = enter_cs lk (s\<lparr>log_outstanding := x2\<rparr>)"
  "(enter_cs lk s)\<lparr>log_committing := x3\<rparr> = enter_cs lk (s\<lparr>log_committing := x3\<rparr>)"
  "(enter_cs lk s)\<lparr>log_dev := x4\<rparr> = enter_cs lk (s\<lparr>log_dev := x4\<rparr>)"
  "(enter_cs lk s)\<lparr>lh_n := x5\<rparr> = enter_cs lk (s\<lparr>lh_n := x5\<rparr>)"
  "(enter_cs lk s)\<lparr>lh_block := x6\<rparr> = enter_cs lk (s\<lparr>lh_block := x6\<rparr>)"
  by (simp_all add: enter_cs_def push_off_def set_mycpu_def mycpu_def cpuid_def)

lemma log_frame [simp]:
  "mach_ok (s\<lparr>log_start := x0\<rparr>) = mach_ok s"
  "mach_ok (s\<lparr>log_size := x1\<rparr>) = mach_ok s"
  "mach_ok (s\<lparr>log_outstanding := x2\<rparr>) = mach_ok s"
  "mach_ok (s\<lparr>log_committing := x3\<rparr>) = mach_ok s"
  "mach_ok (s\<lparr>log_dev := x4\<rparr>) = mach_ok s"
  "mach_ok (s\<lparr>lh_n := x5\<rparr>) = mach_ok s"
  "mach_ok (s\<lparr>lh_block := x6\<rparr>) = mach_ok s"
  "lock_free lk (s\<lparr>log_start := x0\<rparr>) = lock_free lk s"
  "lock_free lk (s\<lparr>log_size := x1\<rparr>) = lock_free lk s"
  "lock_free lk (s\<lparr>log_outstanding := x2\<rparr>) = lock_free lk s"
  "lock_free lk (s\<lparr>log_committing := x3\<rparr>) = lock_free lk s"
  "lock_free lk (s\<lparr>log_dev := x4\<rparr>) = lock_free lk s"
  "lock_free lk (s\<lparr>lh_n := x5\<rparr>) = lock_free lk s"
  "lock_free lk (s\<lparr>lh_block := x6\<rparr>) = lock_free lk s"
  "mycpu (s\<lparr>log_start := x0\<rparr>) = mycpu s"
  "mycpu (s\<lparr>log_size := x1\<rparr>) = mycpu s"
  "mycpu (s\<lparr>log_outstanding := x2\<rparr>) = mycpu s"
  "mycpu (s\<lparr>log_committing := x3\<rparr>) = mycpu s"
  "mycpu (s\<lparr>log_dev := x4\<rparr>) = mycpu s"
  "mycpu (s\<lparr>lh_n := x5\<rparr>) = mycpu s"
  "mycpu (s\<lparr>lh_block := x6\<rparr>) = mycpu s"
  by (simp_all add: mach_ok_def lock_free_def mycpu_def cpuid_def)

lemma log_cpuid [simp]:
  "cpuid (s\<lparr>log_start := v28\<rparr>) = cpuid s"
  "cpuid (s\<lparr>log_size := v29\<rparr>) = cpuid s"
  "cpuid (s\<lparr>log_outstanding := v30\<rparr>) = cpuid s"
  "cpuid (s\<lparr>log_committing := v31\<rparr>) = cpuid s"
  "cpuid (s\<lparr>log_dev := v32\<rparr>) = cpuid s" "cpuid (s\<lparr>lh_n := v33\<rparr>) = cpuid s"
  "cpuid (s\<lparr>lh_block := v34\<rparr>) = cpuid s"
  by (simp_all add: cpuid_def)

lemma fs_settle [simp]:
  "sb (settle s) = sb s" "inodes (settle s) = inodes s" "stat_pad (settle s) = stat_pad s"
  "(settle s)\<lparr>sb := x0\<rparr> = settle (s\<lparr>sb := x0\<rparr>)"
  "(settle s)\<lparr>inodes := x1\<rparr> = settle (s\<lparr>inodes := x1\<rparr>)"
  "(settle s)\<lparr>stat_pad := x2\<rparr> = settle (s\<lparr>stat_pad := x2\<rparr>)"
  by (simp_all add: settle_def set_mycpu_def mycpu_def cpuid_def)

lemma fs_enter_cs [simp]:
  "sb (enter_cs lk s) = sb s" "inodes (enter_cs lk s) = inodes s"
  "stat_pad (enter_cs lk s) = stat_pad s"
  "(enter_cs lk s)\<lparr>sb := x0\<rparr> = enter_cs lk (s\<lparr>sb := x0\<rparr>)"
  "(enter_cs lk s)\<lparr>inodes := x1\<rparr> = enter_cs lk (s\<lparr>inodes := x1\<rparr>)"
  "(enter_cs lk s)\<lparr>stat_pad := x2\<rparr> = enter_cs lk (s\<lparr>stat_pad := x2\<rparr>)"
  by (simp_all add: enter_cs_def push_off_def set_mycpu_def mycpu_def cpuid_def)

lemma fs_frame [simp]:
  "mach_ok (s\<lparr>sb := x0\<rparr>) = mach_ok s"
  "mach_ok (s\<lparr>inodes := x1\<rparr>) = mach_ok s"
  "mach_ok (s\<lparr>stat_pad := x2\<rparr>) = mach_ok s"
  "lock_free lk (s\<lparr>sb := x0\<rparr>) = lock_free lk s"
  "lock_free lk (s\<lparr>inodes := x1\<rparr>) = lock_free lk s"
  "lock_free lk (s\<lparr>stat_pad := x2\<rparr>) = lock_free lk s"
  "mycpu (s\<lparr>sb := x0\<rparr>) = mycpu s" "mycpu (s\<lparr>inodes := x1\<rparr>) = mycpu s"
  "mycpu (s\<lparr>stat_pad := x2\<rparr>) = mycpu s"
  by (simp_all add: mach_ok_def lock_free_def mycpu_def cpuid_def)

lemma fs_cpuid [simp]:
  "cpuid (s\<lparr>sb := v35\<rparr>) = cpuid s" "cpuid (s\<lparr>inodes := v36\<rparr>) = cpuid s"
  "cpuid (s\<lparr>stat_pad := v37\<rparr>) = cpuid s"
  by (simp_all add: cpuid_def)

lemma files_settle [simp]:
  "ftable (settle s) = ftable s"
  "(settle s)\<lparr>ftable := x0\<rparr> = settle (s\<lparr>ftable := x0\<rparr>)"
  by (simp_all add: settle_def set_mycpu_def mycpu_def cpuid_def)

lemma files_enter_cs [simp]:
  "ftable (enter_cs lk s) = ftable s"
  "(enter_cs lk s)\<lparr>ftable := x0\<rparr> = enter_cs lk (s\<lparr>ftable := x0\<rparr>)"
  by (simp_all add: enter_cs_def push_off_def set_mycpu_def mycpu_def cpuid_def)

lemma files_frame [simp]:
  "mach_ok (s\<lparr>ftable := x0\<rparr>) = mach_ok s"
  "lock_free lk (s\<lparr>ftable := x0\<rparr>) = lock_free lk s"
  "mycpu (s\<lparr>ftable := x0\<rparr>) = mycpu s"
  by (simp_all add: mach_ok_def lock_free_def mycpu_def cpuid_def)

lemma files_cpuid [simp]:
  "cpuid (s\<lparr>ftable := v38\<rparr>) = cpuid s"
  by (simp_all add: cpuid_def)

lemma csr_settle [simp]:
  "csr (settle s) = csr s" "kernelvec_pc (settle s) = kernelvec_pc s"
  "usertrap_pc (settle s) = usertrap_pc s" "uservec_pc (settle s) = uservec_pc s"
  "userret_pc (settle s) = userret_pc s" "forkret_first (settle s) = forkret_first s"
  "started (settle s) = started s"
  "(settle s)\<lparr>csr := x0\<rparr> = settle (s\<lparr>csr := x0\<rparr>)"
  "(settle s)\<lparr>kernelvec_pc := x1\<rparr> = settle (s\<lparr>kernelvec_pc := x1\<rparr>)"
  "(settle s)\<lparr>usertrap_pc := x2\<rparr> = settle (s\<lparr>usertrap_pc := x2\<rparr>)"
  "(settle s)\<lparr>uservec_pc := x3\<rparr> = settle (s\<lparr>uservec_pc := x3\<rparr>)"
  "(settle s)\<lparr>userret_pc := x4\<rparr> = settle (s\<lparr>userret_pc := x4\<rparr>)"
  "(settle s)\<lparr>forkret_first := x5\<rparr> = settle (s\<lparr>forkret_first := x5\<rparr>)"
  "(settle s)\<lparr>started := x6\<rparr> = settle (s\<lparr>started := x6\<rparr>)"
  by (simp_all add: settle_def set_mycpu_def mycpu_def cpuid_def)

lemma csr_enter_cs [simp]:
  "csr (enter_cs lk s) = csr s" "kernelvec_pc (enter_cs lk s) = kernelvec_pc s"
  "usertrap_pc (enter_cs lk s) = usertrap_pc s" "uservec_pc (enter_cs lk s) = uservec_pc s"
  "userret_pc (enter_cs lk s) = userret_pc s" "forkret_first (enter_cs lk s) = forkret_first s"
  "started (enter_cs lk s) = started s"
  "(enter_cs lk s)\<lparr>csr := x0\<rparr> = enter_cs lk (s\<lparr>csr := x0\<rparr>)"
  "(enter_cs lk s)\<lparr>kernelvec_pc := x1\<rparr> = enter_cs lk (s\<lparr>kernelvec_pc := x1\<rparr>)"
  "(enter_cs lk s)\<lparr>usertrap_pc := x2\<rparr> = enter_cs lk (s\<lparr>usertrap_pc := x2\<rparr>)"
  "(enter_cs lk s)\<lparr>uservec_pc := x3\<rparr> = enter_cs lk (s\<lparr>uservec_pc := x3\<rparr>)"
  "(enter_cs lk s)\<lparr>userret_pc := x4\<rparr> = enter_cs lk (s\<lparr>userret_pc := x4\<rparr>)"
  "(enter_cs lk s)\<lparr>forkret_first := x5\<rparr> = enter_cs lk (s\<lparr>forkret_first := x5\<rparr>)"
  "(enter_cs lk s)\<lparr>started := x6\<rparr> = enter_cs lk (s\<lparr>started := x6\<rparr>)"
  by (simp_all add: enter_cs_def push_off_def set_mycpu_def mycpu_def cpuid_def)

lemma csr_frame [simp]:
  "mach_ok (s\<lparr>csr := x0\<rparr>) = mach_ok s"
  "mach_ok (s\<lparr>kernelvec_pc := x1\<rparr>) = mach_ok s"
  "mach_ok (s\<lparr>usertrap_pc := x2\<rparr>) = mach_ok s"
  "mach_ok (s\<lparr>uservec_pc := x3\<rparr>) = mach_ok s"
  "mach_ok (s\<lparr>userret_pc := x4\<rparr>) = mach_ok s"
  "mach_ok (s\<lparr>forkret_first := x5\<rparr>) = mach_ok s"
  "mach_ok (s\<lparr>started := x6\<rparr>) = mach_ok s"
  "lock_free lk (s\<lparr>csr := x0\<rparr>) = lock_free lk s"
  "lock_free lk (s\<lparr>kernelvec_pc := x1\<rparr>) = lock_free lk s"
  "lock_free lk (s\<lparr>usertrap_pc := x2\<rparr>) = lock_free lk s"
  "lock_free lk (s\<lparr>uservec_pc := x3\<rparr>) = lock_free lk s"
  "lock_free lk (s\<lparr>userret_pc := x4\<rparr>) = lock_free lk s"
  "lock_free lk (s\<lparr>forkret_first := x5\<rparr>) = lock_free lk s"
  "lock_free lk (s\<lparr>started := x6\<rparr>) = lock_free lk s"
  "mycpu (s\<lparr>csr := x0\<rparr>) = mycpu s"
  "mycpu (s\<lparr>kernelvec_pc := x1\<rparr>) = mycpu s"
  "mycpu (s\<lparr>usertrap_pc := x2\<rparr>) = mycpu s"
  "mycpu (s\<lparr>uservec_pc := x3\<rparr>) = mycpu s"
  "mycpu (s\<lparr>userret_pc := x4\<rparr>) = mycpu s"
  "mycpu (s\<lparr>forkret_first := x5\<rparr>) = mycpu s"
  "mycpu (s\<lparr>started := x6\<rparr>) = mycpu s"
  by (simp_all add: mach_ok_def lock_free_def mycpu_def cpuid_def)

lemma csr_cpuid [simp]:
  "cpuid (s\<lparr>csr := v39\<rparr>) = cpuid s"
  "cpuid (s\<lparr>kernelvec_pc := v40\<rparr>) = cpuid s"
  "cpuid (s\<lparr>usertrap_pc := v41\<rparr>) = cpuid s"
  "cpuid (s\<lparr>uservec_pc := v42\<rparr>) = cpuid s"
  "cpuid (s\<lparr>userret_pc := v43\<rparr>) = cpuid s"
  "cpuid (s\<lparr>forkret_first := v44\<rparr>) = cpuid s"
  "cpuid (s\<lparr>started := v45\<rparr>) = cpuid s"
  by (simp_all add: cpuid_def)

end
