(* ===== verification/Demo_State.thy ===== *)
theory Demo_State
  imports Kernel_Frames Proc_Properties
begin

text \<open>A concrete kernel state, from which the witnesses of the properties are built.\<close>

definition idle_device :: "mmio_event list \<Rightarrow> u64 \<Rightarrow> u64" where
  "idle_device _ a = (if a = UART0 + LSR then 0x20 else 0)"

definition demo_kernel :: "nat option \<Rightarrow> (nat \<Rightarrow> proc) \<Rightarrow> kernel" where
  "demo_kernel cp T =
     \<lparr>hart = 0, cpus = (\<lambda>_. \<lparr>cproc = cp, noff = 0, intena = False, sie = True\<rparr>),
      locks = (\<lambda>_. \<lparr>locked = False, lname = [], lcpu = None\<rparr>), mem = (\<lambda>_. 0), freelist = 0,
      kend = 0x80001000, kernel_pagetable = 0, etext = 0, trampoline = 0, satp = (\<lambda>_. 0),
      ptab = T, initproc = None, nextpid = 1, ticks = 0, forkret_pc = 0,
      device = idle_device, mmio = [], panicked = False, pr_locking = True, r_fp = 0,
      uart_tx_buf = (\<lambda>_. 0), uart_tx_w = 0, uart_tx_r = 0,
      cons_buf = (\<lambda>_. 0), cons_r = 0, cons_w = 0, cons_e = 0, devsw = (\<lambda>_. None),
      sleeplocks = (\<lambda>_. \<lparr>slocked = False, slname = [], slpid = 0\<rparr>),
      bufs = (\<lambda>i. \<lparr>bvalid = False, bdisk = False, bdev = 0, blockno = 0, refcnt = 0,
                bprev = (if i = NBUF then 0 else Suc i), bnext = (if i = 0 then NBUF else i - 1),
                bdata = replicate 1024 0\<rparr>),
      disk = (\<lambda>_. replicate 1024 0), disk_pages = 0,
      vdesc = (\<lambda>_. \<lparr>daddr = VNull, dlen = 0, dflags = 0, dnext = 0\<rparr>), avail_idx = 0,
      avail_ring = (\<lambda>_. 0), used_ring_idx = 0, used_ring = (\<lambda>_. 0), vfree = (\<lambda>i. i < NUM), used_idx = 0,
      info_b = (\<lambda>_. None), info_status = (\<lambda>_. 0), ops = (\<lambda>_. \<lparr>rtype = 0, rreserved = 0, rsector = 0\<rparr>),
      log_start = 2, log_size = 30, log_outstanding = 0, log_committing = False, log_dev = 1,
      lh_n = 0, lh_block = (\<lambda>_. 0),
      sb = \<lparr>magic = 0x10203040, fssize = 1000, nblocks = 954, ninodes = 200, nlog = 30, logstart = 2,
            inodestart = 32, bmapstart = 45\<rparr>,
      inodes = (\<lambda>_. \<lparr>idev = 0, inum = 0, iref = 0, ivalid = False, itype = 0, imajor = 0, iminor = 0,
                nlink = 0, isize = 0, addrs = replicate 13 0\<rparr>),
      stat_pad = [0, 0, 0, 0],
      ftable = (\<lambda>_. \<lparr>ftype = FD_NONE, fref = 0, readable = False, writable = False, fpipe = 0, fip = None,
                foff = 0, fmajor = 0\<rparr>),
      csr = (\<lambda>_. \<lparr>csr_sstatus = 0, csr_sepc = 0, csr_scause = 0, csr_stval = 0, csr_stvec = 0, csr_sip = 0\<rparr>),
      kernelvec_pc = 0, usertrap_pc = 0, uservec_pc = 0, userret_pc = 0, forkret_first = False, started = True\<rparr>"

lemma demo_kernel_simps [simp]:
  "mach_ok (demo_kernel cp T)" "lock_free lk (demo_kernel cp T)" "ptab (demo_kernel cp T) = T"
  "mycpu (demo_kernel cp T) = \<lparr>cproc = cp, noff = 0, intena = False, sie = True\<rparr>"
  "freelist (demo_kernel cp T) = 0" "kend (demo_kernel cp T) = 0x80001000" "procs_free (demo_kernel cp T)"
  "mem (demo_kernel cp T) = (\<lambda>_. 0)"
  by (simp_all add: demo_kernel_def mach_ok_def cpu_ok_def mycpu_def cpuid_def lock_free_def procs_free_def)

end
