(* ===== verification/Sleep_MP.thy ===== *)
theory Sleep_MP
  imports Proc_Properties
begin

text \<open>
  Sleeping and waking on several processors.  One process calls \<^verbatim>\<open>sleep(ch, lk)\<close> with \<open>lk\<close> held, again and again; any number of harts
  run \<^verbatim>\<open>acquire(lk); ...; wakeup(ch); release(lk)\<close> any number of times, as \<^verbatim>\<open>clockintr\<close> does for \<^verbatim>\<open>sys_sleep\<close>; and idle harts run
  the body of the scheduler's loop on the process.  The harts are interleaved statement by statement, with the
  definitions of \<open>Proc\<close>.  A statement that would busy-wait for a lock does not step.  The body of the loop of \<^verbatim>\<open>wakeup\<close> is one step: it is a
  critical section of a process lock, and such sections are serialised (\<open>Spinlock_MP\<close>).
\<close>

section \<open>The interleaving semantics\<close>

type_synonym 's stmt = "'s \<Rightarrow> (unit, 's) out"

text \<open>What a hart is doing: nothing of interest, the kernel thread of the process, the scheduler after a switch, or a waker.\<close>

datatype 's task = Idle | Thread "'s stmt list" | Sched "'s stmt" | Waker "'s stmt list"

text \<open>\<open>ctx\<close> is where the scheduler of a hart goes on, \<open>parked\<close> where the process goes on when it has been switched out, \<open>wakes\<close>
  the number of wakers that have finished since the last call of \<^verbatim>\<open>sleep\<close>.\<close>

record 's conf =
  sys :: 's
  task :: "nat \<Rightarrow> 's task"
  ctx :: "nat \<Rightarrow> 's stmt"
  parked :: "'s stmt list option"
  wakes :: nat
  dead :: bool

definition on_hart :: "nat \<Rightarrow> 'a machine_scheme \<Rightarrow> 'a machine_scheme" where
  "on_hart g s = s\<lparr>hart := g\<rparr>"

text \<open>A change to the data that \<open>lk\<close> protects.\<close>

definition harmless :: "('a procs_scheme \<Rightarrow> 'a procs_scheme) \<Rightarrow> bool" where
  "harmless f \<longleftrightarrow> (\<forall>s. hart (f s) = hart s \<and> cpus (f s) = cpus s \<and> locks (f s) = locks s \<and> ptab (f s) = ptab s)"

definition waker_code :: "('a procs_scheme \<Rightarrow> 'a procs_scheme) \<Rightarrow> chan \<Rightarrow> lockid \<Rightarrow> 'a procs_scheme stmt list" where
  "waker_code f ch lk = [acquire lk, \<lambda>s. Ok () (f s)] @ map (wake_slot (Some ch)) [0..<NPROC] @ [release lk]"

inductive sw_step :: "nat \<Rightarrow> chan \<Rightarrow> lockid \<Rightarrow> 'a procs_scheme conf \<Rightarrow> 'a procs_scheme conf \<Rightarrow> bool" for p ch lk where
  thread: "task c g = Thread (f # fs) \<Longrightarrow> f (on_hart g (sys c)) = Ok () t \<Longrightarrow>
    sw_step p ch lk c (c\<lparr>sys := t, task := (task c)(g := Thread fs)\<rparr>)"
| leave: "task c g = Thread (f # fs) \<Longrightarrow> f (on_hart g (sys c)) = Swtch t k \<Longrightarrow>
    sw_step p ch lk c (c\<lparr>sys := t, task := (task c)(g := Sched (ctx c g)), parked := Some (k # fs)\<rparr>)"
| sched: "task c g = Sched k \<Longrightarrow> k (on_hart g (sys c)) = Ok () t \<Longrightarrow>
    sw_step p ch lk c (c\<lparr>sys := t, task := (task c)(g := Idle)\<rparr>)"
| pick: "task c g = Idle \<Longrightarrow> cproc (cpus (sys c) g) = None \<Longrightarrow> parked c = Some fs \<Longrightarrow>
    sched_slot p (on_hart g (sys c)) = Swtch t k \<Longrightarrow>
    sw_step p ch lk c (c\<lparr>sys := t, task := (task c)(g := Thread fs), ctx := (ctx c)(g := k), parked := None\<rparr>)"
| pass: "task c g = Idle \<Longrightarrow> cproc (cpus (sys c) g) = None \<Longrightarrow> sched_slot p (on_hart g (sys c)) = Ok () t \<Longrightarrow>
    sw_step p ch lk c (c\<lparr>sys := t\<rparr>)"
| event: "task c g = Idle \<Longrightarrow> harmless f \<Longrightarrow>
    sw_step p ch lk c (c\<lparr>task := (task c)(g := Waker (waker_code f ch lk))\<rparr>)"
| wake: "task c g = Waker (f # fs) \<Longrightarrow> fs \<noteq> [] \<Longrightarrow> f (on_hart g (sys c)) = Ok () t \<Longrightarrow>
    sw_step p ch lk c (c\<lparr>sys := t, task := (task c)(g := Waker fs)\<rparr>)"
| woke: "task c g = Waker [f] \<Longrightarrow> f (on_hart g (sys c)) = Ok () t \<Longrightarrow>
    sw_step p ch lk c (c\<lparr>sys := t, task := (task c)(g := Idle), wakes := Suc (wakes c)\<rparr>)"
| again: "task c g = Thread [] \<Longrightarrow>
    sw_step p ch lk c (c\<lparr>task := (task c)(g := Thread (sleep_code p ch lk)), wakes := 0\<rparr>)"
| panic: "task c g = Thread (f # fs) \<or> task c g = Waker (f # fs) \<or> task c g = Sched f \<or>
      task c g = Idle \<and> cproc (cpus (sys c) g) = None \<and> f = sched_slot p \<Longrightarrow>
    f (on_hart g (sys c)) = Panic m \<Longrightarrow> sw_step p ch lk c (c\<lparr>dead := True\<rparr>)"

inductive sw_reach :: "nat \<Rightarrow> chan \<Rightarrow> lockid \<Rightarrow> 'a procs_scheme conf \<Rightarrow> 'a procs_scheme conf \<Rightarrow> bool" for p ch lk c0 where
  start: "sw_reach p ch lk c0 c0"
| step: "sw_reach p ch lk c0 c \<Longrightarrow> sw_step p ch lk c d \<Longrightarrow> sw_reach p ch lk c0 d"

text \<open>Hart \<open>h\<close>, where the scheduler has switched to \<open>p\<close>, calls \<^verbatim>\<open>sleep(ch, lk)\<close> with only \<open>lk\<close> held.\<close>

definition sleep_called :: "nat \<Rightarrow> chan \<Rightarrow> lockid \<Rightarrow> nat \<Rightarrow> 'a procs_scheme conf \<Rightarrow> bool" where
  "sleep_called p ch lk h c \<longleftrightarrow> p < NPROC \<and> (\<forall>q. lk \<noteq> LkProc q) \<and>
     (\<forall>g. task c g = (if g = h then Thread (sleep_code p ch lk) else Idle)) \<and> parked c = None \<and> wakes c = 0 \<and> \<not> dead c \<and>
     (\<exists>v t. idle v \<and> lock_free (LkProc p) v \<and> state (ptab v p) = RUNNABLE \<and> sched_slot p v = Swtch t (ctx c h)) \<and>
     (\<forall>g. cproc (cpus (sys c) g) = Some p \<longleftrightarrow> g = h) \<and> (\<forall>g. cpu_ok (cpus (sys c) g)) \<and>
     (\<forall>g. noff (cpus (sys c) g) = (if g = h then 1 else 0)) \<and> holding lk (on_hart h (sys c)) \<and>
     (\<forall>q. lock_free (LkProc q) (sys c)) \<and> state (ptab (sys c) p) = RUNNING"

section \<open>Who holds which lock\<close>

definition lock_is :: "nat option \<Rightarrow> spinlock \<Rightarrow> bool" where
  "lock_is w l \<longleftrightarrow> locked l = (w \<noteq> None) \<and> lcpu l = w"

definition owners :: "nat \<Rightarrow> lockid \<Rightarrow> nat option \<Rightarrow> nat option \<Rightarrow> 'a machine_scheme \<Rightarrow> bool" where
  "owners p lk po lo s \<longleftrightarrow> lock_is po (locks s (LkProc p)) \<and> lock_is lo (locks s lk) \<and>
     (\<forall>q. q \<noteq> p \<longrightarrow> lock_is None (locks s (LkProc q))) \<and>
     (\<forall>g. cpu_ok (cpus s g) \<and> noff (cpus s g) = of_bool (po = Some g) + of_bool (lo = Some g))"

text \<open>A step of hart \<open>g\<close> keeps everything but locks and its own processor.\<close>

definition same_but :: "nat \<Rightarrow> 'a procs_scheme \<Rightarrow> 'a procs_scheme \<Rightarrow> bool" where
  "same_but g s t \<longleftrightarrow> hart t = g \<and> ptab t = ptab s \<and> (\<forall>k. k \<noteq> g \<longrightarrow> cpus t k = cpus s k) \<and> cproc (cpus t g) = cproc (cpus s g)"

lemma on_hart_simps [simp]:
  "hart (on_hart g s) = g" "cpus (on_hart g s) = cpus s" "locks (on_hart g s) = locks s" "mycpu (on_hart g s) = cpus s g"
  "cpuid (on_hart g s) = g" "mach_ok (on_hart g s) = cpu_ok (cpus s g)" "lock_free l (on_hart g s) = lock_free l s"
  by (simp_all add: on_hart_def mycpu_def cpuid_def mach_ok_def lock_free_def)

lemma on_hart_procs [simp]: "ptab (on_hart g s) = ptab s" "mem (on_hart g s) = mem s" "ticks (on_hart g s) = ticks s"
  by (simp_all add: on_hart_def)

lemma acquire_step:
  assumes "acquire l (on_hart g s) = Ok () t" "lock_is w (locks s l)" "cpu_ok (cpus s g)"
  shows "w = None" "lock_is (Some g) (locks t l)" "\<forall>k. k \<noteq> l \<longrightarrow> locks t k = locks s k" "same_but g s t"
    "cpu_ok (cpus t g)" "noff (cpus t g) = noff (cpus s g) + 1"
    "intena (cpus t g) = (if noff (cpus s g) = 0 then sie (cpus s g) else intena (cpus s g))"
proof -
  show w: "w = None"
  proof (cases w)
    case (Some k)
    then have "locked (locks (on_hart g s) l)" "lcpu (locks (on_hart g s) l) = Some k" using assms(2) by (simp_all add: lock_is_def)
    then show ?thesis
      using assms(1) acquire_own_panics [of "on_hart g s" l] acquire_other_spins [of "on_hart g s" l] by (cases "k = g") auto
  qed
  then have "lock_free l (on_hart g s)" using assms(2) by (simp add: lock_is_def lock_free_def)
  then have "t = enter_cs l (on_hart g s)" using assms(1) by simp
  then show "lock_is (Some g) (locks t l)" "\<forall>k. k \<noteq> l \<longrightarrow> locks t k = locks s k" "same_but g s t"
    "cpu_ok (cpus t g)" "noff (cpus t g) = noff (cpus s g) + 1"
    "intena (cpus t g) = (if noff (cpus s g) = 0 then sie (cpus s g) else intena (cpus s g))"
    using cpu_ok_push_off [OF assms(3)] push_off_cpu_simps [of "cpus s g"]
    by (auto simp: enter_cs_def push_off_def set_mycpu_def lock_is_def same_but_def push_off_cpu_def intr_get_cpu_def intr_off_cpu_def Let_def)
qed

lemma release_step:
  assumes "lock_is (Some g) (locks s l)" "cpu_ok (cpus s g)" "1 \<le> noff (cpus s g)"
  obtains t where "release l (on_hart g s) = Ok () t" "lock_is None (locks t l)" "\<forall>k. k \<noteq> l \<longrightarrow> locks t k = locks s k" "same_but g s t"
    "cpu_ok (cpus t g)" "noff (cpus t g) = noff (cpus s g) - 1" "intena (cpus t g) = intena (cpus s g)"
    "sie (cpus t g) = (noff (cpus s g) = 1 \<and> intena (cpus s g))"
proof -
  let ?s = "(on_hart g s)\<lparr>locks := (locks s)(l := lock_release (clear_owner (locks s l)))\<rparr>" and ?c = "cpus s g"
  let ?c' = "?c\<lparr>noff := noff ?c - 1, sie := (noff ?c = 1 \<and> intena ?c)\<rparr>"
  have c: "\<not> sie ?c" using assms(2,3) by (simp add: cpu_ok_def)
  then have p: "pop_off_cpu ?c = Inr ?c'"
    using assms(3) by (cases ?c) (auto simp: pop_off_cpu_def intr_get_cpu_def intr_on_cpu_def Let_def)
  have "mycpu ?s = ?c" by (simp add: mycpu_def cpuid_def)
  then have r: "release l (on_hart g s) = Ok () (set_mycpu ?c' ?s)"
    using assms(1) p by (simp add: release_def holding_def lock_is_def pop_off_def)
  have "cpu_ok ?c'" using assms(2,3) by (auto simp: cpu_ok_def)
  then show ?thesis
    by (intro that [OF r]) (simp_all add: lock_is_def same_but_def set_mycpu_def cpuid_def lock_release_def clear_owner_def)
qed

text \<open>The four uses of the two locks.\<close>

lemma owners_step:
  fixes s :: "'a procs_scheme"
  assumes own: "owners p lk po lo s" and ne: "\<forall>q. lk \<noteq> LkProc q" and b: "same_but g s t" "cpu_ok (cpus t g)"
    and l: "\<forall>k. k \<noteq> l \<longrightarrow> locks t k = locks s k" "lock_is w (locks t l)"
  shows "l = LkProc p \<Longrightarrow> noff (cpus t g) = of_bool (w = Some g) + of_bool (lo = Some g) \<Longrightarrow>
      (\<And>k. k \<noteq> g \<Longrightarrow> (w = Some k) = (po = Some k)) \<Longrightarrow> owners p lk w lo t"
    "l = lk \<Longrightarrow> noff (cpus t g) = of_bool (po = Some g) + of_bool (w = Some g) \<Longrightarrow>
      (\<And>k. k \<noteq> g \<Longrightarrow> (w = Some k) = (lo = Some k)) \<Longrightarrow> owners p lk po w t"
proof -
  note O = own [unfolded owners_def]
  have q: "LkProc q \<noteq> lk" for q using ne by metis
  have c: "cpu_ok (cpus t k)" for k using O b by (cases "k = g") (auto simp: same_but_def)
  have n: "noff (cpus t k) = of_bool (po = Some k) + of_bool (lo = Some k)" if "k \<noteq> g" for k
    using O b(1) that by (simp add: same_but_def)
  show "owners p lk w lo t" if "l = LkProc p" "noff (cpus t g) = of_bool (w = Some g) + of_bool (lo = Some g)"
      "\<And>k. k \<noteq> g \<Longrightarrow> (w = Some k) = (po = Some k)"
  proof -
    have "noff (cpus t k) = of_bool (w = Some k) + of_bool (lo = Some k)" for k using n that by (cases "k = g") auto
    then show ?thesis using O c l that(1) ne by (simp add: owners_def)
  qed
  show "owners p lk po w t" if "l = lk" "noff (cpus t g) = of_bool (po = Some g) + of_bool (w = Some g)"
      "\<And>k. k \<noteq> g \<Longrightarrow> (w = Some k) = (lo = Some k)"
  proof -
    have "noff (cpus t k) = of_bool (po = Some k) + of_bool (w = Some k)" for k using n that by (cases "k = g") auto
    then show ?thesis using O c l that(1) q by (simp add: owners_def)
  qed
qed

lemma owners_acquire:
  fixes s :: "'a procs_scheme"
  assumes own: "owners p lk po lo s" and ne: "\<forall>q. lk \<noteq> LkProc q"
  shows "acquire (LkProc p) (on_hart g s) = Ok () t \<Longrightarrow> po = None \<and> owners p lk (Some g) lo t \<and> same_but g s t \<and>
      (lo = Some g \<longrightarrow> intena (cpus t g) = intena (cpus s g))"
    "acquire lk (on_hart g s) = Ok () t \<Longrightarrow> lo = None \<and> owners p lk po (Some g) t \<and> same_but g s t \<and>
      (po \<noteq> Some g \<longrightarrow> intena (cpus t g) = sie (cpus s g))"
proof -
  note O = own [unfolded owners_def]
  have l: "lock_is po (locks s (LkProc p))" "lock_is lo (locks s lk)" "cpu_ok (cpus s g)"
    and n: "noff (cpus s g) = of_bool (po = Some g) + of_bool (lo = Some g)" using O by blast+
  show "po = None \<and> owners p lk (Some g) lo t \<and> same_but g s t \<and> (lo = Some g \<longrightarrow> intena (cpus t g) = intena (cpus s g))"
    if a: "acquire (LkProc p) (on_hart g s) = Ok () t"
  proof -
    note A = acquire_step [OF a l(1,3)]
    have "owners p lk (Some g) lo t" by (rule owners_step(1) [OF own ne A(4,5,3,2)]) (use A(1,6) n in auto)
    then show ?thesis using A n by simp
  qed
  show "lo = None \<and> owners p lk po (Some g) t \<and> same_but g s t \<and> (po \<noteq> Some g \<longrightarrow> intena (cpus t g) = sie (cpus s g))"
    if a: "acquire lk (on_hart g s) = Ok () t"
  proof -
    note A = acquire_step [OF a l(2,3)]
    have "owners p lk po (Some g) t" by (rule owners_step(2) [OF own ne A(4,5,3,2)]) (use A(1,6) n in auto)
    then show ?thesis using A n by simp
  qed
qed

lemma owners_release:
  fixes s :: "'a procs_scheme"
  assumes own: "owners p lk po lo s" and ne: "\<forall>q. lk \<noteq> LkProc q"
  shows "po = Some g \<Longrightarrow> \<exists>t. release (LkProc p) (on_hart g s) = Ok () t \<and> owners p lk None lo t \<and> same_but g s t \<and>
      intena (cpus t g) = intena (cpus s g) \<and> (lo \<noteq> Some g \<longrightarrow> sie (cpus t g) = intena (cpus s g))"
    "lo = Some g \<Longrightarrow> \<exists>t. release lk (on_hart g s) = Ok () t \<and> owners p lk po None t \<and> same_but g s t \<and>
      intena (cpus t g) = intena (cpus s g)"
proof -
  note O = own [unfolded owners_def]
  have c: "cpu_ok (cpus s g)" and n: "noff (cpus s g) = of_bool (po = Some g) + of_bool (lo = Some g)" using O by blast+
  show "\<exists>t. release (LkProc p) (on_hart g s) = Ok () t \<and> owners p lk None lo t \<and> same_but g s t \<and>
      intena (cpus t g) = intena (cpus s g) \<and> (lo \<noteq> Some g \<longrightarrow> sie (cpus t g) = intena (cpus s g))" if po: "po = Some g"
  proof -
    have l: "lock_is (Some g) (locks s (LkProc p))" "1 \<le> noff (cpus s g)" using O po by auto
    obtain t where r: "release (LkProc p) (on_hart g s) = Ok () t" and A: "lock_is None (locks t (LkProc p))"
      "\<forall>k. k \<noteq> LkProc p \<longrightarrow> locks t k = locks s k" "same_but g s t" "cpu_ok (cpus t g)" "noff (cpus t g) = noff (cpus s g) - 1"
      "intena (cpus t g) = intena (cpus s g)" "sie (cpus t g) = (noff (cpus s g) = 1 \<and> intena (cpus s g))"
      by (rule release_step [OF l(1) c l(2)])
    have "owners p lk None lo t" by (rule owners_step(1) [OF own ne A(3,4,2,1)]) (use A(5) n po in auto)
    then show ?thesis using r A n po by (intro exI [of _ t]) simp
  qed
  show "\<exists>t. release lk (on_hart g s) = Ok () t \<and> owners p lk po None t \<and> same_but g s t \<and>
      intena (cpus t g) = intena (cpus s g)" if lo: "lo = Some g"
  proof -
    have l: "lock_is (Some g) (locks s lk)" "1 \<le> noff (cpus s g)" using O lo by auto
    obtain t where r: "release lk (on_hart g s) = Ok () t" and A: "lock_is None (locks t lk)"
      "\<forall>k. k \<noteq> lk \<longrightarrow> locks t k = locks s k" "same_but g s t" "cpu_ok (cpus t g)" "noff (cpus t g) = noff (cpus s g) - 1"
      "intena (cpus t g) = intena (cpus s g)"
      by (rule release_step [OF l(1) c l(2)])
    have "owners p lk po None t" by (rule owners_step(2) [OF own ne A(3,4,2,1)]) (use A(5) n lo in auto)
    then show ?thesis using r A by (intro exI [of _ t]) simp
  qed
qed

lemma owners_no_panic:
  fixes s :: "'a procs_scheme"
  assumes own: "owners p lk po lo s"
  shows "po \<noteq> Some g \<Longrightarrow> acquire (LkProc p) (on_hart g s) \<noteq> Panic m" "lo \<noteq> Some g \<Longrightarrow> acquire lk (on_hart g s) \<noteq> Panic m"
proof -
  have *: "acquire l (on_hart g s) \<noteq> Panic m" if "lock_is w (locks s l)" "w \<noteq> Some g" for l w
    using that acquire_free [of l "on_hart g s"] acquire_other_spins [of "on_hart g s" l]
    by (cases w) (auto simp: lock_is_def lock_free_def)
  show "po \<noteq> Some g \<Longrightarrow> acquire (LkProc p) (on_hart g s) \<noteq> Panic m" "lo \<noteq> Some g \<Longrightarrow> acquire lk (on_hart g s) \<noteq> Panic m"
    using own * [of po "LkProc p"] * [of lo lk] by (auto simp: owners_def)
qed

lemma owners_upd [simp]: "owners p lk po lo (upd_proc q f s) = owners p lk po lo s" "owners p lk po lo (on_hart g s) = owners p lk po lo s"
  by (simp_all add: owners_def upd_proc_def)

text \<open>The body of the loop of \<^verbatim>\<open>wakeup\<close>, run by the hart that holds \<open>lk\<close>.\<close>

lemma wake_slot_step:
  fixes s :: "'a procs_scheme" and ch :: chan and q :: nat
  assumes own: "owners p lk po (Some g) s" and me: "cproc (cpus s g) \<noteq> Some p" and po: "po \<noteq> Some g"
  defines "t \<equiv> on_hart g (s\<lparr>ptab := woken (Some ch) (cproc (cpus s g)) {q} (ptab s)\<rparr>)"
  shows "wake_slot (Some ch) q (on_hart g s) = (if q = p \<and> po \<noteq> None then Spin else Ok () t)"
proof -
  note O = own [unfolded owners_def]
  let ?s = "on_hart g s"
  have c: "cpu_ok (cpus s g)" "noff (cpus s g) = 1" using O po by auto
  have st: "settle ?s = ?s" using c by (simp add: settle_def settle_cpu_def set_mycpu_def on_hart_def cpuid_def mycpu_def)
  have T: "woken (Some ch) (cproc (cpus s g)) {q} (ptab s) = (if cproc (cpus s g) \<noteq> Some q \<and> state (ptab s q) = SLEEPING \<and> chan (ptab s q) = Some ch
      then (ptab s)(q := (ptab s q)\<lparr>state := RUNNABLE\<rparr>) else ptab s)"
    by (auto simp: woken_def fun_eq_iff)
  show ?thesis
  proof (cases "cproc (cpus s g) = Some q")
    case True
    then have "t = ?s" unfolding t_def T by simp
    then show ?thesis using True me c st by (auto simp: wake_slot_def)
  next
    case ne: False
    show ?thesis
    proof (cases "q = p \<and> po \<noteq> None")
      case True
      then have "acquire (LkProc q) ?s = Spin" using O po by (intro acquire_other_spins) (auto simp: lock_is_def)
      then show ?thesis using True ne c st by (simp add: wake_slot_def)
    next
      case False
      then have l: "lock_free (LkProc q) ?s" using O by (auto simp: lock_is_def lock_free_def)
      have t: "t = ?s\<lparr>ptab := woken (Some ch) (cproc (cpus s g)) {q} (ptab s)\<rparr>" by (simp add: t_def on_hart_def)
      moreover have "settle t = t" unfolding t procs_settle(5) [symmetric] st ..
      ultimately show ?thesis using False ne c st l by (auto simp: wake_slot_def T upd_proc_def)
    qed
  qed
qed

section \<open>The invariant\<close>

text \<open>Where the process is: in \<^verbatim>\<open>sleep\<close> before statement \<open>i\<close> on a hart, on the hart's way to the scheduler, switched out, or resumed.\<close>

datatype place = At nat nat | Leaving nat | Parked | Back nat nat

primrec where_run :: "place \<Rightarrow> nat option" where
  "where_run (At i g) = Some g"
| "where_run (Leaving g) = Some g"
| "where_run Parked = None"
| "where_run (Back i g) = Some g"

primrec p_owner :: "place \<Rightarrow> nat option" where
  "p_owner (At i g) = (if i = 0 then None else Some g)"
| "p_owner (Leaving g) = Some g"
| "p_owner Parked = None"
| "p_owner (Back i g) = (if i < 7 then Some g else None)"

primrec lk_owner :: "place \<Rightarrow> nat option" where
  "lk_owner (At i g) = (if i < 2 then Some g else None)"
| "lk_owner (Leaving g) = None"
| "lk_owner Parked = None"
| "lk_owner (Back i g) = (if i = 8 then Some g else None)"

text \<open>The statement of \<^verbatim>\<open>sched\<close> after the switch, and the scheduler's after its own.\<close>

definition restore :: "bool \<Rightarrow> 'a machine_scheme stmt" where
  "restore ie = (\<lambda>u. Ok () (set_mycpu ((mycpu u)\<lparr>intena := ie\<rparr>) u))"

definition sched_tail :: "nat \<Rightarrow> 'a procs_scheme stmt" where
  "sched_tail p = (\<lambda>u. release (LkProc p) (set_cproc None u))"

definition resume_code :: "nat \<Rightarrow> chan \<Rightarrow> lockid \<Rightarrow> bool \<Rightarrow> 'a procs_scheme stmt list" where
  "resume_code p ch lk ie = restore ie # drop 5 (sleep_code p ch lk)"

primrec task_at :: "nat \<Rightarrow> chan \<Rightarrow> lockid \<Rightarrow> bool \<Rightarrow> place \<Rightarrow> 'a procs_scheme task" where
  "task_at p ch lk ie (At i g) = Thread (drop i (sleep_code p ch lk))"
| "task_at p ch lk ie (Leaving g) = Sched (sched_tail p)"
| "task_at p ch lk ie Parked = Idle"
| "task_at p ch lk ie (Back i g) = Thread (if i = 4 then resume_code p ch lk ie else drop i (sleep_code p ch lk))"

text \<open>The process table entry and the saved interrupt state.\<close>

primrec proc_at :: "nat \<Rightarrow> chan \<Rightarrow> bool \<Rightarrow> place \<Rightarrow> 'a procs_scheme \<Rightarrow> bool" where
  "proc_at p ch ie (At i g) s \<longleftrightarrow> i \<le> 4 \<and> state (ptab s p) = (if i = 4 then SLEEPING else RUNNING) \<and>
     (3 \<le> i \<longrightarrow> chan (ptab s p) = Some ch) \<and> intena (cpus s g) = ie"
| "proc_at p ch ie (Leaving g) s \<longleftrightarrow> state (ptab s p) = SLEEPING \<and> chan (ptab s p) = Some ch"
| "proc_at p ch ie Parked s \<longleftrightarrow> state (ptab s p) = SLEEPING \<and> chan (ptab s p) = Some ch \<or> state (ptab s p) = RUNNABLE"
| "proc_at p ch ie (Back i g) s \<longleftrightarrow> 4 \<le> i \<and> i \<le> 8 \<and> state (ptab s p) = RUNNING \<and> (6 \<le> i \<longrightarrow> chan (ptab s p) = None) \<and>
     (i \<noteq> 4 \<longrightarrow> (if i = 7 then sie (cpus s g) else intena (cpus s g)) = ie)"

text \<open>What must hold once a waker is past the process.\<close>

primrec awake_at :: "nat \<Rightarrow> place \<Rightarrow> 'a procs_scheme \<Rightarrow> bool" where
  "awake_at p (At i g) s = False"
| "awake_at p (Leaving g) s = False"
| "awake_at p Parked s = (state (ptab s p) = RUNNABLE)"
| "awake_at p (Back i g) s = True"

text \<open>\<open>wk\<close> is the hart of the waker that holds \<open>lk\<close>, with the index of its next statement.\<close>

definition pos :: "(nat \<times> nat) option \<Rightarrow> nat \<Rightarrow> nat" where
  "pos wk g = (case wk of None \<Rightarrow> 0 | Some (k, j) \<Rightarrow> if k = g then j else 0)"

definition other_ok :: "chan \<Rightarrow> lockid \<Rightarrow> nat \<Rightarrow> 'a procs_scheme task \<Rightarrow> bool" where
  "other_ok ch lk j tk \<longleftrightarrow> j = 0 \<and> tk = Idle \<or> (\<exists>f. harmless f \<and> tk = Waker (drop j (waker_code f ch lk)))"

definition tasks_ok :: "nat \<Rightarrow> chan \<Rightarrow> lockid \<Rightarrow> bool \<Rightarrow> place \<Rightarrow> (nat \<times> nat) option \<Rightarrow> (nat \<Rightarrow> 'a procs_scheme task) \<Rightarrow> bool" where
  "tasks_ok p ch lk ie pl wk T \<longleftrightarrow>
     (\<forall>g. if where_run pl = Some g then T g = task_at p ch lk ie pl \<and> pos wk g = 0 else other_ok ch lk (pos wk g) (T g))"

definition lk_holder :: "place \<Rightarrow> (nat \<times> nat) option \<Rightarrow> nat option" where
  "lk_holder pl wk = (case lk_owner pl of None \<Rightarrow> map_option fst wk | Some g \<Rightarrow> Some g)"

definition sw_inv :: "nat \<Rightarrow> chan \<Rightarrow> lockid \<Rightarrow> bool \<Rightarrow> place \<Rightarrow> (nat \<times> nat) option \<Rightarrow> 'a procs_scheme conf \<Rightarrow> bool" where
  "sw_inv p ch lk ie pl wk c \<longleftrightarrow>
     owners p lk (p_owner pl) (lk_holder pl wk) (sys c) \<and> (lk_owner pl \<noteq> None \<longrightarrow> wk = None) \<and>
     (\<forall>k j. wk = Some (k, j) \<longrightarrow> 0 < j \<and> j < NPROC + 3) \<and>
     (\<forall>g. cproc (cpus (sys c) g) = Some p \<longleftrightarrow> where_run pl = Some g) \<and>
     tasks_ok p ch lk ie pl wk (task c) \<and> (\<forall>g. where_run pl = Some g \<longrightarrow> ctx c g = sched_tail p) \<and>
     parked c = (if pl = Parked \<or> (\<exists>g. pl = Leaving g) then Some (resume_code p ch lk ie) else None) \<and>
     proc_at p ch ie pl (sys c) \<and>
     (0 < wakes c \<or> (\<exists>g. p + 2 < pos wk g) \<longrightarrow> awake_at p pl (sys c)) \<and> \<not> dead c"

lemma tasks_ok_at: "tasks_ok p ch lk ie pl wk T \<Longrightarrow> where_run pl = Some g \<Longrightarrow> T g = task_at p ch lk ie pl"
  by (simp add: tasks_ok_def)

lemma tasks_ok_other: "tasks_ok p ch lk ie pl wk T \<Longrightarrow> where_run pl \<noteq> Some g \<Longrightarrow> other_ok ch lk (pos wk g) (T g)"
  by (auto simp: tasks_ok_def)

text \<open>Only the thread of the process is a \<open>Thread\<close>, and only it goes to the scheduler.\<close>

lemma other_task_Thread: "\<not> other_ok ch lk j (Thread fs)" "\<not> other_ok ch lk j (Sched k)"
  by (auto simp: other_ok_def)

lemma task_at_Waker: "task_at p ch lk ie pl \<noteq> Waker fs"
  by (cases pl) auto

lemma thread_place:
  assumes "tasks_ok p ch lk ie pl wk T" "T g = Thread fs"
  shows "where_run pl = Some g" "task_at p ch lk ie pl = Thread fs"
proof -
  show w: "where_run pl = Some g"
    using tasks_ok_other [OF assms(1), of g] assms(2) other_task_Thread(1) by metis
  show "task_at p ch lk ie pl = Thread fs" using tasks_ok_at [OF assms(1) w] assms(2) by simp
qed

text \<open>The thread moves on.\<close>

lemma tasks_ok_move:
  "tasks_ok p ch lk ie pl wk T \<Longrightarrow> where_run pl = Some g \<Longrightarrow> where_run pl' = Some g \<Longrightarrow> T' = T(g := task_at p ch lk ie pl') \<Longrightarrow>
    tasks_ok p ch lk ie pl' wk T'"
  by (auto simp: tasks_ok_def)

lemma same_but_cproc: "same_but g s t \<Longrightarrow> cproc (cpus t k) = cproc (cpus s k)"
  by (cases "k = g") (auto simp: same_but_def)

lemmas code_simps = sleep_code_def resume_code_def

lemma sw_inv_move:
  assumes inv: "sw_inv p ch lk ie pl wk c" and w: "where_run pl = Some g" "where_run pl' = Some g" and fs: "task_at p ch lk ie pl' = Thread fs"
    and T: "task_at p ch lk ie pl = Thread gs" and o: "owners p lk (p_owner pl') (lk_holder pl' wk) t" "lk_owner pl' \<noteq> None \<longrightarrow> wk = None"
    and k: "\<And>k. cproc (cpus t k) = cproc (cpus (sys c) k)" and p: "proc_at p ch ie pl' t" "awake_at p pl (sys c) \<longrightarrow> awake_at p pl' t"
  shows "sw_inv p ch lk ie pl' wk (c\<lparr>sys := t, task := (task c)(g := Thread fs)\<rparr>)"
proof -
  note I = inv [unfolded sw_inv_def]
  have "pl \<noteq> Parked" "\<forall>g. pl \<noteq> Leaving g" "pl' \<noteq> Parked" "\<forall>g. pl' \<noteq> Leaving g" using fs T by auto
  moreover have "tasks_ok p ch lk ie pl' wk ((task c)(g := Thread fs))"
    by (rule tasks_ok_move [where T = "task c"]) (use I w fs in auto)
  ultimately show ?thesis using I o k p w by (simp add: sw_inv_def)
qed

lemma same_but_proc:
  "same_but g s t \<Longrightarrow> ptab t = ptab s" "same_but g s t \<Longrightarrow> cproc (cpus t k) = cproc (cpus s k)"
  by (cases "k = g"; simp add: same_but_def)+

lemma step_thread_At:
  assumes inv: "sw_inv p ch lk ie (At i g) wk c" and ne: "\<forall>q. lk \<noteq> LkProc q" and T: "drop i (sleep_code p ch lk) = f # fs"
    and f: "f (on_hart g (sys c)) = Ok () t"
  shows "sw_inv p ch lk ie (At (Suc i) g) wk (c\<lparr>sys := t, task := (task c)(g := Thread fs)\<rparr>)"
proof -
  note I = inv [unfolded sw_inv_def]
  let ?s = "sys c"
  have own: "owners p lk (p_owner (At i g)) (lk_holder (At i g) wk) ?s" and p: "proc_at p ch ie (At i g) ?s"
    and n: "lk_owner (At i g) \<noteq> None \<longrightarrow> wk = None" using I by blast+
  note mv = sw_inv_move [OF inv, of g "At (Suc i) g"]
  consider "i = 0" | "i = 1" | "i = 2" | "i = 3" | "i = 4" using p by fastforce
  then show ?thesis
  proof cases
    case 1
    then have [simp]: "f = acquire (LkProc p)" "fs = drop 1 (sleep_code p ch lk)" using T by (auto simp: sleep_code_def)
    note A = owners_acquire(1) [OF own ne f [simplified]]
    then have "owners p lk (Some g) (Some g) t" "same_but g ?s t" "intena (cpus t g) = intena (cpus ?s g)" using 1 by (simp_all add: lk_holder_def)
    then show ?thesis by (intro mv) (use 1 p n in \<open>simp_all add: lk_holder_def same_but_proc\<close>)
  next
    case 2
    then have [simp]: "f = release lk" "fs = drop 2 (sleep_code p ch lk)" using T by (auto simp: sleep_code_def)
    have "lk_holder (At i g) wk = Some g" using 2 by (simp add: lk_holder_def)
    note A = owners_release(2) [OF own ne this]
    then have "owners p lk (Some g) None t" "same_but g ?s t" "intena (cpus t g) = intena (cpus ?s g)" using 2 f by auto
    then show ?thesis by (intro mv) (use 2 p n in \<open>simp_all add: lk_holder_def same_but_proc numeral_2_eq_2\<close>)
  next
    case 3
    then have [simp]: "f = (\<lambda>s. Ok () (upd_proc p (chan_update (\<lambda>_. Some ch)) s))" "fs = drop 3 (sleep_code p ch lk)" using T by (auto simp: sleep_code_def)
    show ?thesis by (rule mv) (use 3 own f p n in \<open>auto simp: lk_holder_def upd_proc_def owners_def\<close>)
  next
    case 4
    then have [simp]: "f = (\<lambda>s. Ok () (upd_proc p (state_update (\<lambda>_. SLEEPING)) s))" "fs = drop 4 (sleep_code p ch lk)" using T by (auto simp: sleep_code_def)
    show ?thesis by (rule mv) (use 4 own f p n in \<open>auto simp: lk_holder_def upd_proc_def owners_def\<close>)
  next
    case 5
    then have "f = sched" using T by (auto simp: sleep_code_def)
    then show ?thesis using f by (auto simp: sched_def with_proc_def and_then_Ok_iff Let_def split: option.splits if_splits)
  qed
qed

lemma owners_cpu:
  "owners p lk po lo s \<Longrightarrow> owners p lk po lo (set_mycpu ((cpus s g)\<lparr>intena := b\<rparr>) (on_hart g s))"
  by (auto simp: owners_def set_mycpu_def cpu_ok_def)

lemma step_thread_Back:
  assumes inv: "sw_inv p ch lk ie (Back i g) wk c" and ne: "\<forall>q. lk \<noteq> LkProc q" and T: "task_at p ch lk ie (Back i g) = Thread (f # fs)"
    and f: "f (on_hart g (sys c)) = Ok () t"
  shows "\<exists>pl'. sw_inv p ch lk ie pl' wk (c\<lparr>sys := t, task := (task c)(g := Thread fs)\<rparr>)"
proof -
  note I = inv [unfolded sw_inv_def]
  let ?s = "sys c"
  have own: "owners p lk (p_owner (Back i g)) (lk_holder (Back i g) wk) ?s" and p: "proc_at p ch ie (Back i g) ?s"
    and n: "lk_owner (Back i g) \<noteq> None \<longrightarrow> wk = None" using I by blast+
  have wk: "lk_holder (Back i g) wk \<noteq> Some g" if "i \<noteq> 8"
  proof -
    have "pos wk g = 0" using I by (auto simp: tasks_ok_def)
    then show ?thesis using I that by (auto simp: lk_holder_def pos_def split: option.splits)
  qed
  note mv = exI [of _ "Back (Suc i) g", OF sw_inv_move [OF inv]]
  consider "i = 4" | "i = 5" | "i = 6" | "i = 7" | "i = 8" using p by fastforce
  then show ?thesis
  proof cases
    case 1
    then have [simp]: "f = restore ie" "fs = drop 5 (sleep_code p ch lk)" using T by (auto simp: resume_code_def)
    have t: "t = set_mycpu ((cpus ?s g)\<lparr>intena := ie\<rparr>) (on_hart g ?s)" using f by (simp add: restore_def)
    show ?thesis by (rule mv) (use 1 owners_cpu [OF own] p n in \<open>auto simp: t lk_holder_def set_mycpu_def\<close>)
  next
    case 2
    then have [simp]: "f = (\<lambda>s. Ok () (upd_proc p (chan_update (\<lambda>_. None)) s))" "fs = drop 6 (sleep_code p ch lk)" using T by (auto simp: sleep_code_def)
    show ?thesis by (rule mv) (use 2 own f p n in \<open>auto simp: lk_holder_def upd_proc_def owners_def\<close>)
  next
    case 3
    then have [simp]: "f = release (LkProc p)" "fs = drop 7 (sleep_code p ch lk)" using T by (auto simp: sleep_code_def)
    have "p_owner (Back i g) = Some g" using 3 by simp
    note A = owners_release(1) [OF own ne this]
    then have "owners p lk None (map_option fst wk) t" "same_but g ?s t" "sie (cpus t g) = intena (cpus ?s g)"
      using 3 f wk by (auto simp: lk_holder_def)
    then show ?thesis by (intro mv) (use 3 p n in \<open>simp_all add: lk_holder_def same_but_proc\<close>)
  next
    case 4
    then have [simp]: "f = acquire lk" "fs = drop 8 (sleep_code p ch lk)" using T by (auto simp: sleep_code_def)
    note A = owners_acquire(2) [OF own ne f [simplified]]
    then have "owners p lk None (Some g) t" "same_but g ?s t" "intena (cpus t g) = sie (cpus ?s g)" "wk = None"
      using 4 by (auto simp: lk_holder_def)
    then show ?thesis by (intro mv) (use 4 p n in \<open>simp_all add: lk_holder_def same_but_proc\<close>)
  next
    case 5
    then show ?thesis using T by (simp add: sleep_code_def)
  qed
qed

lemma no_switch: "acquire l s \<noteq> Swtch t k" "release l s \<noteq> Swtch t k"
  by (auto simp: acquire_def release_def pop_off_def Let_def split: prod.splits sum.splits if_splits)

lemma not_waker: "tasks_ok p ch lk ie pl wk T \<Longrightarrow> (where_run pl = Some g \<or> T g = Idle) \<Longrightarrow> pos wk g = 0"
  using task_at_Waker by (auto simp: tasks_ok_def other_ok_def split: if_splits)

text \<open>A hart that runs neither the process in its critical section nor a waker holds no lock.\<close>

lemma holder_other: "pos wk g = 0 \<Longrightarrow> lk_owner pl \<noteq> Some g \<Longrightarrow> (\<forall>k j. wk = Some (k, j) \<longrightarrow> 0 < j) \<Longrightarrow> lk_holder pl wk \<noteq> Some g"
  by (auto simp: lk_holder_def pos_def split: option.splits)

lemma thread_swtch:
  assumes "task_at p ch lk ie pl = Thread (f # fs)" "f s = Swtch t k" "proc_at p ch ie pl u"
  shows "\<exists>g. pl = At 4 g"
proof (cases pl)
  case (At i h)
  then consider "i = 0" | "i = 1" | "i = 2" | "i = 3" | "i = 4" using assms(3) by fastforce
  then show ?thesis using assms(1,2) At by cases (auto simp: sleep_code_def no_switch)
next
  case (Back i h)
  then consider "i = 4" | "i = 5" | "i = 6" | "i = 7" | "i = 8" using assms(3) by fastforce
  then show ?thesis using assms(1,2) Back by cases (auto simp: sleep_code_def resume_code_def restore_def no_switch)
qed (use assms(1) in auto)

lemma handoff_at:
  assumes own: "owners p lk (Some g) lo s" and "lo \<noteq> Some g" "cproc (cpus s g) = Some p"
  shows "handoff p (on_hart g s)"
  using assms by (auto simp: handoff_def owners_def lock_is_def cpu_ok_def)

lemma sw_inv_leave:
  assumes inv: "sw_inv p ch lk ie (At 4 g) wk c"
  shows "sched (on_hart g (sys c)) = Swtch (on_hart g (sys c)) (restore ie)"
    "sw_inv p ch lk ie (Leaving g) wk
       (c\<lparr>sys := on_hart g (sys c), task := (task c)(g := Sched (ctx c g)), parked := Some (resume_code p ch lk ie)\<rparr>)"
proof -
  note I = inv [unfolded sw_inv_def]
  have own: "owners p lk (Some g) (lk_holder (At 4 g) wk) (sys c)" and tk: "tasks_ok p ch lk ie (At 4 g) wk (task c)" using I by auto
  have "pos wk g = 0" using not_waker [OF tk] by simp
  then have lo: "lk_holder (At 4 g) wk \<noteq> Some g" using I by (intro holder_other) auto
  have "handoff p (on_hart g (sys c))" by (rule handoff_at [OF own lo]) (use I in simp)
  from sched_eq [OF this] show "sched (on_hart g (sys c)) = Swtch (on_hart g (sys c)) (restore ie)"
    using I by (simp add: restore_def)
  have "tasks_ok p ch lk ie (Leaving g) wk ((task c)(g := Sched (ctx c g)))"
    by (rule tasks_ok_move [OF tk, of g]) (use I in auto)
  moreover have "lk_holder (Leaving g) wk = lk_holder (At 4 g) wk" by (simp add: lk_holder_def)
  ultimately show "sw_inv p ch lk ie (Leaving g) wk
       (c\<lparr>sys := on_hart g (sys c), task := (task c)(g := Sched (ctx c g)), parked := Some (resume_code p ch lk ie)\<rparr>)"
    using I own by (simp add: sw_inv_def)
qed

lemma step_leave:
  assumes inv: "sw_inv p ch lk ie pl wk c" and T: "task c g = Thread (f # fs)" and f: "f (on_hart g (sys c)) = Swtch t k"
  shows "sw_inv p ch lk ie (Leaving g) wk (c\<lparr>sys := t, task := (task c)(g := Sched (ctx c g)), parked := Some (k # fs)\<rparr>)"
proof -
  note I = inv [unfolded sw_inv_def]
  have tk: "tasks_ok p ch lk ie pl wk (task c)" and p: "proc_at p ch ie pl (sys c)" using I by blast+
  note w = thread_place [OF tk T]
  have pl: "pl = At 4 g" using thread_swtch [OF w(2) f p] w(1) by auto
  then have "f = sched" "fs = drop 5 (sleep_code p ch lk)" using w(2) by (auto simp: sleep_code_def)
  then show ?thesis using sw_inv_leave [OF inv [unfolded pl]] f by (simp add: resume_code_def)
qed

lemma set_cproc_on_hart: "set_cproc x (on_hart g s) = on_hart g (s\<lparr>cpus := (cpus s)(g := (cpus s g)\<lparr>cproc := x\<rparr>)\<rparr>)"
  by (simp add: set_cproc_def set_mycpu_def on_hart_def mycpu_def cpuid_def)

lemma owners_cproc: "owners p lk po lo (s\<lparr>cpus := (cpus s)(g := (cpus s g)\<lparr>cproc := x\<rparr>)\<rparr>) = owners p lk po lo s"
proof -
  have "cpu_ok (((cpus s)(g := (cpus s g)\<lparr>cproc := x\<rparr>)) k) = cpu_ok (cpus s k)" "noff (((cpus s)(g := (cpus s g)\<lparr>cproc := x\<rparr>)) k) = noff (cpus s k)" for k
    by (simp_all add: cpu_ok_def)
  then show ?thesis by (simp add: owners_def del: fun_upd_apply)
qed

lemma other_ok_Idle [simp]: "other_ok ch lk 0 Idle"
  by (simp add: other_ok_def)

lemma tasks_ok_gone:
  "tasks_ok p ch lk ie pl wk T \<Longrightarrow> where_run pl = Some g \<Longrightarrow> tasks_ok p ch lk ie Parked wk (T(g := Idle))"
  by (auto simp: tasks_ok_def)

lemma step_sched:
  assumes inv: "sw_inv p ch lk ie pl wk c" and ne: "\<forall>q. lk \<noteq> LkProc q" and T: "task c g = Sched k"
  shows "\<exists>t. k (on_hart g (sys c)) = Ok () t \<and> sw_inv p ch lk ie Parked wk (c\<lparr>sys := t, task := (task c)(g := Idle)\<rparr>)"
proof -
  note I = inv [unfolded sw_inv_def]
  have tk: "tasks_ok p ch lk ie pl wk (task c)" using I by blast
  have w: "where_run pl = Some g" using tasks_ok_other [OF tk, of g] T other_task_Thread(2) by metis
  have pl: "pl = Leaving g" and k: "k = sched_tail p" using tasks_ok_at [OF tk w] T w by (cases pl; simp)+
  let ?s = "(sys c)\<lparr>cpus := (cpus (sys c))(g := (cpus (sys c) g)\<lparr>cproc := None\<rparr>)\<rparr>"
  have own: "owners p lk (Some g) (map_option fst wk) ?s" using I pl by (simp add: owners_cproc lk_holder_def)
  from owners_release(1) [OF this ne] obtain t where t: "release (LkProc p) (on_hart g ?s) = Ok () t"
    "owners p lk None (map_option fst wk) t" "same_but g ?s t" by auto
  have "cproc (cpus t h) = (if h = g then None else cproc (cpus (sys c) h))" for h using same_but_proc(2) [OF t(3)] by simp
  then have "sw_inv p ch lk ie Parked wk (c\<lparr>sys := t, task := (task c)(g := Idle)\<rparr>)"
    using I pl t(2) same_but_proc(1) [OF t(3)] tasks_ok_gone [OF tk w] by (simp add: sw_inv_def lk_holder_def)
  then show ?thesis using t(1) by (simp add: k sched_tail_def set_cproc_on_hart)
qed

text \<open>A step of a hart that is not where the process is.\<close>

lemma sw_inv_other:
  assumes inv: "sw_inv p ch lk ie pl wk c" and o: "owners p lk (p_owner pl) (lk_holder pl wk) t" and g: "where_run pl \<noteq> Some g"
    and b: "\<And>k. k \<noteq> g \<Longrightarrow> cpus t k = cpus (sys c) k" "cproc (cpus t g) = cproc (cpus (sys c) g)" "ptab t p = ptab (sys c) p"
  shows "sw_inv p ch lk ie pl wk (c\<lparr>sys := t\<rparr>)"
proof -
  note I = inv [unfolded sw_inv_def]
  have "cproc (cpus t k) = cproc (cpus (sys c) k)" for k using b by (cases "k = g") auto
  moreover have "proc_at p ch ie pl t = proc_at p ch ie pl (sys c)" using g b by (cases pl) auto
  moreover have "awake_at p pl t = awake_at p pl (sys c)" using b(3) by (cases pl) auto
  ultimately show ?thesis using I o by (simp add: sw_inv_def)
qed

lemma idle_hart:
  assumes inv: "sw_inv p ch lk ie pl wk c" and T: "task c g = Idle" and n: "cproc (cpus (sys c) g) = None"
  shows "idle (on_hart g (sys c))" "where_run pl \<noteq> Some g"
proof -
  note I = inv [unfolded sw_inv_def]
  have tk: "tasks_ok p ch lk ie pl wk (task c)" and own: "owners p lk (p_owner pl) (lk_holder pl wk) (sys c)"
    and wk: "\<forall>k j. wk = Some (k, j) \<longrightarrow> 0 < j" and cp: "\<forall>g. cproc (cpus (sys c) g) = Some p \<longleftrightarrow> where_run pl = Some g" using I by blast+
  show w: "where_run pl \<noteq> Some g" using cp n by (metis option.distinct(1))
  then have "p_owner pl \<noteq> Some g" "lk_owner pl \<noteq> Some g" by (cases pl; simp)+
  moreover have "lk_holder pl wk \<noteq> Some g" by (rule holder_other [OF not_waker [OF tk] _ wk]) (use T calculation in auto)
  ultimately show "idle (on_hart g (sys c))" using own n by (auto simp: idle_def owners_def)
qed

lemma sched_slot_busy: "acquire (LkProc p) s = Spin \<Longrightarrow> sched_slot p s = Spin"
  by (simp add: sched_slot_def)

lemma p_free_or_busy:
  assumes "owners p lk po lo s" "po \<noteq> Some g"
  shows "po = None \<and> lock_free (LkProc p) s \<or> po \<noteq> None \<and> sched_slot p (on_hart g s) = Spin"
proof (cases po)
  case None
  then show ?thesis using assms(1) by (simp add: owners_def lock_is_def lock_free_def)
next
  case (Some k)
  then have "acquire (LkProc p) (on_hart g s) = Spin" using assms by (intro acquire_other_spins) (auto simp: owners_def lock_is_def)
  then show ?thesis using Some by (simp add: sched_slot_busy)
qed

lemma step_pass:
  fixes c :: "'a procs_scheme conf"
  assumes inv: "sw_inv p ch lk ie pl wk c" and T: "task c g = Idle" and n: "cproc (cpus (sys c) g) = None"
    and t: "sched_slot p (on_hart g (sys c)) = Ok () t"
  shows "sw_inv p ch lk ie pl wk (c\<lparr>sys := t\<rparr>)"
proof -
  note I = inv [unfolded sw_inv_def]
  note id = idle_hart [OF inv T n]
  have own: "owners p lk (p_owner pl) (lk_holder pl wk) (sys c)" using I by blast
  have "p_owner pl \<noteq> Some g" using id(2) by (cases pl) auto
  from p_free_or_busy [OF own this] t have f: "lock_free (LkProc p) (on_hart g (sys c))" by auto
  have "state (ptab (sys c) p) \<noteq> RUNNABLE" using sched_slot_run [OF id(1) f] t by auto
  then have t': "t = settle (on_hart g (sys c))" using sched_slot_skip [OF id(1) f] t by simp
  have c: "cpus t = (cpus (sys c))(g := settle_cpu (cpus (sys c) g))" "locks t = locks (sys c)" "ptab t = ptab (sys c)"
    by (simp_all add: t' settle_def set_mycpu_def)
  have "owners p lk (p_owner pl) (lk_holder pl wk) t" using own by (auto simp: owners_def c)
  then show ?thesis by (rule sw_inv_other [OF inv _ id(2)]) (simp_all add: c)
qed

lemma tasks_ok_pick:
  "tasks_ok p ch lk ie Parked wk T \<Longrightarrow> T g = Idle \<Longrightarrow> where_run pl = Some g \<Longrightarrow> tasks_ok p ch lk ie pl wk (T(g := task_at p ch lk ie pl))"
  using not_waker [of p ch lk ie Parked wk T g] by (auto simp: tasks_ok_def)

lemma step_pick:
  fixes c :: "'a procs_scheme conf"
  assumes inv: "sw_inv p ch lk ie pl wk c" and ne: "\<forall>q. lk \<noteq> LkProc q" and T: "task c g = Idle" and n: "cproc (cpus (sys c) g) = None"
    and fs: "parked c = Some fs" and t: "sched_slot p (on_hart g (sys c)) = Swtch t k"
  shows "sw_inv p ch lk ie (Back 4 g) wk (c\<lparr>sys := t, task := (task c)(g := Thread fs), ctx := (ctx c)(g := k), parked := None\<rparr>)"
proof -
  note I = inv [unfolded sw_inv_def]
  note id = idle_hart [OF inv T n]
  let ?s = "sys c"
  have own: "owners p lk (p_owner pl) (lk_holder pl wk) ?s" and tk: "tasks_ok p ch lk ie pl wk (task c)" using I by blast+
  have po: "p_owner pl \<noteq> Some g" using id(2) by (cases pl) auto
  from p_free_or_busy [OF own po] t have f: "lock_free (LkProc p) (on_hart g ?s)" "p_owner pl = None" by auto
  have pl: "pl = Parked" using I fs f(2) by (auto split: if_splits)
  have fs': "fs = resume_code p ch lk ie" using I fs pl by simp
  have r: "state (ptab ?s p) = RUNNABLE" using sched_slot_skip [OF id(1) f(1)] t by auto
  let ?u = "upd_proc p (state_update (\<lambda>_. RUNNING)) ?s"
  have u: "upd_proc p (state_update (\<lambda>_. RUNNING)) (on_hart g ?s) = on_hart g ?u" by (simp add: upd_proc_def on_hart_def)
  have e: "t = set_cproc (Some p) (enter_cs (LkProc p) (on_hart g ?u))" and k: "k = sched_tail p"
    using sched_slot_run [OF id(1) f(1)] r t by (simp_all add: u sched_tail_def)
  let ?v = "enter_cs (LkProc p) (on_hart g ?u)"
  have "acquire (LkProc p) (on_hart g ?u) = Ok () ?v" using f(1) by simp
  from owners_acquire(1) [OF _ ne this, of None "map_option fst wk"] own pl
  have v: "owners p lk (Some g) (map_option fst wk) ?v" "same_but g ?u ?v" by (simp_all add: lk_holder_def)
  have "?v = on_hart g ?v" by (simp add: on_hart_def enter_cs_def push_off_def set_mycpu_def)
  then have t': "t = on_hart g (?v\<lparr>cpus := (cpus ?v)(g := (cpus ?v g)\<lparr>cproc := Some p\<rparr>)\<rparr>)" using e set_cproc_on_hart by metis
  have o: "owners p lk (Some g) (map_option fst wk) t" using v(1) by (simp add: t' owners_cproc)
  have c: "cproc (cpus t h) = (if h = g then Some p else cproc (cpus ?s h))" for h
    using v(2) by (simp add: t' same_but_def upd_proc_def)
  have "state (ptab t p) = RUNNING" using same_but_proc(1) [OF v(2)] by (simp add: t')
  then show ?thesis
    using I o c pl k fs' tasks_ok_pick [OF tk [unfolded pl] T, of "Back 4 g"] by (simp add: sw_inv_def lk_holder_def)
qed

section \<open>Wakers\<close>

lemma waker_code_nth:
  "length (waker_code f ch lk) = NPROC + 3" "waker_code f ch lk ! 0 = acquire lk" "waker_code f ch lk ! Suc 0 = (\<lambda>s. Ok () (f s))"
  "i < NPROC \<Longrightarrow> waker_code f ch lk ! (i + 2) = wake_slot (Some ch) i" "waker_code f ch lk ! (NPROC + 2) = release lk"
  by (simp_all add: waker_code_def nth_append)

lemma waker_task:
  assumes tk: "tasks_ok p ch lk ie pl wk T" and T: "T g = Waker (s # ss)"
  obtains f where "harmless f" "where_run pl \<noteq> Some g" "pos wk g < NPROC + 3" "s = waker_code f ch lk ! pos wk g"
    "ss = drop (Suc (pos wk g)) (waker_code f ch lk)"
proof -
  have w: "where_run pl \<noteq> Some g" using tasks_ok_at [OF tk, of g] T task_at_Waker by metis
  from tasks_ok_other [OF tk w] T obtain f where f: "harmless f" "drop (pos wk g) (waker_code f ch lk) = s # ss"
    by (auto simp: other_ok_def)
  then have l: "pos wk g < length (waker_code f ch lk)" by (metis drop_all leI list.distinct(1))
  then have "s = waker_code f ch lk ! pos wk g" "ss = drop (Suc (pos wk g)) (waker_code f ch lk)"
    using f(2) Cons_nth_drop_Suc [OF l] by simp_all
  then show ?thesis using that f(1) w l waker_code_nth(1) by metis
qed

lemma tasks_ok_waker:
  assumes "tasks_ok p ch lk ie pl wk T" "where_run pl \<noteq> Some g" "\<And>k. k \<noteq> g \<Longrightarrow> pos wk' k = pos wk k" "other_ok ch lk (pos wk' g) tk"
  shows "tasks_ok p ch lk ie pl wk' (T(g := tk))"
  using assms by (auto simp: tasks_ok_def)

text \<open>The waker at its first, second and last statement and in \<^verbatim>\<open>wakeup\<close>.\<close>

lemma sw_inv_waker:
  assumes inv: "sw_inv p ch lk ie pl wk c" and w: "where_run pl \<noteq> Some g" and o: "owners p lk (p_owner pl) (lk_holder pl wk') t"
    and n: "lk_owner pl = None" "\<And>k. k \<noteq> g \<Longrightarrow> pos wk' k = pos wk k" "\<forall>k j. wk' = Some (k, j) \<longrightarrow> 0 < j \<and> j < NPROC + 3"
    and b: "\<And>k. k \<noteq> g \<Longrightarrow> cpus t k = cpus (sys c) k" "cproc (cpus t g) = cproc (cpus (sys c) g)"
    and p: "proc_at p ch ie pl t" "awake_at p pl (sys c) \<Longrightarrow> awake_at p pl t"
    and a: "p + 2 < pos wk' g \<or> 0 < z \<Longrightarrow> 0 < wakes c \<or> p + 2 < pos wk g \<or> awake_at p pl t"
    and tk: "other_ok ch lk (pos wk' g) tk"
  shows "sw_inv p ch lk ie pl wk' (c\<lparr>sys := t, task := (task c)(g := tk), wakes := z\<rparr>)"
proof -
  note I = inv [unfolded sw_inv_def]
  have tasks: "tasks_ok p ch lk ie pl wk' ((task c)(g := tk))" by (rule tasks_ok_waker [where wk = wk]) (use I w n tk in auto)
  have cp: "cproc (cpus t k) = cproc (cpus (sys c) k)" for k using b by (cases "k = g") auto
  have aw: "0 < wakes c \<or> (\<exists>k. p + 2 < pos wk k) \<longrightarrow> awake_at p pl (sys c)" using I by blast
  have "awake_at p pl t" if z: "0 < z \<or> (\<exists>k. p + 2 < pos wk' k)"
  proof (cases "0 < z \<or> p + 2 < pos wk' g")
    case True
    then show ?thesis using a aw p(2) by blast
  next
    case False
    then obtain k where "p + 2 < pos wk' k" "k \<noteq> g" using z by metis
    then show ?thesis using n(2) aw p(2) by auto
  qed
  then show ?thesis using I o n p(1) cp tasks by (simp add: sw_inv_def)
qed

lemma pos_Some [simp]: "pos (Some (g, j)) k = (if g = k then j else 0)" "pos None k = 0"
  by (simp_all add: pos_def)

lemma pos_pos: "0 < pos wk g \<Longrightarrow> wk = Some (g, pos wk g)"
  by (auto simp: pos_def split: option.splits if_splits)

lemma proc_at_frame:
  "where_run pl \<noteq> Some g \<Longrightarrow> (\<And>k. k \<noteq> g \<Longrightarrow> cpus t k = cpus s k) \<Longrightarrow> ptab t p = ptab s p \<Longrightarrow>
    proc_at p ch ie pl t = proc_at p ch ie pl s \<and> awake_at p pl t = awake_at p pl s"
  by (cases pl) auto

lemma step_wake_first:
  assumes inv: "sw_inv p ch lk ie pl wk c" and ne: "\<forall>q. lk \<noteq> LkProc q" and w: "where_run pl \<noteq> Some g" and f: "harmless f" and j: "pos wk g = 0"
    and t: "acquire lk (on_hart g (sys c)) = Ok () t"
  shows "sw_inv p ch lk ie pl (Some (g, 1)) (c\<lparr>sys := t, task := (task c)(g := Waker (drop 1 (waker_code f ch lk)))\<rparr>)"
proof -
  note I = inv [unfolded sw_inv_def]
  have own: "owners p lk (p_owner pl) (lk_holder pl wk) (sys c)" and pr: "proc_at p ch ie pl (sys c)" using I by blast+
  have A: "lk_holder pl wk = None" "owners p lk (p_owner pl) (Some g) t" "same_but g (sys c) t"
    using owners_acquire(2) [OF own ne t] by blast+
  then have n: "lk_owner pl = None" "wk = None" by (auto simp: lk_holder_def split: option.splits)
  have b: "\<And>k. k \<noteq> g \<Longrightarrow> cpus t k = cpus (sys c) k" "cproc (cpus t g) = cproc (cpus (sys c) g)" "ptab t p = ptab (sys c) p"
    using A(3) by (simp_all add: same_but_def)
  note F = proc_at_frame [OF w b(1,3)]
  have o: "owners p lk (p_owner pl) (lk_holder pl (Some (g, 1))) t" using A(2) n by (simp add: lk_holder_def)
  have "other_ok ch lk 1 (Waker (drop 1 (waker_code f ch lk)))" using f by (auto simp: other_ok_def)
  then have "sw_inv p ch lk ie pl (Some (g, 1)) (c\<lparr>sys := t, task := (task c)(g := Waker (drop 1 (waker_code f ch lk))), wakes := wakes c\<rparr>)"
    using n b F pr by (intro sw_inv_waker [OF inv w o]) auto
  then show ?thesis by simp
qed

lemma step_wake_update:
  assumes inv: "sw_inv p ch lk ie pl (Some (g, 1)) c" and w: "where_run pl \<noteq> Some g" and f: "harmless f"
  shows "sw_inv p ch lk ie pl (Some (g, 2)) (c\<lparr>sys := f (on_hart g (sys c)), task := (task c)(g := Waker (drop 2 (waker_code f ch lk)))\<rparr>)"
proof -
  note I = inv [unfolded sw_inv_def]
  let ?t = "f (on_hart g (sys c))"
  have n: "lk_owner pl = None" and own: "owners p lk (p_owner pl) (lk_holder pl (Some (g, 1))) (sys c)"
    and pr: "proc_at p ch ie pl (sys c)" using I by blast+
  have h: "cpus ?t = cpus (sys c)" "locks ?t = locks (sys c)" "ptab ?t = ptab (sys c)" using f by (simp_all add: harmless_def)
  have o: "owners p lk (p_owner pl) (lk_holder pl (Some (g, 2))) ?t" using own n by (simp add: owners_def h lk_holder_def)
  have F: "proc_at p ch ie pl ?t = proc_at p ch ie pl (sys c) \<and> awake_at p pl ?t = awake_at p pl (sys c)"
    by (rule proc_at_frame [OF w]) (simp_all add: h)
  have "other_ok ch lk 2 (Waker (drop 2 (waker_code f ch lk)))" using f by (auto simp: other_ok_def)
  then have "sw_inv p ch lk ie pl (Some (g, 2)) (c\<lparr>sys := ?t, task := (task c)(g := Waker (drop 2 (waker_code f ch lk))), wakes := wakes c\<rparr>)"
    using n h F pr by (intro sw_inv_waker [OF inv w o]) (auto simp: NPROC_def)
  then show ?thesis by simp
qed

lemma step_wake_slot:
  assumes inv: "sw_inv p ch lk ie pl (Some (g, q + 2)) c" and w: "where_run pl \<noteq> Some g" and f: "harmless f" and q: "q < NPROC"
    and t: "wake_slot (Some ch) q (on_hart g (sys c)) = Ok () t"
  shows "sw_inv p ch lk ie pl (Some (g, q + 3)) (c\<lparr>sys := t, task := (task c)(g := Waker (drop (q + 3) (waker_code f ch lk)))\<rparr>)"
proof -
  note I = inv [unfolded sw_inv_def]
  let ?T = "woken (Some ch) (cproc (cpus (sys c) g)) {q} (ptab (sys c))"
  have n: "lk_owner pl = None" and lo: "owners p lk (p_owner pl) (lk_holder pl (Some (g, q + 2))) (sys c)"
    and pr: "proc_at p ch ie pl (sys c)" and cp: "cproc (cpus (sys c) g) \<noteq> Some p" using I w by blast+
  have own: "owners p lk (p_owner pl) (Some g) (sys c)" using lo n by (simp add: lk_holder_def)
  have po: "p_owner pl \<noteq> Some g" using w by (cases pl) auto
  note W = wake_slot_step [OF own cp po, of ch q, unfolded t]
  have t': "t = on_hart g ((sys c)\<lparr>ptab := ?T\<rparr>)" and free: "q = p \<longrightarrow> p_owner pl = None" using W by (auto split: if_splits)
  have o: "owners p lk (p_owner pl) (lk_holder pl (Some (g, q + 3))) t" using own n by (simp add: t' owners_def lk_holder_def)
  have c: "cpus t = cpus (sys c)" "ptab t = ?T" by (simp_all add: t')
  have p: "proc_at p ch ie pl t" using pr cp free by (cases pl) (auto simp: c woken_def)
  have aw: "awake_at p pl t" if "awake_at p pl (sys c)" using that by (cases pl) (auto simp: c woken_def)
  have a: "awake_at p pl t" if "q = p" using pr n free that cp by (cases pl) (auto simp: c woken_def split: if_splits)
  have "other_ok ch lk (q + 3) (Waker (drop (q + 3) (waker_code f ch lk)))" using f by (auto simp: other_ok_def)
  then have "sw_inv p ch lk ie pl (Some (g, q + 3)) (c\<lparr>sys := t, task := (task c)(g := Waker (drop (q + 3) (waker_code f ch lk))), wakes := wakes c\<rparr>)"
    using q c p aw a by (intro sw_inv_waker [OF inv w o n]) (auto simp: less_Suc_eq)
  then show ?thesis by simp
qed

lemma step_wake_last:
  assumes inv: "sw_inv p ch lk ie pl (Some (g, NPROC + 2)) c" and ne: "\<forall>q. lk \<noteq> LkProc q" and w: "where_run pl \<noteq> Some g" and p: "p < NPROC"
  shows "\<exists>t. release lk (on_hart g (sys c)) = Ok () t \<and>
    sw_inv p ch lk ie pl None (c\<lparr>sys := t, task := (task c)(g := Idle), wakes := Suc (wakes c)\<rparr>)"
proof -
  note I = inv [unfolded sw_inv_def]
  have n: "lk_owner pl = None" and lo: "owners p lk (p_owner pl) (lk_holder pl (Some (g, NPROC + 2))) (sys c)"
    and pr: "proc_at p ch ie pl (sys c)" using I by blast+
  have own: "owners p lk (p_owner pl) (Some g) (sys c)" using lo n by (simp add: lk_holder_def)
  from owners_release(2) [OF own ne] obtain t where t: "release lk (on_hart g (sys c)) = Ok () t" "owners p lk (p_owner pl) None t" "same_but g (sys c) t"
    by blast
  have b: "\<And>k. k \<noteq> g \<Longrightarrow> cpus t k = cpus (sys c) k" "cproc (cpus t g) = cproc (cpus (sys c) g)" "ptab t p = ptab (sys c) p"
    using t(3) by (simp_all add: same_but_def)
  note F = proc_at_frame [OF w b(1,3)]
  have o: "owners p lk (p_owner pl) (lk_holder pl None) t" using t(2) n by (simp add: lk_holder_def)
  have "sw_inv p ch lk ie pl None (c\<lparr>sys := t, task := (task c)(g := Idle), wakes := Suc (wakes c)\<rparr>)"
    using n b F pr p by (intro sw_inv_waker [OF inv w o]) auto
  then show ?thesis using t(1) by blast
qed

lemma step_wake:
  assumes inv: "sw_inv p ch lk ie pl wk c" and ne: "\<forall>q. lk \<noteq> LkProc q" and p: "p < NPROC" and T: "task c g = Waker (s # ss)"
    and t: "s (on_hart g (sys c)) = Ok () t"
  shows "ss \<noteq> [] \<Longrightarrow> \<exists>wk'. sw_inv p ch lk ie pl wk' (c\<lparr>sys := t, task := (task c)(g := Waker ss)\<rparr>)"
    "ss = [] \<Longrightarrow> \<exists>wk'. sw_inv p ch lk ie pl wk' (c\<lparr>sys := t, task := (task c)(g := Idle), wakes := Suc (wakes c)\<rparr>)"
proof -
  note I = inv [unfolded sw_inv_def]
  have tk: "tasks_ok p ch lk ie pl wk (task c)" using I by blast
  define j where "j = pos wk g"
  obtain f where f: "harmless f" and w: "where_run pl \<noteq> Some g" and j: "j < NPROC + 3" and s: "s = waker_code f ch lk ! j"
      and ss: "ss = drop (Suc j) (waker_code f ch lk)" using waker_task [OF tk T] unfolding j_def by blast
  have wk: "wk = Some (g, j)" if "0 < j" using pos_pos [of wk g] that by (simp add: j_def)
  have l: "ss = [] \<longleftrightarrow> j = NPROC + 2" using j by (auto simp: ss waker_code_nth)
  show "\<exists>wk'. sw_inv p ch lk ie pl wk' (c\<lparr>sys := t, task := (task c)(g := Waker ss)\<rparr>)" if "ss \<noteq> []"
  proof -
    have jn: "j < NPROC + 2" using l that j by linarith
    have "j = (j - 2) + 2 \<and> j - 2 < NPROC" if "2 \<le> j" using jn that by linarith
    then consider "j = 0" | "j = 1" | q where "j = q + 2" "q < NPROC" by (cases "j = 0"; cases "j = 1") fastforce+
    then show ?thesis
    proof cases
      case 1
      then show ?thesis using step_wake_first [OF inv ne w f, of t] t s ss j_def by (auto simp: waker_code_nth)
    next
      case 2
      then show ?thesis using step_wake_update [of p ch lk ie pl g c f] inv w f wk t s ss by (auto simp: waker_code_nth numeral_2_eq_2)
    next
      case 3
      then have "sw_inv p ch lk ie pl (Some (g, q + 2)) c" using inv wk by simp
      moreover have "s = wake_slot (Some ch) q" using s 3 waker_code_nth(4) [OF 3(2), of f ch lk] by simp
      ultimately show ?thesis using step_wake_slot [of p ch lk ie pl g q c f t] w f 3 t ss by (auto simp: numeral_3_eq_3)
    qed
  qed
  show "\<exists>wk'. sw_inv p ch lk ie pl wk' (c\<lparr>sys := t, task := (task c)(g := Idle), wakes := Suc (wakes c)\<rparr>)" if "ss = []"
  proof -
    have "j = NPROC + 2" using l that by simp
    then show ?thesis using step_wake_last [of p ch lk ie pl g c] inv wk ne w p t s waker_code_nth(5) [of f ch lk] by auto
  qed
qed

lemma step_again:
  assumes inv: "sw_inv p ch lk ie pl wk c" and T: "task c g = Thread []"
  shows "sw_inv p ch lk ie (At 0 g) wk (c\<lparr>task := (task c)(g := Thread (sleep_code p ch lk)), wakes := 0\<rparr>)" "pl = Back 8 g"
proof -
  note I = inv [unfolded sw_inv_def]
  have tk: "tasks_ok p ch lk ie pl wk (task c)" and pr: "proc_at p ch ie pl (sys c)" using I by blast+
  note w = thread_place [OF tk T]
  show pl: "pl = Back 8 g"
  proof (cases pl)
    case (At i h)
    then show ?thesis using w pr by (auto simp: sleep_code_def)
  next
    case (Back i h)
    then show ?thesis using w pr by (auto simp: sleep_code_def resume_code_def split: if_splits)
  qed (use w in auto)
  have "tasks_ok p ch lk ie (At 0 g) wk ((task c)(g := Thread (sleep_code p ch lk)))"
    by (rule tasks_ok_move [OF tk w(1)]) auto
  then show "sw_inv p ch lk ie (At 0 g) wk (c\<lparr>task := (task c)(g := Thread (sleep_code p ch lk)), wakes := 0\<rparr>)"
    using I pl by (simp add: sw_inv_def lk_holder_def)
qed

lemma step_event:
  assumes inv: "sw_inv p ch lk ie pl wk c" and T: "task c g = Idle" and f: "harmless f"
  shows "sw_inv p ch lk ie pl wk (c\<lparr>task := (task c)(g := Waker (waker_code f ch lk))\<rparr>)"
proof -
  note I = inv [unfolded sw_inv_def]
  have tk: "tasks_ok p ch lk ie pl wk (task c)" using I by blast
  have j: "pos wk g = 0" by (rule not_waker [OF tk]) (simp add: T)
  have "other_ok ch lk 0 (Waker (waker_code f ch lk))" using f by (auto simp: other_ok_def)
  then have "tasks_ok p ch lk ie pl wk ((task c)(g := Waker (waker_code f ch lk)))" if "where_run pl \<noteq> Some g"
    using tasks_ok_waker [OF tk that, of wk] j by simp
  moreover have "where_run pl \<noteq> Some g"
  proof
    assume w: "where_run pl = Some g"
    then have "task_at p ch lk ie pl = (Idle :: 'a procs_scheme task)" using tasks_ok_at [OF tk w] T by simp
    then show False using w by (cases pl) auto
  qed
  ultimately show ?thesis using I by (simp add: sw_inv_def)
qed

section \<open>No statement panics\<close>

lemma thread_no_panic:
  assumes inv: "sw_inv p ch lk ie pl wk c" and ne: "\<forall>q. lk \<noteq> LkProc q" and T: "task c g = Thread (f # fs)"
  shows "f (on_hart g (sys c)) \<noteq> Panic m"
proof -
  note I = inv [unfolded sw_inv_def]
  have own: "owners p lk (p_owner pl) (lk_holder pl wk) (sys c)" and pr: "proc_at p ch ie pl (sys c)"
    and tk: "tasks_ok p ch lk ie pl wk (task c)" and wk: "\<forall>k j. wk = Some (k, j) \<longrightarrow> 0 < j" using I by blast+
  note w = thread_place [OF tk T]
  have j: "pos wk g = 0" by (rule not_waker [OF tk]) (simp add: w)
  note N = owners_no_panic [OF own] and R = owners_release [OF own ne]
  show ?thesis
  proof (cases pl)
    case (At i h)
    then have [simp]: "h = g" using w(1) by simp
    consider "i = 0" | "i = 1" | "i = 2 \<or> i = 3" | "i = 4" using At pr by fastforce
    then show ?thesis
    proof cases
      case 1
      then show ?thesis using N(1) [of g m] w(2) At by (auto simp: sleep_code_def)
    next
      case 2
      then show ?thesis using R(2) [of g] w(2) At by (auto simp: sleep_code_def lk_holder_def)
    next
      case 3
      then show ?thesis using w(2) At by (auto simp: sleep_code_def)
    next
      case 4
      then show ?thesis using sw_inv_leave(1) [of p ch lk ie g wk c] inv w(2) At by (auto simp: sleep_code_def)
    qed
  next
    case (Back i h)
    then have [simp]: "h = g" using w(1) by simp
    have lo: "lk_holder pl wk \<noteq> Some g" if "i = 7" by (rule holder_other [OF j _ wk]) (simp add: Back that)
    consider "i = 4" | "i = 5" | "i = 6" | "i = 7" | "i = 8" using Back pr by fastforce
    then show ?thesis
    proof cases
      case 3
      then show ?thesis using R(1) [of g] w(2) Back by (auto simp: sleep_code_def)
    next
      case 4
      then show ?thesis using N(2) [of g m] lo w(2) Back by (auto simp: sleep_code_def)
    qed (use w(2) Back in \<open>auto simp: sleep_code_def resume_code_def restore_def\<close>)
  qed (use w in auto)
qed

lemma waker_no_panic:
  assumes inv: "sw_inv p ch lk ie pl wk c" and ne: "\<forall>q. lk \<noteq> LkProc q" and T: "task c g = Waker (s # ss)"
  shows "s (on_hart g (sys c)) \<noteq> Panic m"
proof -
  note I = inv [unfolded sw_inv_def]
  have own: "owners p lk (p_owner pl) (lk_holder pl wk) (sys c)" and tk: "tasks_ok p ch lk ie pl wk (task c)"
    and wk: "\<forall>k j. wk = Some (k, j) \<longrightarrow> 0 < j" and n: "lk_owner pl \<noteq> None \<longrightarrow> wk = None"
    and cps: "\<forall>g. cproc (cpus (sys c) g) = Some p \<longleftrightarrow> where_run pl = Some g" using I by blast+
  define j where "j = pos wk g"
  obtain f where f: "harmless f" and w: "where_run pl \<noteq> Some g" and j: "j < NPROC + 3" and s: "s = waker_code f ch lk ! j"
    using waker_task [OF tk T] unfolding j_def by blast
  have po: "p_owner pl \<noteq> Some g" "lk_owner pl \<noteq> Some g" using w by (cases pl; auto)+
  show ?thesis
  proof (cases "j = 0")
    case True
    then have "lk_holder pl wk \<noteq> Some g" using holder_other [OF _ po(2) wk] j_def by simp
    then show ?thesis using owners_no_panic(2) [OF own] s True by (simp add: waker_code_nth)
  next
    case False
    then have "wk = Some (g, j)" using pos_pos [of wk g] by (simp add: j_def)
    then have lo: "owners p lk (p_owner pl) (Some g) (sys c)" using own n by (auto simp: lk_holder_def split: option.splits)
    have cp: "cproc (cpus (sys c) g) \<noteq> Some p" using cps w by blast
    have "j = Suc 0 \<or> (\<exists>q<NPROC. j = q + 2) \<or> j = NPROC + 2" using False j by presburger
    then show ?thesis
      using wake_slot_step [OF lo cp po(1), of ch] owners_release(2) [OF lo ne refl] waker_code_nth(3) [of f ch lk] waker_code_nth(4) [of _ f ch lk] waker_code_nth(5) [of f ch lk] s
      by (elim disjE exE conjE) (auto split: if_splits)
  qed
qed

lemma sched_slot_no_panic:
  fixes c :: "'a procs_scheme conf"
  assumes inv: "sw_inv p ch lk ie pl wk c" and T: "task c g = Idle" and n: "cproc (cpus (sys c) g) = None"
  shows "sched_slot p (on_hart g (sys c)) \<noteq> Panic m"
proof -
  note I = inv [unfolded sw_inv_def]
  note id = idle_hart [OF inv T n]
  have own: "owners p lk (p_owner pl) (lk_holder pl wk) (sys c)" using I by blast
  have "p_owner pl \<noteq> Some g" using id(2) by (cases pl) auto
  from p_free_or_busy [OF own this] show ?thesis
    using sched_slot_run [OF id(1)] sched_slot_skip [OF id(1)] by (cases "state (ptab (sys c) p) = RUNNABLE") auto
qed

section \<open>The main result\<close>

lemma sw_inv_step:
  assumes inv: "sw_inv p ch lk ie pl wk c" and ne: "\<forall>q. lk \<noteq> LkProc q" and p: "p < NPROC" and st: "sw_step p ch lk c d"
  shows "\<exists>pl' wk'. sw_inv p ch lk ie pl' wk' d"
  using st
proof cases
  case (thread g f fs t)
  have "tasks_ok p ch lk ie pl wk (task c)" using inv by (simp add: sw_inv_def)
  note w = thread_place [OF this thread(2)]
  then consider i where "pl = At i g" | i where "pl = Back i g" by (cases pl) auto
  then show ?thesis
  proof cases
    case 1
    then show ?thesis using step_thread_At [OF inv [unfolded 1] ne, of f fs t] w(2) thread by auto
  next
    case 2
    then show ?thesis using step_thread_Back [OF inv [unfolded 2] ne, of f fs t] w(2) thread by auto
  qed
next
  case (leave g f fs t k)
  then show ?thesis using step_leave [OF inv] by blast
next
  case (sched g k t)
  then show ?thesis using step_sched [OF inv ne sched(2)] by auto
next
  case (pick g fs t k)
  then show ?thesis using step_pick [OF inv ne] by blast
next
  case (pass g t)
  then show ?thesis using step_pass [OF inv] by blast
next
  case (event g f)
  then show ?thesis using step_event [OF inv] by blast
next
  case (wake g f fs t)
  then show ?thesis using step_wake(1) [OF inv ne p] by blast
next
  case (woke g f t)
  then show ?thesis using step_wake(2) [OF inv ne p] by blast
next
  case (again g)
  then show ?thesis using step_again(1) [OF inv] by blast
next
  case (panic g f fs m)
  then show ?thesis
    using thread_no_panic [OF inv ne] waker_no_panic [OF inv ne] step_sched [OF inv ne] sched_slot_no_panic [OF inv] by fastforce
qed

lemma sw_inv_start:
  assumes "sleep_called p ch lk h c"
  shows "sw_inv p ch lk (intena (cpus (sys c) h)) (At 0 h) None c"
proof -
  note S = assms [unfolded sleep_called_def]
  obtain v t where "idle v" "lock_free (LkProc p) v" "state (ptab v p) = RUNNABLE" "sched_slot p v = Swtch t (ctx c h)" using S by blast
  then have x: "ctx c h = sched_tail p" by (simp add: sched_slot_run sched_tail_def)
  have "owners p lk None (Some h) (sys c)"
    using S by (auto simp: owners_def lock_is_def lock_free_def holding_def)
  moreover have "tasks_ok p ch lk (intena (cpus (sys c) h)) (At 0 h) None (task c)" using S by (simp add: tasks_ok_def)
  moreover have "\<forall>g. cproc (cpus (sys c) g) = Some p \<longleftrightarrow> h = g" using S by metis
  ultimately show ?thesis using S x by (simp add: sw_inv_def lk_holder_def)
qed

lemma sw_reach_inv:
  assumes "sw_reach p ch lk c0 c" and s: "sleep_called p ch lk h c0"
  shows "\<exists>pl wk. sw_inv p ch lk (intena (cpus (sys c0) h)) pl wk c"
  using assms(1)
proof induction
  case start
  then show ?case using sw_inv_start [OF s] by blast
next
  case (step c d)
  then show ?case using sw_inv_step s unfolding sleep_called_def by metis
qed

text \<open>When the process is switched out, a waker that has \<open>lk\<close>, or finds it free, runs to its end.\<close>

lemma sw_reach_trans: "sw_reach p ch lk c d \<Longrightarrow> sw_reach p ch lk b c \<Longrightarrow> sw_reach p ch lk b d"
  by (induction rule: sw_reach.induct) (auto intro: sw_reach.intros)

lemma sw_reach_one: "sw_step p ch lk c d \<Longrightarrow> sw_reach p ch lk c d"
  by (auto intro: sw_reach.intros)

lemma waker_ok:
  assumes inv: "sw_inv p ch lk ie Parked wk c" and ne: "\<forall>q. lk \<noteq> LkProc q" and T: "task c g = Waker (s # ss)" and wk: "wk = None \<or> 0 < pos wk g"
  shows "\<exists>t. s (on_hart g (sys c)) = Ok () t" "length (s # ss) = NPROC + 3 - pos wk g"
proof -
  note I = inv [unfolded sw_inv_def]
  have own: "owners p lk None (map_option fst wk) (sys c)" and tk: "tasks_ok p ch lk ie Parked wk (task c)"
    and cps: "\<forall>g. cproc (cpus (sys c) g) = Some p \<longleftrightarrow> where_run Parked = Some g" using I by (simp_all add: lk_holder_def)
  define j where "j = pos wk g"
  obtain f where f: "harmless f" and j: "j < NPROC + 3" and s: "s = waker_code f ch lk ! j" and ss: "ss = drop (Suc j) (waker_code f ch lk)"
    using waker_task [OF tk T] unfolding j_def by blast
  show "length (s # ss) = NPROC + 3 - pos wk g" using j by (simp add: ss waker_code_nth j_def)
  show "\<exists>t. s (on_hart g (sys c)) = Ok () t"
  proof (cases "j = 0")
    case True
    then have "lock_free lk (on_hart g (sys c))" using own wk j_def by (simp add: owners_def lock_is_def lock_free_def)
    then show ?thesis using s True by (simp add: waker_code_nth)
  next
    case False
    then have "wk = Some (g, j)" using pos_pos [of wk g] by (simp add: j_def)
    then have lo: "owners p lk None (Some g) (sys c)" using own by simp
    have cp: "cproc (cpus (sys c) g) \<noteq> Some p" using cps by simp
    have "j = Suc 0 \<or> (\<exists>q<NPROC. j = q + 2) \<or> j = NPROC + 2" using False j by presburger
    then show ?thesis
      using wake_slot_step [OF lo cp, of ch] owners_release(2) [OF lo ne refl]
        waker_code_nth(3) [of f ch lk] waker_code_nth(4) [of _ f ch lk] waker_code_nth(5) [of f ch lk] s
      by (elim disjE exE conjE) auto
  qed
qed

lemma waker_finishes:
  assumes "sw_inv p ch lk ie Parked wk c" "task c g = Waker (s # ss)" "wk = None \<or> 0 < pos wk g" and ne: "\<forall>q. lk \<noteq> LkProc q" and p: "p < NPROC"
  shows "\<exists>d. sw_reach p ch lk c d \<and> wakes d = Suc (wakes c) \<and> parked d = parked c"
  using assms(1-3)
proof (induction ss arbitrary: s c wk)
  case Nil
  obtain t where t: "s (on_hart g (sys c)) = Ok () t" using waker_ok(1) [OF Nil(1) ne Nil(2,3)] by blast
  show ?case using sw_reach_one [OF sw_step.woke [where p = p and ch = ch and lk = lk, OF Nil(2) t]] by fastforce
next
  case (Cons s' ss)
  obtain t where t: "s (on_hart g (sys c)) = Ok () t" using waker_ok(1) [OF Cons.prems(1) ne Cons.prems(2,3)] by blast
  let ?c = "c\<lparr>sys := t, task := (task c)(g := Waker (s' # ss))\<rparr>"
  have st: "sw_step p ch lk c ?c" by (rule sw_step.wake [OF Cons.prems(2) _ t]) simp
  obtain wk' where inv: "sw_inv p ch lk ie Parked wk' ?c" using step_wake(1) [OF Cons.prems(1) ne p Cons.prems(2) t] by blast
  have "length (s # s' # ss) = NPROC + 3 - pos wk g" by (rule waker_ok(2) [OF Cons.prems(1) ne Cons.prems(2,3)])
  moreover have tk: "tasks_ok p ch lk ie Parked wk' (task ?c)" using inv by (simp add: sw_inv_def)
  obtain f where "pos wk' g < NPROC + 3" "ss = drop (Suc (pos wk' g)) (waker_code f ch lk)" using waker_task [OF tk, of g s' ss] by auto
  ultimately have "0 < pos wk' g" using waker_code_nth(1) [of f ch lk] by (cases "pos wk' g") auto
  from Cons.IH [OF inv _ disjI2, OF _ this] obtain d where "sw_reach p ch lk ?c d" "wakes d = Suc (wakes c)" "parked d = parked c" by auto
  then show ?case using sw_reach_trans [OF _ sw_reach_one [OF st]] by blast
qed

text \<open>The process itself gets to the point where it is switched out.\<close>

lemma sleeper_ok:
  assumes inv: "sw_inv p ch lk ie (At i g) wk c" and ne: "\<forall>q. lk \<noteq> LkProc q" and i: "i < 4"
  shows "\<exists>d. sw_reach p ch lk c d \<and> sw_inv p ch lk ie (At (Suc i) g) wk d \<and> wakes d = wakes c"
proof -
  note I = inv [unfolded sw_inv_def]
  have own: "owners p lk (p_owner (At i g)) (lk_holder (At i g) wk) (sys c)" and tk: "tasks_ok p ch lk ie (At i g) wk (task c)" using I by blast+
  obtain f fs where c: "drop i (sleep_code p ch lk) = f # fs" and f: "\<exists>t. f (on_hart g (sys c)) = Ok () t"
  proof -
    have "i = 0 \<or> i = 1 \<or> i = 2 \<or> i = 3" using i by linarith
    then show ?thesis
    proof (elim disjE)
      assume "i = 0"
      moreover from this have "lock_free (LkProc p) (on_hart g (sys c))" using own by (simp add: owners_def lock_is_def lock_free_def)
      ultimately show ?thesis using that by (simp add: sleep_code_def)
    next
      assume "i = 1"
      then show ?thesis using that owners_release(2) [OF own ne, of g] by (auto simp: sleep_code_def lk_holder_def)
    qed (use that in \<open>auto simp: sleep_code_def\<close>)
  qed
  then obtain t where t: "f (on_hart g (sys c)) = Ok () t" by blast
  have "task c g = Thread (f # fs)" using tasks_ok_at [OF tk, of g] c by simp
  from sw_reach_one [OF sw_step.thread [OF this t]] step_thread_At [OF inv ne c t] show ?thesis by fastforce
qed

lemma sleeper_parks:
  assumes inv: "sw_inv p ch lk ie (At 0 g) wk c" and ne: "\<forall>q. lk \<noteq> LkProc q"
  shows "\<exists>d. sw_reach p ch lk c d \<and> sw_inv p ch lk ie Parked wk d \<and> wakes d = wakes c"
proof -
  have "\<exists>d. sw_reach p ch lk c d \<and> sw_inv p ch lk ie (At i g) wk d \<and> wakes d = wakes c" if "i \<le> 4" for i
    using that
  proof (induction i)
    case 0
    then show ?case using inv sw_reach.start by blast
  next
    case (Suc i)
    then obtain d where d: "sw_reach p ch lk c d" "sw_inv p ch lk ie (At i g) wk d" "wakes d = wakes c" by auto
    then show ?case using sleeper_ok [OF d(2) ne] Suc.prems sw_reach_trans by fastforce
  qed
  from this [of 4] obtain d where d: "sw_reach p ch lk c d" "sw_inv p ch lk ie (At 4 g) wk d" "wakes d = wakes c" by auto
  have "task d g = Thread (sched # drop 5 (sleep_code p ch lk))"
    using d(2) tasks_ok_at [of p ch lk ie "At 4 g" wk "task d" g] by (simp add: sw_inv_def sleep_code_def)
  from sw_step.leave [OF this sw_inv_leave(1) [OF d(2)]] sw_inv_leave(2) [OF d(2)] obtain e where
    e: "sw_step p ch lk d e" "sw_inv p ch lk ie (Leaving g) wk e" "wakes e = wakes d" unfolding resume_code_def by fastforce
  have T: "task e g = Sched (sched_tail p)" using e(2) tasks_ok_at [of p ch lk ie "Leaving g" wk "task e" g] by (simp add: sw_inv_def)
  from step_sched [OF e(2) ne T] sw_step.sched [OF T] obtain b where "sw_step p ch lk e b" "sw_inv p ch lk ie Parked wk b" "wakes b = wakes e"
    by fastforce
  then show ?thesis using d e sw_reach.step by metis
qed

lemma sleep_wake_run:
  fixes c0 :: "'a procs_scheme conf" and f :: "'a procs_scheme \<Rightarrow> 'a procs_scheme"
  assumes "sleep_called p ch lk h c0" "harmless f"
  shows "\<exists>c. sw_reach p ch lk c0 c \<and> wakes c = 1 \<and> parked c \<noteq> None"
proof -
  have ne: "\<forall>q. lk \<noteq> LkProc q" and p: "p < NPROC" and w: "wakes c0 = 0" using assms(1) by (simp_all add: sleep_called_def)
  obtain d where d: "sw_reach p ch lk c0 d" "sw_inv p ch lk (intena (cpus (sys c0) h)) Parked None d" "wakes d = 0"
    using sleeper_parks [OF sw_inv_start [OF assms(1)] ne] w by auto
  have "other_ok ch lk 0 (task d 0)" using d(2) tasks_ok_other [of p ch lk _ Parked None "task d" 0] by (auto simp: sw_inv_def)
  then obtain e where e: "sw_reach p ch lk c0 e" "sw_inv p ch lk (intena (cpus (sys c0) h)) Parked None e" "wakes e = 0"
    and T: "\<exists>f. task e 0 = Waker (waker_code f ch lk)"
  proof (cases "task d 0 = Idle")
    case True
    let ?e = "d\<lparr>task := (task d)(0 := Waker (waker_code f ch lk))\<rparr>"
    show ?thesis
    proof (rule that)
      show "sw_reach p ch lk c0 ?e" using sw_reach.step [OF d(1) sw_step.event [OF True assms(2)]] .
      show "sw_inv p ch lk (intena (cpus (sys c0) h)) Parked None ?e" by (rule step_event [OF d(2) True assms(2)])
    qed (use d(3) in auto)
  next
    case False
    then show ?thesis using that d \<open>other_ok ch lk 0 (task d 0)\<close> by (auto simp: other_ok_def)
  qed
  from T obtain s ss where "task e 0 = Waker (s # ss)" by (auto simp: waker_code_def)
  from waker_finishes [OF e(2) this _ ne p] obtain c where "sw_reach p ch lk e c" "wakes c = 1" "parked c = parked e" using e(3) by auto
  moreover have "parked e \<noteq> None" using e(2) by (simp add: sw_inv_def)
  ultimately show ?thesis using sw_reach_trans [OF _ e(1)] by metis
qed

lemma waker_runs:
  fixes s :: "'a procs_scheme"
  shows "and_then (acquire lk s) (\<lambda>_ s. and_then (wakeup (Some ch) (f s)) (\<lambda>_. release lk)) = run_code (waker_code f ch lk) s"
proof -
  have c: "run_code (f # fs) = (\<lambda>s. and_then (f s) (\<lambda>_. run_code fs))" for f :: "'a procs_scheme \<Rightarrow> _" and fs by (rule ext) simp
  have n: "run_code [] = (Ok () :: 'a procs_scheme \<Rightarrow> _)" by (rule ext) simp
  show ?thesis by (simp add: wakeup_def waker_code_def c n for_each_append for_each_map del: for_each.simps)
qed

lemma sleep_runs:
  assumes "sleep_called p ch lk h c"
  shows "sleep ch lk (on_hart h (sys c)) = run_code (sleep_code p ch lk) (on_hart h (sys c))"
proof -
  let ?s = "on_hart h (sys c)"
  have a: "mach_ok ?s" "cproc (mycpu ?s) = Some p" "noff (mycpu ?s) = 1" using assms by (simp_all add: sleep_called_def)
  then have "settle ?s = ?s" by (simp add: settle_def settle_cpu_def set_mycpu_def cpu_ok_def)
  then show ?thesis using with_proc_eq [OF a(1,2)] by (simp add: sleep_def)
qed

text \<open>
  Claim C19. No wakeup is lost.  A process calls \<^verbatim>\<open>sleep(ch, lk)\<close> with \<open>lk\<close> held; other harts run \<^verbatim>\<open>acquire(lk); ...; wakeup(ch); release(lk)\<close>,
  any number of them and as often as they like, and schedulers pick the process up when it is runnable.  In every
  interleaving of their statements: no statement panics; as soon as one waker has finished after the call, the process is runnable, with
  its lock free so that a scheduler can take it, or has been resumed, and it never is left asleep; and when \<^verbatim>\<open>sleep\<close> returns, on whatever hart, the
  process holds exactly \<open>lk\<close> again, has no channel, and the interrupt state saved at its call is in place.  The interleaved statements are
  those of the routines: run in sequence they are the call of \<^verbatim>\<open>sleep\<close> and \<^verbatim>\<open>acquire(lk); ...; wakeup(ch); release(lk)\<close>.
\<close>

theorem sleep_no_lost_wakeup:
  assumes "sleep_called p ch lk h c0" and "sw_reach p ch lk c0 c"
  shows "\<not> dead c \<and>
    (0 < wakes c \<longrightarrow> (if parked c = None then state (ptab (sys c) p) = RUNNING
       else state (ptab (sys c) p) = RUNNABLE \<and> lock_free (LkProc p) (sys c))) \<and>
    (\<forall>g. task c g = Thread [] \<longrightarrow> holding lk (on_hart g (sys c)) \<and> noff (cpus (sys c) g) = 1 \<and> cproc (cpus (sys c) g) = Some p \<and>
       intena (cpus (sys c) g) = intena (cpus (sys c0) h) \<and> chan (ptab (sys c) p) = None \<and> lock_free (LkProc p) (sys c)) \<and>
    sleep ch lk (on_hart h (sys c0)) = run_code (sleep_code p ch lk) (on_hart h (sys c0)) \<and>
    (\<forall>f s. and_then (acquire lk s) (\<lambda>_ s. and_then (wakeup (Some ch) (f s)) (\<lambda>_. release lk)) = run_code (waker_code f ch lk) s)"
proof -
  obtain pl wk where inv: "sw_inv p ch lk (intena (cpus (sys c0) h)) pl wk c" using sw_reach_inv [OF assms(2,1)] by blast
  note I = inv [unfolded sw_inv_def]
  have own: "owners p lk (p_owner pl) (lk_holder pl wk) (sys c)" and pr: "proc_at p ch (intena (cpus (sys c0) h)) pl (sys c)"
    and pk: "parked c = (if pl = Parked \<or> (\<exists>g. pl = Leaving g) then Some (resume_code p ch lk (intena (cpus (sys c0) h))) else None)"
    and aw: "0 < wakes c \<longrightarrow> awake_at p pl (sys c)" using I by blast+
  have free: "p_owner pl = None \<Longrightarrow> lock_free (LkProc p) (sys c)" using own by (simp add: owners_def lock_is_def lock_free_def)
  have 1: "if parked c = None then state (ptab (sys c) p) = RUNNING else state (ptab (sys c) p) = RUNNABLE \<and> lock_free (LkProc p) (sys c)"
    if "0 < wakes c"
    using aw that pk pr free by (cases pl) auto
  have 2: "holding lk (on_hart g (sys c)) \<and> noff (cpus (sys c) g) = 1 \<and> cproc (cpus (sys c) g) = Some p \<and>
       intena (cpus (sys c) g) = intena (cpus (sys c0) h) \<and> chan (ptab (sys c) p) = None \<and> lock_free (LkProc p) (sys c)"
    if T: "task c g = Thread []" for g
  proof -
    have pl: "pl = Back 8 g" by (rule step_again(2) [OF inv T])
    then have "owners p lk None (Some g) (sys c)" using own by (simp add: lk_holder_def)
    then show ?thesis using I pl pr free by (auto simp: owners_def lock_is_def holding_def)
  qed
  show ?thesis using I 1 2 sleep_runs [OF assms(1)] waker_runs [of lk _ ch] by blast
qed

text \<open>Process 2 runs on hart 0 and calls \<^verbatim>\<open>sleep(&ticks, &tickslock)\<close>; all other harts are idle.\<close>

definition demo_sleep :: "procs conf" where
  "demo_sleep =
     \<lparr>sys = (demo_procs None (\<lambda>_. demo_proc\<lparr>state := RUNNING\<rparr>))
        \<lparr>cpus := (\<lambda>_. \<lparr>cproc = None, noff = 0, intena = False, sie = True\<rparr>)
           (0 := \<lparr>cproc = Some 2, noff = 1, intena = True, sie = False\<rparr>),
         locks := (\<lambda>_. \<lparr>locked = False, lname = [], lcpu = None\<rparr>)(LkTicks := \<lparr>locked = True, lname = [], lcpu = Some 0\<rparr>)\<rparr>,
      task = (\<lambda>_. Idle)(0 := Thread (sleep_code 2 ChTicks LkTicks)), ctx = (\<lambda>_. sched_tail 2), parked = None, wakes = 0, dead = False\<rparr>"

lemma demo_sleep_called: "sleep_called 2 ChTicks LkTicks 0 demo_sleep"
proof -
  let ?v = "demo_procs None (\<lambda>_. demo_proc\<lparr>state := RUNNABLE\<rparr>)"
  have v: "idle ?v" "lock_free (LkProc 2) ?v" "state (ptab ?v 2) = RUNNABLE" by (simp_all add: idle_def)
  from sched_slot_run [OF this] have "\<exists>t. sched_slot 2 ?v = Swtch t (ctx demo_sleep 0)" by (simp add: demo_sleep_def sched_tail_def)
  then have "\<exists>v t. idle v \<and> lock_free (LkProc 2) v \<and> state (ptab v 2) = RUNNABLE \<and> sched_slot 2 v = Swtch t (ctx demo_sleep 0)" using v by blast
  then show ?thesis
    by (simp add: sleep_called_def demo_sleep_def NPROC_def cpu_ok_def holding_def lock_free_def)
qed

theorem sleep_no_lost_wakeup_witness:
  "\<exists>c. sw_reach 2 ChTicks LkTicks demo_sleep c \<and> wakes c = 1 \<and> parked c \<noteq> None \<and> \<not> dead c \<and> state (ptab (sys c) 2) = RUNNABLE"
proof -
  have "harmless (\<lambda>s :: procs. s\<lparr>ticks := ticks s + 1\<rparr>)" by (simp add: harmless_def)
  from sleep_wake_run [OF demo_sleep_called this] obtain c where c: "sw_reach 2 ChTicks LkTicks demo_sleep c" "wakes c = 1" "parked c \<noteq> None" by blast
  from sleep_no_lost_wakeup [OF demo_sleep_called c(1)] c show ?thesis by auto
qed

end
