(* ===== verification/Trap_Properties.thy ===== *)
theory Trap_Properties
  imports Demo_State Pagetable Sleep_MP
begin

text \<open>
  Traps: the alarm that \<^verbatim>\<open>usertrap\<close> delivers and \<^verbatim>\<open>sys_sigreturn\<close> undoes, and what a timer interrupt
  from user space does from the trap to the return to user space.
\<close>

section \<open>Trapframes in memory\<close>

lemma tf_span:
  assumes "aligned t"
  shows "span (t + tf_epc) 8 \<subseteq> page t" "span (t + tf_a0) 8 \<subseteq> page t"
  using span_in_page [of 24 8 t] span_in_page [of 112 8 t] by (simp_all add: tf_epc_def tf_a0_def)

lemma tf_set_simps [simp]:
  "ptab (tf_set off p v s) = ptab s" "kend (tf_set off p v s) = kend s" "hart (tf_set off p v s) = hart s"
  "mem (tf_set off p v s) = st64 (mem s) (trapframe (ptab s p) + off) v"
  "mach_ok (tf_set off p v s) = mach_ok s" "lock_free lk (tf_set off p v s) = lock_free lk s"
  "mycpu (tf_set off p v s) = mycpu s"
  by (simp_all add: tf_set_def)

lemma tf_get_set [simp]: "tf_get off p (tf_set off p v s) = v"
  by (simp add: tf_get_def)

section \<open>The clock interrupt\<close>

text \<open>\<^verbatim>\<open>clockintr\<close> is a waker in the sense of \<open>Sleep_MP\<close>; the processes that sleep in \<^verbatim>\<open>sys_sleep\<close> are its sleepers.\<close>

lemma clockintr_waker:
  fixes s :: "'a procs_scheme"
  shows "clockintr s = run_code (waker_code (\<lambda>s. s\<lparr>ticks := ticks s + 1\<rparr>) ChTicks LkTicks) s" "harmless (\<lambda>s. s\<lparr>ticks := ticks s + 1\<rparr>)"
  using waker_runs [of LkTicks s ChTicks "\<lambda>s. s\<lparr>ticks := ticks s + 1\<rparr>"] by (simp_all add: clockintr_def harmless_def)

section \<open>Alarms\<close>

lemma sint_i32_small: "n < 2147483648 \<Longrightarrow> sint (of_nat n :: i32) = int n"
  by (simp add: sint_uint unat_of_nat uint_nat signed_take_bit_int_eq_self take_bit_nat_eq_self)

text \<open>The state of a process with an alarm: two different pages for its frames.\<close>

definition frames :: "nat \<Rightarrow> u64 \<Rightarrow> u64 \<Rightarrow> 'a procs_scheme \<Rightarrow> bool" where
  "frames p t a s \<longleftrightarrow> trapframe (ptab s p) = t \<and> alarm_tf (ptab s p) = a \<and>
     kpage (kend s) t \<and> kpage (kend s) a \<and> t \<noteq> a"

lemma alarm_fires:
  assumes "frames p t a s" and "0 < sint (alarm_interval (ptab s p))" "in_alarm_handler (ptab s p) = 0"
    and "sint (alarm_interval (ptab s p)) \<le> sint (ticks_since_alarm (ptab s p) + 1)"
  shows "alarm_tick p s = upd_proc p (\<lambda>q. q\<lparr>ticks_since_alarm := 0, in_alarm_handler := 1\<rparr>)
     (s\<lparr>mem := st64 (wr (mem s) a (rd (mem s) t 4096)) (t + tf_epc) (alarm_handler (ptab s p))\<rparr>)"
  using assms memmove_page [of "kend s" a t "mem s"]
  by (simp add: alarm_tick_def frames_def upd_proc_def tf_set_def Let_def fun_upd_def cong: if_cong)

lemma alarm_counts:
  assumes "0 < sint (alarm_interval (ptab s p))" "in_alarm_handler (ptab s p) = 0"
    and "sint (ticks_since_alarm (ptab s p) + 1) < sint (alarm_interval (ptab s p))"
  shows "alarm_tick p s = upd_proc p (\<lambda>q. q\<lparr>ticks_since_alarm := ticks_since_alarm q + 1\<rparr>) s"
  using assms by (simp add: alarm_tick_def Let_def)

lemma alarm_masked: "in_alarm_handler (ptab s p) \<noteq> 0 \<Longrightarrow> alarm_tick p s = s"
  by (simp add: alarm_tick_def)

lemma sigreturn_eq:
  assumes "mach_ok s" "cproc (mycpu s) = Some p" "frames p t a s"
  shows "sys_sigreturn s = Ok 0 (upd_proc p (in_alarm_handler_update (\<lambda>_. 0))
     (settle (s\<lparr>mem := wr (mem s) t (rd (mem s) a 4096)\<rparr>)))"
  using assms memmove_page [of "kend s" t a "mem s"]
  by (simp add: sys_sigreturn_def frames_def Let_def)

text \<open>
  Claim C22. Delivering an alarm and returning from it restores the interrupted program: when the
  interval has passed, the timer interrupt redirects the process to its handler with all other
  registers unchanged and blocks further alarms; \<^verbatim>\<open>sys_sigreturn\<close>, called from any later state in which
  the saved frame is intact, puts back every byte of the trapframe as it was at the interrupt,
  however the handler changed it, and allows alarms again.
\<close>

theorem alarm_sigreturn_roundtrip:
  fixes s :: "'a procs_scheme"
  assumes "frames p t a s" and "0 < sint (alarm_interval (ptab s p))" and "in_alarm_handler (ptab s p) = 0"
    and "sint (alarm_interval (ptab s p)) \<le> sint (ticks_since_alarm (ptab s p) + 1)"
  shows "tf_get tf_epc p (alarm_tick p s) = alarm_handler (ptab s p) \<and>
     (\<forall>x\<in>page t. x \<notin> span (t + tf_epc) 8 \<longrightarrow> mem (alarm_tick p s) x = mem s x) \<and>
     (\<forall>x. x \<notin> page t \<longrightarrow> x \<notin> page a \<longrightarrow> mem (alarm_tick p s) x = mem s x) \<and>
     alarm_tick p (alarm_tick p s) = alarm_tick p s \<and>
     (\<forall>s2 :: 'a procs_scheme. mach_ok s2 \<longrightarrow> cproc (mycpu s2) = Some p \<longrightarrow> frames p t a s2 \<longrightarrow>
        (\<forall>x\<in>page a. mem s2 x = mem (alarm_tick p s) x) \<longrightarrow>
        (\<exists>s3. sys_sigreturn s2 = Ok 0 s3 \<and> (\<forall>x\<in>page t. mem s3 x = mem s x) \<and>
           (\<forall>x. x \<notin> page t \<longrightarrow> mem s3 x = mem s2 x) \<and> in_alarm_handler (ptab s3 p) = 0))"
proof -
  note e = alarm_fires [OF assms]
  have al: "aligned t" "aligned a" "t \<noteq> a" using assms(1) by (auto simp: frames_def kpage_def)
  have dis: "page t \<inter> page a = {}" by (rule page_disjoint [OF al])
  have out: "mem (alarm_tick p s) x = mem s x" if "x \<notin> page a" "x \<notin> span (t + tf_epc) 8" for x
    using that unfolding e by (simp add: st64_outside wr_page_outside)
  have ina: "mem (alarm_tick p s) x = mem s (t + (x - a))" if "x \<in> page a" for x
  proof -
    have "x \<notin> span (t + tf_epc) 8" using that dis tf_span(1) [OF al(1)] by auto
    then show ?thesis using that unfolding e by (simp add: st64_outside wr_page_inside)
  qed
  have sig: "\<exists>s3. sys_sigreturn s2 = Ok 0 s3 \<and> (\<forall>x\<in>page t. mem s3 x = mem s x) \<and>
      (\<forall>x. x \<notin> page t \<longrightarrow> mem s3 x = mem s2 x) \<and> in_alarm_handler (ptab s3 p) = 0"
    if s2: "mach_ok s2" "cproc (mycpu s2) = Some p" "frames p t a s2"
      "\<forall>x\<in>page a. mem s2 x = mem (alarm_tick p s) x" for s2 :: "'a procs_scheme"
  proof -
    have "mem s2 (a + (x - t)) = mem s x" if "x \<in> page t" for x
    proof -
      have "a + (x - t) \<in> page a" using that by (simp add: page_def in_span_iff)
      then show ?thesis using s2(4) ina [of "a + (x - t)"] by simp
    qed
    then show ?thesis
      unfolding sigreturn_eq [OF s2(1,2,3)] by (auto simp: wr_page_inside wr_page_outside)
  qed
  have 1: "tf_get tf_epc p (alarm_tick p s) = alarm_handler (ptab s p)"
    using assms(1) unfolding e by (simp add: tf_get_def frames_def)
  have 2: "alarm_tick p (alarm_tick p s) = alarm_tick p s"
    by (rule alarm_masked) (simp add: e)
  show ?thesis using 1 2 out sig dis tf_span(1) [OF al(1)] by blast
qed

definition demo_alarm :: "nat \<Rightarrow> proc" where
  "demo_alarm _ = demo_proc\<lparr>trapframe := 0x80002000, alarm_tf := 0x80003000, alarm_interval := 2,
     alarm_handler := 0x40, ticks_since_alarm := 1\<rparr>"

lemma demo_frames: "frames 0 0x80002000 0x80003000 (demo_procs cp demo_alarm)"
  by (simp add: frames_def demo_alarm_def kpage_def aligned_def PHYSTOP_def KERNBASE_def)

lemma demo_alarm_simps [simp]:
  "alarm_interval (demo_alarm p) = 2" "in_alarm_handler (demo_alarm p) = 0" "ticks_since_alarm (demo_alarm p) = 1"
  "alarm_handler (demo_alarm p) = 0x40"
  by (simp_all add: demo_alarm_def demo_proc_def)

lemma demo_alarm_fires:
  "mach_ok (alarm_tick 0 (demo_procs (Some 0) demo_alarm))"
  "cproc (mycpu (alarm_tick 0 (demo_procs (Some 0) demo_alarm))) = Some 0"
  "frames 0 0x80002000 0x80003000 (alarm_tick 0 (demo_procs (Some 0) demo_alarm))"
  using demo_frames [of "Some 0"] by (simp_all add: alarm_fires [OF demo_frames] frames_def)

theorem alarm_sigreturn_roundtrip_witness:
  "tf_get tf_epc 0 (alarm_tick 0 (demo_procs (Some 0) demo_alarm)) = 0x40 \<and>
   (\<exists>s3. sys_sigreturn (alarm_tick 0 (demo_procs (Some 0) demo_alarm)) = Ok 0 s3 \<and>
      (\<forall>x\<in>page 0x80002000. mem s3 x = mem (demo_procs (Some 0) demo_alarm) x))"
proof -
  note w = alarm_sigreturn_roundtrip [OF demo_frames [of "Some 0"]]
  have "tf_get tf_epc 0 (alarm_tick 0 (demo_procs (Some 0) demo_alarm)) = 0x40"
    by (rule w [THEN conjunct1, simplified])
  moreover have "\<exists>s3. sys_sigreturn (alarm_tick 0 (demo_procs (Some 0) demo_alarm)) = Ok 0 s3 \<and>
      (\<forall>x\<in>page 0x80002000. mem s3 x = mem (demo_procs (Some 0) demo_alarm) x)"
    using w demo_alarm_fires by simp blast
  ultimately show ?thesis ..
qed

text \<open>
  Claim C23. The period of an alarm is exact: with the counter at zero and an interval of \<open>n\<close> ticks, the
  first \<open>n - 1\<close> timer interrupts only count, and the \<open>n\<close>-th one starts the handler and resets the
  counter.  The counter does not overflow for any interval.
\<close>

theorem alarm_period:
  assumes "frames p t a s" and "0 < sint (alarm_interval (ptab s p))" and "in_alarm_handler (ptab s p) = 0"
    and "ticks_since_alarm (ptab s p) = 0" and "n = nat (sint (alarm_interval (ptab s p)))"
  shows "(\<forall>k<n. (alarm_tick p ^^ k) s = upd_proc p (\<lambda>q. q\<lparr>ticks_since_alarm := of_nat k\<rparr>) s) \<and>
     tf_get tf_epc p ((alarm_tick p ^^ n) s) = alarm_handler (ptab s p) \<and>
     in_alarm_handler (ptab ((alarm_tick p ^^ n) s) p) = 1 \<and>
     ticks_since_alarm (ptab ((alarm_tick p ^^ n) s) p) = 0"
proof -
  have lim: "n < 2147483648" "int n = sint (alarm_interval (ptab s p))"
    using sint_lt [of "alarm_interval (ptab s p)"] assms(2,5) by simp_all
  have nxt: "sint (of_nat k + 1 :: i32) = int k + 1" if "k < n" for k
    using lim that sint_i32_small [of "Suc k"] by (simp add: add.commute)
  have cnt: "(alarm_tick p ^^ k) s = upd_proc p (\<lambda>q. q\<lparr>ticks_since_alarm := of_nat k\<rparr>) s" if "k < n" for k
    using that
  proof (induction k)
    case 0
    have "(ptab s p)\<lparr>ticks_since_alarm := 0\<rparr> = ptab s p" using assms(4) by (cases "ptab s p") simp
    then show ?case by (simp add: upd_proc_def)
  next
    case (Suc k)
    then show ?case using assms(2,3) lim nxt [of k]
      by (simp add: alarm_counts upd_proc_def add.commute)
  qed
  have "0 < n" using assms(2,5) by simp
  then obtain k where k: "n = Suc k" by (metis gr0_implies_Suc)
  define u where "u = upd_proc p (\<lambda>q. q\<lparr>ticks_since_alarm := of_nat k\<rparr>) s"
  have "(alarm_tick p ^^ n) s = alarm_tick p u" using cnt [of k] by (simp add: k u_def)
  moreover have "frames p t a u" using assms(1) by (simp add: frames_def u_def)
  moreover have "sint (alarm_interval (ptab u p)) \<le> sint (ticks_since_alarm (ptab u p) + 1)"
    using nxt [of k] lim(2) by (simp add: u_def k)
  ultimately have "(alarm_tick p ^^ n) s = upd_proc p (\<lambda>q. q\<lparr>ticks_since_alarm := 0, in_alarm_handler := 1\<rparr>)
      (u\<lparr>mem := st64 (wr (mem u) a (rd (mem u) t 4096)) (t + tf_epc) (alarm_handler (ptab s p))\<rparr>)"
    using alarm_fires [of p t a u] assms(2,3) by (simp add: u_def)
  then show ?thesis using cnt assms(1) by (simp add: tf_get_def frames_def u_def)
qed

theorem alarm_period_witness:
  "(alarm_tick 0 ^^ 1) (demo_procs None (demo_alarm(0 := (demo_alarm 0)\<lparr>ticks_since_alarm := 0\<rparr>))) =
     demo_procs None demo_alarm \<and>
   tf_get tf_epc 0 ((alarm_tick 0 ^^ 2) (demo_procs None (demo_alarm(0 := (demo_alarm 0)\<lparr>ticks_since_alarm := 0\<rparr>)))) = 0x40"
proof -
  let ?s = "demo_procs None (demo_alarm(0 := (demo_alarm 0)\<lparr>ticks_since_alarm := 0\<rparr>))"
  have f: "frames 0 0x80002000 0x80003000 ?s" using demo_frames [of None] by (simp add: frames_def)
  have u: "upd_proc 0 (\<lambda>q. q\<lparr>ticks_since_alarm := of_nat 1\<rparr>) ?s = demo_procs None demo_alarm"
    by (simp add: upd_proc_def demo_procs_def) (rule ext, simp add: demo_alarm_def)
  have h: "0 < sint (alarm_interval (ptab ?s 0))" "in_alarm_handler (ptab ?s 0) = 0"
    "ticks_since_alarm (ptab ?s 0) = 0" "2 = nat (sint (alarm_interval (ptab ?s 0)))"
    "alarm_handler (ptab ?s 0) = 0x40"
    by simp_all
  note w = alarm_period [OF f h(1-4)]
  have "(alarm_tick 0 ^^ 1) ?s = demo_procs None demo_alarm"
    by (rule trans [OF w [THEN conjunct1, rule_format, of 1] u]) simp
  moreover have "tf_get tf_epc 0 ((alarm_tick 0 ^^ 2) ?s) = 0x40"
    by (rule trans [OF w [THEN conjunct2, THEN conjunct1] h(5)])
  ultimately show ?thesis ..
qed

text \<open>
  Claim C24. The system call \<^verbatim>\<open>sigreturn\<close> does not restore the register \<^verbatim>\<open>a0\<close>: after the dispatcher has
  run it, every byte of the trapframe is the one saved at the alarm except the register \<^verbatim>\<open>a0\<close>, which
  is zero, the return value of \<^verbatim>\<open>sys_sigreturn\<close>.
\<close>

theorem sigreturn_loses_a0:
  assumes "mach_ok s" and "cproc (mycpu s) = Some p" and "frames p t a s"
    and "(ucast (tf_get tf_a7 p s) :: i32) = 23"
  shows "\<exists>s'. syscall s = Ok () s' \<and> tf_get tf_a0 p s' = 0 \<and>
     (\<forall>x\<in>page t. x \<notin> span (t + tf_a0) 8 \<longrightarrow> mem s' x = mem s (a + (x - t)))"
proof -
  have t: "trapframe (ptab s p) = t" using assms(3) by (simp add: frames_def)
  have "sys_sigreturn (settle s) = Ok 0 (upd_proc p (in_alarm_handler_update (\<lambda>_. 0))
      (settle (s\<lparr>mem := wr (mem s) t (rd (mem s) a 4096)\<rparr>)))"
    using sigreturn_eq [of "settle s" p t a] assms(1-3) by (simp add: frames_def)
  then have "syscall s = Ok () (tf_set tf_a0 p 0 (upd_proc p (in_alarm_handler_update (\<lambda>_. 0))
      (settle (s\<lparr>mem := wr (mem s) t (rd (mem s) a 4096)\<rparr>))))"
    using assms by (simp add: syscall_def with_proc_eq syscalls_def tf_get_def)
  then show ?thesis by (auto simp: t st64_outside wr_page_inside)
qed

definition demo_return :: kernel where
  "demo_return = tf_set tf_a7 0 23 ((demo_kernel (Some 0) demo_alarm)\<lparr>mem := (\<lambda>_. 7)\<rparr>)"

theorem sigreturn_loses_a0_witness:
  "\<exists>s'. syscall demo_return = Ok () s' \<and> tf_get tf_a0 0 s' = 0 \<and> mem demo_return (0x80003000 + tf_a0) = 7"
proof -
  have "frames 0 0x80002000 0x80003000 demo_return"
    using demo_frames [of "Some 0"] by (simp add: frames_def demo_return_def)
  moreover have "mem demo_return (0x80003000 + tf_a0) = 7"
    by (simp add: demo_return_def st64_outside in_span_iff tf_a0_def tf_a7_def demo_alarm_def)
  moreover have "mach_ok demo_return" "cproc (mycpu demo_return) = Some 0" "tf_get tf_a7 0 demo_return = 23"
    by (simp_all add: demo_return_def)
  ultimately show ?thesis using sigreturn_loses_a0 [of demo_return 0 "0x80002000" "0x80003000"] by auto
qed

end
