(* ===== verification/Vm_Fork.thy ===== *)
theory Vm_Fork
  imports Vm_Space
begin

text \<open>
  Copying an address space for \<^verbatim>\<open>fork\<close>: \<^verbatim>\<open>uvmcopy\<close> gives the child its own copy of every page of the
  parent, or gives back everything it took.
\<close>

section \<open>Adding pages with given content\<close>

text \<open>
  The pages \<open>R\<close> were added to the space of \<open>s\<close>: page \<open>j\<close> with the permissions \<open>F j\<close> and the bytes
  \<open>C j\<close> (by offset), taken from the free list.
\<close>

definition filled ::
  "'a kmem_scheme \<Rightarrow> u64 \<Rightarrow> u64 list \<Rightarrow> nat set \<Rightarrow> nat set \<Rightarrow> (nat \<Rightarrow> u64) \<Rightarrow> (nat \<Rightarrow> u64 \<Rightarrow> byte) \<Rightarrow>
   'a kmem_scheme \<Rightarrow> u64 list \<Rightarrow> bool" where
  "filled s pt ps K R F C s' ps' \<longleftrightarrow>
     space_ok s' pt ps' (K \<union> R) \<and>
     tpages (mem s') pt \<union> set ps' \<union> upage (mem s') pt ` R = tpages (mem s) pt \<union> set ps \<and>
     unch (tpages (mem s) pt \<union> set ps) s s' \<and>
     (\<forall>j\<in>R. \<forall>x\<in>page (upage (mem s') pt j). mem s' x = C j (x - upage (mem s') pt j)) \<and>
     (\<forall>j<2 ^ 26. leafn (mem s') pt j =
        (if j \<in> R then PA2PTE (upage (mem s') pt j) OR F j OR PTE_V else leafn (mem s) pt j))"

lemma filled_refl: "space_ok s pt ps K \<Longrightarrow> filled s pt ps K {} F C s ps"
  by (simp add: filled_def)

lemma filledD:
  assumes "filled s pt ps K R F C s' ps'"
  shows "space_ok s' pt ps' (K \<union> R)"
    "tpages (mem s') pt \<union> set ps' \<union> upage (mem s') pt ` R = tpages (mem s) pt \<union> set ps"
    "unch (tpages (mem s) pt \<union> set ps) s s'"
    "j \<in> R \<Longrightarrow> x \<in> page (upage (mem s') pt j) \<Longrightarrow> mem s' x = C j (x - upage (mem s') pt j)"
    "j < 2 ^ 26 \<Longrightarrow> leafn (mem s') pt j =
       (if j \<in> R then PA2PTE (upage (mem s') pt j) OR F j OR PTE_V else leafn (mem s) pt j)"
  using assms by (auto simp: filled_def)

text \<open>The bytes of the added pages change only when those pages are written.\<close>

lemma filled_bytes:
  assumes fil: "filled s0 pt ps0 K R F C s ps" and u: "unch (tpages (mem s) pt \<union> set ps) s s'"
    and j: "j \<in> R" "x \<in> page (upage (mem s) pt j)"
  shows "mem s' x = mem s x"
proof (rule unchD(3) [OF u], rule page_not_covered [OF _ _ _ j(2)])
  note D = filledD(1) [OF fil]
  show "aligned (upage (mem s) pt j)" by (rule space_okD(10) [OF D])
  show "aligned a" if "a \<in> tpages (mem s) pt \<union> set ps" for a
    using that vm_okD(5,1) [OF space_okD(1) [OF D]] kmem_okD(7) by blast
  show "upage (mem s) pt j \<notin> tpages (mem s) pt \<union> set ps" using space_okD(7,8) [OF D, of j] j(1) by auto
qed

lemma filled_keep:
  assumes fil: "filled s0 pt ps0 K R F C s ps" and ok: "space_ok s' pt ps' (K \<union> R)"
    and l: "\<And>j. j < 2 ^ 26 \<Longrightarrow> leafn (mem s') pt j = leafn (mem s) pt j"
    and p: "tpages (mem s') pt \<union> set ps' = tpages (mem s) pt \<union> set ps"
    and u: "unch (tpages (mem s) pt \<union> set ps) s s'" and R: "R \<subseteq> {..<2 ^ 26}"
  shows "filled s0 pt ps0 K R F C s' ps'"
proof -
  note D = filledD [OF fil] and m = filled_bytes [OF fil u]
  have up: "upage (mem s') pt j = upage (mem s) pt j" if "j \<in> R" for j
    using l [of j] that R by (auto simp: upage_def)
  have im: "upage (mem s') pt ` R = upage (mem s) pt ` R" using up by (intro image_cong) auto
  show ?thesis
    unfolding filled_def
  proof (intro conjI ballI allI impI)
    show "tpages (mem s') pt \<union> set ps' \<union> upage (mem s') pt ` R = tpages (mem s0) pt \<union> set ps0"
      unfolding im p by (rule D(2))
    show "unch (tpages (mem s0) pt \<union> set ps0) s0 s'"
      by (rule unch_trans [OF D(3) u]) (use D(2) in auto)
    show "mem s' x = C j (x - upage (mem s') pt j)" if "j \<in> R" "x \<in> page (upage (mem s') pt j)" for j x
      using that D(4) m up by simp
    show "leafn (mem s') pt j = (if j \<in> R then PA2PTE (upage (mem s') pt j) OR F j OR PTE_V
        else leafn (mem s0) pt j)" if "j < 2 ^ 26" for j
      using that l D(5) up by simp
  qed (rule ok)
qed

lemma filled_add:
  assumes fil: "filled s0 pt ps0 K R F C s ps" and R: "R \<subseteq> {..<2 ^ 26}" and k: "k < 2 ^ 26" "k \<notin> K \<union> R"
    and ok: "space_ok s' pt ps' (insert k (K \<union> R))" and upk: "upage (mem s') pt k = p"
    and l: "\<And>j. j < 2 ^ 26 \<Longrightarrow> leafn (mem s') pt j = (if j = k then PA2PTE p OR F k OR PTE_V else leafn (mem s) pt j)"
    and u: "unch (tpages (mem s) pt \<union> set ps) s s'"
    and pl: "insert p (tpages (mem s') pt \<union> set ps') = tpages (mem s) pt \<union> set ps"
    and c: "\<And>x. x \<in> page p \<Longrightarrow> mem s' x = C k (x - p)"
  shows "filled s0 pt ps0 K (insert k R) F C s' ps'"
  unfolding filled_def
proof (intro conjI ballI allI impI)
  note D = filledD [OF fil] and m = filled_bytes [OF fil u]
  have up: "upage (mem s') pt j = upage (mem s) pt j" if "j \<in> R" for j
    using l [of j] that R k(2) by (auto simp: upage_def)
  have im: "upage (mem s') pt ` insert k R = insert p (upage (mem s) pt ` R)"
    using up upk by (auto simp: image_iff)
  show "space_ok s' pt ps' (K \<union> insert k R)" using ok by simp
  show "tpages (mem s') pt \<union> set ps' \<union> upage (mem s') pt ` insert k R = tpages (mem s0) pt \<union> set ps0"
    unfolding im D(2) [symmetric] pl [symmetric] by auto
  show "unch (tpages (mem s0) pt \<union> set ps0) s0 s'"
    by (rule unch_trans [OF D(3) u]) (use D(2) in auto)
  show "mem s' x = C j (x - upage (mem s') pt j)" if "j \<in> insert k R" "x \<in> page (upage (mem s') pt j)" for j x
    using that upk c D(4) m up by auto
  show "leafn (mem s') pt j = (if j \<in> insert k R then PA2PTE (upage (mem s') pt j) OR F j OR PTE_V
      else leafn (mem s0) pt j)" if "j < 2 ^ 26" for j
    using l [OF that] upk D(5) [OF that] up k(2) by auto
qed

text \<open>One more page: the allocator is empty, or the page is entered, or no table page can be had.\<close>

lemma fill_one:
  assumes fil: "filled s0 pt ps0 K R F C s ps" and R: "R \<subseteq> {..<2 ^ 26}"
    and k: "k < 2 ^ 26" "k \<notin> K \<union> R" "\<not> pte_valid (leafn (mem s0) pt k)"
    and F: "\<forall>n\<ge>10. \<not> bit (F k) n" "F k OR PTE_V \<noteq> PTE_V"
    and out: "\<And>m p x. kpage (kend s0) p \<Longrightarrow> x \<notin> page p \<Longrightarrow> fill m p x = m x"
    and ins: "\<And>m p x. (\<forall>y. y \<notin> covered (tpages (mem s0) pt \<union> set ps0) \<longrightarrow> m y = mem s0 y) \<Longrightarrow>
       kpage (kend s0) p \<Longrightarrow> x \<in> page p \<Longrightarrow> fill m p x = C k (x - p)"
  obtains (none_left) s' where "kalloc s = Ok 0 s'" "filled s0 pt ps0 K R F C s' []"
  | (added) p s1 s' ps' where "kalloc s = Ok p s1" "p \<noteq> 0" "kpage (kend s0) p"
      "mappages pt (page_va k) PGSIZE p (F k) (s1\<lparr>mem := fill (mem s1) p\<rparr>) = Ok 0 s'"
      "filled s0 pt ps0 K (insert k R) F C s' ps'"
  | (refused) p s1 s2 s' where "kalloc s = Ok p s1" "p \<noteq> 0" "kpage (kend s0) p"
      "mappages pt (page_va k) PGSIZE p (F k) (s1\<lparr>mem := fill (mem s1) p\<rparr>) = Ok (- 1) s2"
      "kfree p s2 = Ok () s'" "filled s0 pt ps0 K R F C s' [p]"
proof (cases ps)
  case Nil
  note ok = filledD(1) [OF fil]
  have "kmem_ok s []" using ok Nil by (simp add: space_ok_def vm_ok_def)
  then have a: "kalloc s = Ok 0 (settle s)" by (rule kalloc_ok_Nil)
  have "filled s0 pt ps0 K R F C (settle s) []"
    by (rule filled_keep [OF fil _ _ _ _ R])
      (use ok Nil in \<open>simp_all add: space_ok_def vm_ok_def unch_def\<close>)
  with a show thesis by (rule none_left)
next
  case (Cons p ps1)
  note D = filledD [OF fil [unfolded Cons]]
  obtain s1 where s1: "kalloc s = Ok p s1" "p \<noteq> 0" "space_ok s1 pt ps1 (K \<union> R)" "limbo s1 pt ps1 (K \<union> R) p"
    "unch {p} s s1" "leaf (mem s1) pt = leaf (mem s) pt" "tpages (mem s1) pt = tpages (mem s) pt"
    by (rule kalloc_space [OF D(1)]) (rule that)
  let ?m = "fill (mem s1) p" and ?s = "s1\<lparr>mem := fill (mem s1) p\<rparr>"
  have u0: "unch (tpages (mem s0) pt \<union> set ps0) s0 s1"
    by (rule unch_trans [OF D(3) s1(5)]) (use D(2) in auto)
  have kp: "kpage (kend s0) p" using limboD(1) [OF s1(4)] unchD(2) [OF u0] by simp
  have L: "space_ok ?s pt ps1 (K \<union> R)" "limbo ?s pt ps1 (K \<union> R) p" "unch {p} s1 ?s"
    "leaf ?m pt = leaf (mem s1) pt" "tpages ?m pt = tpages (mem s1) pt"
    by (rule fill_limbo [OF s1(3,4)]; erule out [OF kp])+
  have lf: "leafn ?m pt = leafn (mem s) pt" using upage_leaf(1) [OF L(4)] upage_leaf(1) [OF s1(6)] by simp
  have tp: "tpages ?m pt = tpages (mem s) pt" using L(5) s1(7) by simp
  have us: "unch {p} s ?s" by (rule unch_trans [OF s1(5) L(3)]) auto
  have content: "mem ?s x = C k (x - p)" if "x \<in> page p" for x
    using ins [OF _ kp that] unchD(3) [OF u0] by simp
  have inv: "\<not> pte_valid (leafn (mem ?s) pt k)" using lf k D(5) [OF k(1)] by simp
  show thesis
  proof (cases rule: map_limbo [OF L(1,2) k(1,2) inv F])
    case (1 s' ps')
    have "filled s0 pt ps0 K (insert k R) F C s' ps'"
    proof (rule filled_add [OF fil R k(1,2) 1(2,3)])
      show "unch (tpages (mem s) pt \<union> set ps) s s'"
        by (rule unch_trans [OF us 1(5)]) (use tp Cons in auto)
      show "insert p (tpages (mem s') pt \<union> set ps') = tpages (mem s) pt \<union> set ps"
        using 1(7) tp Cons by auto
    qed (use 1(4,6) lf content in simp_all)
    with s1(1,2) kp 1(1) show thesis by (intro added)
  next
    case (2 s2 s')
    have "filled s0 pt ps0 K R F C s' [p]"
    proof (rule filled_keep [OF fil 2(3) _ _ _ R])
      show "unch (tpages (mem s) pt \<union> set ps) s s'"
        by (rule unch_trans [OF us 2(4)]) (use tp Cons in auto)
      show "tpages (mem s') pt \<union> set [p] = tpages (mem s) pt \<union> set ps" using 2(6) tp Cons by auto
    qed (use 2(5) lf in simp)
    with s1(1,2) kp 2(1,2) show thesis by (intro refused)
  qed
qed

section \<open>uvmcopy\<close>

text \<open>The parent is untouched while pages of the child's table and of the free list are written.\<close>

lemma other_space_kept:
  assumes par: "space_ok s0 old ps0 Kp" and km: "kmem_ok s ps" and u: "unch (tpages (mem s0) pt \<union> set ps0) s0 s"
    and new: "space_ok s0 pt ps0 K" and sub: "set ps \<subseteq> tpages (mem s0) pt \<union> set ps0"
    and dis: "(tpages (mem s0) old \<union> upage (mem s0) old ` Kp) \<inter> tpages (mem s0) pt = {}"
  shows "space_ok s old ps Kp" "leaf (mem s) old = leaf (mem s0) old" "tpages (mem s) old = tpages (mem s0) old"
    "j \<in> Kp \<Longrightarrow> x \<in> page (upage (mem s0) old j) \<Longrightarrow> mem s x = mem s0 x"
proof -
  note D = space_okD [OF par] and V = vm_okD [OF space_okD(1) [OF par]]
  have al: "aligned a" if "a \<in> tpages (mem s0) pt \<union> set ps0" for a
    using that vm_okD(5) [OF space_okD(1) [OF new]] kmem_okD(7) [OF V(1)] by blast
  have same: "mem s x = mem s0 x" if "aligned a" "a \<notin> tpages (mem s0) pt \<union> set ps0" "x \<in> page a" for a x
    by (rule unchD(3) [OF u], rule page_not_covered [OF that(1) al that(2,3)])
  show "mem s x = mem s0 x" if "j \<in> Kp" "x \<in> page (upage (mem s0) old j)"
    by (rule same [OF D(10) _ that(2)]) (use dis D(8) [OF that(1)] that(1) in blast)
  have t: "mem s x = mem s0 x" if "a \<in> tpages (mem s0) old" "x \<in> page a" for a x
    by (rule same [OF V(5) [OF that(1)] _ that(2)]) (use dis V(4) [OF that(1)] that(1) in blast)
  have d: "set ps \<inter> (tpages (mem s0) old \<union> upage (mem s0) old ` Kp) = {}"
    using sub dis V(4) D(8) by blast
  show "space_ok s old ps Kp" "leaf (mem s) old = leaf (mem s0) old" "tpages (mem s) old = tpages (mem s0) old"
    by (rule space_ok_frame [OF par km unchD(2) [OF u] t d]; assumption)+
qed

lemma filled_undo:
  assumes fil: "filled s0 pt ps0 K {..<k} F C s ps" and k: "k \<le> 2 ^ 26" "K \<inter> {..<k} = {}"
    and z: "\<And>j. j < k \<Longrightarrow> leafn (mem s0) pt j = 0"
  obtains s' ps' where "uvmunmap pt 0 (page_va k div PGSIZE) True s = Ok () s'" "shrunk_back s0 pt ps0 K {} s' ps'"
proof -
  note D = filledD [OF fil]
  have e: "page_va 0 = 0" "page_va k div PGSIZE = of_nat k" "{0..<0 + k} = {..<k}"
    using page_va_diff [of 0 k] k(1) by (auto simp: page_va_def)
  have sub: "{0..<0 + k} \<subseteq> K \<union> {..<k}" and top: "0 + k \<le> 2 ^ 26" using k(1) by auto
  from uvmunmap_ok [OF D(1) sub top] obtain s' ps' where
    U: "uvmunmap pt 0 (page_va k div PGSIZE) True s = Ok () s'" "unmap_post s pt ps (K \<union> {..<k}) {..<k} s' ps'"
    unfolding e by blast
  note S = shrunk_backD [OF shrunk_back_unmap [OF U(2)]]
  have Kk: "K \<union> {..<k} - {..<k} = K" using k(2) by blast
  have "shrunk_back s0 pt ps0 K {} s' ps'"
    unfolding shrunk_back_def
  proof (intro conjI allI impI)
    show "space_ok s' pt ps' (K - {})" using S(1) Kk by simp
    show "tpages (mem s') pt \<union> set ps' = tpages (mem s0) pt \<union> set ps0 \<union> upage (mem s0) pt ` {}"
      using S(2) D(2) by simp
    show "unch (tpages (mem s0) pt \<union> set ps0 \<union> upage (mem s0) pt ` {}) s0 s'"
      by (rule unch_trans [OF D(3) S(3)]) (use D(2) in auto)
    show "leafn (mem s') pt j = (if j \<in> {} then 0 else leafn (mem s0) pt j)" if "j < 2 ^ 26" for j
      using S(4) [OF that] D(5) [OF that] z [of j] by simp
  qed
  with U(1) show thesis by (rule that)
qed

lemma PTE_FLAGS_bits:
  "\<forall>n\<ge>10. \<not> bit (PTE_FLAGS e) n" "pte_valid e \<Longrightarrow> PTE_FLAGS e OR PTE_V = PTE_FLAGS e"
proof -
  have b: "bit (PTE_FLAGS e) n \<longleftrightarrow> bit e n \<and> n < 10" for n
  proof -
    have "PTE_FLAGS e = e AND mask 10" by (simp add: PTE_FLAGS_def mask_eq_exp_minus_1)
    then show ?thesis by (auto simp: bit_and_iff bit_mask_iff)
  qed
  then show "\<forall>n\<ge>10. \<not> bit (PTE_FLAGS e) n" by simp
  show "pte_valid e \<Longrightarrow> PTE_FLAGS e OR PTE_V = PTE_FLAGS e"
    by (rule bit_word_eqI) (auto simp: bit_or_iff b flag_bit PTE_V_def bit_1_iff)
qed

definition pflags :: "memory \<Rightarrow> u64 \<Rightarrow> nat \<Rightarrow> u64" where
  "pflags m pt j = PTE_FLAGS (leafn m pt j)"

definition pbytes :: "memory \<Rightarrow> u64 \<Rightarrow> nat \<Rightarrow> u64 \<Rightarrow> byte" where
  "pbytes m pt j i = m (upage m pt j + i)"

lemma copy_one:
  assumes par: "space_ok s0 old ps0 Kp" and new: "space_ok s0 pt ps0 K"
    and dis: "(tpages (mem s0) old \<union> upage (mem s0) old ` Kp) \<inter> tpages (mem s0) pt = {}"
    and fil: "filled s0 pt ps0 K {..<k} (pflags (mem s0) old) (pbytes (mem s0) old) s ps"
    and k: "k < 2 ^ 26" "k \<in> Kp" "k \<notin> K" "leafn (mem s0) pt k = 0"
  defines "pa \<equiv> upage (mem s0) old k" and "fl \<equiv> pflags (mem s0) old k"
  obtains (none_left) s' where "kalloc s = Ok 0 s'"
      "filled s0 pt ps0 K {..<k} (pflags (mem s0) old) (pbytes (mem s0) old) s' []"
  | (added) p s1 s' ps' where "kalloc s = Ok p s1" "p \<noteq> 0"
      "mappages pt (page_va k) PGSIZE p fl (s1\<lparr>mem := memmove (mem s1) p pa 4096\<rparr>) = Ok 0 s'"
      "filled s0 pt ps0 K {..<Suc k} (pflags (mem s0) old) (pbytes (mem s0) old) s' ps'"
  | (refused) p s1 s2 s' where "kalloc s = Ok p s1" "p \<noteq> 0"
      "mappages pt (page_va k) PGSIZE p fl (s1\<lparr>mem := memmove (mem s1) p pa 4096\<rparr>) = Ok (- 1) s2"
      "kfree p s2 = Ok () s'" "filled s0 pt ps0 K {..<k} (pflags (mem s0) old) (pbytes (mem s0) old) s' [p]"
proof -
  note D = space_okD [OF par]
  have R: "{..<k} \<subseteq> {..<2 ^ 26}" "k \<notin> K \<union> {..<k}" "\<not> pte_valid (leafn (mem s0) pt k)" using k by auto
  have F: "\<forall>n\<ge>10. \<not> bit fl n" "fl OR PTE_V \<noteq> PTE_V"
    using D(3,4) [OF k(2)] PTE_FLAGS_bits [of "leafn (mem s0) old k"] by (simp_all add: fl_def pflags_def)
  have kpa: "kpage (kend s0) pa" using D(5) [OF k(2)] by (simp add: pa_def)
  have out: "memmove m p pa 4096 x = m x" if "kpage (kend s0) p" "x \<notin> page p" for m p x
    using memmove_page [OF that(1) kpa] wr_page_outside [OF that(2)] by simp
  have al: "aligned a" if "a \<in> tpages (mem s0) pt \<union> set ps0" for a
    using that vm_okD(5,1) [OF space_okD(1) [OF new]] kmem_okD(7) by blast
  have ins: "memmove m p pa 4096 x = pbytes (mem s0) old k (x - p)"
    if m: "\<forall>y. y \<notin> covered (tpages (mem s0) pt \<union> set ps0) \<longrightarrow> m y = mem s0 y"
      and p: "kpage (kend s0) p" and x: "x \<in> page p" for m p x
  proof -
    have i: "pa + (x - p) \<in> page pa" using x by (simp add: page_def in_span_iff)
    have "pa \<notin> tpages (mem s0) pt \<union> set ps0" using dis D(8) [OF k(2)] k(2) by (auto simp: pa_def)
    then have "pa + (x - p) \<notin> covered (tpages (mem s0) pt \<union> set ps0)"
      using i al D(10) [of k] by (intro page_not_covered [of pa]) (simp_all add: pa_def)
    with m show ?thesis
      using memmove_page [OF p kpa] wr_page_inside [OF x] by (simp add: pbytes_def pa_def)
  qed
  have Suc: "insert k {..<k} = {..<Suc k}" by auto
  show thesis
    by (rule fill_one [OF fil R(1) k(1) R(2,3) F [unfolded fl_def], of "\<lambda>m p. memmove m p pa 4096"])
      (use out ins none_left added refused in \<open>unfold Suc fl_def, blast+\<close>)
qed

lemma uvmcopy_loop_ok:
  assumes par: "space_ok s0 old ps0 Kp" and new: "space_ok s0 pt ps0 K"
    and dis: "(tpages (mem s0) old \<union> upage (mem s0) old ` Kp) \<inter> tpages (mem s0) pt = {}"
    and n: "n = npages usz" "n \<le> 2 ^ 26" "{..<n} \<subseteq> Kp" "K \<inter> {..<n} = {}"
    and z: "\<And>j. j < n \<Longrightarrow> leafn (mem s0) pt j = 0"
    and fil: "filled s0 pt ps0 K {..<k} (pflags (mem s0) old) (pbytes (mem s0) old) s ps"
    and k: "k \<le> n" "n - k < fuel"
  shows "\<exists>r s' ps'. uvmcopy_loop fuel old pt (page_va k) usz s = Ok r s' \<and>
     (r = 0 \<and> filled s0 pt ps0 K {..<n} (pflags (mem s0) old) (pbytes (mem s0) old) s' ps' \<or>
      r = - 1 \<and> shrunk_back s0 pt ps0 K {} s' ps')"
  using fil k
proof (induction "n - k" arbitrary: k s ps fuel)
  case 0
  then obtain f where "fuel = Suc f" by (cases fuel) auto
  moreover have "\<not> page_va k < usz" using 0 n page_va_less_size [of k usz] by simp
  ultimately show ?case using 0 by auto
next
  case (Suc d)
  have kn: "k < n" "d = n - Suc k" using Suc.hyps(2) by auto
  obtain f where f: "fuel = Suc f" "n - Suc k < f" using Suc.prems(3) kn by (cases fuel) auto
  have lt: "page_va k < usz" using kn n page_va_less_size [of k usz] by simp
  have k: "k < 2 ^ 26" "k \<in> Kp" "k \<notin> K" "leafn (mem s0) pt k = 0" using kn n z by auto
  note D = filledD [OF Suc.prems(1)]
  have km: "kmem_ok s ps" using vm_okD(1) [OF space_okD(1) [OF D(1)]] .
  have sub: "set ps \<subseteq> tpages (mem s0) pt \<union> set ps0" using D(2) by auto
  have pok: "space_ok s old ps Kp" "leaf (mem s) old = leaf (mem s0) old"
    by (rule other_space_kept [OF par km D(3) new sub dis])+
  have l: "leafn (mem s) old k = leafn (mem s0) old k" using upage_leaf(1) [OF pok(2)] by simp
  obtain b where W: "walk old (page_va k) False s = Ok b s" "b \<noteq> 0" "ld64 (mem s) b = leafn (mem s0) old k"
    using walk_owned [OF space_okD(1) [OF pok(1)] k(1) space_okD(3) [OF pok(1) k(2)]] l by metis
  have v: "leafn (mem s0) old k AND PTE_V \<noteq> 0"
    using space_okD(3) [OF par k(2)] by (simp add: pte_valid_def)
  note step = f(1) lt W v upage_def pflags_def Let_def
  have Kk: "K \<inter> {..<k} = {}" using n(4) kn(1) by auto
  have zk: "\<And>j. j < k \<Longrightarrow> leafn (mem s0) pt j = 0" using z kn(1) by auto
  show ?case
  proof (cases rule: copy_one [OF par new dis Suc.prems(1) k])
    case (1 s1)
    obtain s' ps' where "uvmunmap pt 0 (page_va k div PGSIZE) True s1 = Ok () s'" "shrunk_back s0 pt ps0 K {} s' ps'"
      by (rule filled_undo [OF 1(2) less_imp_le [OF k(1)] Kk zk])
    then show ?thesis using 1(1) step by auto
  next
    case (2 p s1 s2 ps2)
    have "uvmcopy_loop fuel old pt (page_va k) usz s = uvmcopy_loop f old pt (page_va (Suc k)) usz s2"
      using 2(1-3) step by (simp add: page_va_Suc)
    then show ?thesis using Suc.hyps(1) [OF kn(2) 2(4) _ f(2)] kn(1) by simp
  next
    case (3 p s1 s2 s3)
    obtain s' ps' where "uvmunmap pt 0 (page_va k div PGSIZE) True s3 = Ok () s'" "shrunk_back s0 pt ps0 K {} s' ps'"
      by (rule filled_undo [OF 3(5) less_imp_le [OF k(1)] Kk zk])
    then show ?thesis using 3(1-4) step by auto
  qed
qed

lemma uvmcopy_ok:
  assumes par: "space_ok s old ps Kp" and new: "space_ok s pt ps K"
    and dis: "(tpages (mem s) old \<union> upage (mem s) old ` Kp) \<inter> tpages (mem s) pt = {}"
    and n: "unat usz \<le> 2 ^ 38" "{..<npages usz} \<subseteq> Kp" "K \<inter> {..<npages usz} = {}"
    and z: "\<And>j. j < npages usz \<Longrightarrow> leafn (mem s) pt j = 0"
  shows "\<exists>r s' ps'. uvmcopy old pt usz s = Ok r s' \<and>
     (r = 0 \<and> filled s pt ps K {..<npages usz} (pflags (mem s) old) (pbytes (mem s) old) s' ps' \<or>
      r = - 1 \<and> shrunk_back s pt ps K {} s' ps')"
proof -
  have "npages usz \<le> unat usz div 4096 + 1" by (simp add: npages_def)
  then have f: "npages usz - 0 < page_fuel usz" by (simp add: page_fuel_def)
  have e: "{..<0 :: nat} = {}" "page_va 0 = 0" by (auto simp: page_va_def)
  show ?thesis
    using uvmcopy_loop_ok [OF par new dis refl npages_bound [OF n(1)] n(2,3) z
        filled_refl [OF new, folded e(1)] le0 f]
    by (simp add: uvmcopy_def e)
qed

end
