(* ===== verification/Vm_Free.thy ===== *)
theory Vm_Free
  imports Vm_Fork
begin

text \<open>
  Destroying an address space: \<^verbatim>\<open>freewalk\<close> and \<^verbatim>\<open>uvmfree\<close> return every table page and every user page
  to the allocator, each exactly once.
\<close>

section \<open>Subtrees\<close>

text \<open>The pages of a subtree with \<open>d\<close> inner levels, and what \<^verbatim>\<open>freewalk\<close> needs of it: no leaf is valid.\<close>

abbreviation child :: "memory \<Rightarrow> u64 \<Rightarrow> nat \<Rightarrow> u64" where
  "child m a i \<equiv> PTE2PA (ent m a i)"

definition kids :: "memory \<Rightarrow> u64 \<Rightarrow> nat set" where
  "kids m a = {i. i < 512 \<and> pte_valid (ent m a i)}"

fun subtree :: "nat \<Rightarrow> memory \<Rightarrow> u64 \<Rightarrow> u64 set" where
  "subtree 0 m a = {a}"
| "subtree (Suc d) m a = insert a (\<Union>i\<in>kids m a. subtree d m (child m a i))"

fun clear_tree :: "nat \<Rightarrow> memory \<Rightarrow> u64 \<Rightarrow> bool" where
  "clear_tree 0 m a \<longleftrightarrow> kids m a = {}"
| "clear_tree (Suc d) m a \<longleftrightarrow>
     (\<forall>i\<in>kids m a. ent m a i AND RWX = 0 \<and> clear_tree d m (child m a i) \<and> a \<notin> subtree d m (child m a i)) \<and>
     (\<forall>i\<in>kids m a. \<forall>j\<in>kids m a. i \<noteq> j \<longrightarrow> subtree d m (child m a i) \<inter> subtree d m (child m a j) = {})"

lemma root_in_subtree [simp]: "a \<in> subtree d m a"
  by (cases d) simp_all

lemma kids_lt: "i \<in> kids m a \<Longrightarrow> i < 512"
  by (simp add: kids_def)

lemma kids_page:
  assumes "\<And>x. x \<in> page a \<Longrightarrow> m' x = m x"
  shows "kids m' a = kids m a" "i < 512 \<Longrightarrow> ent m' a i = ent m a i"
proof -
  have e: "ent m' a i = ent m a i" if "i < 512" for i
    by (rule ent_same_page [OF that]) (rule assms)
  show "i < 512 \<Longrightarrow> ent m' a i = ent m a i" by (rule e)
  show "kids m' a = kids m a" using e by (auto simp: kids_def)
qed

lemma subtree_frame:
  assumes "\<forall>p\<in>subtree d m a. \<forall>x\<in>page p. m' x = m x"
  shows "subtree d m' a = subtree d m a" "clear_tree d m' a = clear_tree d m a"
proof -
  have "subtree d m' a = subtree d m a \<and> clear_tree d m' a = clear_tree d m a"
    using assms
  proof (induction d arbitrary: a)
    case 0
    then show ?case using kids_page(1) [of a m' m] by simp
  next
    case (Suc d)
    have top: "kids m' a = kids m a" "\<And>i. i \<in> kids m a \<Longrightarrow> ent m' a i = ent m a i"
      using kids_page [of a m' m] Suc.prems by (simp_all add: kids_lt)
    have "subtree d m' (child m a i) = subtree d m (child m a i) \<and>
        clear_tree d m' (child m a i) = clear_tree d m (child m a i)" if "i \<in> kids m a" for i
      by (rule Suc.IH) (use Suc.prems that in auto)
    then show ?case using top by simp
  qed
  then show "subtree d m' a = subtree d m a" "clear_tree d m' a = clear_tree d m a" by blast+
qed

section \<open>freewalk\<close>

definition freewalk_body :: "nat \<Rightarrow> u64 \<Rightarrow> nat \<Rightarrow> 'a kmem_scheme \<Rightarrow> (unit, 'a kmem_scheme) out" where
  "freewalk_body d a i s =
     (let pte = ld64 (mem s) (pte_addr a (of_nat i))
      in if pte AND PTE_V \<noteq> 0 \<and> pte AND (PTE_R OR PTE_W OR PTE_X) = 0
         then and_then (freewalk d (PTE2PA pte) s) (\<lambda>_ s.
           Ok () (s\<lparr>mem := st64 (mem s) (pte_addr a (of_nat i)) 0\<rparr>))
         else if pte AND PTE_V \<noteq> 0 then Panic ''freewalk: leaf'' else Ok () s)"

lemma freewalk_Suc:
  "freewalk (Suc d) a s = and_then (for_each (freewalk_body d a) [0..<512] s) (\<lambda>_ s. kfree a s)"
  by (simp add: freewalk_body_def [abs_def])

text \<open>Pages that may be returned: allocator pages that are not free.\<close>

definition returnable :: "'a kmem_scheme \<Rightarrow> u64 list \<Rightarrow> u64 set \<Rightarrow> bool" where
  "returnable s ps P \<longleftrightarrow> (\<forall>p\<in>P. kpage (kend s) p \<and> p \<notin> set ps)"

definition freed :: "'a kmem_scheme \<Rightarrow> u64 list \<Rightarrow> u64 set \<Rightarrow> u64 set \<Rightarrow> 'a kmem_scheme \<Rightarrow> u64 list \<Rightarrow> bool" where
  "freed s ps P W s' qs \<longleftrightarrow> kmem_ok s' (qs @ ps) \<and> set qs = P \<and> unch W s s'"

lemma free_one:
  assumes "kmem_ok s ps" "returnable s ps {a}"
  obtains s' where "kfree a s = Ok () s'" "freed s ps {a} {a} s' [a]"
proof -
  obtain s' where "kfree a s = Ok () s'" "kmem_ok s' (a # ps)" "kend s' = kend s"
    "\<And>x. x \<notin> page a \<Longrightarrow> mem s' x = mem s x" "kframe s s'"
    using kfree_ok [OF assms(1)] assms(2) kframe_kfree by (metis returnable_def singletonI)
  then show thesis by (intro that) (auto simp: freed_def unch_def covered_def)
qed

lemma clear_slot:
  assumes "kmem_ok s ps" "kpage (kend s) a" "a \<notin> set ps" "i < 512"
  shows "freed s ps {} {a} (s\<lparr>mem := st64 (mem s) (pte_addr a (of_nat i)) 0\<rparr>) []"
proof -
  have out: "st64 (mem s) (pte_addr a (of_nat i)) 0 x = mem s x" if "x \<notin> page a" for x
    using st64_ent_off_page [OF assms(4) that] .
  have "x \<notin> page a" if "q \<in> set ps" "x \<in> page q" for q x
    using that assms(2,3) page_disjoint [of q a] kmem_okD(7) [OF assms(1), of q] by (auto simp: kpage_def)
  then have "kmem_ok (s\<lparr>mem := st64 (mem s) (pte_addr a (of_nat i)) 0\<rparr>) ps"
    using out by (intro kmem_ok_mem [OF assms(1)]) blast
  then show ?thesis using out by (simp add: freed_def unch_def covered_def)
qed

lemma freed_trans:
  assumes "freed s ps P W s1 qs1" "freed s1 (qs1 @ ps) Q X s2 qs2"
  shows "freed s ps (P \<union> Q) (W \<union> X) s2 (qs2 @ qs1)"
  using assms unch_trans [of W s s1 X s2 "W \<union> X"] by (auto simp: freed_def)

lemma freed_outside:
  assumes "freed s ps P W s' qs" "aligned p" "p \<notin> W" "x \<in> page p" "\<And>q. q \<in> W \<Longrightarrow> aligned q"
  shows "mem s' x = mem s x"
  using assms unchD(3) [of W s s' x] page_not_covered [OF assms(2) assms(5,3,4)] by (simp add: freed_def)

text \<open>What the loop over the entries \<open>I\<close> of table \<open>a\<close> needs, and the pages it returns.\<close>

definition below :: "nat \<Rightarrow> 'a kmem_scheme \<Rightarrow> u64 \<Rightarrow> nat \<Rightarrow> u64 set" where
  "below d s a i = subtree d (mem s) (child (mem s) a i)"

definition kids_ok :: "nat \<Rightarrow> 'a kmem_scheme \<Rightarrow> u64 list \<Rightarrow> u64 \<Rightarrow> nat set \<Rightarrow> bool" where
  "kids_ok d s ps a I \<longleftrightarrow> kmem_ok s ps \<and> kpage (kend s) a \<and> a \<notin> set ps \<and>
     (\<forall>i\<in>I \<inter> kids (mem s) a. ent (mem s) a i AND RWX = 0 \<and> clear_tree d (mem s) (child (mem s) a i) \<and>
        a \<notin> below d s a i \<and> returnable s ps (below d s a i)) \<and>
     (\<forall>i\<in>I \<inter> kids (mem s) a. \<forall>j\<in>I \<inter> kids (mem s) a. i \<noteq> j \<longrightarrow> below d s a i \<inter> below d s a j = {})"

definition free_below :: "nat \<Rightarrow> 'a kmem_scheme \<Rightarrow> u64 \<Rightarrow> nat set \<Rightarrow> u64 set" where
  "free_below d s a I = (\<Union>i\<in>I \<inter> kids (mem s) a. below d s a i)"

lemma kids_okD:
  assumes "kids_ok d s ps a I"
  shows "kmem_ok s ps" "kpage (kend s) a" "a \<notin> set ps"
    "i \<in> I \<Longrightarrow> i \<in> kids (mem s) a \<Longrightarrow> ent (mem s) a i AND RWX = 0"
    "i \<in> I \<Longrightarrow> i \<in> kids (mem s) a \<Longrightarrow> clear_tree d (mem s) (child (mem s) a i)"
    "i \<in> I \<Longrightarrow> i \<in> kids (mem s) a \<Longrightarrow> a \<notin> below d s a i"
    "i \<in> I \<Longrightarrow> i \<in> kids (mem s) a \<Longrightarrow> returnable s ps (below d s a i)"
    "i \<in> I \<Longrightarrow> j \<in> I \<Longrightarrow> i \<in> kids (mem s) a \<Longrightarrow> j \<in> kids (mem s) a \<Longrightarrow> i \<noteq> j \<Longrightarrow> below d s a i \<inter> below d s a j = {}"
  using assms by (auto simp: kids_ok_def)

text \<open>After one child is gone, the others are as they were.\<close>

lemma kids_ok_step:
  assumes ok: "kids_ok d s ps a (insert i I)" and i: "i < 512" "i \<notin> I" "I \<subseteq> {..<512}" "i \<in> kids (mem s) a"
    and fr: "freed s ps (below d s a i) (insert a (below d s a i)) s2 qs"
    and e: "\<And>j. j < 512 \<Longrightarrow> ent (mem s2) a j = (if j = i then 0 else ent (mem s) a j)"
  shows "kids_ok d s2 (qs @ ps) a I" "free_below d s2 a I = free_below d s a I"
proof -
  note K = kids_okD [OF ok]
  have al: "aligned q" if "q \<in> insert a (below d s a i)" for q
    using that K(2) K(7) [of i] i(4) by (auto simp: returnable_def kpage_def)
  have k2: "kmem_ok s2 (qs @ ps)" "kend s2 = kend s" "set qs = below d s a i"
    using fr unchD(2) by (auto simp: freed_def)
  have kd: "I \<inter> kids (mem s2) a = I \<inter> kids (mem s) a"
    using i e by (auto simp: kids_def split: if_splits)
  have same: "below d s2 a j = below d s a j" "ent (mem s2) a j = ent (mem s) a j"
      "clear_tree d (mem s2) (child (mem s2) a j) = clear_tree d (mem s) (child (mem s) a j)"
    if j: "j \<in> I \<inter> kids (mem s) a" for j
  proof -
    have jj: "j \<noteq> i" "j < 512" using j i by auto
    then show ej: "ent (mem s2) a j = ent (mem s) a j" using e by simp
    have "\<forall>p\<in>below d s a j. \<forall>x\<in>page p. mem s2 x = mem s x"
      using K(8) [of j i] K(6) [of j] K(7) [of j] j i(4) jj al
      by (intro ballI freed_outside [OF fr]) (auto simp: returnable_def kpage_def)
    then show "below d s2 a j = below d s a j"
      "clear_tree d (mem s2) (child (mem s2) a j) = clear_tree d (mem s) (child (mem s) a j)"
      unfolding ej below_def by (rule subtree_frame)+
  qed
  then show "free_below d s2 a I = free_below d s a I" unfolding free_below_def kd by simp
  have "returnable s2 (qs @ ps) (below d s a j)" if j: "j \<in> I \<inter> kids (mem s) a" for j
    using K(7) [of j] K(8) [of j i] j i(2,4) k2(2,3) by (auto simp: returnable_def)
  moreover have "a \<notin> set (qs @ ps)" using K(3) K(6) [of i] i(4) k2(3) by auto
  ultimately show "kids_ok d s2 (qs @ ps) a I"
    unfolding kids_ok_def kd using K k2(1,2) same by auto
qed

lemma freewalk_children:
  fixes s :: "'a kmem_scheme"
  assumes IH: "\<And>c (s :: 'a kmem_scheme) ps. clear_tree d (mem s) c \<Longrightarrow> kmem_ok s ps \<Longrightarrow>
      returnable s ps (subtree d (mem s) c) \<Longrightarrow>
      \<exists>s' qs. freewalk (Suc d) c s = Ok () s' \<and> freed s ps (subtree d (mem s) c) (subtree d (mem s) c) s' qs"
    and "distinct is" "set is \<subseteq> {..<512}" "kids_ok d s ps a (set is)"
  shows "\<exists>s' qs. for_each (freewalk_body (Suc d) a) is s = Ok () s' \<and>
     freed s ps (free_below d s a (set is)) (insert a (free_below d s a (set is))) s' qs"
  using assms(2-)
proof (induction "is" arbitrary: s ps)
  case Nil
  then show ?case by (auto simp: freed_def free_below_def kids_ok_def intro!: exI [of _ "[]"])
next
  case (Cons i "is")
  note K = kids_okD [OF Cons.prems(3)]
  have i: "i < 512" "i \<notin> set is" "distinct is" "set is \<subseteq> {..<512}" using Cons.prems(1,2) by auto
  have e: "ld64 (mem s) (pte_addr a (of_nat i)) = ent (mem s) a i" by (simp add: ent_def)
  show ?case
  proof (cases "i \<in> kids (mem s) a")
    case False
    then have "freewalk_body (Suc d) a i s = Ok () s"
      using i(1) by (simp add: freewalk_body_def e kids_def pte_valid_def Let_def)
    moreover have "set (i # is) \<inter> kids (mem s) a = set is \<inter> kids (mem s) a" using False by auto
    moreover have "kids_ok d s ps a (set is)"
      using Cons.prems(3) calculation(2) by (simp add: kids_ok_def)
    ultimately show ?thesis using Cons.IH [OF i(3,4)] by (simp add: free_below_def)
  next
    case True
    have c: "clear_tree d (mem s) (child (mem s) a i)" "a \<notin> below d s a i"
      "returnable s ps (subtree d (mem s) (child (mem s) a i))"
      using K(5-7) [of i] True by (simp_all add: below_def)
    obtain s1 qs1 where 1: "freewalk (Suc d) (child (mem s) a i) s = Ok () s1"
        "freed s ps (below d s a i) (below d s a i) s1 qs1"
      using IH [OF c(1) K(1) c(3)] by (auto simp: below_def)
    define s2 where "s2 = s1\<lparr>mem := st64 (mem s1) (pte_addr a (of_nat i)) 0\<rparr>"
    have k1: "kmem_ok s1 (qs1 @ ps)" "kpage (kend s1) a" "a \<notin> set (qs1 @ ps)"
      using 1(2) unchD(2) [of _ s s1] K(2,3) c(2) by (auto simp: freed_def)
    have 2: "freed s ps (below d s a i) (insert a (below d s a i)) s2 qs1"
      using freed_trans [OF 1(2) clear_slot [OF k1 i(1)]] by (simp add: s2_def)
    have al: "aligned q" if "q \<in> insert a (below d s a i)" for q
      using that K(2) c(3) by (auto simp: returnable_def kpage_def below_def)
    have st: "freewalk_body (Suc d) a i s = Ok () s2"
      using 1(1) K(4) [of i] True
      by (simp add: freewalk_body_def e kids_def pte_valid_def RWX_def s2_def Let_def)
    have e2: "ent (mem s2) a j = (if j = i then 0 else ent (mem s) a j)" if "j < 512" for j
    proof -
      have "ent (mem s1) a j = ent (mem s) a j"
        by (rule ent_same_page [OF that], rule freed_outside [OF 1(2) _ c(2)]) (use al in auto)
      then show ?thesis using ent_st64 [OF _ _ i(1) that, of a a] al by (simp add: s2_def)
    qed
    have "kids_ok d s ps a (insert i (set is))" using Cons.prems(3) by simp
    note S = kids_ok_step [OF this i(1,2,4) True 2 e2]
    obtain s3 qs where 3: "for_each (freewalk_body (Suc d) a) is s2 = Ok () s3"
      "freed s2 (qs1 @ ps) (free_below d s a (set is)) (insert a (free_below d s a (set is))) s3 qs"
      using Cons.IH [OF i(3,4) S(1)] S(2) by auto
    have "free_below d s a (set (i # is)) = below d s a i \<union> free_below d s a (set is)"
      using True by (auto simp: free_below_def)
    with freed_trans [OF 2 3(2)] st 3(1) show ?thesis by auto
  qed
qed

lemma all_entries: "set [0..<512] \<subseteq> {..<(512::nat)}"
  by (simp only: set_upt) auto

lemma freewalk_ok:
  assumes "clear_tree d (mem s) a" "kmem_ok s ps" "returnable s ps (subtree d (mem s) a)"
  shows "\<exists>s' qs. freewalk (Suc d) a s = Ok () s' \<and>
     freed s ps (subtree d (mem s) a) (subtree d (mem s) a) s' qs"
  using assms
proof (induction d arbitrary: a s ps)
  case 0
  have body: "freewalk_body 0 a i s = Ok () s" if "i < 512" for i
    using 0(1) that by (auto simp: freewalk_body_def kids_def pte_valid_def ent_def Let_def)
  have loop: "for_each (freewalk_body 0 a) xs s = Ok () s" if "set xs \<subseteq> {..<512}" for xs
    using that body by (induction xs) auto
  note l = loop [OF all_entries]
  obtain s' where "kfree a s = Ok () s'" "freed s ps {a} {a} s' [a]"
    using free_one [OF 0(2)] 0(3) by auto
  then show ?case using l by (simp only: freewalk_Suc) auto
next
  case (Suc d)
  let ?P = "free_below d s a (set [0..<512])"
  have P: "?P = (\<Union>i\<in>kids (mem s) a. subtree d (mem s) (child (mem s) a i))"
    by (auto simp: free_below_def below_def kids_def)
  have ok: "kids_ok d s ps a (set [0..<512])"
    using Suc.prems by (auto simp: kids_ok_def below_def returnable_def)
  obtain s1 qs where 1: "for_each (freewalk_body (Suc d) a) [0..<512] s = Ok () s1"
    "freed s ps ?P (insert a ?P) s1 qs"
    using freewalk_children [OF Suc.IH distinct_upt all_entries ok] by blast
  have k: "kmem_ok s1 (qs @ ps)" "returnable s1 (qs @ ps) {a}"
    using 1(2) Suc.prems(1,3) unchD(2) [of _ s s1] P by (auto simp: freed_def returnable_def)
  obtain s2 where 2: "kfree a s1 = Ok () s2" "freed s1 (qs @ ps) {a} {a} s2 [a]" by (rule free_one [OF k])
  have "subtree (Suc d) (mem s) a = ?P \<union> {a}" "insert a ?P \<union> {a} = ?P \<union> {a}" using P by auto
  then show ?case using freed_trans [OF 1(2) 2(2)] 1(1) 2(1)
    by (simp only: freewalk_Suc [of "Suc d"]) auto
qed

section \<open>uvmfree\<close>

text \<open>A page table without valid leaves is a tree that \<^verbatim>\<open>freewalk\<close> can take apart.\<close>

lemma node_kid: "i \<in> kids m a \<Longrightarrow> node m a (i # \<pi>) = node m (child m a i) \<pi>"
  by (simp add: node.simps(2) kids_def)

lemma node_ConsD:
  assumes "node m a (i # \<pi>) = Some b" "i < 512"
  shows "i \<in> kids m a" "node m (child m a i) \<pi> = Some b"
  using assms by (auto simp: node.simps(2) kids_def split: if_splits)

lemma subtree_node: "subtree d m a = {b. \<exists>\<pi>. length \<pi> \<le> d \<and> set \<pi> \<subseteq> {..<512} \<and> node m a \<pi> = Some b}"
proof (induction d arbitrary: a)
  case (Suc d)
  have "b \<in> subtree (Suc d) m a \<longleftrightarrow> (\<exists>\<pi>. length \<pi> \<le> Suc d \<and> set \<pi> \<subseteq> {..<512} \<and> node m a \<pi> = Some b)" for b
  proof
    assume "b \<in> subtree (Suc d) m a"
    then consider "b = a" | i \<pi> where "i \<in> kids m a" "length \<pi> \<le> d" "set \<pi> \<subseteq> {..<512}" "node m (child m a i) \<pi> = Some b"
      using Suc.IH by auto
    then show "\<exists>\<pi>. length \<pi> \<le> Suc d \<and> set \<pi> \<subseteq> {..<512} \<and> node m a \<pi> = Some b"
    proof cases
      case 1
      then show ?thesis by (intro exI [of _ "[]"]) simp
    next
      case 2
      then show ?thesis using kids_lt [OF 2(1)] by (intro exI [of _ "i # \<pi>"]) (simp add: node_kid)
    qed
  next
    assume "\<exists>\<pi>. length \<pi> \<le> Suc d \<and> set \<pi> \<subseteq> {..<512} \<and> node m a \<pi> = Some b"
    then obtain \<pi> where p: "length \<pi> \<le> Suc d" "set \<pi> \<subseteq> {..<512}" "node m a \<pi> = Some b" by blast
    show "b \<in> subtree (Suc d) m a"
    proof (cases \<pi>)
      case (Cons i \<sigma>)
      have "i < 512" using p(2) Cons by simp
      with node_ConsD [OF p(3) [unfolded Cons]] p(1,2) Suc.IH Cons show ?thesis by auto
    qed (use p in simp)
  qed
  then show ?case by blast
qed simp

lemma clear_treeI:
  assumes "\<And>\<pi> \<sigma> b. length \<pi> \<le> d \<Longrightarrow> length \<sigma> \<le> d \<Longrightarrow> set \<pi> \<subseteq> {..<512} \<Longrightarrow> set \<sigma> \<subseteq> {..<512} \<Longrightarrow>
      node m a \<pi> = Some b \<Longrightarrow> node m a \<sigma> = Some b \<Longrightarrow> \<pi> = \<sigma>"
    and "\<And>\<pi> b i. length \<pi> < d \<Longrightarrow> set \<pi> \<subseteq> {..<512} \<Longrightarrow> node m a \<pi> = Some b \<Longrightarrow> i \<in> kids m b \<Longrightarrow> ent m b i AND RWX = 0"
    and "\<And>\<pi> b. length \<pi> = d \<Longrightarrow> set \<pi> \<subseteq> {..<512} \<Longrightarrow> node m a \<pi> = Some b \<Longrightarrow> kids m b = {}"
  shows "clear_tree d m a"
  using assms
proof (induction d arbitrary: a)
  case 0
  then show ?case by simp
next
  case (Suc d)
  have up: "node m a (i # \<pi>) = Some b" if "i \<in> kids m a" "node m (child m a i) \<pi> = Some b" for i \<pi> b
    using that by (simp add: node_kid)
  have sub: "set (i # \<pi>) \<subseteq> {..<512}" if "i \<in> kids m a" "set \<pi> \<subseteq> {..<512}" for i \<pi>
    using that kids_lt by auto
  have "ent m a i AND RWX = 0 \<and> clear_tree d m (child m a i) \<and> a \<notin> subtree d m (child m a i)"
    if i: "i \<in> kids m a" for i
  proof (intro conjI)
    show "ent m a i AND RWX = 0" using Suc.prems(2) [of "[]"] i by simp
    show "clear_tree d m (child m a i)"
    proof (rule Suc.IH)
      show "\<pi> = \<sigma>" if "length \<pi> \<le> d" "length \<sigma> \<le> d" "set \<pi> \<subseteq> {..<512}" "set \<sigma> \<subseteq> {..<512}"
        "node m (child m a i) \<pi> = Some b" "node m (child m a i) \<sigma> = Some b" for \<pi> \<sigma> b
        using Suc.prems(1) [of "i # \<pi>" "i # \<sigma>" b] that sub [OF i] up [OF i] by simp
      show "ent m b j AND RWX = 0" if "length \<pi> < d" "set \<pi> \<subseteq> {..<512}"
        "node m (child m a i) \<pi> = Some b" "j \<in> kids m b" for \<pi> b j
        using Suc.prems(2) [of "i # \<pi>" b j] that sub [OF i] up [OF i] by simp
      show "kids m b = {}" if "length \<pi> = d" "set \<pi> \<subseteq> {..<512}" "node m (child m a i) \<pi> = Some b" for \<pi> b
        using Suc.prems(3) [of "i # \<pi>" b] that sub [OF i] up [OF i] by simp
    qed
    show "a \<notin> subtree d m (child m a i)"
      using Suc.prems(1) [of "[]" "i # _" a] sub [OF i] up [OF i] by (fastforce simp: subtree_node)
  qed
  moreover have "subtree d m (child m a i) \<inter> subtree d m (child m a j) = {}"
    if ij: "i \<in> kids m a" "j \<in> kids m a" "i \<noteq> j" for i j
  proof (rule ccontr)
    assume "subtree d m (child m a i) \<inter> subtree d m (child m a j) \<noteq> {}"
    then obtain b \<pi> \<sigma> where "length \<pi> \<le> d" "length \<sigma> \<le> d" "set \<pi> \<subseteq> {..<512}" "set \<sigma> \<subseteq> {..<512}"
      "node m (child m a i) \<pi> = Some b" "node m (child m a j) \<sigma> = Some b" by (auto simp: subtree_node)
    then show False
      using Suc.prems(1) [of "i # \<pi>" "j # \<sigma>" b] sub [OF ij(1)] sub [OF ij(2)] up [OF ij(1)] up [OF ij(2)] ij(3) by simp
  qed
  ultimately show ?case by simp
qed

lemma tpages_subtree: "tpages m pt = subtree 2 m pt"
  by (auto simp: tpages_def subtree_node paths_def)

lemma base_digit: "k < 512 \<Longrightarrow> (x * 512 + k) mod 512 = (k :: nat)" "k < 512 \<Longrightarrow> (x * 512 + k) div 512 = x"
  by simp_all

lemma empty_space_clear:
  assumes ok: "pt_ok m pt" and inv: "\<And>k. k < 2 ^ 26 \<Longrightarrow> \<not> pte_valid (leafn m pt k)"
  shows "clear_tree 2 m pt"
proof (rule clear_treeI)
  show "\<pi> = \<sigma>" if "length \<pi> \<le> 2" "length \<sigma> \<le> 2" "set \<pi> \<subseteq> {..<512}" "set \<sigma> \<subseteq> {..<512}"
    "node m pt \<pi> = Some b" "node m pt \<sigma> = Some b" for \<pi> \<sigma> b
    using pt_ok_inj [OF ok, of \<pi> \<sigma> b] that by (simp add: paths_def)
  show "ent m b i AND RWX = 0" if "length \<pi> < 2" "set \<pi> \<subseteq> {..<512}" "node m pt \<pi> = Some b" "i \<in> kids m b" for \<pi> b i
    using pt_ok_inner [OF ok, of \<pi> i b] that by (simp add: paths_def kids_def)
  fix \<pi> :: "nat list" and b
  assume p: "length \<pi> = 2" "set \<pi> \<subseteq> {..<512}" "node m pt \<pi> = Some b"
  then obtain i j where ij: "\<pi> = [i, j]" "i < 512" "j < 512" by (auto simp: numeral_2_eq_2 length_Suc_conv)
  have "i \<in> kids m pt" using node_ConsD(1) p(3) ij by blast
  then have i: "i < 256" using pt_ok_high [OF ok ij(2)] by (auto simp: kids_def not_le [symmetric])
  show "kids m b = {}"
  proof (rule ccontr)
    assume "kids m b \<noteq> {}"
    then obtain k where k: "k < 512" "pte_valid (ent m b k)" by (auto simp: kids_def)
    define J where "J = (i * 512 + j) * 512 + k"
    have J: "J < 2 ^ 26" using i ij(3) k(1) by (simp add: J_def)
    have d: "J mod 512 = k" "J div 512 = i * 512 + j" unfolding J_def by (rule base_digit [OF k(1)])+
    have "J div 512 div 512 = i" unfolding d(2) by (rule base_digit [OF ij(3)])
    then have "J div 512 ^ 2 = i" by (simp add: power2_eq_square div_mult2_eq)
    then have px: "px 2 (page_va J) = i" "px 1 (page_va J) = j" "px 0 (page_va J) = k"
      using i ij(3) d page_va_simps(2) [of J] J by (simp_all add: px_pn)
    have "leafn m pt J = ent m b k"
      using p(3) ij(1) px by (simp add: leafn_page_va [symmetric] leaf_def)
    with inv [OF J] k(2) show False by simp
  qed
qed

text \<open>
  \<^verbatim>\<open>uvmfree\<close> on a space whose only valid leaves are its \<open>npages usz\<close> user pages.
\<close>

lemma uvmfree_ok:
  assumes ok: "space_ok s pt ps {..<npages usz}" and usz: "unat usz \<le> 2 ^ 38"
    and inv: "\<And>k. k < 2 ^ 26 \<Longrightarrow> npages usz \<le> k \<Longrightarrow> \<not> pte_valid (leafn (mem s) pt k)"
  shows "\<exists>s' ps'. uvmfree pt usz s = Ok () s' \<and> kmem_ok s' ps' \<and>
     set ps' = pool s pt ps {..<npages usz} \<and> unch (pool s pt ps {..<npages usz}) s s'"
proof -
  let ?n = "npages usz" and ?P = "pool s pt ps {..<npages usz}"
  note b = npages_bound [OF usz]
  have e: "page_va 0 = 0" "PGROUNDUP usz div PGSIZE = of_nat ?n" "{0..<0 + ?n} = {..<?n}"
    using page_va_diff [of 0 ?n] b by (auto simp: PGROUNDUP_page_va [OF usz] page_va_def)
  have n0: "?n = 0" if "\<not> 0 < usz" using that by (simp add: npages_def word_less_nat_alt)
  obtain s1 ps1 where 1: "(if 0 < usz then uvmunmap pt 0 (of_nat ?n) True s else Ok () s) = Ok () s1"
    "unmap_post s pt ps {..<?n} {..<?n} s1 ps1"
    using uvmunmap_ok [OF ok, of 0 ?n] b unmap_post_none [OF ok] n0
    unfolding e by (cases "0 < usz") auto
  have s1: "space_ok s1 pt ps1 {}" "pool s1 pt ps1 {} = ?P" "unch ?P s s1"
    "\<And>k. k < 2 ^ 26 \<Longrightarrow> \<not> pte_valid (leafn (mem s1) pt k)"
    using 1(2) inv unch_mono [of "tpages (mem s) pt \<union> upage (mem s) pt ` {..<?n}" s s1 ?P]
    by (auto simp: unmap_post_def pool_def not_less)
  note V = vm_okD [OF space_okD(1) [OF s1(1)]]
  have c: "clear_tree 2 (mem s1) pt" by (rule empty_space_clear [OF V(2) s1(4)])
  have r: "returnable s1 ps1 (subtree 2 (mem s1) pt)"
    using V(3,4) by (simp add: returnable_def tpages_subtree)
  obtain s2 qs where 2: "freewalk 3 pt s1 = Ok () s2" "freed s1 ps1 (tpages (mem s1) pt) (tpages (mem s1) pt) s2 qs"
    using freewalk_ok [OF c V(1) r] by (auto simp: tpages_subtree numeral_3_eq_3 numeral_2_eq_2)
  have "uvmfree pt usz s = Ok () s2" using 1(1) 2(1) by (simp only: uvmfree_def e(2)) simp
  moreover have "kmem_ok s2 (qs @ ps1)" "set (qs @ ps1) = ?P"
    using 2(2) s1(2) by (auto simp: freed_def pool_def)
  moreover have "unch ?P s s2"
    using 2(2) s1(2) by (intro unch_trans [OF s1(3), of "tpages (mem s1) pt"]) (auto simp: freed_def pool_def)
  ultimately show ?thesis by blast
qed

end
