(* ===== verification/Vm_Life.thy ===== *)
theory Vm_Life
  imports Vm_Free Proc_Properties
begin

text \<open>
  The life of a user address space, from growing it with \<^verbatim>\<open>uvmalloc\<close> and copying it with \<^verbatim>\<open>uvmcopy\<close> to
  destroying it with \<^verbatim>\<open>proc_freepagetable\<close>, and the system call \<^verbatim>\<open>sbrk\<close>.
\<close>

section \<open>What the user sees\<close>

lemma flags_U: "x AND PTE_U = PTE_FLAGS x AND PTE_U"
  by (simp add: PTE_FLAGS_def PTE_U_def and.assoc)

lemma user_byte_page:
  assumes ok: "space_ok s pt ps K" and va: "va < MAXVA" and k: "pn va \<in> K"
  shows "user_byte (mem s) pt va =
     (if PTE_FLAGS (leafn (mem s) pt (pn va)) AND PTE_U \<noteq> 0
      then Some (mem s (upage (mem s) pt (pn va) + of_nat (unat va mod 4096))) else None)"
proof -
  have "upage (mem s) pt (pn va) \<noteq> 0" "pte_valid (leafn (mem s) pt (pn va))"
    using space_okD(3,5) [OF ok k] vm_okD(1) [OF space_okD(1) [OF ok]] by (auto simp: kpage_def kmem_ok_def)
  then show ?thesis
    using va flags_U [of "leafn (mem s) pt (pn va)"]
    by (simp add: user_byte_def upa_def leaf_leafn user_leaf_def upage_def Let_def)
qed

lemma user_byte_unmapped:
  assumes "space_ok s pt ps K" "pn va \<notin> K"
  shows "user_byte (mem s) pt va = None"
proof (cases "upa (mem s) pt va")
  case (Some a)
  then show ?thesis using upa_owned(2) [OF assms(1) Some] assms(2) by simp
qed (simp add: user_byte_def)

lemma offset_in_user_page: "p + of_nat (unat va mod 4096) \<in> page p" for va :: u64
  unfolding page_def by (rule span_add) simp_all

text \<open>Pages that an operation on another part of memory leaves alone.\<close>

lemma user_byte_kept:
  assumes ok: "space_ok s pt ps K" and ok': "space_ok s' pt ps' K'" and k: "pn va \<in> K" "pn va \<in> K'"
    and u: "unch P s s'" "upage (mem s) pt (pn va) \<notin> P" "\<And>a. a \<in> P \<Longrightarrow> aligned a"
    and l: "leafn (mem s') pt (pn va) = leafn (mem s) pt (pn va)"
  shows "user_byte (mem s') pt va = user_byte (mem s) pt va"
proof (cases "va < MAXVA")
  case True
  have "mem s' x = mem s x" if "x \<in> page (upage (mem s) pt (pn va))" for x
    by (rule unchD(3) [OF u(1)], rule page_not_covered [OF space_okD(10) [OF ok] u(3,2) that])
  then show ?thesis
    using user_byte_page [OF ok True k(1)] user_byte_page [OF ok' True k(2)] l offset_in_user_page
    by (simp add: upage_def)
qed (simp add: user_byte_def upa_def Let_def)

lemma user_byte_same:
  assumes ok: "space_ok s pt ps K" and ok': "space_ok s' pt ps' K'" and k: "pn va \<in> K" "pn va \<in> K'"
    and u: "unch (tpages (mem s) pt \<union> set ps) s s'"
    and l: "leafn (mem s') pt (pn va) = leafn (mem s) pt (pn va)"
  shows "user_byte (mem s') pt va = user_byte (mem s) pt va"
proof (rule user_byte_kept [OF ok ok' k u _ _ l])
  show "upage (mem s) pt (pn va) \<notin> tpages (mem s) pt \<union> set ps" using space_okD(7,8) [OF ok k(1)] by simp
  show "aligned a" if "a \<in> tpages (mem s) pt \<union> set ps" for a
    using that vm_okD(5,1) [OF space_okD(1) [OF ok]] kmem_okD(7) by blast
qed

lemma unmapped_user_byte:
  assumes ok: "space_ok s pt ps K" and u: "unmap_post s pt ps K R s' ps'" and R: "R \<subseteq> K" and va: "pn va \<in> K - R"
  shows "user_byte (mem s') pt va = user_byte (mem s) pt va"
proof -
  note U = u [unfolded unmap_post_def]
  have k: "pn va \<in> K" "pn va < 2 ^ 26" using va space_okD(2) [OF ok] by auto
  have n: "upage (mem s) pt (pn va) \<notin> tpages (mem s) pt \<union> upage (mem s) pt ` R"
    using space_okD(7) [OF ok k(1)] inj_onD [OF space_okD(6) [OF ok] _ k(1)] R va by fastforce
  have al: "aligned a" if "a \<in> tpages (mem s) pt \<union> upage (mem s) pt ` R" for a
    using that vm_okD(5) [OF space_okD(1) [OF ok]] space_okD(10) [OF ok] by auto
  show ?thesis
    by (rule user_byte_kept [OF ok _ k(1) va _ n al]) (use U va k in auto)
qed

section \<open>Growing\<close>

lemma grown_user_byte:
  assumes ok: "space_ok s pt ps {..<n}" and g: "grown s pt ps {..<n} {n..<n'} s' ps'" and n: "n \<le> n'" "n' \<le> 2 ^ 26"
  shows "space_ok s' pt ps' {..<n'}"
    "user_byte (mem s') pt va = (if n \<le> pn va \<and> pn va < n' then Some 0 else user_byte (mem s) pt va)"
proof -
  note G = grownD [OF g]
  have "{..<n} \<union> {n..<n'} = {..<n'}" using n(1) by auto
  then show ok': "space_ok s' pt ps' {..<n'}" using G(1) by simp
  consider "pn va < n" | "pn va \<in> {n..<n'}" | "n' \<le> pn va" by (meson atLeastLessThan_iff not_le)
  then show "user_byte (mem s') pt va = (if n \<le> pn va \<and> pn va < n' then Some 0 else user_byte (mem s) pt va)"
  proof cases
    case 1
    then show ?thesis using user_byte_same [OF ok ok' _ _ G(3)] G(6) [of "pn va"] n by simp
  next
    case 2
    then have p: "pn va < 2 ^ 26" "pn va \<in> {..<n'}" using n by auto
    have "aligned (upage (mem s') pt (pn va))" by (rule space_okD(10) [OF ok'])
    from leaf_value [OF this UPERM_perm(1)]
    have "PTE_FLAGS (leafn (mem s') pt (pn va)) AND PTE_U \<noteq> 0"
      using G(5) [OF p(1) 2] by (simp add: UPERM_eq)
    then show ?thesis
      using user_byte_page [OF ok' _ p(2)] p(1) 2 G(4) [OF 2 offset_in_user_page] by (simp add: less_MAXVA_pn)
  next
    case 3
    then show ?thesis using user_byte_unmapped [OF ok', of va] user_byte_unmapped [OF ok, of va] n(1) by simp
  qed
qed

lemma shrunk_user_byte:
  assumes ok: "space_ok s pt ps K" and h: "shrunk_back s pt ps K {} s' ps'"
  shows "space_ok s' pt ps' K" "tpages (mem s') pt \<union> set ps' = tpages (mem s) pt \<union> set ps"
    "user_byte (mem s') pt = user_byte (mem s) pt"
proof -
  note H = shrunk_backD [OF h]
  show ok': "space_ok s' pt ps' K" "tpages (mem s') pt \<union> set ps' = tpages (mem s) pt \<union> set ps" using H(1,2) by auto
  have "user_byte (mem s') pt va = user_byte (mem s) pt va" for va
  proof (cases "pn va \<in> K")
    case True
    then have "pn va < 2 ^ 26" using space_okD(2) [OF ok] by blast
    then show ?thesis using user_byte_same [OF ok ok'(1) True True] H(3,4) by simp
  qed (simp add: user_byte_unmapped [OF ok] user_byte_unmapped [OF ok'(1)])
  then show "user_byte (mem s') pt = user_byte (mem s) pt" by (rule ext)
qed

text \<open>
  Claim C28. \<^verbatim>\<open>uvmalloc\<close> is all or nothing.  It never panics.  When it returns the new size, every byte of the
  added pages is accessible to the user and zero, and every byte mapped before is unchanged.  When
  it returns 0, the user's view of memory is unchanged and the pages it took are free or table
  pages again: the free pages and the table pages together are the same set as before.
\<close>

theorem uvmalloc_all_or_nothing:
  assumes "space_ok s pt ps {..<npages oldsz}" and "oldsz \<le> newsz" and "unat newsz \<le> 2 ^ 38"
    and "\<forall>j. npages oldsz \<le> j \<longrightarrow> j < npages newsz \<longrightarrow> leafn (mem s) pt j = 0"
  shows "\<exists>r s' ps'. uvmalloc pt oldsz newsz s = Ok r s' \<and>
     (r = newsz \<and> space_ok s' pt ps' {..<npages newsz} \<and>
        (\<forall>va. user_byte (mem s') pt va =
           (if npages oldsz \<le> pn va \<and> pn va < npages newsz then Some 0 else user_byte (mem s) pt va)) \<or>
      r = 0 \<and> space_ok s' pt ps' {..<npages oldsz} \<and> user_byte (mem s') pt = user_byte (mem s) pt \<and>
        tpages (mem s') pt \<union> set ps' = tpages (mem s) pt \<union> set ps)"
proof -
  let ?K = "{..<npages oldsz}" and ?R = "{npages oldsz..<npages newsz}"
  have z: "?R \<inter> ?K = {}" "\<And>j. j \<in> ?R \<Longrightarrow> leafn (mem s) pt j = 0" using assms(4) by auto
  obtain r s' ps' where U: "uvmalloc pt oldsz newsz s = Ok r s'"
    "r = newsz \<and> grown s pt ps ?K ?R s' ps' \<or> r = 0 \<and> shrunk_back s pt ps ?K {} s' ps'"
    using uvmalloc_ok [OF assms(1,3,2) z] by blast
  from U(2) show ?thesis
  proof (elim disjE conjE)
    assume g: "r = newsz" "grown s pt ps ?K ?R s' ps'"
    note G = grown_user_byte [OF assms(1) g(2) npages_mono [OF assms(2)] npages_bound [OF assms(3)]]
    show ?thesis using U(1) g(1) G by blast
  next
    assume b: "r = 0" "shrunk_back s pt ps ?K {} s' ps'"
    show ?thesis using U(1) b(1) shrunk_user_byte [OF assms(1) b(2)] by blast
  qed
qed

lemma npages_demo [simp]: "npages 0x1000 = 1" "npages 0x2000 = 2"
  by (simp_all add: npages_def)

lemma demo_space_1: "space_ok demo_state 0x80001000 [] {..<1}"
proof -
  have "{..<1 :: nat} = {0}" by auto
  then show ?thesis using demo_space(1) by simp
qed

theorem uvmalloc_all_or_nothing_witness:
  "\<exists>r s'. uvmalloc 0x80001000 0x1000 0x2000 demo_state = Ok r s' \<and> (r = 0x2000 \<or> r = 0) \<and>
     user_byte (mem s') 0x80001000 0 = user_byte (mem demo_state) 0x80001000 0"
proof -
  have z: "\<forall>j. npages 0x1000 \<le> j \<longrightarrow> j < npages 0x2000 \<longrightarrow> leafn (mem demo_state) 0x80001000 j = 0"
    using demo_space(4) by (simp add: demo_state_def)
  have ok: "space_ok demo_state 0x80001000 [] {..<npages 0x1000}" using demo_space_1 by simp
  have "pn 0 = 0" by (simp add: pn_def)
  with uvmalloc_all_or_nothing [OF ok _ _ z] show ?thesis by fastforce
qed

section \<open>Copying\<close>

lemma filled_copy_byte:
  assumes par: "space_ok s old ps K" and n: "{..<n} \<subseteq> K"
    and f: "filled s new ps {} {..<n} (pflags (mem s) old) (pbytes (mem s) old) s' ps'" and va: "pn va < n"
  shows "user_byte (mem s') new va = user_byte (mem s) old va"
proof -
  note F = filledD [OF f]
  have ok': "space_ok s' new ps' {..<n}" using F(1) by simp
  have k: "pn va \<in> K" "pn va < 2 ^ 26" "pn va \<in> {..<n}" using n va space_okD(2) [OF par] by auto
  then have m: "va < MAXVA" by (simp add: less_MAXVA_pn)
  have fl: "pflags (mem s) old (pn va) OR PTE_V = pflags (mem s) old (pn va)"
    "\<forall>i\<ge>10. \<not> bit (pflags (mem s) old (pn va)) i"
    using PTE_FLAGS_bits [of "leafn (mem s) old (pn va)"] space_okD(3) [OF par k(1)] by (simp_all add: pflags_def)
  have "PTE_FLAGS (leafn (mem s') new (pn va)) = pflags (mem s) old (pn va)"
    using F(5) [OF k(2)] k(3) leaf_value(2) [OF space_okD(10) [OF ok'] fl(2)] fl(1) by simp
  then show ?thesis
    using user_byte_page [OF ok' m k(3)] user_byte_page [OF par m k(1)] F(4) [OF k(3) offset_in_user_page]
    by (simp add: pflags_def pbytes_def)
qed

text \<open>
  Claim C26. \<^verbatim>\<open>uvmcopy\<close>, the copy of user memory in \<^verbatim>\<open>fork\<close>, is correct: it never panics and never changes
  what the parent sees.  When it returns 0, the child sees at every address below the size exactly
  what the parent sees, in pages that are not the parent's.  When it returns -1, the child maps
  no user page and every page it took is free or a table page of the child again.
\<close>

theorem uvmcopy_copies:
  assumes "space_ok s old ps K" and "space_ok s new ps {}" and "{..<npages usz} \<subseteq> K" and "unat usz \<le> 2 ^ 38"
    and "(tpages (mem s) old \<union> upage (mem s) old ` K) \<inter> tpages (mem s) new = {}"
    and "\<forall>j<npages usz. leafn (mem s) new j = 0"
  shows "\<exists>r s' ps'. uvmcopy old new usz s = Ok r s' \<and> space_ok s' old ps' K \<and>
     user_byte (mem s') old = user_byte (mem s) old \<and>
     (r = 0 \<and> space_ok s' new ps' {..<npages usz} \<and>
        (\<forall>va. pn va < npages usz \<longrightarrow> user_byte (mem s') new va = user_byte (mem s) old va) \<and>
        upage (mem s') new ` {..<npages usz} \<inter> upage (mem s) old ` K = {} \<or>
      r = - 1 \<and> space_ok s' new ps' {} \<and> tpages (mem s') new \<union> set ps' = tpages (mem s) new \<union> set ps)"
proof -
  let ?n = "npages usz" and ?F = "pflags (mem s) old" and ?C = "pbytes (mem s) old"
  have z: "\<And>j. j < ?n \<Longrightarrow> leafn (mem s) new j = 0" using assms(6) by blast
  obtain r s' ps' where U: "uvmcopy old new usz s = Ok r s'"
    "r = 0 \<and> filled s new ps {} {..<?n} ?F ?C s' ps' \<or> r = - 1 \<and> shrunk_back s new ps {} {} s' ps'"
    using uvmcopy_ok [OF assms(1,2,5,4,3) _ z] by blast
  have C: "space_ok s' new ps' (if r = 0 then {..<?n} else {})" "unch (tpages (mem s) new \<union> set ps) s s'"
    "set ps' \<subseteq> tpages (mem s) new \<union> set ps"
    using U(2) filledD(1-3) [of s new ps "{}" "{..<?n}" ?F ?C s' ps'] shrunk_backD(1-3) [of s new ps "{}" "{}" s' ps']
    by (auto split: if_splits)
  have km: "kmem_ok s' ps'" using vm_okD(1) [OF space_okD(1) [OF C(1)]] .
  note P = other_space_kept [OF assms(1) km C(2) assms(2) C(3) assms(5)]
  have "user_byte (mem s') old va = user_byte (mem s) old va" for va
  proof (cases "upa (mem s) old va")
    case (Some b)
    then show ?thesis using P(4) upa_owned(2,4) [OF assms(1) Some] upa_leaf [OF P(2)] by (simp add: user_byte_def)
  qed (use upa_leaf [OF P(2)] in \<open>simp add: user_byte_def\<close>)
  then have par: "user_byte (mem s') old = user_byte (mem s) old" by (rule ext)
  have dis: "(tpages (mem s) new \<union> set ps) \<inter> upage (mem s) old ` K = {}"
    using assms(5) space_okD(8) [OF assms(1)] by blast
  from U(2) show ?thesis
  proof (elim disjE conjE)
    assume g: "r = 0" "filled s new ps {} {..<?n} ?F ?C s' ps'"
    have "upage (mem s') new ` {..<?n} \<inter> upage (mem s) old ` K = {}" using filledD(2) [OF g(2)] dis by blast
    moreover have "\<forall>va. pn va < ?n \<longrightarrow> user_byte (mem s') new va = user_byte (mem s) old va"
      using filled_copy_byte [OF assms(1,3) g(2)] by blast
    ultimately show ?thesis using U(1) P(1) par C(1) g(1) by simp blast
  next
    assume b: "r = - 1" "shrunk_back s new ps {} {} s' ps'"
    show ?thesis using U(1) P(1) par b(1) shrunk_user_byte(1,2) [OF assms(2) b(2)] by blast
  qed
qed

theorem uvmcopy_copies_witness:
  "\<exists>r s'. uvmcopy 0x80001000 0x80006000 0x1000 demo_state = Ok r s' \<and> (r = 0 \<or> r = - 1) \<and>
     user_byte (mem s') 0x80001000 = user_byte (mem demo_state) 0x80001000"
proof -
  have s: "{..<npages 0x1000} \<subseteq> {..<1}" "unat (0x1000 :: u64) \<le> 2 ^ 38"
    "\<forall>j<npages 0x1000. leafn (mem demo_state) 0x80006000 j = 0" using demo_other(3) by simp_all
  have "mem demo_state = demo_mem" by (simp add: demo_state_def)
  then have "(tpages (mem demo_state) 0x80001000 \<union> upage (mem demo_state) 0x80001000 ` {..<1}) \<inter>
      tpages (mem demo_state) 0x80006000 = {}"
    using demo_space(2,5) demo_other(2) by (simp add: lessThan_Suc)
  from uvmcopy_copies [OF demo_space_1 demo_other(1) s(1,2) this s(3)] show ?thesis by blast
qed

section \<open>The page table of a process\<close>

text \<open>Removing a mapping to a page that the address space does not own.\<close>

lemma unmap_foreign:
  assumes ok: "space_ok s pt ps K" and k: "k < 2 ^ 26" "k \<notin> K"
    and v: "pte_valid (leafn (mem s) pt k)" "PTE_FLAGS (leafn (mem s) pt k) \<noteq> PTE_V"
  obtains s' where "uvmunmap pt (page_va k) 1 False s = Ok () s'" "space_ok s' pt ps K"
    "tpages (mem s') pt = tpages (mem s) pt" "unch (tpages (mem s) pt) s s'"
    "\<And>j. j < 2 ^ 26 \<Longrightarrow> leafn (mem s') pt j = (if j = k then 0 else leafn (mem s) pt j)"
proof -
  note D = space_okD [OF ok]
  obtain b where b: "node (mem s) pt [px 2 (page_va k), px 1 (page_va k)] = Some b"
    "walk pt (page_va k) False s = Ok (pte_addr b (PX 0 (page_va k))) s"
    "pte_addr b (PX 0 (page_va k)) \<noteq> 0"
    "ld64 (mem s) (pte_addr b (PX 0 (page_va k))) = leafn (mem s) pt k"
    using walk_owned [OF D(1) k(1) v(1)] by blast
  define s' where "s' = s\<lparr>mem := st64 (mem s) (pte_addr b (PX 0 (page_va k))) 0\<rparr>"
  note S = leafn_store [OF D(1) b(1) k(1) s'_def]
  have lt: "page_va k < page_va (Suc k)" using k(1) by (subst page_va_less) auto
  have al: "page_va k mod PGSIZE = 0" using page_va_simps(3) [of k] k(1) by (simp add: aligned_mod)
  have e: "page_va k + 1 * PGSIZE = page_va (Suc k)" "unat (1 :: u64) + 1 = Suc (Suc 0)"
    by (simp_all add: page_va_Suc)
  have "uvmunmap_loop (Suc (Suc 0)) pt (page_va k) (page_va (Suc k)) False s = Ok () s'"
    using lt b(2-4) v by (simp add: pte_valid_def page_va_Suc s'_def Let_def)
  then have st: "uvmunmap pt (page_va k) 1 False s = Ok () s'"
    unfolding uvmunmap_def e using al by simp
  have lk: "leafn (mem s') pt j = leafn (mem s) pt j" "upage (mem s') pt j = upage (mem s) pt j" if "j \<in> K" for j
    using S(3) [OF D(2) [OF that]] that k(2) by (auto simp: upage_def)
  have im: "upage (mem s') pt ` K = upage (mem s) pt ` K" using lk(2) by (intro image_cong) auto
  have "inj_on (upage (mem s') pt) K" using D(6) lk(2) by (auto simp: inj_on_def)
  moreover have "\<not> user_leaf (leafn (mem s') pt j)" if "j < 2 ^ 26" "j \<notin> K" for j
    using that S(3) D(9) [of j] by (auto simp: user_leaf_def)
  moreover have "kend s' = kend s" "vm_ok s' pt ps" using vm_extD(1,6) [OF S(1)] by auto
  ultimately have "space_ok s' pt ps K"
    using ok lk S(2) unfolding space_ok_def im by simp
  moreover have "unch (tpages (mem s) pt) s s'" using unch_vm_ext [OF S(1)] S(2) by simp
  ultimately show thesis using st S(2,3) by (intro that)
qed

text \<open>
  The user pages of a process end below the trapframe and the trampoline, the two highest pages,
  which the process does not own; nothing is mapped in between.
\<close>

abbreviation TRAMP :: nat where "TRAMP \<equiv> 2 ^ 26 - 1"
abbreviation TFRAME :: nat where "TFRAME \<equiv> 2 ^ 26 - 2"

definition proc_space :: "'a kmem_scheme \<Rightarrow> u64 \<Rightarrow> u64 list \<Rightarrow> u64 \<Rightarrow> bool" where
  "proc_space s pt ps usz \<longleftrightarrow>
     space_ok s pt ps {..<npages usz} \<and> unat usz \<le> unat TRAPFRAME \<and>
     (\<forall>k\<in>{TFRAME, TRAMP}. pte_valid (leafn (mem s) pt k) \<and> PTE_FLAGS (leafn (mem s) pt k) \<noteq> PTE_V) \<and>
     (\<forall>k. npages usz \<le> k \<longrightarrow> k < TFRAME \<longrightarrow> leafn (mem s) pt k = 0)"

lemma top_pages: "TRAMPOLINE = page_va TRAMP" "TRAPFRAME = page_va TFRAME"
  by (simp_all add: TRAMPOLINE_def TRAPFRAME_def MAXVA_def page_va_def PGSIZE_def)

lemma proc_space_top:
  assumes "unat usz \<le> unat TRAPFRAME"
  shows "npages usz \<le> TFRAME" "unat usz \<le> 2 ^ 38"
  using assms page_va_simps(1) [of TFRAME] by (simp_all add: top_pages npages_def)

text \<open>Taking out the trampoline leaves a space that \<^verbatim>\<open>uvmfree\<close> can destroy, with or without the trapframe.\<close>

lemma proc_freepagetable_ok:
  assumes P: "proc_space s pt ps usz"
  shows "\<exists>s' ps'. proc_freepagetable pt usz s = Ok () s' \<and> kmem_ok s' ps' \<and>
     set ps' = pool s pt ps {..<npages usz} \<and> unch (pool s pt ps {..<npages usz}) s s'"
proof -
  let ?K = "{..<npages usz}"
  have ok: "space_ok s pt ps ?K" and usz: "unat usz \<le> unat TRAPFRAME"
    and v: "\<And>k. k \<in> {TFRAME, TRAMP} \<Longrightarrow> pte_valid (leafn (mem s) pt k)"
      "\<And>k. k \<in> {TFRAME, TRAMP} \<Longrightarrow> PTE_FLAGS (leafn (mem s) pt k) \<noteq> PTE_V"
    and z: "\<And>k. npages usz \<le> k \<Longrightarrow> k < TFRAME \<Longrightarrow> leafn (mem s) pt k = 0"
    using P by (auto simp: proc_space_def)
  note n = proc_space_top [OF usz]
  obtain s1 where 1: "uvmunmap pt TRAMPOLINE 1 False s = Ok () s1" "space_ok s1 pt ps ?K"
    "tpages (mem s1) pt = tpages (mem s) pt" "unch (tpages (mem s) pt) s s1"
    "\<And>j. j < 2 ^ 26 \<Longrightarrow> leafn (mem s1) pt j = (if j = TRAMP then 0 else leafn (mem s) pt j)"
    using unmap_foreign [OF ok, of TRAMP] v [of TRAMP] n(1) unfolding top_pages by (auto intro: that)
  have v1: "pte_valid (leafn (mem s1) pt TFRAME)" "PTE_FLAGS (leafn (mem s1) pt TFRAME) \<noteq> PTE_V"
    using 1(5) [of TFRAME] v [of TFRAME] by simp_all
  obtain s2 where 2: "uvmunmap pt TRAPFRAME 1 False s1 = Ok () s2" "space_ok s2 pt ps ?K"
    "tpages (mem s2) pt = tpages (mem s1) pt" "unch (tpages (mem s1) pt) s1 s2"
    "\<And>j. j < 2 ^ 26 \<Longrightarrow> leafn (mem s2) pt j = (if j = TFRAME then 0 else leafn (mem s1) pt j)"
    using unmap_foreign [OF 1(2), of TFRAME] v1 n(1) unfolding top_pages by (auto intro: that)
  have inv: "\<not> pte_valid (leafn (mem s2) pt k)" if "k < 2 ^ 26" "npages usz \<le> k" for k
  proof -
    have "k < TFRAME \<or> k = TFRAME \<or> k = TRAMP" using that(1) by auto
    then show ?thesis using 1(5) [OF that(1)] 2(5) [OF that(1)] z [OF that(2)] by auto
  qed
  have "upage (mem s2) pt k = upage (mem s) pt k" if "k < npages usz" for k
    using that n(1) 1(5) [of k] 2(5) [of k] by (simp add: upage_def)
  then have pl: "pool s2 pt ps ?K = pool s pt ps ?K" using 1(3) 2(3) by (simp add: pool_def)
  have "unch (pool s pt ps ?K) s s2"
    by (rule unch_trans [OF 1(4) 2(4)]) (use 1(3) in \<open>auto simp: pool_def\<close>)
  then show ?thesis
    using uvmfree_ok [OF 2(2) n(2) inv] 1(1) 2(1) unch_trans [of "pool s pt ps ?K" s s2 "pool s pt ps ?K"]
    unfolding pl by (auto simp: proc_freepagetable_def)
qed

lemma space_ok_empty:
  "vm_ok s pt ps \<Longrightarrow> (\<And>k. k < 2 ^ 26 \<Longrightarrow> \<not> user_leaf (leafn (mem s) pt k)) \<Longrightarrow> space_ok s pt ps {}"
  by (simp add: space_ok_def)

text \<open>A mapping without the user bit in a space without user pages.\<close>

lemma map_kernel_page:
  assumes ok: "space_ok s pt ps {}" and k: "k < 2 ^ 26" "leafn (mem s) pt k = 0" and p: "aligned p"
    and perm: "\<forall>n\<ge>10. \<not> bit perm n" "perm OR PTE_V \<noteq> PTE_V" "(perm OR PTE_V) AND PTE_U = 0"
  obtains r s' ps' where "mappages pt (page_va k) PGSIZE p perm s = Ok r s'" "r = 0 \<or> r = - 1"
    "space_ok s' pt ps' {}" "tpages (mem s') pt \<union> set ps' = tpages (mem s) pt \<union> set ps"
    "unch (tpages (mem s) pt \<union> set ps) s s'"
    "\<And>j. j < 2 ^ 26 \<Longrightarrow> leafn (mem s') pt j =
       (if j = k \<and> r = 0 then PA2PTE p OR perm OR PTE_V else leafn (mem s) pt j)"
proof -
  have inv: "\<not> pte_valid (leafn (mem s) pt k)" using k(2) by simp
  have nu: "\<not> user_leaf (PA2PTE p OR perm OR PTE_V)"
    using flags_U [of "PA2PTE p OR perm OR PTE_V"] leaf_value(2) [OF p perm(1)] perm(3) by (simp add: user_leaf_def)
  have nl: "\<not> user_leaf (leafn (mem s) pt j)" if "j < 2 ^ 26" for j using space_okD(9) [OF ok that] by auto
  obtain r s' ps' where M: "mappages pt (page_va k) PGSIZE p perm s = Ok r s'" "r = 0 \<or> r = - 1"
    "vm_ext pt s ps s' ps'"
    "\<And>j. j < 2 ^ 26 \<Longrightarrow> leafn (mem s') pt j = (if j = k \<and> r = 0 then PA2PTE p OR perm OR PTE_V else leafn (mem s) pt j)"
    by (rule map_page [OF space_okD(1) [OF ok] k(1) inv, of p perm]) (auto intro: that)
  note E = vm_extD [OF M(3)]
  have "space_ok s' pt ps' {}" by (rule space_ok_empty [OF E(1)]) (use M(4) nu nl in simp)
  moreover have "unch (tpages (mem s) pt \<union> set ps) s s'"
    by (rule unch_mono [OF unch_vm_ext [OF M(3)]]) (use E(7) in auto)
  ultimately show thesis using M E(7) by (intro that)
qed

lemma perm_consts:
  "\<forall>n\<ge>10. \<not> bit (PTE_R OR PTE_X) n" "PTE_R OR PTE_X OR PTE_V \<noteq> PTE_V" "(PTE_R OR PTE_X OR PTE_V) AND PTE_U = 0"
  "\<forall>n\<ge>10. \<not> bit (PTE_R OR PTE_W) n" "PTE_R OR PTE_W OR PTE_V \<noteq> PTE_V" "(PTE_R OR PTE_W OR PTE_V) AND PTE_U = 0"
proof -
  have "PTE_R OR PTE_X < push_bit 10 1" "PTE_R OR PTE_W < push_bit 10 1"
    by (simp_all add: PTE_R_def PTE_W_def PTE_X_def)
  then show "\<forall>n\<ge>10. \<not> bit (PTE_R OR PTE_X) n" "\<forall>n\<ge>10. \<not> bit (PTE_R OR PTE_W) n" by (simp_all only: less_bits)
qed (simp_all add: PTE_R_def PTE_W_def PTE_X_def PTE_V_def PTE_U_def)

lemma npages_0 [simp]: "npages 0 = 0"
  by (simp add: npages_def)

lemma free_empty_table:
  assumes ok: "space_ok s pt ps {}" and inv: "\<forall>k<2 ^ 26. \<not> pte_valid (leafn (mem s) pt k)"
  shows "\<exists>s' ps'. uvmfree pt 0 s = Ok () s' \<and> kmem_ok s' ps' \<and> set ps' = tpages (mem s) pt \<union> set ps \<and>
    unch (tpages (mem s) pt \<union> set ps) s s'"
  using uvmfree_ok [of s pt ps 0] assms by (simp add: pool_def)

text \<open>The fields that the memory operations do not touch.\<close>

lemma kframe_procs:
  assumes "kframe s s'"
  shows "ptab s' = ptab s" "trampoline s' = trampoline s" "mycpu (settle s') = mycpu (settle s)" "locks s' = locks s"
  using arg_cong [OF assms [unfolded kframe_def], of ptab] arg_cong [OF assms [unfolded kframe_def], of trampoline]
    arg_cong [OF assms [unfolded kframe_def], of mycpu] arg_cong [OF assms [unfolded kframe_def], of locks]
  by (simp_all add: settle_def mach_defs)

text \<open>Giving up after the trampoline has been mapped.\<close>

lemma undo_trampoline:
  assumes ok: "space_ok s pt ps {}" and v: "pte_valid (leafn (mem s) pt TRAMP)" "PTE_FLAGS (leafn (mem s) pt TRAMP) \<noteq> PTE_V"
    and z: "\<And>k. k < TRAMP \<Longrightarrow> leafn (mem s) pt k = 0"
  obtains s1 s2 ps2 where "uvmunmap pt TRAMPOLINE 1 False s = Ok () s1" "uvmfree pt 0 s1 = Ok () s2" "kmem_ok s2 ps2"
    "set ps2 = tpages (mem s) pt \<union> set ps" "unch (tpages (mem s) pt \<union> set ps) s s2"
proof -
  obtain s1 where 1: "uvmunmap pt TRAMPOLINE 1 False s = Ok () s1" "space_ok s1 pt ps {}"
    "tpages (mem s1) pt = tpages (mem s) pt" "unch (tpages (mem s) pt) s s1"
    "\<And>j. j < 2 ^ 26 \<Longrightarrow> leafn (mem s1) pt j = (if j = TRAMP then 0 else leafn (mem s) pt j)"
    using unmap_foreign [OF ok, of TRAMP] v unfolding top_pages by (auto intro: that)
  have inv: "\<not> pte_valid (leafn (mem s1) pt k)" if "k < 2 ^ 26" for k
    using 1(5) [OF that] z [of k] that by (cases "k = TRAMP") auto
  obtain s2 ps2 where 2: "uvmfree pt 0 s1 = Ok () s2" "kmem_ok s2 ps2" "set ps2 = tpages (mem s1) pt \<union> set ps"
    "unch (tpages (mem s1) pt \<union> set ps) s1 s2"
    using free_empty_table [OF 1(2)] inv by blast
  have "unch (tpages (mem s) pt \<union> set ps) s s2" by (rule unch_trans [OF 1(4) 2(4)]) (use 1(3) in auto)
  with 1(1,3) 2 show thesis by (intro that) auto
qed

text \<open>The mappings that \<^verbatim>\<open>proc_pagetable\<close> installs at the top of the address space.\<close>

definition top_mapped :: "'a kmem_scheme \<Rightarrow> u64 \<Rightarrow> u64 \<Rightarrow> u64 \<Rightarrow> bool" where
  "top_mapped s pt tr tf \<longleftrightarrow>
     leafn (mem s) pt TRAMP = PA2PTE tr OR (PTE_R OR PTE_X) OR PTE_V \<and>
     leafn (mem s) pt TFRAME = PA2PTE tf OR (PTE_R OR PTE_W) OR PTE_V"

lemma proc_pagetable_trapframe:
  assumes ok: "space_ok s2 pt ps2 {}" and al: "aligned tr" "aligned (trapframe (ptab s2 p))"
    and l: "leafn (mem s2) pt TRAMP = PA2PTE tr OR (PTE_R OR PTE_X) OR PTE_V"
      "\<forall>k<TRAMP. leafn (mem s2) pt k = 0"
  obtains q s3 s4 ps4 where "mappages pt TRAPFRAME PGSIZE (trapframe (ptab s2 p)) (PTE_R OR PTE_W) s2 = Ok q s3"
    "q = 0 \<and> s4 = s3 \<and> proc_space s4 pt ps4 0 \<and> tpages (mem s4) pt \<union> set ps4 = tpages (mem s2) pt \<union> set ps2 \<and>
       top_mapped s4 pt tr (trapframe (ptab s2 p)) \<or>
     q = - 1 \<and> and_then (uvmunmap pt TRAMPOLINE 1 False s3) (\<lambda>_ s. uvmfree pt 0 s) = Ok () s4 \<and>
       kmem_ok s4 ps4 \<and> set ps4 = tpages (mem s2) pt \<union> set ps2"
    "unch (tpages (mem s2) pt \<union> set ps2) s2 s4"
proof -
  let ?tf = "trapframe (ptab s2 p)"
  obtain q s3 ps3 where 3: "mappages pt TRAPFRAME PGSIZE ?tf (PTE_R OR PTE_W) s2 = Ok q s3"
    "q = 0 \<or> q = - 1" "space_ok s3 pt ps3 {}" "tpages (mem s3) pt \<union> set ps3 = tpages (mem s2) pt \<union> set ps2"
    "unch (tpages (mem s2) pt \<union> set ps2) s2 s3"
    "\<And>j. j < 2 ^ 26 \<Longrightarrow> leafn (mem s3) pt j =
       (if j = TFRAME \<and> q = 0 then PA2PTE ?tf OR (PTE_R OR PTE_W) OR PTE_V else leafn (mem s2) pt j)"
    unfolding top_pages
    by (rule map_kernel_page [OF ok, of TFRAME ?tf "PTE_R OR PTE_W"])
      (use l(2) al perm_consts in \<open>auto intro: that simp: or.assoc\<close>)
  have tr: "leafn (mem s3) pt TRAMP = PA2PTE tr OR (PTE_R OR PTE_X) OR PTE_V" using 3(6) [of TRAMP] l(1) by simp
  note V = leaf_value [OF al(1) perm_consts(1)] leaf_value [OF al(2) perm_consts(4)]
  show thesis
  proof (cases "q = 0")
    case True
    have tf: "leafn (mem s3) pt TFRAME = PA2PTE ?tf OR (PTE_R OR PTE_W) OR PTE_V" using 3(6) [of TFRAME] True by simp
    have "leafn (mem s3) pt k = 0" if "k < TFRAME" for k using that 3(6) [of k] l(2) by simp
    then have "proc_space s3 pt ps3 0"
      using 3(3) tr tf V perm_consts by (auto simp: proc_space_def or.assoc)
    then show thesis using 3(1,4,5) tr tf True by (intro that [of q s3 s3 ps3]) (auto simp: top_mapped_def)
  next
    case False
    have z: "leafn (mem s3) pt k = 0" if "k < TRAMP" for k using that 3(6) [of k] l(2) False by simp
    have v: "pte_valid (leafn (mem s3) pt TRAMP)" "PTE_FLAGS (leafn (mem s3) pt TRAMP) \<noteq> PTE_V"
      using tr V perm_consts by (auto simp: or.assoc)
    obtain s5 s4 ps4 where 4: "uvmunmap pt TRAMPOLINE 1 False s3 = Ok () s5" "uvmfree pt 0 s5 = Ok () s4" "kmem_ok s4 ps4"
      "set ps4 = tpages (mem s3) pt \<union> set ps3" "unch (tpages (mem s3) pt \<union> set ps3) s3 s4"
      using undo_trampoline [OF 3(3) v z] by metis
    have "unch (tpages (mem s2) pt \<union> set ps2) s2 s4" by (rule unch_trans [OF 3(5) 4(5)]) (use 3(4) in auto)
    then show thesis using 3(1,2,4) 4(1-4) False by (intro that [of q s3 s4 ps4]) auto
  qed
qed

lemma proc_pagetable_ok:
  assumes km: "kmem_ok s ps" and al: "aligned (trampoline s)" "aligned (trapframe (ptab s p))"
  shows "\<exists>r s' ps'. proc_pagetable p s = Ok r s' \<and> unch (set ps) s s' \<and>
     (r = 0 \<and> kmem_ok s' ps' \<and> set ps' = set ps \<or>
      r \<noteq> 0 \<and> proc_space s' r ps' 0 \<and> tpages (mem s') r \<union> set ps' = set ps \<and>
        top_mapped s' r (trampoline s) (trapframe (ptab s p)))"
proof (cases ps)
  case Nil
  then have "proc_pagetable p s = Ok 0 (settle s)"
    using kalloc_ok_Nil [OF km [unfolded Nil]] by (simp add: proc_pagetable_def uvmcreate_def)
  moreover have "kmem_ok (settle s) ps" using km Nil by (simp add: kmem_ok_def)
  ultimately show ?thesis using Nil by (intro exI [of _ 0]) (auto simp: unch_def)
next
  case (Cons pt qs)
  obtain s1 where 1: "uvmcreate s = Ok pt s1" "space_ok s1 pt qs {}" "unch {pt} s s1" "pt \<noteq> 0"
    "tpages (mem s1) pt = {pt}" "\<And>j. leafn (mem s1) pt j = 0"
    by (rule uvmcreate_ok [OF km [unfolded Cons]]) (rule that)
  have f1: "trampoline s1 = trampoline s" using kframe_procs [OF unchD(1) [OF 1(3)]] by auto
  obtain r s2 ps2 where 2: "mappages pt TRAMPOLINE PGSIZE (trampoline s1) (PTE_R OR PTE_X) s1 = Ok r s2"
    "r = 0 \<or> r = - 1" "space_ok s2 pt ps2 {}" "tpages (mem s2) pt \<union> set ps2 = tpages (mem s1) pt \<union> set qs"
    "unch (tpages (mem s1) pt \<union> set qs) s1 s2"
    "\<And>j. j < 2 ^ 26 \<Longrightarrow> leafn (mem s2) pt j =
       (if j = TRAMP \<and> r = 0 then PA2PTE (trampoline s1) OR (PTE_R OR PTE_X) OR PTE_V else leafn (mem s1) pt j)"
    unfolding top_pages
    by (rule map_kernel_page [OF 1(2), of TRAMP "trampoline s1" "PTE_R OR PTE_X"])
      (use 1(6) al f1 perm_consts in \<open>auto intro: that simp: or.assoc\<close>)
  have ps: "tpages (mem s2) pt \<union> set ps2 = set ps" using Cons 1(5) 2(4) by auto
  have u2: "unch (set ps) s s2" by (rule unch_trans [OF 1(3) 2(5)]) (use Cons 1(5) in auto)
  show ?thesis
  proof (cases "r = 0")
    case False
    have inv: "\<not> pte_valid (leafn (mem s2) pt k)" if "k < 2 ^ 26" for k using 2(6) [OF that] 1(6) False by simp
    obtain s3 ps3 where 3: "uvmfree pt 0 s2 = Ok () s3" "kmem_ok s3 ps3" "set ps3 = set ps" "unch (set ps) s2 s3"
      using free_empty_table [OF 2(3)] inv unfolding ps by blast
    then have "proc_pagetable p s = Ok 0 s3" using 1(1,4) 2(1,2) False by (auto simp: proc_pagetable_def)
    then show ?thesis using 3 unch_trans [OF u2 3(4)] by blast
  next
    case True
    have f2: "ptab s2 = ptab s" using kframe_procs [OF unchD(1) [OF u2]] by auto
    have l: "leafn (mem s2) pt TRAMP = PA2PTE (trampoline s) OR (PTE_R OR PTE_X) OR PTE_V"
      "\<forall>k<TRAMP. leafn (mem s2) pt k = 0" using 2(6) 1(6) True f1 by simp_all
    have al2: "aligned (trapframe (ptab s2 p))" using al(2) f2 by simp
    obtain q s3 s4 ps4 where 3: "mappages pt TRAPFRAME PGSIZE (trapframe (ptab s2 p)) (PTE_R OR PTE_W) s2 = Ok q s3"
      "q = 0 \<and> s4 = s3 \<and> proc_space s4 pt ps4 0 \<and> tpages (mem s4) pt \<union> set ps4 = set ps \<and>
         top_mapped s4 pt (trampoline s) (trapframe (ptab s2 p)) \<or>
       q = - 1 \<and> and_then (uvmunmap pt TRAMPOLINE 1 False s3) (\<lambda>_ s. uvmfree pt 0 s) = Ok () s4 \<and>
         kmem_ok s4 ps4 \<and> set ps4 = set ps" "unch (set ps) s2 s4"
      by (rule proc_pagetable_trapframe [OF 2(3) al(1) al2 l, unfolded ps]) (rule that)
    have u: "unch (set ps) s s4" by (rule unch_trans [OF u2 3(3)]) auto
    have run: "proc_pagetable p s =
        (if q < 0 then and_then (and_then (uvmunmap pt TRAMPOLINE 1 False s3) (\<lambda>_ s. uvmfree pt 0 s)) (\<lambda>_ s. Ok 0 s)
         else Ok pt s3)"
      using 1(1,4) 2(1) 3(1) True by (simp add: proc_pagetable_def and_then_assoc)
    from 3(2) show ?thesis
    proof (elim disjE conjE)
      assume "q = 0" "s4 = s3" "proc_space s4 pt ps4 0" "tpages (mem s4) pt \<union> set ps4 = set ps"
        "top_mapped s4 pt (trampoline s) (trapframe (ptab s2 p))"
      moreover from this(1,2) have "proc_pagetable p s = Ok pt s4" using run by simp
      ultimately show ?thesis using u 1(4) f2 by (intro exI [of _ pt] exI [of _ s4] exI [of _ ps4]) simp
    next
      assume q: "q = - 1" "and_then (uvmunmap pt TRAMPOLINE 1 False s3) (\<lambda>_ s. uvmfree pt 0 s) = Ok () s4"
        "kmem_ok s4 ps4" "set ps4 = set ps"
      from q(1,2) have "proc_pagetable p s = Ok 0 s4" using run by simp
      with q(3,4) u show ?thesis by blast
    qed
  qed
qed

text \<open>
  Claim C27. The page table of a process is created and destroyed without leaking or losing a page.
  \<^verbatim>\<open>proc_pagetable\<close> either returns a table that maps exactly the trampoline and the trapframe, made of
  pages of the free list, or returns 0 with every page free again; it never panics.  And from a
  table whose user pages are those below the size, \<^verbatim>\<open>proc_freepagetable\<close> puts every table page and
  every user page on the free list, each once, and writes to no other page.
\<close>

theorem proc_pagetable_no_leak:
  assumes "kmem_ok s ps" and "aligned (trampoline s)" and "aligned (trapframe (ptab s p))"
  shows "(\<exists>r s' ps'. proc_pagetable p s = Ok r s' \<and> unch (set ps) s s' \<and>
      (r = 0 \<and> kmem_ok s' ps' \<and> set ps' = set ps \<or>
       r \<noteq> 0 \<and> proc_space s' r ps' 0 \<and> tpages (mem s') r \<union> set ps' = set ps \<and>
         top_mapped s' r (trampoline s) (trapframe (ptab s p)))) \<and>
    (\<forall>pt usz. proc_space s pt ps usz \<longrightarrow>
      (\<exists>s' ps'. proc_freepagetable pt usz s = Ok () s' \<and> kmem_ok s' ps' \<and> distinct ps' \<and>
         set ps' = tpages (mem s) pt \<union> set ps \<union> upage (mem s) pt ` {..<npages usz} \<and>
         unch (set ps') s s'))"
proof (intro conjI allI impI)
  show "\<exists>r s' ps'. proc_pagetable p s = Ok r s' \<and> unch (set ps) s s' \<and>
      (r = 0 \<and> kmem_ok s' ps' \<and> set ps' = set ps \<or>
       r \<noteq> 0 \<and> proc_space s' r ps' 0 \<and> tpages (mem s') r \<union> set ps' = set ps \<and>
         top_mapped s' r (trampoline s) (trapframe (ptab s p)))"
    by (rule proc_pagetable_ok [OF assms])
next
  fix pt usz
  assume P: "proc_space s pt ps usz"
  obtain s' ps' where "proc_freepagetable pt usz s = Ok () s'" "kmem_ok s' ps'"
     "set ps' = pool s pt ps {..<npages usz}" "unch (pool s pt ps {..<npages usz}) s s'"
    using proc_freepagetable_ok [OF P] by blast
  then show "\<exists>s' ps'. proc_freepagetable pt usz s = Ok () s' \<and> kmem_ok s' ps' \<and> distinct ps' \<and>
      set ps' = tpages (mem s) pt \<union> set ps \<union> upage (mem s) pt ` {..<npages usz} \<and> unch (set ps') s s'"
    by (intro exI [of _ s'] exI [of _ ps']) (auto simp: pool_def kmem_ok_def)
qed

theorem proc_pagetable_no_leak_witness:
  "\<exists>r s' ps'. proc_pagetable 0 (demo_procs None (\<lambda>_. demo_proc)) = Ok r s' \<and> (r = 0 \<longrightarrow> kmem_ok s' ps' \<and> set ps' = {})"
proof -
  have a: "aligned (trampoline (demo_procs None (\<lambda>_. demo_proc)))"
    "aligned (trapframe (ptab (demo_procs None (\<lambda>_. demo_proc)) 0))"
    by (simp_all add: demo_procs_def demo_proc_def aligned_def)
  from proc_pagetable_no_leak [OF demo_kmem a, THEN conjunct1] show ?thesis by auto
qed

section \<open>sbrk\<close>

lemma u32_add_int:
  fixes a n :: u32
  shows "0 \<le> uint a + sint n \<Longrightarrow> uint a + sint n < 2 ^ 32 \<Longrightarrow> uint (a + n) = uint a + sint n"
    "uint a + sint n < 0 \<Longrightarrow> uint (a + n) = uint a + sint n + 2 ^ 32"
proof -
  have e: "uint (a + n) = (uint a + sint n) mod 2 ^ 32"
    using uint_word_of_int [where 'a = 32, of "uint a + sint n"] by (simp add: take_bit_eq_mod)
  show "0 \<le> uint a + sint n \<Longrightarrow> uint a + sint n < 2 ^ 32 \<Longrightarrow> uint (a + n) = uint a + sint n" using e by simp
  assume "uint a + sint n < 0"
  moreover have "- 2147483648 \<le> sint n" "0 \<le> uint a" using sint_ge [of n] by simp_all
  ultimately have "(uint a + sint n + 4294967296) mod 4294967296 = uint a + sint n + 4294967296"
    by (intro mod_pos_pos_trivial) linarith+
  then show "uint (a + n) = uint a + sint n + 2 ^ 32" using e by simp
qed

lemma uint_ucast_32_64: "uint (ucast (x :: u32) :: u64) = uint x" "(ucast (ucast x :: u64) :: u32) = x"
proof -
  show u: "uint (ucast (x :: u32) :: u64) = uint x"
    using uint_bounded [of x] by (simp add: unsigned_ucast_eq take_bit_int_eq_self)
  show "(ucast (ucast x :: u64) :: u32) = x"
    by (simp add: word_uint_eq_iff unsigned_ucast_eq take_bit_word_eq_self)
qed

lemma proc_space_grown:
  assumes P: "proc_space s pt ps usz" and g: "grown s pt ps {..<npages usz} {npages usz..<npages nsz} s' ps'"
    and le: "usz \<le> nsz" "unat nsz \<le> unat TRAPFRAME"
  shows "proc_space s' pt ps' nsz"
proof -
  note n = proc_space_top [OF le(2)] npages_mono [OF le(1)]
  have ok: "space_ok s pt ps {..<npages usz}" using P by (simp add: proc_space_def)
  have "npages nsz \<le> 2 ^ 26" using n(1) by simp
  note G = grown_user_byte(1) [OF ok g n(3) this] grownD(6) [OF g]
  have "leafn (mem s') pt k = leafn (mem s) pt k" if "npages nsz \<le> k" "k < 2 ^ 26" for k using G(2) that by simp
  then show ?thesis using P G(1) n le(2) by (auto simp: proc_space_def)
qed

lemma proc_space_kept:
  assumes "proc_space s pt ps usz" "shrunk_back s pt ps {..<npages usz} {} s' ps'"
  shows "proc_space s' pt ps' usz"
  using assms shrunk_backD(1,4) [OF assms(2)] by (auto simp: proc_space_def)

lemma proc_space_shrunk:
  assumes P: "proc_space s pt ps usz" and u: "unmap_post s pt ps {..<npages usz} {npages nsz..<npages usz} s' ps'"
    and le: "nsz \<le> usz"
  shows "proc_space s' pt ps' nsz"
proof -
  have usz: "unat usz \<le> unat TRAPFRAME" using P by (simp add: proc_space_def)
  note n = proc_space_top [OF usz] npages_mono [OF le]
  have "{..<npages usz} - {npages nsz..<npages usz} = {..<npages nsz}" using n(3) by auto
  moreover have "leafn (mem s') pt k = 0" if "npages nsz \<le> k" "k < TFRAME" for k
    using u P that by (cases "k < npages usz") (auto simp: unmap_post_def proc_space_def)
  moreover have "unat nsz \<le> unat TRAPFRAME" using le usz by (simp add: word_le_nat_alt)
  ultimately show ?thesis using u P n(1) by (auto simp: unmap_post_def proc_space_def)
qed

text \<open>The state around the memory operations of \<^verbatim>\<open>growproc\<close>: entering it, and storing the new size.\<close>

lemma space_ok_settle [simp]: "space_ok (settle s) pt ps K = space_ok s pt ps K"
  by (simp add: space_ok_def vm_ok_def kmem_ok_def)

lemma proc_space_settle [simp]: "proc_space (settle s) pt ps usz = proc_space s pt ps usz"
  by (simp add: proc_space_def)

lemma proc_space_upd_proc [simp]: "proc_space (upd_proc p f s) pt ps usz = proc_space s pt ps usz"
  by (simp add: proc_space_def space_ok_def vm_ok_def kmem_ok_def upd_proc_def)

definition resized :: "'a procs_scheme \<Rightarrow> nat \<Rightarrow> 'a procs_scheme \<Rightarrow> bool" where
  "resized s p s' \<longleftrightarrow>
     (\<exists>ps'. proc_space s' (pagetable (ptab s p)) ps' (sz (ptab s' p))) \<and> pagetable (ptab s' p) = pagetable (ptab s p) \<and>
     (\<forall>va. user_byte (mem s') (pagetable (ptab s p)) va =
        (if pn va < npages (sz (ptab s' p))
         then if pn va < npages (sz (ptab s p)) then user_byte (mem s) (pagetable (ptab s p)) va else Some 0
         else None))"

lemma unat_le_uint: "unat x \<le> k \<longleftrightarrow> uint x \<le> int k" for x :: "'a :: len word"
  using uint_nat [of x] by linarith

lemma sz_u32:
  assumes "unat usz \<le> 2 ^ 31"
  shows "(ucast (ucast usz :: u32) :: u64) = usz" "uint (ucast usz :: u32) = uint usz"
proof -
  have "uint usz < 2 ^ 32" using assms by (simp add: unat_le_uint)
  then show u: "uint (ucast usz :: u32) = uint usz" by (simp add: unsigned_ucast_eq take_bit_int_eq_self)
  show "(ucast (ucast usz :: u32) :: u64) = usz" using u uint_ucast_32_64(1) [of "ucast usz"] by (simp add: word_uint_eq_iff)
qed

lemma resizedI:
  assumes "pagetable (ptab s' p) = pagetable (ptab s p)" "proc_space s' (pagetable (ptab s p)) ps' (sz (ptab s' p))"
    and "\<And>va. pn va < npages (sz (ptab s' p)) \<Longrightarrow> user_byte (mem s') (pagetable (ptab s p)) va =
       (if pn va < npages (sz (ptab s p)) then user_byte (mem s) (pagetable (ptab s p)) va else Some 0)"
  shows "resized s p s'"
proof -
  have "space_ok s' (pagetable (ptab s p)) ps' {..<npages (sz (ptab s' p))}" using assms(2) by (simp add: proc_space_def)
  from user_byte_unmapped [OF this] assms show ?thesis by (auto simp: resized_def)
qed

lemma growproc_up:
  assumes m: "mach_ok s" "cproc (mycpu s) = Some p" and P: "proc_space s (pagetable (ptab s p)) ps (sz (ptab s p))"
    and b: "unat (sz (ptab s p)) \<le> 2 ^ 31" and n: "0 < sint n"
  shows "\<exists>r s'. growproc n s = Ok r s' \<and> resized s p s' \<and>
     (r = 0 \<and> uint (sz (ptab s' p)) = uint (sz (ptab s p)) + sint n \<or> r = - 1 \<and> sz (ptab s' p) = sz (ptab s p))"
proof -
  let ?pt = "pagetable (ptab s p)" and ?u = "sz (ptab s p)"
  define v where "v = (ucast ?u :: u32) + n"
  define w where "w = (ucast v :: u64)"
  note U = sz_u32 [OF b]
  have bu: "uint ?u \<le> 2147483648" "sint n < 2147483648" using b sint_lt [of n] by (simp_all add: unat_le_uint)
  have v: "uint v = uint ?u + sint n" using u32_add_int(1) [of "ucast ?u" n] U(2) bu n by (simp add: v_def)
  then have w: "uint w = uint ?u + sint n" using uint_ucast_32_64(1) [of v] by (simp add: w_def)
  have le: "?u \<le> w" using w n by (simp add: word_le_def)
  have "unat w \<le> 4294967296" using w bu by (simp add: unat_le_uint)
  then have top: "unat w \<le> unat TRAPFRAME" "unat w \<le> 2 ^ 38"
    using page_va_simps(1) [of TFRAME] by (simp_all add: top_pages)
  have ok: "space_ok (settle s) ?pt ps {..<npages ?u}" using P by (simp add: proc_space_def)
  have d: "{npages ?u..<npages w} \<inter> {..<npages ?u} = {}" by auto
  have z: "leafn (mem (settle s)) ?pt j = 0" if "j \<in> {npages ?u..<npages w}" for j
    using that P proc_space_top(1) [OF top(1)] by (simp add: proc_space_def)
  obtain r s1 ps1 where A: "uvmalloc ?pt ?u w (settle s) = Ok r s1"
    "r = w \<and> grown (settle s) ?pt ps {..<npages ?u} {npages ?u..<npages w} s1 ps1 \<or>
     r = 0 \<and> shrunk_back (settle s) ?pt ps {..<npages ?u} {} s1 ps1"
    using uvmalloc_ok [OF ok top(2) le d z] by blast
  have "kframe (settle s) s1" using A(2) grownD(3) shrunk_backD(3) unchD(1) by blast
  then have f: "ptab s1 = ptab s" using kframe_procs(1) by fastforce
  have run: "growproc n s = (if (ucast r :: u32) = 0 then Ok (- 1) s1
      else Ok 0 (upd_proc p (sz_update (\<lambda>_. ucast (ucast r :: u32))) s1))"
    using A(1) m n U(1) by (simp add: growproc_def with_proc_eq v_def w_def Let_def)
  from A(2) show ?thesis
  proof (elim disjE conjE)
    assume r: "r = w" and g: "grown (settle s) ?pt ps {..<npages ?u} {npages ?u..<npages w} s1 ps1"
    let ?s = "upd_proc p (sz_update (\<lambda>_. w)) s1"
    have "0 \<le> uint ?u" by simp
    then have "uint v \<noteq> 0" using v n by linarith
    then have "v \<noteq> 0" by auto
    then have e: "growproc n s = Ok 0 ?s" using run r uint_ucast_32_64(2) [of v] by (simp add: w_def)
    have "npages w \<le> 2 ^ 26" using proc_space_top(1) [OF top(1)] by simp
    note G = grown_user_byte(2) [OF ok g npages_mono [OF le] this]
    have "resized s p ?s"
      by (rule resizedI [where ps' = ps1])
        (use f G proc_space_grown [OF _ g le top(1)] P npages_mono [OF le] in auto)
    then show ?thesis using e w by (intro exI [of _ 0] exI [of _ ?s]) simp
  next
    assume r: "r = 0" and h: "shrunk_back (settle s) ?pt ps {..<npages ?u} {} s1 ps1"
    have "resized s p s1"
      by (rule resizedI [where ps' = ps1])
        (use f proc_space_kept [OF _ h] P shrunk_user_byte(3) [OF ok h] in auto)
    then show ?thesis using run r f by (intro exI [of _ "- 1"] exI [of _ s1]) simp
  qed
qed

lemma growproc_down:
  assumes m: "mach_ok s" "cproc (mycpu s) = Some p" and P: "proc_space s (pagetable (ptab s p)) ps (sz (ptab s p))"
    and b: "unat (sz (ptab s p)) \<le> 2 ^ 31" and n: "sint n < 0" "0 \<le> uint (sz (ptab s p)) + sint n"
  shows "\<exists>s'. growproc n s = Ok 0 s' \<and> resized s p s' \<and> uint (sz (ptab s' p)) = uint (sz (ptab s p)) + sint n"
proof -
  let ?pt = "pagetable (ptab s p)" and ?u = "sz (ptab s p)"
  define v where "v = (ucast ?u :: u32) + n"
  define w where "w = (ucast v :: u64)"
  note U = sz_u32 [OF b]
  have bu: "uint ?u \<le> 2147483648" using b by (simp add: unat_le_uint)
  have v: "uint v = uint ?u + sint n" using u32_add_int(1) [of "ucast ?u" n] U(2) bu n by (simp add: v_def)
  then have w: "uint w = uint ?u + sint n" using uint_ucast_32_64(1) [of v] by (simp add: w_def)
  have le: "w \<le> ?u" "\<not> ?u \<le> w" using w n by (simp_all add: word_le_def)
  have ok: "space_ok (settle s) ?pt ps {..<npages ?u}" using P by (simp add: proc_space_def)
  have usz: "unat ?u \<le> 2 ^ 38" using b by simp
  let ?R = "{npages w..<npages ?u}"
  have R: "?R \<subseteq> {..<npages ?u}" by auto
  obtain s1 ps1 where A: "uvmdealloc ?pt ?u w (settle s) = Ok w s1" "unmap_post (settle s) ?pt ps {..<npages ?u} ?R s1 ps1"
    using uvmdealloc_ok [OF ok R usz] le(2) by auto
  have "kframe (settle s) s1" using A(2) unchD(1) unfolding unmap_post_def by blast
  then have f: "ptab s1 = ptab s" using kframe_procs(1) by fastforce
  let ?s = "upd_proc p (sz_update (\<lambda>_. w)) s1"
  have e: "growproc n s = Ok 0 ?s"
    using A(1) m n(1) U(1) uint_ucast_32_64(2) [of v] by (simp add: growproc_def with_proc_eq v_def w_def Let_def)
  have "resized s p ?s"
    by (rule resizedI [where ps' = ps1])
      (use f unmapped_user_byte [OF ok A(2) R] proc_space_shrunk [OF _ A(2) le(1)] P npages_mono [OF le(1)] in auto)
  then show ?thesis using e w by (intro exI [of _ ?s]) simp
qed

text \<open>
  Claim C29. \<^verbatim>\<open>growproc\<close>, the work of \<^verbatim>\<open>sbrk\<close>, at its bounds.  It never panics; afterwards the process owns
  exactly the pages below its new size, pages it keeps are unchanged and new ones read as zero.
  Growing either adds exactly \<open>n\<close> bytes or returns -1 and leaves the size; shrinking removes exactly
  \<open>- n\<close> bytes.  Shrinking by more than the size is not refused: the 32-bit sum wraps around to a
  larger size, and the call returns 0 with the size unchanged.
\<close>

theorem growproc_bounds:
  assumes "mach_ok s" and "cproc (mycpu s) = Some p"
    and "proc_space s (pagetable (ptab s p)) ps (sz (ptab s p))" and "unat (sz (ptab s p)) \<le> 2 ^ 31"
  shows "\<exists>r s'. growproc n s = Ok r s' \<and> resized s p s' \<and>
     (if uint (sz (ptab s p)) + sint n < 0 then r = 0 \<and> sz (ptab s' p) = sz (ptab s p)
      else r = 0 \<and> uint (sz (ptab s' p)) = uint (sz (ptab s p)) + sint n \<or>
           r = - 1 \<and> 0 < sint n \<and> sz (ptab s' p) = sz (ptab s p))"
proof -
  let ?u = "sz (ptab s p)"
  have same: "resized s p (upd_proc p (sz_update (\<lambda>_. ?u)) (settle s))"
    by (rule resizedI [where ps' = ps]) (use assms(3) in auto)
  consider "0 < sint n" | "sint n = 0" | "sint n < 0" "0 \<le> uint ?u + sint n" | "sint n < 0" "uint ?u + sint n < 0"
    by (cases "sint n" "0 :: int" rule: linorder_cases; cases "uint ?u + sint n < 0") auto
  then show ?thesis
  proof cases
    case 1
    then have "\<not> uint ?u + sint n < 0" by (simp add: not_less add_nonneg_nonneg)
    then show ?thesis using growproc_up [OF assms 1] 1 by auto
  next
    case 2
    have "growproc n s = Ok 0 (upd_proc p (sz_update (\<lambda>_. ?u)) (settle s))"
      using 2 assms(1,2) sz_u32(1) [OF assms(4)] by (simp add: growproc_def with_proc_eq Let_def)
    then show ?thesis using same 2 by (intro exI [of _ 0]) simp
  next
    case 3
    then show ?thesis using growproc_down [OF assms 3] by auto
  next
    case 4
    define v where "v = (ucast ?u :: u32) + n"
    note U = sz_u32 [OF assms(4)]
    have "- 2147483648 \<le> sint n" "uint ?u \<le> 2147483648" using sint_ge [of n] assms(4) by (simp_all add: unat_le_uint)
    then have "uint ?u \<le> uint v" using u32_add_int(2) [of "ucast ?u" n] U(2) 4 by (simp add: v_def)
    then have "?u \<le> ucast v" using uint_ucast_32_64(1) [of v] by (simp add: word_le_def)
    then have "growproc n s = Ok 0 (upd_proc p (sz_update (\<lambda>_. ?u)) (settle s))"
      using 4 assms(1,2) U(1) by (simp add: growproc_def with_proc_eq uvmdealloc_def v_def Let_def)
    then show ?thesis using same 4 by (intro exI [of _ 0]) simp
  qed
qed

text \<open>A process without user pages, its table built by hand.\<close>

definition top_mem :: memory where
  "top_mem =
     (let m1 = st64 (memset (\<lambda>_. 0) 0x80002000 0 4096) (pte_addr 0x80001000 (of_nat 255)) (PA2PTE 0x80002000 OR PTE_V);
          m2 = st64 (memset m1 0x80003000 0 4096) (pte_addr 0x80002000 (of_nat 511)) (PA2PTE 0x80003000 OR PTE_V);
          m3 = st64 m2 (pte_addr 0x80003000 (PX 0 (page_va TRAMP))) (PA2PTE 0x80004000 OR (PTE_R OR PTE_X) OR PTE_V)
      in st64 m3 (pte_addr 0x80003000 (PX 0 (page_va TFRAME))) (PA2PTE 0x80005000 OR (PTE_R OR PTE_W) OR PTE_V))"

definition demo_sbrk :: procs where
  "demo_sbrk = (demo_procs (Some 0) (\<lambda>_. demo_proc\<lparr>pagetable := 0x80001000\<rparr>))\<lparr>mem := top_mem\<rparr>"

lemma top_px: "px 2 (page_va TRAMP) = 255" "px 1 (page_va TRAMP) = 511" "px 2 (page_va TFRAME) = 255" "px 1 (page_va TFRAME) = 511"
  by (simp_all add: px_pn page_va_simps)

lemma demo_sbrk_space: "proc_space demo_sbrk 0x80001000 [] 0"
proof -
  let ?s = "demo_procs (Some 0) (\<lambda>_. demo_proc\<lparr>pagetable := 0x80001000\<rparr>)" and ?A = "0x80001000 :: u64"
  let ?m1 = "st64 (memset (\<lambda>_. 0) 0x80002000 0 4096) (pte_addr ?A (of_nat 255)) (PA2PTE 0x80002000 OR PTE_V)"
  let ?m2 = "st64 (memset ?m1 0x80003000 0 4096) (pte_addr 0x80002000 (of_nat 511)) (PA2PTE 0x80003000 OR PTE_V)"
  have kp: "kpage 0x80001000 p" "aligned p" if "p \<in> {0x80001000, 0x80002000, 0x80003000, 0x80004000, 0x80005000}" for p
    using that by (auto simp: kpage_def aligned_def PHYSTOP_def KERNBASE_def)
  have z: "mem ?s = (\<lambda>_. 0)" by (simp add: demo_procs_def)
  have 0: "space_ok ?s ?A [] {}" "tpages (mem ?s) ?A = {?A}" "\<And>j. leafn (mem ?s) ?A j = 0"
    by (rule empty_table [OF demo_kmem]; use kp z in simp)+
  have h1: "hangs (mem ?s) ?A [] 255 ?A 0x80002000 ?m1"
    using vm_okD(2) [OF space_okD(1) [OF 0(1)]] 0(2) kp(2)
    by (simp add: hangs_def paths_def ent_def ld64_zero z)
  note T1 = hangs_ok [OF h1] and L1 = hangs_leaf [OF h1] and N1 = hangs_node [OF h1, of "[255]"]
  have n1: "node ?m1 ?A [255] = Some 0x80002000" using N1 by (simp add: paths_def)
  have e1: "ent ?m1 0x80002000 511 = 0" by (rule hangs_ent(2) [OF h1]) simp
  have h2: "hangs ?m1 ?A [255] 511 0x80002000 0x80003000 ?m2"
    using T1 0(2) n1 e1 kp(2) by (simp add: hangs_def paths_def)
  note T2 = hangs_ok [OF h2] and L2 = hangs_leaf [OF h2] and N2 = hangs_node [OF h2, of "[255, 511]"]
  have n2: "node ?m2 ?A [255, 511] = Some 0x80003000" using N2 by (simp add: paths_def)
  have l2: "leafn ?m2 ?A j = 0" for j using 0(3) L1 L2 z by (simp add: leafn_def)
  have tp: "tpages ?m2 ?A = {0x80001000, 0x80002000, 0x80003000}" using T1 T2 0(2) z by auto
  let ?v = "PA2PTE 0x80004000 OR (PTE_R OR PTE_X) OR PTE_V" and ?w = "PA2PTE 0x80005000 OR (PTE_R OR PTE_W) OR PTE_V"
  define s2 where "s2 = ?s\<lparr>mem := ?m2\<rparr>"
  have m2: "mem s2 = ?m2" by (simp add: s2_def)
  have ok2: "vm_ok s2 ?A []"
    using kmem_ok_mem [OF demo_kmem, of ?m2] T2(2) tp kp by (auto simp: vm_ok_def s2_def)
  have T: "TRAMP < 2 ^ 26" "TFRAME < 2 ^ 26" by simp_all
  have n3: "node (mem s2) ?A [px 2 (page_va TRAMP), px 1 (page_va TRAMP)] = Some 0x80003000"
    unfolding m2 top_px by (rule n2)
  define s3 where "s3 = s2\<lparr>mem := st64 (mem s2) (pte_addr 0x80003000 (PX 0 (page_va TRAMP))) ?v\<rparr>"
  have m3: "mem s3 = st64 (mem s2) (pte_addr 0x80003000 (PX 0 (page_va TRAMP))) ?v" by (simp add: s3_def)
  note S3 = leafn_store [OF ok2 n3 T(1) s3_def]
  have n4: "node (mem s3) ?A [px 2 (page_va TFRAME), px 1 (page_va TFRAME)] = Some 0x80003000"
    using store_leaf(1) [OF vm_okD(2) [OF ok2] n3 m3 path2, of 2 "page_va TRAMP" 1] n3 unfolding top_px by simp
  define s4 where "s4 = s3\<lparr>mem := st64 (mem s3) (pte_addr 0x80003000 (PX 0 (page_va TFRAME))) ?w\<rparr>"
  note S4 = leafn_store [OF vm_extD(1) [OF S3(1)] n4 T(2) s4_def]
  have d: "demo_sbrk = s4" by (simp add: demo_sbrk_def top_mem_def s4_def s3_def s2_def)
  have V: "PTE_FLAGS ?v = PTE_R OR PTE_X OR PTE_V" "pte_valid ?v" "PTE_FLAGS ?w = PTE_R OR PTE_W OR PTE_V" "pte_valid ?w"
    using leaf_value [OF _ perm_consts(1), of "0x80004000"] leaf_value [OF _ perm_consts(4), of "0x80005000"] kp(2)
    by (simp_all add: or.assoc)
  have nu: "\<not> user_leaf ?v" "\<not> user_leaf ?w"
    using flags_U [of ?v] flags_U [of ?w] V perm_consts(3,6) by (simp_all add: user_leaf_def)
  have l: "leafn (mem s4) ?A j = (if j = TFRAME then ?w else if j = TRAMP then ?v else 0)" if "j < 2 ^ 26" for j
    using S3(3) [OF that] S4(3) [OF that] l2 m2 by simp
  have "space_ok s4 ?A [] {}" by (rule space_ok_empty [OF vm_extD(1) [OF S4(1)]]) (use l nu in \<open>simp add: user_leaf_def\<close>)
  then show ?thesis
    unfolding d proc_space_def using l V perm_consts(2,5) by (auto simp: or.assoc)
qed

theorem growproc_bounds_witness:
  "\<exists>s'. growproc (- 8) demo_sbrk = Ok 0 s' \<and> sz (ptab s' 0) = 0"
proof -
  have "mach_ok demo_sbrk" "cproc (mycpu demo_sbrk) = Some 0" "ptab demo_sbrk 0 = demo_proc\<lparr>pagetable := 0x80001000\<rparr>"
    by (simp_all add: demo_sbrk_def)
  moreover have "sz demo_proc = 0" by (simp add: demo_proc_def)
  ultimately show ?thesis using growproc_bounds [of demo_sbrk 0 "[]" "- 8"] demo_sbrk_space by auto
qed

end
