(* ===== verification/Asm.thy ===== *)
theory Asm
  imports Riscv
begin

text \<open>
  The machine code of the kernel: \<^verbatim>\<open>kernel/trampoline.S\<close>, \<^verbatim>\<open>kernel/swtch.S\<close>,
  \<^verbatim>\<open>kernel/kernelvec.S\<close> and \<^verbatim>\<open>kernel/entry.S\<close>, and the user-side stubs of
  \<^verbatim>\<open>user/usys.pl\<close> and \<^verbatim>\<open>user/initcode.S\<close>.

  Each routine is its list of instructions, run by an interpreter of the RISC-V instructions
  they use.  Two things are outside the code and hence arguments of the interpreter: the
  address translation \<open>tr\<close> of the hardware and the effect \<open>fn\<close> of calling compiled code,
  which is also what an \<^verbatim>\<open>ecall\<close> does as seen from user space.
\<close>

section \<open>Registers and instructions\<close>

datatype reg =
    Ra | Sp | Gp | Tp | T0 | T1 | T2 | S0 | S1 | A0 | A1 | A2 | A3 | A4 | A5 | A6 | A7
  | S2 | S3 | S4 | S5 | S6 | S7 | S8 | S9 | S10 | S11 | T3 | T4 | T5 | T6

datatype csr = Sscratch | Satp | Sip | Mscratch | Mhartid

datatype instr =
    Sd reg nat reg | Ld reg nat reg | Addi reg reg int | Add reg reg reg | Mul reg reg reg
  | Li reg u64 | La reg string | Csrrw reg csr reg | Csrr reg csr | Csrw csr reg | Sfence
  | Call string | Ecall | J nat | Jr reg | Ret | Sret | Mret

record hart_state =
  regs :: "reg \<Rightarrow> u64"
  hcsr :: "csr \<Rightarrow> u64"
  hmem :: memory

text \<open>How a routine is left; \<open>Branch\<close> names an instruction of the same routine.\<close>

datatype leave = Goto u64 | Branch nat | SupervisorReturn | MachineReturn | Fallthrough

type_synonym translation = "u64 \<Rightarrow> memory \<Rightarrow> u64 \<Rightarrow> u64"
type_synonym calls = "string \<Rightarrow> hart_state \<Rightarrow> hart_state"
type_synonym symbols = "string \<Rightarrow> u64"

definition set_reg :: "reg \<Rightarrow> u64 \<Rightarrow> hart_state \<Rightarrow> hart_state" where
  "set_reg r v h = h\<lparr>regs := (regs h)(r := v)\<rparr>"

definition set_csr :: "csr \<Rightarrow> u64 \<Rightarrow> hart_state \<Rightarrow> hart_state" where
  "set_csr c v h = h\<lparr>hcsr := (hcsr h)(c := v)\<rparr>"

text \<open>The physical address of the operand \<open>k(b)\<close>.\<close>

definition operand :: "translation \<Rightarrow> nat \<Rightarrow> reg \<Rightarrow> hart_state \<Rightarrow> u64" where
  "operand tr k b h = tr (hcsr h Satp) (hmem h) (regs h b + of_nat k)"

fun run :: "translation \<Rightarrow> calls \<Rightarrow> symbols \<Rightarrow> instr list \<Rightarrow> hart_state \<Rightarrow> leave \<times> hart_state" where
  "run tr fn syms [] h = (Fallthrough, h)"
| "run tr fn syms (Sd r k b # is) h =
     run tr fn syms is (h\<lparr>hmem := st64 (hmem h) (operand tr k b h) (regs h r)\<rparr>)"
| "run tr fn syms (Ld r k b # is) h =
     run tr fn syms is (set_reg r (ld64 (hmem h) (operand tr k b h)) h)"
| "run tr fn syms (Addi r a i # is) h = run tr fn syms is (set_reg r (regs h a + of_int i) h)"
| "run tr fn syms (Add r a b # is) h = run tr fn syms is (set_reg r (regs h a + regs h b) h)"
| "run tr fn syms (Mul r a b # is) h = run tr fn syms is (set_reg r (regs h a * regs h b) h)"
| "run tr fn syms (Li r v # is) h = run tr fn syms is (set_reg r v h)"
| "run tr fn syms (La r x # is) h = run tr fn syms is (set_reg r (syms x) h)"
| "run tr fn syms (Csrrw r c a # is) h =
     run tr fn syms is (set_csr c (regs h a) (set_reg r (hcsr h c) h))"
| "run tr fn syms (Csrr r c # is) h = run tr fn syms is (set_reg r (hcsr h c) h)"
| "run tr fn syms (Csrw c a # is) h = run tr fn syms is (set_csr c (regs h a) h)"
| "run tr fn syms (Sfence # is) h = run tr fn syms is h"
| "run tr fn syms (Call f # is) h = run tr fn syms is (fn f h)"
| "run tr fn syms (Ecall # is) h = run tr fn syms is (fn ''ecall'' h)"
| "run tr fn syms (J n # is) h = (Branch n, h)"
| "run tr fn syms (Jr r # is) h = (Goto (regs h r), h)"
| "run tr fn syms (Ret # is) h = (Goto (regs h Ra), h)"
| "run tr fn syms (Sret # is) h = (SupervisorReturn, h)"
| "run tr fn syms (Mret # is) h = (MachineReturn, h)"

section \<open>The routines\<close>

definition uservec :: "instr list" where
  "uservec =
    [Csrrw A0 Sscratch A0, Sd Ra 40 A0, Sd Sp 48 A0, Sd Gp 56 A0, Sd Tp 64 A0, Sd T0 72 A0,
     Sd T1 80 A0, Sd T2 88 A0, Sd S0 96 A0, Sd S1 104 A0, Sd A1 120 A0, Sd A2 128 A0,
     Sd A3 136 A0, Sd A4 144 A0, Sd A5 152 A0, Sd A6 160 A0, Sd A7 168 A0, Sd S2 176 A0,
     Sd S3 184 A0, Sd S4 192 A0, Sd S5 200 A0, Sd S6 208 A0, Sd S7 216 A0, Sd S8 224 A0,
     Sd S9 232 A0, Sd S10 240 A0, Sd S11 248 A0, Sd T3 256 A0, Sd T4 264 A0, Sd T5 272 A0,
     Sd T6 280 A0, Csrr T0 Sscratch, Sd T0 112 A0, Ld Sp 8 A0, Ld Tp 32 A0, Ld T0 16 A0,
     Ld T1 0 A0, Csrw Satp T1, Sfence, Jr T0]"

definition userret :: "instr list" where
  "userret =
    [Csrw Satp A1, Sfence, Ld T0 112 A0, Csrw Sscratch T0, Ld Ra 40 A0, Ld Sp 48 A0,
     Ld Gp 56 A0, Ld Tp 64 A0, Ld T0 72 A0, Ld T1 80 A0, Ld T2 88 A0, Ld S0 96 A0,
     Ld S1 104 A0, Ld A1 120 A0, Ld A2 128 A0, Ld A3 136 A0, Ld A4 144 A0, Ld A5 152 A0,
     Ld A6 160 A0, Ld A7 168 A0, Ld S2 176 A0, Ld S3 184 A0, Ld S4 192 A0, Ld S5 200 A0,
     Ld S6 208 A0, Ld S7 216 A0, Ld S8 224 A0, Ld S9 232 A0, Ld S10 240 A0, Ld S11 248 A0,
     Ld T3 256 A0, Ld T4 264 A0, Ld T5 272 A0, Ld T6 280 A0, Csrrw A0 Sscratch A0, Sret]"

definition swtch :: "instr list" where
  "swtch =
    [Sd Ra 0 A0, Sd Sp 8 A0, Sd S0 16 A0, Sd S1 24 A0, Sd S2 32 A0, Sd S3 40 A0, Sd S4 48 A0,
     Sd S5 56 A0, Sd S6 64 A0, Sd S7 72 A0, Sd S8 80 A0, Sd S9 88 A0, Sd S10 96 A0,
     Sd S11 104 A0, Ld Ra 0 A1, Ld Sp 8 A1, Ld S0 16 A1, Ld S1 24 A1, Ld S2 32 A1,
     Ld S3 40 A1, Ld S4 48 A1, Ld S5 56 A1, Ld S6 64 A1, Ld S7 72 A1, Ld S8 80 A1,
     Ld S9 88 A1, Ld S10 96 A1, Ld S11 104 A1, Ret]"

definition kernelvec :: "instr list" where
  "kernelvec =
    [Addi Sp Sp (- 256), Sd Ra 0 Sp, Sd Sp 8 Sp, Sd Gp 16 Sp, Sd Tp 24 Sp, Sd T0 32 Sp,
     Sd T1 40 Sp, Sd T2 48 Sp, Sd S0 56 Sp, Sd S1 64 Sp, Sd A0 72 Sp, Sd A1 80 Sp,
     Sd A2 88 Sp, Sd A3 96 Sp, Sd A4 104 Sp, Sd A5 112 Sp, Sd A6 120 Sp, Sd A7 128 Sp,
     Sd S2 136 Sp, Sd S3 144 Sp, Sd S4 152 Sp, Sd S5 160 Sp, Sd S6 168 Sp, Sd S7 176 Sp,
     Sd S8 184 Sp, Sd S9 192 Sp, Sd S10 200 Sp, Sd S11 208 Sp, Sd T3 216 Sp, Sd T4 224 Sp,
     Sd T5 232 Sp, Sd T6 240 Sp, Call ''kerneltrap'', Ld Ra 0 Sp, Ld Sp 8 Sp, Ld Gp 16 Sp,
     Ld T0 32 Sp, Ld T1 40 Sp, Ld T2 48 Sp, Ld S0 56 Sp, Ld S1 64 Sp, Ld A0 72 Sp,
     Ld A1 80 Sp, Ld A2 88 Sp, Ld A3 96 Sp, Ld A4 104 Sp, Ld A5 112 Sp, Ld A6 120 Sp,
     Ld A7 128 Sp, Ld S2 136 Sp, Ld S3 144 Sp, Ld S4 152 Sp, Ld S5 160 Sp, Ld S6 168 Sp,
     Ld S7 176 Sp, Ld S8 184 Sp, Ld S9 192 Sp, Ld S10 200 Sp, Ld S11 208 Sp, Ld T3 216 Sp,
     Ld T4 224 Sp, Ld T5 232 Sp, Ld T6 240 Sp, Addi Sp Sp 256, Sret]"

definition timervec :: "instr list" where
  "timervec =
    [Csrrw A0 Mscratch A0, Sd A1 0 A0, Sd A2 8 A0, Sd A3 16 A0, Ld A1 24 A0, Ld A2 32 A0,
     Ld A3 0 A1, Add A3 A3 A2, Sd A3 0 A1, Li A1 2, Csrw Sip A1, Ld A3 16 A0, Ld A2 8 A0,
     Ld A1 0 A0, Csrrw A0 Mscratch A0, Mret]"

definition entry :: "instr list" where
  "entry =
    [La Sp ''stack0'', Li A0 (1024 * 4), Csrr A1 Mhartid, Addi A1 A1 1, Mul A0 A0 A1, Add Sp Sp A0,
     Call ''start'', J 7]"

section \<open>User-side stubs\<close>

definition SYS :: "string \<Rightarrow> u64" where
  "SYS name = the (map_of
    [(''fork'', 1), (''exit'', 2), (''wait'', 3), (''pipe'', 4), (''read'', 5), (''kill'', 6),
     (''exec'', 7), (''fstat'', 8), (''chdir'', 9), (''dup'', 10), (''getpid'', 11),
     (''sbrk'', 12), (''sleep'', 13), (''uptime'', 14), (''open'', 15), (''write'', 16),
     (''mknod'', 17), (''unlink'', 18), (''link'', 19), (''mkdir'', 20), (''close'', 21),
     (''sigalarm'', 22), (''sigreturn'', 23)] name)"

definition usys_entry :: "string \<Rightarrow> instr list" where
  "usys_entry name = [Li A7 (SYS name), Ecall, Ret]"

definition usys :: "(string \<times> instr list) list" where
  "usys = map (\<lambda>n. (n, usys_entry n))
    [''fork'', ''exit'', ''wait'', ''pipe'', ''read'', ''write'', ''close'', ''kill'', ''exec'',
     ''open'', ''mknod'', ''unlink'', ''fstat'', ''link'', ''mkdir'', ''chdir'', ''dup'',
     ''getpid'', ''sbrk'', ''sleep'', ''uptime'', ''sigalarm'', ''sigreturn'']"

definition init_start :: "instr list" where
  "init_start =
    [La A0 ''init'', La A1 ''argv'', Li A7 (SYS ''exec''), Ecall,
     Li A7 (SYS ''exit''), Ecall, J 4]"

end
