(* ===== verification/Asm_Properties.thy ===== *)
theory Asm_Properties
  imports Asm
begin

text \<open>
  Properties of the machine code.  A block of stores followed by a block of loads at the same
  8-byte slots is described once, by \<open>save_slots\<close> and \<open>load_slots\<close>; the trampoline, the context
  switch and the kernel trap vector are instances.
\<close>

section \<open>Slots\<close>

definition save_slots :: "(reg \<times> nat) list \<Rightarrow> u64 \<Rightarrow> (reg \<Rightarrow> u64) \<Rightarrow> memory \<Rightarrow> memory" where
  "save_slots rs a v m = fold (\<lambda>(r, k) m. st64 m (a + of_nat k) (v r)) rs m"

definition load_slots :: "(reg \<times> nat) list \<Rightarrow> u64 \<Rightarrow> memory \<Rightarrow> (reg \<Rightarrow> u64) \<Rightarrow> reg \<Rightarrow> u64" where
  "load_slots rs a m v = (\<lambda>r. case map_of rs r of Some k \<Rightarrow> ld64 m (a + of_nat k) | None \<Rightarrow> v r)"

text \<open>Slots are distinct, 8-byte aligned and lie in \<open>n\<close> bytes.\<close>

definition slots_ok :: "(reg \<times> nat) list \<Rightarrow> nat \<Rightarrow> bool" where
  "slots_ok rs n \<longleftrightarrow> distinct (map fst rs) \<and> distinct (map snd rs) \<and>
     (\<forall>k \<in> set (map snd rs). k mod 8 = 0 \<and> k + 8 \<le> n) \<and> n \<le> 4096"

text \<open>The \<open>n\<close> bytes at virtual address \<open>va\<close> are the physical bytes at \<open>pa\<close>; \<open>fixed_window\<close>:
  whatever those bytes hold.\<close>

definition window :: "translation \<Rightarrow> u64 \<Rightarrow> memory \<Rightarrow> u64 \<Rightarrow> u64 \<Rightarrow> nat \<Rightarrow> bool" where
  "window tr sat m va pa n \<longleftrightarrow> (\<forall>k<n. tr sat m (va + of_nat k) = pa + of_nat k)"

definition fixed_window :: "translation \<Rightarrow> u64 \<Rightarrow> memory \<Rightarrow> u64 \<Rightarrow> u64 \<Rightarrow> nat \<Rightarrow> bool" where
  "fixed_window tr sat m0 va pa n \<longleftrightarrow>
     (\<forall>m. (\<forall>x. x \<notin> span pa n \<longrightarrow> m x = m0 x) \<longrightarrow> window tr sat m va pa n)"

lemma windowD: "window tr sat m va pa n \<Longrightarrow> k < n \<Longrightarrow> tr sat m (va + of_nat k) = pa + of_nat k"
  by (simp add: window_def)

lemma fixed_windowD:
  "fixed_window tr sat m0 va pa n \<Longrightarrow> (\<And>x. x \<notin> span pa n \<Longrightarrow> m x = m0 x) \<Longrightarrow> window tr sat m va pa n"
  by (simp add: fixed_window_def)

lemma slot_spans_disjoint:
  assumes "i mod 8 = 0" "j mod 8 = 0" "i \<noteq> j" "i < 4096" "j < 4096"
  shows "span (a + of_nat i) 8 \<inter> span (a + of_nat j) 8 = {}"
proof -
  have False if x: "x \<in> span (a + of_nat i) 8" "x \<in> span (a + of_nat j) 8" for x
  proof -
    obtain p where p: "p < 8" "x = a + of_nat i + of_nat p" using x(1) by (rule in_spanE)
    obtain q where q: "q < 8" "x = a + of_nat j + of_nat q" using x(2) by (rule in_spanE)
    have "unat (of_nat (i + p) :: u64) = unat (of_nat (j + q) :: u64)" using p q by simp
    moreover have "unat (of_nat (i + p) :: u64) = i + p" "unat (of_nat (j + q) :: u64) = j + q"
      using p(1) q(1) assms by (simp_all add: unat_of_nat del: of_nat_add)
    ultimately have "i + p = j + q" by simp
    then show False using p(1) q(1) assms by presburger
  qed
  then show ?thesis by blast
qed

lemma slot_in_region:
  assumes "k + 8 \<le> n" "n \<le> 4096"
  shows "span (a + of_nat k) 8 \<subseteq> span a n"
proof
  fix x
  assume "x \<in> span (a + of_nat k) 8"
  then obtain i where i: "i < 8" and x: "x = a + of_nat k + of_nat i" by (rule in_spanE)
  have "x = a + of_nat (k + i)" by (simp add: x)
  then show "x \<in> span a n" using i assms by (simp only:) (rule span_add, auto)
qed

lemma slots_ok_Cons:
  "slots_ok ((r, k) # rs) n \<Longrightarrow> slots_ok rs n \<and> k mod 8 = 0 \<and> k + 8 \<le> n \<and> n \<le> 4096 \<and>
     r \<notin> fst ` set rs \<and> k \<notin> snd ` set rs"
  by (auto simp: slots_ok_def)

lemma save_slots_simps [simp]:
  "save_slots [] a v m = m"
  "save_slots ((r, k) # rs) a v m = save_slots rs a v (st64 m (a + of_nat k) (v r))"
  by (simp_all add: save_slots_def)

lemma save_slots_outside:
  assumes "slots_ok rs n" "x \<notin> span a n"
  shows "save_slots rs a v m x = m x"
  using assms
proof (induction rs arbitrary: m)
  case (Cons p rs)
  obtain r k where p: "p = (r, k)" by (cases p)
  have "slots_ok rs n" "k + 8 \<le> n" "n \<le> 4096" using Cons.prems(1) slots_ok_Cons unfolding p by blast+
  moreover from this have "x \<notin> span (a + of_nat k) 8" using slot_in_region Cons.prems(2) by blast
  ultimately show ?case using Cons by (simp add: p st64_outside)
qed simp

lemma save_slots_other:
  assumes "slots_ok rs n" "k mod 8 = 0" "k < 4096" "k \<notin> snd ` set rs"
  shows "ld64 (save_slots rs a v m) (a + of_nat k) = ld64 m (a + of_nat k)"
  using assms
proof (induction rs arbitrary: m)
  case (Cons p rs)
  obtain r j where p: "p = (r, j)" by (cases p)
  have j: "slots_ok rs n" "j mod 8 = 0" "j + 8 \<le> n" "n \<le> 4096"
    using Cons.prems(1) slots_ok_Cons unfolding p by blast+
  then have "span (a + of_nat j) 8 \<inter> span (a + of_nat k) 8 = {}"
    using Cons.prems by (intro slot_spans_disjoint) (auto simp: p)
  then show ?case using Cons j by (simp add: p ld64_st64_disjoint)
qed simp

lemma save_slots_saved:
  assumes "slots_ok rs n" "(r, k) \<in> set rs"
  shows "ld64 (save_slots rs a v m) (a + of_nat k) = v r"
  using assms
proof (induction rs arbitrary: m)
  case (Cons p rs)
  obtain r' j where p: "p = (r', j)" by (cases p)
  have j: "slots_ok rs n" "j mod 8 = 0" "j + 8 \<le> n" "n \<le> 4096" "j \<notin> snd ` set rs"
    using Cons.prems(1) slots_ok_Cons unfolding p by blast+
  show ?case
  proof (cases "p = (r, k)")
    case True
    then show ?thesis using j by (simp add: p save_slots_other)
  next
    case False
    then have "(r, k) \<in> set rs" using Cons.prems(2) by simp
    then show ?thesis using Cons.IH j(1) by (simp add: p)
  qed
qed simp

section \<open>Blocks of stores and loads\<close>

lemma run_saves:
  assumes "slots_ok rs n" and "fixed_window tr (hcsr h Satp) m0 (regs h b) pa n"
    and "\<And>x. x \<notin> span pa n \<Longrightarrow> hmem h x = m0 x"
  shows "run tr fn syms (map (\<lambda>(r, k). Sd r k b) rs @ is) h =
    run tr fn syms is (h\<lparr>hmem := save_slots rs pa (regs h) (hmem h)\<rparr>)"
  using assms
proof (induction rs arbitrary: h)
  case (Cons p rs)
  obtain r k where p: "p = (r, k)" by (cases p)
  have k: "slots_ok rs n" "k + 8 \<le> n" "n \<le> 4096" using Cons.prems(1) slots_ok_Cons unfolding p by blast+
  let ?h = "h\<lparr>hmem := st64 (hmem h) (pa + of_nat k) (regs h r)\<rparr>"
  have "window tr (hcsr h Satp) (hmem h) (regs h b) pa n"
    using Cons.prems by (intro fixed_windowD) auto
  then have o: "operand tr k b h = pa + of_nat k"
    using k by (simp add: operand_def windowD)
  have out: "hmem ?h x = m0 x" if "x \<notin> span pa n" for x
  proof -
    have "x \<notin> span (pa + of_nat k) 8" using that slot_in_region [OF k(2,3)] by blast
    then show ?thesis using that Cons.prems(3) by (simp add: st64_outside)
  qed
  have "run tr fn syms (map (\<lambda>(r, k). Sd r k b) rs @ is) ?h =
    run tr fn syms is (?h\<lparr>hmem := save_slots rs pa (regs ?h) (hmem ?h)\<rparr>)"
    using Cons.prems(2) by (intro Cons.IH k(1) out) simp
  then show ?case by (simp add: p o)
qed simp

lemma run_loads:
  assumes "slots_ok rs n" and "window tr (hcsr h Satp) (hmem h) (regs h b) pa n"
    and "\<And>k. (b, k) \<in> set rs \<Longrightarrow> ld64 (hmem h) (pa + of_nat k) = regs h b"
  shows "run tr fn syms (map (\<lambda>(r, k). Ld r k b) rs @ is) h =
    run tr fn syms is (h\<lparr>regs := load_slots rs pa (hmem h) (regs h)\<rparr>)"
  using assms
proof (induction rs arbitrary: h)
  case (Cons p rs)
  obtain r k where p: "p = (r, k)" by (cases p)
  have k: "slots_ok rs n" "k + 8 \<le> n" "n \<le> 4096" "r \<notin> fst ` set rs"
    using Cons.prems(1) slots_ok_Cons unfolding p by blast+
  let ?h = "set_reg r (ld64 (hmem h) (pa + of_nat k)) h"
  have o: "operand tr k b h = pa + of_nat k"
    using k Cons.prems(2) by (simp add: operand_def windowD)
  have b: "regs ?h b = regs h b" using Cons.prems(3) by (simp add: p set_reg_def)
  have "run tr fn syms (map (\<lambda>(r, k). Ld r k b) rs @ is) ?h =
    run tr fn syms is (?h\<lparr>regs := load_slots rs pa (hmem ?h) (regs ?h)\<rparr>)"
    using Cons.prems b by (intro Cons.IH k(1)) (auto simp: set_reg_def)
  moreover have none: "map_of rs r = None" using k(4) by (simp add: map_of_eq_None_iff)
  moreover have "load_slots rs pa (hmem ?h) (regs ?h) = load_slots (p # rs) pa (hmem h) (regs h)"
    using none by (auto simp: load_slots_def p set_reg_def fun_eq_iff split: option.split)
  ultimately show ?case by (simp add: p o) (simp add: set_reg_def)
qed (simp add: load_slots_def)

section \<open>The trampoline\<close>

definition user_slots :: "(reg \<times> nat) list" where
  "user_slots =
    [(Ra, 40), (Sp, 48), (Gp, 56), (Tp, 64), (T0, 72), (T1, 80), (T2, 88), (S0, 96), (S1, 104),
     (A1, 120), (A2, 128), (A3, 136), (A4, 144), (A5, 152), (A6, 160), (A7, 168), (S2, 176),
     (S3, 184), (S4, 192), (S5, 200), (S6, 208), (S7, 216), (S8, 224), (S9, 232), (S10, 240),
     (S11, 248), (T3, 256), (T4, 264), (T5, 272), (T6, 280)]"

text \<open>The offset of a user register in \<^verbatim>\<open>struct trapframe\<close>.\<close>

definition tf_slot :: "reg \<Rightarrow> nat" where
  "tf_slot r = (case map_of user_slots r of Some k \<Rightarrow> k | None \<Rightarrow> 112)"

lemma user_slots_ok: "slots_ok user_slots 4096"
  by (simp add: slots_ok_def user_slots_def)

lemma user_slots_complete: "r \<noteq> A0 \<Longrightarrow> (r, tf_slot r) \<in> set user_slots"
  by (cases r) (simp_all add: tf_slot_def user_slots_def)

lemma tf_slot_range: "tf_slot r mod 8 = 0 \<and> 40 \<le> tf_slot r \<and> tf_slot r + 8 \<le> 288"
  by (cases r) (simp_all add: tf_slot_def user_slots_def)

lemma tf_slot_A0 [simp]: "tf_slot A0 = 112"
  by (simp add: tf_slot_def user_slots_def)

lemma map_of_user_slots: "map_of user_slots r = (if r = A0 then None else Some (tf_slot r))"
  by (cases r) (simp_all add: tf_slot_def user_slots_def)

lemma no_slot: "k \<in> {0, 8, 16, 24, 32, 112} \<Longrightarrow> k \<notin> snd ` set user_slots"
  by (auto simp: user_slots_def)

lemma uservec_eq:
  "uservec = Csrrw A0 Sscratch A0 # map (\<lambda>(r, k). Sd r k A0) user_slots @
     [Csrr T0 Sscratch, Sd T0 112 A0, Ld Sp 8 A0, Ld Tp 32 A0, Ld T0 16 A0, Ld T1 0 A0,
      Csrw Satp T1, Sfence, Jr T0]"
  by (simp add: uservec_def user_slots_def)

lemma userret_eq:
  "userret = [Csrw Satp A1, Sfence, Ld T0 112 A0, Csrw Sscratch T0] @
     map (\<lambda>(r, k). Ld r k A0) user_slots @ [Csrrw A0 Sscratch A0, Sret]"
  by (simp add: userret_def user_slots_def)

text \<open>The trapframe page after \<open>uservec\<close>.\<close>

definition saved_frame :: "u64 \<Rightarrow> (reg \<Rightarrow> u64) \<Rightarrow> memory \<Rightarrow> memory" where
  "saved_frame tf v m = st64 (save_slots user_slots tf v m) (tf + 112) (v A0)"

lemma save_slots_A0_irrelevant:
  "save_slots user_slots tf (v(A0 := x)) m = save_slots user_slots tf v m"
  by (simp add: user_slots_def)

lemma saved_frame_user: "ld64 (saved_frame tf v m) (tf + of_nat (tf_slot r)) = v r"
proof (cases "r = A0")
  case False
  then have r: "(r, tf_slot r) \<in> set user_slots" by (rule user_slots_complete)
  have "tf_slot r \<noteq> 112" using r no_slot [of 112] by force
  then have "span (tf + of_nat 112) 8 \<inter> span (tf + of_nat (tf_slot r)) 8 = {}"
    using tf_slot_range [of r] by (intro slot_spans_disjoint) auto
  then show ?thesis
    using save_slots_saved [OF user_slots_ok r] by (simp add: saved_frame_def ld64_st64_disjoint)
qed (simp add: saved_frame_def)

lemma saved_frame_kernel:
  assumes "k \<in> {0, 8, 16, 24, 32}"
  shows "ld64 (saved_frame tf v m) (tf + of_nat k) = ld64 m (tf + of_nat k)"
proof -
  have "span (tf + of_nat 112) 8 \<inter> span (tf + of_nat k) 8 = {}"
    using assms by (intro slot_spans_disjoint) auto
  then have "ld64 (saved_frame tf v m) (tf + of_nat k) = ld64 (save_slots user_slots tf v m) (tf + of_nat k)"
    by (simp add: saved_frame_def ld64_st64_disjoint)
  also have "\<dots> = ld64 m (tf + of_nat k)"
    using assms no_slot [of k] by (intro save_slots_other [OF user_slots_ok]) auto
  finally show ?thesis .
qed

lemma saved_frame_outside:
  assumes "x \<notin> span tf 4096"
  shows "saved_frame tf v m x = m x"
proof -
  have "span (tf + of_nat 112) 8 \<subseteq> span tf 4096" by (rule slot_in_region) auto
  then have "x \<notin> span (tf + 112) 8" using assms by auto
  then show ?thesis
    using assms by (simp add: saved_frame_def st64_outside save_slots_outside [OF user_slots_ok])
qed

lemma run_uservec:
  assumes sc: "hcsr h Sscratch = va"
    and fw: "fixed_window tr (hcsr h Satp) (hmem h) va tf 4096"
  shows "\<exists>h'. run tr fn syms uservec h = (Goto (ld64 (hmem h) (tf + 16)), h') \<and>
    hmem h' = saved_frame tf (regs h) (hmem h) \<and> regs h' Sp = ld64 (hmem h) (tf + 8) \<and>
    regs h' Tp = ld64 (hmem h) (tf + 32) \<and> hcsr h' Satp = ld64 (hmem h) (tf + 0)"
proof -
  let ?m = "saved_frame tf (regs h) (hmem h)"
  let ?h0 = "set_csr Sscratch (regs h A0) (set_reg A0 va h)"
  let ?h1 = "?h0\<lparr>hmem := save_slots user_slots tf (regs h) (hmem h)\<rparr>"
  have simps: "regs ?h0 = (regs h)(A0 := va)" "hmem ?h0 = hmem h" "hcsr ?h0 Satp = hcsr h Satp"
    by (simp_all add: set_csr_def set_reg_def)
  have saves: "run tr fn syms (map (\<lambda>(r, k). Sd r k A0) user_slots @ is) ?h0 = run tr fn syms is ?h1" for "is"
    by (subst run_saves [OF user_slots_ok, where pa = tf and ?m0.0 = "hmem h"])
      (use fw in \<open>simp_all add: simps save_slots_A0_irrelevant\<close>)
  have w1: "window tr (hcsr h Satp) (save_slots user_slots tf (regs h) (hmem h)) va tf 4096"
    by (rule fixed_windowD [OF fw]) (rule save_slots_outside [OF user_slots_ok])
  have w2: "window tr (hcsr h Satp) ?m va tf 4096"
    by (rule fixed_windowD [OF fw]) (rule saved_frame_outside)
  have a1: "tr (hcsr h Satp) (save_slots user_slots tf (regs h) (hmem h)) (va + 112) = tf + 112"
    using windowD [OF w1, of 112] by simp
  have a2: "tr (hcsr h Satp) ?m (va + 8) = tf + 8" "tr (hcsr h Satp) ?m (va + 32) = tf + 32"
    "tr (hcsr h Satp) ?m (va + 16) = tf + 16" "tr (hcsr h Satp) ?m va = tf"
    using windowD [OF w2, of 8] windowD [OF w2, of 32] windowD [OF w2, of 16] windowD [OF w2, of 0]
    by simp_all
  have k: "ld64 ?m (tf + 8) = ld64 (hmem h) (tf + 8)" "ld64 ?m (tf + 32) = ld64 (hmem h) (tf + 32)"
    "ld64 ?m (tf + 16) = ld64 (hmem h) (tf + 16)" "ld64 ?m tf = ld64 (hmem h) tf"
    using saved_frame_kernel [of 8] saved_frame_kernel [of 32] saved_frame_kernel [of 16]
      saved_frame_kernel [of 0] by simp_all
  have st: "st64 (save_slots user_slots tf (regs h) (hmem h)) (tf + 112) (regs h A0) = ?m"
    by (simp add: saved_frame_def)
  have pre: "run tr fn syms uservec h = run tr fn syms (map (\<lambda>(r, k). Sd r k A0) user_slots @
      [Csrr T0 Sscratch, Sd T0 112 A0, Ld Sp 8 A0, Ld Tp 32 A0, Ld T0 16 A0, Ld T1 0 A0,
       Csrw Satp T1, Sfence, Jr T0]) ?h0"
    by (simp only: uservec_eq run.simps sc)
  have st1: "run tr fn syms (Csrr T0 Sscratch # Sd T0 112 A0 # is) ?h1 =
      run tr fn syms is ((set_reg T0 (regs h A0) ?h0)\<lparr>hmem := ?m\<rparr>)" for "is"
    using a1 by (simp add: operand_def set_csr_def set_reg_def st)
  show ?thesis
    unfolding pre saves st1
    by (simp add: operand_def set_csr_def set_reg_def a2 k)
qed

lemma run_userret:
  assumes "regs h A0 = va" and w: "window tr (regs h A1) (hmem h) va tf 4096"
  shows "\<exists>h'. run tr fn syms userret h = (SupervisorReturn, h') \<and> hmem h' = hmem h \<and>
    regs h' = (\<lambda>r. ld64 (hmem h) (tf + of_nat (tf_slot r))) \<and>
    hcsr h' Sscratch = va \<and> hcsr h' Satp = regs h A1"
proof -
  let ?a0 = "ld64 (hmem h) (tf + 112)"
  let ?h0 = "set_csr Sscratch ?a0 (set_reg T0 ?a0 (set_csr Satp (regs h A1) h))"
  have o: "tr (regs h A1) (hmem h) (va + 112) = tf + 112" using windowD [OF w, of 112] by simp
  have simps: "hcsr ?h0 Satp = regs h A1" "hmem ?h0 = hmem h" "regs ?h0 A0 = va"
    by (simp_all add: set_csr_def set_reg_def assms(1))
  have loads: "run tr fn syms (map (\<lambda>(r, k). Ld r k A0) user_slots @ is) ?h0 =
      run tr fn syms is (?h0\<lparr>regs := load_slots user_slots tf (hmem h) (regs ?h0)\<rparr>)" for "is"
    by (subst run_loads [OF user_slots_ok, where pa = tf])
      (use w in \<open>auto simp: simps user_slots_def\<close>)
  have pre: "run tr fn syms userret h = run tr fn syms
      (map (\<lambda>(r, k). Ld r k A0) user_slots @ [Csrrw A0 Sscratch A0, Sret]) ?h0"
    using o by (simp add: userret_eq operand_def set_csr_def set_reg_def assms(1))
  have r: "(load_slots user_slots tf (hmem h) (regs ?h0))(A0 := ?a0) =
      (\<lambda>r. ld64 (hmem h) (tf + of_nat (tf_slot r)))"
    by (auto simp: load_slots_def map_of_user_slots fun_eq_iff)
  have a: "load_slots user_slots tf (hmem h) (regs ?h0) A0 = va"
    by (simp add: load_slots_def map_of_user_slots simps)
  show ?thesis
    unfolding pre loads
    using r a by (simp add: set_csr_def set_reg_def)
qed

text \<open>
  Claim C30.  The trampoline round trip.  A trap from user space saves every user register in
  the trapframe page, enters the kernel at the handler, stack, hart number and page table that
  the trapframe names and writes nothing else.  When the kernel, having left the saved
  registers alone, jumps to \<^verbatim>\<open>userret\<close> with the trapframe address and the user page table,
  the user code continues with exactly the register contents it was interrupted with, and the
  hart is ready for the next trap.
\<close>

theorem trampoline_roundtrip:
  assumes "hcsr h Sscratch = TRAPFRAME" and "fixed_window tr (hcsr h Satp) (hmem h) TRAPFRAME tf 4096"
    and "regs hk A0 = TRAPFRAME" and "regs hk A1 = hcsr h Satp"
    and "window tr (hcsr h Satp) (hmem hk) TRAPFRAME tf 4096"
    and "\<forall>r. ld64 (hmem hk) (tf + of_nat (tf_slot r)) =
           ld64 (hmem (snd (run tr fn syms uservec h))) (tf + of_nat (tf_slot r))"
  shows "\<exists>he hu. run tr fn syms uservec h = (Goto (ld64 (hmem h) (tf + 16)), he) \<and>
      regs he Sp = ld64 (hmem h) (tf + 8) \<and> regs he Tp = ld64 (hmem h) (tf + 32) \<and>
      hcsr he Satp = ld64 (hmem h) (tf + 0) \<and> (\<forall>x. x \<notin> span tf 4096 \<longrightarrow> hmem he x = hmem h x) \<and>
      run tr fn syms userret hk = (SupervisorReturn, hu) \<and> regs hu = regs h \<and>
      hcsr hu Sscratch = TRAPFRAME \<and> hcsr hu Satp = hcsr h Satp \<and> hmem hu = hmem hk"
proof -
  obtain he where he: "run tr fn syms uservec h = (Goto (ld64 (hmem h) (tf + 16)), he)"
      "hmem he = saved_frame tf (regs h) (hmem h)" "regs he Sp = ld64 (hmem h) (tf + 8)"
      "regs he Tp = ld64 (hmem h) (tf + 32)" "hcsr he Satp = ld64 (hmem h) (tf + 0)"
    using run_uservec [OF assms(1,2), of fn syms] by auto
  obtain hu where hu: "run tr fn syms userret hk = (SupervisorReturn, hu)" "hmem hu = hmem hk"
      "regs hu = (\<lambda>r. ld64 (hmem hk) (tf + of_nat (tf_slot r)))"
      "hcsr hu Sscratch = TRAPFRAME" "hcsr hu Satp = hcsr h Satp"
    using run_userret [OF assms(3), of tr tf fn syms] assms(4,5) by auto
  have "regs hu = regs h" using hu(3) assms(6) he(1,2) by (simp add: saved_frame_user)
  then show ?thesis using he hu saved_frame_outside by auto
qed

definition demo_tr :: translation where
  "demo_tr sat m va = va - TRAPFRAME + 0x87000000"

definition demo_hart :: hart_state where
  "demo_hart = \<lparr>regs = (\<lambda>r. of_nat (tf_slot r)),
     hcsr = (\<lambda>c. if c = Sscratch then TRAPFRAME else 3), hmem = (\<lambda>_. 0)\<rparr>"

lemma demo_window: "window demo_tr sat m TRAPFRAME 0x87000000 n"
  by (simp add: window_def demo_tr_def)

theorem trampoline_roundtrip_witness:
  "\<exists>he hu. run demo_tr (\<lambda>_ h. h) (\<lambda>_. 0) uservec demo_hart = (Goto (ld64 (hmem demo_hart) (0x87000000 + 16)), he) \<and>
     run demo_tr (\<lambda>_ h. h) (\<lambda>_. 0) userret
       (set_reg A0 TRAPFRAME (set_reg A1 3 (snd (run demo_tr (\<lambda>_ h. h) (\<lambda>_. 0) uservec demo_hart))))
       = (SupervisorReturn, hu) \<and> regs hu = regs demo_hart"
  using trampoline_roundtrip [of demo_hart demo_tr "0x87000000"
      "set_reg A0 TRAPFRAME (set_reg A1 3 (snd (run demo_tr (\<lambda>_ h. h) (\<lambda>_. 0) uservec demo_hart)))"
      "\<lambda>_ h. h" "\<lambda>_. 0"]
  by (auto simp: demo_hart_def set_reg_def demo_window fixed_window_def)

section \<open>The context switch\<close>

definition context_slots :: "(reg \<times> nat) list" where
  "context_slots =
    [(Ra, 0), (Sp, 8), (S0, 16), (S1, 24), (S2, 32), (S3, 40), (S4, 48), (S5, 56), (S6, 64),
     (S7, 72), (S8, 80), (S9, 88), (S10, 96), (S11, 104)]"

lemma context_slots_ok: "slots_ok context_slots 112"
  by (simp add: slots_ok_def context_slots_def)

lemma swtch_eq:
  "swtch = map (\<lambda>(r, k). Sd r k A0) context_slots @ map (\<lambda>(r, k). Ld r k A1) context_slots @ [Ret]"
  by (simp add: swtch_def context_slots_def)

lemma run_swtch:
  assumes old: "fixed_window tr (hcsr h Satp) (hmem h) (regs h A0) po 112"
    and new: "window tr (hcsr h Satp) (save_slots context_slots po (regs h) (hmem h)) (regs h A1) pn 112"
  defines "m \<equiv> save_slots context_slots po (regs h) (hmem h)"
  shows "run tr fn syms swtch h =
    (Goto (ld64 m pn), h\<lparr>hmem := m, regs := load_slots context_slots pn m (regs h)\<rparr>)"
proof -
  let ?h1 = "h\<lparr>hmem := m\<rparr>"
  have 1: "run tr fn syms (map (\<lambda>(r, k). Sd r k A0) context_slots @ is) h = run tr fn syms is ?h1" for "is"
    unfolding m_def by (rule run_saves [OF context_slots_ok old]) simp
  have 2: "run tr fn syms (map (\<lambda>(r, k). Ld r k A1) context_slots @ is) ?h1 =
      run tr fn syms is (?h1\<lparr>regs := load_slots context_slots pn (hmem ?h1) (regs ?h1)\<rparr>)" for "is"
    by (rule run_loads [OF context_slots_ok])
      (use new in \<open>simp_all add: m_def context_slots_def\<close>)
  show ?thesis
    unfolding swtch_eq 1 2 by (simp add: load_slots_def context_slots_def)
qed

text \<open>
  Claim C31.  A thread that calls \<^verbatim>\<open>swtch\<close> is resumed where it left.  The call stores its
  callee-saved registers in the context it names.  Any later \<^verbatim>\<open>swtch\<close>, from any thread and on
  any hart, that names this context as the one to resume returns to the address after the
  call, with all callee-saved registers of the caller, its stack pointer included, restored.
\<close>

theorem swtch_resumes:
  assumes "fixed_window tr (hcsr h Satp) (hmem h) (regs h A0) pa 112"
    and "window tr (hcsr h Satp) (save_slots context_slots pa (regs h) (hmem h)) (regs h A1) pb 112"
    and "run tr fn syms swtch h = (l, h1)"
    and "fixed_window tr (hcsr g Satp) (hmem g) (regs g A0) pc 112"
    and "window tr (hcsr g Satp) (save_slots context_slots pc (regs g) (hmem g)) (regs g A1) pa 112"
    and "\<forall>x \<in> span pa 112. hmem g x = hmem h1 x" and "span pc 112 \<inter> span pa 112 = {}"
  shows "\<exists>g1. run tr fn syms swtch g = (Goto (regs h Ra), g1) \<and>
    (\<forall>r \<in> {Sp, S0, S1, S2, S3, S4, S5, S6, S7, S8, S9, S10, S11}. regs g1 r = regs h r) \<and>
    hcsr g1 = hcsr g \<and> (\<forall>x. x \<notin> span pc 112 \<longrightarrow> hmem g1 x = hmem g x)"
proof -
  have h1: "hmem h1 = save_slots context_slots pa (regs h) (hmem h)"
    using run_swtch [OF assms(1,2), of fn syms] assms(3) by simp
  let ?m = "save_slots context_slots pc (regs g) (hmem g)"
  have saved: "ld64 ?m (pa + of_nat k) = regs h r" if rk: "(r, k) \<in> set context_slots" for r k
  proof -
    have k: "span (pa + of_nat k) 8 \<subseteq> span pa 112"
      using rk context_slots_ok by (intro slot_in_region) (auto simp: slots_ok_def)
    have "ld64 ?m (pa + of_nat k) = ld64 (hmem h1) (pa + of_nat k)"
    proof (rule ld64_cong)
      fix x assume "x \<in> span (pa + of_nat k) 8"
      then have "x \<in> span pa 112" using k by blast
      moreover from this have "x \<notin> span pc 112" using assms(7) by blast
      ultimately show "?m x = hmem h1 x"
        using assms(6) save_slots_outside [OF context_slots_ok, of x pc] by simp
    qed
    then show ?thesis using save_slots_saved [OF context_slots_ok rk] by (simp add: h1)
  qed
  have ra: "ld64 ?m pa = regs h Ra" using saved [of Ra 0] by (simp add: context_slots_def)
  have "load_slots context_slots pa ?m (regs g) r = regs h r" if "r \<in> fst ` set context_slots" for r
  proof -
    have "map_of context_slots r \<noteq> None" using that by (simp only: map_of_eq_None_iff not_not)
    then obtain k where k: "map_of context_slots r = Some k" by blast
    then show ?thesis using saved [OF map_of_SomeD [OF k]] by (simp add: load_slots_def)
  qed
  then have r: "\<forall>r \<in> {Sp, S0, S1, S2, S3, S4, S5, S6, S7, S8, S9, S10, S11}.
      load_slots context_slots pa ?m (regs g) r = regs h r"
    by (simp add: context_slots_def)
  show ?thesis
    using run_swtch [OF assms(4,5), of fn syms] r ra save_slots_outside [OF context_slots_ok]
    by simp
qed

text \<open>A thread with its context at \<^verbatim>\<open>0x80001000\<close> switches to one at \<^verbatim>\<open>0x80002000\<close> and back.\<close>

definition flat :: translation where
  "flat sat m va = va"

definition demo_thread :: hart_state where
  "demo_thread = \<lparr>regs = (\<lambda>r. of_nat (tf_slot r))(A0 := 0x80001000, A1 := 0x80002000),
     hcsr = (\<lambda>_. 0), hmem = (\<lambda>_. 0)\<rparr>"

definition demo_switched :: hart_state where
  "demo_switched = snd (run flat (\<lambda>_ h. h) (\<lambda>_. 0) swtch demo_thread)"

definition demo_back :: hart_state where
  "demo_back = set_reg A0 0x80002000 (set_reg A1 0x80001000 demo_switched)"

lemma flat_window: "window flat sat m va va n" "fixed_window flat sat m va va n"
  by (simp_all add: window_def fixed_window_def flat_def)

lemma demo_contexts_disjoint: "span (0x80002000 :: u64) 112 \<inter> span 0x80001000 112 = {}"
proof -
  have False if "x \<in> span 0x80002000 112" "x \<in> span 0x80001000 112" for x :: u64
  proof -
    have "unat (x - 0x80001000) = unat ((x - 0x80002000) + 0x1000)" by simp
    moreover have "unat ((x - 0x80002000) + 0x1000) = unat (x - 0x80002000) + 0x1000"
      using that(1) by (subst unat_word_ariths) (simp add: in_span_iff)
    ultimately show False using that by (simp add: in_span_iff)
  qed
  then show ?thesis by blast
qed

theorem swtch_resumes_witness:
  "\<exists>g1. run flat (\<lambda>_ h. h) (\<lambda>_. 0) swtch demo_back = (Goto 40, g1) \<and>
     (\<forall>r \<in> {Sp, S0, S1, S2, S3, S4, S5, S6, S7, S8, S9, S10, S11}. regs g1 r = of_nat (tf_slot r))"
proof -
  have b: "regs demo_back A0 = 0x80002000" "regs demo_back A1 = 0x80001000"
    "hmem demo_back = hmem demo_switched" "regs demo_thread Ra = 40"
    by (simp_all add: demo_back_def set_reg_def demo_thread_def tf_slot_def user_slots_def)
  have t: "regs demo_thread A0 = 0x80001000" "regs demo_thread A1 = 0x80002000"
    by (simp_all add: demo_thread_def)
  have r: "regs demo_thread r = of_nat (tf_slot r)" if "r \<noteq> A0" "r \<noteq> A1" for r
    using that by (simp add: demo_thread_def)
  show ?thesis
    using swtch_resumes [where tr = flat and h = demo_thread and pa = "0x80001000" and pb = "0x80002000"
        and fn = "\<lambda>_ h. h" and syms = "\<lambda>_. 0" and ?h1.0 = demo_switched and g = demo_back and pc = "0x80002000"
        and l = "fst (run flat (\<lambda>_ h. h) (\<lambda>_. 0) swtch demo_thread)"]
      demo_contexts_disjoint
    by (simp add: b t r flat_window demo_switched_def) blast
qed

section \<open>Interrupts in the kernel\<close>

definition frame_slots :: "(reg \<times> nat) list" where
  "frame_slots =
    [(Ra, 0), (Sp, 8), (Gp, 16), (T0, 32), (T1, 40), (T2, 48), (S0, 56), (S1, 64), (A0, 72),
     (A1, 80), (A2, 88), (A3, 96), (A4, 104), (A5, 112), (A6, 120), (A7, 128), (S2, 136),
     (S3, 144), (S4, 152), (S5, 160), (S6, 168), (S7, 176), (S8, 184), (S9, 192), (S10, 200),
     (S11, 208), (T3, 216), (T4, 224), (T5, 232), (T6, 240)]"

definition frame_stores :: "(reg \<times> nat) list" where
  "frame_stores = take 3 frame_slots @ (Tp, 24) # drop 3 frame_slots"

lemma frame_slots_ok: "slots_ok frame_slots 256" "slots_ok frame_stores 256"
  by (simp_all add: slots_ok_def frame_slots_def frame_stores_def)

lemma frame_slots_complete: "r \<noteq> Tp \<Longrightarrow> \<exists>k. map_of frame_slots r = Some k \<and> (r, k) \<in> set frame_stores"
  by (cases r) (simp_all add: frame_slots_def frame_stores_def)

lemma kernelvec_eq:
  "kernelvec = Addi Sp Sp (- 256) # map (\<lambda>(r, k). Sd r k Sp) frame_stores @ Call ''kerneltrap'' #
     map (\<lambda>(r, k). Ld r k Sp) frame_slots @ [Addi Sp Sp 256, Sret]"
  by (simp add: kernelvec_def frame_slots_def frame_stores_def)

text \<open>
  What the compiled handler must respect: it returns with the stack pointer it was called with
  and leaves the caller's part of the stack, which begins there, as it was.
\<close>

definition keeps_frame :: "translation \<Rightarrow> u64 \<Rightarrow> hart_state \<Rightarrow> hart_state \<Rightarrow> bool" where
  "keeps_frame tr pf h h' \<longleftrightarrow> regs h' Sp = regs h Sp \<and> (\<forall>x \<in> span pf 256. hmem h' x = hmem h x) \<and>
     window tr (hcsr h' Satp) (hmem h') (regs h' Sp) pf 256"

lemma kernelvec_loads_back:
  assumes "hmem h1 = save_slots frame_stores pf (regs h1) m" and "keeps_frame tr pf h1 h2"
  shows "(load_slots frame_slots pf (hmem h2) (regs h2)) = (regs h1)(Tp := regs h2 Tp)"
proof
  fix r
  show "load_slots frame_slots pf (hmem h2) (regs h2) r = ((regs h1)(Tp := regs h2 Tp)) r"
  proof (cases "r = Tp")
    case True
    then show ?thesis by (simp add: load_slots_def frame_slots_def)
  next
    case False
    then obtain k where k: "map_of frame_slots r = Some k" "(r, k) \<in> set frame_stores"
      using frame_slots_complete by blast
    have s: "span (pf + of_nat k) 8 \<subseteq> span pf 256"
      using k(2) frame_slots_ok(2) by (intro slot_in_region) (auto simp: slots_ok_def)
    have "ld64 (hmem h2) (pf + of_nat k) = ld64 (hmem h1) (pf + of_nat k)"
      by (rule ld64_cong) (use s assms(2) in \<open>auto simp: keeps_frame_def\<close>)
    also have "\<dots> = regs h1 r"
      using save_slots_saved [OF frame_slots_ok(2) k(2)] assms(1) by simp
    finally show ?thesis using False k(1) by (simp add: load_slots_def)
  qed
qed

text \<open>
  Claim C32.  An interrupt taken in the kernel is transparent.  \<^verbatim>\<open>kernelvec\<close> saves the
  registers in 256 bytes below the interrupted stack pointer and nothing else, calls
  \<^verbatim>\<open>kerneltrap\<close>, and returns with every register as it was, except the thread pointer, which
  is the number of the hart that now runs the thread.
\<close>

theorem kernelvec_transparent:
  assumes "fixed_window tr (hcsr h Satp) (hmem h) (regs h Sp - 256) pf 256"
    and "\<forall>h1. regs h1 Sp = regs h Sp - 256 \<longrightarrow> keeps_frame tr pf h1 (fn ''kerneltrap'' h1)"
  shows "\<exists>h1. (\<forall>x. x \<notin> span pf 256 \<longrightarrow> hmem h1 x = hmem h x) \<and> hcsr h1 = hcsr h \<and>
    run tr fn syms kernelvec h =
      (SupervisorReturn, (fn ''kerneltrap'' h1)
         \<lparr>regs := (regs h)(Tp := regs (fn ''kerneltrap'' h1) Tp)\<rparr>)"
proof -
  let ?h0 = "set_reg Sp (regs h Sp - 256) h"
  let ?h1 = "?h0\<lparr>hmem := save_slots frame_stores pf (regs ?h0) (hmem h)\<rparr>"
  let ?h2 = "fn ''kerneltrap'' ?h1"
  have sp0: "regs ?h0 Sp = regs h Sp - 256" by (simp add: set_reg_def)
  have keep: "keeps_frame tr pf ?h1 ?h2" using assms(2) sp0 by simp
  have pre: "run tr fn syms kernelvec h = run tr fn syms (map (\<lambda>(r, k). Sd r k Sp) frame_stores @
      Call ''kerneltrap'' # map (\<lambda>(r, k). Ld r k Sp) frame_slots @ [Addi Sp Sp 256, Sret]) ?h0"
    by (simp add: kernelvec_eq set_reg_def)
  have saves: "run tr fn syms (map (\<lambda>(r, k). Sd r k Sp) frame_stores @ is) ?h0 = run tr fn syms is ?h1" for "is"
    using run_saves [OF frame_slots_ok(2), of tr ?h0 "hmem h" Sp pf fn syms "is"] assms(1)
    by (simp add: set_reg_def)
  have bk: "load_slots frame_slots pf (hmem ?h2) (regs ?h2) = (regs ?h1)(Tp := regs ?h2 Tp)"
    by (rule kernelvec_loads_back [OF _ keep]) simp
  have w: "window tr (hcsr ?h2 Satp) (hmem ?h2) (regs ?h2 Sp) pf 256"
    using keep unfolding keeps_frame_def by blast
  have spl: "ld64 (hmem ?h2) (pf + of_nat k) = regs ?h2 Sp" if "(Sp, k) \<in> set frame_slots" for k
  proof -
    have "load_slots frame_slots pf (hmem ?h2) (regs ?h2) Sp = regs ?h2 Sp"
      using bk keep by (simp add: keeps_frame_def)
    then show ?thesis using that by (simp add: load_slots_def frame_slots_def)
  qed
  have loads: "run tr fn syms (map (\<lambda>(r, k). Ld r k Sp) frame_slots @ is) ?h2 =
      run tr fn syms is (?h2\<lparr>regs := (regs ?h1)(Tp := regs ?h2 Tp)\<rparr>)" for "is"
    using run_loads [OF frame_slots_ok(1) w spl, of fn syms "is"] by (simp only: bk)
  have "run tr fn syms kernelvec h = (SupervisorReturn, ?h2\<lparr>regs := (regs h)(Tp := regs ?h2 Tp)\<rparr>)"
    unfolding pre saves run.simps loads by (simp add: set_reg_def fun_upd_twist)
  moreover have "\<forall>x. x \<notin> span pf 256 \<longrightarrow> hmem ?h1 x = hmem h x"
    by (simp add: save_slots_outside [OF frame_slots_ok(2)])
  moreover have "hcsr ?h1 = hcsr h" by (simp add: set_reg_def)
  ultimately show ?thesis by blast
qed

text \<open>The handler of the witness only moves the thread to hart 5.\<close>

theorem kernelvec_transparent_witness:
  "\<exists>h1. run flat (\<lambda>_ h. set_reg Tp 5 h) (\<lambda>_. 0) kernelvec demo_thread =
     (SupervisorReturn, (set_reg Tp 5 h1)\<lparr>regs := (regs demo_thread)(Tp := 5)\<rparr>)"
proof -
  have "keeps_frame flat (regs demo_thread Sp - 256) h1 (set_reg Tp 5 h1)"
    if "regs h1 Sp = regs demo_thread Sp - 256" for h1
    using that by (simp add: keeps_frame_def set_reg_def flat_window)
  then show ?thesis
    using kernelvec_transparent [of flat demo_thread "regs demo_thread Sp - 256" "\<lambda>_ h. set_reg Tp 5 h" "\<lambda>_. 0"]
    by (auto simp: flat_window set_reg_def)
qed

section \<open>The machine-mode timer\<close>

definition scratch_slots :: "(reg \<times> nat) list" where
  "scratch_slots = [(A1, 0), (A2, 8), (A3, 16)]"

lemma scratch_slots_ok: "slots_ok scratch_slots 24"
  by (simp add: slots_ok_def scratch_slots_def)

lemma timervec_eq:
  "timervec = Csrrw A0 Mscratch A0 # map (\<lambda>(r, k). Sd r k A0) scratch_slots @
     [Ld A1 24 A0, Ld A2 32 A0, Ld A3 0 A1, Add A3 A3 A2, Sd A3 0 A1, Li A1 2, Csrw Sip A1,
      Ld A3 16 A0, Ld A2 8 A0, Ld A1 0 A0, Csrrw A0 Mscratch A0, Mret]"
  by (simp add: timervec_def scratch_slots_def)

text \<open>
  The timer interrupt, taken in machine mode where addresses are physical: every register is
  preserved, the comparison register is advanced by the interval and the supervisor software
  interrupt is raised.  Memory changes only in the register save area and the comparison
  register, so the handler is ready for the next interrupt.
\<close>

lemma timervec_transparent:
  assumes sc: "hcsr h Mscratch = sc" and t: "ld64 (hmem h) (sc + 24) = t"
    and d: "span t 8 \<inter> span sc 40 = {}"
  shows "\<exists>h'. run flat fn syms timervec h = (MachineReturn, h') \<and> regs h' = regs h \<and>
    hcsr h' = (hcsr h)(Sip := 2) \<and>
    ld64 (hmem h') t = ld64 (hmem h) t + ld64 (hmem h) (sc + 32) \<and>
    (\<forall>x. x \<notin> span sc 24 \<and> x \<notin> span t 8 \<longrightarrow> hmem h' x = hmem h x)"
proof -
  let ?m1 = "save_slots scratch_slots sc (regs h) (hmem h)"
  let ?v = "ld64 (hmem h) t + ld64 (hmem h) (sc + 32)"
  let ?m2 = "st64 ?m1 t ?v"
  let ?h0 = "set_csr Mscratch (regs h A0) (set_reg A0 sc h)"
  have sub: "span (sc + of_nat k) 8 \<subseteq> span sc 40" if "k + 8 \<le> 40" for k
    using that by (intro slot_in_region) auto
  have m1t: "ld64 ?m1 t = ld64 (hmem h) t"
  proof (rule ld64_cong)
    fix x assume "x \<in> span t 8"
    then have "x \<notin> span sc 40" using d by blast
    then have "x \<notin> span sc 24" by (simp add: in_span_iff)
    then show "?m1 x = hmem h x" by (rule save_slots_outside [OF scratch_slots_ok])
  qed
  have k: "ld64 ?m1 (sc + 24) = t" "ld64 ?m1 (sc + 32) = ld64 (hmem h) (sc + 32)"
    using save_slots_other [OF scratch_slots_ok, of 24 sc "regs h" "hmem h"]
      save_slots_other [OF scratch_slots_ok, of 32 sc "regs h" "hmem h"]
    by (simp_all add: scratch_slots_def t)
  have m2: "ld64 ?m2 (sc + of_nat k) = regs h r" if rk: "(r, k) \<in> set scratch_slots" for r k
  proof -
    have "k + 8 \<le> 40" using rk by (auto simp: scratch_slots_def)
    then have "span t 8 \<inter> span (sc + of_nat k) 8 = {}" using d sub by blast
    then show ?thesis
      using save_slots_saved [OF scratch_slots_ok rk] by (simp add: ld64_st64_disjoint)
  qed
  have b: "ld64 ?m2 (sc + 16) = regs h A3" "ld64 ?m2 (sc + 8) = regs h A2" "ld64 ?m2 sc = regs h A1"
    using m2 [of A3 16] m2 [of A2 8] m2 [of A1 0] by (simp_all add: scratch_slots_def)
  have "save_slots scratch_slots sc ((regs h)(A0 := sc)) (hmem h) = ?m1"
    by (simp add: scratch_slots_def)
  then have saves: "run flat fn syms (map (\<lambda>(r, k). Sd r k A0) scratch_slots @ is) ?h0 =
      run flat fn syms is (?h0\<lparr>hmem := ?m1\<rparr>)" for "is"
    using run_saves [OF scratch_slots_ok, of flat ?h0 "hmem h" A0 sc fn syms "is"]
    by (simp add: flat_window set_csr_def set_reg_def)
  have "run flat fn syms timervec h = run flat fn syms
     ([Ld A1 24 A0, Ld A2 32 A0, Ld A3 0 A1, Add A3 A3 A2, Sd A3 0 A1, Li A1 2, Csrw Sip A1,
       Ld A3 16 A0, Ld A2 8 A0, Ld A1 0 A0, Csrrw A0 Mscratch A0, Mret]) (?h0\<lparr>hmem := ?m1\<rparr>)"
    by (simp only: timervec_eq run.simps(9) sc saves)
  also have "\<dots> = (MachineReturn, h\<lparr>hmem := ?m2, hcsr := (hcsr h)(Sip := 2, Mscratch := sc)\<rparr>)"
    by (simp add: operand_def flat_def set_reg_def set_csr_def k m1t b)
  also have "(hcsr h)(Sip := 2, Mscratch := sc) = (hcsr h)(Sip := 2)" using sc by auto
  finally show ?thesis
    using save_slots_outside [OF scratch_slots_ok] by (simp add: st64_outside fun_upd_def)
qed

section \<open>Boot stacks and system call stubs\<close>

text \<open>Each hart boots on the top of its own 4096-byte slice of \<^verbatim>\<open>stack0\<close>.\<close>

lemma run_entry:
  "\<exists>h'. run tr fn syms entry h = (Branch 7, fn ''start'' h') \<and>
     regs h' Sp = syms ''stack0'' + (hcsr h Mhartid + 1) * 4096 \<and> hmem h' = hmem h"
proof -
  let ?v = "syms ''stack0'' + 4096 * (hcsr h Mhartid + 1)"
  let ?h = "h\<lparr>regs := (regs h)(Sp := ?v, A0 := 4096 * (hcsr h Mhartid + 1), A1 := hcsr h Mhartid + 1)\<rparr>"
  have "run tr fn syms entry h = (Branch 7, fn ''start'' ?h)"
    by (simp add: entry_def set_reg_def fun_upd_twist)
  then show ?thesis by (intro exI [of _ ?h]) (simp add: mult.commute)
qed

text \<open>A stub traps with its system call number in \<^verbatim>\<open>a7\<close> and returns to its caller.\<close>

lemma run_usys_entry:
  assumes "regs (fn ''ecall'' (set_reg A7 (SYS name) h)) Ra = regs h Ra"
  shows "run tr fn syms (usys_entry name) h =
    (Goto (regs h Ra), fn ''ecall'' (set_reg A7 (SYS name) h))"
  using assms by (simp add: usys_entry_def)

lemma run_init_start:
  "run tr fn syms init_start h =
     (let h1 = set_reg A7 7 (set_reg A1 (syms ''argv'') (set_reg A0 (syms ''init'') h))
      in (Branch 4, fn ''ecall'' (set_reg A7 2 (fn ''ecall'' h1))))"
  by (simp add: init_start_def SYS_def)

end
