(* ===== verification/Crash_Logic.thy ===== *)
theory Crash_Logic
  imports Xv6_Prelude
begin

text \<open>
  A Hoare logic for routines that may be cut off by a crash.  A routine is run against an
  environment \<open>e\<close>, as in \<^const>\<open>drive\<close>.  What survives a crash is an observation \<open>obs\<close> of the state,
  for this kernel the content of the disk.  Only the environment changes it, so the observations
  before and after each context switch are all that a crash can leave.
\<close>

primrec crashes :: "('s \<Rightarrow> 's) \<Rightarrow> ('s \<Rightarrow> 'd) \<Rightarrow> ('a, 's) out \<Rightarrow> 'd list" where
  "crashes e obs (Ok a s) = []"
| "crashes e obs (Panic m) = []"
| "crashes e obs Spin = []"
| "crashes e obs (Swtch s k) = obs s # obs (e s) # crashes e obs (k (e s))"

text \<open>The routine ends with a result and state in \<open>Q\<close>, and every observation on the way is in \<open>C\<close>.\<close>

definition chl :: "('s \<Rightarrow> 's) \<Rightarrow> ('s \<Rightarrow> 'd) \<Rightarrow> ('d \<Rightarrow> bool) \<Rightarrow> ('a, 's) out \<Rightarrow> ('a \<Rightarrow> 's \<Rightarrow> bool) \<Rightarrow> bool" where
  "chl e obs C m Q \<longleftrightarrow> (\<exists>a s. drive e m = Ok a s \<and> Q a s) \<and> (\<forall>d\<in>set (crashes e obs m). C d)"

lemma crashes_and_then:
  "drive e m = Ok a s \<Longrightarrow> crashes e obs (and_then m f) = crashes e obs m @ crashes e obs (f a s)"
  by (induction m) auto

lemma chl_Ok [simp]: "chl e obs C (Ok a s) Q \<longleftrightarrow> Q a s"
  by (simp add: chl_def)

lemma chl_Swtch [simp]:
  "chl e obs C (Swtch s k) Q \<longleftrightarrow> C (obs s) \<and> C (obs (e s)) \<and> chl e obs C (k (e s)) Q"
  by (auto simp: chl_def)

lemma chl_and_then:
  assumes "chl e obs C m Q" and "\<And>a s. Q a s \<Longrightarrow> chl e obs C (f a s) R"
  shows "chl e obs C (and_then m f) R"
proof -
  obtain a s where m: "drive e m = Ok a s" "Q a s" using assms(1) by (auto simp: chl_def)
  from assms(2) [OF m(2)] show ?thesis
    using assms(1) m(1) by (auto simp: chl_def drive_and_then crashes_and_then)
qed

lemma chl_post: "chl e obs C m Q \<Longrightarrow> (\<And>a s. Q a s \<Longrightarrow> R a s) \<Longrightarrow> chl e obs C m R"
  by (auto simp: chl_def)

lemma chl_crash: "chl e obs C m Q \<Longrightarrow> (\<And>d. C d \<Longrightarrow> D d) \<Longrightarrow> chl e obs D m Q"
  by (auto simp: chl_def)

lemma chl_for_each:
  assumes "I 0 s"
    and "\<And>i s. i < length xs \<Longrightarrow> I i s \<Longrightarrow> chl e obs C (f (xs ! i) s) (\<lambda>_. I (Suc i))"
  shows "chl e obs C (for_each f xs s) (\<lambda>_. I (length xs))"
  using assms
proof (induction xs arbitrary: I s)
  case (Cons x xs)
  have "chl e obs C (f x s) (\<lambda>_. I 1)" using Cons.prems(2) [of 0 s] Cons.prems(1) by simp
  moreover have "chl e obs C (for_each f xs t) (\<lambda>_. I (Suc (length xs)))" if "I 1 t" for t
  proof (rule Cons.IH [of "\<lambda>i. I (Suc i)"])
    show "I (Suc 0) t" using that by simp
    show "chl e obs C (f (xs ! i) s) (\<lambda>_. I (Suc (Suc i)))" if "i < length xs" "I (Suc i) s" for i s
      using Cons.prems(2) [of "Suc i" s] that by simp
  qed
  ultimately show ?case by (auto intro: chl_and_then)
qed simp

end
