(* ===== verification/Disk_Facts.thy ===== *)
theory Disk_Facts
  imports Kernel_Frames Crash_Logic
begin

text \<open>
  The disk driver in operation.  The virtio device is not part of the kernel: it is a function
  \<open>dev\<close> that serves the request at the end of the ring of available descriptors, with the contract
  \<open>blk_device\<close>.  While a process waits for the disk its hart does what the kernel's own code says:
  the scheduler takes over, the device raises its interrupt, the handler \<^const>\<open>virtio_disk_intr\<close> runs,
  and the scheduler finds the process runnable and switches back to it.  That composition is the
  environment \<open>serve dev p\<close>.  No other process runs meanwhile.
\<close>

section \<open>The current process and the other fields\<close>

lemma set_cproc_machine [simp]: "hart (set_cproc c s) = hart s" "locks (set_cproc c s) = locks s"
  by (simp_all add: set_cproc_def)

lemma set_cproc_procs [simp]:
  "mem (set_cproc c s) = mem s" "ptab (set_cproc c s) = ptab s"
  "(set_cproc c s)\<lparr>ptab := T\<rparr> = set_cproc c (s\<lparr>ptab := T\<rparr>)"
  by (simp_all add: set_cproc_def set_mycpu_def mycpu_def cpuid_def)

lemma set_cproc_fields [simp]:
  "device (set_cproc c s) = device s" "mmio (set_cproc c s) = mmio s"
  "bufs (set_cproc c s) = bufs s" "disk (set_cproc c s) = disk s" "vdesc (set_cproc c s) = vdesc s"
  "avail_idx (set_cproc c s) = avail_idx s" "avail_ring (set_cproc c s) = avail_ring s"
  "used_ring_idx (set_cproc c s) = used_ring_idx s" "used_ring (set_cproc c s) = used_ring s"
  "vfree (set_cproc c s) = vfree s" "used_idx (set_cproc c s) = used_idx s" "info_b (set_cproc c s) = info_b s"
  "info_status (set_cproc c s) = info_status s" "ops (set_cproc c s) = ops s"
  by (simp_all add: set_cproc_def set_mycpu_def)

lemma set_cproc_upd [simp]:
  "(set_cproc c s)\<lparr>mmio := m\<rparr> = set_cproc c (s\<lparr>mmio := m\<rparr>)"
  "(set_cproc c s)\<lparr>bufs := B\<rparr> = set_cproc c (s\<lparr>bufs := B\<rparr>)"
  "(set_cproc c s)\<lparr>disk := D\<rparr> = set_cproc c (s\<lparr>disk := D\<rparr>)"
  "(set_cproc c s)\<lparr>info_status := i\<rparr> = set_cproc c (s\<lparr>info_status := i\<rparr>)"
  "(set_cproc c s)\<lparr>used_ring := r\<rparr> = set_cproc c (s\<lparr>used_ring := r\<rparr>)"
  "(set_cproc c s)\<lparr>used_ring_idx := x\<rparr> = set_cproc c (s\<lparr>used_ring_idx := x\<rparr>)"
  "(set_cproc c s)\<lparr>used_idx := y\<rparr> = set_cproc c (s\<lparr>used_idx := y\<rparr>)"
  by (simp_all add: set_cproc_def set_mycpu_def mycpu_def cpuid_def)

lemma set_cproc_cpu [simp]:
  "mycpu (set_cproc c s) = (mycpu s)\<lparr>cproc := c\<rparr>" "mach_ok (set_cproc c s) = mach_ok s"
  "lock_free lk (set_cproc c s) = lock_free lk s" "set_cproc c (set_cproc d s) = set_cproc c s"
  by (simp_all add: set_cproc_def set_mycpu_def mycpu_def cpuid_def mach_ok_def cpu_ok_def lock_free_def)

lemma set_cproc_settle [simp]: "set_cproc c (settle s) = settle (set_cproc c s)"
  by (cases "cpus s (hart s)") (simp add: set_cproc_def settle_def settle_cpu_def set_mycpu_def mycpu_def cpuid_def)

lemma set_cproc_same: "cproc (mycpu s) = c \<Longrightarrow> set_cproc c s = s"
proof -
  assume "cproc (mycpu s) = c"
  then have "(mycpu s)\<lparr>cproc := c\<rparr> = mycpu s" by simp
  then show ?thesis by (simp add: set_cproc_def set_mycpu_def mycpu_def)
qed

lemma set_cproc_enter_cs: "set_cproc c (enter_cs lk s) = enter_cs lk (set_cproc c s)"
  by (cases "cpus s (hart s)")
    (simp add: set_cproc_def enter_cs_def push_off_def push_off_cpu_def intr_off_cpu_def intr_get_cpu_def
      set_mycpu_def mycpu_def cpuid_def Let_def)

lemma upd_proc_set_cproc [simp]: "upd_proc p f (set_cproc c s) = set_cproc c (upd_proc p f s)"
  by (simp add: upd_proc_def)

lemma upd_proc_set_mycpu [simp]: "upd_proc p f (set_mycpu c s) = set_mycpu c (upd_proc p f s)"
  by (simp add: upd_proc_def set_mycpu_def cpuid_def)

text \<open>Giving up the processor and getting it back.\<close>

lemma leave_enter:
  assumes "lock_free lk s" "noff (mycpu s) = 0" "sie (mycpu s) = b"
  shows "leave_last lk (set_cproc c (enter_cs lk s)) = settle (set_cproc c s)"
    and "leave_last lk (set_mycpu ((mycpu (enter_cs lk s))\<lparr>intena := b\<rparr>) (enter_cs lk s)) = settle s"
  using assms
  by (cases "mycpu s"; auto simp: leave_last_def enter_cs_def settle_def settle_cpu_def set_cproc_def set_mycpu_def
      mycpu_def cpuid_def push_off_def push_off_cpu_def intr_off_cpu_def intr_get_cpu_def lock_free_def Let_def
      fun_eq_iff)+

section \<open>The device\<close>

text \<open>The driver has asked for the transfer of buffer \<open>b\<close>, in descriptor chain \<open>i\<close>.\<close>

definition request_at :: "'a virtio_scheme \<Rightarrow> nat \<Rightarrow> nat \<Rightarrow> bool \<Rightarrow> u64 \<Rightarrow> bool" where
  "request_at s i b w sec \<longleftrightarrow>
     avail_ring s (unat (avail_idx s - 1) mod NUM) = of_nat i \<and> i < NUM \<and>
     rtype (ops s i) = (if w then VIRTIO_BLK_T_OUT else VIRTIO_BLK_T_IN) \<and> rsector (ops s i) = sec \<and>
     (\<exists>j k. vdesc s i = \<lparr>daddr = VOps i, dlen = 16, dflags = VRING_DESC_F_NEXT, dnext = of_nat j\<rparr> \<and> j < NUM \<and> k < NUM \<and>
        vdesc s j = \<lparr>daddr = VData b, dlen = of_nat BSIZE,
          dflags = (if w then 0 else VRING_DESC_F_WRITE) OR VRING_DESC_F_NEXT, dnext = of_nat k\<rparr> \<and>
        vdesc s k = \<lparr>daddr = VStatus i, dlen = 1, dflags = VRING_DESC_F_WRITE, dnext = 0\<rparr>)"

text \<open>The block is two sectors long; the status byte 0 reports success.\<close>

definition complete :: "nat \<Rightarrow> nat \<Rightarrow> bool \<Rightarrow> u64 \<Rightarrow> 'a virtio_scheme \<Rightarrow> 'a virtio_scheme" where
  "complete i b w sec s =
     s\<lparr>bufs := (if w then bufs s else (bufs s)(b := (bufs s b)\<lparr>bdata := disk s (unat sec div 2)\<rparr>)),
       disk := (if w then (disk s)(unat sec div 2 := bdata (bufs s b)) else disk s),
       used_ring_idx := used_ring_idx s + 1,
       used_ring := (used_ring s)(unat (used_ring_idx s) mod NUM := of_nat i),
       info_status := (info_status s)(i := 0)\<rparr>"

definition blk_device :: "('a virtio_scheme \<Rightarrow> 'a virtio_scheme) \<Rightarrow> bool" where
  "blk_device dev \<longleftrightarrow> (\<forall>s i b w sec. request_at s i b w sec \<longrightarrow> dev s = complete i b w sec s)"

definition serve :: "('a virtio_scheme \<Rightarrow> 'a virtio_scheme) \<Rightarrow> nat \<Rightarrow> 'a virtio_scheme \<Rightarrow> 'a virtio_scheme" where
  "serve dev p t =
     (case and_then (release (LkProc p) (set_cproc None t)) (\<lambda>_ s.
           and_then (virtio_disk_intr (dev s)) (\<lambda>_ s. sched_slot p s)) of
        Swtch u _ \<Rightarrow> u
      | _ \<Rightarrow> t)"

section \<open>The interrupt handler\<close>

definition unlocked :: "'a machine_scheme \<Rightarrow> bool" where
  "unlocked s \<longleftrightarrow> (\<forall>lk. lock_free lk s)"

lemma unlocked_procs [simp]: "unlocked s \<Longrightarrow> procs_free s" and unlockedD [simp]: "unlocked s \<Longrightarrow> lock_free lk s"
  by (simp_all add: unlocked_def procs_free_def)

lemma upd_buf_settle [simp]: "upd_buf b f (settle s) = settle (upd_buf b f s)"
  and upd_buf_enter_cs [simp]: "upd_buf b f (enter_cs lk s) = enter_cs lk (upd_buf b f s)"
  by (simp_all add: upd_buf_def)

lemma upd_desc_settle [simp]: "upd_desc b g (settle s) = settle (upd_desc b g s)"
  and upd_desc_enter_cs [simp]: "upd_desc b g (enter_cs lk s) = enter_cs lk (upd_desc b g s)"
  by (simp_all add: upd_desc_def)

lemma upd_buf_fields [simp]:
  "mach_ok (upd_buf b f s) = mach_ok s" "lock_free lk (upd_buf b f s) = lock_free lk s"
  "mycpu (upd_buf b f s) = mycpu s" "bufs (upd_buf b f s) = (bufs s)(b := f (bufs s b))"
  "ptab (upd_buf b f s) = ptab s" "sleeplocks (upd_buf b f s) = sleeplocks s" "disk (upd_buf b f s) = disk s"
  by (simp_all add: upd_buf_def)

lemma intr_loop_one:
  assumes "mach_ok s" "procs_free s" "used_ring_idx s = used_idx s + 1"
    and "used_ring s (unat (used_idx s) mod NUM) = of_nat i" "i < NUM" "info_status s i = 0" "info_b s i = Some b"
  shows "intr_loop (Suc (Suc n)) s = Ok () (settle (s\<lparr>ptab := woken (Some (ChBuf b)) (cproc (mycpu s)) {..<NPROC} (ptab s),
     bufs := (bufs s)(b := (bufs s b)\<lparr>bdisk := False\<rparr>), used_idx := used_idx s + 1\<rparr>))"
proof -
  have i: "unat (used_ring s (unat (used_idx s) mod NUM)) = i"
    using assms(4,5) by (simp add: unat_of_nat take_bit_nat_eq_self NUM_def)
  let ?s = "s\<lparr>bufs := (bufs s)(b := (bufs s b)\<lparr>bdisk := False\<rparr>)\<rparr>"
  have w: "wakeup (Some (ChBuf b)) ?s = Ok () (settle (?s\<lparr>ptab := woken (Some (ChBuf b)) (cproc (mycpu s)) {..<NPROC} (ptab s)\<rparr>))"
    using wakeup_eq [of ?s "Some (ChBuf b)"] assms(1,2) by (simp add: procs_free_def)
  have ne: "used_idx s \<noteq> used_idx s + 1" by simp
  show ?thesis
    unfolding intr_loop.simps(2) Let_def i assms(3,6,7) using ne
    by (simp add: w upd_buf_def assms(3), intro arg_cong [where f = settle], simp)
qed

lemma virtio_disk_intr_one:
  assumes "mach_ok s" "unlocked s" "used_ring_idx s = used_idx s + 1"
    and "used_ring s (unat (used_idx s) mod NUM) = of_nat i" "i < NUM" "info_status s i = 0" "info_b s i = Some b"
  shows "\<exists>m. virtio_disk_intr s = Ok () (settle (s\<lparr>mmio := m, ptab := woken (Some (ChBuf b)) (cproc (mycpu s)) {..<NPROC} (ptab s),
     bufs := (bufs s)(b := (bufs s b)\<lparr>bdisk := False\<rparr>), used_idx := used_idx s + 1\<rparr>))"
proof -
  obtain m where 1: "virtio_disk_intr s = and_then (intr_loop 65536 (enter_cs LkVdisk (s\<lparr>mmio := m\<rparr>))) (\<lambda>_ s. release LkVdisk s)"
    using assms(2) by (simp add: virtio_disk_intr_def R_read_def R_write_def mmio_read_def mmio_write_def Let_def)
  let ?t = "enter_cs LkVdisk (s\<lparr>mmio := m\<rparr>)"
  have 65536: "(65536::nat) = Suc (Suc 65534)" by simp
  have 2: "intr_loop 65536 ?t = Ok () (enter_cs LkVdisk (s\<lparr>mmio := m, ptab := woken (Some (ChBuf b)) (cproc (mycpu s)) {..<NPROC} (ptab s),
     bufs := (bufs s)(b := (bufs s b)\<lparr>bdisk := False\<rparr>), used_idx := used_idx s + 1\<rparr>))"
    unfolding 65536 using intr_loop_one [of ?t i b 65534] assms by (simp add: procs_free_def del: intr_loop.simps)
  show ?thesis unfolding 1 2 using assms(1,2) by auto
qed

section \<open>Waiting for the device\<close>

text \<open>Process \<open>p\<close> runs, holds no lock, and the driver has no request in progress.\<close>

definition driver_idle :: "'a virtio_scheme \<Rightarrow> bool" where
  "driver_idle s \<longleftrightarrow> (\<forall>i<NUM. vfree s i) \<and> used_ring_idx s = used_idx s"

definition ready :: "nat \<Rightarrow> 'a virtio_scheme \<Rightarrow> bool" where
  "ready p s \<longleftrightarrow> mach_ok s \<and> noff (mycpu s) = 0 \<and> cproc (mycpu s) = Some p \<and> p < NPROC \<and> unlocked s \<and>
     state (ptab s p) = RUNNING \<and> chan (ptab s p) = None \<and> driver_idle s"

text \<open>The state after the device, the handler and the scheduler.\<close>

definition served :: "nat \<Rightarrow> nat \<Rightarrow> bool \<Rightarrow> u64 \<Rightarrow> mmio_event list \<Rightarrow> (nat \<Rightarrow> proc) \<Rightarrow> 'a virtio_scheme \<Rightarrow> 'a virtio_scheme" where
  "served i b w sec m T s =
     (let c = complete i b w sec s
      in c\<lparr>mmio := m, ptab := T, bufs := (bufs c)(b := (bufs c b)\<lparr>bdisk := False\<rparr>), used_idx := used_idx s + 1\<rparr>)"

definition waiting :: "nat \<Rightarrow> nat \<Rightarrow> nat \<Rightarrow> bool \<Rightarrow> u64 \<Rightarrow> 'a virtio_scheme \<Rightarrow> bool" where
  "waiting p i b w sec s \<longleftrightarrow> mach_ok s \<and> noff (mycpu s) = 0 \<and> cproc (mycpu s) = Some p \<and> p < NPROC \<and> unlocked s \<and>
     state (ptab s p) = RUNNING \<and> used_ring_idx s = used_idx s \<and> info_b s i = Some b \<and> request_at s i b w sec"

lemma served_frame [simp]:
  "mach_ok (served i b w sec m T s) = mach_ok s" "lock_free lk (served i b w sec m T s) = lock_free lk s"
  "mycpu (served i b w sec m T s) = mycpu s" "ptab (served i b w sec m T s) = T"
  "disk (served i b w sec m T s) = disk (complete i b w sec s)"
  by (simp_all add: served_def complete_def Let_def)

lemma serve_eq:
  assumes dev: "blk_device dev" and w: "waiting p i b w sec s"
  defines "sl \<equiv> \<lambda>q. q\<lparr>chan := Some (ChBuf b), state := SLEEPING\<rparr>"
  obtains m T where "T p = (ptab s p)\<lparr>chan := Some (ChBuf b), state := RUNNING\<rparr>"
    "serve dev p (enter_cs (LkProc p) (upd_proc p sl s)) = enter_cs (LkProc p) (served i b w sec m T s)"
proof -
  note w' = w [unfolded waiting_def]
  let ?s1 = "upd_proc p sl s"
  have r: "runs p ?s1" using w' by (simp add: runs_def)
  have rel: "release (LkProc p) (set_cproc None (enter_cs (LkProc p) ?s1)) = Ok () (settle (set_cproc None ?s1))"
    using release_set_cproc [of p "enter_cs (LkProc p) ?s1"] handoff_enter_cs [OF r] w' leave_enter(1) [of "LkProc p" ?s1]
    by simp
  let ?c = "complete i b w sec (settle (set_cproc None ?s1))"
  have "request_at (settle (set_cproc None ?s1)) i b w sec"
    using w' by (simp add: request_at_def upd_proc_def)
  then have d: "dev (settle (set_cproc None ?s1)) = ?c"
    using dev by (simp add: blk_device_def)
  define T where "T = woken (Some (ChBuf b)) None {..<NPROC} (ptab ?s1)"
  have T: "T p = (ptab s p)\<lparr>chan := Some (ChBuf b), state := RUNNABLE\<rparr>"
    using w' by (simp add: T_def woken_def sl_def)
  have "\<exists>m. virtio_disk_intr ?c = Ok () (settle (?c\<lparr>mmio := m, ptab := woken (Some (ChBuf b)) (cproc (mycpu ?c)) {..<NPROC} (ptab ?c),
     bufs := (bufs ?c)(b := (bufs ?c b)\<lparr>bdisk := False\<rparr>), used_idx := used_idx ?c + 1\<rparr>))"
    by (rule virtio_disk_intr_one [of _ i])
      (use w' in \<open>simp_all add: complete_def upd_proc_def unlocked_def request_at_def\<close>)
  moreover have "settle (?c\<lparr>mmio := m, ptab := woken (Some (ChBuf b)) (cproc (mycpu ?c)) {..<NPROC} (ptab ?c),
     bufs := (bufs ?c)(b := (bufs ?c b)\<lparr>bdisk := False\<rparr>), used_idx := used_idx ?c + 1\<rparr>) =
     settle (set_cproc None (served i b w sec m T s))" for m
    by (cases w) (simp_all add: complete_def served_def upd_proc_def T_def Let_def)
  ultimately obtain m where m: "virtio_disk_intr ?c = Ok () (settle (set_cproc None (served i b w sec m T s)))"
    by metis
  let ?X = "served i b w sec m T s"
  let ?X' = "upd_proc p (state_update (\<lambda>_. RUNNING)) ?X"
  have sl: "sched_slot p (settle (set_cproc None ?X)) = Swtch (set_cproc (Some p) (enter_cs (LkProc p)
      (upd_proc p (state_update (\<lambda>_. RUNNING)) (settle (set_cproc None ?X))))) (\<lambda>u. release (LkProc p) (set_cproc None u))"
    by (rule sched_slot_run) (use w' T in \<open>simp_all add: idle_def\<close>)
  have X: "set_cproc (Some p) ?X' = ?X'" by (rule set_cproc_same) (use w' in simp)
  have "serve dev p (enter_cs (LkProc p) ?s1) = enter_cs (LkProc p) ?X'"
    unfolding serve_def rel and_then.simps d m sl by (simp add: set_cproc_enter_cs X)
  also have "?X' = served i b w sec m (T(p := (T p)\<lparr>state := RUNNING\<rparr>)) s"
    by (simp add: served_def upd_proc_def Let_def)
  finally show thesis by (rule that [rotated]) (simp add: T)
qed

text \<open>A process that has submitted request \<open>i\<close> sleeps, and comes back when it is complete.\<close>

lemma sleep_served:
  assumes dev: "blk_device dev" and w: "waiting p i b w sec s"
  shows "\<exists>m T. T p = (ptab s p)\<lparr>chan := None, state := RUNNING\<rparr> \<and>
     chl (serve dev p) disk (\<lambda>d. d \<in> {disk s, disk (complete i b w sec s)})
       (sleep (ChBuf b) LkVdisk (enter_cs LkVdisk s)) (\<lambda>_ t. t = enter_cs LkVdisk (served i b w sec m T s))"
proof -
  note w' = w [unfolded waiting_def]
  obtain m T where T: "T p = (ptab s p)\<lparr>chan := Some (ChBuf b), state := RUNNING\<rparr>"
    "serve dev p (enter_cs (LkProc p) (upd_proc p (\<lambda>q. q\<lparr>chan := Some (ChBuf b), state := SLEEPING\<rparr>) s)) =
       enter_cs (LkProc p) (served i b w sec m T s)"
    by (rule serve_eq [OF assms])
  let ?T = "T(p := (T p)\<lparr>chan := None\<rparr>)"
  let ?X = "served i b w sec m T s" and ?Z = "served i b w sec m ?T s"
  have r: "runs p s" and lk: "lock_free LkVdisk s" using w' by (simp_all add: runs_def)
  have ne: "LkVdisk \<noteq> LkProc p" by simp
  have Z: "upd_proc p (chan_update (\<lambda>_. None)) ?X = ?Z" by (simp add: served_def upd_proc_def Let_def)
  have h: "handoff p (enter_cs (LkProc p) ?Z)" by (rule handoff_enter_cs) (use w' in \<open>simp add: runs_def\<close>)
  have cpu: "mycpu (enter_cs (LkProc p) ?X) = mycpu (enter_cs (LkProc p) ?Z)"
    by (simp add: enter_cs_cpu)
  have "release (LkProc p) (set_mycpu ((mycpu (enter_cs (LkProc p) ?Z))\<lparr>intena := sie (mycpu s)\<rparr>) (enter_cs (LkProc p) ?Z)) =
      Ok () (settle ?Z)"
    using release_handoff [OF h] leave_enter(2) [of "LkProc p" ?Z] w' by simp
  then have k: "release (LkProc p) (upd_proc p (chan_update (\<lambda>_. None))
      (set_mycpu ((mycpu (enter_cs (LkProc p) ?X))\<lparr>intena := sie (mycpu s)\<rparr>) (enter_cs (LkProc p) ?X))) = Ok () (settle ?Z)"
    by (simp add: cpu Z)
  have "chl (serve dev p) disk (\<lambda>d. d \<in> {disk s, disk (complete i b w sec s)})
      (sleep (ChBuf b) LkVdisk (enter_cs LkVdisk s)) (\<lambda>_ t. t = enter_cs LkVdisk ?Z)"
    unfolding sleep_eq [OF r lk ne] chl_Swtch T(2) k using w' by (simp add: upd_proc_def)
  then show ?thesis using T(1) by (intro exI [of _ m] exI [of _ ?T]) simp
qed

section \<open>A disk request\<close>

lemma alloc3_idle:
  assumes "driver_idle s"
  shows "alloc3_desc s = Ok (Some [0, 1, 2]) (s\<lparr>vfree := (vfree s)(0 := False, 1 := False, 2 := False)\<rparr>)"
proof -
  have f: "vfree s 0" "vfree s (Suc 0)" "vfree s 2" using assms by (auto simp: driver_idle_def NUM_def)
  have u: "[0..<NUM] = [0, 1, 2] @ [3..<NUM]" by (simp add: NUM_def upt_rec)
  show ?thesis
    by (simp add: alloc3_desc_def numeral_3_eq_3 alloc_desc_def u f)
qed

definition submitted :: "nat \<Rightarrow> bool \<Rightarrow> u64 \<Rightarrow> 'a virtio_scheme \<Rightarrow> 'a virtio_scheme" where
  "submitted b w sec s =
     submit_request b 0 (format_request b w sec 0 1 2 (s\<lparr>vfree := (vfree s)(0 := False, 1 := False, 2 := False)\<rparr>))"

lemma submitted_enter_cs: "submitted b w sec (enter_cs lk s) = enter_cs lk (submitted b w sec s)"
  by (simp add: submitted_def submit_request_def format_request_def R_write_def mmio_write_def Let_def upd_desc_def upd_buf_def)

lemma submitted_fields:
  "mach_ok (submitted b w sec s) = mach_ok s" "lock_free lk (submitted b w sec s) = lock_free lk s"
  "mycpu (submitted b w sec s) = mycpu s" "ptab (submitted b w sec s) = ptab s" "disk (submitted b w sec s) = disk s"
  "bufs (submitted b w sec s) = (bufs s)(b := (bufs s b)\<lparr>bdisk := True\<rparr>)"
  "vfree (submitted b w sec s) = (vfree s)(0 := False, 1 := False, 2 := False)"
  "info_b (submitted b w sec s) = (info_b s)(0 := Some b)"
  "used_ring_idx (submitted b w sec s) = used_ring_idx s" "used_idx (submitted b w sec s) = used_idx s"
  by (simp_all add: submitted_def submit_request_def format_request_def R_write_def mmio_write_def Let_def upd_desc_def upd_buf_def)

lemma submitted_ring:
  "vdesc (submitted b w sec s) 0 = \<lparr>daddr = VOps 0, dlen = 16, dflags = VRING_DESC_F_NEXT, dnext = of_nat 1\<rparr>"
  "vdesc (submitted b w sec s) 1 = \<lparr>daddr = VData b, dlen = of_nat BSIZE,
     dflags = (if w then 0 else VRING_DESC_F_WRITE) OR VRING_DESC_F_NEXT, dnext = of_nat 2\<rparr>"
  "vdesc (submitted b w sec s) 2 = \<lparr>daddr = VStatus 0, dlen = 1, dflags = VRING_DESC_F_WRITE, dnext = 0\<rparr>"
  "avail_ring (submitted b w sec s) (unat (avail_idx (submitted b w sec s) - 1) mod NUM) = of_nat 0"
  "ops (submitted b w sec s) 0 = \<lparr>rtype = (if w then VIRTIO_BLK_T_OUT else VIRTIO_BLK_T_IN), rreserved = 0, rsector = sec\<rparr>"
  by (simp_all add: submitted_def submit_request_def format_request_def R_write_def mmio_write_def Let_def upd_desc_def upd_buf_def)

lemma submitted_request: "request_at (submitted b w sec s) 0 b w sec"
proof -
  have "(1::nat) < NUM" "(2::nat) < NUM" "(0::nat) < NUM" by (simp_all add: NUM_def)
  then show ?thesis
    unfolding request_at_def submitted_ring by (intro conjI exI [of _ "1::nat"] exI [of _ "2::nat"] submitted_ring) simp_all
qed

lemma free_desc_eq:
  assumes "mach_ok s" "procs_free s" "i < NUM" "\<not> vfree s i"
  shows "free_desc i s = Ok () (settle (s\<lparr>vdesc := (vdesc s)(i := \<lparr>daddr = VNull, dlen = 0, dflags = 0, dnext = 0\<rparr>),
     vfree := (vfree s)(i := True), ptab := woken (Some ChDiskFree) (cproc (mycpu s)) {..<NPROC} (ptab s)\<rparr>))"
proof -
  have [simp]: "d\<lparr>daddr := VNull, dlen := 0, dflags := 0, dnext := 0\<rparr> = \<lparr>daddr = VNull, dlen = 0, dflags = 0, dnext = 0\<rparr>" for d :: virtq_desc
    by simp
  show ?thesis
    using assms wakeup_eq [of "s\<lparr>vdesc := (vdesc s)(i := \<lparr>daddr = VNull, dlen = 0, dflags = 0, dnext = 0\<rparr>), vfree := (vfree s)(i := True)\<rparr>" "Some ChDiskFree"]
    by (simp add: free_desc_def upd_desc_def Let_def procs_free_def)
qed

text \<open>The chain of a request leads from descriptor 0 through 1 to 2.\<close>

lemma free_chain_eq:
  assumes "mach_ok s" "procs_free s" "\<not> vfree s 0" "\<not> vfree s 1" "\<not> vfree s 2"
    and "dflags (vdesc s 0) = VRING_DESC_F_NEXT" "dnext (vdesc s 0) = of_nat 1"
    and "dflags (vdesc s 1) AND VRING_DESC_F_NEXT \<noteq> 0" "dnext (vdesc s 1) = of_nat 2"
    and "dflags (vdesc s 2) = VRING_DESC_F_WRITE"
  shows "\<exists>V T. free_chain 0 s = Ok () (settle (s\<lparr>vdesc := V, vfree := (vfree s)(0 := True, 1 := True, 2 := True), ptab := T\<rparr>)) \<and>
     (\<forall>p. cproc (mycpu s) = Some p \<longrightarrow> T p = ptab s p)"
proof -
  define z where "z = \<lparr>daddr = VNull, dlen = 0 :: u32, dflags = 0 :: u16, dnext = 0 :: u16\<rparr>"
  define W where "W = woken (Some ChDiskFree) (cproc (mycpu s)) {..<NPROC}"
  have f: "free_desc i t = Ok () (settle (t\<lparr>vdesc := (vdesc t)(i := z), vfree := (vfree t)(i := True), ptab := W (ptab t)\<rparr>))"
    if "i < NUM" "\<not> vfree t i" "mach_ok t" "procs_free t" "cproc (mycpu t) = cproc (mycpu s)" for i t
    using free_desc_eq [of t i] that by (simp add: z_def W_def)
  have n: "(0::nat) < NUM" "(1::nat) < NUM" "(2::nat) < NUM" by (simp_all add: NUM_def)
  have fl: "VRING_DESC_F_NEXT AND VRING_DESC_F_NEXT \<noteq> 0" "VRING_DESC_F_WRITE AND VRING_DESC_F_NEXT = 0"
    by (simp_all add: VRING_DESC_F_NEXT_def VRING_DESC_F_WRITE_def)
  let ?s1 = "settle (s\<lparr>vdesc := (vdesc s)(0 := z), vfree := (vfree s)(0 := True), ptab := W (ptab s)\<rparr>)"
  let ?s2 = "settle (s\<lparr>vdesc := (vdesc s)(0 := z, 1 := z), vfree := (vfree s)(0 := True, 1 := True), ptab := W (W (ptab s))\<rparr>)"
  let ?s3 = "settle (s\<lparr>vdesc := (vdesc s)(0 := z, 1 := z, 2 := z), vfree := (vfree s)(0 := True, 1 := True, 2 := True),
     ptab := W (W (W (ptab s)))\<rparr>)"
  have 1: "free_desc 0 s = Ok () ?s1" using f [of 0 s] n assms by simp
  have 2: "free_desc 1 ?s1 = Ok () ?s2" using f [of 1 ?s1] n assms by (simp add: procs_free_def)
  have 3: "free_desc 2 ?s2 = Ok () ?s3" using f [of 2 ?s2] n assms by (simp add: procs_free_def)
  have c: "Suc NUM = Suc (Suc (Suc (NUM - 2)))" by (simp add: NUM_def)
  have "free_chain 0 s = Ok () ?s3"
    unfolding free_chain_def c using assms fl 1 2 3 by (simp add: Let_def)
  moreover have "W (W (W (ptab s))) p = ptab s p" if "cproc (mycpu s) = Some p" for p
    using that by (simp add: W_def woken_def)
  ultimately show ?thesis by blast
qed

text \<open>What a disk transfer may change besides the disk and the buffers.\<close>

definition drv_frame :: "'a virtio_scheme \<Rightarrow> 'a virtio_scheme \<Rightarrow> bool" where
  "drv_frame s t \<longleftrightarrow> settle t = settle (s\<lparr>mmio := mmio t, ptab := ptab t, bufs := bufs t, disk := disk t, vdesc := vdesc t,
     avail_idx := avail_idx t, avail_ring := avail_ring t, used_ring_idx := used_ring_idx t, used_ring := used_ring t,
     vfree := vfree t, used_idx := used_idx t, info_b := info_b t, info_status := info_status t, ops := ops t\<rparr>)"

lemma drv_frame_trans: "drv_frame s t \<Longrightarrow> drv_frame t u \<Longrightarrow> drv_frame s u"
proof -
  assume st: "drv_frame s t" and tu: "drv_frame t u"
  let ?f = "\<lambda>s. s\<lparr>mmio := mmio u, ptab := ptab u, bufs := bufs u, disk := disk u, vdesc := vdesc u,
     avail_idx := avail_idx u, avail_ring := avail_ring u, used_ring_idx := used_ring_idx u, used_ring := used_ring u,
     vfree := vfree u, used_idx := used_idx u, info_b := info_b u, info_status := info_status u, ops := ops u\<rparr>"
  have "settle u = settle (?f t)" using tu by (simp add: drv_frame_def)
  also have "\<dots> = ?f (settle t)" by simp
  also have "\<dots> = settle (?f s)" unfolding st [unfolded drv_frame_def] by simp
  finally show ?thesis by (simp add: drv_frame_def)
qed

lemma drv_frame_refl [simp]: "drv_frame s s"
  by (simp add: drv_frame_def)

lemma drv_frame_upd_buf [simp]: "drv_frame s (upd_buf b f s)"
  by (simp add: drv_frame_def upd_buf_def)

lemma drv_frame_machine:
  assumes "drv_frame s t"
  shows "locks t = locks s" "noff (mycpu t) = noff (mycpu s)" "cproc (mycpu t) = cproc (mycpu s)" "sie (mycpu t) = sie (mycpu s)"
    "mach_ok t = mach_ok s" "lock_free lk t = lock_free lk s" "unlocked t = unlocked s" "sleeplocks t = sleeplocks s"
proof -
  note e = assms [unfolded drv_frame_def]
  have m: "mycpu (settle t) = settle_cpu (mycpu t)" for t :: "'a virtio_scheme" by (simp add: settle_def)
  note e' = arg_cong [OF e, of mycpu, unfolded m, simplified]
  show "locks t = locks s" using arg_cong [OF e, of locks] by simp
  then show "lock_free lk t = lock_free lk s" for lk by (simp add: lock_free_def)
  then show "unlocked t = unlocked s" by (simp add: unlocked_def)
  show "noff (mycpu t) = noff (mycpu s)" "cproc (mycpu t) = cproc (mycpu s)" "sie (mycpu t) = sie (mycpu s)"
    using arg_cong [OF e', of noff] arg_cong [OF e', of cproc] arg_cong [OF e', of sie] by simp_all
  then show "mach_ok t = mach_ok s" by (simp add: mach_ok_def cpu_ok_def)
  show "sleeplocks t = sleeplocks s" using arg_cong [OF e, of sleeplocks] by simp
qed

definition blk_of :: "buf \<Rightarrow> nat" where
  "blk_of q = unat (ucast (blockno q * of_nat (BSIZE div 512)) :: u64) div 2"

lemma blk_of_small: "unat (blockno q) < 2 ^ 31 \<Longrightarrow> blk_of q = unat (blockno q)"
proof -
  assume l: "unat (blockno q) < 2 ^ 31"
  have "unat (blockno q * 2) = unat (blockno q) * 2" using l by (simp add: unat_word_ariths)
  moreover have "take_bit 64 (unat (blockno q) * 2) = unat (blockno q) * 2" using l by (intro take_bit_nat_eq_self) simp
  ultimately show ?thesis by (simp add: blk_of_def BSIZE_def unsigned_ucast_eq)
qed

text \<open>A transfer to or from the disk.\<close>

definition disk_after :: "nat \<Rightarrow> bool \<Rightarrow> 'a virtio_scheme \<Rightarrow> nat \<Rightarrow> byte list" where
  "disk_after b w s = (if w then (disk s)(blk_of (bufs s b) := bdata (bufs s b)) else disk s)"

definition bufs_after :: "nat \<Rightarrow> bool \<Rightarrow> 'a virtio_scheme \<Rightarrow> nat \<Rightarrow> buf" where
  "bufs_after b w s = (bufs s)(b := (bufs s b)\<lparr>bdata := (if w then bdata (bufs s b) else disk s (blk_of (bufs s b))),
     bdisk := False\<rparr>)"

lemma disk_wait_served:
  assumes dev: "blk_device dev" and r: "ready p s" and sec: "sec = ucast (blockno (bufs s b) * of_nat (BSIZE div 512))"
  shows "\<exists>m T. T p = ptab s p \<and> chl (serve dev p) disk (\<lambda>d. d \<in> {disk s, disk_after b w s})
     (disk_wait WAKEUPS b (enter_cs LkVdisk (submitted b w sec s)))
     (\<lambda>_ t. t = enter_cs LkVdisk (served 0 b w sec m T (submitted b w sec s)))"
proof -
  let ?s = "submitted b w sec s"
  have r': "mach_ok s" "noff (mycpu s) = 0" "cproc (mycpu s) = Some p" "p < NPROC" "unlocked s"
     "state (ptab s p) = RUNNING" "chan (ptab s p) = None" "used_ring_idx s = used_idx s"
    using r by (simp_all add: ready_def driver_idle_def)
  have w: "waiting p 0 b w sec ?s"
    using r' submitted_request by (simp add: waiting_def submitted_fields unlocked_def)
  have d: "disk (complete 0 b w sec ?s) = disk_after b w s"
    by (simp add: complete_def disk_after_def submitted_fields sec blk_of_def)
  obtain m T where T: "T p = (ptab s p)\<lparr>chan := None, state := RUNNING\<rparr>" and
    c: "chl (serve dev p) disk (\<lambda>d. d \<in> {disk s, disk_after b w s}) (sleep (ChBuf b) LkVdisk (enter_cs LkVdisk ?s))
       (\<lambda>_ t. t = enter_cs LkVdisk (served 0 b w sec m T ?s))"
    using sleep_served [OF dev w] unfolding d submitted_fields by blast
  obtain n where wk: "WAKEUPS = Suc (Suc n)" by (rule that [of 998]) (simp add: WAKEUPS_def)
  have tp: "T p = ptab s p" using T r'(6,7) by simp
  have "bdisk (bufs (enter_cs LkVdisk ?s) b)" by (simp add: submitted_fields)
  moreover have "\<not> bdisk (bufs (enter_cs LkVdisk (served 0 b w sec m T ?s)) b)" by (simp add: served_def Let_def)
  ultimately have "chl (serve dev p) disk (\<lambda>d. d \<in> {disk s, disk_after b w s})
     (disk_wait WAKEUPS b (enter_cs LkVdisk ?s)) (\<lambda>_ t. t = enter_cs LkVdisk (served 0 b w sec m T ?s))"
    unfolding wk disk_wait.simps(2) [of _ b "enter_cs LkVdisk ?s"]
    by (simp only: if_True) (rule chl_and_then [OF c], simp)
  then show ?thesis using tp by blast
qed

lemma served_bufs:
  "sec = ucast (blockno (bufs s b) * of_nat (BSIZE div 512)) \<Longrightarrow>
     bufs (served 0 b w sec m T (submitted b w sec s)) = bufs_after b w s"
  by (simp add: served_def complete_def Let_def submitted_fields bufs_after_def blk_of_def)

lemma virtio_disk_rw_eq:
  assumes r: "ready p s" and sec: "sec = ucast (blockno (bufs s b) * of_nat (BSIZE div 512))"
  shows "virtio_disk_rw b w s = and_then (disk_wait WAKEUPS b (enter_cs LkVdisk (submitted b w sec s))) (\<lambda>_ s.
    and_then (free_chain 0 (s\<lparr>info_b := (info_b s)(0 := None)\<rparr>)) (\<lambda>_ s. release LkVdisk s))"
proof -
  have "driver_idle (enter_cs LkVdisk s)" using r by (simp add: ready_def driver_idle_def)
  note a = alloc3_idle [OF this]
  have "alloc3_wait WAKEUPS (enter_cs LkVdisk s) =
      Ok [0, 1, 2] ((enter_cs LkVdisk s)\<lparr>vfree := (vfree (enter_cs LkVdisk s))(0 := False, 1 := False, 2 := False)\<rparr>)"
    using a by (simp add: WAKEUPS_def numeral_eq_Suc)
  moreover have "acquire LkVdisk s = Ok () (enter_cs LkVdisk s)" using r by (simp add: ready_def)
  ultimately show ?thesis
    using submitted_enter_cs [of b w sec LkVdisk s]
    unfolding virtio_disk_rw_def submitted_def sec by (simp add: Let_def)
qed

text \<open>The woken process takes the buffer out of the table of requests.\<close>

definition finished :: "nat \<Rightarrow> bool \<Rightarrow> u64 \<Rightarrow> mmio_event list \<Rightarrow> (nat \<Rightarrow> proc) \<Rightarrow> 'a virtio_scheme \<Rightarrow> 'a virtio_scheme" where
  "finished b w sec m T s =
     (let t = served 0 b w sec m T (submitted b w sec s) in t\<lparr>info_b := (info_b t)(0 := None)\<rparr>)"

lemma finished_fields:
  fixes b w sec m T s
  defines "t \<equiv> finished b w sec m T s"
  shows "mach_ok t = mach_ok s" "lock_free lk t = lock_free lk s" "mycpu t = mycpu s" "ptab t = T"
    "vfree t = (vfree s)(0 := False, 1 := False, 2 := False)" "vdesc t = vdesc (submitted b w sec s)"
    "used_ring_idx t = used_ring_idx s + 1" "used_idx t = used_idx s + 1"
    "disk t = disk (served 0 b w sec m T (submitted b w sec s))" "bufs t = bufs (served 0 b w sec m T (submitted b w sec s))"
  by (simp_all add: t_def finished_def served_def complete_def Let_def submitted_fields)

lemma finished_drv_frame: "drv_frame s (finished b w sec m T s)"
  unfolding drv_frame_def
  by (rule arg_cong [where f = settle])
    (simp add: finished_def served_def complete_def Let_def submitted_def submit_request_def format_request_def
      R_write_def mmio_write_def upd_desc_def upd_buf_def)

lemma finished_free_chain:
  assumes "mach_ok s" "unlocked s" "cproc (mycpu s) = Some p"
  obtains V T' where "free_chain 0 (enter_cs LkVdisk (finished b w sec m T s)) = Ok () (enter_cs LkVdisk
      ((finished b w sec m T s)\<lparr>vdesc := V, vfree := (vfree s)(0 := True, 1 := True, 2 := True), ptab := T'\<rparr>))" "T' p = T p"
proof -
  let ?u = "finished b w sec m T s"
  have fl: "dflags (vdesc (submitted b w sec s) 1) AND VRING_DESC_F_NEXT \<noteq> 0"
    unfolding submitted_ring by (simp add: VRING_DESC_F_NEXT_def VRING_DESC_F_WRITE_def)
  have "\<exists>V T. free_chain 0 (enter_cs LkVdisk ?u) = Ok () (settle ((enter_cs LkVdisk ?u)\<lparr>vdesc := V,
      vfree := (vfree (enter_cs LkVdisk ?u))(0 := True, 1 := True, 2 := True), ptab := T\<rparr>)) \<and>
     (\<forall>p. cproc (mycpu (enter_cs LkVdisk ?u)) = Some p \<longrightarrow> T p = ptab (enter_cs LkVdisk ?u) p)"
    by (rule free_chain_eq)
      (use assms fl in \<open>simp_all add: finished_fields submitted_ring [simplified] procs_free_def\<close>)
  then show thesis using that assms by (auto simp: finished_fields)
qed

lemma virtio_disk_rw_served:
  assumes dev: "blk_device dev" and r: "ready p s"
  shows "chl (serve dev p) disk (\<lambda>d. d \<in> {disk s, disk_after b w s}) (virtio_disk_rw b w s)
    (\<lambda>_ t. ready p t \<and> drv_frame s t \<and> disk t = disk_after b w s \<and> bufs t = bufs_after b w s \<and> ptab t p = ptab s p)"
proof -
  define sec :: u64 where "sec = ucast (blockno (bufs s b) * of_nat (BSIZE div 512))"
  have r': "mach_ok s" "noff (mycpu s) = 0" "cproc (mycpu s) = Some p" "p < NPROC" "unlocked s"
     "state (ptab s p) = RUNNING" "chan (ptab s p) = None" "used_ring_idx s = used_idx s" "\<forall>i<NUM. vfree s i"
    using r by (simp_all add: ready_def driver_idle_def)
  obtain m T where T: "T p = ptab s p" and c: "chl (serve dev p) disk (\<lambda>d. d \<in> {disk s, disk_after b w s})
     (disk_wait WAKEUPS b (enter_cs LkVdisk (submitted b w sec s))) (\<lambda>_ t. t = enter_cs LkVdisk (served 0 b w sec m T (submitted b w sec s)))"
    using disk_wait_served [OF assms sec_def] by blast
  let ?u = "finished b w sec m T s"
  obtain V T' where f: "free_chain 0 (enter_cs LkVdisk ?u) = Ok () (enter_cs LkVdisk
      (?u\<lparr>vdesc := V, vfree := (vfree s)(0 := True, 1 := True, 2 := True), ptab := T'\<rparr>))" and T': "T' p = T p"
    by (rule finished_free_chain [OF r'(1,5,3)])
  let ?t = "settle (?u\<lparr>vdesc := V, vfree := (vfree s)(0 := True, 1 := True, 2 := True), ptab := T'\<rparr>)"
  have "ready p ?t"
    using r' T T' by (simp add: ready_def finished_fields unlocked_def driver_idle_def)
  moreover have "drv_frame s ?t"
    by (rule drv_frame_trans [OF finished_drv_frame [of s b w sec m T]])
      (simp add: drv_frame_def, intro arg_cong [where f = settle], simp)
  moreover have "disk ?t = disk_after b w s"
    by (simp add: finished_fields submitted_fields complete_def disk_after_def sec_def blk_of_def)
  moreover have "bufs ?t = bufs_after b w s" by (simp add: finished_fields served_bufs sec_def)
  moreover have "ptab ?t p = ptab s p" using T T' by simp
  moreover have "release LkVdisk (enter_cs LkVdisk (?u\<lparr>vdesc := V, vfree := (vfree s)(0 := True, 1 := True, 2 := True), ptab := T'\<rparr>)) = Ok () ?t"
    using r' by (simp add: finished_fields)
  moreover have "(served 0 b w sec m T (submitted b w sec s))\<lparr>info_b := (info_b (served 0 b w sec m T (submitted b w sec s)))(0 := None)\<rparr> = ?u"
    by (simp add: finished_def Let_def)
  ultimately show ?thesis
    unfolding virtio_disk_rw_eq [OF r sec_def] using f by (intro chl_and_then [OF c]) simp
qed

end
