(* ===== verification/Bio_Facts.thy ===== *)
theory Bio_Facts
  imports Disk_Facts
begin

text \<open>
  The buffer cache in operation, for one process that uses it with the disk driver below it.  The
  buffers form a doubly linked list; what a block contains, as far as the users of the cache can
  see, is the content of its buffer if it has one and of the disk otherwise (\<open>cview\<close>).
\<close>

section \<open>The list of buffers\<close>

fun dchain :: "(nat \<Rightarrow> buf) \<Rightarrow> nat \<Rightarrow> nat list \<Rightarrow> nat \<Rightarrow> bool" where
  "dchain B a [] z \<longleftrightarrow> bnext (B a) = z \<and> bprev (B z) = a"
| "dchain B a (y # ys) z \<longleftrightarrow> bnext (B a) = y \<and> bprev (B y) = a \<and> dchain B y ys z"

lemma dchain_append: "dchain B a (us @ b # vs) z \<longleftrightarrow> dchain B a us b \<and> dchain B b vs z"
  by (induction us arbitrary: a) auto

lemma dchain_cong:
  "(\<And>x. x \<in> set (a # ys) \<Longrightarrow> bnext (B' x) = bnext (B x)) \<Longrightarrow>
   (\<And>y. y \<in> set (ys @ [z]) \<Longrightarrow> bprev (B' y) = bprev (B y)) \<Longrightarrow> dchain B' a ys z = dchain B a ys z"
  by (induction ys arbitrary: a) auto

lemma dchain_ends: "dchain B a ys z \<Longrightarrow> bnext (B a) = hd (ys @ [z]) \<and> bprev (B z) = last (a # ys)"
  by (induction ys arbitrary: a) auto

text \<open>The walks of \<^verbatim>\<open>bget\<close> in the two directions are searches in the list.\<close>

lemma find_cached_eq:
  "dchain B a ys bhead \<Longrightarrow> bhead \<notin> set ys \<Longrightarrow> length ys < n \<Longrightarrow>
   find_cached n dev bno (bnext (B a)) B = find (\<lambda>b. bdev (B b) = dev \<and> blockno (B b) = bno) ys"
proof (induction ys arbitrary: a n)
  case Nil
  then show ?case by (cases n) auto
next
  case (Cons y ys)
  then show ?case by (cases n) auto
qed

lemma find_unused_buf_eq:
  "dchain B bhead ys z \<Longrightarrow> bhead \<notin> set ys \<Longrightarrow> length ys < n \<Longrightarrow>
   find_unused_buf n (bprev (B z)) B = find (\<lambda>b. refcnt (B b) = 0) (rev ys)"
proof (induction ys arbitrary: z n rule: rev_induct)
  case Nil
  then show ?case by (cases n) auto
next
  case (snoc y ys)
  then show ?case by (cases n) (auto simp: dchain_append)
qed

declare find_cached.simps [simp del] find_unused_buf.simps [simp del]

text \<open>Moving a buffer to the front.\<close>

lemma dchain_relink:
  assumes c: "dchain B h (us @ b # vs) h" and d: "distinct (h # us @ b # vs)"
    and p: "p = last (h # us)" and n: "n = hd (vs @ [h])"
    and nx: "\<And>x. bnext (B' x) = (if x = p then n else bnext (B x))"
    and pv: "\<And>x. bprev (B' x) = (if x = n then p else bprev (B x))"
  shows "dchain B' h (us @ vs) h"
proof -
  have cu: "dchain B h us b" and cv: "dchain B b vs h" using c by (simp_all add: dchain_append)
  have left: "dchain B' h us n" if "n \<notin> set us"
  proof (cases us rule: rev_cases)
    case (snoc us' q)
    then have "dchain B h us' q" using cu by (simp add: dchain_append)
    moreover have "q = p" using p snoc by simp
    moreover have "dchain B' h us' p = dchain B h us' p"
      using d snoc that \<open>q = p\<close> by (intro dchain_cong) (auto simp: nx pv)
    ultimately have "dchain B' h us' p" by simp
    then show ?thesis using snoc \<open>q = p\<close> nx pv by (simp add: dchain_append)
  qed (use p nx pv in simp)
  show ?thesis
  proof (cases vs)
    case Nil
    then show ?thesis using left n d by simp
  next
    case (Cons m vs')
    have "dchain B n vs' h" using cv Cons n by simp
    moreover have "p \<in> set (h # us)" using p by (metis last_in_set list.distinct(1))
    then have "dchain B' n vs' h = dchain B n vs' h"
      using d Cons n by (intro dchain_cong) (auto simp: nx pv)
    ultimately have "dchain B' n vs' h" by simp
    moreover have "dchain B' h us n" using left d Cons n by auto
    ultimately show ?thesis using Cons n by (simp add: dchain_append)
  qed
qed

lemma dchain_front:
  assumes c: "dchain B h xs h" and d: "distinct (h # b # xs)" and n: "n = hd (xs @ [h])"
    and nx: "\<And>x. bnext (B' x) = (if x = h then b else if x = b then n else bnext (B x))"
    and pv: "\<And>x. bprev (B' x) = (if x = n then b else if x = b then h else bprev (B x))"
  shows "dchain B' h (b # xs) h"
proof (cases xs)
  case Nil
  then show ?thesis using d n nx pv by simp
next
  case (Cons m ys)
  have "dchain B n ys h" using c Cons n by simp
  moreover have "dchain B' n ys h = dchain B n ys h" using d Cons n by (intro dchain_cong) (auto simp: nx pv)
  ultimately show ?thesis using d Cons n nx pv by simp
qed

lemma move_front:
  assumes c: "dchain (bufs s) bhead (us @ b # vs) bhead" and d: "distinct (bhead # us @ b # vs)"
  shows "dchain (bufs (link_front b (unlink_buf b s))) bhead (b # us @ vs) bhead"
proof -
  define p where "p = last (bhead # us)"
  define n where "n = hd (vs @ [bhead])"
  have pn: "bprev (bufs s b) = p" "bnext (bufs s b) = n"
    using c dchain_ends [of "bufs s" bhead us b] dchain_ends [of "bufs s" b vs bhead] by (simp_all add: dchain_append p_def n_def)
  have ne: "p \<noteq> b" "n \<noteq> b" "b \<noteq> bhead"
    using d last_in_set [of "bhead # us"] hd_in_set [of "vs @ [bhead]"] by (auto simp: p_def n_def)
  let ?u = "unlink_buf b s"
  have u: "bnext (bufs ?u x) = (if x = p then n else bnext (bufs s x))" "bprev (bufs ?u x) = (if x = n then p else bprev (bufs s x))" for x
    using pn ne by (auto simp: unlink_buf_def upd_buf_def Let_def)
  have cu: "dchain (bufs ?u) bhead (us @ vs) bhead" by (rule dchain_relink [OF c d p_def n_def u])
  have hn: "bnext (bufs ?u bhead) = hd ((us @ vs) @ [bhead])" using dchain_ends [OF cu] by simp
  have "hd ((us @ vs) @ [bhead]) \<noteq> b" using d by (cases "us @ vs") (auto simp: append_eq_Cons_conv)
  then show ?thesis
    using d ne(3) hn by (intro dchain_front [OF cu _ hn]) (auto simp: link_front_def upd_buf_def Let_def)
qed

section \<open>Sleep locks\<close>

lemma readyD:
  assumes "ready p s"
  shows "mach_ok s" "cproc (mycpu s) = Some p" "unlocked s" "procs_free s" "p < NPROC" "noff (mycpu s) = 0"
  using assms by (simp_all add: ready_def)

lemma ready_settle [simp]: "ready p (settle s) = ready p s"
  by (simp add: ready_def unlocked_def driver_idle_def)

lemma ready_upd [simp]:
  "ready p (upd_buf b f s) = ready p s" "ready p (s\<lparr>sleeplocks := L\<rparr>) = ready p s"
  "ready p (s\<lparr>ptab := T\<rparr>) = (mach_ok s \<and> noff (mycpu s) = 0 \<and> cproc (mycpu s) = Some p \<and> p < NPROC \<and> unlocked s \<and>
     state (T p) = RUNNING \<and> chan (T p) = None \<and> driver_idle s)"
  by (simp_all add: ready_def unlocked_def driver_idle_def upd_buf_def)

lemma upd_sleeplock_cs [simp]:
  "upd_sleeplock lk f (settle s) = settle (upd_sleeplock lk f s)"
  "upd_sleeplock lk f (enter_cs l s) = enter_cs l (upd_sleeplock lk f s)"
  by (simp_all add: upd_sleeplock_def)

lemma acquiresleep_eq:
  assumes "ready p s" "\<not> slocked (sleeplocks s lk)"
  shows "acquiresleep lk s = Ok () (settle (s\<lparr>sleeplocks := (sleeplocks s)(lk :=
    (sleeplocks s lk)\<lparr>slocked := True, slpid := pid (ptab s p)\<rparr>)\<rparr>))"
proof -
  note r = readyD [OF assms(1)]
  have "acquiresleep_wait WAKEUPS lk (enter_cs (LkSleep lk) s) = Ok () (enter_cs (LkSleep lk) s)"
    using assms(2) by (simp add: WAKEUPS_def numeral_eq_Suc)
  then show ?thesis
    using r by (simp add: acquiresleep_def Let_def upd_sleeplock_def)
qed

lemma releasesleep_eq:
  assumes "ready p s"
  shows "releasesleep lk s = Ok () (settle (s\<lparr>sleeplocks := (sleeplocks s)(lk := (sleeplocks s lk)\<lparr>slocked := False, slpid := 0\<rparr>),
    ptab := woken (Some (ChSleep lk)) (Some p) {..<NPROC} (ptab s)\<rparr>))"
proof -
  note r = readyD [OF assms]
  let ?s = "enter_cs (LkSleep lk) (s\<lparr>sleeplocks := (sleeplocks s)(lk := (sleeplocks s lk)\<lparr>slocked := False, slpid := 0\<rparr>)\<rparr>)"
  have "procs_free ?s" using r by (simp add: procs_free_def)
  then show ?thesis
    using r wakeup_eq [of ?s "Some (ChSleep lk)"] by (simp add: releasesleep_def Let_def upd_sleeplock_def)
qed

lemma holdingsleep_eq:
  assumes "ready p s"
  shows "holdingsleep lk s = Ok (slocked (sleeplocks s lk) \<and> slpid (sleeplocks s lk) = pid (ptab s p)) (settle s)"
  using readyD [OF assms] by (simp add: holdingsleep_def)

section \<open>The cache and its view\<close>

text \<open>What the operations of the cache may change besides the buffers and the disk.\<close>

definition bio_frame :: "nat \<Rightarrow> 'a virtio_scheme \<Rightarrow> 'a virtio_scheme \<Rightarrow> bool" where
  "bio_frame p s t \<longleftrightarrow> ptab t p = ptab s p \<and>
     drv_frame (s\<lparr>sleeplocks := sleeplocks t\<rparr>) t"

lemma bio_frame_refl [simp]: "bio_frame p s s"
  by (simp add: bio_frame_def)

lemma bio_frame_trans: "bio_frame p s t \<Longrightarrow> bio_frame p t u \<Longrightarrow> bio_frame p s u"
proof -
  assume st: "bio_frame p s t" and tu: "bio_frame p t u"
  have "drv_frame (s\<lparr>sleeplocks := sleeplocks u\<rparr>) (t\<lparr>sleeplocks := sleeplocks u\<rparr>)"
    using arg_cong [OF st [unfolded bio_frame_def drv_frame_def, THEN conjunct2], of "\<lambda>t. t\<lparr>sleeplocks := sleeplocks u\<rparr>"]
    by (simp add: drv_frame_def) (intro arg_cong [where f = settle], simp)
  then show ?thesis using st tu drv_frame_trans unfolding bio_frame_def by metis
qed

lemma bio_frameI: "drv_frame s t \<Longrightarrow> ptab t p = ptab s p \<Longrightarrow> bio_frame p s t"
  using drv_frame_machine(8) [of s t] by (simp add: bio_frame_def)

lemma bio_frame_machine:
  assumes "bio_frame p s t"
  shows "ptab t p = ptab s p" "mach_ok t = mach_ok s" "noff (mycpu t) = noff (mycpu s)"
    "cproc (mycpu t) = cproc (mycpu s)" "unlocked t = unlocked s"
proof -
  note f = assms [unfolded bio_frame_def]
  note m = drv_frame_machine [OF f [THEN conjunct2]]
  show "ptab t p = ptab s p" using f by blast
  show "mach_ok t = mach_ok s" "noff (mycpu t) = noff (mycpu s)" "cproc (mycpu t) = cproc (mycpu s)" using m by simp_all
  show "unlocked t = unlocked s" using m(7) by (simp add: unlocked_def)
qed

definition has_block :: "u32 \<Rightarrow> u32 \<Rightarrow> buf \<Rightarrow> bool" where
  "has_block dev bno q \<longleftrightarrow> bdev q = dev \<and> blockno q = bno"

definition cview :: "u32 \<Rightarrow> 'a virtio_scheme \<Rightarrow> u32 \<Rightarrow> byte list" where
  "cview dev s bno =
     (case find (\<lambda>b. has_block dev bno (bufs s b)) [0..<NBUF] of
        Some b \<Rightarrow> bdata (bufs s b)
      | None \<Rightarrow> disk s (unat bno))"

text \<open>
  The buffers \<open>H\<close> are locked by process \<open>p\<close>, the buffers \<open>P\<close> are pinned by the log; every other
  buffer is unused and agrees with the disk.  No block has two buffers.
\<close>

definition cache_inv :: "u32 \<Rightarrow> nat \<Rightarrow> nat set \<Rightarrow> nat set \<Rightarrow> 'a virtio_scheme \<Rightarrow> bool" where
  "cache_inv dev p H P s \<longleftrightarrow> ready p s \<and>
     (\<exists>xs. dchain (bufs s) bhead xs bhead \<and> distinct xs \<and> set xs = {..<NBUF}) \<and>
     (\<forall>b<NBUF. \<forall>c<NBUF. \<forall>x. has_block dev x (bufs s b) \<longrightarrow> has_block dev x (bufs s c) \<longrightarrow> b = c) \<and>
     (\<forall>b<NBUF. bdev (bufs s b) = dev \<longrightarrow> bvalid (bufs s b) \<and> unat (blockno (bufs s b)) < 2 ^ 31) \<and>
     (\<forall>b<NBUF. bdev (bufs s b) = dev \<longrightarrow> b \<notin> H \<union> P \<longrightarrow> bdata (bufs s b) = disk s (unat (blockno (bufs s b)))) \<and>
     (\<forall>b\<in>H \<union> P. b < NBUF \<and> bdev (bufs s b) = dev) \<and>
     (\<forall>b<NBUF. refcnt (bufs s b) = of_bool (b \<in> H) + of_bool (b \<in> P)) \<and>
     (\<forall>b<NBUF. slocked (sleeplocks s (SlBuf b)) \<longleftrightarrow> b \<in> H) \<and>
     (\<forall>b\<in>H. slpid (sleeplocks s (SlBuf b)) = pid (ptab s p))"

lemma cache_invD:
  assumes "cache_inv dev p H P s"
  shows "ready p s"
    "\<exists>xs. dchain (bufs s) bhead xs bhead \<and> distinct xs \<and> set xs = {..<NBUF}"
    "\<And>b c x. b < NBUF \<Longrightarrow> c < NBUF \<Longrightarrow> has_block dev x (bufs s b) \<Longrightarrow> has_block dev x (bufs s c) \<Longrightarrow> b = c"
    "\<And>b. b < NBUF \<Longrightarrow> bdev (bufs s b) = dev \<Longrightarrow> bvalid (bufs s b) \<and> unat (blockno (bufs s b)) < 2 ^ 31"
    "\<And>b. b < NBUF \<Longrightarrow> bdev (bufs s b) = dev \<Longrightarrow> b \<notin> H \<union> P \<Longrightarrow> bdata (bufs s b) = disk s (unat (blockno (bufs s b)))"
    "\<And>b. b \<in> H \<union> P \<Longrightarrow> b < NBUF \<and> bdev (bufs s b) = dev"
    "\<And>b. b < NBUF \<Longrightarrow> refcnt (bufs s b) = of_bool (b \<in> H) + of_bool (b \<in> P)"
    "\<And>b. b < NBUF \<Longrightarrow> slocked (sleeplocks s (SlBuf b)) \<longleftrightarrow> b \<in> H"
    "\<And>b. b \<in> H \<Longrightarrow> slpid (sleeplocks s (SlBuf b)) = pid (ptab s p)"
  using assms unfolding cache_inv_def by blast+

lemma cache_invI:
  assumes "ready p s"
    "\<exists>xs. dchain (bufs s) bhead xs bhead \<and> distinct xs \<and> set xs = {..<NBUF}"
    "\<And>b c x. b < NBUF \<Longrightarrow> c < NBUF \<Longrightarrow> has_block dev x (bufs s b) \<Longrightarrow> has_block dev x (bufs s c) \<Longrightarrow> b = c"
    "\<And>b. b < NBUF \<Longrightarrow> bdev (bufs s b) = dev \<Longrightarrow> bvalid (bufs s b) \<and> unat (blockno (bufs s b)) < 2 ^ 31"
    "\<And>b. b < NBUF \<Longrightarrow> bdev (bufs s b) = dev \<Longrightarrow> b \<notin> H \<union> P \<Longrightarrow> bdata (bufs s b) = disk s (unat (blockno (bufs s b)))"
    "\<And>b. b \<in> H \<union> P \<Longrightarrow> b < NBUF \<and> bdev (bufs s b) = dev"
    "\<And>b. b < NBUF \<Longrightarrow> refcnt (bufs s b) = of_bool (b \<in> H) + of_bool (b \<in> P)"
    "\<And>b. b < NBUF \<Longrightarrow> slocked (sleeplocks s (SlBuf b)) \<longleftrightarrow> b \<in> H"
    "\<And>b. b \<in> H \<Longrightarrow> slpid (sleeplocks s (SlBuf b)) = pid (ptab s p)"
  shows "cache_inv dev p H P s"
  unfolding cache_inv_def
proof (intro conjI allI impI ballI)
  show "b = c" if "b < NBUF" "c < NBUF" "has_block dev x (bufs s b)" "has_block dev x (bufs s c)" for b c x
    using assms(3) that by blast
  show "b < NBUF" "bdev (bufs s b) = dev" if "b \<in> H \<union> P" for b using assms(6) [OF that] by blast+
qed (use assms(1,2,4,5,7,8,9) in blast)+

lemma cview_none: "(\<And>b. b < NBUF \<Longrightarrow> \<not> has_block dev x (bufs s b)) \<Longrightarrow> cview dev s x = disk s (unat x)"
proof -
  assume "\<And>b. b < NBUF \<Longrightarrow> \<not> has_block dev x (bufs s b)"
  then have "find (\<lambda>b. has_block dev x (bufs s b)) [0..<NBUF] = None" by (auto simp: find_None_iff)
  then show ?thesis by (simp add: cview_def)
qed

lemma cview_buf:
  assumes "\<And>c. c < NBUF \<Longrightarrow> has_block dev x (bufs s c) \<Longrightarrow> c = b" "b < NBUF" "has_block dev x (bufs s b)"
  shows "cview dev s x = bdata (bufs s b)"
proof (cases "find (\<lambda>b. has_block dev x (bufs s b)) [0..<NBUF]")
  case None
  then show ?thesis using assms(2,3) by (auto simp: find_None_iff)
next
  case (Some c)
  then have "c < NBUF" "has_block dev x (bufs s c)" by (auto simp: find_Some_iff)
  then show ?thesis using Some assms(1) by (simp add: cview_def)
qed

lemma cview_held: "cache_inv dev p H P s \<Longrightarrow> b < NBUF \<Longrightarrow> has_block dev x (bufs s b) \<Longrightarrow> cview dev s x = bdata (bufs s b)"
  by (rule cview_buf) (auto dest: cache_invD(3))

text \<open>An unused buffer of the view agrees with the disk, so that giving it another block loses nothing.\<close>

lemma cview_unused:
  assumes "cache_inv dev p H P s" "\<And>c. c \<in> H \<union> P \<Longrightarrow> blockno (bufs s c) \<noteq> x"
  shows "cview dev s x = disk s (unat x)"
proof (cases "\<exists>b<NBUF. has_block dev x (bufs s b)")
  case True
  then obtain b where b: "b < NBUF" "has_block dev x (bufs s b)" by blast
  then have "b \<notin> H \<union> P" using assms(2) by (auto simp: has_block_def)
  then show ?thesis using cview_held [OF assms(1) b] cache_invD(5) [OF assms(1) b(1)] b(2) by (simp add: has_block_def)
qed (use cview_none in blast)

section \<open>The operations\<close>

lemma cache_inv_hold:
  assumes inv: "cache_inv dev p H P s" and b: "b < NBUF" "b \<notin> H"
    and t: "ready p t" "ptab t p = ptab s p" "bufs t = (bufs s)(b := q)" "disk t = disk s"
      "sleeplocks t = (sleeplocks s)(SlBuf b := l)" "slocked l" "slpid l = pid (ptab s p)"
    and q: "bnext q = bnext (bufs s b)" "bprev q = bprev (bufs s b)" "has_block dev bno q" "bvalid q" "unat bno < 2 ^ 31"
      "refcnt q = refcnt (bufs s b) + 1" "bdata q = cview dev s bno"
    and uniq: "\<And>c. c < NBUF \<Longrightarrow> has_block dev bno (bufs s c) \<Longrightarrow> c = b"
    and pin: "b \<in> P \<Longrightarrow> has_block dev bno (bufs s b)"
  shows "cache_inv dev p (insert b H) P t \<and> (\<forall>x. cview dev t x = cview dev s x)"
proof -
  note I = cache_invD [OF inv]
  have old: "has_block dev x (bufs t c) \<longleftrightarrow> (if c = b then x = bno else has_block dev x (bufs s c))" for x c
    using t(3) q(3) by (auto simp: has_block_def)
  have uniq': "c = c'" if "c < NBUF" "c' < NBUF" "has_block dev x (bufs t c)" "has_block dev x (bufs t c')" for x c c'
  proof (cases "c = b \<or> c' = b")
    case True
    then have "x = bno" using that(3,4) old by metis
    then show ?thesis using True that uniq old by metis
  next
    case False
    then show ?thesis using that old I(3) by metis
  qed
  obtain xs where xs: "dchain (bufs s) bhead xs bhead" "distinct xs" "set xs = {..<NBUF}" using I(2) by blast
  have "dchain (bufs t) bhead xs bhead = dchain (bufs s) bhead xs bhead"
    by (rule dchain_cong) (auto simp: t(3) q)
  then have xs': "\<exists>xs. dchain (bufs t) bhead xs bhead \<and> distinct xs \<and> set xs = {..<NBUF}" using xs by blast
  have 4: "bdev (bufs t c) = dev \<Longrightarrow> bvalid (bufs t c) \<and> unat (blockno (bufs t c)) < 2 ^ 31" if "c < NBUF" for c
    using I(4) [OF that] q by (auto simp: t(3) has_block_def)
  have 5: "bdata (bufs t c) = disk t (unat (blockno (bufs t c)))"
    if "c < NBUF" "bdev (bufs t c) = dev" "c \<notin> insert b H \<union> P" for c
    using I(5) [OF that(1)] that by (simp add: t(3,4))
  have 6: "c < NBUF \<and> bdev (bufs t c) = dev" if "c \<in> insert b H \<union> P" for c
    using I(6) [of c] that b(1) q(3) by (auto simp: t(3) has_block_def)
  have 7: "refcnt (bufs t c) = of_bool (c \<in> insert b H) + of_bool (c \<in> P)" if "c < NBUF" for c
    using I(7) [OF that] q(6) b(2) by (auto simp: t(3))
  have 8: "slocked (sleeplocks t (SlBuf c)) \<longleftrightarrow> c \<in> insert b H" if "c < NBUF" for c
    using I(8) [OF that] t(5,6) by auto
  have 9: "slpid (sleeplocks t (SlBuf c)) = pid (ptab t p)" if "c \<in> insert b H" for c
    using I(9) [of c] that t by auto
  have inv': "cache_inv dev p (insert b H) P t"
    by (rule cache_invI [OF t(1) xs' uniq' 4 5 6 7 8 9])
  have "cview dev t x = cview dev s x" for x
  proof (cases "x = bno")
    case True
    then show ?thesis using cview_held [OF inv' b(1), of bno] q(3,7) t(3) by simp
  next
    case False
    show ?thesis
    proof (cases "\<exists>c<NBUF. has_block dev x (bufs t c)")
      case True
      then obtain c where c: "c < NBUF" "has_block dev x (bufs t c)" by blast
      then have "c \<noteq> b" using False old by auto
      then show ?thesis using cview_held [OF inv' c] cview_held [OF inv c(1), of x] c(2) old t(3) by simp
    next
      case none: False
      have "cview dev s x = disk s (unat x)"
      proof (cases "has_block dev x (bufs s b)")
        case True
        then have "b \<notin> H \<union> P" using pin b(2) False by (auto simp: has_block_def)
        then show ?thesis using cview_held [OF inv b(1) True] I(5) [OF b(1)] True by (simp add: has_block_def)
      next
        case b': False
        then have "\<not> has_block dev x (bufs s c)" if "c < NBUF" for c using none old that by (metis (full_types))
        then show ?thesis by (rule cview_none)
      qed
      moreover have "cview dev t x = disk t (unat x)" using none by (intro cview_none) blast
      ultimately show ?thesis by (simp add: t(4))
    qed
  qed
  then show ?thesis using inv' by blast
qed

lemma find_SomeD: "find Q xs = Some x \<Longrightarrow> Q x \<and> x \<in> set xs"
  by (induction xs) (auto split: if_splits)

definition got :: "nat \<Rightarrow> nat \<Rightarrow> buf \<Rightarrow> 'a virtio_scheme \<Rightarrow> 'a virtio_scheme" where
  "got p b q s = settle (s\<lparr>bufs := (bufs s)(b := q),
     sleeplocks := (sleeplocks s)(SlBuf b := (sleeplocks s (SlBuf b))\<lparr>slocked := True, slpid := pid (ptab s p)\<rparr>)\<rparr>)"

lemma got_fields [simp]:
  "bufs (got p b q s) = (bufs s)(b := q)" "disk (got p b q s) = disk s" "ptab (got p b q s) = ptab s"
  "sleeplocks (got p b q s) = (sleeplocks s)(SlBuf b := (sleeplocks s (SlBuf b))\<lparr>slocked := True, slpid := pid (ptab s p)\<rparr>)"
  by (simp_all add: got_def)

lemma got_ready: "ready p (got p b q s) = ready p s"
  by (simp add: got_def ready_def unlocked_def driver_idle_def)

lemma got_frame: "bio_frame p s (got p b q s)"
  by (simp add: bio_frame_def got_def drv_frame_def) (intro arg_cong [where f = settle], simp)

lemma bget_cases:
  assumes inv: "cache_inv dev p H P s" and held: "\<And>b. b \<in> H \<Longrightarrow> blockno (bufs s b) \<noteq> bno" and room: "H \<union> P \<noteq> {..<NBUF} \<or> (\<exists>c\<in>P. blockno (bufs s c) = bno)"
  obtains (cached) b where "b < NBUF" "b \<notin> H" "has_block dev bno (bufs s b)"
      "bget dev bno s = Ok b (got p b ((bufs s b)\<lparr>refcnt := refcnt (bufs s b) + 1\<rparr>) s)"
  | (fresh) b where "b < NBUF" "b \<notin> H" "b \<notin> P" "\<And>c. c < NBUF \<Longrightarrow> \<not> has_block dev bno (bufs s c)"
      "bget dev bno s = Ok b (got p b ((bufs s b)\<lparr>bdev := dev, blockno := bno, bvalid := False, refcnt := 1\<rparr>) s)"
proof -
  note I = cache_invD [OF inv] and r = readyD [OF cache_invD(1) [OF inv]]
  obtain xs where xs: "dchain (bufs s) bhead xs bhead" "distinct xs" "set xs = {..<NBUF}" using I(2) by blast
  have len: "length xs < Suc NBUF" using distinct_card [OF xs(2)] xs(3) by simp
  have hd: "bhead \<notin> set xs" using xs(3) by (simp add: bhead_def)
  note fc = find_cached_eq [OF xs(1) hd len, of dev bno] and fu = find_unused_buf_eq [OF xs(1) hd len]
  have lock: "and_then (release LkBcache (enter_cs LkBcache (upd_buf b f s))) (\<lambda>_ s. and_then (acquiresleep (SlBuf b) s) (\<lambda>_ s. Ok b s)) =
      Ok b (got p b (f (bufs s b)) s)" if "b < NBUF" "b \<notin> H" for b f
  proof -
    have "ready p (upd_buf b f s)" "\<not> slocked (sleeplocks (upd_buf b f s) (SlBuf b))" using I(1) I(8) [OF that(1)] that(2) by simp_all
    then show ?thesis
      using r acquiresleep_eq [of p "settle (upd_buf b f s)" "SlBuf b"] by (simp add: got_def upd_buf_def)
  qed
  show thesis
  proof (cases "find (\<lambda>b. bdev (bufs s b) = dev \<and> blockno (bufs s b) = bno) xs")
    case (Some b)
    then have b: "b < NBUF" "has_block dev bno (bufs s b)" using xs(3) by (auto simp: find_Some_iff has_block_def)
    then have "b \<notin> H" using held by (auto simp: has_block_def)
    then show thesis
      using cached [of b] b lock [OF b(1), of "\<lambda>q. q\<lparr>refcnt := refcnt q + 1\<rparr>"] Some fc r by (simp add: bget_def Let_def)
  next
    case None
    then have no: "\<not> has_block dev bno (bufs s c)" if "c < NBUF" for c
      using that xs(3) by (auto simp: find_None_iff has_block_def)
    have "\<not> (\<exists>c\<in>P. blockno (bufs s c) = bno)" using no I(6) unfolding has_block_def by blast
    then obtain c where "c < NBUF" "c \<notin> H \<union> P" using room I(6) by blast
    then have "refcnt (bufs s c) = 0" "c \<in> set (rev xs)" using I(7) xs(3) by auto
    then obtain b where f: "find (\<lambda>b. refcnt (bufs s b) = 0) (rev xs) = Some b"
      by (metis (mono_tags, lifting) find_None_iff not_Some_eq)
    then have b: "b < NBUF" "refcnt (bufs s b) = 0" using xs(3) find_SomeD [OF f] by auto
    have "b \<notin> H" "b \<notin> P" using I(7) [OF b(1)] b(2) by (auto split: if_splits simp: of_bool_def)
    then show thesis
      using fresh [of b] b no lock [OF b(1), of "\<lambda>q. q\<lparr>bdev := dev, blockno := bno, bvalid := False, refcnt := 1\<rparr>"] f None fc fu r
      by (simp add: bget_def Let_def)
  qed
qed

text \<open>\<^verbatim>\<open>bread\<close> returns a locked buffer with the content of the block and changes neither disk nor view.\<close>

definition bread_post :: "u32 \<Rightarrow> u32 \<Rightarrow> nat \<Rightarrow> nat set \<Rightarrow> nat set \<Rightarrow> 'a virtio_scheme \<Rightarrow> nat \<Rightarrow> 'a virtio_scheme \<Rightarrow> bool" where
  "bread_post dev bno p H P s b t \<longleftrightarrow> b \<notin> H \<and> cache_inv dev p (insert b H) P t \<and> bio_frame p s t \<and> disk t = disk s \<and>
     cview dev t = cview dev s \<and> has_block dev bno (bufs t b) \<and>
     (\<forall>c\<in>H \<union> P. blockno (bufs t c) = blockno (bufs s c)) \<and> (b \<in> P \<longleftrightarrow> (\<exists>c\<in>P. blockno (bufs s c) = bno))"

lemma bread_ok:
  assumes dev: "blk_device d" and inv: "cache_inv dev p H P s" and held: "\<And>b. b \<in> H \<Longrightarrow> blockno (bufs s b) \<noteq> bno"
    and room: "H \<union> P \<noteq> {..<NBUF} \<or> (\<exists>c\<in>P. blockno (bufs s c) = bno)" and small: "unat bno < 2 ^ 31"
  shows "chl (serve d p) disk (\<lambda>x. x = disk s) (bread dev bno s) (bread_post dev bno p H P s)"
proof (rule bget_cases [OF inv held room])
  fix b
  assume cached: "b < NBUF" "b \<notin> H" "has_block dev bno (bufs s b)"
    "bget dev bno s = Ok b (got p b ((bufs s b)\<lparr>refcnt := refcnt (bufs s b) + 1\<rparr>) s)"
  note I = cache_invD [OF inv]
  let ?q = "(bufs s b)\<lparr>refcnt := refcnt (bufs s b) + 1\<rparr>"
  let ?t = "got p b ?q s"
  have v: "bvalid (bufs s b)" using I(4) [OF cached(1)] cached(3) by (simp add: has_block_def)
  have uniq: "c = b" if "c < NBUF" "has_block dev bno (bufs s c)" for c using I(3) [OF that(1) cached(1) that(2) cached(3)] .
  have "cache_inv dev p (insert b H) P ?t \<and> (\<forall>x. cview dev ?t x = cview dev s x)"
    using cached(3) v I(1) cview_held [OF inv cached(1,3)]
    by (intro cache_inv_hold [OF inv cached(1,2) _ _ _ _ _ _ _ _ _ _ _ small _ _ uniq, where q = ?q and l = "(sleeplocks s (SlBuf b))\<lparr>slocked := True, slpid := pid (ptab s p)\<rparr>"])
      (simp_all add: got_ready has_block_def)
  moreover have "b \<in> P \<longleftrightarrow> (\<exists>c\<in>P. blockno (bufs s c) = bno)"
    using uniq I(6) cached(3) unfolding has_block_def by blast
  ultimately have "bread_post dev bno p H P s b ?t"
    using cached(2,3) got_frame [of p s b ?q] by (auto simp: bread_post_def has_block_def)
  then show ?thesis using cached(4) v by (simp add: bread_def)
next
  fix b
  assume fresh: "b < NBUF" "b \<notin> H" "b \<notin> P" "\<And>c. c < NBUF \<Longrightarrow> \<not> has_block dev bno (bufs s c)"
    "bget dev bno s = Ok b (got p b ((bufs s b)\<lparr>bdev := dev, blockno := bno, bvalid := False, refcnt := 1\<rparr>) s)"
  note I = cache_invD [OF inv]
  let ?q = "(bufs s b)\<lparr>bdev := dev, blockno := bno, bvalid := False, refcnt := 1\<rparr>"
  let ?u = "got p b ?q s"
  have blk: "blk_of ?q = unat bno" using blk_of_small [of ?q] small by simp
  have ru: "ready p ?u" using I(1) by (simp add: got_ready)
  have post: "bread_post dev bno p H P s b (upd_buf b (bvalid_update (\<lambda>_. True)) t)"
    if "ready p t" "drv_frame ?u t" "disk t = disk_after b False ?u" "bufs t = bufs_after b False ?u" "ptab t p = ptab ?u p" for t
  proof -
    let ?t = "upd_buf b (bvalid_update (\<lambda>_. True)) t"
    let ?q2 = "?q\<lparr>bdata := disk s (unat bno), bdisk := False, bvalid := True\<rparr>"
    have f: "bio_frame p s ?t"
      by (rule bio_frame_trans [OF got_frame bio_frameI [OF drv_frame_trans [OF that(2) drv_frame_upd_buf]]]) (simp add: that(5))
    have B: "bufs ?t = (bufs s)(b := ?q2)" using that(4) blk by (simp add: bufs_after_def)
    have uniq: "c = b" if "c < NBUF" "has_block dev bno (bufs s c)" for c using fresh(4) that by blast
    have D: "disk ?t = disk s" using that(3) by (simp add: disk_after_def)
    have "cache_inv dev p (insert b H) P ?t \<and> (\<forall>x. cview dev ?t x = cview dev s x)"
      using that(1,5) fresh(2,3) B D drv_frame_machine(8) [OF that(2)] I(7) [OF fresh(1)] cview_none [OF fresh(4)]
      by (intro cache_inv_hold [OF inv fresh(1,2) _ _ _ _ _ _ _ _ _ _ _ small _ _ uniq, where q = ?q2 and l = "(sleeplocks s (SlBuf b))\<lparr>slocked := True, slpid := pid (ptab s p)\<rparr>"])
        (simp_all add: has_block_def)
    moreover have "b \<in> P \<longleftrightarrow> (\<exists>c\<in>P. blockno (bufs s c) = bno)" using fresh(3,4) I(6) unfolding has_block_def by blast
    moreover have "blockno (bufs ?t c) = blockno (bufs s c)" if "c \<in> H \<union> P" for c using that fresh(2,3) B by auto
    moreover have "has_block dev bno (bufs ?t b)" unfolding B by (simp add: has_block_def)
    ultimately show ?thesis unfolding bread_post_def using f D fresh(2) by blast
  qed
  have "chl (serve d p) disk (\<lambda>x. x = disk s) (virtio_disk_rw b False ?u) (\<lambda>_ t. ready p t \<and> drv_frame ?u t \<and>
      disk t = disk_after b False ?u \<and> bufs t = bufs_after b False ?u \<and> ptab t p = ptab ?u p)"
    by (rule chl_crash [OF virtio_disk_rw_served [OF dev ru]]) (simp add: disk_after_def)
  from chl_and_then [OF this, of "\<lambda>_ s. Ok b (upd_buf b (bvalid_update (\<lambda>_. True)) s)" "bread_post dev bno p H P s"]
  show ?thesis using fresh(5) post by (simp add: bread_def)
qed

lemma cache_inv_touch:
  assumes inv: "cache_inv dev p H P s" and b: "b \<in> H" "has_block dev bno (bufs s b)"
    and t: "ready p t" "ptab t p = ptab s p" "bufs t = (bufs s)(b := q)" "\<And>x. x \<noteq> unat bno \<Longrightarrow> disk t x = disk s x"
      "sleeplocks t = sleeplocks s"
    and q: "bnext q = bnext (bufs s b)" "bprev q = bprev (bufs s b)" "has_block dev bno q" "bvalid q = bvalid (bufs s b)"
      "refcnt q = refcnt (bufs s b)"
  shows "cache_inv dev p H P t \<and> cview dev t = (cview dev s)(bno := bdata q)"
proof -
  note I = cache_invD [OF inv]
  have bn: "b < NBUF" using I(6) b(1) by blast
  have old: "has_block dev x (bufs t c) \<longleftrightarrow> has_block dev x (bufs s c)" for x c
    using t(3) q(3) b(2) by (auto simp: has_block_def)
  obtain xs where xs: "dchain (bufs s) bhead xs bhead" "distinct xs" "set xs = {..<NBUF}" using I(2) by blast
  have "dchain (bufs t) bhead xs bhead = dchain (bufs s) bhead xs bhead" by (rule dchain_cong) (auto simp: t(3) q)
  then have xs': "\<exists>xs. dchain (bufs t) bhead xs bhead \<and> distinct xs \<and> set xs = {..<NBUF}" using xs by blast
  have eqs: "bdev (bufs t c) = bdev (bufs s c)" "blockno (bufs t c) = blockno (bufs s c)" "refcnt (bufs t c) = refcnt (bufs s c)"
    "bvalid (bufs t c) = bvalid (bufs s c)" for c using t(3) q b(2) by (auto simp: has_block_def)
  have 5: "bdata (bufs t c) = disk t (unat (blockno (bufs t c)))" if c: "c < NBUF" "bdev (bufs t c) = dev" "c \<notin> H \<union> P" for c
  proof -
    have "c \<noteq> b" using c(3) b(1) by blast
    moreover then have "blockno (bufs s c) \<noteq> bno" using I(3) [OF c(1) bn, of bno] b(2) c(2) eqs by (auto simp: has_block_def)
    ultimately show ?thesis using I(5) [OF c(1)] c eqs t(3,4) by (simp add: word_unat_eq_iff)
  qed
  have inv': "cache_inv dev p H P t"
    by (rule cache_invI [OF t(1) xs' _ _ 5]) (use I(3,4,6-9) t(2,5) eqs old in simp_all)
  have "cview dev t x = ((cview dev s)(bno := bdata q)) x" for x
  proof (cases "\<exists>c<NBUF. has_block dev x (bufs s c)")
    case True
    then obtain c where c: "c < NBUF" "has_block dev x (bufs s c)" by blast
    have "c = b \<longleftrightarrow> x = bno" using I(3) [OF c(1) bn, of bno] b(2) c(2) by (auto simp: has_block_def)
    then show ?thesis using cview_held [OF inv c] cview_held [OF inv' c(1), of x] c(2) old t(3) q(3) by auto
  next
    case False
    then have "x \<noteq> bno" using b(2) bn by blast
    moreover have "cview dev t x = disk t (unat x)" "cview dev s x = disk s (unat x)" using False old by (auto intro!: cview_none)
    ultimately show ?thesis using t(4) by (simp add: word_unat_eq_iff)
  qed
  then show ?thesis using inv' by blast
qed

lemma modify_ok:
  assumes "cache_inv dev p H P s" "b \<in> H" "has_block dev bno (bufs s b)"
  shows "cache_inv dev p H P (upd_buf b (bdata_update f) s)"
    "cview dev (upd_buf b (bdata_update f) s) = (cview dev s)(bno := f (bdata (bufs s b)))"
    "bio_frame p s (upd_buf b (bdata_update f) s)"
proof -
  have "cache_inv dev p H P (upd_buf b (bdata_update f) s) \<and>
      cview dev (upd_buf b (bdata_update f) s) = (cview dev s)(bno := bdata (bdata_update f (bufs s b)))"
    by (rule cache_inv_touch [OF assms]) (use cache_invD(1) [OF assms(1)] assms(3) in \<open>simp_all add: has_block_def\<close>)
  then show "cache_inv dev p H P (upd_buf b (bdata_update f) s)"
    "cview dev (upd_buf b (bdata_update f) s) = (cview dev s)(bno := f (bdata (bufs s b)))" by simp_all
  show "bio_frame p s (upd_buf b (bdata_update f) s)" by (rule bio_frameI) simp_all
qed

text \<open>\<^verbatim>\<open>bwrite\<close> makes the disk agree with the buffer; a crash finds the block old or new.\<close>

definition kept :: "u32 \<Rightarrow> nat \<Rightarrow> nat set \<Rightarrow> nat set \<Rightarrow> 'a virtio_scheme \<Rightarrow> 'a virtio_scheme \<Rightarrow> bool" where
  "kept dev p H P s t \<longleftrightarrow> cache_inv dev p H P t \<and> bio_frame p s t \<and> cview dev t = cview dev s \<and>
     (\<forall>c. blockno (bufs t c) = blockno (bufs s c) \<and> bdata (bufs t c) = bdata (bufs s c))"

lemma bwrite_ok:
  assumes dev: "blk_device d" and inv: "cache_inv dev p H P s" and b: "b \<in> H" "has_block dev bno (bufs s b)"
  defines "D \<equiv> (disk s)(unat bno := bdata (bufs s b))"
  shows "chl (serve d p) disk (\<lambda>x. x \<in> {disk s, D}) (bwrite b s) (\<lambda>_ t. kept dev p H P s t \<and> disk t = D)"
proof -
  note I = cache_invD [OF inv]
  have bn: "b < NBUF" using I(6) b(1) by blast
  have blk: "blk_of (bufs s b) = unat bno" using blk_of_small [of "bufs s b"] I(4) [OF bn] b(2) by (simp add: has_block_def)
  have post: "kept dev p H P s t \<and> disk t = D"
    if "ready p t" "drv_frame (settle s) t" "disk t = disk_after b True (settle s)" "bufs t = bufs_after b True (settle s)"
      "ptab t p = ptab (settle s) p" for t
  proof -
    have f: "bio_frame p s t"
      using bio_frameI [of s "settle s" p] bio_frameI [OF that(2,5)] bio_frame_trans by (simp add: drv_frame_def) blast
    have "cache_inv dev p H P t \<and> cview dev t = (cview dev s)(bno := bdata ((bufs s b)\<lparr>bdisk := False\<rparr>))"
      by (rule cache_inv_touch [OF inv b])
        (use that b blk drv_frame_machine(8) [OF that(2)] in \<open>simp_all add: bufs_after_def disk_after_def has_block_def\<close>)
    moreover have "(cview dev s)(bno := bdata ((bufs s b)\<lparr>bdisk := False\<rparr>)) = cview dev s" using cview_held [OF inv bn b(2)] by auto
    ultimately show ?thesis using that(3,4) f blk by (simp add: kept_def D_def disk_after_def bufs_after_def)
  qed
  have "chl (serve d p) disk (\<lambda>x. x \<in> {disk s, D}) (virtio_disk_rw b True (settle s)) (\<lambda>_ t. ready p t \<and> drv_frame (settle s) t \<and>
      disk t = disk_after b True (settle s) \<and> bufs t = bufs_after b True (settle s) \<and> ptab t p = ptab (settle s) p)"
    by (rule chl_crash [OF virtio_disk_rw_served [OF dev]]) (use I(1) blk in \<open>auto simp: disk_after_def D_def\<close>)
  then have "chl (serve d p) disk (\<lambda>x. x \<in> {disk s, D}) (virtio_disk_rw b True (settle s)) (\<lambda>_ t. kept dev p H P s t \<and> disk t = D)"
    by (rule chl_post) (use post in blast)
  then show ?thesis using I(8) [OF bn] I(9) [OF b(1)] b(1) by (simp add: bwrite_def holdingsleep_eq [OF I(1)])
qed

text \<open>Changing a locked buffer and writing it out.\<close>

definition stored :: "u32 \<Rightarrow> nat \<Rightarrow> nat set \<Rightarrow> nat set \<Rightarrow> nat \<Rightarrow> u32 \<Rightarrow> byte list \<Rightarrow> 'a virtio_scheme \<Rightarrow> 'a virtio_scheme \<Rightarrow> bool" where
  "stored dev p H P b bno x s t \<longleftrightarrow> cache_inv dev p H P t \<and> bio_frame p s t \<and> disk t = (disk s)(unat bno := x) \<and>
     cview dev t = (cview dev s)(bno := x) \<and> (\<forall>c. blockno (bufs t c) = blockno (bufs s c)) \<and>
     (\<forall>c. bdata (bufs t c) = (if c = b then x else bdata (bufs s c)))"

lemma modify_bwrite_ok:
  fixes f
  assumes dev: "blk_device d" and inv: "cache_inv dev p H P s" and b: "b \<in> H" "has_block dev bno (bufs s b)"
  defines "x \<equiv> f (bdata (bufs s b))"
  shows "chl (serve d p) disk (\<lambda>D. D \<in> {disk s, (disk s)(unat bno := x)}) (bwrite b (upd_buf b (bdata_update f) s))
    (\<lambda>_. stored dev p H P b bno x s)"
proof -
  note m = modify_ok [OF inv b, of f]
  have hb: "has_block dev bno (bufs (upd_buf b (bdata_update f) s) b)" using b(2) by (simp add: has_block_def)
  have "chl (serve d p) disk (\<lambda>D. D \<in> {disk s, (disk s)(unat bno := x)}) (bwrite b (upd_buf b (bdata_update f) s))
      (\<lambda>_ t. kept dev p H P (upd_buf b (bdata_update f) s) t \<and> disk t = (disk s)(unat bno := x))"
    using bwrite_ok [OF dev m(1) b(1) hb] by (simp add: x_def)
  then show ?thesis
    by (rule chl_post)
      (use m bio_frame_trans [OF m(3)] in \<open>auto simp: kept_def stored_def x_def\<close>)
qed

lemma link_fields [simp]:
  "bdev (bufs (link_front b s) c) = bdev (bufs s c)" "blockno (bufs (link_front b s) c) = blockno (bufs s c)"
  "bvalid (bufs (link_front b s) c) = bvalid (bufs s c)" "refcnt (bufs (link_front b s) c) = refcnt (bufs s c)"
  "bdata (bufs (link_front b s) c) = bdata (bufs s c)" "bdev (bufs (unlink_buf b s) c) = bdev (bufs s c)"
  "blockno (bufs (unlink_buf b s) c) = blockno (bufs s c)" "bvalid (bufs (unlink_buf b s) c) = bvalid (bufs s c)"
  "refcnt (bufs (unlink_buf b s) c) = refcnt (bufs s c)" "bdata (bufs (unlink_buf b s) c) = bdata (bufs s c)"
  by (simp_all add: link_front_def unlink_buf_def upd_buf_def Let_def)

lemma link_enter_cs [simp]:
  "link_front b (enter_cs lk s) = enter_cs lk (link_front b s)" "unlink_buf b (enter_cs lk s) = enter_cs lk (unlink_buf b s)"
  unfolding link_front_def unlink_buf_def Let_def upd_buf_def by (simp_all only: virtio_enter_cs fun_upd_apply)

lemma moved_bufs: "link_front b (unlink_buf b s) = s\<lparr>bufs := bufs (link_front b (unlink_buf b s))\<rparr>"
  by (simp add: link_front_def unlink_buf_def upd_buf_def Let_def)

text \<open>
  The effect of \<^verbatim>\<open>brelse\<close>, \<^verbatim>\<open>bpin\<close> and \<^verbatim>\<open>bunpin\<close>: locks and reference counts change, contents do not.
\<close>

lemma cache_inv_recount:
  assumes inv: "cache_inv dev p H P s"
    and t: "ready p t" "ptab t p = ptab s p" "disk t = disk s"
    and B: "\<And>c. bdev (bufs t c) = bdev (bufs s c) \<and> blockno (bufs t c) = blockno (bufs s c) \<and>
        bvalid (bufs t c) = bvalid (bufs s c) \<and> bdata (bufs t c) = bdata (bufs s c)"
    and xs: "\<exists>xs. dchain (bufs t) bhead xs bhead \<and> distinct xs \<and> set xs = {..<NBUF}"
    and H: "H' \<subseteq> H" "P' \<subseteq> H \<union> P" "\<And>b. b \<in> H \<union> P \<Longrightarrow> b \<notin> H' \<union> P' \<Longrightarrow> bdata (bufs s b) = disk s (unat (blockno (bufs s b)))"
    and cnt: "\<And>b. b < NBUF \<Longrightarrow> refcnt (bufs t b) = of_bool (b \<in> H') + of_bool (b \<in> P')"
    and lk: "\<And>b. b < NBUF \<Longrightarrow> slocked (sleeplocks t (SlBuf b)) \<longleftrightarrow> b \<in> H'"
      "\<And>b. b \<in> H' \<Longrightarrow> slpid (sleeplocks t (SlBuf b)) = slpid (sleeplocks s (SlBuf b))"
  shows "cache_inv dev p H' P' t \<and> cview dev t = cview dev s"
proof -
  note I = cache_invD [OF inv]
  have hb: "has_block dev x (bufs t c) = has_block dev x (bufs s c)" for x c using B by (simp add: has_block_def)
  have 5: "bdata (bufs t b) = disk t (unat (blockno (bufs t b)))" if "b < NBUF" "bdev (bufs t b) = dev" "b \<notin> H' \<union> P'" for b
    using I(5) [OF that(1)] H(3) [of b] that B t(3) by (cases "b \<in> H \<union> P") auto
  have 6: "b < NBUF \<and> bdev (bufs t b) = dev" if "b \<in> H' \<union> P'" for b using I(6) [of b] H(1,2) that B by auto
  have 9: "slpid (sleeplocks t (SlBuf b)) = pid (ptab t p)" if "b \<in> H'" for b using lk(2) [OF that] I(9) [of b] H(1) that t(2) by auto
  have "cache_inv dev p H' P' t"
    by (rule cache_invI [OF t(1) xs _ _ 5 6 cnt lk(1) 9]) (use I(3,4) hb B in simp_all)
  moreover have "cview dev t x = cview dev s x" for x
    using B t(3) by (simp add: cview_def hb split: option.split)
  ultimately show ?thesis by blast
qed

lemma brelse_ok:
  assumes inv: "cache_inv dev p H P s" and b: "b \<in> H"
    and clean: "b \<notin> P \<Longrightarrow> bdata (bufs s b) = disk s (unat (blockno (bufs s b)))"
  shows "\<exists>t. brelse b s = Ok () t \<and> kept dev p (H - {b}) P s t \<and> disk t = disk s"
proof -
  note I = cache_invD [OF inv] and r = readyD [OF cache_invD(1) [OF inv]]
  have bn: "b < NBUF" using I(6) b by blast
  define L where "L = (sleeplocks s)(SlBuf b := (sleeplocks s (SlBuf b))\<lparr>slocked := False, slpid := 0\<rparr>)"
  define T where "T = woken (Some (ChSleep (SlBuf b))) (Some p) {..<NPROC} (ptab s)"
  have T: "T p = ptab s p" by (simp add: T_def woken_def)
  define B1 where "B1 = (bufs s)(b := (bufs s b)\<lparr>refcnt := refcnt (bufs s b) - 1\<rparr>)"
  define u where "u = s\<lparr>sleeplocks := L, ptab := T, bufs := B1\<rparr>"
  define B2 where "B2 = (if refcnt (bufs s b) = 1 then bufs (link_front b (unlink_buf b u)) else B1)"
  define v where "v = u\<lparr>bufs := B2\<rparr>"
  let ?t = "settle v"
  have upd: "upd_buf b (\<lambda>q. q\<lparr>refcnt := refcnt q - 1\<rparr>) (s\<lparr>sleeplocks := L, ptab := T\<rparr>) = u"
    by (simp add: upd_buf_def u_def B1_def)
  have mv: "refcnt (bufs s b) = 1 \<Longrightarrow> link_front b (unlink_buf b u) = v" "refcnt (bufs s b) \<noteq> 1 \<Longrightarrow> v = u"
    using moved_bufs [of b u] by (simp_all add: B2_def u_def v_def)
  have ok: "mach_ok v" "lock_free lk v" for lk using r by (simp_all add: u_def v_def)
  have "release LkBcache (enter_cs LkBcache v) = Ok () ?t" using ok by simp
  then have run: "brelse b s = Ok () ?t"
    using r b I(8) [OF bn] I(9) [OF b] I(1) upd mv
    by (cases "refcnt (bufs s b) = 1")
      (simp_all add: brelse_def holdingsleep_eq [OF I(1)] releasesleep_eq L_def T_def Let_def)
  have B: "bdev (B2 c) = bdev (bufs s c) \<and> blockno (B2 c) = blockno (bufs s c) \<and> bvalid (B2 c) = bvalid (bufs s c) \<and>
      bdata (B2 c) = bdata (bufs s c)" "refcnt (B2 c) = refcnt (B1 c)" for c
    by (simp_all add: B2_def u_def B1_def)
  obtain xs where xs: "dchain (bufs s) bhead xs bhead" "distinct xs" "set xs = {..<NBUF}" using I(2) by blast
  have u': "dchain (bufs u) bhead xs bhead"
    using dchain_cong [of bhead xs "bufs u" "bufs s" bhead] xs(1) by (simp add: u_def B1_def)
  have xs': "\<exists>xs. dchain (bufs ?t) bhead xs bhead \<and> distinct xs \<and> set xs = {..<NBUF}"
  proof (cases "refcnt (bufs s b) = 1")
    case True
    obtain us vs where sp: "xs = us @ b # vs" using bn xs(3) by (metis lessThan_iff split_list)
    have "dchain (bufs (link_front b (unlink_buf b u))) bhead (b # us @ vs) bhead"
      using move_front [of u us b vs] u' xs sp by (auto simp: bhead_def)
    then show ?thesis using True xs(2,3) sp by (intro exI [of _ "b # us @ vs"]) (auto simp: B2_def v_def)
  qed (use u' xs in \<open>auto simp: B2_def u_def v_def\<close>)
  have cnt: "refcnt (bufs ?t c) = of_bool (c \<in> H - {b}) + of_bool (c \<in> P)" if "c < NBUF" for c
    using I(7) [OF that] b B(2) [of c] by (auto simp: B1_def v_def)
  have "cache_inv dev p (H - {b}) P ?t \<and> cview dev ?t = cview dev s"
    by (rule cache_inv_recount [OF inv _ _ _ _ xs' _ _ _ cnt])
      (use I(1) T B clean b I(8) in \<open>auto simp: u_def v_def L_def ready_def unlocked_def driver_idle_def\<close>)
  moreover have "bio_frame p s ?t"
    using T by (simp add: bio_frame_def u_def v_def drv_frame_def)
  ultimately show ?thesis using run B(1) by (intro exI [of _ ?t]) (simp add: kept_def u_def v_def)
qed

text \<open>Pinning a locked buffer, and taking the pin away.\<close>

lemma recounted:
  assumes inv: "cache_inv dev p H P s" and b: "b \<in> H" and P': "P' = insert b P \<or> P' = P - {b}"
    and n: "n = of_bool (b \<in> H) + of_bool (b \<in> P')"
  shows "kept dev p H P' s (settle (upd_buf b (refcnt_update (\<lambda>_. n)) s))"
proof -
  note I = cache_invD [OF inv]
  let ?t = "settle (upd_buf b (refcnt_update (\<lambda>_. n)) s)"
  obtain xs where xs: "dchain (bufs s) bhead xs bhead" "distinct xs" "set xs = {..<NBUF}" using I(2) by blast
  have "dchain (bufs ?t) bhead xs bhead = dchain (bufs s) bhead xs bhead" by (rule dchain_cong) auto
  then have xs': "\<exists>xs. dchain (bufs ?t) bhead xs bhead \<and> distinct xs \<and> set xs = {..<NBUF}" using xs by blast
  have cnt: "refcnt (bufs ?t c) = of_bool (c \<in> H) + of_bool (c \<in> P')" if "c < NBUF" for c
    using I(7) [OF that] n P' by auto
  have "cache_inv dev p H P' ?t \<and> cview dev ?t = cview dev s"
    by (rule cache_inv_recount [OF inv _ _ _ _ xs' _ _ _ cnt]) (use I(1,8) b P' in auto)
  moreover have "bio_frame p s ?t" by (rule bio_frameI) (simp_all add: drv_frame_def upd_buf_def)
  ultimately show ?thesis by (simp add: kept_def)
qed

lemma bunpin_ok:
  assumes inv: "cache_inv dev p H P s" and b: "b \<in> H" "b \<in> P"
  shows "\<exists>t. bunpin b s = Ok () t \<and> kept dev p H (P - {b}) s t \<and> disk t = disk s"
proof -
  note r = readyD [OF cache_invD(1) [OF inv]]
  have "refcnt (bufs s b) = 2" using cache_invD(6,7) [OF inv, of b] b by simp
  then have "bunpin b s = Ok () (settle (upd_buf b (refcnt_update (\<lambda>_. 1)) s))"
    using r by (simp add: bunpin_def upd_buf_def)
  then show ?thesis using recounted [OF inv b(1), of "P - {b}" 1] b by simp
qed

lemma bpin_ok:
  assumes inv: "cache_inv dev p H P s" and b: "b \<in> H" "b \<notin> P"
  shows "\<exists>t. bpin b s = Ok () t \<and> kept dev p H (insert b P) s t \<and> disk t = disk s"
proof -
  note r = readyD [OF cache_invD(1) [OF inv]]
  have "refcnt (bufs s b) = 1" using cache_invD(6,7) [OF inv, of b] b by simp
  then have "bpin b s = Ok () (settle (upd_buf b (refcnt_update (\<lambda>_. 2)) s))"
    using r by (simp add: bpin_def upd_buf_def)
  then show ?thesis using recounted [OF inv b(1), of "insert b P" 2] b by simp
qed

end
