(* ===== verification/Log_Facts.thy ===== *)
theory Log_Facts
  imports Bio_Facts
begin

text \<open>
  The write-ahead log on top of the buffer cache: what the routines of \<^verbatim>\<open>kernel/log.c\<close> do to the disk,
  step by step, so that every disk a crash can leave is known.
\<close>

section \<open>The log's own fields\<close>

lemma bio_frame_log:
  fixes s :: "'a log_scheme"
  assumes "bio_frame p s t"
  shows "lh_n t = lh_n s" "lh_block t = lh_block s" "log_start t = log_start s" "log_dev t = log_dev s"
    "log_size t = log_size s" "log_outstanding t = log_outstanding s" "log_committing t = log_committing s"
proof -
  note e = assms [unfolded bio_frame_def drv_frame_def, THEN conjunct2]
  show "lh_n t = lh_n s" "lh_block t = lh_block s" "log_start t = log_start s" "log_dev t = log_dev s"
    "log_size t = log_size s" "log_outstanding t = log_outstanding s" "log_committing t = log_committing s"
    using arg_cong [OF e, of lh_n] arg_cong [OF e, of lh_block] arg_cong [OF e, of log_start] arg_cong [OF e, of log_dev]
      arg_cong [OF e, of log_size] arg_cong [OF e, of log_outstanding] arg_cong [OF e, of log_committing]
    by simp_all
qed

text \<open>The fields of the log that only the transaction calls change.\<close>

definition log_ctl :: "'a log_scheme \<Rightarrow> int \<times> int \<times> bool" where
  "log_ctl s = (log_size s, log_outstanding s, log_committing s)"

lemma log_ctl_frame: "bio_frame p s t \<Longrightarrow> log_ctl t = log_ctl s"
  by (simp add: log_ctl_def bio_frame_log)

lemma log_ctl_upd [simp]: "log_ctl (s\<lparr>lh_n := n\<rparr>) = log_ctl s" "log_ctl (s\<lparr>lh_block := f\<rparr>) = log_ctl s"
  by (simp_all add: log_ctl_def)

lemma cache_inv_lh_n [simp]:
  fixes s :: "'a log_scheme"
  shows "cache_inv dev p H P (s\<lparr>lh_n := n\<rparr>) = cache_inv dev p H P s" "cview dev (s\<lparr>lh_n := n\<rparr>) = cview dev s"
  by (auto simp: cache_inv_def ready_def unlocked_def driver_idle_def cview_def fun_eq_iff split: option.split)

lemma cache_inv_lh_block [simp]:
  fixes s :: "'a log_scheme"
  shows "cache_inv dev p H P (s\<lparr>lh_block := f\<rparr>) = cache_inv dev p H P s" "cview dev (s\<lparr>lh_block := f\<rparr>) = cview dev s"
  by (auto simp: cache_inv_def ready_def unlocked_def driver_idle_def cview_def fun_eq_iff split: option.split)

section \<open>The header block\<close>

lemma length_put_at: "off + length new \<le> length bs \<Longrightarrow> length (put_at off new bs) = length bs"
  by (simp add: put_at_def)

lemma get_put_same:
  "off + 4 \<le> length bs \<Longrightarrow> get32 off (put32 off v bs) = v"
  by (simp add: get32_def put32_def put_at_def word_of_bytes_of_word)

lemma put_at_nth:
  "off + length new \<le> length bs \<Longrightarrow> i < length bs \<Longrightarrow>
   put_at off new bs ! i = (if off \<le> i \<and> i < off + length new then new ! (i - off) else bs ! i)"
  by (auto simp: put_at_def nth_append min_def)

lemma length_put32 [simp]: "off + 4 \<le> length bs \<Longrightarrow> length (put32 off v bs) = length bs"
  by (simp add: put32_def length_put_at)

lemma get_put_other:
  assumes "off + 4 \<le> length bs" "off + 4 \<le> off' \<or> off' + 4 \<le> off"
  shows "get32 off' (put32 off v bs) = get32 off' bs"
proof -
  have "take 4 (drop off' (put32 off v bs)) = take 4 (drop off' bs)"
    using assms by (intro nth_equalityI) (auto simp: put32_def put_at_nth length_put_at)
  then show ?thesis by (simp add: get32_def)
qed

lemma lh_put_fields:
  assumes "length bs = BSIZE" "k \<le> LOGSIZE"
  shows "length (lh_put (int k) blk bs) = BSIZE" "lh_get_n (lh_put (int k) blk bs) = int k"
    "i < k \<Longrightarrow> lh_get_block i (lh_put (int k) blk bs) = blk i"
proof -
  have k: "int k < 2 ^ 31" "4 + 4 * k \<le> BSIZE" using assms(2) by (simp_all add: LOGSIZE_def MAXOPBLOCKS_def BSIZE_def)
  define f where "f j = fold (\<lambda>i bs. put32 (4 + 4 * i) (blk i) bs) [0..<j] (put32 0 (word_of_int (int k)) bs)" for j
  have fS: "f (Suc j) = put32 (4 + 4 * j) (blk j) (f j)" for j by (simp add: f_def)
  have b0: "4 \<le> length bs" using assms(1) by (simp add: BSIZE_def)
  have f: "length (f j) = BSIZE \<and> get32 0 (f j) = word_of_int (int k) \<and> (\<forall>i<j. get32 (4 + 4 * i) (f j) = blk i)" if "j \<le> k" for j
    using that
  proof (induction j)
    case 0
    then show ?case using assms(1) get_put_same [of 0 bs] b0 by (simp add: f_def)
  next
    case (Suc j)
    then have IH: "length (f j) = BSIZE" "get32 0 (f j) = word_of_int (int k)" "\<And>i. i < j \<Longrightarrow> get32 (4 + 4 * i) (f j) = blk i" by auto
    have off: "4 + 4 * j + 4 \<le> length (f j)" using Suc.prems IH(1) k(2) by simp
    have "get32 (4 + 4 * i) (f (Suc j)) = blk i" if "i < Suc j" for i
      using that IH(3) get_put_same [OF off] get_put_other [OF off, of "4 + 4 * i"] by (cases "i = j") (auto simp: fS)
    moreover have "get32 0 (f (Suc j)) = word_of_int (int k)" using IH(2) get_put_other [OF off, of 0] by (simp add: fS)
    ultimately show ?case using IH(1) off by (simp add: fS)
  qed
  have lp: "lh_put (int k) blk bs = f k" by (simp add: lh_put_def f_def)
  note fk = f [of k, OF order_refl]
  show "length (lh_put (int k) blk bs) = BSIZE" using fk lp by simp
  show "lh_get_block i (lh_put (int k) blk bs) = blk i" if "i < k" using fk lp that by (simp add: lh_get_block_def)
  have "sint (word_of_int (int k) :: u32) = int k" using k(1)
    by (simp add: sint_uint unsigned_of_nat take_bit_nat_eq_self signed_take_bit_int_eq_self)
  then show "lh_get_n (lh_put (int k) blk bs) = int k" using fk lp by (simp add: lh_get_n_def)
qed

section \<open>Disks with a log\<close>

text \<open>The log of a file system occupies the blocks from \<open>st\<close> on: the header, then the logged blocks.\<close>

definition log_area :: "nat \<Rightarrow> nat set" where
  "log_area st = {st..<st + LOGSIZE}"

lemma LOGSIZE_pos [simp]: "0 < LOGSIZE"
  by (simp add: LOGSIZE_def MAXOPBLOCKS_def)

definition disk_n :: "nat \<Rightarrow> (nat \<Rightarrow> byte list) \<Rightarrow> nat" where
  "disk_n st D = nat (lh_get_n (D st))"

definition disk_blk :: "nat \<Rightarrow> (nat \<Rightarrow> byte list) \<Rightarrow> nat \<Rightarrow> u32" where
  "disk_blk st D i = lh_get_block i (D st)"

text \<open>The disk after the first \<open>k\<close> blocks of the log have been copied to their places.\<close>

primrec installed :: "nat \<Rightarrow> (nat \<Rightarrow> u32) \<Rightarrow> (nat \<Rightarrow> byte list) \<Rightarrow> nat \<Rightarrow> nat \<Rightarrow> byte list" where
  "installed st blk D 0 = D"
| "installed st blk D (Suc k) = (installed st blk D k)(unat (blk k) := D (Suc (st + k)))"

text \<open>What recovery makes of a disk, outside the log area.\<close>

definition recovered :: "nat \<Rightarrow> (nat \<Rightarrow> byte list) \<Rightarrow> nat \<Rightarrow> byte list" where
  "recovered st D = installed st (disk_blk st D) D (disk_n st D)"

definition same_data :: "nat \<Rightarrow> (nat \<Rightarrow> byte list) \<Rightarrow> (nat \<Rightarrow> byte list) \<Rightarrow> bool" where
  "same_data st D E \<longleftrightarrow> (\<forall>x. x \<notin> log_area st \<longrightarrow> D x = E x)"

definition targets_ok :: "nat \<Rightarrow> nat \<Rightarrow> (nat \<Rightarrow> u32) \<Rightarrow> bool" where
  "targets_ok st n blk \<longleftrightarrow> n < LOGSIZE \<and> st + LOGSIZE < 2 ^ 31 \<and>
     (\<forall>i<n. unat (blk i) \<notin> log_area st \<and> unat (blk i) < 2 ^ 31)"

lemma installed_log:
  "(\<And>i. i < k \<Longrightarrow> unat (blk i) \<notin> log_area st) \<Longrightarrow> x \<in> log_area st \<Longrightarrow> installed st blk D k x = D x"
  by (induction k) (auto simp: less_Suc_eq)

lemma installed_cong:
  "(\<And>i. i < k \<Longrightarrow> blk i = blk' i \<and> D (Suc (st + i)) = E (Suc (st + i))) \<Longrightarrow> (\<And>x. x \<in> A \<Longrightarrow> D x = E x) \<Longrightarrow>
   x \<in> A \<Longrightarrow> installed st blk D k x = installed st blk' E k x"
  by (induction k) auto

text \<open>Copying again what was partly copied gives the same disk: recovery may itself be interrupted.\<close>

lemma installed_again:
  assumes "\<And>i. i < n \<Longrightarrow> unat (blk i) \<notin> log_area st" "n < LOGSIZE" "k \<le> n"
  shows "installed st blk (installed st blk D k) n = installed st blk D n"
proof -
  let ?E = "installed st blk D k"
  have log: "?E (Suc (st + i)) = D (Suc (st + i))" if "i < n" for i
    using installed_log [of k blk st "Suc (st + i)" D] assms that by (auto simp: log_area_def)
  have j: "installed st blk ?E j x = (if \<exists>i<j. x = unat (blk i) then installed st blk D j x else ?E x)" if "j \<le> n" for j x
    using that by (induction j) (auto simp: less_Suc_eq log)
  have "installed st blk D n x = ?E x" if "\<not> (\<exists>i<n. x = unat (blk i))" for x
  proof -
    have "installed st blk D m x = D x" if "m \<le> n" for m using that \<open>\<not> _\<close> by (induction m) auto
    then show ?thesis using assms(3) by simp
  qed
  then show ?thesis using j [of n] by fastforce
qed

section \<open>Reading and writing the header\<close>

definition at_log :: "u32 \<Rightarrow> nat \<Rightarrow> 'a log_scheme \<Rightarrow> bool" where
  "at_log dev st s \<longleftrightarrow> log_dev s = dev \<and> log_start s = int st \<and> st + LOGSIZE < 2 ^ 31"

lemma at_log_frame: "bio_frame p s t \<Longrightarrow> at_log dev st t = at_log dev st s"
  by (simp add: at_log_def bio_frame_log)

lemma at_log_upd [simp]: "at_log dev st (s\<lparr>lh_n := n\<rparr>) = at_log dev st s" "at_log dev st (s\<lparr>lh_block := f\<rparr>) = at_log dev st s"
  by (simp_all add: at_log_def)

lemma unat_of_int_small: "m < 2 ^ 31 \<Longrightarrow> unat (word_of_int (int m) :: u32) = m"
  by (simp add: unsigned_of_nat take_bit_nat_eq_self)

lemma header_block: "at_log dev st s \<Longrightarrow> unat (word_of_int (log_start s) :: u32) = st"
  using unat_of_int_small [of st] by (simp add: at_log_def)

lemma unat_log_blockno: "at_log dev st s \<Longrightarrow> i < LOGSIZE \<Longrightarrow> unat (log_blockno i s) = Suc (st + i)"
  using unat_of_int_small [of "Suc (st + i)"] by (simp add: log_blockno_def at_log_def algebra_simps)

text \<open>The blocks that pinned buffers hold, and that there is a buffer left for a log block.\<close>

definition pins :: "nat set \<Rightarrow> u32 set \<Rightarrow> nat \<Rightarrow> 'a virtio_scheme \<Rightarrow> bool" where
  "pins P X st s \<longleftrightarrow> (\<lambda>c. blockno (bufs s c)) ` P = X \<and> P \<noteq> {..<NBUF} \<and> (\<forall>x\<in>X. unat x \<notin> log_area st)"

lemma image_blockno_cong: "(\<And>c. c \<in> P \<Longrightarrow> blockno (bufs t c) = blockno (bufs s c)) \<Longrightarrow> (\<lambda>c. blockno (bufs t c)) ` P = (\<lambda>c. blockno (bufs s c)) ` P"
  by (rule image_cong) auto

lemma pins_log: "pins P X st s \<Longrightarrow> unat x \<in> log_area st \<Longrightarrow> c \<in> P \<Longrightarrow> blockno (bufs s c) \<noteq> x"
  unfolding pins_def by blast

lemma cview_log:
  "cache_inv dev p {} P s \<Longrightarrow> pins P X st s \<Longrightarrow> unat x \<in> log_area st \<Longrightarrow> cview dev s x = disk s (unat x)"
  using cview_unused [of dev p "{}" P s x] pins_log [of P X st s x] by blast

lemma write_head_ok:
  assumes dev: "blk_device d" and inv: "cache_inv dev p {} P s" and st: "at_log dev st s" and P: "pins P X st s"
  defines "hdr \<equiv> lh_put (lh_n s) (lh_block s) (disk s st)"
  shows "chl (serve d p) disk (\<lambda>D. D \<in> {disk s, (disk s)(st := hdr)}) (write_head s)
    (\<lambda>_ t. cache_inv dev p {} P t \<and> bio_frame p s t \<and> pins P X st t \<and> disk t = (disk s)(st := hdr) \<and>
       (\<forall>x. unat x \<noteq> st \<longrightarrow> cview dev t x = cview dev s x))"
proof -
  let ?b = "word_of_int (log_start s) :: u32"
  let ?C = "\<lambda>D. D \<in> {disk s, (disk s)(st := hdr)}"
  have ub: "unat ?b = st" by (rule header_block [OF st])
  have la: "unat ?b \<in> log_area st" by (simp add: ub log_area_def)
  have small: "unat ?b < 2 ^ 31" using st ub by (simp add: at_log_def)
  have 1: "chl (serve d p) disk ?C (bread (log_dev s) ?b s) (bread_post dev ?b p {} P s)"
  proof -
    have "log_dev s = dev" using st by (simp add: at_log_def)
    then show ?thesis
      using bread_ok [OF dev inv, of ?b] small P by (auto simp: pins_def intro: chl_crash)
  qed
  have 2: "chl (serve d p) disk ?C (let s = upd_buf b (bdata_update (lh_put (lh_n t) (lh_block t))) t
       in and_then (bwrite b s) (\<lambda>_ s. brelse b s))
     (\<lambda>_ t. cache_inv dev p {} P t \<and> bio_frame p s t \<and> pins P X st t \<and> disk t = (disk s)(st := hdr) \<and>
       (\<forall>x. unat x \<noteq> st \<longrightarrow> cview dev t x = cview dev s x))"
    if t: "bread_post dev ?b p {} P s b t" for b t
  proof -
    note B = t [unfolded bread_post_def]
    have v: "bdata (bufs t b) = disk s st"
      using cview_held [of dev p "{b}" P t b ?b] cview_log [OF inv P la] B cache_invD(6) [of dev p "{b}" P t b] ub by auto
    have hdr: "lh_put (lh_n t) (lh_block t) (bdata (bufs t b)) = hdr" using v B by (simp add: hdr_def bio_frame_log [of p s t])
    have nP: "b \<notin> P" using B pins_log [OF P la] by blast
    have w: "chl (serve d p) disk ?C (bwrite b (upd_buf b (bdata_update (lh_put (lh_n t) (lh_block t))) t))
        (\<lambda>_. stored dev p {b} P b ?b hdr t)"
      using modify_bwrite_ok [OF dev, of dev p "{b}" P t b ?b "lh_put (lh_n t) (lh_block t)"] B hdr ub by auto
    have r: "chl (serve d p) disk ?C (brelse b u) (\<lambda>_ t. cache_inv dev p {} P t \<and> bio_frame p s t \<and> pins P X st t \<and>
        disk t = (disk s)(st := hdr) \<and> (\<forall>x. unat x \<noteq> st \<longrightarrow> cview dev t x = cview dev s x))"
      if u: "stored dev p {b} P b ?b hdr t u" for u
    proof -
      note S = u [unfolded stored_def]
      have "bdata (bufs u b) = disk u (unat (blockno (bufs u b)))" using S B by (simp add: has_block_def)
      then obtain w where w: "brelse b u = Ok () w" "kept dev p {} P u w" "disk w = disk u"
        using brelse_ok [of dev p "{b}" P u b] S by auto
      have "bio_frame p s w" using w(2) S B bio_frame_trans unfolding kept_def by blast
      moreover have "pins P X st w"
        using P image_blockno_cong [of P w s] w(2) S B unfolding pins_def kept_def by simp
      moreover have "cview dev w x = cview dev s x" if "unat x \<noteq> st" for x
        using that w(2) S B ub unfolding kept_def by auto
      ultimately show ?thesis using w S B ub by (simp add: kept_def)
    qed
    show ?thesis unfolding Let_def by (rule chl_and_then [OF w r])
  qed
  show ?thesis unfolding write_head_def by (rule chl_and_then [OF 1 2])
qed

lemma read_head_ok:
  assumes dev: "blk_device d" and inv: "cache_inv dev p {} P s" and st: "at_log dev st s" and P: "pins P X st s"
  shows "chl (serve d p) disk (\<lambda>D. D = disk s) (read_head s)
    (\<lambda>_ t. cache_inv dev p {} P t \<and> at_log dev st t \<and> log_ctl t = log_ctl s \<and> pins P X st t \<and> disk t = disk s \<and> cview dev t = cview dev s \<and>
       lh_n t = lh_get_n (disk s st) \<and> (\<forall>i<nat (lh_n t). lh_block t i = lh_get_block i (disk s st)))"
proof -
  let ?b = "word_of_int (log_start s) :: u32"
  have ub: "unat ?b = st" by (rule header_block [OF st])
  have la: "unat ?b \<in> log_area st" by (simp add: ub log_area_def)
  have 1: "chl (serve d p) disk (\<lambda>D. D = disk s) (bread (log_dev s) ?b s) (bread_post dev ?b p {} P s)"
    using bread_ok [OF dev inv, of ?b] st ub P by (auto simp: pins_def at_log_def)
  show ?thesis
    unfolding read_head_def
  proof (rule chl_and_then [OF 1])
    fix b t
    assume "bread_post dev ?b p {} P s b t"
    note B = this [unfolded bread_post_def]
    have v: "bdata (bufs t b) = disk s st"
      using cview_held [of dev p "{b}" P t b ?b] cview_log [OF inv P la] B cache_invD(6) [of dev p "{b}" P t b] ub by auto
    define u where "u = (let n = lh_get_n (disk s st); t = t\<lparr>lh_n := n\<rparr>
      in t\<lparr>lh_block := (\<lambda>i. if i < nat n then lh_get_block i (disk s st) else lh_block t i)\<rparr>)"
    have cu: "cache_inv dev p {b} P u" using B by (simp add: u_def Let_def)
    have fu: "bufs u = bufs t" "disk u = disk t" "cview dev u = cview dev t" "lh_n u = lh_get_n (disk s st)"
      "\<forall>i<nat (lh_n u). lh_block u i = lh_get_block i (disk s st)" "log_dev u = log_dev t" "log_start u = log_start t"
      by (simp_all add: u_def Let_def)
    have "bdata (bufs u b) = disk u (unat (blockno (bufs u b)))" using fu v B ub by (simp add: has_block_def)
    then obtain w where w: "brelse b u = Ok () w" "kept dev p {} P u w" "disk w = disk u"
      using brelse_ok [OF cu, of b] by auto
    note K = w(2) [unfolded kept_def]
    have "at_log dev st w"
      using st bio_frame_log [of p s t] bio_frame_log [of p u w] B K fu by (simp add: at_log_def)
    moreover have "pins P X st w"
      using P image_blockno_cong [of P w s] K B fu unfolding pins_def by simp
    moreover have "log_ctl w = log_ctl s"
      using log_ctl_frame [of p s t] log_ctl_frame [of p u w] B K by (simp add: u_def Let_def)
    ultimately have "cache_inv dev p {} P w \<and> at_log dev st w \<and> log_ctl w = log_ctl s \<and> pins P X st w \<and> disk w = disk s \<and> cview dev w = cview dev s \<and>
       lh_n w = lh_get_n (disk s st) \<and> (\<forall>i<nat (lh_n w). lh_block w i = lh_get_block i (disk s st))"
      using K B w(3) fu bio_frame_log [of p u w] by simp
    then show "chl (serve d p) disk (\<lambda>D. D = disk s) (let bs = bdata (bufs t b); n = lh_get_n bs; s = t\<lparr>lh_n := n\<rparr>;
           s = s\<lparr>lh_block := (\<lambda>i. if i < nat n then lh_get_block i bs else lh_block s i)\<rparr>
       in brelse b s) (\<lambda>_ t. cache_inv dev p {} P t \<and> at_log dev st t \<and> log_ctl t = log_ctl s \<and> pins P X st t \<and> disk t = disk s \<and> cview dev t = cview dev s \<and>
       lh_n t = lh_get_n (disk s st) \<and> (\<forall>i<nat (lh_n t). lh_block t i = lh_get_block i (disk s st)))"
      using w(1) v by (simp add: u_def Let_def)
  qed
qed

section \<open>Copying between the log and the blocks\<close>

definition both_read :: "u32 \<Rightarrow> u32 \<Rightarrow> nat \<Rightarrow> nat set \<Rightarrow> u32 set \<Rightarrow> nat \<Rightarrow> u32 \<Rightarrow> 'a log_scheme \<Rightarrow> nat \<Rightarrow> nat \<Rightarrow> 'a log_scheme \<Rightarrow> bool" where
  "both_read dev a p P X st y s b c u \<longleftrightarrow> b \<noteq> c \<and> cache_inv dev p {b, c} P u \<and> bio_frame p s u \<and> disk u = disk s \<and>
     cview dev u = cview dev s \<and> has_block dev a (bufs u b) \<and> has_block dev y (bufs u c) \<and> b \<notin> P \<and> (c \<in> P \<longleftrightarrow> y \<in> X) \<and> pins P X st u"

lemma read_both:
  assumes dev: "blk_device d" and inv: "cache_inv dev p {} P s" and st: "at_log dev st s" and P: "pins P X st s"
    and i: "Suc i < LOGSIZE" and y: "unat (lh_block s i) < 2 ^ 31" "unat (lh_block s i) \<notin> log_area st" "lh_block s i \<in> X \<or> P = {}"
    and C: "C (disk s)"
    and f: "\<And>b c u. both_read dev (log_blockno i s) p P X st (lh_block s i) s b c u \<Longrightarrow> chl (serve d p) disk C (f b c u) R"
  shows "chl (serve d p) disk C (and_then (bread (log_dev s) (log_blockno i s) s) (\<lambda>b s.
     and_then (bread (log_dev s) (lh_block s i) s) (\<lambda>c s. f b c s))) R"
proof -
  let ?a = "log_blockno i s" and ?y = "lh_block s i"
  have ua: "unat ?a = Suc (st + i)" by (rule unat_log_blockno [OF st Suc_lessD [OF i]])
  have la: "unat ?a \<in> log_area st" using i by (simp add: ua log_area_def)
  have ld: "log_dev s = dev" using st by (simp add: at_log_def)
  have 1: "chl (serve d p) disk C (bread (log_dev s) ?a s) (bread_post dev ?a p {} P s)"
    using bread_ok [OF dev inv, of ?a] st ua i P C ld by (auto simp: pins_def at_log_def intro: chl_crash)
  show ?thesis
  proof (rule chl_and_then [OF 1])
    fix b t
    assume "bread_post dev ?a p {} P s b t"
    note B = this [unfolded bread_post_def]
    have nP: "b \<notin> P" using B pins_log [OF P la] by blast
    have t: "log_dev t = dev" "lh_block t i = ?y" using B ld by (simp_all add: bio_frame_log [of p s t])
    have Pt: "pins P X st t" using P image_blockno_cong [of P t s] B unfolding pins_def by simp
    have "blockno (bufs t c) \<noteq> ?y" if "c \<in> {b}" for c using that B la y(2) by (auto simp: has_block_def)
    moreover have "{b} \<union> P \<noteq> {..<NBUF} \<or> (\<exists>c\<in>P. blockno (bufs t c) = ?y)"
    proof (cases "P = {}")
      case True
      have "card {b} \<noteq> card {..<NBUF}" unfolding card_lessThan by (simp add: NBUF_def)
      then have "{b} \<noteq> {..<NBUF}" by metis
      then show ?thesis using True by simp
    next
      case False
      then have "?y \<in> (\<lambda>c. blockno (bufs t c)) ` P" using y(3) Pt by (simp add: pins_def)
      then show ?thesis by force
    qed
    ultimately have 2: "chl (serve d p) disk C (bread (log_dev t) (lh_block t i) t) (bread_post dev ?y p {b} P t)"
      using bread_ok [OF dev, of dev p "{b}" P t ?y] B y(1) C t by (auto intro: chl_crash)
    show "chl (serve d p) disk C (and_then (bread (log_dev t) (lh_block t i) t) (\<lambda>c s. f b c s)) R"
    proof (rule chl_and_then [OF 2])
      fix c u
      assume "bread_post dev ?y p {b} P t c u"
      note D = this [unfolded bread_post_def]
      have e: "{b, c} = insert c {b}" by blast
      have "pins P X st u" using Pt image_blockno_cong [of P u t] D unfolding pins_def by simp
      moreover have "has_block dev ?a (bufs u b)" using B D cache_invD(6) [of dev p "{b, c}" P u b]
        by (auto simp: has_block_def insert_commute)
      moreover have "X = (\<lambda>c. blockno (bufs t c)) ` P" using Pt by (simp add: pins_def)
      then have "(\<exists>c\<in>P. blockno (bufs t c) = ?y) \<longleftrightarrow> ?y \<in> X" by (simp add: image_iff eq_commute)
      then have "c \<in> P \<longleftrightarrow> ?y \<in> X" using D by blast
      ultimately have "both_read dev ?a p P X st ?y s b c u"
        using B D nP bio_frame_trans [of p s t u] unfolding both_read_def e by simp
      then show "chl (serve d p) disk C (f b c u) R" by (rule f)
    qed
  qed
qed

text \<open>
  One step of \<^verbatim>\<open>write_log\<close>: the content of a block, as the cache has it, goes to its place in the log.
\<close>

definition log_step :: "u32 \<Rightarrow> nat \<Rightarrow> nat set \<Rightarrow> u32 set \<Rightarrow> nat \<Rightarrow> nat \<Rightarrow> byte list \<Rightarrow> 'a log_scheme \<Rightarrow> 'a log_scheme \<Rightarrow> bool" where
  "log_step dev p P X st m x s t \<longleftrightarrow> cache_inv dev p {} P t \<and> bio_frame p s t \<and> pins P X st t \<and>
     disk t = (disk s)(m := x) \<and> (\<forall>z. unat z \<noteq> m \<longrightarrow> cview dev t z = cview dev s z)"

lemma write_log_step:
  assumes dev: "blk_device d" and inv: "cache_inv dev p {} P s" and st: "at_log dev st s" and P: "pins P X st s"
    and i: "Suc i < LOGSIZE" and y: "unat (lh_block s i) < 2 ^ 31" "unat (lh_block s i) \<notin> log_area st" "lh_block s i \<in> X"
  defines "x \<equiv> cview dev s (lh_block s i)"
  shows "chl (serve d p) disk (\<lambda>D. D \<in> {disk s, (disk s)(Suc (st + i) := x)})
    (and_then (bread (log_dev s) (log_blockno i s) s) (\<lambda>to s.
       and_then (bread (log_dev s) (lh_block s i) s) (\<lambda>from s.
       let s = upd_buf to (bdata_update (\<lambda>_. bdata (bufs s from))) s
       in and_then (bwrite to s) (\<lambda>_ s.
          and_then (brelse from s) (\<lambda>_ s. brelse to s)))))
    (\<lambda>_. log_step dev p P X st (Suc (st + i)) x s)"
proof (rule read_both [OF dev inv st P i y(1,2)])
  let ?a = "log_blockno i s"
  have ua: "unat ?a = Suc (st + i)" by (rule unat_log_blockno [OF st Suc_lessD [OF i]])
  show "lh_block s i \<in> X \<or> P = {}" using y(3) by blast
  show "disk s \<in> {disk s, (disk s)(Suc (st + i) := x)}" by simp
  fix b c u
  assume "both_read dev ?a p P X st (lh_block s i) s b c u"
  note R = this [unfolded both_read_def]
  have cP: "c \<in> P" using R y(3) by blast
  have bn: "c < NBUF" using cache_invD(6) [of dev p "{b, c}" P u c] R by blast
  have v: "bdata (bufs u c) = x" using cview_held [of dev p "{b, c}" P u c "lh_block s i"] R bn by (simp add: x_def)
  have w: "chl (serve d p) disk (\<lambda>D. D \<in> {disk s, (disk s)(Suc (st + i) := x)})
      (bwrite b (upd_buf b (bdata_update (\<lambda>_. bdata (bufs u c))) u)) (\<lambda>_. stored dev p {b, c} P b ?a x u)"
    using modify_bwrite_ok [OF dev, of dev p "{b, c}" P u b ?a "\<lambda>_. bdata (bufs u c)"] R v ua by simp
  have "chl (serve d p) disk (\<lambda>D. D \<in> {disk s, (disk s)(Suc (st + i) := x)}) (and_then (brelse c t) (\<lambda>_ s. brelse b s))
      (\<lambda>_. log_step dev p P X st (Suc (st + i)) x s)" if "stored dev p {b, c} P b ?a x u t" for t
  proof -
    note S = that [unfolded stored_def]
    obtain t1 where 1: "brelse c t = Ok () t1" "kept dev p ({b, c} - {c}) P t t1" "disk t1 = disk t"
      using brelse_ok [of dev p "{b, c}" P t c] S cP by auto
    note K1 = 1(2) [unfolded kept_def]
    have e: "{b, c} - {c} = {b}" using R by auto
    have "bdata (bufs t1 b) = disk t1 (unat (blockno (bufs t1 b)))" using K1 S R 1(3) by (simp add: has_block_def)
    then obtain t2 where 2: "brelse b t1 = Ok () t2" "kept dev p {} P t1 t2" "disk t2 = disk t1"
      using brelse_ok [of dev p "{b}" P t1 b] K1 e by auto
    note K2 = 2(2) [unfolded kept_def]
    have "bio_frame p s u" "bio_frame p u t" "bio_frame p t t1" "bio_frame p t1 t2" using R S K1 K2 by blast+
    then have "bio_frame p s t2" by (metis bio_frame_trans)
    moreover have "pins P X st t2" using P image_blockno_cong [of P t2 u] K2 K1 S R unfolding pins_def by simp
    moreover have "disk t2 = (disk s)(Suc (st + i) := x)" using 1(3) 2(3) S R ua by simp
    moreover have "cview dev t2 z = cview dev s z" if "unat z \<noteq> Suc (st + i)" for z
    proof -
      have "cview dev t2 = (cview dev s)(?a := x)" using K1 K2 S R by simp
      then show ?thesis using that ua by auto
    qed
    ultimately show ?thesis using 1(1) 2(1) K2 by (simp add: log_step_def)
  qed
  then show "chl (serve d p) disk (\<lambda>D. D \<in> {disk s, (disk s)(Suc (st + i) := x)})
      (let s = upd_buf b (bdata_update (\<lambda>_. bdata (bufs u c))) u
       in and_then (bwrite b s) (\<lambda>_ s. and_then (brelse c s) (\<lambda>_ s. brelse b s)))
      (\<lambda>_. log_step dev p P X st (Suc (st + i)) x s)"
    unfolding Let_def by (rule chl_and_then [OF w])
qed

text \<open>
  One step of \<^verbatim>\<open>install_trans\<close>: a block of the log goes to its place, and its buffer is no longer pinned.
\<close>

definition install_post :: "u32 \<Rightarrow> nat \<Rightarrow> u32 set \<Rightarrow> nat \<Rightarrow> u32 \<Rightarrow> byte list \<Rightarrow> 'a log_scheme \<Rightarrow> 'a log_scheme \<Rightarrow> bool" where
  "install_post dev p X st y x s t \<longleftrightarrow> (\<exists>P. cache_inv dev p {} P t \<and> pins P X st t) \<and> bio_frame p s t \<and>
     disk t = (disk s)(unat y := x) \<and> cview dev t = (cview dev s)(y := x)"

lemma inj_on_blocks:
  assumes inv: "cache_inv dev p H P s"
  shows "inj_on (\<lambda>c. blockno (bufs s c)) P"
proof (rule inj_onI)
  fix a b
  assume ab: "a \<in> P" "b \<in> P" "blockno (bufs s a) = blockno (bufs s b)"
  then have "a < NBUF" "b < NBUF" "bdev (bufs s a) = dev" "bdev (bufs s b) = dev" using cache_invD(6) [OF inv] by auto
  then show "a = b" using cache_invD(3) [OF inv, of a b "blockno (bufs s b)"] ab(3) by (simp add: has_block_def)
qed

lemma unpin_image:
  assumes inv: "cache_inv dev p H P s" and c: "c \<in> P" "blockno (bufs s c) = y"
  shows "(\<lambda>c. blockno (bufs s c)) ` (P - {c}) = (\<lambda>c. blockno (bufs s c)) ` P - {y}"
  using inj_on_blocks [OF inv] c inj_on_image_set_diff [of "\<lambda>c. blockno (bufs s c)" P P "{c}"] by auto

lemma install_step:
  assumes dev: "blk_device d" and inv: "cache_inv dev p {} P s" and st: "at_log dev st s" and P: "pins P X st s"
    and i: "Suc i < LOGSIZE" and y: "unat (lh_block s i) < 2 ^ 31" "unat (lh_block s i) \<notin> log_area st"
    and rec: "if r then P = {} else lh_block s i \<in> X"
  defines "x \<equiv> disk s (Suc (st + i))"
  shows "chl (serve d p) disk (\<lambda>D. D \<in> {disk s, (disk s)(unat (lh_block s i) := x)})
    (and_then (bread (log_dev s) (log_blockno i s) s) (\<lambda>lbuf s.
       and_then (bread (log_dev s) (lh_block s i) s) (\<lambda>dbuf s.
       let s = upd_buf dbuf (bdata_update (\<lambda>_. bdata (bufs s lbuf))) s
       in and_then (bwrite dbuf s) (\<lambda>_ s.
          and_then (if r then Ok () s else bunpin dbuf s) (\<lambda>_ s.
          and_then (brelse lbuf s) (\<lambda>_ s. brelse dbuf s))))))
    (\<lambda>_. install_post dev p (X - {lh_block s i}) st (lh_block s i) x s)"
proof (rule read_both [OF dev inv st P i y])
  let ?a = "log_blockno i s" and ?y = "lh_block s i"
  let ?C = "\<lambda>D. D \<in> {disk s, (disk s)(unat ?y := x)}"
  have ua: "unat ?a = Suc (st + i)" by (rule unat_log_blockno [OF st Suc_lessD [OF i]])
  have la: "unat ?a \<in> log_area st" using i by (simp add: ua log_area_def)
  show "?y \<in> X \<or> P = {}" using rec by (auto split: if_splits)
  show "?C (disk s)" by simp
  fix b c u
  assume "both_read dev ?a p P X st ?y s b c u"
  note R = this [unfolded both_read_def]
  have bn: "b < NBUF" and cn: "c < NBUF" using cache_invD(6) [of dev p "{b, c}" P u] R by blast+
  have v: "bdata (bufs u b) = x"
    using cview_held [of dev p "{b, c}" P u b ?a] cview_log [OF inv P la] R bn ua by (simp add: x_def)
  have w: "chl (serve d p) disk ?C (bwrite c (upd_buf c (bdata_update (\<lambda>_. bdata (bufs u b))) u)) (\<lambda>_. stored dev p {b, c} P c ?y x u)"
    using modify_bwrite_ok [OF dev, of dev p "{b, c}" P u c ?y "\<lambda>_. bdata (bufs u b)"] R v by simp
  have fin: "chl (serve d p) disk ?C (and_then (if r then Ok () t else bunpin c t) (\<lambda>_ s. and_then (brelse b s) (\<lambda>_ s. brelse c s)))
      (\<lambda>_. install_post dev p (X - {?y}) st ?y x s)" if "stored dev p {b, c} P c ?y x u t" for t
  proof -
    note S = that [unfolded stored_def]
    define P' where "P' = (if r then {} else P - {c})"
    have "\<exists>t0. (if r then Ok () t else bunpin c t) = Ok () t0 \<and> kept dev p {b, c} P' t t0 \<and> disk t0 = disk t"
    proof (cases r)
      case True
      then show ?thesis using rec S by (auto simp: P'_def kept_def)
    next
      case False
      then show ?thesis using bunpin_ok [of dev p "{b, c}" P t c] S R rec by (auto simp: P'_def)
    qed
    then obtain t0 where 0: "(if r then Ok () t else bunpin c t) = Ok () t0" "kept dev p {b, c} P' t t0" "disk t0 = disk t" by blast
    note K0 = 0(2) [unfolded kept_def]
    have P': "P' \<subseteq> P" "b \<notin> P'" "c \<notin> P'" using R by (auto simp: P'_def)
    have ne: "unat ?a \<noteq> unat ?y" using la y(2) by metis
    have "bdata (bufs t0 b) = disk t0 (unat (blockno (bufs t0 b)))"
      using K0 S R 0(3) v ne ua by (auto simp: has_block_def x_def)
    then obtain t1 where 1: "brelse b t0 = Ok () t1" "kept dev p ({b, c} - {b}) P' t0 t1" "disk t1 = disk t0"
      using brelse_ok [of dev p "{b, c}" P' t0 b] K0 by auto
    note K1 = 1(2) [unfolded kept_def]
    have e: "{b, c} - {b} = {c}" using R by auto
    have "bdata (bufs t1 c) = disk t1 (unat (blockno (bufs t1 c)))" using K1 K0 S R 1(3) 0(3) by (simp add: has_block_def)
    then obtain t2 where 2: "brelse c t1 = Ok () t2" "kept dev p {} P' t1 t2" "disk t2 = disk t1"
      using brelse_ok [of dev p "{c}" P' t1 c] K1 e by auto
    note K2 = 2(2) [unfolded kept_def]
    have "bio_frame p s u" "bio_frame p u t" "bio_frame p t t0" "bio_frame p t0 t1" "bio_frame p t1 t2" using R S K0 K1 K2 by blast+
    then have "bio_frame p s t2" by (metis bio_frame_trans)
    moreover have "pins P' (X - {?y}) st t2"
    proof (cases r)
      case True
      have "0 \<in> {..<NBUF}" by (simp add: NBUF_def)
      then have "{} \<noteq> {..<NBUF}" by blast
      then show ?thesis using True rec R by (simp add: pins_def P'_def)
    next
      case False
      have "(\<lambda>c. blockno (bufs t2 c)) ` P' = (\<lambda>c. blockno (bufs u c)) ` (P - {c})"
        using K0 K1 K2 S False by (simp add: P'_def)
      also have "\<dots> = X - {?y}" using unpin_image [of dev p "{b, c}" P u c ?y] R rec False by (simp add: has_block_def pins_def)
      finally show ?thesis using R rec False cn by (auto simp: pins_def P'_def)
    qed
    moreover have "disk t2 = (disk s)(unat ?y := x)" using 0(3) 1(3) 2(3) S R by simp
    moreover have "cview dev t2 = (cview dev s)(?y := x)" using K0 K1 K2 S R by simp
    ultimately have "install_post dev p (X - {?y}) st ?y x s t2" using K2 unfolding install_post_def by blast
    then show ?thesis using 0(1) 1(1) 2(1) by simp
  qed
  show "chl (serve d p) disk ?C (let s = upd_buf c (bdata_update (\<lambda>_. bdata (bufs u b))) u
       in and_then (bwrite c s) (\<lambda>_ s. and_then (if r then Ok () s else bunpin c s) (\<lambda>_ s. and_then (brelse b s) (\<lambda>_ s. brelse c s))))
      (\<lambda>_. install_post dev p (X - {?y}) st ?y x s)"
    unfolding Let_def by (rule chl_and_then [OF w fin])
qed

section \<open>The loops\<close>

definition logged :: "nat \<Rightarrow> (u32 \<Rightarrow> byte list) \<Rightarrow> (nat \<Rightarrow> u32) \<Rightarrow> (nat \<Rightarrow> byte list) \<Rightarrow> nat \<Rightarrow> nat \<Rightarrow> byte list" where
  "logged st v blk D k = (\<lambda>x. if st < x \<and> x \<le> st + k then v (blk (x - Suc st)) else D x)"

lemma logged_0 [simp]: "logged st v blk D 0 = D"
  by (auto simp: logged_def fun_eq_iff)

lemma logged_Suc: "(logged st v blk D k)(Suc (st + k) := v (blk k)) = logged st v blk D (Suc k)"
  by (auto simp: logged_def fun_eq_iff)

lemma write_log_ok:
  assumes dev: "blk_device d" and inv: "cache_inv dev p {} P s" and st: "at_log dev st s" and P: "pins P X st s"
    and tg: "targets_ok st (nat (lh_n s)) (lh_block s)" and X: "X = lh_block s ` {..<nat (lh_n s)}"
  defines "D \<equiv> logged st (cview dev s) (lh_block s) (disk s)"
  shows "chl (serve d p) disk (\<lambda>E. \<exists>k\<le>nat (lh_n s). E = D k) (write_log s)
    (\<lambda>_ t. cache_inv dev p {} P t \<and> bio_frame p s t \<and> pins P X st t \<and> disk t = D (nat (lh_n s)) \<and>
       (\<forall>z. unat z \<notin> log_area st \<longrightarrow> cview dev t z = cview dev s z))"
proof -
  define I where "I k t \<longleftrightarrow> cache_inv dev p {} P t \<and> bio_frame p s t \<and> pins P X st t \<and> disk t = D k \<and>
       (\<forall>z. unat z \<notin> log_area st \<longrightarrow> cview dev t z = cview dev s z)" for k t
  let ?C = "\<lambda>E. \<exists>k\<le>nat (lh_n s). E = D k"
  have "chl (serve d p) disk ?C (write_log s) (\<lambda>_. I (length [0..<nat (lh_n s)]))"
    unfolding write_log_def
  proof (rule chl_for_each)
    show "I 0 s" using inv P by (simp add: I_def D_def)
    fix k t
    assume k: "k < length [0..<nat (lh_n s)]" and t: "I k t"
    note T = t [unfolded I_def]
    have f: "lh_block t = lh_block s" "at_log dev st t" using T st bio_frame_log [of p s t] at_log_frame [of p s t] by auto
    have kk: "[0..<nat (lh_n s)] ! k = k" "Suc k < LOGSIZE" "unat (lh_block t k) < 2 ^ 31" "unat (lh_block t k) \<notin> log_area st" "lh_block t k \<in> X"
      using k tg X by (auto simp: targets_ok_def f)
    have x: "cview dev t (lh_block t k) = cview dev s (lh_block s k)" using T kk(4) f by auto
    have D: "(disk t)(Suc (st + k) := cview dev s (lh_block s k)) = D (Suc k)"
      using T logged_Suc [of st "cview dev s" "lh_block s" "disk s" k] by (simp add: D_def)
    have "Suc (st + k) \<in> log_area st" using kk(2) by (simp add: log_area_def)
    then have post: "log_step dev p P X st (Suc (st + k)) (cview dev s (lh_block s k)) t u \<Longrightarrow> I (Suc k) u" for u
      using T D bio_frame_trans [of p s t u] unfolding log_step_def I_def by metis
    note w = write_log_step [OF dev _ f(2) _ kk(2-5), of p P, unfolded x D]
    show "chl (serve d p) disk ?C
       (and_then (bread (log_dev t) (log_blockno ([0..<nat (lh_n s)] ! k) t) t) (\<lambda>to s'.
       and_then (bread (log_dev s') (lh_block s' ([0..<nat (lh_n s)] ! k)) s') (\<lambda>from s.
       let s = upd_buf to (bdata_update (\<lambda>_. bdata (bufs s from))) s
       in and_then (bwrite to s) (\<lambda>_ s.
          and_then (brelse from s) (\<lambda>_ s. brelse to s))))) (\<lambda>_. I (Suc k))"
      unfolding kk(1)
    proof (rule chl_crash [OF chl_post [OF w]])
      show "cache_inv dev p {} P t" "pins P X st t" using T by blast+
      show "?C E" if "E \<in> {disk t, D (Suc k)}" for E using that T k by (auto intro: exI [of _ k] exI [of _ "Suc k"])
    qed (rule post)
  qed
  then show ?thesis by (rule chl_post) (simp add: I_def)
qed

definition todo :: "bool \<Rightarrow> (nat \<Rightarrow> u32) \<Rightarrow> nat \<Rightarrow> nat \<Rightarrow> u32 set" where
  "todo r blk k n = (if r then {} else blk ` {k..<n})"

lemma todo_step:
  "r \<or> inj_on blk {..<n} \<Longrightarrow> k < n \<Longrightarrow> todo r blk k n - {blk k} = todo r blk (Suc k) n"
proof (cases r)
  case False
  moreover assume "r \<or> inj_on blk {..<n}" "k < n"
  moreover have "{k..<n} = insert k {Suc k..<n}" using \<open>k < n\<close> by auto
  moreover have "blk k \<notin> blk ` {Suc k..<n}"
  proof
    assume "blk k \<in> blk ` {Suc k..<n}"
    then obtain j where "blk j = blk k" "k < j" "j < n" by auto
    then show False using calculation inj_onD [of blk "{..<n}" j k] by simp
  qed
  ultimately show ?thesis by (simp add: todo_def)
qed (simp add: todo_def)

lemma todo_done: "todo r blk n n = {}"
  by (simp add: todo_def)

lemma install_trans_ok:
  assumes dev: "blk_device d" and inv: "cache_inv dev p {} P s" and st: "at_log dev st s"
    and tg: "targets_ok st (nat (lh_n s)) (lh_block s)" and inj: "r \<or> inj_on (lh_block s) {..<nat (lh_n s)}"
    and P: "pins P (todo r (lh_block s) 0 (nat (lh_n s))) st s"
  defines "D \<equiv> installed st (lh_block s) (disk s)"
  shows "chl (serve d p) disk (\<lambda>E. \<exists>k\<le>nat (lh_n s). E = D k) (install_trans r s)
    (\<lambda>_ t. cache_inv dev p {} {} t \<and> bio_frame p s t \<and> pins {} {} st t \<and> disk t = D (nat (lh_n s)))"
proof -
  let ?n = "nat (lh_n s)" and ?blk = "lh_block s"
  define I where "I k t \<longleftrightarrow> (\<exists>P. cache_inv dev p {} P t \<and> pins P (todo r ?blk k ?n) st t) \<and> bio_frame p s t \<and> disk t = D k" for k t
  let ?C = "\<lambda>E. \<exists>k\<le>?n. E = D k"
  have log: "D k x = disk s x" if "k \<le> ?n" "x \<in> log_area st" for k x
    unfolding D_def by (rule installed_log) (use that tg in \<open>auto simp: targets_ok_def\<close>)
  have "chl (serve d p) disk ?C (install_trans r s) (\<lambda>_. I (length [0..<?n]))"
    unfolding install_trans_def
  proof (rule chl_for_each)
    show "I 0 s" using inv P unfolding I_def D_def by auto
    fix k t
    assume k: "k < length [0..<?n]" and t: "I k t"
    note T = t [unfolded I_def]
    obtain Q where Q: "cache_inv dev p {} Q t" "pins Q (todo r ?blk k ?n) st t" using T by blast
    have f: "lh_block t = ?blk" "at_log dev st t" using T st bio_frame_log [of p s t] at_log_frame [of p s t] by auto
    have kk: "[0..<?n] ! k = k" "Suc k < LOGSIZE" "unat (lh_block t k) < 2 ^ 31" "unat (lh_block t k) \<notin> log_area st" "k < ?n"
      using k tg by (auto simp: targets_ok_def f)
    have rq: "if r then Q = {} else lh_block t k \<in> todo r ?blk k ?n" using Q(2) kk(5) by (auto simp: pins_def todo_def f)
    have x: "disk t (Suc (st + k)) = disk s (Suc (st + k))" using T log [of k "Suc (st + k)"] kk(2,5) by (simp add: log_area_def)
    have D: "(disk t)(unat (?blk k) := disk s (Suc (st + k))) = D (Suc k)" using T by (simp add: D_def)
    have post: "install_post dev p (todo r ?blk (Suc k) ?n) st (?blk k) (disk s (Suc (st + k))) t u \<Longrightarrow> I (Suc k) u" for u
      using T D bio_frame_trans [of p s t u] unfolding install_post_def I_def by metis
    note w = install_step [OF dev Q(1) f(2) Q(2) kk(2-4) rq, unfolded x f D todo_step [OF inj kk(5)]]
    show "chl (serve d p) disk ?C (and_then (bread (log_dev t) (log_blockno ([0..<?n] ! k) t) t) (\<lambda>lbuf s'.
       and_then (bread (log_dev s') (lh_block s' ([0..<?n] ! k)) s') (\<lambda>dbuf s.
       let s = upd_buf dbuf (bdata_update (\<lambda>_. bdata (bufs s lbuf))) s
       in and_then (bwrite dbuf s) (\<lambda>_ s.
          and_then (if r then Ok () s else bunpin dbuf s) (\<lambda>_ s.
          and_then (brelse lbuf s) (\<lambda>_ s. brelse dbuf s)))))) (\<lambda>_. I (Suc k))"
      unfolding kk(1)
    proof (rule chl_crash [OF chl_post [OF w]])
      show "?C E" if "E \<in> {disk t, D (Suc k)}" for E using that T kk(5) by (auto intro: exI [of _ k] exI [of _ "Suc k"])
    qed (rule post)
  qed
  then show ?thesis
  proof (rule chl_post)
    fix a t
    assume "I (length [0..<?n]) t"
    then have T: "I ?n t" by simp
    then obtain Q where Q: "cache_inv dev p {} Q t" "pins Q {} st t" unfolding I_def todo_done by blast
    have "Q = {}" using Q(2) by (simp add: pins_def)
    then show "cache_inv dev p {} {} t \<and> bio_frame p s t \<and> pins {} {} st t \<and> disk t = D ?n" using Q T by (auto simp: I_def)
  qed
qed

section \<open>What a disk holds\<close>

text \<open>
  A disk holds the blocks \<open>v\<close> when recovery would make them appear at their places. The blocks a transaction
  changed are in the cache only, and appear on the disk all at once, when the header is written.
\<close>

definition log_disk :: "nat \<Rightarrow> (nat \<Rightarrow> byte list) \<Rightarrow> bool" where
  "log_disk st D \<longleftrightarrow> length (D st) = BSIZE \<and> targets_ok st (disk_n st D) (disk_blk st D)"

definition disk_holds :: "nat \<Rightarrow> (u32 \<Rightarrow> byte list) \<Rightarrow> (nat \<Rightarrow> byte list) \<Rightarrow> bool" where
  "disk_holds st v D \<longleftrightarrow> log_disk st D \<and> (\<forall>z. unat z \<notin> log_area st \<longrightarrow> recovered st D (unat z) = v z)"

lemma disk_holds_cong:
  "(\<And>z. unat z \<notin> log_area st \<Longrightarrow> v z = w z) \<Longrightarrow> disk_holds st v D = disk_holds st w D"
  by (auto simp: disk_holds_def)

lemma recovered_0: "disk_n st D = 0 \<Longrightarrow> recovered st D = D"
  by (simp add: recovered_def)

lemma installed_header:
  "log_disk st D \<Longrightarrow> k \<le> disk_n st D \<Longrightarrow> x \<in> log_area st \<Longrightarrow> installed st (disk_blk st D) D k x = D x"
  by (rule installed_log) (auto simp: log_disk_def targets_ok_def)

lemma disk_holds_installed:
  assumes h: "disk_holds st v D" and k: "k \<le> disk_n st D"
  shows "disk_holds st v (installed st (disk_blk st D) D k)"
proof -
  let ?E = "installed st (disk_blk st D) D k"
  have l: "log_disk st D" using h by (simp add: disk_holds_def)
  have "?E st = D st" using installed_header [OF l k, of st] by (simp add: log_area_def)
  then have e: "disk_n st ?E = disk_n st D" "disk_blk st ?E = disk_blk st D" and st: "?E st = D st"
    by (simp_all add: disk_n_def disk_blk_def fun_eq_iff)
  then have "log_disk st ?E = log_disk st D" by (simp add: log_disk_def)
  moreover have "recovered st ?E = recovered st D"
    unfolding recovered_def e by (rule installed_again) (use l k in \<open>auto simp: log_disk_def targets_ok_def\<close>)
  ultimately show ?thesis using h by (simp add: disk_holds_def)
qed

lemma disk_holds_header:
  assumes l: "length (D st) = BSIZE" and n: "targets_ok st n blk"
  defines "E \<equiv> D(st := lh_put (int n) blk (D st))"
  shows "disk_n st E = n" "log_disk st E" "x \<noteq> st \<Longrightarrow> recovered st E x = installed st blk D n x"
proof -
  have N: "n \<le> LOGSIZE" using n by (simp add: targets_ok_def)
  note f = lh_put_fields [OF l N]
  show dn: "disk_n st E = n" by (simp add: disk_n_def E_def f)
  have b: "disk_blk st E i = blk i" if "i < n" for i using that by (simp add: disk_blk_def E_def f)
  show "log_disk st E" using n f(1) by (auto simp: log_disk_def dn targets_ok_def b) (simp_all add: E_def)
  show "recovered st E x = installed st blk D n x" if "x \<noteq> st"
    unfolding recovered_def dn by (rule installed_cong [of _ _ _ _ _ _ "- {st}"]) (use that b in \<open>auto simp: E_def\<close>)
qed

lemma installed_value:
  "(\<And>i. i < n \<Longrightarrow> D (Suc (st + i)) = w (blk i)) \<Longrightarrow>
   installed st blk D n (unat z) = (if z \<in> blk ` {..<n} then w z else D (unat z))"
  by (induction n) (auto simp: less_Suc_eq lessThan_Suc dest: word_unat_eq_iff [THEN iffD2])

text \<open>The header with a count of zero: recovery has nothing to do.\<close>

lemma disk_holds_clear:
  fixes blk :: "nat \<Rightarrow> u32"
  assumes l: "length (D st) = BSIZE" and v: "\<And>z. unat z \<notin> log_area st \<Longrightarrow> D (unat z) = v z" and st: "st + LOGSIZE < 2 ^ 31"
  defines "E \<equiv> D(st := lh_put 0 blk (D st))"
  shows "disk_holds st v E" "disk_n st E = 0"
proof -
  have t: "targets_ok st 0 blk" using st by (simp add: targets_ok_def)
  note h = disk_holds_header [where st = st and D = D and blk = blk, OF l t]
  show n: "disk_n st E = 0" using h(1) by (simp add: E_def)
  have "st \<in> log_area st" by (simp add: log_area_def)
  then have "recovered st E (unat z) = v z" if "unat z \<notin> log_area st" for z
    using that v unfolding recovered_0 [OF n] by (auto simp: E_def)
  then show "disk_holds st v E" using h(2) by (simp add: disk_holds_def E_def)
qed

section \<open>Recovery\<close>

lemma pins_empty [simp]: "pins {} {} st s"
proof -
  have "0 \<in> {..<NBUF}" by (simp add: NBUF_def)
  then show ?thesis by (auto simp: pins_def)
qed

text \<open>
  The end of recovery and of a commit: the header is written with a count of zero, and the disk holds \<open>v\<close> before, after and
  in between.
\<close>

definition settled :: "u32 \<Rightarrow> nat \<Rightarrow> nat \<Rightarrow> (u32 \<Rightarrow> byte list) \<Rightarrow> int \<times> int \<times> bool \<Rightarrow> 'a log_scheme \<Rightarrow> bool" where
  "settled dev p st v c t \<longleftrightarrow> cache_inv dev p {} {} t \<and> at_log dev st t \<and> log_ctl t = c \<and> lh_n t = 0 \<and> disk_n st (disk t) = 0 \<and>
     disk_holds st v (disk t) \<and> (\<forall>z. unat z \<notin> log_area st \<longrightarrow> cview dev t z = v z)"

lemma write_head_clear:
  assumes dev: "blk_device d" and inv: "cache_inv dev p {} {} s" and st: "at_log dev st s" and n: "lh_n s = 0"
    and h: "disk_holds st v (disk s)" and v: "\<And>z. unat z \<notin> log_area st \<Longrightarrow> disk s (unat z) = v z"
  shows "chl (serve d p) disk (disk_holds st v) (write_head s) (\<lambda>_. settled dev p st v (log_ctl s))"
proof -
  have l: "length (disk s st) = BSIZE" using h by (simp add: disk_holds_def log_disk_def)
  have st31: "st + LOGSIZE < 2 ^ 31" using st by (simp add: at_log_def)
  note c = disk_holds_clear [of "disk s" st v "lh_block s", OF l v st31]
  have w: "chl (serve d p) disk (disk_holds st v) (write_head s)
    (\<lambda>_ t. cache_inv dev p {} {} t \<and> bio_frame p s t \<and> pins {} {} st t \<and> disk t = (disk s)(st := lh_put (lh_n s) (lh_block s) (disk s st)) \<and>
       (\<forall>x. unat x \<noteq> st \<longrightarrow> cview dev t x = cview dev s x))"
    by (rule chl_crash [OF write_head_ok [OF dev inv st pins_empty]]) (use c h n in auto)
  have "st \<in> log_area st" by (simp add: log_area_def)
  then have cv: "cview dev t z = v z" if "unat z \<notin> log_area st" "\<forall>x. unat x \<noteq> st \<longrightarrow> cview dev t x = cview dev s x" for t :: "'a log_scheme" and z
    using that cview_unused [OF inv, of z] v [of z] by auto
  show ?thesis
    by (rule chl_post [OF w]) (use c n st cv in \<open>auto simp: settled_def at_log_frame bio_frame_log log_ctl_frame\<close>)
qed

lemma recover_from_log_ok:
  fixes s :: "'a log_scheme"
  assumes dev: "blk_device d" and inv: "cache_inv dev p {} {} s" and st: "at_log dev st s" and h: "disk_holds st v (disk s)"
  shows "chl (serve d p) disk (disk_holds st v) (recover_from_log s) (\<lambda>_. settled dev p st v (log_ctl s))"
proof -
  let ?n = "disk_n st (disk s)" and ?blk = "disk_blk st (disk s)"
  have l: "log_disk st (disk s)" using h by (simp add: disk_holds_def)
  show ?thesis
    unfolding recover_from_log_def
  proof (rule chl_and_then [OF chl_crash [OF read_head_ok [OF dev inv st pins_empty]]])
    show "disk_holds st v E" if "E = disk s" for E using h that by simp
    fix a and t :: "'a log_scheme"
    assume T: "cache_inv dev p {} {} t \<and> at_log dev st t \<and> log_ctl t = log_ctl s \<and> pins {} {} st t \<and> disk t = disk s \<and> cview dev t = cview dev s \<and>
       lh_n t = lh_get_n (disk s st) \<and> (\<forall>i<nat (lh_n t). lh_block t i = lh_get_block i (disk s st))"
    then have n: "nat (lh_n t) = ?n" and b: "\<And>i. i < ?n \<Longrightarrow> lh_block t i = ?blk i" by (auto simp: disk_n_def disk_blk_def)
    have D: "installed st (lh_block t) (disk t) k = installed st ?blk (disk s) k" if "k \<le> ?n" for k
      by (rule ext, rule installed_cong [of _ _ _ _ _ _ UNIV]) (use that b T in auto)
    have tg: "targets_ok st (nat (lh_n t)) (lh_block t)" using l b by (simp add: log_disk_def n targets_ok_def)
    have p0: "pins {} (todo True (lh_block t) 0 (nat (lh_n t))) st t" by (simp add: todo_def)
    have inv_t: "cache_inv dev p {} {} t" and st_t: "at_log dev st t" using T by blast+
    note I = install_trans_ok [where r = True, OF dev inv_t st_t tg disjI1 [OF TrueI] p0, unfolded n]
    show "chl (serve d p) disk (disk_holds st v)
      (and_then (install_trans True t) (\<lambda>_ s. write_head (s\<lparr>lh_n := 0\<rparr>))) (\<lambda>_. settled dev p st v (log_ctl s))"
    proof (rule chl_and_then [OF chl_crash [OF I]])
      show "disk_holds st v E" if "\<exists>k\<le>?n. E = installed st (lh_block t) (disk t) k" for E
        using that D disk_holds_installed [OF h] by auto
      fix b u
      assume U: "cache_inv dev p {} {} u \<and> bio_frame p t u \<and> pins {} {} st u \<and> disk u = installed st (lh_block t) (disk t) ?n"
      then have du: "disk u = recovered st (disk s)" using D [of ?n] by (simp add: recovered_def)
      have hu: "disk_holds st v (disk u)" using disk_holds_installed [OF h, of ?n] by (simp add: du recovered_def)
      show "chl (serve d p) disk (disk_holds st v) (write_head (u\<lparr>lh_n := 0\<rparr>)) (\<lambda>_. settled dev p st v (log_ctl s))"
        using write_head_clear [OF dev, of dev p "u\<lparr>lh_n := 0\<rparr>" st v] U T hu du h at_log_frame [of p t u dev st] log_ctl_frame [of p t u]
        by (simp add: disk_holds_def)
    qed
  qed
qed

section \<open>Commit\<close>

text \<open>
  A transaction ready to be committed: the blocks it changed, distinct and outside the log, are the pinned ones.
\<close>

definition trans_ready :: "u32 \<Rightarrow> nat \<Rightarrow> nat set \<Rightarrow> nat set \<Rightarrow> nat \<Rightarrow> 'a log_scheme \<Rightarrow> bool" where
  "trans_ready dev p H P st s \<longleftrightarrow> cache_inv dev p H P s \<and> at_log dev st s \<and> 0 \<le> lh_n s \<and>
     targets_ok st (nat (lh_n s)) (lh_block s) \<and> inj_on (lh_block s) {..<nat (lh_n s)} \<and>
     pins P (lh_block s ` {..<nat (lh_n s)}) st s \<and> disk_n st (disk s) = 0 \<and> length (disk s st) = BSIZE"

lemma log_disk_0: "disk_n st D = 0 \<Longrightarrow> length (D st) = BSIZE \<Longrightarrow> st + LOGSIZE < 2 ^ 31 \<Longrightarrow> log_disk st D"
  by (simp add: log_disk_def targets_ok_def)

lemma trans_ready_old: "trans_ready dev p {} P st s \<Longrightarrow> disk_holds st (\<lambda>z. disk s (unat z)) (disk s)"
  by (simp add: trans_ready_def disk_holds_def log_disk_0 at_log_def recovered_0)

lemma unpinned_view:
  "cache_inv dev p {} P s \<Longrightarrow> pins P X st s \<Longrightarrow> z \<notin> X \<Longrightarrow> cview dev s z = disk s (unat z)"
  by (rule cview_unused) (auto simp: pins_def)

lemma logged_old:
  assumes t: "trans_ready dev p {} P st s" and k: "k \<le> nat (lh_n s)"
  shows "disk_holds st (\<lambda>z. disk s (unat z)) (logged st v blk (disk s) k)"
proof -
  have n: "nat (lh_n s) < LOGSIZE" using t by (simp add: trans_ready_def targets_ok_def)
  let ?E = "logged st v blk (disk s) k"
  have h: "?E st = disk s st" by (simp add: logged_def)
  then have 0: "disk_n st ?E = 0" "length (?E st) = BSIZE" using t by (simp_all add: disk_n_def trans_ready_def)
  have "log_disk st ?E" using log_disk_0 [OF 0] t by (simp add: trans_ready_def at_log_def)
  moreover have "?E x = disk s x" if "x \<notin> log_area st" for x using that k n by (auto simp: logged_def log_area_def)
  ultimately show ?thesis by (simp add: disk_holds_def recovered_0 [OF 0(1)])
qed

text \<open>The header write is the commit point: with it, the logged disk holds the new blocks.\<close>

lemma logged_new:
  fixes s :: "'a log_scheme"
  assumes t: "trans_ready dev p {} P st s"
  defines "n \<equiv> nat (lh_n s)"
  defines "D \<equiv> logged st (cview dev s) (lh_block s) (disk s) n"
  defines "E \<equiv> D(st := lh_put (lh_n s) (lh_block s) (D st))"
  shows "disk_holds st (cview dev s) E" "disk_n st E = n" "\<And>i. i < n \<Longrightarrow> disk_blk st E i = lh_block s i"
proof -
  note T = t [unfolded trans_ready_def, folded n_def]
  have n: "lh_n s = int n" using T by (simp add: n_def)
  have l: "length (D st) = BSIZE" using T by (simp add: D_def logged_def)
  have tg: "targets_ok st n (lh_block s)" using T by blast
  note h = disk_holds_header [where st = st and D = D and blk = "lh_block s", OF l tg, folded n, folded E_def]
  show dn: "disk_n st E = n" by (rule h(1))
  show "disk_blk st E i = lh_block s i" if "i < n" for i
    using that lh_put_fields(3) [OF l, of n i] tg by (simp add: disk_blk_def E_def n targets_ok_def)
  have "recovered st E (unat z) = cview dev s z" if z: "unat z \<notin> log_area st" for z
  proof -
    have ns: "unat z \<noteq> st" using z by (auto simp: log_area_def)
    have log: "D (Suc (st + i)) = cview dev s (lh_block s i)" if "i < n" for i using that by (simp add: D_def logged_def)
    have "n < LOGSIZE" using tg by (simp add: targets_ok_def)
    then have "D (unat z) = disk s (unat z)" using z by (auto simp: D_def logged_def log_area_def)
    then have out: "z \<notin> lh_block s ` {..<n} \<Longrightarrow> D (unat z) = cview dev s z"
      using unpinned_view [of dev p P s "lh_block s ` {..<n}" st z] T by simp
    show ?thesis using h(3) [OF ns] installed_value [of n D st "cview dev s" "lh_block s" z] log out by simp
  qed
  then show "disk_holds st (cview dev s) E" using h(2) by (simp add: disk_holds_def)
qed

lemma commit_write_head:
  fixes s :: "'a log_scheme"
  assumes dev: "blk_device d" and t: "trans_ready dev p {} P st s" and inv: "cache_inv dev p {} P u" and f: "bio_frame p s u"
    and P: "pins P (lh_block s ` {..<nat (lh_n s)}) st u"
    and du: "disk u = logged st (cview dev s) (lh_block s) (disk s) (nat (lh_n s))"
  defines "E \<equiv> (disk u)(st := lh_put (lh_n s) (lh_block s) (disk u st))"
  shows "chl (serve d p) disk (\<lambda>D. disk_holds st (\<lambda>z. disk s (unat z)) D \<or> disk_holds st (cview dev s) D) (write_head u)
    (\<lambda>_ w. cache_inv dev p {} P w \<and> bio_frame p s w \<and> pins P (lh_block s ` {..<nat (lh_n s)}) st w \<and> disk w = E)"
proof -
  have st: "at_log dev st u" using t f at_log_frame [of p s u] by (simp add: trans_ready_def)
  note l = bio_frame_log [OF f]
  have old: "disk_holds st (\<lambda>z. disk s (unat z)) (disk u)" using logged_old [OF t] du by simp
  have new: "disk_holds st (cview dev s) E" unfolding E_def du by (rule logged_new(1) [OF t])
  note w = write_head_ok [OF dev inv st P, unfolded l, folded E_def]
  show ?thesis
  proof (rule chl_crash [OF chl_post [OF w]])
    show "disk_holds st (\<lambda>z. disk s (unat z)) D \<or> disk_holds st (cview dev s) D" if "D \<in> {disk u, E}" for D
      using that old new by blast
  qed (use bio_frame_trans [OF f] in blast)
qed

lemma commit_install:
  fixes s :: "'a log_scheme"
  assumes dev: "blk_device d" and t: "trans_ready dev p {} P st s" and inv: "cache_inv dev p {} P w" and f: "bio_frame p s w"
    and P: "pins P (lh_block s ` {..<nat (lh_n s)}) st w"
  defines "L \<equiv> logged st (cview dev s) (lh_block s) (disk s) (nat (lh_n s))"
  assumes dw: "disk w = L(st := lh_put (lh_n s) (lh_block s) (L st))"
  shows "chl (serve d p) disk (disk_holds st (cview dev s))
    (and_then (install_trans False w) (\<lambda>_ s. write_head (s\<lparr>lh_n := 0\<rparr>))) (\<lambda>_. settled dev p st (cview dev s) (log_ctl s))"
proof -
  let ?n = "nat (lh_n s)" and ?v = "cview dev s"
  note T = t [unfolded trans_ready_def] and l = bio_frame_log [OF f]
  note E = logged_new [OF t, folded L_def, folded dw]
  have st: "at_log dev st w" using T f at_log_frame [of p s w] by simp
  have a: "targets_ok st (nat (lh_n w)) (lh_block w)" "False \<or> inj_on (lh_block w) {..<nat (lh_n w)}"
    "pins P (todo False (lh_block w) 0 (nat (lh_n w))) st w" using T P l by (simp_all add: todo_def atLeast0LessThan)
  have D: "installed st (lh_block s) (disk w) k = installed st (disk_blk st (disk w)) (disk w) k" if "k \<le> ?n" for k
    by (rule ext, rule installed_cong [of _ _ _ _ _ _ UNIV]) (use that E(3) in auto)
  have h: "disk_holds st ?v (installed st (lh_block s) (disk w) k)" if "k \<le> ?n" for k
    using that disk_holds_installed [OF E(1), of k] E(2) D by simp
  show ?thesis
  proof (rule chl_and_then [OF chl_crash [OF install_trans_ok [OF dev inv st a]]])
    show "disk_holds st ?v F" if "\<exists>k\<le>nat (lh_n w). F = installed st (lh_block w) (disk w) k" for F using that h l by auto
    fix x u
    assume U: "cache_inv dev p {} {} u \<and> bio_frame p w u \<and> pins {} {} st u \<and> disk u = installed st (lh_block w) (disk w) (nat (lh_n w))"
    then have du: "disk u = installed st (lh_block s) (disk w) ?n" using l by simp
    then have "disk u = recovered st (disk w)" using D [of ?n] E(2) by (simp add: recovered_def)
    then have v: "disk u (unat z) = ?v z" if "unat z \<notin> log_area st" for z using that E(1) by (simp add: disk_holds_def)
    show "chl (serve d p) disk (disk_holds st ?v) (write_head (u\<lparr>lh_n := 0\<rparr>)) (\<lambda>_. settled dev p st ?v (log_ctl s))"
      using write_head_clear [OF dev, of dev p "u\<lparr>lh_n := 0\<rparr>" st ?v] U st h [of ?n] du v at_log_frame [of p w u dev st]
        log_ctl_frame [of p w u] log_ctl_frame [OF f] by simp
  qed
qed

lemma commit_ok:
  fixes s :: "'a log_scheme"
  assumes dev: "blk_device d" and t: "trans_ready dev p {} P st s"
  shows "chl (serve d p) disk (\<lambda>D. disk_holds st (\<lambda>z. disk s (unat z)) D \<or> disk_holds st (cview dev s) D) (commit s)
    (\<lambda>_. settled dev p st (cview dev s) (log_ctl s))"
proof (cases "lh_n s = 0")
  case True
  note T = t [unfolded trans_ready_def]
  have P: "P = {}" using T True by (simp add: pins_def)
  then have v: "cview dev s z = disk s (unat z)" for z using T unpinned_view [of dev p P s "{}" st z] True by simp
  have "disk_holds st (cview dev s) (disk s)" using trans_ready_old [OF t] by (simp add: disk_holds_def v)
  then have "settled dev p st (cview dev s) (log_ctl s) s" using T True P by (simp add: settled_def)
  then show ?thesis using True trans_ready_old [OF t] by (simp add: commit_def)
next
  case False
  note T = t [unfolded trans_ready_def]
  let ?n = "nat (lh_n s)" and ?X = "lh_block s ` {..<nat (lh_n s)}"
  let ?C = "\<lambda>D. disk_holds st (\<lambda>z. disk s (unat z)) D \<or> disk_holds st (cview dev s) D"
  have n: "0 < lh_n s" using False T by simp
  have a: "cache_inv dev p {} P s" "at_log dev st s" "pins P ?X st s" "targets_ok st ?n (lh_block s)" "inj_on (lh_block s) {..<?n}"
    using T by blast+
  have "chl (serve d p) disk ?C (and_then (write_log s) (\<lambda>_ s. and_then (write_head s) (\<lambda>_ s.
        and_then (install_trans False s) (\<lambda>_ s. write_head (s\<lparr>lh_n := 0\<rparr>))))) (\<lambda>_. settled dev p st (cview dev s) (log_ctl s))"
  proof (rule chl_and_then [OF chl_crash [OF write_log_ok [OF dev a(1-4) refl]]])
    show "?C D" if "\<exists>k\<le>?n. D = logged st (cview dev s) (lh_block s) (disk s) k" for D using that logged_old [OF t] by blast
    fix x u
    assume "cache_inv dev p {} P u \<and> bio_frame p s u \<and> pins P ?X st u \<and> disk u = logged st (cview dev s) (lh_block s) (disk s) ?n \<and>
       (\<forall>z. unat z \<notin> log_area st \<longrightarrow> cview dev u z = cview dev s z)"
    then have U: "cache_inv dev p {} P u" "bio_frame p s u" "pins P ?X st u"
      "disk u = logged st (cview dev s) (lh_block s) (disk s) ?n" by blast+
    show "chl (serve d p) disk ?C (and_then (write_head u) (\<lambda>_ s.
        and_then (install_trans False s) (\<lambda>_ s. write_head (s\<lparr>lh_n := 0\<rparr>)))) (\<lambda>_. settled dev p st (cview dev s) (log_ctl s))"
    proof (rule chl_and_then [OF commit_write_head [OF dev t U]])
      fix x w
      assume W: "cache_inv dev p {} P w \<and> bio_frame p s w \<and> pins P ?X st w \<and> disk w = (disk u)(st := lh_put (lh_n s) (lh_block s) (disk u st))"
      show "chl (serve d p) disk ?C (and_then (install_trans False w) (\<lambda>_ s. write_head (s\<lparr>lh_n := 0\<rparr>))) (\<lambda>_. settled dev p st (cview dev s) (log_ctl s))"
        by (rule chl_crash [OF commit_install [OF dev t]]) (use W U(4) in auto)
    qed
  qed
  then show ?thesis using n by (simp add: commit_def)
qed

end
