(* ===== verification/Log_Trans.thy ===== *)
theory Log_Trans
  imports Log_Facts
begin

text \<open>
  Transactions: \<^verbatim>\<open>begin_op\<close>, block updates through \<^verbatim>\<open>log_write\<close>, \<^verbatim>\<open>end_op\<close>, run by one process.  The
  updates of a transaction reach the disk all or none, whenever the machine stops.
\<close>

section \<open>Recording a block in the log\<close>

lemma cache_inv_settle [simp]:
  "cache_inv dev p H P (settle s) = cache_inv dev p H P s" "cview dev (settle s) = cview dev s"
  by (auto simp: cache_inv_def ready_def unlocked_def driver_idle_def cview_def fun_eq_iff split: option.split)

lemma cache_inv_log:
  fixes s :: "'a log_scheme"
  shows "cache_inv dev p H P (s\<lparr>log_outstanding := n\<rparr>) = cache_inv dev p H P s"
    "cache_inv dev p H P (s\<lparr>log_committing := c\<rparr>) = cache_inv dev p H P s"
    "cview dev (s\<lparr>log_outstanding := n\<rparr>) = cview dev s" "cview dev (s\<lparr>log_committing := c\<rparr>) = cview dev s"
  by (auto simp: cache_inv_def ready_def unlocked_def driver_idle_def cview_def fun_eq_iff split: option.split)

lemma cache_inv_ptab:
  "T p = ptab s p \<Longrightarrow> cache_inv dev p H P (s\<lparr>ptab := T\<rparr>) = cache_inv dev p H P s"
  "cview dev (s\<lparr>ptab := T\<rparr>) = cview dev s"
  by (auto simp: cache_inv_def ready_def unlocked_def driver_idle_def cview_def fun_eq_iff split: option.split)

lemma log_settle_fields [simp]: "log_ctl (settle s) = log_ctl s" "at_log dev st (settle s) = at_log dev st s"
  by (simp_all add: log_ctl_def at_log_def)

lemma log_slot_cases:
  "(\<exists>j<n. blk (i + j) = bno \<and> log_slot n i blk bno = i + j) \<or>
   ((\<forall>j<n. blk (i + j) \<noteq> bno) \<and> log_slot n i blk bno = i + n)"
proof (induction n arbitrary: i)
  case (Suc n)
  show ?case
  proof (cases "blk i = bno")
    case False
    have "(\<exists>j<n. blk (Suc i + j) = bno \<and> log_slot n (Suc i) blk bno = Suc i + j) \<or>
      ((\<forall>j<n. blk (Suc i + j) \<noteq> bno) \<and> log_slot n (Suc i) blk bno = Suc i + n)" by (rule Suc.IH)
    then show ?thesis
    proof (elim disjE exE conjE)
      fix j assume "j < n" "blk (Suc i + j) = bno" "log_slot n (Suc i) blk bno = Suc i + j"
      then show ?thesis using False by (intro disjI1 exI [of _ "Suc j"]) simp
    next
      assume a: "\<forall>j<n. blk (Suc i + j) \<noteq> bno" "log_slot n (Suc i) blk bno = Suc i + n"
      have "\<forall>j<Suc n. blk (i + j) \<noteq> bno"
        using a(1) False by (metis Suc_less_eq add.right_neutral add_Suc add_Suc_right not0_implies_Suc)
      then show ?thesis using False a(2) by (intro disjI2) simp
    qed
  qed auto
qed simp

text \<open>The two outcomes of \<^verbatim>\<open>log_write\<close> in a transaction with room.\<close>

lemma log_write_eq:
  fixes s :: "'a log_scheme" and b :: nat
  assumes r: "ready p s" and n: "lh_n s = int n" "n < LOGSIZE" "int n < log_size s - 1" "1 \<le> log_outstanding s"
  defines "y \<equiv> blockno (bufs s b)"
  shows "y \<in> lh_block s ` {..<n} \<Longrightarrow> log_write b s = Ok () (settle s)"
    "y \<notin> lh_block s ` {..<n} \<Longrightarrow> log_write b s =
       Ok () ((settle (upd_buf b (refcnt_update (\<lambda>_. refcnt (bufs s b) + 1)) s))\<lparr>lh_block := (lh_block s)(n := y), lh_n := int (Suc n)\<rparr>)"
proof -
  note r' = readyD [OF r]
  note c = log_slot_cases [of n "lh_block s" 0 y]
  {
    assume y: "y \<in> lh_block s ` {..<n}"
    then obtain j where j: "j < n" "lh_block s j = y" "log_slot n 0 (lh_block s) y = j" using c by auto
    then have "(lh_block s)(j := y) = lh_block s" by auto
    then show "log_write b s = Ok () (settle s)" using r' n j by (simp add: log_write_def y_def Let_def)
  }
  assume y: "y \<notin> lh_block s ` {..<n}"
  then have "\<forall>j<n. lh_block s j \<noteq> y" by auto
  then have j: "log_slot n 0 (lh_block s) y = n" using c by auto
  show "log_write b s =
       Ok () ((settle (upd_buf b (refcnt_update (\<lambda>_. refcnt (bufs s b) + 1)) s))\<lparr>lh_block := (lh_block s)(n := y), lh_n := int (Suc n)\<rparr>)"
    using r' n j by (simp add: log_write_def y_def Let_def bpin_def upd_buf_def) (intro arg_cong [where f = settle], simp)
qed

lemma pinned_buffer:
  assumes inv: "cache_inv dev p H P s" and b: "b \<in> H" "has_block dev y (bufs s b)" and P: "pins P X st s"
  shows "b \<in> P \<longleftrightarrow> y \<in> X"
proof -
  have X: "X = (\<lambda>c. blockno (bufs s c)) ` P" using P by (simp add: pins_def)
  have "b \<in> P" if "c \<in> P" "blockno (bufs s c) = y" for c
  proof -
    have "b < NBUF" "c < NBUF" "has_block dev y (bufs s c)" using that b(1) cache_invD(6) [OF inv] by (auto simp: has_block_def)
    then show ?thesis using cache_invD(3) [OF inv _ _ b(2)] that by metis
  qed
  then show ?thesis using b(2) X by (force simp: has_block_def)
qed

lemma pins_insert:
  assumes inv: "cache_inv dev p H P s" and P: "pins P (blk ` {..<n}) st s" and b: "unat (blockno (bufs s b)) \<notin> log_area st"
    and n: "Suc n < NBUF" and t: "\<And>c. blockno (bufs t c) = blockno (bufs s c)"
  shows "pins (insert b P) (blk(n := blockno (bufs s b)) ` {..<Suc n}) st t"
proof -
  have X: "(\<lambda>c. blockno (bufs s c)) ` P = blk ` {..<n}" using P by (simp add: pins_def)
  have P30: "P \<subseteq> {..<NBUF}" using cache_invD(6) [OF inv] by auto
  have "card P = card ((\<lambda>c. blockno (bufs s c)) ` P)"
    using inj_on_blocks [OF inv] by (simp add: card_image)
  then have "card P \<le> n" using card_image_le [of "{..<n}" blk] by (simp add: X)
  then have "card (insert b P) \<noteq> card {..<NBUF}" unfolding card_lessThan using n finite_subset [OF P30] by (simp add: card_insert_if)
  then have "insert b P \<noteq> {..<NBUF}" by metis
  then show ?thesis using P b X by (auto simp: pins_def t lessThan_Suc)
qed

lemma log_write_ok:
  fixes s :: "'a log_scheme"
  assumes t: "trans_ready dev p H P st s" and b: "b \<in> H" "has_block dev y (bufs s b)" "unat y \<notin> log_area st"
    and n: "lh_n s < log_size s - 1" "log_size s \<le> int LOGSIZE" "1 \<le> log_outstanding s"
  shows "\<exists>t P'. log_write b s = Ok () t \<and> trans_ready dev p H P' st t \<and> b \<in> P' \<and> disk t = disk s \<and> log_ctl t = log_ctl s \<and>
     lh_n t \<le> lh_n s + 1 \<and> cview dev t = cview dev s"
proof -
  note T = t [unfolded trans_ready_def]
  define m where "m = nat (lh_n s)"
  have m: "lh_n s = int m" using T by (simp add: m_def)
  have inv: "cache_inv dev p H P s" and P: "pins P (lh_block s ` {..<m}) st s" using T by (simp_all add: m)
  have r: "ready p s" by (rule cache_invD(1) [OF inv])
  have small: "m < LOGSIZE" "int m < log_size s - 1" "Suc m < NBUF" "Suc m < LOGSIZE" using n m by (simp_all add: LOGSIZE_def NBUF_def MAXOPBLOCKS_def)
  have y: "blockno (bufs s b) = y" "unat y < 2 ^ 31" using b cache_invD(4,6) [OF inv, of b] by (auto simp: has_block_def)
  note pb = pinned_buffer [OF inv b(1,2) P]
  note eq = log_write_eq [OF r m small(1,2) n(3), of b, unfolded y]
  show ?thesis
  proof (cases "y \<in> lh_block s ` {..<m}")
    case True
    then show ?thesis using eq(1) T pb by (intro exI [of _ "settle s"] exI [of _ P]) (simp add: trans_ready_def at_log_def pins_def log_ctl_def)
  next
    case False
    have "refcnt (bufs s b) = 1" using cache_invD(6,7) [OF inv, of b] b(1) pb False by simp
    then have e: "refcnt (bufs s b) + 1 = of_bool (b \<in> H) + of_bool (b \<in> insert b P)" using b(1) by simp
    let ?u = "settle (upd_buf b (refcnt_update (\<lambda>_. refcnt (bufs s b) + 1)) s)"
    let ?t = "?u\<lparr>lh_block := (lh_block s)(m := y), lh_n := int (Suc m)\<rparr>"
    have K: "kept dev p H (insert b P) s ?u" by (rule recounted [OF inv b(1) _ e]) simp
    have tp: "pins (insert b P) ((lh_block s)(m := y) ` {..<Suc m}) st ?t"
      using pins_insert [OF inv P, of b ?t] y b(3) small(3) K by (simp add: kept_def)
    have "inj_on ((lh_block s)(m := y)) {..<Suc m}" using T False by (auto simp: m inj_on_def lessThan_Suc)
    moreover have "targets_ok st (Suc m) ((lh_block s)(m := y))" using T b(3) y(2) small(4) by (auto simp: m targets_ok_def less_Suc_eq)
    moreover have "cache_inv dev p H (insert b P) ?t" using K by (simp add: kept_def)
    moreover have "at_log dev st ?t" using K T at_log_frame [of p s ?u dev st] unfolding kept_def by (simp add: at_log_def)
    moreover have "disk ?t = disk s" by (simp add: upd_buf_def)
    moreover have Sm: "nat (1 + int m) = Suc m" by simp
    ultimately have "trans_ready dev p H (insert b P) st ?t" using T tp Sm by (simp add: trans_ready_def)
    moreover have "log_ctl ?t = log_ctl s" "cview dev ?t = cview dev s" using K log_ctl_frame [of p s ?u] by (simp_all add: kept_def)
    ultimately show ?thesis using eq(2) [OF False] m by (intro exI [of _ ?t] exI [of _ "insert b P"]) simp
  qed
qed

section \<open>A block update in a transaction\<close>

text \<open>The use of the cache that \<^verbatim>\<open>log.c\<close> describes for its callers: read, modify, \<^verbatim>\<open>log_write\<close>, release.\<close>

definition update_block :: "u32 \<Rightarrow> u32 \<times> (byte list \<Rightarrow> byte list) \<Rightarrow> 'a log_scheme \<Rightarrow> (unit, 'a log_scheme) out" where
  "update_block dev op s =
     and_then (bread dev (fst op) s) (\<lambda>b s.
     and_then (log_write b (upd_buf b (bdata_update (snd op)) s)) (\<lambda>_ s. brelse b s))"

definition updated :: "u32 \<times> (byte list \<Rightarrow> byte list) \<Rightarrow> (u32 \<Rightarrow> byte list) \<Rightarrow> u32 \<Rightarrow> byte list" where
  "updated op v = v(fst op := snd op (v (fst op)))"

definition trans_at :: "u32 \<Rightarrow> nat \<Rightarrow> nat \<Rightarrow> (u32 \<Rightarrow> byte list) \<Rightarrow> nat \<Rightarrow> 'a log_scheme \<Rightarrow> 'a log_scheme \<Rightarrow> bool" where
  "trans_at dev p st v k s t \<longleftrightarrow> (\<exists>P. trans_ready dev p {} P st t) \<and> disk t = disk s \<and> log_ctl t = log_ctl s \<and>
     lh_n t \<le> lh_n s + int k \<and> cview dev t = v"

lemma update_block_ok:
  fixes s :: "'a log_scheme"
  assumes dev: "blk_device d" and t: "trans_ready dev p {} P st s" and y: "unat y \<notin> log_area st" "unat y < 2 ^ 31"
    and n: "lh_n s < log_size s - 1" "log_size s \<le> int LOGSIZE" "1 \<le> log_outstanding s"
  shows "chl (serve d p) disk (\<lambda>E. E = disk s) (update_block dev (y, f) s) (\<lambda>_. trans_at dev p st (updated (y, f) (cview dev s)) 1 s)"
proof -
  note T = t [unfolded trans_ready_def]
  have inv: "cache_inv dev p {} P s" using T by blast
  have 1: "chl (serve d p) disk (\<lambda>E. E = disk s) (bread dev y s) (bread_post dev y p {} P s)"
    using bread_ok [OF dev inv, of y] y T by (auto simp: pins_def)
  show ?thesis
    unfolding update_block_def fst_conv snd_conv
  proof (rule chl_and_then [OF 1])
    fix b u
    assume "bread_post dev y p {} P s b u"
    note B = this [unfolded bread_post_def]
    have cu: "cache_inv dev p {b} P u" and hb: "has_block dev y (bufs u b)" using B by blast+
    have bn: "b < NBUF" using cache_invD(6) [OF cu, of b] by simp
    let ?w = "upd_buf b (bdata_update f) u"
    note m = modify_ok [OF cu singletonI hb, of f]
    have fw: "bio_frame p s ?w" using B m(3) bio_frame_trans by blast
    note l = bio_frame_log [OF fw]
    have c: "log_ctl ?w = log_ctl s" by (rule log_ctl_frame [OF fw])
    have bl: "blockno (bufs ?w c) = blockno (bufs s c)" if "c \<in> P" for c using that B by auto
    have "(\<lambda>c. blockno (bufs ?w c)) ` P = (\<lambda>c. blockno (bufs s c)) ` P" using bl by (rule image_blockno_cong)
    moreover have "pins P (lh_block s ` {..<nat (lh_n s)}) st s" using T by blast
    ultimately have pw: "pins P (lh_block s ` {..<nat (lh_n s)}) st ?w" unfolding pins_def by metis
    have dw: "disk ?w = disk s" using B by simp
    have tw: "trans_ready dev p {b} P st ?w" using T m(1) pw at_log_frame [OF fw] l dw unfolding trans_ready_def by simp
    have bw: "has_block dev y (bufs ?w b)" using hb by (simp add: has_block_def)
    have nw: "lh_n ?w < log_size ?w - 1" "log_size ?w \<le> int LOGSIZE" "1 \<le> log_outstanding ?w" using n l by simp_all
    obtain w P' where w: "log_write b ?w = Ok () w" "trans_ready dev p {b} P' st w" "b \<in> P'" "disk w = disk ?w"
      "log_ctl w = log_ctl ?w" "lh_n w \<le> lh_n ?w + 1" "cview dev w = cview dev ?w"
      using log_write_ok [OF tw singletonI bw y(1) nw] by blast
    have iw: "cache_inv dev p {b} P' w" using w(2) by (simp add: trans_ready_def)
    obtain x where x: "brelse b w = Ok () x" "kept dev p {} P' w x" "disk x = disk w"
      using brelse_ok [OF iw singletonI] w(3) by auto
    note K = x(2) [unfolded kept_def]
    note lx = bio_frame_log [of p w x]
    have "pins P' (lh_block w ` {..<nat (lh_n w)}) st x"
      using w(2) image_blockno_cong [of P' x w] K unfolding pins_def trans_ready_def by simp
    then have "trans_ready dev p {} P' st x" using w(2) K lx at_log_frame [of p w x dev st] x(3) unfolding trans_ready_def by simp
    moreover have "bdata (bufs u b) = cview dev s y" using cview_held [OF cu bn hb] B by simp
    then have "cview dev x = updated (y, f) (cview dev s)" using K w(7) m(2) B by (simp add: updated_def)
    ultimately have "trans_at dev p st (updated (y, f) (cview dev s)) 1 s x"
      using x(3) w(4-6) dw c l lx K log_ctl_frame [of p w x] unfolding trans_at_def by auto
    then show "chl (serve d p) disk (\<lambda>E. E = disk s) (and_then (log_write b ?w) (\<lambda>_ s. brelse b s))
        (\<lambda>_. trans_at dev p st (updated (y, f) (cview dev s)) 1 s)" using w(1) x(1) by simp
  qed
qed

section \<open>A whole transaction\<close>

definition transaction :: "u32 \<Rightarrow> (u32 \<times> (byte list \<Rightarrow> byte list)) list \<Rightarrow> 'a log_scheme \<Rightarrow> (unit, 'a log_scheme) out" where
  "transaction dev us s =
     and_then (begin_op s) (\<lambda>_ s.
     and_then (for_each (update_block dev) us s) (\<lambda>_ s. end_op s))"

text \<open>No transaction is open and the log is empty.\<close>

definition log_idle :: "u32 \<Rightarrow> nat \<Rightarrow> nat \<Rightarrow> 'a log_scheme \<Rightarrow> bool" where
  "log_idle dev p st s \<longleftrightarrow> trans_ready dev p {} {} st s \<and> lh_n s = 0 \<and> log_outstanding s = 0 \<and> \<not> log_committing s \<and>
     int MAXOPBLOCKS < log_size s \<and> log_size s \<le> int LOGSIZE"

lemma trans_ready_upd:
  "trans_ready dev p H P st (s\<lparr>log_outstanding := n\<rparr>) = trans_ready dev p H P st s"
  "trans_ready dev p H P st (s\<lparr>log_committing := c\<rparr>) = trans_ready dev p H P st s"
  "trans_ready dev p H P st (settle s) = trans_ready dev p H P st s"
  for s :: "'a log_scheme"
  by (simp_all add: trans_ready_def at_log_def pins_def cache_inv_log)

lemma begin_op_ok:
  fixes s :: "'a log_scheme"
  assumes "log_idle dev p st s"
  shows "begin_op s = Ok () (settle (s\<lparr>log_outstanding := 1\<rparr>))"
proof -
  have r: "ready p s" and i: "log_outstanding s = 0" "\<not> log_committing s" "lh_n s = 0" using assms
    by (auto simp: log_idle_def trans_ready_def dest: cache_invD(1))
  note r' = readyD [OF r]
  obtain n where n: "WAKEUPS = Suc n" by (simp add: WAKEUPS_def)
  show ?thesis unfolding begin_op_def n using r' i by (simp add: LOGSIZE_def MAXOPBLOCKS_def)
qed

lemma updates_ok:
  fixes s :: "'a log_scheme"
  assumes dev: "blk_device d" and t: "trans_ready dev p {} P st s"
    and us: "\<And>u. u \<in> set us \<Longrightarrow> unat (fst u) \<notin> log_area st \<and> unat (fst u) < 2 ^ 31"
    and n: "lh_n s + int (length us) < log_size s" "log_size s \<le> int LOGSIZE" "1 \<le> log_outstanding s"
  shows "chl (serve d p) disk (\<lambda>E. E = disk s) (for_each (update_block dev) us s)
    (\<lambda>_. trans_at dev p st (fold updated us (cview dev s)) (length us) s)"
proof -
  define I where "I k t \<longleftrightarrow> trans_at dev p st (fold updated (take k us) (cview dev s)) k s t" for k t
  have "chl (serve d p) disk (\<lambda>E. E = disk s) (for_each (update_block dev) us s) (\<lambda>_. I (length us))"
  proof (rule chl_for_each)
    show "I 0 s" using t by (auto simp: I_def trans_at_def)
    fix k t
    assume k: "k < length us" and t: "I k t"
    note T = t [unfolded I_def trans_at_def]
    obtain Q where Q: "trans_ready dev p {} Q st t" using T by blast
    have c: "log_size t = log_size s" "log_outstanding t = log_outstanding s" using T by (simp_all add: log_ctl_def)
    have y: "unat (fst (us ! k)) \<notin> log_area st" "unat (fst (us ! k)) < 2 ^ 31" using us [OF nth_mem [OF k]] by blast+
    have b: "lh_n t < log_size t - 1" "log_size t \<le> int LOGSIZE" "1 \<le> log_outstanding t" using T k n c by auto
    note w = update_block_ok [OF dev Q y b, of "snd (us ! k)", unfolded prod.collapse]
    have D: "disk t = disk s" using T by blast
    have "I (Suc k) u" if "trans_at dev p st (updated (us ! k) (cview dev t)) 1 t u" for u
    proof -
      note U = that [unfolded trans_at_def]
      have "fold updated (take (Suc k) us) (cview dev s) = updated (us ! k) (cview dev t)"
        using T by (simp add: take_Suc_conv_app_nth [OF k])
      moreover have "lh_n u \<le> lh_n s + int (Suc k)" "log_ctl u = log_ctl s" "disk u = disk s" using T U by simp_all
      ultimately show ?thesis unfolding I_def trans_at_def using U by simp
    qed
    then show "chl (serve d p) disk (\<lambda>E. E = disk s) (update_block dev (us ! k) t) (\<lambda>_. I (Suc k))"
      by (rule chl_post [OF w [unfolded D]])
  qed
  then show ?thesis by (rule chl_post) (simp add: I_def)
qed

text \<open>The last \<^verbatim>\<open>end_op\<close>: the process commits with the log marked, and then unmarks it and wakes the waiting ones.\<close>

lemma end_op_ok:
  fixes s :: "'a log_scheme"
  assumes dev: "blk_device d" and t: "trans_ready dev p {} P st s" and o: "log_outstanding s = 1" "\<not> log_committing s"
  shows "chl (serve d p) disk (\<lambda>E. disk_holds st (\<lambda>z. disk s (unat z)) E \<or> disk_holds st (cview dev s) E) (end_op s)
    (\<lambda>_. settled dev p st (cview dev s) (log_size s, 0, False))"
proof -
  have inv: "cache_inv dev p {} P s" using t by (simp add: trans_ready_def)
  note r = readyD [OF cache_invD(1) [OF inv]]
  let ?C = "\<lambda>E. disk_holds st (\<lambda>z. disk s (unat z)) E \<or> disk_holds st (cview dev s) E"
  let ?u = "settle (s\<lparr>log_outstanding := 0, log_committing := True\<rparr>)"
  have e: "end_op s = and_then (commit ?u) (\<lambda>_ s. and_then (acquire LkLog s) (\<lambda>_ s.
      and_then (wakeup (Some ChLog) (s\<lparr>log_committing := False\<rparr>)) (\<lambda>_ s. release LkLog s)))"
    using r o by (simp add: end_op_def Let_def)
  have u: "trans_ready dev p {} P st ?u" using t by (simp add: trans_ready_upd)
  have v: "disk ?u = disk s" "cview dev ?u = cview dev s" "log_ctl ?u = (log_size s, 0, True)"
    by (simp_all add: cache_inv_log log_ctl_def)
  show ?thesis
    unfolding e
  proof (rule chl_and_then [OF commit_ok [OF dev u, unfolded v]])
    fix x and w :: "'a log_scheme"
    assume w: "settled dev p st (cview dev s) (log_size s, 0, True) w"
    note W = w [unfolded settled_def]
    have iw: "cache_inv dev p {} {} w" using W by blast
    note rw = readyD [OF cache_invD(1) [OF iw]]
    define T where "T = woken (Some ChLog) (Some p) {..<NPROC} (ptab w)"
    let ?w = "settle (w\<lparr>log_committing := False, ptab := T\<rparr>)"
    have run: "and_then (acquire LkLog w) (\<lambda>_ s. and_then (wakeup (Some ChLog) (s\<lparr>log_committing := False\<rparr>)) (\<lambda>_ s. release LkLog s)) = Ok () ?w"
      using rw wakeup_eq [of "enter_cs LkLog (w\<lparr>log_committing := False\<rparr>)" "Some ChLog"] by (simp add: T_def procs_free_def)
    have "T p = ptab w p" by (simp add: T_def woken_def)
    then have "settled dev p st (cview dev s) (log_size s, 0, False) ?w"
      using W by (simp add: settled_def cache_inv_ptab cache_inv_log at_log_def log_ctl_def)
    then show "chl (serve d p) disk ?C (and_then (acquire LkLog w) (\<lambda>_ s.
      and_then (wakeup (Some ChLog) (s\<lparr>log_committing := False\<rparr>)) (\<lambda>_ s. release LkLog s)))
      (\<lambda>_. settled dev p st (cview dev s) (log_size s, 0, False))" unfolding run by simp
  qed
qed

lemma log_idle_view: "log_idle dev p st s \<Longrightarrow> cview dev s = (\<lambda>z. disk s (unat z))"
  using unpinned_view [of dev p "{}" s "{}" st] by (auto simp: log_idle_def trans_ready_def fun_eq_iff)

lemma settled_idle:
  assumes s: "settled dev p st v c t" and c: "c = (n, 0, False)" "int MAXOPBLOCKS < n" "n \<le> int LOGSIZE"
  shows "log_idle dev p st t" "unat z \<notin> log_area st \<Longrightarrow> cview dev t z = v z"
proof -
  note S = s [unfolded settled_def]
  have "log_disk st (disk t)" using S by (simp add: disk_holds_def)
  then show "log_idle dev p st t"
    using S c by (simp add: log_idle_def trans_ready_def log_ctl_def log_disk_def targets_ok_def at_log_def)
  show "unat z \<notin> log_area st \<Longrightarrow> cview dev t z = v z" using S by blast
qed

lemma transaction_ok:
  fixes s :: "'a log_scheme"
  assumes dev: "blk_device d" and i: "log_idle dev p st s"
    and us: "\<And>u. u \<in> set us \<Longrightarrow> unat (fst u) \<notin> log_area st \<and> unat (fst u) < 2 ^ 31" and n: "length us \<le> MAXOPBLOCKS"
  defines "new \<equiv> fold updated us (cview dev s)"
  shows "chl (serve d p) disk (\<lambda>E. disk_holds st (cview dev s) E \<or> disk_holds st new E) (transaction dev us s)
    (\<lambda>_ t. log_idle dev p st t \<and> (\<forall>z. unat z \<notin> log_area st \<longrightarrow> cview dev t z = new z))"
proof -
  note I = i [unfolded log_idle_def]
  let ?C = "\<lambda>E. disk_holds st (cview dev s) E \<or> disk_holds st new E"
  let ?s = "settle (s\<lparr>log_outstanding := 1\<rparr>)"
  have v: "cview dev s = (\<lambda>z. disk s (unat z))" by (rule log_idle_view [OF i])
  have t: "trans_ready dev p {} {} st s" using I by blast
  have old: "?C (disk s)" using trans_ready_old [OF t] by (simp add: v)
  have f: "lh_n ?s = 0" "log_size ?s = log_size s" "log_outstanding ?s = 1" "\<not> log_committing ?s" "disk ?s = disk s"
    "cview dev ?s = cview dev s" using I by (simp_all add: cache_inv_log)
  have t1: "trans_ready dev p {} {} st ?s" using t by (simp add: trans_ready_upd)
  have r1: "lh_n ?s + int (length us) < log_size ?s" "log_size ?s \<le> int LOGSIZE" "1 \<le> log_outstanding ?s" using I n f by simp_all
  note u = updates_ok [OF dev t1 us r1, unfolded f(5,6), folded new_def]
  show ?thesis
    unfolding transaction_def begin_op_ok [OF i] and_then.simps
  proof (rule chl_and_then [OF chl_crash [OF u]])
    show "?C E" if "E = disk s" for E using old that by simp
    fix x w
    assume "trans_at dev p st new (length us) ?s w"
    note W = this [unfolded trans_at_def]
    obtain P where P: "trans_ready dev p {} P st w" using W by blast
    have c: "log_size w = log_size s" "log_outstanding w = 1" "\<not> log_committing w" using W f by (simp_all add: log_ctl_def)
    have d: "disk w = disk s" "cview dev w = new" using W f by simp_all
    note e = end_op_ok [OF dev P c(2,3), unfolded d c(1), folded v]
    have "log_idle dev p st y \<and> (\<forall>z. unat z \<notin> log_area st \<longrightarrow> cview dev y z = new z)"
      if "settled dev p st new (log_size s, 0, False) y" for y using settled_idle [OF that refl] I by blast
    then show "chl (serve d p) disk ?C (end_op w) (\<lambda>_ t. log_idle dev p st t \<and> (\<forall>z. unat z \<notin> log_area st \<longrightarrow> cview dev t z = new z))"
      by (rule chl_post [OF e])
  qed
qed

end
