(* ===== verification/Fs_Facts.thy ===== *)
theory Fs_Facts
  imports Log_Trans Fs
begin

text \<open>
  The file system inside a transaction.  A process works on the blocks as the cache shows them (\<open>cview\<close>): it locks a block by
  \<^verbatim>\<open>bread\<close>, may change it and record it by \<^verbatim>\<open>log_write\<close>, and unlocks it by \<^verbatim>\<open>brelse\<close>.  The disk does not change before the commit.
\<close>

section \<open>Steps of a transaction\<close>

definition logged_set :: "'a log_scheme \<Rightarrow> u32 set" where
  "logged_set s = lh_block s ` {..<nat (lh_n s)}"

text \<open>The buffers \<open>H\<close> are locked; each of them is recorded in the log or as the disk has it.\<close>

definition trans_in :: "u32 \<Rightarrow> nat \<Rightarrow> nat \<Rightarrow> nat set \<Rightarrow> 'a log_scheme \<Rightarrow> bool" where
  "trans_in dev p st H s \<longleftrightarrow> (\<exists>P. trans_ready dev p H P st s \<and>
     (\<forall>b\<in>H. b \<notin> P \<longrightarrow> bdata (bufs s b) = disk s (unat (blockno (bufs s b)))))"

text \<open>From \<open>s\<close> to \<open>t\<close> the buffers \<open>K\<close> stay locked, at most the blocks \<open>W\<close> are recorded, and nothing outside the block layer changes.\<close>

definition keeps :: "u32 \<Rightarrow> nat \<Rightarrow> nat set \<Rightarrow> u32 set \<Rightarrow> 'a log_scheme \<Rightarrow> 'a log_scheme \<Rightarrow> bool" where
  "keeps dev p K W s t \<longleftrightarrow> disk t = disk s \<and> log_ctl t = log_ctl s \<and> log.more t = log.more s \<and> ptab t p = ptab s p \<and>
     mem t = mem s \<and> logged_set t \<subseteq> logged_set s \<union> W \<and> (\<forall>b\<in>K. blockno (bufs t b) = blockno (bufs s b))"

lemma keeps_refl [simp]: "keeps dev p K W s s"
  by (simp add: keeps_def)

lemma keeps_trans: "keeps dev p K W s t \<Longrightarrow> keeps dev p K V t u \<Longrightarrow> keeps dev p K (W \<union> V) s u"
  unfolding keeps_def by (auto 0 3)

lemma keeps_mono: "keeps dev p K W s t \<Longrightarrow> L \<subseteq> K \<Longrightarrow> W \<subseteq> V \<Longrightarrow> keeps dev p L V s t"
  unfolding keeps_def by blast

lemma more_settle [simp]: "log.more (settle s) = log.more s" 
  by (simp add: settle_def set_mycpu_def)

lemma frame_more:
  fixes s :: "'a log_scheme"
  assumes "bio_frame p s t"
  shows "log.more t = log.more s" "mem t = mem s"
proof -
  note e = assms [unfolded bio_frame_def drv_frame_def, THEN conjunct2]
  show "log.more t = log.more s" "mem t = mem s" using arg_cong [OF e, of log.more] arg_cong [OF e, of mem] by simp_all
qed

lemma frame_keeps:
  fixes s :: "'a log_scheme"
  assumes f: "bio_frame p s t" and "disk t = disk s" "\<And>b. b \<in> K \<Longrightarrow> blockno (bufs t b) = blockno (bufs s b)"
  shows "keeps dev p K W s t"
  using assms frame_more [OF f] log_ctl_frame [OF f] bio_frame_log [OF f] by (auto simp: keeps_def logged_set_def bio_frame_def)

text \<open>The size of the log is the number of recorded blocks.\<close>

lemma card_logged: "trans_in dev p st H s \<Longrightarrow> int (card (logged_set s)) = lh_n s"
  by (auto simp: trans_in_def trans_ready_def logged_set_def card_image)

lemma card_pinned:
  assumes t: "trans_ready dev p H P st s"
  shows "card P = card (logged_set s)" "finite P"
proof -
  have inv: "cache_inv dev p H P s" and P: "pins P (logged_set s) st s" using t by (simp_all add: trans_ready_def logged_set_def)
  have "P \<subseteq> {..<NBUF}" using cache_invD(6) [OF inv] by auto
  then show "finite P" by (rule finite_subset) simp
  have "inj_on (\<lambda>c. blockno (bufs s c)) P" using inj_on_blocks [OF inv] .
  then show "card P = card (logged_set s)" using P by (metis card_image pins_def)
qed

text \<open>Without locked buffers there is always a buffer left.\<close>

lemma logged_small:
  assumes "trans_in dev p st {} s"
  shows "card (logged_set s) < NBUF"
proof -
  obtain P where P: "trans_ready dev p {} P st s" using assms by (auto simp: trans_in_def)
  have "P \<noteq> {..<NBUF}" "P \<subseteq> {..<NBUF}" using P cache_invD(6) [of dev p "{}" P s] by (auto simp: trans_ready_def pins_def)
  then have "card P < card {..<NBUF}" by (intro psubset_card_mono) auto
  then show ?thesis using card_pinned(1) [OF P] by simp
qed

text \<open>What is needed of the log for one more block.\<close>

definition log_room :: "nat \<Rightarrow> 'a log_scheme \<Rightarrow> bool" where
  "log_room k s \<longleftrightarrow> int (card (logged_set s)) + int k \<le> log_size s - 1 \<and> log_size s \<le> int LOGSIZE \<and> 1 \<le> log_outstanding s"

lemma bread_in:
  fixes s :: "'a log_scheme"
  assumes dev: "blk_device d" and t: "trans_in dev p st H s" and y: "y \<notin> (\<lambda>b. blockno (bufs s b)) ` H" "unat y < 2 ^ 31"
    and room: "card H + card (logged_set s) < NBUF"
  shows "chl (serve d p) disk (\<lambda>E. E = disk s) (bread dev y s) (\<lambda>b t. b \<notin> H \<and> has_block dev y (bufs t b) \<and>
    trans_in dev p st (insert b H) t \<and> keeps dev p H {} s t \<and> cview dev t = cview dev s \<and> bdata (bufs t b) = cview dev s y)"
proof -
  obtain P where T: "trans_ready dev p H P st s" and cl: "\<forall>b\<in>H. b \<notin> P \<longrightarrow> bdata (bufs s b) = disk s (unat (blockno (bufs s b)))"
    using t by (auto simp: trans_in_def)
  note c = card_pinned [OF T]
  note T' = T [unfolded trans_ready_def]
  have inv: "cache_inv dev p H P s" using T' by blast
  have "card (H \<union> P) < card {..<NBUF}" using card_Un_le [of H P] room c(1) by simp
  then have "H \<union> P \<noteq> {..<NBUF}" by (metis less_irrefl)
  then have 1: "chl (serve d p) disk (\<lambda>E. E = disk s) (bread dev y s) (bread_post dev y p H P s)"
    using bread_ok [OF dev inv, of y] y by auto
  have "has_block dev y (bufs u b)" "trans_in dev p st (insert b H) u" "keeps dev p H {} s u" "cview dev u = cview dev s"
    "bdata (bufs u b) = cview dev s y" "b \<notin> H" if "bread_post dev y p H P s b u" for b u
  proof -
    note B = that [unfolded bread_post_def]
    have cu: "cache_inv dev p (insert b H) P u" and hb: "has_block dev y (bufs u b)" and f: "bio_frame p s u" and D: "disk u = disk s" using B by blast+
    have bn: "b < NBUF" using cache_invD(6) [OF cu, of b] by simp
    show v: "bdata (bufs u b) = cview dev s y" using cview_held [OF cu bn hb] B by simp
    show "has_block dev y (bufs u b)" "cview dev u = cview dev s" "b \<notin> H" using B by blast+
    show "keeps dev p H {} s u" by (rule frame_keeps [OF f D]) (use B in blast)
    have bl: "blockno (bufs u c) = blockno (bufs s c)" if "c \<in> P" for c using that B by auto
    have "(\<lambda>c. blockno (bufs u c)) ` P = (\<lambda>c. blockno (bufs s c)) ` P" using bl by (rule image_blockno_cong)
    then have pw: "pins P (lh_block s ` {..<nat (lh_n s)}) st u" using T' unfolding pins_def by metis
    have tu: "trans_ready dev p (insert b H) P st u" using T' cu pw at_log_frame [OF f] bio_frame_log [OF f] D unfolding trans_ready_def by simp
    have "bdata (bufs u c) = disk u (unat (blockno (bufs u c)))" if c: "c \<in> insert b H" "c \<notin> P" for c
    proof (cases "c = b")
      case True
      then have "\<And>e. e \<in> H \<union> P \<Longrightarrow> blockno (bufs s e) \<noteq> y" using c(2) y(1) B by blast
      then have "cview dev s y = disk s (unat y)" by (rule cview_unused [OF inv])
      then show ?thesis using True v hb D by (simp add: has_block_def)
    next
      case False
      then have cH: "c \<in> H" using c by blast
      have e: "blockno (bufs u c) = blockno (bufs s c)" using cH B by blast
      have "bdev (bufs u c) = dev" "c < NBUF" "bdev (bufs s c) = dev" using cache_invD(6) [OF cu, of c] cache_invD(6) [OF inv, of c] cH by auto
      then have "bdata (bufs u c) = cview dev u (blockno (bufs u c))" "bdata (bufs s c) = cview dev s (blockno (bufs s c))"
        using cview_held [OF cu, of c] cview_held [OF inv, of c] by (simp_all add: has_block_def)
      then show ?thesis using cl cH c(2) B e by simp
    qed
    then show "trans_in dev p st (insert b H) u" using tu by (auto simp: trans_in_def)
  qed
  then show ?thesis by (intro chl_post [OF 1]) blast
qed

lemma brelse_in:
  fixes s :: "'a log_scheme"
  assumes t: "trans_in dev p st (insert b H) s" and b: "b \<notin> H"
  shows "\<exists>t. brelse b s = Ok () t \<and> trans_in dev p st H t \<and> keeps dev p H {} s t \<and> cview dev t = cview dev s"
proof -
  obtain P where T: "trans_ready dev p (insert b H) P st s"
    and cl: "\<forall>b\<in>insert b H. b \<notin> P \<longrightarrow> bdata (bufs s b) = disk s (unat (blockno (bufs s b)))"
    using t by (auto simp: trans_in_def)
  note T' = T [unfolded trans_ready_def]
  have inv: "cache_inv dev p (insert b H) P s" using T' by blast
  have "insert b H - {b} = H" using b by blast
  then obtain x where x: "brelse b s = Ok () x" "kept dev p H P s x" "disk x = disk s"
    using brelse_ok [OF inv insertI1] cl by auto
  note K = x(2) [unfolded kept_def]
  note l = bio_frame_log [of p s x]
  have "pins P (lh_block s ` {..<nat (lh_n s)}) st x" using T' image_blockno_cong [of P x s] K unfolding pins_def by simp
  then have "trans_ready dev p H P st x" using T' K l at_log_frame [of p s x dev st] x(3) unfolding trans_ready_def by simp
  then have "trans_in dev p st H x" using cl K x(3) by (auto simp: trans_in_def)
  then show ?thesis using x K frame_keeps [of p s x H dev "{}"] by auto
qed

lemma log_write_in:
  fixes s :: "'a log_scheme"
  assumes t: "trans_in dev p st H s" and b: "b \<in> H" "has_block dev y (bufs s b)" "unat y \<notin> log_area st" and room: "log_room 1 s"
  shows "\<exists>t. log_write b (upd_buf b (bdata_update f) s) = Ok () t \<and> trans_in dev p st H t \<and> keeps dev p H {y} s t \<and>
    cview dev t = (cview dev s)(y := f (cview dev s y))"
proof -
  obtain P where T: "trans_ready dev p H P st s" and cl: "\<forall>b\<in>H. b \<notin> P \<longrightarrow> bdata (bufs s b) = disk s (unat (blockno (bufs s b)))"
    using t by (auto simp: trans_in_def)
  note T' = T [unfolded trans_ready_def]
  have inv: "cache_inv dev p H P s" using T' by blast
  let ?w = "upd_buf b (bdata_update f) s"
  note m = modify_ok [OF inv b(1,2), of f]
  note l = bio_frame_log [OF m(3)]
  have "(\<lambda>c. blockno (bufs ?w c)) ` P = (\<lambda>c. blockno (bufs s c)) ` P" by (rule image_blockno_cong) auto
  then have "pins P (lh_block s ` {..<nat (lh_n s)}) st ?w" using T' unfolding pins_def by metis
  then have tw: "trans_ready dev p H P st ?w" using T' m(1) at_log_frame [OF m(3)] l unfolding trans_ready_def by simp
  have bw: "has_block dev y (bufs ?w b)" using b(2) by (simp add: has_block_def)
  have n: "lh_n ?w < log_size ?w - 1" "log_size ?w \<le> int LOGSIZE" "1 \<le> log_outstanding ?w"
    using room l card_logged [OF t] by (auto simp: log_room_def)
  obtain w P' where w: "log_write b ?w = Ok () w" "trans_ready dev p H P' st w" "b \<in> P'" "disk w = disk ?w"
    "log_ctl w = log_ctl ?w" "cview dev w = cview dev ?w"
    using log_write_ok [OF tw b(1) bw b(3) n] by blast
  have bn: "b < NBUF" "bdata (bufs s b) = cview dev s y"
    using cache_invD(6) [OF inv, of b] b(1) cview_held [OF inv _ b(2)] by auto
  define k where "k = nat (lh_n s)"
  have k: "lh_n ?w = int k" "k < LOGSIZE" "int k < log_size ?w - 1" using n T' l by (auto simp: k_def)
  note eq = log_write_eq [OF cache_invD(1) [OF m(1)] k n(3), of b]
  have y: "blockno (bufs ?w b) = y" using b(2) by (simp add: has_block_def)
  have W: "logged_set w = insert y (logged_set s) \<and> log.more w = log.more s \<and> ptab w = ptab s \<and> mem w = mem s \<and>
    (\<forall>c. blockno (bufs w c) = blockno (bufs s c)) \<and> (\<forall>c. c \<noteq> b \<longrightarrow> bdata (bufs w c) = bdata (bufs s c))"
  proof (cases "y \<in> lh_block ?w ` {..<k}")
    case True
    have "w = settle ?w" using eq(1) w(1) y True by simp
    then show ?thesis using True l by (auto simp: logged_set_def upd_buf_def k_def)
  next
    case False
    have "w = (settle (upd_buf b (refcnt_update (\<lambda>_. refcnt (bufs ?w b) + 1)) ?w))\<lparr>lh_block := (lh_block ?w)(k := y), lh_n := int (Suc k)\<rparr>"
      using eq(2) w(1) y False by simp
    moreover have "nat (1 + int k) = Suc k" by simp
    ultimately show ?thesis using l by (auto simp: logged_set_def upd_buf_def k_def lessThan_Suc)
  qed
  have "bdata (bufs w c) = disk w (unat (blockno (bufs w c)))" if c: "c \<in> H" "c \<notin> P'" for c
  proof -
    have cb: "c \<noteq> b" using c w(3) by blast
    have "c \<notin> P"
    proof
      assume cP: "c \<in> P"
      have "blockno (bufs s c) \<in> lh_block s ` {..<nat (lh_n s)}" using cP T' unfolding pins_def by blast
      then have "blockno (bufs s c) \<in> logged_set w" using W by (auto simp: logged_set_def)
      then have "blockno (bufs w c) \<in> (\<lambda>c. blockno (bufs w c)) ` P'" using W w(2) unfolding trans_ready_def pins_def logged_set_def by simp
      then obtain e where e: "e \<in> P'" "blockno (bufs w e) = blockno (bufs w c)" by auto
      have iw: "cache_inv dev p H P' w" using w(2) by (simp add: trans_ready_def)
      have "e = c" using cache_invD(3) [OF iw, of e c "blockno (bufs w c)"] cache_invD(6) [OF iw] e c(1) by (auto simp: has_block_def)
      then show False using e c(2) by blast
    qed
    then show ?thesis using cl c(1) W cb w(4) by simp
  qed
  then have "trans_in dev p st H w" using w(2) by (auto simp: trans_in_def)
  moreover have "keeps dev p H {y} s w" using W w(4,5) log_ctl_frame [OF m(3)] by (auto simp: keeps_def)
  ultimately show ?thesis using w(1,6) m(2) bn(2) by auto
qed

text \<open>The state after a routine: the buffers \<open>H\<close> are locked as before, at most \<open>W\<close> is recorded, and the blocks are \<open>v\<close>.\<close>

definition moves :: "u32 \<Rightarrow> nat \<Rightarrow> nat \<Rightarrow> nat set \<Rightarrow> u32 set \<Rightarrow> (u32 \<Rightarrow> byte list) \<Rightarrow> 'a log_scheme \<Rightarrow> 'a log_scheme \<Rightarrow> bool" where
  "moves dev p st H W v s t \<longleftrightarrow> trans_in dev p st H t \<and> keeps dev p H W s t \<and> cview dev t = v"

lemma moves_trans: "moves dev p st H W v s t \<Longrightarrow> moves dev p st H V w t u \<Longrightarrow> moves dev p st H (W \<union> V) w s u"
  by (auto simp: moves_def intro: keeps_trans)

lemma moves_refl: "trans_in dev p st H s \<Longrightarrow> moves dev p st H {} (cview dev s) s s"
  by (simp add: moves_def)

lemma moves_mono: "moves dev p st H W v s t \<Longrightarrow> W \<subseteq> V \<Longrightarrow> moves dev p st H V v s t"
  by (auto simp: moves_def intro: keeps_mono)

lemma moves_disk: "moves dev p st H W v s t \<Longrightarrow> disk t = disk s"
  by (simp add: moves_def keeps_def)

lemma finite_logged [simp]: "finite (logged_set s)"
  by (simp add: logged_set_def)

lemma log_room_keeps:
  assumes "keeps dev p H W s t" "log_room (k + card W) s" "finite W"
  shows "log_room k t"
proof -
  have k: "logged_set t \<subseteq> logged_set s \<union> W" "log_ctl t = log_ctl s" using assms(1) by (auto simp: keeps_def)
  have "card (logged_set t) \<le> card (logged_set s \<union> W)" by (rule card_mono) (use k assms(3) in auto)
  also have "\<dots> \<le> card (logged_set s) + card W" by (rule card_Un_le)
  finally show ?thesis using assms(2) k(2) by (auto simp: log_room_def log_ctl_def)
qed

lemma log_room_buffers: "log_room 1 s \<Longrightarrow> card H \<le> 1 \<Longrightarrow> card H + card (logged_set s) < NBUF"
  by (auto simp: log_room_def LOGSIZE_def MAXOPBLOCKS_def NBUF_def)

lemma log_room_less: "log_room k s \<Longrightarrow> j \<le> k \<Longrightarrow> log_room j s"
  by (auto simp: log_room_def)

lemma keeps_fs:
  fixes s :: "'a fs_scheme"
  assumes "keeps dev p K W s t"
  shows "sb t = sb s" "inodes t = inodes s"
proof -
  have "log.more t = log.more s" using assms by (simp add: keeps_def)
  then show "sb t = sb s" "inodes t = inodes s" by (cases s; cases t; simp)+
qed

lemma update_in:
  fixes s :: "'a log_scheme"
  assumes dev: "blk_device d" and t: "trans_in dev p st H s" and y: "y \<notin> (\<lambda>b. blockno (bufs s b)) ` H" "unat y < 2 ^ 31" "unat y \<notin> log_area st"
    and room: "log_room 1 s" "card H \<le> 1"
  shows "chl (serve d p) disk (\<lambda>E. E = disk s) (update_block dev (y, f) s)
    (\<lambda>_. moves dev p st H {y} ((cview dev s)(y := f (cview dev s y))) s)"
  unfolding update_block_def fst_conv snd_conv
proof (rule chl_and_then [OF bread_in [OF dev t y(1,2) log_room_buffers [OF room]]], elim conjE)
  fix b and u :: "'a log_scheme"
  assume b: "b \<notin> H" "has_block dev y (bufs u b)" and u: "trans_in dev p st (insert b H) u" "keeps dev p H {} s u" "cview dev u = cview dev s"
  have r: "log_room 1 u" using log_room_keeps [OF u(2), of 1] room by simp
  obtain w where w: "log_write b (upd_buf b (bdata_update f) u) = Ok () w" "trans_in dev p st (insert b H) w"
    "keeps dev p (insert b H) {y} u w" "cview dev w = (cview dev u)(y := f (cview dev u y))"
    using log_write_in [OF u(1) insertI1 b(2) y(3) r] by blast
  obtain x where x: "brelse b w = Ok () x" "trans_in dev p st H x" "keeps dev p H {} w x" "cview dev x = cview dev w"
    using brelse_in [OF w(2) b(1)] by blast
  have "keeps dev p H {y} u w" by (rule keeps_mono [OF w(3)]) auto
  then have "keeps dev p H {y} s x" using keeps_trans [OF keeps_trans [OF u(2)] x(3)] by simp
  then show "chl (serve d p) disk (\<lambda>E. E = disk s) (and_then (log_write b (upd_buf b (bdata_update f) u)) (\<lambda>_ s. brelse b s))
      (\<lambda>_. moves dev p st H {y} ((cview dev s)(y := f (cview dev s y))) s)"
    using w x u(3) by (simp add: moves_def)
qed

section \<open>Allocating blocks\<close>

definition bit_used :: "superblock \<Rightarrow> (u32 \<Rightarrow> byte list) \<Rightarrow> u32 \<Rightarrow> bool" where
  "bit_used su v b \<longleftrightarrow> (v (BBLOCK b su) ! (unat b mod BPB div 8)) AND bit_mask (unat b mod BPB) \<noteq> 0"

definition bmap_blocks :: "superblock \<Rightarrow> u32 set" where
  "bmap_blocks su = (\<lambda>b. BBLOCK b su) ` {b. b < fssize su}"

text \<open>The bitmap lies outside the log, and it marks itself and the log as used.\<close>

definition alloc_ok :: "nat \<Rightarrow> superblock \<Rightarrow> (u32 \<Rightarrow> byte list) \<Rightarrow> bool" where
  "alloc_ok st su v \<longleftrightarrow> unat (fssize su) < 2 ^ 31 \<and>
     (\<forall>y\<in>bmap_blocks su. length (v y) = BSIZE \<and> unat y \<notin> log_area st \<and> unat y < 2 ^ 31) \<and>
     (\<forall>b<fssize su. \<not> bit_used su v b \<longrightarrow> b \<notin> bmap_blocks su \<and> unat b \<notin> log_area st)"

lemma unat_u32: "n < 2 ^ 32 \<Longrightarrow> unat (of_nat n :: u32) = n"
  by (simp add: unat_of_nat take_bit_nat_eq_self)

lemma BPB_val [simp]: "BPB = 8192"
  by (simp add: BPB_def BSIZE_def)

lemma mod8: "n mod BPB mod 8 = n mod 8"
  by (simp add: mod_mod_cancel)

lemma BBLOCK_eq: "BBLOCK b su = of_nat (unat b div BPB) + bmapstart su"
proof -
  have "unat (b div 8192) = unat b div 8192" by (simp add: unat_div)
  then have "b div 8192 = of_nat (unat b div 8192)" by (metis of_nat_unat ucast_id)
  then show ?thesis by (simp add: BBLOCK_def)
qed

lemma BBLOCK_cong: "unat b div BPB = unat c div BPB \<Longrightarrow> BBLOCK b su = BBLOCK c su"
  by (simp add: BBLOCK_eq)

lemma bit_mask_and: "(x::byte) AND bit_mask i \<noteq> 0 \<longleftrightarrow> bit x (i mod 8)"
  by (simp add: bit_mask_def bit_iff_and_push_bit_not_eq_0)

lemma bit_bit_mask: "bit (bit_mask i) k \<longleftrightarrow> k = i mod 8"
  by (auto simp: bit_mask_def bit_simps)

lemma first_free_Some:
  assumes "first_free bs n = Some i"
  shows "i < n" "\<not> bit (bs ! (i div 8)) (i mod 8)" "\<And>j. j < i \<Longrightarrow> bit (bs ! (j div 8)) (j mod 8)"
proof -
  obtain k where k: "k < n" "i = [0..<n] ! k" "bs ! (i div 8) AND bit_mask i = 0"
    "\<forall>j<k. bs ! (([0..<n] ! j) div 8) AND bit_mask ([0..<n] ! j) \<noteq> 0"
    using assms by (auto simp: first_free_def find_Some_iff)
  then show "i < n" "\<not> bit (bs ! (i div 8)) (i mod 8)" "\<And>j. j < i \<Longrightarrow> bit (bs ! (j div 8)) (j mod 8)"
    using bit_mask_and by auto
qed

lemma first_free_None: "first_free bs n = None \<Longrightarrow> j < n \<Longrightarrow> bit (bs ! (j div 8)) (j mod 8)"
  using bit_mask_and by (auto simp: first_free_def find_None_iff)

lemma bit_used_iff: "bit_used su v b \<longleftrightarrow> bit (v (BBLOCK b su) ! (unat b mod BPB div 8)) (unat b mod 8)"
  unfolding bit_used_def bit_mask_and by (simp add: mod_mod_cancel)

text \<open>The blocks after block \<open>a\<close> has been marked and cleared.\<close>

definition taken :: "superblock \<Rightarrow> u32 \<Rightarrow> (u32 \<Rightarrow> byte list) \<Rightarrow> u32 \<Rightarrow> byte list" where
  "taken su a v = v(BBLOCK a su := (v (BBLOCK a su))[unat a mod BPB div 8 := (v (BBLOCK a su) ! (unat a mod BPB div 8)) OR bit_mask (unat a)],
     a := replicate BSIZE 0)"

text \<open>The locked buffers hold blocks in use.\<close>

definition held_used :: "nat set \<Rightarrow> superblock \<Rightarrow> (u32 \<Rightarrow> byte list) \<Rightarrow> 'a virtio_scheme \<Rightarrow> bool" where
  "held_used H su v s \<longleftrightarrow> (\<forall>b\<in>H. blockno (bufs s b) \<notin> bmap_blocks su \<and> (blockno (bufs s b) < fssize su \<longrightarrow> bit_used su v (blockno (bufs s b))))"

lemma held_used_keeps: "keeps dev p H W s t \<Longrightarrow> held_used H su v s \<Longrightarrow> held_used H su v t"
  by (simp add: held_used_def keeps_def)

lemma balloc_found:
  fixes s :: "'a fs_scheme"
  assumes dev: "blk_device d" and u: "trans_in dev p st (insert bp H) u" and bp: "bp \<notin> H" "has_block dev (BBLOCK a (sb s)) (bufs u bp)"
    and k: "keeps dev p H {} s u" and v: "cview dev u = cview dev s" and A: "alloc_ok st (sb s) (cview dev s)" and room: "log_room 2 s" "card H \<le> 1"
    and H: "held_used H (sb s) (cview dev s) s" and a: "a < fssize (sb s)" "\<not> bit_used (sb s) (cview dev s) a"
    and i: "i div 8 = unat a mod BPB div 8" "i mod 8 = unat a mod 8"
  shows "chl (serve d p) disk (\<lambda>E. E = disk s)
    (and_then (log_write bp (set_data bp (\<lambda>d. d[i div 8 := (d ! (i div 8)) OR bit_mask i]) u)) (\<lambda>_ s.
       and_then (brelse bp s) (\<lambda>_ s. and_then (bzero dev a s) (\<lambda>_ s. Ok a s))))
    (\<lambda>r t. r = a \<and> moves dev p st H {BBLOCK a (sb s), a} (taken (sb s) a (cview dev s)) s t)"
proof -
  let ?y = "BBLOCK a (sb s)" and ?f = "\<lambda>d. d[i div 8 := (d ! (i div 8)) OR bit_mask i]"
  have m: "bit_mask i = bit_mask (unat a)" using i(2) by (simp add: bit_mask_def)
  have y: "?y \<in> bmap_blocks (sb s)" using a(1) by (auto simp: bmap_blocks_def)
  then have yl: "unat ?y \<notin> log_area st" using A by (simp add: alloc_ok_def)
  have al: "a \<notin> bmap_blocks (sb s)" "unat a \<notin> log_area st" "unat a < 2 ^ 31" using A a by (auto simp: alloc_ok_def word_less_nat_alt)
  have ru: "log_room 2 u" using log_room_keeps [OF k, of 2] room by simp
  obtain w where w: "log_write bp (upd_buf bp (bdata_update ?f) u) = Ok () w" "trans_in dev p st (insert bp H) w"
    "keeps dev p (insert bp H) {?y} u w" "cview dev w = (cview dev u)(?y := ?f (cview dev u ?y))"
    using log_write_in [OF u insertI1 bp(2) yl log_room_less [OF ru]] by auto
  obtain x where x: "brelse bp w = Ok () x" "trans_in dev p st H x" "keeps dev p H {} w x" "cview dev x = cview dev w"
    using brelse_in [OF w(2) bp(1)] by blast
  have "keeps dev p H {?y} u w" by (rule keeps_mono [OF w(3)]) auto
  then have kx: "keeps dev p H {?y} s x" using keeps_trans [OF keeps_trans [OF k] x(3)] by simp
  have rx: "log_room 1 x" using log_room_keeps [OF kx, of 1] room by (simp add: numeral_2_eq_2)
  have "a \<notin> (\<lambda>b. blockno (bufs x b)) ` H" using held_used_keeps [OF kx H] a by (auto simp: held_used_def)
  then have z: "chl (serve d p) disk (\<lambda>E. E = disk x) (bzero dev a x)
      (\<lambda>_. moves dev p st H {a} ((cview dev x)(a := replicate BSIZE 0)) x)"
    using update_in [OF dev x(2) _ al(3,2) rx room(2), of "\<lambda>_. replicate BSIZE 0"]
    by (simp add: bzero_def update_block_def set_data_def)
  have vx: "(cview dev x)(a := replicate BSIZE 0) = taken (sb s) a (cview dev s)"
    unfolding taken_def x(4) w(4) v m i(1) by (rule refl)
  have "disk x = disk s" using kx by (simp add: keeps_def)
  then show ?thesis unfolding set_data_def w(1) and_then.simps x(1)
  proof (intro chl_and_then [OF z [unfolded vx \<open>disk x = disk s\<close>]])
    fix e and t :: "'a fs_scheme"
    assume "moves dev p st H {a} (taken (sb s) a (cview dev s)) x t"
    then have "moves dev p st H {?y, a} (taken (sb s) a (cview dev s)) s t"
      using keeps_trans [OF kx, of "{a}" t] by (simp add: moves_def insert_commute)
    then show "chl (serve d p) disk (\<lambda>E. E = disk s) (Ok a t) (\<lambda>r t. r = a \<and> moves dev p st H {?y, a} (taken (sb s) a (cview dev s)) s t)" by simp
  qed
qed

lemma balloc_loop_ok:
  fixes s :: "'a fs_scheme"
  assumes dev: "blk_device d" and free: "\<exists>x<fssize su. \<not> bit_used su v x" and A: "alloc_ok st su v"
  shows "trans_in dev p st H s \<Longrightarrow> sb s = su \<Longrightarrow> cview dev s = v \<Longrightarrow> log_room 2 s \<Longrightarrow> card H \<le> 1 \<Longrightarrow> held_used H su v s \<Longrightarrow>
    b = BPB * j \<Longrightarrow> \<forall>x. unat x < b \<longrightarrow> x < fssize su \<longrightarrow> bit_used su v x \<Longrightarrow>
    chl (serve d p) disk (\<lambda>E. E = disk s) (balloc_loop b dev s)
      (\<lambda>a t. a < fssize su \<and> \<not> bit_used su v a \<and> (\<forall>x<a. bit_used su v x) \<and> moves dev p st H {BBLOCK a su, a} (taken su a v) s t)"
proof (induction "unat (fssize su) - b" arbitrary: b j s rule: less_induct)
  case less
  note p = less.prems
  let ?Q = "\<lambda>s a t. a < fssize su \<and> \<not> bit_used su v a \<and> (\<forall>x<a. bit_used su v x) \<and> moves dev p st H {BBLOCK a su, a} (taken su a v) s t"
  obtain x0 where x0: "x0 < fssize su" "\<not> bit_used su v x0" using free by blast
  then have "\<not> unat x0 < b" using p(8) by blast
  then have b: "b < unat (fssize su)" "b < 2 ^ 32" using x0(1) A by (auto simp: word_less_nat_alt alloc_ok_def)
  let ?b = "of_nat b :: u32"
  have ub: "unat ?b = b" using b(2) by (simp add: unat_of_nat take_bit_nat_eq_self)
  have "BBLOCK ?b su \<in> bmap_blocks su" using b(1) ub by (auto simp: bmap_blocks_def word_less_nat_alt)
  then have y: "unat (BBLOCK ?b su) < 2 ^ 31" "BBLOCK ?b su \<notin> (\<lambda>b. blockno (bufs s b)) ` H" using A p(6) by (auto simp: alloc_ok_def held_used_def)
  have same: "BBLOCK x su = BBLOCK ?b su" "unat x mod BPB = unat x - b" if "b \<le> unat x" "unat x < b + BPB" for x
  proof -
    have "unat x div BPB = j" using that p(7) by (simp add: div_nat_eqI)
    then show "BBLOCK x su = BBLOCK ?b su" "unat x mod BPB = unat x - b" using p(7) ub by (simp_all add: BBLOCK_eq modulo_nat_def)
  qed
  show ?case
    unfolding balloc_loop.simps [of b dev s] p(2)
  proof (simp only: b if_True simp_thms, rule chl_and_then [OF bread_in [OF dev p(1) y(2,1) log_room_buffers [OF log_room_less [OF p(4)] p(5)]]], simp, elim conjE)
    fix bp and u :: "'a fs_scheme"
    assume bp: "bp \<notin> H" "has_block dev (BBLOCK ?b su) (bufs u bp)" and u: "trans_in dev p st (insert bp H) u" "keeps dev p H {} s u"
      "cview dev u = cview dev s" "bdata (bufs u bp) = cview dev s (BBLOCK ?b su)"
    have su: "sb u = su" using keeps_fs(1) [OF u(2)] p(2) by simp
    let ?n = "min BPB (unat (fssize su) - b)"
    show "chl (serve d p) disk (\<lambda>E. E = disk s)
       (case first_free (bdata (bufs u bp)) (min BPB (unat (fssize (sb u)) - b)) of
         None \<Rightarrow> and_then (brelse bp u) (\<lambda>_. balloc_loop (b + BPB) dev)
       | Some bi \<Rightarrow>
           let s = set_data bp (\<lambda>d. d[bi div 8 := (d ! (bi div 8)) OR bit_mask bi]) u
           in and_then (log_write bp s) (\<lambda>_ s. and_then (brelse bp s) (\<lambda>_ s.
              and_then (bzero dev (of_nat (b + bi)) s) (\<lambda>_ s. Ok (of_nat (b + bi)) s)))) (?Q s)"
    proof (cases "first_free (bdata (bufs u bp)) ?n")
      case None
      have all: "bit_used su v x" if "unat x < b + BPB" "x < fssize su" for x
      proof (cases "unat x < b")
        case False
        then have r: "b \<le> unat x" "unat x - b < ?n" using that by (auto simp: word_less_nat_alt)
        have "(unat x - b) mod 8 = unat x mod 8" using same(2) [OF r(1) that(1)] by (metis mod8)
        then show ?thesis using first_free_None [OF None r(2)] same [OF r(1) that(1)] u(4) p(3) by (simp add: bit_used_iff)
      qed (use p(8) that in blast)
      obtain t where t: "brelse bp u = Ok () t" "trans_in dev p st H t" "keeps dev p H {} u t" "cview dev t = cview dev u"
        using brelse_in [OF u(1) bp(1)] by blast
      have k: "keeps dev p H {} s t" using keeps_trans [OF u(2) t(3)] by simp
      have D: "disk t = disk s" using k by (simp add: keeps_def)
      have "chl (serve d p) disk (\<lambda>E. E = disk t) (balloc_loop (b + BPB) dev t) (?Q t)"
      proof (rule less.hyps)
        show "unat (fssize su) - (b + BPB) < unat (fssize su) - b" using b(1) by simp
        show "sb t = su" "log_room 2 t" "held_used H su v t" using keeps_fs(1) [OF k] p log_room_keeps [OF k, of 2] held_used_keeps [OF k] by simp_all
        show "cview dev t = v" "b + BPB = BPB * Suc j" "trans_in dev p st H t" "card H \<le> 1" using t u p by simp_all
      qed (use all in blast)
      then have "chl (serve d p) disk (\<lambda>E. E = disk s) (balloc_loop (b + BPB) dev t) (?Q s)"
        unfolding D using keeps_trans [OF k] by (elim chl_post) (auto simp: moves_def)
      then show ?thesis using None t(1) su by simp
    next
      case (Some i)
      note ff = first_free_Some [OF Some]
      define a where "a = (of_nat (b + i) :: u32)"
      have ua: "unat a = b + i" unfolding a_def by (rule unat_u32) (use ff(1) A in \<open>auto simp: alloc_ok_def\<close>)
      have r: "b \<le> unat a" "unat a < b + BPB" using ua ff(1) by simp_all
      have i: "unat a mod BPB = i" "BBLOCK a su = BBLOCK ?b su" using same [OF r] ua by simp_all
      have m8: "unat a mod 8 = i mod 8" using i(1) by (metis mod8)
      have a: "a < fssize su" "\<not> bit_used su v a" using ff(1,2) ua i m8 u(4) p(3) by (auto simp: word_less_nat_alt bit_used_iff)
      have least: "bit_used su v x" if "x < a" for x
      proof (cases "unat x < b")
        case False
        then have rx: "b \<le> unat x" "unat x < b + BPB" "unat x - b < i" using that ff(1) ua by (auto simp: word_less_nat_alt)
        have "(unat x - b) mod 8 = unat x mod 8" using same(2) [OF rx(1,2)] by (metis mod8)
        then show ?thesis using ff(3) [OF rx(3)] same [OF rx(1,2)] u(4) p(3) by (simp add: bit_used_iff)
      qed (use p(8) that a(1) in auto)
      have "chl (serve d p) disk (\<lambda>E. E = disk s)
        (and_then (log_write bp (set_data bp (\<lambda>d. d[i div 8 := (d ! (i div 8)) OR bit_mask i]) u)) (\<lambda>_ s.
           and_then (brelse bp s) (\<lambda>_ s. and_then (bzero dev a s) (\<lambda>_ s. Ok a s))))
        (\<lambda>r t. r = a \<and> moves dev p st H {BBLOCK a (sb s), a} (taken (sb s) a (cview dev s)) s t)"
        by (rule balloc_found [OF dev u(1) bp(1) _ u(2,3)]) (use A p a bp i m8 in simp_all)
      then have "chl (serve d p) disk (\<lambda>E. E = disk s)
        (and_then (log_write bp (set_data bp (\<lambda>d. d[i div 8 := (d ! (i div 8)) OR bit_mask i]) u)) (\<lambda>_ s.
           and_then (brelse bp s) (\<lambda>_ s. and_then (bzero dev a s) (\<lambda>_ s. Ok a s)))) (?Q s)"
        by (rule chl_post) (use a least p in auto)
      then show ?thesis using Some su by (simp add: Let_def a_def [symmetric] del: of_nat_add)
    qed
  qed
qed

lemma BBLOCK_inj: "BBLOCK b su = BBLOCK c su \<Longrightarrow> unat b div BPB = unat c div BPB"
proof -
  assume "BBLOCK b su = BBLOCK c su"
  then have "(of_nat (unat b div BPB) :: u32) = of_nat (unat c div BPB)" by (simp add: BBLOCK_eq)
  moreover have "unat x div BPB < 2 ^ 32" for x :: u32 using unsigned_less [of x, where ?'a = nat] by (simp add: less_mult_imp_div_less)
  ultimately show ?thesis by (metis unat_u32)
qed

lemma same_bit:
  fixes b c :: u32
  assumes "unat b div BPB = unat c div BPB" "unat b mod BPB div 8 = unat c mod BPB div 8" "unat b mod 8 = unat c mod 8"
  shows "b = c"
proof -
  have "unat b mod BPB = unat c mod BPB"
    using assms(2,3) mod8 [of "unat b"] mod8 [of "unat c"] by (metis div_mult_mod_eq)
  then show ?thesis using assms(1) by (metis div_mult_mod_eq word_unat_eq_iff)
qed

lemma BBLOCK_bmap: "b < fssize su \<Longrightarrow> BBLOCK b su \<in> bmap_blocks su"
  by (auto simp: bmap_blocks_def)

lemma bit_byte_small [simp]: "n mod BPB div 8 < BSIZE"
  by (simp add: BSIZE_def less_mult_imp_div_less)

lemma bit_used_set:
  assumes A: "alloc_ok st su v" and a: "a < fssize su" "x < fssize su" and y: "y = BBLOCK a su" and w: "\<forall>z\<in>bmap_blocks su. z \<noteq> y \<longrightarrow> w z = v z"
    and wy: "w y = (v y)[unat a mod BPB div 8 := c]" and c: "\<And>k. k \<noteq> unat a mod 8 \<Longrightarrow> k < 8 \<Longrightarrow> bit c k = bit (v y ! (unat a mod BPB div 8)) k"
  shows "bit_used su w x \<longleftrightarrow> (if x = a then bit c (unat a mod 8) else bit_used su v x)"
proof (cases "BBLOCK x su = y")
  case True
  then have d: "unat x div BPB = unat a div BPB" using y BBLOCK_inj by blast
  have l: "unat a mod BPB div 8 < length (v y)" using A BBLOCK_bmap [OF a(1)] y bit_byte_small [of "unat a"] by (auto simp: alloc_ok_def)
  show ?thesis
  proof (cases "unat x mod BPB div 8 = unat a mod BPB div 8")
    case same: True
    have "x = a \<longleftrightarrow> unat x mod 8 = unat a mod 8" using same_bit [OF d same] by auto
    then show ?thesis using True same l wy c [of "unat x mod 8"] by (auto simp: bit_used_iff)
  next
    case False
    then show ?thesis using True wy by (auto simp: bit_used_iff)
  qed
next
  case False
  then show ?thesis using w BBLOCK_bmap [OF a(2)] y by (auto simp: bit_used_iff)
qed

lemma taken_facts:
  assumes A: "alloc_ok st su v" and a: "a < fssize su" "\<not> bit_used su v a"
  shows "x < fssize su \<Longrightarrow> bit_used su (taken su a v) x \<longleftrightarrow> x = a \<or> bit_used su v x"
    "alloc_ok st su (taken su a v)" "taken su a v a = replicate BSIZE 0"
    "x \<noteq> a \<Longrightarrow> x \<noteq> BBLOCK a su \<Longrightarrow> taken su a v x = v x" "a \<notin> bmap_blocks su"
    "z \<in> bmap_blocks su \<Longrightarrow> length (taken su a v z) = BSIZE"
proof -
  show n: "a \<notin> bmap_blocks su" using A a by (simp add: alloc_ok_def)
  have y: "BBLOCK a su \<noteq> a" using n BBLOCK_bmap [OF a(1)] by metis
  have u: "bit_used su (taken su a v) x \<longleftrightarrow> x = a \<or> bit_used su v x" if "x < fssize su" for x
  proof -
    have "bit_used su (taken su a v) x \<longleftrightarrow>
      (if x = a then bit (v (BBLOCK a su) ! (unat a mod BPB div 8) OR bit_mask (unat a)) (unat a mod 8) else bit_used su v x)"
      by (rule bit_used_set [OF A a(1) that refl]) (use n y in \<open>auto simp: taken_def bit_simps bit_bit_mask\<close>)
    then show ?thesis by (simp add: bit_simps bit_bit_mask)
  qed
  show l: "z \<in> bmap_blocks su \<Longrightarrow> length (taken su a v z) = BSIZE" for z using A n y by (auto simp: taken_def alloc_ok_def)
  show "x < fssize su \<Longrightarrow> bit_used su (taken su a v) x \<longleftrightarrow> x = a \<or> bit_used su v x" by (rule u)
  show "alloc_ok st su (taken su a v)" using A l u by (auto simp: alloc_ok_def)
  show "taken su a v a = replicate BSIZE 0" "x \<noteq> a \<Longrightarrow> x \<noteq> BBLOCK a su \<Longrightarrow> taken su a v x = v x" by (simp_all add: taken_def)
qed

lemma balloc_ok:
  fixes s :: "'a fs_scheme"
  assumes "blk_device d" "trans_in dev p st H s" "alloc_ok st (sb s) (cview dev s)" "log_room 2 s" "card H \<le> 1"
    "held_used H (sb s) (cview dev s) s" "\<exists>x<fssize (sb s). \<not> bit_used (sb s) (cview dev s) x"
  shows "chl (serve d p) disk (\<lambda>E. E = disk s) (balloc dev s)
    (\<lambda>a t. a < fssize (sb s) \<and> \<not> bit_used (sb s) (cview dev s) a \<and> (\<forall>x<a. bit_used (sb s) (cview dev s) x) \<and>
       moves dev p st H {BBLOCK a (sb s), a} (taken (sb s) a (cview dev s)) s t)"
  unfolding balloc_def by (rule balloc_loop_ok [where j = 0]) (use assms in auto)

text \<open>Freeing a block clears its bit and nothing else.\<close>

definition released :: "superblock \<Rightarrow> u32 \<Rightarrow> (u32 \<Rightarrow> byte list) \<Rightarrow> u32 \<Rightarrow> byte list" where
  "released su a v = v(BBLOCK a su := (v (BBLOCK a su))[unat a mod BPB div 8 := (v (BBLOCK a su) ! (unat a mod BPB div 8)) AND NOT (bit_mask (unat a))])"

lemma bit_mask_mod: "bit_mask (n mod BPB) = bit_mask n"
  by (simp add: bit_mask_def mod_mod_cancel)

lemma bfree_ok:
  fixes s :: "'a fs_scheme"
  assumes dev: "blk_device d" and t: "trans_in dev p st H s" and A: "alloc_ok st (sb s) (cview dev s)" and room: "log_room 1 s" "card H \<le> 1"
    and H: "held_used H (sb s) (cview dev s) s" and a: "a < fssize (sb s)" "bit_used (sb s) (cview dev s) a"
  shows "chl (serve d p) disk (\<lambda>E. E = disk s) (bfree dev a s)
    (\<lambda>_. moves dev p st H {BBLOCK a (sb s)} (released (sb s) a (cview dev s)) s)"
proof -
  let ?y = "BBLOCK a (sb s)" and ?i = "unat a mod BPB div 8"
  have y: "?y \<in> bmap_blocks (sb s)" by (rule BBLOCK_bmap [OF a(1)])
  have yl: "unat ?y \<notin> log_area st" "unat ?y < 2 ^ 31" "?y \<notin> (\<lambda>b. blockno (bufs s b)) ` H" using A H y by (auto simp: alloc_ok_def held_used_def)
  show ?thesis
    unfolding bfree_def
  proof (rule chl_and_then [OF bread_in [OF dev t yl(3,2) log_room_buffers [OF room]]], elim conjE)
    fix b and u :: "'a fs_scheme"
    assume b: "b \<notin> H" "has_block dev ?y (bufs u b)" and u: "trans_in dev p st (insert b H) u" "keeps dev p H {} s u" "cview dev u = cview dev s"
      "bdata (bufs u b) = cview dev s ?y"
    let ?f = "\<lambda>d. d[?i := (d ! ?i) AND NOT (bit_mask (unat a mod BPB))]"
    have r: "log_room 1 u" using log_room_keeps [OF u(2), of 1] room by simp
    obtain w where w: "log_write b (upd_buf b (bdata_update ?f) u) = Ok () w" "trans_in dev p st (insert b H) w"
      "keeps dev p (insert b H) {?y} u w" "cview dev w = (cview dev u)(?y := ?f (cview dev u ?y))"
      using log_write_in [OF u(1) insertI1 b(2) yl(1) r] by blast
    obtain x where x: "brelse b w = Ok () x" "trans_in dev p st H x" "keeps dev p H {} w x" "cview dev x = cview dev w"
      using brelse_in [OF w(2) b(1)] by blast
    have "keeps dev p H {?y} u w" by (rule keeps_mono [OF w(3)]) auto
    then have "keeps dev p H {?y} s x" using keeps_trans [OF keeps_trans [OF u(2)] x(3)] by simp
    moreover have "cview dev x = released (sb s) a (cview dev s)" unfolding x(4) w(4) u(3) released_def bit_mask_mod ..
    moreover have "bdata (bufs u b) ! ?i AND bit_mask (unat a mod BPB) \<noteq> 0" using a(2) u(4) by (simp add: bit_used_def)
    ultimately show "chl (serve d p) disk (\<lambda>E. E = disk s)
        (let bi = unat a mod BPB; m = bit_mask bi
         in if bdata (bufs u b) ! (bi div 8) AND m = 0 then Panic ''freeing free block''
            else let s = set_data b (\<lambda>d. d[bi div 8 := (d ! (bi div 8)) AND NOT m]) u in and_then (log_write b s) (\<lambda>_ s. brelse b s))
        (\<lambda>_. moves dev p st H {?y} (released (sb s) a (cview dev s)) s)"
      using w(1) x(1,2) by (simp add: Let_def set_data_def moves_def)
  qed
qed

lemma released_taken:
  assumes A: "alloc_ok st su v" and a: "a < fssize su" "\<not> bit_used su v a"
  shows "released su a (taken su a v) = v(a := replicate BSIZE 0)"
proof -
  let ?y = "BBLOCK a su" and ?i = "unat a mod BPB div 8"
  have "a \<notin> bmap_blocks su" by (rule taken_facts(5) [OF A a])
  then have y: "?y \<noteq> a" using BBLOCK_bmap [OF a(1)] by metis
  have l: "?i < length (v ?y)" using A BBLOCK_bmap [OF a(1)] bit_byte_small [of "unat a"] by (auto simp: alloc_ok_def)
  have "((v ?y ! ?i) OR bit_mask (unat a)) AND NOT (bit_mask (unat a)) = v ?y ! ?i"
    using a(2) by (intro bit_eqI) (auto simp: bit_simps bit_bit_mask bit_used_iff)
  then have "released su a (taken su a v) ?y = v ?y" using l y by (simp add: released_def taken_def)
  then show ?thesis using y by (auto simp: released_def taken_def fun_eq_iff)
qed

text \<open>Running out of blocks, and freeing a block that is free, stop the kernel.\<close>

lemma balloc_loop_full:
  fixes s :: "'a fs_scheme"
  assumes dev: "blk_device d" and full: "\<And>x. x < fssize su \<Longrightarrow> bit_used su v x" and A: "alloc_ok st su v"
  shows "trans_in dev p st {} s \<Longrightarrow> sb s = su \<Longrightarrow> cview dev s = v \<Longrightarrow> card (logged_set s) < NBUF \<Longrightarrow> b = BPB * j \<Longrightarrow>
    drive (serve d p) (balloc_loop b dev s) = Panic ''balloc: out of blocks''"
proof (induction "unat (fssize su) - b" arbitrary: b j s rule: less_induct)
  case less
  note p = less.prems
  show ?case
  proof (cases "b < unat (fssize su)")
    case True
    then have b32: "b < 2 ^ 32" using A by (auto simp: alloc_ok_def)
    let ?b = "of_nat b :: u32"
    have ub: "unat ?b = b" using b32 by (rule unat_u32)
    have "BBLOCK ?b su \<in> bmap_blocks su" using True ub by (auto simp: bmap_blocks_def word_less_nat_alt)
    then have y: "unat (BBLOCK ?b su) < 2 ^ 31" using A by (auto simp: alloc_ok_def)
    obtain bp u where u: "drive (serve d p) (bread dev (BBLOCK ?b su) s) = Ok bp u" "trans_in dev p st (insert bp {}) u" "keeps dev p {} {} s u"
      "cview dev u = cview dev s" "bdata (bufs u bp) = cview dev s (BBLOCK ?b su)"
      using bread_in [OF dev p(1) _ y] p(4) by (auto simp: chl_def)
    have su: "sb u = su" using keeps_fs(1) [OF u(3)] p(2) by simp
    have "first_free (bdata (bufs u bp)) (min BPB (unat (fssize su) - b)) = None"
    proof (rule ccontr)
      assume "first_free (bdata (bufs u bp)) (min BPB (unat (fssize su) - b)) \<noteq> None"
      then obtain i where "first_free (bdata (bufs u bp)) (min BPB (unat (fssize su) - b)) = Some i" by blast
      note ff = first_free_Some [OF this]
      define a where "a = (of_nat (b + i) :: u32)"
      have ua: "unat a = b + i" unfolding a_def by (rule unat_u32) (use ff(1) A in \<open>auto simp: alloc_ok_def\<close>)
      have dv: "unat a div BPB = j" "unat a mod BPB = i" using ua ff(1) p(5) by (simp_all add: div_nat_eqI modulo_nat_def)
      then have "unat a mod 8 = i mod 8" by (metis mod8)
      moreover have "BBLOCK a su = BBLOCK ?b su" using dv(1) ub p(5) by (simp add: BBLOCK_eq)
      moreover have "bit_used su v a" by (rule full) (use ua ff(1) in \<open>auto simp: word_less_nat_alt\<close>)
      ultimately show False using ff(2) dv(2) u(5) p(3) by (simp add: bit_used_iff)
    qed
    moreover obtain t where t: "brelse bp u = Ok () t" "trans_in dev p st {} t" "keeps dev p {} {} u t" "cview dev t = cview dev u"
      using brelse_in [OF u(2)] by auto
    have k: "keeps dev p {} {} s t" using keeps_trans [OF u(3) t(3)] by simp
    then have "logged_set t \<subseteq> logged_set s" by (simp add: keeps_def)
    then have "card (logged_set t) < NBUF" using card_mono [OF finite_logged] p(4) le_less_trans by blast
    then have "drive (serve d p) (balloc_loop (b + BPB) dev t) = Panic ''balloc: out of blocks''"
      by (intro less.hyps [of _ _ "Suc j"]) (use True t u p keeps_fs(1) [OF k] in simp_all)
    ultimately show ?thesis using True b32 u(1) t(1) su p(2) by (subst balloc_loop.simps) (simp add: drive_and_then)
  next
    case False
    then show ?thesis using p(2) by (subst balloc_loop.simps) simp
  qed
qed

lemma bfree_free:
  fixes s :: "'a fs_scheme"
  assumes dev: "blk_device d" and t: "trans_in dev p st {} s" and A: "alloc_ok st (sb s) (cview dev s)" and room: "card (logged_set s) < NBUF"
    and a: "a < fssize (sb s)" "\<not> bit_used (sb s) (cview dev s) a"
  shows "drive (serve d p) (bfree dev a s) = Panic ''freeing free block''"
proof -
  have "unat (BBLOCK a (sb s)) < 2 ^ 31" using A BBLOCK_bmap [OF a(1)] by (auto simp: alloc_ok_def)
  then obtain bp u where u: "drive (serve d p) (bread dev (BBLOCK a (sb s)) s) = Ok bp u" "bdata (bufs u bp) = cview dev s (BBLOCK a (sb s))"
    using bread_in [OF dev t, of "BBLOCK a (sb s)"] room by (auto simp: chl_def)
  then show ?thesis using a(2) by (simp add: bfree_def drive_and_then Let_def bit_used_def)
qed

end
