(* ===== verification/Inode_Facts.thy ===== *)
theory Inode_Facts
  imports Fs_Facts
begin

text \<open>
  Inode contents.  The blocks of a file are found through the addresses in the inode and the indirect block (\<open>addr_at\<close>).  The first part
  speaks of an inode \<open>q\<close> and the blocks \<open>v\<close> only, the second of the routines \<^verbatim>\<open>bmap\<close>, \<^verbatim>\<open>readi\<close> and \<^verbatim>\<open>writei\<close>.
\<close>

section \<open>Blocks of a file\<close>

definition addr_at :: "inode \<Rightarrow> (u32 \<Rightarrow> byte list) \<Rightarrow> nat \<Rightarrow> u32" where
  "addr_at q v n = (if n < NDIRECT then addrs q ! n else if addrs q ! NDIRECT = 0 then 0
     else get32 (4 * (n - NDIRECT)) (v (addrs q ! NDIRECT)))"

definition inode_blocks :: "superblock \<Rightarrow> u32 set" where
  "inode_blocks su = (\<lambda>i. IBLOCK i su) ` {i. i < ninodes su}"

text \<open>The bitmap marks the boot block and the inode blocks as used too.\<close>

definition fs_ok :: "nat \<Rightarrow> superblock \<Rightarrow> (u32 \<Rightarrow> byte list) \<Rightarrow> bool" where
  "fs_ok st su v \<longleftrightarrow> alloc_ok st su v \<and> 0 < fssize su \<and> bit_used su v 0 \<and>
     (\<forall>y\<in>inode_blocks su. y \<notin> bmap_blocks su \<and> unat y \<notin> log_area st \<and> unat y < 2 ^ 31 \<and> length (v y) = BSIZE) \<and>
     (\<forall>b<fssize su. \<not> bit_used su v b \<longrightarrow> b \<notin> inode_blocks su)"

definition data_block :: "nat \<Rightarrow> superblock \<Rightarrow> (u32 \<Rightarrow> byte list) \<Rightarrow> u32 \<Rightarrow> bool" where
  "data_block st su v x \<longleftrightarrow> x < fssize su \<and> bit_used su v x \<and> x \<notin> bmap_blocks su \<and> x \<notin> inode_blocks su \<and>
     unat x \<notin> log_area st \<and> length (v x) = BSIZE"

definition own :: "inode \<Rightarrow> (u32 \<Rightarrow> byte list) \<Rightarrow> u32 set" where
  "own q v = insert (addrs q ! NDIRECT) (addr_at q v ` {..<MAXFILE}) - {0}"

definition file_ok :: "nat \<Rightarrow> superblock \<Rightarrow> (u32 \<Rightarrow> byte list) \<Rightarrow> inode \<Rightarrow> bool" where
  "file_ok st su v q \<longleftrightarrow> length (addrs q) = NDIRECT + 1 \<and> (\<forall>x\<in>own q v. data_block st su v x) \<and>
     (\<forall>m<MAXFILE. \<forall>n<MAXFILE. addr_at q v m = addr_at q v n \<longrightarrow> addr_at q v m \<noteq> 0 \<longrightarrow> m = n) \<and>
     (\<forall>n<MAXFILE. addr_at q v n = addrs q ! NDIRECT \<longrightarrow> addr_at q v n = 0)"

definition free_blocks :: "superblock \<Rightarrow> (u32 \<Rightarrow> byte list) \<Rightarrow> u32 set" where
  "free_blocks su v = {b. b < fssize su \<and> \<not> bit_used su v b}"

text \<open>
  From \<open>(q, v)\<close> to \<open>(q', v')\<close> the file keeps its blocks and may get blocks that were free; other blocks in use are unchanged, except those
  of the bitmap.
\<close>

definition grows :: "nat \<Rightarrow> superblock \<Rightarrow> inode \<Rightarrow> (u32 \<Rightarrow> byte list) \<Rightarrow> inode \<Rightarrow> (u32 \<Rightarrow> byte list) \<Rightarrow> bool" where
  "grows st su q v q' v' \<longleftrightarrow> q' = q\<lparr>addrs := addrs q'\<rparr> \<and> fs_ok st su v' \<and> file_ok st su v' q' \<and>
     (\<forall>m<MAXFILE. addr_at q v m \<noteq> 0 \<longrightarrow> addr_at q' v' m = addr_at q v m) \<and>
     (addrs q ! NDIRECT \<noteq> 0 \<longrightarrow> addrs q' ! NDIRECT = addrs q ! NDIRECT) \<and>
     own q' v' \<subseteq> own q v \<union> free_blocks su v \<and> free_blocks su v' \<subseteq> free_blocks su v \<and>
     (\<forall>x. x \<notin> own q v \<longrightarrow> x \<notin> free_blocks su v \<longrightarrow> x \<notin> bmap_blocks su \<longrightarrow> v' x = v x)"

lemma finite_free [simp]: "finite (free_blocks su v)"
  by (rule finite_subset [OF subset_UNIV]) simp

lemma own_used: "file_ok st su v q \<Longrightarrow> x \<in> own q v \<Longrightarrow> x \<notin> free_blocks su v \<and> x \<notin> bmap_blocks su"
  by (auto simp: file_ok_def data_block_def free_blocks_def)

lemma grows_refl: "fs_ok st su v \<Longrightarrow> file_ok st su v q \<Longrightarrow> grows st su q v q v"
  by (simp add: grows_def)

lemma grows_trans:
  assumes a: "grows st su q v q1 v1" and b: "grows st su q1 v1 q2 v2"
  shows "grows st su q v q2 v2"
proof -
  note A = a [unfolded grows_def] and B = b [unfolded grows_def]
  have "q2 = q\<lparr>addrs := addrs q2\<rparr>" using A B by (metis inode.update_convs(10) inode.surjective)
  moreover have "addr_at q2 v2 m = addr_at q v m" if "m < MAXFILE" "addr_at q v m \<noteq> 0" for m using A B that by simp
  moreover have "v2 x = v x" if "x \<notin> own q v" "x \<notin> free_blocks su v" "x \<notin> bmap_blocks su" for x
  proof -
    have "x \<notin> own q1 v1" "x \<notin> free_blocks su v1" using A that by blast+
    then show ?thesis using A B that by simp
  qed
  ultimately show ?thesis using A B unfolding grows_def by (intro conjI) (blast | simp)+
qed

lemma freeD:
  assumes F: "fs_ok st su v" and a: "a \<in> free_blocks su v"
  shows "a \<noteq> 0" "a < fssize su" "\<not> bit_used su v a" "a \<notin> bmap_blocks su" "a \<notin> inode_blocks su" "unat a \<notin> log_area st"
  using assms by (auto simp: fs_ok_def free_blocks_def alloc_ok_def)

lemma taken_fs:
  assumes F: "fs_ok st su v" and a: "a \<in> free_blocks su v"
  shows "fs_ok st su (taken su a v)" "data_block st su (taken su a v) a" "data_block st su v x \<Longrightarrow> data_block st su (taken su a v) x"
    "free_blocks su (taken su a v) = free_blocks su v - {a}" "x \<noteq> a \<Longrightarrow> x \<notin> bmap_blocks su \<Longrightarrow> taken su a v x = v x"
    "taken su a v a = replicate BSIZE 0"
proof -
  note f = freeD [OF F a]
  have A: "alloc_ok st su v" using F by (simp add: fs_ok_def)
  note t = taken_facts [OF A f(2,3)]
  show e: "x \<noteq> a \<Longrightarrow> x \<notin> bmap_blocks su \<Longrightarrow> taken su a v x = v x" for x using t(4) BBLOCK_bmap [OF f(2)] by blast
  show "taken su a v a = replicate BSIZE 0" by (rule t(3))
  have z: "0 < fssize su" using f(2) by (metis word_not_simps(1) word_gt_0)
  have i: "y \<noteq> a" "y \<notin> bmap_blocks su" if "y \<in> inode_blocks su" for y using that f(5) F by (auto simp: fs_ok_def)
  show "fs_ok st su (taken su a v)" using F t(1,2) z e i by (auto simp: fs_ok_def)
  show "data_block st su (taken su a v) a" using f t(1,3) by (simp add: data_block_def)
  show "data_block st su v x \<Longrightarrow> data_block st su (taken su a v) x" using f(3) e [of x] t(1) by (cases "x = a") (auto simp: data_block_def)
  show "free_blocks su (taken su a v) = free_blocks su v - {a}" using t(1) by (auto simp: free_blocks_def)
qed

lemma get32_zeros: "off + 4 \<le> n \<Longrightarrow> get32 off (replicate n 0) = 0"
proof -
  assume "off + 4 \<le> n"
  then have "take 4 (drop off (replicate n (0::byte))) = replicate 4 0" by (simp add: min_def)
  also have "\<dots> = bytes_of_word 4 (0::u32)" by (simp add: bytes_of_word_def numeral_eq_Suc)
  finally show ?thesis by (simp add: get32_def word_of_bytes_of_word)
qed

text \<open>Changing the content of a data block.\<close>

lemma upd_data:
  assumes F: "fs_ok st su v" and q: "file_ok st su v q" and n: "n < MAXFILE" and a: "addr_at q v n \<noteq> 0" and l: "length d = BSIZE"
  defines "w \<equiv> v(addr_at q v n := d)"
  shows "addr_at q w = addr_at q v" "grows st su q v q w"
proof -
  note Q = q [unfolded file_ok_def]
  have o: "addr_at q v n \<in> own q v" using n a by (auto simp: own_def)
  have D: "data_block st su v (addr_at q v n)" using Q o by blast
  have e: "w y = v y" if "y \<in> bmap_blocks su \<union> inode_blocks su" for y using that D by (auto simp: w_def data_block_def)
  have b: "bit_used su w x = bit_used su v x" if "x < fssize su" for x using e BBLOCK_bmap [OF that] by (simp add: bit_used_iff)
  have "addrs q ! NDIRECT \<noteq> addr_at q v n" using Q n a by metis
  then have "w (addrs q ! NDIRECT) = v (addrs q ! NDIRECT)" by (simp add: w_def)
  then show ad: "addr_at q w = addr_at q v" by (simp add: addr_at_def fun_eq_iff)
  have "0 < fssize su" using D by (auto simp: data_block_def word_gt_0)
  then have "fs_ok st su w" using F e b by (auto simp: fs_ok_def alloc_ok_def)
  moreover have ow: "own q w = own q v" by (simp add: own_def ad)
  moreover have "data_block st su w x" if "data_block st su v x" for x using that b l by (auto simp: data_block_def w_def)
  then have "file_ok st su w q" using Q ow ad by (auto simp: file_ok_def)
  moreover have "free_blocks su w = free_blocks su v" using b by (auto simp: free_blocks_def)
  ultimately show "grows st su q v q w" using ad o by (auto simp: grows_def w_def)
qed

text \<open>A new direct block.\<close>

lemma ext_direct:
  assumes F: "fs_ok st su v" and q: "file_ok st su v q" and i: "i < NDIRECT" "addrs q ! i = 0" and a: "a \<in> free_blocks su v"
  defines "q' \<equiv> q\<lparr>addrs := (addrs q)[i := a]\<rparr>" and "w \<equiv> taken su a v"
  shows "addr_at q' w = (addr_at q v)(i := a)" "grows st su q v q' w"
proof -
  note Q = q [unfolded file_ok_def] and f = freeD [OF F a] and T = taken_fs [OF F a]
  have ao: "a \<notin> own q v" using own_used [OF q] a by blast
  have ind: "w (addrs q ! NDIRECT) = v (addrs q ! NDIRECT)" if "addrs q ! NDIRECT \<noteq> 0"
  proof -
    have "addrs q ! NDIRECT \<in> own q v" using that by (simp add: own_def)
    then show ?thesis using T(5) [of "addrs q ! NDIRECT"] ao own_used [OF q] unfolding w_def by metis
  qed
  show ad: "addr_at q' w = (addr_at q v)(i := a)" using Q i ind by (auto simp: addr_at_def q'_def fun_eq_iff)
  have im: "i < MAXFILE" "addr_at q v i = 0" using i by (simp_all add: MAXFILE_def addr_at_def)
  have nd: "addrs q' ! NDIRECT = addrs q ! NDIRECT" using i by (simp add: q'_def)
  have ow: "own q' w = insert a (own q v)" using ad im f(1) by (auto simp: own_def nd)
  have na: "addr_at q v m \<noteq> a" if "m < MAXFILE" for m using ao that f(1) by (auto simp: own_def)
  have nn: "addrs q ! NDIRECT \<noteq> a" using ao f(1) by (auto simp: own_def)
  have "file_ok st su w q'" using Q T(2,3) ow ad na nn nd f(1) im by (auto simp: file_ok_def w_def q'_def)
  moreover have "w x = v x" if "x \<notin> free_blocks su v" "x \<notin> bmap_blocks su" for x using T(5) [of x] a that by (auto simp: w_def)
  ultimately show "grows st su q v q' w"
    using T(1,4) ow ad im nd a unfolding grows_def w_def [symmetric] by (auto simp: q'_def)
qed

text \<open>A new, empty indirect block.\<close>

lemma ext_indirect:
  assumes F: "fs_ok st su v" and q: "file_ok st su v q" and i: "addrs q ! NDIRECT = 0" and a: "a \<in> free_blocks su v"
  defines "q' \<equiv> q\<lparr>addrs := (addrs q)[NDIRECT := a]\<rparr>" and "w \<equiv> taken su a v"
  shows "addrs q' ! NDIRECT = a" "m < MAXFILE \<Longrightarrow> addr_at q' w m = addr_at q v m" "grows st su q v q' w"
proof -
  note Q = q [unfolded file_ok_def] and f = freeD [OF F a] and T = taken_fs [OF F a]
  have ao: "a \<notin> own q v" using own_used [OF q] a by blast
  show nd: "addrs q' ! NDIRECT = a" using Q by (simp add: q'_def)
  have ad: "addr_at q' w m = addr_at q v m" if "m < MAXFILE" for m
    using that f(1) nd i get32_zeros [of "4 * (m - NDIRECT)" BSIZE] T(6)
    by (auto simp: addr_at_def q'_def w_def MAXFILE_def NINDIRECT_def BSIZE_def NDIRECT_def)
  then show "m < MAXFILE \<Longrightarrow> addr_at q' w m = addr_at q v m" .
  have im: "addr_at q' w ` {..<MAXFILE} = addr_at q v ` {..<MAXFILE}" using ad by (intro image_cong) auto
  have ow: "own q' w = insert a (own q v)" using i f(1) by (auto simp: own_def nd im)
  have na: "addr_at q v m \<noteq> a" if "m < MAXFILE" for m using ao that f(1) by (auto simp: own_def)
  have "file_ok st su w q'" using Q T(2,3) ow ad na nd f(1) by (auto simp: file_ok_def w_def q'_def)
  moreover have "w x = v x" if "x \<notin> free_blocks su v" "x \<notin> bmap_blocks su" for x using T(5) [of x] a that by (auto simp: w_def)
  ultimately show "grows st su q v q' w"
    using T(1,4) ow ad i a unfolding grows_def w_def [symmetric] by (auto simp: q'_def)
qed

text \<open>A new entry of the indirect block.\<close>

lemma ext_entry:
  assumes F: "fs_ok st su v" and q: "file_ok st su v q" and i: "addrs q ! NDIRECT \<noteq> 0" and n: "NDIRECT \<le> n" "n < MAXFILE" "addr_at q v n = 0"
    and a: "a \<in> free_blocks su v"
  defines "w \<equiv> (taken su a v)(addrs q ! NDIRECT := put32 (4 * (n - NDIRECT)) a (v (addrs q ! NDIRECT)))"
  shows "addr_at q w n = a" "m < MAXFILE \<Longrightarrow> m \<noteq> n \<Longrightarrow> addr_at q w m = addr_at q v m" "grows st su q v q w"
proof -
  note Q = q [unfolded file_ok_def] and f = freeD [OF F a] and T = taken_fs [OF F a]
  let ?j = "addrs q ! NDIRECT"
  have jo: "?j \<in> own q v" using i by (simp add: own_def)
  have ao: "a \<notin> own q v" using own_used [OF q] a by blast
  have D: "data_block st su v ?j" using Q jo by blast
  then have l: "length (v ?j) = 1024" by (simp add: data_block_def BSIZE_def)
  have k: "4 * (m - NDIRECT) + 4 \<le> 1024" if "m < MAXFILE" for m using that by (simp add: MAXFILE_def NINDIRECT_def BSIZE_def NDIRECT_def)
  show an: "addr_at q w n = a" using n i get_put_same [of "4 * (n - NDIRECT)" "v ?j" a] k [OF n(2)] l by (simp add: addr_at_def w_def)
  have am: "addr_at q w m = addr_at q v m" if "m < MAXFILE" "m \<noteq> n" for m
  proof (cases "m < NDIRECT")
    case False
    then have "4 * (n - NDIRECT) + 4 \<le> 4 * (m - NDIRECT) \<or> 4 * (m - NDIRECT) + 4 \<le> 4 * (n - NDIRECT)" using that n(1) by auto
    then show ?thesis using False get_put_other [of "4 * (n - NDIRECT)" "v ?j" "4 * (m - NDIRECT)" a] k [OF n(2)] k [OF that(1)] l
      by (simp add: addr_at_def w_def)
  qed (simp add: addr_at_def)
  then show "m < MAXFILE \<Longrightarrow> m \<noteq> n \<Longrightarrow> addr_at q w m = addr_at q v m" .
  have ow: "own q w = insert a (own q v)"
  proof -
    let ?R = "{..<MAXFILE} - {n}"
    have s: "{..<MAXFILE} = insert n ?R" using n(2) by auto
    have "addr_at q w ` ?R = addr_at q v ` ?R" using am by (intro image_cong) auto
    then have "addr_at q w ` insert n ?R = insert a (addr_at q v ` ?R)" "addr_at q v ` insert n ?R = insert 0 (addr_at q v ` ?R)"
      unfolding image_insert an n(3) by simp_all
    then have "addr_at q w ` {..<MAXFILE} = insert a (addr_at q v ` ?R)" "addr_at q v ` {..<MAXFILE} = insert 0 (addr_at q v ` ?R)"
      unfolding s [symmetric] by simp_all
    then show ?thesis using f(1) by (auto simp: own_def)
  qed
  have e: "w y = taken su a v y" if "y \<in> bmap_blocks su \<union> inode_blocks su" for y using that D by (auto simp: w_def data_block_def)
  have b: "bit_used su w x = bit_used su (taken su a v) x" if "x < fssize su" for x using e BBLOCK_bmap [OF that] by (simp add: bit_used_iff)
  have z: "0 < fssize su" using f(2) by (metis word_not_simps(1) word_gt_0)
  have fs: "fs_ok st su w" using T(1) e b z by (auto simp: fs_ok_def alloc_ok_def)
  have "length (w ?j) = BSIZE" using l k [OF n(2)] by (simp add: w_def BSIZE_def)
  then have dt: "data_block st su w x" if "data_block st su (taken su a v) x" for x using that b by (auto simp: data_block_def w_def)
  have na: "addr_at q v m \<noteq> a" if "m < MAXFILE" for m using ao that f(1) by (auto simp: own_def)
  have ja: "?j \<noteq> a" using ao jo by metis
  have inj: "m = m'" if "m < MAXFILE" "m' < MAXFILE" "addr_at q w m = addr_at q w m'" "addr_at q w m \<noteq> 0" for m m'
    using that Q an am na f(1) by (cases "m = n"; cases "m' = n") auto
  have nj: "addr_at q w m = 0" if "m < MAXFILE" "addr_at q w m = ?j" for m using that Q an am ja by (cases "m = n") auto
  have "data_block st su w x" if "x \<in> own q w" for x
  proof (cases "x = a")
    case False
    then have "data_block st su v x" using that ow Q by simp
    then show ?thesis by (rule dt [OF T(3)])
  qed (use dt [OF T(2)] in simp)
  then have "file_ok st su w q" unfolding file_ok_def using Q inj nj by (intro conjI allI impI ballI) simp_all
  moreover have "w x = v x" if "x \<notin> free_blocks su v" "x \<notin> bmap_blocks su" "x \<notin> own q v" for x
    using T(5) [of x] a that jo by (auto simp: w_def)
  moreover have "free_blocks su w = free_blocks su v - {a}" using T(4) b by (auto simp: free_blocks_def)
  moreover have "addr_at q w m = addr_at q v m" if "m < MAXFILE" "addr_at q v m \<noteq> 0" for m using that am n(3) by metis
  ultimately show "grows st su q v q w" using fs ow a unfolding grows_def by auto
qed

section \<open>Finding a block\<close>

text \<open>Changing the table of inodes does not matter to the layers below.\<close>

lemma ready_inodes [simp]: "ready p (s\<lparr>inodes := I\<rparr>) = ready p s"
  by (simp add: ready_def unlocked_def driver_idle_def)

lemma below_inodes [simp]:
  "cache_inv dev p H P (s\<lparr>inodes := I\<rparr>) = cache_inv dev p H P s" "cview dev (s\<lparr>inodes := I\<rparr>) = cview dev s"
  "logged_set (s\<lparr>inodes := I\<rparr>) = logged_set s" "log_room k (s\<lparr>inodes := I\<rparr>) = log_room k s"
  by (simp_all add: cache_inv_def cview_def fun_eq_iff logged_set_def log_room_def cong: option.case_cong)

lemma trans_in_inodes [simp]: "trans_in dev p st H (s\<lparr>inodes := I\<rparr>) = trans_in dev p st H s"
  by (simp add: trans_in_def trans_ready_def at_log_def pins_def)

text \<open>A step in which the inode \<open>ip\<close> becomes \<open>q\<close>.\<close>

definition fmoves :: "u32 \<Rightarrow> nat \<Rightarrow> nat \<Rightarrow> nat set \<Rightarrow> u32 set \<Rightarrow> (u32 \<Rightarrow> byte list) \<Rightarrow> nat \<Rightarrow> inode \<Rightarrow> 'a fs_scheme \<Rightarrow> 'a fs_scheme \<Rightarrow> bool" where
  "fmoves dev p st H W v ip q s t \<longleftrightarrow> moves dev p st H W v s (t\<lparr>inodes := inodes s\<rparr>) \<and> inodes t = (inodes s)(ip := q)"

lemma keeps_inodes: "keeps dev p K W s t \<Longrightarrow> keeps dev p K W (s\<lparr>inodes := I\<rparr>) (t\<lparr>inodes := I\<rparr>)"
proof -
  assume k: "keeps dev p K W s t"
  then have "log.more t = log.more s" by (simp add: keeps_def)
  then have "log.more (t\<lparr>inodes := I\<rparr>) = log.more (s\<lparr>inodes := I\<rparr>)" by (cases s; cases t) simp
  then show ?thesis using k by (simp add: keeps_def log_ctl_def)
qed

lemma fmoves_keep: "moves dev p st H W v s t \<Longrightarrow> fmoves dev p st H W v ip (inodes s ip) s t"
proof -
  assume m: "moves dev p st H W v s t"
  then have "inodes t = inodes s" using keeps_fs(2) by (auto simp: moves_def)
  then have "t\<lparr>inodes := inodes s\<rparr> = t" by simp
  then show ?thesis unfolding fmoves_def \<open>t\<lparr>inodes := inodes s\<rparr> = t\<close> using m \<open>inodes t = inodes s\<close> by simp
qed

lemma fmoves_upd: "moves dev p st H W v s t \<Longrightarrow> fmoves dev p st H W v ip (f (inodes s ip)) s (upd_inode ip f t)"
proof -
  assume m: "moves dev p st H W v s t"
  then have i: "inodes t = inodes s" using keeps_fs(2) by (auto simp: moves_def)
  then have e: "(upd_inode ip f t)\<lparr>inodes := inodes s\<rparr> = t" unfolding upd_inode_def by simp
  show ?thesis unfolding fmoves_def e using m i by (simp add: upd_inode_def)
qed

lemma fmoves_trans:
  assumes a: "fmoves dev p st H W v ip q s t" and b: "fmoves dev p st H V w ip r t u"
  shows "fmoves dev p st H (W \<union> V) w ip r s u"
proof -
  have "keeps dev p H V t (u\<lparr>inodes := inodes t\<rparr>)" using b by (simp add: fmoves_def moves_def)
  from keeps_inodes [OF this, of "inodes s"] have "keeps dev p H V (t\<lparr>inodes := inodes s\<rparr>) (u\<lparr>inodes := inodes s\<rparr>)" by simp
  then show ?thesis using a b keeps_trans [of dev p H W s "t\<lparr>inodes := inodes s\<rparr>" V] by (auto simp: fmoves_def moves_def)
qed

lemma fmoves_mono: "fmoves dev p st H W v ip q s t \<Longrightarrow> W \<subseteq> V \<Longrightarrow> fmoves dev p st H V v ip q s t"
  by (auto simp: fmoves_def intro: moves_mono)

lemma fmovesD:
  assumes m: "fmoves dev p st H W v ip q s t"
  shows "trans_in dev p st H t" "cview dev t = v" "sb t = sb s" "inodes t ip = q" "disk t = disk s" "logged_set t \<subseteq> logged_set s \<union> W"
    "mem t = mem s" "ptab t p = ptab s p" "finite W \<Longrightarrow> log_room (k + card W) s \<Longrightarrow> log_room k t"
proof -
  note M = m [unfolded fmoves_def moves_def]
  have k: "keeps dev p H W s (t\<lparr>inodes := inodes s\<rparr>)" using M by blast
  show "trans_in dev p st H t" "cview dev t = v" "inodes t ip = q" using M by simp_all
  show "sb t = sb s" using keeps_fs(1) [OF k] by simp
  show "disk t = disk s" "logged_set t \<subseteq> logged_set s \<union> W" "mem t = mem s" "ptab t p = ptab s p" using k by (simp_all add: keeps_def)
  show "finite W \<Longrightarrow> log_room (k + card W) s \<Longrightarrow> log_room k t" using log_room_keeps [OF k, of k] by simp
qed

lemma bmap_mapped:
  fixes s :: "'a fs_scheme"
  assumes dev: "blk_device d" and t: "trans_in dev p st {} s" and q: "idev (inodes s ip) = dev" and F: "file_ok st (sb s) (cview dev s) (inodes s ip)"
    and A: "fs_ok st (sb s) (cview dev s)" and n: "n < MAXFILE" "addr_at (inodes s ip) (cview dev s) n \<noteq> 0" and room: "card (logged_set s) < NBUF"
  shows "chl (serve d p) disk (\<lambda>E. E = disk s) (bmap ip n s)
    (\<lambda>a t. a = addr_at (inodes s ip) (cview dev s) n \<and> moves dev p st {} {} (cview dev s) s t)"
proof (cases "n < NDIRECT")
  case True
  then show ?thesis using n(2) moves_refl [OF t] by (simp add: bmap_def Let_def addr_at_def)
next
  case False
  let ?j = "addrs (inodes s ip) ! NDIRECT"
  have j: "?j \<noteq> 0" "addr_at (inodes s ip) (cview dev s) n = get32 (4 * (n - NDIRECT)) (cview dev s ?j)" using False n(2) by (auto simp: addr_at_def split: if_splits)
  have "data_block st (sb s) (cview dev s) ?j" using F j(1) by (auto simp: file_ok_def own_def)
  then have jl: "unat ?j < 2 ^ 31" using A by (auto simp: data_block_def fs_ok_def alloc_ok_def word_less_nat_alt)
  have nn: "n - NDIRECT < NINDIRECT" using n(1) False by (simp add: MAXFILE_def)
  have e: "bmap ip n s = and_then (bread dev ?j s) (\<lambda>bp s.
      and_then (let addr = get32 (4 * (n - NDIRECT)) (bdata (bufs s bp))
         in if addr = 0 then and_then (balloc (idev (inodes s ip)) s) (\<lambda>addr s.
              and_then (log_write bp (set_data bp (put32 (4 * (n - NDIRECT)) addr) s)) (\<lambda>_ s. Ok addr s)) else Ok addr s)
        (\<lambda>addr s. and_then (brelse bp s) (\<lambda>_ s. Ok addr s)))"
    using False nn j(1) q by (simp add: bmap_def Let_def)
  have y: "?j \<notin> (\<lambda>b. blockno (bufs s b)) ` {}" "card {} + card (logged_set s) < NBUF" using room by simp_all
  show ?thesis
    unfolding e
  proof (rule chl_and_then [OF bread_in [OF dev t y(1) jl y(2)]], elim conjE)
    fix b and u :: "'a fs_scheme"
    assume b: "b \<notin> {}" "bdata (bufs u b) = cview dev s ?j" and u: "trans_in dev p st (insert b {}) u" "keeps dev p {} {} s u" "cview dev u = cview dev s"
    obtain x where x: "brelse b u = Ok () x" "trans_in dev p st {} x" "keeps dev p {} {} u x" "cview dev x = cview dev u"
      using brelse_in [OF u(1) b(1)] by blast
    have "moves dev p st {} {} (cview dev s) s x" using x u(3) keeps_trans [OF u(2) x(3)] by (simp add: moves_def)
    then show "chl (serve d p) disk (\<lambda>E. E = disk s) (and_then (let addr = get32 (4 * (n - NDIRECT)) (bdata (bufs u b))
         in if addr = 0 then and_then (balloc (idev (inodes u ip)) u) (\<lambda>addr s.
              and_then (log_write b (set_data b (put32 (4 * (n - NDIRECT)) addr) s)) (\<lambda>_ s. Ok addr s)) else Ok addr u)
        (\<lambda>addr s. and_then (brelse b s) (\<lambda>_ s. Ok addr s)))
      (\<lambda>a t. a = addr_at (inodes s ip) (cview dev s) n \<and> moves dev p st {} {} (cview dev s) s t)" using n(2) j(2) b(2) x(1) by simp
  qed
qed

text \<open>Whether the indirect block is still to be allocated, and what \<^verbatim>\<open>bmap\<close> does in general.\<close>

definition need_ind :: "inode \<Rightarrow> nat" where
  "need_ind q = of_bool (addrs q ! NDIRECT = 0)"

definition keeps_data :: "inode \<Rightarrow> (u32 \<Rightarrow> byte list) \<Rightarrow> (u32 \<Rightarrow> byte list) \<Rightarrow> bool" where
  "keeps_data q v v' \<longleftrightarrow> (\<forall>m<MAXFILE. addr_at q v m \<noteq> 0 \<longrightarrow> v' (addr_at q v m) = v (addr_at q v m))"

definition bmap_post :: "u32 \<Rightarrow> nat \<Rightarrow> nat \<Rightarrow> nat \<Rightarrow> nat \<Rightarrow> 'a fs_scheme \<Rightarrow> u32 \<Rightarrow> 'a fs_scheme \<Rightarrow> bool" where
  "bmap_post dev p st ip n s a t \<longleftrightarrow> (\<exists>q' v' W. a = addr_at q' v' n \<and> a \<noteq> 0 \<and> grows st (sb s) (inodes s ip) (cview dev s) q' v' \<and>
     keeps_data (inodes s ip) (cview dev s) v' \<and> fmoves dev p st {} W v' ip q' s t \<and> W \<subseteq> bmap_blocks (sb s) \<union> ({a, addrs q' ! NDIRECT} - {0}) \<and>
     finite W \<and> card W \<le> 3 + 2 * need_ind (inodes s ip) \<and>
     card (free_blocks (sb s) (cview dev s)) + need_ind q' \<le>
       card (free_blocks (sb s) v') + need_ind (inodes s ip) + of_bool (addr_at (inodes s ip) (cview dev s) n = 0))"

text \<open>The state of a transaction that works on the inode \<open>ip\<close>.\<close>

definition file_at :: "u32 \<Rightarrow> nat \<Rightarrow> nat \<Rightarrow> nat \<Rightarrow> 'a fs_scheme \<Rightarrow> bool" where
  "file_at dev p st ip s \<longleftrightarrow> trans_in dev p st {} s \<and> idev (inodes s ip) = dev \<and> fs_ok st (sb s) (cview dev s) \<and>
     file_ok st (sb s) (cview dev s) (inodes s ip)"

lemma keeps_data_taken:
  assumes "file_ok st su v q" "fs_ok st su v" "a \<in> free_blocks su v"
  shows "keeps_data q v (taken su a v)"
  unfolding keeps_data_def
proof (intro allI impI)
  fix m assume m: "m < MAXFILE" "addr_at q v m \<noteq> 0"
  then have "addr_at q v m \<in> own q v" by (auto simp: own_def)
  then have "addr_at q v m \<noteq> a" "addr_at q v m \<notin> bmap_blocks su" using own_used [OF assms(1)] assms(3) by blast+
  then show "taken su a v (addr_at q v m) = v (addr_at q v m)" by (rule taken_fs(5) [OF assms(2,3)])
qed

lemma keeps_data_trans:
  assumes "keeps_data q v v1" "keeps_data q1 v1 v2" "\<And>m. m < MAXFILE \<Longrightarrow> addr_at q v m \<noteq> 0 \<Longrightarrow> addr_at q1 v1 m = addr_at q v m"
  shows "keeps_data q v v2"
  using assms unfolding keeps_data_def by metis

lemma balloc_free:
  fixes s :: "'a fs_scheme"
  assumes dev: "blk_device d" and t: "trans_in dev p st H s" and F: "fs_ok st (sb s) (cview dev s)" and room: "log_room 2 s" "card H \<le> 1"
    and H: "held_used H (sb s) (cview dev s) s" and f: "free_blocks (sb s) (cview dev s) \<noteq> {}"
  shows "chl (serve d p) disk (\<lambda>E. E = disk s) (balloc dev s)
    (\<lambda>a t. a \<in> free_blocks (sb s) (cview dev s) \<and> moves dev p st H {BBLOCK a (sb s), a} (taken (sb s) a (cview dev s)) s t)"
proof -
  have "\<exists>x<fssize (sb s). \<not> bit_used (sb s) (cview dev s) x" "alloc_ok st (sb s) (cview dev s)" using f F by (auto simp: free_blocks_def fs_ok_def)
  from balloc_ok [OF dev t this(2) room H this(1)] show ?thesis by (rule chl_post) (simp add: free_blocks_def)
qed

lemma card_taken: "fs_ok st su v \<Longrightarrow> a \<in> free_blocks su v \<Longrightarrow> card (free_blocks su (taken su a v)) = card (free_blocks su v) - 1"
  by (simp add: taken_fs(4))

lemma bmap_direct:
  fixes s :: "'a fs_scheme"
  assumes dev: "blk_device d" and f: "file_at dev p st ip s" and n: "n < NDIRECT" "addrs (inodes s ip) ! n = 0"
    and room: "log_room 2 s" and fr: "free_blocks (sb s) (cview dev s) \<noteq> {}"
  shows "chl (serve d p) disk (\<lambda>E. E = disk s) (bmap ip n s) (bmap_post dev p st ip n s)"
proof -
  note f' = f [unfolded file_at_def]
  have t: "trans_in dev p st {} s" and F: "fs_ok st (sb s) (cview dev s)" and q: "file_ok st (sb s) (cview dev s) (inodes s ip)" using f' by blast+
  have e: "bmap ip n s = and_then (balloc dev s) (\<lambda>addr s. Ok addr (upd_inode ip (\<lambda>q. q\<lparr>addrs := (addrs q)[n := addr]\<rparr>) s))"
    using n f' by (simp add: bmap_def Let_def)
  show ?thesis
    unfolding e
  proof (rule chl_and_then [OF balloc_free [OF dev t F room _ _ fr]], simp, simp add: held_used_def, elim conjE)
    fix a and u :: "'a fs_scheme"
    assume a: "a \<in> free_blocks (sb s) (cview dev s)" and m: "moves dev p st {} {BBLOCK a (sb s), a} (taken (sb s) a (cview dev s)) s u"
    let ?q = "inodes s ip" and ?f = "\<lambda>q. q\<lparr>addrs := (addrs q)[n := a]\<rparr>" and ?w = "taken (sb s) a (cview dev s)"
    note X = ext_direct [OF F q n a]
    have "card (free_blocks (sb s) (cview dev s)) > 0" using a by (auto simp: card_gt_0_iff)
    then have c: "card (free_blocks (sb s) (cview dev s)) + need_ind (?f ?q) \<le> card (free_blocks (sb s) ?w) + need_ind ?q + of_bool (addr_at ?q (cview dev s) n = 0)"
      using n card_taken [OF F a] by (simp add: need_ind_def addr_at_def)
    have W: "{BBLOCK a (sb s), a} \<subseteq> bmap_blocks (sb s) \<union> ({a, addrs (?f ?q) ! NDIRECT} - {0})" using BBLOCK_bmap freeD(1,2) [OF F a] by auto
    have "bmap_post dev p st ip n s a (upd_inode ip ?f u)"
      unfolding bmap_post_def using X freeD(1) [OF F a] keeps_data_taken [OF q F a] fmoves_upd [OF m, of ip ?f] c W
      by (intro exI [of _ "?f ?q"] exI [of _ ?w] exI [of _ "{BBLOCK a (sb s), a}"] conjI) (simp_all add: card_insert_if)
    then show "chl (serve d p) disk (\<lambda>E. E = disk s) (Ok a (upd_inode ip ?f u)) (bmap_post dev p st ip n s)" by simp
  qed
qed

text \<open>The second half of \<^verbatim>\<open>bmap\<close>: the entry in the indirect block.\<close>

definition bmap_entry :: "nat \<Rightarrow> nat \<Rightarrow> u32 \<Rightarrow> 'a fs_scheme \<Rightarrow> (u32, 'a fs_scheme) out" where
  "bmap_entry ip k addr s = and_then (bread (idev (inodes s ip)) addr s) (\<lambda>bp s.
     and_then
       (let addr = get32 (4 * k) (bdata (bufs s bp))
        in if addr = 0 then
             and_then (balloc (idev (inodes s ip)) s) (\<lambda>addr s.
             and_then (log_write bp (set_data bp (put32 (4 * k) addr) s)) (\<lambda>_ s. Ok addr s))
           else Ok addr s)
       (\<lambda>addr s. and_then (brelse bp s) (\<lambda>_ s. Ok addr s)))"

lemma bmap_entry_new:
  fixes s :: "'a fs_scheme"
  assumes dev: "blk_device d" and f: "file_at dev p st ip s" and j: "addrs (inodes s ip) ! NDIRECT \<noteq> 0"
    and n: "NDIRECT \<le> n" "n < MAXFILE" "addr_at (inodes s ip) (cview dev s) n = 0"
    and room: "log_room 3 s" and fr: "free_blocks (sb s) (cview dev s) \<noteq> {}"
  shows "chl (serve d p) disk (\<lambda>E. E = disk s) (bmap_entry ip (n - NDIRECT) (addrs (inodes s ip) ! NDIRECT) s) (bmap_post dev p st ip n s)"
proof -
  note f' = f [unfolded file_at_def]
  let ?q = "inodes s ip" and ?v = "cview dev s" and ?su = "sb s"
  let ?j = "addrs ?q ! NDIRECT"
  have t: "trans_in dev p st {} s" and F: "fs_ok st ?su ?v" and q: "file_ok st ?su ?v ?q" and idv: "idev ?q = dev" using f' by blast+
  have jo: "?j \<in> own ?q ?v" using j by (simp add: own_def)
  have D: "data_block st ?su ?v ?j" using q j by (auto simp: file_ok_def own_def)
  then have jl: "unat ?j < 2 ^ 31" "unat ?j \<notin> log_area st" using F by (auto simp: data_block_def fs_ok_def alloc_ok_def word_less_nat_alt)
  have y: "?j \<notin> (\<lambda>b. blockno (bufs s b)) ` {}" "card {} + card (logged_set s) < NBUF"
    using log_room_buffers [OF log_room_less [OF room], of "{}"] by simp_all
  show ?thesis
    unfolding bmap_entry_def idv
  proof (rule chl_and_then [OF bread_in [OF dev t y(1) jl(1) y(2)]], elim conjE)
    fix b and u :: "'a fs_scheme"
    assume b: "b \<notin> {}" "has_block dev ?j (bufs u b)" "bdata (bufs u b) = ?v ?j" and u: "trans_in dev p st (insert b {}) u" "keeps dev p {} {} s u" "cview dev u = ?v"
    have z: "get32 (4 * (n - NDIRECT)) (bdata (bufs u b)) = 0" using n j b(3) by (simp add: addr_at_def)
    have su: "sb u = ?su" "inodes u = inodes s" "disk u = disk s" using keeps_fs [OF u(2)] u(2) by (simp_all add: keeps_def)
    have F': "fs_ok st (sb u) (cview dev u)" and fr': "free_blocks (sb u) (cview dev u) \<noteq> {}" using F fr su u(3) by simp_all
    have hu: "held_used {b} (sb u) (cview dev u) u" using b(2) D su(1) u(3) by (auto simp: held_used_def has_block_def data_block_def)
    have ru: "log_room 3 u" using log_room_keeps [OF u(2), of 3] room by simp
    note bal = balloc_free [OF dev u(1) F' log_room_less [OF ru] _ hu fr', unfolded su u(3)]
    show "chl (serve d p) disk (\<lambda>E. E = disk s) (and_then (let addr = get32 (4 * (n - NDIRECT)) (bdata (bufs u b))
         in if addr = 0 then and_then (balloc (idev (inodes u ip)) u) (\<lambda>addr s.
              and_then (log_write b (set_data b (put32 (4 * (n - NDIRECT)) addr) s)) (\<lambda>_ s. Ok addr s)) else Ok addr u)
        (\<lambda>addr s. and_then (brelse b s) (\<lambda>_ s. Ok addr s))) (bmap_post dev p st ip n s)"
      unfolding Let_def z su idv and_then_assoc
    proof (simp only: refl if_True and_then_assoc, rule chl_and_then [OF bal], simp, simp, elim conjE)
      fix a and w :: "'a fs_scheme"
      assume a: "a \<in> free_blocks ?su ?v" and m: "moves dev p st {b} {BBLOCK a ?su, a} (taken ?su a ?v) u w"
      note M = m [unfolded moves_def]
      have hw: "has_block dev ?j (bufs w b)"
      proof -
        obtain P where "cache_inv dev p {b} P w" using M by (auto simp: trans_in_def trans_ready_def)
        then have "bdev (bufs w b) = dev" by (auto dest: cache_invD(6))
        then show ?thesis using M b(2) by (simp add: keeps_def has_block_def)
      qed
      have kw: "keeps dev p {b} {BBLOCK a ?su, a} u w" using M by blast
      have rw: "log_room 1 w" using log_room_keeps [OF kw, of 1] log_room_less [OF ru, of "1 + card {BBLOCK a ?su, a}"] by (simp add: card_insert_if)
      have tw: "trans_in dev p st {b} w" and vw: "cview dev w = taken ?su a ?v" using M by blast+
      let ?f = "put32 (4 * (n - NDIRECT)) a"
      obtain x where x: "log_write b (upd_buf b (bdata_update ?f) w) = Ok () x" "trans_in dev p st {b} x" "keeps dev p {b} {?j} w x"
        "cview dev x = (cview dev w)(?j := ?f (cview dev w ?j))"
        using log_write_in [OF tw singletonI hw jl(2) rw, of ?f] by auto
      obtain h where h: "brelse b x = Ok () h" "trans_in dev p st {} h" "keeps dev p {} {} x h" "cview dev h = cview dev x"
        using brelse_in [OF x(2) b(1)] by blast
      have "?j \<noteq> a" "?j \<notin> bmap_blocks ?su" using own_used [OF q jo] a by blast+
      then have tj: "taken ?su a ?v ?j = ?v ?j" by (rule taken_fs(5) [OF F a])
      let ?w = "(taken ?su a ?v)(?j := ?f (?v ?j))" and ?W = "{BBLOCK a ?su, a, ?j}"
      note X = ext_entry [OF F q j n a]
      have "keeps dev p {} ({} \<union> {BBLOCK a ?su, a} \<union> {?j} \<union> {}) s h"
        by (rule keeps_trans [OF keeps_trans [OF keeps_trans [OF u(2)]] h(3)]) (auto intro: keeps_mono [OF kw] keeps_mono [OF x(3)])
      moreover have "{} \<union> {BBLOCK a ?su, a} \<union> {?j} \<union> {} = ?W" by auto
      ultimately have mo: "moves dev p st {} ?W ?w s h" unfolding moves_def using h(2,4) x(4) vw tj by simp
      have "card (free_blocks ?su ?v) > 0" using a by (auto simp: card_gt_0_iff)
      moreover have "free_blocks ?su ?w = free_blocks ?su (taken ?su a ?v)"
      proof -
        have "bit_used ?su ?w c = bit_used ?su (taken ?su a ?v) c" if "c < fssize ?su" for c
          using BBLOCK_bmap [OF that] \<open>?j \<notin> bmap_blocks ?su\<close> by (auto simp: bit_used_iff)
        then show ?thesis by (auto simp: free_blocks_def)
      qed
      ultimately have c: "card (free_blocks ?su ?v) + need_ind ?q \<le> card (free_blocks ?su ?w) + need_ind ?q + of_bool (addr_at ?q ?v n = 0)" using card_taken [OF F a] n(3) by simp
      have W: "?W \<subseteq> bmap_blocks ?su \<union> ({a, ?j} - {0})" using BBLOCK_bmap freeD(1,2) [OF F a] j by auto
      have "keeps_data ?q ?v ?w" using keeps_data_taken [OF q F a] q j by (auto simp: keeps_data_def file_ok_def)
      then have "bmap_post dev p st ip n s a h"
        unfolding bmap_post_def using X freeD(1) [OF F a] fmoves_keep [OF mo, of ip] c W
        by (intro exI [of _ ?q] exI [of _ ?w] exI [of _ ?W] conjI) (simp_all add: card_insert_if)
      then show "chl (serve d p) disk (\<lambda>E. E = disk s)
         (and_then (log_write b (set_data b ?f w)) (\<lambda>_ s. and_then (Ok a s) (\<lambda>addr s. and_then (brelse b s) (\<lambda>_. Ok addr))))
         (bmap_post dev p st ip n s)" using x(1) h(1) by (simp add: set_data_def)
    qed
  qed
qed

text \<open>Putting a step in front of one that ends in \<open>bmap_post\<close>.\<close>

lemma bmap_post_after:
  assumes m: "fmoves dev p st {} W v1 ip q1 s u" and g: "grows st (sb s) (inodes s ip) (cview dev s) q1 v1"
    and k: "keeps_data (inodes s ip) (cview dev s) v1" and W: "W \<subseteq> bmap_blocks (sb s) \<union> {addrs q1 ! NDIRECT}" and j: "addrs q1 ! NDIRECT \<noteq> 0"
    and W2: "finite W" "card W \<le> 2" "addrs (inodes s ip) ! NDIRECT = 0"
    and c: "card (free_blocks (sb s) (cview dev s)) + need_ind q1 \<le> card (free_blocks (sb s) v1) + need_ind (inodes s ip)"
    and b: "bmap_post dev p st ip n u a t" and an: "addr_at (inodes s ip) (cview dev s) n = 0"
  shows "bmap_post dev p st ip n s a t"
proof -
  note D = fmovesD [OF m]
  obtain q' v' V where B: "a = addr_at q' v' n" "a \<noteq> 0" "grows st (sb s) q1 v1 q' v'" "keeps_data q1 v1 v'" "fmoves dev p st {} V v' ip q' u t"
    "V \<subseteq> bmap_blocks (sb s) \<union> ({a, addrs q' ! NDIRECT} - {0})" "finite V" "card V \<le> 3 + 2 * need_ind q1"
    "card (free_blocks (sb s) v1) + need_ind q' \<le> card (free_blocks (sb s) v') + need_ind q1 + of_bool (addr_at q1 v1 n = 0)"
    using b unfolding bmap_post_def D(2,3,4) by blast
  have "addrs q' ! NDIRECT = addrs q1 ! NDIRECT" using B(3) j by (simp add: grows_def)
  then have "W \<union> V \<subseteq> bmap_blocks (sb s) \<union> ({a, addrs q' ! NDIRECT} - {0})" using W B(6) j by auto
  moreover have "of_bool (addr_at q1 v1 n = 0) \<le> (of_bool (addr_at (inodes s ip) (cview dev s) n = 0) :: nat)" using an by simp
  then have "card (free_blocks (sb s) (cview dev s)) + need_ind q' \<le>
      card (free_blocks (sb s) v') + need_ind (inodes s ip) + of_bool (addr_at (inodes s ip) (cview dev s) n = 0)" using B(9) c by linarith
  moreover have "finite (W \<union> V)" "card (W \<union> V) \<le> 3 + 2 * need_ind (inodes s ip)"
    using W2 B(7,8) j card_Un_le [of W V] by (simp_all add: need_ind_def)
  moreover have "keeps_data (inodes s ip) (cview dev s) v'"
    by (rule keeps_data_trans [OF k B(4)]) (use g in \<open>simp add: grows_def\<close>)
  ultimately show ?thesis
    unfolding bmap_post_def using B(1,2) grows_trans [OF g B(3)] fmoves_trans [OF m B(5)]
    by (intro exI [of _ q'] exI [of _ v'] exI [of _ "W \<union> V"] conjI) simp_all
qed

lemma file_at_moved:
  assumes "file_at dev p st ip s" "fmoves dev p st {} W v ip q s t" "grows st (sb s) (inodes s ip) (cview dev s) q v"
  shows "file_at dev p st ip t"
proof -
  have "idev q = idev (inodes s ip)" using assms(3) unfolding grows_def by (metis inode.ext_inject inode.surjective inode.update_convs(10))
  then show ?thesis using assms fmovesD [OF assms(2)] by (simp add: file_at_def grows_def)
qed

lemma bmap_indirect_new:
  fixes s :: "'a fs_scheme"
  assumes dev: "blk_device d" and f: "file_at dev p st ip s" and j: "addrs (inodes s ip) ! NDIRECT = 0"
    and n: "NDIRECT \<le> n" "n < MAXFILE" and room: "log_room 5 s" and fr: "2 \<le> card (free_blocks (sb s) (cview dev s))"
  shows "chl (serve d p) disk (\<lambda>E. E = disk s)
    (and_then (balloc dev s) (\<lambda>addr s. bmap_entry ip (n - NDIRECT) addr (upd_inode ip (\<lambda>q. q\<lparr>addrs := (addrs q)[NDIRECT := addr]\<rparr>) s)))
    (bmap_post dev p st ip n s)"
proof -
  note f' = f [unfolded file_at_def]
  let ?q = "inodes s ip" and ?v = "cview dev s" and ?su = "sb s"
  have t: "trans_in dev p st {} s" and F: "fs_ok st ?su ?v" and q: "file_ok st ?su ?v ?q" using f' by blast+
  have ne: "free_blocks ?su ?v \<noteq> {}" using fr by auto
  show ?thesis
  proof (rule chl_and_then [OF balloc_free [OF dev t F log_room_less [OF room] _ _ ne]], simp, simp, simp add: held_used_def, elim conjE)
    fix a and u :: "'a fs_scheme"
    assume a: "a \<in> free_blocks ?su ?v" and m: "moves dev p st {} {BBLOCK a ?su, a} (taken ?su a ?v) s u"
    let ?f = "\<lambda>q. q\<lparr>addrs := (addrs q)[NDIRECT := a]\<rparr>" and ?w = "taken ?su a ?v"
    let ?u = "upd_inode ip ?f u"
    note X = ext_indirect [OF F q j a]
    have m': "fmoves dev p st {} {BBLOCK a ?su, a} ?w ip (?f ?q) s ?u" by (rule fmoves_upd [OF m])
    note D = fmovesD [OF m']
    have fu: "file_at dev p st ip ?u" by (rule file_at_moved [OF f m' X(3)])
    have a0: "addrs (inodes ?u ip) ! NDIRECT = a" "a \<noteq> 0" using X(1) D(4) freeD(1) [OF F a] by simp_all
    have a1: "addr_at ?q ?v n = 0" using n(1) j by (simp add: addr_at_def)
    then have an: "addr_at (inodes ?u ip) (cview dev ?u) n = 0" using X(2) [OF n(2)] D(2,4) by simp
    have ru: "log_room 3 ?u" using D(9) [of 3] log_room_less [OF room, of "3 + card {BBLOCK a ?su, a}"] by (simp add: card_insert_if)
    have ct: "card (free_blocks ?su ?w) = card (free_blocks ?su ?v) - 1" by (rule card_taken [OF F a])
    have "0 < card (free_blocks ?su ?w)" using ct fr by simp
    then have "free_blocks ?su ?w \<noteq> {}" by (metis card.empty less_irrefl)
    then have ne': "free_blocks (sb ?u) (cview dev ?u) \<noteq> {}" unfolding D(2,3) .
    have e: "chl (serve d p) disk (\<lambda>E. E = disk s) (bmap_entry ip (n - NDIRECT) a ?u) (bmap_post dev p st ip n ?u)"
      using bmap_entry_new [OF dev fu _ n an ru ne'] a0 D(5) by simp
    have W: "{BBLOCK a ?su, a} \<subseteq> bmap_blocks ?su \<union> {addrs (?f ?q) ! NDIRECT}" using BBLOCK_bmap freeD(2) [OF F a] X(1) by auto
    have j': "addrs (?f ?q) ! NDIRECT \<noteq> 0" using X(1) a0(2) by simp
    have c: "card (free_blocks ?su ?v) + need_ind (?f ?q) \<le> card (free_blocks ?su ?w) + need_ind ?q" using ct j j' fr by (simp add: need_ind_def)
    show "chl (serve d p) disk (\<lambda>E. E = disk s) (bmap_entry ip (n - NDIRECT) a ?u) (bmap_post dev p st ip n s)"
      by (rule chl_post [OF e]) (rule bmap_post_after [OF m' X(3) keeps_data_taken [OF q F a] W j' _ _ j c _ a1], simp_all add: card_insert_if)
  qed
qed

lemma bmap_ok:
  fixes s :: "'a fs_scheme"
  assumes dev: "blk_device d" and f: "file_at dev p st ip s" and n: "n < MAXFILE" and room: "log_room 5 s"
    and fr: "addr_at (inodes s ip) (cview dev s) n = 0 \<Longrightarrow> 1 + need_ind (inodes s ip) \<le> card (free_blocks (sb s) (cview dev s))"
  shows "chl (serve d p) disk (\<lambda>E. E = disk s) (bmap ip n s) (bmap_post dev p st ip n s)"
proof -
  note f' = f [unfolded file_at_def]
  let ?q = "inodes s ip" and ?v = "cview dev s"
  have ne: "free_blocks (sb s) ?v \<noteq> {}" if "addr_at ?q ?v n = 0" using fr that by auto
  have nn: "\<not> n < NDIRECT \<Longrightarrow> n - NDIRECT < NINDIRECT" using n by (simp add: MAXFILE_def)
  consider "addr_at ?q ?v n \<noteq> 0" | "n < NDIRECT" "addr_at ?q ?v n = 0"
    | "\<not> n < NDIRECT" "addr_at ?q ?v n = 0" "addrs ?q ! NDIRECT \<noteq> 0" | "\<not> n < NDIRECT" "addrs ?q ! NDIRECT = 0" by blast
  then show ?thesis
  proof cases
    case 1
    have "card (logged_set s) < NBUF" using log_room_buffers [OF log_room_less [OF room], of "{}"] by simp
    then have "chl (serve d p) disk (\<lambda>E. E = disk s) (bmap ip n s) (\<lambda>a t. a = addr_at ?q ?v n \<and> moves dev p st {} {} ?v s t)"
      using bmap_mapped [OF dev _ _ _ _ n 1] f' by blast
    then show ?thesis
    proof (rule chl_post, elim conjE)
      fix a t assume "a = addr_at ?q ?v n" and m: "moves dev p st {} {} ?v s t"
      then show "bmap_post dev p st ip n s a t" unfolding bmap_post_def using 1 grows_refl f' fmoves_keep [OF m, of ip]
        by (intro exI [of _ ?q] exI [of _ ?v] exI [of _ "{}"]) (simp add: keeps_data_def)
    qed
  next
    case 2
    then show ?thesis using bmap_direct [OF dev f _ _ log_room_less [OF room] ne] by (auto simp: addr_at_def)
  next
    case 3
    have "bmap ip n s = bmap_entry ip (n - NDIRECT) (addrs ?q ! NDIRECT) s" using 3 nn by (simp add: bmap_def Let_def bmap_entry_def)
    then show ?thesis using bmap_entry_new [OF dev f 3(3) _ n 3(2) log_room_less [OF room] ne [OF 3(2)]] 3(1) by simp
  next
    case 4
    have "bmap ip n s = and_then (balloc dev s) (\<lambda>addr s. bmap_entry ip (n - NDIRECT) addr (upd_inode ip (\<lambda>q. q\<lparr>addrs := (addrs q)[NDIRECT := addr]\<rparr>) s))"
      using 4 nn f' by (simp add: bmap_def Let_def bmap_entry_def and_then_assoc)
    moreover have "2 \<le> card (free_blocks (sb s) ?v)" using fr 4 by (simp add: need_ind_def addr_at_def)
    ultimately show ?thesis using bmap_indirect_new [OF dev f 4(2) _ n room] 4(1) by simp
  qed
qed

section \<open>Reading\<close>

definition file_byte :: "inode \<Rightarrow> (u32 \<Rightarrow> byte list) \<Rightarrow> nat \<Rightarrow> byte" where
  "file_byte q v i = v (addr_at q v (i div BSIZE)) ! (i mod BSIZE)"

definition mapped :: "inode \<Rightarrow> (u32 \<Rightarrow> byte list) \<Rightarrow> nat \<Rightarrow> bool" where
  "mapped q v i \<longleftrightarrow> i div BSIZE < MAXFILE \<and> addr_at q v (i div BSIZE) \<noteq> 0"

lemma BSIZE_pos [simp]: "0 < BSIZE"
  by (simp add: BSIZE_def)

text \<open>The bytes that one turn of the loops of \<^verbatim>\<open>readi\<close> and \<^verbatim>\<open>writei\<close> moves lie in one block.\<close>

lemma in_chunk:
  assumes "i < chunk off len"
  shows "(off + i) div BSIZE = off div BSIZE" "(off + i) mod BSIZE = off mod BSIZE + i"
proof -
  have s: "off mod BSIZE + i < BSIZE" using assms by (auto simp: chunk_def)
  have "off + i = (off div BSIZE) * BSIZE + (off mod BSIZE + i)" by simp
  then show "(off + i) div BSIZE = off div BSIZE" "(off + i) mod BSIZE = off mod BSIZE + i"
    using s by (metis div_mult_self3 BSIZE_pos div_less less_numeral_extra(3) add.right_neutral, metis mod_mult_self3 mod_less)
qed

lemma chunk_slice:
  assumes l: "length (v (addr_at q v (off div BSIZE))) = BSIZE"
  shows "take (chunk off len) (drop (off mod BSIZE) (v (addr_at q v (off div BSIZE)))) = map (file_byte q v) [off..<off + chunk off len]"
proof (rule nth_equalityI)
  have "off mod BSIZE < BSIZE" by simp
  then show le: "length (take (chunk off len) (drop (off mod BSIZE) (v (addr_at q v (off div BSIZE))))) =
      length (map (file_byte q v) [off..<off + chunk off len])"
    using l by (simp add: chunk_def)
  fix i assume "i < length (take (chunk off len) (drop (off mod BSIZE) (v (addr_at q v (off div BSIZE)))))"
  then have i: "i < chunk off len" "off mod BSIZE + i < BSIZE" using l by auto
  then show "take (chunk off len) (drop (off mod BSIZE) (v (addr_at q v (off div BSIZE)))) ! i = map (file_byte q v) [off..<off + chunk off len] ! i"
    using in_chunk [OF i(1)] l by (simp add: file_byte_def)
qed

lemma trans_in_settle [simp]: "trans_in dev p st H (settle s) = trans_in dev p st H s"
  by (simp add: trans_in_def trans_ready_upd)

lemma keeps_settle [simp]: "keeps dev p K W s (settle t) = keeps dev p K W s t"
  by (simp add: keeps_def logged_set_def)

lemma readi_step:
  fixes s :: "'a fs_scheme"
  assumes dev: "blk_device d" and f: "file_at dev p st ip s" and m: "mapped (inodes s ip) (cview dev s) off" and room: "card (logged_set s) < NBUF"
  defines "a \<equiv> addr_at (inodes s ip) (cview dev s) (off div BSIZE)"
  shows "chl (serve d p) disk (\<lambda>E. E = disk s) (and_then (bmap ip (off div BSIZE) s) (\<lambda>addr s. bread (idev (inodes s ip)) addr s))
    (\<lambda>b t. trans_in dev p st {b} t \<and> keeps dev p {} {} s t \<and> cview dev t = cview dev s \<and> bdata (bufs t b) = cview dev s a \<and> length (cview dev s a) = BSIZE)"
proof -
  note f' = f [unfolded file_at_def]
  let ?q = "inodes s ip" and ?v = "cview dev s"
  have n: "off div BSIZE < MAXFILE" "addr_at ?q ?v (off div BSIZE) \<noteq> 0" using m by (auto simp: mapped_def)
  then have "data_block st (sb s) ?v a" using f' by (auto simp: a_def file_ok_def own_def)
  then have al: "unat a < 2 ^ 31" "length (?v a) = BSIZE" using f' by (auto simp: data_block_def fs_ok_def alloc_ok_def word_less_nat_alt)
  have "chl (serve d p) disk (\<lambda>E. E = disk s) (bmap ip (off div BSIZE) s)
      (\<lambda>x t. x = addr_at ?q ?v (off div BSIZE) \<and> moves dev p st {} {} ?v s t)"
    by (rule bmap_mapped [OF dev _ _ _ _ n room]) (use f' in blast)+
  then show ?thesis
  proof (rule chl_and_then, elim conjE)
    fix x and u :: "'a fs_scheme"
    assume x: "x = addr_at ?q ?v (off div BSIZE)" and "moves dev p st {} {} ?v s u"
    then have u: "trans_in dev p st {} u" "keeps dev p {} {} s u" "cview dev u = ?v" by (simp_all add: moves_def)
    have su: "inodes u = inodes s" "disk u = disk s" using keeps_fs [OF u(2)] u(2) by (simp_all add: keeps_def)
    have "logged_set u \<subseteq> logged_set s" using u(2) by (simp add: keeps_def)
    then have "card {} + card (logged_set u) < NBUF" using card_mono [OF finite_logged] room by (metis add_0 card.empty le_less_trans)
    then have br: "chl (serve d p) disk (\<lambda>E. E = disk u) (bread dev a u) (\<lambda>b t. b \<notin> {} \<and> has_block dev a (bufs t b) \<and>
        trans_in dev p st (insert b {}) t \<and> keeps dev p {} {} u t \<and> cview dev t = cview dev u \<and> bdata (bufs t b) = cview dev u a)"
      by (intro bread_in [OF dev u(1) _ al(1)]) simp_all
    have e: "idev (inodes s ip) = dev" "x = a" using f' x by (simp_all add: a_def)
    show "chl (serve d p) disk (\<lambda>E. E = disk s) (bread (idev (inodes u ip)) x u)
      (\<lambda>b t. trans_in dev p st {b} t \<and> keeps dev p {} {} s t \<and> cview dev t = ?v \<and> bdata (bufs t b) = ?v a \<and> length (?v a) = BSIZE)"
      unfolding su e by (rule chl_post [OF br [unfolded su u(3)]]) (use al(2) keeps_trans [OF u(2), of "{}"] in auto)
  qed
qed

lemma file_at_keeps:
  assumes "file_at dev p st ip s" "moves dev p st {} {} (cview dev s) s t"
  shows "file_at dev p st ip t" "inodes t = inodes s" "cview dev t = cview dev s" "sb t = sb s" "logged_set t \<subseteq> logged_set s"
  using assms keeps_fs [of dev p "{}" "{}" s t] by (auto simp: file_at_def moves_def keeps_def)

lemma readi_loop_ok:
  fixes s :: "'a fs_scheme"
  assumes dev: "blk_device d"
  shows "file_at dev p st ip s \<Longrightarrow> inodes s ip = q \<Longrightarrow> cview dev s = v \<Longrightarrow> card (logged_set s) < NBUF \<Longrightarrow>
    \<forall>i. off \<le> i \<longrightarrow> i < off + len \<longrightarrow> mapped q v i \<Longrightarrow>
    chl (serve d p) disk (\<lambda>E. E = disk s) (readi_loop ip (KernObj bs) off len s)
      (\<lambda>r t. r = (True, map (file_byte q v) [off..<off + len]) \<and> moves dev p st {} {} v s t)"
proof (induction len arbitrary: off bs s rule: less_induct)
  case (less len)
  note p = less.prems
  show ?case
  proof (cases "len = 0")
    case True
    have "trans_in dev p st {} s" using p(1) by (simp add: file_at_def)
    then show ?thesis using True p(3) moves_refl [of dev p st "{}" s] by (simp add: readi_loop.simps)
  next
    case False
    let ?m = "chunk off len" and ?a = "addr_at q v (off div BSIZE)"
    have m: "0 < ?m" "?m \<le> len" using False chunk_pos by (auto simp: chunk_def)
    have "mapped (inodes s ip) (cview dev s) off" using p False by simp
    note st = readi_step [OF dev p(1) this p(4), unfolded p(2,3)]
    have e: "readi_loop ip (KernObj bs) off len s =
      and_then (and_then (bmap ip (off div BSIZE) s) (\<lambda>addr s. bread (idev (inodes s ip)) addr s)) (\<lambda>bp s.
        let bs' = take ?m (drop (off mod BSIZE) (bdata (bufs s bp)))
        in and_then (either_copyout (KernObj bs) bs' s) (\<lambda>(r, obj) s.
           if r = - 1 then and_then (brelse bp s) (\<lambda>_ s. Ok (False, obj) s)
           else and_then (brelse bp s) (\<lambda>_ s.
                and_then (readi_loop ip (kaddr_add (KernObj bs) ?m) (off + ?m) (len - ?m) s) (\<lambda>(ok, rest) s. Ok (ok, obj @ rest) s))))"
      using False by (subst readi_loop.simps) (simp add: and_then_assoc Let_def)
    show ?thesis
      unfolding e
    proof (rule chl_and_then [OF st], elim conjE)
      fix b and u :: "'a fs_scheme"
      assume u: "trans_in dev p st {b} u" "keeps dev p {} {} s u" "cview dev u = v" "bdata (bufs u b) = v ?a" "length (v ?a) = BSIZE"
      obtain P where "cache_inv dev p {b} P u" using u(1) by (auto simp: trans_in_def trans_ready_def)
      then have mk: "mach_ok u" using readyD(1) [OF cache_invD(1)] by blast
      have "trans_in dev p st (insert b {}) (settle u)" using u(1) by simp
      then obtain x where x: "brelse b (settle u) = Ok () x" "trans_in dev p st {} x" "keeps dev p {} {} (settle u) x" "cview dev x = cview dev (settle u)"
        using brelse_in [of dev p st b "{}" "settle u"] by blast
      have mx: "moves dev p st {} {} (cview dev s) s x"
        using x keeps_trans [of dev p "{}" "{}" s "settle u" "{}" x] u(2,3) p(3) by (simp add: moves_def)
      note fx = file_at_keeps [OF p(1) mx]
      have D: "disk x = disk s" using mx by (rule moves_disk)
      have "card (logged_set x) < NBUF" using card_mono [OF finite_logged fx(5)] p(4) by simp
      then have "chl (serve d p) disk (\<lambda>E. E = disk x) (readi_loop ip (KernObj (drop ?m bs)) (off + ?m) (len - ?m) x)
          (\<lambda>r t. r = (True, map (file_byte q v) [off + ?m..<off + ?m + (len - ?m)]) \<and> moves dev p st {} {} v x t)"
        by (intro less.IH) (use m fx p in auto)
      then have "chl (serve d p) disk (\<lambda>E. E = disk s) (and_then (readi_loop ip (KernObj (drop ?m bs)) (off + ?m) (len - ?m) x)
            (\<lambda>(ok, rest) s. Ok (ok, take ?m (drop (off mod BSIZE) (v ?a)) @ rest) s))
          (\<lambda>r t. r = (True, map (file_byte q v) [off..<off + len]) \<and> moves dev p st {} {} v s t)"
        unfolding D
      proof (rule chl_and_then, elim conjE)
        fix r and t :: "'a fs_scheme"
        assume r: "r = (True, map (file_byte q v) [off + ?m..<off + ?m + (len - ?m)])" and mt: "moves dev p st {} {} v x t"
        have "moves dev p st {} {} v s t" using moves_trans [OF mx mt] by simp
        moreover have "[off..<off + len] = [off..<off + ?m] @ [off + ?m..<off + len]" using upt_add_eq_append [of off "off + ?m" "len - ?m"] m(2) by simp
        ultimately show "chl (serve d p) disk (\<lambda>E. E = disk s) ((case r of (ok, rest) \<Rightarrow> \<lambda>s. Ok (ok, take ?m (drop (off mod BSIZE) (v ?a)) @ rest) s) t)
            (\<lambda>r t. r = (True, map (file_byte q v) [off..<off + len]) \<and> moves dev p st {} {} v s t)"
          using r m(2) chunk_slice [where v = v and q = q and off = off and len = len, OF u(5)] by simp
      qed
      then show "chl (serve d p) disk (\<lambda>E. E = disk s)
        (let bs' = take ?m (drop (off mod BSIZE) (bdata (bufs u b)))
          in and_then (either_copyout (KernObj bs) bs' u) (\<lambda>(r, obj) s.
             if r = - 1 then and_then (brelse b s) (\<lambda>_ s. Ok (False, obj) s)
             else and_then (brelse b s) (\<lambda>_ s.
                  and_then (readi_loop ip (kaddr_add (KernObj bs) ?m) (off + ?m) (len - ?m) s) (\<lambda>(ok, rest) s. Ok (ok, obj @ rest) s))))
        (\<lambda>r t. r = (True, map (file_byte q v) [off..<off + len]) \<and> moves dev p st {} {} v s t)"
        using mk u(4) x(1) by (simp add: Let_def)
    qed
  qed
qed

text \<open>The content of a file, whose blocks are all there.\<close>

definition file_content :: "inode \<Rightarrow> (u32 \<Rightarrow> byte list) \<Rightarrow> byte list" where
  "file_content q v = map (file_byte q v) [0..<unat (isize q)]"

definition file_full :: "inode \<Rightarrow> (u32 \<Rightarrow> byte list) \<Rightarrow> bool" where
  "file_full q v \<longleftrightarrow> (\<forall>i<unat (isize q). mapped q v i)"

lemma content_slice:
  "off + k \<le> unat (isize q) \<Longrightarrow> take k (drop off (file_content q v)) = map (file_byte q v) [off..<off + k]"
  by (simp add: file_content_def drop_map take_map drop_upt take_upt)

lemma mapped_small: "mapped q v i \<Longrightarrow> i < MAXFILE * BSIZE"
  by (simp add: mapped_def less_mult_imp_div_less div_less_iff_less_mult)

lemma full_size: "file_full q v \<Longrightarrow> unat (isize q) \<le> MAXFILE * BSIZE"
  using mapped_small [of q v "unat (isize q) - 1"] by (cases "unat (isize q)") (auto simp: file_full_def)

lemma sint_small: "unat (n::u32) < 2 ^ 31 \<Longrightarrow> sint n = int (unat n)"
proof -
  assume n: "unat n < 2 ^ 31"
  have e: "sint (of_nat k :: u32) = int k" if "k < 2147483648" for k
    using that by (simp add: sint_uint unat_of_nat uint_nat signed_take_bit_int_eq_self take_bit_nat_eq_self)
  show ?thesis using e [of "unat n"] n by simp
qed

lemma readi_ok:
  fixes s :: "'a fs_scheme"
  assumes dev: "blk_device d" and f: "file_at dev p st ip s" and full: "file_full (inodes s ip) (cview dev s)"
    and o: "unat off + unat n < 2 ^ 32"
  defines "k \<equiv> min (unat n) (unat (isize (inodes s ip)) - unat off)"
  shows "chl (serve d p) disk (\<lambda>E. E = disk s) (readi ip (KernObj bs) off n s)
    (\<lambda>r t. r = (int k, take k (drop (unat off) (file_content (inodes s ip) (cview dev s)))) \<and> moves dev p st {} {} (cview dev s) s t)"
proof -
  let ?q = "inodes s ip" and ?v = "cview dev s"
  have sz: "unat (isize ?q) \<le> 274432" using full_size [OF full] by (simp add: MAXFILE_def NDIRECT_def NINDIRECT_def BSIZE_def)
  have on: "unat (off + n) = unat off + unat n" using o by (simp add: unat_word_ariths)
  then have no: "\<not> off + n < off" by (simp add: word_less_nat_alt)
  show ?thesis
  proof (cases "isize ?q < off")
    case True
    have "trans_in dev p st {} s" using f by (simp add: file_at_def)
    then show ?thesis using True moves_refl [of dev p st "{}" s] by (simp add: readi_def k_def word_less_nat_alt)
  next
    case False
    define n' where "n' = (if isize ?q < off + n then isize ?q - off else n)"
    have "unat (isize ?q - off) = unat (isize ?q) - unat off" using False by (simp add: unat_sub_if' word_less_nat_alt)
    then have n': "unat n' = k" using False on by (auto simp: n'_def k_def word_less_nat_alt)
    have b: "unat off + k \<le> unat (isize ?q)" using False by (auto simp: k_def word_less_nat_alt)
    have sn: "sint n' = int k" using sint_small [of n'] n' b sz by simp
    have "chl (serve d p) disk (\<lambda>E. E = disk s) (readi_loop ip (KernObj bs) (unat off) k s)
      (\<lambda>r t. r = (True, map (file_byte ?q ?v) [unat off..<unat off + k]) \<and> moves dev p st {} {} ?v s t)"
      by (rule readi_loop_ok [OF dev f refl refl logged_small]) (use f full b in \<open>auto simp: file_full_def file_at_def\<close>)
    then have "chl (serve d p) disk (\<lambda>E. E = disk s) (and_then (readi_loop ip (KernObj bs) (unat off) k s) (\<lambda>(ok, obj) s. Ok (if ok then sint n' else - 1, obj) s))
      (\<lambda>r t. r = (int k, take k (drop (unat off) (file_content ?q ?v))) \<and> moves dev p st {} {} ?v s t)"
      by (rule chl_and_then) (simp add: content_slice [OF b] sn)
    then show ?thesis using False no n' by (simp add: readi_def Let_def n'_def [symmetric])
  qed
qed

end
