(* ===== verification/Dinode.thy ===== *)
theory Dinode
  imports Fs
begin

text \<open>
  An inode on disk: what \<^verbatim>\<open>iupdate\<close> stores in the inode's place of its block, \<^verbatim>\<open>ilock\<close> reads back.  \<^verbatim>\<open>mkfs\<close> uses the same layout.
\<close>

lemma put_at_append:
  "off + length u + length v \<le> length bs \<Longrightarrow> put_at (off + length u) v (put_at off u bs) = put_at off (u @ v) bs"
  by (simp add: put_at_def ac_simps)

lemma put_at_field:
  "off + length x \<le> length bs \<Longrightarrow> k + n \<le> length x \<Longrightarrow> take n (drop (off + k) (put_at off x bs)) = take n (drop k x)"
  by (simp add: put_at_def)

lemma concat_words:
  "k < length xs \<Longrightarrow> take 4 (drop (4 * k) (concat (map (bytes_of_word 4) xs))) = bytes_of_word 4 (xs ! k)"
proof (induction xs arbitrary: k)
  case (Cons x xs)
  then show ?case by (cases k) simp_all
qed simp

definition dinode_bytes :: "inode \<Rightarrow> byte list" where
  "dinode_bytes q = bytes_of_word 2 (itype q) @ bytes_of_word 2 (imajor q) @ bytes_of_word 2 (iminor q) @
     bytes_of_word 2 (nlink q) @ bytes_of_word 4 (isize q) @ concat (map (bytes_of_word 4) (addrs q))"

lemma length_words: "length (concat (map (bytes_of_word 4) (xs :: u32 list))) = 4 * length xs"
  by (induction xs) simp_all

lemma store_dinode_eq:
  assumes "length (addrs q) = NDIRECT + 1" "off + DINODE_SIZE \<le> length bs"
  shows "store_dinode off q bs = put_at off (dinode_bytes q) bs"
proof -
  note A = put_at_append [where bs = bs and off = off]
  have l: "off + 64 \<le> length bs" using assms(2) by (simp add: DINODE_SIZE_def NDIRECT_def)
  have "length (addrs q) = 13" using assms(1) by (simp add: NDIRECT_def)
  then show ?thesis
    using l A [of "bytes_of_word 2 (itype q)" "bytes_of_word 2 (imajor q)"]
      A [of "bytes_of_word 2 (itype q) @ bytes_of_word 2 (imajor q)" "bytes_of_word 2 (iminor q)"]
      A [of "bytes_of_word 2 (itype q) @ bytes_of_word 2 (imajor q) @ bytes_of_word 2 (iminor q)" "bytes_of_word 2 (nlink q)"]
      A [of "bytes_of_word 2 (itype q) @ bytes_of_word 2 (imajor q) @ bytes_of_word 2 (iminor q) @ bytes_of_word 2 (nlink q)" "bytes_of_word 4 (isize q)"]
      A [of "bytes_of_word 2 (itype q) @ bytes_of_word 2 (imajor q) @ bytes_of_word 2 (iminor q) @ bytes_of_word 2 (nlink q) @ bytes_of_word 4 (isize q)"
          "concat (map (bytes_of_word 4) (addrs q))"]
    by (simp add: store_dinode_def put16_def put32_def Let_def dinode_bytes_def length_words)
qed

lemma load_store_dinode:
  assumes "length (addrs q) = NDIRECT + 1" "off + DINODE_SIZE \<le> length bs"
  shows "load_dinode off (store_dinode off q bs) r = r\<lparr>itype := itype q, imajor := imajor q, iminor := iminor q,
    nlink := nlink q, isize := isize q, addrs := addrs q\<rparr>"
proof -
  have 13: "length (addrs q) = 13" using assms(1) by (simp add: NDIRECT_def)
  have l: "off + length (dinode_bytes q) \<le> length bs" "length (dinode_bytes q) = 64"
    using assms(2) 13 by (simp_all add: dinode_bytes_def length_words DINODE_SIZE_def NDIRECT_def)
  note F = put_at_field [OF l(1), unfolded l(2)]
  let ?b = "put_at off (dinode_bytes q) bs"
  have w: "word_of_bytes (bytes_of_word 2 x) = x" "word_of_bytes (bytes_of_word 4 y) = y" for x :: u16 and y :: u32
    by (simp_all add: word_of_bytes_of_word)
  have h: "get16 off ?b = itype q" "get16 (off + 2) ?b = imajor q" "get16 (off + 4) ?b = iminor q"
    "get16 (off + 6) ?b = nlink q" "get32 (off + 8) ?b = isize q"
    using F [of 0 2] F [of 2 2] F [of 4 2] F [of 6 2] F [of 8 4] w
    by (simp_all add: get16_def get32_def dinode_bytes_def)
  have "get32 (off + 12 + 4 * k) ?b = addrs q ! k" if "k < 13" for k
    using F [of "12 + 4 * k" 4] concat_words [of k "addrs q"] that 13 w by (simp add: get32_def dinode_bytes_def add.assoc)
  then have "dinode_addrs off ?b = addrs q" using 13 by (auto simp: dinode_addrs_def NDIRECT_def intro!: nth_equalityI simp del: upt_Suc)
  then show ?thesis using h by (simp add: store_dinode_eq [OF assms] load_dinode_def)
qed

lemma length_dinode_bytes: "length (addrs q) = NDIRECT + 1 \<Longrightarrow> length (dinode_bytes q) = DINODE_SIZE"
  by (simp add: dinode_bytes_def length_words DINODE_SIZE_def NDIRECT_def)

lemma length_store_dinode:
  assumes "length (addrs q) = NDIRECT + 1" "off + DINODE_SIZE \<le> length bs"
  shows "length (store_dinode off q bs) = length bs"
  using assms length_dinode_bytes [OF assms(1)] unfolding store_dinode_eq [OF assms] by (simp add: put_at_def)

text \<open>The other inodes of the block are not touched.\<close>

lemma store_dinode_other:
  assumes "length (addrs q) = NDIRECT + 1" "off + DINODE_SIZE \<le> length bs" "off' + DINODE_SIZE \<le> off \<or> off + DINODE_SIZE \<le> off'"
  shows "take DINODE_SIZE (drop off' (store_dinode off q bs)) = take DINODE_SIZE (drop off' bs)"
  using assms length_dinode_bytes [OF assms(1)] unfolding store_dinode_eq [OF assms(1,2)] by (auto simp: put_at_def drop_take)

end
