(* ===== verification/Inode_Write.thy ===== *)
theory Inode_Write
  imports Inode_Facts Dinode
begin

text \<open>
  Writing to a file: \<^verbatim>\<open>writei\<close> inside a transaction, with the allocation of blocks that the write needs.
\<close>

section \<open>The effect on the content\<close>

definition wrote :: "nat \<Rightarrow> superblock \<Rightarrow> nat \<Rightarrow> byte list \<Rightarrow> inode \<Rightarrow> (u32 \<Rightarrow> byte list) \<Rightarrow> inode \<Rightarrow> (u32 \<Rightarrow> byte list) \<Rightarrow> bool" where
  "wrote st su off xs q v q' v' \<longleftrightarrow> grows st su q v q' v' \<and>
     (\<forall>i. mapped q v i \<longrightarrow> \<not> (off \<le> i \<and> i < off + length xs) \<longrightarrow> file_byte q' v' i = file_byte q v i) \<and>
     (\<forall>i<length xs. mapped q' v' (off + i) \<and> file_byte q' v' (off + i) = xs ! i)"

lemma grows_mapped: "grows st su q v q' v' \<Longrightarrow> mapped q v i \<Longrightarrow> mapped q' v' i"
  by (auto simp: grows_def mapped_def)

lemma wrote_nil: "fs_ok st su v \<Longrightarrow> file_ok st su v q \<Longrightarrow> wrote st su off [] q v q v"
  by (simp add: wrote_def grows_refl)

lemma wrote_append:
  assumes a: "wrote st su off xs q v q1 v1" and b: "wrote st su (off + length xs) ys q1 v1 q2 v2"
  shows "wrote st su off (xs @ ys) q v q2 v2"
proof -
  note A = a [unfolded wrote_def] and B = b [unfolded wrote_def]
  have g: "grows st su q v q1 v1" "grows st su q1 v1 q2 v2" using A B by blast+
  have "file_byte q2 v2 i = file_byte q v i" if "mapped q v i" "\<not> (off \<le> i \<and> i < off + length (xs @ ys))" for i
  proof -
    have n: "\<not> (off \<le> i \<and> i < off + length xs)" "\<not> (off + length xs \<le> i \<and> i < off + length xs + length ys)" using that(2) by auto
    have "file_byte q2 v2 i = file_byte q1 v1 i" using B grows_mapped [OF g(1) that(1)] n(2) by blast
    also have "\<dots> = file_byte q v i" using A that(1) n(1) by blast
    finally show ?thesis .
  qed
  moreover have "mapped q2 v2 (off + i) \<and> file_byte q2 v2 (off + i) = (xs @ ys) ! i" if i: "i < length (xs @ ys)" for i
  proof (cases "i < length xs")
    case True
    then have "mapped q1 v1 (off + i)" "file_byte q1 v1 (off + i) = xs ! i" using A by blast+
    then show ?thesis using True B grows_mapped [OF g(2)] by (simp add: nth_append)
  next
    case False
    then have "i - length xs < length ys" "off + length xs + (i - length xs) = off + i" using i by simp_all
    then show ?thesis using B False by (metis nth_append)
  qed
  ultimately show ?thesis using grows_trans [OF g] by (simp add: wrote_def)
qed

lemma wrote_block:
  assumes g: "grows st su q v q' v'" and k: "keeps_data q v v'" and n: "off div BSIZE < MAXFILE" and a: "a = addr_at q' v' (off div BSIZE)" "a \<noteq> 0"
    and m: "length xs \<le> BSIZE - off mod BSIZE"
  defines "w \<equiv> v'(a := put_at (off mod BSIZE) xs (v' a))"
  shows "wrote st su off xs q v q' w" "addr_at q' w = addr_at q' v'"
proof -
  note G = g [unfolded grows_def]
  have F: "fs_ok st su v'" "file_ok st su v' q'" using G by blast+
  have "a \<in> own q' v'" using a n by (auto simp: own_def)
  then have la: "length (v' a) = BSIZE" using F(2) by (auto simp: file_ok_def data_block_def)
  have ob: "off mod BSIZE < BSIZE" by simp
  then have fit: "off mod BSIZE + length xs \<le> length (v' a)" using m la by linarith
  then have l: "length (put_at (off mod BSIZE) xs (v' a)) = BSIZE" using length_put_at la by simp
  have a0: "addr_at q' v' (off div BSIZE) \<noteq> 0" using a by simp
  note U = upd_data [OF F n a0 l, unfolded a(1) [symmetric], folded w_def]
  show ad: "addr_at q' w = addr_at q' v'" by (rule U(1))
  have fb: "file_byte q' w i = w (addr_at q' v' (i div BSIZE)) ! (i mod BSIZE)" for i by (simp add: file_byte_def ad)
  have w: "w a = put_at (off mod BSIZE) xs (v' a)" "x \<noteq> a \<Longrightarrow> w x = v' x" for x by (simp_all add: w_def)
  have "file_byte q' w i = file_byte q v i" if i: "mapped q v i" "\<not> (off \<le> i \<and> i < off + length xs)" for i
  proof -
    let ?n = "i div BSIZE"
    have n': "?n < MAXFILE" "addr_at q v ?n \<noteq> 0" using i(1) by (auto simp: mapped_def)
    have e: "addr_at q' v' ?n = addr_at q v ?n" "v' (addr_at q v ?n) = v (addr_at q v ?n)" using G k n' by (auto simp: keeps_data_def)
    show ?thesis
    proof (cases "addr_at q v ?n = a")
      case True
      then have "?n = off div BSIZE" using F(2) n' n e(1) a unfolding file_ok_def by metis
      then have io: "i < off \<longleftrightarrow> i mod BSIZE < off mod BSIZE" "i < off + length xs \<longleftrightarrow> i mod BSIZE < off mod BSIZE + length xs"
        by (metis add_less_cancel_left div_mult_mod_eq, metis add.assoc add_less_cancel_left div_mult_mod_eq)
      have "i mod BSIZE < length (v' a)" using la by simp
      then have "put_at (off mod BSIZE) xs (v' a) ! (i mod BSIZE) = v' a ! (i mod BSIZE)" using put_at_nth [OF fit, of "i mod BSIZE"] io i(2) by auto
      then have "file_byte q' w i = v' a ! (i mod BSIZE)" unfolding fb e(1) True w(1) .
      then show ?thesis using e(2) True by (simp add: file_byte_def)
    next
      case False
      then have "w (addr_at q v ?n) = v (addr_at q v ?n)" using w(2) e(2) by simp
      then show ?thesis unfolding fb e(1) by (simp add: file_byte_def)
    qed
  qed
  moreover have "mapped q' w (off + i) \<and> file_byte q' w (off + i) = xs ! i" if i: "i < length xs" for i
  proof -
    have "i < chunk off (length xs)" using i m by (simp add: chunk_def)
    note c = in_chunk [OF this]
    have "off mod BSIZE + i < length (v' a)" using fit i by simp
    then have "put_at (off mod BSIZE) xs (v' a) ! (off mod BSIZE + i) = xs ! i" using i put_at_nth [OF fit, of "off mod BSIZE + i"] by simp
    then have "file_byte q' w (off + i) = xs ! i" unfolding fb c a(1) [symmetric] w(1) .
    then show ?thesis using a n by (simp add: mapped_def c ad)
  qed
  ultimately show "wrote st su off xs q v q' w" using grows_trans [OF g U(2)] by (simp add: wrote_def)
qed

section \<open>One block\<close>

text \<open>What is known after a number of bytes has been written.\<close>

definition write_post :: "u32 \<Rightarrow> nat \<Rightarrow> nat \<Rightarrow> nat \<Rightarrow> nat \<Rightarrow> nat set \<Rightarrow> byte list \<Rightarrow> 'a fs_scheme \<Rightarrow> 'a fs_scheme \<Rightarrow> bool" where
  "write_post dev p st ip off N xs s t \<longleftrightarrow> (\<exists>q' v' W. wrote st (sb s) off xs (inodes s ip) (cview dev s) q' v' \<and> fmoves dev p st {} W v' ip q' s t \<and>
     W \<subseteq> bmap_blocks (sb s) \<union> (insert (addrs q' ! NDIRECT) (addr_at q' v' ` N) - {0}) \<and>
     card (free_blocks (sb s) (cview dev s)) + need_ind q' \<le>
       card (free_blocks (sb s) v') + need_ind (inodes s ip) + card {n\<in>N. addr_at (inodes s ip) (cview dev s) n = 0})"

definition fetched :: "u32 \<Rightarrow> nat \<Rightarrow> nat \<Rightarrow> nat \<Rightarrow> nat \<Rightarrow> 'a fs_scheme \<Rightarrow> nat \<Rightarrow> 'a fs_scheme \<Rightarrow> bool" where
  "fetched dev p st ip n s b t \<longleftrightarrow> (\<exists>a u. bmap_post dev p st ip n s a u \<and> has_block dev a (bufs t b) \<and> trans_in dev p st {b} t \<and> keeps dev p {} {} u t \<and>
     cview dev t = cview dev u)"

lemma fetch_ok:
  fixes s :: "'a fs_scheme"
  assumes dev: "blk_device d" and f: "file_at dev p st ip s" and n: "n < MAXFILE" and room: "log_room 6 s"
    and fr: "addr_at (inodes s ip) (cview dev s) n = 0 \<Longrightarrow> 1 + need_ind (inodes s ip) \<le> card (free_blocks (sb s) (cview dev s))"
  shows "chl (serve d p) disk (\<lambda>E. E = disk s) (and_then (bmap ip n s) (\<lambda>addr s. bread (idev (inodes s ip)) addr s)) (fetched dev p st ip n s)"
proof (rule chl_and_then [OF bmap_ok [OF dev f n log_room_less [OF room] fr]])
  show "5 \<le> (6::nat)" by simp
  fix a and u :: "'a fs_scheme"
  assume bm: "bmap_post dev p st ip n s a u"
  then obtain q' v' W where B: "a = addr_at q' v' n" "a \<noteq> 0" "grows st (sb s) (inodes s ip) (cview dev s) q' v'" "fmoves dev p st {} W v' ip q' s u"
    unfolding bmap_post_def by blast
  note D = fmovesD [OF B(4)]
  have fu: "file_at dev p st ip u" by (rule file_at_moved [OF f B(4,3)])
  have idv: "idev (inodes u ip) = dev" using fu by (simp add: file_at_def)
  have "a \<in> own (inodes u ip) (cview dev u)" using B(1,2) n D(2,4) by (auto simp: own_def)
  then have al: "unat a < 2 ^ 31" using fu by (auto simp: file_at_def file_ok_def data_block_def fs_ok_def alloc_ok_def word_less_nat_alt)
  have "card (logged_set u) < NBUF" by (rule logged_small [OF D(1)])
  then have "chl (serve d p) disk (\<lambda>E. E = disk u) (bread dev a u) (\<lambda>b t. b \<notin> {} \<and> has_block dev a (bufs t b) \<and>
      trans_in dev p st (insert b {}) t \<and> keeps dev p {} {} u t \<and> cview dev t = cview dev u \<and> bdata (bufs t b) = cview dev u a)"
    by (intro bread_in [OF dev D(1) _ al]) simp_all
  then show "chl (serve d p) disk (\<lambda>E. E = disk s) (bread (idev (inodes u ip)) a u) (fetched dev p st ip n s)"
    unfolding idv D(5) by (rule chl_post) (use bm in \<open>auto simp: fetched_def\<close>)
qed

text \<open>Recording the changed block and unlocking it.\<close>

lemma put_block:
  fixes s :: "'a fs_scheme"
  assumes f: "file_at dev p st ip s" and t: "fetched dev p st ip (off div BSIZE) s b t" and n: "off div BSIZE < MAXFILE"
    and room: "log_room 6 s" and m: "length xs \<le> BSIZE - off mod BSIZE"
  shows "\<exists>w x. log_write b (set_data b (put_at (off mod BSIZE) xs) (settle t)) = Ok () w \<and> brelse b w = Ok () x \<and>
    write_post dev p st ip off {off div BSIZE} xs s x \<and> disk x = disk s"
proof -
  let ?n = "off div BSIZE" and ?q = "inodes s ip" and ?v = "cview dev s" and ?su = "sb s"
  obtain a u where u: "bmap_post dev p st ip ?n s a u" "has_block dev a (bufs t b)" "trans_in dev p st {b} t" "keeps dev p {} {} u t" "cview dev t = cview dev u"
    using t by (auto simp: fetched_def)
  obtain q' v' W where B: "a = addr_at q' v' ?n" "a \<noteq> 0" "grows st ?su ?q ?v q' v'" "keeps_data ?q ?v v'" "fmoves dev p st {} W v' ip q' s u"
    "W \<subseteq> bmap_blocks ?su \<union> ({a, addrs q' ! NDIRECT} - {0})" "finite W" "card W \<le> 3 + 2 * need_ind ?q"
    "card (free_blocks ?su ?v) + need_ind q' \<le> card (free_blocks ?su v') + need_ind ?q + of_bool (addr_at ?q ?v ?n = 0)"
    using u(1) by (auto simp: bmap_post_def)
  note D = fmovesD [OF B(5)]
  have fu: "file_at dev p st ip u" by (rule file_at_moved [OF f B(5,3)])
  have "a \<in> own q' v'" using B(1,2) n by (auto simp: own_def)
  then have al: "unat a \<notin> log_area st" using B(3) by (auto simp: grows_def file_ok_def data_block_def)
  define t1 where "t1 = settle t"
  have t1: "trans_in dev p st {b} t1" "keeps dev p {} {} u t1" "cview dev t1 = v'" "has_block dev a (bufs t1 b)" using u D(2) by (simp_all add: t1_def)
  have l1: "log_room 1 t1"
  proof -
    have W: "finite W" "card W \<le> 5" using B(7,8) by (auto simp: need_ind_def of_bool_def split: if_splits)
    then have "log_room 1 u" using D(9) [of 1] log_room_less [OF room, of "1 + card W"] by simp
    then show ?thesis using log_room_keeps [OF t1(2), of 1] by simp
  qed
  let ?f = "put_at (off mod BSIZE) xs"
  obtain w where w: "log_write b (upd_buf b (bdata_update ?f) t1) = Ok () w" "trans_in dev p st {b} w" "keeps dev p {b} {a} t1 w"
    "cview dev w = v'(a := ?f (v' a))" using log_write_in [OF t1(1) singletonI t1(4) al l1, of ?f] t1(3) by auto
  obtain x where x: "brelse b w = Ok () x" "trans_in dev p st {} x" "keeps dev p {} {} w x" "cview dev x = cview dev w"
    using brelse_in [of dev p st b "{}" w] w(2) by auto
  have "keeps dev p {} {a} u x"
    using keeps_trans [OF keeps_trans [OF t1(2) keeps_mono [OF w(3)]] x(3), of "{a}"] by simp
  then have "moves dev p st {} {a} (v'(a := ?f (v' a))) u x" using x w(4) by (simp add: moves_def)
  from fmoves_trans [OF B(5) fmoves_keep [OF this, of ip, unfolded D(4)]]
  have mx: "fmoves dev p st {} (W \<union> {a}) (v'(a := ?f (v' a))) ip q' s x" .
  note wb = wrote_block [OF B(3,4) n B(1,2) m]
  have fb: "free_blocks ?su (v'(a := ?f (v' a))) = free_blocks ?su v'"
  proof -
    have "a \<notin> bmap_blocks ?su" using B(3) \<open>a \<in> own q' v'\<close> own_used by (auto simp: grows_def)
    then have "bit_used ?su (v'(a := ?f (v' a))) c = bit_used ?su v' c" if "c < fssize ?su" for c
      using BBLOCK_bmap [OF that] by (auto simp: bit_used_iff)
    then show ?thesis by (auto simp: free_blocks_def)
  qed
  have "card {n \<in> {?n}. addr_at ?q ?v n = 0} = of_bool (addr_at ?q ?v ?n = 0)" by (simp add: card_1_singleton_iff Collect_conv_if)
  then have "write_post dev p st ip off {?n} xs s x"
    unfolding write_post_def using wb mx B(1,2,6,9) fb
    by (intro exI [of _ q'] exI [of _ "v'(a := ?f (v' a))"] exI [of _ "W \<union> {a}"]) auto
  moreover have "disk x = disk s" using fmovesD(5) [OF mx] .
  ultimately show ?thesis using w(1) x(1) unfolding t1_def [symmetric] set_data_def by blast
qed

section \<open>The loop\<close>

definition blocks_of :: "nat \<Rightarrow> nat \<Rightarrow> nat set" where
  "blocks_of off len = (\<lambda>i. i div BSIZE) ` {off..<off + len}"

lemma blocks_of_step:
  fixes off len :: nat
  assumes "0 < len"
  defines "m \<equiv> chunk off len"
  shows "blocks_of off len = insert (off div BSIZE) (blocks_of (off + m) (len - m))" "off div BSIZE \<notin> blocks_of (off + m) (len - m)"
proof -
  have m: "0 < m" "m \<le> len" using assms chunk_pos by (auto simp: chunk_def)
  have "{off..<off + len} = {off..<off + m} \<union> {off + m..<off + m + (len - m)}" using m by auto
  moreover have "(\<lambda>i. i div BSIZE) ` {off..<off + m} = {off div BSIZE}"
  proof -
    have "i div BSIZE = off div BSIZE" if "i \<in> {off..<off + m}" for i using in_chunk(1) [of "i - off" off len] that by (auto simp: m_def)
    moreover have "off \<in> {off..<off + m}" using m by simp
    ultimately show ?thesis by blast
  qed
  ultimately show "blocks_of off len = insert (off div BSIZE) (blocks_of (off + m) (len - m))" by (simp add: blocks_of_def image_Un)
  have "off div BSIZE \<noteq> i div BSIZE" if "off + m \<le> i" "m < len" for i
  proof -
    have e: "m = BSIZE - off mod BSIZE" using that(2) by (auto simp: m_def chunk_def)
    have "off mod BSIZE < BSIZE" by simp
    then have "Suc (off div BSIZE) * BSIZE = off + m" using div_mult_mod_eq [of off BSIZE] unfolding e mult_Suc by linarith
    then have "Suc (off div BSIZE) * BSIZE \<le> i" using that(1) by simp
    then have "Suc (off div BSIZE) \<le> i div BSIZE" by (simp add: less_eq_div_iff_mult_less_eq)
    then show ?thesis by simp
  qed
  then show "off div BSIZE \<notin> blocks_of (off + m) (len - m)" unfolding blocks_of_def by fastforce
qed

text \<open>Room in the log for the blocks \<open>R\<close>, and free blocks for those of \<open>N\<close> that are missing.\<close>

definition write_ready :: "u32 \<Rightarrow> nat \<Rightarrow> nat \<Rightarrow> nat \<Rightarrow> u32 set \<Rightarrow> nat set \<Rightarrow> nat set \<Rightarrow> 'a fs_scheme \<Rightarrow> bool" where
  "write_ready dev p st ip L R N s \<longleftrightarrow> file_at dev p st ip s \<and> finite R \<and> R \<subseteq> {..<MAXFILE} \<and> N \<subseteq> R \<and> finite L \<and>
     logged_set s \<subseteq> L \<union> bmap_blocks (sb s) \<union> (insert (addrs (inodes s ip) ! NDIRECT) (addr_at (inodes s ip) (cview dev s) ` R) - {0}) \<and>
     int (card L + card (bmap_blocks (sb s)) + card R + 7) \<le> log_size s - 1 \<and> log_size s \<le> int LOGSIZE \<and> 1 \<le> log_outstanding s \<and>
     (0 < card {n\<in>N. addr_at (inodes s ip) (cview dev s) n = 0} \<longrightarrow>
       need_ind (inodes s ip) + card {n\<in>N. addr_at (inodes s ip) (cview dev s) n = 0} \<le> card (free_blocks (sb s) (cview dev s)))"

lemma finite_bmap [simp]: "finite (bmap_blocks su)"
  by (rule finite_subset [OF subset_UNIV]) simp

lemma write_ready_room:
  assumes "write_ready dev p st ip L R N s"
  shows "log_room 6 s"
proof -
  note A = assms [unfolded write_ready_def]
  let ?D = "insert (addrs (inodes s ip) ! NDIRECT) (addr_at (inodes s ip) (cview dev s) ` R)"
  have "card ?D \<le> Suc (card (addr_at (inodes s ip) (cview dev s) ` R))" by (rule card_insert_le_m1) simp_all
  moreover have "card (addr_at (inodes s ip) (cview dev s) ` R) \<le> card R" using A by (intro card_image_le) blast
  moreover have "card (?D - {0}) \<le> card ?D" using A by (intro card_mono) auto
  moreover have "card (logged_set s) \<le> card (L \<union> bmap_blocks (sb s) \<union> (?D - {0}))" using A by (intro card_mono) auto
  moreover have "card (L \<union> bmap_blocks (sb s) \<union> (?D - {0})) \<le> card L + card (bmap_blocks (sb s)) + card (?D - {0})"
    using card_Un_le [of "L \<union> bmap_blocks (sb s)" "?D - {0}"] card_Un_le [of L "bmap_blocks (sb s)"] by linarith
  ultimately show ?thesis using A by (simp add: log_room_def)
qed

text \<open>The places of a file's blocks do not change when it grows.\<close>

lemma grows_places:
  assumes "grows st su q v q' v'" "N \<subseteq> {..<MAXFILE}"
  shows "insert (addrs q ! NDIRECT) (addr_at q v ` N) - {0} \<subseteq> insert (addrs q' ! NDIRECT) (addr_at q' v' ` N) - {0}"
    "{n\<in>N. addr_at q' v' n = 0} \<subseteq> {n\<in>N. addr_at q v n = 0}"
proof -
  note G = assms(1) [unfolded grows_def]
  have k: "addr_at q' v' n = addr_at q v n" if "n \<in> N" "addr_at q v n \<noteq> 0" for n using G assms(2) that by blast
  show "insert (addrs q ! NDIRECT) (addr_at q v ` N) - {0} \<subseteq> insert (addrs q' ! NDIRECT) (addr_at q' v' ` N) - {0}"
  proof
    fix x assume x: "x \<in> insert (addrs q ! NDIRECT) (addr_at q v ` N) - {0}"
    then consider "x = addrs q ! NDIRECT" "x \<noteq> 0" | n where "n \<in> N" "x = addr_at q v n" "x \<noteq> 0" by blast
    then show "x \<in> insert (addrs q' ! NDIRECT) (addr_at q' v' ` N) - {0}"
    proof cases
      case 2
      then have "x = addr_at q' v' n" using k by simp
      then show ?thesis using 2 by blast
    qed (use G in auto)
  qed
  show "{n\<in>N. addr_at q' v' n = 0} \<subseteq> {n\<in>N. addr_at q v n = 0}" using k by force
qed

lemma write_ready_step:
  assumes r: "write_ready dev p st ip L R N s" and w: "write_post dev p st ip off M xs s t" and M: "M \<subseteq> N" and N': "N' = N - M"
  shows "write_ready dev p st ip L R N' t"
proof -
  let ?q = "inodes s ip" and ?v = "cview dev s" and ?su = "sb s"
  note A = r [unfolded write_ready_def]
  obtain q' v' W where B: "wrote st ?su off xs ?q ?v q' v'" "fmoves dev p st {} W v' ip q' s t"
    "W \<subseteq> bmap_blocks ?su \<union> (insert (addrs q' ! NDIRECT) (addr_at q' v' ` M) - {0})"
    "card (free_blocks ?su ?v) + need_ind q' \<le> card (free_blocks ?su v') + need_ind ?q + card {m\<in>M. addr_at ?q ?v m = 0}"
    using w by (auto simp: write_post_def)
  have g: "grows st ?su ?q ?v q' v'" using B(1) by (simp add: wrote_def)
  note D = fmovesD [OF B(2)]
  have R: "R \<subseteq> {..<MAXFILE}" "finite N" "N \<subseteq> R" using A finite_subset by blast+
  note P = grows_places [OF g R(1)]
  have "log_ctl t = log_ctl s" using B(2) by (simp add: fmoves_def moves_def keeps_def log_ctl_def)
  then have c: "log_size t = log_size s" "log_outstanding t = log_outstanding s" by (simp_all add: log_ctl_def)
  let ?D = "insert (addrs q' ! NDIRECT) (addr_at q' v' ` R) - {0}"
  have "insert (addrs q' ! NDIRECT) (addr_at q' v' ` M) - {0} \<subseteq> ?D" using M R(3) by blast
  then have W: "W \<subseteq> bmap_blocks ?su \<union> ?D" using B(3) by blast
  have "logged_set s \<subseteq> L \<union> bmap_blocks ?su \<union> (insert (addrs ?q ! NDIRECT) (addr_at ?q ?v ` R) - {0})" using A by blast
  then have "logged_set s \<subseteq> L \<union> bmap_blocks ?su \<union> ?D" using P(1) by blast
  then have l: "logged_set t \<subseteq> L \<union> bmap_blocks ?su \<union> ?D" using D(6) W by blast
  let ?U = "{m\<in>N. addr_at ?q ?v m = 0}" and ?U' = "{m\<in>N'. addr_at q' v' m = 0}" and ?u = "{m\<in>M. addr_at ?q ?v m = 0}"
  have "N' \<subseteq> {..<MAXFILE}" using N' R by blast
  note P' = grows_places(2) [OF g this]
  have "?U' \<subseteq> {m\<in>N'. addr_at ?q ?v m = 0}" by (rule P')
  then have u: "?U' \<union> ?u \<subseteq> ?U" "?U' \<inter> ?u = {}" using M N' by auto
  have fin: "finite ?U'" "finite ?u" "finite ?U" using R(2) N' finite_subset [OF M] by simp_all
  have "card ?U' + card ?u \<le> card ?U" using card_mono [OF fin(3) u(1)] card_Un_disjoint [OF fin(1,2) u(2)] by linarith
  moreover have "0 < card ?U \<longrightarrow> need_ind ?q + card ?U \<le> card (free_blocks ?su ?v)" using A by blast
  ultimately have fr: "0 < card ?U' \<longrightarrow> need_ind q' + card ?U' \<le> card (free_blocks ?su v')" using B(4) by linarith
  have "N' \<subseteq> R" using N' R(3) by blast
  then show ?thesis unfolding write_ready_def D(2,3,4) c using A file_at_moved [OF _ B(2) g] l fr by blast
qed

lemma write_post_trans:
  assumes a: "write_post dev p st ip off N xs s t" and b: "write_post dev p st ip (off + length xs) M ys t u"
    and N: "N \<inter> M = {}" "finite N" "finite M" "N \<subseteq> {..<MAXFILE}" "M \<subseteq> {..<MAXFILE}"
  shows "write_post dev p st ip off (N \<union> M) (xs @ ys) s u"
proof -
  let ?q = "inodes s ip" and ?v = "cview dev s" and ?su = "sb s"
  obtain q1 v1 W where A: "wrote st ?su off xs ?q ?v q1 v1" "fmoves dev p st {} W v1 ip q1 s t"
    "W \<subseteq> bmap_blocks ?su \<union> (insert (addrs q1 ! NDIRECT) (addr_at q1 v1 ` N) - {0})"
    "card (free_blocks ?su ?v) + need_ind q1 \<le> card (free_blocks ?su v1) + need_ind ?q + card {n\<in>N. addr_at ?q ?v n = 0}"
    using a by (auto simp: write_post_def)
  note D = fmovesD [OF A(2)]
  obtain q2 v2 V where B: "wrote st ?su (off + length xs) ys q1 v1 q2 v2" "fmoves dev p st {} V v2 ip q2 t u"
    "V \<subseteq> bmap_blocks ?su \<union> (insert (addrs q2 ! NDIRECT) (addr_at q2 v2 ` M) - {0})"
    "card (free_blocks ?su v1) + need_ind q2 \<le> card (free_blocks ?su v2) + need_ind q1 + card {n\<in>M. addr_at q1 v1 n = 0}"
    using b unfolding write_post_def D(2,3,4) by blast
  have g: "grows st ?su ?q ?v q1 v1" "grows st ?su q1 v1 q2 v2" using A(1) B(1) by (auto simp: wrote_def)
  have "card {n\<in>M. addr_at q1 v1 n = 0} \<le> card {n\<in>M. addr_at ?q ?v n = 0}" by (rule card_mono [OF _ grows_places(2) [OF g(1) N(5)]]) (use N(3) in simp)
  moreover have "{n\<in>N \<union> M. addr_at ?q ?v n = 0} = {n\<in>N. addr_at ?q ?v n = 0} \<union> {n\<in>M. addr_at ?q ?v n = 0}" by blast
  then have "card {n\<in>N \<union> M. addr_at ?q ?v n = 0} = card {n\<in>N. addr_at ?q ?v n = 0} + card {n\<in>M. addr_at ?q ?v n = 0}"
    using N(1-3) card_Un_disjoint [of "{n\<in>N. addr_at ?q ?v n = 0}" "{n\<in>M. addr_at ?q ?v n = 0}"] by (simp add: disjoint_iff)
  ultimately have c: "card (free_blocks ?su ?v) + need_ind q2 \<le> card (free_blocks ?su v2) + need_ind ?q + card {n\<in>N \<union> M. addr_at ?q ?v n = 0}"
    using A(4) B(4) by linarith
  have W: "W \<union> V \<subseteq> bmap_blocks ?su \<union> (insert (addrs q2 ! NDIRECT) (addr_at q2 v2 ` (N \<union> M)) - {0})"
    using A(3) B(3) grows_places(1) [OF g(2) N(4)] by blast
  show ?thesis
    unfolding write_post_def using wrote_append [OF A(1) B(1)] fmoves_trans [OF A(2) B(2)] W c by blast
qed

lemma write_ready_free:
  assumes "write_ready dev p st ip L R N s" "n \<in> N" "addr_at (inodes s ip) (cview dev s) n = 0"
  shows "1 + need_ind (inodes s ip) \<le> card (free_blocks (sb s) (cview dev s))"
proof -
  let ?U = "{m\<in>N. addr_at (inodes s ip) (cview dev s) m = 0}"
  note A = assms(1) [unfolded write_ready_def]
  have "finite N" using A finite_subset by blast
  then have "0 < card ?U" using assms(2,3) by (auto simp: card_gt_0_iff)
  moreover have "0 < card ?U \<longrightarrow> need_ind (inodes s ip) + card ?U \<le> card (free_blocks (sb s) (cview dev s))" using A by blast
  ultimately show ?thesis by linarith
qed

lemma writei_loop_ok:
  fixes s :: "'a fs_scheme"
  assumes dev: "blk_device d"
  shows "write_ready dev p st ip L R (blocks_of off len) s \<Longrightarrow> length bs = len \<Longrightarrow>
    chl (serve d p) disk (\<lambda>E. E = disk s) (writei_loop ip (KernObj bs) off len s)
      (\<lambda>k t. k = len \<and> write_post dev p st ip off (blocks_of off len) bs s t)"
proof (induction len arbitrary: off bs s rule: less_induct)
  case (less len)
  note r = less.prems(1) and lb = less.prems(2)
  have f: "file_at dev p st ip s" using r by (simp add: write_ready_def)
  show ?case
  proof (cases "len = 0")
    case True
    have "trans_in dev p st {} s" "fs_ok st (sb s) (cview dev s)" "file_ok st (sb s) (cview dev s) (inodes s ip)" using f by (simp_all add: file_at_def)
    then have "write_post dev p st ip off (blocks_of off 0) [] s s"
      unfolding write_post_def using wrote_nil fmoves_keep [OF moves_refl]
      by (intro exI [of _ "inodes s ip"] exI [of _ "cview dev s"] exI [of _ "{}"]) (simp add: blocks_of_def)
    then show ?thesis using True lb by (simp add: writei_loop.simps)
  next
    case False
    let ?m = "chunk off len" and ?n = "off div BSIZE"
    have m: "0 < ?m" "?m \<le> len" "?m \<le> BSIZE - off mod BSIZE" using False chunk_pos by (auto simp: chunk_def)
    note bk = blocks_of_step [of len off, OF False [unfolded neq0_conv]]
    have nN: "?n \<in> blocks_of off len" using bk(1) by blast
    have R: "finite R" "R \<subseteq> {..<MAXFILE}" "blocks_of off len \<subseteq> R" using r by (auto simp: write_ready_def)
    then have n: "?n < MAXFILE" using nN by auto
    have room: "log_room 6 s" by (rule write_ready_room [OF r])
    note fetch = fetch_ok [OF dev f n room write_ready_free [OF r nN]]
    have e: "writei_loop ip (KernObj bs) off len s =
      and_then (and_then (bmap ip ?n s) (\<lambda>addr s. bread (idev (inodes s ip)) addr s)) (\<lambda>bp s.
        and_then (either_copyin (KernObj bs) ?m s) (\<lambda>(r, bs') s.
           let s = set_data bp (put_at (off mod BSIZE) bs') s
           in if r = - 1 then and_then (brelse bp s) (\<lambda>_ s. Ok 0 s)
              else and_then (log_write bp s) (\<lambda>_ s. and_then (brelse bp s) (\<lambda>_ s.
                   and_then (writei_loop ip (kaddr_add (KernObj bs) ?m) (off + ?m) (len - ?m) s) (\<lambda>k s. Ok (?m + k) s)))))"
      using False by (subst writei_loop.simps) (simp add: and_then_assoc Let_def)
    show ?thesis
      unfolding e
    proof (rule chl_and_then [OF fetch])
      fix b and t :: "'a fs_scheme"
      assume t: "fetched dev p st ip ?n s b t"
      have "trans_in dev p st {b} t" using t by (auto simp: fetched_def)
      then obtain P where "cache_inv dev p {b} P t" by (auto simp: trans_in_def trans_ready_def)
      then have mk: "mach_ok t" using readyD(1) [OF cache_invD(1)] by blast
      have lt: "length (take ?m bs) = ?m" using lb m(2) by simp
      obtain w x where x: "log_write b (set_data b (put_at (off mod BSIZE) (take ?m bs)) (settle t)) = Ok () w" "brelse b w = Ok () x"
        "write_post dev p st ip off {?n} (take ?m bs) s x" "disk x = disk s"
        using put_block [OF f t n room, of "take ?m bs"] lt m(3) by auto
      have "blocks_of (off + ?m) (len - ?m) = blocks_of off len - {?n}" using bk by blast
      then have rx: "write_ready dev p st ip L R (blocks_of (off + ?m) (len - ?m)) x" by (intro write_ready_step [OF r x(3)]) (use nN in simp_all)
      have "chl (serve d p) disk (\<lambda>E. E = disk x) (writei_loop ip (KernObj (drop ?m bs)) (off + ?m) (len - ?m) x)
          (\<lambda>k t. k = len - ?m \<and> write_post dev p st ip (off + ?m) (blocks_of (off + ?m) (len - ?m)) (drop ?m bs) x t)"
        by (rule less.IH [OF _ rx]) (use m lb in simp_all)
      then have "chl (serve d p) disk (\<lambda>E. E = disk s) (and_then (writei_loop ip (KernObj (drop ?m bs)) (off + ?m) (len - ?m) x) (\<lambda>k s. Ok (?m + k) s))
          (\<lambda>k t. k = len \<and> write_post dev p st ip off (blocks_of off len) bs s t)"
        unfolding x(4)
      proof (rule chl_and_then, elim conjE)
        fix k and u :: "'a fs_scheme"
        assume k: "k = len - ?m" and u: "write_post dev p st ip (off + ?m) (blocks_of (off + ?m) (len - ?m)) (drop ?m bs) x u"
        let ?M = "blocks_of (off + ?m) (len - ?m)"
        have sub: "?M \<subseteq> {..<MAXFILE}" "{?n} \<inter> ?M = {}" using bk R by auto
        have fM: "finite ?M" by (simp add: blocks_of_def)
        have u': "write_post dev p st ip (off + length (take ?m bs)) ?M (drop ?m bs) x u" using u lt by simp
        have "write_post dev p st ip off ({?n} \<union> ?M) (take ?m bs @ drop ?m bs) s u"
          by (rule write_post_trans [OF x(3) u' sub(2) _ fM _ sub(1)]) (use n in simp_all)
        then show "chl (serve d p) disk (\<lambda>E. E = disk s) (Ok (?m + k) u) (\<lambda>k t. k = len \<and> write_post dev p st ip off (blocks_of off len) bs s t)"
          using k m(2) bk(1) by simp
      qed
      then show "chl (serve d p) disk (\<lambda>E. E = disk s)
         (and_then (either_copyin (KernObj bs) ?m t) (\<lambda>(r, bs') s.
           let s = set_data b (put_at (off mod BSIZE) bs') s
           in if r = - 1 then and_then (brelse b s) (\<lambda>_ s. Ok 0 s)
              else and_then (log_write b s) (\<lambda>_ s. and_then (brelse b s) (\<lambda>_ s.
                   and_then (writei_loop ip (kaddr_add (KernObj bs) ?m) (off + ?m) (len - ?m) s) (\<lambda>k s. Ok (?m + k) s)))))
         (\<lambda>k t. k = len \<and> write_post dev p st ip off (blocks_of off len) bs s t)"
        using mk x(1,2) by (simp add: Let_def)
    qed
  qed
qed

end
