(* ===== verification/Disk_Properties.thy ===== *)
theory Disk_Properties
  imports Log_Trans Demo_State
begin

text \<open>
  The storage stack as a whole: the disk driver with its interrupt, the buffer cache above it, and
  the log above the cache.  The device is a parameter; what is used of it is \<open>blk_device\<close>.  While the process
  waits for the disk, its hart runs the scheduler and takes the device's interrupt (\<open>serve\<close>).
\<close>

section \<open>Starting with a log\<close>

lemma initlog_ok:
  fixes s :: "'a log_scheme"
  assumes dev: "blk_device d" and inv: "cache_inv dev p {} {} s" and h: "disk_holds st v (disk s)" and su: "sint (logstart su) = int st"
  shows "chl (serve d p) disk (disk_holds st v) (initlog dev su s)
    (\<lambda>_. settled dev p st v (sint (nlog su), log_outstanding s, log_committing s))"
proof -
  let ?s = "(initlock LkLog ''log'' s)\<lparr>log_start := sint (logstart su), log_size := sint (nlog su), log_dev := dev\<rparr>"
  have "st + LOGSIZE < 2 ^ 31" using h by (simp add: disk_holds_def log_disk_def targets_ok_def)
  then have l: "at_log dev st ?s" using su by (simp add: at_log_def)
  have c: "cache_inv dev p {} {} ?s" using inv
    by (auto simp: cache_inv_def ready_def unlocked_def driver_idle_def initlock_def lock_free_def mach_ok_def mycpu_def cpuid_def)
  have dk: "disk ?s = disk s" "log_ctl ?s = (sint (nlog su), log_outstanding s, log_committing s)" by (simp_all add: log_ctl_def initlock_def)
  have "initlog dev su s = recover_from_log ?s" by (simp add: initlog_def BSIZE_def LOGSIZE_def MAXOPBLOCKS_def)
  then show ?thesis using recover_from_log_ok [OF dev c l, of v] h dk by simp
qed

text \<open>A machine that is started again, possibly several times before the recovery of the log is complete.\<close>

inductive restarts ::
  "('a log_scheme \<Rightarrow> 'a log_scheme) \<Rightarrow> u32 \<Rightarrow> nat \<Rightarrow> superblock \<Rightarrow> (nat \<Rightarrow> byte list) \<Rightarrow> (nat \<Rightarrow> byte list) \<Rightarrow> bool"
  for d dev p su where
  restart_done: "cache_inv dev p {} {} s \<Longrightarrow> drive (serve d p) (initlog dev su s) = Ok () t \<Longrightarrow> restarts d dev p su (disk s) (disk t)"
| restart_crash: "cache_inv dev p {} {} s \<Longrightarrow> E \<in> set (crashes (serve d p) disk (initlog dev su s)) \<Longrightarrow>
    restarts d dev p su E F \<Longrightarrow> restarts d dev p su (disk s) F"

lemma restarts_holds:
  assumes dev: "blk_device d" and su: "sint (logstart su) = int st"
  shows "restarts d dev p su E F \<Longrightarrow> disk_holds st v E \<Longrightarrow> disk_holds st v F \<and> disk_n st F = 0 \<and> (\<forall>z. unat z \<notin> log_area st \<longrightarrow> F (unat z) = v z)"
proof (induction rule: restarts.induct)
  case (restart_done s t)
  have "chl (serve d p) disk (disk_holds st v) (initlog dev su s) (\<lambda>_. settled dev p st v (sint (nlog su), log_outstanding s, log_committing s))"
    by (rule initlog_ok [OF dev restart_done(1,3) su])
  then have "settled dev p st v (sint (nlog su), log_outstanding s, log_committing s) t" using restart_done(2) by (auto simp: chl_def)
  then show ?case by (auto simp: settled_def disk_holds_def recovered_0)
next
  case (restart_crash s E F)
  have "chl (serve d p) disk (disk_holds st v) (initlog dev su s) (\<lambda>_. settled dev p st v (sint (nlog su), log_outstanding s, log_committing s))"
    by (rule initlog_ok [OF dev restart_crash(1,5) su])
  then show ?case using restart_crash by (auto simp: chl_def)
qed

section \<open>A device\<close>

text \<open>
  A device that meets the contract: it takes the request from the ring, follows the chain of descriptors, moves the block and
  reports success.
\<close>

definition ring_device :: "'a virtio_scheme \<Rightarrow> 'a virtio_scheme" where
  "ring_device s =
     (let i = unat (avail_ring s (unat (avail_idx s - 1) mod NUM));
          b = (case daddr (vdesc s (unat (dnext (vdesc s i)))) of VData b \<Rightarrow> b | _ \<Rightarrow> 0)
      in complete i b (rtype (ops s i) = VIRTIO_BLK_T_OUT) (rsector (ops s i)) s)"

lemma ring_device_contract: "blk_device ring_device"
proof -
  have small: "unat (of_nat j :: u16) = j" if "j < NUM" for j
    using that by (simp add: unat_of_nat take_bit_nat_eq_self NUM_def)
  have "ring_device s = complete i b w sec s" if r: "request_at s i b w sec" for s :: "'a virtio_scheme" and i b w sec
  proof -
    from r obtain j where j: "vdesc s i = \<lparr>daddr = VOps i, dlen = 16, dflags = VRING_DESC_F_NEXT, dnext = of_nat j\<rparr>" "j < NUM"
      "daddr (vdesc s j) = VData b" by (auto simp: request_at_def)
    have "rtype (ops s i) = VIRTIO_BLK_T_OUT \<longleftrightarrow> w" "rsector (ops s i) = sec"
      "unat (avail_ring s (unat (avail_idx s - 1) mod NUM)) = i"
      using r small [of i] by (auto simp: request_at_def VIRTIO_BLK_T_OUT_def VIRTIO_BLK_T_IN_def)
    then show ?thesis using j small [OF j(2)] by (simp add: ring_device_def)
  qed
  then show ?thesis by (simp add: blk_device_def)
qed

text \<open>A process that runs, with an empty cache and an empty log.\<close>

definition demo_disk :: kernel where
  "demo_disk = demo_kernel (Some 0) (\<lambda>_. demo_proc\<lparr>state := RUNNING, chan := None\<rparr>)"

lemma demo_ready: "ready 0 demo_disk" "ready 0 (demo_disk\<lparr>disk := D\<rparr>)"
  by (simp_all add: ready_def demo_disk_def unlocked_def driver_idle_def NPROC_def) (simp_all add: demo_kernel_def)

lemma demo_chain:
  "m \<le> NBUF \<Longrightarrow> dchain (bufs demo_disk) m (rev [0..<m]) NBUF"
  by (induction m) (auto simp: demo_disk_def demo_kernel_def NBUF_def)

lemma demo_cache_disk: "cache_inv 1 0 {} {} (demo_disk\<lparr>disk := D\<rparr>)"
proof (rule cache_invI [OF demo_ready(2)])
  show "\<exists>xs. dchain (bufs (demo_disk\<lparr>disk := D\<rparr>)) bhead xs bhead \<and> distinct xs \<and> set xs = {..<NBUF}"
    using demo_chain [of NBUF] by (intro exI [of _ "rev [0..<NBUF]"]) (auto simp: bhead_def)
qed (auto simp: demo_disk_def demo_kernel_def has_block_def)

lemma demo_cache: "cache_inv 1 0 {} {} demo_disk"
  using demo_cache_disk [of "disk demo_disk"] by simp

lemma demo_idle: "log_idle 1 0 2 demo_disk"
proof -
  have f: "lh_n demo_disk = 0" "log_outstanding demo_disk = 0" "\<not> log_committing demo_disk" "log_size demo_disk = 30"
    "log_dev demo_disk = 1" "log_start demo_disk = 2" "disk demo_disk 2 = replicate 1024 0"
    by (simp_all add: demo_disk_def demo_kernel_def)
  have "replicate 4 0 = [0, 0, 0, 0 :: byte]" by (simp add: numeral_eq_Suc)
  then have "lh_get_n (replicate 1024 0) = 0" by (simp add: lh_get_n_def get32_def)
  then show ?thesis
    using demo_cache by (simp add: log_idle_def trans_ready_def f at_log_def targets_ok_def disk_n_def BSIZE_def LOGSIZE_def MAXOPBLOCKS_def)
qed

lemma demo_holds: "disk_holds 2 (cview 1 demo_disk) (disk demo_disk)"
  using trans_ready_old [of 1 0 "{}" 2 demo_disk] demo_idle by (simp add: log_idle_view [OF demo_idle] log_idle_def)

section \<open>Properties\<close>

text \<open>
  Claim C6. A disk request completes.  A running process that holds no lock calls \<^verbatim>\<open>virtio_disk_rw\<close> for a
  buffer, with every descriptor free.  It puts the request in the ring, sleeps, the scheduler runs, the device carries out the
  request and raises its interrupt, \<^verbatim>\<open>virtio_disk_intr\<close> wakes the process, and the call returns: after a write the
  block on the disk is the buffer's data and nothing else on the disk has changed, after a read the buffer has the block's data.
  The process holds no lock and all descriptors are free again.  A crash on the way finds the disk as it was before or as it
  is after the request.
\<close>
theorem virtio_disk_rw_completes:
  assumes dev: "blk_device d" and r: "ready p s" and small: "unat (blockno (bufs s b)) < 2 ^ 31"
  defines "n \<equiv> unat (blockno (bufs s b))"
  shows "\<exists>t. drive (serve d p) (virtio_disk_rw b w s) = Ok () t \<and> ready p t \<and> ptab t p = ptab s p \<and>
    disk t = (if w then (disk s)(n := bdata (bufs s b)) else disk s) \<and>
    bufs t = (bufs s)(b := (bufs s b)\<lparr>bdata := (if w then bdata (bufs s b) else disk s n), bdisk := False\<rparr>) \<and>
    (\<forall>D\<in>set (crashes (serve d p) disk (virtio_disk_rw b w s)). D = disk s \<or> D = disk t)"
proof -
  have "blk_of (bufs s b) = n" using blk_of_small [OF small] by (simp add: n_def)
  then show ?thesis
    using virtio_disk_rw_served [OF dev r, of b w] by (auto simp: chl_def disk_after_def bufs_after_def)
qed

theorem virtio_disk_rw_completes_witness:
  "\<exists>t. drive (serve ring_device 0) (virtio_disk_rw 3 True demo_disk) = Ok () t \<and> ready 0 t \<and>
    disk t = (disk demo_disk)(0 := bdata (bufs demo_disk 3))"
proof -
  have "blockno (bufs demo_disk 3) = 0" by (simp add: demo_disk_def demo_kernel_def)
  then show ?thesis
    using virtio_disk_rw_completes [OF ring_device_contract demo_ready(1), of 3 True] by auto
qed

text \<open>
  Claim C7. The buffer cache and the disk together are a store of blocks.  \<^verbatim>\<open>bread\<close> of a block the process does not
  hold, with a buffer to spare, returns a locked buffer, the only one for that block, with the content the store has for it, and changes nothing
  in the store.  Changing the buffer, \<^verbatim>\<open>bwrite\<close> and \<^verbatim>\<open>brelse\<close> change that block of the store to the new data, on the disk
  too, and no other block.  The invariant of the cache holds before and after: the list has every buffer once, no block has two buffers, the
  counts are right, and every buffer that is neither locked nor pinned agrees with the disk.
\<close>
theorem buffer_cache_is_store:
  assumes dev: "blk_device d" and inv: "cache_inv dev p H P s" and held: "\<forall>b\<in>H. blockno (bufs s b) \<noteq> bno"
    and room: "H \<union> P \<noteq> {..<NBUF}" and small: "unat bno < 2 ^ 31"
  shows "\<exists>b t. drive (serve d p) (bread dev bno s) = Ok b t \<and> b < NBUF \<and> b \<notin> H \<and>
    cache_inv dev p (insert b H) P t \<and> bdata (bufs t b) = cview dev s bno \<and>
    (\<forall>c<NBUF. has_block dev bno (bufs t c) \<longleftrightarrow> c = b) \<and> disk t = disk s \<and> cview dev t = cview dev s \<and>
    (\<forall>f. \<exists>u. drive (serve d p) (and_then (bwrite b (upd_buf b (bdata_update f) t)) (\<lambda>_ s. brelse b s)) = Ok () u \<and>
       cache_inv dev p H P u \<and> cview dev u = (cview dev s)(bno := f (cview dev s bno)) \<and>
       disk u = (disk s)(unat bno := f (cview dev s bno)))"
proof -
  have "chl (serve d p) disk (\<lambda>x. x = disk s) (bread dev bno s) (bread_post dev bno p H P s)"
    by (rule bread_ok [OF dev inv]) (use held room small in auto)
  then obtain b t where run: "drive (serve d p) (bread dev bno s) = Ok b t" and B: "bread_post dev bno p H P s b t" by (auto simp: chl_def)
  note B = B [unfolded bread_post_def]
  have cu: "cache_inv dev p (insert b H) P t" and hb: "has_block dev bno (bufs t b)" and bH: "b \<notin> H" using B by blast+
  have bn: "b < NBUF" using cache_invD(6) [OF cu, of b] by simp
  have v: "bdata (bufs t b) = cview dev s bno" using cview_held [OF cu bn hb] B by simp
  have uniq: "has_block dev bno (bufs t c) \<longleftrightarrow> c = b" if "c < NBUF" for c using cache_invD(3) [OF cu that bn _ hb] hb by blast
  have upd: "\<exists>u. drive (serve d p) (and_then (bwrite b (upd_buf b (bdata_update f) t)) (\<lambda>_ s. brelse b s)) = Ok () u \<and>
       cache_inv dev p H P u \<and> cview dev u = (cview dev s)(bno := f (cview dev s bno)) \<and>
       disk u = (disk s)(unat bno := f (cview dev s bno))" for f
  proof -
    obtain w where w: "drive (serve d p) (bwrite b (upd_buf b (bdata_update f) t)) = Ok () w"
      and S: "stored dev p (insert b H) P b bno (f (bdata (bufs t b))) t w"
      using modify_bwrite_ok [OF dev cu insertI1 hb, of f] by (auto simp: chl_def)
    note S = S [unfolded stored_def]
    have cw: "cache_inv dev p (insert b H) P w" using S by blast
    have "bdata (bufs w b) = disk w (unat (blockno (bufs w b)))" using S hb by (simp add: has_block_def)
    then obtain u where u: "brelse b w = Ok () u" "kept dev p (insert b H - {b}) P w u" "disk u = disk w"
      using brelse_ok [OF cw insertI1] by auto
    have "insert b H - {b} = H" using bH by blast
    then show ?thesis using w u S B v by (simp add: drive_and_then kept_def)
  qed
  show ?thesis using run bn bH cu v uniq B upd by blast
qed

theorem buffer_cache_is_store_witness:
  "\<exists>b t. drive (serve ring_device 0) (bread 1 7 demo_disk) = Ok b t \<and> b < NBUF \<and> bdata (bufs t b) = cview 1 demo_disk 7"
proof -
  have "{} \<union> {} \<noteq> {..<NBUF}" using pins_empty [of 2 demo_disk] by (simp add: pins_def)
  then show ?thesis using buffer_cache_is_store [OF ring_device_contract demo_cache, of 7] by auto
qed

text \<open>
  Claim C5. Recovery replays the log exactly, and may be interrupted.  Started with an empty cache on a disk whose
  header names \<open>n\<close> logged blocks with places outside the log, \<^verbatim>\<open>initlog\<close> ends, with every logged block at its place, every other
  block outside the log unchanged, and a header that names none.  A disk left by a crash on the way recovers to the same blocks.
\<close>
theorem initlog_replays_log:
  fixes s :: "'a log_scheme"
  assumes dev: "blk_device d" and inv: "cache_inv dev p {} {} s" and l: "log_disk st (disk s)" and su: "sint (logstart su) = int st"
  shows "(\<exists>t. drive (serve d p) (initlog dev su s) = Ok () t \<and> cache_inv dev p {} {} t \<and> lh_n t = 0 \<and> disk_n st (disk t) = 0 \<and>
      (\<forall>z::u32. unat z \<notin> log_area st \<longrightarrow> disk t (unat z) = recovered st (disk s) (unat z))) \<and>
    (\<forall>D\<in>set (crashes (serve d p) disk (initlog dev su s)). log_disk st D \<and>
      (\<forall>z::u32. unat z \<notin> log_area st \<longrightarrow> recovered st D (unat z) = recovered st (disk s) (unat z)))"
proof -
  let ?v = "\<lambda>z::u32. recovered st (disk s) (unat z)"
  have "disk_holds st ?v (disk s)" using l by (simp add: disk_holds_def)
  from initlog_ok [OF dev inv this su] show ?thesis
    by (auto simp: chl_def settled_def disk_holds_def recovered_0)
qed

text \<open>The disk of a machine that stopped after the commit point: block 100 is in the log, and not yet at its place.\<close>

definition demo_crashed :: kernel where
  "demo_crashed = demo_disk\<lparr>disk := (disk demo_disk)(2 := lh_put 1 (\<lambda>_. 100) (replicate 1024 0), 3 := replicate 1024 7)\<rparr>"

lemma demo_crashed_ok:
  "cache_inv 1 0 {} {} demo_crashed" "log_disk 2 (disk demo_crashed)" "recovered 2 (disk demo_crashed) 100 = replicate 1024 7"
proof -
  show "cache_inv 1 0 {} {} demo_crashed" unfolding demo_crashed_def by (rule demo_cache_disk)
  let ?D = "(disk demo_disk)(3 := replicate 1024 7)" and ?blk = "\<lambda>_. 100 :: u32"
  have d: "disk demo_disk 2 = replicate 1024 0" by (simp add: demo_disk_def demo_kernel_def)
  have e: "disk demo_crashed = ?D(2 := lh_put (int 1) ?blk (?D 2))" by (auto simp: demo_crashed_def d fun_eq_iff)
  have l: "length (?D 2) = BSIZE" by (simp add: d BSIZE_def)
  have t: "targets_ok 2 1 ?blk" by (simp add: targets_ok_def log_area_def LOGSIZE_def MAXOPBLOCKS_def)
  note h = disk_holds_header [where st = 2 and D = ?D and blk = ?blk, OF l t]
  show "log_disk 2 (disk demo_crashed)" unfolding e by (rule h(2))
  show "recovered 2 (disk demo_crashed) 100 = replicate 1024 7" unfolding e using h(3) [of 100] by simp
qed

theorem initlog_replays_log_witness:
  "\<exists>t. drive (serve ring_device 0) (initlog 1 (sb demo_disk) demo_crashed) = Ok () t \<and> disk_n 2 (disk t) = 0 \<and>
     disk t 100 = replicate 1024 7"
proof -
  have su: "sint (logstart (sb demo_disk)) = int 2" by (simp add: demo_disk_def demo_kernel_def)
  obtain t where t: "drive (serve ring_device 0) (initlog 1 (sb demo_disk) demo_crashed) = Ok () t" "disk_n 2 (disk t) = 0"
    "\<And>z :: u32. unat z \<notin> log_area 2 \<Longrightarrow> disk t (unat z) = recovered 2 (disk demo_crashed) (unat z)"
    using initlog_replays_log [OF ring_device_contract demo_crashed_ok(1,2) su] by auto
  have "disk t 100 = replicate 1024 7"
    using t(3) [of 100] demo_crashed_ok(3) by (simp add: log_area_def LOGSIZE_def MAXOPBLOCKS_def)
  then show ?thesis using t by blast
qed

text \<open>
  Claim C4. Transactions are atomic.  A process runs \<^verbatim>\<open>begin_op\<close>, at most \<^verbatim>\<open>MAXOPBLOCKS\<close> block updates, each by
  \<^verbatim>\<open>bread\<close>, a change of the data, \<^verbatim>\<open>log_write\<close> and \<^verbatim>\<open>brelse\<close>, and \<^verbatim>\<open>end_op\<close>, which commits.  The transaction ends, with the log empty
  and every update visible, ready for the next one.  If the machine stops at any moment on the way and is started again, and possibly stops
  again during the recovery of the log any number of times, then once \<^verbatim>\<open>initlog\<close> is through, the blocks outside the log are all
  as before the transaction, or all as after it.
\<close>
theorem transaction_atomic:
  fixes s :: "'a log_scheme"
  assumes dev: "blk_device d" and i: "log_idle dev p st s"
    and us: "\<forall>u\<in>set us. unat (fst u) \<notin> log_area st \<and> unat (fst u) < 2 ^ 31" and n: "length us \<le> MAXOPBLOCKS"
    and su: "sint (logstart su) = int st"
  shows "(\<exists>t. drive (serve d p) (transaction dev us s) = Ok () t \<and> log_idle dev p st t \<and>
      (\<forall>z. unat z \<notin> log_area st \<longrightarrow> cview dev t z = fold updated us (cview dev s) z)) \<and>
    (\<forall>D E. D \<in> set (disk s # crashes (serve d p) disk (transaction dev us s)) \<longrightarrow> restarts d dev p su D E \<longrightarrow>
      (\<forall>z. unat z \<notin> log_area st \<longrightarrow> E (unat z) = cview dev s z) \<or>
      (\<forall>z. unat z \<notin> log_area st \<longrightarrow> E (unat z) = fold updated us (cview dev s) z))"
proof -
  let ?new = "fold updated us (cview dev s)"
  have c: "chl (serve d p) disk (\<lambda>D. disk_holds st (cview dev s) D \<or> disk_holds st ?new D) (transaction dev us s)
    (\<lambda>_ t. log_idle dev p st t \<and> (\<forall>z. unat z \<notin> log_area st \<longrightarrow> cview dev t z = ?new z))"
    by (rule transaction_ok [OF dev i _ n]) (use us in blast)
  have "disk_holds st (cview dev s) (disk s)"
    using trans_ready_old [of dev p "{}" st s] i by (simp add: log_idle_view [OF i] log_idle_def)
  then have h: "disk_holds st (cview dev s) D \<or> disk_holds st ?new D"
    if "D \<in> set (disk s # crashes (serve d p) disk (transaction dev us s))" for D using that c by (auto simp: chl_def)
  have "(\<forall>z. unat z \<notin> log_area st \<longrightarrow> E (unat z) = cview dev s z) \<or> (\<forall>z. unat z \<notin> log_area st \<longrightarrow> E (unat z) = ?new z)"
    if "D \<in> set (disk s # crashes (serve d p) disk (transaction dev us s))" "restarts d dev p su D E" for D E
    using h [OF that(1)] restarts_holds [OF dev su that(2)] by blast
  then show ?thesis using c by (auto simp: chl_def)
qed

theorem transaction_atomic_witness:
  "(\<exists>t. drive (serve ring_device 0) (transaction 1 [(100, \<lambda>_. replicate 1024 1), (101, \<lambda>_. replicate 1024 2)] demo_disk) = Ok () t \<and>
      cview 1 t 100 = replicate 1024 1 \<and> cview 1 t 101 = replicate 1024 2) \<and>
   (\<exists>E. restarts (ring_device :: kernel \<Rightarrow> kernel) 1 0 (sb demo_disk) (disk demo_disk) E \<and> (E 100, E 101) \<in>
      {(cview 1 demo_disk 100, cview 1 demo_disk 101), (replicate 1024 1, replicate 1024 2)})"
proof -
  let ?us = "[(100, \<lambda>_. replicate 1024 1), (101, \<lambda>_. replicate 1024 2)] :: (u32 \<times> (byte list \<Rightarrow> byte list)) list"
  have su: "sint (logstart (sb demo_disk)) = int 2" by (simp add: demo_disk_def demo_kernel_def)
  have la: "unat (100 :: u32) \<notin> log_area 2" "unat (101 :: u32) \<notin> log_area 2" by (simp_all add: log_area_def LOGSIZE_def MAXOPBLOCKS_def)
  then have us: "\<forall>u\<in>set ?us. unat (fst u) \<notin> log_area 2 \<and> unat (fst u) < 2 ^ 31" by simp
  have n: "length ?us \<le> MAXOPBLOCKS" by (simp add: MAXOPBLOCKS_def)
  note T = transaction_atomic [OF ring_device_contract demo_idle us n su]
  have 1: "\<exists>t. drive (serve ring_device 0) (transaction 1 ?us demo_disk) = Ok () t \<and>
     cview 1 t 100 = replicate 1024 1 \<and> cview 1 t 101 = replicate 1024 2" using T la by (auto simp: updated_def)
  obtain t where "drive (serve ring_device 0) (initlog 1 (sb demo_disk) demo_disk) = Ok () t"
    using initlog_ok [OF ring_device_contract demo_cache demo_holds su] by (auto simp: chl_def)
  then have r: "restarts (ring_device :: kernel \<Rightarrow> kernel) 1 0 (sb demo_disk) (disk demo_disk) (disk t)" by (rule restart_done [OF demo_cache])
  have "(\<forall>z. unat z \<notin> log_area 2 \<longrightarrow> disk t (unat z) = cview 1 demo_disk z) \<or>
      (\<forall>z. unat z \<notin> log_area 2 \<longrightarrow> disk t (unat z) = fold updated ?us (cview 1 demo_disk) z)"
    using T r by (meson list.set_intros(1))
  then have "(disk t 100, disk t 101) \<in> {(cview 1 demo_disk 100, cview 1 demo_disk 101), (replicate 1024 1, replicate 1024 2)}"
  proof
    assume "\<forall>z. unat z \<notin> log_area 2 \<longrightarrow> disk t (unat z) = cview 1 demo_disk z"
    from this [rule_format, of 100] this [rule_format, of 101] show ?thesis using la by simp
  next
    assume "\<forall>z. unat z \<notin> log_area 2 \<longrightarrow> disk t (unat z) = fold updated ?us (cview 1 demo_disk) z"
    from this [rule_format, of 100] this [rule_format, of 101] show ?thesis using la by (simp add: updated_def)
  qed
  then show ?thesis using 1 r by blast
qed

end
