(* ===== verification/Fs_Properties.thy ===== *)
theory Fs_Properties
  imports Inode_Write Disk_Properties
begin

text \<open>
  The file system layer: allocation of blocks, and files as sequences of bytes, for one process inside a transaction.
\<close>

section \<open>The inode on disk\<close>

lemma dinode_fits: "dinode_off i + DINODE_SIZE \<le> BSIZE"
  by (simp add: dinode_off_def DINODE_SIZE_def NDIRECT_def BSIZE_def IPB_def) 

lemma dinode_apart: "dinode_off j \<noteq> dinode_off k \<Longrightarrow> dinode_off j + DINODE_SIZE \<le> dinode_off k \<or> dinode_off k + DINODE_SIZE \<le> dinode_off j"
  by (auto simp: dinode_off_def DINODE_SIZE_def NDIRECT_def)

lemma upd_inode_block:
  assumes F: "fs_ok st su v" and q: "file_ok st su v q" and y: "y \<in> inode_blocks su" and l: "length x = BSIZE"
  defines "w \<equiv> v(y := x)"
  shows "fs_ok st su w" "file_ok st su w q" "addr_at q w = addr_at q v" "file_byte q w i = file_byte q v i \<or> \<not> mapped q v i"
    "free_blocks su w = free_blocks su v"
proof -
  have yb: "y \<notin> bmap_blocks su" using F y by (simp add: fs_ok_def)
  have b: "bit_used su w c = bit_used su v c" if "c < fssize su" for c using yb BBLOCK_bmap [OF that] by (auto simp: bit_used_iff w_def)
  have o: "c \<noteq> y" if "c \<in> own q v" for c using q that y by (auto simp: file_ok_def data_block_def)
  have "w (addrs q ! NDIRECT) = v (addrs q ! NDIRECT)" if "addrs q ! NDIRECT \<noteq> 0" using o [of "addrs q ! NDIRECT"] that by (simp add: own_def w_def)
  then show ad: "addr_at q w = addr_at q v" by (auto simp: addr_at_def fun_eq_iff)
  have "w y' = v y'" if "y' \<in> bmap_blocks su" for y' using that yb by (auto simp: w_def)
  moreover have "length (w y') = BSIZE" if "y' \<in> inode_blocks su" for y' using that F l by (auto simp: w_def fs_ok_def)
  ultimately show "fs_ok st su w" using F b by (auto simp: fs_ok_def alloc_ok_def)
  have ow: "own q w = own q v" by (simp add: own_def ad)
  have "data_block st su w c" if "c \<in> own q v" for c using q that b o [OF that] by (auto simp: file_ok_def data_block_def w_def)
  then show "file_ok st su w q" using q ow ad by (simp add: file_ok_def)
  show "file_byte q w i = file_byte q v i \<or> \<not> mapped q v i"
  proof (cases "mapped q v i")
    case True
    then have "addr_at q v (i div BSIZE) \<in> own q v" by (auto simp: mapped_def own_def)
    then have "w (addr_at q v (i div BSIZE)) = v (addr_at q v (i div BSIZE))" using o by (simp add: w_def)
    then show ?thesis by (simp add: file_byte_def ad)
  qed simp
  show "free_blocks su w = free_blocks su v" using b by (auto simp: free_blocks_def)
qed

lemma iupdate_ok:
  fixes s :: "'a fs_scheme"
  assumes dev: "blk_device d" and f: "file_at dev p st ip s" and i: "inum (inodes s ip) < ninodes (sb s)" and room: "log_room 1 s"
  defines "q \<equiv> inodes s ip" and "v \<equiv> cview dev s"
  defines "y \<equiv> IBLOCK (inum q) (sb s)"
  shows "chl (serve d p) disk (\<lambda>E. E = disk s) (iupdate ip s)
    (\<lambda>_. moves dev p st {} {y} (v(y := store_dinode (dinode_off (inum q)) q (v y))) s)"
proof -
  note f' = f [unfolded file_at_def]
  have t: "trans_in dev p st {} s" using f' by blast
  have "y \<in> inode_blocks (sb s)" using i by (auto simp: y_def q_def inode_blocks_def)
  then have yl: "unat y \<notin> log_area st" "unat y < 2 ^ 31" "y \<notin> (\<lambda>b. blockno (bufs s b)) ` {}" using f' by (auto simp: fs_ok_def)
  have idv: "idev (inodes s ip) = dev" using f' by blast
  show ?thesis
    unfolding iupdate_def idv y_def [unfolded q_def, symmetric]
  proof (rule chl_and_then [OF bread_in [OF dev t yl(3,2) log_room_buffers [OF room]]], simp, elim conjE)
    fix b and u :: "'a fs_scheme"
    assume b: "has_block dev y (bufs u b)" and u: "trans_in dev p st {b} u" "keeps dev p {} {} s u" "cview dev u = cview dev s"
    have iu: "inodes u ip = q" using keeps_fs(2) [OF u(2)] by (simp add: q_def)
    let ?f = "store_dinode (dinode_off (inum q)) q"
    have r: "log_room 1 u" using log_room_keeps [OF u(2), of 1] room by simp
    obtain w where w: "log_write b (upd_buf b (bdata_update ?f) u) = Ok () w" "trans_in dev p st (insert b {}) w"
      "keeps dev p {b} {y} u w" "cview dev w = v(y := ?f (v y))"
      using log_write_in [OF u(1) singletonI b yl(1) r, of ?f] u(3) by (auto simp: v_def)
    obtain x where x: "brelse b w = Ok () x" "trans_in dev p st {} x" "keeps dev p {} {} w x" "cview dev x = cview dev w"
      using brelse_in [OF w(2)] by auto
    have "keeps dev p {} {y} s x" using keeps_trans [OF keeps_trans [OF u(2) keeps_mono [OF w(3)]] x(3), of "{y}"] by simp
    then have "moves dev p st {} {y} (v(y := ?f (v y))) s x" using x w(4) by (simp add: moves_def)
    then show "chl (serve d p) disk (\<lambda>E. E = disk s)
      (let s = set_data b (store_dinode (dinode_off (inum (inodes u ip))) (inodes u ip)) u in and_then (log_write b s) (\<lambda>_ s. brelse b s))
      (\<lambda>_. moves dev p st {} {y} (v(y := ?f (v y))) s)" using w(1) x(1) iu by (simp add: Let_def set_data_def)
  qed
qed

section \<open>Writing to a file\<close>

lemma isize_simps [simp]:
  "addr_at (q\<lparr>isize := z\<rparr>) = addr_at q" "own (q\<lparr>isize := z\<rparr>) v = own q v" "file_ok st su v (q\<lparr>isize := z\<rparr>) = file_ok st su v q"
  "mapped (q\<lparr>isize := z\<rparr>) v i = mapped q v i" "file_byte (q\<lparr>isize := z\<rparr>) = file_byte q"
  by (simp_all add: addr_at_def own_def file_ok_def mapped_def file_byte_def fun_eq_iff)

lemma isize_id: "q\<lparr>isize := isize q\<rparr> = (q :: inode)"
  by simp

definition file_written :: "u32 \<Rightarrow> nat \<Rightarrow> nat \<Rightarrow> nat \<Rightarrow> nat \<Rightarrow> byte list \<Rightarrow> 'a fs_scheme \<Rightarrow> 'a fs_scheme \<Rightarrow> bool" where
  "file_written dev p st ip off bs s t \<longleftrightarrow>
     (let q = inodes s ip; v = cview dev s; q' = inodes t ip; v' = cview dev t; y = IBLOCK (inum q) (sb s); c = file_content q v
      in file_at dev p st ip t \<and> file_full q' v' \<and> file_content q' v' = take off c @ bs @ drop (off + length bs) c \<and>
         q' = q\<lparr>isize := isize q', addrs := addrs q'\<rparr> \<and> load_dinode (dinode_off (inum q)) (v' y) q' = q' \<and>
         (\<forall>j. dinode_off j \<noteq> dinode_off (inum q) \<longrightarrow> take DINODE_SIZE (drop (dinode_off j) (v' y)) = take DINODE_SIZE (drop (dinode_off j) (v y))) \<and>
         (\<forall>x. x \<notin> own q v \<longrightarrow> x \<notin> free_blocks (sb s) v \<longrightarrow> x \<notin> bmap_blocks (sb s) \<longrightarrow> x \<noteq> y \<longrightarrow> v' x = v x) \<and>
         (\<forall>j. j \<noteq> ip \<longrightarrow> inodes t j = inodes s j) \<and> sb t = sb s \<and> disk t = disk s)"

text \<open>The content after the bytes are in their blocks and the size is adapted.\<close>

lemma wrote_content:
  assumes w: "wrote st su off bs q v q' v'" and full: "file_full q v" and o: "off \<le> unat (isize q)"
    and z: "unat z = max (unat (isize q)) (off + length bs)"
  shows "file_content (q'\<lparr>isize := z\<rparr>) v' = take off (file_content q v) @ bs @ drop (off + length bs) (file_content q v)"
    "file_full (q'\<lparr>isize := z\<rparr>) v'"
proof -
  note W = w [unfolded wrote_def]
  have old: "file_byte q' v' i = file_byte q v i" if "i < unat (isize q)" "\<not> (off \<le> i \<and> i < off + length bs)" for i
    using W full that by (auto simp: file_full_def)
  have new: "file_byte q' v' i = bs ! (i - off)" "mapped q' v' i" if "off \<le> i" "i < off + length bs" for i
    using W that by (metis add_diff_inverse_nat add_less_cancel_left leD)+
  have g: "grows st su q v q' v'" using W by blast
  show "file_full (q'\<lparr>isize := z\<rparr>) v'"
    unfolding file_full_def
  proof (intro allI impI)
    fix i assume "i < unat (isize (q'\<lparr>isize := z\<rparr>))"
    then have "i < unat (isize q) \<or> off \<le> i \<and> i < off + length bs" using z o by auto
    then show "mapped (q'\<lparr>isize := z\<rparr>) v' i" using grows_mapped [OF g] full new by (auto simp: file_full_def)
  qed
  show "file_content (q'\<lparr>isize := z\<rparr>) v' = take off (file_content q v) @ bs @ drop (off + length bs) (file_content q v)"
  proof -
    let ?n = "length bs" and ?z = "unat (isize q)"
    have "[0..<unat z] = [0..<off] @ [off..<off + ?n] @ [off + ?n..<unat z]"
      using upt_add_eq_append [of 0 off "unat z - off"] upt_add_eq_append [of off "off + ?n" "unat z - (off + ?n)"] z by (simp add: max_def)
    then have "file_content (q'\<lparr>isize := z\<rparr>) v' = map (file_byte q' v') [0..<off] @ map (file_byte q' v') [off..<off + ?n] @ map (file_byte q' v') [off + ?n..<unat z]"
      by (simp add: file_content_def)
    moreover have "map (file_byte q' v') [0..<off] = take off (file_content q v)" using old o by (auto simp: file_content_def take_map take_upt)
    moreover have "map (file_byte q' v') [off..<off + ?n] = bs" using new(1) by (auto intro: nth_equalityI)
    moreover have "map (file_byte q' v') [off + ?n..<unat z] = drop (off + ?n) (file_content q v)"
      using old z by (auto simp: file_content_def drop_map drop_upt max_def)
    ultimately show ?thesis by simp
  qed
qed

lemma fmoves_update: "fmoves dev p st H W v ip q s t \<Longrightarrow> fmoves dev p st H W v ip (f q) s (upd_inode ip f t)"
  by (simp add: fmoves_def upd_inode_def)

lemma grows_fields:
  assumes "grows st su q v q' v'"
  shows "isize q' = isize q" "inum q' = inum q" "idev q' = idev q"
proof -
  have e: "q' = q\<lparr>addrs := addrs q'\<rparr>" using assms by (simp add: grows_def)
  show "isize q' = isize q" "inum q' = inum q" "idev q' = idev q" by (subst e, simp)+
qed

lemma iupdate_written:
  fixes s t :: "'a fs_scheme"
  assumes dev: "blk_device d" and f: "file_at dev p st ip s" and w: "wrote st (sb s) off bs (inodes s ip) (cview dev s) q1 v1"
    and m: "fmoves dev p st {} W v1 ip q1 s t" and room: "log_room 1 t" and full: "file_full (inodes s ip) (cview dev s)"
    and i: "inum (inodes s ip) < ninodes (sb s)" and o: "off \<le> unat (isize (inodes s ip))" and z: "unat z = max (unat (isize (inodes s ip))) (off + length bs)"
  shows "chl (serve d p) disk (\<lambda>E. E = disk s) (iupdate ip (upd_inode ip (isize_update (\<lambda>_. z)) t)) (\<lambda>_. file_written dev p st ip off bs s)"
proof -
  let ?q = "inodes s ip" and ?v = "cview dev s" and ?su = "sb s" and ?t = "upd_inode ip (isize_update (\<lambda>_. z)) t"
  define q2 where "q2 = q1\<lparr>isize := z\<rparr>"
  have g: "grows st ?su ?q ?v q1 v1" using w by (simp add: wrote_def)
  note G = g [unfolded grows_def] and gf = grows_fields [OF g]
  have m2: "fmoves dev p st {} W v1 ip q2 s ?t" unfolding q2_def by (rule fmoves_update [OF m])
  note D = fmovesD [OF m2]
  have f2: "file_at dev p st ip ?t" using G D f gf(3) by (simp add: file_at_def q2_def)
  have r2: "log_room 1 ?t" using room by (simp add: upd_inode_def)
  have i2: "inum (inodes ?t ip) < ninodes (sb ?t)" using D i gf(2) by (simp add: q2_def)
  define y where "y = IBLOCK (inum ?q) ?su"
  define v2 where "v2 = v1(y := store_dinode (dinode_off (inum ?q)) q2 (v1 y))"
  have iu: "chl (serve d p) disk (\<lambda>E. E = disk s) (iupdate ip ?t) (\<lambda>_. moves dev p st {} {y} v2 ?t)"
    using iupdate_ok [OF dev f2 i2 r2] unfolding D(2-5) by (simp add: v2_def y_def q2_def gf)
  have yi: "y \<in> inode_blocks ?su" using i by (auto simp: y_def inode_blocks_def)
  have F1: "fs_ok st ?su v1" "file_ok st ?su v1 q2" using G by (simp_all add: q2_def)
  then have ly: "length (v1 y) = BSIZE" "y \<notin> bmap_blocks ?su" using yi by (auto simp: fs_ok_def)
  have la: "length (addrs q2) = NDIRECT + 1" using F1(2) by (simp add: file_ok_def)
  have fits: "dinode_off (inum ?q) + DINODE_SIZE \<le> length (v1 y)" using dinode_fits ly by simp
  have ls: "length (store_dinode (dinode_off (inum ?q)) q2 (v1 y)) = BSIZE" using length_store_dinode [OF la fits] ly(1) by simp
  note U' = upd_inode_block [OF F1 yi ls, folded v2_def]
  note C = wrote_content [OF w full o z, folded q2_def]
  have full2: "file_full q2 v2" using C(2) by (simp add: file_full_def mapped_def U'(3))
  have "file_byte q2 v2 j = file_byte q2 v1 j" if "j < unat (isize q2)" for j using C(2) U'(4) [of j] that by (auto simp: file_full_def)
  then have "file_content q2 v2 = file_content q2 v1" by (simp add: file_content_def)
  then have cont: "file_content q2 v2 = take off (file_content ?q ?v) @ bs @ drop (off + length bs) (file_content ?q ?v)" using C(1) by simp
  have "y \<notin> own ?q ?v" "y \<notin> free_blocks ?su ?v" using f yi by (auto simp: file_at_def file_ok_def data_block_def fs_ok_def free_blocks_def)
  then have vy: "v1 y = ?v y" using G ly(2) by blast
  have v2y: "v2 y = store_dinode (dinode_off (inum ?q)) q2 (v1 y)" by (simp add: v2_def)
  have ld: "load_dinode (dinode_off (inum ?q)) (v2 y) q2 = q2" unfolding v2y load_store_dinode [OF la fits] by simp
  have oth: "take DINODE_SIZE (drop (dinode_off j) (v2 y)) = take DINODE_SIZE (drop (dinode_off j) (?v y))" if "dinode_off j \<noteq> dinode_off (inum ?q)" for j
    unfolding v2y vy [symmetric] by (rule store_dinode_other [OF la fits dinode_apart [OF that]])
  have fr: "v2 x = ?v x" if "x \<notin> own ?q ?v" "x \<notin> free_blocks ?su ?v" "x \<notin> bmap_blocks ?su" "x \<noteq> y" for x using G that by (simp add: v2_def)
  have q1: "q1 = ?q\<lparr>addrs := addrs q1\<rparr>" using G by blast
  have q2: "q2 = ?q\<lparr>isize := isize q2, addrs := addrs q2\<rparr>" unfolding q2_def by (subst q1) simp
  show ?thesis
  proof (rule chl_post [OF iu])
    fix x u assume mv: "moves dev p st {} {y} v2 ?t u"
    have fm: "fmoves dev p st {} (W \<union> {y}) v2 ip q2 s u" using fmoves_trans [OF m2 fmoves_keep [OF mv, of ip, unfolded D(4)]] .
    note E = fmovesD [OF fm]
    have "idev q2 = idev ?q" by (simp add: q2_def gf)
    then have fu: "file_at dev p st ip u" using E(1-4) U'(1,2) f by (simp add: file_at_def)
    have "inodes u = (inodes s)(ip := q2)" using fm by (simp add: fmoves_def)
    then show "file_written dev p st ip off bs s u"
      unfolding file_written_def Let_def E(2-5) y_def [symmetric] using fu full2 cont q2 ld oth fr by auto
  qed
qed

lemma writei_ok:
  fixes s :: "'a fs_scheme"
  assumes dev: "blk_device d" and r: "write_ready dev p st ip L R (blocks_of (unat off) (unat n)) s" and full: "file_full (inodes s ip) (cview dev s)"
    and i: "inum (inodes s ip) < ninodes (sb s)" and o: "off \<le> isize (inodes s ip)" and fit: "unat off + unat n \<le> MAXFILE * BSIZE"
    and bs: "length bs = unat n"
  shows "chl (serve d p) disk (\<lambda>E. E = disk s) (writei ip (KernObj bs) off n s)
    (\<lambda>k t. k = int (unat n) \<and> file_written dev p st ip (unat off) bs s t)"
proof -
  let ?q = "inodes s ip" and ?v = "cview dev s" and ?su = "sb s"
  have f: "file_at dev p st ip s" using r by (simp add: write_ready_def)
  have mf: "MAXFILE * BSIZE = 274432" by (simp add: MAXFILE_def NDIRECT_def NINDIRECT_def BSIZE_def)
  have on: "unat (off + n) = unat off + unat n" using fit mf by (simp add: unat_word_ariths)
  then have c: "\<not> isize ?q < off" "\<not> off + n < off" "\<not> MAXFILE * BSIZE < unat (off + n)" using o fit by (auto simp: word_less_nat_alt word_le_nat_alt)
  have e: "writei ip (KernObj bs) off n s = and_then (writei_loop ip (KernObj bs) (unat off) (unat n) s) (\<lambda>tot s.
      let off = off + of_nat tot; s = (if isize (inodes s ip) < off then upd_inode ip (isize_update (\<lambda>_. off)) s else s)
      in and_then (iupdate ip s) (\<lambda>_ s. Ok (int tot) s))" using c by (simp add: writei_def)
  show ?thesis
    unfolding e
  proof (rule chl_and_then [OF writei_loop_ok [OF dev r bs]], elim conjE)
    fix k and t :: "'a fs_scheme"
    assume k: "k = unat n" and wp: "write_post dev p st ip (unat off) (blocks_of (unat off) (unat n)) bs s t"
    then obtain q1 v1 W where B: "wrote st ?su (unat off) bs ?q ?v q1 v1" "fmoves dev p st {} W v1 ip q1 s t" by (auto simp: write_post_def)
    have g: "grows st ?su ?q ?v q1 v1" using B(1) by (simp add: wrote_def)
    have "write_ready dev p st ip L R {} t" by (rule write_ready_step [OF r wp]) simp_all
    from log_room_less [OF write_ready_room [OF this], of 1] have room: "log_room 1 t" by simp
    note sz = grows_fields(1) [OF g]
    define z where "z = (if isize ?q < off + n then off + n else isize ?q)"
    have z: "unat z = max (unat (isize ?q)) (unat off + length bs)" using on bs by (auto simp: z_def word_less_nat_alt)
    have tq: "isize (inodes t ip) = isize ?q" using fmovesD(4) [OF B(2)] sz by simp
    have "inodes t ip\<lparr>isize := isize ?q\<rparr> = inodes t ip" using isize_id [of "inodes t ip"] unfolding tq .
    then have same: "upd_inode ip (isize_update (\<lambda>_. isize ?q)) t = t" unfolding upd_inode_def by simp
    have t2: "(if isize (inodes t ip) < off + of_nat k then upd_inode ip (isize_update (\<lambda>_. off + of_nat k)) t else t) = upd_inode ip (isize_update (\<lambda>_. z)) t"
      unfolding tq z_def k by (cases "isize ?q < off + n") (simp_all add: same)
    have o': "unat off \<le> unat (isize ?q)" using o by (simp add: word_le_nat_alt)
    show "chl (serve d p) disk (\<lambda>E. E = disk s)
      (let off = off + of_nat k; s = (if isize (inodes t ip) < off then upd_inode ip (isize_update (\<lambda>_. off)) t else t)
       in and_then (iupdate ip s) (\<lambda>_ s. Ok (int k) s)) (\<lambda>k t. k = int (unat n) \<and> file_written dev p st ip (unat off) bs s t)"
      unfolding Let_def t2 by (rule chl_and_then [OF iupdate_written [OF dev f B room full i o' z]]) (simp add: k)
  qed
qed

section \<open>A file system for the witnesses\<close>

text \<open>
  The layout that \<^verbatim>\<open>mkfs\<close> gives a disk of 1000 blocks: the log from block 2 on, inodes from block 32 on, the bitmap in block 45.
  One file has the three bytes 7, 8, 9 in block 46; the blocks from 47 on are free.  A transaction is open.
\<close>

definition demo_file :: inode where
  "demo_file = \<lparr>idev = 1, inum = 5, iref = 1, ivalid = True, itype = T_FILE, imajor = 0, iminor = 0, nlink = 1, isize = 3, addrs = 46 # replicate 12 0\<rparr>"

definition demo_blocks :: "nat \<Rightarrow> byte list" where
  "demo_blocks = (\<lambda>_. replicate 1024 0)(45 := [255, 255, 255, 255, 255, 127] @ replicate 1018 0, 46 := [7, 8, 9] @ replicate 1021 0)"

definition demo_fs :: kernel where
  "demo_fs = demo_disk\<lparr>disk := demo_blocks, log_outstanding := 1, inodes := (inodes demo_disk)(0 := demo_file)\<rparr>"

lemma demo_sb: "sb demo_fs = \<lparr>magic = 0x10203040, fssize = 1000, nblocks = 954, ninodes = 200, nlog = 30, logstart = 2, inodestart = 32, bmapstart = 45\<rparr>"
  by (simp add: demo_fs_def demo_disk_def demo_kernel_def)

lemma demo_log:
  "lh_n demo_fs = 0" "log_size demo_fs = 30" "log_dev demo_fs = 1" "log_start demo_fs = 2" "log_outstanding demo_fs = 1" "disk demo_fs = demo_blocks"
  "inodes demo_fs 0 = demo_file"
  by (simp_all add: demo_fs_def demo_disk_def demo_kernel_def)

lemma demo_fs_ready: "trans_ready 1 0 {} {} 2 demo_fs"
proof -
  have "replicate 4 0 = [0, 0, 0, 0 :: byte]" by (simp add: numeral_eq_Suc)
  then have "lh_get_n (replicate 1024 0) = 0" by (simp add: lh_get_n_def get32_def)
  then have "disk_n 2 demo_blocks = 0" "length (demo_blocks 2) = BSIZE" by (simp_all add: disk_n_def demo_blocks_def BSIZE_def)
  moreover have "cache_inv 1 0 {} {} demo_fs" unfolding demo_fs_def using demo_cache_disk by (simp add: cache_inv_log)
  ultimately show ?thesis by (simp add: trans_ready_def demo_log at_log_def targets_ok_def LOGSIZE_def MAXOPBLOCKS_def)
qed

lemma demo_fs_in: "trans_in 1 0 2 {} demo_fs" "logged_set demo_fs = {}"
  using demo_fs_ready by (auto simp: trans_in_def logged_set_def demo_log)

lemma demo_view: "cview 1 demo_fs z = demo_blocks (unat z)"
  using cview_unused [of 1 0 "{}" "{}" demo_fs z] demo_fs_ready by (simp add: trans_ready_def demo_log)

lemma demo_BBLOCK: "b < 1000 \<Longrightarrow> BBLOCK b (sb demo_fs) = 45"
  by (simp add: BBLOCK_eq demo_sb word_less_nat_alt)

lemma demo_bitmap: "n < 1000 \<Longrightarrow> bit (([255, 255, 255, 255, 255, 127] @ replicate 1018 (0::byte)) ! (n div 8)) (n mod 8) \<longleftrightarrow> n < 47"
proof -
  assume n: "n < 1000"
  let ?m = "[255, 255, 255, 255, 255, 127] @ replicate 1018 (0::byte)" and ?r = "n mod 8"
  have r: "?r = 0 \<or> ?r = 1 \<or> ?r = 2 \<or> ?r = 3 \<or> ?r = 4 \<or> ?r = 5 \<or> ?r = 6 \<or> ?r = 7" by arith
  have e: "n = 8 * (n div 8) + ?r" by simp
  consider "n div 8 < 5" | "n div 8 = 5" | "6 \<le> n div 8" by arith
  then show ?thesis
  proof cases
    case 1
    then have "n div 8 = 0 \<or> n div 8 = 1 \<or> n div 8 = 2 \<or> n div 8 = 3 \<or> n div 8 = 4" by arith
    then have "?m ! (n div 8) = 255" by auto
    moreover have "bit (255::byte) ?r" using r by auto
    moreover have "n < 47" using 1 e by arith
    ultimately show ?thesis by simp
  next
    case 2
    then have "?m ! (n div 8) = 127" by simp
    moreover have "bit (127::byte) ?r \<longleftrightarrow> ?r < 7" using r by auto
    moreover have "n < 47 \<longleftrightarrow> ?r < 7" using 2 e by arith
    ultimately show ?thesis by simp
  next
    case 3
    have "n div 8 - 6 < 1018" using n by simp
    then have "?m ! (n div 8) = 0" using 3 by (simp add: nth_append)
    moreover have "\<not> n < 47" using 3 e by arith
    ultimately show ?thesis by simp
  qed
qed

lemma demo_used: "b < 1000 \<Longrightarrow> bit_used (sb demo_fs) (cview 1 demo_fs) b \<longleftrightarrow> unat b < 47"
  using demo_bitmap [of "unat b"] by (simp add: bit_used_iff demo_BBLOCK demo_view demo_blocks_def word_less_nat_alt)

lemma demo_meta: "bmap_blocks (sb demo_fs) = {45}" "y \<in> inode_blocks (sb demo_fs) \<Longrightarrow> 32 \<le> unat y \<and> unat y < 45"
proof -
  have z: "fssize (sb demo_fs) = 1000" by (simp add: demo_sb)
  have "(\<lambda>b. BBLOCK b (sb demo_fs)) ` {b. b < 1000} = (\<lambda>_. 45) ` {b::u32. b < 1000}" by (rule image_cong) (simp_all add: demo_BBLOCK)
  moreover have "(0::u32) \<in> {b. b < 1000}" by simp
  ultimately show "bmap_blocks (sb demo_fs) = {45}" unfolding bmap_blocks_def z by blast
  assume "y \<in> inode_blocks (sb demo_fs)"
  then obtain i :: u32 where i: "i < 200" "y = i div 16 + 32"
    by (auto simp: inode_blocks_def IBLOCK_def IPB_def BSIZE_def DINODE_SIZE_def NDIRECT_def demo_sb)
  have "unat (i div 16) = unat i div 16" "unat i < 200" using i(1) by (simp_all add: unat_div word_less_nat_alt)
  then show "32 \<le> unat y \<and> unat y < 45" unfolding i(2) by (simp add: unat_word_ariths)
qed

lemma demo_fs_ok: "fs_ok 2 (sb demo_fs) (cview 1 demo_fs)"
proof -
  have z: "fssize (sb demo_fs) = 1000" by (simp add: demo_sb)
  have l: "length (cview 1 demo_fs y) = BSIZE" for y by (simp add: demo_view demo_blocks_def BSIZE_def)
  have la: "log_area 2 = {2..<32}" by (simp add: log_area_def LOGSIZE_def MAXOPBLOCKS_def)
  have f: "b \<noteq> 45 \<and> \<not> (2 \<le> unat b \<and> unat b < 32) \<and> b \<notin> inode_blocks (sb demo_fs)" if "b < 1000" "\<not> bit_used (sb demo_fs) (cview 1 demo_fs) b" for b
  proof -
    have b: "47 \<le> unat b" using that demo_used by simp
    then have "b \<noteq> 45" by auto
    then show ?thesis using b demo_meta(2) [of b] by auto
  qed
  have i: "y \<noteq> 45" "\<not> (2 \<le> unat y \<and> unat y < 32)" "unat y < 2 ^ 31" if "y \<in> inode_blocks (sb demo_fs)" for y
    using demo_meta(2) [OF that] by auto
  have "bit_used (sb demo_fs) (cview 1 demo_fs) 0" by (simp add: demo_used)
  then show ?thesis
    unfolding fs_ok_def alloc_ok_def z demo_meta(1) la using l f i by auto
qed

lemma demo_addr: "addr_at demo_file v n = (if n = 0 then 46 else 0)"
  by (cases n) (auto simp: addr_at_def demo_file_def NDIRECT_def)

lemma demo_file_at: "file_at 1 0 2 0 demo_fs"
proof -
  have m: "(0::nat) \<in> {..<MAXFILE}" by (simp add: MAXFILE_def NDIRECT_def)
  have "addr_at demo_file v ` {..<MAXFILE} - {0} = {46}" for v using m by (auto simp: demo_addr split: if_splits)
  moreover have "addrs demo_file ! NDIRECT = 0" by (simp add: demo_file_def NDIRECT_def)
  ultimately have ow: "own demo_file v = {46}" for v by (simp add: own_def insert_Diff_if)
  have "46 \<notin> inode_blocks (sb demo_fs)" using demo_meta(2) [of 46] by auto
  then have "data_block 2 (sb demo_fs) (cview 1 demo_fs) 46"
    by (simp add: data_block_def demo_used demo_meta(1) log_area_def LOGSIZE_def MAXOPBLOCKS_def demo_view demo_blocks_def BSIZE_def) (simp add: demo_sb)
  then have "file_ok 2 (sb demo_fs) (cview 1 demo_fs) demo_file"
    by (auto simp: file_ok_def ow demo_addr) (simp_all add: demo_file_def NDIRECT_def)
  moreover have "idev demo_file = 1" by (simp add: demo_file_def)
  ultimately show ?thesis using demo_fs_in(1) demo_fs_ok by (simp add: file_at_def demo_log)
qed

lemma demo_size: "unat (isize demo_file) = 3"
  by (simp add: demo_file_def)

lemma demo_content: "file_full demo_file (cview 1 demo_fs)" "file_content demo_file (cview 1 demo_fs) = [7, 8, 9]"
proof -
  note z = demo_size
  show "file_full demo_file (cview 1 demo_fs)" by (auto simp: file_full_def z mapped_def demo_addr BSIZE_def MAXFILE_def NDIRECT_def)
  have u: "[0..<3] = [0, 1, 2::nat]" by (simp add: upt_rec)
  show "file_content demo_file (cview 1 demo_fs) = [7, 8, 9]"
    unfolding file_content_def z u by (simp add: file_byte_def demo_addr BSIZE_def demo_view demo_blocks_def)
qed

section \<open>Properties\<close>

lemma add_wraps:
  fixes a b :: u32
  assumes "\<not> unat a + unat b < 2 ^ 32"
  shows "a + b < a"
  using assms unsigned_less [of b, where ?'a = nat] by (simp add: word_less_nat_alt unat_plus_if')

text \<open>
  Claim C9. Reading from a file in a transaction or outside of one.  \<^verbatim>\<open>readi\<close> of \<open>n\<close> bytes at offset \<open>off\<close> into a kernel object returns the
  bytes of the file from \<open>off\<close> on, \<open>n\<close> of them or as many as there are, through direct and indirect blocks; past the end, or if the sum
  of offset and length does not fit in 32 bits, it returns none.  It changes no block, no inode and nothing on the disk.
\<close>
theorem readi_reads:
  fixes s :: "'a fs_scheme" and off n :: u32
  assumes dev: "blk_device d" and f: "file_at dev p st ip s" and full: "file_full (inodes s ip) (cview dev s)"
  defines "k \<equiv> if unat off + unat n < 2 ^ 32 then min (unat n) (unat (isize (inodes s ip)) - unat off) else 0"
  shows "\<exists>t. drive (serve d p) (readi ip (KernObj bs) off n s) = Ok (int k, take k (drop (unat off) (file_content (inodes s ip) (cview dev s)))) t \<and>
    file_at dev p st ip t \<and> cview dev t = cview dev s \<and> inodes t = inodes s \<and> disk t = disk s \<and>
    (\<forall>D\<in>set (crashes (serve d p) disk (readi ip (KernObj bs) off n s)). D = disk s)"
proof (cases "unat off + unat n < 2 ^ 32")
  case True
  from readi_ok [OF dev f full True, of bs] obtain t where t: "moves dev p st {} {} (cview dev s) s t"
    "drive (serve d p) (readi ip (KernObj bs) off n s) = Ok (int k, take k (drop (unat off) (file_content (inodes s ip) (cview dev s)))) t"
    "\<forall>D\<in>set (crashes (serve d p) disk (readi ip (KernObj bs) off n s)). D = disk s"
    using True by (auto simp: chl_def k_def)
  then show ?thesis using file_at_keeps [OF f t(1)] moves_disk [OF t(1)] by auto
next
  case False
  then have "off + n < off" by (rule add_wraps)
  then have "readi ip (KernObj bs) off n s = Ok (0, []) s" by (simp add: readi_def)
  then show ?thesis using f False by (simp add: k_def)
qed

theorem readi_reads_witness:
  "\<exists>t. drive (serve ring_device 0) (readi 0 (KernObj []) 1 100 demo_fs) = Ok (2, [8, 9]) t \<and> disk t = disk demo_fs"
proof -
  have full: "file_full (inodes demo_fs 0) (cview 1 demo_fs)" using demo_content(1) by (simp add: demo_log)
  from readi_reads [OF ring_device_contract demo_file_at this, where off = 1 and n = 100 and bs = "[]"] show ?thesis
    by (auto simp: demo_log demo_content(2) demo_size)
qed

text \<open>
  Claim C8. A file is a sequence of bytes.  In a transaction with room in the log, and with a free block for every block that is missing,
  \<^verbatim>\<open>writei\<close> of \<open>n\<close> bytes at an offset up to the size of the file returns \<open>n\<close>; the content then has these bytes in place of the old ones and is
  longer if they reach beyond its end, and reading them back gives them.  The blocks in between may be direct or indirect and are
  allocated as needed.  The inode on disk is up to date, its neighbours are not touched, other inodes and the blocks in use by others keep their
  content, and the invariants of file and bitmap are kept.  Until the commit the disk does not change.  An offset beyond the end or a
  file too large gives -1 and no change.
\<close>
theorem writei_writes:
  fixes s :: "'a fs_scheme"
  assumes dev: "blk_device d" and r: "write_ready dev p st ip L R (blocks_of (unat off) (unat n)) s" and full: "file_full (inodes s ip) (cview dev s)"
    and i: "inum (inodes s ip) < ninodes (sb s)" and bs: "length bs = unat n"
  shows "(off \<le> isize (inodes s ip) \<longrightarrow>
      (\<exists>t u. drive (serve d p) (writei ip (KernObj bs) off n s) = Ok (int (unat n)) t \<and> file_written dev p st ip (unat off) bs s t \<and>
        drive (serve d p) (readi ip (KernObj []) off n t) = Ok (int (unat n), bs) u \<and>
        (\<forall>D\<in>set (crashes (serve d p) disk (writei ip (KernObj bs) off n s)). D = disk s))) \<and>
    (\<forall>src off n. isize (inodes s ip) < off \<or> MAXFILE * BSIZE < unat off + unat n \<longrightarrow> writei ip src off n s = Ok (- 1) s)"
proof (intro conjI impI allI)
  let ?q = "inodes s ip" and ?v = "cview dev s"
  have mf: "MAXFILE * BSIZE = 274432" by (simp add: MAXFILE_def NDIRECT_def NINDIRECT_def BSIZE_def)
  assume o: "off \<le> isize ?q"
  have fit: "unat off + unat n \<le> MAXFILE * BSIZE"
  proof (cases "unat n = 0")
    case True
    then show ?thesis using o full_size [OF full] by (simp add: word_le_nat_alt)
  next
    case False
    then have "(unat off + unat n - 1) div BSIZE \<in> blocks_of (unat off) (unat n)" by (auto simp: blocks_of_def)
    then have "(unat off + unat n - 1) div BSIZE < MAXFILE" using r by (auto simp: write_ready_def)
    then show ?thesis using False by (simp add: div_less_iff_less_mult)
  qed
  obtain t where t: "drive (serve d p) (writei ip (KernObj bs) off n s) = Ok (int (unat n)) t" "file_written dev p st ip (unat off) bs s t"
    "\<forall>D\<in>set (crashes (serve d p) disk (writei ip (KernObj bs) off n s)). D = disk s"
    using writei_ok [OF dev r full i o fit bs] by (auto simp: chl_def)
  note T = t(2) [unfolded file_written_def Let_def]
  have ft: "file_at dev p st ip t" and fu: "file_full (inodes t ip) (cview dev t)"
    and c: "file_content (inodes t ip) (cview dev t) = take (unat off) (file_content ?q ?v) @ bs @ drop (unat off + length bs) (file_content ?q ?v)" using T by blast+
  have lc: "length (file_content (inodes t ip) (cview dev t)) = unat (isize (inodes t ip))" "length (file_content ?q ?v) = unat (isize ?q)"
    by (simp_all add: file_content_def)
  have ol: "unat off \<le> unat (isize ?q)" using o by (simp add: word_le_nat_alt)
  have "unat off + unat n \<le> unat (isize (inodes t ip))" using arg_cong [OF c, of length] lc ol bs by simp
  then have k: "min (unat n) (unat (isize (inodes t ip)) - unat off) = unat n" by simp
  have "take (unat n) (drop (unat off) (file_content (inodes t ip) (cview dev t))) = bs" unfolding c using lc(2) ol bs by simp
  moreover have "unat off + unat n < 2 ^ 32" using fit mf by simp
  ultimately obtain u where "drive (serve d p) (readi ip (KernObj []) off n t) = Ok (int (unat n), bs) u"
    using readi_ok [OF dev ft fu, of off n "[]"] k by (auto simp: chl_def)
  then show "\<exists>t u. drive (serve d p) (writei ip (KernObj bs) off n s) = Ok (int (unat n)) t \<and> file_written dev p st ip (unat off) bs s t \<and>
        drive (serve d p) (readi ip (KernObj []) off n t) = Ok (int (unat n), bs) u \<and>
        (\<forall>D\<in>set (crashes (serve d p) disk (writei ip (KernObj bs) off n s)). D = disk s)" using t by blast
next
  fix src and off n :: u32
  assume "isize (inodes s ip) < off \<or> MAXFILE * BSIZE < unat off + unat n"
  then have "isize (inodes s ip) < off \<or> off + n < off \<or> MAXFILE * BSIZE < unat (off + n)"
    using add_wraps [of off n] by (cases "unat off + unat n < 2 ^ 32") (auto simp: unat_plus_if')
  then show "writei ip src off n s = Ok (- 1) s" by (auto simp: writei_def)
qed

theorem writei_writes_witness:
  "\<exists>t u. drive (serve ring_device 0) (writei 0 (KernObj [1, 2]) 2 2 demo_fs) = Ok 2 t \<and>
     file_content (inodes t 0) (cview 1 t) = [7, 8, 1, 2] \<and> drive (serve ring_device 0) (readi 0 (KernObj []) 2 2 t) = Ok (2, [1, 2]) u"
proof -
  have "{2..<4::nat} = {2, 3}" by auto
  then have b: "blocks_of (unat (2::u32)) (unat (2::u32)) = {0}" by (simp add: blocks_of_def BSIZE_def)
  have f: "file_at 1 0 2 0 demo_fs" by (rule demo_file_at)
  have none: "{n\<in>{0}. addr_at demo_file (cview 1 demo_fs) n = 0} = {}" by (auto simp: demo_addr)
  have r: "write_ready 1 0 2 0 {} {0} (blocks_of (unat (2::u32)) (unat (2::u32))) demo_fs"
    unfolding b write_ready_def demo_log none using f by (simp add: demo_fs_in(2) demo_log demo_addr demo_meta(1) LOGSIZE_def MAXOPBLOCKS_def MAXFILE_def NDIRECT_def)
  have full: "file_full (inodes demo_fs 0) (cview 1 demo_fs)" using demo_content(1) by (simp add: demo_log)
  have i: "inum (inodes demo_fs 0) < ninodes (sb demo_fs)" by (simp add: demo_log demo_file_def demo_sb)
  have o: "2 \<le> isize (inodes demo_fs 0)" by (simp add: demo_log demo_file_def)
  obtain t u where t: "drive (serve ring_device 0) (writei 0 (KernObj [1, 2]) 2 2 demo_fs) = Ok 2 t" "file_written 1 0 2 0 2 [1, 2] demo_fs t"
    "drive (serve ring_device 0) (readi 0 (KernObj []) 2 2 t) = Ok (2, [1, 2]) u"
    using writei_writes [OF ring_device_contract r full i, of "[1, 2]"] o by auto
  have "file_content (inodes t 0) (cview 1 t) = [7, 8, 1, 2]" using t(2) by (simp add: file_written_def Let_def demo_log demo_content(2))
  then show ?thesis using t by blast
qed

text \<open>
  Claim C10. Allocating and freeing blocks.  With a free block left, \<^verbatim>\<open>balloc\<close> returns the first one, cleared, sets its bit in the bitmap and
  changes no other bit and no other block; \<^verbatim>\<open>bfree\<close> of it restores the bitmap.  With no free block \<^verbatim>\<open>balloc\<close> stops the kernel, as does
  \<^verbatim>\<open>bfree\<close> of a block that is free already.
\<close>
theorem balloc_bfree_roundtrip:
  fixes s :: "'a fs_scheme"
  assumes dev: "blk_device d" and t: "trans_in dev p st {} s" and A: "alloc_ok st (sb s) (cview dev s)" and room: "log_room 3 s"
  defines "su \<equiv> sb s" and "v \<equiv> cview dev s"
  shows "((\<exists>x<fssize su. \<not> bit_used su v x) \<longrightarrow>
      (\<exists>a t u. drive (serve d p) (balloc dev s) = Ok a t \<and> a < fssize su \<and> \<not> bit_used su v a \<and> (\<forall>x<a. bit_used su v x) \<and>
        cview dev t a = replicate BSIZE 0 \<and> (\<forall>x<fssize su. bit_used su (cview dev t) x \<longleftrightarrow> x = a \<or> bit_used su v x) \<and>
        (\<forall>x. x \<noteq> a \<longrightarrow> x \<notin> bmap_blocks su \<longrightarrow> cview dev t x = v x) \<and>
        drive (serve d p) (bfree dev a t) = Ok () u \<and> cview dev u = v(a := replicate BSIZE 0))) \<and>
    ((\<forall>x<fssize su. bit_used su v x) \<longrightarrow> drive (serve d p) (balloc dev s) = Panic ''balloc: out of blocks'') \<and>
    (\<forall>a<fssize su. \<not> bit_used su v a \<longrightarrow> drive (serve d p) (bfree dev a s) = Panic ''freeing free block'')"
proof (intro conjI impI allI)
  assume free: "\<exists>x<fssize su. \<not> bit_used su v x"
  have H: "held_used {} (sb s) (cview dev s) s" "card {} \<le> (1::nat)" by (simp_all add: held_used_def)
  have r2: "log_room 2 s" using log_room_less [OF room] by simp
  obtain a u where a: "drive (serve d p) (balloc dev s) = Ok a u" "a < fssize su" "\<not> bit_used su v a" "\<forall>x<a. bit_used su v x"
    and m: "moves dev p st {} {BBLOCK a su, a} (taken su a v) s u"
    using balloc_ok [OF dev t A r2 H(2,1) free [unfolded su_def v_def]] by (auto simp: chl_def su_def v_def)
  note M = m [unfolded moves_def]
  note T = taken_facts [OF A [folded su_def v_def] a(2,3)]
  have k: "keeps dev p {} {BBLOCK a su, a} s u" using M by blast
  have su: "sb u = su" using keeps_fs(1) [OF k] by (simp add: su_def)
  have ru: "log_room 1 u" using log_room_keeps [OF k, of 1] log_room_less [OF room, of "1 + card {BBLOCK a su, a}"] by (simp add: card_insert_if)
  have cu: "cview dev u = taken su a v" using M by blast
  have "bit_used su (taken su a v) a" using T(1) [OF a(2)] by simp
  then have "chl (serve d p) disk (\<lambda>E. E = disk u) (bfree dev a u) (\<lambda>_. moves dev p st {} {BBLOCK a su} (released su a (taken su a v)) u)"
    using bfree_ok [OF dev _ _ ru, where dev = dev and p = p and st = st and H = "{}" and a = a] M T(2) a(2) su cu by (simp add: held_used_def)
  then obtain w where w: "drive (serve d p) (bfree dev a u) = Ok () w" "cview dev w = released su a (taken su a v)" by (auto simp: chl_def moves_def)
  have "taken su a v x = v x" if "x \<noteq> a" "x \<notin> bmap_blocks su" for x using T(4) that BBLOCK_bmap [OF a(2)] by metis
  then show "\<exists>a t u. drive (serve d p) (balloc dev s) = Ok a t \<and> a < fssize su \<and> \<not> bit_used su v a \<and> (\<forall>x<a. bit_used su v x) \<and>
        cview dev t a = replicate BSIZE 0 \<and> (\<forall>x<fssize su. bit_used su (cview dev t) x \<longleftrightarrow> x = a \<or> bit_used su v x) \<and>
        (\<forall>x. x \<noteq> a \<longrightarrow> x \<notin> bmap_blocks su \<longrightarrow> cview dev t x = v x) \<and>
        drive (serve d p) (bfree dev a t) = Ok () u \<and> cview dev u = v(a := replicate BSIZE 0)"
    using a w T(1,3) cu released_taken [OF A [folded su_def v_def] a(2,3)] by (intro exI [of _ a] exI [of _ u] exI [of _ w]) auto
next
  assume "\<forall>x<fssize su. bit_used su v x"
  then show "drive (serve d p) (balloc dev s) = Panic ''balloc: out of blocks''"
    unfolding balloc_def by (intro balloc_loop_full [OF dev _ A t _ _ logged_small [OF t], of 0 0]) (simp_all add: su_def v_def)
next
  fix a assume "a < fssize su" "\<not> bit_used su v a"
  then show "drive (serve d p) (bfree dev a s) = Panic ''freeing free block''"
    using bfree_free [OF dev t A logged_small [OF t]] by (simp add: su_def v_def)
qed

theorem balloc_bfree_roundtrip_witness:
  "\<exists>t u. drive (serve ring_device 0) (balloc 1 demo_fs) = Ok 47 t \<and> cview 1 t 47 = replicate BSIZE 0 \<and>
     drive (serve ring_device 0) (bfree 1 47 t) = Ok () u \<and> cview 1 u = (cview 1 demo_fs)(47 := replicate BSIZE 0)"
proof -
  have A: "alloc_ok 2 (sb demo_fs) (cview 1 demo_fs)" using demo_fs_ok by (simp add: fs_ok_def)
  have r: "log_room 3 demo_fs" by (simp add: log_room_def demo_fs_in(2) demo_log LOGSIZE_def MAXOPBLOCKS_def)
  have z: "fssize (sb demo_fs) = 1000" by (simp add: demo_sb)
  have free: "\<exists>x<fssize (sb demo_fs). \<not> bit_used (sb demo_fs) (cview 1 demo_fs) x" by (intro exI [of _ 47]) (simp add: z demo_used)
  obtain a t u where a: "drive (serve ring_device 0) (balloc 1 demo_fs) = Ok a t" "a < 1000" "\<not> bit_used (sb demo_fs) (cview 1 demo_fs) a"
    "\<forall>x<a. bit_used (sb demo_fs) (cview 1 demo_fs) x" "cview 1 t a = replicate BSIZE 0" "drive (serve ring_device 0) (bfree 1 a t) = Ok () u"
    "cview 1 u = (cview 1 demo_fs)(a := replicate BSIZE 0)"
    using balloc_bfree_roundtrip [OF ring_device_contract demo_fs_in(1) A r] free z by auto
  have "47 \<le> unat a" using a(2,3) demo_used by simp
  moreover have "\<not> 47 < a" using a(4) demo_used [of 47] by auto
  ultimately have "a = 47" by (auto simp: word_less_nat_alt word_unat_eq_iff)
  then show ?thesis using a by auto
qed

end
