(* ===== verification/Ring.thy ===== *)
theory Ring
  imports Xv6_Prelude
begin

text \<open>
  Ring buffers with free-running counters, as the pipes, the UART and the console have them: the counters are
  machine words that are only incremented, and the index of a slot is the counter modulo the size of
  the buffer.  That the size divides the range of the counters makes their wrap-around harmless.
\<close>

definition ring_list :: "('l::len word \<Rightarrow> nat) \<Rightarrow> (nat \<Rightarrow> 'b) \<Rightarrow> 'l word \<Rightarrow> 'l word \<Rightarrow> 'b list" where
  "ring_list slot f r w = map (\<lambda>i. f (slot (r + of_nat i))) [0..<unat (w - r)]"

lemma ring_list_length [simp]: "length (ring_list slot f r w) = unat (w - r)"
  by (simp add: ring_list_def)

lemma ring_list_Nil [simp]: "ring_list slot f r w = [] \<longleftrightarrow> r = w"
  by (simp add: ring_list_def unat_eq_zero) (metis eq_iff_diff_eq_0)

locale ring =
  fixes slot :: "'l::len word \<Rightarrow> nat" and N :: nat
  assumes slot_eq: "slot i = unat i mod N" and divides: "N dvd 2 ^ LENGTH('l)" and small: "0 < N" "N < 2 ^ LENGTH('l)"
begin

lemma slot_less: "slot i < N"
  using small(1) by (simp add: slot_eq)

lemma slot_add: "slot (r + of_nat i) = (unat r + i) mod N"
proof -
  have "unat (r + of_nat i) = (unat r + i) mod 2 ^ LENGTH('l)"
    by (simp add: unat_word_ariths unat_of_nat take_bit_eq_mod mod_add_right_eq)
  then show ?thesis using divides by (simp add: slot_eq mod_mod_cancel)
qed

lemma slot_inj: "i < N \<Longrightarrow> j < N \<Longrightarrow> slot (r + of_nat i) = slot (r + of_nat j) \<Longrightarrow> i = j"
proof -
  have "i = j" if "i \<le> j" "j < N" "(unat r + i) mod N = (unat r + j) mod N" for i j
  proof -
    have "N dvd j - i" using that(3) mod_eq_dvd_iff_nat [of "unat r + i" "unat r + j" N] that(1) by simp
    then show ?thesis using that(1,2) by (metis diff_is_0_eq dvd_imp_le le_antisym less_imp_diff_less linorder_not_less zero_less_iff_neq_zero)
  qed
  moreover assume "i < N" "j < N" "slot (r + of_nat i) = slot (r + of_nat j)"
  ultimately show ?thesis unfolding slot_add by (metis nle_le)
qed

lemma unat_next: "unat (w - r :: 'l word) < N \<Longrightarrow> unat (w + 1 - r) = Suc (unat (w - r))"
proof -
  assume "unat (w - r) < N"
  then have "Suc (unat (w - r)) < 2 ^ LENGTH('l)" using small(2) by simp
  moreover have "w + 1 - r = (w - r) + 1" by simp
  ultimately show ?thesis by (simp only: unat_word_ariths) simp
qed

lemma ring_push:
  assumes "unat (w - r) < N"
  shows "ring_list slot (f(slot w := x)) r (w + 1) = ring_list slot f r w @ [x]"
proof -
  have w: "w = r + of_nat (unat (w - r))" by simp
  have "slot (r + of_nat i) \<noteq> slot w" if "i < unat (w - r)" for i
    using slot_inj [of i "unat (w - r)" r] assms that w by (metis less_trans nat_neq_iff)
  moreover have "slot (r + of_nat (unat (w - r))) = slot w" using w by metis
  ultimately show ?thesis by (simp add: ring_list_def unat_next [OF assms])
qed

lemma ring_pop:
  assumes "r \<noteq> w"
  shows "ring_list slot f r w = f (slot r) # ring_list slot f (r + 1) w"
proof -
  have "0 < unat (w - r)" using assms by (simp add: unat_gt_0)
  then obtain n where n: "unat (w - r) = Suc n" by (metis gr0_implies_Suc)
  have "w - (r + 1) = w - r - 1" by simp
  then have "unat (w - (r + 1)) = n" using n by (metis One_nat_def Suc_neq_Zero diff_Suc_1 unat_eq_zero unat_minus_one)
  then show ?thesis by (simp add: ring_list_def n upt_conv_Cons map_Suc_upt [symmetric] algebra_simps del: upt_Suc)
qed

lemma ring_full: "(w :: 'l word) = r + of_nat N \<longleftrightarrow> unat (w - r) = N"
proof
  assume "w = r + of_nat N"
  then show "unat (w - r) = N" using small(2) by (simp add: unat_of_nat take_bit_nat_eq_self)
next
  assume "unat (w - r) = N"
  moreover have "of_nat (unat (w - r)) = w - r" by simp
  ultimately show "w = r + of_nat N" by simp
qed

lemma ring_room: "unat (w - r :: 'l word) \<le> N \<Longrightarrow> w \<noteq> r + of_nat N \<Longrightarrow> unat (w - r) < N"
  using ring_full by (meson le_neq_implies_less)

end

end
