(* ===== verification/Pipe_Facts.thy ===== *)
theory Pipe_Facts
  imports Ring File Vm_Life Kernel_Frames
begin

text \<open>
  Pipes as queues of bytes.  The structure lies in a page of its own; the queue is the part of the
  ring between \<^verbatim>\<open>nread\<close> and \<^verbatim>\<open>nwrite\<close>.
\<close>

interpretation pq: ring "\<lambda>i::u32. unat i mod PIPESIZE" PIPESIZE
  by unfold_locales (simp_all add: PIPESIZE_def)

definition pipe_bytes :: "u64 \<Rightarrow> memory \<Rightarrow> nat \<Rightarrow> byte" where
  "pipe_bytes pi m j = m (pi + pipe_data + of_nat j)"

definition pipe_queue :: "u64 \<Rightarrow> memory \<Rightarrow> byte list" where
  "pipe_queue pi m =
     ring_list (\<lambda>i. unat i mod PIPESIZE) (pipe_bytes pi m) (ld32 m (pi + pipe_nread)) (ld32 m (pi + pipe_nwrite))"

section \<open>The fields of the structure\<close>

lemma field_diff:
  "k < 4096 \<Longrightarrow> o' < 4096 \<Longrightarrow> unat (of_nat k - of_nat o' :: u64) = (if o' \<le> k then k - o' else 2 ^ 64 - (o' - k))"
  by (auto simp: unat_sub_if' unat_of_nat take_bit_nat_eq_self)

lemma st32_other:
  "k < 4096 \<Longrightarrow> o' < 4096 \<Longrightarrow> k < o' \<or> o' + 4 \<le> k \<Longrightarrow> st32 m (pi + of_nat o') v (pi + of_nat k) = m (pi + of_nat k)"
  by (auto simp: st32_def wr_def field_diff)

lemma ld32_cong: "(\<And>i. i < 4 \<Longrightarrow> m' (a + of_nat i) = m (a + of_nat i)) \<Longrightarrow> ld32 m' a = ld32 m a"
  by (auto simp: ld32_def rd_def intro!: arg_cong [where f = word_of_bytes])

lemma ld32_st32_same: "ld32 (st32 m a v) a = v"
proof -
  have "rd (wr m a (bytes_of_word 4 v)) a 4 = bytes_of_word 4 v"
    by (auto intro!: nth_equalityI simp: rd_def wr_def unat_of_nat take_bit_nat_eq_self)
  then show ?thesis by (simp add: ld32_def st32_def word_of_bytes_of_word)
qed

lemma ld32_st32_other:
  assumes "k < 4092" "o' < 4092" "k + 4 \<le> o' \<or> o' + 4 \<le> k"
  shows "ld32 (st32 m (pi + of_nat o') v) (pi + of_nat k) = ld32 m (pi + of_nat k)"
proof (rule ld32_cong)
  fix i :: nat assume "i < 4"
  then show "st32 m (pi + of_nat o') v (pi + of_nat k + of_nat i) = m (pi + of_nat k + of_nat i)"
    using st32_other [of "k + i" o' m pi v] assms by (auto simp: add.assoc)
qed

lemmas pipe_offsets = pipe_nread_def pipe_nwrite_def pipe_readopen_def pipe_writeopen_def pipe_data_def

lemma pipe_fields_set [simp]:
  "ld32 (st32 m (pi + pipe_nread) v) (pi + pipe_nread) = v" "ld32 (st32 m (pi + pipe_nwrite) v) (pi + pipe_nwrite) = v"
  "ld32 (st32 m (pi + pipe_nread) v) (pi + pipe_nwrite) = ld32 m (pi + pipe_nwrite)"
  "ld32 (st32 m (pi + pipe_nwrite) v) (pi + pipe_nread) = ld32 m (pi + pipe_nread)"
  "ld32 (st32 m (pi + pipe_nread) v) (pi + pipe_readopen) = ld32 m (pi + pipe_readopen)"
  "ld32 (st32 m (pi + pipe_nread) v) (pi + pipe_writeopen) = ld32 m (pi + pipe_writeopen)"
  "ld32 (st32 m (pi + pipe_nwrite) v) (pi + pipe_readopen) = ld32 m (pi + pipe_readopen)"
  "ld32 (st32 m (pi + pipe_nwrite) v) (pi + pipe_writeopen) = ld32 m (pi + pipe_writeopen)"
  using ld32_st32_same ld32_st32_other [of 536 540 m pi v] ld32_st32_other [of 540 536 m pi v] ld32_st32_other [of 544 536 m pi v]
    ld32_st32_other [of 548 536 m pi v] ld32_st32_other [of 544 540 m pi v] ld32_st32_other [of 548 540 m pi v]
  by (simp_all add: pipe_offsets)

lemma pipe_bytes_set [simp]:
  "j < PIPESIZE \<Longrightarrow> pipe_bytes pi (st32 m (pi + pipe_nread) v) j = pipe_bytes pi m j"
  "j < PIPESIZE \<Longrightarrow> pipe_bytes pi (st32 m (pi + pipe_nwrite) v) j = pipe_bytes pi m j"
  using st32_other [of "24 + j" 536 m pi v] st32_other [of "24 + j" 540 m pi v]
  by (simp_all add: pipe_bytes_def pipe_offsets PIPESIZE_def add.assoc)

lemma ring_list_cong: "(\<And>i. f (slot i) = g (slot i)) \<Longrightarrow> ring_list slot f r w = ring_list slot g r w"
  by (simp add: ring_list_def)

lemma slot_bytes: "unat (of_nat j :: u64) = j" if "j < PIPESIZE"
  using that by (simp add: unat_of_nat take_bit_nat_eq_self PIPESIZE_def)

lemma pipe_store:
  assumes "j < PIPESIZE"
  shows "i < PIPESIZE \<Longrightarrow> pipe_bytes pi (m(pi + pipe_data + of_nat j := x)) i = ((pipe_bytes pi m)(j := x)) i"
    "o' \<in> {pipe_nread, pipe_nwrite, pipe_readopen, pipe_writeopen} \<Longrightarrow> ld32 (m(pi + pipe_data + of_nat j := x)) (pi + o') = ld32 m (pi + o')"
proof -
  show "pipe_bytes pi (m(pi + pipe_data + of_nat j := x)) i = ((pipe_bytes pi m)(j := x)) i" if "i < PIPESIZE"
    using slot_bytes [OF assms] slot_bytes [OF that] by (auto simp: pipe_bytes_def)
  assume o: "o' \<in> {pipe_nread, pipe_nwrite, pipe_readopen, pipe_writeopen}"
  show "ld32 (m(pi + pipe_data + of_nat j := x)) (pi + o') = ld32 m (pi + o')"
  proof (rule ld32_cong)
    fix i :: nat assume i: "i < 4"
    obtain k where k: "o' = of_nat k" "536 \<le> k" "k \<le> 548"
      using o by (elim insertE) (auto simp: pipe_offsets intro: that [of 536] that [of 540] that [of 544] that [of 548])
    have "unat (of_nat (k + i) :: u64) = k + i" "unat (of_nat (24 + j) :: u64) = 24 + j"
      using k i assms by (simp_all add: unat_of_nat take_bit_nat_eq_self PIPESIZE_def del: of_nat_add)
    then have "of_nat (k + i) \<noteq> (of_nat (24 + j) :: u64)" using k i assms by (auto simp: PIPESIZE_def simp del: of_nat_add)
    then show "(m(pi + pipe_data + of_nat j := x)) (pi + o' + of_nat i) = m (pi + o' + of_nat i)"
      by (simp add: k pipe_data_def add.assoc)
  qed
qed

section \<open>Enqueue and dequeue\<close>

lemma slot_small: "unat (i :: u32) mod PIPESIZE < PIPESIZE"
  by (simp add: PIPESIZE_def)

lemma pipe_queue_pop:
  assumes "ld32 m (pi + pipe_nread) \<noteq> ld32 m (pi + pipe_nwrite)"
  defines "r \<equiv> ld32 m (pi + pipe_nread)"
  shows "pipe_queue pi m = m (pipe_slot pi r) # pipe_queue pi (st32 m (pi + pipe_nread) (r + 1))"
proof -
  have "pipe_queue pi (st32 m (pi + pipe_nread) (r + 1)) =
      ring_list (\<lambda>i. unat i mod PIPESIZE) (pipe_bytes pi m) (r + 1) (ld32 m (pi + pipe_nwrite))"
    unfolding pipe_queue_def pipe_fields_set by (rule ring_list_cong) (simp add: slot_small)
  then show ?thesis
    using pq.ring_pop [OF assms(1), of "pipe_bytes pi m"] by (simp add: pipe_queue_def r_def pipe_bytes_def pipe_slot_def)
qed

lemma pipe_queue_push:
  assumes room: "length (pipe_queue pi m) < PIPESIZE"
  defines "w \<equiv> ld32 m (pi + pipe_nwrite)"
  shows "pipe_queue pi ((st32 m (pi + pipe_nwrite) (w + 1))(pipe_slot pi w := x)) = pipe_queue pi m @ [x]"
proof -
  let ?j = "unat w mod PIPESIZE" and ?m = "st32 m (pi + pipe_nwrite) (w + 1)" and ?r = "ld32 m (pi + pipe_nread)"
  have s: "pipe_slot pi w = pi + pipe_data + of_nat ?j" by (simp add: pipe_slot_def)
  have "pipe_queue pi (?m(pipe_slot pi w := x)) = ring_list (\<lambda>i. unat i mod PIPESIZE) (pipe_bytes pi (?m(pipe_slot pi w := x))) ?r (w + 1)"
    unfolding pipe_queue_def s by (simp add: pipe_store(2) [OF slot_small] w_def)
  also have "\<dots> = ring_list (\<lambda>i. unat i mod PIPESIZE) ((pipe_bytes pi m)(?j := x)) ?r (w + 1)"
    unfolding s by (rule ring_list_cong) (simp add: pipe_store(1) [OF slot_small slot_small] slot_small)
  also have "\<dots> = pipe_queue pi m @ [x]"
    using pq.ring_push [of w ?r "pipe_bytes pi m" x] room by (simp add: pipe_queue_def w_def)
  finally show ?thesis .
qed

section \<open>A process and a pipe\<close>

text \<open>The page of the pipe belongs neither to the address space of the process nor to the free list.\<close>

definition pipe_env :: "u64 \<Rightarrow> u64 \<Rightarrow> u64 list \<Rightarrow> nat set \<Rightarrow> 'a kmem_scheme \<Rightarrow> bool" where
  "pipe_env pi pt ps K s \<longleftrightarrow> space_ok s pt ps K \<and> aligned pi \<and> pi \<notin> set ps \<and> pi \<notin> tpages (mem s) pt \<and> pi \<notin> upage (mem s) pt ` K"

lemma user_byte_frame:
  assumes ok: "space_ok s pt ps K" and l: "leaf m' pt = leaf (mem s) pt"
    and m: "\<And>k x. k \<in> K \<Longrightarrow> x \<in> page (upage (mem s) pt k) \<Longrightarrow> m' x = mem s x"
  shows "user_byte m' pt = user_byte (mem s) pt"
proof
  fix va
  show "user_byte m' pt va = user_byte (mem s) pt va"
  proof (cases "upa (mem s) pt va")
    case (Some a)
    then show ?thesis using m [OF upa_owned(2,4) [OF ok Some]] upa_leaf [OF l] by (simp add: user_byte_def)
  qed (simp add: user_byte_def upa_leaf [OF l])
qed

lemma pipe_env_store:
  assumes e: "pipe_env pi pt ps K s" and m: "\<And>x. x \<notin> page pi \<Longrightarrow> m' x = mem s x"
  shows "pipe_env pi pt ps K (s\<lparr>mem := m'\<rparr>)" "user_byte m' pt = user_byte (mem s) pt"
proof -
  note E = e [unfolded pipe_env_def]
  have ok: "space_ok s pt ps K" and al: "aligned pi" using E by blast+
  note V = vm_okD [OF space_okD(1) [OF ok]]
  have off: "m' x = mem s x" if "aligned a" "a \<noteq> pi" "x \<in> page a" for a x
    using page_disjoint [OF that(1) al that(2)] that(3) m by blast
  have t: "mem (s\<lparr>mem := m'\<rparr>) x = mem s x" if "a \<in> tpages (mem s) pt" "x \<in> page a" for a x
    using off [of a x] that V(5) E by auto
  have km: "kmem_ok (s\<lparr>mem := m'\<rparr>) ps"
    by (rule kmem_ok_mem [OF V(1)]) (use off E kmem_okD(7) [OF V(1)] in blast)
  have d: "set ps \<inter> (tpages (mem s) pt \<union> upage (mem s) pt ` K) = {}"
    using space_okD(8) [OF ok] V(4) by auto
  note F = space_ok_frame [OF ok km _ t d, simplified]
  have l: "leaf m' pt = leaf (mem s) pt" using F(2) by simp
  show "user_byte m' pt = user_byte (mem s) pt"
    by (rule user_byte_frame [OF ok l]) (use off space_okD(10) [OF ok] E in blast)
  show "pipe_env pi pt ps K (s\<lparr>mem := m'\<rparr>)"
    using F upage_leaf(2) [OF l] E by (simp add: pipe_env_def)
qed

lemma in_pipe_page:
  "unat (x - (pi + of_nat o')) < n \<Longrightarrow> o' + n \<le> 4096 \<Longrightarrow> x \<in> page pi"
proof -
  assume a: "unat (x - (pi + of_nat o')) < n" "o' + n \<le> 4096"
  have "x - pi = of_nat (unat (x - (pi + of_nat o')) + o')" by simp
  moreover have "unat (of_nat (unat (x - (pi + of_nat o')) + o') :: u64) = unat (x - (pi + of_nat o')) + o'"
    using a by (simp add: unat_of_nat take_bit_nat_eq_self del: of_nat_add)
  ultimately show ?thesis using a by (simp add: page_def in_span_iff del: of_nat_add)
qed

lemma pipe_writes_inside:
  "x \<notin> page pi \<Longrightarrow> st32 m (pi + pipe_nread) v x = m x" "x \<notin> page pi \<Longrightarrow> st32 m (pi + pipe_nwrite) v x = m x"
  "x \<notin> page pi \<Longrightarrow> x \<noteq> pipe_slot pi i"
proof -
  show "st32 m (pi + pipe_nread) v x = m x" "st32 m (pi + pipe_nwrite) v x = m x" if "x \<notin> page pi"
    using in_pipe_page [of x pi 536 4] in_pipe_page [of x pi 540 4] that by (auto simp: st32_def wr_def pipe_offsets)
  have "pipe_slot pi i \<in> page pi"
    using in_pipe_page [of "pipe_slot pi i" pi "24 + unat i mod PIPESIZE" 1] slot_small [of i]
    by (simp add: pipe_slot_def pipe_data_def PIPESIZE_def add.assoc)
  then show "x \<notin> page pi \<Longrightarrow> x \<noteq> pipe_slot pi i" by blast
qed

lemma pipe_set_slot: "st32 m (pi + pipe_nread) v (pipe_slot pi i) = m (pipe_slot pi i)"
  using pipe_bytes_set(1) [OF slot_small] by (simp add: pipe_bytes_def pipe_slot_def)

section \<open>Reading\<close>

text \<open>A byte that goes to the user leaves the pipe alone.\<close>

lemma pipe_copyout:
  assumes e: "pipe_env pi pt ps K s" and va: "user_byte (mem s) pt va \<noteq> None"
  shows "\<exists>m'. copyout pt va [c] s = Ok 0 (s\<lparr>mem := m'\<rparr>) \<and> pipe_env pi pt ps K (s\<lparr>mem := m'\<rparr>) \<and> (\<forall>x\<in>page pi. m' x = mem s x) \<and>
    user_byte m' pt = (user_byte (mem s) pt)(va := Some c)"
proof -
  note E = e [unfolded pipe_env_def]
  have ok: "space_ok s pt ps K" using E by blast
  obtain r j m' where c: "copyout pt va [c] s = Ok r (s\<lparr>mem := m'\<rparr>)" and P: "copyout_post s pt ps K va [c] r j m'"
    using copyout_stored [OF ok, of "[c]" va] by auto
  note P = P [unfolded copyout_post_def]
  have rj: "r = 0" "j = 1" using P va by auto
  have off: "m' x = mem s x" if "x \<in> page pi" for x
    using P page_not_covered [of pi "upage (mem s) pt ` K" x] that E space_okD(10) [OF ok] by blast
  have l: "leaf m' pt = leaf (mem s) pt" using P by blast
  have "pipe_env pi pt ps K (s\<lparr>mem := m'\<rparr>)"
    using P E upage_leaf(2) [OF l] by (simp add: pipe_env_def)
  moreover have "user_byte m' pt = (user_byte (mem s) pt)(va := Some c)"
    using P by (auto simp: rj stored_def fun_eq_iff unat_eq_zero)
  ultimately show ?thesis using c rj off by blast
qed

lemma pipe_copyout_fault:
  assumes e: "pipe_env pi pt ps K s" and va: "user_byte (mem s) pt va = None"
  shows "\<exists>m'. copyout pt va [c] s = Ok (- 1) (s\<lparr>mem := m'\<rparr>) \<and> pipe_env pi pt ps K (s\<lparr>mem := m'\<rparr>) \<and> (\<forall>x\<in>page pi. m' x = mem s x) \<and>
    user_byte m' pt = user_byte (mem s) pt"
proof -
  note E = e [unfolded pipe_env_def]
  have ok: "space_ok s pt ps K" using E by blast
  obtain r j m' where c: "copyout pt va [c] s = Ok r (s\<lparr>mem := m'\<rparr>)" and P: "copyout_post s pt ps K va [c] r j m'"
    using copyout_stored [OF ok, of "[c]" va] by auto
  note P = P [unfolded copyout_post_def]
  have ub: "user_byte m' pt vb = (if unat (vb - va) < length (take j [c]) then Some (take j [c] ! unat (vb - va)) else user_byte (mem s) pt vb)" for vb
    using P by (simp add: stored_def)
  have l: "leaf m' pt = leaf (mem s) pt" using P by blast
  have rj: "r = - 1 \<and> j = 0"
  proof (rule ccontr)
    assume "\<not> ?thesis"
    then have "j = 1" using P by auto
    then have "user_byte m' pt va \<noteq> None" using ub [of va] by simp
    then show False using va upa_leaf [OF l] by (simp add: user_byte_def split: option.splits)
  qed
  have off: "m' x = mem s x" if "x \<in> page pi" for x
    using P page_not_covered [of pi "upage (mem s) pt ` K" x] that E space_okD(10) [OF ok] by blast
  have "pipe_env pi pt ps K (s\<lparr>mem := m'\<rparr>)"
    using P E upage_leaf(2) [OF l] by (simp add: pipe_env_def)
  moreover have "user_byte m' pt = user_byte (mem s) pt" using ub rj by (simp add: fun_eq_iff)
  ultimately show ?thesis using c rj off by blast
qed

definition pipe_ctl :: "u64 \<Rightarrow> memory \<Rightarrow> u32 \<times> u32" where
  "pipe_ctl pi m = (ld32 m (pi + pipe_readopen), ld32 m (pi + pipe_writeopen))"

lemma pipe_page_cong:
  assumes "\<And>x. x \<in> page pi \<Longrightarrow> m' x = m x"
  shows "pipe_queue pi m' = pipe_queue pi m" "pipe_ctl pi m' = pipe_ctl pi m"
    "ld32 m' (pi + pipe_nread) = ld32 m (pi + pipe_nread)" "ld32 m' (pi + pipe_nwrite) = ld32 m (pi + pipe_nwrite)"
proof -
  have in_page: "m' (pi + of_nat k) = m (pi + of_nat k)" if "k < 4096" for k
    using that by (intro assms in_pipe_page [of _ pi k 1]) auto
  have l: "ld32 m' (pi + of_nat k) = ld32 m (pi + of_nat k)" if "k < 4000" for k
    by (rule ld32_cong) (use in_page [of "k + i" for i] that in \<open>simp add: add.assoc\<close>)
  show n: "ld32 m' (pi + pipe_nread) = ld32 m (pi + pipe_nread)" "ld32 m' (pi + pipe_nwrite) = ld32 m (pi + pipe_nwrite)"
    using l [of 536] l [of 540] by (simp_all add: pipe_offsets)
  show "pipe_ctl pi m' = pipe_ctl pi m" using l [of 544] l [of 548] by (simp add: pipe_ctl_def pipe_offsets)
  have "pipe_bytes pi m' (unat (i::u32) mod PIPESIZE) = pipe_bytes pi m (unat i mod PIPESIZE)" for i
    using in_page [of "24 + unat i mod PIPESIZE"] slot_small [of i] by (simp add: pipe_bytes_def pipe_data_def PIPESIZE_def add.assoc)
  then show "pipe_queue pi m' = pipe_queue pi m" unfolding pipe_queue_def n by (rule ring_list_cong)
qed

text \<open>
  The loop of \<^verbatim>\<open>piperead\<close>: \<open>j\<close> bytes reach the user, all there are or as many as fit before an inaccessible address.  The byte
  that meets this address has left the queue.
\<close>

lemma piperead_loop_ok:
  fixes s :: "'a procs_scheme"
  assumes "pipe_env pi pt ps K s" "pagetable (ptab s pr) = pt" "n < 2 ^ 32" "k = min n (length (pipe_queue pi (mem s)))" "j \<le> k"
    and "\<And>l. l < j \<Longrightarrow> user_byte (mem s) pt (addr + of_nat (i + l)) \<noteq> None" "j < k \<Longrightarrow> user_byte (mem s) pt (addr + of_nat (i + j)) = None"
  shows "\<exists>m'. piperead_loop pr pi addr i n s = Ok (i + j) (s\<lparr>mem := m'\<rparr>) \<and> pipe_env pi pt ps K (s\<lparr>mem := m'\<rparr>) \<and>
    pipe_queue pi m' = drop (min (Suc j) k) (pipe_queue pi (mem s)) \<and> pipe_ctl pi m' = pipe_ctl pi (mem s) \<and>
    (\<forall>vb. user_byte m' pt vb = (if unat (vb - (addr + of_nat i)) < j then Some (pipe_queue pi (mem s) ! unat (vb - (addr + of_nat i)))
       else user_byte (mem s) pt vb))"
  using assms
proof (induction n arbitrary: i s k j)
  case 0
  show ?case by (rule exI [of _ "mem s"]) (use 0 in simp)
next
  case (Suc n)
  let ?q = "pipe_queue pi (mem s)" and ?r = "ld32 (mem s) (pi + pipe_nread)" and ?w = "ld32 (mem s) (pi + pipe_nwrite)"
  show ?case
  proof (cases "?r = ?w")
    case True
    then have "?q = []" by (simp add: pipe_queue_def)
    then show ?thesis using True Suc.prems(1,4,5) by (intro exI [of _ "mem s"]) (simp add: pipe_get_def)
  next
    case False
    let ?m1 = "st32 (mem s) (pi + pipe_nread) (?r + 1)"
    let ?s1 = "s\<lparr>mem := ?m1\<rparr>" and ?c = "mem s (pipe_slot pi ?r)"
    note q = pipe_queue_pop [OF False]
    have e1: "pipe_env pi pt ps K ?s1" "user_byte ?m1 pt = user_byte (mem s) pt"
      using pipe_env_store [OF Suc.prems(1), of ?m1] pipe_writes_inside by blast+
    have k0: "0 < k" using Suc.prems(4) q by simp
    show ?thesis
    proof (cases j)
      case 0
      then have "user_byte (mem ?s1) pt (addr + of_nat i) = None" using Suc.prems(7) k0 e1(2) by simp
      from pipe_copyout_fault [OF e1(1) this, of ?c] obtain m2 where
        c: "copyout pt (addr + of_nat i) [?c] ?s1 = Ok (- 1) (?s1\<lparr>mem := m2\<rparr>)" "pipe_env pi pt ps K (?s1\<lparr>mem := m2\<rparr>)"
        "\<And>x. x \<in> page pi \<Longrightarrow> m2 x = ?m1 x" "user_byte m2 pt = user_byte (mem s) pt" using e1(2) by auto
      note pc = pipe_page_cong [OF c(3)]
      have "min (Suc j) k = 1" using 0 k0 by simp
      then have "pipe_queue pi m2 = drop (min (Suc j) k) ?q" using q pc(1) by simp
      moreover have "pipe_ctl pi m2 = pipe_ctl pi (mem s)" using pc(2) by (simp add: pipe_ctl_def)
      moreover have "piperead_loop pr pi addr i (Suc n) s = Ok (i + j) (s\<lparr>mem := m2\<rparr>)"
        using False c(1) Suc.prems(2) 0 by (simp add: pipe_get_def pipe_set_def pipe_set_slot Let_def)
      ultimately show ?thesis using c(2,4) 0 by (intro exI [of _ m2]) simp
    next
      case (Suc j')
      then have "user_byte (mem s) pt (addr + of_nat i) \<noteq> None" using Suc.prems(6) [of 0] by simp
      then obtain m2 where c: "copyout pt (addr + of_nat i) [?c] ?s1 = Ok 0 (?s1\<lparr>mem := m2\<rparr>)" "pipe_env pi pt ps K (?s1\<lparr>mem := m2\<rparr>)"
        "\<And>x. x \<in> page pi \<Longrightarrow> m2 x = ?m1 x" "user_byte m2 pt = (user_byte (mem s) pt)(addr + of_nat i := Some ?c)"
        using pipe_copyout [OF e1(1), of "addr + of_nat i" ?c] e1(2) by auto
      let ?s2 = "s\<lparr>mem := m2\<rparr>"
      note pc = pipe_page_cong [OF c(3)]
      have q2: "?q = ?c # pipe_queue pi m2" using q pc(1) by simp
      define k' where "k' = min n (length (pipe_queue pi m2))"
      have k: "k = Suc k'" using Suc.prems(4) q2 by (simp add: k'_def)
      have j': "j' \<le> k'" using Suc.prems(5) k Suc by simp
      have u: "user_byte m2 pt (addr + of_nat (Suc i + l)) = user_byte (mem s) pt (addr + of_nat (i + Suc l))" if "l \<le> j'" for l
      proof -
        have "l < 2 ^ 32" using that j' Suc.prems(3) by (simp add: k'_def)
        then have "(of_nat (Suc l) :: u64) \<noteq> 0" using word_of_nat_inj64 [of "Suc l" 0] by simp
        moreover have "addr + of_nat (Suc i + l) = addr + of_nat i + (of_nat (Suc l) :: u64)" by simp
        ultimately have "addr + of_nat (Suc i + l) \<noteq> (addr + of_nat i :: u64)" by (simp del: of_nat_Suc of_nat_add)
        then show ?thesis using c(4) by simp
      qed
      have "user_byte (mem ?s2) pt (addr + of_nat (Suc i + l)) \<noteq> None" if "l < j'" for l
        using Suc.prems(6) [of "Suc l"] that Suc u by simp
      moreover have "user_byte (mem ?s2) pt (addr + of_nat (Suc i + j')) = None" if "j' < k'"
        using Suc.prems(7) that Suc k u by simp
      moreover have "pipe_env pi pt ps K ?s2" "pagetable (ptab ?s2 pr) = pt" "n < 2 ^ 32" using c(2) Suc.prems by simp_all
      ultimately obtain m' where m': "piperead_loop pr pi addr (Suc i) n ?s2 = Ok (Suc i + j') (?s2\<lparr>mem := m'\<rparr>)"
        "pipe_env pi pt ps K (?s2\<lparr>mem := m'\<rparr>)" "pipe_queue pi m' = drop (min (Suc j') k') (pipe_queue pi m2)" "pipe_ctl pi m' = pipe_ctl pi m2"
        "\<And>vb. user_byte m' pt vb = (if unat (vb - (addr + of_nat (Suc i))) < j' then Some (pipe_queue pi m2 ! unat (vb - (addr + of_nat (Suc i))))
           else user_byte m2 pt vb)"
        using Suc.IH [of ?s2 k' j' "Suc i"] j' by (auto simp: k'_def)
      have run: "piperead_loop pr pi addr i (Suc n) s = Ok (i + j) (s\<lparr>mem := m'\<rparr>)"
        using False c(1) m'(1) Suc.prems(2) Suc by (simp add: pipe_get_def pipe_set_def pipe_set_slot Let_def)
      have ctl: "pipe_ctl pi m' = pipe_ctl pi (mem s)" using m'(4) pc(2) by (simp add: pipe_ctl_def)
      have ub: "user_byte m' pt vb = (if unat (vb - (addr + of_nat i)) < j then Some (?q ! unat (vb - (addr + of_nat i))) else user_byte (mem s) pt vb)" for vb
      proof (cases "vb = addr + of_nat i")
        case True
        have "unat (- 1 :: u64) = 2 ^ 64 - 1" by (simp add: unsigned_minus_1_eq_mask mask_eq_exp_minus_1)
        then have "\<not> unat (vb - (addr + of_nat (Suc i))) < j'" using Suc.prems(3) j' by (simp add: True k'_def)
        then show ?thesis using m'(5) [of vb] c(4) True q2 Suc by simp
      next
        case False
        let ?d = "vb - (addr + of_nat i)"
        have d: "vb - (addr + of_nat (Suc i)) = ?d - 1" by simp
        have "?d \<noteq> 0" using False by simp
        then have "unat ?d = Suc (unat (?d - 1))" by (simp add: unat_minus_one unat_gt_0 del: diff_diff_eq2)
        then show ?thesis using m'(5) [of vb, unfolded d] c(4) False q2 Suc by simp
      qed
      show ?thesis using run m'(2) m'(3) q2 k Suc ctl ub by (intro exI [of _ m']) simp
    qed
  qed
qed

section \<open>A call from outside\<close>

lemma space_ok_enter_cs [simp]: "lk \<noteq> LkKmem \<Longrightarrow> mach_ok s \<Longrightarrow> space_ok (enter_cs lk s) pt ps K = space_ok s pt ps K"
  by (auto simp: space_ok_def vm_ok_def kmem_ok_def)

lemma space_ok_ptab [simp]: "space_ok (s\<lparr>ptab := T\<rparr>) pt ps K = space_ok s pt ps K"
  by (simp add: space_ok_def vm_ok_def kmem_ok_def)

lemma pipe_env_frame [simp]:
  "lk \<noteq> LkKmem \<Longrightarrow> mach_ok s \<Longrightarrow> pipe_env pi pt ps K (enter_cs lk s) = pipe_env pi pt ps K s"
  "pipe_env pi pt ps K (settle s) = pipe_env pi pt ps K s"
  by (simp_all add: pipe_env_def)

definition with_pipe :: "nat \<Rightarrow> u64 \<Rightarrow> u64 list \<Rightarrow> nat set \<Rightarrow> 'a procs_scheme \<Rightarrow> bool" where
  "with_pipe p pi ps K s \<longleftrightarrow> mach_ok s \<and> cproc (mycpu s) = Some p \<and> lock_free (LkPipe pi) s \<and> procs_free s \<and>
     pipe_env pi (pagetable (ptab s p)) ps K s"

text \<open>The state in which a call returns, compared with the state \<open>s\<close> in which it started.\<close>

definition pipe_end ::
  "nat \<Rightarrow> u64 \<Rightarrow> u64 list \<Rightarrow> nat set \<Rightarrow> 'a procs_scheme \<Rightarrow> byte list \<Rightarrow> (u64 \<Rightarrow> byte option) \<Rightarrow> chan \<Rightarrow> 'a procs_scheme \<Rightarrow> bool" where
  "pipe_end p pi ps K s q ub ch t \<longleftrightarrow> with_pipe p pi ps K t \<and> pipe_queue pi (mem t) = q \<and> pipe_ctl pi (mem t) = pipe_ctl pi (mem s) \<and>
     user_byte (mem t) (pagetable (ptab s p)) = ub \<and> ptab t = woken (Some ch) (Some p) {..<NPROC} (ptab s) \<and>
     noff (mycpu t) = noff (mycpu s) \<and> sie (mycpu t) = sie (mycpu s)"

text \<open>The end of both routines: wake the other side, release the lock.\<close>

lemma pipe_end_wake:
  fixes s :: "'a procs_scheme"
  assumes w: "with_pipe p pi ps K s" and e: "pipe_env pi (pagetable (ptab s p)) ps K ((enter_cs (LkPipe pi) s)\<lparr>mem := m\<rparr>)"
    and q: "pipe_queue pi m = q" "pipe_ctl pi m = pipe_ctl pi (mem s)" "user_byte m (pagetable (ptab s p)) = ub"
  shows "\<exists>t. and_then (wakeup (Some ch) ((enter_cs (LkPipe pi) s)\<lparr>mem := m\<rparr>)) (\<lambda>_ s. and_then (release (LkPipe pi) s) (\<lambda>_ s. Ok r s)) = Ok r t \<and>
    pipe_end p pi ps K s q ub ch t"
proof -
  note W = w [unfolded with_pipe_def]
  let ?T = "woken (Some ch) (Some p) {..<NPROC} (ptab s)"
  let ?t = "settle (s\<lparr>mem := m, ptab := ?T\<rparr>)"
  have run: "and_then (wakeup (Some ch) ((enter_cs (LkPipe pi) s)\<lparr>mem := m\<rparr>)) (\<lambda>_ s. and_then (release (LkPipe pi) s) (\<lambda>_ s. Ok r s)) = Ok r ?t"
    using W wakeup_eq [of "enter_cs (LkPipe pi) (s\<lparr>mem := m\<rparr>)" "Some ch"] by simp
  have "?T p = ptab s p" by (simp add: woken_def)
  then have "with_pipe p pi ps K ?t" using W e by (simp add: with_pipe_def pipe_env_def)
  then show ?thesis using run q by (intro exI [of _ ?t]) (simp add: pipe_end_def)
qed

text \<open>
  A process that sleeps in a pipe routine: it has handed over the processor and the lock, and is \<^verbatim>\<open>SLEEPING\<close> on \<open>ch\<close>.  Later, in
  a state \<open>v\<close> in which it is runnable and no lock is held, a scheduler picks it, on any hart.
\<close>

definition pipe_asleep :: "nat \<Rightarrow> u64 \<Rightarrow> chan \<Rightarrow> (nat \<Rightarrow> proc) \<Rightarrow> 'a procs_scheme \<Rightarrow> bool" where
  "pipe_asleep p pi ch T t \<longleftrightarrow> handoff p t \<and> lock_free (LkPipe pi) t \<and> ptab t = T(p := (T p)\<lparr>chan := Some ch, state := SLEEPING\<rparr>)"

definition can_resume :: "nat \<Rightarrow> u64 \<Rightarrow> u64 list \<Rightarrow> nat set \<Rightarrow> 'a procs_scheme \<Rightarrow> bool" where
  "can_resume p pi ps K v \<longleftrightarrow> p < NPROC \<and> idle v \<and> state (ptab v p) = RUNNABLE \<and> procs_free v \<and> lock_free (LkPipe pi) v \<and>
     pipe_env pi (pagetable (ptab v p)) ps K v"

definition resumed :: "nat \<Rightarrow> 'a procs_scheme \<Rightarrow> 'a procs_scheme" where
  "resumed p v = upd_proc p (\<lambda>q. q\<lparr>state := RUNNING, chan := None\<rparr>) v"

lemma pipe_env_cong:
  "mem t = mem s \<Longrightarrow> freelist t = freelist s \<Longrightarrow> kend t = kend s \<Longrightarrow> mach_ok t = mach_ok s \<Longrightarrow> lock_free LkKmem t = lock_free LkKmem s \<Longrightarrow>
    pipe_env pi pt ps K t = pipe_env pi pt ps K s"
  by (simp add: pipe_env_def space_ok_def vm_ok_def kmem_ok_def)

lemma pipe_sleep:
  fixes s :: "'a procs_scheme"
  assumes w: "with_pipe p pi ps K s" and n: "noff (mycpu s) = 0" "p < NPROC"
  obtains t k where "sleep ch (LkPipe pi) (enter_cs (LkPipe pi) s) = Swtch t k" "pipe_asleep p pi ch (ptab s) t" "mem t = mem s"
    "\<And>v u k'. can_resume p pi ps K v \<Longrightarrow> sched_slot p v = Swtch u k' \<Longrightarrow>
       \<exists>s'. k u = Ok () (enter_cs (LkPipe pi) s') \<and> with_pipe p pi ps K s' \<and> noff (mycpu s') = 0 \<and> mem s' = mem v \<and> ptab s' = ptab (resumed p v)"
proof -
  note W = w [unfolded with_pipe_def]
  have r: "runs p s" using W n procs_freeD [of s p] by (simp add: runs_def)
  have l: "lock_free (LkPipe pi) s" using W by blast
  let ?t = "enter_cs (LkProc p) (upd_proc p (\<lambda>q. q\<lparr>chan := Some ch, state := SLEEPING\<rparr>) s)"
  let ?k = "\<lambda>u. and_then (release (LkProc p) (upd_proc p (chan_update (\<lambda>_. None)) (set_mycpu ((mycpu u)\<lparr>intena := sie (mycpu s)\<rparr>) u)))
      (\<lambda>_ s. acquire (LkPipe pi) s)"
  have e: "sleep ch (LkPipe pi) (enter_cs (LkPipe pi) s) = Swtch ?t ?k" by (rule sleep_eq [OF r l]) simp
  have a: "pipe_asleep p pi ch (ptab s) ?t" using handoff_enter_cs [of p "upd_proc p (\<lambda>q. q\<lparr>chan := Some ch, state := SLEEPING\<rparr>) s"] r l by (simp add: pipe_asleep_def)
  show ?thesis
  proof (rule that [OF e a])
    show "mem ?t = mem s" by simp
    fix v u k'
    assume c: "can_resume p pi ps K v" and u: "sched_slot p v = Swtch u k'"
    note C = c [unfolded can_resume_def]
    have f: "idle v" "lock_free (LkProc p) v" "state (ptab v p) = RUNNABLE" using C procs_freeD [of v p] by auto
    let ?v = "upd_proc p (state_update (\<lambda>_. RUNNING)) v"
    have u': "u = set_cproc (Some p) (enter_cs (LkProc p) ?v)" using sched_slot_run [OF f] u by simp
    have h: "handoff p u" unfolding u' by (rule handoff_set_cproc) (use f(1) in \<open>simp add: idle_def\<close>)
    let ?u = "upd_proc p (chan_update (\<lambda>_. None)) (set_mycpu ((mycpu u)\<lparr>intena := sie (mycpu s)\<rparr>) u)"
    let ?s = "leave_last (LkProc p) ?u"
    have rel: "release (LkProc p) ?u = Ok () ?s" by (rule release_last) (use h in \<open>simp_all add: handoff_def upd_proc_def\<close>)
    have lk: "lock_free x ?s = lock_free x v" if "x \<noteq> LkProc p" for x
      using that by (simp add: lock_free_def u' upd_proc_def set_cproc_def enter_cs_locks)
    have fr: "lock_free x ?s" if "lock_free x v" for x using that lk [of x] by (cases "x = LkProc p") simp_all
    have T: "ptab ?s = ptab (resumed p v)" by (simp add: u' resumed_def set_cproc_def)
    have m: "mem ?s = mem v" "freelist ?s = freelist v" "kend ?s = kend v"
      by (simp_all add: u' set_cproc_def leave_last_def set_mycpu_def)
    have "pipe_env pi (pagetable (ptab ?s p)) ps K ?s = pipe_env pi (pagetable (ptab v p)) ps K v"
      unfolding T by (subst pipe_env_cong [OF m]) (use f(1) lk in \<open>simp_all add: resumed_def idle_def\<close>)
    moreover have "cproc (mycpu ?s) = Some p" using h by (simp add: handoff_def)
    moreover have "procs_free ?s" using C fr by (simp add: procs_free_def)
    ultimately have "with_pipe p pi ps K ?s" using C fr by (simp add: with_pipe_def)
    moreover have "lock_free (LkPipe pi) ?s" using C fr by blast
    ultimately show "\<exists>s'. ?k u = Ok () (enter_cs (LkPipe pi) s') \<and> with_pipe p pi ps K s' \<and> noff (mycpu s') = 0 \<and> mem s' = mem v \<and> ptab s' = ptab (resumed p v)"
      using rel T m(1) by (intro exI [of _ ?s]) simp
  qed
qed

section \<open>Reading from outside\<close>

abbreviation read_tail :: "nat \<Rightarrow> u64 \<Rightarrow> u64 \<Rightarrow> nat \<Rightarrow> bool \<Rightarrow> 'a procs_scheme \<Rightarrow> (int, 'a procs_scheme) out" where
  "read_tail p pi addr N \<equiv> (\<lambda>go s. if \<not> go then Ok (- 1) s
     else and_then (piperead_loop p pi addr 0 N s) (\<lambda>i s.
          and_then (wakeup (Some (ChPipeWrite pi)) s) (\<lambda>_ s. and_then (release (LkPipe pi) s) (\<lambda>_ s. Ok (int i) s))))"

lemma piperead_eq:
  "with_pipe p pi ps K s \<Longrightarrow> piperead pi addr n s =
    and_then (piperead_wait WAKEUPS p pi (enter_cs (LkPipe pi) s)) (read_tail p pi addr (nat (sint n)))"
  by (simp add: piperead_def with_pipe_def)

text \<open>How many of the bytes that are there reach the user.\<close>

definition delivered :: "byte list \<Rightarrow> (u64 \<Rightarrow> byte option) \<Rightarrow> u64 \<Rightarrow> nat \<Rightarrow> nat \<Rightarrow> bool" where
  "delivered q ub addr N j \<longleftrightarrow> j \<le> min N (length q) \<and> (\<forall>l<j. ub (addr + of_nat l) \<noteq> None) \<and>
     (j < min N (length q) \<longrightarrow> ub (addr + of_nat j) = None)"

text \<open>The user's memory after \<open>j\<close> bytes of \<open>q\<close> have been copied to \<open>addr\<close>.\<close>

definition user_got :: "(u64 \<Rightarrow> byte option) \<Rightarrow> u64 \<Rightarrow> byte list \<Rightarrow> nat \<Rightarrow> u64 \<Rightarrow> byte option" where
  "user_got ub addr q j = (\<lambda>vb. if unat (vb - addr) < j then Some (q ! unat (vb - addr)) else ub vb)"

lemma read_now:
  fixes s :: "'a procs_scheme"
  assumes w: "with_pipe p pi ps K s" and N: "N < 2 ^ 32" and f: "0 < f"
  defines "q \<equiv> pipe_queue pi (mem s)" and "ub \<equiv> user_byte (mem s) (pagetable (ptab s p))"
  assumes r: "q \<noteq> [] \<or> snd (pipe_ctl pi (mem s)) = 0" and d: "delivered q ub addr N j"
  shows "\<exists>t. and_then (piperead_wait f p pi (enter_cs (LkPipe pi) s)) (read_tail p pi addr N) = Ok (int j) t \<and>
    pipe_end p pi ps K s (drop (min (Suc j) (min N (length q))) q) (user_got ub addr q j) (ChPipeWrite pi) t"
proof -
  note W = w [unfolded with_pipe_def]
  let ?s = "enter_cs (LkPipe pi) s" and ?pt = "pagetable (ptab s p)"
  note D = d [unfolded delivered_def]
  obtain g where f: "f = Suc g" using f by (cases f) auto
  have "pipe_get pi pipe_nread ?s = pipe_get pi pipe_nwrite ?s \<Longrightarrow> pipe_get pi pipe_writeopen ?s = 0"
    using r by (simp add: q_def pipe_queue_def pipe_ctl_def pipe_get_def)
  then have wait: "piperead_wait f p pi ?s = Ok True ?s" unfolding f by auto
  have "\<exists>m. piperead_loop p pi addr 0 N ?s = Ok (0 + j) (?s\<lparr>mem := m\<rparr>) \<and> pipe_env pi ?pt ps K (?s\<lparr>mem := m\<rparr>) \<and>
      pipe_queue pi m = drop (min (Suc j) (min N (length q))) (pipe_queue pi (mem ?s)) \<and> pipe_ctl pi m = pipe_ctl pi (mem ?s) \<and>
      (\<forall>vb. user_byte m ?pt vb = (if unat (vb - (addr + of_nat 0)) < j then Some (pipe_queue pi (mem ?s) ! unat (vb - (addr + of_nat 0)))
        else user_byte (mem ?s) ?pt vb))"
    by (rule piperead_loop_ok) (use W N D in \<open>auto simp: q_def ub_def\<close>)
  then obtain m where m: "piperead_loop p pi addr 0 N ?s = Ok j (?s\<lparr>mem := m\<rparr>)" "pipe_env pi ?pt ps K (?s\<lparr>mem := m\<rparr>)"
    "pipe_queue pi m = drop (min (Suc j) (min N (length q))) q" "pipe_ctl pi m = pipe_ctl pi (mem s)"
    "\<forall>vb. user_byte m ?pt vb = user_got ub addr q j vb" unfolding user_got_def q_def ub_def by auto
  from m(5) have "user_byte m ?pt = user_got ub addr q j" by (simp add: fun_eq_iff)
  note m = m(1-4) this
  show ?thesis using pipe_end_wake [OF w m(2-5), of "ChPipeWrite pi" "int j"] by (simp add: wait m(1))
qed

lemma read_waits:
  fixes s :: "'a procs_scheme"
  assumes "pipe_queue pi (mem s) = []" "snd (pipe_ctl pi (mem s)) \<noteq> 0"
  shows "piperead_wait (Suc f) p pi s = (if killed (ptab s p) \<noteq> 0 then and_then (release (LkPipe pi) s) (\<lambda>_ s. Ok False s)
     else and_then (sleep (ChPipeRead pi) (LkPipe pi) s) (\<lambda>_ s. piperead_wait f p pi s))"
  using assms by (simp add: pipe_queue_def pipe_ctl_def pipe_get_def)

lemma read_killed:
  fixes s :: "'a procs_scheme"
  assumes w: "with_pipe p pi ps K s" and r: "pipe_queue pi (mem s) = []" "snd (pipe_ctl pi (mem s)) \<noteq> 0" and k: "killed (ptab s p) \<noteq> 0" and f: "0 < f"
  shows "and_then (piperead_wait f p pi (enter_cs (LkPipe pi) s)) (read_tail p pi addr N) = Ok (- 1) (settle s)"
proof -
  obtain g where f: "f = Suc g" using f by (cases f) auto
  show ?thesis using w k read_waits [of pi "enter_cs (LkPipe pi) s" g p] r by (simp add: f with_pipe_def del: piperead_wait.simps)
qed

lemma read_sleeps:
  fixes s :: "'a procs_scheme"
  assumes w: "with_pipe p pi ps K s" and r: "pipe_queue pi (mem s) = []" "snd (pipe_ctl pi (mem s)) \<noteq> 0" and k: "killed (ptab s p) = 0"
    and n: "noff (mycpu s) = 0" "p < NPROC"
  obtains t k where "and_then (piperead_wait (Suc f) p pi (enter_cs (LkPipe pi) s)) (read_tail p pi addr N) = Swtch t k"
    "pipe_asleep p pi (ChPipeRead pi) (ptab s) t" "mem t = mem s"
    "\<And>v u k'. can_resume p pi ps K v \<Longrightarrow> sched_slot p v = Swtch u k' \<Longrightarrow>
       \<exists>s'. k u = and_then (piperead_wait f p pi (enter_cs (LkPipe pi) s')) (read_tail p pi addr N) \<and> with_pipe p pi ps K s' \<and> noff (mycpu s') = 0 \<and>
         mem s' = mem v \<and> ptab s' = ptab (resumed p v)"
proof -
  obtain t k1 where t: "sleep (ChPipeRead pi) (LkPipe pi) (enter_cs (LkPipe pi) s) = Swtch t k1" "pipe_asleep p pi (ChPipeRead pi) (ptab s) t" "mem t = mem s"
    and R: "\<And>v u k'. can_resume p pi ps K v \<Longrightarrow> sched_slot p v = Swtch u k' \<Longrightarrow>
       \<exists>s'. k1 u = Ok () (enter_cs (LkPipe pi) s') \<and> with_pipe p pi ps K s' \<and> noff (mycpu s') = 0 \<and> mem s' = mem v \<and> ptab s' = ptab (resumed p v)"
    by (rule pipe_sleep [OF w n, of "ChPipeRead pi"]) blast
  let ?k = "\<lambda>u. and_then (and_then (k1 u) (\<lambda>_ s. piperead_wait f p pi s)) (read_tail p pi addr N)"
  have e: "and_then (piperead_wait (Suc f) p pi (enter_cs (LkPipe pi) s)) (read_tail p pi addr N) = Swtch t ?k"
    using read_waits [of pi "enter_cs (LkPipe pi) s" f p] r k t(1) by (simp del: piperead_wait.simps)
  show ?thesis by (rule that [OF e t(2,3)]) (use R in fastforce)
qed

section \<open>Writing\<close>

lemma pipe_copyin:
  assumes "pipe_env pi pt ps K s"
  shows "user_byte (mem s) pt va = Some b \<Longrightarrow> copyin pt va 1 s = Ok (0, [b]) s" "user_byte (mem s) pt va = None \<Longrightarrow> \<exists>bs. copyin pt va 1 s = Ok (- 1, bs) s"
proof -
  have "vm_ok s pt ps" using assms(1) by (simp add: pipe_env_def space_ok_def)
  then obtain r bs where c: "copyin pt va 1 s = Ok (r, bs) s" "copied (mem s) pt va 1 r bs" using copyin_copied by blast
  show "copyin pt va 1 s = Ok (0, [b]) s" if "user_byte (mem s) pt va = Some b" using c that by (cases bs) (auto simp: copied_def)
  show "\<exists>bs. copyin pt va 1 s = Ok (- 1, bs) s" if "user_byte (mem s) pt va = None" using c that by (cases bs) (auto simp: copied_def)
qed

text \<open>The loop of \<^verbatim>\<open>pipewrite\<close> stores bytes while there is room.\<close>

lemma pipewrite_fill:
  fixes s :: "'a procs_scheme"
  assumes "pipe_env pi pt ps K s" "pagetable (ptab s pr) = pt" "killed (ptab s pr) = 0" "fst (pipe_ctl pi (mem s)) \<noteq> 0"
    and "i + length bs \<le> n" "length (pipe_queue pi (mem s)) + length bs \<le> PIPESIZE"
    and "\<And>j. j < length bs \<Longrightarrow> user_byte (mem s) pt (addr + of_nat (i + j)) = Some (bs ! j)"
  shows "\<exists>m'. pipewrite_loop (length bs + f) pr pi addr i n s = pipewrite_loop f pr pi addr (i + length bs) n (s\<lparr>mem := m'\<rparr>) \<and>
    pipe_env pi pt ps K (s\<lparr>mem := m'\<rparr>) \<and> pipe_queue pi m' = pipe_queue pi (mem s) @ bs \<and>
    pipe_ctl pi m' = pipe_ctl pi (mem s) \<and> user_byte m' pt = user_byte (mem s) pt"
  using assms
proof (induction bs arbitrary: i s)
  case Nil
  then show ?case by (intro exI [of _ "mem s"]) simp
next
  case (Cons b bs)
  let ?q = "pipe_queue pi (mem s)" and ?r = "ld32 (mem s) (pi + pipe_nread)" and ?w = "ld32 (mem s) (pi + pipe_nwrite)"
  have room: "length ?q < PIPESIZE" using Cons.prems(6) by simp
  then have full: "?w \<noteq> ?r + of_nat PIPESIZE" using pq.ring_full [of ?w ?r] by (simp add: pipe_queue_def)
  define m1 where "m1 = (st32 (mem s) (pi + pipe_nwrite) (?w + 1))(pipe_slot pi ?w := b)"
  let ?s = "s\<lparr>mem := m1\<rparr>"
  have off: "m1 x = mem s x" if "x \<notin> page pi" for x using pipe_writes_inside [OF that] by (simp add: m1_def)
  have q: "pipe_queue pi m1 = ?q @ [b]" unfolding m1_def by (rule pipe_queue_push [OF room])
  have ctl: "pipe_ctl pi m1 = pipe_ctl pi (mem s)"
    by (simp add: m1_def pipe_ctl_def pipe_slot_def pipe_store(2) [OF slot_small])
  note e = pipe_env_store [OF Cons.prems(1), of m1, OF off]
  have u: "user_byte m1 pt (addr + of_nat (Suc i + j)) = Some (bs ! j)" if "j < length bs" for j
    using Cons.prems(7) [of "Suc j"] that e(2) by simp
  obtain m' where m': "pipewrite_loop (length bs + f) pr pi addr (Suc i) n ?s = pipewrite_loop f pr pi addr (Suc i + length bs) n (?s\<lparr>mem := m'\<rparr>)"
    "pipe_env pi pt ps K (?s\<lparr>mem := m'\<rparr>)" "pipe_queue pi m' = (?q @ [b]) @ bs" "pipe_ctl pi m' = pipe_ctl pi (mem s)"
    "user_byte m' pt = user_byte (mem s) pt"
    using Cons.IH [of ?s "Suc i"] Cons.prems(2-6) e q ctl u by auto
  have "copyin pt (addr + of_nat i) 1 s = Ok (0, [b]) s"
    by (rule pipe_copyin(1) [OF Cons.prems(1)]) (use Cons.prems(7) [of 0] in simp)
  then have "pipewrite_loop (length (b # bs) + f) pr pi addr i n s = pipewrite_loop (length bs + f) pr pi addr (Suc i) n ?s"
    using full Cons.prems(2-5) by (simp add: pipe_get_def pipe_set_def pipe_ctl_def Let_def m1_def)
  then show ?case using m' by (intro exI [of _ m']) simp
qed

abbreviation write_tail :: "u64 \<Rightarrow> nat option \<Rightarrow> 'a procs_scheme \<Rightarrow> (int, 'a procs_scheme) out" where
  "write_tail pi \<equiv> (\<lambda>r s. case r of None \<Rightarrow> Ok (- 1) s
     | Some i \<Rightarrow> and_then (wakeup (Some (ChPipeRead pi)) s) (\<lambda>_ s. and_then (release (LkPipe pi) s) (\<lambda>_ s. Ok (int i) s)))"

lemma pipewrite_eq:
  "with_pipe p pi ps K s \<Longrightarrow> pipewrite pi addr n s =
    and_then (pipewrite_loop (Suc (nat (sint n) + WAKEUPS)) p pi addr 0 (nat (sint n)) (enter_cs (LkPipe pi) s)) (write_tail pi)"
  by (simp add: pipewrite_def with_pipe_def del: pipewrite_loop.simps)

text \<open>The bytes at \<open>addr\<close> that are written at most, up to \<open>N\<close> or to an inaccessible address.\<close>

definition offered :: "(u64 \<Rightarrow> byte option) \<Rightarrow> u64 \<Rightarrow> nat \<Rightarrow> byte list \<Rightarrow> bool" where
  "offered ub addr N bs \<longleftrightarrow> (\<forall>j<length bs. ub (addr + of_nat j) = Some (bs ! j)) \<and>
     (length bs = N \<or> length bs < N \<and> ub (addr + of_nat (length bs)) = None)"

lemma write_stops:
  fixes s :: "'a procs_scheme"
  assumes w: "with_pipe p pi ps K s" and c: "killed (ptab s p) \<noteq> 0 \<or> fst (pipe_ctl pi (mem s)) = 0" and i: "i < N" and f: "0 < f"
  shows "and_then (pipewrite_loop f p pi addr i N (enter_cs (LkPipe pi) s)) (write_tail pi) = Ok (- 1) (settle s)"
proof -
  obtain g where f: "f = Suc g" using f by (cases f) auto
  show ?thesis using w c i by (auto simp: f with_pipe_def pipe_ctl_def pipe_get_def)
qed

lemma write_room:
  fixes s :: "'a procs_scheme"
  assumes w: "with_pipe p pi ps K s" and k: "killed (ptab s p) = 0" "fst (pipe_ctl pi (mem s)) \<noteq> 0"
  defines "q \<equiv> pipe_queue pi (mem s)" and "ub \<equiv> user_byte (mem s) (pagetable (ptab s p))"
  assumes o: "offered ub (addr + of_nat i) (N - i) bs" "i \<le> N" and f: "length bs < f"
    and room: "length q + length bs \<le> PIPESIZE" "i + length bs < N \<Longrightarrow> length q + length bs < PIPESIZE"
  shows "\<exists>t. and_then (pipewrite_loop f p pi addr i N (enter_cs (LkPipe pi) s)) (write_tail pi) = Ok (int (i + length bs)) t \<and>
    pipe_end p pi ps K s (q @ bs) ub (ChPipeRead pi) t"
proof -
  note W = w [unfolded with_pipe_def] and O = o(1) [unfolded offered_def]
  let ?s = "enter_cs (LkPipe pi) s" and ?pt = "pagetable (ptab s p)"
  obtain g where f: "f = length bs + Suc g" using f by (metis add_Suc_right less_iff_Suc_add)
  have a: "addr + of_nat (i + j) = addr + of_nat i + (of_nat j :: u64)" for j by (simp add: add.assoc)
  have le: "i + length bs \<le> N" using O o(2) by auto
  have "\<exists>m. pipewrite_loop (length bs + Suc g) p pi addr i N ?s = pipewrite_loop (Suc g) p pi addr (i + length bs) N (?s\<lparr>mem := m\<rparr>) \<and>
      pipe_env pi ?pt ps K (?s\<lparr>mem := m\<rparr>) \<and> pipe_queue pi m = pipe_queue pi (mem ?s) @ bs \<and>
      pipe_ctl pi m = pipe_ctl pi (mem ?s) \<and> user_byte m ?pt = user_byte (mem ?s) ?pt"
    by (rule pipewrite_fill) (use W k O room le in \<open>auto simp: q_def ub_def a add.assoc\<close>)
  then obtain m where m: "pipewrite_loop f p pi addr i N ?s = pipewrite_loop (Suc g) p pi addr (i + length bs) N (?s\<lparr>mem := m\<rparr>)"
    "pipe_env pi ?pt ps K (?s\<lparr>mem := m\<rparr>)" "pipe_queue pi m = q @ bs" "pipe_ctl pi m = pipe_ctl pi (mem s)" "user_byte m ?pt = ub"
    by (auto simp: f q_def ub_def)
  have "pipewrite_loop (Suc g) p pi addr (i + length bs) N (?s\<lparr>mem := m\<rparr>) = Ok (Some (i + length bs)) (?s\<lparr>mem := m\<rparr>)"
  proof (cases "i + length bs < N")
    case False
    then show ?thesis by simp
  next
    case True
    then have "user_byte (mem (?s\<lparr>mem := m\<rparr>)) ?pt (addr + of_nat (i + length bs)) = None" using O m(5) a by (auto simp: add.assoc)
    then obtain c where "copyin ?pt (addr + of_nat (i + length bs)) 1 (?s\<lparr>mem := m\<rparr>) = Ok (- 1, c) (?s\<lparr>mem := m\<rparr>)"
      using pipe_copyin(2) [OF m(2)] by blast
    moreover have "ld32 m (pi + pipe_nwrite) \<noteq> ld32 m (pi + pipe_nread) + of_nat PIPESIZE"
      using pq.ring_full [of "ld32 m (pi + pipe_nwrite)" "ld32 m (pi + pipe_nread)"] arg_cong [OF m(3), of length] room(2) [OF True]
      by (simp add: pipe_queue_def)
    moreover have "ld32 m (pi + pipe_readopen) \<noteq> 0" using m(4) k(2) by (simp add: pipe_ctl_def)
    ultimately show ?thesis using True k(1) by (simp add: pipe_get_def)
  qed
  then show ?thesis using pipe_end_wake [OF w m(2-5), of "ChPipeRead pi" "int (i + length bs)"] m(1) by (simp del: pipewrite_loop.simps)
qed

lemma write_sleeps:
  fixes s :: "'a procs_scheme"
  assumes w: "with_pipe p pi ps K s" and k: "killed (ptab s p) = 0" "fst (pipe_ctl pi (mem s)) \<noteq> 0" and n: "noff (mycpu s) = 0" "p < NPROC"
  defines "q \<equiv> pipe_queue pi (mem s)" and "ub \<equiv> user_byte (mem s) (pagetable (ptab s p))"
  assumes u: "\<And>j. j < length bs \<Longrightarrow> ub (addr + of_nat (i + j)) = Some (bs ! j)" and full: "length q + length bs = PIPESIZE" and i: "i + length bs < N"
  obtains t k where "and_then (pipewrite_loop (length bs + Suc f) p pi addr i N (enter_cs (LkPipe pi) s)) (write_tail pi) = Swtch t k"
    "pipe_asleep p pi (ChPipeWrite pi) (woken (Some (ChPipeRead pi)) (Some p) {..<NPROC} (ptab s)) t"
    "pipe_queue pi (mem t) = q @ bs" "pipe_ctl pi (mem t) = pipe_ctl pi (mem s)" "user_byte (mem t) (pagetable (ptab s p)) = ub"
    "\<And>v u k'. can_resume p pi ps K v \<Longrightarrow> sched_slot p v = Swtch u k' \<Longrightarrow>
       \<exists>s'. k u = and_then (pipewrite_loop f p pi addr (i + length bs) N (enter_cs (LkPipe pi) s')) (write_tail pi) \<and>
         with_pipe p pi ps K s' \<and> noff (mycpu s') = 0 \<and> mem s' = mem v \<and> ptab s' = ptab (resumed p v)"
proof -
  note W = w [unfolded with_pipe_def]
  let ?s = "enter_cs (LkPipe pi) s" and ?pt = "pagetable (ptab s p)" and ?T = "woken (Some (ChPipeRead pi)) (Some p) {..<NPROC} (ptab s)"
  have "\<exists>m. pipewrite_loop (length bs + Suc f) p pi addr i N ?s = pipewrite_loop (Suc f) p pi addr (i + length bs) N (?s\<lparr>mem := m\<rparr>) \<and>
      pipe_env pi ?pt ps K (?s\<lparr>mem := m\<rparr>) \<and> pipe_queue pi m = pipe_queue pi (mem ?s) @ bs \<and>
      pipe_ctl pi m = pipe_ctl pi (mem ?s) \<and> user_byte m ?pt = user_byte (mem ?s) ?pt"
    by (rule pipewrite_fill) (use W k u full i in \<open>auto simp: q_def ub_def\<close>)
  then obtain m where m: "pipewrite_loop (length bs + Suc f) p pi addr i N ?s = pipewrite_loop (Suc f) p pi addr (i + length bs) N (?s\<lparr>mem := m\<rparr>)"
    "pipe_env pi ?pt ps K (?s\<lparr>mem := m\<rparr>)" "pipe_queue pi m = q @ bs" "pipe_ctl pi m = pipe_ctl pi (mem s)" "user_byte m ?pt = ub"
    by (auto simp: q_def ub_def)
  let ?s1 = "settle (s\<lparr>mem := m, ptab := ?T\<rparr>)"
  have Tp: "?T p = ptab s p" by (simp add: woken_def)
  have w1: "with_pipe p pi ps K ?s1" using W m(2) Tp by (simp add: with_pipe_def pipe_env_def)
  have wk: "wakeup (Some (ChPipeRead pi)) (?s\<lparr>mem := m\<rparr>) = Ok () (enter_cs (LkPipe pi) ?s1)"
    using W wakeup_eq [of "enter_cs (LkPipe pi) (s\<lparr>mem := m\<rparr>)" "Some (ChPipeRead pi)"] by simp
  obtain t k1 where t: "sleep (ChPipeWrite pi) (LkPipe pi) (enter_cs (LkPipe pi) ?s1) = Swtch t k1" "pipe_asleep p pi (ChPipeWrite pi) (ptab ?s1) t" "mem t = mem ?s1"
    and R: "\<And>v u k'. can_resume p pi ps K v \<Longrightarrow> sched_slot p v = Swtch u k' \<Longrightarrow>
       \<exists>s'. k1 u = Ok () (enter_cs (LkPipe pi) s') \<and> with_pipe p pi ps K s' \<and> noff (mycpu s') = 0 \<and> mem s' = mem v \<and> ptab s' = ptab (resumed p v)"
    by (rule pipe_sleep [OF w1, of "ChPipeWrite pi"]) (use n in auto)
  have "ld32 m (pi + pipe_nwrite) = ld32 m (pi + pipe_nread) + of_nat PIPESIZE"
    using pq.ring_full [of "ld32 m (pi + pipe_nwrite)" "ld32 m (pi + pipe_nread)"] arg_cong [OF m(3), of length] full
    by (simp add: pipe_queue_def)
  moreover have "ld32 m (pi + pipe_readopen) \<noteq> 0" using m(4) k(2) by (simp add: pipe_ctl_def)
  ultimately have l: "pipewrite_loop (Suc f) p pi addr (i + length bs) N (?s\<lparr>mem := m\<rparr>) =
      Swtch t (\<lambda>u. and_then (k1 u) (\<lambda>_ s. pipewrite_loop f p pi addr (i + length bs) N s))"
    using i k(1) wk t(1) by (simp add: pipe_get_def)
  let ?k = "\<lambda>u. and_then (and_then (k1 u) (\<lambda>_ s. pipewrite_loop f p pi addr (i + length bs) N s)) (write_tail pi)"
  have e: "and_then (pipewrite_loop (length bs + Suc f) p pi addr i N ?s) (write_tail pi) = Swtch t ?k" unfolding m(1) l by simp
  show ?thesis by (rule that [OF e]) (use t m R in \<open>auto simp del: pipewrite_loop.simps, fastforce\<close>)
qed

end
