(* ===== verification/Pipe_Properties.thy ===== *)
theory Pipe_Properties
  imports Pipe_Facts Vm_Properties
begin

text \<open>The contract of pipes, \<^verbatim>\<open>kernel/pipe.c\<close>, as operations on a bounded queue of bytes.\<close>

section \<open>The abstract operations\<close>

text \<open>
  What a write of \<open>N\<close> bytes at \<open>addr\<close>, with \<open>i\<close> of them done, gives in a state \<open>s\<close> in which it need not wait: -1 if the reader is gone or the
  caller is killed; otherwise the bytes join the queue, all of them or those before the first inaccessible address, and the readers are woken.
\<close>

definition writes ::
  "nat \<Rightarrow> u64 \<Rightarrow> u64 list \<Rightarrow> nat set \<Rightarrow> u64 \<Rightarrow> nat \<Rightarrow> nat \<Rightarrow> 'a procs_scheme \<Rightarrow> (int, 'a procs_scheme) out \<Rightarrow> bool" where
  "writes p pi ps K addr i N s r \<longleftrightarrow>
     (let q = pipe_queue pi (mem s); ub = user_byte (mem s) (pagetable (ptab s p)); stop = (killed (ptab s p) \<noteq> 0 \<or> fst (pipe_ctl pi (mem s)) = 0)
      in (i < N \<and> stop \<longrightarrow> r = Ok (- 1) (settle s)) \<and>
         (\<forall>bs. \<not> stop \<and> offered ub (addr + of_nat i) (N - i) bs \<and> length q + length bs \<le> PIPESIZE \<and>
            (i + length bs = N \<or> length q + length bs < PIPESIZE) \<longrightarrow>
            (\<exists>t. r = Ok (int (i + length bs)) t \<and> pipe_end p pi ps K s (q @ bs) ub (ChPipeRead pi) t)))"

text \<open>
  What a read of up to \<open>N\<close> bytes gives in a state in which it need not wait: the front of the queue goes to the user, and the
  writers are woken; at the end of the file that is nothing.  A killed process that would have to wait gets -1.
\<close>

definition reads ::
  "nat \<Rightarrow> u64 \<Rightarrow> u64 list \<Rightarrow> nat set \<Rightarrow> u64 \<Rightarrow> nat \<Rightarrow> 'a procs_scheme \<Rightarrow> (int, 'a procs_scheme) out \<Rightarrow> bool" where
  "reads p pi ps K addr N s r \<longleftrightarrow>
     (let q = pipe_queue pi (mem s); ub = user_byte (mem s) (pagetable (ptab s p)); eof = (snd (pipe_ctl pi (mem s)) = 0)
      in (\<forall>j. (q \<noteq> [] \<or> eof) \<and> delivered q ub addr N j \<longrightarrow>
            (\<exists>t. r = Ok (int j) t \<and> pipe_end p pi ps K s (drop (min (Suc j) (min N (length q))) q) (user_got ub addr q j) (ChPipeWrite pi) t)) \<and>
         (q = [] \<and> \<not> eof \<and> killed (ptab s p) \<noteq> 0 \<longrightarrow> r = Ok (- 1) (settle s)))"

text \<open>A sleeping call goes on like \<open>G\<close> when a scheduler picks the process up in a state \<open>v\<close>.\<close>

definition goes_on ::
  "nat \<Rightarrow> u64 \<Rightarrow> u64 list \<Rightarrow> nat set \<Rightarrow> ('a procs_scheme \<Rightarrow> (int, 'a procs_scheme) out) \<Rightarrow> ('a procs_scheme \<Rightarrow> (int, 'a procs_scheme) out \<Rightarrow> bool) \<Rightarrow> bool" where
  "goes_on p pi ps K k G \<longleftrightarrow> (\<forall>v u k'. can_resume p pi ps K v \<and> sched_slot p v = Swtch u k' \<longrightarrow>
     (\<exists>s'. with_pipe p pi ps K s' \<and> noff (mycpu s') = 0 \<and> mem s' = mem v \<and> ptab s' = ptab (resumed p v) \<and> G s' (k u)))"

section \<open>The routines\<close>

lemma writes_loop:
  fixes s :: "'a procs_scheme"
  assumes w: "with_pipe p pi ps K s" and f: "N - i < f" "i \<le> N"
  shows "writes p pi ps K addr i N s (and_then (pipewrite_loop f p pi addr i N (enter_cs (LkPipe pi) s)) (write_tail pi))"
proof -
  let ?q = "pipe_queue pi (mem s)" and ?ub = "user_byte (mem s) (pagetable (ptab s p))"
  have "\<exists>t. and_then (pipewrite_loop f p pi addr i N (enter_cs (LkPipe pi) s)) (write_tail pi) = Ok (int (i + length bs)) t \<and>
      pipe_end p pi ps K s (?q @ bs) ?ub (ChPipeRead pi) t"
    if "killed (ptab s p) = 0" "fst (pipe_ctl pi (mem s)) \<noteq> 0" "offered ?ub (addr + of_nat i) (N - i) bs" "length ?q + length bs \<le> PIPESIZE"
      "i + length bs = N \<or> length ?q + length bs < PIPESIZE" for bs
  proof (rule write_room [OF w that(1-3) f(2) _ that(4)])
    show "length bs < f" using that(3) f by (auto simp: offered_def)
  qed (use that(5) in auto)
  then show ?thesis using write_stops [OF w] f by (auto simp: writes_def Let_def simp del: pipewrite_loop.simps)
qed

lemma reads_loop:
  fixes s :: "'a procs_scheme"
  assumes w: "with_pipe p pi ps K s" and f: "0 < f" "N < 2 ^ 32"
  shows "reads p pi ps K addr N s (and_then (piperead_wait f p pi (enter_cs (LkPipe pi) s)) (read_tail p pi addr N))"
  using read_now [OF w f(2,1)] read_killed [OF w _ _ _ f(1)] by (auto simp: reads_def Let_def simp del: piperead_wait.simps)

lemma nat_sint: "nat (sint (n :: i32)) < 2 ^ 32"
  using sint_lt [of n] by simp

lemma pipewrite_waits:
  fixes s :: "'a procs_scheme" and n :: i32
  assumes w: "with_pipe p pi ps K s" and k: "killed (ptab s p) = 0" "fst (pipe_ctl pi (mem s)) \<noteq> 0" and n: "noff (mycpu s) = 0" "p < NPROC"
  defines "q \<equiv> pipe_queue pi (mem s)" and "ub \<equiv> user_byte (mem s) (pagetable (ptab s p))" and "N \<equiv> nat (sint n)"
  assumes u: "\<And>j. j < length bs \<Longrightarrow> ub (addr + of_nat j) = Some (bs ! j)" and full: "length q + length bs = PIPESIZE" and i: "length bs < N"
  shows "\<exists>t k. pipewrite pi addr n s = Swtch t k \<and>
    pipe_asleep p pi (ChPipeWrite pi) (woken (Some (ChPipeRead pi)) (Some p) {..<NPROC} (ptab s)) t \<and>
    pipe_queue pi (mem t) = q @ bs \<and> pipe_ctl pi (mem t) = pipe_ctl pi (mem s) \<and> user_byte (mem t) (pagetable (ptab s p)) = ub \<and>
    goes_on p pi ps K k (writes p pi ps K addr (length bs) N)"
proof -
  define f where "f = N + WAKEUPS - length bs"
  have f: "Suc (N + WAKEUPS) = length bs + Suc f" "N - length bs < f" using i by (auto simp: f_def WAKEUPS_def)
  obtain t k1 where t: "and_then (pipewrite_loop (length bs + Suc f) p pi addr 0 N (enter_cs (LkPipe pi) s)) (write_tail pi) = Swtch t k1"
    "pipe_asleep p pi (ChPipeWrite pi) (woken (Some (ChPipeRead pi)) (Some p) {..<NPROC} (ptab s)) t"
    "pipe_queue pi (mem t) = q @ bs" "pipe_ctl pi (mem t) = pipe_ctl pi (mem s)" "user_byte (mem t) (pagetable (ptab s p)) = ub"
    and R: "\<And>v u k'. can_resume p pi ps K v \<Longrightarrow> sched_slot p v = Swtch u k' \<Longrightarrow>
       \<exists>s'. k1 u = and_then (pipewrite_loop f p pi addr (0 + length bs) N (enter_cs (LkPipe pi) s')) (write_tail pi) \<and>
         with_pipe p pi ps K s' \<and> noff (mycpu s') = 0 \<and> mem s' = mem v \<and> ptab s' = ptab (resumed p v)"
    by (rule write_sleeps [OF w k n, of bs addr 0 N f]) (use u full i in \<open>auto simp: q_def ub_def\<close>)
  have "goes_on p pi ps K k1 (writes p pi ps K addr (length bs) N)"
    unfolding goes_on_def using R writes_loop [OF _ f(2), of p pi ps K _ addr] i by fastforce
  then show ?thesis using t pipewrite_eq [OF w, of addr n] by (simp add: N_def [symmetric] f(1) del: pipewrite_loop.simps)
qed

lemma piperead_waits:
  fixes s :: "'a procs_scheme" and n :: i32
  assumes w: "with_pipe p pi ps K s" and r: "pipe_queue pi (mem s) = []" "snd (pipe_ctl pi (mem s)) \<noteq> 0" and k: "killed (ptab s p) = 0"
    and n: "noff (mycpu s) = 0" "p < NPROC"
  shows "\<exists>t k. piperead pi addr n s = Swtch t k \<and> pipe_asleep p pi (ChPipeRead pi) (ptab s) t \<and> mem t = mem s \<and>
    goes_on p pi ps K k (reads p pi ps K addr (nat (sint n)))"
proof -
  obtain f where f: "WAKEUPS = Suc f" "0 < f" by (rule that [of 999]) (simp_all add: WAKEUPS_def)
  obtain t k1 where t: "and_then (piperead_wait (Suc f) p pi (enter_cs (LkPipe pi) s)) (read_tail p pi addr (nat (sint n))) = Swtch t k1"
    "pipe_asleep p pi (ChPipeRead pi) (ptab s) t" "mem t = mem s"
    and R: "\<And>v u k'. can_resume p pi ps K v \<Longrightarrow> sched_slot p v = Swtch u k' \<Longrightarrow>
       \<exists>s'. k1 u = and_then (piperead_wait f p pi (enter_cs (LkPipe pi) s')) (read_tail p pi addr (nat (sint n))) \<and> with_pipe p pi ps K s' \<and> noff (mycpu s') = 0 \<and>
         mem s' = mem v \<and> ptab s' = ptab (resumed p v)"
    by (rule read_sleeps [OF w r k n, of f addr "nat (sint n)"]) blast
  have "goes_on p pi ps K k1 (reads p pi ps K addr (nat (sint n)))"
    unfolding goes_on_def using R reads_loop [OF _ f(2) nat_sint, of p pi ps K _ addr n] by fastforce
  then show ?thesis using t piperead_eq [OF w, of addr n] by (simp add: f(1) del: piperead_wait.simps)
qed

text \<open>
  Claim C11. A pipe is a queue of at most \<^verbatim>\<open>PIPESIZE\<close> bytes, also when its 32-bit counters wrap around.
  \<^verbatim>\<open>pipewrite\<close>: with \<open>n\<close> positive, when the read end is closed or the caller has been killed it returns -1 and changes nothing.  Bytes for which there is room are appended, all
  \<open>n\<close> or those before the first inaccessible address, and their number is returned.  If the pipe fills up before, exactly the bytes that fit
  are appended, the readers are woken, and the caller sleeps with the lock free; picked up later, it writes the rest in the same way if it need not wait again.
  \<^verbatim>\<open>piperead\<close>: when the queue is not empty or the write end is closed, the bytes from the front of the queue, at most \<open>n\<close>, go to the
  user's buffer in order and their number is returned, 0 at the end of the file; a byte that meets an inaccessible address is taken from the queue and lost.
  When the queue is empty and the write end open, a killed caller gets -1 with no change, and any other sleeps with the lock free and
  the pipe as it was, and later reads in the same way if it need not wait again.  Each call that returns has released the lock, has woken exactly the processes that sleep at the other
  end, has changed no other byte of the user, and leaves the pipe apart from the memory of the process.
\<close>
theorem pipe_is_queue:
  fixes s :: "'a procs_scheme" and pi :: u64 and n :: i32 and addr :: u64
  assumes w: "with_pipe p pi ps K s" and n: "noff (mycpu s) = 0" "p < NPROC"
  defines "q \<equiv> pipe_queue pi (mem s)" and "ub \<equiv> user_byte (mem s) (pagetable (ptab s p))" and "N \<equiv> nat (sint n)"
  shows "writes p pi ps K addr 0 N s (pipewrite pi addr n s) \<and>
    (\<forall>bs. killed (ptab s p) = 0 \<and> fst (pipe_ctl pi (mem s)) \<noteq> 0 \<and> length q + length bs = PIPESIZE \<and> length bs < N \<and>
        (\<forall>j<length bs. ub (addr + of_nat j) = Some (bs ! j)) \<longrightarrow>
        (\<exists>t k. pipewrite pi addr n s = Swtch t k \<and>
          pipe_asleep p pi (ChPipeWrite pi) (woken (Some (ChPipeRead pi)) (Some p) {..<NPROC} (ptab s)) t \<and>
          pipe_queue pi (mem t) = q @ bs \<and> pipe_ctl pi (mem t) = pipe_ctl pi (mem s) \<and> user_byte (mem t) (pagetable (ptab s p)) = ub \<and>
          goes_on p pi ps K k (writes p pi ps K addr (length bs) N))) \<and>
    reads p pi ps K addr N s (piperead pi addr n s) \<and>
    (q = [] \<and> snd (pipe_ctl pi (mem s)) \<noteq> 0 \<and> killed (ptab s p) = 0 \<longrightarrow>
        (\<exists>t k. piperead pi addr n s = Swtch t k \<and> pipe_asleep p pi (ChPipeRead pi) (ptab s) t \<and> mem t = mem s \<and>
          goes_on p pi ps K k (reads p pi ps K addr N)))"
proof -
  have "writes p pi ps K addr 0 N s (pipewrite pi addr n s)"
    unfolding N_def pipewrite_eq [OF w] by (rule writes_loop [OF w]) auto
  moreover have "reads p pi ps K addr N s (piperead pi addr n s)"
    unfolding N_def piperead_eq [OF w] by (rule reads_loop [OF w _ nat_sint]) (simp add: WAKEUPS_def)
  ultimately show ?thesis
    using pipewrite_waits [OF w _ _ n, of _ addr] piperead_waits [OF w _ _ _ n, of addr] by (simp add: q_def ub_def N_def)
qed

text \<open>A process with one page of memory, and an empty pipe open at both ends.\<close>

definition pipe_mem :: memory where
  "pipe_mem = st32 (st32 demo_mem (0x80006000 + pipe_readopen) 1) (0x80006000 + pipe_writeopen) 1"

definition demo_pipe :: procs where
  "demo_pipe = (demo_procs (Some 0) (\<lambda>_. demo_proc\<lparr>pagetable := 0x80001000\<rparr>))\<lparr>kend := 0x80000000, mem := pipe_mem\<rparr>"

lemma demo_pipe_simps:
  "mach_ok demo_pipe" "lock_free lk demo_pipe" "procs_free demo_pipe" "cproc (mycpu demo_pipe) = Some 0"
  "ptab demo_pipe p = demo_proc\<lparr>pagetable := 0x80001000\<rparr>" "freelist demo_pipe = 0" "kend demo_pipe = 0x80000000"
  by (simp_all add: demo_pipe_def demo_procs_def mach_ok_def cpu_ok_def mycpu_def cpuid_def lock_free_def procs_free_def)

lemma pipe_mem_fields:
  "ld32 pipe_mem (0x80006000 + pipe_nread) = 0" "ld32 pipe_mem (0x80006000 + pipe_nwrite) = 0"
  "ld32 pipe_mem (0x80006000 + pipe_readopen) = 1" "ld32 pipe_mem (0x80006000 + pipe_writeopen) = 1"
proof -
  let ?pi = "0x80006000 :: u64"
  have "replicate 4 0 = [0, 0, 0, 0 :: byte]" by (simp add: numeral_eq_Suc)
  then have z: "ld32 (\<lambda>_. 0) a = 0" for a by (simp add: ld32_def rd_def map_replicate_const)
  have "demo_mem (?pi + of_nat k) = 0" if "k < 4096" for k
    by (rule demo_zero_page, rule in_pipe_page [of _ ?pi k 1]) (use that in auto)
  then have d: "ld32 demo_mem (?pi + of_nat k) = 0" if "k < 4000" for k
    using ld32_cong [of demo_mem "?pi + of_nat k" "\<lambda>_. 0"] z that by (simp add: add.assoc flip: of_nat_add)
  show "ld32 pipe_mem (?pi + pipe_nread) = 0" "ld32 pipe_mem (?pi + pipe_nwrite) = 0"
    using d [of 536] d [of 540] ld32_st32_other [of 536 548 _ ?pi] ld32_st32_other [of 536 544 _ ?pi]
      ld32_st32_other [of 540 548 _ ?pi] ld32_st32_other [of 540 544 _ ?pi] by (simp_all add: pipe_mem_def pipe_offsets)
  show "ld32 pipe_mem (?pi + pipe_readopen) = 1" "ld32 pipe_mem (?pi + pipe_writeopen) = 1"
    using ld32_st32_other [of 544 548 _ ?pi] by (simp_all add: pipe_mem_def pipe_offsets ld32_st32_same)
qed

lemma demo_pipe_ok: "with_pipe 0 0x80006000 [] {0} demo_pipe" "pipe_queue 0x80006000 (mem demo_pipe) = []"
  "pipe_ctl 0x80006000 (mem demo_pipe) = (1, 1)" "user_byte (mem demo_pipe) 0x80001000 = user_byte demo_mem 0x80001000"
proof -
  let ?pi = "0x80006000 :: u64"
  let ?s = "demo_pipe\<lparr>mem := demo_mem\<rparr>"
  have km: "kmem_ok ?s []" by (simp add: kmem_ok_def demo_pipe_simps)
  have ok: "space_ok ?s 0x80001000 [] {0}"
    by (rule space_ok_frame(1) [OF demo_space(1) km]) (simp_all add: demo_state_def demo_pipe_def)
  have e: "pipe_env ?pi 0x80001000 [] {0} ?s"
    using ok demo_space(2,5) by (simp add: pipe_env_def aligned_def)
  have off: "pipe_mem x = mem ?s x" if "x \<notin> page ?pi" for x
    using in_pipe_page [of x ?pi 544 4] in_pipe_page [of x ?pi 548 4] that by (auto simp: pipe_mem_def st32_def wr_def pipe_offsets)
  have d: "?s\<lparr>mem := pipe_mem\<rparr> = demo_pipe" "mem demo_pipe = pipe_mem" by (simp_all add: demo_pipe_def)
  note P = pipe_env_store [OF e off, unfolded d(1)]
  show "with_pipe 0 ?pi [] {0} demo_pipe" using P(1) by (simp add: with_pipe_def demo_pipe_simps)
  show "pipe_queue ?pi (mem demo_pipe) = []" by (simp add: pipe_queue_def d(2) pipe_mem_fields)
  show "pipe_ctl ?pi (mem demo_pipe) = (1, 1)" by (simp add: pipe_ctl_def d(2) pipe_mem_fields)
  show "user_byte (mem demo_pipe) 0x80001000 = user_byte demo_mem 0x80001000" using P(2) by (simp add: d(2))
qed

text \<open>Three bytes of the process go through the pipe and come back at another address; a read from the empty pipe sleeps.\<close>

theorem pipe_is_queue_witness:
  "(\<exists>t u. pipewrite 0x80006000 0 3 demo_pipe = Ok 3 t \<and> piperead 0x80006000 100 8 t = Ok 3 u \<and>
     pipe_queue 0x80006000 (mem u) = [] \<and>
     (\<forall>j<3. user_byte (mem u) 0x80001000 (100 + of_nat j) = user_byte (mem demo_pipe) 0x80001000 (of_nat j))) \<and>
   (\<exists>t k. piperead 0x80006000 100 8 demo_pipe = Swtch t k \<and> state (ptab t 0) = SLEEPING)"
proof
  let ?pi = "0x80006000 :: u64" and ?pt = "0x80001000 :: u64"
  define bs where "bs = map (\<lambda>j. the (user_byte demo_mem ?pt (of_nat j))) [0..<3]"
  have l: "length bs = 3" by (simp add: bs_def)
  have u: "user_byte (mem demo_pipe) ?pt (of_nat j) = Some (bs ! j)" if "j < 3" for j
    using demo_user_byte [of j] that by (auto simp: demo_pipe_ok(4) bs_def)
  have pt: "pagetable (ptab demo_pipe 0) = ?pt" "killed (ptab demo_pipe 0) = 0" "noff (mycpu demo_pipe) = 0" "0 < NPROC"
    by (simp_all add: demo_pipe_simps demo_proc_def NPROC_def) (simp add: demo_pipe_def demo_procs_def mycpu_def cpuid_def)
  note P = pipe_is_queue [OF demo_pipe_ok(1) pt(3,4)]
  have o: "offered (user_byte (mem demo_pipe) ?pt) (0 + of_nat 0) (3 - 0) bs" using u l by (auto simp: offered_def)
  have "\<exists>t. pipewrite ?pi 0 3 demo_pipe = Ok (int (0 + length bs)) t \<and>
      pipe_end 0 ?pi [] {0} demo_pipe ([] @ bs) (user_byte (mem demo_pipe) ?pt) (ChPipeRead ?pi) t"
    using P [of 0 3, THEN conjunct1, unfolded writes_def Let_def pt demo_pipe_ok(2,3), THEN conjunct2, rule_format, of bs] o l
    by (simp add: PIPESIZE_def)
  then obtain t where t: "pipewrite ?pi 0 3 demo_pipe = Ok 3 t" and e: "pipe_end 0 ?pi [] {0} demo_pipe bs (user_byte (mem demo_pipe) ?pt) (ChPipeRead ?pi) t"
    using l by auto
  note E = e [unfolded pipe_end_def pt]
  have T: "ptab t 0 = ptab demo_pipe 0" using E by (simp add: woken_def)
  have "bs \<noteq> []" using l by auto
  have "user_byte (mem t) ?pt (100 + of_nat j) \<noteq> None" if "j < 3" for j
    using demo_user_byte [of "100 + j"] that E by (simp add: demo_pipe_ok(4))
  then have d: "delivered bs (user_byte (mem t) ?pt) 100 8 3" by (simp add: delivered_def l)
  have t2: "with_pipe 0 ?pi [] {0} t" "noff (mycpu t) = 0" "pipe_queue ?pi (mem t) = bs" "pagetable (ptab t 0) = ?pt" using E pt T by auto
  have "\<exists>u. piperead ?pi 100 8 t = Ok (int 3) u \<and>
      pipe_end 0 ?pi [] {0} t (drop (min (Suc 3) (min 8 (length bs))) bs) (user_got (user_byte (mem t) ?pt) 100 bs 3) (ChPipeWrite ?pi) u"
    using pipe_is_queue [OF t2(1,2) pt(4), of 100 8, THEN conjunct2, THEN conjunct2, THEN conjunct1, unfolded reads_def Let_def t2(3,4), THEN conjunct1, rule_format, of 3]
      d \<open>bs \<noteq> []\<close> by simp
  then obtain v where v: "piperead ?pi 100 8 t = Ok 3 v" "pipe_queue ?pi (mem v) = []" "user_byte (mem v) ?pt = user_got (user_byte (mem t) ?pt) 100 bs 3"
    using l by (auto simp: pipe_end_def t2(4))
  have "unat (of_nat j :: u64) = j" if "j < 3" for j using that by (simp add: unat_of_nat take_bit_nat_eq_self)
  then show "\<exists>t u. pipewrite ?pi 0 3 demo_pipe = Ok 3 t \<and> piperead ?pi 100 8 t = Ok 3 u \<and> pipe_queue ?pi (mem u) = [] \<and>
     (\<forall>j<3. user_byte (mem u) ?pt (100 + of_nat j) = user_byte (mem demo_pipe) ?pt (of_nat j))"
    using t v u by (intro exI [of _ t] exI [of _ v]) (simp add: user_got_def)
  show "\<exists>t k. piperead ?pi 100 8 demo_pipe = Swtch t k \<and> state (ptab t 0) = SLEEPING"
    using P [of 100 8] pt demo_pipe_ok(2,3) by (auto simp: pipe_asleep_def)
qed

end
