(* ===== verification/Uart_Facts.thy ===== *)
theory Uart_Facts
  imports Ring Kernel_Frames
begin

text \<open>
  The transmit side of the UART: what has been written to the transmit register, followed by what waits in the
  ring, is the sequence of the bytes given to \<^verbatim>\<open>uartputc\<close>; none is lost, repeated or overtaken.
\<close>

interpretation uq: ring "\<lambda>i::u64. unat i mod UART_TX_BUF_SIZE" UART_TX_BUF_SIZE
  by unfold_locales (simp_all add: UART_TX_BUF_SIZE_def)

definition uart_queue :: "'a io_scheme \<Rightarrow> byte list" where
  "uart_queue s = ring_list (\<lambda>i. unat i mod UART_TX_BUF_SIZE) (uart_tx_buf s) (uart_tx_r s) (uart_tx_w s)"

primrec uart_sent :: "mmio_event list \<Rightarrow> byte list" where
  "uart_sent [] = []"
| "uart_sent (e # es) = uart_sent es @ (case e of MWrite a v \<Rightarrow> if a = UART0 + THR then [ucast v] else [] | MRead a v \<Rightarrow> [])"

definition uart_stream :: "'a io_scheme \<Rightarrow> byte list" where
  "uart_stream s = uart_sent (mmio s) @ uart_queue s"

lemma uart_settle [simp]: "uart_queue (settle s) = uart_queue s" "uart_stream (settle s) = uart_stream s"
  by (simp_all add: uart_queue_def uart_stream_def)

lemma byte_in_register: "ucast (ucast (b :: byte) :: u64) = b"
  by (rule bit_word_eqI) (simp add: bit_simps)

text \<open>\<^verbatim>\<open>uartstart\<close>, called with the lock held, only moves bytes from the ring to the register.\<close>

lemma uartstart_loop_ok:
  fixes s :: "'a io_scheme"
  assumes "mach_ok s" "procs_free s" "length (uart_queue s) < n"
  shows "\<exists>m T r. uartstart_loop n (enter_cs LkUart s) = Ok () (enter_cs LkUart (s\<lparr>mmio := m, ptab := T, uart_tx_r := r\<rparr>)) \<and>
    uart_stream (s\<lparr>mmio := m, ptab := T, uart_tx_r := r\<rparr>) = uart_stream s \<and>
    length (uart_queue (s\<lparr>mmio := m, ptab := T, uart_tx_r := r\<rparr>)) \<le> length (uart_queue s)"
  using assms
proof (induction n arbitrary: s)
  case (Suc n)
  let ?l = "device s (mmio s) (UART0 + LSR)" and ?r = "uart_tx_r s"
  show ?case
  proof (cases "uart_tx_w s = ?r")
    case True
    then show ?thesis by (intro exI [of _ "mmio s"] exI [of _ "ptab s"] exI [of _ ?r]) simp
  next
    case False
    let ?m1 = "MRead (UART0 + LSR) ?l # mmio s"
    show ?thesis
    proof (cases "(ucast ?l :: byte) AND LSR_TX_IDLE = 0")
      case True
      then show ?thesis using False
        by (intro exI [of _ ?m1] exI [of _ "ptab s"] exI [of _ ?r])
          (simp add: ReadReg_def mmio_read_def Let_def uart_stream_def uart_queue_def)
    next
      case busy: False
      let ?c = "uart_tx_buf s (unat ?r mod UART_TX_BUF_SIZE)" and ?T = "woken (Some ChUart) (cproc (mycpu s)) {..<NPROC} (ptab s)"
      define s1 where "s1 = s\<lparr>mmio := MWrite (UART0 + THR) (ucast ?c) # ?m1, ptab := ?T, uart_tx_r := ?r + 1\<rparr>"
      have q: "uart_queue s = ?c # uart_queue s1"
        using uq.ring_pop [of ?r "uart_tx_w s" "uart_tx_buf s"] False by (auto simp: uart_queue_def s1_def)
      obtain m T r where IH: "uartstart_loop n (enter_cs LkUart s1) = Ok () (enter_cs LkUart (s1\<lparr>mmio := m, ptab := T, uart_tx_r := r\<rparr>))"
        "uart_stream (s1\<lparr>mmio := m, ptab := T, uart_tx_r := r\<rparr>) = uart_stream s1"
        "length (uart_queue (s1\<lparr>mmio := m, ptab := T, uart_tx_r := r\<rparr>)) \<le> length (uart_queue s1)"
        using Suc.IH [of s1] Suc.prems q by (auto simp: s1_def procs_free_def)
      have str: "uart_stream s1 = uart_stream s" unfolding uart_stream_def q by (simp add: s1_def byte_in_register)
      let ?u = "enter_cs LkUart (s\<lparr>mmio := ?m1, uart_tx_r := ?r + 1\<rparr>)"
      have w: "wakeup (Some ChUart) ?u = Ok () (enter_cs LkUart (s\<lparr>mmio := ?m1, uart_tx_r := ?r + 1, ptab := ?T\<rparr>))"
        using wakeup_eq [of ?u "Some ChUart"] Suc.prems by (simp add: procs_free_def settle_enter_cs)
      have "s\<lparr>mmio := ?m1, uart_tx_r := ?r + 1, ptab := ?T\<rparr>\<lparr>mmio := MWrite (UART0 + THR) (ucast ?c) # ?m1\<rparr> = s1" by (simp add: s1_def)
      then have "uartstart_loop (Suc n) (enter_cs LkUart s) = uartstart_loop n (enter_cs LkUart s1)"
        using False busy w by (simp add: ReadReg_def mmio_read_def WriteReg_def mmio_write_def Let_def)
      then show ?thesis using IH str q by (intro exI [of _ m] exI [of _ T] exI [of _ r]) (simp add: s1_def)
    qed
  qed
qed simp

lemma uartputc_appends:
  fixes s :: "'a io_scheme"
  assumes s: "mach_ok s" "procs_free s" "lock_free LkUart s" "\<not> panicked s" and room: "length (uart_queue s) < UART_TX_BUF_SIZE"
  shows "\<exists>t. uartputc c s = Ok () t \<and> uart_stream t = uart_stream s @ [c] \<and> length (uart_queue t) \<le> UART_TX_BUF_SIZE \<and>
    mach_ok t \<and> lock_free LkUart t"
proof -
  let ?w = "uart_tx_w s"
  define s1 where "s1 = s\<lparr>uart_tx_buf := (uart_tx_buf s)(unat ?w mod UART_TX_BUF_SIZE := c), uart_tx_w := ?w + 1\<rparr>"
  have full: "?w \<noteq> uart_tx_r s + of_nat UART_TX_BUF_SIZE" using room uq.ring_full [of ?w "uart_tx_r s"] by (simp add: uart_queue_def)
  have q: "uart_queue s1 = uart_queue s @ [c]"
    using uq.ring_push [of ?w "uart_tx_r s" "uart_tx_buf s" c] room by (simp add: uart_queue_def s1_def)
  obtain m T r where L: "uartstart_loop (Suc UART_TX_BUF_SIZE) (enter_cs LkUart s1) =
      Ok () (enter_cs LkUart (s1\<lparr>mmio := m, ptab := T, uart_tx_r := r\<rparr>))"
    "uart_stream (s1\<lparr>mmio := m, ptab := T, uart_tx_r := r\<rparr>) = uart_stream s1"
    "length (uart_queue (s1\<lparr>mmio := m, ptab := T, uart_tx_r := r\<rparr>)) \<le> length (uart_queue s1)"
    using uartstart_loop_ok [of s1 "Suc UART_TX_BUF_SIZE"] s room q by (auto simp: s1_def procs_free_def)
  let ?t = "settle (s1\<lparr>mmio := m, ptab := T, uart_tx_r := r\<rparr>)"
  have f: "mach_ok (s1\<lparr>mmio := m, ptab := T, uart_tx_r := r\<rparr>)" "lock_free LkUart (s1\<lparr>mmio := m, ptab := T, uart_tx_r := r\<rparr>)"
    using s by (simp_all add: s1_def)
  obtain n where n: "WAKEUPS = Suc n" by (simp add: WAKEUPS_def)
  have e: "uartputc_loop (Suc n) c (enter_cs LkUart s) = and_then (uartstart (enter_cs LkUart s1)) (\<lambda>_ s. release LkUart s)"
    using full by (simp add: s1_def Let_def)
  have "uartputc c s = Ok () ?t"
    unfolding uartputc_def n using s e L(1) f by (simp add: uartstart_def del: uartstart_loop.simps uartputc_loop.simps)
  moreover have "uart_stream ?t = uart_stream s @ [c]"
    using L(2) q uart_stream_def [of s1] uart_stream_def [of s] by (simp add: s1_def)
  moreover have "length (uart_queue ?t) \<le> UART_TX_BUF_SIZE" using L(3) q room by simp
  ultimately show ?thesis using f by (intro exI [of _ ?t]) simp
qed

end
