(* ===== verification/Umalloc_Facts.thy ===== *)
theory Umalloc_Facts
  imports Umalloc
begin

text \<open>
  The invariant of the allocator's free list, and what the pieces of \<^verbatim>\<open>free\<close> and \<^verbatim>\<open>malloc\<close> do to
  it.  \<open>ring h xs\<close> says that the list \<open>xs\<close>, from the static header \<^verbatim>\<open>base\<close> on, is linked into a
  circle in the order of addresses and that its blocks do not overlap.
\<close>

section \<open>The invariant\<close>

definition LIMIT :: nat where "LIMIT = 2 ^ 36"

text \<open>The bytes a list element occupies; the static header has size 0 but is 16 bytes long.\<close>

definition ext :: "uheap \<Rightarrow> u64 \<Rightarrow> nat" where
  "ext h x = (if x = base h then 16 else 16 * unat (hsize h x))"

definition before :: "uheap \<Rightarrow> u64 \<Rightarrow> u64 \<Rightarrow> bool" where
  "before h x y \<longleftrightarrow> unat x + ext h x \<le> unat y"

fun chain :: "uheap \<Rightarrow> u64 list \<Rightarrow> u64 \<Rightarrow> bool" where
  "chain h [] e = True"
| "chain h (x # xs) e = (hptr h x = hd (xs @ [e]) \<and> chain h xs e)"

definition linked :: "uheap \<Rightarrow> u64 list \<Rightarrow> bool" where
  "linked h xs \<longleftrightarrow> xs \<noteq> [] \<and> hd xs = base h \<and> chain h xs (base h) \<and> sorted_wrt (before h) xs \<and>
     (\<forall>x \<in> set xs. unat x + ext h x \<le> LIMIT) \<and> (\<forall>x \<in> set xs. x \<noteq> base h \<longrightarrow> hsize h x \<noteq> 0) \<and>
     hsize h (base h) = 0 \<and> base h \<noteq> 0"

definition ring :: "uheap \<Rightarrow> u64 list \<Rightarrow> bool" where
  "ring h xs \<longleftrightarrow> linked h xs \<and> freep h \<in> set xs"

definition block_bytes :: "u64 \<Rightarrow> u32 \<Rightarrow> nat set" where
  "block_bytes p n = {unat p ..< unat p + 16 * unat n}"

definition free_bytes :: "uheap \<Rightarrow> u64 list \<Rightarrow> nat set" where
  "free_bytes h xs = (\<Union>x \<in> set xs. block_bytes x (hsize h x))"

lemma chain_append [simp]: "chain h (as @ bs) e \<longleftrightarrow> chain h as (hd (bs @ [e])) \<and> chain h bs e"
  by (induction as) (auto simp: hd_append)

lemma chain_cong: "(\<And>x. x \<in> set xs \<Longrightarrow> hptr h' x = hptr h x) \<Longrightarrow> chain h' xs e = chain h xs e"
  by (induction xs) auto

lemma chain_nth: "chain h xs e \<Longrightarrow> i < length xs \<Longrightarrow> hptr h (xs ! i) = (xs @ [e]) ! Suc i"
proof (induction xs arbitrary: i)
  case (Cons x xs)
  then show ?case by (cases i) (auto simp: hd_conv_nth nth_append)
qed simp

lemma linked_freep [simp]: "linked (h\<lparr>freep := p\<rparr>) xs = linked h xs"
proof -
  have c: "chain (h\<lparr>freep := p\<rparr>) xs e = chain h xs e" for e by (rule chain_cong) simp
  have e: "ext (h\<lparr>freep := p\<rparr>) = ext h" by (rule ext) (simp add: ext_def)
  then have "before (h\<lparr>freep := p\<rparr>) = before h" by (intro ext) (simp add: before_def)
  then show ?thesis by (simp add: linked_def c e)
qed

lemma ext_pos: "linked h xs \<Longrightarrow> x \<in> set xs \<Longrightarrow> 0 < ext h x"
  by (cases xs) (auto simp: linked_def ext_def unat_gt_0)

lemma linked_less:
  assumes r: "linked h xs" and "i < j" "j < length xs"
  shows "xs ! i < xs ! j"
proof -
  have "before h (xs ! i) (xs ! j)"
    using assms by (intro sorted_wrt_nth_less [of "before h" xs]) (auto simp: linked_def)
  moreover have "0 < ext h (xs ! i)" using assms by (intro ext_pos [OF r] nth_mem) auto
  ultimately show ?thesis by (simp add: before_def word_less_nat_alt)
qed

lemma linked_distinct: "linked h xs \<Longrightarrow> distinct xs"
  unfolding distinct_conv_nth using linked_less by (metis less_irrefl linorder_neqE_nat)

lemma unat_hdr_add: "unat p + 16 * unat n < 2 ^ 64 \<Longrightarrow> unat (hdr_add p n) = unat p + 16 * unat n"
proof -
  assume a: "unat p + 16 * unat n < 2 ^ 64"
  have n: "unat n < 2 ^ 32" using unsigned_less [of n] by simp
  have "unat (16 * ucast n :: u64) = 16 * unat n"
    using n by (subst unat_word_ariths) (simp add: unsigned_ucast_eq take_bit_nat_eq_self)
  then show ?thesis unfolding hdr_add_def using a by (subst unat_add_nowrap) simp_all
qed

section \<open>Finding the place of a block\<close>

lemma free_find_ring:
  assumes r: "linked h xs" and bp: "base h < bp" "bp \<notin> set xs" and i: "i < length xs"
    and t: "t < length xs" "xs ! t < bp" "\<And>j. t < j \<Longrightarrow> j < length xs \<Longrightarrow> bp < xs ! j"
  shows "free_find h bp (xs ! i) = Some (xs ! t)"
proof -
  have ch: "chain h xs (base h)" and b0: "xs ! 0 = base h"
    using r by (auto simp: linked_def hd_conv_nth)
  have nxt: "hptr h (xs ! k) = (if Suc k < length xs then xs ! Suc k else base h)" if "k < length xs" for k
    using chain_nth [OF ch that] that by (simp add: nth_append)
  have le: "base h \<le> xs ! k" if "k < length xs" for k
    using linked_less [OF r, of 0 k] that b0 by (cases k) auto
  have at: "free_find h bp (xs ! t) = Some (xs ! t)"
    using t nxt [OF t(1)] le [OF t(1)] bp(1) t(3) [of "Suc t"]
    by (subst free_find.simps) auto
  have up: "free_find h bp (xs ! k) = Some (xs ! t)" if "k \<le> t" for k
    using that
  proof (induction "t - k" arbitrary: k)
    case 0
    then show ?case using at by simp
  next
    case (Suc d)
    then have k: "Suc k \<le> t" by simp
    then have "xs ! k < xs ! Suc k" using linked_less [OF r, of k "Suc k"] t(1) by simp
    moreover have "xs ! Suc k \<le> xs ! t"
      using k linked_less [OF r, of "Suc k" t] t(1) by (cases "Suc k = t") auto
    ultimately have "\<not> bp < xs ! Suc k" "\<not> xs ! k \<ge> xs ! Suc k" using t(2) by auto
    moreover have "free_find h bp (xs ! Suc k) = Some (xs ! t)" using Suc k by simp
    ultimately show ?case using nxt [of k] k t(1) by (subst free_find.simps) simp
  qed
  have down: "free_find h bp (xs ! k) = Some (xs ! t)" if "t < k" "k < length xs" for k
    using that
  proof (induction "length xs - k" arbitrary: k)
    case 0
    then show ?case by simp
  next
    case (Suc d)
    have k: "bp < xs ! k" using t(3) Suc.prems by blast
    show ?case
    proof (cases "Suc k < length xs")
      case True
      then have "xs ! k < xs ! Suc k" using linked_less [OF r, of k "Suc k"] by simp
      moreover have "free_find h bp (xs ! Suc k) = Some (xs ! t)" using Suc True by simp
      ultimately show ?thesis using k nxt [of k] True by (subst free_find.simps) auto
    next
      case False
      moreover have "free_find h bp (base h) = Some (xs ! t)" using up [of 0] b0 by simp
      ultimately show ?thesis using k nxt [of k] Suc.prems bp(1) by (subst free_find.simps) auto
    qed
  qed
  show ?thesis using up [of i] down [of i] i by (cases "i \<le> t") auto
qed

text \<open>A block that can be given back: it lies above the static header and overlaps no free block.\<close>

definition loose :: "uheap \<Rightarrow> u64 list \<Rightarrow> u64 \<Rightarrow> bool" where
  "loose h xs bp \<longleftrightarrow> hsize h bp \<noteq> 0 \<and> unat (base h) + 16 \<le> unat bp \<and>
     unat bp + 16 * unat (hsize h bp) \<le> LIMIT \<and>
     (\<forall>x \<in> set xs. before h x bp \<or> unat bp + 16 * unat (hsize h bp) \<le> unat x)"

lemma loose_notin: "linked h xs \<Longrightarrow> loose h xs bp \<Longrightarrow> bp \<notin> set xs"
proof
  assume r: "linked h xs" and l: "loose h xs bp" and "bp \<in> set xs"
  then have "0 < ext h bp" "before h bp bp \<or> unat bp + 16 * unat (hsize h bp) \<le> unat bp"
    using ext_pos [OF r] by (auto simp: loose_def)
  then show False using l by (auto simp: loose_def before_def unat_eq_0)
qed

lemma find_place:
  assumes r: "linked h xs" and l: "loose h xs bp" and fp: "freep h \<in> set xs"
  obtains as p rest where "xs = as @ p # rest" "p < bp" "\<And>x. x \<in> set rest \<Longrightarrow> bp < x"
    "free_find h bp (freep h) = Some p"
proof -
  let ?as = "takeWhile (\<lambda>x. x < bp) xs"
  have b: "base h < bp" using l by (simp add: loose_def word_less_nat_alt)
  have nin: "bp \<notin> set xs" by (rule loose_notin [OF r l])
  have ne: "?as \<noteq> []" using r b by (cases xs) (auto simp: linked_def)
  let ?t = "length ?as - 1"
  have t: "?t < length xs" "xs ! ?t < bp" "Suc ?t = length ?as"
  proof -
    have "0 < length ?as" using ne by blast
    then show "Suc ?t = length ?as" "?t < length xs"
      using length_takeWhile_le [of "\<lambda>x. x < bp" xs] by linarith+
    have "?t < length ?as" using \<open>0 < length ?as\<close> by simp
    then have "?as ! ?t < bp" using nth_mem set_takeWhileD by fast
    then show "xs ! ?t < bp" using \<open>?t < length ?as\<close> by (simp add: takeWhile_nth)
  qed
  have after: "bp < xs ! j" if j: "?t < j" "j < length xs" for j
  proof -
    have "length ?as < length xs" using j t(3) by simp
    then have "\<not> xs ! length ?as < bp" by (rule nth_length_takeWhile)
    moreover have "xs ! length ?as \<in> set xs" using j t(3) by (intro nth_mem) simp
    ultimately have "bp < xs ! length ?as" using nin by (metis linorder_neqE)
    moreover have "xs ! length ?as \<le> xs ! j"
      using j t(3) linked_less [OF r, of "length ?as" j] by (cases "j = length ?as") auto
    ultimately show ?thesis by simp
  qed
  obtain i where i: "i < length xs" "freep h = xs ! i"
    using fp by (auto simp: in_set_conv_nth)
  have "free_find h bp (freep h) = Some (xs ! ?t)"
    unfolding i(2) by (rule free_find_ring [OF r b nin i(1) t(1,2) after])
  moreover have "xs = take ?t xs @ xs ! ?t # drop (Suc ?t) xs" using t(1) by (rule id_take_nth_drop)
  moreover have "bp < x" if "x \<in> set (drop (Suc ?t) xs)" for x
    using that after by (auto simp: in_set_conv_nth)
  ultimately show ?thesis using that t(2) by blast
qed

section \<open>Giving a block back\<close>

text \<open>
  Joining the block with the one that follows it.  The result is described for the list from
  the block on.
\<close>

definition join_next :: "u64 \<Rightarrow> u64 \<Rightarrow> uheap \<Rightarrow> uheap" where
  "join_next bp nx h =
     (if hdr_add bp (hsize h bp) = nx then
        set_ptr bp (hptr h nx) (set_size bp (hsize h bp + hsize h nx) h)
      else set_ptr bp nx h)"

definition join_prev :: "u64 \<Rightarrow> u64 \<Rightarrow> uheap \<Rightarrow> uheap" where
  "join_prev bp p h =
     (if hdr_add p (hsize h p) = bp then set_ptr p (hptr h bp) (set_size p (hsize h p + hsize h bp) h)
      else set_ptr p bp h)"

lemma free_link_joins:
  assumes "hptr h p \<noteq> bp"
  shows "free_link bp p h = (join_prev bp p (join_next bp (hptr h p) h))\<lparr>freep := p\<rparr>"
  using assms by (simp add: free_link_def join_next_def join_prev_def Let_def set_size_def set_ptr_def)

lemmas heap_upd = set_ptr_def set_size_def

lemma unat_sum32: "16 * (unat n + unat m) < LIMIT \<Longrightarrow> unat (n + m) = unat n + unat m" for n m :: u32
  by (simp add: LIMIT_def unat_word_ariths)

lemma join_next_ok:
  assumes r: "linked h (as @ p # rest)" and l: "loose h (as @ p # rest) bp"
    and "p < bp" and ab: "\<And>x. x \<in> set rest \<Longrightarrow> bp < x"
  defines "h1 \<equiv> join_next bp (hptr h p) h"
  shows "\<exists>rest1. chain h1 (bp # rest1) (base h) \<and> set rest1 \<subseteq> set rest \<and> sorted_wrt (before h) rest1 \<and>
    (\<forall>x. x \<noteq> bp \<longrightarrow> hptr h1 x = hptr h x \<and> hsize h1 x = hsize h x) \<and> base h1 = base h \<and>
    unat bp + 16 * unat (hsize h1 bp) \<le> LIMIT \<and> hsize h1 bp \<noteq> 0 \<and> hsize h bp \<le> hsize h1 bp \<and>
    (\<forall>x \<in> set rest1. unat bp + 16 * unat (hsize h1 bp) \<le> unat x) \<and>
    block_bytes bp (hsize h1 bp) \<union> free_bytes h rest1 = block_bytes bp (hsize h bp) \<union> free_bytes h rest"
proof -
  have nx: "hptr h p = hd (rest @ [base h])" and chr: "chain h rest (base h)"
    and srt: "sorted_wrt (before h) rest" and pb: "bp \<noteq> base h"
    using r l by (auto simp: linked_def sorted_wrt_append loose_def)
  have notin: "bp \<notin> set rest" using ab by blast
  have sep: "\<forall>x \<in> set rest. unat bp + 16 * unat (hsize h bp) \<le> unat x"
  proof
    fix x assume x: "x \<in> set rest"
    then have "unat bp < unat x" using ab by (simp add: word_less_nat_alt)
    moreover have "before h x bp \<or> unat bp + 16 * unat (hsize h bp) \<le> unat x"
      using l x by (simp add: loose_def)
    ultimately show "unat bp + 16 * unat (hsize h bp) \<le> unat x" by (auto simp: before_def)
  qed
  show ?thesis
  proof (cases "hdr_add bp (hsize h bp) = hptr h p")
    case False
    then have h1: "h1 = set_ptr bp (hptr h p) h" by (simp add: h1_def join_next_def)
    have "chain h1 rest (base h)" using chr notin by (subst chain_cong [of rest h1 h]) (auto simp: h1 heap_upd)
    then show ?thesis
      using nx sep srt l by (intro exI [of _ rest]) (auto simp: h1 heap_upd loose_def)
  next
    case True
    have ul: "unat bp + 16 * unat (hsize h bp) \<le> LIMIT" "0 < unat bp" "0 < unat (hsize h bp)"
      using l by (auto simp: loose_def unat_gt_0 unat_eq_0)
    then have u: "unat (hptr h p) = unat bp + 16 * unat (hsize h bp)"
      using True unat_hdr_add [of bp "hsize h bp"] by (simp add: LIMIT_def)
    have "hptr h p \<noteq> base h" using u l by (auto simp: loose_def)
    then obtain n rest' where rest: "rest = n # rest'" and n: "hptr h p = n"
      using nx by (cases rest) auto
    have nb: "n \<noteq> base h" using \<open>hptr h p \<noteq> base h\<close> n by simp
    have nl: "unat n + 16 * unat (hsize h n) \<le> LIMIT" "hsize h n \<noteq> 0"
      using r nb by (auto simp: linked_def rest ext_def)
    have sum: "unat (hsize h bp + hsize h n) = unat (hsize h bp) + unat (hsize h n)"
      using u n nl ul by (intro unat_sum32) (simp add: LIMIT_def)
    have h1: "h1 = set_ptr bp (hptr h n) (set_size bp (hsize h bp + hsize h n) h)"
      using True n by (simp add: h1_def join_next_def)
    have ch1: "chain h1 rest' (base h)"
      using chr notin by (subst chain_cong [of rest' h1 h]) (auto simp: h1 heap_upd rest)
    have hn: "hptr h n = hd (rest' @ [base h])" using chr by (simp add: rest)
    have "unat bp + 16 * unat (hsize h bp + hsize h n) \<le> unat x" if "x \<in> set rest'" for x
    proof -
      have "before h n x" using srt that by (simp add: rest)
      then show ?thesis using u n nb by (simp add: before_def ext_def sum)
    qed
    moreover have "block_bytes bp (hsize h bp + hsize h n) = block_bytes bp (hsize h bp) \<union> block_bytes n (hsize h n)"
      using u n by (auto simp: block_bytes_def sum)
    moreover have "hsize h bp + hsize h n \<noteq> 0" using sum ul(3) by (auto simp flip: unat_eq_0)
    moreover have "unat bp + 16 * unat (hsize h bp + hsize h n) \<le> LIMIT" using u n nl by (simp add: sum)
    moreover have "hsize h bp \<le> hsize h bp + hsize h n" by (simp add: word_le_nat_alt sum)
    ultimately show ?thesis
      using hn ch1 srt by (intro exI [of _ rest'])
        (auto simp: h1 heap_upd rest free_bytes_def)
  qed
qed

text \<open>
  Replacing the part of the circle from \<open>p\<close> on by new blocks \<open>bs\<close>, the first at \<open>p\<close>, and some of
  the blocks that followed.
\<close>

lemma linked_replace:
  assumes r: "linked h (as @ p # rest)" and sub: "set rest1 \<subseteq> set rest"
    and srt: "sorted_wrt (before h) rest1"
    and same: "\<And>x. x \<in> set as \<union> set rest1 \<Longrightarrow> hsize h2 x = hsize h x" "base h2 = base h"
      "\<And>x. x \<in> set as \<Longrightarrow> hptr h2 x = hptr h x"
    and bs: "hd bs = p" "bs \<noteq> []" "chain h2 (bs @ rest1) (base h)" "sorted_wrt (before h2) bs"
      "\<And>b. b \<in> set bs \<Longrightarrow> unat b + ext h2 b \<le> LIMIT \<and> (b = base h \<longleftrightarrow> hsize h2 b = 0)"
      "\<And>x b. x \<in> set as \<Longrightarrow> b \<in> set bs \<Longrightarrow> before h x b"
      "\<And>b y. b \<in> set bs \<Longrightarrow> y \<in> set rest1 \<Longrightarrow> before h2 b y"
  shows "linked h2 (as @ bs @ rest1)"
proof -
  have ext: "ext h2 x = ext h x" if "x \<in> set as \<union> set rest1" for x
    using that same(1,2) by (simp add: ext_def)
  have bf: "before h2 x y = before h x y" if "x \<in> set as \<union> set rest1" for x y
    using ext [OF that] by (simp add: before_def)
  have old: "sorted_wrt (before h) as" "chain h as p" "\<forall>x \<in> set as. \<forall>y \<in> set rest. before h x y"
      "hd (as @ [p]) = base h" "\<forall>x \<in> set as \<union> set rest. unat x + ext h x \<le> LIMIT"
      "\<forall>x \<in> set as \<union> set rest. x \<noteq> base h \<longrightarrow> hsize h x \<noteq> 0" "hsize h (base h) = 0" "base h \<noteq> 0"
    using r by (auto simp: linked_def sorted_wrt_append hd_append)
  have "sorted_wrt (before h2) as" "sorted_wrt (before h2) rest1"
    using old(1) srt bf by (auto elim!: sorted_wrt_mono_rel [rotated])
  moreover have "before h2 x y" if "x \<in> set as" "y \<in> set bs \<union> set rest1" for x y
    using that bf [of x y] bs(6) old(3) sub by auto
  ultimately have "sorted_wrt (before h2) (as @ bs @ rest1)"
    using bs(4,7) by (simp add: sorted_wrt_append)
  moreover have "chain h2 as p" using old(2) same(3) chain_cong [of as h2 h] by blast
  moreover have "hd (as @ bs @ rest1) = base h" using old(4) bs(1,2) by (cases as) auto
  moreover have "hsize h2 (base h) = 0"
    using old(4,7) bs(1,2) bs(5) [of p] same(1) [of "base h"] hd_in_set [OF bs(2)]
    by (cases as) auto
  moreover have "unat x + ext h2 x \<le> LIMIT" "x \<noteq> base h \<longrightarrow> hsize h2 x \<noteq> 0"
    if "x \<in> set (as @ bs @ rest1)" for x
    using that bs(5) [of x] ext [of x] old(5,6) same(1) [of x] sub by auto
  ultimately show ?thesis
    using bs(1,2,3) old(8) by (simp add: linked_def same(2))
qed

text \<open>Everything about the block \<open>bp\<close> between \<open>as @ [p]\<close> and \<open>rest1\<close> that the last step needs.\<close>

definition placed :: "uheap \<Rightarrow> u64 list \<Rightarrow> u64 \<Rightarrow> u64 list \<Rightarrow> u64 \<Rightarrow> uheap \<Rightarrow> u64 list \<Rightarrow> bool" where
  "placed h as p rest bp h1 rest1 \<longleftrightarrow> linked h (as @ p # rest) \<and> loose h (as @ p # rest) bp \<and> p < bp \<and>
     chain h1 (bp # rest1) (base h) \<and> set rest1 \<subseteq> set rest \<and> sorted_wrt (before h) rest1 \<and>
     (\<forall>x. x \<noteq> bp \<longrightarrow> hptr h1 x = hptr h x \<and> hsize h1 x = hsize h x) \<and> base h1 = base h \<and>
     unat bp + 16 * unat (hsize h1 bp) \<le> LIMIT \<and> hsize h1 bp \<noteq> 0 \<and>
     (\<forall>x \<in> set rest1. unat bp + 16 * unat (hsize h1 bp) \<le> unat x)"

lemma placed_order:
  assumes "placed h as p rest bp h1 rest1"
  shows "\<And>x. x \<in> set (as @ [p]) \<Longrightarrow> before h x bp" "bp \<noteq> base h" "bp \<notin> set as" "bp \<noteq> p"
    "bp \<notin> set rest1" "p \<notin> set as" "p \<notin> set rest1" "0 < unat p"
proof -
  have r: "linked h (as @ p # rest)" and l: "loose h (as @ p # rest) bp" and pb: "p < bp"
    and sub: "set rest1 \<subseteq> set rest"
    using assms by (auto simp: placed_def)
  show "before h x bp" if x: "x \<in> set (as @ [p])" for x
  proof -
    have "before h x bp \<or> unat bp + 16 * unat (hsize h bp) \<le> unat x" using l x by (auto simp: loose_def)
    moreover have "unat x \<le> unat p" using r x by (auto simp: linked_def sorted_wrt_append before_def)
    ultimately show ?thesis using pb l by (auto simp: word_less_nat_alt loose_def)
  qed
  show "bp \<noteq> base h" using l by (auto simp: loose_def)
  show "bp \<notin> set as" "bp \<noteq> p" "bp \<notin> set rest1" using loose_notin [OF r l] sub by auto
  show "p \<notin> set as" "p \<notin> set rest1" using linked_distinct [OF r] sub by auto
  have "base h \<le> p" using r linked_less [OF r, of 0 "length as"] by (cases as) (auto simp: linked_def nth_append)
  moreover have "base h \<noteq> 0" using r by (simp add: linked_def)
  ultimately show "0 < unat p" by (metis word_le_0_iff unat_gt_0)
qed

lemma join_prev_merges:
  assumes pl: "placed h as p rest bp h1 rest1" and t: "hdr_add p (hsize h1 p) = bp"
  defines "h2 \<equiv> join_prev bp p h1"
  shows "linked h2 (as @ p # rest1)"
    "free_bytes h2 (as @ p # rest1) = free_bytes h (as @ [p]) \<union> block_bytes bp (hsize h1 bp) \<union> free_bytes h rest1"
    "hsize h1 bp \<le> hsize h2 p"
proof -
  note o = placed_order [OF pl]
  have r: "linked h (as @ p # rest)" and same: "\<forall>x. x \<noteq> bp \<longrightarrow> hptr h1 x = hptr h x \<and> hsize h1 x = hsize h x"
      "base h1 = base h" and lim: "unat bp + 16 * unat (hsize h1 bp) \<le> LIMIT" "hsize h1 bp \<noteq> 0"
    and sep: "\<forall>x \<in> set rest1. unat bp + 16 * unat (hsize h1 bp) \<le> unat x"
    and ch: "chain h1 (bp # rest1) (base h)" and sub: "set rest1 \<subseteq> set rest" "sorted_wrt (before h) rest1"
    using pl by (auto simp: placed_def)
  have hp: "hsize h1 p = hsize h p" using same(1) o(4) by auto
  have pnb: "p \<noteq> base h" using t hp r o(2) by (auto simp: hdr_add_def linked_def)
  have p: "unat p + 16 * unat (hsize h p) \<le> LIMIT" "0 < unat (hsize h p)"
    using r pnb by (auto simp: linked_def ext_def unat_gt_0)
  then have u: "unat bp = unat p + 16 * unat (hsize h p)"
    using t hp unat_hdr_add [of p "hsize h p"] by (simp add: LIMIT_def)
  have sum: "unat (hsize h p + hsize h1 bp) = unat (hsize h p) + unat (hsize h1 bp)"
    using u lim o(8) by (intro unat_sum32) simp
  have h2: "h2 = set_ptr p (hptr h1 bp) (set_size p (hsize h p + hsize h1 bp) h1)"
    using t hp by (simp add: h2_def join_prev_def)
  have hp2: "hsize h2 p = hsize h p + hsize h1 bp" "hptr h2 p = hd (rest1 @ [base h])" "base h2 = base h"
    using ch same(2) by (simp_all add: h2 heap_upd)
  have other: "hsize h2 x = hsize h x" "hptr h2 x = hptr h x" "hptr h2 x = hptr h1 x" if "x \<in> set as \<union> set rest1" for x
  proof -
    have "x \<noteq> p" "x \<noteq> bp" using that o by auto
    then show "hsize h2 x = hsize h x" "hptr h2 x = hptr h x" "hptr h2 x = hptr h1 x"
      using same(1) by (auto simp: h2 heap_upd)
  qed
  have pe: "unat p + ext h2 p = unat bp + 16 * unat (hsize h1 bp)"
    using pnb u by (simp add: ext_def hp2 sum)
  have c1: "chain h2 rest1 (base h)"
    using ch other(3) by (subst chain_cong [of rest1 h2 h1]) auto
  have "linked h2 (as @ [p] @ rest1)"
  proof (rule linked_replace [OF r sub])
    show "unat b + ext h2 b \<le> LIMIT \<and> (b = base h \<longleftrightarrow> hsize h2 b = 0)" if "b \<in> set [p]" for b
      using that pe lim(1) sum p(2) pnb by (auto simp: hp2 simp flip: unat_eq_0)
    show "before h2 b y" if "b \<in> set [p]" "y \<in> set rest1" for b y
      using that pe sep by (auto simp: before_def)
    show "before h x b" if "x \<in> set as" "b \<in> set [p]" for x b
      using that r by (auto simp: linked_def sorted_wrt_append)
  qed (use other hp2 c1 in auto)
  then show "linked h2 (as @ p # rest1)" by simp
  have "block_bytes p (hsize h2 p) = block_bytes p (hsize h p) \<union> block_bytes bp (hsize h1 bp)"
    using u by (auto simp: block_bytes_def hp2 sum)
  then show "free_bytes h2 (as @ p # rest1) =
      free_bytes h (as @ [p]) \<union> block_bytes bp (hsize h1 bp) \<union> free_bytes h rest1"
    using other(1) by (auto simp: free_bytes_def)
  show "hsize h1 bp \<le> hsize h2 p" by (simp add: hp2 word_le_nat_alt sum)
qed

lemma join_prev_links:
  assumes pl: "placed h as p rest bp h1 rest1" and t: "hdr_add p (hsize h1 p) \<noteq> bp"
  defines "h2 \<equiv> join_prev bp p h1"
  shows "linked h2 (as @ p # bp # rest1)"
    "free_bytes h2 (as @ p # bp # rest1) =
       free_bytes h (as @ [p]) \<union> block_bytes bp (hsize h1 bp) \<union> free_bytes h rest1"
    "hsize h2 bp = hsize h1 bp"
proof -
  note o = placed_order [OF pl]
  have r: "linked h (as @ p # rest)" and same: "\<forall>x. x \<noteq> bp \<longrightarrow> hptr h1 x = hptr h x \<and> hsize h1 x = hsize h x"
      "base h1 = base h" and lim: "unat bp + 16 * unat (hsize h1 bp) \<le> LIMIT" "hsize h1 bp \<noteq> 0"
    and sep: "\<forall>x \<in> set rest1. unat bp + 16 * unat (hsize h1 bp) \<le> unat x"
    and ch: "chain h1 (bp # rest1) (base h)" and sub: "set rest1 \<subseteq> set rest" "sorted_wrt (before h) rest1"
    using pl by (auto simp: placed_def)
  have h2: "h2 = set_ptr p bp h1" using t by (simp add: h2_def join_prev_def)
  have hp2: "hsize h2 bp = hsize h1 bp" "hsize h2 p = hsize h p" "hptr h2 p = bp"
      "hptr h2 bp = hd (rest1 @ [base h])" "base h2 = base h"
    using ch same o(4) by (auto simp: h2 heap_upd)
  have other: "hsize h2 x = hsize h x" "hptr h2 x = hptr h x" "hptr h2 x = hptr h1 x" if "x \<in> set as \<union> set rest1" for x
  proof -
    have "x \<noteq> p" "x \<noteq> bp" using that o by auto
    then show "hsize h2 x = hsize h x" "hptr h2 x = hptr h x" "hptr h2 x = hptr h1 x"
      using same(1) by (auto simp: h2 heap_upd)
  qed
  have e: "ext h2 bp = 16 * unat (hsize h1 bp)" "ext h2 p = ext h p"
    using o(2) by (simp_all add: ext_def hp2)
  have c1: "chain h2 rest1 (base h)"
    using ch other(3) by (subst chain_cong [of rest1 h2 h1]) auto
  have "linked h2 (as @ [p, bp] @ rest1)"
  proof (rule linked_replace [OF r sub])
    show "unat b + ext h2 b \<le> LIMIT \<and> (b = base h \<longleftrightarrow> hsize h2 b = 0)" if "b \<in> set [p, bp]" for b
      using that e lim r o(2) hp2(1,2) by (auto simp: linked_def)
    show "sorted_wrt (before h2) [p, bp]" using o(1) [of p] e by (simp add: before_def)
    show "before h2 b y" if "b \<in> set [p, bp]" "y \<in> set rest1" for b y
    proof (cases "b = p")
      case True
      then show ?thesis using that sub(1) r e(2) by (auto simp: linked_def sorted_wrt_append before_def)
    next
      case False
      then show ?thesis using that sep e(1) by (auto simp: before_def)
    qed
    show "before h x b" if "x \<in> set as" "b \<in> set [p, bp]" for x b
      using that r o(1) [of x] by (auto simp: linked_def sorted_wrt_append)
  qed (use other hp2 c1 in auto)
  then show "linked h2 (as @ p # bp # rest1)" by simp
  show "free_bytes h2 (as @ p # bp # rest1) =
      free_bytes h (as @ [p]) \<union> block_bytes bp (hsize h1 bp) \<union> free_bytes h rest1"
    using other(1) hp2(1,2) by (auto simp: free_bytes_def)
  show "hsize h2 bp = hsize h1 bp" by (rule hp2(1))
qed

text \<open>\<^verbatim>\<open>free\<close> as a whole.\<close>

lemma ufree_ok:
  assumes ring: "ring h xs" and l: "loose h xs bp"
  obtains h' ys where "ufree (bp + 16) h = Some h'" "ring h' ys" "set ys \<subseteq> insert bp (set xs)"
    "free_bytes h' ys = free_bytes h xs \<union> block_bytes bp (hsize h bp)" "base h' = base h"
    "\<And>x. x \<notin> insert bp (set xs) \<Longrightarrow> hsize h' x = hsize h x"
    "brk_calls h' = brk_calls h" "brk_of h' = brk_of h" "\<exists>y \<in> set ys. hsize h bp \<le> hsize h' y"
proof -
  have r: "linked h xs" and fp: "freep h \<in> set xs" using ring by (auto simp: ring_def)
  obtain as p rest where xs: "xs = as @ p # rest" and p: "p < bp" "\<And>x. x \<in> set rest \<Longrightarrow> bp < x"
      and f: "free_find h bp (freep h) = Some p"
    using find_place [OF r l fp] by blast
  let ?h1 = "join_next bp (hptr h p) h"
  obtain rest1 where pl: "placed h as p rest bp ?h1 rest1" and le: "hsize h bp \<le> hsize ?h1 bp" and
      fb: "block_bytes bp (hsize ?h1 bp) \<union> free_bytes h rest1 = block_bytes bp (hsize h bp) \<union> free_bytes h rest"
    using join_next_ok [OF r [unfolded xs] l [unfolded xs] p] r l p(1) unfolding xs placed_def by blast
  let ?h2 = "join_prev bp p ?h1"
  obtain ys where ys: "linked ?h2 (as @ p # ys)" "set ys \<subseteq> insert bp (set rest)"
      "free_bytes ?h2 (as @ p # ys) = free_bytes h (as @ [p]) \<union> block_bytes bp (hsize ?h1 bp) \<union> free_bytes h rest1"
      "\<exists>y \<in> set (as @ p # ys). hsize ?h1 bp \<le> hsize ?h2 y"
  proof (cases "hdr_add p (hsize ?h1 p) = bp")
    case True
    have "set rest1 \<subseteq> insert bp (set rest)" using pl by (auto simp: placed_def)
    then show ?thesis using that [of rest1] join_prev_merges [OF pl True] by simp
  next
    case False
    have "set (bp # rest1) \<subseteq> insert bp (set rest)" using pl by (auto simp: placed_def)
    then show ?thesis using that [of "bp # rest1"] join_prev_links [OF pl False] by simp
  qed
  have "hptr h p \<noteq> bp"
    using loose_notin [OF r l] r l p by (cases rest) (auto simp: xs linked_def loose_def)
  then have u: "ufree (bp + 16) h = Some (?h2\<lparr>freep := p\<rparr>)"
    using f by (simp add: ufree_def free_link_joins)
  show ?thesis
  proof (rule that [OF u])
    show "ring (?h2\<lparr>freep := p\<rparr>) (as @ p # ys)" using ys(1) by (simp add: ring_def)
    show "set (as @ p # ys) \<subseteq> insert bp (set xs)" using ys(2) by (auto simp: xs)
    show "free_bytes (?h2\<lparr>freep := p\<rparr>) (as @ p # ys) = free_bytes h xs \<union> block_bytes bp (hsize h bp)"
      using ys(3) fb by (auto simp: xs free_bytes_def)
    show "hsize (?h2\<lparr>freep := p\<rparr>) x = hsize h x" if "x \<notin> insert bp (set xs)" for x
      using that by (auto simp: xs join_prev_def join_next_def heap_upd)
    show "\<exists>y \<in> set (as @ p # ys). hsize h bp \<le> hsize (?h2\<lparr>freep := p\<rparr>) y"
      using ys(4) le by (auto intro: order_trans)
  qed (simp_all add: join_prev_def join_next_def heap_upd)
qed

section \<open>Taking a block\<close>

lemma block_of_zero [simp]: "block_bytes p 0 = {}"
  by (simp add: block_bytes_def)

lemma looseI:
  assumes "linked h xs" "hsize h bp \<noteq> 0" "unat (base h) + 16 \<le> unat bp"
    and "unat bp + 16 * unat (hsize h bp) \<le> LIMIT" "block_bytes bp (hsize h bp) \<inter> free_bytes h xs = {}"
  shows "loose h xs bp"
proof -
  have "before h x bp \<or> unat bp + 16 * unat (hsize h bp) \<le> unat x" if x: "x \<in> set xs" for x
  proof (cases "x = base h")
    case True
    then show ?thesis using assms(3) by (simp add: before_def ext_def)
  next
    case False
    then have s: "0 < unat (hsize h x)" "0 < unat (hsize h bp)"
      using assms(1,2) x by (auto simp: linked_def unat_gt_0)
    have d: "block_bytes bp (hsize h bp) \<inter> block_bytes x (hsize h x) = {}"
      using assms(5) x by (auto simp: free_bytes_def)
    have "max (unat bp) (unat x) \<notin> block_bytes bp (hsize h bp) \<inter> block_bytes x (hsize h x)"
      using d by blast
    then show ?thesis using s False by (auto simp: block_bytes_def before_def ext_def max_def split: if_splits)
  qed
  then show ?thesis using assms by (simp add: loose_def)
qed

lemma loose_disjoint:
  assumes "loose h xs bp" "linked h xs"
  shows "block_bytes bp (hsize h bp) \<inter> free_bytes h xs = {}"
proof -
  have "block_bytes bp (hsize h bp) \<inter> block_bytes x (hsize h x) = {}" if "x \<in> set xs" for x
  proof (cases "x = base h")
    case True
    then show ?thesis using assms(2) by (simp add: linked_def)
  next
    case False
    have "before h x bp \<or> unat bp + 16 * unat (hsize h bp) \<le> unat x" using assms(1) that by (auto simp: loose_def)
    then show ?thesis using False by (auto simp: block_bytes_def before_def ext_def)
  qed
  then show ?thesis by (auto simp: free_bytes_def)
qed

lemma linked_next:
  assumes r: "linked h xs" and j: "j < length xs" and s: "hsize h (hptr h (xs ! j)) \<noteq> 0"
  obtains as rest where "xs = as @ xs ! j # hptr h (xs ! j) # rest"
proof -
  have ch: "chain h xs (base h)" and b: "hsize h (base h) = 0" using r by (auto simp: linked_def)
  have "Suc j < length xs"
    using chain_nth [OF ch j] s b j by (cases "Suc j < length xs") (auto simp: nth_append)
  moreover from this have "hptr h (xs ! j) = xs ! Suc j" using chain_nth [OF ch j] by (simp add: nth_append)
  moreover from calculation have "xs = take j xs @ xs ! j # xs ! Suc j # drop (Suc (Suc j)) xs"
    by (metis Cons_nth_drop_Suc id_take_nth_drop j)
  ultimately show ?thesis using that by metis
qed

text \<open>The bytes of the blocks are disjoint, so that shrinking or removing one removes just its bytes.\<close>

lemma linked_rest_disjoint:
  assumes r: "linked h (as @ p # rest)"
  shows "block_bytes p (hsize h p) \<inter> free_bytes h (as @ rest) = {}"
proof -
  have "block_bytes p (hsize h p) \<inter> block_bytes x (hsize h x) = {}" if "x \<in> set (as @ rest)" for x
  proof -
    have "before h x p \<or> before h p x" using r that by (auto simp: linked_def sorted_wrt_append)
    moreover have "16 * unat (hsize h x) \<le> ext h x" "16 * unat (hsize h p) \<le> ext h p"
      using r by (auto simp: ext_def linked_def)
    ultimately show ?thesis by (auto simp: block_bytes_def before_def)
  qed
  then show ?thesis by (auto simp: free_bytes_def)
qed

lemma linked_above:
  assumes "linked h (as @ p # rest)" "p \<noteq> base h"
  shows "unat (base h) + 16 \<le> unat p"
proof -
  have "as \<noteq> [] \<and> hd as = base h" using assms by (cases as) (auto simp: linked_def)
  then have "before h (base h) p" using assms(1) by (cases as) (auto simp: linked_def)
  then show ?thesis by (simp add: before_def ext_def)
qed

text \<open>What is left of a block from which the last headers are taken, and the part taken.\<close>

lemma split_block:
  assumes "n \<noteq> 0" "n < hsize h p" "unat p + 16 * unat (hsize h p) \<le> LIMIT"
  defines "q \<equiv> hdr_add p (hsize h p - n)"
  shows "unat q = unat p + 16 * unat (hsize h p - n)" "unat (hsize h p - n) + unat n = unat (hsize h p)"
    "0 < unat (hsize h p - n)" "q \<noteq> p" "unat q + 16 * unat n = unat p + 16 * unat (hsize h p)"
proof -
  show s: "unat (hsize h p - n) + unat n = unat (hsize h p)"
    using assms(2) by (simp add: unat_diff_le word_less_nat_alt word_le_nat_alt)
  then show "0 < unat (hsize h p - n)" using assms(2) by (simp add: word_less_nat_alt)
  show q: "unat q = unat p + 16 * unat (hsize h p - n)"
    unfolding q_def using assms(3) s by (intro unat_hdr_add) (simp add: LIMIT_def)
  then show "q \<noteq> p" using \<open>0 < unat (hsize h p - n)\<close> by auto
  show "unat q + 16 * unat n = unat p + 16 * unat (hsize h p)" using q s by simp
qed

definition taken :: "uheap \<Rightarrow> u64 list \<Rightarrow> u32 \<Rightarrow> u64 \<Rightarrow> uheap \<Rightarrow> u64 list \<Rightarrow> bool" where
  "taken h xs n q h' ys \<longleftrightarrow> ring h' ys \<and> hsize h' q = n \<and> loose h' ys q \<and> set ys \<subseteq> set xs \<and>
     free_bytes h' ys \<inter> block_bytes q n = {} \<and> free_bytes h' ys \<union> block_bytes q n = free_bytes h xs \<and>
     (\<forall>x. x \<notin> insert q (set xs) \<longrightarrow> hsize h' x = hsize h x) \<and> base h' = base h"

lemma take_whole:
  assumes r: "linked h (as @ prevp # p # rest)" and n: "hsize h p = n" "n \<noteq> 0"
  defines "h' \<equiv> (set_ptr prevp (hptr h p) h)\<lparr>freep := prevp\<rparr>"
  shows "taken h (as @ prevp # p # rest) n p h' (as @ prevp # rest)"
proof -
  have d: "distinct (as @ prevp # p # rest)" by (rule linked_distinct [OF r])
  have pb: "p \<noteq> base h" using r n by (auto simp: linked_def)
  have ext: "ext h' = ext h" "before h' = before h" by (auto simp: h'_def ext_def before_def heap_upd fun_eq_iff)
  have same0: "hsize h' = hsize h" "base h' = base h" by (simp_all add: h'_def heap_upd)
  have c: "chain h' rest (base h)"
  proof -
    have "hptr h' x = hptr h x" if "x \<in> set rest" for x using that d by (auto simp: h'_def heap_upd)
    then show ?thesis using r chain_cong [of rest h' h] by (simp add: linked_def)
  qed
  have hp: "hptr h' prevp = hd (rest @ [base h])" using r by (simp add: h'_def heap_upd linked_def)
  have "linked h' (as @ [prevp] @ rest)"
  proof (rule linked_replace [OF r])
    show "chain h' ([prevp] @ rest) (base h)" using hp c by simp
    show "unat b + ext h' b \<le> LIMIT \<and> (b = base h \<longleftrightarrow> hsize h' b = 0)" if "b \<in> set [prevp]" for b
      using that r by (auto simp: linked_def ext same0)
    show "before h' b y" if "b \<in> set [prevp]" "y \<in> set rest" for b y
      using that r by (auto simp: linked_def ext sorted_wrt_append)
    show "before h x b" if "x \<in> set as" "b \<in> set [prevp]" for x b
      using that r by (auto simp: linked_def sorted_wrt_append)
  qed (use r d in \<open>auto simp: h'_def heap_upd linked_def sorted_wrt_append\<close>)
  then have l: "linked h' (as @ prevp # rest)" by simp
  have r2: "linked h ((as @ [prevp]) @ p # rest)" using r by simp
  have fb: "block_bytes p n \<inter> free_bytes h (as @ prevp # rest) = {}"
    "free_bytes h (as @ prevp # p # rest) = free_bytes h (as @ prevp # rest) \<union> block_bytes p n"
    using linked_rest_disjoint [OF r2] n(1) by (auto simp: free_bytes_def)
  have same: "free_bytes h' (as @ prevp # rest) = free_bytes h (as @ prevp # rest)" "hsize h' = hsize h" "base h' = base h"
    by (simp_all add: h'_def heap_upd free_bytes_def)
  have "loose h' (as @ prevp # rest) p"
    using linked_above [OF r2 pb] n r2 pb fb(1)
    by (intro looseI [OF l]) (auto simp: same linked_def ext_def)
  moreover have "freep h' = prevp" by (simp add: h'_def)
  ultimately show ?thesis using l fb by (auto simp: taken_def ring_def same n)
qed

lemma take_part:
  assumes r: "linked h (as @ p # rest)" and n: "n \<noteq> 0" "n < hsize h p" and fp: "f \<in> set (as @ p # rest)"
  defines "q \<equiv> hdr_add p (hsize h p - n)"
  defines "h' \<equiv> (set_size q n (set_size p (hsize h p - n) h))\<lparr>freep := f\<rparr>"
  shows "taken h (as @ p # rest) n q h' (as @ p # rest)"
proof -
  have pb: "p \<noteq> base h" using r n by (auto simp: linked_def)
  have lim: "unat p + 16 * unat (hsize h p) \<le> LIMIT" using r pb by (auto simp: linked_def ext_def)
  note sb = split_block [OF n lim, folded q_def]
  have b16: "unat (base h) + 16 \<le> unat p" by (rule linked_above [OF r pb])
  have qn: "q \<notin> set (as @ p # rest)"
  proof
    assume "q \<in> set (as @ p # rest)"
    then have "before h q p \<or> before h p q" using sb(4) r by (auto simp: linked_def sorted_wrt_append)
    moreover have "0 < unat n" using n(1) by (simp add: unat_gt_0)
    moreover have "ext h p = 16 * unat (hsize h p)" using pb by (simp add: ext_def)
    ultimately show False using sb(1,2,3) unfolding before_def by linarith
  qed
  have sz: "hsize h' q = n" "hsize h' p = hsize h p - n" "base h' = base h" "hptr h' = hptr h"
    "\<And>x. x \<notin> {p, q} \<Longrightarrow> hsize h' x = hsize h x"
    using sb(4) by (auto simp: h'_def heap_upd)
  have d: "distinct (as @ p # rest)" by (rule linked_distinct [OF r])
  have sz6: "hsize h' x = hsize h x" if "x \<in> set as \<union> set rest" for x
    using that d qn by (intro sz(5)) auto
  have ch: "chain h' zs e = chain h zs e" for zs e by (rule chain_cong) (simp add: sz)
  have "linked h' (as @ [p] @ rest)"
  proof (rule linked_replace [OF r])
    show "hsize h' x = hsize h x" if "x \<in> set as \<union> set rest" for x by (rule sz6 [OF that])
    show "unat b + ext h' b \<le> LIMIT \<and> (b = base h \<longleftrightarrow> hsize h' b = 0)" if "b \<in> set [p]" for b
      using that pb sb(2,3) lim by (auto simp: ext_def sz simp flip: unat_eq_0)
    show "before h' b y" if "b \<in> set [p]" "y \<in> set rest" for b y
    proof -
      have "before h p y" using that r by (auto simp: linked_def sorted_wrt_append)
      then show ?thesis using that pb sb(2) by (simp add: before_def ext_def sz)
    qed
    show "before h x b" if "x \<in> set as" "b \<in> set [p]" for x b
      using that r by (auto simp: linked_def sorted_wrt_append)
  qed (use r ch in \<open>auto simp: sz linked_def sorted_wrt_append\<close>)
  then have l: "linked h' (as @ p # rest)" by simp
  have other: "free_bytes h' (as @ rest) = free_bytes h (as @ rest)"
    unfolding free_bytes_def by (rule SUP_cong) (simp_all add: sz6)
  have bl: "block_bytes p (hsize h p) = block_bytes p (hsize h p - n) \<union> block_bytes q n"
    "block_bytes p (hsize h p - n) \<inter> block_bytes q n = {}"
    using sb by (auto simp: block_bytes_def)
  have fb: "free_bytes h' (as @ p # rest) = free_bytes h (as @ rest) \<union> block_bytes p (hsize h p - n)"
    "free_bytes h (as @ p # rest) = free_bytes h (as @ rest) \<union> block_bytes p (hsize h p)"
    using other sz(2) by (auto simp: free_bytes_def)
  have dj: "free_bytes h' (as @ p # rest) \<inter> block_bytes q n = {}"
    using linked_rest_disjoint [OF r] bl fb by auto
  moreover have "loose h' (as @ p # rest) q"
    using dj sb b16 n lim by (intro looseI [OF l]) (auto simp: sz)
  moreover have "freep h' = f" by (simp add: h'_def)
  moreover have "free_bytes h' (as @ p # rest) \<union> block_bytes q n = free_bytes h (as @ p # rest)"
    using fb bl(1) by blast
  moreover have "\<forall>x. x \<notin> insert q (set (as @ p # rest)) \<longrightarrow> hsize h' x = hsize h x"
    using sz(5) by simp
  ultimately show ?thesis using l fp sz(1,3) unfolding taken_def ring_def by simp
qed

lemma take_block_ok:
  assumes r: "linked h xs" and j: "j < length xs" and n: "n \<noteq> 0" "n \<le> hsize h (hptr h (xs ! j))"
  obtains q h' ys where "take_block n (xs ! j) (hptr h (xs ! j)) h = (q + 16, h')" "taken h xs n q h' ys"
proof -
  let ?p = "hptr h (xs ! j)"
  have "hsize h ?p \<noteq> 0" using n by auto
  then obtain as rest where xs: "xs = as @ xs ! j # ?p # rest" by (rule linked_next [OF r j])
  have r1: "linked h (as @ xs ! j # ?p # rest)" and r2: "linked h ((as @ [xs ! j]) @ ?p # rest)"
    using r xs by simp_all
  show ?thesis
  proof (cases "hsize h ?p = n")
    case True
    then show ?thesis
      using that take_whole [OF r1 True n(1)] xs by (simp add: take_block_def hdr_add_def)
  next
    case False
    then have "n < hsize h ?p" using n(2) by simp
    from take_part [OF r2 n(1) this, of "xs ! j"] show ?thesis
      using that False xs nth_mem [OF j] by (simp add: take_block_def hdr_add_def Let_def set_size_def)
  qed
qed

section \<open>The search for a block\<close>

text \<open>The positions that the loop visits from position \<open>i\<close> until it is at position \<open>f\<close>.\<close>

definition path :: "nat \<Rightarrow> nat \<Rightarrow> nat \<Rightarrow> nat set" where
  "path i f n = (if i < f then {i<..f} else {i<..<n} \<union> {..f})"

definition step :: "nat \<Rightarrow> nat \<Rightarrow> nat" where
  "step i n = (if Suc i < n then Suc i else 0)"

lemma path_step: "i < n \<Longrightarrow> f < n \<Longrightarrow>
    path i f n = insert (step i n) (if step i n = f then {} else path (step i n) f n)"
  by (auto simp: path_def step_def)

lemma path_full: "f < n \<Longrightarrow> path f f n = {..<n}"
  by (auto simp: path_def)

lemma hptr_step: "linked h xs \<Longrightarrow> i < length xs \<Longrightarrow> hptr h (xs ! i) = xs ! step i (length xs)"
  using chain_nth [of h xs "base h" i] by (auto simp: linked_def step_def nth_append hd_conv_nth)

definition more_then_loop :: "u32 \<Rightarrow> uheap \<Rightarrow> (u64 \<times> uheap) option" where
  "more_then_loop n h =
     (case morecore n h of
        None \<Rightarrow> None
      | Some (q, h) \<Rightarrow> if q = 0 then Some (0, h) else malloc_loop n q (hptr h q) h)"

lemma malloc_pass:
  assumes r: "linked h xs" and i: "i < length xs" and f: "f < length xs" "freep h = xs ! f"
  shows "(\<exists>j<length xs. n \<le> hsize h (hptr h (xs ! j)) \<and> malloc_loop n (xs ! i) (hptr h (xs ! i)) h =
            Some (take_block n (xs ! j) (hptr h (xs ! j)) h)) \<or>
    (\<forall>m \<in> path i f (length xs). hsize h (xs ! m) < n) \<and>
      malloc_loop n (xs ! i) (hptr h (xs ! i)) h = more_then_loop n h"
  using i
proof (induction "if i < f then f - i else f + length xs - i" arbitrary: i rule: less_induct)
  case less
  let ?k = "step i (length xs)"
  have k: "?k < length xs" using less.prems by (auto simp: step_def)
  have p: "hptr h (xs ! i) = xs ! ?k" by (rule hptr_step [OF r less.prems])
  have pf: "xs ! ?k = freep h \<longleftrightarrow> ?k = f"
    using linked_distinct [OF r] k f by (simp add: nth_eq_iff_index_eq)
  show ?case
  proof (cases "n \<le> hsize h (xs ! ?k)")
    case True
    then have "malloc_loop n (xs ! i) (hptr h (xs ! i)) h = Some (take_block n (xs ! i) (hptr h (xs ! i)) h)"
      by (subst malloc_loop.simps) (simp add: p)
    then show ?thesis using True p less.prems by auto
  next
    case small: False
    show ?thesis
    proof (cases "?k = f")
      case True
      then have "malloc_loop n (xs ! i) (hptr h (xs ! i)) h = more_then_loop n h"
        using small pf by (subst malloc_loop.simps) (simp add: p more_then_loop_def)
      then show ?thesis using True small path_step [OF less.prems f(1)] by (auto simp: not_le)
    next
      case False
      have "(if ?k < f then f - ?k else f + length xs - ?k) < (if i < f then f - i else f + length xs - i)"
        using False less.prems f(1) by (auto simp: step_def)
      then have IH: "(\<exists>j<length xs. n \<le> hsize h (hptr h (xs ! j)) \<and> malloc_loop n (xs ! ?k) (hptr h (xs ! ?k)) h =
            Some (take_block n (xs ! j) (hptr h (xs ! j)) h)) \<or>
          (\<forall>m \<in> path ?k f (length xs). hsize h (xs ! m) < n) \<and>
          malloc_loop n (xs ! ?k) (hptr h (xs ! ?k)) h = more_then_loop n h"
        using less.hyps k by blast
      moreover have "malloc_loop n (xs ! i) (hptr h (xs ! i)) h = malloc_loop n (xs ! ?k) (hptr h (xs ! ?k)) h"
        using small pf False by (subst malloc_loop.simps) (simp add: p)
      ultimately show ?thesis
        using small False path_step [OF less.prems f(1)] by (auto simp: not_le)
    qed
  qed
qed

end
