(* ===== verification/Umalloc_Properties.thy ===== *)
theory Umalloc_Properties
  imports Umalloc_Facts
begin

text \<open>
  The contract of the user allocator.  \<open>L\<close> is the set of blocks (their header addresses) that
  the program holds.  \<open>heap_inv\<close> says that the free list is well formed and that the blocks in
  use overlap neither each other nor the free bytes.
\<close>

section \<open>Blocks in use\<close>

definition heap_inv :: "uheap \<Rightarrow> u64 list \<Rightarrow> u64 set \<Rightarrow> bool" where
  "heap_inv h xs L \<longleftrightarrow> ring h xs \<and> (\<forall>q \<in> L. loose h xs q) \<and>
     (\<forall>q \<in> L. \<forall>x \<in> L. q \<noteq> x \<longrightarrow> block_bytes q (hsize h q) \<inter> block_bytes x (hsize h x) = {})"

text \<open>The documented behaviour of \<^verbatim>\<open>sbrk(n)\<close>: it fails, or hands out \<open>n\<close> bytes of new memory.\<close>

definition break_ok :: "uheap \<Rightarrow> u64 list \<Rightarrow> u64 set \<Rightarrow> i32 \<Rightarrow> bool" where
  "break_ok h xs L n \<longleftrightarrow>
     (let a = brk_of h (brk_calls h) n; R = {unat a ..< unat a + nat (sint n)}
      in a = - 1 \<or> unat (base h) + 16 \<le> unat a \<and> unat a + nat (sint n) \<le> LIMIT \<and>
           R \<inter> free_bytes h xs = {} \<and> (\<forall>x \<in> L. R \<inter> block_bytes x (hsize h x) = {}))"

lemma block_nonempty: "n \<noteq> 0 \<Longrightarrow> unat q \<in> block_bytes q n"
  by (simp add: block_bytes_def unat_gt_0)

lemma loose_cong: "hsize h' = hsize h \<Longrightarrow> base h' = base h \<Longrightarrow> loose h' xs a = loose h xs a"
  by (simp add: loose_def before_def ext_def)

lemma loose_mono:
  assumes l: "loose h xs x" "linked h xs" and r: "linked h' ys" and e: "hsize h' x = hsize h x" "base h' = base h"
    and d: "block_bytes x (hsize h x) \<inter> free_bytes h' ys = {}"
  shows "loose h' ys x"
  using l(1) e d by (intro looseI [OF r]) (auto simp: loose_def)

lemma heap_inv_taken:
  assumes inv: "heap_inv h xs L" and t: "taken h xs n q h' ys" and n: "n \<noteq> 0"
  shows "heap_inv h' ys (insert q L)" "q \<notin> L" "\<And>x. x \<in> L \<Longrightarrow> hsize h' x = hsize h x"
proof -
  have r: "linked h xs" and r': "linked h' ys" "ring h' ys" and base: "base h' = base h" and q: "hsize h' q = n"
    using inv t by (auto simp: heap_inv_def taken_def ring_def)
  have dx: "block_bytes x (hsize h x) \<inter> free_bytes h xs = {}" if "x \<in> L" for x
    using inv that loose_disjoint [OF _ r] by (auto simp: heap_inv_def)
  have sub: "free_bytes h' ys \<subseteq> free_bytes h xs" "block_bytes q n \<subseteq> free_bytes h xs"
    using t by (auto simp: taken_def)
  have sz0: "hsize h x \<noteq> 0" if "x \<in> L" for x using inv that by (auto simp: heap_inv_def loose_def)
  show qL: "q \<notin> L"
    using dx [of q] sub(2) block_nonempty [OF n, of q] sz0 [of q] block_nonempty [of "hsize h q" q] by blast
  show sz: "hsize h' x = hsize h x" if "x \<in> L" for x
  proof -
    have "x \<notin> set xs" using inv that loose_notin [OF r] by (auto simp: heap_inv_def)
    then show ?thesis using t that qL by (auto simp: taken_def)
  qed
  have "loose h' ys x" if "x \<in> insert q L" for x
  proof (cases "x = q")
    case True
    then show ?thesis using t by (simp add: taken_def)
  next
    case False
    then have "x \<in> L" using that by simp
    then show ?thesis
      using inv sz base dx sub(1) by (intro loose_mono [OF _ r r'(1)]) (auto simp: heap_inv_def)
  qed
  moreover have "block_bytes q n \<inter> block_bytes x (hsize h x) = {}" if "x \<in> L" for x
    using dx [OF that] sub(2) by blast
  ultimately show "heap_inv h' ys (insert q L)"
    using inv r'(2) sz q qL unfolding heap_inv_def by auto
qed

lemma heap_inv_freed:
  assumes inv: "heap_inv h xs L" and l: "loose h xs bp" "bp \<notin> L"
    and d: "\<forall>x \<in> L. block_bytes bp (hsize h bp) \<inter> block_bytes x (hsize h x) = {}"
  obtains h' ys where "ufree (bp + 16) h = Some h'" "heap_inv h' ys L"
    "free_bytes h' ys = free_bytes h xs \<union> block_bytes bp (hsize h bp)"
    "\<And>x. x \<in> L \<Longrightarrow> hsize h' x = hsize h x" "\<exists>y \<in> set ys. hsize h bp \<le> hsize h' y" "brk_calls h' = brk_calls h"
proof -
  have ring: "ring h xs" using inv by (simp add: heap_inv_def)
  then have r: "linked h xs" by (simp add: ring_def)
  obtain h' ys where u: "ufree (bp + 16) h = Some h'" and r': "ring h' ys"
      and fb: "free_bytes h' ys = free_bytes h xs \<union> block_bytes bp (hsize h bp)" and base: "base h' = base h"
      and keep: "\<And>x. x \<notin> insert bp (set xs) \<Longrightarrow> hsize h' x = hsize h x"
      and big: "\<exists>y \<in> set ys. hsize h bp \<le> hsize h' y" and brk: "brk_calls h' = brk_calls h"
    using ufree_ok [OF ring l(1)] by metis
  have sz: "hsize h' x = hsize h x" if "x \<in> L" for x
    using that inv loose_notin [OF r] l(2) by (intro keep) (auto simp: heap_inv_def)
  have dx: "block_bytes x (hsize h x) \<inter> free_bytes h' ys = {}" if "x \<in> L" for x
  proof -
    have "loose h xs x" using inv that by (simp add: heap_inv_def)
    from loose_disjoint [OF this r] show ?thesis using d that fb by blast
  qed
  have "loose h' ys x" if "x \<in> L" for x
  proof (rule loose_mono [OF _ r _ sz [OF that] base dx [OF that]])
    show "loose h xs x" using inv that by (simp add: heap_inv_def)
    show "linked h' ys" using r' by (simp add: ring_def)
  qed
  then have "heap_inv h' ys L" using inv r' sz by (auto simp: heap_inv_def)
  then show ?thesis using that u fb sz big brk by blast
qed

text \<open>
  Claim C36.  \<^verbatim>\<open>free\<close> returns.  Given a block that the program holds, the search for its place in
  the free list ends, the block's bytes and no others are added to the free bytes (adjacent
  blocks are joined), the blocks still in use keep their sizes, and the invariant holds without
  the freed block.
\<close>

theorem free_keeps_heap:
  assumes "heap_inv h xs L" and "q \<in> L"
  shows "\<exists>h' ys. ufree (q + 16) h = Some h' \<and> heap_inv h' ys (L - {q}) \<and>
    free_bytes h' ys = free_bytes h xs \<union> block_bytes q (hsize h q) \<and> (\<forall>x \<in> L - {q}. hsize h' x = hsize h x)"
proof -
  have "heap_inv h xs (L - {q})" "loose h xs q" using assms by (auto simp: heap_inv_def)
  moreover have "\<forall>x \<in> L - {q}. block_bytes q (hsize h q) \<inter> block_bytes x (hsize h x) = {}"
    using assms unfolding heap_inv_def by auto
  ultimately show ?thesis using heap_inv_freed [of h xs "L - {q}" q] by (metis Diff_iff singletonI)
qed

section \<open>malloc\<close>

lemma unat_units: "unat (units nbytes) = (unat nbytes + 15) div 16 + 1"
proof -
  have n: "unat nbytes < 2 ^ 32" using unsigned_less [of nbytes] by simp
  have a: "unat ((ucast nbytes :: u64) + 16 - 1) = unat nbytes + 15"
    using n by (simp add: unat_word_ariths unsigned_ucast_eq take_bit_nat_eq_self)
  have "unat (((ucast nbytes :: u64) + 16 - 1) div 16 + 1) = (unat nbytes + 15) div 16 + 1"
    using a n by (simp add: unat_word_ariths unat_div_distrib)
  then show ?thesis
    using n by (simp add: units_def unsigned_ucast_eq take_bit_nat_eq_self)
qed

lemma units_enough: "unat nbytes + 16 \<le> 16 * unat (units nbytes)" "units nbytes \<noteq> 0"
proof -
  show "unat nbytes + 16 \<le> 16 * unat (units nbytes)" by (simp add: unat_units)
  then show "units nbytes \<noteq> 0" by auto
qed

lemma malloc_loop_found:
  assumes ring: "ring h xs" and n: "n \<noteq> 0" and big: "\<exists>y \<in> set xs. n \<le> hsize h y"
  obtains q h' ys where "malloc_loop n (freep h) (hptr h (freep h)) h = Some (q + 16, h')" "taken h xs n q h' ys" "brk_calls h' = brk_calls h"
proof -
  have r: "linked h xs" using ring by (simp add: ring_def)
  obtain f where f: "f < length xs" "freep h = xs ! f" using ring by (auto simp: ring_def in_set_conv_nth)
  obtain m where m: "m < length xs" "n \<le> hsize h (xs ! m)" using big by (auto simp: in_set_conv_nth)
  have "\<not> (\<forall>m \<in> path f f (length xs). hsize h (xs ! m) < n)"
    using m f(1) by (auto simp: path_full not_less)
  then obtain j where j: "j < length xs" "n \<le> hsize h (hptr h (xs ! j))"
      "malloc_loop n (xs ! f) (hptr h (xs ! f)) h = Some (take_block n (xs ! j) (hptr h (xs ! j)) h)"
    using malloc_pass [OF r f(1) f, of n] by blast
  obtain q h' ys where "take_block n (xs ! j) (hptr h (xs ! j)) h = (q + 16, h')" "taken h xs n q h' ys"
    using take_block_ok [OF r j(1) n j(2)] by blast
  moreover from this(1) have "brk_calls h' = brk_calls h" by (auto simp: take_block_def set_ptr_def set_size_def Let_def split: if_splits)
  ultimately show ?thesis using that j(3) f(2) by simp
qed

definition core_units :: "u32 \<Rightarrow> u32" where
  "core_units n = (if n < 4096 then 4096 else n)"

lemma freep_nonzero:
  assumes "ring h xs"
  shows "freep h \<noteq> 0"
proof -
  have r: "linked h xs" using assms by (simp add: ring_def)
  obtain f where f: "f < length xs" "freep h = xs ! f" using assms by (auto simp: ring_def in_set_conv_nth)
  have "base h \<le> freep h" "base h \<noteq> 0"
    using linked_less [OF r, of 0 f] r f by (cases f; auto simp: linked_def hd_conv_nth)+
  then show ?thesis by (metis word_le_0_iff)
qed

lemma heap_inv_brk: "heap_inv (h\<lparr>brk_calls := c\<rparr>) xs L = heap_inv h xs L"
proof -
  let ?h = "h\<lparr>brk_calls := c\<rparr>"
  have c: "chain ?h xs e = chain h xs e" for e by (rule chain_cong) simp
  have "ext ?h = ext h" by (rule ext) (simp add: Umalloc_Facts.ext_def)
  moreover from this have "before ?h = before h" by (intro ext) (simp add: before_def)
  ultimately show ?thesis by (simp add: heap_inv_def ring_def linked_def loose_def c)
qed

text \<open>The number of bytes that \<^verbatim>\<open>morecore\<close> asks for.\<close>

definition core_bytes :: "u32 \<Rightarrow> i32" where
  "core_bytes n = ucast ((ucast (core_units n) :: u64) * 16)"

lemma sint_core_bytes:
  assumes "unat n < 2 ^ 27"
  shows "nat (sint (core_bytes n)) = 16 * unat (core_units n)"
proof -
  let ?u = "core_units n"
  have u: "unat ?u < 2 ^ 27" using assms by (simp add: core_units_def)
  have "unat ((ucast ?u :: u64) * 16) = 16 * unat ?u"
    using u by (simp add: unat_word_ariths unsigned_ucast_eq take_bit_nat_eq_self)
  then have c: "unat (core_bytes n) = 16 * unat ?u"
    using u by (simp add: core_bytes_def unsigned_ucast_eq take_bit_nat_eq_self)
  have "uint (core_bytes n) = int (16 * unat ?u)" unfolding c [symmetric] by simp
  moreover have "- (2 ^ (LENGTH(32) - Suc 0)) \<le> int (16 * unat ?u)" "int (16 * unat ?u) < 2 ^ (LENGTH(32) - Suc 0)"
  proof -
    have "unat ?u < 134217728" using u by simp
    then have "int (16 * unat ?u) < 2147483648" by linarith
    then show "int (16 * unat ?u) < 2 ^ (LENGTH(32) - Suc 0)" by simp
    show "- (2 ^ (LENGTH(32) - Suc 0)) \<le> int (16 * unat ?u)" by (rule order_trans [of _ 0]) simp_all
  qed
  ultimately have "sint (core_bytes n) = int (16 * unat ?u)"
    by (simp only: sint_uint signed_take_bit_int_eq_self)
  then show ?thesis by (simp only: nat_int)
qed

text \<open>A new region as a block: its size field is set, and it is in no list.\<close>

lemma new_block:
  assumes inv: "heap_inv h xs L" and b: "break_ok h xs L (core_bytes n)" and n: "unat n < 2 ^ 27"
  defines "a \<equiv> brk_of h (brk_calls h) (core_bytes n)"
  assumes ok: "a \<noteq> - 1"
  shows "heap_inv (set_size a (core_units n) h) xs L" "loose (set_size a (core_units n) h) xs a" "a \<notin> L"
    "\<forall>x \<in> L. block_bytes a (core_units n) \<inter> block_bytes x (hsize h x) = {}"
    "free_bytes (set_size a (core_units n) h) xs = free_bytes h xs"
proof -
  let ?nu = "core_units n" and ?h = "set_size a (core_units n) h"
  have nz: "?nu \<noteq> 0" by (auto simp: core_units_def)
  have r: "linked h xs" using inv by (auto simp: heap_inv_def ring_def)
  have R: "{unat a ..< unat a + nat (sint (core_bytes n))} = block_bytes a ?nu"
    by (simp only: sint_core_bytes [OF n] block_bytes_def)
  have len: "nat (sint (core_bytes n)) = 16 * unat ?nu" by (rule sint_core_bytes [OF n])
  have new: "unat (base h) + 16 \<le> unat a" "unat a + 16 * unat ?nu \<le> LIMIT"
      "block_bytes a ?nu \<inter> free_bytes h xs = {}" "\<forall>x \<in> L. block_bytes a ?nu \<inter> block_bytes x (hsize h x) = {}"
    using b ok R len by (auto simp: break_ok_def Let_def a_def)
  show "\<forall>x \<in> L. block_bytes a ?nu \<inter> block_bytes x (hsize h x) = {}" by (rule new(4))
  have mem: "unat a \<in> block_bytes a ?nu" by (rule block_nonempty [OF nz])
  show aL: "a \<notin> L"
  proof
    assume "a \<in> L"
    moreover from this have "unat a \<in> block_bytes a (hsize h a)"
      using inv by (intro block_nonempty) (auto simp: heap_inv_def loose_def)
    ultimately show False using new(4) mem by blast
  qed
  have ab: "a \<noteq> base h" using new(1) by auto
  have axs: "a \<notin> set xs"
  proof
    assume a: "a \<in> set xs"
    then have "unat a \<in> block_bytes a (hsize h a)"
      using r ab by (intro block_nonempty) (auto simp: linked_def)
    then show False using a new(3) mem by (auto simp: free_bytes_def)
  qed
  have same: "hsize ?h x = hsize h x" if "x \<noteq> a" for x using that by (simp add: set_size_def)
  have e: "ext ?h x = ext h x" if "x \<in> set xs" for x using that axs same [of x] by (auto simp: ext_def set_size_def)
  have c: "chain ?h xs b = chain h xs b" for b by (rule chain_cong) (simp add: set_size_def)
  have "sorted_wrt (before ?h) xs = sorted_wrt (before h) xs"
    using e by (auto simp: before_def elim!: sorted_wrt_mono_rel [rotated])
  then have l: "linked ?h xs"
    using r c e axs ab unfolding linked_def by (auto simp: set_size_def)
  show fb: "free_bytes ?h xs = free_bytes h xs"
    unfolding free_bytes_def by (rule SUP_cong) (use axs in \<open>auto simp: set_size_def\<close>)
  show "loose ?h xs a" using fb new nz by (intro looseI [OF l]) (auto simp: set_size_def)
  have "loose ?h xs x" if "x \<in> L" for x
  proof -
    have "loose h xs x" "x \<noteq> a" using that inv aL by (auto simp: heap_inv_def)
    then show ?thesis using e same [of x] by (simp add: loose_def before_def) (simp add: set_size_def)
  qed
  then show "heap_inv ?h xs L"
    using inv aL l unfolding heap_inv_def ring_def by (auto simp: set_size_def)
qed

lemma free_bytes_brk: "free_bytes (h\<lparr>brk_calls := c\<rparr>) xs = free_bytes h xs"
  by (simp add: free_bytes_def)

lemma morecore_fails:
  "brk_of h (brk_calls h) (core_bytes n) = - 1 \<Longrightarrow> morecore n h = Some (0, h\<lparr>brk_calls := brk_calls h @ [core_bytes n]\<rparr>)"
  by (auto simp: morecore_def sbrk_def core_units_def core_bytes_def Let_def)

lemma morecore_ok:
  assumes inv: "heap_inv h xs L" and b: "break_ok h xs L (core_bytes n)" and n: "unat n < 2 ^ 27"
  defines "a \<equiv> brk_of h (brk_calls h) (core_bytes n)"
  assumes ok: "a \<noteq> - 1"
  obtains h' ys where "morecore n h = Some (freep h', h')" "freep h' \<noteq> 0" "heap_inv h' ys L"
    "\<forall>x \<in> L. hsize h' x = hsize h x" "\<exists>y \<in> set ys. n \<le> hsize h' y"
    "free_bytes h' ys = free_bytes h xs \<union> block_bytes a (core_units n)" "brk_calls h' = brk_calls h @ [core_bytes n]"
proof -
  let ?nu = "core_units n"
  let ?h0 = "h\<lparr>brk_calls := brk_calls h @ [core_bytes n]\<rparr>"
  let ?h1 = "set_size a ?nu ?h0"
  note nb = new_block [OF inv b n, folded a_def, OF ok]
  have h1: "?h1 = (set_size a ?nu h)\<lparr>brk_calls := brk_calls h @ [core_bytes n]\<rparr>" by (simp add: set_size_def)
  have inv1: "heap_inv ?h1 xs L" using nb(1) by (simp only: h1 heap_inv_brk)
  have fb1: "free_bytes ?h1 xs = free_bytes h xs" using nb(5) by (simp only: h1 free_bytes_brk)
  have l0: "loose ?h1 xs a"
    using nb(2) loose_cong [of ?h1 "set_size a ?nu h"] by (simp add: set_size_def)
  have sz1: "hsize ?h1 a = ?nu" "\<And>x. x \<in> L \<Longrightarrow> hsize ?h1 x = hsize h x" using nb(3) by (auto simp: set_size_def)
  have d1: "\<forall>x \<in> L. block_bytes a (hsize ?h1 a) \<inter> block_bytes x (hsize ?h1 x) = {}"
    using nb(4) sz1 by simp
  obtain h' ys where u: "ufree (a + 16) ?h1 = Some h'" "heap_inv h' ys L"
      "free_bytes h' ys = free_bytes ?h1 xs \<union> block_bytes a (hsize ?h1 a)"
      "\<And>x. x \<in> L \<Longrightarrow> hsize h' x = hsize ?h1 x" "\<exists>y \<in> set ys. hsize ?h1 a \<le> hsize h' y" "brk_calls h' = brk_calls ?h1"
    by (rule heap_inv_freed [OF inv1 l0 nb(3) d1]) (rule that)
  have m: "morecore n h = Some (freep h', h')"
    using u(1) ok by (simp add: morecore_def sbrk_def core_units_def core_bytes_def Let_def hdr_add_def a_def)
  have "freep h' \<noteq> 0" using u(2) by (intro freep_nonzero [of _ ys]) (simp add: heap_inv_def)
  moreover have "n \<le> ?nu" by (auto simp: core_units_def)
  then have "\<exists>y \<in> set ys. n \<le> hsize h' y" using u(5) sz1(1) by (auto intro: order_trans)
  moreover have "brk_calls h' = brk_calls h @ [core_bytes n]" using u(6) by (simp add: set_size_def)
  ultimately show ?thesis
    using that [OF m] u(2,3,4) sz1 fb1 by simp
qed

text \<open>What a successful call does: \<open>q\<close> is the header of a block taken out of the bytes \<open>F\<close>.\<close>

definition allocated :: "uheap \<Rightarrow> u64 set \<Rightarrow> nat set \<Rightarrow> u32 \<Rightarrow> u64 \<Rightarrow> uheap \<Rightarrow> u64 list \<Rightarrow> bool" where
  "allocated h L F nbytes q h' ys \<longleftrightarrow> q + 16 \<noteq> 0 \<and> q \<notin> L \<and> heap_inv h' ys (insert q L) \<and> (\<forall>x \<in> L. hsize h' x = hsize h x) \<and>
     unat (hsize h' q) = (unat nbytes + 15) div 16 + 1 \<and>
     block_bytes q (hsize h' q) \<union> free_bytes h' ys = F \<and> block_bytes q (hsize h' q) \<inter> free_bytes h' ys = {}"

lemma allocated_found:
  assumes inv: "heap_inv h xs L" and big: "\<exists>y \<in> set xs. units nbytes \<le> hsize h y"
  obtains q h' ys where "malloc_loop (units nbytes) (freep h) (hptr h (freep h)) h = Some (q + 16, h')"
    "allocated h L (free_bytes h xs) nbytes q h' ys" "brk_calls h' = brk_calls h"
proof -
  have ring: "ring h xs" using inv by (simp add: heap_inv_def)
  obtain q h' ys where q: "malloc_loop (units nbytes) (freep h) (hptr h (freep h)) h = Some (q + 16, h')"
      and t: "taken h xs (units nbytes) q h' ys" and b: "brk_calls h' = brk_calls h"
    by (rule malloc_loop_found [OF ring units_enough(2) big])
  note T = t [unfolded taken_def]
  have "unat q + 16 \<le> LIMIT" "0 < unat q" using T units_enough(1) [of nbytes] by (auto simp: loose_def)
  then have "unat (q + 16) = unat q + 16" by (simp add: unat_word_ariths LIMIT_def)
  then have "q + 16 \<noteq> 0" by auto
  then have "allocated h L (free_bytes h xs) nbytes q h' ys"
    using heap_inv_taken [OF inv t units_enough(2)] T unat_units [of nbytes] by (auto simp: allocated_def)
  then show ?thesis using that q b by blast
qed

lemma malloc_no_fit:
  assumes ring: "ring h xs" and big: "\<not> (\<exists>y \<in> set xs. n \<le> hsize h y)"
  shows "malloc_loop n (freep h) (hptr h (freep h)) h = more_then_loop n h"
proof -
  have r: "linked h xs" using ring by (simp add: ring_def)
  obtain f where f: "f < length xs" "freep h = xs ! f" using ring by (auto simp: ring_def in_set_conv_nth)
  have "\<not> n \<le> hsize h (hptr h (xs ! j))" if "j < length xs" for j
  proof -
    have "step j (length xs) < length xs" using that by (auto simp: step_def)
    then show ?thesis using big hptr_step [OF r that] nth_mem by metis
  qed
  then show ?thesis using malloc_pass [OF r f(1) f, of n] f(2) by auto
qed

text \<open>The heap in which the search starts: the first call makes the list of the empty block \<^verbatim>\<open>base\<close>.\<close>

definition started :: "uheap \<Rightarrow> uheap" where
  "started h = (if freep h = 0 then set_size (base h) 0 (set_ptr (base h) (base h) h)\<lparr>freep := base h\<rparr> else h)"

lemma fresh_heap_inv:
  "freep h = 0 \<Longrightarrow> base h \<noteq> 0 \<Longrightarrow> unat (base h) + 16 \<le> LIMIT \<Longrightarrow> heap_inv (started h) [base h] {}"
  by (simp add: heap_inv_def ring_def linked_def started_def before_def ext_def set_size_def set_ptr_def)

text \<open>
  Claim C35.  \<^verbatim>\<open>malloc\<close> returns, the first call included, for every request below 2 GB, if \<^verbatim>\<open>sbrk\<close> fails or hands out new memory.
  If a free block is large enough, the call succeeds without asking the kernel.  Otherwise it calls \<^verbatim>\<open>sbrk\<close> once, for the
  requested units but at least 4096, and returns 0 exactly if that call fails; then no block, size or link has changed.
  A call that succeeds returns the non-null address after the header of a block that was not in use and has exactly the rounded number
  of units.  Its bytes are taken out of the free bytes, or of these and the new region, of which all others are free
  afterwards.  The blocks in use keep their sizes, and the invariant holds with the new block added.
\<close>

theorem malloc_keeps_heap:
  assumes inv: "heap_inv (started h) xs L" and b: "break_ok (started h) xs L (core_bytes (units nbytes))"
    and small: "unat nbytes < 2 ^ 31 - 32"
  defines "fits \<equiv> \<exists>y \<in> set xs. units nbytes \<le> hsize (started h) y"
    and "c \<equiv> core_bytes (units nbytes)"
  defines "a \<equiv> brk_of h (brk_calls h) c"
  shows "(fits \<longrightarrow> (\<exists>q h' ys. malloc nbytes h = Some (q + 16, h') \<and> brk_calls h' = brk_calls h \<and>
        allocated (started h) L (free_bytes (started h) xs) nbytes q h' ys)) \<and>
    (\<not> fits \<and> a \<noteq> - 1 \<longrightarrow> (\<exists>q h' ys. malloc nbytes h = Some (q + 16, h') \<and> brk_calls h' = brk_calls h @ [c] \<and>
        allocated (started h) L (free_bytes (started h) xs \<union> block_bytes a (core_units (units nbytes))) nbytes q h' ys)) \<and>
    (\<not> fits \<and> a = - 1 \<longrightarrow> malloc nbytes h = Some (0, (started h)\<lparr>brk_calls := brk_calls h @ [c]\<rparr>))"
proof -
  let ?n = "units nbytes" and ?h = "started h"
  have ring: "ring ?h xs" using inv by (simp add: heap_inv_def)
  have un: "unat ?n < 2 ^ 27" using small by (simp add: unat_units)
  have brk: "brk_calls ?h = brk_calls h" "brk_of ?h = brk_of h" by (simp_all add: started_def set_size_def set_ptr_def)
  have m: "malloc nbytes h = malloc_loop ?n (freep ?h) (hptr ?h (freep ?h)) ?h" by (simp add: malloc_def started_def Let_def)
  have more: "malloc nbytes h = more_then_loop ?n ?h" if "\<not> fits"
    using malloc_no_fit [OF ring] that m by (simp add: fits_def)
  show ?thesis
  proof (intro conjI impI)
    assume fits
    then show "\<exists>q h' ys. malloc nbytes h = Some (q + 16, h') \<and> brk_calls h' = brk_calls h \<and> allocated ?h L (free_bytes ?h xs) nbytes q h' ys"
      using allocated_found [OF inv, of nbytes] m brk unfolding fits_def by metis
  next
    assume f: "\<not> fits \<and> a \<noteq> - 1"
    then have "brk_of ?h (brk_calls ?h) (core_bytes ?n) \<noteq> - 1" by (simp add: a_def c_def brk)
    from morecore_ok [OF inv b un this] obtain h1 zs where 1: "morecore ?n ?h = Some (freep h1, h1)" "freep h1 \<noteq> 0" "heap_inv h1 zs L"
      "\<forall>x \<in> L. hsize h1 x = hsize ?h x" "\<exists>y \<in> set zs. ?n \<le> hsize h1 y"
      "free_bytes h1 zs = free_bytes ?h xs \<union> block_bytes a (core_units ?n)" "brk_calls h1 = brk_calls h @ [c]"
      by (metis a_def c_def brk)
    obtain q h' ys where q: "malloc_loop ?n (freep h1) (hptr h1 (freep h1)) h1 = Some (q + 16, h')"
      "allocated h1 L (free_bytes h1 zs) nbytes q h' ys" "brk_calls h' = brk_calls h1"
      by (rule allocated_found [OF 1(3,5)])
    have "malloc nbytes h = Some (q + 16, h')" using more f 1(1,2) q(1) by (simp add: more_then_loop_def)
    moreover have "allocated ?h L (free_bytes ?h xs \<union> block_bytes a (core_units ?n)) nbytes q h' ys"
      using q(2) 1(4,6) by (simp add: allocated_def)
    ultimately show "\<exists>q h' ys. malloc nbytes h = Some (q + 16, h') \<and> brk_calls h' = brk_calls h @ [c] \<and>
        allocated ?h L (free_bytes ?h xs \<union> block_bytes a (core_units ?n)) nbytes q h' ys"
      using q(3) 1(7) by auto
  next
    assume f: "\<not> fits \<and> a = - 1"
    then have "morecore ?n ?h = Some (0, ?h\<lparr>brk_calls := brk_calls h @ [c]\<rparr>)"
      using morecore_fails [of ?h ?n] by (simp add: a_def c_def brk)
    then show "malloc nbytes h = Some (0, ?h\<lparr>brk_calls := brk_calls h @ [c]\<rparr>)" using more f by (simp add: more_then_loop_def)
  qed
qed

text \<open>The heap of a program after its first call of \<^verbatim>\<open>malloc\<close> got a region at \<^verbatim>\<open>0x4000\<close>.\<close>

definition demo_heap :: uheap where
  "demo_heap = \<lparr>hptr = (\<lambda>_. 0)(0x1000 := 0x4000, 0x4000 := 0x1000),
     hsize = (\<lambda>_. 0)(0x4000 := 4000, 0x13A00 := 96), base = 0x1000, freep = 0x1000,
     brk_calls = [0x10000], brk_of = (\<lambda>_ n. if n = 0x10000 then 0x14000 else - 1)\<rparr>"

lemma demo_heap_inv: "heap_inv demo_heap [0x1000, 0x4000] {0x13A00}"
  by (simp add: heap_inv_def ring_def linked_def loose_def before_def ext_def demo_heap_def LIMIT_def)

theorem free_keeps_heap_witness:
  "\<exists>h' ys. ufree 0x13A10 demo_heap = Some h' \<and> heap_inv h' ys {}"
  using free_keeps_heap [OF demo_heap_inv, of "0x13A00"] by auto

lemma demo_break: "break_ok demo_heap [0x1000, 0x4000] {0x13A00} (core_bytes (units 64000))"
proof -
  have u: "core_bytes (units 64000) = 0x10000" by (simp add: core_bytes_def core_units_def units_def)
  show ?thesis
    unfolding u by (simp add: break_ok_def demo_heap_def LIMIT_def block_bytes_def free_bytes_def)
qed

lemma demo_started: "started demo_heap = demo_heap"
  by (simp add: started_def demo_heap_def)

text \<open>The list has no block for 64000 bytes; the second \<^verbatim>\<open>sbrk\<close> adds a region.  A third one would fail.\<close>

theorem malloc_keeps_heap_witness:
  "(\<exists>q h' ys. malloc 64000 demo_heap = Some (q + 16, h') \<and> brk_calls h' = [0x10000, 0x10000] \<and> q + 16 \<noteq> 0 \<and>
      heap_inv h' ys {q, 0x13A00} \<and> unat (hsize h' q) = 4001) \<and>
   malloc 70000 demo_heap = Some (0, demo_heap\<lparr>brk_calls := [0x10000, 70016]\<rparr>)"
proof
  let ?xs = "[0x1000, 0x4000] :: u64 list"
  have u: "units 64000 = 4001" "core_bytes 4001 = 0x10000" "units 70000 = 4376" "core_bytes 4376 = 70016"
    by (simp_all add: core_bytes_def core_units_def units_def)
  have f: "\<not> (\<exists>y \<in> set ?xs. units 64000 \<le> hsize demo_heap y)" "\<not> (\<exists>y \<in> set ?xs. units 70000 \<le> hsize demo_heap y)"
    by (simp_all add: u demo_heap_def)
  have c: "brk_calls demo_heap = [0x10000]" "brk_of demo_heap [0x10000] 0x10000 = 0x14000" "brk_of demo_heap [0x10000] 70016 = - 1"
    by (simp_all add: demo_heap_def)
  note M = malloc_keeps_heap [of demo_heap ?xs "{0x13A00}", unfolded demo_started, OF demo_heap_inv]
  show "\<exists>q h' ys. malloc 64000 demo_heap = Some (q + 16, h') \<and> brk_calls h' = [0x10000, 0x10000] \<and> q + 16 \<noteq> 0 \<and>
      heap_inv h' ys {q, 0x13A00} \<and> unat (hsize h' q) = 4001"
    using M [OF demo_break] f(1) by (auto simp: u c allocated_def)
  have "break_ok demo_heap ?xs {0x13A00} (core_bytes (units 70000))" by (simp add: u break_ok_def c)
  from M [OF this] f(2) show "malloc 70000 demo_heap = Some (0, demo_heap\<lparr>brk_calls := [0x10000, 70016]\<rparr>)" by (simp add: u c)
qed

section \<open>Requests near 4 GB\<close>

lemma units_max: "units 0xFFFFFFFF = 0x10000001" "core_units 0x10000001 = 0x10000001"
  "(ucast ((ucast (0x10000001 :: u32) :: u64) * 16) :: i32) = 16"
  by (simp_all add: units_def core_units_def)

lemma morecore_truncates:
  assumes "hptr h (base h) = base h" "hsize h (base h) = 0" "freep h = base h" "base h \<noteq> 0"
    and a: "brk_of h (brk_calls h) 16 = a" "base h < a" "unat a < 2 ^ 38"
  shows "\<exists>h'. morecore 0x10000001 h = Some (base h, h') \<and> brk_calls h' = brk_calls h @ [16] \<and>
    hptr h' (base h) = a \<and> hsize h' a = 0x10000001 \<and> freep h' = base h"
proof -
  let ?h = "set_size a 0x10000001 (h\<lparr>brk_calls := brk_calls h @ [16]\<rparr>)"
  have am: "a \<noteq> - 1" using a(3) by (auto simp: unsigned_minus_1_eq_mask mask_eq_exp_minus_1)
  have f: "free_find ?h a (base h) = Some (base h)"
    using assms by (subst free_find.simps) (auto simp: set_size_def)
  have "unat (hdr_add a 0x10000001) = unat a + 16 * unat (0x10000001 :: u32)"
    using a(3) by (intro unat_hdr_add) simp
  then have "hdr_add a 0x10000001 \<noteq> base h" using a(2) by (auto simp: word_less_nat_alt)
  moreover have "hdr_add (base h) 0 \<noteq> a" "a \<noteq> base h" using a(2) by (auto simp: hdr_add_def)
  ultimately have "ufree (hdr_add a 1) ?h = Some (set_ptr (base h) a (set_ptr a (base h) ?h)\<lparr>freep := base h\<rparr>)"
    using f assms by (simp add: ufree_def hdr_add_def free_link_def set_size_def set_ptr_def)
  moreover have e: "(4294967312 :: i32) = 16" by simp
  ultimately show ?thesis
    using assms am by (simp add: morecore_def sbrk_def Let_def e set_size_def set_ptr_def)
qed

text \<open>
  Claim C37.  A request for 4294967295 bytes from a fresh allocator succeeds although the kernel
  was asked for only 16 bytes: \<^verbatim>\<open>morecore\<close> multiplies by the header size and passes the result as
  an \<^verbatim>\<open>int\<close>.  The returned block claims 4294967312 bytes.
\<close>

theorem malloc_truncates_request:
  assumes "freep h = 0" and "base h \<noteq> 0"
    and "brk_of h (brk_calls h) 16 = a" and "base h < a" and "unat a < 2 ^ 38"
  shows "\<exists>h'. malloc 0xFFFFFFFF h = Some (a + 16, h') \<and> brk_calls h' = brk_calls h @ [16] \<and>
    16 * unat (hsize h' a) = 4294967312"
proof -
  let ?h = "set_size (base h) 0 (set_ptr (base h) (base h) h)\<lparr>freep := base h\<rparr>"
  obtain h1 where m: "morecore 0x10000001 ?h = Some (base h, h1)" "brk_calls h1 = brk_calls h @ [16]"
      "hptr h1 (base h) = a" "hsize h1 a = 0x10000001"
    using morecore_truncates [of ?h a] assms by (auto simp: set_size_def set_ptr_def)
  have 1: "malloc_loop 0x10000001 (base h) a h1 =
      Some (a + 16, (set_ptr (base h) (hptr h1 a) h1)\<lparr>freep := base h\<rparr>)"
    by (subst malloc_loop.simps) (simp add: m take_block_def hdr_add_def)
  have "malloc_loop 0x10000001 (base h) (base h) ?h = malloc_loop 0x10000001 (base h) a h1"
    by (subst malloc_loop.simps) (simp add: m(1,3) assms, simp add: set_size_def set_ptr_def)
  then show ?thesis
    using 1 m assms by (simp add: malloc_def units_max) (simp add: set_size_def set_ptr_def)
qed

theorem malloc_truncates_request_witness:
  "\<exists>h'. malloc 0xFFFFFFFF (demo_heap\<lparr>freep := 0, brk_calls := [], brk_of := (\<lambda>_ _. 0x4000)\<rparr>) = Some (0x4010, h') \<and>
     brk_calls h' = [16] \<and> 16 * unat (hsize h' 0x4000) = 4294967312"
  using malloc_truncates_request [of "demo_heap\<lparr>freep := 0, brk_calls := [], brk_of := (\<lambda>_ _. 0x4000)\<rparr>" "0x4000"]
  by (simp add: demo_heap_def)

end
