(* ===== verification/Userland.thy ===== *)
theory Userland
  imports Kstring
begin

text \<open>
  User programs above the system call interface, and the user library
  \<^verbatim>\<open>user/ulib.c\<close> and \<^verbatim>\<open>user/printf.c\<close>.

  A program is seen from one process.  The kernel is outside: \<open>kern\<close> gives the result of every
  call, as a function of the calls the process made before, and \<open>inputs\<close> lists what the
  successive reads from a descriptor deliver (\<open>None\<close> is an error, the end of the list the end
  of the file).  A read may return fewer bytes than asked for, so every way to cut a file into
  chunks is covered.  \<open>calls\<close> is the history of the process's calls, the latest last.

  Characters are bytes; \<^verbatim>\<open>char\<close> is unsigned on RISC-V.
\<close>

section \<open>The system call interface\<close>

datatype ucall =
    CFork | CWait | CPipe | CWrite int string | CRead int nat | CClose int | CKill int
  | CExec string "string list" | COpen string i32 | CMknod string int int | CUnlink string
  | CFstat int | CLink string string | CMkdir string | CChdir string | CDup int | CGetpid
  | CSbrk int | CSleep int | CUptime

record ustat =
  st_dev :: int
  st_ino :: u32
  st_type :: int
  st_nlink :: int
  st_size :: u64

record os =
  ret_of :: "ucall list \<Rightarrow> ucall \<Rightarrow> int"
  stat_of :: "ucall list \<Rightarrow> int \<Rightarrow> ustat"
  pipe_of :: "ucall list \<Rightarrow> int \<times> int"

record world =
  calls :: "ucall list"
  inputs :: "int \<Rightarrow> string option list"
  kern :: os

text \<open>How a piece of user code ends: normally, by \<^verbatim>\<open>exit\<close>, by a successful \<^verbatim>\<open>exec\<close>, or not yet.\<close>

datatype 'a ures = Ret 'a world | Exited int world | Execed string "string list" world | Running world

fun ubind :: "'a ures \<Rightarrow> ('a \<Rightarrow> world \<Rightarrow> 'b ures) \<Rightarrow> 'b ures" where
  "ubind (Ret a w) f = f a w"
| "ubind (Exited n w) f = Exited n w"
| "ubind (Execed p args w) f = Execed p args w"
| "ubind (Running w) f = Running w"

definition log_call :: "ucall \<Rightarrow> world \<Rightarrow> world" where
  "log_call c w = w\<lparr>calls := calls w @ [c]\<rparr>"

definition sys :: "ucall \<Rightarrow> world \<Rightarrow> int \<times> world" where
  "sys c w = (ret_of (kern w) (calls w) c, log_call c w)"

definition do_call :: "ucall \<Rightarrow> world \<Rightarrow> world" where
  "do_call c w = snd (sys c w)"

definition u_read :: "int \<Rightarrow> nat \<Rightarrow> world \<Rightarrow> int \<times> string \<times> world" where
  "u_read fd n w =
     (let w = log_call (CRead fd n) w
      in case inputs w fd of
           [] \<Rightarrow> (0, [], w)
         | None # rest \<Rightarrow> (- 1, [], w\<lparr>inputs := (inputs w)(fd := rest)\<rparr>)
         | Some s # rest \<Rightarrow>
             (int (length (take n s)), take n s,
              w\<lparr>inputs := (inputs w)(fd := if drop n s = [] then rest else Some (drop n s) # rest)\<rparr>))"

definition u_fstat :: "int \<Rightarrow> world \<Rightarrow> int \<times> ustat \<times> world" where
  "u_fstat fd w = (case sys (CFstat fd) w of (r, w') \<Rightarrow> (r, stat_of (kern w) (calls w) fd, w'))"

definition u_pipe :: "world \<Rightarrow> int \<times> (int \<times> int) \<times> world" where
  "u_pipe w = (case sys CPipe w of (r, w') \<Rightarrow> (r, pipe_of (kern w) (calls w), w'))"

text \<open>\<^verbatim>\<open>exec\<close> returns only on failure.\<close>

definition u_exec :: "string \<Rightarrow> string list \<Rightarrow> world \<Rightarrow> unit ures" where
  "u_exec path argv w =
     (case sys (CExec path argv) w of (r, w) \<Rightarrow> if r < 0 then Ret () w else Execed path argv w)"

section \<open>Strings\<close>

abbreviation NUL :: char where "NUL \<equiv> CHR 0x00"

type_synonym cbuf = "nat \<Rightarrow> char"

definition chr_code :: "char \<Rightarrow> int" where
  "chr_code c = int (of_char c)"

partial_function (option) u_strcpy_from :: "cbuf \<Rightarrow> cbuf \<Rightarrow> nat \<Rightarrow> cbuf option" where
  "u_strcpy_from s t i =
     (if t i \<noteq> NUL then u_strcpy_from (s(i := t i)) t (Suc i) else Some (s(i := t i)))"

definition u_strcpy :: "cbuf \<Rightarrow> cbuf \<Rightarrow> cbuf option" where
  "u_strcpy s t = u_strcpy_from s t 0"

partial_function (option) u_strcmp_from :: "cbuf \<Rightarrow> cbuf \<Rightarrow> nat \<Rightarrow> int option" where
  "u_strcmp_from p q i =
     (if p i \<noteq> NUL \<and> p i = q i then u_strcmp_from p q (Suc i)
      else Some (chr_code (p i) - chr_code (q i)))"

definition u_strcmp :: "cbuf \<Rightarrow> cbuf \<Rightarrow> int option" where
  "u_strcmp p q = u_strcmp_from p q 0"

partial_function (option) u_strlen_from :: "cbuf \<Rightarrow> nat \<Rightarrow> nat option" where
  "u_strlen_from s n = (if s n \<noteq> NUL then u_strlen_from s (Suc n) else Some n)"

definition u_strlen :: "cbuf \<Rightarrow> nat option" where
  "u_strlen s = u_strlen_from s 0"

fun u_memset_from :: "cbuf \<Rightarrow> char \<Rightarrow> nat \<Rightarrow> nat \<Rightarrow> cbuf" where
  "u_memset_from d c i 0 = d"
| "u_memset_from d c i (Suc n) = u_memset_from (d(i := c)) c (Suc i) n"

definition u_memset :: "cbuf \<Rightarrow> char \<Rightarrow> nat \<Rightarrow> cbuf" where
  "u_memset d c n = u_memset_from d c 0 n"

text \<open>The result of \<^verbatim>\<open>strchr\<close> is an index into the string, \<open>None\<close> for a null pointer.\<close>

partial_function (option) u_strchr_from :: "cbuf \<Rightarrow> char \<Rightarrow> nat \<Rightarrow> nat option option" where
  "u_strchr_from s c i =
     (if s i = NUL then Some None else if s i = c then Some (Some i) else u_strchr_from s c (Suc i))"

definition u_strchr :: "cbuf \<Rightarrow> char \<Rightarrow> nat option option" where
  "u_strchr s c = u_strchr_from s c 0"

text \<open>The loop of \<^verbatim>\<open>gets\<close>; the last argument counts the iterations that \<^verbatim>\<open>max\<close> still allows.\<close>

fun gets_loop :: "cbuf \<Rightarrow> nat \<Rightarrow> nat \<Rightarrow> world \<Rightarrow> cbuf \<times> nat \<times> world" where
  "gets_loop buf i 0 w = (buf, i, w)"
| "gets_loop buf i (Suc k) w =
     (case u_read 0 1 w of (cc, d, w) \<Rightarrow>
        if cc < 1 then (buf, i, w)
        else let buf = buf(i := hd d)
             in if hd d = CHR 0x0A \<or> hd d = CHR 0x0D then (buf, Suc i, w)
                else gets_loop buf (Suc i) k w)"

definition gets :: "cbuf \<Rightarrow> int \<Rightarrow> world \<Rightarrow> cbuf \<times> world" where
  "gets buf mx w = (case gets_loop buf 0 (nat (mx - 1)) w of (buf, i, w) \<Rightarrow> (buf(i := NUL), w))"

definition u_stat :: "string \<Rightarrow> world \<Rightarrow> int \<times> ustat \<times> world" where
  "u_stat n w =
     (case sys (COpen n O_RDONLY) w of (fd, w') \<Rightarrow>
        if fd < 0 then (- 1, stat_of (kern w) (calls w) fd, w')
        else case u_fstat fd w' of (r, st, w') \<Rightarrow> (r, st, do_call (CClose fd) w'))"

definition is_digit :: "char \<Rightarrow> bool" where
  "is_digit c \<longleftrightarrow> chr_code CHR ''0'' \<le> chr_code c \<and> chr_code c \<le> chr_code CHR ''9''"

partial_function (option) atoi_from :: "cbuf \<Rightarrow> nat \<Rightarrow> i32 \<Rightarrow> i32 option" where
  "atoi_from s i n =
     (if is_digit (s i) then atoi_from s (Suc i) (n * 10 + of_int (chr_code (s i)) - of_int (chr_code CHR ''0''))
      else Some n)"

definition atoi :: "cbuf \<Rightarrow> i32 option" where
  "atoi s = atoi_from s 0 0"

definition u_memmove :: "memory \<Rightarrow> u64 \<Rightarrow> u64 \<Rightarrow> int \<Rightarrow> memory" where
  "u_memmove m dst src n =
     (if src > dst then copy_up m dst src (nat n)
      else copy_down m (dst + of_int n) (src + of_int n) (nat n))"

definition u_memcmp :: "cstr \<Rightarrow> cstr \<Rightarrow> nat \<Rightarrow> int" where
  "u_memcmp s1 s2 n = memcmp s1 s2 n"

definition u_memcpy :: "memory \<Rightarrow> u64 \<Rightarrow> u64 \<Rightarrow> nat \<Rightarrow> memory" where
  "u_memcpy m dst src n = u_memmove m dst src (int n)"

section \<open>Formatted output\<close>

datatype uarg = AInt i32 | ALong u64 | AStr "string option"

definition u_digits :: string where "u_digits = ''0123456789ABCDEF''"

definition putc :: "int \<Rightarrow> char \<Rightarrow> world \<Rightarrow> world" where
  "putc fd c w = do_call (CWrite fd [c]) w"

definition puts_all :: "int \<Rightarrow> string \<Rightarrow> world \<Rightarrow> world" where
  "puts_all fd s w = fold (putc fd) s w"

text \<open>The u_digits of \<open>x\<close>, least significant first, as the loop of \<^verbatim>\<open>printint\<close> stores them.\<close>

function digit_loop :: "u32 \<Rightarrow> u32 \<Rightarrow> string" where
  "digit_loop x b =
     u_digits ! unat (x mod b) # (if x div b \<noteq> 0 \<and> 1 < b then digit_loop (x div b) b else [])"
  by pat_completeness auto
termination
proof (relation "measure (\<lambda>(x, b). unat x)")
  fix x b :: u32
  assume a: "x div b \<noteq> 0 \<and> 1 < b"
  then have "1 < unat b" by (simp add: word_less_nat_alt)
  moreover have "unat x \<noteq> 0" using a by (auto simp: unat_eq_0)
  ultimately have "unat x div unat b < unat x" by simp
  then show "((x div b, b), x, b) \<in> measure (\<lambda>(x, b). unat x)" by (simp add: unat_div_distrib)
qed simp

declare digit_loop.simps [simp del]

definition u_printint :: "int \<Rightarrow> i32 \<Rightarrow> u32 \<Rightarrow> bool \<Rightarrow> world \<Rightarrow> world" where
  "u_printint fd xx base sn w =
     (let neg = sn \<and> sint xx < 0;
          x = (if neg then - xx else xx);
          buf = digit_loop x base @ (if neg then ''-'' else [])
      in puts_all fd (rev buf) w)"

fun ptr_loop :: "int \<Rightarrow> u64 \<Rightarrow> nat \<Rightarrow> world \<Rightarrow> world" where
  "ptr_loop fd x 0 w = w"
| "ptr_loop fd x (Suc n) w =
     ptr_loop fd (push_bit 4 x) n (putc fd (u_digits ! unat (drop_bit 60 x)) w)"

definition u_printptr :: "int \<Rightarrow> u64 \<Rightarrow> world \<Rightarrow> world" where
  "u_printptr fd x w = ptr_loop fd x 16 (putc fd CHR ''x'' (putc fd CHR ''0'' w))"

definition arg_int :: "uarg list \<Rightarrow> i32" where
  "arg_int args = (case args of AInt v # _ \<Rightarrow> v | ALong v # _ \<Rightarrow> ucast v | _ \<Rightarrow> 0)"

definition arg_long :: "uarg list \<Rightarrow> u64" where
  "arg_long args = (case args of ALong v # _ \<Rightarrow> v | AInt v # _ \<Rightarrow> scast v | _ \<Rightarrow> 0)"

definition arg_str :: "uarg list \<Rightarrow> string option" where
  "arg_str args = (case args of AStr v # _ \<Rightarrow> v | _ \<Rightarrow> None)"

text \<open>The format loop; the flag tells that the previous character was a percent sign.\<close>

fun vprintf :: "int \<Rightarrow> string \<Rightarrow> bool \<Rightarrow> uarg list \<Rightarrow> world \<Rightarrow> world" where
  "vprintf fd [] st ap w = w"
| "vprintf fd (c # fmt) False ap w =
     (if c = CHR ''%'' then vprintf fd fmt True ap w else vprintf fd fmt False ap (putc fd c w))"
| "vprintf fd (c # fmt) True ap w =
     (if c = CHR ''d'' then vprintf fd fmt False (tl ap) (u_printint fd (arg_int ap) 10 True w)
      else if c = CHR ''l'' then vprintf fd fmt False (tl ap) (u_printint fd (ucast (arg_long ap)) 10 False w)
      else if c = CHR ''x'' then vprintf fd fmt False (tl ap) (u_printint fd (arg_int ap) 16 False w)
      else if c = CHR ''p'' then vprintf fd fmt False (tl ap) (u_printptr fd (arg_long ap) w)
      else if c = CHR ''s'' then
        vprintf fd fmt False (tl ap)
          (puts_all fd (case arg_str ap of None \<Rightarrow> ''(null)'' | Some s \<Rightarrow> s) w)
      else if c = CHR ''c'' then vprintf fd fmt False (tl ap) (putc fd (char_of (unat (arg_int ap))) w)
      else if c = CHR ''%'' then vprintf fd fmt False ap (putc fd c w)
      else vprintf fd fmt False ap (putc fd c (putc fd CHR ''%'' w)))"

definition u_fprintf :: "int \<Rightarrow> string \<Rightarrow> uarg list \<Rightarrow> world \<Rightarrow> world" where
  "u_fprintf fd fmt args w = vprintf fd fmt False args w"

definition u_printf :: "string \<Rightarrow> uarg list \<Rightarrow> world \<Rightarrow> world" where
  "u_printf fmt args w = vprintf 1 fmt False args w"

section \<open>Inputs and outputs of a process\<close>

text \<open>What is left to read from a descriptor; it bounds the number of successful reads.\<close>

definition insize :: "int \<Rightarrow> world \<Rightarrow> nat" where
  "insize fd w = (\<Sum>x \<leftarrow> inputs w fd. case x of None \<Rightarrow> 1 | Some s \<Rightarrow> Suc (length s))"

lemma do_call_inputs [simp]: "inputs (do_call c w) = inputs w"
  by (simp add: do_call_def sys_def log_call_def)

lemma u_read_insize: "u_read fd n w = (k, d, w') \<Longrightarrow> 0 < k \<Longrightarrow> insize fd w' < insize fd w"
  by (auto simp: u_read_def insize_def log_call_def Let_def split: list.splits option.splits if_splits)

text \<open>What a process has written to a descriptor.\<close>

definition written :: "int \<Rightarrow> world \<Rightarrow> string" where
  "written fd w =
     concat (map (\<lambda>c. case c of CWrite f s \<Rightarrow> if f = fd then s else [] | _ \<Rightarrow> []) (calls w))"

lemma written_do_call [simp]:
  "written fd (do_call (CWrite f s) w) = written fd w @ (if f = fd then s else [])"
  by (simp add: written_def do_call_def sys_def log_call_def)

lemma written_log_read: "written fd (log_call (CRead f n) w) = written fd w"
  by (simp add: written_def log_call_def)

text \<open>A kernel that answers every call with 0, and a process that reads the given chunks.\<close>

definition quiet_os :: os where
  "quiet_os = \<lparr>ret_of = (\<lambda>_ _. 0), stat_of = (\<lambda>_ _. \<lparr>st_dev = 1, st_ino = 1, st_type = 2, st_nlink = 1, st_size = 0\<rparr>),
     pipe_of = (\<lambda>_. (3, 4))\<rparr>"

definition world_reading :: "string list \<Rightarrow> world" where
  "world_reading cs = \<lparr>calls = [], inputs = (\<lambda>fd. if fd = 0 then map Some cs else []), kern = quiet_os\<rparr>"

end
