(* ===== verification/Sh.thy ===== *)
theory Sh
  imports Userland
begin

text \<open>
  The shell, \<^verbatim>\<open>user/sh.c\<close>.  As in \<open>Grep\<close> a pointer into the command line is the suffix of the line
  that it points to; the end pointer \<^verbatim>\<open>es\<close> is the empty suffix.  A command tree of the source
  keeps, for every word, the pointers to its begin and its end: its type here is
  \<open>tok cmd\<close>.  \<^verbatim>\<open>nulterminate\<close> then writes NULs into the line, after which a word is the C
  string at its begin: \<open>string cmd\<close> is the tree as the running command sees it.

  The four mutually recursive parsers are given a nesting depth; that a depth linear in the
  length of the line is always enough is proved below.  Allocation of tree nodes is taken to
  succeed.
\<close>

section \<open>Commands\<close>

type_synonym tok = "string \<times> string"

datatype 'w cmd =
    EXEC "'w list"
  | REDIR "'w cmd" 'w i32 int
  | PIPE "'w cmd" "'w cmd"
  | LIST "'w cmd" "'w cmd"
  | BACK "'w cmd"

definition MAXARGS :: nat where "MAXARGS = 10"

section \<open>Tokens\<close>

definition is_ws :: "char \<Rightarrow> bool" where
  "is_ws c \<longleftrightarrow> c \<in> set '' \<newline>'' \<union> {CHR 0x09, CHR 0x0D, CHR 0x0B}"

definition is_sym :: "char \<Rightarrow> bool" where
  "is_sym c \<longleftrightarrow> c \<in> set ''<|>&;()''"

definition skip_ws :: "string \<Rightarrow> string" where
  "skip_ws s = dropWhile is_ws s"

text \<open>The token, its begin and end, and the position after the white space that follows it.\<close>

definition gettoken :: "string \<Rightarrow> char \<times> string \<times> string \<times> string" where
  "gettoken s =
     (let q = skip_ws s
      in case q of
           [] \<Rightarrow> (NUL, q, q, skip_ws q)
         | c # t \<Rightarrow>
             if c \<in> set ''|();&<'' then (c, q, t, skip_ws t)
             else if c = CHR ''>'' then
               (if t \<noteq> [] \<and> hd t = CHR ''>'' then (CHR ''+'', q, tl t, skip_ws (tl t)) else (c, q, t, skip_ws t))
             else let e = dropWhile (\<lambda>x. \<not> is_ws x \<and> \<not> is_sym x) q in (CHR ''a'', q, e, skip_ws e))"

definition peek :: "string \<Rightarrow> string \<Rightarrow> string \<times> bool" where
  "peek s toks = (let q = skip_ws s in (q, q \<noteq> [] \<and> hd q \<in> set toks))"

lemma skip_ws_Nil [simp]: "skip_ws [] = []"
  by (simp add: skip_ws_def)

lemma skip_ws_length: "length (skip_ws s) \<le> length s"
  by (simp add: skip_ws_def length_dropWhile_le)

lemma gettoken_shorter:
  assumes "gettoken s = (tok, q, e, r)" "tok \<noteq> NUL"
  shows "length r < length s"
proof -
  have word: "length (dropWhile (\<lambda>x. \<not> is_ws x \<and> \<not> is_sym x) (c # t)) \<le> length t"
    if "\<not> is_ws c" "\<not> is_sym c" for c and t :: string
    using that by (simp add: length_dropWhile_le)
  have q: "length (skip_ws s) \<le> length s" by (rule skip_ws_length)
  have nws: "\<not> is_ws c" if "skip_ws s = c # t" for c t
    using that hd_dropWhile [of is_ws s] by (auto simp: skip_ws_def)
  show ?thesis
  proof (cases "skip_ws s")
    case Nil
    then show ?thesis using assms by (simp add: gettoken_def)
  next
    case (Cons c t)
    then show ?thesis
      using assms q nws [OF Cons] word [of c t] skip_ws_length [of t] skip_ws_length [of "tl t"]
        skip_ws_length [of "dropWhile (\<lambda>x. \<not> is_ws x \<and> \<not> is_sym x) (c # t)"]
      by (auto simp: gettoken_def Let_def is_sym_def split: if_splits)
  qed
qed

lemma skip_ws_idem [simp]: "skip_ws (skip_ws s) = skip_ws s"
  by (simp add: skip_ws_def dropWhile_idem)

lemma gettoken_nul: "gettoken s = (t, q, e, r) \<Longrightarrow> t = NUL \<longleftrightarrow> skip_ws s = []"
  by (auto simp: gettoken_def Let_def split: list.splits if_splits)

lemma gettoken_length: "gettoken s = (t, q, e, r) \<Longrightarrow> length r \<le> length s"
  using gettoken_shorter [of s t q e r] gettoken_nul [of s t q e r]
  by (cases "skip_ws s") (auto simp: gettoken_def)

section \<open>The parser\<close>

datatype 'a pres = Parsed 'a string | SynErr string | Leftovers string | TooDeep

fun pbind :: "'a pres \<Rightarrow> ('a \<Rightarrow> string \<Rightarrow> 'b pres) \<Rightarrow> 'b pres" where
  "pbind (Parsed a s) f = f a s"
| "pbind (SynErr m) f = SynErr m"
| "pbind (Leftovers l) f = Leftovers l"
| "pbind TooDeep f = TooDeep"

definition redir_of :: "char \<Rightarrow> 'w cmd \<Rightarrow> 'w \<Rightarrow> 'w cmd" where
  "redir_of tok c f =
     (if tok = CHR ''<'' then REDIR c f O_RDONLY 0
      else if tok = CHR ''>'' then REDIR c f (O_WRONLY OR O_CREATE OR O_TRUNC) 1
      else if tok = CHR ''+'' then REDIR c f (O_WRONLY OR O_CREATE) 1
      else c)"

function parseredirs :: "tok cmd \<Rightarrow> string \<Rightarrow> tok cmd pres" where
  "parseredirs c s =
     (case peek s ''<>'' of (s, found) \<Rightarrow>
        if found then
          (case gettoken s of (t, _, _, s) \<Rightarrow>
           case gettoken s of (t2, q, eq, s) \<Rightarrow>
             if t2 \<noteq> CHR ''a'' then SynErr ''missing file for redirection''
             else parseredirs (redir_of t c (q, eq)) s)
        else Parsed c s)"
  by pat_completeness auto
termination
proof (relation "measure (\<lambda>(c, s). length s)", goal_cases)
  case (2 c s s1 found t x1 q1 x2 e1 s2 t2 y1 q y2 eq s3)
  have p: "s1 = skip_ws s" "s1 \<noteq> []" using 2 by (auto simp: peek_def Let_def)
  have g1: "gettoken s1 = (t, q1, e1, s2)" "gettoken s2 = (CHR ''a'', q, eq, s3)" using 2 by auto
  have "t \<noteq> NUL" using gettoken_nul [OF g1(1)] p by simp
  then show ?case
    using gettoken_shorter [OF g1(1)] gettoken_shorter [OF g1(2)] skip_ws_length [of s] p(1) by simp
qed simp

declare parseredirs.simps [simp del]

lemma parseredirs_length: "parseredirs c s = Parsed c' s' \<Longrightarrow> length s' \<le> length s"
proof (induction c s rule: parseredirs.induct)
  case (1 c s)
  obtain s1 found where p: "peek s ''<>'' = (s1, found)" by fastforce
  have l1: "length s1 \<le> length s" using p skip_ws_length [of s] by (auto simp: peek_def Let_def)
  show ?case
  proof (cases found)
    case False
    then show ?thesis using "1.prems" p l1 by (simp add: parseredirs.simps [of c s])
  next
    case True
    obtain t q1 e1 s2 where g1: "gettoken s1 = (t, q1, e1, s2)" by (metis prod_cases4)
    obtain t2 q e s3 where g2: "gettoken s2 = (t2, q, e, s3)" by (metis prod_cases4)
    have t2: "t2 = CHR ''a''" and r: "parseredirs (redir_of t c (q, e)) s3 = Parsed c' s'"
      using "1.prems" p True g1 g2 by (auto simp: parseredirs.simps [of c s] split: if_splits)
    have "length s' \<le> length s3"
      using "1.IH" [OF p [symmetric] True g1 [symmetric] refl refl g2 [symmetric] refl refl] t2 r by simp
    moreover have "length s3 < length s2" using gettoken_shorter [OF g2] t2 by simp
    moreover have "length s2 \<le> length s1"
      using g1 gettoken_length by blast
    ultimately show ?thesis using l1 by simp
  qed
qed

function parse_backs :: "tok cmd \<Rightarrow> string \<Rightarrow> tok cmd \<times> string" where
  "parse_backs c s =
     (case peek s ''&'' of (s, found) \<Rightarrow>
        if found then (case gettoken s of (_, _, _, s) \<Rightarrow> parse_backs (BACK c) s) else (c, s))"
  by pat_completeness auto
termination
proof (relation "measure (\<lambda>(c, s). length s)", goal_cases)
  case (2 c s s1 found t x q y e s2)
  have p: "s1 = skip_ws s" "s1 \<noteq> []" "hd s1 = CHR ''&''" using 2 by (auto simp: peek_def Let_def)
  have g: "gettoken s1 = (t, q, e, s2)" using 2 by auto
  have "length s2 < length s1" using gettoken_shorter [OF g] gettoken_nul [OF g] p by simp
  then show ?case using skip_ws_length [of s] p(1) by simp
qed simp

declare parse_backs.simps [simp del]

text \<open>The word is stored in the \<^verbatim>\<open>argv\<close> of the innermost command, to which \<^verbatim>\<open>cmd\<close> still points.\<close>

fun add_arg :: "'w \<Rightarrow> 'w cmd \<Rightarrow> 'w cmd" where
  "add_arg a (EXEC args) = EXEC (args @ [a])"
| "add_arg a (REDIR c f m fd) = REDIR (add_arg a c) f m fd"
| "add_arg a c = c"

function parse_args :: "nat \<Rightarrow> tok cmd \<Rightarrow> string \<Rightarrow> tok cmd pres" where
  "parse_args argc ret s =
     (case peek s ''|)&;'' of (s, stop) \<Rightarrow>
        if stop then Parsed ret s
        else case gettoken s of (t, q, eq, s) \<Rightarrow>
          if t = NUL then Parsed ret s
          else if t \<noteq> CHR ''a'' then SynErr ''syntax''
          else if MAXARGS \<le> Suc argc then SynErr ''too many args''
          else case parseredirs (add_arg (q, eq) ret) s of
                 Parsed ret s \<Rightarrow> parse_args (Suc argc) ret s
               | err \<Rightarrow> err)"
  by pat_completeness auto
termination
proof (relation "measure (\<lambda>(argc, ret, s). length s)", goal_cases)
  case (2 argc ret s s1 stop t x q y eq s2 ret' s3)
  have "length s1 \<le> length s" using 2 skip_ws_length [of s] by (auto simp: peek_def Let_def)
  moreover have "length s2 < length s1" using gettoken_shorter [of s1 t q eq s2] 2 by auto
  moreover have "length s3 \<le> length s2" using parseredirs_length [of _ s2 ret' s3] 2 by auto
  ultimately show ?case by simp
qed simp

declare parse_args.simps [simp del]

fun parseline :: "nat \<Rightarrow> string \<Rightarrow> tok cmd pres"
  and parsepipe :: "nat \<Rightarrow> string \<Rightarrow> tok cmd pres"
  and parseblock :: "nat \<Rightarrow> string \<Rightarrow> tok cmd pres"
  and parseexec :: "nat \<Rightarrow> string \<Rightarrow> tok cmd pres" where
  "parseline 0 s = TooDeep"
| "parseline (Suc n) s =
     pbind (parsepipe n s) (\<lambda>c s.
       case parse_backs c s of (c, s) \<Rightarrow>
       case peek s '';'' of (s, found) \<Rightarrow>
         if found then
           (case gettoken s of (_, _, _, s) \<Rightarrow> pbind (parseline n s) (\<lambda>r s. Parsed (LIST c r) s))
         else Parsed c s)"
| "parsepipe 0 s = TooDeep"
| "parsepipe (Suc n) s =
     pbind (parseexec n s) (\<lambda>c s.
       case peek s ''|'' of (s, found) \<Rightarrow>
         if found then
           (case gettoken s of (_, _, _, s) \<Rightarrow> pbind (parsepipe n s) (\<lambda>r s. Parsed (PIPE c r) s))
         else Parsed c s)"
| "parseblock 0 s = TooDeep"
| "parseblock (Suc n) s =
     (case peek s ''('' of (s, found) \<Rightarrow>
        if \<not> found then SynErr ''parseblock''
        else case gettoken s of (_, _, _, s) \<Rightarrow>
          pbind (parseline n s) (\<lambda>c s.
            case peek s '')'' of (s, found) \<Rightarrow>
              if \<not> found then SynErr ''syntax - missing )''
              else case gettoken s of (_, _, _, s) \<Rightarrow> parseredirs c s))"
| "parseexec 0 s = TooDeep"
| "parseexec (Suc n) s =
     (case peek s ''('' of (s, found) \<Rightarrow>
        if found then parseblock n s
        else pbind (parseredirs (EXEC []) s) (\<lambda>ret s. parse_args 0 ret s))"

text \<open>Writing the NULs: an end pointer \<open>eq\<close> is the position \<open>length line - length eq\<close> of the line.\<close>

fun nulterminate :: "nat \<Rightarrow> tok cmd \<Rightarrow> string \<Rightarrow> string" where
  "nulterminate len (EXEC args) buf = fold (\<lambda>(q, eq) buf. buf[len - length eq := NUL]) args buf"
| "nulterminate len (REDIR c f m fd) buf = (nulterminate len c buf)[len - length (snd f) := NUL]"
| "nulterminate len (PIPE l r) buf = nulterminate len r (nulterminate len l buf)"
| "nulterminate len (LIST l r) buf = nulterminate len r (nulterminate len l buf)"
| "nulterminate len (BACK c) buf = nulterminate len c buf"

text \<open>The C string that starts at the begin of a word.\<close>

definition word_at :: "string \<Rightarrow> tok \<Rightarrow> string" where
  "word_at buf t = takeWhile (\<lambda>c. c \<noteq> NUL) (drop (length buf - length (fst t)) buf)"

definition depth_of :: "string \<Rightarrow> nat" where
  "depth_of s = 4 * length s + 4"

definition parsecmd :: "string \<Rightarrow> string cmd pres" where
  "parsecmd line =
     pbind (parseline (depth_of line) line) (\<lambda>c s.
       case peek s [] of (s, _) \<Rightarrow>
         if s \<noteq> [] then Leftovers s
         else Parsed (map_cmd (word_at (nulterminate (length line) c line)) c) s)"

section \<open>Running commands\<close>

definition sh_panic :: "string \<Rightarrow> world \<Rightarrow> unit ures" where
  "sh_panic m w = Exited 1 (u_fprintf 2 ''%s\<newline>'' [AStr (Some m)] w)"

definition fork1 :: "world \<Rightarrow> int ures" where
  "fork1 w = (case sys CFork w of (pid, w) \<Rightarrow>
     if pid = - 1 then ubind (sh_panic ''fork'' w) (\<lambda>_ w. Ret pid w) else Ret pid w)"

fun runcmd :: "string cmd \<Rightarrow> world \<Rightarrow> unit ures" where
  "runcmd (EXEC argv) w =
     (if argv = [] then Exited 1 w
      else ubind (u_exec (hd argv) argv w) (\<lambda>_ w.
        Exited 0 (u_fprintf 2 ''exec %s failed\<newline>'' [AStr (Some (hd argv))] w)))"
| "runcmd (REDIR c f m fd) w =
     (case sys (COpen f m) (do_call (CClose fd) w) of (r, w) \<Rightarrow>
        if r < 0 then Exited 1 (u_fprintf 2 ''open %s failed\<newline>'' [AStr (Some f)] w)
        else runcmd c w)"
| "runcmd (LIST l r) w =
     ubind (fork1 w) (\<lambda>pid w. if pid = 0 then runcmd l w else runcmd r (do_call CWait w))"
| "runcmd (PIPE l r) w =
     (case u_pipe w of (r0, (p0, p1), w) \<Rightarrow>
        if r0 < 0 then sh_panic ''pipe'' w
        else ubind (fork1 w) (\<lambda>pid w.
          if pid = 0 then
            runcmd l (do_call (CClose p1) (do_call (CClose p0) (do_call (CDup p1) (do_call (CClose 1) w))))
          else ubind (fork1 w) (\<lambda>pid w.
            if pid = 0 then
              runcmd r (do_call (CClose p1) (do_call (CClose p0) (do_call (CDup p0) (do_call (CClose 0) w))))
            else Exited 0 (do_call CWait (do_call CWait (do_call (CClose p1) (do_call (CClose p0) w)))))))"
| "runcmd (BACK c) w = ubind (fork1 w) (\<lambda>pid w. if pid = 0 then runcmd c w else Exited 0 w)"

text \<open>The line that \<^verbatim>\<open>getcmd\<close> reads; \<open>None\<close> at the end of the input.\<close>

definition getcmd :: "world \<Rightarrow> string option \<times> world" where
  "getcmd w =
     (case gets (\<lambda>_. NUL) 100 (u_fprintf 2 ''$ '' [] w) of (buf, w) \<Rightarrow>
        (if buf 0 = NUL then None else Some (takeWhile (\<lambda>c. c \<noteq> NUL) (map buf [0..<100])), w))"

fun sh_opens :: "nat \<Rightarrow> world \<Rightarrow> unit ures" where
  "sh_opens 0 w = Running w"
| "sh_opens (Suc n) w =
     (case sys (COpen ''console'' O_RDWR) w of (fd, w) \<Rightarrow>
        if fd < 0 then Ret () w
        else if 3 \<le> fd then Ret () (do_call (CClose fd) w)
        else sh_opens n w)"

definition run_line :: "string \<Rightarrow> world \<Rightarrow> unit ures" where
  "run_line buf w =
     (case parsecmd buf of
        Parsed c _ \<Rightarrow> runcmd c w
      | SynErr m \<Rightarrow> sh_panic m w
      | Leftovers s \<Rightarrow> sh_panic ''syntax'' (u_fprintf 2 ''leftovers: %s\<newline>'' [AStr (Some s)] w)
      | TooDeep \<Rightarrow> Running w)"

fun sh_loop :: "nat \<Rightarrow> world \<Rightarrow> unit ures" where
  "sh_loop 0 w = Running w"
| "sh_loop (Suc n) w =
     (case getcmd w of
        (None, w) \<Rightarrow> Exited 0 w
      | (Some buf, w) \<Rightarrow>
          if take 3 buf = ''cd '' then
            (let dir = drop 3 (butlast buf)
             in case sys (CChdir dir) w of (r, w) \<Rightarrow>
                  sh_loop n (if r < 0 then u_fprintf 2 ''cannot cd %s\<newline>'' [AStr (Some dir)] w else w))
          else ubind (fork1 w) (\<lambda>pid w.
            if pid = 0 then run_line buf w else sh_loop n (do_call CWait w)))"

definition sh_main :: "nat \<Rightarrow> world \<Rightarrow> unit ures" where
  "sh_main n w = ubind (sh_opens n w) (\<lambda>_ w. sh_loop n w)"

end
