(* ===== verification/Sh_Properties.thy ===== *)
theory Sh_Properties
  imports Sh "HOL-Library.Sublist"
begin

text \<open>
  The shell's parser: it always terminates within the depth that \<open>parsecmd\<close> gives it, and every
  command tree is the result of parsing a line that can be computed from it.
\<close>

section \<open>Lengths and depth\<close>

definition next_is :: "string \<Rightarrow> string \<Rightarrow> bool" where
  "next_is s t \<longleftrightarrow> skip_ws s \<noteq> [] \<and> hd (skip_ws s) \<in> set t"

definition tok_rest :: "string \<Rightarrow> string" where
  "tok_rest s = snd (snd (snd (gettoken s)))"

lemma peek_eq: "peek s t = (skip_ws s, next_is s t)"
  by (simp add: peek_def next_is_def Let_def)

lemma gettoken_case: "(case gettoken s of (t, q, e, r) \<Rightarrow> f r) = f (tok_rest s)"
  by (simp add: tok_rest_def split: prod.split)

lemma next_is_skip [simp]: "next_is (skip_ws s) t = next_is s t"
  by (simp add: next_is_def)

lemma tok_rest_length: "length (tok_rest s) \<le> length s"
  by (cases "gettoken s") (auto simp: tok_rest_def dest: gettoken_length)

lemma tok_rest_shorter: "next_is s t \<Longrightarrow> length (tok_rest (skip_ws s)) < length s"
proof -
  assume "next_is s t"
  obtain k q e u where g: "gettoken (skip_ws s) = (k, q, e, u)" by (metis prod_cases4)
  have "k \<noteq> NUL" using gettoken_nul [OF g] \<open>next_is s t\<close> by (simp add: next_is_def)
  then show ?thesis using gettoken_shorter [OF g] skip_ws_length [of s] by (simp add: tok_rest_def g)
qed

lemma parseredirs_eq:
  "parseredirs c s =
     (if next_is s ''<>'' then
        (case gettoken (tok_rest (skip_ws s)) of (t2, q, eq, r) \<Rightarrow>
           if t2 \<noteq> CHR ''a'' then SynErr ''missing file for redirection''
           else parseredirs (redir_of (fst (gettoken (skip_ws s))) c (q, eq)) r)
      else Parsed c (skip_ws s))"
  by (subst parseredirs.simps) (simp add: peek_eq tok_rest_def split: prod.split)

lemma parse_backs_eq:
  "parse_backs c s = (if next_is s ''&'' then parse_backs (BACK c) (tok_rest (skip_ws s)) else (c, skip_ws s))"
  by (subst parse_backs.simps) (simp add: peek_eq gettoken_case)

lemma parse_args_eq:
  "parse_args argc ret s =
     (if next_is s ''|)&;'' then Parsed ret (skip_ws s)
      else case gettoken (skip_ws s) of (t, q, eq, r) \<Rightarrow>
        if t = NUL then Parsed ret r
        else if t \<noteq> CHR ''a'' then SynErr ''syntax''
        else if MAXARGS \<le> Suc argc then SynErr ''too many args''
        else pbind (parseredirs (add_arg (q, eq) ret) r) (\<lambda>ret r. parse_args (Suc argc) ret r))"
  by (subst parse_args.simps) (simp add: peek_eq split: prod.split pres.split)

lemma parse_eqs:
  "parseline (Suc n) s =
     pbind (parsepipe n s) (\<lambda>c s.
       if next_is (snd (parse_backs c s)) '';'' then
         pbind (parseline n (tok_rest (skip_ws (snd (parse_backs c s)))))
           (\<lambda>r s'. Parsed (LIST (fst (parse_backs c s)) r) s')
       else Parsed (fst (parse_backs c s)) (skip_ws (snd (parse_backs c s))))"
  "parsepipe (Suc n) s =
     pbind (parseexec n s) (\<lambda>c s.
       if next_is s ''|'' then pbind (parsepipe n (tok_rest (skip_ws s))) (\<lambda>r s. Parsed (PIPE c r) s)
       else Parsed c (skip_ws s))"
  "parseblock (Suc n) s =
     (if \<not> next_is s ''('' then SynErr ''parseblock''
      else pbind (parseline n (tok_rest (skip_ws s))) (\<lambda>c s.
        if \<not> next_is s '')'' then SynErr ''syntax - missing )''
        else parseredirs c (tok_rest (skip_ws s))))"
  "parseexec (Suc n) s =
     (if next_is s ''('' then parseblock n (skip_ws s)
      else pbind (parseredirs (EXEC []) (skip_ws s)) (\<lambda>ret s. parse_args 0 ret s))"
  by (simp_all add: peek_eq gettoken_case case_prod_beta tok_rest_def cong: if_cong)

declare parseline.simps(2) [simp del] parsepipe.simps(2) [simp del]
  parseblock.simps(2) [simp del] parseexec.simps(2) [simp del]

lemma pbind_Parsed: "pbind m f = Parsed a s \<longleftrightarrow> (\<exists>b t. m = Parsed b t \<and> f b t = Parsed a s)"
  by (cases m) auto

lemma pbind_TooDeep: "pbind m f = TooDeep \<longleftrightarrow> m = TooDeep \<or> (\<exists>b t. m = Parsed b t \<and> f b t = TooDeep)"
  by (cases m) auto

lemma pbind_cong: "(\<And>b t. m = Parsed b t \<Longrightarrow> f b t = g b t) \<Longrightarrow> pbind m f = pbind m g"
  by (cases m) auto

lemma parse_backs_length: "length (snd (parse_backs c s)) \<le> length s"
proof (induction c s rule: parse_backs.induct)
  case (1 c s)
  show ?case
  proof (cases "next_is s ''&''")
    case True
    obtain k q e u where g: "gettoken (skip_ws s) = (k, q, e, u)" by (metis prod_cases4)
    have "length (snd (parse_backs (BACK c) u)) \<le> length u"
      using "1.IH" [OF _ _ g [symmetric] refl refl] True by (simp add: peek_eq)
    then show ?thesis
      using tok_rest_shorter [OF True] True by (subst parse_backs_eq) (simp add: tok_rest_def g)
  next
    case False
    then show ?thesis using skip_ws_length [of s] by (subst parse_backs_eq) simp
  qed
qed

lemma parse_args_length: "parse_args n c s = Parsed c' s' \<Longrightarrow> length s' \<le> length s"
proof (induction "length s" arbitrary: n c s rule: less_induct)
  case less
  obtain k q e u where g: "gettoken (skip_ws s) = (k, q, e, u)" by (metis prod_cases4)
  have l: "length u \<le> length s" using gettoken_length [OF g] skip_ws_length [of s] by simp
  show ?case
  proof (cases "next_is s ''|)&;'' \<or> k = NUL")
    case True
    then show ?thesis
      using less.prems g l skip_ws_length [of s] by (subst (asm) parse_args_eq) (auto split: if_splits)
  next
    case False
    then obtain c2 s2 where r: "parseredirs (add_arg (q, e) c) u = Parsed c2 s2" "parse_args (Suc n) c2 s2 = Parsed c' s'"
      using less.prems g by (subst (asm) parse_args_eq) (auto simp: pbind_Parsed split: if_splits)
    have "length s2 < length s"
      using parseredirs_length [OF r(1)] gettoken_shorter [OF g] False skip_ws_length [of s] by simp
    then show ?thesis using less.hyps [OF _ r(2)] by simp
  qed
qed

lemma no_deep: "parseredirs c s \<noteq> TooDeep" "parse_args n c s \<noteq> TooDeep"
proof -
  show *: "parseredirs c s \<noteq> TooDeep" for c s
    by (induction c s rule: parseredirs.induct)
      (subst parseredirs.simps, auto split: prod.splits if_splits)
  show "parse_args n c s \<noteq> TooDeep"
    by (induction n c s rule: parse_args.induct)
      (subst parse_args.simps, use * in \<open>auto split: prod.splits if_splits pres.splits\<close>)
qed

lemma parse_length:
  "(parseline n s = Parsed c s' \<longrightarrow> length s' \<le> length s) \<and>
   (parsepipe n s = Parsed c s' \<longrightarrow> length s' \<le> length s) \<and>
   (parseblock n s = Parsed c s' \<longrightarrow> length s' \<le> length s) \<and>
   (parseexec n s = Parsed c s' \<longrightarrow> length s' \<le> length s)"
proof (induction n arbitrary: s c s')
  case (Suc n)
  have IH: "parseline n s = Parsed c s' \<Longrightarrow> length s' \<le> length s" "parsepipe n s = Parsed c s' \<Longrightarrow> length s' \<le> length s"
    "parseblock n s = Parsed c s' \<Longrightarrow> length s' \<le> length s" "parseexec n s = Parsed c s' \<Longrightarrow> length s' \<le> length s" for s c s'
    using Suc by blast+
  note le = order_trans [OF parse_backs_length] order_trans [OF skip_ws_length] order_trans [OF tok_rest_length]
  have "length s' \<le> length s" if "parseline (Suc n) s = Parsed c s'"
    using that by (auto simp: parse_eqs pbind_Parsed split: if_splits dest!: IH intro!: le elim!: order_trans)
  moreover have "length s' \<le> length s" if "parsepipe (Suc n) s = Parsed c s'"
    using that by (auto simp: parse_eqs pbind_Parsed split: if_splits dest!: IH intro!: le elim!: order_trans)
  moreover have "length s' \<le> length s" if "parseblock (Suc n) s = Parsed c s'"
    using that by (auto simp: parse_eqs pbind_Parsed split: if_splits dest!: IH parseredirs_length intro!: le elim!: order_trans)
  moreover have "length s' \<le> length s" if "parseexec (Suc n) s = Parsed c s'"
    using that by (auto simp: parse_eqs pbind_Parsed split: if_splits
        dest!: IH parseredirs_length parse_args_length intro!: le elim!: order_trans)
  ultimately show ?case by blast
qed simp

lemma parse_depth:
  "(4 * length s + 4 \<le> n \<longrightarrow> parseline n s \<noteq> TooDeep) \<and>
   (4 * length s + 3 \<le> n \<longrightarrow> parsepipe n s \<noteq> TooDeep) \<and>
   (4 * length s + 1 \<le> n \<longrightarrow> parseblock n s \<noteq> TooDeep) \<and>
   (4 * length s + 2 \<le> n \<longrightarrow> parseexec n s \<noteq> TooDeep)"
proof (induction n arbitrary: s)
  case (Suc n)
  have IH: "4 * length s + 4 \<le> n \<Longrightarrow> parseline n s \<noteq> TooDeep" "4 * length s + 3 \<le> n \<Longrightarrow> parsepipe n s \<noteq> TooDeep"
    "4 * length s + 1 \<le> n \<Longrightarrow> parseblock n s \<noteq> TooDeep" "4 * length s + 2 \<le> n \<Longrightarrow> parseexec n s \<noteq> TooDeep" for s
    using Suc by blast+
  have "parseline (Suc n) s \<noteq> TooDeep" if le: "4 * length s + 4 \<le> Suc n"
  proof -
    have "parseline n (tok_rest (skip_ws (snd (parse_backs c t)))) \<noteq> TooDeep"
      if "parsepipe n s = Parsed c t" "next_is (snd (parse_backs c t)) '';''" for c t
      using parse_length [of n s c t] that le tok_rest_shorter [OF that(2)] parse_backs_length [of c t]
      by (intro IH(1)) auto
    then show ?thesis using IH(2) [of s] le by (auto simp: parse_eqs pbind_TooDeep split: if_splits)
  qed
  moreover have "parsepipe (Suc n) s \<noteq> TooDeep" if le: "4 * length s + 3 \<le> Suc n"
  proof -
    have "parsepipe n (tok_rest (skip_ws t)) \<noteq> TooDeep" if "parseexec n s = Parsed c t" "next_is t ''|''" for c t
      using parse_length [of n s c t] that le tok_rest_shorter [OF that(2)] by (intro IH(2)) auto
    then show ?thesis using IH(4) [of s] le by (auto simp: parse_eqs pbind_TooDeep split: if_splits)
  qed
  moreover have "parseblock (Suc n) s \<noteq> TooDeep" if le: "4 * length s + 1 \<le> Suc n"
    using IH(1) [of "tok_rest (skip_ws s)"] tok_rest_shorter [of s "''(''"] le
    by (auto simp: parse_eqs pbind_TooDeep no_deep split: if_splits)
  moreover have "parseexec (Suc n) s \<noteq> TooDeep" if le: "4 * length s + 2 \<le> Suc n"
    using IH(3) [of "skip_ws s"] skip_ws_length [of s] le
    by (auto simp: parse_eqs pbind_TooDeep no_deep split: if_splits)
  ultimately show ?case by blast
qed simp

section \<open>Words and the shape of the tree\<close>

definition wchar :: "char \<Rightarrow> bool" where
  "wchar c \<longleftrightarrow> \<not> is_ws c \<and> \<not> is_sym c"

text \<open>A token of the line \<open>s\<close>: a maximal run of word characters.\<close>

definition tok_ok :: "string \<Rightarrow> tok \<Rightarrow> bool" where
  "tok_ok s t \<longleftrightarrow> suffix (fst t) s \<and> (\<exists>w. fst t = w @ snd t \<and> w \<noteq> [] \<and> list_all wchar w) \<and>
     (snd t = [] \<or> \<not> wchar (hd (snd t)))"

definition slice :: "tok \<Rightarrow> string" where
  "slice t = take (length (fst t) - length (snd t)) (fst t)"

definition redir_modes :: "(i32 \<times> int) set" where
  "redir_modes = {(O_RDONLY, 0), (O_WRONLY OR O_CREATE OR O_TRUNC, 1), (O_WRONLY OR O_CREATE, 1)}"

fun wf_shape :: "'w cmd \<Rightarrow> bool" where
  "wf_shape (EXEC args) \<longleftrightarrow> length args < MAXARGS"
| "wf_shape (REDIR c f m fd) \<longleftrightarrow> wf_shape c \<and> (m, fd) \<in> redir_modes"
| "wf_shape (PIPE l r) \<longleftrightarrow> wf_shape l \<and> wf_shape r"
| "wf_shape (LIST l r) \<longleftrightarrow> wf_shape l \<and> wf_shape r"
| "wf_shape (BACK c) \<longleftrightarrow> wf_shape c"

definition valid_word :: "string \<Rightarrow> bool" where
  "valid_word w \<longleftrightarrow> w \<noteq> [] \<and> list_all wchar w \<and> NUL \<notin> set w"

definition wf_cmd :: "string cmd \<Rightarrow> bool" where
  "wf_cmd c \<longleftrightarrow> wf_shape c \<and> (\<forall>w\<in>set_cmd c. valid_word w)"

text \<open>The words of the command under construction in \<^const>\<open>parseexec\<close>.\<close>

fun nargs :: "'w cmd \<Rightarrow> nat" where
  "nargs (EXEC args) = length args"
| "nargs (REDIR c f m fd) = nargs c"
| "nargs c = 0"

lemma wf_shape_map [simp]: "wf_shape (map_cmd f c) = wf_shape c"
  by (induction c) auto

lemma wchar_NUL: "wchar NUL" by (simp add: wchar_def is_ws_def is_sym_def)

lemma skip_ws_suffix: "suffix (skip_ws s) s"
  by (simp add: skip_ws_def suffix_dropWhile)

lemma gettoken_Cons:
  assumes "skip_ws s = c # t"
  shows "gettoken s =
    (if c \<in> set ''|();&<'' then (c, c # t, t, skip_ws t)
     else if c = CHR ''>'' then
       (if t \<noteq> [] \<and> hd t = CHR ''>'' then (CHR ''+'', c # t, tl t, skip_ws (tl t)) else (c, c # t, t, skip_ws t))
     else (CHR ''a'', c # t, dropWhile wchar t, skip_ws (dropWhile wchar t)))"
proof -
  have nws: "\<not> is_ws c" using assms hd_dropWhile [of is_ws s] by (auto simp: skip_ws_def)
  have w: "(\<lambda>x. \<not> is_ws x \<and> \<not> is_sym x) = wchar" by (auto simp: wchar_def)
  have "wchar c" if "c \<notin> set ''|();&<''" "c \<noteq> CHR ''>''" using that nws by (auto simp: wchar_def is_sym_def)
  then show ?thesis unfolding gettoken_def assms Let_def w by simp
qed

lemma gettoken_suffix: "gettoken s = (t, q, e, r) \<Longrightarrow> suffix r s"
proof -
  assume g: "gettoken s = (t, q, e, r)"
  have "suffix r (skip_ws s)"
  proof (cases "skip_ws s")
    case (Cons c u)
    have "suffix (skip_ws u) (c # u)" "suffix (skip_ws (tl u)) (c # u)" "suffix (skip_ws (dropWhile wchar u)) (c # u)"
      by (meson skip_ws_suffix suffix_ConsI suffix_order.trans suffix_tl suffix_dropWhile suffix_order.refl)+
    then show ?thesis using g Cons unfolding gettoken_Cons [OF Cons] by (auto split: if_splits)
  qed (use g in \<open>simp add: gettoken_def\<close>)
  then show ?thesis using skip_ws_suffix suffix_order.trans by blast
qed

lemma tok_rest_suffix: "suffix (tok_rest s) s"
  using gettoken_suffix [of s] by (cases "gettoken s") (auto simp: tok_rest_def)

lemma gettoken_word: "gettoken s = (CHR ''a'', q, e, r) \<Longrightarrow> tok_ok s (q, e)"
proof -
  assume g: "gettoken s = (CHR ''a'', q, e, r)"
  obtain c t where q: "skip_ws s = c # t" using g by (cases "skip_ws s") (auto simp: gettoken_def)
  have nws: "\<not> is_ws c" using q hd_dropWhile [of is_ws s] by (auto simp: skip_ws_def)
  have "\<not> is_sym c" using g unfolding gettoken_Cons [OF q] by (auto simp: is_sym_def split: if_splits)
  then have e: "q = c # t" "e = dropWhile wchar q" "\<not> is_sym c"
    using g nws unfolding gettoken_Cons [OF q] by (auto simp: wchar_def split: if_splits)
  have "q = takeWhile wchar q @ e" using e(2) by simp
  moreover have "list_all wchar (takeWhile wchar q)" by (auto simp: list_all_iff dest: set_takeWhileD)
  moreover have "takeWhile wchar q \<noteq> []" using nws e by (simp add: wchar_def)
  moreover have "e = [] \<or> \<not> wchar (hd e)" using hd_dropWhile [of wchar q] e(2) by auto
  moreover have "suffix q s" using skip_ws_suffix [of s] q e(1) by simp
  ultimately show ?thesis unfolding tok_ok_def fst_conv snd_conv by blast
qed

lemma tok_ok_suffix: "tok_ok s t \<Longrightarrow> suffix s s' \<Longrightarrow> tok_ok s' t"
  by (auto simp: tok_ok_def intro: suffix_order.trans)

text \<open>What a parser that started at \<open>s\<close> may have built when it stands at \<open>s'\<close>.\<close>

definition built :: "string \<Rightarrow> tok cmd \<Rightarrow> string \<Rightarrow> bool" where
  "built s c s' \<longleftrightarrow> suffix s' s \<and> wf_shape c \<and> (\<forall>t\<in>set_cmd c. tok_ok s t)"

lemma built_step: "built s c s' \<Longrightarrow> suffix s'' s' \<Longrightarrow> built s c s''"
  by (auto simp: built_def intro: suffix_order.trans)

lemma built_start: "built s' c s'' \<Longrightarrow> suffix s' s \<Longrightarrow> built s c s''"
  by (auto simp: built_def intro: suffix_order.trans tok_ok_suffix)

lemma built_skip: "built s c s' \<Longrightarrow> built s c (skip_ws s')"
  by (erule built_step) (rule skip_ws_suffix)

lemma built_tok_rest: "built s c s' \<Longrightarrow> built s c (tok_rest (skip_ws s'))"
  by (erule built_step [OF built_skip]) (rule tok_rest_suffix)

lemma redir_of_props:
  "tok \<in> {CHR ''<'', CHR ''>'', CHR ''+''} \<Longrightarrow>
     wf_shape (redir_of tok c f) = wf_shape c \<and> set_cmd (redir_of tok c f) = insert f (set_cmd c) \<and>
     nargs (redir_of tok c f) = nargs c"
  by (auto simp: redir_of_def redir_modes_def)

lemma redir_token:
  assumes "next_is s ''<>''"
  shows "fst (gettoken (skip_ws s)) \<in> {CHR ''<'', CHR ''>'', CHR ''+''}"
proof -
  obtain c t where q: "skip_ws (skip_ws s) = c # t" "c \<in> {CHR ''<'', CHR ''>''}"
    using assms unfolding skip_ws_idem by (cases "skip_ws s") (auto simp: next_is_def)
  then show ?thesis using gettoken_Cons [OF q(1)] by auto
qed

lemma parseredirs_built:
  "parseredirs c s = Parsed c' s' \<Longrightarrow> built s0 c s \<Longrightarrow> built s0 c' s' \<and> nargs c' = nargs c"
proof (induction "length s" arbitrary: c s rule: less_induct)
  case less
  show ?case
  proof (cases "next_is s ''<>''")
    case False
    then show ?thesis using less.prems by (subst (asm) parseredirs_eq) (auto intro: built_skip)
  next
    case True
    obtain k q e u where g: "gettoken (tok_rest (skip_ws s)) = (k, q, e, u)" by (metis prod_cases4)
    have r: "k = CHR ''a''" "parseredirs (redir_of (fst (gettoken (skip_ws s))) c (q, e)) u = Parsed c' s'"
      using less.prems True g by (subst (asm) parseredirs_eq, simp split: if_splits)+
    note rp = redir_of_props [OF redir_token [OF True], of c "(q, e)"]
    have b: "built s0 c (tok_rest (skip_ws s))" using less.prems by (simp add: built_tok_rest)
    have "tok_ok s0 (q, e)"
      using tok_ok_suffix [OF gettoken_word [OF g [unfolded r(1)]]] b by (simp add: built_def)
    then have "built s0 (redir_of (fst (gettoken (skip_ws s))) c (q, e)) u"
      using b gettoken_suffix [OF g] rp
      by (auto simp: built_def intro: suffix_order.trans)
    moreover have "length u < length s"
      using gettoken_length [OF g] tok_rest_shorter [OF True] by simp
    ultimately show ?thesis
      using less.hyps [OF _ r(2)] rp by simp
  qed
qed

lemma add_arg_props:
  "set_cmd (add_arg a c) \<subseteq> insert a (set_cmd c)" "nargs (add_arg a c) \<le> Suc (nargs c)"
  "wf_shape c \<Longrightarrow> Suc (nargs c) < MAXARGS \<Longrightarrow> wf_shape (add_arg a c)"
  by (induction c) auto

lemma parse_args_built:
  "parse_args k c s = Parsed c' s' \<Longrightarrow> built s0 c s \<Longrightarrow> nargs c \<le> k \<Longrightarrow> built s0 c' s'"
proof (induction "length s" arbitrary: k c s rule: less_induct)
  case less
  obtain t q e u where g: "gettoken (skip_ws s) = (t, q, e, u)" by (metis prod_cases4)
  have su: "suffix u (skip_ws s)" using gettoken_suffix [OF g] .
  have b: "built s0 c (skip_ws s)" using less.prems by (simp add: built_skip)
  show ?case
  proof (cases "next_is s ''|)&;'' \<or> t = NUL")
    case True
    then have "c' = c" "s' = skip_ws s \<or> s' = u"
      using less.prems(1) g by (subst (asm) parse_args_eq, auto split: if_splits)+
    then show ?thesis using b built_step [OF b su] by auto
  next
    case False
    then obtain c2 s2 where r: "parseredirs (add_arg (q, e) c) u = Parsed c2 s2" "parse_args (Suc k) c2 s2 = Parsed c' s'"
      and t: "t = CHR ''a''" "Suc k < MAXARGS"
      using less.prems(1) g by (subst (asm) parse_args_eq) (auto simp: pbind_Parsed split: if_splits)
    have "tok_ok s0 (q, e)"
      using tok_ok_suffix [OF gettoken_word [OF g [unfolded t(1)]]] b by (simp add: built_def)
    then have "built s0 (add_arg (q, e) c) u"
      using built_step [OF b su] add_arg_props [where c = c and a = "(q, e)"] less.prems(3) t(2)
      by (fastforce simp: built_def)
    then have "built s0 c2 s2" "nargs c2 = nargs (add_arg (q, e) c)"
      using parseredirs_built [OF r(1)] by blast+
    moreover have "length s2 < length s"
      using parseredirs_length [OF r(1)] gettoken_shorter [OF g] t skip_ws_length [of s] by simp
    ultimately show ?thesis
      using less.hyps [OF _ r(2)] add_arg_props(2) [of "(q, e)" c] less.prems(3) by simp
  qed
qed

lemma parse_backs_built: "built s0 c s \<Longrightarrow> built s0 (fst (parse_backs c s)) (snd (parse_backs c s))"
proof (induction "length s" arbitrary: c s rule: less_induct)
  case less
  have "built s0 (BACK c) (tok_rest (skip_ws s))" using built_tok_rest [OF less.prems] by (simp add: built_def)
  then show ?case
    using less.hyps [of "tok_rest (skip_ws s)" "BACK c"] tok_rest_shorter [of s "''&''"] built_skip [OF less.prems]
    by (subst (1 2) parse_backs_eq) simp
qed

lemma built_two:
  assumes "built s c s'" "built s' c2 s''"
  shows "built s (PIPE c c2) s''" "built s (LIST c c2) s''"
  using assms by (auto simp: built_def intro: tok_ok_suffix suffix_order.trans)

lemma built_EXEC [simp]: "built s (EXEC []) s"
  by (simp add: built_def MAXARGS_def)

lemma parse_built:
  "(parseline n s = Parsed c s' \<longrightarrow> built s c s') \<and>
   (parsepipe n s = Parsed c s' \<longrightarrow> built s c s') \<and>
   (parseblock n s = Parsed c s' \<longrightarrow> built s c s') \<and>
   (parseexec n s = Parsed c s' \<longrightarrow> built s c s')"
proof (induction n arbitrary: s c s')
  case (Suc n)
  have IH: "parseline n s = Parsed c s' \<Longrightarrow> built s c s'" "parsepipe n s = Parsed c s' \<Longrightarrow> built s c s'"
    "parseblock n s = Parsed c s' \<Longrightarrow> built s c s'" "parseexec n s = Parsed c s' \<Longrightarrow> built s c s'" for s c s'
    using Suc by blast+
  note sk = tok_rest_suffix [THEN suffix_order.trans, OF skip_ws_suffix]
  have "built s c s'" if "parseline (Suc n) s = Parsed c s'"
    using that by (auto simp: parse_eqs pbind_Parsed split: if_splits
        dest!: IH intro: built_skip parse_backs_built built_two(2) [OF built_tok_rest [OF parse_backs_built]])
  moreover have "built s c s'" if "parsepipe (Suc n) s = Parsed c s'"
    using that by (auto simp: parse_eqs pbind_Parsed split: if_splits
        dest!: IH intro: built_skip built_two(1) [OF built_tok_rest])
  moreover have "built s c s'" if blk: "parseblock (Suc n) s = Parsed c s'"
  proof -
    obtain b t where "parseline n (tok_rest (skip_ws s)) = Parsed b t" "parseredirs b (tok_rest (skip_ws t)) = Parsed c s'"
      using blk by (auto simp: parse_eqs pbind_Parsed split: if_splits)
    then show ?thesis
      using parseredirs_built built_tok_rest [OF built_start [OF IH(1) sk]] by blast
  qed
  moreover have "built s c s'" if ex: "parseexec (Suc n) s = Parsed c s'"
  proof (cases "next_is s ''(''")
    case True
    then show ?thesis using ex IH(3) built_start [OF _ skip_ws_suffix] by (simp add: parse_eqs)
  next
    case False
    then obtain b t where "parseredirs (EXEC []) (skip_ws s) = Parsed b t" "parse_args 0 b t = Parsed c s'"
      using ex by (auto simp: parse_eqs pbind_Parsed)
    then show ?thesis
      using parseredirs_built [of "EXEC []" "skip_ws s" b t s] parse_args_built [of 0 b t c s' s] built_skip [OF built_EXEC]
      by simp
  qed
  ultimately show ?case by blast
qed simp

section \<open>Terminating the words\<close>

lemma fold_ends:
  "length (fold (\<lambda>(q, eq) buf. buf[len - length eq := NUL]) ts buf) = length buf \<and>
   (i < length buf \<longrightarrow> fold (\<lambda>(q, eq) buf. buf[len - length eq := NUL]) ts buf ! i =
     (if i \<in> (\<lambda>t. len - length (snd t)) ` set ts then NUL else buf ! i))"
proof (induction ts arbitrary: buf)
  case (Cons t ts)
  then show ?case
    using Cons.IH [of "buf[len - length (snd t) := NUL]"] by (cases t) (simp add: nth_list_update)
qed simp

lemma nulterminate_nth:
  "length (nulterminate len c buf) = length buf \<and>
   (i < length buf \<longrightarrow> nulterminate len c buf ! i =
     (if i \<in> (\<lambda>t. len - length (snd t)) ` set_cmd c then NUL else buf ! i))"
proof (induction c arbitrary: buf)
  case (EXEC ts)
  then show ?case using fold_ends [of len ts buf i] by simp
next
  case (REDIR c f m fd)
  show ?case using REDIR.IH [of buf] by (cases "i = len - length (snd f)") (simp_all add: nth_list_update)
next
  case (PIPE l r)
  then show ?case using PIPE.IH(1) [of buf] PIPE.IH(2) [of "nulterminate len l buf"] by (simp add: image_Un)
next
  case (LIST l r)
  then show ?case using LIST.IH(1) [of buf] LIST.IH(2) [of "nulterminate len l buf"] by (simp add: image_Un)
qed simp

lemma nulterminate_length [simp]: "length (nulterminate len c buf) = length buf"
  using nulterminate_nth by blast

lemma tok_end_char:
  assumes "tok_ok line t" "length line - length (snd t) < length line"
  shows "\<not> wchar (line ! (length line - length (snd t)))"
proof -
  obtain p w where "line = p @ w @ snd t" using assms(1) by (auto simp: tok_ok_def suffix_def)
  then have "line = (p @ w) @ snd t" by simp
  moreover have "snd t \<noteq> []" using assms(2) by auto
  ultimately have "line ! (length line - length (snd t)) = hd (snd t)"
    by (metis append_eq_conv_conj diff_add_inverse2 hd_drop_conv_nth length_append assms(2))
  then show ?thesis using assms(1) \<open>snd t \<noteq> []\<close> by (simp add: tok_ok_def)
qed

lemma take_drop_C:
  assumes "take n xs = w" "drop n xs = [] \<or> hd (drop n xs) = z" "\<And>x. x \<in> set w \<Longrightarrow> x \<noteq> z"
  shows "takeWhile (\<lambda>c. c \<noteq> z) xs = w"
proof -
  have "takeWhile (\<lambda>c. c \<noteq> z) (w @ drop n xs) = w @ takeWhile (\<lambda>c. c \<noteq> z) (drop n xs)"
    by (rule takeWhile_append2) (rule assms(3))
  moreover have "takeWhile (\<lambda>c. c \<noteq> z) (drop n xs) = []" using assms(2) by (auto simp: takeWhile_eq_Nil_iff)
  ultimately show ?thesis using assms(1) append_take_drop_id [of n xs] by simp
qed

lemma word_at_slice:
  assumes ok: "\<forall>t\<in>set_cmd c. tok_ok line t" and t: "t \<in> set_cmd c" and nul: "NUL \<notin> set line"
  shows "word_at (nulterminate (length line) c line) t = slice t \<and> valid_word (slice t)"
proof -
  define buf where "buf = nulterminate (length line) c line"
  obtain p w where l: "line = p @ w @ snd t" "fst t = w @ snd t" "list_all wchar w" "w \<noteq> []"
    using ok t by (fastforce simp: tok_ok_def suffix_def)
  have sl: "slice t = w" using l(2) by (simp add: slice_def)
  have len [simp]: "length buf = length line" by (simp add: buf_def)
  have keep: "buf ! (length p + j) = w ! j" if j: "j < length w" for j
  proof -
    have "line ! (length p + j) = w ! j" using j l(1) by (simp add: nth_append)
    moreover have "wchar (w ! j)" using j l(3) by (simp add: list_all_length)
    moreover have "length p + j < length line" using j arg_cong [OF l(1), of length] by simp
    ultimately have "length p + j \<notin> (\<lambda>t. length line - length (snd t)) ` set_cmd c"
      using tok_end_char ok by fastforce
    then show ?thesis
      using nulterminate_nth [of "length line" c line "length p + j"] \<open>length p + j < length line\<close>
        \<open>line ! (length p + j) = w ! j\<close> by (simp add: buf_def)
  qed
  have start: "drop (length buf - length (fst t)) buf = drop (length p) buf"
    using arg_cong [OF l(1), of length] l(2) by simp
  have "take (length w) (drop (length p) buf) = w"
    using keep arg_cong [OF l(1), of length] by (intro nth_equalityI) auto
  moreover have "drop (length w) (drop (length p) buf) = [] \<or> hd (drop (length w) (drop (length p) buf)) = NUL"
  proof (cases "snd t = []")
    case False
    have i: "length p + length w = length line - length (snd t)" "length p + length w < length line"
      using arg_cong [OF l(1), of length] False by auto
    then have "buf ! (length p + length w) = NUL"
      using nulterminate_nth [of "length line" c line "length p + length w"] t by (auto simp: buf_def)
    then show ?thesis using i(2) by (simp add: hd_drop_conv_nth add.commute)
  qed (use arg_cong [OF l(1), of length] in simp)
  moreover have "\<And>x. x \<in> set w \<Longrightarrow> x \<noteq> NUL" using nul l(1) by auto
  ultimately have "takeWhile (\<lambda>c. c \<noteq> NUL) (drop (length p) buf) = w"
    using take_drop_C [of "length w" "drop (length p) buf" w NUL] by blast
  then show ?thesis
    using start nul l sl by (simp add: word_at_def buf_def valid_word_def)
qed

lemma parsecmd_slices:
  assumes "NUL \<notin> set line"
  shows "parsecmd line = pbind (parseline (depth_of line) line) (\<lambda>c s.
    if skip_ws s \<noteq> [] then Leftovers (skip_ws s) else Parsed (map_cmd slice c) [])"
proof -
  have "map_cmd (word_at (nulterminate (length line) c line)) c = map_cmd slice c"
    if "parseline (depth_of line) line = Parsed c s" for c s
    using parse_built [of "depth_of line" line c s] that word_at_slice [of c line] assms
    by (auto simp: built_def intro!: cmd.map_cong)
  then show ?thesis
    unfolding parsecmd_def by (intro pbind_cong) (auto simp: peek_eq)
qed

section \<open>The printer and the round trip\<close>

text \<open>
  A printer for command trees: the grammar has the levels line, background, pipeline and simple
  command, and a tree below its level is put in parentheses.
\<close>

fun level :: "'w cmd \<Rightarrow> nat" where
  "level (LIST l r) = 0"
| "level (BACK c) = 1"
| "level (PIPE l r) = 2"
| "level c = 3"

definition redir_text :: "i32 \<Rightarrow> int \<Rightarrow> string" where
  "redir_text m fd = (if fd = 0 then ''<'' else if m = O_WRONLY OR O_CREATE then ''>>'' else ''>'')"

abbreviation in_parens :: "bool \<Rightarrow> string \<Rightarrow> string" where
  "in_parens b s \<equiv> if b then ''('' @ s @ '')'' else s"

fun render :: "nat \<Rightarrow> string cmd \<Rightarrow> string" where
  "render p (EXEC args) = concat (map ((#) (CHR '' '')) args)"
| "render p (REDIR c f m fd) = render 3 c @ redir_text m fd @ f"
| "render p (PIPE l r) = in_parens (2 < p) (render 3 l @ ''|'' @ render 2 r)"
| "render p (BACK c) = in_parens (1 < p) (render 1 c @ ''&'')"
| "render p (LIST l r) = in_parens (0 < p) (render 1 l @ '';'' @ render 0 r)"

definition stops :: "string \<Rightarrow> string \<Rightarrow> bool" where
  "stops cs s \<longleftrightarrow> s = [] \<or> hd s \<in> set cs"

lemma stops_mono: "stops cs s \<Longrightarrow> set cs \<subseteq> set ds \<Longrightarrow> stops ds s"
  by (auto simp: stops_def)

lemma skip_ws_stop: "stops ''|)&;<>'' s \<Longrightarrow> skip_ws s = s"
  by (cases s) (auto simp: stops_def skip_ws_def is_ws_def)

lemma skip_ws_word: "valid_word w \<Longrightarrow> skip_ws (w @ s) = w @ s"
  by (cases w) (auto simp: valid_word_def skip_ws_def wchar_def)

lemma skip_ws_space: "skip_ws (CHR '' '' # s) = skip_ws s"
  by (simp add: skip_ws_def is_ws_def)

lemma next_is_space: "next_is (CHR '' '' # s) t = next_is s t"
  by (simp add: next_is_def skip_ws_space)

lemma gettoken_valid:
  assumes "valid_word w" "s = [] \<or> \<not> wchar (hd s)"
  shows "gettoken (w @ s) = (CHR ''a'', w @ s, s, skip_ws s)"
proof -
  obtain c u where w: "w = c # u" "wchar c" "list_all wchar u" using assms(1) by (cases w) (auto simp: valid_word_def)
  have q: "skip_ws (w @ s) = c # (u @ s)" using skip_ws_word [OF assms(1)] w by simp
  have d: "dropWhile wchar (u @ s) = s"
    using w(3) assms(2) by (simp add: dropWhile_append2 list_all_iff) (cases s; auto)
  have "c \<notin> set ''|();&<''" "c \<noteq> CHR ''>''" using w(2) by (auto simp: wchar_def is_sym_def)
  then show ?thesis using gettoken_Cons [OF q] d w(1) by simp
qed

lemma gettoken_sym:
  assumes "c \<in> set ''|();&<''"
  shows "gettoken (c # s) = (c, c # s, s, skip_ws s)" "skip_ws (c # s) = c # s"
proof -
  show q: "skip_ws (c # s) = c # s" using assms by (auto simp: skip_ws_def is_ws_def)
  show "gettoken (c # s) = (c, c # s, s, skip_ws s)" using gettoken_Cons [OF q] assms by simp
qed

lemma tok_rest_sym: "c \<in> set ''|();&<'' \<Longrightarrow> tok_rest (c # s) = skip_ws s"
  by (simp add: tok_rest_def gettoken_sym del: set_simps)

lemma next_is_sym: "c \<in> set ''|();&<'' \<Longrightarrow> next_is (c # s) t \<longleftrightarrow> c \<in> set t"
  by (simp add: next_is_def gettoken_sym del: set_simps)

lemma next_is_stops: "stops cs s \<Longrightarrow> set cs \<subseteq> set ''|)&;<>'' \<Longrightarrow> set cs \<inter> set t = {} \<Longrightarrow> \<not> next_is s t"
  using skip_ws_stop [OF stops_mono, of cs s] by (auto simp: next_is_def stops_def)

lemma next_is_word: "valid_word w \<Longrightarrow> set t \<subseteq> set ''<|>&;()'' \<Longrightarrow> \<not> next_is (w @ s) t"
  using skip_ws_word [of w s] by (cases w) (auto simp: next_is_def valid_word_def wchar_def is_sym_def)

lemma parse_skip [simp]:
  "parseredirs c (skip_ws s) = parseredirs c s" "parse_backs c (skip_ws s) = parse_backs c s"
  "parse_args k c (skip_ws s) = parse_args k c s" "parseexec n (skip_ws s) = parseexec n s"
  "parsepipe n (skip_ws s) = parsepipe n s" "parseline n (skip_ws s) = parseline n s"
proof -
  show "parseredirs c (skip_ws s) = parseredirs c s" for c s by (subst (1 2) parseredirs_eq) (simp only: next_is_skip skip_ws_idem)
  show "parse_backs c (skip_ws s) = parse_backs c s" by (subst (1 2) parse_backs_eq) simp
  show "parse_args k c (skip_ws s) = parse_args k c s" by (subst (1 2) parse_args_eq) simp
  show e: "parseexec n (skip_ws s) = parseexec n s" for n s by (cases n) (simp_all add: parse_eqs)
  show p: "parsepipe n (skip_ws s) = parsepipe n s" for n s by (cases n) (simp_all add: parse_eqs e)
  show "parseline n (skip_ws s) = parseline n s" by (cases n) (simp_all add: parse_eqs p)
qed

text \<open>A redirection after the text of a command.\<close>

lemma slice_append [simp]: "slice (w @ s, s) = w"
  by (simp add: slice_def)

lemma parseredirs_text:
  assumes "valid_word f" "(m, fd) \<in> redir_modes" "s = [] \<or> \<not> wchar (hd s)"
  shows "parseredirs c (redir_text m fd @ f @ s) = parseredirs (REDIR c (f @ s, s) m fd) s"
proof -
  note g = gettoken_valid [OF assms(1,3)]
  have nf: "f @ s \<noteq> []" "hd (f @ s) \<noteq> CHR ''>''"
    using assms(1) by (cases f; auto simp: valid_word_def wchar_def is_sym_def)+
  have ws: "skip_ws (CHR ''<'' # u) = CHR ''<'' # u" "skip_ws (CHR ''>'' # u) = CHR ''>'' # u" for u
    by (simp_all add: skip_ws_def is_ws_def)
  note gt = gettoken_Cons [OF ws(1)] gettoken_Cons [OF ws(2)]
  consider "m = O_RDONLY" "fd = 0" | "m = O_WRONLY OR O_CREATE OR O_TRUNC" "fd = 1" | "m = O_WRONLY OR O_CREATE" "fd = 1"
    using assms(2) by (auto simp: redir_modes_def)
  then show ?thesis
  proof cases
    case 1
    then show ?thesis
      by (subst parseredirs_eq)
        (simp add: redir_text_def next_is_def ws tok_rest_def gt skip_ws_word [OF assms(1)] g redir_of_def)
  next
    case 2
    moreover have "O_WRONLY OR O_CREATE OR O_TRUNC \<noteq> O_WRONLY OR O_CREATE" by (simp add: O_WRONLY_def O_CREATE_def O_TRUNC_def)
    ultimately show ?thesis using nf
      by (subst parseredirs_eq)
        (simp add: redir_text_def next_is_def ws tok_rest_def gt skip_ws_word [OF assms(1)] g redir_of_def)
  next
    case 3
    then show ?thesis
      by (subst parseredirs_eq)
        (simp add: redir_text_def next_is_def ws tok_rest_def gt skip_ws_word [OF assms(1)] g redir_of_def)
  qed
qed

lemma parseredirs_skipped: "parseredirs c s = Parsed c' s' \<Longrightarrow> skip_ws s' = s'"
proof (induction "length s" arbitrary: c s rule: less_induct)
  case less
  obtain k q e u where g: "gettoken (tok_rest (skip_ws s)) = (k, q, e, u)" by (metis prod_cases4)
  have "length u < length s" if "next_is s ''<>''"
    using gettoken_length [OF g] tok_rest_shorter [OF that] by simp
  then show ?case
    using less.prems less.hyps [of u] g by (auto simp: parseredirs_eq [of c s] split: if_splits)
qed

lemma parseredirs_none: "\<not> next_is s ''<>'' \<Longrightarrow> parseredirs c s = Parsed c (skip_ws s)"
  by (subst parseredirs_eq) simp

lemma parse_args_stop: "stops ''|)&;'' s \<Longrightarrow> parse_args k c s = Parsed c (skip_ws s)"
proof (cases s)
  case Nil
  then show ?thesis by (subst parse_args_eq) (simp add: next_is_def gettoken_def)
next
  case (Cons a t)
  assume "stops ''|)&;'' s"
  then have "next_is s ''|)&;''" using Cons next_is_sym [of a t "''|)&;''"] by (auto simp: stops_def)
  then show ?thesis by (subst parse_args_eq) simp
qed

abbreviation words_text :: "string list \<Rightarrow> string" where
  "words_text ws \<equiv> concat (map ((#) (CHR '' '')) ws)"

lemma parse_args_words:
  "\<forall>w\<in>set ws. valid_word w \<Longrightarrow> ws \<noteq> [] \<Longrightarrow> length as + length ws < MAXARGS \<Longrightarrow> s = [] \<or> \<not> wchar (hd s) \<Longrightarrow>
   \<exists>bs. map slice bs = ws \<and>
     parse_args (length as) (EXEC as) (words_text ws @ s) =
     pbind (parseredirs (EXEC (as @ bs)) s) (\<lambda>c s. parse_args (length as + length ws) c s)"
proof (induction ws arbitrary: as)
  case (Cons w ws)
  define r where "r = words_text ws @ s"
  have r: "r = [] \<or> \<not> wchar (hd r)"
    using Cons.prems(4) by (cases ws) (auto simp: r_def wchar_def is_ws_def)
  have v: "valid_word w" using Cons.prems(1) by simp
  have "Suc (length as) < MAXARGS" using Cons.prems(3) by simp
  then have 1: "parse_args (length as) (EXEC as) (words_text (w # ws) @ s) =
    pbind (parseredirs (EXEC (as @ [(w @ r, r)])) r) (\<lambda>c s. parse_args (Suc (length as)) c s)"
    using next_is_word [OF v, of "''|)&;''" r] gettoken_valid [OF v r] skip_ws_word [OF v, of r]
    by (subst parse_args_eq) (simp add: next_is_space skip_ws_space r_def)
  show ?case
  proof (cases ws)
    case Nil
    then show ?thesis using 1 by (intro exI [of _ "[(w @ r, r)]"]) (simp add: r_def)
  next
    case (Cons w2 ws2)
    have "valid_word w2" using Cons Cons.prems(1) by simp
    then have "\<not> next_is r ''<>''"
      using next_is_word [of w2 "''<>''"] Cons skip_ws_word [of w2] by (simp add: r_def next_is_space)
    then have 2: "parse_args (length as) (EXEC as) (words_text (w # ws) @ s) =
        parse_args (length (as @ [(w @ r, r)])) (EXEC (as @ [(w @ r, r)])) (words_text ws @ s)"
      using 1 by (simp add: parseredirs_none r_def)
    have "\<forall>w\<in>set ws. valid_word w" "ws \<noteq> []" "length (as @ [(w @ r, r)]) + length ws < MAXARGS"
      using Cons Cons.prems by auto
    from Cons.IH [OF this Cons.prems(4)]
    obtain bs where "map slice bs = ws" "parse_args (length (as @ [(w @ r, r)])) (EXEC (as @ [(w @ r, r)])) (words_text ws @ s) =
        pbind (parseredirs (EXEC ((as @ [(w @ r, r)]) @ bs)) s) (\<lambda>c s. parse_args (length (as @ [(w @ r, r)]) + length ws) c s)"
      by blast
    then show ?thesis using 2 by (intro exI [of _ "(w @ r, r) # bs"]) simp
  qed
qed simp

text \<open>
  The parser of a level reads the rendering of a tree.  After a simple command more redirections
  may follow, after a background command more ampersands: what the parser does then is part of
  the statement.
\<close>

definition reads3 :: "string cmd \<Rightarrow> bool" where
  "reads3 c \<longleftrightarrow> (\<forall>n s. stops ''|)&;<>'' s \<and> 4 * length (render 3 c @ s) + 2 \<le> n \<longrightarrow>
     (\<exists>tc k. map_cmd slice tc = c \<and> parseexec n (render 3 c @ s) = pbind (parseredirs tc s) k \<and>
        (\<forall>tc s. stops ''|)&;'' s \<longrightarrow> k tc s = Parsed tc (skip_ws s))))"

definition reads2 :: "string cmd \<Rightarrow> bool" where
  "reads2 c \<longleftrightarrow> (\<forall>n s. stops '')&;'' s \<and> 4 * length (render 2 c @ s) + 3 \<le> n \<longrightarrow>
     (\<exists>tc. map_cmd slice tc = c \<and> parsepipe n (render 2 c @ s) = Parsed tc (skip_ws s)))"

definition reads1 :: "string cmd \<Rightarrow> bool" where
  "reads1 c \<longleftrightarrow> (\<forall>n s. stops '')&;'' s \<and> 4 * length (render 1 c @ s) + 3 \<le> n \<longrightarrow>
     (\<exists>tc d t. map_cmd slice tc = c \<and> parsepipe n (render 1 c @ s) = Parsed d t \<and> parse_backs d t = parse_backs tc s))"

definition reads0 :: "string cmd \<Rightarrow> bool" where
  "reads0 c \<longleftrightarrow> (\<forall>n s. stops '')'' s \<and> 4 * length (render 0 c @ s) + 4 \<le> n \<longrightarrow>
     (\<exists>tc. map_cmd slice tc = c \<and> parseline n (render 0 c @ s) = Parsed tc (skip_ws s)))"

lemma reads_EXEC:
  assumes "length ws < MAXARGS" "\<forall>w\<in>set ws. valid_word w"
  shows "reads3 (EXEC ws)"
  unfolding reads3_def
proof (intro allI impI, elim conjE)
  fix n s
  assume s: "stops ''|)&;<>'' s" and n: "4 * length (render 3 (EXEC ws) @ s) + 2 \<le> n"
  obtain m where m: "n = Suc m" using n by (cases n) auto
  have hs: "s = [] \<or> \<not> wchar (hd s)" using s by (auto simp: stops_def wchar_def is_sym_def)
  show "\<exists>tc k. map_cmd slice tc = EXEC ws \<and> parseexec n (render 3 (EXEC ws) @ s) = pbind (parseredirs tc s) k \<and>
      (\<forall>tc s. stops ''|)&;'' s \<longrightarrow> k tc s = Parsed tc (skip_ws s))"
  proof (cases ws)
    case Nil
    have "\<not> next_is s ''(''" by (rule next_is_stops [OF s]) auto
    then show ?thesis
      using m Nil parse_args_stop by (intro exI [of _ "EXEC []"] exI [of _ "parse_args 0"]) (simp add: parse_eqs)
  next
    case (Cons w vs)
    have v: "valid_word w" using assms(2) Cons by simp
    have "\<not> next_is (words_text ws @ s) ''(''" "\<not> next_is (words_text ws @ s) ''<>''"
      using next_is_word [OF v] Cons by (simp_all add: next_is_space)
    then have "parseexec n (words_text ws @ s) = parse_args 0 (EXEC []) (words_text ws @ s)"
      using m by (simp add: parse_eqs parseredirs_none)
    moreover have "\<exists>bs. map slice bs = ws \<and>
        parse_args 0 (EXEC []) (words_text ws @ s) = pbind (parseredirs (EXEC bs) s) (\<lambda>c s. parse_args (length ws) c s)"
      using parse_args_words [OF assms(2) _ _ hs, of "[]"] assms(1) Cons by simp
    then obtain bs where "map slice bs = ws"
      "parse_args 0 (EXEC []) (words_text ws @ s) = pbind (parseredirs (EXEC bs) s) (\<lambda>c s. parse_args (length ws) c s)"
      by blast
    ultimately show ?thesis
      using parse_args_stop by (intro exI [of _ "EXEC bs"] exI [of _ "parse_args (length ws)"]) simp
  qed
qed

lemma reads_REDIR:
  assumes "reads3 c" "valid_word f" "(m, fd) \<in> redir_modes"
  shows "reads3 (REDIR c f m fd)"
  unfolding reads3_def
proof (intro allI impI, elim conjE)
  fix n s
  assume s: "stops ''|)&;<>'' s" and n: "4 * length (render 3 (REDIR c f m fd) @ s) + 2 \<le> n"
  have hs: "s = [] \<or> \<not> wchar (hd s)" using s by (auto simp: stops_def wchar_def is_sym_def)
  have "stops ''|)&;<>'' (redir_text m fd @ f @ s)" by (auto simp: stops_def redir_text_def)
  moreover have "4 * length (render 3 c @ redir_text m fd @ f @ s) + 2 \<le> n" using n by simp
  ultimately obtain tc k where "map_cmd slice tc = c"
    "parseexec n (render 3 c @ redir_text m fd @ f @ s) = pbind (parseredirs tc (redir_text m fd @ f @ s)) k"
    "\<forall>tc s. stops ''|)&;'' s \<longrightarrow> k tc s = Parsed tc (skip_ws s)"
    using assms(1) unfolding reads3_def by blast
  then show "\<exists>tc k. map_cmd slice tc = REDIR c f m fd \<and> parseexec n (render 3 (REDIR c f m fd) @ s) = pbind (parseredirs tc s) k \<and>
      (\<forall>tc s. stops ''|)&;'' s \<longrightarrow> k tc s = Parsed tc (skip_ws s))"
    using parseredirs_text [OF assms(2,3) hs]
    by (intro exI [of _ "REDIR tc (f @ s, s) m fd"] exI [of _ k]) simp
qed

lemma reads_block:
  assumes "reads0 c" "level c < 3"
  shows "reads3 c"
  unfolding reads3_def
proof (intro allI impI, elim conjE)
  fix n s
  assume s: "stops ''|)&;<>'' s" and n: "4 * length (render 3 c @ s) + 2 \<le> n"
  have r: "render 3 c = ''('' @ render 0 c @ '')''" using assms(2) by (cases c) auto
  obtain m where m: "n = Suc (Suc m)" using n by (metis add_2_eq_Suc' le_add2 le_trans less_eqE add_Suc)
  have "4 * length (render 0 c @ '')'' @ s) + 4 \<le> m" using n m r by simp
  then obtain tc where tc: "map_cmd slice tc = c" "parseline m (render 0 c @ '')'' @ s) = Parsed tc (skip_ws ('')'' @ s))"
    using assms(1) unfolding reads0_def by (metis append_Cons list.sel(1) list.set_intros(1) stops_def)
  have "parseexec n (render 3 c @ s) = parseredirs tc s"
    using m r tc(2) by (simp add: parse_eqs next_is_sym tok_rest_sym gettoken_sym)
  then show "\<exists>tc k. map_cmd slice tc = c \<and> parseexec n (render 3 c @ s) = pbind (parseredirs tc s) k \<and>
      (\<forall>tc s. stops ''|)&;'' s \<longrightarrow> k tc s = Parsed tc (skip_ws s))"
    using tc(1) parseredirs_skipped [of tc s]
    by (intro exI [of _ tc] exI [of _ "\<lambda>tc s. Parsed tc (skip_ws s)"]) (cases "parseredirs tc s"; simp)
qed

lemma reads3D:
  assumes "reads3 c" "stops ''|)&;'' s" "4 * length (render 3 c @ s) + 2 \<le> n"
  obtains tc where "map_cmd slice tc = c" "parseexec n (render 3 c @ s) = Parsed tc (skip_ws s)"
proof -
  have "stops ''|)&;<>'' s" "\<not> next_is s ''<>''"
    using stops_mono [OF assms(2)] next_is_stops [OF assms(2)] by auto
  moreover obtain tc k where "map_cmd slice tc = c" "parseexec n (render 3 c @ s) = pbind (parseredirs tc s) k"
    "\<forall>tc s. stops ''|)&;'' s \<longrightarrow> k tc s = Parsed tc (skip_ws s)"
    using assms calculation(1) unfolding reads3_def by blast
  moreover have "skip_ws s = s" using skip_ws_stop calculation(1) by blast
  ultimately show ?thesis using that [of tc] assms(2) by (simp add: parseredirs_none)
qed

lemma reads2I: "reads3 c \<Longrightarrow> level c \<noteq> 2 \<Longrightarrow> reads2 c"
  unfolding reads2_def
proof (intro allI impI, elim conjE)
  fix n s
  assume c: "reads3 c" "level c \<noteq> 2" and s: "stops '')&;'' s" and n: "4 * length (render 2 c @ s) + 3 \<le> n"
  have r: "render 2 c = render 3 c" using c(2) by (cases c) auto
  obtain m where m: "n = Suc m" using n by (cases n) auto
  have s4: "stops ''|)&;'' s" using stops_mono [OF s] by auto
  have "4 * length (render 3 c @ s) + 2 \<le> m" using n m r by simp
  then obtain tc where "map_cmd slice tc = c" "parseexec m (render 3 c @ s) = Parsed tc (skip_ws s)"
    by (rule reads3D [OF c(1) s4])
  moreover have "\<not> next_is s ''|''" by (rule next_is_stops [OF s]) auto
  ultimately show "\<exists>tc. map_cmd slice tc = c \<and> parsepipe n (render 2 c @ s) = Parsed tc (skip_ws s)"
    using m r by (simp add: parse_eqs)
qed

lemma reads_PIPE: "reads3 l \<Longrightarrow> reads2 r \<Longrightarrow> reads2 (PIPE l r)"
  unfolding reads2_def [of "PIPE l r"]
proof (intro allI impI, elim conjE)
  fix n s
  assume c: "reads3 l" "reads2 r" and s: "stops '')&;'' s" and n: "4 * length (render 2 (PIPE l r) @ s) + 3 \<le> n"
  obtain m where m: "n = Suc m" using n by (cases n) auto
  have "stops ''|)&;'' (''|'' @ render 2 r @ s)" by (simp add: stops_def)
  moreover have "4 * length (render 3 l @ ''|'' @ render 2 r @ s) + 2 \<le> m" using n m by simp
  ultimately obtain tl where "map_cmd slice tl = l" "parseexec m (render 3 l @ ''|'' @ render 2 r @ s) = Parsed tl (skip_ws (''|'' @ render 2 r @ s))"
    by (rule reads3D [OF c(1)])
  moreover have "4 * length (render 2 r @ s) + 3 \<le> m" using n m by simp
  then obtain tr where "map_cmd slice tr = r" "parsepipe m (render 2 r @ s) = Parsed tr (skip_ws s)"
    using c(2) s unfolding reads2_def by blast
  ultimately show "\<exists>tc. map_cmd slice tc = PIPE l r \<and> parsepipe n (render 2 (PIPE l r) @ s) = Parsed tc (skip_ws s)"
    using m by (intro exI [of _ "PIPE tl tr"]) (simp add: parse_eqs next_is_sym tok_rest_sym gettoken_sym)
qed

lemma reads1I: "reads2 c \<Longrightarrow> level c \<noteq> 1 \<Longrightarrow> reads1 c"
proof -
  assume c: "reads2 c" "level c \<noteq> 1"
  have r: "render 1 c = render 2 c" using c(2) by (cases c) auto
  show ?thesis using c(1) unfolding reads1_def reads2_def r by (metis parse_skip(2))
qed

lemma parse_backs_amp: "parse_backs c (CHR ''&'' # s) = parse_backs (BACK c) s"
  by (subst parse_backs_eq) (simp add: next_is_sym tok_rest_sym gettoken_sym)

lemma reads_BACK: "reads1 c \<Longrightarrow> reads1 (BACK c)"
  unfolding reads1_def [of "BACK c"]
proof (intro allI impI, elim conjE)
  fix n s
  assume c: "reads1 c" and s: "stops '')&;'' s" and n: "4 * length (render 1 (BACK c) @ s) + 3 \<le> n"
  have "stops '')&;'' (''&'' @ s)" by (simp add: stops_def)
  moreover have "4 * length (render 1 c @ ''&'' @ s) + 3 \<le> n" using n by simp
  ultimately obtain tc d t where "map_cmd slice tc = c" "parsepipe n (render 1 c @ ''&'' @ s) = Parsed d t"
    "parse_backs d t = parse_backs tc (''&'' @ s)"
    using c unfolding reads1_def by blast
  then show "\<exists>tc d t. map_cmd slice tc = BACK c \<and> parsepipe n (render 1 (BACK c) @ s) = Parsed d t \<and>
      parse_backs d t = parse_backs tc s"
    by (intro exI [of _ "BACK tc"] exI [of _ d] exI [of _ t]) (simp add: parse_backs_amp)
qed

lemma parse_backs_stop: "stops '');'' s \<Longrightarrow> parse_backs c s = (c, skip_ws s)"
  using next_is_stops [of "'');''" s "''&''"] by (subst parse_backs_eq) simp

lemma reads0I: "reads1 c \<Longrightarrow> level c \<noteq> 0 \<Longrightarrow> reads0 c"
  unfolding reads0_def
proof (intro allI impI, elim conjE)
  fix n s
  assume c: "reads1 c" "level c \<noteq> 0" and s: "stops '')'' s" and n: "4 * length (render 0 c @ s) + 4 \<le> n"
  have r: "render 0 c = render 1 c" using c(2) by (cases c) auto
  obtain m where m: "n = Suc m" using n by (cases n) auto
  have s3: "stops '')&;'' s" "stops '');'' s" using stops_mono [OF s] by auto
  have "4 * length (render 1 c @ s) + 3 \<le> m" using n m r by simp
  then obtain tc d t where "map_cmd slice tc = c" "parsepipe m (render 1 c @ s) = Parsed d t" "parse_backs d t = parse_backs tc s"
    using c(1) s3 unfolding reads1_def by blast
  moreover have "\<not> next_is s '';''" by (rule next_is_stops [OF s]) auto
  ultimately show "\<exists>tc. map_cmd slice tc = c \<and> parseline n (render 0 c @ s) = Parsed tc (skip_ws s)"
    using m r s3 by (simp add: parse_eqs parse_backs_stop)
qed

lemma reads_LIST: "reads1 l \<Longrightarrow> reads0 r \<Longrightarrow> reads0 (LIST l r)"
  unfolding reads0_def [of "LIST l r"]
proof (intro allI impI, elim conjE)
  fix n s
  assume c: "reads1 l" "reads0 r" and s: "stops '')'' s" and n: "4 * length (render 0 (LIST l r) @ s) + 4 \<le> n"
  obtain m where m: "n = Suc m" using n by (cases n) auto
  have st: "stops '')&;'' ('';'' @ render 0 r @ s)" "stops '');'' ('';'' @ render 0 r @ s)" by (simp_all add: stops_def)
  have "4 * length (render 1 l @ '';'' @ render 0 r @ s) + 3 \<le> m" using n m by simp
  then obtain tl d t where "map_cmd slice tl = l" "parsepipe m (render 1 l @ '';'' @ render 0 r @ s) = Parsed d t"
    "parse_backs d t = parse_backs tl ('';'' @ render 0 r @ s)"
    using c(1) st(1) unfolding reads1_def by blast
  moreover have "4 * length (render 0 r @ s) + 4 \<le> m" using n m by simp
  then obtain tr where "map_cmd slice tr = r" "parseline m (render 0 r @ s) = Parsed tr (skip_ws s)"
    using c(2) s unfolding reads0_def by blast
  ultimately show "\<exists>tc. map_cmd slice tc = LIST l r \<and> parseline n (render 0 (LIST l r) @ s) = Parsed tc (skip_ws s)"
    using m parse_backs_stop [OF st(2), of tl]
    by (intro exI [of _ "LIST tl tr"]) (simp add: parse_eqs next_is_sym tok_rest_sym gettoken_sym)
qed

lemma reads_all: "wf_cmd c \<Longrightarrow> reads3 c \<and> reads2 c \<and> reads1 c \<and> reads0 c"
proof (induction c)
  case (EXEC ws)
  then have "reads3 (EXEC ws)" by (intro reads_EXEC) (auto simp: wf_cmd_def)
  then show ?case using reads2I reads1I reads0I by fastforce
next
  case (REDIR c f m fd)
  then have "reads3 (REDIR c f m fd)" by (intro reads_REDIR) (auto simp: wf_cmd_def)
  then show ?case using reads2I reads1I reads0I by fastforce
next
  case (PIPE l r)
  then have "reads2 (PIPE l r)" by (intro reads_PIPE) (auto simp: wf_cmd_def)
  then show ?case using reads1I reads0I reads_block by fastforce
next
  case (LIST l r)
  then have "reads0 (LIST l r)" by (intro reads_LIST) (auto simp: wf_cmd_def)
  then show ?case using reads2I reads1I reads_block by fastforce
next
  case (BACK c)
  then have "reads1 (BACK c)" by (intro reads_BACK) (auto simp: wf_cmd_def)
  then show ?case using reads2I reads0I reads_block by fastforce
qed

lemma render_no_NUL: "wf_cmd c \<Longrightarrow> NUL \<notin> set (render p c)"
  by (induction p c rule: render.induct) (auto simp: wf_cmd_def valid_word_def redir_text_def)

section \<open>The claims\<close>

text \<open>
  Claim C40.  Parsing a command line always ends: the recursion of the parsers on a line of \<open>n\<close>
  characters never nests deeper than \<open>4 * n + 4\<close> calls, and every loop of the parsers consumes
  input, so \<^verbatim>\<open>parsecmd\<close> returns a tree or one of its error messages on every line.
\<close>

theorem parsecmd_total: "parsecmd line \<noteq> TooDeep"
  using parse_depth [of line "depth_of line"]
  by (auto simp: parsecmd_def depth_of_def pbind_TooDeep peek_eq split: if_splits)

text \<open>
  Claim C39.  Every tree that \<^verbatim>\<open>parsecmd\<close> returns is well formed: a simple command has fewer than
  \<^verbatim>\<open>MAXARGS\<close> words, so that the terminating null pointer of \<^verbatim>\<open>argv\<close> is inside the array; a
  redirection has one of the three modes with the descriptor that belongs to it; and every word,
  as the C string it is after \<^verbatim>\<open>nulterminate\<close> has written its NULs into the line, is non-empty
  and holds no white space, no operator character and no NUL, although words may be adjacent to
  operators.  The whole line has been consumed.
\<close>

theorem parsecmd_wf:
  assumes "NUL \<notin> set line" "parsecmd line = Parsed c s"
  shows "wf_cmd c \<and> s = []"
proof -
  obtain d t where d: "parseline (depth_of line) line = Parsed d t" "c = map_cmd slice d" "s = []"
    using assms(2) unfolding parsecmd_slices [OF assms(1)] by (auto simp: pbind_Parsed split: if_splits)
  have "wf_shape d" "\<forall>t\<in>set_cmd d. tok_ok line t"
    using parse_built [of "depth_of line" line d t] d(1) by (auto simp: built_def)
  then show ?thesis using d word_at_slice [of d line] assms(1) by (auto simp: wf_cmd_def cmd.set_map)
qed

text \<open>
  Claim C38.  The parser is complete for the grammar and inverts printing: the text of any
  well-formed command tree, with parentheses where the tree is below the level of its position,
  parses to exactly that tree.
\<close>

theorem parsecmd_render:
  assumes "wf_cmd c"
  shows "parsecmd (render 0 c) = Parsed c []"
proof -
  obtain tc where "map_cmd slice tc = c" "parseline (depth_of (render 0 c)) (render 0 c) = Parsed tc []"
    using reads_all [OF assms] unfolding reads0_def depth_of_def
    by (metis append.right_neutral order_refl skip_ws_Nil stops_def)
  then show ?thesis using parsecmd_slices [OF render_no_NUL [OF assms]] by simp
qed

theorem parsecmd_wf_witness:
  "wf_cmd (PIPE (EXEC [''ls'']) (REDIR (EXEC [''wc'', ''-l'']) ''out'' (O_WRONLY OR O_CREATE OR O_TRUNC) 1)) \<and>
   parsecmd ''ls|wc>out -l'' =
     Parsed (PIPE (EXEC [''ls'']) (REDIR (EXEC [''wc'', ''-l'']) ''out'' (O_WRONLY OR O_CREATE OR O_TRUNC) 1)) []"
proof -
  have p: "parsecmd ''ls|wc>out -l'' =
     Parsed (PIPE (EXEC [''ls'']) (REDIR (EXEC [''wc'', ''-l'']) ''out'' (O_WRONLY OR O_CREATE OR O_TRUNC) 1)) []"
    by code_simp
  show ?thesis using parsecmd_wf [OF _ p] p by simp
qed

theorem parsecmd_render_witness:
  "parsecmd (render 0 (LIST (BACK (PIPE (EXEC [''a'', ''b'']) (LIST (EXEC [''c'']) (EXEC [''d''])))) (EXEC []))) =
   Parsed (LIST (BACK (PIPE (EXEC [''a'', ''b'']) (LIST (EXEC [''c'']) (EXEC [''d''])))) (EXEC [])) []"
  by (rule parsecmd_render) code_simp

end
