(* ===== verification/Grep.thy ===== *)
theory Grep
  imports Userland
begin

text \<open>
  \<^verbatim>\<open>user/grep.c\<close>: the regular expression matcher and the loop that cuts the input into lines.
  Strings are the characters before the terminating NUL, so a pointer that moves along a string
  is a suffix of it.  The buffer is the list of its bytes that hold data.

  The matcher is shown to decide a declarative semantics of the expressions, and the line loop
  to print exactly the matching lines however the kernel cuts the file into reads.
\<close>

section \<open>The matcher\<close>

function (sequential) matchhere :: "string \<Rightarrow> string \<Rightarrow> bool"
  and matchstar :: "char \<Rightarrow> string \<Rightarrow> string \<Rightarrow> bool" where
  "matchhere [] text = True"
| "matchhere (c # re) text =
     (if re \<noteq> [] \<and> hd re = CHR ''*'' then matchstar c (tl re) text
      else if c = CHR ''$'' \<and> re = [] then text = []
      else if text \<noteq> [] \<and> (c = CHR ''.'' \<or> c = hd text) then matchhere re (tl text)
      else False)"
| "matchstar c re text =
     (if matchhere re text then True
      else if text \<noteq> [] \<and> (hd text = c \<or> c = CHR ''.'') then matchstar c re (tl text)
      else False)"
  by pat_completeness auto
termination
  by (relation "measures [\<lambda>a. case a of Inl (re, t) \<Rightarrow> 2 * length re | Inr (c, re, t) \<Rightarrow> Suc (2 * length re),
                          \<lambda>a. case a of Inl (re, t) \<Rightarrow> length t | Inr (c, re, t) \<Rightarrow> length t]")
    auto

declare matchstar.simps [simp del]

fun match_from :: "string \<Rightarrow> string \<Rightarrow> bool" where
  "match_from re text =
     (if matchhere re text then True else case text of [] \<Rightarrow> False | _ # t \<Rightarrow> match_from re t)"

declare match_from.simps [simp del]

definition match :: "string \<Rightarrow> string \<Rightarrow> bool" where
  "match re text =
     (if re \<noteq> [] \<and> hd re = CHR ''^'' then matchhere (tl re) text else match_from re text)"

section \<open>The line loop\<close>

text \<open>\<^verbatim>\<open>strchr(p, '\n')\<close>: the text before the newline and after it.\<close>

fun line_split :: "string \<Rightarrow> (string \<times> string) option" where
  "line_split [] = None"
| "line_split (c # p) =
     (if c = NUL then None else if c = CHR 0x0A then Some ([], p)
      else map_option (\<lambda>(l, r). (c # l, r)) (line_split p))"

lemma line_split_shorter: "line_split p = Some (l, r) \<Longrightarrow> length r < length p"
  by (induction p arbitrary: l) (auto split: if_splits simp: less_Suc_eq)

function scan_lines :: "string \<Rightarrow> string \<Rightarrow> world \<Rightarrow> string \<times> world" where
  "scan_lines pattern p w =
     (case line_split p of
        None \<Rightarrow> (p, w)
      | Some (l, r) \<Rightarrow>
          scan_lines pattern r
            (if match pattern l then do_call (CWrite 1 (l @ [CHR 0x0A])) w else w))"
  by pat_completeness auto
termination
  by (relation "measure (\<lambda>(pattern, p, w). length p)") (auto dest: line_split_shorter)

declare scan_lines.simps [simp del]

lemma scan_lines_inputs [simp]: "scan_lines pattern p w = (r, w') \<Longrightarrow> inputs w' = inputs w"
  by (induction pattern p w rule: scan_lines.induct)
    (subst (asm) (2) scan_lines.simps, auto split: option.splits if_splits)

lemma read_scan_insize:
  assumes "(n, d, w1) = u_read fd k w" "0 < n" "(p, w2) = scan_lines pattern q w1"
  shows "insize fd w2 < insize fd w"
  using u_read_insize [OF assms(1) [symmetric] assms(2)] scan_lines_inputs [OF assms(3) [symmetric]]
  by (simp add: insize_def)

function grep_loop :: "string \<Rightarrow> int \<Rightarrow> string \<Rightarrow> world \<Rightarrow> world" where
  "grep_loop pattern fd buf w =
     (case u_read fd (1024 - length buf - 1) w of (n, d, w) \<Rightarrow>
        if 0 < n then
          (case scan_lines pattern (buf @ d) w of (p, w) \<Rightarrow> grep_loop pattern fd p w)
        else w)"
  by pat_completeness auto
termination
proof (relation "measure (\<lambda>(pattern, fd, buf, w). insize fd w)", goal_cases)
  case (2 pattern fd buf w n y d w1 p w2)
  then have "(n, d, w1) = u_read fd (1024 - length buf - 1) w" by simp
  from read_scan_insize [OF this 2(3,4)] show ?case by simp
qed simp

declare grep_loop.simps [simp del]

definition grep :: "string \<Rightarrow> int \<Rightarrow> world \<Rightarrow> world" where
  "grep pattern fd w = grep_loop pattern fd [] w"

fun grep_files :: "string \<Rightarrow> string list \<Rightarrow> world \<Rightarrow> unit ures" where
  "grep_files pattern [] w = Exited 0 w"
| "grep_files pattern (f # fs) w =
     (case sys (COpen f 0) w of (fd, w) \<Rightarrow>
        if fd < 0 then Exited 1 (u_printf ''grep: cannot open %s\<newline>'' [AStr (Some f)] w)
        else grep_files pattern fs (do_call (CClose fd) (grep pattern fd w)))"

definition grep_main :: "string list \<Rightarrow> world \<Rightarrow> unit ures" where
  "grep_main argv w =
     (if length argv \<le> 1 then Exited 1 (u_fprintf 2 ''usage: grep pattern [file ...]\<newline>'' [] w)
      else if length argv \<le> 2 then Exited 0 (grep (argv ! 1) 0 w)
      else grep_files (argv ! 1) (drop 2 argv) w)"

section \<open>What the expressions mean\<close>

text \<open>
  An expression is a sequence of items, each a character class taken once or starred, possibly
  anchored at the begin or the end of the line.  It denotes a regular language; a line matches
  if a part of it that respects the anchors is in the language.
\<close>

datatype item = Once "char set" | Starred "char set"

definition class_of :: "char \<Rightarrow> char set" where
  "class_of c = (if c = CHR ''.'' then UNIV else {c})"

fun items_of :: "string \<Rightarrow> item list \<times> bool" where
  "items_of [] = ([], False)"
| "items_of [c] = (if c = CHR ''$'' then ([], True) else ([Once (class_of c)], False))"
| "items_of (c # d # re) =
     (if d = CHR ''*'' then apfst (Cons (Starred (class_of c))) (items_of re)
      else apfst (Cons (Once (class_of c))) (items_of (d # re)))"

fun item_lang :: "item \<Rightarrow> string set" where
  "item_lang (Once C) = {[x] | x. x \<in> C}"
| "item_lang (Starred C) = lists C"

fun lang :: "item list \<Rightarrow> string set" where
  "lang [] = {[]}"
| "lang (i # is) = {u @ v | u v. u \<in> item_lang i \<and> v \<in> lang is}"

text \<open>\<open>prefix_matches (is, e) t\<close>: the text begins with a word of the language, and is that word if \<open>e\<close>.\<close>

definition prefix_matches :: "item list \<times> bool \<Rightarrow> string \<Rightarrow> bool" where
  "prefix_matches p t \<longleftrightarrow> (\<exists>u v. t = u @ v \<and> u \<in> lang (fst p) \<and> (snd p \<longrightarrow> v = []))"

definition line_matches :: "string \<Rightarrow> string \<Rightarrow> bool" where
  "line_matches re t \<longleftrightarrow>
     (if re \<noteq> [] \<and> hd re = CHR ''^'' then prefix_matches (items_of (tl re)) t
      else \<exists>pre rest. t = pre @ rest \<and> prefix_matches (items_of re) rest)"

lemma prefix_matches_Nil [simp]: "prefix_matches ([], False) t"
  by (simp add: prefix_matches_def)

lemma prefix_matches_end [simp]: "prefix_matches ([], True) t \<longleftrightarrow> t = []"
  by (auto simp: prefix_matches_def)

lemma prefix_matches_Cons:
  "prefix_matches (apfst (Cons i) p) t \<longleftrightarrow> (\<exists>u r. t = u @ r \<and> u \<in> item_lang i \<and> prefix_matches p r)"
  (is "?l \<longleftrightarrow> ?r")
proof
  assume ?l
  then obtain w v where w: "t = w @ v" "w \<in> lang (i # fst p)" and v: "snd p \<longrightarrow> v = []"
    by (auto simp: prefix_matches_def)
  from w(2) obtain a b where "w = a @ b" "a \<in> item_lang i" and b: "b \<in> lang (fst p)" by auto
  moreover have "prefix_matches p (b @ v)" using b v unfolding prefix_matches_def by blast
  ultimately show ?r using w(1) by (intro exI [of _ a] exI [of _ "b @ v"]) simp
next
  assume ?r
  then obtain u r where u: "t = u @ r" "u \<in> item_lang i" and r: "prefix_matches p r" by blast
  from r obtain b v where b: "r = b @ v" "b \<in> lang (fst p)" and v: "snd p \<longrightarrow> v = []"
    unfolding prefix_matches_def by blast
  have "u @ b \<in> lang (i # fst p)" using u(2) b(2) by auto
  then show ?l
    unfolding prefix_matches_def using u(1) b(1) v by (intro exI [of _ "u @ b"] exI [of _ v]) simp
qed

lemma prefix_matches_Once [simp]:
  "prefix_matches (apfst (Cons (Once C)) p) t \<longleftrightarrow> t \<noteq> [] \<and> hd t \<in> C \<and> prefix_matches p (tl t)"
proof
  assume "prefix_matches (apfst (Cons (Once C)) p) t"
  then obtain u r where "t = u @ r" "u \<in> item_lang (Once C)" "prefix_matches p r"
    unfolding prefix_matches_Cons by blast
  then show "t \<noteq> [] \<and> hd t \<in> C \<and> prefix_matches p (tl t)" by auto
next
  assume "t \<noteq> [] \<and> hd t \<in> C \<and> prefix_matches p (tl t)"
  then show "prefix_matches (apfst (Cons (Once C)) p) t"
    unfolding prefix_matches_Cons by (intro exI [of _ "[hd t]"] exI [of _ "tl t"]) simp
qed

lemma prefix_matches_last [simp]: "prefix_matches ([Once C], False) t \<longleftrightarrow> t \<noteq> [] \<and> hd t \<in> C"
  using prefix_matches_Once [of C "([], False)" t] by simp

lemma prefix_matches_Starred:
  "prefix_matches (apfst (Cons (Starred C)) p) t \<longleftrightarrow>
     (\<exists>u r. t = u @ r \<and> u \<in> lists C \<and> prefix_matches p r)"
  by (simp only: prefix_matches_Cons item_lang.simps)

lemma starred_step:
  "(\<exists>u r. t = u @ r \<and> u \<in> lists C \<and> P r) \<longleftrightarrow>
     P t \<or> (\<exists>x t'. t = x # t' \<and> x \<in> C \<and> (\<exists>u r. t' = u @ r \<and> u \<in> lists C \<and> P r))"
  (is "?l \<longleftrightarrow> ?r")
proof
  assume ?l
  then obtain u r where u: "t = u @ r" "u \<in> lists C" "P r" by blast
  show ?r
  proof (cases u)
    case Nil
    then show ?thesis using u by simp
  next
    case (Cons x u')
    then show ?thesis using u by auto
  qed
next
  assume ?r
  then show ?l
  proof
    assume "P t"
    then show ?l by (intro exI [of _ "[]"] exI [of _ t]) simp
  next
    assume "\<exists>x t'. t = x # t' \<and> x \<in> C \<and> (\<exists>u r. t' = u @ r \<and> u \<in> lists C \<and> P r)"
    then obtain x u r where "t = x # u @ r" "x \<in> C" "u \<in> lists C" "P r" by blast
    then have "t = (x # u) @ r" "x # u \<in> lists C" by auto
    then show ?l using \<open>P r\<close> by blast
  qed
qed

lemma items_of_Cons:
  "items_of (c # re) =
     (if re \<noteq> [] \<and> hd re = CHR ''*'' then apfst (Cons (Starred (class_of c))) (items_of (tl re))
      else if c = CHR ''$'' \<and> re = [] then ([], True)
      else apfst (Cons (Once (class_of c))) (items_of re))"
  by (cases re) auto

lemma matchhere_matchstar_lang:
  "matchhere re t \<longleftrightarrow> prefix_matches (items_of re) t"
  "matchstar c re t \<longleftrightarrow> (\<exists>u r. t = u @ r \<and> u \<in> lists (class_of c) \<and> prefix_matches (items_of re) r)"
proof (induction re t and c re t rule: matchhere_matchstar.induct)
  case (2 c re t)
  show ?case
    using 2 by (simp add: items_of_Cons prefix_matches_Starred class_of_def del: items_of.simps(2,3))
next
  case (3 c re t)
  have "matchstar c re t \<longleftrightarrow> prefix_matches (items_of re) t \<or>
      (\<exists>x t'. t = x # t' \<and> x \<in> class_of c \<and>
        (\<exists>u r. t' = u @ r \<and> u \<in> lists (class_of c) \<and> prefix_matches (items_of re) r))"
    using 3 by (cases t; subst matchstar.simps) (auto simp: class_of_def)
  then show ?case by (simp only: starred_step [symmetric])
qed simp

lemma match_from_lang:
  "match_from re t \<longleftrightarrow> (\<exists>pre rest. t = pre @ rest \<and> prefix_matches (items_of re) rest)"
proof (induction t)
  case Nil
  then show ?case by (subst match_from.simps) (auto simp: matchhere_matchstar_lang)
next
  case (Cons x t)
  have "match_from re (x # t) \<longleftrightarrow> prefix_matches (items_of re) (x # t) \<or>
      (\<exists>pre rest. t = pre @ rest \<and> prefix_matches (items_of re) rest)"
    by (subst match_from.simps) (simp add: matchhere_matchstar_lang Cons)
  also have "\<dots> \<longleftrightarrow> (\<exists>pre rest. x # t = pre @ rest \<and> prefix_matches (items_of re) rest)"
    by (auto simp: Cons_eq_append_conv)
  finally show ?case .
qed

text \<open>
  Claim C33.  The matcher of \<^verbatim>\<open>grep\<close> decides regular-expression matching: for every expression
  and every text, \<^verbatim>\<open>match\<close> returns true exactly if some part of the text that respects the
  anchors is a word of the language that the expression denotes, where a dot is any character
  and a star repeats the preceding character class any number of times.
\<close>

theorem match_regular: "match re text \<longleftrightarrow> line_matches re text"
  by (simp add: match_def line_matches_def matchhere_matchstar_lang match_from_lang)

section \<open>Lines and reads\<close>

text \<open>The complete lines of a text that continues the partial line \<open>acc\<close>, and the partial line left.\<close>

fun lines_from :: "string \<Rightarrow> string \<Rightarrow> string list \<times> string" where
  "lines_from acc [] = ([], acc)"
| "lines_from acc (c # s) =
     (if c = CHR 0x0A then apfst (Cons acc) (lines_from [] s) else lines_from (acc @ [c]) s)"

definition short_lines :: "string \<Rightarrow> string \<Rightarrow> bool" where
  "short_lines acc s \<longleftrightarrow>
     (\<forall>l \<in> set (fst (lines_from acc s)). length l \<le> 1022) \<and> length (snd (lines_from acc s)) \<le> 1022"

lemma lines_from_append:
  "lines_from acc (s @ t) =
     (fst (lines_from acc s) @ fst (lines_from (snd (lines_from acc s)) t),
      snd (lines_from (snd (lines_from acc s)) t))"
  by (induction acc s rule: lines_from.induct) (simp_all add: apfst_def map_prod_def split: prod.split)

lemma lines_from_rest_subset: "set (snd (lines_from acc s)) \<subseteq> set acc \<union> set s"
  by (induction acc s rule: lines_from.induct) auto

lemma short_lines_acc: "short_lines acc s \<Longrightarrow> length acc \<le> 1022"
  by (induction acc s rule: lines_from.induct) (auto simp: short_lines_def split: if_splits)

lemma short_lines_append: "short_lines acc (s @ t) \<Longrightarrow> short_lines (snd (lines_from acc s)) t"
  by (simp add: short_lines_def lines_from_append)

lemma line_split_lines:
  assumes "NUL \<notin> set p"
  shows "lines_from acc p = (case line_split p of
      None \<Rightarrow> ([], acc @ p) | Some (l, r) \<Rightarrow> apfst (Cons (acc @ l)) (lines_from [] r))"
  using assms by (induction p arbitrary: acc) (auto split: option.split)

lemma line_split_no_nul: "line_split p = Some (l, r) \<Longrightarrow> NUL \<notin> set p \<Longrightarrow> NUL \<notin> set r"
  by (induction p arbitrary: l) (auto split: if_splits)

lemma scan_lines_spec:
  assumes "NUL \<notin> set p" "scan_lines pattern p w = (r, w')"
  shows "r = snd (lines_from [] p) \<and>
    written fd w' = written fd w @ (if fd = 1 then
      concat (map (\<lambda>l. l @ [CHR 0x0A]) (filter (match pattern) (fst (lines_from [] p)))) else [])"
  using assms
proof (induction pattern p w rule: scan_lines.induct)
  case (1 pattern p w)
  show ?case
  proof (cases "line_split p")
    case None
    then show ?thesis
      using "1.prems" line_split_lines [of p "[]"] by (simp add: scan_lines.simps [of pattern p])
  next
    case (Some lr)
    obtain l q where lr: "lr = (l, q)" by (cases lr)
    have "scan_lines pattern q (if match pattern l then do_call (CWrite 1 (l @ [CHR 0x0A])) w else w) = (r, w')"
      using "1.prems"(2) Some lr by (simp add: scan_lines.simps [of pattern p])
    moreover have "NUL \<notin> set q" using Some "1.prems"(1) by (simp add: lr line_split_no_nul)
    ultimately have "r = snd (lines_from [] q) \<and>
      written fd w' = written fd (if match pattern l then do_call (CWrite 1 (l @ [CHR 0x0A])) w else w) @
        (if fd = 1 then concat (map (\<lambda>l. l @ [CHR 0x0A]) (filter (match pattern) (fst (lines_from [] q)))) else [])"
      using "1.IH" [OF Some lr [symmetric]] by blast
    then show ?thesis
      using "1.prems"(1) Some lr by (auto simp: line_split_lines [of p "[]"])
  qed
qed

lemma lines_from_no_newline: "lines_from [] (snd (lines_from acc s)) = ([], snd (lines_from acc s))"
  if "lines_from [] acc = ([], acc)"
  using that
proof (induction acc s rule: lines_from.induct)
  case (2 acc c s)
  then show ?case by (auto simp: lines_from_append)
qed simp

lemma grep_loop_spec:
  assumes "inputs w fd = map Some cs" "[] \<notin> set cs" "NUL \<notin> set buf" "NUL \<notin> set (concat cs)"
    and "lines_from [] buf = ([], buf)" "short_lines buf (concat cs)"
  shows "written 1 (grep_loop pattern fd buf w) = written 1 w @
    concat (map (\<lambda>l. l @ [CHR 0x0A]) (filter (match pattern) (fst (lines_from buf (concat cs)))))"
  using assms
proof (induction pattern fd buf w arbitrary: cs rule: grep_loop.induct)
  case (1 pattern fd buf w)
  let ?n = "1024 - length buf - 1"
  have n: "0 < ?n" using short_lines_acc [OF "1.prems"(6)] by simp
  show ?case
  proof (cases cs)
    case Nil
    then show ?thesis
      using "1.prems"(1)
      by (simp add: grep_loop.simps [of pattern fd buf w] u_read_def log_call_def written_def)
  next
    case (Cons c cs')
    let ?cs = "if drop ?n c = [] then cs' else drop ?n c # cs'"
    obtain k w1 where rd: "u_read fd ?n w = (k, take ?n c, w1)" "0 < k"
        "inputs w1 fd = map Some ?cs" "written 1 w1 = written 1 w"
      using "1.prems"(1,2) n Cons by (auto simp: u_read_def log_call_def written_def)
    obtain p w2 where sc: "scan_lines pattern (buf @ take ?n c) w1 = (p, w2)" by fastforce
    have cat: "concat cs = take ?n c @ concat ?cs" using Cons by auto
    have nul: "NUL \<notin> set (buf @ take ?n c)" "NUL \<notin> set (concat ?cs)"
      using "1.prems"(3,4) unfolding cat by auto
    have lf: "lines_from [] (buf @ take ?n c) = lines_from buf (take ?n c)"
      using "1.prems"(5) by (simp add: lines_from_append)
    have p: "p = snd (lines_from buf (take ?n c))" and w2: "written 1 w2 = written 1 w @
        concat (map (\<lambda>l. l @ [CHR 0x0A]) (filter (match pattern) (fst (lines_from buf (take ?n c)))))"
      using scan_lines_spec [OF nul(1) sc, of 1] lf rd(4) by auto
    have np: "lines_from [] p = ([], p)" using lines_from_no_newline [OF "1.prems"(5)] p by simp
    have "set p \<subseteq> set (buf @ take ?n c)"
      using lines_from_rest_subset [of buf "take ?n c"] p by simp
    then have "NUL \<notin> set p" using nul(1) by blast
    moreover have "short_lines p (concat ?cs)"
      using "1.prems"(6) short_lines_append unfolding cat p by blast
    moreover have "inputs w2 fd = map Some ?cs" using rd(3) scan_lines_inputs [OF sc] by simp
    moreover have "[] \<notin> set ?cs" using "1.prems"(2) Cons by auto
    ultimately have "written 1 (grep_loop pattern fd p w2) = written 1 w2 @
        concat (map (\<lambda>l. l @ [CHR 0x0A]) (filter (match pattern) (fst (lines_from p (concat ?cs)))))"
      using np nul(2) by (intro "1.IH" [OF rd(1)[symmetric] refl rd(2) sc[symmetric]])
    then show ?thesis
      using rd sc w2 unfolding cat p
      by (simp add: grep_loop.simps [of pattern fd buf w] lines_from_append)
  qed
qed

text \<open>
  Claim C34.  However the kernel cuts a NUL-free file into reads, \<^verbatim>\<open>grep\<close> writes exactly the
  complete lines that match the pattern, each with its newline and in order, provided no line
  is longer than 1022 characters.
\<close>

theorem grep_prints_matching_lines:
  assumes "inputs w fd = map Some cs" and "[] \<notin> set cs" and "NUL \<notin> set (concat cs)"
    and "short_lines [] (concat cs)"
  shows "written 1 (grep pattern fd w) = written 1 w @
    concat (map (\<lambda>l. l @ [CHR 0x0A]) (filter (match pattern) (fst (lines_from [] (concat cs)))))"
  unfolding grep_def by (rule grep_loop_spec) (use assms in simp_all)

theorem grep_prints_matching_lines_witness:
  "written 1 (grep ''a.*c'' 0 (world_reading [''ab'', ''bc\<newline>xy\<newline>'', ''z'', ''ac\<newline>a''])) = ''abbc\<newline>zac\<newline>''"
proof -
  have "filter (match ''a.*c'') (fst (lines_from [] ''abbc\<newline>xy\<newline>zac\<newline>a'')) = [''abbc'', ''zac'']"
    by code_simp
  then show ?thesis
    using grep_prints_matching_lines [of "world_reading [''ab'', ''bc\<newline>xy\<newline>'', ''z'', ''ac\<newline>a'']" 0
        "[''ab'', ''bc\<newline>xy\<newline>'', ''z'', ''ac\<newline>a'']" "''a.*c''"]
    by (simp add: world_reading_def written_def short_lines_def)
qed

text \<open>A full buffer without a newline ends the search: the next read asks for no bytes.\<close>

lemma grep_long_line:
  assumes "length buf = 1023" "inputs w fd = Some (c # s) # rest"
  shows "grep_loop pattern fd buf w =
    log_call (CRead fd 0) (w\<lparr>inputs := (inputs w)(fd := Some (c # s) # rest)\<rparr>)"
  using assms by (simp add: grep_loop.simps [of pattern fd buf w] u_read_def log_call_def)

end
