(* ===== verification/Programs.thy ===== *)
theory Programs
  imports Userland
begin

text \<open>
  The small user programs: \<^verbatim>\<open>cat\<close>, \<^verbatim>\<open>echo\<close>, \<^verbatim>\<open>wc\<close>, \<^verbatim>\<open>ls\<close>, \<^verbatim>\<open>kill\<close>, \<^verbatim>\<open>ln\<close>, \<^verbatim>\<open>mkdir\<close>, \<^verbatim>\<open>rm\<close>,
  \<^verbatim>\<open>zombie\<close>, \<^verbatim>\<open>stressfs\<close>, \<^verbatim>\<open>init\<close> and \<^verbatim>\<open>call\<close>.  A \<^verbatim>\<open>main\<close> gets its argument vector as a list
  whose length is \<^verbatim>\<open>argc\<close>.  The two loops of \<^verbatim>\<open>init\<close> run forever, so they are given a number of
  rounds and end in \<open>Running\<close> when it is used up.
\<close>

section \<open>cat\<close>

lemma read_write_insize:
  assumes "(n, d, w1) = u_read fd k w" "0 < n" "(r, w2) = sys c w1"
  shows "insize fd w2 < insize fd w"
  using u_read_insize [OF assms(1) [symmetric] assms(2)] assms(3)
  by (simp add: insize_def sys_def log_call_def)

function cat :: "int \<Rightarrow> world \<Rightarrow> unit ures" where
  "cat fd w =
     (case u_read fd 512 w of (n, d, w) \<Rightarrow>
        if 0 < n then
          (case sys (CWrite 1 d) w of (r, w) \<Rightarrow>
             if r \<noteq> n then Exited 1 (u_fprintf 2 ''cat: write error\<newline>'' [] w) else cat fd w)
        else if n < 0 then Exited 1 (u_fprintf 2 ''cat: read error\<newline>'' [] w)
        else Ret () w)"
  by pat_completeness auto
termination
proof (relation "measure (\<lambda>(fd, w). insize fd w)", goal_cases)
  case (2 fd w n y d w1 r w2)
  then have "(n, d, w1) = u_read fd 512 w" by simp
  from read_write_insize [OF this 2(3,4)] show ?case by simp
qed simp

declare cat.simps [simp del]

fun cat_files :: "string list \<Rightarrow> world \<Rightarrow> unit ures" where
  "cat_files [] w = Exited 0 w"
| "cat_files (f # fs) w =
     (case sys (COpen f 0) w of (fd, w) \<Rightarrow>
        if fd < 0 then Exited 1 (u_fprintf 2 ''cat: cannot open %s\<newline>'' [AStr (Some f)] w)
        else ubind (cat fd w) (\<lambda>_ w. cat_files fs (do_call (CClose fd) w)))"

definition cat_main :: "string list \<Rightarrow> world \<Rightarrow> unit ures" where
  "cat_main argv w =
     (if length argv \<le> 1 then ubind (cat 0 w) (\<lambda>_ w. Exited 0 w) else cat_files (tl argv) w)"

section \<open>echo\<close>

fun echo_args :: "string list \<Rightarrow> world \<Rightarrow> world" where
  "echo_args [] w = w"
| "echo_args (a # as) w =
     (let w = do_call (CWrite 1 a) w
      in echo_args as (do_call (CWrite 1 (if as \<noteq> [] then '' '' else ''\<newline>'')) w))"

definition echo_main :: "string list \<Rightarrow> world \<Rightarrow> unit ures" where
  "echo_main argv w = Exited 0 (echo_args (tl argv) w)"

section \<open>wc\<close>

record wc_state =
  wc_l :: i32
  wc_w :: i32
  wc_c :: i32
  wc_inword :: bool

definition wc_char :: "char \<Rightarrow> wc_state \<Rightarrow> wc_state" where
  "wc_char ch s =
     (let s = s\<lparr>wc_c := wc_c s + 1\<rparr>;
          s = (if ch = CHR 0x0A then s\<lparr>wc_l := wc_l s + 1\<rparr> else s)
      in if ch \<in> {CHR '' '', CHR 0x0D, CHR 0x09, CHR 0x0A, CHR 0x0B} then s\<lparr>wc_inword := False\<rparr>
         else if \<not> wc_inword s then s\<lparr>wc_w := wc_w s + 1, wc_inword := True\<rparr>
         else s)"

function wc_loop :: "int \<Rightarrow> wc_state \<Rightarrow> world \<Rightarrow> int \<times> wc_state \<times> world" where
  "wc_loop fd s w =
     (case u_read fd 512 w of (n, d, w) \<Rightarrow>
        if 0 < n then wc_loop fd (fold wc_char d s) w else (n, s, w))"
  by pat_completeness auto
termination
proof (relation "measure (\<lambda>(fd, s, w). insize fd w)", goal_cases)
  case (2 fd s w n y d w1)
  then have "u_read fd 512 w = (n, d, w1)" by simp
  from u_read_insize [OF this 2(3)] show ?case by simp
qed simp

declare wc_loop.simps [simp del]

definition wc :: "int \<Rightarrow> string \<Rightarrow> world \<Rightarrow> unit ures" where
  "wc fd name w =
     (case wc_loop fd \<lparr>wc_l = 0, wc_w = 0, wc_c = 0, wc_inword = False\<rparr> w of (n, s, w) \<Rightarrow>
        if n < 0 then Exited 1 (u_printf ''wc: read error\<newline>'' [] w)
        else Ret () (u_printf ''%d %d %d %s\<newline>''
               [AInt (wc_l s), AInt (wc_w s), AInt (wc_c s), AStr (Some name)] w))"

fun wc_files :: "string list \<Rightarrow> world \<Rightarrow> unit ures" where
  "wc_files [] w = Exited 0 w"
| "wc_files (f # fs) w =
     (case sys (COpen f 0) w of (fd, w) \<Rightarrow>
        if fd < 0 then Exited 1 (u_printf ''wc: cannot open %s\<newline>'' [AStr (Some f)] w)
        else ubind (wc fd f w) (\<lambda>_ w. wc_files fs (do_call (CClose fd) w)))"

definition wc_main :: "string list \<Rightarrow> world \<Rightarrow> unit ures" where
  "wc_main argv w =
     (if length argv \<le> 1 then ubind (wc 0 [] w) (\<lambda>_ w. Exited 0 w) else wc_files (tl argv) w)"

section \<open>ls\<close>

definition DIRSIZ_u :: nat where "DIRSIZ_u = 14"

text \<open>The index after the last slash among the first \<open>i\<close> characters.\<close>

fun name_start :: "string \<Rightarrow> nat \<Rightarrow> nat" where
  "name_start path 0 = 0"
| "name_start path (Suc i) = (if path ! i = CHR ''/'' then Suc i else name_start path i)"

definition fmtname :: "string \<Rightarrow> string" where
  "fmtname path =
     (let p = drop (name_start path (length path)) path
      in if DIRSIZ_u \<le> length p then p else p @ replicate (DIRSIZ_u - length p) CHR '' '')"

text \<open>A directory entry as it is read: two bytes of inode number and the name.\<close>

definition ent_inum :: "string \<Rightarrow> nat" where
  "ent_inum de = of_char (de ! 0) + 256 * of_char (de ! 1)"

definition ent_name :: "string \<Rightarrow> string" where
  "ent_name de = takeWhile (\<lambda>c. c \<noteq> NUL) (drop 2 de)"

definition ls_line :: "string \<Rightarrow> world \<Rightarrow> world" where
  "ls_line name w =
     (case u_stat name w of (r, st, w) \<Rightarrow>
        if r < 0 then u_printf ''ls: cannot stat %s\<newline>'' [AStr (Some name)] w
        else u_printf ''%s %d %d %d\<newline>''
               [AStr (Some (fmtname name)), AInt (of_int (st_type st)), AInt (st_ino st), ALong (st_size st)] w)"

lemma log_call_inputs [simp]: "inputs (log_call c w) = inputs w"
  by (simp add: log_call_def)

lemma putc_inputs [simp]: "inputs (putc fd c w) = inputs w"
  by (simp add: putc_def)

lemma puts_all_inputs [simp]: "inputs (puts_all fd s w) = inputs w"
  by (induction s arbitrary: w) (simp_all add: puts_all_def)

lemma ptr_loop_inputs [simp]: "inputs (ptr_loop fd x n w) = inputs w"
  by (induction n arbitrary: x w) simp_all

lemma vprintf_inputs [simp]: "inputs (vprintf fd fmt st ap w) = inputs w"
  by (induction fd fmt st ap w rule: vprintf.induct) (simp_all add: u_printint_def u_printptr_def Let_def)

lemma u_printf_inputs [simp]: "inputs (u_printf fmt args w) = inputs w"
  by (simp add: u_printf_def)

lemma ls_line_inputs [simp]: "inputs (ls_line name w) = inputs w"
  by (simp add: ls_line_def u_stat_def u_fstat_def sys_def split: prod.split)

lemma insize_ls_line [simp]: "insize fd (ls_line name w) = insize fd w"
  by (simp only: insize_def ls_line_inputs)

function ls_entries :: "int \<Rightarrow> string \<Rightarrow> world \<Rightarrow> world" where
  "ls_entries fd path w =
     (case u_read fd 16 w of (n, de, w) \<Rightarrow>
        if n = 16 then
          (if ent_inum de = 0 then ls_entries fd path w
           else ls_entries fd path (ls_line (path @ ''/'' @ ent_name de) w))
        else w)"
  by pat_completeness auto
termination
proof (relation "measure (\<lambda>(fd, path, w). insize fd w)", goal_cases)
  case (2 fd path w n y de w1)
  then have "u_read fd 16 w = (n, de, w1)" "0 < n" by simp_all
  from u_read_insize [OF this] show ?case by simp
next
  case (3 fd path w n y de w1)
  then have "u_read fd 16 w = (n, de, w1)" "0 < n" by simp_all
  from u_read_insize [OF this] show ?case by simp
qed simp

declare ls_entries.simps [simp del]

definition ls :: "string \<Rightarrow> world \<Rightarrow> world" where
  "ls path w =
     (case sys (COpen path 0) w of (fd, w) \<Rightarrow>
        if fd < 0 then u_fprintf 2 ''ls: cannot open %s\<newline>'' [AStr (Some path)] w
        else case u_fstat fd w of (r, st, w) \<Rightarrow>
          if r < 0 then do_call (CClose fd) (u_fprintf 2 ''ls: cannot stat %s\<newline>'' [AStr (Some path)] w)
          else do_call (CClose fd)
            (if st_type st = 2 then
               u_printf ''%s %d %d %l\<newline>''
                 [AStr (Some (fmtname path)), AInt (of_int (st_type st)), AInt (st_ino st), ALong (st_size st)] w
             else if st_type st = 1 then
               (if 512 < length path + 1 + DIRSIZ_u + 1 then u_printf ''ls: path too long\<newline>'' [] w
                else ls_entries fd path w)
             else w))"

definition ls_main :: "string list \<Rightarrow> world \<Rightarrow> unit ures" where
  "ls_main argv w = Exited 0 (if length argv < 2 then ls ''.'' w else fold ls (tl argv) w)"

section \<open>kill, ln, mkdir, rm\<close>

definition str_buf :: "string \<Rightarrow> cbuf" where
  "str_buf s = (\<lambda>i. if i < length s then s ! i else NUL)"

definition kill_main :: "string list \<Rightarrow> world \<Rightarrow> unit ures" where
  "kill_main argv w =
     (if length argv < 2 then Exited 1 (u_fprintf 2 ''usage: kill pid...\<newline>'' [] w)
      else Exited 0 (fold (\<lambda>a w. do_call (CKill (sint (the (atoi (str_buf a))))) w) (tl argv) w))"

definition ln_main :: "string list \<Rightarrow> world \<Rightarrow> unit ures" where
  "ln_main argv w =
     (if length argv \<noteq> 3 then Exited 1 (u_fprintf 2 ''Usage: ln old new\<newline>'' [] w)
      else case sys (CLink (argv ! 1) (argv ! 2)) w of (r, w) \<Rightarrow>
        Exited 0 (if r < 0 then u_fprintf 2 ''link %s %s: failed\<newline>''
                              [AStr (Some (argv ! 1)), AStr (Some (argv ! 2))] w else w))"

fun mkdir_args :: "string list \<Rightarrow> world \<Rightarrow> world" where
  "mkdir_args [] w = w"
| "mkdir_args (a # as) w =
     (case sys (CMkdir a) w of (r, w) \<Rightarrow>
        if r < 0 then u_fprintf 2 ''mkdir: %s failed to create\<newline>'' [AStr (Some a)] w else mkdir_args as w)"

definition mkdir_main :: "string list \<Rightarrow> world \<Rightarrow> unit ures" where
  "mkdir_main argv w =
     (if length argv < 2 then Exited 1 (u_fprintf 2 ''Usage: mkdir files...\<newline>'' [] w)
      else Exited 0 (mkdir_args (tl argv) w))"

fun rm_args :: "string list \<Rightarrow> world \<Rightarrow> world" where
  "rm_args [] w = w"
| "rm_args (a # as) w =
     (case sys (CUnlink a) w of (r, w) \<Rightarrow>
        if r < 0 then u_fprintf 2 ''rm: %s failed to delete\<newline>'' [AStr (Some a)] w else rm_args as w)"

definition rm_main :: "string list \<Rightarrow> world \<Rightarrow> unit ures" where
  "rm_main argv w =
     (if length argv < 2 then Exited 1 (u_fprintf 2 ''Usage: rm files...\<newline>'' [] w)
      else Exited 0 (rm_args (tl argv) w))"

section \<open>zombie, stressfs, call\<close>

definition zombie_main :: "world \<Rightarrow> unit ures" where
  "zombie_main w = (case sys CFork w of (r, w) \<Rightarrow> Exited 0 (if 0 < r then do_call (CSleep 5) w else w))"

text \<open>The index at which the loop of forks stops; the argument counts the iterations left.\<close>

fun stress_forks :: "nat \<Rightarrow> nat \<Rightarrow> world \<Rightarrow> nat \<times> world" where
  "stress_forks i 0 w = (i, w)"
| "stress_forks i (Suc k) w =
     (case sys CFork w of (r, w) \<Rightarrow> if 0 < r then (i, w) else stress_forks (Suc i) k w)"

definition stressfs_main :: "world \<Rightarrow> unit ures" where
  "stressfs_main w =
     (case stress_forks 0 4 (u_printf ''stressfs starting\<newline>'' [] w) of (i, w) \<Rightarrow>
      let w = u_printf ''write %d\<newline>'' [AInt (of_nat i)] w;
          path = ''stressfs'' @ [char_of (48 + i)]
      in case sys (COpen path (O_CREATE OR O_RDWR)) w of (fd, w) \<Rightarrow>
      let w = (do_call (CWrite fd (replicate 512 CHR ''a'')) ^^ 20) w;
          w = do_call (CClose fd) w;
          w = u_printf ''read\<newline>'' [] w
      in case sys (COpen path O_RDONLY) w of (fd, w) \<Rightarrow>
      let w = ((\<lambda>w. snd (snd (u_read fd 512 w))) ^^ 20) w;
          w = do_call (CClose fd) w
      in Exited 0 (do_call CWait w))"

definition call_g :: "i32 \<Rightarrow> i32" where "call_g x = x + 3"
definition call_f :: "i32 \<Rightarrow> i32" where "call_f x = call_g x"

definition call_main :: "world \<Rightarrow> unit ures" where
  "call_main w = Exited 0 (u_printf ''%d %d\<newline>'' [AInt (call_f 8 + 1), AInt 13] w)"

section \<open>init\<close>

fun init_wait :: "nat \<Rightarrow> int \<Rightarrow> world \<Rightarrow> unit ures" where
  "init_wait 0 pid w = Running w"
| "init_wait (Suc n) pid w =
     (case sys CWait w of (wpid, w) \<Rightarrow>
        if wpid = pid then Ret () w
        else if wpid < 0 then Exited 1 (u_printf ''init: wait returned an error\<newline>'' [] w)
        else init_wait n pid w)"

fun init_loop :: "nat \<Rightarrow> world \<Rightarrow> unit ures" where
  "init_loop 0 w = Running w"
| "init_loop (Suc n) w =
     (case sys CFork (u_printf ''init: starting sh\<newline>'' [] w) of (pid, w) \<Rightarrow>
        if pid < 0 then Exited 1 (u_printf ''init: fork failed\<newline>'' [] w)
        else if pid = 0 then
          ubind (u_exec ''sh'' [''sh''] w) (\<lambda>_ w. Exited 1 (u_printf ''init: exec sh failed\<newline>'' [] w))
        else ubind (init_wait n pid w) (\<lambda>_ w. init_loop n w))"

definition init_main :: "nat \<Rightarrow> world \<Rightarrow> unit ures" where
  "init_main n w =
     (case sys (COpen ''console'' O_RDWR) w of (r, w) \<Rightarrow>
      let w = (if r < 0 then do_call (COpen ''console'' O_RDWR) (do_call (CMknod ''console'' 1 0) w) else w)
      in init_loop n (do_call (CDup 0) (do_call (CDup 0) w)))"

end
