(* ===== verification/Grind.thy ===== *)
theory Grind
  imports Programs
begin

text \<open>
  Programs that exercise the kernel: \<^verbatim>\<open>user/grind.c\<close>, \<^verbatim>\<open>user/forktest.c\<close> and \<^verbatim>\<open>user/bttest.c\<close>, seen from one process as in
  \<open>Programs\<close>.  What a call of \<^verbatim>\<open>wait\<close> leaves in the status variable is a function \<open>status\<close> of the calls made before it.  The endless
  loops of \<^verbatim>\<open>grind\<close> are given a number of rounds.
\<close>

section \<open>Random numbers\<close>

text \<open>The \<^verbatim>\<open>long\<close> values stay far from the 64-bit bounds, so they are integers.\<close>

definition do_rand :: "u64 \<Rightarrow> int \<times> u64" where
  "do_rand ctx =
     (let x = int (unat ctx mod 0x7ffffffe) + 1;
          hi = x div 127773;
          lo = x mod 127773;
          x = 16807 * lo - 2836 * hi;
          x = (if x < 0 then x + 0x7fffffff else x);
          x = x - 1
      in (x, word_of_int x))"

section \<open>grind\<close>

text \<open>
  One round of the loop of \<^verbatim>\<open>go\<close> for the number \<open>what\<close>; \<open>fd\<close> and \<open>buf\<close> are the variables that live across the rounds.
\<close>

definition go_step :: "(ucall list \<Rightarrow> int) \<Rightarrow> int \<Rightarrow> int \<Rightarrow> int \<Rightarrow> string \<Rightarrow> world \<Rightarrow> (int \<times> string) ures" where
  "go_step status break0 what fd buf w =
     (let rw = O_CREATE OR O_RDWR;
          touch = (\<lambda>path w. case sys (COpen path rw) w of (f, w) \<Rightarrow> do_call (CClose f) w);
          fail = (\<lambda>msg w. Exited 1 (u_printf msg [] w));
          go_on = Ret (fd, buf);
          forked = (\<lambda>child parent w. case sys CFork w of (pid, w) \<Rightarrow>
             if pid = 0 then child w else if pid < 0 then fail ''grind: fork failed\<newline>'' w else parent pid w);
          waited = (\<lambda>pid w. go_on (do_call CWait w))
      in if what = 1 then go_on (touch ''grindir/../a'' w)
         else if what = 2 then go_on (touch ''grindir/../grindir/../b'' w)
         else if what = 3 then go_on (do_call (CUnlink ''grindir/../a'') w)
         else if what = 4 then
           (case sys (CChdir ''grindir'') w of (r, w) \<Rightarrow>
              if r \<noteq> 0 then fail ''grind: chdir grindir failed\<newline>'' w
              else go_on (do_call (CChdir ''/'') (do_call (CUnlink ''../b'') w)))
         else if what = 5 then
           (case sys (COpen ''/grindir/../a'' rw) (do_call (CClose fd) w) of (fd, w) \<Rightarrow> Ret (fd, buf) w)
         else if what = 6 then
           (case sys (COpen ''/./grindir/./../b'' rw) (do_call (CClose fd) w) of (fd, w) \<Rightarrow> Ret (fd, buf) w)
         else if what = 7 then go_on (do_call (CWrite fd buf) w)
         else if what = 8 then
           (case u_read fd 999 w of (n, d, w) \<Rightarrow> Ret (fd, d @ drop (length d) buf) w)
         else if what = 9 then
           go_on (do_call (CUnlink ''a/a'') (touch ''a/../a/./a'' (do_call (CMkdir ''grindir/../a'') w)))
         else if what = 10 then
           go_on (do_call (CUnlink ''b/b'') (touch ''grindir/../b/b'' (do_call (CMkdir ''/../b'') w)))
         else if what = 11 then
           go_on (do_call (CLink ''../grindir/./../a'' ''../b'') (do_call (CUnlink ''b'') w))
         else if what = 12 then
           go_on (do_call (CLink ''.././b'' ''/grindir/../a'') (do_call (CUnlink ''../grindir/../a'') w))
         else if what = 13 then forked (\<lambda>w. Exited 0 w) waited w
         else if what = 14 then forked (\<lambda>w. Exited 0 (do_call CFork (do_call CFork w))) waited w
         else if what = 15 then go_on (do_call (CSbrk 6011) w)
         else if what = 16 then
           (case sys (CSbrk 0) w of (b, w) \<Rightarrow>
              if b > break0
              then case sys (CSbrk 0) w of (b, w) \<Rightarrow> go_on (do_call (CSbrk (- (b - break0))) w)
              else go_on w)
         else if what = 17 then
           forked (\<lambda>w. Exited 0 (touch ''a'' w))
             (\<lambda>pid w. case sys (CChdir ''../grindir/..'') w of (r, w) \<Rightarrow>
                if r \<noteq> 0 then fail ''grind: chdir failed\<newline>'' w
                else go_on (do_call CWait (do_call (CKill pid) w))) w
         else if what = 18 then
           forked (\<lambda>w. case sys CGetpid w of (p, w) \<Rightarrow> Exited 0 (do_call (CKill p) w)) waited w
         else if what = 19 then
           (case u_pipe w of (r, (fds0, fds1), w) \<Rightarrow>
              if r < 0 then fail ''grind: pipe failed\<newline>'' w
              else forked
                (\<lambda>w. case sys (CWrite fds1 ''x'') (do_call CFork (do_call CFork w)) of (r, w) \<Rightarrow>
                   let w = (if r \<noteq> 1 then u_printf ''grind: pipe write failed\<newline>'' [] w else w)
                   in case u_read fds0 1 w of (n, d, w) \<Rightarrow>
                     Exited 0 (if n \<noteq> 1 then u_printf ''grind: pipe read failed\<newline>'' [] w else w))
                (\<lambda>pid w. go_on (do_call CWait (do_call (CClose fds1) (do_call (CClose fds0) w)))) w)
         else if what = 20 then
           forked
             (\<lambda>w. let w = do_call (CUnlink ''../a'') (do_call (CChdir ''a'') (do_call (CMkdir ''a'') (do_call (CUnlink ''a'') w)))
                  in Exited 0 (do_call (CUnlink ''x'') (do_call (COpen ''x'' rw) w)))
             waited w
         else if what = 21 then
           (case sys (COpen ''c'' rw) (do_call (CUnlink ''c'') w) of (fd1, w) \<Rightarrow>
              if fd1 < 0 then fail ''grind: create c failed\<newline>'' w
              else case sys (CWrite fd1 ''x'') w of (r, w) \<Rightarrow>
              if r \<noteq> 1 then fail ''grind: write c failed\<newline>'' w
              else case u_fstat fd1 w of (r, st, w) \<Rightarrow>
              if r \<noteq> 0 then fail ''grind: fstat failed\<newline>'' w
              else if st_size st \<noteq> 1
              then Exited 1 (u_printf ''grind: fstat reports wrong size %d\<newline>'' [AInt (ucast (st_size st))] w)
              else if 200 < st_ino st
              then Exited 1 (u_printf ''grind: fstat reports crazy i-number %d\<newline>'' [AInt (st_ino st)] w)
              else go_on (do_call (CUnlink ''c'') (do_call (CClose fd1) w)))
         else if what = 22 then
           (case u_pipe w of (r, (aa0, aa1), w) \<Rightarrow>
              if r < 0 then Exited 1 (u_fprintf 2 ''grind: pipe failed\<newline>'' [] w)
              else case u_pipe w of (r, (bb0, bb1), w) \<Rightarrow>
              if r < 0 then Exited 1 (u_fprintf 2 ''grind: pipe failed\<newline>'' [] w)
              else case sys CFork w of (pid1, w) \<Rightarrow>
              if pid1 = 0 then
                (case sys (CDup aa1) (fold (\<lambda>f. do_call (CClose f)) [bb0, bb1, aa0, 1] w) of (r, w) \<Rightarrow>
                   if r \<noteq> 1 then Exited 1 (u_fprintf 2 ''grind: dup failed\<newline>'' [] w)
                   else ubind (u_exec ''grindir/../echo'' [''echo'', ''hi''] (do_call (CClose aa1) w)) (\<lambda>_ w.
                     Exited 2 (u_fprintf 2 ''grind: echo: not found\<newline>'' [] w)))
              else if pid1 < 0 then Exited 3 (u_fprintf 2 ''grind: fork failed\<newline>'' [] w)
              else case sys CFork w of (pid2, w) \<Rightarrow>
              if pid2 = 0 then
                (case sys (CDup aa0) (fold (\<lambda>f. do_call (CClose f)) [aa1, bb0, 0] w) of (r, w) \<Rightarrow>
                   if r \<noteq> 0 then Exited 4 (u_fprintf 2 ''grind: dup failed\<newline>'' [] w)
                   else case sys (CDup bb1) (fold (\<lambda>f. do_call (CClose f)) [aa0, 1] w) of (r, w) \<Rightarrow>
                   if r \<noteq> 1 then Exited 5 (u_fprintf 2 ''grind: dup failed\<newline>'' [] w)
                   else ubind (u_exec ''/cat'' [''cat''] (do_call (CClose bb1) w)) (\<lambda>_ w.
                     Exited 6 (u_fprintf 2 ''grind: cat: not found\<newline>'' [] w)))
              else if pid2 < 0 then Exited 7 (u_fprintf 2 ''grind: fork failed\<newline>'' [] w)
              else case u_read bb0 1 (fold (\<lambda>f. do_call (CClose f)) [aa0, aa1, bb1] w) of (n0, d0, w) \<Rightarrow>
                case u_read bb0 1 w of (n1, d1, w) \<Rightarrow>
                case u_read bb0 1 w of (n2, d2, w) \<Rightarrow>
                let cell = (\<lambda>d. if d = [] then NUL else hd d);
                    got = takeWhile (\<lambda>c. c \<noteq> NUL) [cell d0, cell d1, cell d2];
                    w = do_call (CClose bb0) w;
                    st1 = status (calls w); w = do_call CWait w;
                    st2 = status (calls w); w = do_call CWait w
                in if st1 \<noteq> 0 \<or> st2 \<noteq> 0 \<or> got \<noteq> ''hi\<newline>''
                   then Exited 1 (u_printf ''grind: exec pipeline failed %d %d \"%s\"\<newline>''
                     [AInt (word_of_int st1), AInt (word_of_int st2), AStr (Some got)] w)
                   else go_on w)
         else go_on w)"

fun go_loop :: "nat \<Rightarrow> (ucall list \<Rightarrow> int) \<Rightarrow> bool \<Rightarrow> int \<Rightarrow> u64 \<Rightarrow> u64 \<Rightarrow> int \<Rightarrow> string \<Rightarrow> world \<Rightarrow> unit ures" where
  "go_loop 0 status which break0 iters ctx fd buf w = Running w"
| "go_loop (Suc n) status which break0 iters ctx fd buf w =
     (let iters = iters + 1;
          w = (if iters mod 500 = 0 then do_call (CWrite 1 (if which then ''B'' else ''A'')) w else w)
      in case do_rand ctx of (x, ctx) \<Rightarrow>
        ubind (go_step status break0 (x mod 23) fd buf w) (\<lambda>(fd, buf) w.
          go_loop n status which break0 iters ctx fd buf w))"

definition go :: "nat \<Rightarrow> (ucall list \<Rightarrow> int) \<Rightarrow> bool \<Rightarrow> u64 \<Rightarrow> world \<Rightarrow> unit ures" where
  "go n status which rand_next w =
     (case sys (CSbrk 0) w of (break0, w) \<Rightarrow>
      case sys (CChdir ''grindir'') (do_call (CMkdir ''grindir'') w) of (r, w) \<Rightarrow>
        if r \<noteq> 0 then Exited 1 (u_printf ''grind: chdir grindir failed\<newline>'' [] w)
        else go_loop n status which break0 0 rand_next (- 1) (replicate 999 NUL) (do_call (CChdir ''/'') w))"

definition grind_iter :: "nat \<Rightarrow> (ucall list \<Rightarrow> int) \<Rightarrow> world \<Rightarrow> unit ures" where
  "grind_iter n status w =
     (case sys CFork (do_call (CUnlink ''b'') (do_call (CUnlink ''a'') w)) of (pid1, w) \<Rightarrow>
        if pid1 < 0 then Exited 1 (u_printf ''grind: fork failed\<newline>'' [] w)
        else if pid1 = 0 then ubind (go n status False 31 w) (\<lambda>_ w. Exited 0 w)
        else case sys CFork w of (pid2, w) \<Rightarrow>
        if pid2 < 0 then Exited 1 (u_printf ''grind: fork failed\<newline>'' [] w)
        else if pid2 = 0 then ubind (go n status True 7177 w) (\<lambda>_ w. Exited 0 w)
        else case sys CWait w of (r, w') \<Rightarrow>
        let st1 = (if r < 0 then - 1 else status (calls w));
            w = (if st1 \<noteq> 0 then do_call (CKill pid2) (do_call (CKill pid1) w') else w')
        in Exited 0 (do_call CWait w))"

fun grind_main :: "nat \<Rightarrow> (ucall list \<Rightarrow> int) \<Rightarrow> world \<Rightarrow> unit ures" where
  "grind_main 0 status w = Running w"
| "grind_main (Suc n) status w =
     (case sys CFork w of (pid, w) \<Rightarrow>
        if pid = 0 then ubind (grind_iter n status w) (\<lambda>_ w. Exited 0 w)
        else grind_main n status (do_call (CSleep 20) (if 0 < pid then do_call CWait w else w)))"

section \<open>forktest and bttest\<close>

fun forktest_forks :: "nat \<Rightarrow> nat \<Rightarrow> world \<Rightarrow> nat ures" where
  "forktest_forks n 0 w = Ret n w"
| "forktest_forks n (Suc k) w =
     (case sys CFork w of (pid, w) \<Rightarrow>
        if pid < 0 then Ret n w else if pid = 0 then Exited 0 w else forktest_forks (Suc n) k w)"

fun forktest_waits :: "nat \<Rightarrow> world \<Rightarrow> unit ures" where
  "forktest_waits 0 w = Ret () w"
| "forktest_waits (Suc n) w =
     (case sys CWait w of (r, w) \<Rightarrow>
        if r < 0 then Exited 1 (do_call (CWrite 1 ''wait stopped early\<newline>'') w) else forktest_waits n w)"

definition forktest_main :: "world \<Rightarrow> unit ures" where
  "forktest_main w =
     ubind (forktest_forks 0 1000 (do_call (CWrite 1 ''fork test\<newline>'') w)) (\<lambda>n w.
       if n = 1000 then Exited 1 (do_call (CWrite 1 ''fork claimed to work N times!\<newline>'') w)
       else ubind (forktest_waits n w) (\<lambda>_ w.
         case sys CWait w of (r, w) \<Rightarrow>
           if r \<noteq> - 1 then Exited 1 (do_call (CWrite 1 ''wait got too many\<newline>'') w)
           else Exited 0 (do_call (CWrite 1 ''fork test OK\<newline>'') w)))"

definition bttest_main :: "world \<Rightarrow> unit ures" where
  "bttest_main w = Exited 0 (do_call (CSleep 1) w)"

section \<open>What holds of them\<close>

text \<open>
  The generator computes the sequence of Park and Miller: 16807 times the previous number modulo \<open>2\<^sup>31 - 1\<close>, shifted to
  start at 0, without an intermediate value above 31 bits.
\<close>

lemma schrage:
  fixes x :: int
  assumes "1 \<le> x" "x < 2147483647"
  defines "y \<equiv> 16807 * (x mod 127773) - 2836 * (x div 127773)"
  shows "(if y < 0 then y + 2147483647 else y) = 16807 * x mod 2147483647"
    "\<bar>y\<bar> < 2147483647"
proof -
  have hi: "0 \<le> x div 127773" "x div 127773 \<le> 16807" using assms(1,2) by auto
  have lo: "0 \<le> x mod 127773" "x mod 127773 \<le> 127772" by auto
  have x: "x = x div 127773 * 127773 + x mod 127773" by simp
  have e: "16807 * x = y + x div 127773 * 2147483647" using x unfolding y_def by linarith
  have b: "- 2147483647 < y" "y < 2147483647" using hi lo by (simp_all add: y_def)
  then show "\<bar>y\<bar> < 2147483647" by simp
  have "16807 * x mod 2147483647 = y mod 2147483647" unfolding e by simp
  moreover have "y mod 2147483647 = (if y < 0 then y + 2147483647 else y)"
  proof (cases "y < 0")
    case True
    have "y mod 2147483647 = (y + 2147483647) mod 2147483647" by simp
    also have "\<dots> = y + 2147483647" using True b by (intro mod_pos_pos_trivial) auto
    finally show ?thesis using True by simp
  qed (use b in \<open>simp add: mod_pos_pos_trivial\<close>)
  ultimately show "(if y < 0 then y + 2147483647 else y) = 16807 * x mod 2147483647" by simp
qed

lemma do_rand_park_miller:
  defines "x \<equiv> (\<lambda>ctx :: u64. int (unat ctx mod 0x7ffffffe) + 1)"
  shows "fst (do_rand ctx) = 16807 * x ctx mod (2 ^ 31 - 1) - 1" "0 \<le> fst (do_rand ctx)" "fst (do_rand ctx) < 2 ^ 31 - 2"
    "x (snd (do_rand ctx)) = 16807 * x ctx mod (2 ^ 31 - 1)"
proof -
  let ?X = "x ctx" and ?M = "2147483647 :: int"
  have X: "1 \<le> ?X" "?X < ?M" by (auto simp: x_def)
  define m where "m = 16807 * ?X mod ?M"
  have "m \<noteq> 0"
  proof
    assume "m = 0"
    then have "?M dvd 16807 * ?X" by (simp add: m_def mod_eq_0_iff_dvd)
    moreover have "coprime ?M 16807" by (simp add: coprime_iff_gcd_eq_1 gcd_non_0_int)
    ultimately have "?M dvd ?X" by (simp add: coprime_dvd_mult_right_iff)
    then show False using X zdvd_imp_le [of ?M ?X] by simp
  qed
  then have m: "1 \<le> m" "m \<le> 2147483646"
    using pos_mod_bound [of ?M "16807 * ?X"] pos_mod_sign [of ?M "16807 * ?X"] by (simp_all add: m_def)
  have xe: "int (unat ctx mod 0x7ffffffe) + 1 = ?X" by (simp add: x_def)
  have d: "do_rand ctx = (m - 1, word_of_int (m - 1))"
    unfolding do_rand_def Let_def xe m_def schrage(1) [OF X] ..
  define k where "k = nat (m - 1)"
  have k: "m - 1 = int k" "k < 2147483646" using m by (simp_all add: k_def)
  then have "unat (word_of_int (m - 1) :: u64) = k" unfolding k(1) by (simp add: unsigned_of_nat take_bit_nat_eq_self)
  then have "x (snd (do_rand ctx)) = int k + 1" unfolding d snd_conv x_def using k(2) by simp
  then show "x (snd (do_rand ctx)) = 16807 * ?X mod (2 ^ 31 - 1)" using k(1) by (simp add: m_def)
  show "fst (do_rand ctx) = 16807 * ?X mod (2 ^ 31 - 1) - 1" by (simp add: d m_def)
  show "0 \<le> fst (do_rand ctx)" "fst (do_rand ctx) < 2 ^ 31 - 2" using m by (simp_all add: d)
qed

end
