(* ===== verification/Mkfs.thy ===== *)
theory Mkfs
  imports Dinode
begin

text \<open>
  The image builder, \<^verbatim>\<open>mkfs/mkfs.c\<close>, a program of the host.  Its state is the image file, a list of bytes,
  and its global variables.  Of the host it uses whether the image can be opened and a sector of it written, and
  the chunks in which the reads of an input file deliver its content; messages are left out.  A failed call
  ends the program through \<^verbatim>\<open>die\<close>, with the message it is given; a failed \<^verbatim>\<open>assert\<close> aborts it.  On-disk inodes
  have the layout of \<open>load_dinode\<close> and \<open>store_dinode\<close>; the fields an on-disk inode does not have are never used.
\<close>

record mkst =
  fsimg :: "byte list"
  freeinode :: u32
  freeblock :: u32
  mk_sb :: superblock
  img_open :: "string \<Rightarrow> bool"
  wsect_ok :: "u32 \<Rightarrow> bool"
  infile :: "string \<Rightarrow> byte list list option"

datatype 'a mkres = MkOk 'a mkst | MkDie string | MkAbort

fun mk_bind :: "'a mkres \<Rightarrow> ('a \<Rightarrow> mkst \<Rightarrow> 'b mkres) \<Rightarrow> 'b mkres" where
  "mk_bind (MkOk a s) f = f a s"
| "mk_bind (MkDie m) f = MkDie m"
| "mk_bind MkAbort f = MkAbort"

fun mk_each :: "('x \<Rightarrow> mkst \<Rightarrow> unit mkres) \<Rightarrow> 'x list \<Rightarrow> mkst \<Rightarrow> unit mkres" where
  "mk_each f [] s = MkOk () s"
| "mk_each f (x # xs) s = mk_bind (f x s) (\<lambda>_ s. mk_each f xs s)"

abbreviation FSSIZE :: nat where "FSSIZE \<equiv> 1000"
abbreviation NINODES :: nat where "NINODES \<equiv> 200"

section \<open>Byte order and sectors\<close>

text \<open>The bytes are stored from the least significant one on; the host is little-endian.\<close>

definition xshort :: "u16 \<Rightarrow> u16" where
  "xshort x = word_of_bytes [ucast x, ucast (drop_bit 8 x)]"

definition xint :: "u32 \<Rightarrow> u32" where
  "xint x = word_of_bytes [ucast x, ucast (drop_bit 8 x), ucast (drop_bit 16 x), ucast (drop_bit 24 x)]"

definition mk_wsect :: "u32 \<Rightarrow> byte list \<Rightarrow> mkst \<Rightarrow> unit mkres" where
  "mk_wsect sec buf s =
     (let off = unat (sec * of_nat BSIZE); f = fsimg s @ replicate (off - length (fsimg s)) 0
      in if wsect_ok s sec then MkOk () (s\<lparr>fsimg := put_at off buf f\<rparr>) else MkDie ''write'')"

definition mk_rsect :: "u32 \<Rightarrow> mkst \<Rightarrow> byte list mkres" where
  "mk_rsect sec s =
     (let buf = take BSIZE (drop (unat (sec * of_nat BSIZE)) (fsimg s))
      in if length buf = BSIZE then MkOk buf s else MkDie ''read'')"

section \<open>Inodes\<close>

abbreviation zero_dinode :: inode where
  "zero_dinode \<equiv> \<lparr>idev = 0, inum = 0, iref = 0, ivalid = False, itype = 0, imajor = 0, iminor = 0, nlink = 0,
     isize = 0, addrs = replicate (NDIRECT + 1) 0\<rparr>"

definition mk_winode :: "u32 \<Rightarrow> inode \<Rightarrow> mkst \<Rightarrow> unit mkres" where
  "mk_winode ino ip s =
     (let bn = IBLOCK ino (mk_sb s)
      in mk_bind (mk_rsect bn s) (\<lambda>buf s. mk_wsect bn (store_dinode (dinode_off ino) ip buf) s))"

definition mk_rinode :: "u32 \<Rightarrow> mkst \<Rightarrow> inode mkres" where
  "mk_rinode ino s =
     mk_bind (mk_rsect (IBLOCK ino (mk_sb s)) s) (\<lambda>buf s. MkOk (load_dinode (dinode_off ino) buf zero_dinode) s)"

definition mk_ialloc :: "u16 \<Rightarrow> mkst \<Rightarrow> u32 mkres" where
  "mk_ialloc ty s =
     (let ino = freeinode s; s = s\<lparr>freeinode := freeinode s + 1\<rparr>;
          din = zero_dinode\<lparr>itype := xshort ty, nlink := xshort 1, isize := xint 0\<rparr>
      in mk_bind (mk_winode ino din s) (\<lambda>_ s. MkOk ino s))"

definition mk_balloc :: "nat \<Rightarrow> mkst \<Rightarrow> unit mkres" where
  "mk_balloc used s =
     (if used < BSIZE * 8
      then let buf = fold (\<lambda>i buf. buf[i div 8 := (buf ! (i div 8)) OR bit_mask i]) [0..<used] (replicate BSIZE 0)
           in mk_wsect (bmapstart (mk_sb s)) buf s
      else MkAbort)"

section \<open>Appending to a file\<close>

text \<open>The block for block number \<open>fbn\<close> of the file, allocated if there is none: its number and the changed inode.\<close>

definition iappend_block :: "nat \<Rightarrow> inode \<Rightarrow> mkst \<Rightarrow> (u32 \<times> inode) mkres" where
  "iappend_block fbn din s =
     (let alloc = (\<lambda>k din s.
            if xint (addrs din ! k) = 0
            then (din\<lparr>addrs := (addrs din)[k := xint (freeblock s)]\<rparr>, s\<lparr>freeblock := freeblock s + 1\<rparr>) else (din, s))
      in if fbn < NDIRECT
         then case alloc fbn din s of (din, s) \<Rightarrow> MkOk (xint (addrs din ! fbn), din) s
         else case alloc NDIRECT din s of (din, s) \<Rightarrow>
           let ind = xint (addrs din ! NDIRECT); k = fbn - NDIRECT
           in mk_bind (mk_rsect ind s) (\<lambda>indirect s.
              if get32 (4 * k) indirect = 0
              then let x = xint (freeblock s); indirect = put32 (4 * k) x indirect; s = s\<lparr>freeblock := freeblock s + 1\<rparr>
                   in mk_bind (mk_wsect ind indirect s) (\<lambda>_ s. MkOk (xint x, din) s)
              else MkOk (xint (get32 (4 * k) indirect), din) s))"

function iappend_loop :: "byte list \<Rightarrow> nat \<Rightarrow> inode \<Rightarrow> mkst \<Rightarrow> (nat \<times> inode) mkres" where
  "iappend_loop p off din s =
     (if p = [] then MkOk (off, din) s
      else let fbn = off div BSIZE
      in if MAXFILE \<le> fbn then MkAbort
         else mk_bind (iappend_block fbn din s) (\<lambda>(x, din) s.
           let n1 = min (length p) ((fbn + 1) * BSIZE - off)
           in mk_bind (mk_rsect x s) (\<lambda>buf s.
              mk_bind (mk_wsect x (put_at (off - fbn * BSIZE) (take n1 p) buf) s) (\<lambda>_ s.
              iappend_loop (drop n1 p) (off + n1) din s))))"
  by pat_completeness auto
termination
proof (relation "measure (\<lambda>(p, off, din, s). length p)", goal_cases)
  case (2 p off)
  have "off < (off div BSIZE + 1) * BSIZE" using dividend_less_div_times [of BSIZE off] by (simp add: BSIZE_def)
  then show ?case using 2 by (cases p) (auto simp: min_def)
qed simp

declare iappend_loop.simps [simp del]

definition iappend :: "u32 \<Rightarrow> byte list \<Rightarrow> mkst \<Rightarrow> unit mkres" where
  "iappend ino p s =
     mk_bind (mk_rinode ino s) (\<lambda>din s.
     mk_bind (iappend_loop p (unat (xint (isize din))) din s) (\<lambda>(off, din) s.
     mk_winode ino (din\<lparr>isize := xint (of_nat off)\<rparr>) s))"

section \<open>The program\<close>

definition mkfs_file :: "u32 \<Rightarrow> string \<Rightarrow> mkst \<Rightarrow> unit mkres" where
  "mkfs_file rootino arg s =
     (let shortname = (if take 5 arg = ''user/'' then drop 5 arg else arg)
      in if CHR ''/'' \<in> set shortname then MkAbort
         else case infile s arg of
           None \<Rightarrow> MkDie arg
         | Some chunks \<Rightarrow>
             let shortname = (if shortname \<noteq> [] \<and> hd shortname = CHR ''_'' then tl shortname else shortname)
             in mk_bind (mk_ialloc T_FILE s) (\<lambda>ino s.
                mk_bind (iappend rootino (dirent (map of_char shortname) (xshort (ucast ino))) s) (\<lambda>_ s.
                mk_each (iappend ino) (takeWhile (\<lambda>c. c \<noteq> []) chunks) s)))"

definition mkfs_main :: "string list \<Rightarrow> mkst \<Rightarrow> unit mkres" where
  "mkfs_main argv s =
     (if length argv < 2 then MkDie ''Usage: mkfs fs.img files...''
      else if BSIZE mod DINODE_SIZE \<noteq> 0 \<or> BSIZE mod DIRENT_SIZE \<noteq> 0 then MkAbort
      else if \<not> img_open s (argv ! 1) then MkDie (argv ! 1)
      else let nbitmap = FSSIZE div (BSIZE * 8) + 1; ninodeblocks = NINODES div IPB + 1;
               nmeta = 2 + LOGSIZE + ninodeblocks + nbitmap;
               sb = \<lparr>magic = FSMAGIC, fssize = xint (of_nat FSSIZE), nblocks = xint (of_nat (FSSIZE - nmeta)),
                     ninodes = xint (of_nat NINODES), nlog = xint (of_nat LOGSIZE), logstart = xint 2,
                     inodestart = xint (of_nat (2 + LOGSIZE)), bmapstart = xint (of_nat (2 + LOGSIZE + ninodeblocks))\<rparr>;
               s = s\<lparr>fsimg := [], freeinode := 1, freeblock := of_nat nmeta, mk_sb := sb\<rparr>;
               sbytes = concat (map (bytes_of_word 4) [magic sb, fssize sb, nblocks sb, ninodes sb, nlog sb,
                          logstart sb, inodestart sb, bmapstart sb])
      in mk_bind (mk_each (\<lambda>i s. mk_wsect (of_nat i) (replicate BSIZE 0) s) [0..<FSSIZE] s) (\<lambda>_ s.
         mk_bind (mk_wsect 1 (put_at 0 sbytes (replicate BSIZE 0)) s) (\<lambda>_ s.
         mk_bind (mk_ialloc T_DIR s) (\<lambda>rootino s.
         if rootino \<noteq> ROOTINO then MkAbort
         else mk_bind (iappend rootino (dirent [46] (xshort (ucast rootino))) s) (\<lambda>_ s.
              mk_bind (iappend rootino (dirent [46, 46] (xshort (ucast rootino))) s) (\<lambda>_ s.
              mk_bind (mk_each (mkfs_file rootino) (drop 2 argv) s) (\<lambda>_ s.
              mk_bind (mk_rinode rootino s) (\<lambda>din s.
              let off = xint (isize din); off = (off div of_nat BSIZE + 1) * of_nat BSIZE
              in mk_bind (mk_winode rootino (din\<lparr>isize := xint off\<rparr>) s) (\<lambda>_ s.
                 mk_balloc (unat (freeblock s)) s)))))))))"

section \<open>Sectors and inodes are read back as written\<close>

lemma xshort_id [simp]: "xshort x = x"
proof -
  have "bytes_of_word 2 x = [ucast x, ucast (drop_bit 8 x)]" by (simp add: bytes_of_word_def numeral_2_eq_2)
  then show ?thesis using word_of_bytes_of_word [of 2 x] by (simp add: xshort_def)
qed

lemma xint_id [simp]: "xint x = x"
proof -
  have "bytes_of_word 4 x = [ucast x, ucast (drop_bit 8 x), ucast (drop_bit 16 x), ucast (drop_bit 24 x)]"
    by (simp add: bytes_of_word_def numeral_eq_Suc)
  then show ?thesis using word_of_bytes_of_word [of 4 x] by (simp add: xint_def)
qed

lemma sect_off: "sec < of_nat FSSIZE \<Longrightarrow> unat (sec * of_nat BSIZE :: u32) = unat sec * BSIZE"
proof -
  assume "sec < of_nat FSSIZE"
  then have "unat sec < 1000" by (simp add: word_less_nat_alt)
  then show ?thesis by (simp add: unat_word_ariths BSIZE_def)
qed

lemma put_at_read:
  assumes "off \<le> length f"
  shows "take (length new) (drop off (put_at off new f)) = new"
    "off' + n \<le> off \<Longrightarrow> take n (drop off' (put_at off new f)) = take n (drop off' f)"
    "off + length new \<le> off' \<Longrightarrow> take n (drop off' (put_at off new f)) = take n (drop off' f)"
  using assms by (simp_all add: put_at_def drop_take)

lemma wsect_rsect:
  assumes ok: "wsect_ok s sec" and buf: "length buf = BSIZE" and sec: "sec < of_nat FSSIZE"
  shows "\<exists>t. mk_wsect sec buf s = MkOk () t \<and> mk_rsect sec t = MkOk buf t \<and> mk_sb t = mk_sb s \<and>
    (\<forall>sec' b. sec' \<noteq> sec \<and> sec' < of_nat FSSIZE \<and> mk_rsect sec' s = MkOk b s \<longrightarrow> mk_rsect sec' t = MkOk b t)"
proof -
  let ?o = "unat sec * BSIZE" and ?f = "fsimg s @ replicate (unat sec * BSIZE - length (fsimg s)) 0"
  let ?t = "s\<lparr>fsimg := put_at ?o buf ?f\<rparr>"
  have l: "?o \<le> length ?f" by simp
  have "mk_rsect sec' ?t = MkOk b ?t" if a: "sec' \<noteq> sec" "sec' < of_nat FSSIZE" "mk_rsect sec' s = MkOk b s" for sec' b
  proof -
    let ?o' = "unat sec' * BSIZE"
    have b: "take BSIZE (drop ?o' (fsimg s)) = b" "length b = BSIZE"
      using a(3) by (auto simp: mk_rsect_def sect_off [OF a(2)] Let_def split: if_splits)
    then have "?o' + BSIZE \<le> length (fsimg s)" by (auto simp: BSIZE_def min_def split: if_splits)
    then have f: "take BSIZE (drop ?o' ?f) = b" using b(1) by simp
    have "unat sec' < unat sec \<or> unat sec < unat sec'" using a(1) by (metis nat_neq_iff word_unat_eq_iff)
    then have "?o' + BSIZE \<le> ?o \<or> ?o + length buf \<le> ?o'" by (auto simp: BSIZE_def buf)
    then have "take BSIZE (drop ?o' (put_at ?o buf ?f)) = b" using put_at_read [OF l, where new = buf] f by metis
    then show ?thesis using b(2) by (simp add: mk_rsect_def sect_off [OF a(2)])
  qed
  moreover have "mk_wsect sec buf s = MkOk () ?t" using ok by (simp add: mk_wsect_def sect_off [OF sec] Let_def)
  moreover have "mk_rsect sec ?t = MkOk buf ?t"
    using put_at_read(1) [OF l, of buf] buf by (simp add: mk_rsect_def sect_off [OF sec])
  ultimately show ?thesis by (intro exI [of _ ?t]) simp
qed

text \<open>
  The last step of \<^verbatim>\<open>main\<close> rounds the size of the root directory up beyond its last block: when the entries
  fill their blocks exactly, the size reaches into a block that the directory does not have.
\<close>

lemma root_size_past_end:
  fixes off :: u32
  assumes "unat off = n * BSIZE" "n < 200"
  shows "unat ((off div of_nat BSIZE + 1) * of_nat BSIZE) = (n + 1) * BSIZE"
proof -
  have "unat (off div of_nat BSIZE) = n" using assms by (simp add: unat_div BSIZE_def)
  then show ?thesis using assms(2) by (simp add: unat_word_ariths BSIZE_def)
qed

end
