(* ===== verification/Spec2Isabelle.thy ===== *)
theory Spec2Isabelle
  imports Spinlock_MP Vm_Properties Boot Proc_Properties Trap_Properties Vm_Life
    Asm_Properties Fs_Properties Pipe_Properties Uart_Facts Umalloc_Properties Sh_Properties Grep Grind Mkfs
begin

text \<open>
  A verification of xv6-riscv in the version of the traps lab (with \<^verbatim>\<open>backtrace\<close>, \<^verbatim>\<open>sigalarm\<close> and \<^verbatim>\<open>sigreturn\<close>):
  the kernel in C and assembly, the user library and programs, and the image builder.  File names are
  relative to \<^verbatim>\<open>src/\<close>.

  \<^bold>\<open>The program.\<close>  A user process enters the kernel by a trap: \<^verbatim>\<open>trampoline.S\<close> saves its registers in the trapframe,
  \<^verbatim>\<open>usertrap\<close> dispatches to a system call, a device interrupt or the timer, and \<^verbatim>\<open>usertrapret\<close> leads back.  System
  calls act on processes (\<^verbatim>\<open>proc.c\<close>), address spaces (\<^verbatim>\<open>vm.c\<close> over the pages of \<^verbatim>\<open>kalloc.c\<close>), and files.  Files are
  pipes, devices or inodes; inodes lie on a log, the log on a buffer cache, the cache on the disk driver.
  A process that waits calls \<^verbatim>\<open>sleep\<close>, which switches to the scheduler of its hart; interrupt handlers call \<^verbatim>\<open>wakeup\<close>.

  \<^bold>\<open>How the kernel is modelled.\<close>  The state is a chain of extensible records, each component adding the
  variables it owns: \<open>machine\<close> (harts and spin locks), \<open>kmem\<close> (memory as a function from 64-bit addresses to bytes,
  and the free list), \<open>vm\<close>, \<open>procs\<close>, \<open>io\<close>, \<open>slocks\<close>, \<open>virtio\<close>, \<open>log\<close>, \<open>fs\<close>, \<open>files\<close>, \<open>kernel\<close>.  A routine is a function
  from the state to an outcome of type \<open>out\<close>:
    \<^item> \<open>Ok v s\<close>: it returned \<open>v\<close> in state \<open>s\<close>;
    \<^item> \<open>Panic msg\<close>: the kernel stopped with that message;
    \<^item> \<open>Spin\<close>: it waits forever, or longer than the bound of the loop;
    \<^item> \<open>Swtch s k\<close>: it switched to the scheduler in state \<open>s\<close>; the continuation \<open>k\<close> resumes it in the state then found.
  Routines are composed by \<open>and_then\<close> and \<open>for_each\<close>; \<open>drive e\<close> runs a routine whose context switches are answered
  by the environment \<open>e\<close>.  C integers keep their width as words where they can wrap.  Pointers to table entries
  are indices, null pointers are \<open>None\<close> or 0.  Page tables, trapframes and pipes are bytes of memory at the offsets of
  their C structures.

  \<^bold>\<open>Theories and sources.\<close>
    \<^item> \<open>Xv6_Prelude\<close>: word types, byte memory with loads and stores, outcomes, and the facts shared by all.
    \<^item> \<open>Machine\<close>: \<^verbatim>\<open>kernel/spinlock.c\<close> for one hart; \<open>Spinlock_MP\<close>: the same protocol, and \<^verbatim>\<open>allocpid\<close>, as an interleaving
      of atomic steps of all harts (an inductive step relation).
    \<^item> \<open>Kstring\<close>: \<^verbatim>\<open>kernel/string.c\<close>.  \<open>Riscv\<close>: the constants and bit layouts of \<^verbatim>\<open>kernel/riscv.h\<close> and \<^verbatim>\<open>kernel/memlayout.h\<close>.
    \<^item> \<open>Kalloc\<close>: \<^verbatim>\<open>kernel/kalloc.c\<close>, with the locale \<open>page_allocator\<close> for its contract, interpreted on \<open>kalloc\<close> and \<open>kfree\<close>.
    \<^item> \<open>Vm\<close>: \<^verbatim>\<open>kernel/vm.c\<close>.  \<open>Pagetable\<close>, \<open>Vm_Walk\<close>, \<open>Vm_Copy\<close>, \<open>Vm_Space\<close>, \<open>Vm_Fork\<close>, \<open>Vm_Free\<close> hold the tree behind a page table and
      the facts on each routine; \<open>Vm_Properties\<close> and \<open>Vm_Life\<close> the main statements.
    \<^item> \<open>Proc\<close>: \<^verbatim>\<open>kernel/proc.c\<close>; \<open>Proc_Facts\<close>, \<open>Proc_Properties\<close> its facts and statements;
      \<open>Sleep_MP\<close>: \<^verbatim>\<open>sleep\<close>, \<^verbatim>\<open>wakeup\<close> and the scheduler as an interleaving of the statements of all harts (an inductive step relation).
    \<^item> \<open>Console\<close>: \<^verbatim>\<open>kernel/uart.c\<close>, \<^verbatim>\<open>kernel/console.c\<close>, \<^verbatim>\<open>kernel/printf.c\<close>; \<open>Uart_Facts\<close>: the transmit queue.
    \<^item> \<open>Sleeplock\<close>, \<open>Virtio\<close>, \<open>Bio\<close>, \<open>Log\<close>, \<open>Fs\<close>, \<open>File\<close>: \<^verbatim>\<open>kernel/sleeplock.c\<close>, \<^verbatim>\<open>kernel/virtio_disk.c\<close>, \<^verbatim>\<open>kernel/bio.c\<close>,
      \<^verbatim>\<open>kernel/log.c\<close>, \<^verbatim>\<open>kernel/fs.c\<close>, \<^verbatim>\<open>kernel/file.c\<close> with \<^verbatim>\<open>kernel/pipe.c\<close>.
    \<^item> \<open>Exec\<close>: \<^verbatim>\<open>kernel/exec.c\<close> and \<^verbatim>\<open>userinit\<close>, \<^verbatim>\<open>fork\<close>, \<^verbatim>\<open>exit\<close>.  \<open>Syscall\<close>: \<^verbatim>\<open>kernel/syscall.c\<close>, \<^verbatim>\<open>kernel/sysproc.c\<close>,
      \<^verbatim>\<open>kernel/sysfile.c\<close>.  \<open>Trap\<close>: \<^verbatim>\<open>kernel/trap.c\<close>, \<^verbatim>\<open>kernel/plic.c\<close>.  \<open>Boot\<close>: \<^verbatim>\<open>kernel/start.c\<close>, \<^verbatim>\<open>kernel/main.c\<close>.
    \<^item> \<open>Asm\<close>, \<open>Asm_Properties\<close>: the instruction lists of \<^verbatim>\<open>kernel/*.S\<close> and of the user stubs, with an interpreter.
    \<^item> \<open>Crash_Logic\<close>: a Hoare logic with crash conditions.  \<open>Disk_Facts\<close>, \<open>Bio_Facts\<close>, \<open>Log_Facts\<close>, \<open>Log_Trans\<close>, \<open>Disk_Properties\<close>:
      driver, cache, log, transactions, and the statements on the storage stack.
    \<^item> \<open>Dinode\<close>, \<open>Fs_Facts\<close>, \<open>Inode_Facts\<close>, \<open>Inode_Write\<close>, \<open>Fs_Properties\<close>: the layout of an inode on disk, blocks and bitmap inside a
      transaction, \<^verbatim>\<open>bmap\<close> and \<^verbatim>\<open>readi\<close>, \<^verbatim>\<open>writei\<close>, and the statements on files.
    \<^item> \<open>Ring\<close>: ring buffers with wrapping counters as a locale, interpreted for pipes (\<open>Pipe_Facts\<close>, 512 slots, 32-bit
      counters) and for the UART (\<open>Uart_Facts\<close>, 32 slots, 64-bit counters).  \<open>Pipe_Properties\<close>: the contract of pipes.
    \<^item> \<open>Kernel_Frames\<close>, \<open>Demo_State\<close>: fields that locking leaves alone, and a concrete kernel for the witnesses.
    \<^item> \<open>Userland\<close>: \<^verbatim>\<open>user/ulib.c\<close>, \<^verbatim>\<open>user/printf.c\<close>.  \<open>Umalloc\<close> with \<open>Umalloc_Facts\<close>, \<open>Umalloc_Properties\<close>: \<^verbatim>\<open>user/umalloc.c\<close>.
      \<open>Sh\<close>, \<open>Sh_Properties\<close>: \<^verbatim>\<open>user/sh.c\<close>.  \<open>Grep\<close>: \<^verbatim>\<open>user/grep.c\<close>.  \<open>Programs\<close>, \<open>Grind\<close>: the other programs.
    \<^item> \<open>Mkfs\<close>: \<^verbatim>\<open>mkfs/mkfs.c\<close>.

  \<^bold>\<open>What is shown.\<close>
    \<^item> Locks: mutual exclusion on any number of harts, critical sections behave as if run one after the other,
      and \<^verbatim>\<open>allocpid\<close> never gives a pid twice (before 32-bit wrap-around).
    \<^item> Storage: a disk request completes through sleep, interrupt and wake-up; the buffer cache is a store of blocks;
      recovery replays the log; a transaction is atomic under a crash at any moment and any number of
      crashes during the recoveries that follow.
    \<^item> Files: \<^verbatim>\<open>balloc\<close> and \<^verbatim>\<open>bfree\<close> keep the bitmap exact; an inode with its direct and indirect blocks is a sequence of bytes, which
      \<^verbatim>\<open>readi\<close> reads and \<^verbatim>\<open>writei\<close> overwrites and extends, without touching blocks of others.
    \<^item> Queues: a pipe is a bounded queue of bytes, also across the wrap-around of its counters, and its callers sleep, resume, wake
      each other and fail exactly when they should; the UART neither loses,
      repeats nor reorders output.
    \<^item> Memory: owned and free pages partition the RAM; \<^verbatim>\<open>mappages\<close>, \<^verbatim>\<open>copyin\<close>, \<^verbatim>\<open>copyout\<close>, \<^verbatim>\<open>copyinstr\<close>, \<^verbatim>\<open>uvmalloc\<close>, \<^verbatim>\<open>uvmcopy\<close> and the
      creation and destruction of address spaces do what they promise, failures included, and leak no page; a copy to one address
      space leaves the others alone; \<^verbatim>\<open>memmove\<close> copies overlapping ranges and \<^verbatim>\<open>safestrcpy\<close> terminates within its range.
    \<^item> Processes: no interleaving of \<^verbatim>\<open>sleep\<close>, \<^verbatim>\<open>wakeup\<close> and schedulers loses a wake-up; the locking protocol of \<^verbatim>\<open>yield\<close> and the scheduler, and the exact effect of \<^verbatim>\<open>wakeup\<close> and \<^verbatim>\<open>kill\<close>.
    \<^item> Traps: the alarm fires at the n-th tick, is not re-entered, and \<^verbatim>\<open>sigreturn\<close> restores the frame; the trampoline,
      \<^verbatim>\<open>swtch\<close> and \<^verbatim>\<open>kernelvec\<close> preserve the registers they must.
    \<^item> User level: \<^verbatim>\<open>malloc\<close> and \<^verbatim>\<open>free\<close> keep the heap well formed and \<^verbatim>\<open>malloc\<close> fails exactly when \<^verbatim>\<open>sbrk\<close> does,
      \<^verbatim>\<open>grep\<close> decides the language of the expression and prints
      the matching lines, the parser of the shell is total and inverts the printing of command trees.
  Some statements record where the code falls short: \<^verbatim>\<open>freeproc\<close> leaves a pointer to a freed alarm frame, \<^verbatim>\<open>sigreturn\<close> loses \<^verbatim>\<open>a0\<close>,
  \<^verbatim>\<open>sbrk\<close> below zero and large \<^verbatim>\<open>malloc\<close> requests wrap around, \<^verbatim>\<open>piperead\<close> loses a byte that it cannot copy out, and \<^verbatim>\<open>mkfs\<close> can give the root directory a size beyond its last block.
  The directory and path routines of \<^verbatim>\<open>fs.c\<close>, and \<^verbatim>\<open>file.c\<close>, \<^verbatim>\<open>exec.c\<close>, \<^verbatim>\<open>sysfile.c\<close>, \<^verbatim>\<open>start.c\<close> and \<^verbatim>\<open>main.c\<close> are modelled in full
  and have no main statement of their own.  The statements on \<^verbatim>\<open>readi\<close> and \<^verbatim>\<open>writei\<close> are for kernel buffers, as directories and \<^verbatim>\<open>exec\<close> use them.

  \<^bold>\<open>Parameters.\<close>  What is not in the sources is an argument.  Device registers are answered by the field \<open>device\<close> from the
  history of accesses.  The disk is a function with the contract \<open>blk_device\<close>: it serves the one request at the end of
  the ring; \<open>ring_device\<close> is a concrete one.  While a process waits for the disk, \<open>serve\<close> composes the scheduler,
  the device, \<^verbatim>\<open>virtio_disk_intr\<close> and the scheduler's switch back, all from the kernel's own definitions.  The storage
  theorems hold for one process using the disk at a time.  A crash leaves the disk as some context switch found it; a
  block is written as a whole, as the log relies on.  User programs see the kernel as a record \<open>os\<close> of functions of
  the calls made before, and input in arbitrary chunks; \<^verbatim>\<open>sbrk\<close> is a parameter of the allocator; \<^verbatim>\<open>mkfs\<close> gets the
  outcomes of the host's calls.  The interpreter of assembly gets address translation and compiled code as functions.

  \<^bold>\<open>Bounds.\<close>  Loops that count or walk a finite structure get a bound that they cannot reach: \<open>page_fuel\<close> is two more
  than the number of pages, \<open>dir_fuel\<close> two more than the number of entries of a directory, the search of the buffer list has one
  step more than there are buffers, \<^verbatim>\<open>uartstart\<close> one more than its buffer has slots, and the completion loop of
  the disk 65536 steps, the range of its 16-bit index.  The parser of the shell gets \<open>depth_of\<close>, four times the length of the line plus
  four, which is shown to suffice.  Loops that wait for another process or a device are bounded by
  \<open>WAKEUPS\<close> or \<open>POLLS\<close> (1000 each) and end in \<open>Spin\<close> beyond; the statements on the disk prove
  \<open>Ok\<close> and those on pipes \<open>Ok\<close> or a sleeping process, before and after one sleep, so there the bound is not reached.  Endless loops (the scheduler, \<^verbatim>\<open>init\<close>, \<^verbatim>\<open>grind\<close>)
  have a number of rounds as an argument and end in \<open>Spin\<close> or \<open>Running\<close>.

  \<^bold>\<open>Not modelled.\<close>
    \<^item> \<^verbatim>\<open>kernel/ramdisk.c\<close>: not built, and it uses \<^verbatim>\<open>b->flags\<close>, \<^verbatim>\<open>B_VALID\<close>, \<^verbatim>\<open>B_DIRTY\<close> and \<^verbatim>\<open>RAMDISK\<close>, which no header declares.
    \<^item> \<^verbatim>\<open>user/usertests.c\<close>: its tests say what the kernel should do, and with the kernel as a parameter they
      would only restate that.
    \<^item> \<^verbatim>\<open>user/alarmtest.c\<close>: its handlers run asynchronously in the memory and registers of the compiled program.
    \<^item> The linker script and the build files; the messages \<^verbatim>\<open>mkfs\<close> prints.
    \<^item> Interleaving inside the kernel is treated for spin locks and at context switches.  Races on data that no lock
      guards, the weak memory order behind \<^verbatim>\<open>__sync_synchronize\<close>, and several processes in the file system at once are
      outside the model.
\<close>

end
